(* ===== verification/Prelude.thy ===== *)
theory Prelude
  imports Main "HOL-Library.Word" "HOL-Library.Monad_Syntax"
begin

unbundle bit_operations_syntax

text \<open>
  The vocabulary every component of the kernel model shares: the machine types of
  \<^verbatim>\<open>include/types.h\<close>, a panicking kernel assertion, the rounding macros, the bit
  operations of \<^verbatim>\<open>include/bitops.h\<close> and the facts on numbers, bits and intervals that the
  component proofs use.

  A kernel function that may panic has a result of type \<open>'a option\<close>: \<open>None\<close> is
  \<^verbatim>\<open>panic\<close>, which prints and never returns (\<^verbatim>\<open>kern/debug/panic.c\<close>). A pointer that
  may be \<^verbatim>\<open>NULL\<close> is an \<open>option\<close> inside that result, and an error code is a value.
\<close>

section \<open>Types and collections\<close>

type_synonym u8 = "8 word"
type_synonym u16 = "16 word"
type_synonym u32 = "32 word"
type_synonym u64 = "64 word"

named_theorems kernel_simps "unfolding of small kernel accessors"
named_theorems frame_simps "what an operation leaves unchanged"

section \<open>Assertions\<close>

text \<open>\<^verbatim>\<open>assert(x)\<close>: panics, that is, does not return, when the condition fails.\<close>

definition kassert :: "bool \<Rightarrow> unit option" where
  "kassert x = (if x then Some () else None)"

lemma kassert_bind [simp]: "Option.bind (kassert b) f = (if b then f () else None)"
  by (simp add: kassert_def)

lemma bind_Some_iff: "(Option.bind m f = Some y) = (\<exists>x. m = Some x \<and> f x = Some y)"
  by (cases m) auto

section \<open>Rounding\<close>

definition ROUNDDOWN :: "u32 \<Rightarrow> u32 \<Rightarrow> u32" where
  "ROUNDDOWN a n = a - a mod n"

definition ROUNDUP :: "u32 \<Rightarrow> u32 \<Rightarrow> u32" where
  "ROUNDUP a n = ROUNDDOWN (a + n - 1) n"

lemma unat_ROUNDDOWN: "unat (ROUNDDOWN a n) = unat a - unat a mod unat n"
proof -
  have "a mod n \<le> a"
    by (simp add: word_le_nat_alt unat_mod)
  then show ?thesis
    by (simp add: ROUNDDOWN_def unat_sub unat_mod)
qed

lemma unat_ROUNDDOWN_div: "unat (ROUNDDOWN a n) = unat n * (unat a div unat n)"
  by (simp add: unat_ROUNDDOWN minus_mod_eq_mult_div)

lemma ROUNDDOWN_le: "ROUNDDOWN a n \<le> a"
  by (simp add: word_le_nat_alt unat_ROUNDDOWN)

lemma ROUNDDOWN_dvd: "unat n dvd unat (ROUNDDOWN a n)"
  by (simp add: unat_ROUNDDOWN_div)

text \<open>
  Rounding up is exact as long as the sum does not wrap: the result is the least multiple of
  \<open>n\<close> that is not below \<open>a\<close>.
\<close>

lemma unat_ROUNDUP:
  assumes "0 < unat n" and "unat a + unat n \<le> 2 ^ 32"
  shows "unat (ROUNDUP a n) = unat n * ((unat a + unat n - 1) div unat n)"
proof -
  have n1: "1 \<le> n"
    using assms(1) by (simp add: word_le_nat_alt)
  have "unat (a + (n - 1)) = unat a + unat (n - 1)"
    using assms n1 by (subst unat_plus_if') (simp add: unat_sub)
  also have "\<dots> = unat a + unat n - 1"
    using assms(1) n1 by (simp add: unat_sub)
  finally have "unat (a + n - 1) = unat a + unat n - 1"
    by (simp add: add_diff_eq)
  then show ?thesis
    by (simp add: ROUNDUP_def unat_ROUNDDOWN_div)
qed

lemma div_round_up_bounds:
  fixes a n :: nat
  assumes "0 < n"
  shows "a \<le> n * ((a + n - 1) div n)" and "n * ((a + n - 1) div n) < a + n"
proof -
  have "a + n - 1 = n * ((a + n - 1) div n) + (a + n - 1) mod n"
    by simp
  moreover have "(a + n - 1) mod n < n"
    using assms by simp
  ultimately show "a \<le> n * ((a + n - 1) div n)" and "n * ((a + n - 1) div n) < a + n"
    using assms by linarith+
qed

section \<open>Bit operations on one word\<close>

text \<open>
  \<^verbatim>\<open>BIT_MASK\<close> and the bodies of \<^verbatim>\<open>__set_bit\<close>, \<^verbatim>\<open>__clear_bit\<close>, \<^verbatim>\<open>__change_bit\<close>,
  \<^verbatim>\<open>__test_and_set_bit\<close>, \<^verbatim>\<open>__test_and_clear_bit\<close> and \<^verbatim>\<open>test_bit\<close>: \<open>addr\<close> is an
  array of 32-bit longs, \<^verbatim>\<open>BIT_WORD(nr)\<close> selects the element.
\<close>

definition BIT_MASK :: "nat \<Rightarrow> u32" where
  "BIT_MASK nr = push_bit (nr mod 32) 1"

definition BIT_WORD :: "nat \<Rightarrow> nat" where
  "BIT_WORD nr = nr div 32"

definition set_bit_arr :: "nat \<Rightarrow> (nat \<Rightarrow> u32) \<Rightarrow> (nat \<Rightarrow> u32)" where
  "set_bit_arr nr addr = addr(BIT_WORD nr := addr (BIT_WORD nr) OR BIT_MASK nr)"

definition clear_bit_arr :: "nat \<Rightarrow> (nat \<Rightarrow> u32) \<Rightarrow> (nat \<Rightarrow> u32)" where
  "clear_bit_arr nr addr = addr(BIT_WORD nr := addr (BIT_WORD nr) AND NOT (BIT_MASK nr))"

definition change_bit_arr :: "nat \<Rightarrow> (nat \<Rightarrow> u32) \<Rightarrow> (nat \<Rightarrow> u32)" where
  "change_bit_arr nr addr = addr(BIT_WORD nr := addr (BIT_WORD nr) XOR BIT_MASK nr)"

definition test_and_set_bit_arr :: "nat \<Rightarrow> (nat \<Rightarrow> u32) \<Rightarrow> bool \<times> (nat \<Rightarrow> u32)" where
  "test_and_set_bit_arr nr addr =
     (let old = addr (BIT_WORD nr) in
      (old AND BIT_MASK nr \<noteq> 0, addr(BIT_WORD nr := old OR BIT_MASK nr)))"

definition test_and_clear_bit_arr :: "nat \<Rightarrow> (nat \<Rightarrow> u32) \<Rightarrow> bool \<times> (nat \<Rightarrow> u32)" where
  "test_and_clear_bit_arr nr addr =
     (let old = addr (BIT_WORD nr) in
      (old AND BIT_MASK nr \<noteq> 0, addr(BIT_WORD nr := old AND NOT (BIT_MASK nr))))"

definition test_bit_arr :: "nat \<Rightarrow> (nat \<Rightarrow> u32) \<Rightarrow> bool" where
  "test_bit_arr nr addr = (1 AND drop_bit (nr mod 32) (addr (BIT_WORD nr)) \<noteq> 0)"

text \<open>The same operations on the first long of an array, as the page flags use them.\<close>

definition set_bit_w :: "nat \<Rightarrow> u32 \<Rightarrow> u32" where
  "set_bit_w nr w = set_bit_arr nr (\<lambda>_. w) 0"

definition clear_bit_w :: "nat \<Rightarrow> u32 \<Rightarrow> u32" where
  "clear_bit_w nr w = clear_bit_arr nr (\<lambda>_. w) 0"

definition test_bit_w :: "nat \<Rightarrow> u32 \<Rightarrow> bool" where
  "test_bit_w nr w = test_bit_arr nr (\<lambda>_. w)"

lemma bit_BIT_MASK: "bit (BIT_MASK nr) i \<longleftrightarrow> i = nr mod 32"
  by (auto simp: BIT_MASK_def bit_simps)

lemma and_BIT_MASK_iff: "(w AND BIT_MASK nr \<noteq> 0) = bit w (nr mod 32)"
proof -
  have "w AND BIT_MASK nr = (if bit w (nr mod 32) then BIT_MASK nr else 0)"
    by (rule bit_eqI) (auto simp: bit_simps bit_BIT_MASK)
  moreover have "BIT_MASK nr \<noteq> 0"
    by (metis bit_BIT_MASK bit_0_eq bot_apply bot_bool_def)
  ultimately show ?thesis
    by simp
qed

lemma test_bit_arr_iff: "test_bit_arr nr addr \<longleftrightarrow> bit (addr (BIT_WORD nr)) (nr mod 32)"
proof -
  have "1 AND drop_bit (nr mod 32) w = (if bit w (nr mod 32) then 1 else 0)" for w :: u32
    by (simp add: and.commute [of 1] and_one_eq mod_2_eq_odd bit_iff_odd_drop_bit)
  then show ?thesis
    by (simp add: test_bit_arr_def)
qed

lemmas bit_arr_defs = set_bit_arr_def clear_bit_arr_def change_bit_arr_def BIT_WORD_def

lemma div_mod_32_eq: "m div 32 = n div 32 \<Longrightarrow> m mod 32 = n mod 32 \<Longrightarrow> m = (n :: nat)"
  by (metis div_mult_mod_eq)

lemma test_set_bit_arr: "test_bit_arr m (set_bit_arr n addr) \<longleftrightarrow> m = n \<or> test_bit_arr m addr"
  by (auto simp: test_bit_arr_iff bit_arr_defs bit_simps bit_BIT_MASK dest: div_mod_32_eq)

lemma test_clear_bit_arr: "test_bit_arr m (clear_bit_arr n addr) \<longleftrightarrow> m \<noteq> n \<and> test_bit_arr m addr"
  by (auto simp: test_bit_arr_iff bit_arr_defs bit_simps bit_BIT_MASK dest: div_mod_32_eq)

lemma test_change_bit_arr:
  "test_bit_arr m (change_bit_arr n addr) \<longleftrightarrow> (if m = n then \<not> test_bit_arr m addr else test_bit_arr m addr)"
  by (auto simp: test_bit_arr_iff bit_arr_defs bit_simps bit_BIT_MASK dest: div_mod_32_eq)

lemma test_and_set_bit_arr_eq: "test_and_set_bit_arr n addr = (test_bit_arr n addr, set_bit_arr n addr)"
  by (simp add: test_and_set_bit_arr_def Let_def and_BIT_MASK_iff test_bit_arr_iff set_bit_arr_def)

lemma test_and_clear_bit_arr_eq:
  "test_and_clear_bit_arr n addr = (test_bit_arr n addr, clear_bit_arr n addr)"
  by (simp add: test_and_clear_bit_arr_def Let_def and_BIT_MASK_iff test_bit_arr_iff clear_bit_arr_def)

lemma test_set_bit_w [simp]:
  assumes "m < 32" "n < 32" shows "test_bit_w m (set_bit_w n w) \<longleftrightarrow> m = n \<or> test_bit_w m w"
  using assms by (auto simp: test_bit_w_def set_bit_w_def test_bit_arr_iff bit_arr_defs bit_simps bit_BIT_MASK)

lemma test_clear_bit_w [simp]:
  assumes "m < 32" "n < 32" shows "test_bit_w m (clear_bit_w n w) \<longleftrightarrow> m \<noteq> n \<and> test_bit_w m w"
  using assms by (auto simp: test_bit_w_def clear_bit_w_def test_bit_arr_iff bit_arr_defs bit_simps bit_BIT_MASK)

lemma test_bit_w_zero [simp]: "\<not> test_bit_w m 0"
  by (simp add: test_bit_w_def test_bit_arr_iff)

section \<open>Aligned blocks of natural numbers\<close>

text \<open>The buddy of an aligned block, computed by \<^verbatim>\<open>^\<close> and \<^verbatim>\<open>&\<close>, in arithmetic.\<close>

lemma and_mask_zero_iff: "(i AND (2 ^ k - 1) = 0) = ((2::nat) ^ k dvd i)"
  unfolding mask_eq_exp_minus_1 [symmetric] take_bit_eq_mask [symmetric]
  by (simp add: take_bit_eq_0_iff)

lemma and_power_zero_iff: "(i AND 2 ^ k = 0) = (\<not> bit i k)" for i :: nat
proof -
  have "i AND 2 ^ k = (if bit i k then 2 ^ k else 0)"
    by (rule bit_eqI) (auto simp: bit_simps)
  then show ?thesis by simp
qed

lemma bit_nat_iff_div: "bit i k \<longleftrightarrow> odd (i div 2 ^ k)" for i :: nat
  by (simp add: bit_iff_odd)

lemma xor_power_aligned:
  assumes "2 ^ k dvd (i :: nat)"
  shows "i XOR 2 ^ k = (if bit i k then i - 2 ^ k else i + 2 ^ k)"
proof (cases "bit i k")
  case True
  then have "i = (i XOR 2 ^ k) + 2 ^ k"
    by (subst disjunctive_add_eq_or) (auto intro!: bit_eqI simp: bit_simps)
  with True show ?thesis by simp
next
  case False
  then show ?thesis
    by (subst disjunctive_add_eq_xor) (auto intro!: bit_eqI simp: bit_simps)
qed

lemma and_xor_power_aligned:
  assumes "2 ^ k dvd (i :: nat)"
  shows "i AND (i XOR 2 ^ k) = (if bit i k then i - 2 ^ k else i)"
proof -
  have "i AND (i XOR 2 ^ k) = (if bit i k then i XOR 2 ^ k else i)"
    by (rule bit_eqI) (auto simp: bit_simps)
  then show ?thesis
    using xor_power_aligned [OF assms] by simp
qed

lemma aligned_bit_clear: "2 ^ k dvd i \<Longrightarrow> \<not> bit i k \<Longrightarrow> 2 ^ Suc k dvd (i :: nat)"
  by (auto simp: bit_nat_iff_div elim!: dvdE evenE)

lemma aligned_bit_set: "2 ^ k dvd i \<Longrightarrow> bit i k \<Longrightarrow> 2 ^ Suc k dvd i - 2 ^ k \<and> 2 ^ k \<le> (i :: nat)"
proof -
  assume a: "2 ^ k dvd i" "bit i k"
  then obtain c where c: "i = 2 ^ k * c" by (auto elim!: dvdE)
  with a have "odd c" by (simp add: bit_nat_iff_div)
  then obtain d where "c = 2 * d + 1" by (auto elim!: oddE)
  with c show ?thesis by (simp add: algebra_simps)
qed

lemma interval_split: "a \<le> b \<Longrightarrow> b \<le> c \<Longrightarrow> {a..<c} = {a..<b} \<union> {b..<c::nat}"
  by (simp add: ivl_disj_un_two)

lemma unat_u32_less [simp]: "unat (x :: u32) < 4294967296"
  using unsigned_less [of x, where ?'a = nat] by simp

lemma unat_power_2: "k < 32 \<Longrightarrow> unat (2 ^ k :: u32) = 2 ^ k"
proof -
  assume "k < 32"
  then have "(2 :: nat) ^ k < 2 ^ 32" by (intro power_strict_increasing) simp_all
  then show ?thesis
    using unat_of_nat [of "2 ^ k", where ?'a = 32] by (simp add: take_bit_eq_mod)
qed

end
