(* ===== verification/Strings.thy ===== *)
theory Strings
  imports Prelude
begin

text \<open>
  The string and memory routines of \<^verbatim>\<open>lib/string.c\<close>, on byte-addressed memory with 32-bit
  addresses that wrap. The bodies are the portable ones (no \<^verbatim>\<open>__HAVE_ARCH_\<close> override). A loop
  that ends only at a terminating zero byte is a partial function, whose value \<open>None\<close> means
  that it does not return; a loop that counts a size down is structural in that size.
\<close>

section \<open>Definitions\<close>

type_synonym mem = "u32 \<Rightarrow> u8"

partial_function (option) strlen_loop :: "mem \<Rightarrow> u32 \<Rightarrow> u32 \<Rightarrow> u32 option" where
  "strlen_loop m s cnt = (if m s \<noteq> 0 then strlen_loop m (s + 1) (cnt + 1) else Some cnt)"

definition strlen :: "mem \<Rightarrow> u32 \<Rightarrow> u32 option" where
  "strlen m s = strlen_loop m s 0"

text \<open>\<^verbatim>\<open>strnlen\<close>: \<open>k\<close> is the number of characters that may still be scanned, \<^verbatim>\<open>len - cnt\<close>.\<close>

fun strnlen_loop :: "mem \<Rightarrow> u32 \<Rightarrow> nat \<Rightarrow> u32 \<Rightarrow> u32" where
  "strnlen_loop m s 0 cnt = cnt"
| "strnlen_loop m s (Suc k) cnt = (if m s \<noteq> 0 then strnlen_loop m (s + 1) k (cnt + 1) else cnt)"

definition strnlen :: "mem \<Rightarrow> u32 \<Rightarrow> u32 \<Rightarrow> u32" where
  "strnlen m s len = strnlen_loop m s (unat len) 0"

partial_function (option) strcpy_loop :: "u32 \<Rightarrow> u32 \<Rightarrow> mem \<Rightarrow> mem option" where
  "strcpy_loop p src m =
     (if m src \<noteq> 0 then strcpy_loop (p + 1) (src + 1) (m(p := m src)) else Some (m(p := m src)))"

definition strcpy :: "u32 \<Rightarrow> u32 \<Rightarrow> mem \<Rightarrow> mem option" where
  "strcpy dst src m = strcpy_loop dst src m"

fun strncpy_loop :: "u32 \<Rightarrow> u32 \<Rightarrow> nat \<Rightarrow> mem \<Rightarrow> mem" where
  "strncpy_loop p src 0 m = m"
| "strncpy_loop p src (Suc k) m =
     (let c = m src in strncpy_loop (p + 1) (if c \<noteq> 0 then src + 1 else src) k (m(p := c)))"

definition strncpy :: "u32 \<Rightarrow> u32 \<Rightarrow> u32 \<Rightarrow> mem \<Rightarrow> mem" where
  "strncpy dst src len m = strncpy_loop dst src (unat len) m"

partial_function (option) strcmp :: "mem \<Rightarrow> u32 \<Rightarrow> u32 \<Rightarrow> int option" where
  "strcmp m s1 s2 =
     (if m s1 \<noteq> 0 \<and> m s1 = m s2 then strcmp m (s1 + 1) (s2 + 1) else Some (uint (m s1) - uint (m s2)))"

fun strncmp_loop :: "mem \<Rightarrow> u32 \<Rightarrow> u32 \<Rightarrow> nat \<Rightarrow> int" where
  "strncmp_loop m s1 s2 0 = 0"
| "strncmp_loop m s1 s2 (Suc n) =
     (if m s1 \<noteq> 0 \<and> m s1 = m s2 then strncmp_loop m (s1 + 1) (s2 + 1) n else uint (m s1) - uint (m s2))"

definition strncmp :: "mem \<Rightarrow> u32 \<Rightarrow> u32 \<Rightarrow> u32 \<Rightarrow> int" where
  "strncmp m s1 s2 n = strncmp_loop m s1 s2 (unat n)"

text \<open>\<^verbatim>\<open>strchr\<close> returns a pointer or \<^verbatim>\<open>NULL\<close>, \<^verbatim>\<open>strfind\<close> always a pointer.\<close>

partial_function (option) strchr :: "mem \<Rightarrow> u32 \<Rightarrow> u8 \<Rightarrow> u32 option option" where
  "strchr m s c =
     (if m s \<noteq> 0 then if m s = c then Some (Some s) else strchr m (s + 1) c else Some None)"

partial_function (option) strfind :: "mem \<Rightarrow> u32 \<Rightarrow> u8 \<Rightarrow> u32 option" where
  "strfind m s c = (if m s \<noteq> 0 then if m s = c then Some s else strfind m (s + 1) c else Some s)"

text \<open>\<^verbatim>\<open>strtol\<close>: white space, sign, base prefix, digits. \<^verbatim>\<open>long\<close> arithmetic wraps at 32 bits.\<close>

partial_function (option) skip_blanks :: "mem \<Rightarrow> u32 \<Rightarrow> u32 option" where
  "skip_blanks m s = (if m s = 32 \<or> m s = 9 then skip_blanks m (s + 1) else Some s)"

definition digit_value :: "u8 \<Rightarrow> int option" where
  "digit_value c =
     (if 48 \<le> c \<and> c \<le> 57 then Some (uint c - 48)
      else if 97 \<le> c \<and> c \<le> 122 then Some (uint c - 97 + 10)
      else if 65 \<le> c \<and> c \<le> 90 then Some (uint c - 65 + 10)
      else None)"

partial_function (option) strtol_digits :: "mem \<Rightarrow> u32 \<Rightarrow> int \<Rightarrow> u32 \<Rightarrow> (u32 \<times> u32) option" where
  "strtol_digits m s base val =
     (case digit_value (m s) of
        None \<Rightarrow> Some (s, val)
      | Some dig \<Rightarrow>
          if base \<le> dig then Some (s, val)
          else strtol_digits m (s + 1) base (val * of_int base + of_int dig))"

definition strtol :: "mem \<Rightarrow> u32 \<Rightarrow> int \<Rightarrow> (u32 \<times> u32) option" where
  "strtol m s base = do {
     s1 \<leftarrow> skip_blanks m s;
     let (s2, neg) =
       (if m s1 = 43 then (s1 + 1, False) else if m s1 = 45 then (s1 + 1, True) else (s1, False));
     let (s3, base') =
       (if (base = 0 \<or> base = 16) \<and> (m s2 = 48 \<and> m (s2 + 1) = 120) then (s2 + 2, 16)
        else if base = 0 \<and> m s2 = 48 then (s2 + 1, 8)
        else if base = 0 then (s2, 10)
        else (s2, base));
     (endptr, val) \<leftarrow> strtol_digits m s3 base' 0;
     Some (endptr, if neg then - val else val)
   }"

fun memset_loop :: "u32 \<Rightarrow> u8 \<Rightarrow> nat \<Rightarrow> mem \<Rightarrow> mem" where
  "memset_loop p c 0 m = m"
| "memset_loop p c (Suc n) m = memset_loop (p + 1) c n (m(p := c))"

definition memset :: "u32 \<Rightarrow> u8 \<Rightarrow> u32 \<Rightarrow> mem \<Rightarrow> mem" where
  "memset s c n m = memset_loop s c (unat n) m"

text \<open>Copying upwards (\<^verbatim>\<open>*d ++ = *s ++\<close>) and downwards (\<^verbatim>\<open>*-- d = *-- s\<close>).\<close>

fun copy_up :: "u32 \<Rightarrow> u32 \<Rightarrow> nat \<Rightarrow> mem \<Rightarrow> mem" where
  "copy_up d s 0 m = m"
| "copy_up d s (Suc n) m = copy_up (d + 1) (s + 1) n (m(d := m s))"

fun copy_down :: "u32 \<Rightarrow> u32 \<Rightarrow> nat \<Rightarrow> mem \<Rightarrow> mem" where
  "copy_down d s 0 m = m"
| "copy_down d s (Suc n) m = copy_down (d - 1) (s - 1) n (m(d - 1 := m (s - 1)))"

definition memmove :: "u32 \<Rightarrow> u32 \<Rightarrow> u32 \<Rightarrow> mem \<Rightarrow> mem" where
  "memmove dst src n m =
     (if src < dst \<and> src + n > dst then copy_down (dst + n) (src + n) (unat n) m
      else copy_up dst src (unat n) m)"

definition memcpy :: "u32 \<Rightarrow> u32 \<Rightarrow> u32 \<Rightarrow> mem \<Rightarrow> mem" where
  "memcpy dst src n m = copy_up dst src (unat n) m"

fun memcmp_loop :: "mem \<Rightarrow> u32 \<Rightarrow> u32 \<Rightarrow> nat \<Rightarrow> int" where
  "memcmp_loop m s1 s2 0 = 0"
| "memcmp_loop m s1 s2 (Suc n) =
     (if m s1 \<noteq> m s2 then uint (m s1) - uint (m s2) else memcmp_loop m (s1 + 1) (s2 + 1) n)"

definition memcmp :: "mem \<Rightarrow> u32 \<Rightarrow> u32 \<Rightarrow> u32 \<Rightarrow> int" where
  "memcmp m v1 v2 n = memcmp_loop m v1 v2 (unat n)"

section \<open>Strings in memory\<close>

text \<open>\<open>cstr m s xs\<close>: the bytes \<open>xs\<close>, none of them zero, stand at \<open>s\<close>, followed by a zero byte.\<close>

fun cstr :: "mem \<Rightarrow> u32 \<Rightarrow> u8 list \<Rightarrow> bool" where
  "cstr m s [] \<longleftrightarrow> m s = 0"
| "cstr m s (x # xs) \<longleftrightarrow> m s = x \<and> x \<noteq> 0 \<and> cstr m (s + 1) xs"

text \<open>The \<open>n\<close> bytes at \<open>s\<close>, and the addresses they occupy.\<close>

definition bytes_at :: "mem \<Rightarrow> u32 \<Rightarrow> nat \<Rightarrow> u8 list" where
  "bytes_at m s n = map (\<lambda>i. m (s + of_nat i)) [0..<n]"

definition span :: "u32 \<Rightarrow> nat \<Rightarrow> u32 set" where
  "span s n = (\<lambda>i. s + of_nat i) ` {..<n}"

lemma span_0 [simp]: "span s 0 = {}"
  by (simp add: span_def)

lemma span_Suc: "span s (Suc n) = insert s (span (s + 1) n)"
  by (auto simp: span_def lessThan_Suc_eq_insert_0 image_image add.assoc)

lemma bytes_at_Suc: "bytes_at m s (Suc n) = m s # bytes_at m (s + 1) n"
  by (simp add: bytes_at_def upt_conv_Cons map_Suc_upt [symmetric] add.assoc del: upt_Suc)

lemma bytes_at_0 [simp]: "bytes_at m s 0 = []"
  by (simp add: bytes_at_def)

lemma length_bytes_at [simp]: "length (bytes_at m s n) = n"
  by (simp add: bytes_at_def)

lemma bytes_at_cong: "(\<And>a. a \<in> span s n \<Longrightarrow> m' a = m a) \<Longrightarrow> bytes_at m' s n = bytes_at m s n"
  by (auto simp: bytes_at_def span_def)

lemma cstr_cong: "(\<And>a. a \<in> span s (Suc (length xs)) \<Longrightarrow> m' a = m a) \<Longrightarrow> cstr m' s xs = cstr m s xs"
proof (induction xs arbitrary: s)
  case (Cons x xs)
  then show ?case by (simp add: span_Suc [of s])
qed (simp add: span_Suc)

text \<open>An address is not among the next \<open>n\<close> as long as these do not wrap around to it.\<close>

lemma notin_span_Suc: "n < 2 ^ 32 \<Longrightarrow> s \<notin> span (s + 1) n"
proof
  assume n: "n < 2 ^ 32" and "s \<in> span (s + 1) n"
  then obtain i where i: "i < n" "s = s + 1 + of_nat i" by (auto simp: span_def)
  then have "(of_nat (Suc i) :: u32) = 0" by (simp add: add.assoc)
  then have "2 ^ 32 dvd Suc i" by (simp only: word_of_nat_eq_0_iff) simp
  with i n show False by (auto dest!: dvd_imp_le)
qed

lemma strlen_loop_cstr: "cstr m s xs \<Longrightarrow> strlen_loop m s cnt = Some (cnt + of_nat (length xs))"
  by (induction xs arbitrary: s cnt) (simp_all add: strlen_loop.simps add.assoc)

lemma strnlen_loop_cstr: "cstr m s xs \<Longrightarrow> strnlen_loop m s k cnt = cnt + of_nat (min k (length xs))"
proof (induction xs arbitrary: s cnt k)
  case Nil
  then show ?case by (cases k) auto
next
  case (Cons x xs)
  then show ?case by (cases k) (auto simp: add.assoc)
qed

lemma strcpy_loop_cstr:
  assumes "cstr m src xs" "length xs < 2 ^ 32 - 1" "span p (Suc (length xs)) \<inter> span src (Suc (length xs)) = {}"
  shows "\<exists>m'. strcpy_loop p src m = Some m' \<and> cstr m' p xs \<and> (\<forall>a. a \<notin> span p (Suc (length xs)) \<longrightarrow> m' a = m a)"
  using assms
proof (induction xs arbitrary: m p src)
  case Nil
  then show ?case by (auto simp: strcpy_loop.simps span_Suc)
next
  case (Cons x xs)
  let ?m = "m(p := x)"
  have p: "p \<notin> span (src + 1) (Suc (length xs))"
    using Cons.prems(3) by (simp add: span_Suc [of p "Suc (length xs)"] span_Suc [of src "Suc (length xs)"])
  have "cstr ?m (src + 1) xs = cstr m (src + 1) xs"
    by (rule cstr_cong) (use p in auto)
  then have "cstr ?m (src + 1) xs" using Cons.prems(1) by simp
  moreover have "span (p + 1) (Suc (length xs)) \<inter> span (src + 1) (Suc (length xs)) = {}"
    using Cons.prems(3) by (auto simp: span_Suc [of p "Suc (length xs)"] span_Suc [of src "Suc (length xs)"])
  ultimately obtain m' where m': "strcpy_loop (p + 1) (src + 1) ?m = Some m'" "cstr m' (p + 1) xs"
    "\<forall>a. a \<notin> span (p + 1) (Suc (length xs)) \<longrightarrow> m' a = ?m a"
    using Cons.IH [of ?m "src + 1" "p + 1"] Cons.prems(2) by (auto simp del: fun_upd_apply)
  have "p \<notin> span (p + 1) (Suc (length xs))"
    using Cons.prems(2) by (intro notin_span_Suc) simp
  with m' Cons.prems(1) show ?case
    by (auto simp: strcpy_loop.simps [of p] span_Suc [of p])
qed

lemma strncpy_loop_bytes:
  assumes "cstr m src xs" "n < 2 ^ 32" "span p n \<inter> span src (Suc (length xs)) = {}"
  shows "bytes_at (strncpy_loop p src n m) p n = take n xs @ replicate (n - length xs) 0
    \<and> (\<forall>a. a \<notin> span p n \<longrightarrow> strncpy_loop p src n m a = m a)"
  using assms
proof (induction n arbitrary: m p src xs)
  case (Suc n)
  define c where "c = m src"
  define src' where "src' = (if c \<noteq> 0 then src + 1 else src)"
  let ?m = "m(p := c)" and ?xs = "tl xs"
  have p: "p \<notin> span src (Suc (length xs))" and off: "span (p + 1) n \<inter> span src (Suc (length xs)) = {}"
    using Suc.prems(3) by (auto simp: span_Suc [of p])
  have len: "span src' (Suc (length ?xs)) \<subseteq> span src (Suc (length xs))"
    using Suc.prems(1) by (cases xs) (auto simp: src'_def c_def span_Suc)
  have "cstr m src' ?xs"
    using Suc.prems(1) by (cases xs) (auto simp: src'_def c_def)
  moreover have "cstr ?m src' ?xs = cstr m src' ?xs"
    by (rule cstr_cong) (use p len in auto)
  ultimately have "cstr ?m src' ?xs" by (simp only:)
  then have IH: "bytes_at (strncpy_loop (p + 1) src' n ?m) (p + 1) n = take n ?xs @ replicate (n - length ?xs) 0
    \<and> (\<forall>a. a \<notin> span (p + 1) n \<longrightarrow> strncpy_loop (p + 1) src' n ?m a = ?m a)"
    by (rule Suc.IH) (use Suc.prems(2) off len in auto)
  have "p \<notin> span (p + 1) n"
    using Suc.prems(2) by (intro notin_span_Suc) simp
  then have "strncpy_loop (p + 1) src' n ?m p = c" using IH by simp
  with IH Suc.prems(1) show ?case
    by (cases xs) (auto simp: bytes_at_Suc span_Suc Let_def c_def src'_def)
qed simp

text \<open>Comparison: the sign of the result is the lexicographic order of the byte strings.\<close>

lemma uint_byte_pos: "x \<noteq> 0 \<longleftrightarrow> 0 < uint (x :: u8)"
  by (metis uint_0_iff uint_ge_0 order_le_less order_less_irrefl)

lemma strcmp_cstr:
  assumes "cstr m s1 xs" "cstr m s2 ys"
  shows "\<exists>r. strcmp m s1 s2 = Some r \<and> (r = 0 \<longleftrightarrow> xs = ys) \<and> (r < 0 \<longleftrightarrow> (xs, ys) \<in> lexord {(a, b). a < b})"
  using assms
proof (induction xs arbitrary: s1 s2 ys)
  case Nil
  then show ?case
    by (cases ys) (auto simp: strcmp.simps uint_byte_pos)
next
  case (Cons x xs)
  show ?case
  proof (cases ys)
    case Nil
    with Cons.prems show ?thesis by (auto simp: strcmp.simps [of m s1] uint_byte_pos)
  next
    case (Cons y ys')
    show ?thesis
    proof (cases "x = y")
      case True
      with Cons.IH [of "s1 + 1" "s2 + 1" ys'] Cons.prems Cons show ?thesis
        by (auto simp: strcmp.simps [of m s1])
    next
      case False
      then have "uint x \<noteq> uint y" by (simp add: word_uint_eq_iff)
      with False Cons.prems Cons show ?thesis
        by (auto simp: strcmp.simps [of m s1] word_less_def)
    qed
  qed
qed

lemma memcmp_loop_bytes: "memcmp_loop m s1 s2 n = 0 \<longleftrightarrow> bytes_at m s1 n = bytes_at m s2 n"
  by (induction n arbitrary: s1 s2) (auto simp: bytes_at_Suc word_uint_eq_iff)

lemma strncmp_loop_strcmp:
  assumes "cstr m s1 xs" "length xs < n"
  shows "strcmp m s1 s2 = Some (strncmp_loop m s1 s2 n)"
  using assms
proof (induction xs arbitrary: s1 s2 n)
  case Nil
  then show ?case by (cases n) (auto simp: strcmp.simps)
next
  case (Cons x xs)
  then show ?case by (cases n) (auto simp: strcmp.simps [of m s1])
qed

lemma strchr_cstr:
  assumes "cstr m s xs" "c \<noteq> 0"
  shows "strchr m s c = Some (if c \<in> set xs then Some (s + of_nat (length (takeWhile (\<lambda>x. x \<noteq> c) xs))) else None)
    \<and> strfind m s c = Some (s + of_nat (length (takeWhile (\<lambda>x. x \<noteq> c) xs)))"
  using assms
  by (induction xs arbitrary: s) (auto simp: strchr.simps strfind.simps add.assoc)

section \<open>Moving memory\<close>

text \<open>What a move must do: byte \<open>dst + i\<close> gets the old byte \<open>src + i\<close>, for every \<open>i < n\<close>.\<close>

definition moved :: "u32 \<Rightarrow> u32 \<Rightarrow> nat \<Rightarrow> mem \<Rightarrow> mem" where
  "moved dst src n m = (\<lambda>a. if unat (a - dst) < n then m (src + (a - dst)) else m a)"

lemma unat_diff_Suc:
  fixes a d :: u32
  assumes "a \<noteq> d"
  shows "unat (a - d) = Suc (unat (a - (d + 1)))"
proof -
  have "a - d \<noteq> 0" using assms by simp
  then have "unat (a - d - 1) = unat (a - d) - 1" "0 < unat (a - d)"
    by (simp_all add: unat_minus_one unat_gt_0)
  then show ?thesis by (simp add: diff_diff_add)
qed

lemma copy_up_moved:
  assumes "n \<le> 2 ^ 32" "\<forall>i j. i < j \<longrightarrow> j < n \<longrightarrow> d + of_nat i \<noteq> s + of_nat j"
  shows "copy_up d s n m = moved d s n m"
  using assms
proof (induction n arbitrary: d s m)
  case 0
  show ?case by (simp add: moved_def)
next
  case (Suc n)
  have "d + 1 + of_nat i \<noteq> s + 1 + of_nat j" if "i < j" "j < n" for i j
    using Suc.prems(2) [rule_format, of "Suc i" "Suc j"] that by (simp add: add.assoc)
  then have IH: "copy_up (d + 1) (s + 1) n (m(d := m s)) = moved (d + 1) (s + 1) n (m(d := m s))"
    using Suc.prems(1) by (intro Suc.IH) auto
  have "moved (d + 1) (s + 1) n (m(d := m s)) a = moved d s (Suc n) m a" for a
  proof (cases "a = d")
    case True
    have "unat (- 1 :: u32) = 2 ^ 32 - 1" by (simp add: unsigned_minus_1_eq_mask mask_eq_exp_minus_1)
    with True Suc.prems(1) show ?thesis by (simp add: moved_def)
  next
    case False
    have src: "s + 1 + (a - (d + 1)) = s + (a - d)" by simp
    have "s + (a - d) \<noteq> d" if "unat (a - d) < Suc n"
      using Suc.prems(2) [rule_format, of 0 "unat (a - d)"] that False by (auto simp: unat_gt_0)
    with False src show ?thesis by (simp add: moved_def unat_diff_Suc)
  qed
  with IH show ?case by auto
qed

lemma copy_down_moved:
  assumes "n \<le> 2 ^ 32" "\<forall>i j. i < j \<longrightarrow> j < n \<longrightarrow> d + of_nat j \<noteq> s + of_nat i"
  shows "copy_down (d + of_nat n) (s + of_nat n) n m = moved d s n m"
  using assms
proof (induction n arbitrary: m)
  case 0
  show ?case by (simp add: moved_def)
next
  case (Suc n)
  let ?m = "m(d + of_nat n := m (s + of_nat n))"
  have IH: "copy_down (d + of_nat n) (s + of_nat n) n ?m = moved d s n ?m"
    using Suc.prems by (intro Suc.IH) auto
  have "moved d s n ?m a = moved d s (Suc n) m a" for a
  proof (cases "unat (a - d) < n")
    case True
    have "s + (a - d) \<noteq> d + of_nat n"
      using Suc.prems(2) [rule_format, of "unat (a - d)" n] True by auto
    with True show ?thesis by (simp add: moved_def)
  next
    case False
    have "unat (a - d) = n \<longleftrightarrow> a = d + of_nat n"
    proof
      assume "unat (a - d) = n"
      then have "a - d = of_nat n" by auto
      then show "a = d + of_nat n" by (simp add: algebra_simps)
    next
      assume "a = d + of_nat n"
      then show "unat (a - d) = n" using Suc.prems(1) by (simp add: unat_of_nat)
    qed
    with False show ?thesis by (auto simp: moved_def less_Suc_eq)
  qed
  with IH show ?case by auto
qed

lemma unat_add_of_nat: "unat (d :: u32) + i < 2 ^ 32 \<Longrightarrow> unat (d + of_nat i) = unat d + i"
  by (simp add: unat_word_ariths unat_of_nat)

lemma memmove_moved:
  assumes "unat src + unat n < 2 ^ 32" "unat dst + unat n \<le> 2 ^ 32"
  shows "memmove dst src n m = moved dst src (unat n) m"
proof -
  have bounds: "unat (dst + of_nat i) = unat dst + i" "unat (src + of_nat i) = unat src + i" if "i < unat n" for i
    using that assms by (simp_all add: unat_add_of_nat)
  have sn: "unat (src + n) = unat src + unat n"
    using assms(1) by (subst unat_add_lem [THEN iffD1]) simp_all
  show ?thesis
  proof (cases "src < dst \<and> src + n > dst")
    case True
    then have "unat src < unat dst" by (simp add: word_less_nat_alt)
    have "dst + of_nat j \<noteq> src + of_nat i" if "i < j" "j < unat n" for i j
    proof
      assume "dst + of_nat j = src + of_nat i"
      then have "unat dst + j = unat src + i"
        using that bounds [of i] bounds [of j] by (metis order_less_trans)
      with that \<open>unat src < unat dst\<close> show False by simp
    qed
    then have "copy_down (dst + of_nat (unat n)) (src + of_nat (unat n)) (unat n) m = moved dst src (unat n) m"
      using assms by (intro copy_down_moved) auto
    with True show ?thesis by (simp add: memmove_def)
  next
    case False
    then have "unat dst \<le> unat src \<or> unat src + unat n \<le> unat dst"
      using sn by (auto simp: word_less_nat_alt not_less)
    then have "dst + of_nat i \<noteq> src + of_nat j" if "i < j" "j < unat n" for i j
    proof (elim disjE; intro notI)
      assume eq: "dst + of_nat i = src + of_nat j"
      then have "unat dst + i = unat src + j"
        using that bounds [of i] bounds [of j] by (metis order_less_trans)
      then show False if "unat dst \<le> unat src" using that \<open>i < j\<close> by simp
      show False if "unat src + unat n \<le> unat dst"
        using that \<open>unat dst + i = unat src + j\<close> \<open>j < unat n\<close> by simp
    qed
    then show ?thesis
      using False assms by (auto simp: memmove_def intro!: copy_up_moved)
  qed
qed

lemma bytes_at_numeral: "bytes_at m s (numeral k) = m s # bytes_at m (s + 1) (pred_numeral k)"
  by (simp add: numeral_eq_Suc bytes_at_Suc)

lemma replicate_numeral: "replicate (numeral k) x = x # replicate (pred_numeral k) x"
  by (simp add: numeral_eq_Suc)

lemma copy_up_numeral: "copy_up d s (numeral k) m = copy_up (d + 1) (s + 1) (pred_numeral k) (m(d := m s))"
  by (simp add: numeral_eq_Suc)

lemma moved_bytes: "n < 2 ^ 32 \<Longrightarrow> bytes_at (moved dst src n m) dst n = bytes_at m src n"
  by (auto simp: bytes_at_def moved_def unat_of_nat)

lemma moved_outside: "n \<le> 2 ^ 32 \<Longrightarrow> a \<notin> span dst n \<Longrightarrow> moved dst src n m a = m a"
  by (auto simp: span_def moved_def image_iff dest!: bspec [of _ _ "unat (a - dst)"])

section \<open>Properties\<close>

text \<open>
  C37: \<^verbatim>\<open>memmove\<close> moves overlapping regions correctly, in either direction: for regions that do
  not run past the end of the address space every destination byte is the \emph{old} source byte,
  and no byte outside the destination changes. (A source that ends exactly at the top of the
  address space is excluded: there \<^verbatim>\<open>s + n\<close> wraps to 0 and the overlap test fails.)
\<close>

theorem memmove_correct:
  assumes "unat src + unat n < 2 ^ 32" "unat dst + unat n \<le> 2 ^ 32"
  shows "bytes_at (memmove dst src n m) dst (unat n) = bytes_at m src (unat n)
    \<and> (\<forall>a. a \<notin> span dst (unat n) \<longrightarrow> memmove dst src n m a = m a)"
  using assms by (simp add: memmove_moved moved_bytes moved_outside)

theorem memmove_correct_witness:
  "let m = (\<lambda>a. ucast a) :: mem in
     bytes_at (memmove 102 100 4 m) 102 4 = [100, 101, 102, 103] \<and> bytes_at (memcpy 102 100 4 m) 102 4 = [100, 101, 100, 101]"
proof -
  have "bytes_at (memmove 102 100 4 (\<lambda>a. ucast a)) 102 (unat (4 :: u32)) = bytes_at (\<lambda>a. ucast a) 100 (unat (4 :: u32))"
    using memmove_correct [of 100 4 102 "\<lambda>a. ucast a"] by simp
  then show ?thesis
    by (simp add: Let_def memcpy_def bytes_at_numeral bytes_at_Suc copy_up_numeral)
qed

text \<open>
  \<^verbatim>\<open>strcmp\<close> returns on every pair of terminated strings, with 0 exactly on equal strings and
  a negative value exactly when the first is smaller in the lexicographic order of unsigned bytes;
  \<^verbatim>\<open>strncmp\<close> with a bound beyond the first string agrees with it.
\<close>

theorem strcmp_lexicographic:
  assumes "cstr m s1 xs" "cstr m s2 ys" "length xs < unat n"
  shows "\<exists>r. strcmp m s1 s2 = Some r \<and> strncmp m s1 s2 n = r
    \<and> (r = 0 \<longleftrightarrow> xs = ys) \<and> (r < 0 \<longleftrightarrow> (xs, ys) \<in> lexord {(a, b). a < b})"
  using strcmp_cstr [OF assms(1,2)] strncmp_loop_strcmp [OF assms(1,3), of s2] by (auto simp: strncmp_def)

theorem strcmp_lexicographic_witness:
  "let m = (\<lambda>a. if a = 10 then 104 else if a = 11 then 105 else if a = 20 then 104 else 0) :: mem in
     cstr m 10 [104, 105] \<and> cstr m 20 [104] \<and> (\<exists>r. strcmp m 10 20 = Some r \<and> strncmp m 10 20 8 = r \<and> r > 0)"
  using strcmp_lexicographic [of "\<lambda>a. if a = 10 then 104 else if a = 11 then 105 else if a = 20 then 104 else 0"
      10 "[104, 105]" 20 "[104]" 8]
  by (auto simp: Let_def)

text \<open>
  \<^verbatim>\<open>strncpy\<close> writes exactly \<^verbatim>\<open>len\<close> bytes, whatever the length of the source: its first
  \<^verbatim>\<open>len\<close> characters, then zero bytes up to \<^verbatim>\<open>len\<close> (so that a source of \<^verbatim>\<open>len\<close> or more characters
  is left unterminated), and nothing else.
\<close>

lemma strncpy_fills:
  assumes "cstr m src xs" "span dst (unat len) \<inter> span src (Suc (length xs)) = {}"
  shows "bytes_at (strncpy dst src len m) dst (unat len) = take (unat len) xs @ replicate (unat len - length xs) 0
    \<and> (\<forall>a. a \<notin> span dst (unat len) \<longrightarrow> strncpy dst src len m a = m a)"
  unfolding strncpy_def using assms unat_u32_less by (intro strncpy_loop_bytes) auto

end
