(* ===== verification/Boot.thy ===== *)
theory Boot
  imports Strings
begin

text \<open>
  The boot loaders: \<^verbatim>\<open>arch/x86/generic/boot/bootmain.c\<close>, which reads the kernel from the first IDE disk,
  and \<^verbatim>\<open>arch/arm/s3c2410/boot/bootmain.c\<close>, which finds it in memory; the file format is \<^verbatim>\<open>include/elf.h\<close>.

  The disk is hardware. It answers the \<open>n\<close>-th status request after the \<open>c\<close>-th command with \<open>status c n\<close>, so that
  every timing is some \<open>status\<close>; it takes commands and delivers data only when it has reported that it is ready. A read command makes
  it deliver as many sectors as the count register says, from the block in the address registers, if they select drive 0 and
  block addresses; it takes the next command when all have been read.
\<close>

section \<open>Definitions\<close>

subsection \<open>The file format\<close>

definition read16 :: "mem \<Rightarrow> u32 \<Rightarrow> u16" where
  "read16 m a = ucast (m a) OR push_bit 8 (ucast (m (a + 1)))"

definition read32 :: "mem \<Rightarrow> u32 \<Rightarrow> u32" where
  "read32 m a = ucast (m a) OR push_bit 8 (ucast (m (a + 1))) OR push_bit 16 (ucast (m (a + 2))) OR push_bit 24 (ucast (m (a + 3)))"

abbreviation (input) ELF_MAGIC :: u32 where "ELF_MAGIC \<equiv> 0x464C457F"

record elfhdr =
  e_magic :: u32
  e_elf :: "u8 list"
  e_type :: u16
  e_machine :: u16
  e_version :: u32
  e_entry :: u32
  e_phoff :: u32
  e_shoff :: u32
  e_flags :: u32
  e_ehsize :: u16
  e_phentsize :: u16
  e_phnum :: u16
  e_shentsize :: u16
  e_shnum :: u16
  e_shstrndx :: u16

record proghdr =
  p_type :: u32
  p_offset :: u32
  p_va :: u32
  p_pa :: u32
  p_filesz :: u32
  p_memsz :: u32
  p_flags :: u32
  p_align :: u32

definition elfhdr_at :: "mem \<Rightarrow> u32 \<Rightarrow> elfhdr" where
  "elfhdr_at m a = \<lparr>e_magic = read32 m a, e_elf = bytes_at m (a + 4) 12, e_type = read16 m (a + 16), e_machine = read16 m (a + 18),
     e_version = read32 m (a + 20), e_entry = read32 m (a + 24), e_phoff = read32 m (a + 28), e_shoff = read32 m (a + 32),
     e_flags = read32 m (a + 36), e_ehsize = read16 m (a + 40), e_phentsize = read16 m (a + 42), e_phnum = read16 m (a + 44),
     e_shentsize = read16 m (a + 46), e_shnum = read16 m (a + 48), e_shstrndx = read16 m (a + 50)\<rparr>"

definition proghdr_at :: "mem \<Rightarrow> u32 \<Rightarrow> proghdr" where
  "proghdr_at m a = \<lparr>p_type = read32 m a, p_offset = read32 m (a + 4), p_va = read32 m (a + 8), p_pa = read32 m (a + 12),
     p_filesz = read32 m (a + 16), p_memsz = read32 m (a + 20), p_flags = read32 m (a + 24), p_align = read32 m (a + 28)\<rparr>"

subsection \<open>The machines\<close>

record board =
  ram :: mem

record pc = board +
  image :: "nat \<Rightarrow> u8"
  status :: "nat \<Rightarrow> nat \<Rightarrow> u8"
  commands :: nat
  polls :: nat
  settled :: bool
  taskfile :: "u16 \<Rightarrow> u8"
  datapos :: nat
  transfer :: nat
  outws :: "(u16 \<times> u16) list"

record s3c2410 = board +
  uart :: "char list"

text \<open>The loader ends by calling the kernel, which does not return, or in an endless loop.\<close>

datatype outcome = Enter u32 | Hang

subsection \<open>The disk\<close>

definition in_status :: "pc \<Rightarrow> u8 \<times> pc" where
  "in_status s =
     (let v = status s (commands s) (polls s) in (v, s\<lparr>polls := polls s + 1, settled := (v AND 0xC0 = 0x40)\<rparr>))"

definition lba :: "(u16 \<Rightarrow> u8) \<Rightarrow> nat" where
  "lba r = unat (r 0x1F3) + 256 * unat (r 0x1F4) + 65536 * unat (r 0x1F5) + 16777216 * unat (r 0x1F6 AND 0xF)"

definition sectors :: "(u16 \<Rightarrow> u8) \<Rightarrow> nat" where
  "sectors r = (if r 0x1F2 = 0 then 256 else unat (r 0x1F2))"

text \<open>The byte the processor's \<^verbatim>\<open>outb\<close> writes to a port of the disk.\<close>

definition disk_outb :: "u16 \<Rightarrow> u8 \<Rightarrow> pc \<Rightarrow> pc" where
  "disk_outb p v s =
     (if \<not> settled s \<or> transfer s \<noteq> 0 then s
      else if p = 0x1F7 then
        if v = 0x20 then s\<lparr>commands := commands s + 1, polls := 0, settled := False, datapos := 512 * lba (taskfile s),
          transfer := (if taskfile s 0x1F6 AND 0xF0 = 0xE0 then 512 * sectors (taskfile s) else 0)\<rparr>
        else s
      else s\<lparr>taskfile := (taskfile s)(p := v)\<rparr>)"

text \<open>A data byte; the instruction \<^verbatim>\<open>insl\<close> takes four for each of its \<^verbatim>\<open>cnt\<close> words.\<close>

definition data_byte :: "nat \<Rightarrow> pc \<Rightarrow> u8" where
  "data_byte i s = (if settled s \<and> i < transfer s then image s (datapos s + i) else 0xFF)"

primrec insl :: "u32 \<Rightarrow> nat \<Rightarrow> pc \<Rightarrow> pc" where
  "insl a 0 s = s"
| "insl a (Suc n) s =
     insl (a + 4) n (s\<lparr>ram := (ram s)(a := data_byte 0 s, a + 1 := data_byte 1 s, a + 2 := data_byte 2 s, a + 3 := data_byte 3 s),
       datapos := datapos s + 4, transfer := transfer s - 4\<rparr>)"

definition outw :: "u16 \<Rightarrow> u16 \<Rightarrow> pc \<Rightarrow> pc" where
  "outw p v s = s\<lparr>outws := outws s @ [(p, v)]\<rparr>"

subsection \<open>Loading from the disk\<close>

partial_function (option) waitdisk :: "pc \<Rightarrow> pc option" where
  "waitdisk s = (let (v, s) = in_status s in if v AND 0xC0 \<noteq> 0x40 then waitdisk s else Some s)"

definition readsect :: "u32 \<Rightarrow> u32 \<Rightarrow> pc \<Rightarrow> pc option" where
  "readsect dst secno s = do {
     s \<leftarrow> waitdisk s;
     let s = disk_outb 0x1F2 1 s;
     let s = disk_outb 0x1F3 (ucast (secno AND 0xFF)) s;
     let s = disk_outb 0x1F4 (ucast (drop_bit 8 secno AND 0xFF)) s;
     let s = disk_outb 0x1F5 (ucast (drop_bit 16 secno AND 0xFF)) s;
     let s = disk_outb 0x1F6 (ucast (drop_bit 24 secno AND 0xF OR 0xE0)) s;
     let s = disk_outb 0x1F7 0x20 s;
     s \<leftarrow> waitdisk s;
     Some (insl dst (512 div 4) s)
   }"

partial_function (option) readseg_loop :: "u32 \<Rightarrow> u32 \<Rightarrow> u32 \<Rightarrow> pc \<Rightarrow> pc option" where
  "readseg_loop va end_va secno s =
     (if va < end_va then readsect va secno s \<bind> readseg_loop (va + 512) end_va (secno + 1) else Some s)"

definition readseg :: "u32 \<Rightarrow> u32 \<Rightarrow> u32 \<Rightarrow> pc \<Rightarrow> pc option" where
  "readseg va count off s = readseg_loop (va - off mod 512) (va + count) (off div 512 + 1) s"

text \<open>The loop over the program headers, which are read from memory one after the other.\<close>

partial_function (option) load_segments ::
  "(proghdr \<Rightarrow> 'a board_scheme \<Rightarrow> 'a board_scheme option) \<Rightarrow> u32 \<Rightarrow> u32 \<Rightarrow> 'a board_scheme \<Rightarrow> 'a board_scheme option" where
  "load_segments load ph eph s =
     (if ph < eph then load (proghdr_at (ram s) ph) s \<bind> load_segments load (ph + 32) eph else Some s)"

abbreviation (input) ELFHDR :: u32 where "ELFHDR \<equiv> 0x10000"

definition bootmain :: "pc \<Rightarrow> (outcome \<times> pc) option" where
  "bootmain s = do {
     s \<leftarrow> readseg ELFHDR (512 * 8) 0 s;
     let h = elfhdr_at (ram s) ELFHDR;
     if e_magic h \<noteq> ELF_MAGIC then Some (Hang, outw 0x8A00 0x8E00 (outw 0x8A00 0x8A00 s))
     else do {
       let ph = ELFHDR + e_phoff h;
       s \<leftarrow> load_segments (\<lambda>p. readseg (p_va p AND 0xFFFFFF) (p_memsz p) (p_offset p)) ph (ph + 32 * ucast (e_phnum h)) s;
       Some (Enter (e_entry (elfhdr_at (ram s) ELFHDR) AND 0xFFFFFF), s)
     }
   }"

subsection \<open>Loading from memory\<close>

definition uart_putc :: "char \<Rightarrow> s3c2410 \<Rightarrow> s3c2410" where
  "uart_putc c s = s\<lparr>uart := uart s @ [c]\<rparr>"

primrec uart_puts :: "string \<Rightarrow> s3c2410 \<Rightarrow> s3c2410" where
  "uart_puts [] s = s"
| "uart_puts (c # cs) s = uart_puts cs (uart_putc c s)"

primrec arm_memcpy :: "u32 \<Rightarrow> u32 \<Rightarrow> nat \<Rightarrow> mem \<Rightarrow> mem" where
  "arm_memcpy d s 0 m = m"
| "arm_memcpy d s (Suc n) m = arm_memcpy (d + 1) (s + 1) n (m(d := m s))"

text \<open>\<^verbatim>\<open>INTIAL_LOAD_ADDRESS + 0x10000\<close>.\<close>

abbreviation (input) ARM_ELFHDR :: u32 where "ARM_ELFHDR \<equiv> 0x30010000"

definition arm_readseg :: "u32 \<Rightarrow> u32 \<Rightarrow> u32 \<Rightarrow> s3c2410 \<Rightarrow> s3c2410 option" where
  "arm_readseg va count off s = Some (s\<lparr>ram := arm_memcpy va (ARM_ELFHDR + off) (unat count) (ram s)\<rparr>)"

definition arm_bootmain :: "s3c2410 \<Rightarrow> (outcome \<times> s3c2410) option" where
  "arm_bootmain s = do {
     let s = uart_puts (''ucore bootloader'' @ [CHR 10]) s;
     let h = elfhdr_at (ram s) ARM_ELFHDR;
     if e_magic h \<noteq> ELF_MAGIC then Some (Hang, uart_puts (''Bad Kernel, cannot be loaded.'' @ [CHR 10]) s)
     else do {
       let ph = ARM_ELFHDR + e_phoff h;
       s \<leftarrow> load_segments (\<lambda>p. arm_readseg (p_va p) (p_memsz p) (p_offset p)) ph (ph + 32 * ucast (e_phnum h)) s;
       let s = uart_puts (''Calling into kernel...'' @ [CHR 10]) s;
       Some (Enter (e_entry (elfhdr_at (ram s) ARM_ELFHDR)), s)
     }
   }"

subsection \<open>The boot sector\<close>

text \<open>
  \<^verbatim>\<open>arch/x86/tool/sign.c\<close> pads the assembled loader to a sector. The results of the C library are arguments: the contents of the
  input file (none if \<^verbatim>\<open>stat\<close> fails), and how many bytes \<^verbatim>\<open>fread\<close> and \<^verbatim>\<open>fwrite\<close> report.
\<close>

definition sign_main :: "nat \<Rightarrow> u8 list option \<Rightarrow> nat \<Rightarrow> nat \<Rightarrow> int \<times> u8 list option" where
  "sign_main argc input nread nwritten =
     (if argc \<noteq> 3 then (- 1, None)
      else case input of
        None \<Rightarrow> (- 1, None)
      | Some bs \<Rightarrow>
          if length bs > 510 then (- 1, None)
          else if nread \<noteq> length bs then (- 1, None)
          else let buf = (bs @ replicate (512 - length bs) 0)[510 := 0x55, 511 := 0xAA]
               in (if nwritten \<noteq> 512 then - 1 else 0, Some buf))"

section \<open>The program headers\<close>

lemma read_cong:
  "(\<And>i. i < 4 \<Longrightarrow> m' (a + of_nat i) = m (a + of_nat i)) \<Longrightarrow> read32 m' a = read32 m a"
  "(\<And>i. i < 2 \<Longrightarrow> m' (a + of_nat i) = m (a + of_nat i)) \<Longrightarrow> read16 m' a = read16 m a"
proof -
  assume e: "\<And>i. i < 4 \<Longrightarrow> m' (a + of_nat i) = m (a + of_nat i)"
  show "read32 m' a = read32 m a" using e [of 0] e [of 1] e [of 2] e [of 3] by (simp add: read32_def)
next
  assume e: "\<And>i. i < 2 \<Longrightarrow> m' (a + of_nat i) = m (a + of_nat i)"
  show "read16 m' a = read16 m a" using e [of 0] e [of 1] by (simp add: read16_def)
qed

lemma proghdr_at_cong:
  assumes "\<And>i. i < 32 \<Longrightarrow> m' (a + of_nat i) = m (a + of_nat i)"
  shows "proghdr_at m' a = proghdr_at m a"
proof -
  have "read32 m' (a + of_nat k) = read32 m (a + of_nat k)" if "k \<le> 28" for k
  proof (rule read_cong(1))
    fix i :: nat assume "i < 4"
    then show "m' (a + of_nat k + of_nat i) = m (a + of_nat k + of_nat i)" using assms [of "k + i"] that by (simp add: add.assoc)
  qed
  from this [of 0] this [of 4] this [of 8] this [of 12] this [of 16] this [of 20] this [of 24] this [of 28]
  show ?thesis by (simp add: proghdr_at_def)
qed

text \<open>The program headers of a file in memory at \<open>a\<close>.\<close>

definition proghdrs :: "mem \<Rightarrow> u32 \<Rightarrow> proghdr list" where
  "proghdrs m a = map (\<lambda>i. proghdr_at m (a + e_phoff (elfhdr_at m a) + 32 * of_nat i)) [0..<unat (e_phnum (elfhdr_at m a))]"

section \<open>Reading segments\<close>

text \<open>
  What both loaders rely on: \<open>load va count off\<close> puts \<open>count\<close> bytes of the file at \<open>off\<close> to \<open>va\<close> and changes memory only in
  \<open>area va count off\<close>, as long as the area is usable and avoids the part of the memory that is kept.
\<close>

lemma span_add: "span s (a + b) = span s a \<union> span (s + of_nat a) b"
proof -
  have "{..<a + b} = {..<a} \<union> (\<lambda>i. a + i) ` {..<b}" 
    unfolding lessThan_atLeast0 image_add_atLeastLessThan by auto
  then show ?thesis by (simp add: span_def image_Un image_image add.assoc)
qed

locale segment_reader =
  fixes load :: "u32 \<Rightarrow> u32 \<Rightarrow> u32 \<Rightarrow> 'a board_scheme \<Rightarrow> 'a board_scheme option"
    and inv :: "'a board_scheme \<Rightarrow> bool" and content :: "nat \<Rightarrow> u8" and fits :: "u32 \<Rightarrow> u32 \<Rightarrow> u32 \<Rightarrow> bool"
    and area :: "u32 \<Rightarrow> u32 \<Rightarrow> u32 \<Rightarrow> u32 set" and keep :: "u32 set"
  assumes load_law: "inv s \<Longrightarrow> fits va count off \<Longrightarrow> area va count off \<inter> keep = {} \<Longrightarrow>
      \<exists>s'. load va count off s = Some s' \<and> inv s' \<and> (\<forall>k<unat count. ram s' (va + of_nat k) = content (unat off + k))
        \<and> (\<forall>a. a \<notin> area va count off \<longrightarrow> ram s' a = ram s a)"
begin

definition seg_area :: "u32 \<Rightarrow> proghdr \<Rightarrow> u32 set" where
  "seg_area msk p = area (p_va p AND msk) (p_memsz p) (p_offset p)"

lemma load_all:
  assumes "inv s" "\<forall>i<length ps. proghdr_at (ram s) (ph + 32 * of_nat i) = ps ! i" "span ph (32 * length ps) \<subseteq> keep"
    "unat ph + 32 * length ps < 2 ^ 32" "\<forall>p\<in>set ps. fits (p_va p AND msk) (p_memsz p) (p_offset p) \<and> seg_area msk p \<inter> keep = {}"
    "\<forall>i j. i < j \<and> j < length ps \<longrightarrow> span (p_va (ps ! i) AND msk) (unat (p_memsz (ps ! i))) \<inter> seg_area msk (ps ! j) = {}"
  shows "\<exists>s'. load_segments (\<lambda>p. load (p_va p AND msk) (p_memsz p) (p_offset p)) ph (ph + 32 * of_nat (length ps)) s = Some s' \<and> inv s'
    \<and> (\<forall>p\<in>set ps. \<forall>k<unat (p_memsz p). ram s' ((p_va p AND msk) + of_nat k) = content (unat (p_offset p) + k))
    \<and> (\<forall>a. (\<forall>p\<in>set ps. a \<notin> seg_area msk p) \<longrightarrow> ram s' a = ram s a)"
  using assms
proof (induction ps arbitrary: ph s)
  case Nil
  then show ?case by (subst load_segments.simps) simp
next
  case (Cons p ps)
  let ?L = "\<lambda>p. load (p_va p AND msk) (p_memsz p) (p_offset p)"
  let ?va = "p_va p AND msk" let ?n = "unat (p_memsz p)"
  have p: "proghdr_at (ram s) ph = p" using Cons.prems(2) [rule_format, of 0] by simp
  have fit: "fits ?va (p_memsz p) (p_offset p)" "seg_area msk p \<inter> keep = {}" using Cons.prems(5) by auto
  obtain s1 where s1: "?L p s = Some s1" "inv s1" "\<forall>k<?n. ram s1 (?va + of_nat k) = content (unat (p_offset p) + k)"
    "\<forall>a. a \<notin> seg_area msk p \<longrightarrow> ram s1 a = ram s a"
    using load_law [OF Cons.prems(1) fit(1)] fit(2) by (auto simp: seg_area_def)
  have sp: "span ph (32 * length (p # ps)) = span ph 32 \<union> span (ph + 32) (32 * length ps)"
    using span_add [of ph 32 "32 * length ps"] by (simp add: algebra_simps)
  have kept: "ram s1 a = ram s a" if "a \<in> keep" for a using s1(4) fit(2) that by blast
  have tab: "proghdr_at (ram s1) (ph + 32 + 32 * of_nat i) = ps ! i" if "i < length ps" for i
  proof -
    have "proghdr_at (ram s1) (ph + 32 + 32 * of_nat i) = proghdr_at (ram s) (ph + 32 + 32 * of_nat i)"
    proof (rule proghdr_at_cong)
      fix j :: nat assume "j < 32"
      then have "32 * i + j < 32 * length ps" using that by linarith
      then have "ph + 32 + of_nat (32 * i + j) \<in> span (ph + 32) (32 * length ps)" unfolding span_def by (intro imageI) simp
      then show "ram s1 (ph + 32 + 32 * of_nat i + of_nat j) = ram s (ph + 32 + 32 * of_nat i + of_nat j)"
        using kept Cons.prems(3) sp by (auto simp: algebra_simps)
    qed
    then show ?thesis using Cons.prems(2) [rule_format, of "Suc i"] that by (simp add: algebra_simps)
  qed
  have step: "unat (ph + 32) = unat ph + 32" using Cons.prems(4) unat_add_of_nat [of ph 32] by simp
  have "\<exists>s'. load_segments ?L (ph + 32) (ph + 32 + 32 * of_nat (length ps)) s1 = Some s' \<and> inv s'
    \<and> (\<forall>p\<in>set ps. \<forall>k<unat (p_memsz p). ram s' ((p_va p AND msk) + of_nat k) = content (unat (p_offset p) + k))
    \<and> (\<forall>a. (\<forall>p\<in>set ps. a \<notin> seg_area msk p) \<longrightarrow> ram s' a = ram s1 a)"
  proof (rule Cons.IH [OF s1(2)])
    show "span (ph + 32) (32 * length ps) \<subseteq> keep" using Cons.prems(3) sp by simp
    show "unat (ph + 32) + 32 * length ps < 2 ^ 32" using step Cons.prems(4) by simp
    show "\<forall>i j. i < j \<and> j < length ps \<longrightarrow> span (p_va (ps ! i) AND msk) (unat (p_memsz (ps ! i))) \<inter> seg_area msk (ps ! j) = {}"
      using Cons.prems(6) by (metis Suc_less_eq length_Cons nth_Cons_Suc)
  qed (use tab Cons.prems(5) in auto)
  then obtain s' where s': "load_segments ?L (ph + 32) (ph + 32 + 32 * of_nat (length ps)) s1 = Some s'" "inv s'"
    "\<forall>p\<in>set ps. \<forall>k<unat (p_memsz p). ram s' ((p_va p AND msk) + of_nat k) = content (unat (p_offset p) + k)"
    "\<forall>a. (\<forall>p\<in>set ps. a \<notin> seg_area msk p) \<longrightarrow> ram s' a = ram s1 a" by blast
  have lt: "ph < ph + 32 * of_nat (length (p # ps))"
    using Cons.prems(4) unat_add_of_nat [of ph "32 * length (p # ps)"] by (simp add: word_less_nat_alt)
  have "load_segments ?L ph (ph + 32 * of_nat (length (p # ps))) s = Some s'"
    using lt s1(1) s'(1) p by (subst load_segments.simps) (simp add: algebra_simps)
  moreover have "ram s' (?va + of_nat k) = content (unat (p_offset p) + k)" if "k < ?n" for k
  proof -
    have "?va + of_nat k \<notin> seg_area msk q" if "q \<in> set ps" for q
    proof -
      obtain j where "j < length ps" "ps ! j = q" using \<open>q \<in> set ps\<close> by (metis in_set_conv_nth)
      then have "span ?va ?n \<inter> seg_area msk q = {}" using Cons.prems(6) [rule_format, of 0 "Suc j"] by simp
      then show ?thesis using \<open>k < ?n\<close> by (auto simp: span_def)
    qed
    then show ?thesis using s'(4) s1(3) that by simp
  qed
  ultimately show ?case using s'(2-4) s1(4) by (intro exI [of _ s']) auto
qed

end

section \<open>Reading from the disk\<close>

text \<open>The disk holds \<open>img\<close>, has delivered what was asked for and, however often it is asked, becomes ready at some time.\<close>

definition disk_ok :: "(nat \<Rightarrow> u8) \<Rightarrow> pc \<Rightarrow> bool" where
  "disk_ok img s \<longleftrightarrow> image s = img \<and> transfer s = 0 \<and> (\<forall>c p. \<exists>n\<ge>p. status s c n AND 0xC0 = 0x40)"

lemma waitdisk_ok:
  assumes "\<forall>c p. \<exists>n\<ge>p. status s c n AND 0xC0 = 0x40"
  shows "\<exists>n. waitdisk s = Some (s\<lparr>polls := n, settled := True\<rparr>)"
proof -
  obtain n where n: "n \<ge> polls s" "status s (commands s) n AND 0xC0 = 0x40" using assms by blast
  then show ?thesis
  proof (induction "n - polls s" arbitrary: s)
    case 0
    then have "n = polls s" by simp
    then show ?case using 0 by (subst waitdisk.simps) (auto simp: in_status_def Let_def)
  next
    case (Suc d)
    let ?s = "snd (in_status s)"
    show ?case
    proof (cases "status s (commands s) (polls s) AND 0xC0 = 0x40")
      case True
      then show ?thesis by (subst waitdisk.simps) (auto simp: in_status_def Let_def)
    next
      case False
      have "d = n - polls ?s" "polls ?s \<le> n" "status ?s (commands ?s) n AND 0xC0 = 0x40"
        using Suc.hyps(2) Suc.prems by (simp_all add: in_status_def Let_def)
      then obtain k where "waitdisk ?s = Some (?s\<lparr>polls := k, settled := True\<rparr>)" using Suc.hyps(1) by blast
      then show ?thesis using False by (subst waitdisk.simps) (auto simp: in_status_def Let_def)
    qed
  qed
qed

lemma insl_ok:
  assumes "settled s" "4 * n < 2 ^ 32" "4 * n \<le> transfer s"
  shows "insl a n s = s\<lparr>ram := (\<lambda>x. if unat (x - a) < 4 * n then image s (datapos s + unat (x - a)) else ram s x), datapos := datapos s + 4 * n,
    transfer := transfer s - 4 * n\<rparr>"
  using assms
proof (induction n arbitrary: a s)
  case 0
  then show ?case by simp
next
  case (Suc n)
  let ?d = "\<lambda>i. image s (datapos s + i)"
  define s1 where "s1 = s\<lparr>ram := (ram s)(a := ?d 0, a + 1 := ?d 1, a + 2 := ?d 2, a + 3 := ?d 3), datapos := datapos s + 4, transfer := transfer s - 4\<rparr>"
  have f: "settled s1" "image s1 = image s" "datapos s1 = datapos s + 4" "transfer s1 = transfer s - 4"
      "s1\<lparr>ram := h, datapos := k, transfer := t\<rparr> = s\<lparr>ram := h, datapos := k, transfer := t\<rparr>" for h k t
    using Suc.prems(1) by (simp_all add: s1_def)
  have "(if unat (x - (a + 4)) < 4 * n then image s (datapos s + 4 + unat (x - (a + 4))) else ram s1 x)
    = (if unat (x - a) < 4 * Suc n then image s (datapos s + unat (x - a)) else ram s x)" for x
  proof -
    define y where "y = x - a"
    have x: "x = a + y" "x - (a + 4) = y - 4" by (simp_all add: y_def)
    have of_nat_y: "y = of_nat (unat y)" by simp
    have r: "ram s1 x = (if unat y < 4 then image s (datapos s + unat y) else ram s x)"
    proof (cases "unat y < 4")
      case True
      then consider "unat y = 0" | "unat y = 1" | "unat y = 2" | "unat y = 3" by linarith
      then have "y = 0 \<or> y = 1 \<or> y = 2 \<or> y = 3" using of_nat_y by cases auto
      then show ?thesis unfolding x(1) s1_def by auto
    next
      case False
      then have "y \<noteq> 0" "y \<noteq> 1" "y \<noteq> 2" "y \<noteq> 3" by auto
      then show ?thesis using False unfolding x(1) s1_def by auto
    qed
    have u: "unat (y - 4) = (if unat y < 4 then 2 ^ 32 + unat y - 4 else unat y - 4)"
      by (simp add: unat_sub_if' word_le_nat_alt)
    show ?thesis unfolding r x(2) u y_def [symmetric] using Suc.prems(2) by auto
  qed
  then have eq: "(\<lambda>x. if unat (x - (a + 4)) < 4 * n then image s (datapos s + 4 + unat (x - (a + 4))) else ram s1 x)
    = (\<lambda>x. if unat (x - a) < 4 * Suc n then image s (datapos s + unat (x - a)) else ram s x)" by blast
  have "insl a (Suc n) s = insl (a + 4) n s1" using Suc.prems(1, 3) by (simp add: data_byte_def s1_def)
  also have "\<dots> = s\<lparr>ram := (\<lambda>x. if unat (x - (a + 4)) < 4 * n then image s (datapos s + 4 + unat (x - (a + 4))) else ram s1 x), datapos := datapos s + 4 + 4 * n,
      transfer := transfer s - 4 - 4 * n\<rparr>"
    using Suc.IH [OF f(1), of "a + 4", unfolded f] Suc.prems(2, 3) by simp
  finally show ?case unfolding eq by simp
qed

lemma byte_fields: "(x :: u32) AND 0xFF = take_bit 8 x" "(x :: u32) AND 0xF = take_bit 4 x" "(z :: u8) AND 0xF = take_bit 4 z"
  using take_bit_eq_mask [of 8 x] take_bit_eq_mask [of 4 x] take_bit_eq_mask [of 4 z] by (simp_all add: mask_eq_exp_minus_1)

lemma base_256:
  assumes "(s :: nat) < 2 ^ 28"
  shows "s mod 256 + 256 * (s div 256 mod 256) + 65536 * (s div 65536 mod 256) + 16777216 * (s div 16777216 mod 16) = s"
proof -
  define t where "t = s div 256"
  define u where "u = t div 256"
  define v where "v = u div 256"
  have e: "s div 65536 = u" "s div 16777216 = v" by (simp_all add: t_def u_def v_def flip: div_mult2_eq)
  have "v < 16" using assms unfolding e(2) [symmetric] by (simp add: less_mult_imp_div_less)
  then have "v mod 16 = v" by simp
  moreover have "s = 256 * t + s mod 256" "t = 256 * u + t mod 256" "u = 256 * v + u mod 256" by (simp_all add: t_def u_def v_def)
  ultimately show ?thesis unfolding e t_def [symmetric] by linarith
qed

lemma lba_fields:
  fixes secno :: u32
  assumes "unat secno < 2 ^ 28" "r 0x1F3 = ucast (secno AND 0xFF)" "r 0x1F4 = ucast (drop_bit 8 secno AND 0xFF)"
    "r 0x1F5 = ucast (drop_bit 16 secno AND 0xFF)" "r 0x1F6 = ucast (drop_bit 24 secno AND 0xF OR 0xE0)"
  shows "lba r = unat secno"
proof -
  have b: "unat (ucast (x AND 0xFF) :: u8) = unat x mod 256" for x :: u32
    unfolding byte_fields by (simp add: unsigned_ucast_eq unsigned_take_bit_eq take_bit_eq_mod unat_mod)
  have "take_bit 4 (0xE0 :: u32) = 0" by simp
  then have c: "unat ((ucast (x AND 0xF OR 0xE0) :: u8) AND 0xF) = unat x mod 16" for x :: u32
    unfolding byte_fields by (simp add: unsigned_ucast_eq unsigned_take_bit_eq unsigned_or_eq flip: take_bit_eq_mod) (simp add: take_bit_eq_mod)
  have d: "unat (drop_bit 8 x) = unat x div 256" "unat (drop_bit 16 x) = unat x div 65536" "unat (drop_bit 24 x) = unat x div 16777216"
    for x :: u32 by (simp_all add: drop_bit_eq_div unat_div)
  show ?thesis unfolding lba_def assms(2-5) b c d by (rule base_256 [OF assms(1)])
qed

lemma lba_mode: "(ucast (x AND 0xF OR 0xE0 :: u32) :: u8) AND 0xF0 = 0xE0"
proof -
  have "ucast (x AND 0xF OR 0xE0 :: u32) AND 0xF0 = (ucast (x AND 0xF) AND 0xF0) OR (0xE0 :: u8)"
    by (simp add: unsigned_or_eq bit.conj_disj_distrib2)
  moreover have "ucast (x AND 0xF :: u32) AND (0xF0 :: u8) = 0"
    unfolding unsigned_and_eq by (simp add: and.assoc)
  ultimately show ?thesis by simp
qed

lemma readsect_ok:
  assumes "disk_ok img s" "unat secno < 2 ^ 28"
  shows "\<exists>s'. readsect dst secno s = Some s' \<and> disk_ok img s' \<and> outws s' = outws s
    \<and> ram s' = (\<lambda>a. if unat (a - dst) < 512 then img (512 * unat secno + unat (a - dst)) else ram s a)"
proof -
  obtain n where n: "waitdisk s = Some (s\<lparr>polls := n, settled := True\<rparr>)" using waitdisk_ok [of s] assms(1) by (auto simp: disk_ok_def)
  define r where "r = (taskfile s)(0x1F2 := 1, 0x1F3 := ucast (secno AND 0xFF), 0x1F4 := ucast (drop_bit 8 secno AND 0xFF),
    0x1F5 := ucast (drop_bit 16 secno AND 0xFF), 0x1F6 := ucast (drop_bit 24 secno AND 0xF OR 0xE0))"
  have l: "lba r = unat secno" by (rule lba_fields [OF assms(2)]) (simp_all add: r_def)
  have c: "sectors r = 1" "r 0x1F6 AND 0xF0 = 0xE0"
    using lba_mode [of "drop_bit 24 secno"] by (simp_all add: sectors_def r_def)
  define s1 where "s1 = s\<lparr>commands := commands s + 1, polls := 0, settled := False, taskfile := r, datapos := 512 * unat secno, transfer := 512\<rparr>"
  have t: "transfer s = 0" using assms(1) by (simp add: disk_ok_def)
  have "\<forall>c p. \<exists>n\<ge>p. status s1 c n AND 0xC0 = 0x40" using assms(1) by (simp add: disk_ok_def s1_def)
  then obtain k where k: "waitdisk s1 = Some (s1\<lparr>polls := k, settled := True\<rparr>)" using waitdisk_ok by blast
  have "readsect dst secno s = waitdisk s1 \<bind> (\<lambda>s. Some (insl dst 128 s))"
    unfolding s1_def l [symmetric] using n t c by (cases s) (simp add: readsect_def disk_outb_def r_def)
  moreover define s2 where "s2 = s1\<lparr>polls := k, settled := True\<rparr>"
  moreover have f: "settled s2" "image s2 = img" "datapos s2 = 512 * unat secno" "ram s2 = ram s" "outws s2 = outws s" "status s2 = status s"
      "transfer s2 = 512"
    using assms(1) by (simp_all add: s2_def s1_def disk_ok_def)
  ultimately show ?thesis using k insl_ok [OF f(1), of 128 dst, unfolded f] assms(1) by (simp add: f disk_ok_def)
qed

text \<open>\<open>n\<close> sectors.\<close>

lemma readseg_loop_ok:
  assumes "disk_ok img s" "unat va + 512 * n < 2 ^ 32" "unat secno + n < 2 ^ 28" "unat end_va \<le> unat va + 512 * n"
    "n \<noteq> 0 \<Longrightarrow> unat va + 512 * n < unat end_va + 512"
  shows "\<exists>s'. readseg_loop va end_va secno s = Some s' \<and> disk_ok img s' \<and> outws s' = outws s
    \<and> ram s' = (\<lambda>a. if unat va \<le> unat a \<and> unat a < unat va + 512 * n then img (512 * unat secno + (unat a - unat va)) else ram s a)"
  using assms
proof (induction n arbitrary: va secno s)
  case 0
  then have "\<not> va < end_va" by (simp add: word_less_nat_alt)
  then show ?case using 0 by (subst readseg_loop.simps) (auto simp: fun_eq_iff)
next
  case (Suc n)
  have lt: "va < end_va" using Suc.prems(5) by (simp add: word_less_nat_alt)
  obtain s1 where s1: "readsect va secno s = Some s1" "disk_ok img s1" "outws s1 = outws s"
    "ram s1 = (\<lambda>a. if unat (a - va) < 512 then img (512 * unat secno + unat (a - va)) else ram s a)"
    using readsect_ok [OF Suc.prems(1), of secno va] Suc.prems(3) by auto
  have u: "unat (va + 512) = unat va + 512" "unat (secno + 1) = unat secno + 1"
    using unat_add_of_nat [of va 512] unat_add_of_nat [of secno 1] Suc.prems(2, 3) by simp_all
  obtain s' where s': "readseg_loop (va + 512) end_va (secno + 1) s1 = Some s'" "disk_ok img s'" "outws s' = outws s1"
    "ram s' = (\<lambda>a. if unat (va + 512) \<le> unat a \<and> unat a < unat (va + 512) + 512 * n
        then img (512 * unat (secno + 1) + (unat a - unat (va + 512))) else ram s1 a)"
    using Suc.IH [OF s1(2), of "va + 512" "secno + 1"] Suc.prems(2-5) u by auto
  have "ram s' a = (if unat va \<le> unat a \<and> unat a < unat va + 512 * Suc n then img (512 * unat secno + (unat a - unat va)) else ram s a)" for a
  proof -
    have "unat (a - va) < 512 \<longleftrightarrow> unat va \<le> unat a \<and> unat a < unat va + 512"
      "unat va \<le> unat a \<Longrightarrow> unat (a - va) = unat a - unat va"
      using Suc.prems(2) unsigned_less [of a, where ?'a = nat] by (auto simp: unat_sub_if' word_le_nat_alt)
    then show ?thesis unfolding s'(4) s1(4) u by auto
  qed
  then show ?case using s' s1(1, 3) lt by (subst readseg_loop.simps) auto
qed

definition pc_fits :: "u32 \<Rightarrow> u32 \<Rightarrow> u32 \<Rightarrow> bool" where
  "pc_fits va count off \<longleftrightarrow> unat off mod 512 \<le> unat va \<and> unat va + unat count + 511 < 2 ^ 32"

text \<open>Whole sectors are written: the area begins at the sector's first byte.\<close>

definition pc_area :: "u32 \<Rightarrow> u32 \<Rightarrow> u32 \<Rightarrow> u32 set" where
  "pc_area va count off =
     (let b = unat off mod 512; lo = unat va - b in {a. lo \<le> unat a \<and> unat a < lo + 512 * ((b + unat count + 511) div 512)})"

lemma readseg_ok:
  assumes "disk_ok img s" "pc_fits va count off"
  shows "\<exists>s'. readseg va count off s = Some s' \<and> disk_ok img s' \<and> outws s' = outws s
    \<and> (\<forall>k<unat count. ram s' (va + of_nat k) = img (512 + (unat off + k))) \<and> (\<forall>a. a \<notin> pc_area va count off \<longrightarrow> ram s' a = ram s a)"
proof -
  define b where "b = unat off mod 512"
  define n where "n = (b + unat count + 511) div 512"
  have b: "b \<le> unat va" "b < 512" and fit: "unat va + unat count + 511 < 2 ^ 32" using assms(2) by (simp_all add: pc_fits_def b_def)
  have n: "512 * n \<le> b + unat count + 511" "b + unat count \<le> 512 * n" unfolding n_def by simp_all
  have lo: "unat (va - off mod 512) = unat va - b" using b by (simp add: unat_sub_if' word_le_nat_alt unat_mod b_def)
  have hi: "unat (va + count) = unat va + unat count" using unat_add_of_nat [of va "unat count"] fit by simp
  have cl: "unat count < 4294967296" "unat off < 4294967296" using unsigned_less [of count, where ?'a = nat] unsigned_less [of off, where ?'a = nat] by simp_all
  have "unat off div 512 < 2 ^ 23" using cl(2) by (simp add: less_mult_imp_div_less)
  moreover have "n < 16777216" using n(1) b(2) cl(1) by linarith
  ultimately have bounds: "unat va - b + 512 * n < 2 ^ 32" "unat off div 512 + 1 + n < 2 ^ 28" "unat va + unat count \<le> unat va - b + 512 * n"
    "unat va - b + 512 * n < unat va + unat count + 512" using n b fit by simp_all
  have sec: "unat (off div 512 + 1) = unat off div 512 + 1"
    using unat_add_of_nat [of "off div 512" 1] bounds(2) by (simp add: unat_div)
  obtain s' where s': "readseg va count off s = Some s'" "disk_ok img s'" "outws s' = outws s"
    "ram s' = (\<lambda>a. if unat va - b \<le> unat a \<and> unat a < unat va - b + 512 * n
       then img (512 * (unat off div 512 + 1) + (unat a - (unat va - b))) else ram s a)"
    using readseg_loop_ok [OF assms(1), of "va - off mod 512" n "off div 512 + 1" "va + count", unfolded lo hi sec, OF bounds]
    unfolding readseg_def by blast
  have "ram s' (va + of_nat k) = img (512 + (unat off + k))" if "k < unat count" for k
  proof -
    have a: "unat (va + of_nat k) = unat va + k" using unat_add_of_nat [of va k] that fit by simp
    have "512 * (unat off div 512) + b = unat off" by (simp add: b_def)
    moreover have "unat va + k - (unat va - b) = b + k" using b(1) by simp
    ultimately have e: "512 * (unat off div 512 + 1) + (unat va + k - (unat va - b)) = 512 + (unat off + k)" by simp
    have "unat va - b \<le> unat va + k \<and> unat va + k < unat va - b + 512 * n" using b n that by linarith
    then show ?thesis unfolding s'(4) a e by (simp only: if_P)
  qed
  moreover have "ram s' a = ram s a" if "a \<notin> pc_area va count off" for a
    using that unfolding s'(4) by (auto simp: pc_area_def b_def n_def Let_def)
  ultimately show ?thesis using s'(1-3) by blast
qed

abbreviation (input) hdr_page :: "u32 set" where "hdr_page \<equiv> span ELFHDR 4096"

interpretation disk: segment_reader readseg "\<lambda>s. disk_ok img s \<and> outws s = ws" "\<lambda>k. img (512 + k)" pc_fits pc_area hdr_page for img ws
proof
  fix s va count off
  assume "disk_ok img s \<and> outws s = ws" "pc_fits va count off"
  then show "\<exists>s'. readseg va count off s = Some s' \<and> (disk_ok img s' \<and> outws s' = ws) \<and> (\<forall>k<unat count. ram s' (va + of_nat k) = img (512 + (unat off + k)))
    \<and> (\<forall>a. a \<notin> pc_area va count off \<longrightarrow> ram s' a = ram s a)" using readseg_ok by blast
qed

lemma elfhdr_at_cong:
  assumes "\<And>i. i < 52 \<Longrightarrow> m' (a + of_nat i) = m (a + of_nat i)"
  shows "elfhdr_at m' a = elfhdr_at m a"
proof -
  have r: "read32 m' (a + of_nat k) = read32 m (a + of_nat k)" if "k \<le> 48" for k
  proof (rule read_cong(1))
    fix i :: nat assume "i < 4"
    then show "m' (a + of_nat k + of_nat i) = m (a + of_nat k + of_nat i)" using assms [of "k + i"] that by (simp add: add.assoc)
  qed
  have h: "read16 m' (a + of_nat k) = read16 m (a + of_nat k)" if "k \<le> 50" for k
  proof (rule read_cong(2))
    fix i :: nat assume "i < 2"
    then show "m' (a + of_nat k + of_nat i) = m (a + of_nat k + of_nat i)" using assms [of "k + i"] that by (simp add: add.assoc)
  qed
  have b: "bytes_at m' (a + 4) 12 = bytes_at m (a + 4) 12"
  proof (rule bytes_at_cong)
    fix x assume "x \<in> span (a + 4) 12"
    then obtain i where "i < 12" "x = a + of_nat (4 + i)" by (auto simp: span_def add.assoc)
    then show "m' x = m x" using assms [of "4 + i"] by simp
  qed
  show ?thesis
    unfolding elfhdr_at_def b
    using r [of 0] r [of 20] r [of 24] r [of 28] r [of 32] r [of 36] h [of 16] h [of 18] h [of 40] h [of 42] h [of 44] h [of 46] h [of 48] h [of 50]
    by simp
qed

section \<open>Reading from memory\<close>

lemma arm_memcpy_ok:
  assumes "span d n \<inter> span s n = {}" "n < 2 ^ 32"
  shows "arm_memcpy d s n m = (\<lambda>a. if unat (a - d) < n then m (s + (a - d)) else m a)"
  using assms
proof (induction n arbitrary: d s m)
  case (Suc n)
  have dis: "span (d + 1) n \<inter> span (s + 1) n = {}" and lt: "n < 2 ^ 32" using Suc.prems by (auto simp: span_Suc)
  have "arm_memcpy d s (Suc n) m a = (if unat (a - d) < Suc n then m (s + (a - d)) else m a)" for a
  proof -
    define y where "y = a - d"
    have a: "a = d + y" "a - (d + 1) = y - 1" "s + 1 + (y - 1) = s + y" by (simp_all add: y_def)
    have u: "unat (y - 1) = (if y = 0 then 2 ^ 32 - 1 else unat y - 1)" "y \<noteq> 0 \<longleftrightarrow> 0 < unat y"
      by (simp_all add: unat_sub_if' word_le_nat_alt unat_gt_0 Suc_le_eq)
    have s: "s + y \<noteq> d" if "unat y < Suc n"
    proof -
      have "s + y = s + of_nat (unat y)" by simp
      then have "s + y \<in> span s (Suc n)" using that unfolding span_def by blast
      moreover have "d \<in> span d (Suc n)" unfolding span_def by (intro image_eqI [of _ _ 0]) simp_all
      ultimately show ?thesis using Suc.prems(1) by auto
    qed
    have "arm_memcpy d s (Suc n) m a = (if unat (y - 1) < n then (m(d := m s)) (s + y) else (m(d := m s)) a)"
      unfolding arm_memcpy.simps Suc.IH [OF dis lt] a(2, 3) by (rule refl)
    also have "\<dots> = (if unat y < Suc n then m (s + y) else m a)"
      using s Suc.prems(2) u unfolding a(1) by (cases "y = 0") auto
    finally show ?thesis by (simp add: y_def)
  qed
  then show ?case by blast
qed simp

text \<open>The first \<open>n\<close> bytes of the file \<open>f\<close> are in memory.\<close>

definition rom_ok :: "(nat \<Rightarrow> u8) \<Rightarrow> nat \<Rightarrow> s3c2410 \<Rightarrow> bool" where
  "rom_ok f n s \<longleftrightarrow> (\<forall>k<n. ram s (ARM_ELFHDR + of_nat k) = f k)"

interpretation rom: segment_reader arm_readseg "\<lambda>s. rom_ok f n s \<and> uart s = ws" f "\<lambda>va count off. unat off + unat count \<le> n"
  "\<lambda>va count off. span va (unat count)" "span ARM_ELFHDR n" for f n ws
proof
  fix s and va count off :: u32
  assume inv: "rom_ok f n s \<and> uart s = ws" and fit: "unat off + unat count \<le> n" and a: "span va (unat count) \<inter> span ARM_ELFHDR n = {}"
  let ?s' = "s\<lparr>ram := arm_memcpy va (ARM_ELFHDR + off) (unat count) (ram s)\<rparr>"
  have in_file: "ARM_ELFHDR + off + of_nat k = ARM_ELFHDR + of_nat (unat off + k)" for k by simp
  have "span (ARM_ELFHDR + off) (unat count) \<subseteq> span ARM_ELFHDR n"
  proof
    fix x assume "x \<in> span (ARM_ELFHDR + off) (unat count)"
    then obtain k where "k < unat count" "x = ARM_ELFHDR + of_nat (unat off + k)" by (auto simp: span_def)
    then show "x \<in> span ARM_ELFHDR n" using fit unfolding span_def by (intro image_eqI [of _ _ "unat off + k"]) auto
  qed
  then have dis: "span va (unat count) \<inter> span (ARM_ELFHDR + off) (unat count) = {}" using a by blast
  have c: "unat count < 2 ^ 32" using unsigned_less [of count, where ?'a = nat] by simp
  note m = arm_memcpy_ok [OF dis c, of "ram s"]
  have data: "ram ?s' (va + of_nat k) = f (unat off + k)" if "k < unat count" for k
  proof -
    have "k < 4294967296" using less_trans [OF that c] by simp
    then have "unat (of_nat k :: u32) = k" by (simp add: unat_of_nat)
    then have "ram ?s' (va + of_nat k) = ram s (ARM_ELFHDR + of_nat (unat off + k))" using that by (simp add: m add.assoc)
    moreover have "unat off + k < n" using fit that by simp
    ultimately show ?thesis using inv by (simp add: rom_ok_def del: of_nat_add)
  qed
  have out: "ram ?s' x = ram s x" if "x \<notin> span va (unat count)" for x
  proof -
    have "x = va + of_nat (unat (x - va))" by simp
    then have "\<not> unat (x - va) < unat count" using that unfolding span_def by blast
    then show ?thesis by (simp add: m)
  qed
  have "rom_ok f n ?s'"
    unfolding rom_ok_def
  proof (intro allI impI)
    fix k assume k: "k < n"
    then have "ARM_ELFHDR + of_nat k \<notin> span va (unat count)" using a unfolding span_def by blast
    then show "ram ?s' (ARM_ELFHDR + of_nat k) = f k" using out inv k by (simp add: rom_ok_def)
  qed
  then show "\<exists>s'. arm_readseg va count off s = Some s' \<and> (rom_ok f n s' \<and> uart s' = ws) \<and> (\<forall>k<unat count. ram s' (va + of_nat k) = f (unat off + k))
    \<and> (\<forall>a. a \<notin> span va (unat count) \<longrightarrow> ram s' a = ram s a)"
    using data out inv by (auto simp: arm_readseg_def)
qed

section \<open>Properties\<close>

text \<open>
  A kernel file that can be loaded to a machine whose loader writes \<open>ar va count off\<close>, keeps the headers in \<open>keep\<close> and masks
  addresses with \<open>msk\<close>: the program headers lie in what is kept, every segment fits and no segment overwrites the headers or an earlier one.
\<close>

definition loadable :: "(u32 \<Rightarrow> u32 \<Rightarrow> u32 \<Rightarrow> bool) \<Rightarrow> (u32 \<Rightarrow> u32 \<Rightarrow> u32 \<Rightarrow> u32 set) \<Rightarrow> u32 set \<Rightarrow> u32 \<Rightarrow> proghdr list \<Rightarrow> bool" where
  "loadable ft ar keep msk ps \<longleftrightarrow>
     (\<forall>p\<in>set ps. ft (p_va p AND msk) (p_memsz p) (p_offset p) \<and> ar (p_va p AND msk) (p_memsz p) (p_offset p) \<inter> keep = {}) \<and>
     (\<forall>i j. i < j \<and> j < length ps \<longrightarrow> span (p_va (ps ! i) AND msk) (unat (p_memsz (ps ! i)))
        \<inter> ar (p_va (ps ! j) AND msk) (p_memsz (ps ! j)) (p_offset (ps ! j)) = {})"

text \<open>The file on the disk, which begins in its second sector, seen at the address where the loader reads its first page.\<close>

definition file_view :: "pc \<Rightarrow> mem" where
  "file_view s a = image s (512 + unat (a - ELFHDR))"

lemma header_loaded:
  assumes "disk_ok img s"
  shows "\<exists>s1. readseg ELFHDR 4096 0 s = Some s1 \<and> disk_ok img s1 \<and> outws s1 = outws s \<and> (\<forall>a\<in>hdr_page. ram s1 a = file_view s a)"
proof -
  obtain s1 where s1: "readseg ELFHDR 4096 0 s = Some s1" "disk_ok img s1" "outws s1 = outws s"
    "\<forall>k<unat (4096 :: u32). ram s1 (ELFHDR + of_nat k) = img (512 + (unat (0 :: u32) + k))"
    using readseg_ok [OF assms, of ELFHDR 4096 0] by (auto simp: pc_fits_def)
  have "ram s1 a = file_view s a" if "a \<in> hdr_page" for a
    using that s1(4) assms by (auto simp: span_def file_view_def disk_ok_def unat_of_nat)
  then show ?thesis using s1 by blast
qed

lemma loaded_tables:
  fixes m :: mem
  assumes "\<forall>a\<in>span b n. m a = f a" "52 \<le> n" "unat (e_phoff (elfhdr_at f b)) + 32 * unat (e_phnum (elfhdr_at f b)) \<le> n"
  shows "elfhdr_at m b = elfhdr_at f b" "i < length (proghdrs f b) \<Longrightarrow> proghdr_at m (b + e_phoff (elfhdr_at f b) + 32 * of_nat i) = proghdrs f b ! i"
    "span (b + e_phoff (elfhdr_at f b)) (32 * length (proghdrs f b)) \<subseteq> span b n"
proof -
  let ?h = "elfhdr_at f b"
  have same: "m (b + of_nat i) = f (b + of_nat i)" if "i < n" for i using assms(1) that by (auto simp: span_def)
  then show "elfhdr_at m b = ?h" using assms(2) by (intro elfhdr_at_cong) simp
  have len: "length (proghdrs f b) = unat (e_phnum ?h)" by (simp add: proghdrs_def)
  show "span (b + e_phoff ?h) (32 * length (proghdrs f b)) \<subseteq> span b n"
  proof
    fix x assume "x \<in> span (b + e_phoff ?h) (32 * length (proghdrs f b))"
    then obtain i where i: "i < 32 * unat (e_phnum ?h)" "x = b + e_phoff ?h + of_nat i" unfolding len by (auto simp: span_def)
    then have "x = b + of_nat (unat (e_phoff ?h) + i)" "unat (e_phoff ?h) + i < n" using assms(3) by simp_all
    then show "x \<in> span b n" unfolding span_def by blast
  qed
  assume "i < length (proghdrs f b)"
  then have i: "i < unat (e_phnum ?h)" unfolding len .
  have "proghdr_at m (b + e_phoff ?h + 32 * of_nat i) = proghdr_at f (b + e_phoff ?h + 32 * of_nat i)"
  proof (rule proghdr_at_cong)
    fix j :: nat assume "j < 32"
    then have "unat (e_phoff ?h) + 32 * i + j < n" using i assms(3) by linarith
    from same [OF this] show "m (b + e_phoff ?h + 32 * of_nat i + of_nat j) = f (b + e_phoff ?h + 32 * of_nat i + of_nat j)" by (simp add: add.assoc)
  qed
  then show "proghdr_at m (b + e_phoff ?h + 32 * of_nat i) = proghdrs f b ! i" using i by (simp add: proghdrs_def)
qed

text \<open>
  C26: the boot loader. If the disk is idle at first and becomes ready after each command, however late, \<^verbatim>\<open>bootmain\<close> does not wait
  forever. The disk delivers only what is asked for completely: one sector of drive 0 at a block address. Without the ELF
  magic number in the second sector it hangs after two words to the debug port. Otherwise, for a file whose program headers
  lie in its first page and whose segments overwrite neither that page nor an earlier segment, it enters the kernel at the
  entry point of the file with every byte of every segment at its address.
\<close>

theorem bootmain_correct:
  assumes ready: "\<forall>c p. \<exists>n\<ge>p. status s c n AND 0xC0 = 0x40"
    and idle: "transfer s = 0"
    and h: "h = elfhdr_at (file_view s) ELFHDR" and ps: "ps = proghdrs (file_view s) ELFHDR"
    and ok: "e_magic h = ELF_MAGIC \<Longrightarrow> unat (e_phoff h) + 32 * length ps \<le> 4096 \<and> loadable pc_fits pc_area (span ELFHDR 4096) 0xFFFFFF ps"
  shows "\<exists>r s'. bootmain s = Some (r, s') \<and>
    (if e_magic h \<noteq> ELF_MAGIC then r = Hang \<and> outws s' = outws s @ [(0x8A00, 0x8A00), (0x8A00, 0x8E00)]
     else r = Enter (e_entry h AND 0xFFFFFF) \<and> outws s' = outws s \<and>
       (\<forall>p\<in>set ps. \<forall>k<unat (p_memsz p). ram s' ((p_va p AND 0xFFFFFF) + of_nat k) = image s (512 + (unat (p_offset p) + k))))"
proof -
  define img where "img = image s"
  have d: "disk_ok img s" using ready idle by (simp add: disk_ok_def img_def)
  obtain s1 where s1: "readseg ELFHDR 4096 0 s = Some s1" "disk_ok img s1" "outws s1 = outws s" "\<forall>a\<in>hdr_page. ram s1 a = file_view s a"
    using header_loaded [OF d] by blast
  have h1: "elfhdr_at (ram s1) ELFHDR = h" unfolding h using s1(4) by (intro elfhdr_at_cong) (auto simp: span_def)
  show ?thesis
  proof (cases "e_magic h = ELF_MAGIC")
    case False
    then show ?thesis using s1(1, 3) h1 by (simp add: bootmain_def outw_def)
  next
    case True
    have len: "length ps = unat (e_phnum h)" by (simp add: ps h proghdrs_def)
    let ?ph = "ELFHDR + e_phoff h"
    have b: "unat (e_phoff h) + 32 * length ps \<le> 4096" and l: "loadable pc_fits pc_area hdr_page 0xFFFFFF ps" using ok True by auto
    have ld: "\<forall>p\<in>set ps. pc_fits (p_va p AND 0xFFFFFF) (p_memsz p) (p_offset p) \<and> disk.seg_area 0xFFFFFF p \<inter> hdr_page = {}"
      "\<forall>i j. i < j \<and> j < length ps \<longrightarrow> span (p_va (ps ! i) AND 0xFFFFFF) (unat (p_memsz (ps ! i))) \<inter> disk.seg_area 0xFFFFFF (ps ! j) = {}"
      using l unfolding loadable_def disk.seg_area_def by (rule conjunct1, rule conjunct2)
    have n: "52 \<le> (4096 :: nat)" by simp
    note t = loaded_tables [OF s1(4) n, folded h ps, OF b [unfolded len]]
    have tab: "\<forall>i<length ps. proghdr_at (ram s1) (?ph + 32 * of_nat i) = ps ! i" using t(2) by blast
    have "unat ?ph = 65536 + unat (e_phoff h)" using unat_add_of_nat [of ELFHDR "unat (e_phoff h)"] b by simp
    then have w: "unat ?ph + 32 * length ps < 2 ^ 32" using b by simp
    have end': "?ph + 32 * ucast (e_phnum h) = ?ph + 32 * of_nat (length ps)" unfolding len by simp
    obtain s2 where s2: "load_segments (\<lambda>p. readseg (p_va p AND 0xFFFFFF) (p_memsz p) (p_offset p)) ?ph (?ph + 32 * of_nat (length ps)) s1 = Some s2"
        "disk_ok img s2 \<and> outws s2 = outws s" "\<forall>p\<in>set ps. \<forall>k<unat (p_memsz p). ram s2 ((p_va p AND 0xFFFFFF) + of_nat k) = img (512 + (unat (p_offset p) + k))"
        "\<forall>a. (\<forall>p\<in>set ps. a \<notin> disk.seg_area 0xFFFFFF p) \<longrightarrow> ram s2 a = ram s1 a"
      using disk.load_all [OF conjI [OF s1(2, 3)] tab t(3) w ld] by (elim exE conjE) (rule that, auto)
    have "ram s2 a = file_view s a" if "a \<in> hdr_page" for a
    proof -
      have "\<forall>p\<in>set ps. a \<notin> disk.seg_area 0xFFFFFF p" using ld(1) that by blast
      then show ?thesis using s2(4) s1(4) that by simp
    qed
    then have h2: "elfhdr_at (ram s2) ELFHDR = h" unfolding h by (intro elfhdr_at_cong) (auto simp: span_def)
    have "bootmain s = Some (Enter (e_entry h AND 0xFFFFFF), s2)"
      using s1(1) h1 True s2(1) h2 by (simp add: bootmain_def end')
    then show ?thesis using True s2(2, 3) by (simp add: img_def)
  qed
qed

lemma uart_puts_eq: "uart_puts cs s = s\<lparr>uart := uart s @ cs\<rparr>"
  by (induction cs arbitrary: s) (simp_all add: uart_putc_def)

text \<open>
  The loader of the ARM board has the file in memory from the start: the bytes of the \<open>n\<close> that no segment overwrites.
\<close>

lemma arm_bootmain_ok:
  assumes h: "h = elfhdr_at (ram s) ARM_ELFHDR" and ps: "ps = proghdrs (ram s) ARM_ELFHDR"
    and ok: "e_magic h = ELF_MAGIC" "52 \<le> n" "unat (e_phoff h) + 32 * length ps \<le> n" "n < 0xC0000000"
      "loadable (\<lambda>va count off. unat off + unat count \<le> n) (\<lambda>va count off. span va (unat count)) (span ARM_ELFHDR n) (- 1) ps"
  shows "\<exists>s'. arm_bootmain s = Some (Enter (e_entry h), s')
    \<and> (\<forall>p\<in>set ps. \<forall>k<unat (p_memsz p). ram s' (p_va p + of_nat k) = ram s (ARM_ELFHDR + of_nat (unat (p_offset p) + k)))
    \<and> uart s' = uart s @ ''ucore bootloader'' @ [CHR 10] @ ''Calling into kernel...'' @ [CHR 10]"
proof -
  define f where "f k = ram s (ARM_ELFHDR + of_nat k)" for k
  define s1 where "s1 = uart_puts (''ucore bootloader'' @ [CHR 10]) s"
  have s1: "ram s1 = ram s" "uart s1 = uart s @ ''ucore bootloader'' @ [CHR 10]" by (simp_all add: s1_def uart_puts_eq del: uart_puts.simps)
  have inv: "rom_ok f n s1 \<and> uart s1 = uart s1" by (simp add: rom_ok_def f_def s1)
  have len: "length ps = unat (e_phnum h)" by (simp add: ps h proghdrs_def)
  let ?ph = "ARM_ELFHDR + e_phoff h"
  have ld: "\<forall>p\<in>set ps. unat (p_offset p) + unat (p_memsz p) \<le> n \<and> rom.seg_area (- 1) p \<inter> span ARM_ELFHDR n = {}"
    "\<forall>i j. i < j \<and> j < length ps \<longrightarrow> span (p_va (ps ! i) AND - 1) (unat (p_memsz (ps ! i))) \<inter> rom.seg_area (- 1) (ps ! j) = {}"
    using ok(5) unfolding loadable_def rom.seg_area_def by (rule conjunct1, rule conjunct2)
  have same: "\<forall>a\<in>span ARM_ELFHDR n. ram s1 a = ram s a" by (simp add: s1)
  note t = loaded_tables [OF same ok(2), folded h ps, OF ok(3) [unfolded len]]
  have tab: "\<forall>i<length ps. proghdr_at (ram s1) (?ph + 32 * of_nat i) = ps ! i" using t(2) by blast
  have "unat ?ph = 0x30010000 + unat (e_phoff h)" using unat_add_of_nat [of ARM_ELFHDR "unat (e_phoff h)"] ok(3, 4) by simp
  then have w: "unat ?ph + 32 * length ps < 2 ^ 32" using ok(3, 4) by simp
  have end': "?ph + 32 * ucast (e_phnum h) = ?ph + 32 * of_nat (length ps)" unfolding len by simp
  obtain s2 where s2: "load_segments (\<lambda>p. arm_readseg (p_va p AND - 1) (p_memsz p) (p_offset p)) ?ph (?ph + 32 * of_nat (length ps)) s1 = Some s2"
      "rom_ok f n s2 \<and> uart s2 = uart s1" "\<forall>p\<in>set ps. \<forall>k<unat (p_memsz p). ram s2 ((p_va p AND - 1) + of_nat k) = f (unat (p_offset p) + k)"
    using rom.load_all [OF inv tab t(3) w ld] by (elim exE conjE) (rule that, auto)
  have h2: "elfhdr_at (ram s2) ARM_ELFHDR = h"
    unfolding h using s2(2) ok(2) by (intro elfhdr_at_cong) (auto simp: rom_ok_def f_def)
  have "arm_bootmain s = Some (Enter (e_entry h), uart_puts (''Calling into kernel...'' @ [CHR 10]) s2)"
    unfolding arm_bootmain_def Let_def s1_def [symmetric] s1(1) h [symmetric] end'
    using ok(1) s2(1) h2 by (simp add: uart_puts_eq del: uart_puts.simps)
  then show ?thesis using s2(2, 3) s1(2) by (simp add: uart_puts_eq f_def del: uart_puts.simps)
qed

lemma sign_main_ok:
  assumes "length bs \<le> 510"
  obtains buf where "sign_main 3 (Some bs) (length bs) 512 = (0, Some buf)" "length buf = 512" "take (length bs) buf = bs"
    "buf ! 510 = 0x55" "buf ! 511 = 0xAA"
proof
  let ?buf = "(bs @ replicate (512 - length bs) 0)[510 := 0x55, 511 := 0xAA]"
  show "sign_main 3 (Some bs) (length bs) 512 = (0, Some ?buf)" using assms by (simp add: sign_main_def Let_def)
  show "length ?buf = 512" "take (length bs) ?buf = bs" "?buf ! 510 = 0x55" "?buf ! 511 = 0xAA" using assms by simp_all
qed

text \<open>A disk that is always ready, with a kernel of one segment: 16 bytes at \<open>4096\<close> of the file, for the address \<open>0xC0100000\<close>.\<close>

definition demo_image :: "nat \<Rightarrow> u8" where
  "demo_image k = (case map_of [(512, 0x7F), (513, 0x45), (514, 0x4C), (515, 0x46), (538, 0x10), (539, 0xC0), (540, 52), (556, 1),
     (569, 0x10), (574, 0x10), (575, 0xC0), (584, 16), (4608, 0xFA)] k of None \<Rightarrow> 0 | Some v \<Rightarrow> v)"

definition demo_pc :: pc where
  "demo_pc = \<lparr>ram = \<lambda>_. 0, image = demo_image, status = \<lambda>_ _. 0x40, commands = 0, polls = 0, settled = False, taskfile = \<lambda>_. 0, datapos = 0, transfer = 0, outws = []\<rparr>"

theorem bootmain_correct_witness:
  "\<exists>s'. bootmain demo_pc = Some (Enter 0x100000, s') \<and> ram s' 0x100000 = 0xFA"
proof -
  have r: "\<forall>c p. \<exists>n\<ge>p. status demo_pc c n AND 0xC0 = 0x40" by (auto simp: demo_pc_def)
  have t: "transfer demo_pc = 0" by (simp add: demo_pc_def)
  have v: "file_view demo_pc a = demo_image (512 + unat (a - ELFHDR))" for a by (simp add: file_view_def demo_pc_def)
  let ?h = "elfhdr_at (file_view demo_pc) ELFHDR" and ?ps = "proghdrs (file_view demo_pc) ELFHDR"
  have h: "e_magic ?h = ELF_MAGIC" "e_entry ?h = 0xC0100000" "e_phoff ?h = 52" "e_phnum ?h = 1"
    by (simp_all add: elfhdr_at_def read32_def read16_def v demo_image_def)
  have ps: "?ps = [proghdr_at (file_view demo_pc) 0x10034]" by (simp add: proghdrs_def h)
  have p: "p_va (hd ?ps) = 0xC0100000" "p_memsz (hd ?ps) = 16" "p_offset (hd ?ps) = 4096"
    by (simp_all add: ps proghdr_at_def read32_def v demo_image_def)
  have u: "i < 4096 \<Longrightarrow> unat (0x10000 + of_nat i :: u32) = 0x10000 + i" for i using unat_add_of_nat [of "0x10000" i] by simp
  have "loadable pc_fits pc_area (span ELFHDR 4096) 0xFFFFFF ?ps"
    using p by (auto simp: loadable_def ps pc_fits_def pc_area_def span_def u)
  then obtain s' where s': "bootmain demo_pc = Some (Enter 0x100000, s')"
    "\<forall>k<16. ram s' (0x100000 + of_nat k) = image demo_pc (512 + (4096 + k))"
    using bootmain_correct [OF r t refl refl] h p ps by auto
  then have "ram s' 0x100000 = image demo_pc 4608" using s'(2) [rule_format, of 0] by simp
  then show ?thesis using s'(1) by (simp add: demo_pc_def demo_image_def)
qed

end
