(* ===== verification/Memlayout.thy ===== *)
theory Memlayout
  imports Prelude
begin

text \<open>
  The page descriptor of \<^verbatim>\<open>kern/include/memlayout.h\<close>: \<^verbatim>\<open>struct Page\<close>, the status flags with
  their set, clear and test macros, and the reference counter. A \<^verbatim>\<open>struct Page *\<close> is the
  index of the descriptor in the array \<^verbatim>\<open>pages\<close>, that is, the physical page number.
  The link field of a descriptor on a free list is modelled by the free list itself.
\<close>

section \<open>Definitions\<close>

record page =
  ref :: u32
  flags :: u32
  property :: nat
  zone_num :: int

abbreviation (input) PG_reserved :: nat where "PG_reserved \<equiv> 0"
abbreviation (input) PG_property :: nat where "PG_property \<equiv> 1"
abbreviation (input) PG_slab :: nat where "PG_slab \<equiv> 2"
abbreviation (input) PG_dirty :: nat where "PG_dirty \<equiv> 3"
abbreviation (input) PG_swap :: nat where "PG_swap \<equiv> 4"
abbreviation (input) PG_active :: nat where "PG_active \<equiv> 5"

definition SetPageReserved :: "page \<Rightarrow> page" where
  "SetPageReserved p = p\<lparr>flags := set_bit_w PG_reserved (flags p)\<rparr>"

definition ClearPageReserved :: "page \<Rightarrow> page" where
  "ClearPageReserved p = p\<lparr>flags := clear_bit_w PG_reserved (flags p)\<rparr>"

definition PageReserved :: "page \<Rightarrow> bool" where
  "PageReserved p = test_bit_w PG_reserved (flags p)"

definition SetPageProperty :: "page \<Rightarrow> page" where
  "SetPageProperty p = p\<lparr>flags := set_bit_w PG_property (flags p)\<rparr>"

definition ClearPageProperty :: "page \<Rightarrow> page" where
  "ClearPageProperty p = p\<lparr>flags := clear_bit_w PG_property (flags p)\<rparr>"

definition PageProperty :: "page \<Rightarrow> bool" where
  "PageProperty p = test_bit_w PG_property (flags p)"

definition SetPageSlab :: "page \<Rightarrow> page" where
  "SetPageSlab p = p\<lparr>flags := set_bit_w PG_slab (flags p)\<rparr>"

definition ClearPageSlab :: "page \<Rightarrow> page" where
  "ClearPageSlab p = p\<lparr>flags := clear_bit_w PG_slab (flags p)\<rparr>"

definition PageSlab :: "page \<Rightarrow> bool" where
  "PageSlab p = test_bit_w PG_slab (flags p)"

definition PageSwap :: "page \<Rightarrow> bool" where
  "PageSwap p = test_bit_w PG_swap (flags p)"

definition page_ref :: "page \<Rightarrow> u32" where
  "page_ref p = ref p"

definition set_page_ref :: "u32 \<Rightarrow> page \<Rightarrow> page" where
  "set_page_ref val p = p\<lparr>ref := val\<rparr>"

text \<open>\<^verbatim>\<open>page_ref_inc\<close> and \<^verbatim>\<open>page_ref_dec\<close> update the counter and return its new value.\<close>

definition page_ref_inc :: "page \<Rightarrow> u32 \<times> page" where
  "page_ref_inc p = (ref p + 1, p\<lparr>ref := ref p + 1\<rparr>)"

definition page_ref_dec :: "page \<Rightarrow> u32 \<times> page" where
  "page_ref_dec p = (ref p - 1, p\<lparr>ref := ref p - 1\<rparr>)"

section \<open>Flag algebra\<close>

lemmas page_flag_defs = SetPageReserved_def ClearPageReserved_def PageReserved_def
  SetPageProperty_def ClearPageProperty_def PageProperty_def SetPageSlab_def ClearPageSlab_def
  PageSlab_def PageSwap_def

lemma page_flag_simps [simp]:
  "PageReserved (SetPageReserved p)"
  "PageProperty (SetPageReserved p) = PageProperty p"
  "PageProperty (SetPageProperty p)"
  "PageReserved (SetPageProperty p) = PageReserved p"
  "PageSlab (SetPageProperty p) = PageSlab p"
  "\<not> PageProperty (ClearPageProperty p)"
  "PageReserved (ClearPageProperty p) = PageReserved p"
  "PageSlab (ClearPageProperty p) = PageSlab p"
  "PageSlab (SetPageSlab p)"
  "PageProperty (SetPageSlab p) = PageProperty p"
  "PageReserved (SetPageSlab p) = PageReserved p"
  "\<not> PageSlab (ClearPageSlab p)"
  "PageProperty (ClearPageSlab p) = PageProperty p"
  "PageReserved (ClearPageSlab p) = PageReserved p"
  by (simp_all add: page_flag_defs)

lemma page_field_simps [simp]:
  "property (SetPageProperty p) = property p"
  "zone_num (SetPageProperty p) = zone_num p"
  "ref (SetPageProperty p) = ref p"
  "property (ClearPageProperty p) = property p"
  "zone_num (ClearPageProperty p) = zone_num p"
  "ref (ClearPageProperty p) = ref p"
  "property (SetPageSlab p) = property p"
  "zone_num (SetPageSlab p) = zone_num p"
  "property (ClearPageSlab p) = property p"
  "zone_num (ClearPageSlab p) = zone_num p"
  by (simp_all add: page_flag_defs)

lemma page_flags_cong [simp]:
  "PageReserved (p\<lparr>property := k\<rparr>) = PageReserved p"
  "PageProperty (p\<lparr>property := k\<rparr>) = PageProperty p"
  "PageReserved (p\<lparr>ref := r\<rparr>) = PageReserved p"
  "PageProperty (p\<lparr>ref := r\<rparr>) = PageProperty p"
  "PageSlab (p\<lparr>ref := r\<rparr>) = PageSlab p"
  "\<not> PageReserved (p\<lparr>flags := 0\<rparr>)"
  "\<not> PageProperty (p\<lparr>flags := 0\<rparr>)"
  by (simp_all add: page_flag_defs)

lemma set_page_ref_simps [simp]:
  "PageReserved (set_page_ref v p) = PageReserved p"
  "PageProperty (set_page_ref v p) = PageProperty p"
  "property (set_page_ref v p) = property p"
  "zone_num (set_page_ref v p) = zone_num p"
  "ref (set_page_ref v p) = v"
  by (simp_all add: set_page_ref_def)

end
