(* ===== verification/Lists.thy ===== *)
theory Lists
  imports Prelude
begin

text \<open>
  The intrusive circular doubly linked list of \<^verbatim>\<open>include/list.h\<close>. A store maps the address
  of every \<^verbatim>\<open>list_entry_t\<close> to its two link fields; the operations perform the source's
  pointer writes in the source's order. \<open>is_dlist\<close> relates a store and a list head to the
  sequence of entries on the list, every operation is shown to act on that sequence, and a
  locale states this contract for the components that keep their data on such lists.
\<close>

section \<open>Definitions\<close>

record 'p list_entry =
  le_prev :: 'p
  le_next :: 'p

type_synonym 'p le_store = "'p \<Rightarrow> 'p list_entry"

definition set_next :: "'p \<Rightarrow> 'p \<Rightarrow> 'p le_store \<Rightarrow> 'p le_store" where
  "set_next p v h = h(p := (h p)\<lparr>le_next := v\<rparr>)"

definition set_prev :: "'p \<Rightarrow> 'p \<Rightarrow> 'p le_store \<Rightarrow> 'p le_store" where
  "set_prev p v h = h(p := (h p)\<lparr>le_prev := v\<rparr>)"

definition list_init :: "'p \<Rightarrow> 'p le_store \<Rightarrow> 'p le_store" where
  "list_init elm h = set_prev elm elm (set_next elm elm h)"

text \<open>\<^verbatim>\<open>__list_add\<close>: \<^verbatim>\<open>prev->next = next->prev = elm; elm->next = next; elm->prev = prev\<close>.\<close>

definition list_add_between :: "'p \<Rightarrow> 'p \<Rightarrow> 'p \<Rightarrow> 'p le_store \<Rightarrow> 'p le_store" where
  "list_add_between elm pre nxt h =
     (let h1 = set_prev nxt elm h;
          h2 = set_next pre elm h1;
          h3 = set_next elm nxt h2
      in set_prev elm pre h3)"

text \<open>\<^verbatim>\<open>__list_del\<close>: \<^verbatim>\<open>prev->next = next; next->prev = prev\<close>.\<close>

definition list_del_between :: "'p \<Rightarrow> 'p \<Rightarrow> 'p le_store \<Rightarrow> 'p le_store" where
  "list_del_between pre nxt h = set_prev nxt pre (set_next pre nxt h)"

definition list_next :: "'p \<Rightarrow> 'p le_store \<Rightarrow> 'p" where
  "list_next listelm h = le_next (h listelm)"

definition list_prev :: "'p \<Rightarrow> 'p le_store \<Rightarrow> 'p" where
  "list_prev listelm h = le_prev (h listelm)"

definition list_add_after :: "'p \<Rightarrow> 'p \<Rightarrow> 'p le_store \<Rightarrow> 'p le_store" where
  "list_add_after listelm elm h = list_add_between elm listelm (le_next (h listelm)) h"

definition list_add_before :: "'p \<Rightarrow> 'p \<Rightarrow> 'p le_store \<Rightarrow> 'p le_store" where
  "list_add_before listelm elm h = list_add_between elm (le_prev (h listelm)) listelm h"

definition list_add :: "'p \<Rightarrow> 'p \<Rightarrow> 'p le_store \<Rightarrow> 'p le_store" where
  "list_add listelm elm h = list_add_after listelm elm h"

definition list_del :: "'p \<Rightarrow> 'p le_store \<Rightarrow> 'p le_store" where
  "list_del listelm h = list_del_between (le_prev (h listelm)) (le_next (h listelm)) h"

definition list_del_init :: "'p \<Rightarrow> 'p le_store \<Rightarrow> 'p le_store" where
  "list_del_init listelm h = list_init listelm (list_del listelm h)"

definition list_empty :: "'p \<Rightarrow> 'p le_store \<Rightarrow> bool" where
  "list_empty lst h = (le_next (h lst) = lst)"

text \<open>
  The loop \<^verbatim>\<open>while ((le = list_next(le)) != list)\<close> that the kernel uses to visit a list,
  collecting the entries it visits. The fuel bounds the number of steps; \<open>None\<close> is a walk
  that did not come back to the head in time.
\<close>

fun list_walk :: "nat \<Rightarrow> 'p le_store \<Rightarrow> 'p \<Rightarrow> 'p \<Rightarrow> 'p list option" where
  "list_walk 0 h lst le = None"
| "list_walk (Suc fuel) h lst le =
     (let le' = list_next le h in
      if le' = lst then Some []
      else map_option (Cons le') (list_walk fuel h lst le'))"

section \<open>The sequence a list head stands for\<close>

text \<open>\<open>dseg h p xs q\<close>: the links of \<open>p\<close>, of the entries \<open>xs\<close> in order and of \<open>q\<close> chain them.\<close>

fun dseg :: "'p le_store \<Rightarrow> 'p \<Rightarrow> 'p list \<Rightarrow> 'p \<Rightarrow> bool" where
  "dseg h p [] q = (le_next (h p) = q \<and> le_prev (h q) = p)"
| "dseg h p (x # xs) q = (le_next (h p) = x \<and> le_prev (h x) = p \<and> dseg h x xs q)"

definition is_dlist :: "'p le_store \<Rightarrow> 'p \<Rightarrow> 'p list \<Rightarrow> bool" where
  "is_dlist h lst xs = (distinct (lst # xs) \<and> dseg h lst xs lst)"

lemmas list_ops_defs = list_init_def list_add_between_def list_del_between_def set_next_def set_prev_def Let_def

lemma dseg_append:
  "dseg h p (xs @ x # ys) q \<longleftrightarrow> dseg h p xs x \<and> dseg h x ys q"
  by (induction xs arbitrary: p) auto

text \<open>
  A segment only depends on the \<^verbatim>\<open>next\<close> fields of all but its last entry and on the
  \<^verbatim>\<open>prev\<close> fields of all but its first.
\<close>

lemma dseg_cong:
  assumes "\<And>x. x \<in> set (p # xs) \<Longrightarrow> le_next (h' x) = le_next (h x)"
    and "\<And>x. x \<in> set (xs @ [q]) \<Longrightarrow> le_prev (h' x) = le_prev (h x)"
  shows "dseg h' p xs q = dseg h p xs q"
  using assms by (induction xs arbitrary: p) auto

lemma dseg_add_between:
  assumes "dseg h p [] q" and "elm \<noteq> p" and "elm \<noteq> q"
  shows "dseg (list_add_between elm p q h) p [elm] q"
  using assms by (auto simp: list_ops_defs)

lemma le_next_add_between:
  "le_next (list_add_between elm p q h x) = (if x = elm then q else if x = p then elm else le_next (h x))"
  by (simp add: list_ops_defs)

lemma le_prev_add_between:
  "le_prev (list_add_between elm p q h x) = (if x = elm then p else if x = q then elm else le_prev (h x))"
  by (simp add: list_ops_defs)

lemma le_next_del_between:
  "le_next (list_del_between p q h x) = (if x = p then q else le_next (h x))"
  by (simp add: list_ops_defs)

lemma le_prev_del_between:
  "le_prev (list_del_between p q h x) = (if x = q then p else le_prev (h x))"
  by (simp add: list_ops_defs)

lemmas le_field_simps = le_next_add_between le_prev_add_between le_next_del_between le_prev_del_between

lemma dseg_ends: "dseg h p xs q \<Longrightarrow> le_next (h p) = hd (xs @ [q]) \<and> le_prev (h q) = last (p # xs)"
  by (induction xs arbitrary: p) auto

lemma is_dlist_init: "is_dlist (list_init lst h) lst []"
  by (simp add: is_dlist_def list_ops_defs)

text \<open>
  Insertion between the entries \<open>xs\<close> and \<open>ys\<close>: the cut is made at the last entry of
  \<open>lst # xs\<close>. The cut point splits the cycle into a left and a right part; the new entry
  is linked between them and both parts are otherwise untouched.
\<close>

lemma dseg_insert:
  assumes "dseg h p (xs @ ys) q" and "distinct (p # xs @ ys)" and "q \<notin> set (xs @ ys)"
    and "elm \<notin> set (p # q # xs @ ys)"
  shows "dseg (list_add_between elm (last (p # xs)) (hd (ys @ [q])) h) p (xs @ elm # ys) q"
  using assms
proof (induction xs arbitrary: p)
  case Nil
  show ?case
  proof (cases ys)
    case Nil
    with Nil.prems show ?thesis by (auto simp: le_field_simps)
  next
    case (Cons y ys')
    have "dseg (list_add_between elm p y h) y ys' q = dseg h y ys' q"
      using Nil.prems Cons by (intro dseg_cong) (auto simp: le_field_simps)
    with Nil.prems Cons show ?thesis by (auto simp: le_field_simps)
  qed
next
  case (Cons x xs)
  have IH: "dseg (list_add_between elm (last (x # xs)) (hd (ys @ [q])) h) x (xs @ elm # ys) q"
    using Cons.prems by (intro Cons.IH) auto
  have "p \<noteq> last (x # xs)"
    using Cons.prems(2) by (metis append_Cons distinct.simps(2) last_in_set list.discI Un_iff set_append)
  moreover have "x \<noteq> hd (ys @ [q])"
    using Cons.prems(2,3) by (cases ys) auto
  ultimately show ?case
    using IH Cons.prems by (auto simp: le_field_simps)
qed

lemma is_dlist_add_after:
  assumes "is_dlist h lst (xs @ ys)" and "elm \<noteq> lst" and "elm \<notin> set (xs @ ys)"
  shows "is_dlist (list_add_after (last (lst # xs)) elm h) lst (xs @ elm # ys)"
proof -
  from assms(1) have seg: "dseg h lst (xs @ ys) lst" and dist: "distinct (lst # xs @ ys)"
    by (simp_all add: is_dlist_def)
  have nxt: "le_next (h (last (lst # xs))) = hd (ys @ [lst])"
  proof (cases xs rule: rev_cases)
    case Nil
    with dseg_ends [OF seg] show ?thesis by simp
  next
    case (snoc xs' x)
    with seg have "dseg h x ys lst" by (simp add: dseg_append)
    with snoc dseg_ends show ?thesis by fastforce
  qed
  have eq: "list_add_after (last (lst # xs)) elm h = list_add_between elm (last (lst # xs)) (hd (ys @ [lst])) h"
    by (simp only: list_add_after_def nxt)
  have "dseg (list_add_between elm (last (lst # xs)) (hd (ys @ [lst])) h) lst (xs @ elm # ys) lst"
    using dist assms(2,3) by (intro dseg_insert [OF seg dist]) auto
  then show ?thesis
    unfolding is_dlist_def eq using dist assms(2,3) by auto
qed

text \<open>The head insertion the kernel uses most: \<^verbatim>\<open>list_add(&list, elm)\<close>.\<close>

lemma is_dlist_add:
  assumes "is_dlist h lst xs" and "elm \<noteq> lst" and "elm \<notin> set xs"
  shows "is_dlist (list_add lst elm h) lst (elm # xs)"
  using is_dlist_add_after [of h lst "[]" xs elm] assms by (simp add: list_add_def)

text \<open>\<^verbatim>\<open>list_add_before(&list, elm)\<close> appends at the tail.\<close>

lemma is_dlist_add_before:
  assumes "is_dlist h lst xs" and "elm \<noteq> lst" and "elm \<notin> set xs"
  shows "is_dlist (list_add_before lst elm h) lst (xs @ [elm])"
proof -
  from assms(1) have "le_prev (h lst) = last (lst # xs)" and "le_next (h (last (lst # xs))) = lst"
    by (auto simp: is_dlist_def dest: dseg_ends)
      (metis append_butlast_last_id dseg.simps(1) dseg_append)
  then have "list_add_before lst elm h = list_add_after (last (lst # xs)) elm h"
    by (simp add: list_add_before_def list_add_after_def)
  then show ?thesis
    using is_dlist_add_after [of h lst xs "[]" elm] assms by simp
qed

lemma dseg_delete:
  assumes "dseg h p (xs @ elm # ys) q" and "distinct (p # xs @ elm # ys)" and "q \<notin> set (xs @ elm # ys)"
  shows "dseg (list_del elm h) p (xs @ ys) q"
proof -
  from assms(1) have l: "dseg h p xs elm" and r: "dseg h elm ys q"
    by (simp_all add: dseg_append)
  have pre: "le_prev (h elm) = last (p # xs)" and nxt: "le_next (h elm) = hd (ys @ [q])"
    using dseg_ends [OF l] dseg_ends [OF r] by simp_all
  let ?h = "list_del_between (last (p # xs)) (hd (ys @ [q])) h"
  have "dseg ?h p (xs @ ys) q"
    using assms l r
  proof (induction xs arbitrary: p)
    case Nil
    show ?case
    proof (cases ys)
      case Nil
      with Nil.prems show ?thesis by (simp add: le_field_simps)
    next
      case (Cons y ys')
      have "dseg (list_del_between p y h) y ys' q = dseg h y ys' q"
        using Nil.prems Cons by (intro dseg_cong) (auto simp: le_field_simps)
      with Nil.prems Cons show ?thesis by (auto simp: le_field_simps)
    qed
  next
    case (Cons x xs)
    have IH: "dseg (list_del_between (last (x # xs)) (hd (ys @ [q])) h) x (xs @ ys) q"
      using Cons.prems by (intro Cons.IH) auto
    have "p \<noteq> last (x # xs)"
      using Cons.prems(2) by (metis append_Cons distinct.simps(2) last_in_set list.discI Un_iff set_append)
    moreover have "x \<noteq> hd (ys @ [q])"
      using Cons.prems(2,3) by (cases ys) auto
    ultimately show ?case
      using IH Cons.prems by (simp add: le_field_simps)
  qed
  then show ?thesis
    by (simp add: list_del_def pre nxt)
qed

lemma is_dlist_del:
  assumes "is_dlist h lst (xs @ elm # ys)"
  shows "is_dlist (list_del elm h) lst (xs @ ys)"
  using dseg_delete [of h lst xs elm ys lst] assms by (auto simp: is_dlist_def)

lemma is_dlist_del_remove1:
  assumes "is_dlist h lst xs" and "elm \<in> set xs"
  shows "is_dlist (list_del elm h) lst (remove1 elm xs)"
proof -
  obtain ys zs where xs: "xs = ys @ elm # zs" and "elm \<notin> set ys"
    using assms(2) by (meson split_list_first)
  then have "remove1 elm xs = ys @ zs" by (simp add: remove1_append)
  with is_dlist_del assms(1) xs show ?thesis by metis
qed

lemma list_empty_iff: "is_dlist h lst xs \<Longrightarrow> list_empty lst h \<longleftrightarrow> xs = []"
  by (cases xs) (auto simp: is_dlist_def list_empty_def)

lemma list_next_hd: "is_dlist h lst xs \<Longrightarrow> list_next lst h = hd (xs @ [lst])"
  by (auto simp: is_dlist_def list_next_def dest: dseg_ends)

lemma list_prev_last: "is_dlist h lst xs \<Longrightarrow> list_prev lst h = last (lst # xs)"
  by (auto simp: is_dlist_def list_prev_def dest: dseg_ends)

text \<open>A list is untouched by writes to entries that are not on it.\<close>

lemma is_dlist_frame:
  assumes "is_dlist h lst xs" and "\<And>x. x \<in> set (lst # xs) \<Longrightarrow> h' x = h x"
  shows "is_dlist h' lst xs"
  using assms dseg_cong [of lst xs h' h lst] by (simp add: is_dlist_def)

lemma list_add_other: "is_dlist h lst xs \<Longrightarrow> x \<notin> set (elm # lst # xs) \<Longrightarrow> list_add lst elm h x = h x"
  by (cases xs) (auto simp: list_add_def list_add_after_def list_ops_defs is_dlist_def)

lemma list_del_other:
  assumes "is_dlist h lst xs" and "elm \<in> set xs" and "x \<notin> set (lst # xs)"
  shows "list_del elm h x = h x"
proof -
  obtain ys zs where xs: "xs = ys @ elm # zs"
    using assms(2) by (meson split_list)
  with assms(1) have "dseg h lst ys elm" and "dseg h elm zs lst"
    by (simp_all add: is_dlist_def dseg_append)
  then have "le_prev (h elm) \<in> set (lst # xs)" and "le_next (h elm) \<in> set (lst # xs)"
    using xs by (auto dest!: dseg_ends) (cases zs; simp)
  with assms(3) show ?thesis
    by (auto simp: list_del_def list_del_between_def set_next_def set_prev_def)
qed

text \<open>The visiting loop ends at the head after exactly the entries of the list.\<close>

lemma list_walk_from:
  assumes "dseg h le xs lst" and "lst \<notin> set xs" and "length xs < fuel"
  shows "list_walk fuel h lst le = Some xs"
  using assms
proof (induction fuel arbitrary: xs le)
  case (Suc fuel)
  then show ?case
    by (cases xs) (auto simp: list_next_def)
qed simp

section \<open>The contract of a list head\<close>

text \<open>
  What the allocators and the process table rely on. A store holds many lists; \<open>content s l xs\<close>
  says that head \<open>l\<close> chains exactly \<open>xs\<close>, first entry first.
\<close>

locale linked_list =
  fixes content :: "'s \<Rightarrow> 'p \<Rightarrow> 'p list \<Rightarrow> bool"
    and init :: "'p \<Rightarrow> 's \<Rightarrow> 's"
    and add :: "'p \<Rightarrow> 'p \<Rightarrow> 's \<Rightarrow> 's"
    and del :: "'p \<Rightarrow> 's \<Rightarrow> 's"
    and empty :: "'p \<Rightarrow> 's \<Rightarrow> bool"
    and first :: "'p \<Rightarrow> 's \<Rightarrow> 'p"
  assumes content_init: "content (init l s) l []"
    and content_add: "content s l xs \<Longrightarrow> e \<notin> set (l # xs) \<Longrightarrow> content (add l e s) l (e # xs)"
    and content_del: "content s l xs \<Longrightarrow> e \<in> set xs \<Longrightarrow> content (del e s) l (remove1 e xs)"
    and content_add_frame:
      "content s l xs \<Longrightarrow> content s l' ys \<Longrightarrow> set (l # xs) \<inter> set (l' # ys) = {} \<Longrightarrow> e \<notin> set (l # l' # xs @ ys)
        \<Longrightarrow> content (add l e s) l' ys"
    and content_del_frame:
      "content s l xs \<Longrightarrow> content s l' ys \<Longrightarrow> set (l # xs) \<inter> set (l' # ys) = {} \<Longrightarrow> e \<in> set xs
        \<Longrightarrow> content (del e s) l' ys"
    and empty_iff: "content s l xs \<Longrightarrow> empty l s \<longleftrightarrow> xs = []"
    and first_content: "content s l xs \<Longrightarrow> xs \<noteq> [] \<Longrightarrow> first l s = hd xs"
    and content_distinct: "content s l xs \<Longrightarrow> distinct xs \<and> l \<notin> set xs"
begin

lemma push_pop:
  assumes "content s l xs" and "e \<notin> set (l # xs)"
  shows "first l (add l e s) = e \<and> content (del e (add l e s)) l xs"
  using content_add [OF assms] first_content content_del by fastforce

lemma push_all:
  assumes "content s l xs" and "distinct es" and "set es \<inter> set (l # xs) = {}"
  shows "content (fold (add l) es s) l (rev es @ xs)"
  using assms
proof (induction es arbitrary: s xs)
  case (Cons e es)
  then have "content (add l e s) l (e # xs)"
    by (intro content_add) auto
  with Cons.IH [of "add l e s" "e # xs"] Cons.prems show ?case
    by auto
qed simp

text \<open>Moving an entry from one list to another, as the slab allocator does with its slabs.\<close>

lemma move_entry:
  assumes "content s l xs" and "content s l' ys" and "set (l # xs) \<inter> set (l' # ys) = {}" and "e \<in> set xs"
  shows "content (add l' e (del e s)) l' (e # ys) \<and> content (add l' e (del e s)) l (remove1 e xs)"
proof -
  have del: "content (del e s) l (remove1 e xs)" "content (del e s) l' ys"
    using content_del [OF assms(1,4)] content_del_frame [OF assms] by simp_all
  have fresh: "e \<notin> set (l' # ys)" and own: "e \<notin> set (l # remove1 e xs)"
    using assms content_distinct [OF assms(1)] by auto
  have "set (l' # ys) \<inter> set (l # remove1 e xs) = {}"
    using assms(3) set_remove1_subset [of e xs] by auto
  then show ?thesis
    using content_add [OF del(2) fresh] content_add_frame [OF del(2) del(1)] fresh own by auto
qed

end

lemma is_dlist_distinct: "is_dlist h lst xs \<Longrightarrow> distinct xs \<and> lst \<notin> set xs"
  by (simp add: is_dlist_def)

interpretation dll: linked_list is_dlist list_init list_add list_del list_empty list_next
proof (unfold_locales, goal_cases)
  case (1 l s) then show ?case by (rule is_dlist_init)
next
  case (2 s l xs e) then show ?case by (auto intro: is_dlist_add)
next
  case (3 s l xs e) then show ?case by (rule is_dlist_del_remove1)
next
  case (4 s l xs l' ys e)
  then have "list_add l e s x = s x" if "x \<in> set (l' # ys)" for x
    using that by (intro list_add_other) auto
  with 4 show ?case by (auto intro: is_dlist_frame)
next
  case (5 s l xs l' ys e)
  then have "list_del e s x = s x" if "x \<in> set (l' # ys)" for x
    using that by (intro list_del_other) auto
  with 5 show ?case by (auto intro: is_dlist_frame)
next
  case (6 s l xs) then show ?case by (rule list_empty_iff)
next
  case (7 s l xs) then show ?case by (simp add: list_next_hd)
next
  case (8 s l xs) then show ?case by (rule is_dlist_distinct)
qed

section \<open>Properties\<close>

text \<open>
  on a well-linked circular list, \<^verbatim>\<open>list_add\<close> followed by visiting the list with the
  kernel's \<^verbatim>\<open>list_next\<close> loop returns the new entry followed by the old entries in order, and
  the walk ends after as many steps as there are entries.
\<close>

theorem list_add_walk:
  assumes "is_dlist h lst xs" and "elm \<noteq> lst" and "elm \<notin> set xs" and "Suc (length xs) < fuel"
  shows "list_walk fuel (list_add lst elm h) lst lst = Some (elm # xs)"
proof -
  have "is_dlist (list_add lst elm h) lst (elm # xs)"
    using assms(1-3) by (rule is_dlist_add)
  then show ?thesis
    using assms(4) by (intro list_walk_from) (auto simp: is_dlist_def)
qed

definition sample_store :: "nat le_store" where
  "sample_store = list_add 0 2 (list_add 0 1 (list_init 0 (\<lambda>_. \<lparr>le_prev = 0, le_next = 0\<rparr>)))"

lemma sample_store_dlist: "is_dlist sample_store 0 [2, 1]"
  unfolding sample_store_def by (intro is_dlist_add is_dlist_init) auto

theorem list_add_walk_witness:
  "list_walk 5 (list_add 0 (3::nat) sample_store) 0 0 = Some [3, 2, 1]"
  using list_add_walk [OF sample_store_dlist, of 3 5] by simp

text \<open>
  deleting the entry \<open>e\<close> of one list and adding it to the head of another disjoint list
  (the move the slab allocator makes between its full and not-full lists) moves exactly that
  entry: the first list keeps its other entries in order, the second gets \<open>e\<close> in front.
\<close>

theorem list_move_entry:
  assumes "is_dlist h l xs" and "is_dlist h l' ys" and "set (l # xs) \<inter> set (l' # ys) = {}" and "e \<in> set xs"
  shows "is_dlist (list_add l' e (list_del e h)) l' (e # ys)
    \<and> is_dlist (list_add l' e (list_del e h)) l (remove1 e xs)"
  using assms by (rule dll.move_entry)

theorem list_move_entry_witness:
  "let h = list_init (10::nat) sample_store in
     is_dlist (list_add 10 2 (list_del 2 h)) 10 [2] \<and> is_dlist (list_add 10 2 (list_del 2 h)) 0 [1]"
proof -
  have "is_dlist (list_init 10 sample_store) 0 [2, 1]"
    by (rule is_dlist_frame [OF sample_store_dlist]) (auto simp: list_ops_defs)
  then show ?thesis
    using list_move_entry [of "list_init 10 sample_store" 0 "[2, 1]" 10 "[]" 2] is_dlist_init [of 10 sample_store]
    by (simp add: Let_def)
qed

end
