(* ===== verification/Pmm.thy ===== *)
theory Pmm
  imports Prelude
begin

text \<open>
  The contract of a physical memory manager. \<^verbatim>\<open>kern/include/pmm.h\<close> declares
  \<^verbatim>\<open>struct pmm_manager\<close>, a table of operations that \<^verbatim>\<open>arch/x86/pmm.c\<close> calls through;
  the locale gives those operations the laws its clients (page tables, slabs, kernel stacks)
  rely on. \<open>free_pgs\<close> is the set of free page numbers, \<open>run_ok s p n\<close> says that the \<open>n\<close>
  pages at \<open>p\<close> are a run the manager may hand out, and \<open>max_run\<close> is the longest run.
\<close>

locale pmm_manager =
  fixes inv :: "'s \<Rightarrow> bool"
    and alloc_pages :: "nat \<Rightarrow> 's \<Rightarrow> (nat option \<times> 's) option"
    and free_pages :: "nat \<Rightarrow> nat \<Rightarrow> 's \<Rightarrow> 's option"
    and nr_free_pages :: "'s \<Rightarrow> u32"
    and free_pgs :: "'s \<Rightarrow> nat set"
    and run_ok :: "'s \<Rightarrow> nat \<Rightarrow> nat \<Rightarrow> bool"
    and max_run :: nat
  assumes alloc_law:
    "inv s \<Longrightarrow> 0 < n \<Longrightarrow> n \<le> max_run \<Longrightarrow>
      \<exists>r s'. alloc_pages n s = Some (r, s') \<and> inv s' \<and> run_ok s' = run_ok s \<and>
        (case r of None \<Rightarrow> s' = s
         | Some p \<Rightarrow> run_ok s p n \<and> {p..<p + n} \<subseteq> free_pgs s \<and> free_pgs s' = free_pgs s - {p..<p + n})"
    and alloc_bounds: "alloc_pages n s = Some r \<Longrightarrow> 0 < n \<and> n \<le> max_run"
    and free_law:
    "inv s \<Longrightarrow> run_ok s p n \<Longrightarrow> {p..<p + n} \<inter> free_pgs s = {} \<Longrightarrow> 0 < n \<Longrightarrow> n \<le> max_run \<Longrightarrow>
      \<exists>s'. free_pages p n s = Some s' \<and> inv s' \<and> run_ok s' = run_ok s \<and> free_pgs s' = free_pgs s \<union> {p..<p + n}"
    and count_law: "inv s \<Longrightarrow> nr_free_pages s = of_nat (card (free_pgs s))"
    and finite_free: "finite (free_pgs s)"
begin

lemma alloc_Some:
  assumes "inv s" "alloc_pages n s = Some (Some p, s')"
  shows "inv s'" "run_ok s' = run_ok s" "run_ok s p n" "{p..<p + n} \<subseteq> free_pgs s"
    "free_pgs s' = free_pgs s - {p..<p + n}" "0 < n" "n \<le> max_run"
  using alloc_law [OF assms(1), of n] alloc_bounds [OF assms(2)] assms(2) by auto

lemma alloc_None: "inv s \<Longrightarrow> alloc_pages n s = Some (None, s') \<Longrightarrow> s' = s"
  using alloc_law [of s n] alloc_bounds [of n s] by auto

lemma alloc_count:
  assumes "inv s" "alloc_pages n s = Some (Some p, s')"
  shows "nr_free_pages s' = nr_free_pages s - of_nat n"
proof -
  note a = alloc_Some [OF assms]
  have "card (free_pgs s') = card (free_pgs s) - n" "n \<le> card (free_pgs s)"
    using a(4,5) card_Diff_subset [of "{p..<p + n}" "free_pgs s"] card_mono [OF finite_free a(4)] by simp_all
  then show ?thesis
    using count_law [OF assms(1)] count_law [OF a(1)] by (simp add: of_nat_diff)
qed

lemma alloc_free_roundtrip:
  assumes "inv s" "alloc_pages n s = Some (Some p, s')"
  obtains s'' where "free_pages p n s' = Some s''" "inv s''" "free_pgs s'' = free_pgs s"
    "nr_free_pages s'' = nr_free_pages s"
proof -
  note a = alloc_Some [OF assms]
  have "{p..<p + n} \<inter> free_pgs s' = {}" using a(5) by auto
  then obtain s'' where s'': "free_pages p n s' = Some s''" "inv s''" "free_pgs s'' = free_pgs s' \<union> {p..<p + n}"
    using free_law [OF a(1), of p n] a by auto
  with a(4,5) have "free_pgs s'' = free_pgs s" by auto
  with s'' show ?thesis
    using that count_law [OF assms(1)] count_law [OF s''(2)] by simp
qed

lemma allocs_disjoint:
  assumes "inv s" "alloc_pages m s = Some (Some p, s1)" "alloc_pages n s1 = Some (Some q, s2)"
  shows "{p..<p + m} \<inter> {q..<q + n} = {}"
  using alloc_Some [OF assms(1,2)] alloc_Some [OF _ assms(3)] by blast

end

text \<open>
  A manager whose pages carry reference counters. Allocating one page fails only
  when no page is free and leaves every counter alone,
  freeing one resets its counter, and setting a counter is invisible to the manager. This is what
  the page tables rely on when they share pages and give back the last reference.
\<close>

locale counted_pages = pmm_manager inv alloc_pages free_pages nr_free_pages free_pgs run_ok max_run
  for inv :: "'s \<Rightarrow> bool" and alloc_pages free_pages nr_free_pages free_pgs run_ok max_run +
  fixes pref :: "'s \<Rightarrow> nat \<Rightarrow> u32"
    and set_ref :: "nat \<Rightarrow> u32 \<Rightarrow> 's \<Rightarrow> 's"
  assumes one_page: "1 \<le> max_run"
    and one_fails: "inv s \<Longrightarrow> alloc_pages 1 s = Some (None, s') \<Longrightarrow> free_pgs s = {}"
    and alloc_refs: "alloc_pages 1 s = Some (r, s') \<Longrightarrow> pref s' = pref s"
    and free_refs: "free_pages p 1 s = Some s' \<Longrightarrow> pref s' = (pref s)(p := 0)"
    and set_ref_inv: "inv (set_ref p v s) = inv s"
    and set_ref_free: "free_pgs (set_ref p v s) = free_pgs s"
    and set_ref_run: "run_ok (set_ref p v s) = run_ok s"
    and set_ref_pref: "pref (set_ref p v s) = (pref s)(p := v)"
begin

lemma take_page:
  assumes "inv s"
  obtains (full) "alloc_pages 1 s = Some (None, s)" "free_pgs s = {}"
  | (page) p s' where "alloc_pages 1 s = Some (Some p, s')" "inv s'" "run_ok s' = run_ok s" "run_ok s p 1"
    "p \<in> free_pgs s" "free_pgs s' = free_pgs s - {p}" "pref s' = pref s"
proof -
  obtain r s' where rs: "alloc_pages 1 s = Some (r, s')"
    using alloc_law [OF assms, of 1] one_page by auto
  show thesis
  proof (cases r)
    case None
    with rs alloc_None [OF assms] one_fails [OF assms] full show ?thesis by blast
  next
    case (Some p)
    note a = alloc_Some [OF assms rs [unfolded Some]]
    show ?thesis using page [OF rs [unfolded Some]] a alloc_refs [OF rs] by simp
  qed
qed

text \<open>Dropping a reference, and the page with the last one.\<close>

lemma put_page:
  assumes "inv s" "run_ok s p 1" "p \<notin> free_pgs s" "pref s p \<noteq> 0"
  shows "\<exists>s'. (if pref s p - 1 = 0 then free_pages p 1 (set_ref p (pref s p - 1) s) else Some (set_ref p (pref s p - 1) s)) = Some s'
    \<and> inv s' \<and> run_ok s' = run_ok s \<and> pref s' = (pref s)(p := pref s p - 1)
    \<and> free_pgs s' = (if pref s p = 1 then insert p (free_pgs s) else free_pgs s)"
proof (cases "pref s p = 1")
  case True
  have "{p..<p + 1} = {p}" by auto
  then obtain s' where "free_pages p 1 (set_ref p 0 s) = Some s'" "inv s'" "run_ok s' = run_ok s"
    "free_pgs s' = insert p (free_pgs s)"
    using free_law [of "set_ref p 0 s" p 1] assms one_page by (auto simp: set_ref_inv set_ref_free set_ref_run)
  with True show ?thesis by (auto simp: free_refs set_ref_pref)
next
  case False
  with assms show ?thesis by (simp add: set_ref_inv set_ref_free set_ref_run set_ref_pref)
qed

end

text \<open>
  A manager whose page descriptors carry a mark of their user, and a number of pages. Handing out
  pages leaves the marks of pages in use alone, taking pages back those of all others.
\<close>

locale marked_pages = pmm_manager inv alloc_pages free_pages nr_free_pages free_pgs run_ok max_run
  for inv :: "'s \<Rightarrow> bool" and alloc_pages free_pages nr_free_pages free_pgs run_ok max_run +
  fixes marked :: "'s \<Rightarrow> nat \<Rightarrow> bool"
    and set_mark :: "nat \<Rightarrow> bool \<Rightarrow> 's \<Rightarrow> 's"
    and limit :: "'s \<Rightarrow> nat"
  assumes alloc_marks: "inv s \<Longrightarrow> alloc_pages n s = Some (r, s') \<Longrightarrow> limit s' = limit s \<and> (q \<notin> free_pgs s \<longrightarrow> marked s' q = marked s q)"
    and free_marks: "inv s \<Longrightarrow> run_ok s p n \<Longrightarrow> {p..<p + n} \<inter> free_pgs s = {} \<Longrightarrow> 0 < n \<Longrightarrow> n \<le> max_run \<Longrightarrow>
      free_pages p n s = Some s' \<Longrightarrow> limit s' = limit s \<and> (q \<notin> {p..<p + n} \<longrightarrow> marked s' q = marked s q)"
    and run_limit: "run_ok s p n \<Longrightarrow> 0 < n \<Longrightarrow> p + n \<le> limit s"
    and set_mark_inv: "inv (set_mark p v s) = inv s"
    and set_mark_free: "free_pgs (set_mark p v s) = free_pgs s"
    and set_mark_run: "run_ok (set_mark p v s) = run_ok s"
    and set_mark_limit: "limit (set_mark p v s) = limit s"
    and set_mark_marked: "marked (set_mark p v s) q = (if q = p then v else marked s q)"
begin

text \<open>Marking the pages of a run, one after the other.\<close>

lemma mark_run:
  "inv (fold (\<lambda>p. set_mark p v) ps s) = inv s" "free_pgs (fold (\<lambda>p. set_mark p v) ps s) = free_pgs s"
  "run_ok (fold (\<lambda>p. set_mark p v) ps s) = run_ok s" "limit (fold (\<lambda>p. set_mark p v) ps s) = limit s"
  "marked (fold (\<lambda>p. set_mark p v) ps s) q = (if q \<in> set ps then v else marked s q)"
  by (induction ps arbitrary: s) (simp_all add: set_mark_inv set_mark_free set_mark_run set_mark_limit set_mark_marked)

lemma take_run:
  assumes "inv s" "0 < n" "n \<le> max_run"
  obtains (full) "alloc_pages n s = Some (None, s)"
  | (run) p s' where "alloc_pages n s = Some (Some p, s')" "inv s'" "run_ok s' = run_ok s" "run_ok s p n"
    "{p..<p + n} \<subseteq> free_pgs s" "free_pgs s' = free_pgs s - {p..<p + n}" "limit s' = limit s" "p + n \<le> limit s"
    "\<And>q. q \<notin> free_pgs s \<Longrightarrow> marked s' q = marked s q"
proof -
  obtain r s' where rs: "alloc_pages n s = Some (r, s')" using alloc_law [OF assms] by auto
  show thesis
  proof (cases r)
    case None
    with rs alloc_None [OF assms(1)] full show ?thesis by blast
  next
    case (Some p)
    note a = alloc_Some [OF assms(1) rs [unfolded Some]]
    show ?thesis using run [OF rs [unfolded Some]] a alloc_marks [OF assms(1) rs] run_limit [OF a(3) a(6)] by blast
  qed
qed

text \<open>A run that is taken, marked, cleared and given back: nothing of it stays.\<close>

lemma give_run:
  assumes "inv s" "run_ok s p n" "{p..<p + n} \<inter> free_pgs s = {}" "0 < n" "n \<le> max_run"
  obtains s' where "free_pages p n s = Some s'" "inv s'" "run_ok s' = run_ok s" "free_pgs s' = free_pgs s \<union> {p..<p + n}" "limit s' = limit s"
    "\<And>q. q \<notin> {p..<p + n} \<Longrightarrow> marked s' q = marked s q"
proof -
  obtain s' where "free_pages p n s = Some s'" "inv s'" "run_ok s' = run_ok s" "free_pgs s' = free_pgs s \<union> {p..<p + n}"
    using free_law [OF assms] by blast
  then show ?thesis using that free_marks [OF assms] by blast
qed

end

end
