(* ===== verification/Buddy.thy ===== *)
theory Buddy
  imports Memlayout Lists Pmm
begin

unbundle bit_operations_syntax

text \<open>
  The buddy system of \<^verbatim>\<open>kern/mm/buddy_pmm.c\<close>, the physical page allocator behind
  \<^verbatim>\<open>alloc_pages\<close> and \<^verbatim>\<open>free_pages\<close>.

  The state holds the page descriptors, the free list and the counter of every order, and the
  zones. A free list is the sequence of descriptors its head chains, first entry first: by
  the contract of theory Lists, \<^verbatim>\<open>list_add\<close> puts an entry in front, \<^verbatim>\<open>list_del\<close> removes
  it and \<^verbatim>\<open>list_next\<close> of the head reads the first one.
\<close>

section \<open>Definitions\<close>

abbreviation (input) MAX_ORDER :: nat where "MAX_ORDER \<equiv> 10"
abbreviation (input) MAX_ZONE_NUM :: nat where "MAX_ZONE_NUM \<equiv> 10"

record buddy =
  pages :: "nat \<Rightarrow> page"
  npage :: nat
  free_list :: "nat \<Rightarrow> nat list"
  nr_free :: "nat \<Rightarrow> u32"
  zones :: "int \<Rightarrow> nat"
  zone_cnt :: nat

definition upd_page :: "nat \<Rightarrow> (page \<Rightarrow> page) \<Rightarrow> buddy \<Rightarrow> buddy" where
  "upd_page p f st = st\<lparr>pages := (pages st)(p := f (pages st p))\<rparr>"

text \<open>\<^verbatim>\<open>list_add(&free_list(order), &(p->page_link)); nr_free(order) ++\<close> and its reverse.\<close>

definition fl_add :: "nat \<Rightarrow> nat \<Rightarrow> buddy \<Rightarrow> buddy" where
  "fl_add order p st = st\<lparr>free_list := (free_list st)(order := p # free_list st order),
     nr_free := (nr_free st)(order := nr_free st order + 1)\<rparr>"

definition fl_del :: "nat \<Rightarrow> nat \<Rightarrow> buddy \<Rightarrow> buddy" where
  "fl_del order p st = st\<lparr>free_list := (free_list st)(order := remove1 p (free_list st order)),
     nr_free := (nr_free st)(order := nr_free st order - 1)\<rparr>"

definition buddy_init :: "buddy \<Rightarrow> buddy" where
  "buddy_init st = st\<lparr>
     free_list := (\<lambda>i. if i \<le> MAX_ORDER then [] else free_list st i),
     nr_free := (\<lambda>i. if i \<le> MAX_ORDER then 0 else nr_free st i)\<rparr>"

text \<open>The first loop of \<^verbatim>\<open>buddy_init_memmap\<close>: \<^verbatim>\<open>for (; p != base + n; p ++)\<close>.\<close>

fun init_descriptors :: "int \<Rightarrow> nat \<Rightarrow> nat \<Rightarrow> buddy \<Rightarrow> buddy option" where
  "init_descriptors z p 0 st = Some st"
| "init_descriptors z p (Suc n) st = do {
     kassert (PageReserved (pages st p));
     init_descriptors z (Suc p) n
       (upd_page p (\<lambda>pg. set_page_ref 0 (pg\<lparr>flags := 0, property := 0, zone_num := z\<rparr>)) st)
   }"

text \<open>
  The second loop: blocks of the current order while they fit, then the next smaller order.
  The inner \<^verbatim>\<open>while\<close> and the step to the next order are the two recursive calls.
\<close>

function init_blocks :: "nat \<Rightarrow> nat \<Rightarrow> nat \<Rightarrow> buddy \<Rightarrow> buddy" where
  "init_blocks order n p st =
     (if n = 0 then st
      else if 2 ^ order \<le> n
      then init_blocks order (n - 2 ^ order) (p + 2 ^ order)
             (fl_add order p (upd_page p (\<lambda>pg. SetPageProperty (pg\<lparr>property := order\<rparr>)) st))
      else init_blocks (order - 1) n p st)"
  by pat_completeness auto
termination
proof (relation "measure (\<lambda>(order, n, p, st). n + order)", goal_cases)
  case (3 order n p st)
  then show ?case by (cases order) auto
qed auto

definition buddy_init_memmap :: "nat \<Rightarrow> nat \<Rightarrow> buddy \<Rightarrow> buddy option" where
  "buddy_init_memmap base n st = do {
     kassert (n > 0 \<and> zone_cnt st < MAX_ZONE_NUM);
     st1 \<leftarrow> init_descriptors (int (zone_cnt st)) base n st;
     let st2 = st1\<lparr>zones := (zones st1)(int (zone_cnt st1) := base), zone_cnt := Suc (zone_cnt st1)\<rparr>;
     Some (init_blocks MAX_ORDER n base st2)
   }"

function getorder_from :: "nat \<Rightarrow> nat \<Rightarrow> nat option" where
  "getorder_from order n =
     (if order \<le> MAX_ORDER then (if n \<le> 2 ^ order then Some order else getorder_from (Suc order) n)
      else None)"
  by pat_completeness auto
termination by (relation "measure (\<lambda>(order, n). Suc MAX_ORDER - order)") auto

definition getorder :: "nat \<Rightarrow> nat option" where
  "getorder n = getorder_from 0 n"

text \<open>The splitting loop of \<^verbatim>\<open>buddy_alloc_pages_sub\<close>: \<^verbatim>\<open>while (cur_order > order)\<close>.\<close>

fun split_block :: "nat \<Rightarrow> nat \<Rightarrow> nat \<Rightarrow> buddy \<Rightarrow> buddy" where
  "split_block order 0 page st = st"
| "split_block order (Suc cur) page st =
     (if order < Suc cur
      then let buddy = page + 2 ^ cur in
        split_block order cur page
          (fl_add cur buddy (upd_page buddy (\<lambda>pg. SetPageProperty (pg\<lparr>property := cur\<rparr>)) st))
      else st)"

function alloc_from :: "nat \<Rightarrow> nat \<Rightarrow> buddy \<Rightarrow> nat option \<times> buddy" where
  "alloc_from order cur_order st =
     (if cur_order \<le> MAX_ORDER
      then (case free_list st cur_order of
          [] \<Rightarrow> alloc_from order (Suc cur_order) st
        | page # _ \<Rightarrow>
            (Some page,
             upd_page page ClearPageProperty
               (split_block order cur_order page (fl_del cur_order page st))))
      else (None, st))"
  by pat_completeness auto
termination by (relation "measure (\<lambda>(order, cur, st). Suc MAX_ORDER - cur)") auto

definition buddy_alloc_pages_sub :: "nat \<Rightarrow> buddy \<Rightarrow> (nat option \<times> buddy) option" where
  "buddy_alloc_pages_sub order st = do {
     kassert (order \<le> MAX_ORDER);
     Some (alloc_from order order st)
   }"

definition page_is_buddy :: "nat \<Rightarrow> nat \<Rightarrow> int \<Rightarrow> buddy \<Rightarrow> bool" where
  "page_is_buddy p order z st =
     (if p < npage st
      then if zone_num (pages st p) = z
        then \<not> PageReserved (pages st p) \<and> PageProperty (pages st p) \<and> property (pages st p) = order
        else False
      else False)"

definition page2idx :: "nat \<Rightarrow> buddy \<Rightarrow> nat" where
  "page2idx p st = p - zones st (zone_num (pages st p))"

definition idx2page :: "int \<Rightarrow> nat \<Rightarrow> buddy \<Rightarrow> nat" where
  "idx2page z idx st = zones st z + idx"

text \<open>The loop over the descriptors of the block that is freed.\<close>

fun release_descriptors :: "nat \<Rightarrow> nat \<Rightarrow> buddy \<Rightarrow> buddy option" where
  "release_descriptors p 0 st = Some st"
| "release_descriptors p (Suc n) st = do {
     kassert (\<not> PageReserved (pages st p) \<and> \<not> PageProperty (pages st p));
     release_descriptors (Suc p) n (upd_page p (\<lambda>pg. set_page_ref 0 (pg\<lparr>flags := 0\<rparr>)) st)
   }"

text \<open>The merging loop: \<^verbatim>\<open>while (order < MAX_ORDER)\<close> with its \<^verbatim>\<open>break\<close>.\<close>

function merge_block :: "int \<Rightarrow> nat \<Rightarrow> nat \<Rightarrow> buddy \<Rightarrow> nat \<times> nat \<times> buddy" where
  "merge_block z page_idx order st =
     (if order < MAX_ORDER
      then let buddy_idx = page_idx XOR 2 ^ order;
               buddy = idx2page z buddy_idx st
           in if \<not> page_is_buddy buddy order z st then (page_idx, order, st)
              else merge_block z (page_idx AND buddy_idx) (Suc order)
                     (upd_page buddy ClearPageProperty (fl_del order buddy st))
      else (page_idx, order, st))"
  by pat_completeness auto
termination by (relation "measure (\<lambda>(z, i, order, st). MAX_ORDER - order)") auto

definition buddy_free_pages_sub :: "nat \<Rightarrow> nat \<Rightarrow> buddy \<Rightarrow> buddy option" where
  "buddy_free_pages_sub base order st = do {
     let page_idx = page2idx base st;
     kassert (page_idx AND (2 ^ order - 1) = 0);
     st1 \<leftarrow> release_descriptors base (2 ^ order) st;
     let z = zone_num (pages st1 base);
     let (page_idx, order, st2) = merge_block z page_idx order st1;
     let page = idx2page z page_idx st2;
     Some (fl_add order page (upd_page page (\<lambda>pg. SetPageProperty (pg\<lparr>property := order\<rparr>)) st2))
   }"

text \<open>
  The two loops of \<^verbatim>\<open>buddy_free_pages\<close>: orders going up while the base is misaligned, then
  orders going down.
\<close>

function free_up :: "nat \<Rightarrow> nat \<Rightarrow> nat \<Rightarrow> buddy \<Rightarrow> (nat \<times> nat \<times> nat \<times> buddy) option" where
  "free_up order base n st =
     (if 2 ^ order \<le> n
      then if order \<le> MAX_ORDER
        then if page2idx base st AND 2 ^ order \<noteq> 0
          then (case buddy_free_pages_sub base order st of
                  None \<Rightarrow> None
                | Some st' \<Rightarrow> free_up (Suc order) (base + 2 ^ order) (n - 2 ^ order) st')
          else free_up (Suc order) base n st
        else None
      else Some (order, base, n, st))"
  by pat_completeness auto
termination by (relation "measure (\<lambda>(order, base, n, st). Suc MAX_ORDER - order)") auto

function free_down :: "nat \<Rightarrow> nat \<Rightarrow> nat \<Rightarrow> buddy \<Rightarrow> buddy option" where
  "free_down order base n st =
     (if n = 0 then Some st
      else if n < 2 ^ order then free_down (order - 1) base n st
      else (case buddy_free_pages_sub base order st of
              None \<Rightarrow> None
            | Some st' \<Rightarrow> free_down order (base + 2 ^ order) (n - 2 ^ order) st'))"
  by pat_completeness auto
termination
proof (relation "measure (\<lambda>(order, base, n, st). n + order)", goal_cases)
  case (2 order base n st)
  then show ?case by (cases order) auto
qed auto

definition buddy_free_pages :: "nat \<Rightarrow> nat \<Rightarrow> buddy \<Rightarrow> buddy option" where
  "buddy_free_pages base n st = do {
     kassert (n > 0);
     if n = 1 then buddy_free_pages_sub base 0 st
     else do {
       (order, base', n', st') \<leftarrow> free_up 0 base n st;
       free_down order base' n' st'
     }
   }"

definition buddy_alloc_pages :: "nat \<Rightarrow> buddy \<Rightarrow> (nat option \<times> buddy) option" where
  "buddy_alloc_pages n st = do {
     kassert (n > 0);
     order \<leftarrow> getorder n;
     (page, st1) \<leftarrow> buddy_alloc_pages_sub order st;
     case page of
       None \<Rightarrow> Some (None, st1)
     | Some p \<Rightarrow>
         if n \<noteq> 2 ^ order then do {
           st2 \<leftarrow> buddy_free_pages (p + n) (2 ^ order - n) st1;
           Some (Some p, st2)
         }
         else Some (Some p, st1)
   }"

definition buddy_nr_free_pages :: "buddy \<Rightarrow> u32" where
  "buddy_nr_free_pages st = fold (\<lambda>order ret. ret + nr_free st order * 2 ^ order) [0..<Suc MAX_ORDER] 0"

declare init_blocks.simps [simp del] getorder_from.simps [simp del] alloc_from.simps [simp del]
  merge_block.simps [simp del] free_up.simps [simp del] free_down.simps [simp del]

section \<open>The invariant\<close>

text \<open>
  \<open>block p k\<close> is the set of pages of the order-\<open>k\<close> block at \<open>p\<close>; \<open>free_set\<close> all free pages.
  \<open>block_ok\<close>: the block lies in one zone, in memory that is not reserved, and is aligned in it.
\<close>

definition block :: "nat \<Rightarrow> nat \<Rightarrow> nat set" where
  "block p k = {p..<p + 2 ^ k}"

definition free_set :: "buddy \<Rightarrow> nat set" where
  "free_set st = (\<Union>k\<in>{..MAX_ORDER}. \<Union>p\<in>set (free_list st k). block p k)"

definition region_ok :: "buddy \<Rightarrow> nat \<Rightarrow> nat \<Rightarrow> bool" where
  "region_ok st p n \<longleftrightarrow> zones st (zone_num (pages st p)) \<le> p \<and>
     (\<forall>q\<in>{p..<p + n}. q < npage st \<and> \<not> PageReserved (pages st q) \<and> zone_num (pages st q) = zone_num (pages st p))"

definition block_ok :: "buddy \<Rightarrow> nat \<Rightarrow> nat \<Rightarrow> bool" where
  "block_ok st p k \<longleftrightarrow> k \<le> MAX_ORDER \<and> region_ok st p (2 ^ k) \<and> 2 ^ k dvd page2idx p st"

text \<open>\<open>buddies\<close>: two blocks of order \<open>k\<close> that came from splitting one block of order \<open>k + 1\<close>.\<close>

definition buddies :: "buddy \<Rightarrow> nat \<Rightarrow> nat \<Rightarrow> nat \<Rightarrow> bool" where
  "buddies st k p q \<longleftrightarrow> zone_num (pages st p) = zone_num (pages st q) \<and> page2idx q st = page2idx p st XOR 2 ^ k"

definition listed_ok :: "buddy \<Rightarrow> bool" where
  "listed_ok st \<longleftrightarrow> (\<forall>k\<le>MAX_ORDER. \<forall>p\<in>set (free_list st k).
     block_ok st p k \<and> PageProperty (pages st p) \<and> property (pages st p) = k)"

definition flagged_ok :: "buddy \<Rightarrow> bool" where
  "flagged_ok st \<longleftrightarrow> (\<forall>q<npage st. \<not> PageReserved (pages st q) \<longrightarrow> PageProperty (pages st q) \<longrightarrow>
     property (pages st q) \<le> MAX_ORDER \<and> q \<in> set (free_list st (property (pages st q))))"

definition disjoint_ok :: "buddy \<Rightarrow> bool" where
  "disjoint_ok st \<longleftrightarrow> (\<forall>j\<le>MAX_ORDER. \<forall>k\<le>MAX_ORDER. \<forall>p\<in>set (free_list st j). \<forall>q\<in>set (free_list st k).
     (p, j) \<noteq> (q, k) \<longrightarrow> block p j \<inter> block q k = {})"

definition counted_ok :: "buddy \<Rightarrow> bool" where
  "counted_ok st \<longleftrightarrow> (\<forall>k\<le>MAX_ORDER. distinct (free_list st k) \<and> nr_free st k = of_nat (length (free_list st k)))"

definition coalesced :: "buddy \<Rightarrow> bool" where
  "coalesced st \<longleftrightarrow> (\<forall>k<MAX_ORDER. \<forall>p\<in>set (free_list st k). \<forall>q\<in>set (free_list st k). \<not> buddies st k p q)"

definition buddy_inv :: "buddy \<Rightarrow> bool" where
  "buddy_inv st \<longleftrightarrow> listed_ok st \<and> flagged_ok st \<and> disjoint_ok st \<and> counted_ok st \<and> coalesced st"

text \<open>What no operation after the initialisation changes.\<close>

definition same_frame :: "buddy \<Rightarrow> buddy \<Rightarrow> bool" where
  "same_frame st st' \<longleftrightarrow> npage st' = npage st \<and> zones st' = zones st \<and> zone_cnt st' = zone_cnt st \<and>
     (\<forall>q. PageReserved (pages st' q) = PageReserved (pages st q) \<and> zone_num (pages st' q) = zone_num (pages st q))"

text \<open>Taking a listed block off its list, and listing a block.\<close>

definition remove_block :: "nat \<Rightarrow> nat \<Rightarrow> buddy \<Rightarrow> buddy" where
  "remove_block k p st = upd_page p ClearPageProperty (fl_del k p st)"

definition insert_block :: "nat \<Rightarrow> nat \<Rightarrow> buddy \<Rightarrow> buddy" where
  "insert_block k p st = fl_add k p (upd_page p (\<lambda>pg. SetPageProperty (pg\<lparr>property := k\<rparr>)) st)"

lemmas buddy_inv_defs = buddy_inv_def listed_ok_def flagged_ok_def disjoint_ok_def counted_ok_def coalesced_def

section \<open>Frames\<close>

lemma same_frame_refl [simp, intro]: "same_frame st st"
  by (simp add: same_frame_def)

lemma same_frame_trans: "same_frame a b \<Longrightarrow> same_frame b c \<Longrightarrow> same_frame a c"
  by (simp add: same_frame_def)

lemma same_frame_page2idx: "same_frame st st' \<Longrightarrow> page2idx p st' = page2idx p st"
  by (simp add: same_frame_def page2idx_def)

lemma same_frame_region_ok: "same_frame st st' \<Longrightarrow> region_ok st' p n = region_ok st p n"
  by (simp add: same_frame_def region_ok_def)

lemma same_frame_block_ok: "same_frame st st' \<Longrightarrow> block_ok st' p k = block_ok st p k"
  by (simp add: block_ok_def same_frame_region_ok same_frame_page2idx)

lemma same_frame_buddies: "same_frame st st' \<Longrightarrow> buddies st' k p q = buddies st k p q"
  by (simp add: buddies_def same_frame_page2idx) (simp add: same_frame_def)

lemma same_frame_remove_block: "same_frame st (remove_block k p st)"
  by (simp add: same_frame_def remove_block_def upd_page_def fl_del_def)

lemma same_frame_insert_block: "same_frame st (insert_block k p st)"
  by (simp add: same_frame_def insert_block_def upd_page_def fl_add_def)

lemmas same_frame_simps = same_frame_page2idx same_frame_region_ok same_frame_block_ok same_frame_buddies

section \<open>Blocks\<close>

lemma block_nonempty [simp]: "p \<in> block p k"
  by (simp add: block_def)

lemma card_block [simp]: "card (block p k) = 2 ^ k"
  by (simp add: block_def)

lemma finite_block [simp]: "finite (block p k)"
  by (simp add: block_def)

lemma block_Suc: "block p (Suc k) = block p k \<union> block (p + 2 ^ k) k"
  by (auto simp: block_def)

lemma block_halves_disjoint: "block p k \<inter> block (p + 2 ^ k) k = {}"
  by (auto simp: block_def)

lemma in_free_set: "q \<in> free_set st \<longleftrightarrow> (\<exists>k\<le>MAX_ORDER. \<exists>p\<in>set (free_list st k). q \<in> block p k)"
  by (auto simp: free_set_def)

lemma listed_free: "k \<le> MAX_ORDER \<Longrightarrow> p \<in> set (free_list st k) \<Longrightarrow> block p k \<subseteq> free_set st"
  unfolding free_set_def by blast

lemma region_okD:
  assumes "region_ok st p n" "q \<in> {p..<p + n}"
  shows "q < npage st" "\<not> PageReserved (pages st q)" "zone_num (pages st q) = zone_num (pages st p)"
  using assms unfolding region_ok_def by blast+

lemma region_ok_base: "region_ok st p n \<Longrightarrow> zones st (zone_num (pages st p)) \<le> p"
  by (simp add: region_ok_def)

lemma region_ok_sub:
  assumes "region_ok st p n" "p \<le> q" "q < p + n" "q + m \<le> p + n"
  shows "region_ok st q m"
proof -
  have z: "zone_num (pages st q) = zone_num (pages st p)"
    using region_okD [OF assms(1), of q] assms by simp
  have "x < npage st \<and> \<not> PageReserved (pages st x) \<and> zone_num (pages st x) = zone_num (pages st q)"
    if "x \<in> {q..<q + m}" for x
    using region_okD [OF assms(1), of x] z that assms by auto
  moreover have "zones st (zone_num (pages st q)) \<le> q"
    using region_ok_base [OF assms(1)] z assms(2) by simp
  ultimately show ?thesis
    unfolding region_ok_def by blast
qed

lemma region_ok_prefix: "region_ok st p n \<Longrightarrow> m \<le> n \<Longrightarrow> region_ok st p m"
proof -
  assume reg: "region_ok st p n" and "m \<le> n"
  then have "x \<in> {p..<p + n}" if "x \<in> {p..<p + m}" for x using that by auto
  then show ?thesis
    using region_okD [OF reg] region_ok_base [OF reg] unfolding region_ok_def [of st p m] by blast
qed

lemma region_ok_idx_add:
  assumes "region_ok st p n" "m < n"
  shows "page2idx (p + m) st = page2idx p st + m"
  using region_okD(3) [OF assms(1), of "p + m"] region_ok_base [OF assms(1)] assms(2)
  by (simp add: page2idx_def)

lemma block_ok_zone: "block_ok st p k \<Longrightarrow> q \<in> block p k \<Longrightarrow>
  q < npage st \<and> \<not> PageReserved (pages st q) \<and> zone_num (pages st q) = zone_num (pages st p)"
  unfolding block_ok_def region_ok_def block_def by blast

text \<open>Inside a free block, and in any memory that is not free, no descriptor is flagged.\<close>

lemma flagged_is_free:
  assumes "buddy_inv st" "q < npage st" "\<not> PageReserved (pages st q)" "PageProperty (pages st q)"
  shows "q \<in> free_set st"
  using assms listed_free [of "property (pages st q)" q st]
  by (auto simp: buddy_inv_def flagged_ok_def)

lemma unflagged_interior:
  assumes "buddy_inv st" "k \<le> MAX_ORDER" "p \<in> set (free_list st k)" "q \<in> block p k" "q \<noteq> p"
  shows "\<not> PageProperty (pages st q)"
proof
  assume fl: "PageProperty (pages st q)"
  have "block_ok st p k"
    using assms by (simp add: buddy_inv_defs)
  then have "property (pages st q) \<le> MAX_ORDER" "q \<in> set (free_list st (property (pages st q)))"
    using assms(1,4) fl block_ok_zone [of st p k q] by (auto simp: buddy_inv_def flagged_ok_def)
  then have "block p k \<inter> block q (property (pages st q)) = {}"
    using assms by (auto simp: buddy_inv_def disjoint_ok_def)
  with assms(4) show False using block_nonempty by blast
qed

section \<open>Removing and listing one block\<close>

lemma free_list_remove_block:
  "free_list (remove_block k p st) j = (if j = k then remove1 p (free_list st k) else free_list st j)"
  by (simp add: remove_block_def upd_page_def fl_del_def)

lemma free_list_insert_block:
  "free_list (insert_block k p st) j = (if j = k then p # free_list st k else free_list st j)"
  by (simp add: insert_block_def upd_page_def fl_add_def)

lemma pages_remove_block:
  "pages (remove_block k p st) q = (if q = p then ClearPageProperty (pages st p) else pages st q)"
  by (simp add: remove_block_def upd_page_def fl_del_def)

lemma pages_insert_block:
  "pages (insert_block k p st) q =
     (if q = p then SetPageProperty ((pages st p)\<lparr>property := k\<rparr>) else pages st q)"
  by (simp add: insert_block_def upd_page_def fl_add_def)

lemma set_free_list_remove_block:
  assumes "buddy_inv st" "k \<le> MAX_ORDER"
  shows "set (free_list (remove_block k p st) j) =
    (if j = k then set (free_list st k) - {p} else set (free_list st j))"
  using assms by (simp add: free_list_remove_block buddy_inv_def counted_ok_def)

lemma npage_block_ops [simp]:
  "npage (remove_block k p st) = npage st" "npage (insert_block k p st) = npage st"
  by (simp_all add: remove_block_def insert_block_def upd_page_def fl_del_def fl_add_def)

lemma nr_free_block_ops:
  "nr_free (remove_block k p st) j = (if j = k then nr_free st k - 1 else nr_free st j)"
  "nr_free (insert_block k p st) j = (if j = k then nr_free st k + 1 else nr_free st j)"
  by (simp_all add: remove_block_def insert_block_def upd_page_def fl_del_def fl_add_def)

lemma of_nat_length_remove1: "x \<in> set xs \<Longrightarrow> (of_nat (length (remove1 x xs)) :: u32) = of_nat (length xs) - 1"
  by (induction xs) auto

lemma listed_once:
  assumes "buddy_inv st" "j \<le> MAX_ORDER" "k \<le> MAX_ORDER" "p \<in> set (free_list st j)" "p \<in> set (free_list st k)"
  shows "j = k"
  using assms unfolding buddy_inv_def listed_ok_def by metis

lemma remove_block_listed:
  assumes "buddy_inv st" "k \<le> MAX_ORDER" "p \<in> set (free_list st k)" "j \<le> MAX_ORDER"
    "q \<in> set (free_list (remove_block k p st) j)"
  shows "q \<in> set (free_list st j)" and "q \<noteq> p"
  using assms listed_once [of st j k p]
  by (auto simp: set_free_list_remove_block split: if_splits)

lemma remove_block_inv:
  assumes inv: "buddy_inv st" and k: "k \<le> MAX_ORDER" and p: "p \<in> set (free_list st k)"
  shows "buddy_inv (remove_block k p st)"
proof -
  let ?st = "remove_block k p st"
  note fr = same_frame_simps [OF same_frame_remove_block [of st k p]]
  note sub = remove_block_listed [OF inv k p]
  have "listed_ok ?st"
    unfolding listed_ok_def
  proof (intro allI impI ballI)
    fix j q assume j: "j \<le> MAX_ORDER" and q: "q \<in> set (free_list ?st j)"
    from sub [OF j q] inv j show "block_ok ?st q j \<and> PageProperty (pages ?st q) \<and> property (pages ?st q) = j"
      by (simp add: fr pages_remove_block buddy_inv_def listed_ok_def)
  qed
  moreover have "flagged_ok ?st"
    unfolding flagged_ok_def
  proof (intro allI impI)
    fix q assume q: "q < npage ?st" "\<not> PageReserved (pages ?st q)" "PageProperty (pages ?st q)"
    then have "q \<noteq> p" by (auto simp: pages_remove_block)
    with q inv k show "property (pages ?st q) \<le> MAX_ORDER \<and> q \<in> set (free_list ?st (property (pages ?st q)))"
      by (simp add: pages_remove_block set_free_list_remove_block) (auto simp: buddy_inv_def flagged_ok_def)
  qed
  moreover have "disjoint_ok ?st"
    using inv sub unfolding buddy_inv_def disjoint_ok_def by meson
  moreover have "counted_ok ?st"
    using inv k p by (simp add: buddy_inv_def counted_ok_def free_list_remove_block nr_free_block_ops
        of_nat_length_remove1)
  moreover have "coalesced ?st"
    using inv sub by (auto simp: buddy_inv_def coalesced_def fr)
  ultimately show ?thesis by (simp add: buddy_inv_def)
qed

lemma free_set_remove_block:
  assumes inv: "buddy_inv st" and k: "k \<le> MAX_ORDER" and p: "p \<in> set (free_list st k)"
  shows "free_set (remove_block k p st) = free_set st - block p k"
proof (intro set_eqI iffI)
  fix x assume "x \<in> free_set (remove_block k p st)"
  then obtain j q where jq: "j \<le> MAX_ORDER" "q \<in> set (free_list (remove_block k p st) j)" "x \<in> block q j"
    by (auto simp: in_free_set)
  with remove_block_listed [OF inv k p jq(1,2)] inv k p have "block q j \<inter> block p k = {}" "q \<in> set (free_list st j)"
    by (auto simp: buddy_inv_def disjoint_ok_def)
  with jq show "x \<in> free_set st - block p k" using listed_free by blast
next
  fix x assume "x \<in> free_set st - block p k"
  then obtain j q where jq: "j \<le> MAX_ORDER" "q \<in> set (free_list st j)" "x \<in> block q j" "(q, j) \<noteq> (p, k)"
    by (auto simp: in_free_set)
  then have "q \<in> set (free_list (remove_block k p st) j)"
    using inv k by (auto simp: set_free_list_remove_block)
  with jq show "x \<in> free_set (remove_block k p st)"
    using listed_free by blast
qed

lemma not_self_xor_power: "(i :: nat) \<noteq> i XOR 2 ^ k"
proof -
  have "bit i k \<noteq> bit (i XOR 2 ^ k) k" by (simp add: bit_simps)
  then show ?thesis by metis
qed

lemma insert_block_inv:
  assumes inv: "buddy_inv st" and ok: "block_ok st p k" and fresh: "block p k \<inter> free_set st = {}"
    and alone: "k < MAX_ORDER \<longrightarrow> (\<forall>q\<in>set (free_list st k). \<not> buddies st k p q)"
  shows "buddy_inv (insert_block k p st)"
proof -
  let ?st = "insert_block k p st"
  note fr = same_frame_simps [OF same_frame_insert_block [of st k p]]
  have k: "k \<le> MAX_ORDER" using ok by (simp add: block_ok_def)
  have new: "p \<notin> set (free_list st j)" if "j \<le> MAX_ORDER" for j
    using fresh that listed_free [of j p st] block_nonempty by blast
  have off: "block q j \<inter> block p k = {}" if "j \<le> MAX_ORDER" "q \<in> set (free_list st j)" for q j
    using fresh that listed_free by blast
  have "listed_ok ?st"
    using inv ok k new
    by (auto simp: fr pages_insert_block free_list_insert_block buddy_inv_def listed_ok_def)
  moreover have "flagged_ok ?st"
    using inv k by (auto simp: pages_insert_block free_list_insert_block buddy_inv_def flagged_ok_def)
  moreover have "disjoint_ok ?st"
    using inv off unfolding buddy_inv_def disjoint_ok_def free_list_insert_block
    by (auto split: if_splits)
  moreover have "counted_ok ?st"
    using inv k new by (auto simp: buddy_inv_def counted_ok_def free_list_insert_block nr_free_block_ops)
  moreover have "coalesced ?st"
  proof -
    have sym: "buddies st k p q" if "buddies st k q p" for q
      using that by (simp add: buddies_def xor.assoc)
    have self: "\<not> buddies st k p p"
      using not_self_xor_power by (simp add: buddies_def)
    show ?thesis
      unfolding coalesced_def fr
    proof (intro allI impI ballI)
      fix j a b
      assume *: "j < MAX_ORDER" "a \<in> set (free_list ?st j)" "b \<in> set (free_list ?st j)"
      show "\<not> buddies st j a b"
        using * self sym alone inv
        by (cases "j = k") (auto simp: free_list_insert_block buddy_inv_def coalesced_def)
    qed
  qed
  ultimately show ?thesis by (simp add: buddy_inv_def)
qed

lemma free_set_insert_block:
  assumes "k \<le> MAX_ORDER"
  shows "free_set (insert_block k p st) = free_set st \<union> block p k"
proof (intro set_eqI iffI)
  fix x assume "x \<in> free_set (insert_block k p st)"
  then obtain j q where "j \<le> MAX_ORDER" "q \<in> set (free_list (insert_block k p st) j)" "x \<in> block q j"
    by (auto simp: in_free_set)
  then show "x \<in> free_set st \<union> block p k"
    using listed_free [of j q st] by (auto simp: free_list_insert_block split: if_splits)
next
  fix x assume "x \<in> free_set st \<union> block p k"
  then consider "x \<in> block p k" | j q where "j \<le> MAX_ORDER" "q \<in> set (free_list st j)" "x \<in> block q j"
    by (auto simp: in_free_set)
  then show "x \<in> free_set (insert_block k p st)"
  proof cases
    case 1
    then show ?thesis
      using assms listed_free [of k p "insert_block k p st"] by (auto simp: free_list_insert_block)
  next
    case 2
    then show ?thesis
      using listed_free [of j q "insert_block k p st"]
      by (cases "j = k") (auto simp: free_list_insert_block)
  qed
qed

section \<open>Splitting\<close>

lemma block_ok_mono: "block_ok st p k \<Longrightarrow> j \<le> k \<Longrightarrow> block_ok st p j"
  unfolding block_ok_def using region_ok_prefix dvd_trans [OF le_imp_power_dvd]
  by (meson le_trans one_le_numeral power_increasing)

lemma block_ok_left: "block_ok st p (Suc k) \<Longrightarrow> block_ok st p k"
  by (rule block_ok_mono) auto

lemma block_ok_right:
  assumes "block_ok st p (Suc k)"
  shows "block_ok st (p + 2 ^ k) k" and "page2idx (p + 2 ^ k) st = page2idx p st + 2 ^ k"
    and "zone_num (pages st (p + 2 ^ k)) = zone_num (pages st p)"
proof -
  have reg: "region_ok st p (2 ^ Suc k)"
    using assms by (simp add: block_ok_def)
  show "zone_num (pages st (p + 2 ^ k)) = zone_num (pages st p)"
    using region_okD(3) [OF reg, of "p + 2 ^ k"] by simp
  show idx: "page2idx (p + 2 ^ k) st = page2idx p st + 2 ^ k"
    using region_ok_idx_add [OF reg, of "2 ^ k"] by simp
  have "region_ok st (p + 2 ^ k) (2 ^ k)"
    using reg by (rule region_ok_sub) auto
  then show "block_ok st (p + 2 ^ k) k"
    using block_ok_left [OF assms] idx by (simp add: block_ok_def)
qed

lemma split_block_spec:
  assumes "buddy_inv st" "block_ok st page cur" "block page cur \<inter> free_set st = {}" "order \<le> cur"
  shows "buddy_inv (split_block order cur page st) \<and> same_frame st (split_block order cur page st)
    \<and> free_set (split_block order cur page st) = free_set st \<union> (block page cur - block page order)"
  using assms
proof (induction cur arbitrary: st)
  case (Suc cur)
  show ?case
  proof (cases "order = Suc cur")
    case False
    let ?b = "page + 2 ^ cur" and ?st = "insert_block cur (page + 2 ^ cur) st"
    note half = block_ok_right [OF Suc.prems(2)]
    have cur: "cur < MAX_ORDER" using Suc.prems(2) by (simp add: block_ok_def)
    have fresh: "block ?b cur \<inter> free_set st = {}" "block page cur \<inter> free_set st = {}"
      using Suc.prems(3) by (auto simp: block_Suc)
    have "\<not> buddies st cur ?b q" if q: "q \<in> set (free_list st cur)" for q
    proof
      assume bud: "buddies st cur ?b q"
      have al: "2 ^ Suc cur dvd page2idx page st" using Suc.prems(2) by (simp add: block_ok_def)
      then have nb: "\<not> bit (page2idx page st) cur"
        by (auto simp: bit_nat_iff_div elim!: dvdE)
      have "2 ^ cur dvd page2idx page st"
        using al by (rule dvd_trans [OF le_imp_power_dvd, rotated]) simp
      then have "page2idx ?b st = page2idx page st XOR 2 ^ cur"
        using nb half(2) xor_power_aligned by simp
      then have "page2idx q st = (page2idx page st XOR 2 ^ cur) XOR 2 ^ cur"
        using bud by (simp add: buddies_def)
      then have "page2idx q st = page2idx page st"
        by (simp add: xor.assoc)
      moreover have "zone_num (pages st q) = zone_num (pages st page)"
        using bud half(3) by (simp add: buddies_def)
      moreover have "zones st (zone_num (pages st q)) \<le> q" "zones st (zone_num (pages st page)) \<le> page"
        using q cur Suc.prems(1,2) region_ok_base [of st q "2 ^ cur"] region_ok_base [of st page "2 ^ Suc cur"]
        by (auto simp: buddy_inv_def listed_ok_def block_ok_def)
      ultimately have "q = page" by (simp add: page2idx_def)
      then have "page \<in> free_set st" using q cur listed_free [of cur page st] by auto
      then show False using Suc.prems(3) block_nonempty [of page "Suc cur"] by blast
    qed
    then have inv: "buddy_inv ?st"
      using Suc.prems(1) half(1) fresh(1) by (intro insert_block_inv) auto
    have fs: "free_set ?st = free_set st \<union> block ?b cur"
      using cur by (simp add: free_set_insert_block)
    have "block_ok ?st page cur"
      using block_ok_left [OF Suc.prems(2)] same_frame_block_ok [OF same_frame_insert_block] by blast
    moreover have "block page cur \<inter> free_set ?st = {}"
      using fs fresh(2) block_halves_disjoint [of page cur] by blast
    ultimately have IH: "buddy_inv (split_block order cur page ?st) \<and> same_frame ?st (split_block order cur page ?st)
      \<and> free_set (split_block order cur page ?st) = free_set ?st \<union> (block page cur - block page order)"
      using Suc.IH [OF inv] False Suc.prems(4) by simp
    have "split_block order (Suc cur) page st = split_block order cur page ?st"
      using False Suc.prems(4) by (simp add: insert_block_def Let_def)
    moreover have "block page order \<subseteq> block page cur"
      using False Suc.prems(4) power_increasing [of order cur "2::nat"] by (auto simp: block_def)
    moreover have "block page cur \<inter> block ?b cur = {}" by (rule block_halves_disjoint)
    ultimately show ?thesis
      using IH fs same_frame_trans [OF same_frame_insert_block] by (auto simp: block_Suc)
  qed (use Suc.prems in \<open>auto simp: Let_def\<close>)
qed simp

text \<open>
  The code clears the property flag of the block it hands out after the splitting loop; the
  loop only writes descriptors of upper halves, so clearing first gives the same state.
\<close>

lemma upd_page_insert_commute:
  "p \<noteq> q \<Longrightarrow> upd_page p f (insert_block k q st) = insert_block k q (upd_page p f st)"
  by (simp add: insert_block_def upd_page_def fl_add_def fun_upd_twist)

lemma split_block_commute:
  "upd_page page f (split_block order cur page st) = split_block order cur page (upd_page page f st)"
proof (induction cur arbitrary: st)
  case (Suc cur)
  show ?case
    using Suc.IH upd_page_insert_commute [of page "page + 2 ^ cur" f cur st]
    by (simp add: Let_def insert_block_def)
qed simp

section \<open>Allocation of one block\<close>

definition no_block_from :: "nat \<Rightarrow> buddy \<Rightarrow> bool" where
  "no_block_from order st \<longleftrightarrow> (\<forall>k. order \<le> k \<longrightarrow> k \<le> MAX_ORDER \<longrightarrow> free_list st k = [])"

lemma alloc_from_spec:
  assumes "buddy_inv st" "order \<le> cur" "cur \<le> Suc MAX_ORDER" "\<forall>k. order \<le> k \<longrightarrow> k < cur \<longrightarrow> free_list st k = []"
  shows "(alloc_from order cur st = (None, st) \<and> no_block_from order st)
    \<or> (\<exists>page st'. alloc_from order cur st = (Some page, st') \<and> buddy_inv st' \<and> same_frame st st'
        \<and> block_ok st page order \<and> block page order \<subseteq> free_set st \<and> free_set st' = free_set st - block page order)"
  using assms
proof (induction order cur st rule: alloc_from.induct)
  case (1 order cur st)
  show ?case
  proof (cases "cur \<le> MAX_ORDER")
    case False
    with 1 show ?thesis by (auto simp: alloc_from.simps [of order cur st] no_block_from_def)
  next
    case cur: True
    show ?thesis
    proof (cases "free_list st cur")
      case Nil
      have "\<forall>k. order \<le> k \<longrightarrow> k < Suc cur \<longrightarrow> free_list st k = []"
        using "1.prems"(4) Nil by (auto simp: less_Suc_eq)
      with "1.IH" [OF cur Nil] "1.prems" cur Nil show ?thesis
        by (simp add: alloc_from.simps [of order cur st])
    next
      case (Cons page rest)
      let ?r = "remove_block cur page st" and ?s = "split_block order cur page (remove_block cur page st)"
      have page: "page \<in> set (free_list st cur)" using Cons by simp
      have inv: "buddy_inv ?r" and fs: "free_set ?r = free_set st - block page cur"
        using remove_block_inv free_set_remove_block "1.prems"(1) cur page by auto
      have ok: "block_ok st page cur"
        using "1.prems"(1) cur page by (simp add: buddy_inv_def listed_ok_def)
      then have "block_ok ?r page cur"
        by (simp add: same_frame_block_ok [OF same_frame_remove_block])
      then have sp: "buddy_inv ?s \<and> same_frame ?r ?s \<and> free_set ?s = free_set ?r \<union> (block page cur - block page order)"
        using inv fs "1.prems"(2) by (intro split_block_spec) auto
      have sub: "block page order \<subseteq> block page cur" "block page cur \<subseteq> free_set st"
        using "1.prems"(2) power_increasing [of order cur "2::nat"] listed_free cur page by (auto simp: block_def)
      have "block_ok st page order"
        using ok "1.prems"(2) by (rule block_ok_mono)
      moreover have "alloc_from order cur st = (Some page, ?s)"
        using Cons cur
        by (simp add: alloc_from.simps [of order cur st] split_block_commute) (simp add: remove_block_def)
      ultimately show ?thesis
        using sp sub fs same_frame_trans [OF same_frame_remove_block] by auto
    qed
  qed
qed

section \<open>Merging\<close>

lemma region_ok_join:
  assumes "region_ok st p n" "region_ok st (p + n) m" "zone_num (pages st (p + n)) = zone_num (pages st p)"
  shows "region_ok st p (n + m)"
proof -
  have "x < npage st \<and> \<not> PageReserved (pages st x) \<and> zone_num (pages st x) = zone_num (pages st p)"
    if "x \<in> {p..<p + (n + m)}" for x
  proof (cases "x < p + n")
    case True
    with that region_okD [OF assms(1), of x] show ?thesis by auto
  next
    case False
    with that region_okD [OF assms(2), of x] assms(3) show ?thesis by auto
  qed
  then show ?thesis
    using region_ok_base [OF assms(1)] unfolding region_ok_def [of st p "n + m"] by blast
qed

lemma join_blocks:
  assumes "block_ok st a k" "block_ok st (a + 2 ^ k) k" "zone_num (pages st (a + 2 ^ k)) = zone_num (pages st a)"
    and "k < MAX_ORDER" "2 ^ Suc k dvd page2idx a st"
  shows "block_ok st a (Suc k)"
  using region_ok_join [of st a "2 ^ k" "2 ^ k"] assms by (simp add: block_ok_def mult_2)

lemma listed_is_buddy:
  assumes "buddy_inv st" "k \<le> MAX_ORDER" "q \<in> set (free_list st k)"
  shows "page_is_buddy q k (zone_num (pages st q)) st"
proof -
  have "block_ok st q k" "PageProperty (pages st q)" "property (pages st q) = k"
    using assms by (auto simp: buddy_inv_def listed_ok_def)
  with block_ok_zone [of st q k q] show ?thesis
    by (simp add: page_is_buddy_def)
qed

lemma buddy_is_listed:
  assumes "buddy_inv st" "page_is_buddy q k z st"
  shows "k \<le> MAX_ORDER" "q \<in> set (free_list st k)" "zone_num (pages st q) = z" "block_ok st q k"
  using assms by (auto simp: buddy_inv_def flagged_ok_def listed_ok_def page_is_buddy_def split: if_splits)

lemma page2idx_zone: "zone_num (pages st (zones st z + i)) = z \<Longrightarrow> page2idx (zones st z + i) st = i"
  by (simp add: page2idx_def)

lemma no_buddy_listed:
  assumes "buddy_inv st" "k \<le> MAX_ORDER" "zone_num (pages st (zones st z + i)) = z"
    and "\<not> page_is_buddy (zones st z + (i XOR 2 ^ k)) k z st" "q \<in> set (free_list st k)"
  shows "\<not> buddies st k (zones st z + i) q"
proof
  assume "buddies st k (zones st z + i) q"
  then have q: "zone_num (pages st q) = z" "page2idx q st = i XOR 2 ^ k"
    using assms(3) by (auto simp: buddies_def page2idx_zone)
  have "block_ok st q k"
    using assms by (simp add: buddy_inv_def listed_ok_def)
  then have "zones st z \<le> q"
    using q(1) region_ok_base [of st q "2 ^ k"] by (simp add: block_ok_def)
  then have "q = zones st z + (i XOR 2 ^ k)"
    using q by (simp add: page2idx_def)
  with listed_is_buddy [OF assms(1,2,5)] q assms(4) show False by simp
qed

text \<open>
  One merge: the pending block and its free buddy are the two halves of an aligned block of
  the next order, which is pending afterwards.
\<close>

lemma merge_step:
  assumes ok: "block_ok st (zones st z + i) k" "block_ok st (zones st z + (i XOR 2 ^ k)) k"
    and z: "zone_num (pages st (zones st z + i)) = z" "zone_num (pages st (zones st z + (i XOR 2 ^ k))) = z"
    and k: "k < MAX_ORDER"
  defines "m \<equiv> zones st z + (i AND (i XOR 2 ^ k))"
  shows "block_ok st m (Suc k)" and "zone_num (pages st m) = z"
    and "block m (Suc k) = block (zones st z + i) k \<union> block (zones st z + (i XOR 2 ^ k)) k"
proof -
  have al: "2 ^ k dvd i" using ok(1) page2idx_zone [OF z(1)] by (simp add: block_ok_def)
  have "block_ok st m (Suc k) \<and> zone_num (pages st m) = z \<and>
    block m (Suc k) = block (zones st z + i) k \<union> block (zones st z + (i XOR 2 ^ k)) k"
  proof (cases "bit i k")
    case True
    have i: "2 ^ k \<le> i" "2 ^ Suc k dvd i - 2 ^ k"
      using aligned_bit_set [OF al True] by auto
    have x: "i XOR 2 ^ k = i - 2 ^ k" "m = zones st z + (i - 2 ^ k)"
      using True xor_power_aligned [OF al] and_xor_power_aligned [OF al] by (simp_all add: m_def)
    have m: "m + 2 ^ k = zones st z + i" "page2idx m st = i - 2 ^ k"
      using i x z(2) page2idx_zone [of st z "i - 2 ^ k"] by simp_all
    then have "block_ok st m (Suc k)"
      using ok z x i k by (intro join_blocks) auto
    then show ?thesis
      using m(1) x z(2) by (auto simp: block_Suc)
  next
    case False
    have x: "i XOR 2 ^ k = i + 2 ^ k" "m = zones st z + i"
      using False xor_power_aligned [OF al] and_xor_power_aligned [OF al] by (simp_all add: m_def)
    have m: "m + 2 ^ k = zones st z + (i XOR 2 ^ k)" "page2idx m st = i"
      using x z(1) by (simp_all add: page2idx_zone)
    then have "block_ok st m (Suc k)"
      using ok z x aligned_bit_clear [OF al False] k by (intro join_blocks) (auto simp: add.assoc)
    then show ?thesis
      using m(1) x z(1) by (simp add: block_Suc add.assoc)
  qed
  then show "block_ok st m (Suc k)" and "zone_num (pages st m) = z"
    and "block m (Suc k) = block (zones st z + i) k \<union> block (zones st z + (i XOR 2 ^ k)) k"
    by auto
qed

definition merged :: "buddy \<Rightarrow> int \<Rightarrow> nat set \<Rightarrow> nat \<times> nat \<times> buddy \<Rightarrow> bool" where
  "merged st z F = (\<lambda>(i', k', st'). let p' = zones st z + i' in
     buddy_inv st' \<and> same_frame st st' \<and> block_ok st' p' k' \<and> zone_num (pages st' p') = z \<and>
     block p' k' \<inter> free_set st' = {} \<and> free_set st' \<union> block p' k' = F \<and>
     (k' < MAX_ORDER \<longrightarrow> (\<forall>q\<in>set (free_list st' k'). \<not> buddies st' k' p' q)))"

lemma merge_block_spec:
  assumes "buddy_inv st" "block_ok st (zones st z + i) k" "zone_num (pages st (zones st z + i)) = z"
    and "block (zones st z + i) k \<inter> free_set st = {}"
  shows "merged st z (free_set st \<union> block (zones st z + i) k) (merge_block z i k st)"
  using assms
proof (induction z i k st rule: merge_block.induct)
  case (1 z i k st)
  let ?p = "zones st z + i" and ?b = "zones st z + (i XOR 2 ^ k)"
  show ?case
  proof (cases "k < MAX_ORDER \<and> page_is_buddy ?b k z st")
    case False
    then have "merge_block z i k st = (i, k, st)"
      by (simp add: merge_block.simps [of z i k st] idx2page_def Let_def)
    moreover have "\<not> buddies st k ?p q" if "k < MAX_ORDER" "q \<in> set (free_list st k)" for q
      using that False "1.prems" by (intro no_buddy_listed) auto
    ultimately show ?thesis
      using "1.prems" by (simp add: merged_def)
  next
    case True
    let ?st = "remove_block k ?b st" and ?i = "i AND (i XOR 2 ^ k)"
    note b = buddy_is_listed [OF "1.prems"(1) conjunct2 [OF True]]
    note step = merge_step [OF "1.prems"(2) b(4) "1.prems"(3) b(3) conjunct1 [OF True]]
    have fr: "same_frame st ?st" by (rule same_frame_remove_block)
    then have zs: "zones ?st = zones st" by (simp add: same_frame_def)
    have inv: "buddy_inv ?st" and fs: "free_set ?st = free_set st - block ?b k"
      using remove_block_inv free_set_remove_block "1.prems"(1) b by auto
    have bfree: "block ?b k \<subseteq> free_set st" using b listed_free by blast
    note IH = "1.IH" [OF conjunct1 [OF True] refl refl, unfolded idx2page_def, folded remove_block_def]
    have "block_ok ?st (zones ?st z + ?i) (Suc k)" "zone_num (pages ?st (zones ?st z + ?i)) = z"
      using step(1,2) fr zs by (simp_all add: same_frame_block_ok) (simp add: same_frame_def)
    moreover have "block (zones ?st z + ?i) (Suc k) \<inter> free_set ?st = {}"
      using step(3) fs zs "1.prems"(4) by auto
    ultimately have "merged ?st z (free_set ?st \<union> block (zones ?st z + ?i) (Suc k)) (merge_block z ?i (Suc k) ?st)"
      using IH inv True by simp
    moreover have "free_set ?st \<union> block (zones ?st z + ?i) (Suc k) = free_set st \<union> block ?p k"
      using fs bfree zs step(3) by auto
    moreover have "merge_block z i k st = merge_block z ?i (Suc k) ?st"
      using True by (simp add: merge_block.simps [of z i k st] idx2page_def Let_def remove_block_def)
    ultimately show ?thesis
      using fr zs by (auto simp: merged_def Let_def intro: same_frame_trans split: prod.splits)
  qed
qed

section \<open>Freeing one block\<close>

definition released :: "nat \<Rightarrow> nat \<Rightarrow> buddy \<Rightarrow> buddy" where
  "released p n st = st\<lparr>pages := (\<lambda>q. if q \<in> {p..<p + n} then set_page_ref 0 ((pages st q)\<lparr>flags := 0\<rparr>) else pages st q)\<rparr>"

lemma release_descriptors_eq:
  assumes "\<forall>q\<in>{p..<p + n}. \<not> PageReserved (pages st q) \<and> \<not> PageProperty (pages st q)"
  shows "release_descriptors p n st = Some (released p n st)"
  using assms
proof (induction n arbitrary: p st)
  case (Suc n)
  let ?st = "upd_page p (\<lambda>pg. set_page_ref 0 (pg\<lparr>flags := 0\<rparr>)) st"
  have "release_descriptors (Suc p) n ?st = Some (released (Suc p) n ?st)"
    using Suc.prems by (intro Suc.IH) (auto simp: upd_page_def)
  moreover have "released (Suc p) n ?st = released p (Suc n) st"
    by (auto simp: released_def upd_page_def fun_eq_iff)
  ultimately show ?case
    using Suc.prems by simp
qed (simp add: released_def)

lemma same_frame_released: "region_ok st p n \<Longrightarrow> same_frame st (released p n st)"
  using region_okD(2) [of st p n] by (auto simp: same_frame_def released_def)

lemma not_free_unflagged:
  assumes "buddy_inv st" "region_ok st p n" "{p..<p + n} \<inter> free_set st = {}" "q \<in> {p..<p + n}"
  shows "\<not> PageProperty (pages st q)"
  using flagged_is_free [OF assms(1)] region_okD(1,2) [OF assms(2,4)] assms(3,4) by blast

lemma released_inv:
  assumes inv: "buddy_inv st" and reg: "region_ok st p n" and fresh: "{p..<p + n} \<inter> free_set st = {}"
  shows "buddy_inv (released p n st)" and "free_set (released p n st) = free_set st"
proof -
  let ?st = "released p n st"
  note fr = same_frame_simps [OF same_frame_released [OF reg]]
  have l: "free_list ?st = free_list st" "nr_free ?st = nr_free st" "npage ?st = npage st"
    by (simp_all add: released_def)
  have out: "pages ?st q = pages st q" if "k \<le> MAX_ORDER" "q \<in> set (free_list st k)" for q k
  proof -
    have "q \<in> free_set st" using listed_free [OF that] block_nonempty by blast
    then have "q \<notin> {p..<p + n}" using fresh by blast
    then show ?thesis by (auto simp: released_def)
  qed
  have "listed_ok ?st"
    using inv out by (simp add: buddy_inv_def listed_ok_def l fr)
  moreover have "flagged_ok ?st"
    using inv by (auto simp: buddy_inv_def flagged_ok_def l released_def)
  ultimately show "buddy_inv ?st"
    using inv by (simp add: buddy_inv_def disjoint_ok_def counted_ok_def coalesced_def l fr)
  show "free_set ?st = free_set st"
    by (simp add: free_set_def l)
qed

lemma buddy_free_pages_sub_spec:
  assumes inv: "buddy_inv st" and ok: "block_ok st base k" and fresh: "block base k \<inter> free_set st = {}"
  shows "\<exists>st'. buddy_free_pages_sub base k st = Some st' \<and> buddy_inv st' \<and> same_frame st st'
    \<and> free_set st' = free_set st \<union> block base k"
proof -
  let ?st1 = "released base (2 ^ k) st" and ?z = "zone_num (pages st base)" and ?i = "page2idx base st"
  have reg: "region_ok st base (2 ^ k)" using ok by (simp add: block_ok_def)
  have fr1: "same_frame st ?st1" by (rule same_frame_released [OF reg])
  have inv1: "buddy_inv ?st1" and fs1: "free_set ?st1 = free_set st"
    using released_inv [OF inv reg] fresh by (simp_all add: block_def)
  have rel: "release_descriptors base (2 ^ k) st = Some ?st1"
    using region_okD(2) [OF reg] not_free_unflagged [OF inv reg] fresh
    by (intro release_descriptors_eq) (auto simp: block_def)
  have z1: "zones ?st1 = zones st" "zone_num (pages ?st1 q) = zone_num (pages st q)" for q
    using fr1 by (simp_all add: same_frame_def)
  have base: "zones st ?z + ?i = base"
    using region_ok_base [OF reg] by (simp add: page2idx_def)
  obtain i' k' st2 where m: "merge_block ?z ?i k ?st1 = (i', k', st2)"
    by (metis prod_cases3)
  have "merged ?st1 ?z (free_set ?st1 \<union> block (zones ?st1 ?z + ?i) k) (merge_block ?z ?i k ?st1)"
    using inv1 ok fresh by (intro merge_block_spec) (simp_all add: z1 base fs1 same_frame_block_ok [OF fr1])
  then have mer: "buddy_inv st2" "same_frame ?st1 st2" "block_ok st2 (zones st ?z + i') k'"
    "block (zones st ?z + i') k' \<inter> free_set st2 = {}"
    "free_set st2 \<union> block (zones st ?z + i') k' = free_set st \<union> block base k"
    "k' < MAX_ORDER \<longrightarrow> (\<forall>q\<in>set (free_list st2 k'). \<not> buddies st2 k' (zones st ?z + i') q)"
    by (auto simp: merged_def Let_def m z1 base fs1)
  have z2: "zones st2 = zones st" using mer(2) z1 by (simp add: same_frame_def)
  have al: "?i AND (2 ^ k - 1) = 0"
    using ok by (simp add: block_ok_def and_mask_zero_iff [simplified])
  let ?st3 = "insert_block k' (zones st ?z + i') st2"
  have "buddy_free_pages_sub base k st = Some ?st3"
    using al by (simp add: buddy_free_pages_sub_def rel z1 m idx2page_def z2 insert_block_def Let_def)
  moreover have "buddy_inv ?st3"
    using mer by (intro insert_block_inv) auto
  moreover have "free_set ?st3 = free_set st \<union> block base k"
    using mer(3,5) free_set_insert_block by (simp add: block_ok_def)
  moreover have "same_frame st ?st3"
    using fr1 mer(2) same_frame_insert_block same_frame_trans by blast
  ultimately show ?thesis by blast
qed

section \<open>Freeing a run of pages\<close>

definition freed :: "buddy \<Rightarrow> nat set \<Rightarrow> buddy \<Rightarrow> bool" where
  "freed st A st' \<longleftrightarrow> buddy_inv st' \<and> same_frame st st' \<and> free_set st' = free_set st \<union> A"

lemma freed_refl: "buddy_inv st \<Longrightarrow> freed st {} st"
  by (simp add: freed_def)

lemma freed_trans: "freed st A st1 \<Longrightarrow> freed st1 B st2 \<Longrightarrow> C = A \<union> B \<Longrightarrow> freed st C st2"
  by (auto simp: freed_def intro: same_frame_trans)

text \<open>Freeing the first block of a run leaves a run that satisfies the precondition again.\<close>

lemma free_first_block:
  assumes inv: "buddy_inv st" and reg: "region_ok st base n" and fresh: "{base..<base + n} \<inter> free_set st = {}"
    and k: "k \<le> MAX_ORDER" "2 ^ k \<le> n" and al: "2 ^ k dvd page2idx base st"
  obtains st' where "buddy_free_pages_sub base k st = Some st'" "freed st {base..<base + 2 ^ k} st'"
    "buddy_inv st'" "region_ok st' (base + 2 ^ k) (n - 2 ^ k) \<or> n = 2 ^ k"
    "{base + 2 ^ k..<base + 2 ^ k + (n - 2 ^ k)} \<inter> free_set st' = {}"
    "n \<noteq> 2 ^ k \<Longrightarrow> page2idx (base + 2 ^ k) st' = page2idx base st + 2 ^ k"
proof -
  have ok: "block_ok st base k"
    using region_ok_prefix [OF reg k(2)] k(1) al by (simp add: block_ok_def)
  obtain st' where st': "buddy_free_pages_sub base k st = Some st'" "buddy_inv st'" "same_frame st st'"
    "free_set st' = free_set st \<union> block base k"
    using buddy_free_pages_sub_spec [OF inv ok] fresh k(2) by (force simp: block_def)
  have "region_ok st' (base + 2 ^ k) (n - 2 ^ k)" if "n \<noteq> 2 ^ k"
    using region_ok_sub [OF reg, of "base + 2 ^ k" "n - 2 ^ k"] k(2) that st'(3)
    by (simp add: same_frame_region_ok)
  moreover have "{base + 2 ^ k..<base + 2 ^ k + (n - 2 ^ k)} \<inter> free_set st' = {}"
  proof -
    have "{base + 2 ^ k..<base + 2 ^ k + (n - 2 ^ k)} \<subseteq> {base..<base + n}"
      and "{base + 2 ^ k..<base + 2 ^ k + (n - 2 ^ k)} \<inter> block base k = {}"
      using k(2) by (auto simp: block_def)
    with fresh st'(4) show ?thesis by blast
  qed
  moreover have "page2idx (base + 2 ^ k) st' = page2idx base st + 2 ^ k" if "n \<noteq> 2 ^ k"
    using region_ok_idx_add [OF reg, of "2 ^ k"] k(2) that st'(3) by (simp add: same_frame_page2idx)
  ultimately show ?thesis
    using that st' by (auto simp: freed_def block_def)
qed

lemma free_down_spec:
  assumes "buddy_inv st" "n \<noteq> 0 \<longrightarrow> region_ok st base n \<and> 2 ^ order dvd page2idx base st"
    and "{base..<base + n} \<inter> free_set st = {}" "n < 2 ^ Suc order" "n < 2 ^ order \<or> order \<le> MAX_ORDER"
    and "order \<le> Suc MAX_ORDER"
  shows "\<exists>st'. free_down order base n st = Some st' \<and> freed st {base..<base + n} st'"
  using assms
proof (induction order base n st rule: free_down.induct)
  case (1 order base n st)
  consider "n = 0" | "n \<noteq> 0" "n < 2 ^ order" | "n \<noteq> 0" "2 ^ order \<le> n" by linarith
  then show ?case
  proof cases
    case 1
    then show ?thesis
      using "1.prems"(1) by (simp add: free_down.simps [of order] freed_refl)
  next
    case 2
    then obtain o' where o': "order = Suc o'" by (cases order) auto
    have "2 ^ (order - 1) dvd page2idx base st"
      using "1.prems"(2) 2 o' by (auto intro: dvd_trans [OF le_imp_power_dvd])
    then show ?thesis
      using "1.IH"(1) 2 "1.prems" o' by (simp add: free_down.simps [of "Suc o'"])
  next
    case 3
    have reg: "region_ok st base n" "2 ^ order dvd page2idx base st" and k: "order \<le> MAX_ORDER"
      using "1.prems" 3 by auto
    obtain st' where st': "buddy_free_pages_sub base order st = Some st'" "freed st {base..<base + 2 ^ order} st'"
      "buddy_inv st'" "region_ok st' (base + 2 ^ order) (n - 2 ^ order) \<or> n = 2 ^ order"
      "{base + 2 ^ order..<base + 2 ^ order + (n - 2 ^ order)} \<inter> free_set st' = {}"
      "n \<noteq> 2 ^ order \<Longrightarrow> page2idx (base + 2 ^ order) st' = page2idx base st + 2 ^ order"
      using free_first_block [OF "1.prems"(1) reg(1) "1.prems"(3) k 3(2) reg(2)] by blast
    have "n - 2 ^ order < 2 ^ order" using "1.prems"(4) by auto
    then obtain st'' where "free_down order (base + 2 ^ order) (n - 2 ^ order) st' = Some st''"
      "freed st' {base + 2 ^ order..<base + 2 ^ order + (n - 2 ^ order)} st''"
      using "1.IH"(2) [OF _ _ st'(1)] 3 st' reg(2) k by fastforce
    moreover have "{base..<base + n} = {base..<base + 2 ^ order} \<union> {base + 2 ^ order..<base + 2 ^ order + (n - 2 ^ order)}"
      using 3(2) by auto
    ultimately show ?thesis
      using 3 st'(1,2) by (auto simp: free_down.simps [of order] intro: freed_trans)
  qed
qed

lemma free_up_spec:
  assumes "buddy_inv st" "n \<noteq> 0 \<longrightarrow> region_ok st base n \<and> 2 ^ order dvd page2idx base st"
    and "{base..<base + n} \<inter> free_set st = {}" "n < 2 ^ Suc MAX_ORDER" "order \<le> Suc MAX_ORDER"
  shows "\<exists>order' base' n' st'. free_up order base n st = Some (order', base', n', st')
    \<and> freed st {base..<base'} st' \<and> base \<le> base' \<and> base' + n' = base + n
    \<and> (n' \<noteq> 0 \<longrightarrow> region_ok st' base' n' \<and> 2 ^ order' dvd page2idx base' st')
    \<and> {base'..<base' + n'} \<inter> free_set st' = {} \<and> n' < 2 ^ order' \<and> order' \<le> Suc MAX_ORDER"
  using assms
proof (induction order base n st rule: free_up.induct)
  case (1 order base n st)
  show ?case
  proof (cases "2 ^ order \<le> n")
    case False
    with 1 show ?thesis
      by (auto simp: free_up.simps [of order] freed_refl)
  next
    case big: True
    have k: "order \<le> MAX_ORDER"
    proof (rule ccontr)
      assume "\<not> order \<le> MAX_ORDER"
      then have "(2::nat) ^ Suc MAX_ORDER \<le> 2 ^ order" by (intro power_increasing) auto
      with big "1.prems"(4) show False by simp
    qed
    have n0: "n \<noteq> 0" using big by (metis not_one_le_zero one_le_numeral one_le_power order_trans)
    with "1.prems"(2) have reg: "region_ok st base n" "2 ^ order dvd page2idx base st" by auto
    show ?thesis
    proof (cases "bit (page2idx base st) order")
      case False
      have "2 ^ Suc order dvd page2idx base st"
        using aligned_bit_clear [OF reg(2) False] .
      then show ?thesis
        using "1.IH"(2) big k False reg "1.prems"
        by (simp add: free_up.simps [of order] and_power_zero_iff)
    next
      case True
      obtain st' where st': "buddy_free_pages_sub base order st = Some st'" "freed st {base..<base + 2 ^ order} st'"
        "buddy_inv st'" "region_ok st' (base + 2 ^ order) (n - 2 ^ order) \<or> n = 2 ^ order"
        "{base + 2 ^ order..<base + 2 ^ order + (n - 2 ^ order)} \<inter> free_set st' = {}"
        "n \<noteq> 2 ^ order \<Longrightarrow> page2idx (base + 2 ^ order) st' = page2idx base st + 2 ^ order"
        using free_first_block [OF "1.prems"(1) reg(1) "1.prems"(3) k big reg(2)] by blast
      have al: "2 ^ Suc order dvd page2idx base st + 2 ^ order"
      proof -
        note a = aligned_bit_set [OF reg(2) True]
        have "2 ^ Suc order dvd (page2idx base st - 2 ^ order) + 2 ^ Suc order" "2 ^ order \<le> page2idx base st"
          using dvd_add [OF conjunct1 [OF a] dvd_refl] a by blast+
        moreover have "(page2idx base st - 2 ^ order) + 2 ^ Suc order = page2idx base st + 2 ^ order"
          using \<open>2 ^ order \<le> page2idx base st\<close> by simp
        ultimately show ?thesis by metis
      qed
      have pre: "n - 2 ^ order \<noteq> 0 \<longrightarrow> region_ok st' (base + 2 ^ order) (n - 2 ^ order)
          \<and> 2 ^ Suc order dvd page2idx (base + 2 ^ order) st'"
        using st'(4,6) al big by auto
      have "n - 2 ^ order < 2 ^ Suc MAX_ORDER" "Suc order \<le> Suc MAX_ORDER"
        using "1.prems"(4) k by auto
      from "1.IH"(1) [OF big k _ st'(1) st'(3) pre st'(5) this] True
      obtain order' base' n' st'' where IH:
        "free_up (Suc order) (base + 2 ^ order) (n - 2 ^ order) st' = Some (order', base', n', st'')"
        "freed st' {base + 2 ^ order..<base'} st''" "base + 2 ^ order \<le> base'"
        "base' + n' = base + 2 ^ order + (n - 2 ^ order)"
        "n' \<noteq> 0 \<longrightarrow> region_ok st'' base' n' \<and> 2 ^ order' dvd page2idx base' st''"
        "{base'..<base' + n'} \<inter> free_set st'' = {}" "n' < 2 ^ order'" "order' \<le> Suc MAX_ORDER"
        by (auto simp: and_power_zero_iff)
      have "{base..<base'} = {base..<base + 2 ^ order} \<union> {base + 2 ^ order..<base'}"
        using IH(3) by auto
      then have "freed st {base..<base'} st''"
        using freed_trans [OF st'(2) IH(2)] by simp
      moreover have "free_up order base n st = Some (order', base', n', st'')"
        using big k True st'(1) IH(1) by (simp add: free_up.simps [of order] and_power_zero_iff)
      ultimately show ?thesis
        using IH big by fastforce
    qed
  qed
qed

lemma buddy_free_pages_spec:
  assumes "buddy_inv st" "region_ok st base n" "{base..<base + n} \<inter> free_set st = {}" "0 < n" "n < 2 ^ Suc MAX_ORDER"
  shows "\<exists>st'. buddy_free_pages base n st = Some st' \<and> freed st {base..<base + n} st'"
proof (cases "n = 1")
  case True
  then have "block_ok st base 0" using assms(2) by (simp add: block_ok_def)
  then show ?thesis
    using buddy_free_pages_sub_spec [OF assms(1), of base 0] True assms(3)
    by (auto simp: buddy_free_pages_def freed_def block_def)
next
  case False
  obtain order' base' n' st' where up: "free_up 0 base n st = Some (order', base', n', st')"
    "freed st {base..<base'} st'" "base \<le> base'" "base' + n' = base + n"
    "n' \<noteq> 0 \<longrightarrow> region_ok st' base' n' \<and> 2 ^ order' dvd page2idx base' st'"
    "{base'..<base' + n'} \<inter> free_set st' = {}" "n' < 2 ^ order'" "order' \<le> Suc MAX_ORDER"
    using free_up_spec [of st n base 0] assms by auto
  have "buddy_inv st'" using up(2) by (simp add: freed_def)
  then obtain st'' where down: "free_down order' base' n' st' = Some st''" "freed st' {base'..<base' + n'} st''"
    using free_down_spec [of st' n' base' order'] up by auto
  have "{base..<base + n} = {base..<base'} \<union> {base'..<base' + n'}"
    using up(3,4) by auto
  then have "freed st {base..<base + n} st''"
    using freed_trans [OF up(2) down(2)] by simp
  then show ?thesis
    using False assms(4) up(1) down(1) by (simp add: buddy_free_pages_def)
qed

section \<open>Allocating and counting\<close>

lemma getorder_from_spec:
  assumes "n \<le> 2 ^ MAX_ORDER" "order \<le> MAX_ORDER" "\<forall>j<order. 2 ^ j < n"
  shows "\<exists>k. getorder_from order n = Some k \<and> k \<le> MAX_ORDER \<and> n \<le> 2 ^ k \<and> (\<forall>j<k. 2 ^ j < n)"
  using assms
proof (induction order n rule: getorder_from.induct)
  case (1 order n)
  show ?case
  proof (cases "n \<le> 2 ^ order")
    case True
    with 1 show ?thesis by (simp add: getorder_from.simps [of order])
  next
    case False
    then have "order \<noteq> MAX_ORDER" using "1.prems"(1) by auto
    with False 1 show ?thesis
      by (simp add: getorder_from.simps [of order] less_Suc_eq)
  qed
qed

lemma getorder_spec:
  assumes "n \<le> 2 ^ MAX_ORDER"
  obtains k where "getorder n = Some k" "k \<le> MAX_ORDER" "n \<le> 2 ^ k" "\<forall>j<k. 2 ^ j < n"
  using getorder_from_spec [of n 0] assms by (auto simp: getorder_def)

lemma getorder_from_panic: "2 ^ MAX_ORDER < n \<Longrightarrow> getorder_from order n = None"
proof (induction order n rule: getorder_from.induct)
  case (1 order n)
  have "2 ^ order < n" if "order \<le> MAX_ORDER"
    using "1.prems" power_increasing [OF that, of "2::nat"] by simp
  with 1 show ?case by (auto simp: getorder_from.simps [of order])
qed

lemma buddy_alloc_pages_spec:
  assumes inv: "buddy_inv st" and n: "0 < n" "n \<le> 2 ^ MAX_ORDER"
  shows "\<exists>k. getorder n = Some k \<and>
    ((buddy_alloc_pages n st = Some (None, st) \<and> no_block_from k st)
     \<or> (\<exists>p st'. buddy_alloc_pages n st = Some (Some p, st') \<and> buddy_inv st' \<and> same_frame st st'
          \<and> region_ok st p n \<and> 2 ^ k dvd page2idx p st
          \<and> {p..<p + n} \<subseteq> free_set st \<and> free_set st' = free_set st - {p..<p + n}))"
proof -
  obtain k where k: "getorder n = Some k" "k \<le> MAX_ORDER" "n \<le> 2 ^ k"
    using getorder_spec [OF n(2)] by blast
  have sub: "buddy_alloc_pages_sub k st = Some (alloc_from k k st)"
    using k(2) by (simp add: buddy_alloc_pages_sub_def)
  from alloc_from_spec [OF inv, of k k] k(2)
  consider "alloc_from k k st = (None, st)" "no_block_from k st"
    | p st1 where "alloc_from k k st = (Some p, st1)" "buddy_inv st1" "same_frame st st1" "block_ok st p k"
      "block p k \<subseteq> free_set st" "free_set st1 = free_set st - block p k"
    by auto
  then show ?thesis
  proof cases
    case 1
    then show ?thesis
      using k n sub by (auto simp: buddy_alloc_pages_def)
  next
    case 2
    have reg: "region_ok st p (2 ^ k)" using 2(4) by (simp add: block_ok_def)
    have regn: "region_ok st p n" using region_ok_prefix [OF reg k(3)] .
    have al: "2 ^ k dvd page2idx p st" using 2(4) by (simp add: block_ok_def)
    have sub1: "{p..<p + n} \<subseteq> block p k" using k(3) by (auto simp: block_def)
    show ?thesis
    proof (cases "n = 2 ^ k")
      case True
      then have "buddy_alloc_pages n st = Some (Some p, st1)"
        using k n sub 2(1) by (simp add: buddy_alloc_pages_def)
      then show ?thesis
        using 2 k regn al sub1 True by (auto simp: block_def)
    next
      case False
      have "region_ok st1 (p + n) (2 ^ k - n)"
        using region_ok_sub [OF reg, of "p + n" "2 ^ k - n"] False k(3) same_frame_region_ok [OF 2(3)] by simp
      moreover have "2 ^ k - n < 2 ^ Suc MAX_ORDER"
        using power_increasing [OF k(2), of "2::nat"] by simp
      moreover have "{p + n..<p + n + (2 ^ k - n)} \<inter> free_set st1 = {}"
        using 2(6) by (auto simp: block_def)
      ultimately obtain st2 where fr: "buddy_free_pages (p + n) (2 ^ k - n) st1 = Some st2"
        "freed st1 {p + n..<p + n + (2 ^ k - n)} st2"
        using buddy_free_pages_spec [OF 2(2), of "p + n" "2 ^ k - n"] False k(3) by auto
      have "buddy_alloc_pages n st = Some (Some p, st2)"
        using k n sub 2(1) False fr(1) by (simp add: buddy_alloc_pages_def)
      moreover have "free_set st2 = free_set st - {p..<p + n}"
      proof -
        have "block p k = {p..<p + n} \<union> {p + n..<p + n + (2 ^ k - n)}"
          "{p..<p + n} \<inter> {p + n..<p + n + (2 ^ k - n)} = {}"
          using k(3) by (auto simp: block_def)
        then show ?thesis
          using fr(2) 2(5,6) by (auto simp: freed_def)
      qed
      moreover have "same_frame st st2" "buddy_inv st2"
        using fr(2) 2(3) same_frame_trans by (auto simp: freed_def)
      ultimately show ?thesis
        using k regn al sub1 2(5) by blast
    qed
  qed
qed

text \<open>The counters add up to the number of free pages.\<close>

lemma fold_add_sum: "fold (\<lambda>k (r::u32). r + f k) xs a = a + sum_list (map f xs)"
  by (induction xs arbitrary: a) (simp_all add: add.assoc)

lemma card_free_set:
  assumes "buddy_inv st"
  shows "card (free_set st) = (\<Sum>k\<le>MAX_ORDER. length (free_list st k) * 2 ^ k)"
proof -
  have fin: "finite (\<Union>p\<in>set (free_list st k). block p k)" for k by simp
  have "card (free_set st) = (\<Sum>k\<le>MAX_ORDER. card (\<Union>p\<in>set (free_list st k). block p k))"
    unfolding free_set_def
  proof (rule card_UN_disjoint)
    show "\<forall>i\<in>{..MAX_ORDER}. \<forall>j\<in>{..MAX_ORDER}. i \<noteq> j \<longrightarrow>
      (\<Union>p\<in>set (free_list st i). block p i) \<inter> (\<Union>p\<in>set (free_list st j). block p j) = {}"
    proof (intro ballI impI)
      fix i j assume "i \<in> {..MAX_ORDER}" "j \<in> {..MAX_ORDER}" "i \<noteq> j"
      then have "block p i \<inter> block q j = {}" if "p \<in> set (free_list st i)" "q \<in> set (free_list st j)" for p q
        using assms that by (auto simp: buddy_inv_def disjoint_ok_def)
      then show "(\<Union>p\<in>set (free_list st i). block p i) \<inter> (\<Union>p\<in>set (free_list st j). block p j) = {}"
        by blast
    qed
  qed (use fin in auto)
  also have "\<dots> = (\<Sum>k\<le>MAX_ORDER. length (free_list st k) * 2 ^ k)"
  proof (rule sum.cong [OF refl])
    fix k assume "k \<in> {..MAX_ORDER}"
    then have k: "k \<le> MAX_ORDER" by simp
    have "card (\<Union>p\<in>set (free_list st k). block p k) = (\<Sum>p\<in>set (free_list st k). card (block p k))"
      using assms k unfolding buddy_inv_def disjoint_ok_def by (intro card_UN_disjoint) auto
    also have "\<dots> = length (free_list st k) * 2 ^ k"
      using assms k by (simp add: buddy_inv_def counted_ok_def distinct_card)
    finally show "card (\<Union>p\<in>set (free_list st k). block p k) = length (free_list st k) * 2 ^ k" .
  qed
  finally show ?thesis .
qed

lemma buddy_nr_free_pages_card:
  assumes "buddy_inv st"
  shows "buddy_nr_free_pages st = of_nat (card (free_set st))"
proof -
  have "{..<Suc MAX_ORDER} = {..MAX_ORDER}" by auto
  then have "buddy_nr_free_pages st = (\<Sum>k\<le>MAX_ORDER. nr_free st k * 2 ^ k)"
    unfolding buddy_nr_free_pages_def fold_add_sum
    by (simp add: interv_sum_list_conv_sum_set_nat atLeast0LessThan del: upt_Suc)
  also have "\<dots> = (\<Sum>k\<le>MAX_ORDER. of_nat (length (free_list st k) * 2 ^ k))"
    using assms by (intro sum.cong) (auto simp: buddy_inv_def counted_ok_def)
  also have "\<dots> = of_nat (card (free_set st))"
    using card_free_set [OF assms] by simp
  finally show ?thesis .
qed

lemma finite_free_set [simp]: "finite (free_set st)"
  by (simp add: free_set_def)

section \<open>Initialisation\<close>

definition zones_ok :: "buddy \<Rightarrow> bool" where
  "zones_ok st \<longleftrightarrow> (\<forall>q<npage st. \<not> PageReserved (pages st q) \<longrightarrow> zone_num (pages st q) < int (zone_cnt st))"

definition fresh_page :: "int \<Rightarrow> page \<Rightarrow> page" where
  "fresh_page z pg = set_page_ref 0 (pg\<lparr>flags := 0, property := 0, zone_num := z\<rparr>)"

lemma fresh_page_simps [simp]:
  "\<not> PageReserved (fresh_page z pg)" "\<not> PageProperty (fresh_page z pg)" "zone_num (fresh_page z pg) = z"
  by (simp_all add: fresh_page_def page_flag_defs set_page_ref_def)

lemma init_descriptors_eq:
  assumes "\<forall>q\<in>{p..<p + n}. PageReserved (pages st q)"
  shows "init_descriptors z p n st =
    Some (st\<lparr>pages := (\<lambda>q. if q \<in> {p..<p + n} then fresh_page z (pages st q) else pages st q)\<rparr>)"
  using assms
proof (induction n arbitrary: p st)
  case (Suc n)
  let ?st = "upd_page p (\<lambda>pg. set_page_ref 0 (pg\<lparr>flags := 0, property := 0, zone_num := z\<rparr>)) st"
  have "init_descriptors z (Suc p) n ?st = Some (?st\<lparr>pages :=
    (\<lambda>q. if q \<in> {Suc p..<Suc p + n} then fresh_page z (pages ?st q) else pages ?st q)\<rparr>)"
    using Suc.prems by (intro Suc.IH) (auto simp: upd_page_def)
  then show ?case
    using Suc.prems by (auto simp: upd_page_def fun_eq_iff fresh_page_def)
qed simp

text \<open>
  Listing the blocks of a new zone: below order 10 at most one block of each order is listed,
  so no two buddies are.
\<close>

lemma init_blocks_spec:
  assumes "buddy_inv st" "n \<noteq> 0 \<longrightarrow> region_ok st p n \<and> 2 ^ order dvd page2idx p st" "order \<le> MAX_ORDER"
    and "{p..<p + n} \<inter> free_set st = {}" "order < MAX_ORDER \<longrightarrow> n < 2 ^ Suc order"
    and "\<forall>j<MAX_ORDER. j < order \<or> j = order \<and> 2 ^ order \<le> n \<longrightarrow>
      (\<forall>q\<in>set (free_list st j). zone_num (pages st q) \<noteq> zone_num (pages st p))"
  shows "freed st {p..<p + n} (init_blocks order n p st)"
  using assms
proof (induction order n p st rule: init_blocks.induct)
  case (1 order n p st)
  consider "n = 0" | "n \<noteq> 0" "2 ^ order \<le> n" | "n \<noteq> 0" "n < 2 ^ order" by linarith
  then show ?case
  proof cases
    case 1
    then show ?thesis using "1.prems"(1) by (simp add: init_blocks.simps [of order] freed_refl)
  next
    case 3
    then obtain o' where o': "order = Suc o'" by (cases order) auto
    have "2 ^ (order - 1) dvd page2idx p st"
      using "1.prems"(2) 3 o' by (auto intro: dvd_trans [OF le_imp_power_dvd])
    moreover have "\<forall>j<MAX_ORDER. j < order - 1 \<or> j = order - 1 \<and> 2 ^ (order - 1) \<le> n \<longrightarrow>
      (\<forall>q\<in>set (free_list st j). zone_num (pages st q) \<noteq> zone_num (pages st p))"
      using "1.prems"(6) o' by auto
    ultimately have "freed st {p..<p + n} (init_blocks (order - 1) n p st)"
      using "1.IH"(2) 3 "1.prems" o' by simp
    with 3 show ?thesis by (simp add: init_blocks.simps [of order])
  next
    case 2
    let ?st = "insert_block order p st" and ?p = "p + 2 ^ order" and ?n = "n - 2 ^ order"
    have reg: "region_ok st p n" and al: "2 ^ order dvd page2idx p st" using "1.prems"(2) 2 by auto
    have ok: "block_ok st p order"
      using region_ok_prefix [OF reg 2(2)] al "1.prems"(3) by (simp add: block_ok_def)
    have "block p order \<subseteq> {p..<p + n}" using 2(2) by (auto simp: block_def)
    then have fresh: "block p order \<inter> free_set st = {}" using "1.prems"(4) by blast
    have alone: "order < MAX_ORDER \<longrightarrow> (\<forall>q\<in>set (free_list st order). \<not> buddies st order p q)"
      using "1.prems"(6) 2(2) unfolding buddies_def by metis
    have inv: "buddy_inv ?st" by (rule insert_block_inv [OF "1.prems"(1) ok fresh alone])
    have fr: "same_frame st ?st" by (rule same_frame_insert_block)
    have fs: "free_set ?st = free_set st \<union> {p..<?p}"
      using "1.prems"(3) by (simp add: free_set_insert_block block_def)
    have next_run: "region_ok ?st ?p ?n" "2 ^ order dvd page2idx ?p ?st"
      "zone_num (pages ?st ?p) = zone_num (pages st p)" if "?n \<noteq> 0"
    proof -
      have lt: "2 ^ order < n" using that by simp
      show "region_ok ?st ?p ?n"
        using region_ok_sub [OF reg, of ?p ?n] lt same_frame_region_ok [OF fr] by simp
      show "2 ^ order dvd page2idx ?p ?st"
        using region_ok_idx_add [OF reg lt] al same_frame_page2idx [OF fr] by simp
      show "zone_num (pages ?st ?p) = zone_num (pages st p)"
        using region_okD(3) [OF reg, of ?p] lt fr by (simp add: same_frame_def)
    qed
    have z: "zone_num (pages ?st q) = zone_num (pages st q)" for q
      using fr by (simp add: same_frame_def)
    have small: "order < MAX_ORDER \<longrightarrow> ?n < 2 ^ order"
      using "1.prems"(5) by auto
    have others: "\<forall>j<MAX_ORDER. j < order \<or> j = order \<and> 2 ^ order \<le> ?n \<longrightarrow>
      (\<forall>q\<in>set (free_list ?st j). zone_num (pages ?st q) \<noteq> zone_num (pages ?st ?p))" if "?n \<noteq> 0"
      using "1.prems"(6) small next_run(3) [OF that] by (auto simp: free_list_insert_block z)
    have "{?p..<?p + ?n} \<subseteq> {p..<p + n}" "{?p..<?p + ?n} \<inter> {p..<?p} = {}" using 2(2) by auto
    then have "{?p..<?p + ?n} \<inter> free_set ?st = {}"
      using "1.prems"(4) fs by blast
    then have rest: "freed ?st {?p..<?p + ?n} (init_blocks order ?n ?p ?st)"
      using "1.IH"(1) [OF 2, folded insert_block_def] inv next_run small others "1.prems"(3)
      by (cases "?n = 0") (auto simp: freed_refl init_blocks.simps [of order 0])
    have first: "freed st {p..<?p} ?st"
      using inv fr fs by (simp add: freed_def)
    have un: "{p..<p + n} = {p..<?p} \<union> {?p..<?p + ?n}" using 2(2) by auto
    have "init_blocks order n p st = init_blocks order ?n ?p ?st"
      using 2 by (simp add: init_blocks.simps [of order n] insert_block_def)
    then show ?thesis using freed_trans [OF first rest un] by simp
  qed
qed

lemma reserved_not_free:
  assumes "buddy_inv st" "PageReserved (pages st q)"
  shows "q \<notin> free_set st"
proof
  assume "q \<in> free_set st"
  then obtain k p where "k \<le> MAX_ORDER" "p \<in> set (free_list st k)" "q \<in> block p k"
    by (auto simp: in_free_set)
  with assms(1) have "block_ok st p k" by (simp add: buddy_inv_def listed_ok_def)
  then show False using block_ok_zone assms(2) \<open>q \<in> block p k\<close> by blast
qed

text \<open>Turning reserved descriptors into those of a new, still empty zone keeps the invariant.\<close>

lemma new_zone_inv:
  assumes inv: "buddy_inv st" and zok: "zones_ok st" and n: "0 < n" "base + n \<le> npage st"
    and res: "\<forall>q\<in>{base..<base + n}. PageReserved (pages st q)"
  defines "z \<equiv> int (zone_cnt st)"
  defines "st1 \<equiv> st\<lparr>pages := (\<lambda>q. if q \<in> {base..<base + n} then fresh_page z (pages st q) else pages st q),
    zones := (zones st)(z := base), zone_cnt := Suc (zone_cnt st)\<rparr>"
  shows "buddy_inv st1" "zones_ok st1" "free_set st1 = free_set st" "region_ok st1 base n" "page2idx base st1 = 0"
    "\<forall>k\<le>MAX_ORDER. \<forall>q\<in>set (free_list st1 k). zone_num (pages st1 q) \<noteq> z"
proof -
  have l: "free_list st1 = free_list st" "nr_free st1 = nr_free st" "npage st1 = npage st"
    by (simp_all add: st1_def)
  show fs: "free_set st1 = free_set st" by (simp add: free_set_def l)
  have old: "pages st1 q = pages st q \<and> zone_num (pages st q) \<noteq> z"
    if "k \<le> MAX_ORDER" "p \<in> set (free_list st k)" "q \<in> block p k" for p q k
  proof -
    have bok: "block_ok st p k" using inv that by (simp add: buddy_inv_def listed_ok_def)
    then have "q < npage st" "\<not> PageReserved (pages st q)" using block_ok_zone that(3) by blast+
    then show ?thesis using zok res by (auto simp: zones_ok_def z_def st1_def)
  qed
  have idx: "page2idx p st1 = page2idx p st" "zone_num (pages st1 p) = zone_num (pages st p)"
    "block_ok st1 p k = block_ok st p k" if "k \<le> MAX_ORDER" "p \<in> set (free_list st k)" for p k
  proof -
    have o: "pages st1 q = pages st q" "zone_num (pages st q) \<noteq> z" if "q \<in> block p k" for q
      using old [OF \<open>k \<le> MAX_ORDER\<close> \<open>p \<in> set (free_list st k)\<close> that] by auto
    have zz: "zones st1 (zone_num (pages st p)) = zones st (zone_num (pages st p))"
      using o(2) [of p] by (simp add: st1_def)
    show i: "page2idx p st1 = page2idx p st" and "zone_num (pages st1 p) = zone_num (pages st p)"
      using o(1) [of p] zz by (simp_all add: page2idx_def)
    have "region_ok st1 p (2 ^ k) = region_ok st p (2 ^ k)"
      unfolding region_ok_def l o(1) [OF block_nonempty] zz using o(1) by (auto simp: block_def)
    then show "block_ok st1 p k = block_ok st p k" by (simp add: block_ok_def i)
  qed
  have "listed_ok st1"
    using inv idx(3) old by (simp add: buddy_inv_def listed_ok_def l)
  moreover have "flagged_ok st1"
    using inv by (auto simp: buddy_inv_def flagged_ok_def l st1_def)
  moreover have "disjoint_ok st1" "counted_ok st1"
    using inv by (simp_all add: buddy_inv_def disjoint_ok_def counted_ok_def l)
  moreover have "coalesced st1"
    unfolding coalesced_def l
  proof (intro allI impI ballI)
    fix k p q assume k: "k < MAX_ORDER" and pq: "p \<in> set (free_list st k)" "q \<in> set (free_list st k)"
    then have "buddies st1 k p q = buddies st k p q"
      using idx(1,2) [of k p] idx(1,2) [of k q] by (simp add: buddies_def)
    with inv k pq show "\<not> buddies st1 k p q" by (simp add: buddy_inv_def coalesced_def)
  qed
  ultimately show "buddy_inv st1" by (simp add: buddy_inv_def)
  show "zones_ok st1"
    using zok by (auto simp: zones_ok_def st1_def z_def less_Suc_eq intro: less_trans)
  show "region_ok st1 base n" "page2idx base st1 = 0"
    using n by (auto simp: region_ok_def page2idx_def st1_def)
  show "\<forall>k\<le>MAX_ORDER. \<forall>q\<in>set (free_list st1 k). zone_num (pages st1 q) \<noteq> z"
    using old l by (metis block_nonempty)
qed

lemma zones_ok_frame: "zones_ok st \<Longrightarrow> same_frame st st' \<Longrightarrow> zones_ok st'"
  by (simp add: zones_ok_def same_frame_def)

lemma buddy_init_memmap_spec:
  assumes "buddy_inv st" "zones_ok st" "0 < n" "base + n \<le> npage st" "zone_cnt st < MAX_ZONE_NUM"
    and res: "\<forall>q\<in>{base..<base + n}. PageReserved (pages st q)"
  shows "\<exists>st'. buddy_init_memmap base n st = Some st' \<and> buddy_inv st' \<and> zones_ok st'
    \<and> free_set st' = free_set st \<union> {base..<base + n} \<and> region_ok st' base n"
proof -
  let ?z = "int (zone_cnt st)"
  let ?st1 = "st\<lparr>pages := (\<lambda>q. if q \<in> {base..<base + n} then fresh_page ?z (pages st q) else pages st q),
    zones := (zones st)(?z := base), zone_cnt := Suc (zone_cnt st)\<rparr>"
  note nz = new_zone_inv [OF assms(1-4) res]
  have zb: "zone_num (pages ?st1 base) = ?z" using assms(3) by simp
  have fresh: "{base..<base + n} \<inter> free_set ?st1 = {}"
    using res reserved_not_free [OF assms(1)] nz(3) by blast
  have others: "\<forall>j<MAX_ORDER. j < MAX_ORDER \<or> j = MAX_ORDER \<and> 2 ^ MAX_ORDER \<le> n \<longrightarrow>
      (\<forall>q\<in>set (free_list ?st1 j). zone_num (pages ?st1 q) \<noteq> zone_num (pages ?st1 base))"
    unfolding zb using nz(6) less_imp_le by blast
  have run: "n \<noteq> 0 \<longrightarrow> region_ok ?st1 base n \<and> 2 ^ MAX_ORDER dvd page2idx base ?st1"
    unfolding nz(5) using nz(4) by simp
  have fr: "freed ?st1 {base..<base + n} (init_blocks MAX_ORDER n base ?st1)"
    by (rule init_blocks_spec [OF nz(1) run le_refl fresh _ others]) simp
  have "buddy_init_memmap base n st = Some (init_blocks MAX_ORDER n base ?st1)"
    using assms(3,5) by (simp add: buddy_init_memmap_def init_descriptors_eq [OF res] Let_def)
  with fr nz show ?thesis
    by (auto simp: freed_def same_frame_region_ok intro: zones_ok_frame)
qed

lemma buddy_init_inv:
  assumes "\<forall>q<npage st. PageReserved (pages st q)"
  shows "buddy_inv (buddy_init st)" "zones_ok (buddy_init st)" "free_set (buddy_init st) = {}"
  using assms by (auto simp: buddy_inv_defs buddy_init_def zones_ok_def free_set_def)

section \<open>The buddy system is a physical memory manager\<close>

lemma same_frame_region_fun: "same_frame st st' \<Longrightarrow> region_ok st' = region_ok st"
  by (simp add: fun_eq_iff same_frame_region_ok)

lemma buddy_alloc_bounds:
  assumes "buddy_alloc_pages n st = Some r"
  shows "0 < n \<and> n \<le> 2 ^ MAX_ORDER"
  using assms getorder_from_panic [of n 0]
  by (auto simp: buddy_alloc_pages_def getorder_def not_less [symmetric] split: if_splits)

interpretation bm: pmm_manager buddy_inv buddy_alloc_pages buddy_free_pages buddy_nr_free_pages free_set region_ok
  "2 ^ MAX_ORDER"
proof (unfold_locales, goal_cases)
  case (1 s n)
  then show ?case
    using buddy_alloc_pages_spec [OF 1] same_frame_region_fun by fastforce
next
  case (2 n s r) then show ?case by (rule buddy_alloc_bounds)
next
  case (3 s p n)
  have "n < 2 ^ Suc MAX_ORDER" using 3(5) by simp
  with 3 show ?case
    using buddy_free_pages_spec [of s p n] same_frame_region_fun by (fastforce simp: freed_def)
next
  case (4 s) then show ?case by (rule buddy_nr_free_pages_card)
next
  case (5 s) then show ?case by simp
qed

text \<open>
  Clients of the allocator as a state machine: \<open>own\<close> are the runs handed out and not yet
  returned. Only a run that is owned is freed, and with the length it was allocated with.
\<close>

inductive pmm_step :: "buddy \<times> (nat \<times> nat) set \<Rightarrow> buddy \<times> (nat \<times> nat) set \<Rightarrow> bool" where
  step_alloc: "buddy_alloc_pages n st = Some (Some p, st') \<Longrightarrow> pmm_step (st, own) (st', insert (p, n) own)"
| step_fail: "buddy_alloc_pages n st = Some (None, st') \<Longrightarrow> pmm_step (st, own) (st', own)"
| step_free: "(p, n) \<in> own \<Longrightarrow> buddy_free_pages p n st = Some st' \<Longrightarrow> pmm_step (st, own) (st', own - {(p, n)})"

inductive pmm_reachable :: "buddy \<Rightarrow> buddy \<times> (nat \<times> nat) set \<Rightarrow> bool" for st0 where
  reach_start: "pmm_reachable st0 (st0, {})"
| reach_step: "pmm_reachable st0 s \<Longrightarrow> pmm_step s t \<Longrightarrow> pmm_reachable st0 t"

inductive_cases pmm_step_cases: "pmm_step (st, own) t"

definition run_set :: "nat \<times> nat \<Rightarrow> nat set" where
  "run_set r = {fst r..<fst r + snd r}"

definition owned_ok :: "nat set \<Rightarrow> buddy \<times> (nat \<times> nat) set \<Rightarrow> bool" where
  "owned_ok F = (\<lambda>(st, own). buddy_inv st \<and> finite own \<and>
     (\<forall>r\<in>own. 0 < snd r \<and> snd r \<le> 2 ^ MAX_ORDER \<and> region_ok st (fst r) (snd r)) \<and>
     (\<forall>r\<in>own. run_set r \<inter> free_set st = {}) \<and>
     (\<forall>r\<in>own. \<forall>r'\<in>own. r \<noteq> r' \<longrightarrow> run_set r \<inter> run_set r' = {}) \<and>
     free_set st \<union> (\<Union>r\<in>own. run_set r) = F)"

lemma owned_ok_step:
  assumes "pmm_step s t" "owned_ok F s"
  shows "owned_ok F t"
  using assms
proof (induction rule: pmm_step.induct)
  case (step_alloc n st p st' own)
  then have inv: "buddy_inv st" by (simp add: owned_ok_def)
  note a = bm.alloc_Some [OF inv step_alloc(1)]
  have r: "run_set (p, n) = {p..<p + n}" by (simp add: run_set_def)
  have "\<forall>x\<in>own. run_set x \<inter> free_set st = {}" using step_alloc(2) by (simp add: owned_ok_def)
  then have sep: "run_set x \<inter> run_set (p, n) = {}" "run_set (p, n) \<inter> run_set x = {}" if "x \<in> own" for x
    using that a(4) r by blast+
  have "free_set st' \<union> (\<Union>r\<in>insert (p, n) own. run_set r) = F"
    using step_alloc(2) a(4,5) r by (auto simp: owned_ok_def)
  then show ?case
    using step_alloc(2) a sep r by (auto simp: owned_ok_def)
next
  case (step_fail n st st' own)
  then have "st' = st" by (auto simp: owned_ok_def dest: bm.alloc_None)
  with step_fail show ?case by simp
next
  case (step_free p n own st st')
  then have "\<forall>r\<in>own. run_set r \<inter> free_set st = {}" by (simp add: owned_ok_def)
  with step_free(1) have fresh: "{p..<p + n} \<inter> free_set st = {}" by (fastforce simp: run_set_def)
  from step_free have inv: "buddy_inv st" and reg: "region_ok st p n" and n: "0 < n" "n \<le> 2 ^ MAX_ORDER"
    by (auto simp: owned_ok_def)
  from bm.free_law [OF inv reg fresh n] step_free(2)
  have st': "buddy_inv st'" "region_ok st' = region_ok st" "free_set st' = free_set st \<union> run_set (p, n)"
    by (auto simp: run_set_def)
  have sep: "run_set r \<inter> run_set (p, n) = {}" if "r \<in> own - {(p, n)}" for r
    using that step_free(1,3) by (auto simp: owned_ok_def)
  have own: "own = insert (p, n) (own - {(p, n)})" using step_free(1) by auto
  have "free_set st' \<union> (\<Union>r\<in>own - {(p, n)}. run_set r) = free_set st \<union> (\<Union>r\<in>own. run_set r)"
    by (subst (2) own) (auto simp: st'(3))
  then show ?case
    using step_free(3) st' sep by (auto simp: owned_ok_def)
qed

lemma reachable_owned_ok:
  assumes "pmm_reachable st0 s" "buddy_inv st0"
  shows "owned_ok (free_set st0) s"
  using assms
proof (induction rule: pmm_reachable.induct)
  case reach_start
  then show ?case by (simp add: owned_ok_def)
next
  case (reach_step s t)
  then show ?case by (blast intro: owned_ok_step)
qed

section \<open>Reference counters\<close>

lemma upd_ref_inv [simp]:
  "buddy_inv (upd_page p (set_page_ref v) st) = buddy_inv st"
  "free_set (upd_page p (set_page_ref v) st) = free_set st"
  "region_ok (upd_page p (set_page_ref v) st) = region_ok st"
proof -
  let ?st = "upd_page p (set_page_ref v) st"
  have same: "PageReserved (pages ?st q) = PageReserved (pages st q)" "PageProperty (pages ?st q) = PageProperty (pages st q)"
    "property (pages ?st q) = property (pages st q)" "zone_num (pages ?st q) = zone_num (pages st q)" for q
    by (simp_all add: upd_page_def)
  have rest: "npage ?st = npage st" "free_list ?st = free_list st" "nr_free ?st = nr_free st" "zones ?st = zones st"
    by (simp_all add: upd_page_def)
  show "region_ok ?st = region_ok st"
    by (intro ext) (simp add: region_ok_def same rest)
  then show "buddy_inv ?st = buddy_inv st"
    by (simp add: buddy_inv_defs block_ok_def page2idx_def buddies_def same rest)
  show "free_set ?st = free_set st" by (simp add: free_set_def rest)
qed

lemma split_block_ref: "ref (pages (split_block k cur p st) q) = ref (pages st q)"
  by (induction k cur p st rule: split_block.induct)
    (auto simp: Let_def upd_page_def fl_add_def)

lemma alloc_from_ref: "ref (pages (snd (alloc_from k cur st)) q) = ref (pages st q)"
proof (induction k cur st rule: alloc_from.induct)
  case (1 k cur st)
  show ?case
    using 1 by (subst alloc_from.simps) (auto simp: upd_page_def split_block_ref fl_del_def split: list.split)
qed

lemma buddy_alloc_one_ref:
  assumes "buddy_alloc_pages 1 st = Some (r, st')"
  shows "ref (pages st' q) = ref (pages st q)"
proof -
  have "getorder 1 = Some 0" by (simp add: getorder_def getorder_from.simps)
  with assms have "st' = snd (alloc_from 0 0 st)"
    by (cases "alloc_from 0 0 st") (auto simp: buddy_alloc_pages_def buddy_alloc_pages_sub_def split: option.splits)
  then show ?thesis by (simp add: alloc_from_ref)
qed

lemma merge_block_ref: "ref (pages (snd (snd (merge_block z i k st))) q) = ref (pages st q)"
proof (induction z i k st rule: merge_block.induct)
  case (1 z i k st)
  show ?case
    using 1 by (subst merge_block.simps) (auto simp: upd_page_def fl_del_def Let_def)
qed

lemma buddy_free_one_ref:
  assumes "buddy_free_pages p 1 st = Some st'"
  shows "ref (pages st' q) = (if q = p then 0 else ref (pages st q))"
proof -
  let ?st1 = "upd_page p (\<lambda>pg. set_page_ref 0 (pg\<lparr>flags := 0\<rparr>)) st"
  obtain i k st2 where m: "merge_block (zone_num (pages ?st1 p)) (page2idx p st) 0 ?st1 = (i, k, st2)"
    using prod_cases3 by blast
  then have "ref (pages st2 q) = ref (pages ?st1 q)"
    using merge_block_ref [of "zone_num (pages ?st1 p)" "page2idx p st" 0 ?st1 q] by simp
  moreover have "ref (pages st' q) = ref (pages st2 q)"
    using assms m by (auto simp: buddy_free_pages_def buddy_free_pages_sub_def Let_def fl_add_def upd_page_def
        split: if_splits)
  ultimately show ?thesis by (simp add: upd_page_def)
qed

lemma buddy_alloc_one_fails:
  assumes "buddy_inv st" "buddy_alloc_pages 1 st = Some (None, st')"
  shows "free_set st = {}"
proof -
  have "getorder 1 = Some 0" by (simp add: getorder_def getorder_from.simps)
  then have "no_block_from 0 st" using buddy_alloc_pages_spec [OF assms(1), of 1] assms(2) by auto
  then show ?thesis by (auto simp: no_block_from_def in_free_set)
qed

interpretation bc: counted_pages buddy_inv buddy_alloc_pages buddy_free_pages buddy_nr_free_pages free_set region_ok
  "2 ^ MAX_ORDER" "\<lambda>st p. ref (pages st p)" "\<lambda>p v. upd_page p (set_page_ref v)"
proof (unfold_locales, goal_cases)
  case 1 show ?case by simp
next
  case (2 s s') then show ?case by (rule buddy_alloc_one_fails)
next
  case (3 s r s') then show ?case by (simp add: fun_eq_iff buddy_alloc_one_ref)
next
  case (4 p s s') then show ?case by (simp add: fun_eq_iff buddy_free_one_ref)
qed (simp_all add: fun_eq_iff, simp add: upd_page_def)

section \<open>Marks of page descriptors\<close>

lemma PageSlab_property [simp]: "PageSlab (p\<lparr>property := k\<rparr>) = PageSlab p"
  by (simp add: PageSlab_def)

lemma split_block_slab: "PageSlab (pages (split_block k cur p st) q) = PageSlab (pages st q)"
  by (induction k cur p st rule: split_block.induct)
    (auto simp: Let_def upd_page_def fl_add_def)

lemma alloc_from_slab: "PageSlab (pages (snd (alloc_from k cur st)) q) = PageSlab (pages st q)"
proof (induction k cur st rule: alloc_from.induct)
  case (1 k cur st)
  show ?case
    using 1 by (subst alloc_from.simps) (auto simp: upd_page_def split_block_slab fl_del_def split: list.split)
qed

lemma merge_block_slab: "PageSlab (pages (snd (snd (merge_block z i k st))) q) = PageSlab (pages st q)"
proof (induction z i k st rule: merge_block.induct)
  case (1 z i k st)
  show ?case
    using 1 by (subst merge_block.simps) (auto simp: upd_page_def fl_del_def Let_def)
qed

lemma release_descriptors_slab:
  "release_descriptors p n st = Some st' \<Longrightarrow> q \<notin> {p..<p + n} \<Longrightarrow> PageSlab (pages st' q) = PageSlab (pages st q)"
proof (induction n arbitrary: p st)
  case (Suc n)
  then have "PageSlab (pages st' q) = PageSlab (pages (upd_page p (\<lambda>pg. set_page_ref 0 (pg\<lparr>flags := 0\<rparr>)) st) q)"
    by (auto split: if_splits)
  then show ?case using Suc.prems(2) by (auto simp: upd_page_def)
qed simp

lemma buddy_free_pages_sub_slab:
  assumes "buddy_free_pages_sub base order st = Some st'" "q \<notin> {base..<base + 2 ^ order}"
  shows "PageSlab (pages st' q) = PageSlab (pages st q)"
proof -
  obtain st1 where r: "release_descriptors base (2 ^ order) st = Some st1"
    using assms(1) by (auto simp: buddy_free_pages_sub_def Let_def split: if_splits bind_splits)
  obtain i k st2 where m: "merge_block (zone_num (pages st1 base)) (page2idx base st) order st1 = (i, k, st2)"
    using prod_cases3 by blast
  have "PageSlab (pages st' q) = PageSlab (pages st2 q)"
    using assms(1) r m by (auto simp: buddy_free_pages_sub_def Let_def fl_add_def upd_page_def split: if_splits)
  then show ?thesis
    using merge_block_slab [of "zone_num (pages st1 base)" "page2idx base st" order st1 q] m release_descriptors_slab [OF r assms(2)] by simp
qed

lemma free_up_slab:
  "free_up order base n st = Some (order', base', n', st') \<Longrightarrow>
    base \<le> base' \<and> base' + n' = base + n \<and> (q \<notin> {base..<base + n} \<longrightarrow> PageSlab (pages st' q) = PageSlab (pages st q))"
proof (induction order base n st rule: free_up.induct)
  case (1 order base n st)
  show ?case
  proof (cases "2 ^ order \<le> n \<and> order \<le> MAX_ORDER \<and> page2idx base st AND 2 ^ order \<noteq> 0")
    case True
    then obtain st1 where s: "buddy_free_pages_sub base order st = Some st1" "free_up (Suc order) (base + 2 ^ order) (n - 2 ^ order) st1 = Some (order', base', n', st')"
      using "1.prems" by (subst (asm) free_up.simps) (auto split: option.splits)
    show ?thesis using "1.IH"(1) [OF _ _ _ s(1) s(2)] buddy_free_pages_sub_slab [OF s(1), of q] True by auto
  next
    case False
    then show ?thesis using "1.IH"(2) "1.prems" free_up.simps [of order base n st] by (auto split: if_splits)
  qed
qed

lemma free_down_slab:
  "free_down order base n st = Some st' \<Longrightarrow> q \<notin> {base..<base + n} \<Longrightarrow> PageSlab (pages st' q) = PageSlab (pages st q)"
proof (induction order base n st rule: free_down.induct)
  case (1 order base n st)
  consider "n = 0" | "n \<noteq> 0" "n < 2 ^ order" | "n \<noteq> 0" "\<not> n < 2 ^ order" by blast
  then show ?case
  proof cases
    case 3
    then obtain st1 where s: "buddy_free_pages_sub base order st = Some st1" "free_down order (base + 2 ^ order) (n - 2 ^ order) st1 = Some st'"
      using "1.prems"(1) by (subst (asm) free_down.simps) (auto split: option.splits)
    show ?thesis using "1.IH"(2) [OF 3 s(1,2)] buddy_free_pages_sub_slab [OF s(1), of q] 3 "1.prems"(2) by auto
  qed (use 1 free_down.simps [of order base n st] in auto)
qed

lemma buddy_free_pages_slab:
  assumes "buddy_free_pages p n st = Some st'" "q \<notin> {p..<p + n}"
  shows "PageSlab (pages st' q) = PageSlab (pages st q)"
proof (cases "n = 1")
  case True
  then show ?thesis using assms buddy_free_pages_sub_slab [of p 0 st st' q] by (simp add: buddy_free_pages_def)
next
  case False
  then obtain order base' n' st1 where s: "free_up 0 p n st = Some (order, base', n', st1)" "free_down order base' n' st1 = Some st'"
    using assms(1) by (auto simp: buddy_free_pages_def split: if_splits bind_splits)
  then show ?thesis using free_up_slab [OF s(1), of q] free_down_slab [OF s(2), of q] assms(2) by auto
qed

lemma buddy_alloc_pages_slab:
  assumes "buddy_inv st" "buddy_alloc_pages n st = Some (r, st')" "q \<notin> free_set st"
  shows "PageSlab (pages st' q) = PageSlab (pages st q)"
proof -
  have "n \<le> 2 ^ MAX_ORDER" using buddy_alloc_bounds [OF assms(2)] by simp
  then obtain k where k: "getorder n = Some k" "k \<le> MAX_ORDER" "n \<le> 2 ^ k" using getorder_spec by blast
  obtain r1 st1 where a: "alloc_from k k st = (r1, st1)" by (cases "alloc_from k k st")
  have s1: "PageSlab (pages st1 q) = PageSlab (pages st q)" using alloc_from_slab [of k k st q] a by simp
  show ?thesis
  proof (cases "st' = st1")
    case False
    then obtain p where p: "r1 = Some p" "buddy_free_pages (p + n) (2 ^ k - n) st1 = Some st'"
      using assms(2) k(1,2) a by (auto simp: buddy_alloc_pages_def buddy_alloc_pages_sub_def split: if_splits option.splits bind_splits)
    then have "block p k \<subseteq> free_set st" using alloc_from_spec [OF assms(1), of k k] k(2) a by auto
    then have "q \<notin> block p k" using assms(3) by blast
    then have "q \<notin> {p + n..<p + n + (2 ^ k - n)}" using k(3) by (auto simp: block_def)
    then show ?thesis using buddy_free_pages_slab [OF p(2)] s1 by blast
  qed (simp add: s1)
qed

definition mark_slab :: "nat \<Rightarrow> bool \<Rightarrow> buddy \<Rightarrow> buddy" where
  "mark_slab p v = upd_page p (if v then SetPageSlab else ClearPageSlab)"

lemma mark_slab_inv:
  "buddy_inv (mark_slab p v st) = buddy_inv st" "free_set (mark_slab p v st) = free_set st" "region_ok (mark_slab p v st) = region_ok st"
proof -
  let ?st = "mark_slab p v st"
  have same: "PageReserved (pages ?st q) = PageReserved (pages st q)" "PageProperty (pages ?st q) = PageProperty (pages st q)"
    "property (pages ?st q) = property (pages st q)" "zone_num (pages ?st q) = zone_num (pages st q)" for q
    by (simp_all add: mark_slab_def upd_page_def)
  have rest: "npage ?st = npage st" "free_list ?st = free_list st" "nr_free ?st = nr_free st" "zones ?st = zones st"
    by (simp_all add: mark_slab_def upd_page_def)
  show "region_ok ?st = region_ok st"
    by (intro ext) (simp add: region_ok_def same rest)
  then show "buddy_inv ?st = buddy_inv st"
    by (simp add: buddy_inv_defs block_ok_def page2idx_def buddies_def same rest)
  show "free_set ?st = free_set st" by (simp add: free_set_def rest)
qed

interpretation bs: marked_pages buddy_inv buddy_alloc_pages buddy_free_pages buddy_nr_free_pages free_set region_ok
  "2 ^ MAX_ORDER" "\<lambda>st p. PageSlab (pages st p)" mark_slab npage
proof (unfold_locales, goal_cases)
  case (1 s n r s' q)
  have "npage s' = npage s"
    using buddy_alloc_pages_spec [OF 1(1), of n] buddy_alloc_bounds [OF 1(2)] 1(2) by (auto simp: same_frame_def)
  then show ?case using buddy_alloc_pages_slab [OF 1] by blast
next
  case (2 s p n s' q)
  have "n < 2 ^ Suc MAX_ORDER" using 2(5) by simp
  then have "npage s' = npage s" using buddy_free_pages_spec [OF 2(1-4)] 2(6) by (auto simp: freed_def same_frame_def)
  then show ?case using buddy_free_pages_slab [OF 2(6)] by blast
next
  case (3 s p n)
  then have "p + n - 1 \<in> {p..<p + n}" by auto
  then have "p + n - 1 < npage s" using 3(1) by (auto simp: region_ok_def)
  then show ?case by simp
qed (simp_all add: mark_slab_inv, auto simp: mark_slab_def upd_page_def)

section \<open>A small machine\<close>

text \<open>Six pages, all reserved at first, given to the allocator as one zone.\<close>

definition reserved_machine :: buddy where
  "reserved_machine = \<lparr>pages = (\<lambda>_. \<lparr>ref = 0, flags = 1, property = 0, zone_num = 0\<rparr>), npage = 6,
     free_list = (\<lambda>_. []), nr_free = (\<lambda>_. 0), zones = (\<lambda>_. 0), zone_cnt = 0\<rparr>"

definition small_machine :: buddy where
  "small_machine = the (buddy_init_memmap 0 6 (buddy_init reserved_machine))"

lemma reserved_machine_reserved: "PageReserved (pages reserved_machine q)"
  by (simp add: reserved_machine_def PageReserved_def test_bit_w_def test_bit_arr_iff)

lemma reserved_machine_simps [simp]:
  "npage (buddy_init reserved_machine) = 6" "zone_cnt (buddy_init reserved_machine) = 0"
  "pages (buddy_init reserved_machine) = pages reserved_machine"
  by (simp_all add: buddy_init_def reserved_machine_def)

lemma small_machine_spec:
  "buddy_init_memmap 0 6 (buddy_init reserved_machine) = Some small_machine" "buddy_inv small_machine"
  "free_set small_machine = {0..<6}" "region_ok small_machine 0 6"
proof -
  note i = buddy_init_inv [of reserved_machine]
  have "\<exists>st'. buddy_init_memmap 0 6 (buddy_init reserved_machine) = Some st' \<and> buddy_inv st' \<and> zones_ok st'
    \<and> free_set st' = free_set (buddy_init reserved_machine) \<union> {0..<0 + 6} \<and> region_ok st' 0 6"
    using i by (intro buddy_init_memmap_spec) (simp_all add: reserved_machine_reserved)
  then show "buddy_init_memmap 0 6 (buddy_init reserved_machine) = Some small_machine" "buddy_inv small_machine"
    "free_set small_machine = {0..<6}" "region_ok small_machine 0 6"
    using i(3) by (auto simp: reserved_machine_reserved small_machine_def)
qed

lemma small_machine_alloc: "map_option fst (buddy_alloc_pages 3 small_machine) = Some (Some 0)"
  by code_simp

section \<open>Properties\<close>

text \<open>
  C1: allocation is correct on every state of the invariant. For \<open>1 \<le> n \<le> 1024\<close> the
  allocator does not panic; either it returns \<^verbatim>\<open>NULL\<close> with the state unchanged, and then no
  free block of a sufficient order exists, or it returns a run of exactly \<open>n\<close> pages that were
  free, lie in one zone and start at a multiple of the rounded-up power of two; afterwards
  exactly these pages are no longer free and the invariant (aligned, disjoint, correctly
  flagged and counted free blocks, no two free buddies) holds again.
\<close>

theorem buddy_alloc_correct:
  assumes "buddy_inv st" "0 < n" "n \<le> 2 ^ MAX_ORDER"
  shows "\<exists>k. getorder n = Some k \<and>
    ((buddy_alloc_pages n st = Some (None, st) \<and> no_block_from k st)
     \<or> (\<exists>p st'. buddy_alloc_pages n st = Some (Some p, st') \<and> buddy_inv st'
          \<and> region_ok st p n \<and> 2 ^ k dvd page2idx p st
          \<and> {p..<p + n} \<subseteq> free_set st \<and> free_set st' = free_set st - {p..<p + n}))"
  using buddy_alloc_pages_spec [OF assms] by blast

theorem buddy_alloc_correct_witness:
  "\<exists>st'. buddy_alloc_pages 3 small_machine = Some (Some 0, st') \<and> buddy_inv st' \<and> free_set st' = {3..<6}"
proof -
  have "\<exists>k. getorder 3 = Some k \<and>
    ((buddy_alloc_pages 3 small_machine = Some (None, small_machine) \<and> no_block_from k small_machine)
     \<or> (\<exists>p st'. buddy_alloc_pages 3 small_machine = Some (Some p, st') \<and> buddy_inv st'
          \<and> region_ok small_machine p 3 \<and> 2 ^ k dvd page2idx p small_machine
          \<and> {p..<p + 3} \<subseteq> free_set small_machine \<and> free_set st' = free_set small_machine - {p..<p + 3}))"
    by (rule buddy_alloc_correct [OF small_machine_spec(2)]) simp_all
  then obtain st' where "buddy_alloc_pages 3 small_machine = Some (Some 0, st')" "buddy_inv st'"
    "free_set st' = free_set small_machine - {0..<3}"
    using small_machine_alloc by auto
  moreover have "{0..<6} - {0..<3} = {3..<6::nat}" by auto
  ultimately show ?thesis
    by (simp add: small_machine_spec(3))
qed

text \<open>
  C2: freeing is correct and total. A run of \<open>1 \<le> n < 2048\<close> pages inside one zone, none of
  which is free, is returned without a panic, whatever its alignment: the two loops cut it
  into aligned blocks, each merged with its buddies as far as possible; afterwards exactly
  these pages have been added to the free ones and the invariant holds.
\<close>

theorem buddy_free_correct:
  assumes "buddy_inv st" "region_ok st base n" "{base..<base + n} \<inter> free_set st = {}" "0 < n" "n < 2 ^ Suc MAX_ORDER"
  shows "\<exists>st'. buddy_free_pages base n st = Some st' \<and> buddy_inv st' \<and> free_set st' = free_set st \<union> {base..<base + n}
    \<and> buddy_nr_free_pages st' = buddy_nr_free_pages st + of_nat n"
proof -
  obtain st' where st': "buddy_free_pages base n st = Some st'" "freed st {base..<base + n} st'"
    using buddy_free_pages_spec [OF assms] by blast
  have "card (free_set st') = card (free_set st) + n"
    using st'(2) card_Un_disjoint [of "free_set st" "{base..<base + n}"] assms(3) by (simp add: freed_def Int_commute)
  then show ?thesis
    using st' assms(1) by (simp add: freed_def buddy_nr_free_pages_card)
qed

text \<open>Freeing the middle three pages, which start at an odd index, of a machine whose pages are all in use.\<close>

theorem buddy_free_correct_witness:
  "\<exists>st p st1. buddy_alloc_pages 4 small_machine = Some (Some p, st) \<and> buddy_free_pages (p + 1) 3 st = Some st1
    \<and> buddy_inv st1"
proof -
  have "map_option fst (buddy_alloc_pages 4 small_machine) = Some (Some 0)" by code_simp
  then obtain st where st: "buddy_alloc_pages 4 small_machine = Some (Some 0, st)" by auto
  note a = bm.alloc_Some [OF small_machine_spec(2) st]
  have "region_ok st 1 3"
    using region_ok_sub [of small_machine 0 4 1 3] a(2,3) by simp
  moreover have "{1..<1 + 3} \<inter> free_set st = {}" using a(5) by auto
  ultimately have "\<exists>st1. buddy_free_pages 1 3 st = Some st1 \<and> buddy_inv st1
    \<and> free_set st1 = free_set st \<union> {1..<1 + 3} \<and> buddy_nr_free_pages st1 = buddy_nr_free_pages st + of_nat 3"
    by (intro buddy_free_correct [OF a(1)]) simp_all
  with st show ?thesis by auto
qed

text \<open>
  Exactly which requests make the allocator panic: those for no page (the assertion) and
  those for more than 1024 pages (\<^verbatim>\<open>getorder\<close>). Running out of memory is not one of them.
\<close>

theorem buddy_alloc_panics:
  assumes "buddy_inv st"
  shows "buddy_alloc_pages n st = None \<longleftrightarrow> n = 0 \<or> 2 ^ MAX_ORDER < n"
proof
  assume "buddy_alloc_pages n st = None"
  then show "n = 0 \<or> 2 ^ MAX_ORDER < n"
    using buddy_alloc_pages_spec [OF assms, of n] by force
next
  assume "n = 0 \<or> 2 ^ MAX_ORDER < n"
  then show "buddy_alloc_pages n st = None"
    using buddy_alloc_bounds [of n st] by (cases "buddy_alloc_pages n st") auto
qed

theorem buddy_alloc_panics_witness:
  "buddy_alloc_pages 1025 small_machine = None \<and> buddy_alloc_pages 7 small_machine \<noteq> None"
  using buddy_alloc_panics [OF small_machine_spec(2), of 1025]
    buddy_alloc_panics [OF small_machine_spec(2), of 7] by simp

text \<open>
  C33: setting up a zone. Handing a run of reserved pages to \<^verbatim>\<open>buddy_init_memmap\<close> adds exactly
  these pages to the free ones, and the invariant holds again, with no two free buddies.
\<close>

theorem buddy_init_memmap_correct:
  assumes "buddy_inv st" "zones_ok st" "0 < n" "base + n \<le> npage st" "zone_cnt st < MAX_ZONE_NUM"
    and "\<forall>q\<in>{base..<base + n}. PageReserved (pages st q)"
  shows "\<exists>st'. buddy_init_memmap base n st = Some st' \<and> buddy_inv st' \<and> zones_ok st'
    \<and> free_set st' = free_set st \<union> {base..<base + n} \<and> region_ok st' base n"
  using assms by (rule buddy_init_memmap_spec)

theorem buddy_init_memmap_correct_witness:
  "\<exists>st'. buddy_init_memmap 1 5 (buddy_init reserved_machine) = Some st' \<and> buddy_inv st' \<and> free_set st' = {1..<6}"
proof -
  note i = buddy_init_inv [of reserved_machine]
  have "\<exists>st'. buddy_init_memmap 1 5 (buddy_init reserved_machine) = Some st' \<and> buddy_inv st' \<and> zones_ok st'
    \<and> free_set st' = free_set (buddy_init reserved_machine) \<union> {1..<1 + 5} \<and> region_ok st' 1 5"
    using i by (intro buddy_init_memmap_correct) (simp_all add: reserved_machine_reserved)
  then show ?thesis using i(3) by (auto simp: reserved_machine_reserved)
qed

text \<open>
  C34: allocating and giving back is the identity on what is free: after \<^verbatim>\<open>alloc_pages(n)\<close>
  returned \<open>p\<close>, \<^verbatim>\<open>free_pages(p, n)\<close> succeeds and restores the set of free pages and the
  count that \<^verbatim>\<open>nr_free_pages\<close> reports.
\<close>

theorem buddy_alloc_free_roundtrip:
  assumes "buddy_inv st" "buddy_alloc_pages n st = Some (Some p, st')"
  shows "\<exists>st''. buddy_free_pages p n st' = Some st'' \<and> buddy_inv st'' \<and> free_set st'' = free_set st
    \<and> buddy_nr_free_pages st'' = buddy_nr_free_pages st"
  by (rule bm.alloc_free_roundtrip [OF assms]) blast

theorem buddy_alloc_free_roundtrip_witness:
  "\<exists>st' st''. buddy_alloc_pages 3 small_machine = Some (Some 0, st') \<and> buddy_free_pages 0 3 st' = Some st''
    \<and> free_set st'' = {0..<6}"
proof -
  obtain st' where st': "buddy_alloc_pages 3 small_machine = Some (Some 0, st')"
    using small_machine_alloc by auto
  with buddy_alloc_free_roundtrip [OF small_machine_spec(2) this] small_machine_spec(3) show ?thesis
    by auto
qed

text \<open>
  C7: isolation over every sequence of allocations and frees. Starting from a state of the
  invariant, in every reachable state the runs handed out are pairwise disjoint and disjoint
  from the free pages, no page is lost, and giving back an owned run cannot panic.
\<close>

theorem pmm_reachable_isolated:
  assumes "buddy_inv st0" "pmm_reachable st0 (st, own)"
  shows "(\<forall>r\<in>own. \<forall>r'\<in>own. r \<noteq> r' \<longrightarrow> run_set r \<inter> run_set r' = {})
    \<and> free_set st \<union> (\<Union>r\<in>own. run_set r) = free_set st0
    \<and> (\<forall>r\<in>own. run_set r \<inter> free_set st = {} \<and> (\<exists>st'. buddy_free_pages (fst r) (snd r) st = Some st'))"
proof -
  have ok: "owned_ok (free_set st0) (st, own)"
    using reachable_owned_ok [OF assms(2,1)] .
  have "\<exists>st'. buddy_free_pages (fst r) (snd r) st = Some st'" if "r \<in> own" for r
  proof -
    have "\<forall>r\<in>own. run_set r \<inter> free_set st = {}" using ok by (simp add: owned_ok_def)
    with that have "{fst r..<fst r + snd r} \<inter> free_set st = {}" unfolding run_set_def by blast
    then show ?thesis
      using bm.free_law [of st "fst r" "snd r"] ok that by (fastforce simp: owned_ok_def)
  qed
  with ok show ?thesis by (simp add: owned_ok_def)
qed

theorem pmm_reachable_isolated_witness:
  "\<exists>st. pmm_reachable small_machine (st, {(0, 3)}) \<and> (\<exists>st'. buddy_free_pages 0 3 st = Some st')"
proof -
  obtain st where "buddy_alloc_pages 3 small_machine = Some (Some 0, st)"
    using small_machine_alloc by auto
  then have "pmm_reachable small_machine (st, {(0, 3)})"
    using reach_step [OF reach_start step_alloc] by simp
  with pmm_reachable_isolated [OF small_machine_spec(2) this] show ?thesis by auto
qed

end
