(* ===== verification/Mmu.thy ===== *)
theory Mmu
  imports Prelude
begin

unbundle bit_operations_syntax

text \<open>
  Address arithmetic and descriptor formats of the i386 MMU: \<^verbatim>\<open>arch/x86/include/mmu.h\<close>, the
  layout constants of \<^verbatim>\<open>arch/x86/generic/include/memlayout.h\<close> and the GDT of
  \<^verbatim>\<open>arch/x86/pmm.c\<close>. Linear and physical addresses are 32-bit words; indices into page
  directories, page tables and the array of page descriptors are natural numbers. Bit fields of
  a descriptor are words of their width, so that an assignment truncates as in C.
\<close>

section \<open>Definitions\<close>

definition PDX :: "u32 \<Rightarrow> nat" where
  "PDX la = unat (drop_bit 22 la AND 0x3FF)"

definition PTX :: "u32 \<Rightarrow> nat" where
  "PTX la = unat (drop_bit 12 la AND 0x3FF)"

definition PPN :: "u32 \<Rightarrow> nat" where
  "PPN la = unat (drop_bit 12 la)"

definition PGOFF :: "u32 \<Rightarrow> u32" where
  "PGOFF la = la AND 0xFFF"

definition PGADDR :: "nat \<Rightarrow> nat \<Rightarrow> u32 \<Rightarrow> u32" where
  "PGADDR d t off = push_bit 22 (of_nat d) OR push_bit 12 (of_nat t) OR off"

definition PTE_ADDR :: "u32 \<Rightarrow> u32" where
  "PTE_ADDR pte = pte AND NOT 0xFFF"

definition PDE_ADDR :: "u32 \<Rightarrow> u32" where
  "PDE_ADDR pde = PTE_ADDR pde"

abbreviation (input) PGSIZE :: u32 where "PGSIZE \<equiv> 4096"
abbreviation (input) PTSIZE :: u32 where "PTSIZE \<equiv> 4194304"
abbreviation (input) NPDEENTRY :: nat where "NPDEENTRY \<equiv> 1024"
abbreviation (input) NPTEENTRY :: nat where "NPTEENTRY \<equiv> 1024"
abbreviation (input) PTE_P :: u32 where "PTE_P \<equiv> 1"
abbreviation (input) PTE_W :: u32 where "PTE_W \<equiv> 2"
abbreviation (input) PTE_U :: u32 where "PTE_U \<equiv> 4"
abbreviation (input) PTE_USER :: u32 where "PTE_USER \<equiv> 7"

abbreviation (input) KERNBASE :: u32 where "KERNBASE \<equiv> 0xC0000000"
abbreviation (input) KMEMSIZE :: u32 where "KMEMSIZE \<equiv> 0x38000000"
abbreviation (input) KERNTOP :: u32 where "KERNTOP \<equiv> 0xF8000000"
abbreviation (input) VPT :: u32 where "VPT \<equiv> 0xFAC00000"
abbreviation (input) USERTOP :: u32 where "USERTOP \<equiv> 0xB0000000"
abbreviation (input) USERBASE :: u32 where "USERBASE \<equiv> 0x00200000"

definition USER_ACCESS :: "u32 \<Rightarrow> u32 \<Rightarrow> bool" where
  "USER_ACCESS start end \<longleftrightarrow> USERBASE \<le> start \<and> start < end \<and> end \<le> USERTOP"

definition KERN_ACCESS :: "u32 \<Rightarrow> u32 \<Rightarrow> bool" where
  "KERN_ACCESS start end \<longleftrightarrow> KERNBASE \<le> start \<and> start < end \<and> end \<le> KERNTOP"

subsection \<open>Gates and segments\<close>

record gatedesc =
  gd_off_15_0 :: "16 word"
  gd_ss :: "16 word"
  gd_args :: "5 word"
  gd_rsv1 :: "3 word"
  gd_type :: "4 word"
  gd_s :: "1 word"
  gd_dpl :: "2 word"
  gd_p :: "1 word"
  gd_off_31_16 :: "16 word"

definition SETGATE :: "bool \<Rightarrow> u16 \<Rightarrow> u32 \<Rightarrow> nat \<Rightarrow> gatedesc" where
  "SETGATE istrap ss off dpl = \<lparr>gd_off_15_0 = ucast (off AND 0xffff), gd_ss = ss, gd_args = 0, gd_rsv1 = 0,
     gd_type = (if istrap then 0xF else 0xE), gd_s = 0, gd_dpl = of_nat dpl, gd_p = 1,
     gd_off_31_16 = ucast (drop_bit 16 off)\<rparr>"

definition SETCALLGATE :: "u16 \<Rightarrow> u32 \<Rightarrow> nat \<Rightarrow> gatedesc" where
  "SETCALLGATE ss off dpl = \<lparr>gd_off_15_0 = ucast (off AND 0xffff), gd_ss = ss, gd_args = 0, gd_rsv1 = 0,
     gd_type = 0xC, gd_s = 0, gd_dpl = of_nat dpl, gd_p = 1, gd_off_31_16 = ucast (drop_bit 16 off)\<rparr>"

record segdesc =
  sd_lim_15_0 :: "16 word"
  sd_base_15_0 :: "16 word"
  sd_base_23_16 :: "8 word"
  sd_type :: "4 word"
  sd_s :: "1 word"
  sd_dpl :: "2 word"
  sd_p :: "1 word"
  sd_lim_19_16 :: "4 word"
  sd_avl :: "1 word"
  sd_rsv1 :: "1 word"
  sd_db :: "1 word"
  sd_g :: "1 word"
  sd_base_31_24 :: "8 word"

definition SEG_NULL :: segdesc where
  "SEG_NULL = \<lparr>sd_lim_15_0 = 0, sd_base_15_0 = 0, sd_base_23_16 = 0, sd_type = 0, sd_s = 0, sd_dpl = 0, sd_p = 0,
     sd_lim_19_16 = 0, sd_avl = 0, sd_rsv1 = 0, sd_db = 0, sd_g = 0, sd_base_31_24 = 0\<rparr>"

definition SEG :: "4 word \<Rightarrow> u32 \<Rightarrow> u32 \<Rightarrow> nat \<Rightarrow> segdesc" where
  "SEG type base lim dpl = \<lparr>sd_lim_15_0 = ucast (drop_bit 12 lim AND 0xffff), sd_base_15_0 = ucast (base AND 0xffff),
     sd_base_23_16 = ucast (drop_bit 16 base AND 0xff), sd_type = type, sd_s = 1, sd_dpl = of_nat dpl, sd_p = 1,
     sd_lim_19_16 = ucast (drop_bit 28 lim), sd_avl = 0, sd_rsv1 = 0, sd_db = 1, sd_g = 1,
     sd_base_31_24 = ucast (drop_bit 24 base)\<rparr>"

definition SEGTSS :: "4 word \<Rightarrow> u32 \<Rightarrow> u32 \<Rightarrow> nat \<Rightarrow> segdesc" where
  "SEGTSS type base lim dpl = \<lparr>sd_lim_15_0 = ucast (lim AND 0xffff), sd_base_15_0 = ucast (base AND 0xffff),
     sd_base_23_16 = ucast (drop_bit 16 base AND 0xff), sd_type = type, sd_s = 0, sd_dpl = of_nat dpl, sd_p = 1,
     sd_lim_19_16 = ucast (drop_bit 16 lim), sd_avl = 0, sd_rsv1 = 0, sd_db = 1, sd_g = 0,
     sd_base_31_24 = ucast (drop_bit 24 base)\<rparr>"

text \<open>The fields of the task state segment that the kernel sets.\<close>

record taskstate =
  ts_esp0 :: u32
  ts_ss0 :: u16

abbreviation (input) SEG_KTEXT :: nat where "SEG_KTEXT \<equiv> 1"
abbreviation (input) SEG_KDATA :: nat where "SEG_KDATA \<equiv> 2"
abbreviation (input) SEG_UTEXT :: nat where "SEG_UTEXT \<equiv> 3"
abbreviation (input) SEG_UDATA :: nat where "SEG_UDATA \<equiv> 4"
abbreviation (input) SEG_TSS :: nat where "SEG_TSS \<equiv> 5"
abbreviation (input) KERNEL_DS :: u16 where "KERNEL_DS \<equiv> 0x10"

definition gdt :: "segdesc list" where
  "gdt = [SEG_NULL, SEG 0xA 0 0xFFFFFFFF 0, SEG 0x2 0 0xFFFFFFFF 0, SEG 0xA 0 0xFFFFFFFF 3, SEG 0x2 0 0xFFFFFFFF 3, SEG_NULL]"

definition load_esp0 :: "u32 \<Rightarrow> taskstate \<Rightarrow> taskstate" where
  "load_esp0 esp0 ts = ts\<lparr>ts_esp0 := esp0\<rparr>"

text \<open>
  \<^verbatim>\<open>gdt_init\<close>: the addresses of the boot stack top and of the TSS, and its size, are the linker's;
  loading the segment and task registers is not modelled.
\<close>

definition gdt_init :: "u32 \<Rightarrow> u32 \<Rightarrow> u32 \<Rightarrow> segdesc list \<times> taskstate \<Rightarrow> segdesc list \<times> taskstate" where
  "gdt_init bootstacktop ts_addr ts_size = (\<lambda>(g, ts).
     (g[SEG_TSS := SEGTSS 0x9 ts_addr ts_size 0], (load_esp0 bootstacktop ts)\<lparr>ts_ss0 := KERNEL_DS\<rparr>))"

section \<open>How the processor reads a descriptor\<close>

definition gate_offset :: "gatedesc \<Rightarrow> u32" where
  "gate_offset g = push_bit 16 (ucast (gd_off_31_16 g)) OR ucast (gd_off_15_0 g)"

definition seg_base :: "segdesc \<Rightarrow> u32" where
  "seg_base s = push_bit 24 (ucast (sd_base_31_24 s)) OR push_bit 16 (ucast (sd_base_23_16 s)) OR ucast (sd_base_15_0 s)"

text \<open>The limit field counts bytes, or pages when the granularity bit is set.\<close>

definition seg_limit :: "segdesc \<Rightarrow> u32" where
  "seg_limit s = (let lim = push_bit 16 (ucast (sd_lim_19_16 s)) OR ucast (sd_lim_15_0 s) :: u32
     in if sd_g s = 1 then push_bit 12 lim OR 0xFFF else lim)"

section \<open>Lemmas\<close>

lemma mask_bits: "(0x3FF :: u32) = mask 10" "(0xFFF :: u32) = mask 12" "(0xffff :: u32) = mask 16" "(0xff :: u32) = mask 8"
  by (simp_all add: mask_eq_exp_minus_1)

lemma PPN_eq: "PPN la = unat la div 4096"
  by (simp add: PPN_def drop_bit_eq_div unat_div)

lemma PTX_eq: "PTX la = unat la div 4096 mod 1024"
  by (simp add: PTX_def mask_bits take_bit_eq_mask [symmetric] take_bit_eq_mod drop_bit_eq_div unat_div unat_mod)

lemma PDX_eq: "PDX la = unat la div 4194304"
proof -
  have "unat la div 4194304 < 1024" using unat_u32_less [of la] by (simp del: unat_u32_less)
  then show ?thesis
    by (simp add: PDX_def mask_bits take_bit_eq_mask [symmetric] take_bit_eq_mod drop_bit_eq_div unat_div unat_mod)
qed

lemma PDX_PPN: "PDX la = PPN la div 1024" and PTX_PPN: "PTX la = PPN la mod 1024"
  by (simp_all add: PDX_eq PPN_eq PTX_eq div_mult2_eq [symmetric])

lemma index_bounds [simp]: "PDX la < 1024" "PTX la < 1024" "PPN la < 1048576"
  using unat_u32_less [of la] by (simp_all add: PDX_eq PTX_eq PPN_eq del: unat_u32_less)


lemma ADDR_bits: "bit (PTE_ADDR x) n \<longleftrightarrow> 12 \<le> n \<and> bit x n"
  by (auto simp: PTE_ADDR_def mask_bits bit_simps dest: bit_imp_le_length)

lemma PPN_bits: "PPN x = PPN y \<longleftrightarrow> (\<forall>n\<ge>12. bit x n = bit y n)"
proof -
  have lim: "bit z (12 + n) \<Longrightarrow> n < 32" for z :: u32 and n
    using bit_imp_le_length [of z "12 + n"] by simp
  have "PPN x = PPN y \<longleftrightarrow> drop_bit 12 x = drop_bit 12 y"
    by (simp add: PPN_def word_eq_iff_unsigned [where ?'a = nat])
  also have "\<dots> \<longleftrightarrow> (\<forall>n. bit x (12 + n) = bit y (12 + n))"
    using lim by (auto simp: bit_eq_iff bit_drop_bit_eq)
  also have "\<dots> \<longleftrightarrow> (\<forall>n\<ge>12. bit x n = bit y n)" by (metis le_add1 le_iff_add)
  finally show ?thesis .
qed

lemma PPN_PTE_ADDR [simp]: "PPN (PTE_ADDR x) = PPN x"
  by (simp add: PPN_bits ADDR_bits)

lemma PPN_low_bits:
  assumes "flags < 4096"
  shows "PPN (x OR flags) = PPN x"
proof -
  have "take_bit 12 flags = flags" using assms
    by (simp add: take_bit_eq_mod word_eq_iff_unsigned [where ?'a = nat] unat_mod word_less_nat_alt)
  then have "\<not> bit flags n" if "12 \<le> n" for n using that by (metis bit_take_bit_iff not_less)
  then show ?thesis by (auto simp: PPN_bits bit_or_iff)
qed


lemma frame_addr:
  assumes "p < 1048576"
  shows "unat (push_bit 12 (of_nat p) :: u32) = p * 4096" "PPN (push_bit 12 (of_nat p)) = p"
proof -
  show u: "unat (push_bit 12 (of_nat p) :: u32) = p * 4096"
    using assms by (simp add: push_bit_eq_mult unat_word_ariths unat_of_nat take_bit_eq_mod)
  show "PPN (push_bit 12 (of_nat p)) = p" unfolding PPN_eq u by simp
qed

lemma flag_of_frame_addr:
  assumes "f < 4096"
  shows "(push_bit 12 x OR f) AND 1 = f AND (1 :: u32)" "(push_bit 12 x OR f) AND 2 = f AND (2 :: u32)"
    "(push_bit 12 x OR f) AND 7 = f AND (7 :: u32)"
proof -
  have "(7 :: u32) = mask 3" by (simp add: mask_eq_exp_minus_1)
  then have 7: "push_bit 12 x AND 7 = (0 :: u32)"
    by (simp only: take_bit_eq_mask [symmetric]) (simp add: take_bit_push_bit)
  have "push_bit 12 x AND k = (push_bit 12 x AND 7) AND k" if "7 AND k = k" for k :: u32
    using that by (simp add: and.assoc)
  from this [of 1] this [of 2] 7 have "push_bit 12 x AND 1 = (0 :: u32)" "push_bit 12 x AND 2 = (0 :: u32)"
    by simp_all
  with 7 show "(push_bit 12 x OR f) AND 1 = f AND (1 :: u32)" "(push_bit 12 x OR f) AND 2 = f AND (2 :: u32)"
    "(push_bit 12 x OR f) AND 7 = f AND (7 :: u32)"
    by (simp_all add: bit.conj_disj_distrib2)
qed

lemma low_bits: "x < 2 ^ k \<Longrightarrow> k < 32 \<Longrightarrow> bit (x :: u32) n \<Longrightarrow> n < k"
proof -
  assume x: "x < 2 ^ k" and k: "k < 32" and b: "bit x n"
  have "unat x < 2 ^ k" using x k by (simp add: word_less_nat_alt unat_power_2)
  then have "take_bit k (unat x) = unat x" by (simp add: take_bit_eq_mod)
  then have "bit (take_bit k (unat x)) n" using b by (simp add: bit_unsigned_iff)
  then show "n < k" by (simp add: bit_take_bit_iff)
qed

lemma unat_PGADDR:
  assumes "d < 1024" "t < 1024" "off < 4096"
  shows "unat (PGADDR d t off) = d * 4194304 + t * 4096 + unat off"
proof -
  have t: "bit t n \<Longrightarrow> n < 10" for n
    using low_bits [of "of_nat t" 10 n] assms(2) bit_take_bit_iff [of 10 t n]
    by (simp add: take_bit_eq_mod)
  have off: "bit off n \<Longrightarrow> n < 12" for n
    using low_bits [of off 12 n] assms(3) by simp
  have "push_bit 12 (of_nat t) AND off = 0"
    by (rule bit_word_eqI) (auto simp: bit_simps dest: off)
  then have 1: "push_bit 12 (of_nat t) OR off = push_bit 12 (of_nat t) + off"
    by (simp add: disjunctive_add_eq_or)
  have "push_bit 22 (of_nat d) AND (push_bit 12 (of_nat t) OR off) = 0"
    by (rule bit_word_eqI) (auto simp: bit_simps dest: off t)
  then have "PGADDR d t off = push_bit 22 (of_nat d) + (push_bit 12 (of_nat t) + off)"
    by (simp add: PGADDR_def or.assoc disjunctive_add_eq_or 1)
  then show ?thesis
    using assms by (simp add: push_bit_eq_mult unat_word_ariths unat_of_nat take_bit_eq_mod word_less_nat_alt)
qed

lemma split_parts:
  fixes d t off :: nat
  assumes "t < 1024" "off < 4096"
  shows "(d * 4194304 + t * 4096 + off) div 4096 = d * 1024 + t" "(d * 4194304 + t * 4096 + off) mod 4096 = off"
proof -
  have eq: "d * 4194304 + t * 4096 + off = off + (d * 1024 + t) * 4096" by simp
  show "(d * 4194304 + t * 4096 + off) div 4096 = d * 1024 + t" using assms by simp
  show "(d * 4194304 + t * 4096 + off) mod 4096 = off"
    unfolding eq using assms by (simp only: mod_mult_self1) simp
qed

section \<open>Properties\<close>

text \<open>
  splitting a linear address and putting it together are inverse. \<^verbatim>\<open>PGADDR\<close> of the three parts
  of an address is the address, and of parts in their range it is the address with exactly these
  parts; the page number is the pair of the two indices.
\<close>

theorem PGADDR_roundtrip:
  assumes "d < 1024" "t < 1024" "off < 4096"
  shows "PGADDR (PDX la) (PTX la) (PGOFF la) = la
    \<and> PDX (PGADDR d t off) = d \<and> PTX (PGADDR d t off) = t \<and> PGOFF (PGADDR d t off) = off
    \<and> PPN (PGADDR d t off) = d * 1024 + t"
proof (intro conjI)
  show "PGADDR (PDX la) (PTX la) (PGOFF la) = la"
    by (rule bit_word_eqI, rename_tac n, case_tac "n < 22")
      (auto simp: PGADDR_def PDX_def PTX_def PGOFF_def mask_bits bit_simps)
  note u = unat_PGADDR [OF assms]
  show "PDX (PGADDR d t off) = d" "PTX (PGADDR d t off) = t" "PPN (PGADDR d t off) = d * 1024 + t"
    using assms by (simp_all add: PDX_eq PTX_PPN PPN_eq u word_less_nat_alt split_parts)
  show "PGOFF (PGADDR d t off) = off"
    using assms(3) u
    by (simp add: PGOFF_def mask_bits take_bit_eq_mask [symmetric] take_bit_eq_mod
        word_eq_iff_unsigned [where ?'a = nat] unat_mod word_less_nat_alt split_parts [OF assms(2)])
qed

theorem PGADDR_roundtrip_witness:
  "PGADDR (PDX VPT) (PDX VPT) 0 = 0xFAFEB000 \<and> PDX (PGADDR 768 5 12) = 768 \<and> PTX (PGADDR 768 5 12) = 5
    \<and> PGOFF (PGADDR 768 5 12) = 12"
  using PGADDR_roundtrip [of 768 5 12] by (simp add: PDX_def PGADDR_def)

text \<open>
  the processor reads back from a descriptor what was put in. A gate made by \<^verbatim>\<open>SETGATE\<close> has the
  handler's offset; a segment made by \<^verbatim>\<open>SEG\<close> has the given base and, in units of pages, the given
  limit, and one made by \<^verbatim>\<open>SEGTSS\<close> the byte limit, as long as that fits into its 20 bits.
\<close>

theorem descriptor_roundtrip:
  "gate_offset (SETGATE istrap ss off dpl) = off \<and> gate_offset (SETCALLGATE ss off dpl) = off
    \<and> seg_base (SEG type base lim dpl) = base \<and> seg_base (SEGTSS type base lim dpl) = base
    \<and> seg_limit (SEG type base lim dpl) = lim OR 0xFFF
    \<and> seg_limit (SEGTSS type base lim dpl) = lim AND 0xFFFFF"
proof (intro conjI)
  show "gate_offset (SETGATE istrap ss off dpl) = off"
    by (rule bit_word_eqI) (auto simp: gate_offset_def SETGATE_def mask_bits bit_simps)
  show "gate_offset (SETCALLGATE ss off dpl) = off"
    by (rule bit_word_eqI) (auto simp: gate_offset_def SETCALLGATE_def mask_bits bit_simps)
  show "seg_base (SEG type base lim dpl) = base"
    by (rule bit_word_eqI, rename_tac n, case_tac "n < 24") (auto simp: seg_base_def SEG_def mask_bits bit_simps)
  show "seg_base (SEGTSS type base lim dpl) = base"
    by (rule bit_word_eqI, rename_tac n, case_tac "n < 24") (auto simp: seg_base_def SEGTSS_def mask_bits bit_simps)
  show "seg_limit (SEG type base lim dpl) = lim OR 0xFFF"
    by (rule bit_word_eqI, rename_tac n, case_tac "n < 28") (auto simp: seg_limit_def SEG_def mask_bits bit_simps)
  have m20: "(0xFFFFF :: u32) = mask 20" by (simp add: mask_eq_exp_minus_1)
  show "seg_limit (SEGTSS type base lim dpl) = lim AND 0xFFFFF"
    unfolding m20
    by (rule bit_word_eqI, rename_tac n, case_tac "n < 20") (auto simp: seg_limit_def SEGTSS_def mask_bits bit_simps)
qed

end
