(* ===== verification/Paging.thy ===== *)
theory Paging
  imports Buddy Mmu
begin

text \<open>
  Physical memory set-up and two-level page tables of \<^verbatim>\<open>arch/x86/pmm.c\<close> and
  \<^verbatim>\<open>arch/x86/include/pmm.h\<close>.

  The machine has the page allocator of theory Buddy, the contents of the page frames as arrays of
  1024 words, the page directory base register with the translations the TLB has cached for it, and
  the flags register. The kernel reaches physical memory through the linear map at \<^verbatim>\<open>KERNBASE\<close>, so
  a kernel pointer to a page directory or page table is the number of its frame, and a pointer to
  an entry a frame number with an index. \<open>None\<close> is a panic.
\<close>

section \<open>Definitions\<close>

record machine =
  phys :: buddy
  frames :: "nat \<Rightarrow> nat \<Rightarrow> u32"
  cr3 :: u32
  tlb :: "nat \<Rightarrow> u32 option"
  eflags :: u32

abbreviation (input) FL_IF :: u32 where "FL_IF \<equiv> 0x200"
abbreviation (input) E_NO_MEM :: int where "E_NO_MEM \<equiv> 4"

subsection \<open>Interrupt-safe calls of the page allocator\<close>

definition local_irq_save :: "machine \<Rightarrow> u32 \<times> machine" where
  "local_irq_save st = (eflags st, st\<lparr>eflags := eflags st AND NOT FL_IF\<rparr>)"

definition local_irq_restore :: "u32 \<Rightarrow> machine \<Rightarrow> machine" where
  "local_irq_restore fl st = st\<lparr>eflags := fl\<rparr>"

definition alloc_pages :: "nat \<Rightarrow> machine \<Rightarrow> (nat option \<times> machine) option" where
  "alloc_pages n st = do {
     let (intr_flag, st) = local_irq_save st;
     (page, b) \<leftarrow> buddy_alloc_pages n (phys st);
     Some (page, local_irq_restore intr_flag (st\<lparr>phys := b\<rparr>))
   }"

definition free_pages :: "nat \<Rightarrow> nat \<Rightarrow> machine \<Rightarrow> machine option" where
  "free_pages base n st = do {
     let (intr_flag, st) = local_irq_save st;
     b \<leftarrow> buddy_free_pages base n (phys st);
     Some (local_irq_restore intr_flag (st\<lparr>phys := b\<rparr>))
   }"

definition nr_free_pages :: "machine \<Rightarrow> u32 \<times> machine" where
  "nr_free_pages st =
     (let (intr_flag, st) = local_irq_save st; r = buddy_nr_free_pages (phys st)
      in (r, local_irq_restore intr_flag st))"

subsection \<open>Addresses and page descriptors\<close>

definition PADDR :: "u32 \<Rightarrow> u32 option" where
  "PADDR kva = (if kva < KERNBASE then None else Some (kva - KERNBASE))"

definition KADDR :: "u32 \<Rightarrow> machine \<Rightarrow> nat option" where
  "KADDR pa st = (if PPN pa \<ge> npage (phys st) then None else Some (PPN pa))"

definition page2pa :: "nat \<Rightarrow> u32" where
  "page2pa page = push_bit 12 (of_nat page)"

definition pa2page :: "u32 \<Rightarrow> machine \<Rightarrow> nat option" where
  "pa2page pa st = (if PPN pa \<ge> npage (phys st) then None else Some (PPN pa))"

definition page2kva :: "nat \<Rightarrow> machine \<Rightarrow> nat option" where
  "page2kva page st = KADDR (page2pa page) st"

definition kva2page :: "u32 \<Rightarrow> machine \<Rightarrow> nat option" where
  "kva2page kva st = do { pa \<leftarrow> PADDR kva; pa2page pa st }"

definition pte2page :: "u32 \<Rightarrow> machine \<Rightarrow> nat option" where
  "pte2page pte st = (if pte AND PTE_P = 0 then None else pa2page (PTE_ADDR pte) st)"

definition pde2page :: "u32 \<Rightarrow> machine \<Rightarrow> nat option" where
  "pde2page pde st = pa2page (PDE_ADDR pde) st"

definition upd_ref :: "nat \<Rightarrow> (page \<Rightarrow> page) \<Rightarrow> machine \<Rightarrow> machine" where
  "upd_ref p f st = st\<lparr>phys := upd_page p f (phys st)\<rparr>"

definition read_entry :: "nat \<times> nat \<Rightarrow> machine \<Rightarrow> u32" where
  "read_entry ep st = frames st (fst ep) (snd ep)"

definition write_entry :: "nat \<times> nat \<Rightarrow> u32 \<Rightarrow> machine \<Rightarrow> machine" where
  "write_entry ep v st = st\<lparr>frames := (frames st)(fst ep := (frames st (fst ep))(snd ep := v))\<rparr>"

definition clear_frame :: "nat \<Rightarrow> machine \<Rightarrow> machine" where
  "clear_frame p st = st\<lparr>frames := (frames st)(p := (\<lambda>_. 0))\<rparr>"

subsection \<open>Page tables\<close>

definition get_pte :: "nat \<Rightarrow> u32 \<Rightarrow> bool \<Rightarrow> machine \<Rightarrow> ((nat \<times> nat) option \<times> machine) option" where
  "get_pte pgdir la create st =
     (if read_entry (pgdir, PDX la) st AND PTE_P = 0 then
        if \<not> create then Some (None, st)
        else do {
          (page, st) \<leftarrow> alloc_pages 1 st;
          case page of
            None \<Rightarrow> Some (None, st)
          | Some p \<Rightarrow> do {
              let st = upd_ref p (set_page_ref 1) st;
              let pa = page2pa p;
              kva \<leftarrow> KADDR pa st;
              let st = clear_frame kva st;
              let st = write_entry (pgdir, PDX la) (pa OR PTE_U OR PTE_W OR PTE_P) st;
              pt \<leftarrow> KADDR (PDE_ADDR (read_entry (pgdir, PDX la) st)) st;
              Some (Some (pt, PTX la), st)
            }
        }
      else do {
        pt \<leftarrow> KADDR (PDE_ADDR (read_entry (pgdir, PDX la) st)) st;
        Some (Some (pt, PTX la), st)
      })"

definition get_page :: "nat \<Rightarrow> u32 \<Rightarrow> machine \<Rightarrow> (nat option \<times> (nat \<times> nat) option \<times> machine) option" where
  "get_page pgdir la st = do {
     (ptep, st) \<leftarrow> get_pte pgdir la False st;
     case ptep of
       None \<Rightarrow> Some (None, ptep, st)
     | Some e \<Rightarrow>
         if read_entry e st AND PTE_P \<noteq> 0
         then do { p \<leftarrow> pa2page (read_entry e st) st; Some (Some p, ptep, st) }
         else Some (None, ptep, st)
   }"

definition tlb_invalidate :: "nat \<Rightarrow> u32 \<Rightarrow> machine \<Rightarrow> machine" where
  "tlb_invalidate pgdir la st =
     (if cr3 st = page2pa pgdir then st\<lparr>tlb := (tlb st)(PPN la := None)\<rparr> else st)"

definition page_remove_pte :: "nat \<Rightarrow> u32 \<Rightarrow> nat \<times> nat \<Rightarrow> machine \<Rightarrow> machine option" where
  "page_remove_pte pgdir la ptep st =
     (if read_entry ptep st AND PTE_P \<noteq> 0 then do {
        page \<leftarrow> pte2page (read_entry ptep st) st;
        let (r, _) = page_ref_dec (pages (phys st) page);
        let st = upd_ref page (snd \<circ> page_ref_dec) st;
        st \<leftarrow> (if r = 0 then free_pages page 1 st else Some st);
        Some (tlb_invalidate pgdir la (write_entry ptep 0 st))
      }
      else Some st)"

definition page_remove :: "nat \<Rightarrow> u32 \<Rightarrow> machine \<Rightarrow> machine option" where
  "page_remove pgdir la st = do {
     (ptep, st) \<leftarrow> get_pte pgdir la False st;
     case ptep of None \<Rightarrow> Some st | Some e \<Rightarrow> page_remove_pte pgdir la e st
   }"

definition page_insert :: "nat \<Rightarrow> nat \<Rightarrow> u32 \<Rightarrow> u32 \<Rightarrow> machine \<Rightarrow> (int \<times> machine) option" where
  "page_insert pgdir page la perm st = do {
     (ptep, st) \<leftarrow> get_pte pgdir la True st;
     case ptep of
       None \<Rightarrow> Some (- E_NO_MEM, st)
     | Some e \<Rightarrow> do {
         let st = upd_ref page (snd \<circ> page_ref_inc) st;
         st \<leftarrow> (if read_entry e st AND PTE_P \<noteq> 0 then do {
                 p \<leftarrow> pte2page (read_entry e st) st;
                 if p = page then Some (upd_ref page (snd \<circ> page_ref_dec) st)
                 else page_remove_pte pgdir la e st
               }
               else Some st);
         let st = write_entry e (page2pa page OR PTE_P OR perm) st;
         Some (0, tlb_invalidate pgdir la st)
       }
   }"

definition pgdir_alloc_page :: "nat \<Rightarrow> u32 \<Rightarrow> u32 \<Rightarrow> machine \<Rightarrow> (nat option \<times> machine) option" where
  "pgdir_alloc_page pgdir la perm st = do {
     (page, st) \<leftarrow> alloc_pages 1 st;
     case page of
       None \<Rightarrow> Some (None, st)
     | Some p \<Rightarrow> do {
         (r, st) \<leftarrow> page_insert pgdir p la perm st;
         if r \<noteq> 0 then do { st \<leftarrow> free_pages p 1 st; Some (None, st) }
         else Some (Some p, st)
       }
   }"

subsection \<open>Ranges of user memory\<close>

text \<open>
  The \<^verbatim>\<open>do ... while (start != 0 && start < end)\<close> loops; a missing page table lets \<^verbatim>\<open>start\<close> skip to
  the next one.
\<close>

partial_function (option) unmap_loop :: "nat \<Rightarrow> u32 \<Rightarrow> u32 \<Rightarrow> machine \<Rightarrow> machine option" where
  "unmap_loop pgdir start end st = do {
     (ptep, st) \<leftarrow> get_pte pgdir start False st;
     (start', st) \<leftarrow> (case ptep of
         None \<Rightarrow> Some (ROUNDDOWN (start + PTSIZE) PTSIZE, st)
       | Some e \<Rightarrow> do {
           st \<leftarrow> (if read_entry e st \<noteq> 0 then page_remove_pte pgdir start e st else Some st);
           Some (start + PGSIZE, st)
         });
     if start' \<noteq> 0 \<and> start' < end then unmap_loop pgdir start' end st else Some st
   }"

definition unmap_range :: "nat \<Rightarrow> u32 \<Rightarrow> u32 \<Rightarrow> machine \<Rightarrow> machine option" where
  "unmap_range pgdir start end st = do {
     kassert (start mod PGSIZE = 0 \<and> end mod PGSIZE = 0);
     kassert (USER_ACCESS start end);
     unmap_loop pgdir start end st
   }"

partial_function (option) exit_loop :: "nat \<Rightarrow> u32 \<Rightarrow> u32 \<Rightarrow> machine \<Rightarrow> machine option" where
  "exit_loop pgdir start end st = do {
     let pde = read_entry (pgdir, PDX start) st;
     st \<leftarrow> (if pde AND PTE_P \<noteq> 0 then do {
             pt \<leftarrow> pde2page pde st;
             st \<leftarrow> free_pages pt 1 st;
             Some (write_entry (pgdir, PDX start) 0 st)
           }
           else Some st);
     let start' = start + PTSIZE;
     if start' \<noteq> 0 \<and> start' < end then exit_loop pgdir start' end st else Some st
   }"

definition exit_range :: "nat \<Rightarrow> u32 \<Rightarrow> u32 \<Rightarrow> machine \<Rightarrow> machine option" where
  "exit_range pgdir start end st = do {
     kassert (start mod PGSIZE = 0 \<and> end mod PGSIZE = 0);
     kassert (USER_ACCESS start end);
     exit_loop pgdir (ROUNDDOWN start PTSIZE) end st
   }"

text \<open>One page of \<^verbatim>\<open>copy_range\<close>: the entry \<open>e\<close> of the source is present or not, but not zero.\<close>

definition copy_page :: "nat \<Rightarrow> nat \<Rightarrow> u32 \<Rightarrow> bool \<Rightarrow> nat \<times> nat \<Rightarrow> machine \<Rightarrow> (int \<times> machine) option" where
  "copy_page to from start share e st = do {
     (nptep, st) \<leftarrow> get_pte to start True st;
     case nptep of
       None \<Rightarrow> Some (- E_NO_MEM, st)
     | Some ne \<Rightarrow> do {
         kassert (read_entry e st \<noteq> 0 \<and> read_entry ne st = 0);
         if read_entry e st AND PTE_P \<noteq> 0 then do {
           let perm = read_entry e st AND PTE_USER;
           page \<leftarrow> pte2page (read_entry e st) st;
           (perm, st) \<leftarrow> (if \<not> share \<and> read_entry e st AND PTE_W \<noteq> 0 then do {
               (_, st) \<leftarrow> page_insert from page start (perm AND NOT PTE_W) st;
               Some (perm AND NOT PTE_W, st)
             }
             else Some (perm, st));
           (ret, st) \<leftarrow> page_insert to page start perm st;
           kassert (ret = 0);
           Some (0, st)
         }
         else Some (0, st)
       }
   }"

partial_function (option) copy_loop ::
  "nat \<Rightarrow> nat \<Rightarrow> u32 \<Rightarrow> u32 \<Rightarrow> bool \<Rightarrow> machine \<Rightarrow> (int \<times> machine) option" where
  "copy_loop to from start end share st = do {
     (ptep, st) \<leftarrow> get_pte from start False st;
     (r, start', st) \<leftarrow> (case ptep of
         None \<Rightarrow> Some (0, ROUNDDOWN (start + PTSIZE) PTSIZE, st)
       | Some e \<Rightarrow>
           if read_entry e st \<noteq> 0
           then map_option (\<lambda>(r, st). (r, start + PGSIZE, st)) (copy_page to from start share e st)
           else Some (0, start + PGSIZE, st));
     if r \<noteq> 0 then Some (r, st)
     else if start' \<noteq> 0 \<and> start' < end then copy_loop to from start' end share st
     else Some (0, st)
   }"

definition copy_range :: "nat \<Rightarrow> nat \<Rightarrow> u32 \<Rightarrow> u32 \<Rightarrow> bool \<Rightarrow> machine \<Rightarrow> (int \<times> machine) option" where
  "copy_range to from start end share st = do {
     kassert (start mod PGSIZE = 0 \<and> end mod PGSIZE = 0);
     kassert (USER_ACCESS start end);
     copy_loop to from start end share st
   }"

subsection \<open>Set-up at boot\<close>

text \<open>The memory map of the BIOS, and \<^verbatim>\<open>page_init\<close>. \<open>kend\<close> is the linker's \<^verbatim>\<open>end\<close>, and a descriptor takes 24 bytes.\<close>

record e820entry =
  e_addr :: u64
  e_size :: u64
  e_type :: u32

abbreviation (input) E820_ARM :: u32 where "E820_ARM \<equiv> 1"

fun max_pa :: "e820entry list \<Rightarrow> u64 \<Rightarrow> u64" where
  "max_pa [] maxpa = maxpa"
| "max_pa (e # es) maxpa =
     (let begin = e_addr e; end = begin + e_size e
      in max_pa es (if e_type e = E820_ARM \<and> maxpa < end \<and> begin < ucast KMEMSIZE then end else maxpa))"

definition init_memmap :: "nat \<Rightarrow> nat \<Rightarrow> machine \<Rightarrow> machine option" where
  "init_memmap base n st = map_option (\<lambda>b. st\<lparr>phys := b\<rparr>) (buddy_init_memmap base n (phys st))"

fun init_zones :: "u32 \<Rightarrow> e820entry list \<Rightarrow> machine \<Rightarrow> machine option" where
  "init_zones freemem [] st = Some st"
| "init_zones freemem (e # es) st =
     (let begin0 = e_addr e; end0 = begin0 + e_size e;
          begin1 = (if begin0 < ucast freemem then ucast freemem else begin0);
          end1 = (if end0 > ucast KMEMSIZE then ucast KMEMSIZE else end0);
          begin2 = ROUNDUP (ucast begin1) PGSIZE;
          end2 = ROUNDDOWN (ucast end1) PGSIZE
      in if e_type e = E820_ARM \<and> begin1 < end1 \<and> begin2 < end2
         then do {
           p \<leftarrow> pa2page begin2 st;
           st \<leftarrow> init_memmap p (unat ((end2 - begin2) div PGSIZE)) st;
           init_zones freemem es st
         }
         else init_zones freemem es st)"

definition page_init :: "u32 \<Rightarrow> e820entry list \<Rightarrow> machine \<Rightarrow> machine option" where
  "page_init kend memmap st = do {
     let maxpa = max_pa memmap 0;
     let maxpa = (if maxpa > ucast KMEMSIZE then ucast KMEMSIZE else maxpa);
     let n = unat (maxpa div 4096);
     let pages_kva = ROUNDUP kend PGSIZE;
     let st = st\<lparr>phys := (phys st)\<lparr>npage := n,
        pages := (\<lambda>i. if i < n then SetPageReserved (pages (phys st) i) else pages (phys st) i)\<rparr>\<rparr>;
     freemem \<leftarrow> PADDR (pages_kva + 24 * of_nat n);
     init_zones freemem memmap st
   }"

definition boot_alloc_page :: "machine \<Rightarrow> (nat \<times> machine) option" where
  "boot_alloc_page st = do {
     (p, st) \<leftarrow> alloc_pages 1 st;
     case p of None \<Rightarrow> None | Some p \<Rightarrow> do { kva \<leftarrow> page2kva p st; Some (kva, st) }
   }"

fun boot_map_loop :: "nat \<Rightarrow> nat \<Rightarrow> u32 \<Rightarrow> u32 \<Rightarrow> u32 \<Rightarrow> machine \<Rightarrow> machine option" where
  "boot_map_loop 0 pgdir la pa perm st = Some st"
| "boot_map_loop (Suc n) pgdir la pa perm st = do {
     (ptep, st) \<leftarrow> get_pte pgdir la True st;
     case ptep of
       None \<Rightarrow> None
     | Some e \<Rightarrow> boot_map_loop n pgdir (la + PGSIZE) (pa + PGSIZE) perm (write_entry e (pa OR PTE_P OR perm) st)
   }"

definition boot_map_segment :: "nat \<Rightarrow> u32 \<Rightarrow> u32 \<Rightarrow> u32 \<Rightarrow> u32 \<Rightarrow> machine \<Rightarrow> machine option" where
  "boot_map_segment pgdir la sz pa perm st = do {
     kassert (PGOFF la = PGOFF pa);
     let n = ROUNDUP (sz + PGOFF la) PGSIZE div PGSIZE;
     boot_map_loop (unat n) pgdir (ROUNDDOWN la PGSIZE) (ROUNDDOWN pa PGSIZE) perm st
   }"

definition lcr3 :: "u32 \<Rightarrow> machine \<Rightarrow> machine" where
  "lcr3 pa st = st\<lparr>cr3 := pa, tlb := (\<lambda>_. None)\<rparr>"

text \<open>\<^verbatim>\<open>pmm_init\<close> without its self-tests, its console output and the loading of the GDT.\<close>

definition pmm_init :: "u32 \<Rightarrow> e820entry list \<Rightarrow> machine \<Rightarrow> (nat \<times> machine) option" where
  "pmm_init kend memmap st = do {
     let st = st\<lparr>phys := buddy_init (phys st)\<rparr>;
     st \<leftarrow> page_init kend memmap st;
     (boot_pgdir, st) \<leftarrow> boot_alloc_page st;
     let st = clear_frame boot_pgdir st;
     let st = write_entry (boot_pgdir, PDX VPT) (page2pa boot_pgdir OR PTE_P OR PTE_W) st;
     st \<leftarrow> boot_map_segment boot_pgdir KERNBASE KMEMSIZE 0 PTE_W st;
     let st = write_entry (boot_pgdir, 0) (read_entry (boot_pgdir, PDX KERNBASE) st) st;
     let st = lcr3 (page2pa boot_pgdir) st;
     let st = write_entry (boot_pgdir, 0) 0 st;
     Some (boot_pgdir, st)
   }"

subsection \<open>Printing page tables\<close>

definition perm2str :: "u32 \<Rightarrow> string" where
  "perm2str perm = [if perm AND PTE_U \<noteq> 0 then CHR ''u'' else CHR ''-'', CHR ''r'',
     if perm AND PTE_W \<noteq> 0 then CHR ''w'' else CHR ''-'']"

function skip_absent :: "nat \<Rightarrow> nat \<Rightarrow> (nat \<Rightarrow> u32) \<Rightarrow> nat" where
  "skip_absent right start table =
     (if start < right \<and> table start AND PTE_P = 0 then skip_absent right (Suc start) table else start)"
  by pat_completeness auto
termination by (relation "measure (\<lambda>(right, start, t). right - start)") auto

function skip_same :: "nat \<Rightarrow> nat \<Rightarrow> u32 \<Rightarrow> (nat \<Rightarrow> u32) \<Rightarrow> nat" where
  "skip_same right start perm table =
     (if start < right \<and> table start AND PTE_USER = perm then skip_same right (Suc start) perm table else start)"
  by pat_completeness auto
termination by (relation "measure (\<lambda>(right, start, p, t). right - start)") auto

declare skip_absent.simps [simp del] skip_same.simps [simp del]

text \<open>The permission found, with the bounds of the run; \<open>None\<close> is the return value 0.\<close>

definition get_pgtable_items :: "nat \<Rightarrow> nat \<Rightarrow> (nat \<Rightarrow> u32) \<Rightarrow> (u32 \<times> nat \<times> nat) option" where
  "get_pgtable_items right start table =
     (if start \<ge> right then None
      else let s = skip_absent right start table in
        if s < right then
          let perm = table s AND PTE_USER in Some (perm, s, skip_same right (Suc s) perm table)
        else None)"

end
