(* ===== verification/PageMap.thy ===== *)
theory PageMap
  imports Paging
begin

text \<open>
  Correctness of the page-table operations. A set \<open>D\<close> of page directories is seen as an abstract
  address space: \<open>entry st d v\<close> is the page table entry of virtual page \<open>v\<close> in directory \<open>d\<close>, zero
  where there is no page table. The invariant \<open>pt_ok\<close> says that directories, page tables and mapped
  pages are allocated and distinct, that no two directory entries share a page table, and that the
  counter of a page is the number of its mappings plus the references \<open>own\<close> held elsewhere. It fixes the
  set \<open>pool\<close> of the pages that are free or used by the directories: an operation that keeps it loses no page,
  since free and used pages are disjoint. Only the
  user part of the address space, below \<^verbatim>\<open>USERTOP\<close>, is private to a directory and considered.
\<close>

section \<open>The abstract address space\<close>

abbreviation (input) UDX :: nat where "UDX \<equiv> 704"
abbreviation (input) UVN :: nat where "UVN \<equiv> 720896"

definition present :: "u32 \<Rightarrow> bool" where
  "present x \<longleftrightarrow> x AND PTE_P \<noteq> 0"

definition entry :: "machine \<Rightarrow> nat \<Rightarrow> nat \<Rightarrow> u32" where
  "entry st d v = (let pde = frames st d (v div 1024) in if present pde then frames st (PPN pde) (v mod 1024) else 0)"

definition tables :: "machine \<Rightarrow> nat set \<Rightarrow> nat set" where
  "tables st D = {PPN (frames st d i) | d i. d \<in> D \<and> i < UDX \<and> present (frames st d i)}"

definition maps :: "machine \<Rightarrow> nat set \<Rightarrow> nat \<Rightarrow> (nat \<times> nat) set" where
  "maps st D p = {(d, v). d \<in> D \<and> v < UVN \<and> present (entry st d v) \<and> PPN (entry st d v) = p}"

definition owned :: "machine \<Rightarrow> nat \<Rightarrow> bool" where
  "owned st p \<longleftrightarrow> region_ok (phys st) p 1 \<and> p \<notin> free_set (phys st)"

definition user_page :: "machine \<Rightarrow> nat set \<Rightarrow> nat \<Rightarrow> bool" where
  "user_page st D p \<longleftrightarrow> owned st p \<and> p \<notin> D \<and> p \<notin> tables st D"

abbreviation refcount :: "machine \<Rightarrow> nat \<Rightarrow> u32" where
  "refcount st p \<equiv> ref (pages (phys st) p)"

definition phys_ok :: "machine \<Rightarrow> bool" where
  "phys_ok st \<longleftrightarrow> buddy_inv (phys st) \<and> (\<forall>p. region_ok (phys st) p 1 \<longrightarrow> p < 2 ^ 20) \<and> (\<forall>p\<in>free_set (phys st). refcount st p = 0)"

definition tables_ok :: "machine \<Rightarrow> nat set \<Rightarrow> bool" where
  "tables_ok st D \<longleftrightarrow> finite D \<and> (\<forall>d\<in>D. owned st d) \<and> (\<forall>t\<in>tables st D. owned st t \<and> t \<notin> D) \<and>
     (\<forall>d\<in>D. \<forall>d'\<in>D. \<forall>i<UDX. \<forall>j<UDX. present (frames st d i) \<longrightarrow> present (frames st d' j) \<longrightarrow>
        PPN (frames st d i) = PPN (frames st d' j) \<longrightarrow> d = d' \<and> i = j)"

definition refs_ok :: "machine \<Rightarrow> nat set \<Rightarrow> (nat \<Rightarrow> nat) \<Rightarrow> bool" where
  "refs_ok st D own \<longleftrightarrow> (\<forall>p. maps st D p \<noteq> {} \<or> 0 < own p \<longrightarrow>
     user_page st D p \<and> unat (refcount st p) = card (maps st D p) + own p)"

text \<open>The pages that the directories use: themselves, their tables, and the pages mapped or held.\<close>

definition used :: "machine \<Rightarrow> nat set \<Rightarrow> (nat \<Rightarrow> nat) \<Rightarrow> nat set" where
  "used st D own = D \<union> tables st D \<union> {p. maps st D p \<noteq> {} \<or> 0 < own p}"

text \<open>The invariant. The last conjunct accounts for the pages: those of \<open>pool\<close> are free or used, and no others are.\<close>

definition pt_ok :: "machine \<Rightarrow> nat set \<Rightarrow> (nat \<Rightarrow> nat) \<Rightarrow> nat set \<Rightarrow> bool" where
  "pt_ok st D own pool \<longleftrightarrow> phys_ok st \<and> tables_ok st D \<and> refs_ok st D own \<and> free_set (phys st) \<union> used st D own = pool"

section \<open>Basic facts\<close>

lemma not_present_0 [simp]: "\<not> present 0"
  by (simp add: present_def)

lemma finite_maps: "finite D \<Longrightarrow> finite (maps st D p)"
  by (rule finite_subset [of _ "D \<times> {..<UVN}"]) (auto simp: maps_def)

lemma owned_less: "owned st p \<Longrightarrow> p < npage (phys st)"
  by (simp add: owned_def region_ok_def)

lemma used_not_free:
  assumes "pt_ok st D own pool"
  shows "used st D own \<inter> free_set (phys st) = {}" "free_set (phys st) = pool - used st D own"
proof -
  have "owned st q" if "q \<in> used st D own" for q
    using assms that by (auto simp: used_def pt_ok_def tables_ok_def refs_ok_def user_page_def)
  then show dis: "used st D own \<inter> free_set (phys st) = {}" by (auto simp: owned_def)
  have "free_set (phys st) \<union> used st D own = pool" using assms by (simp add: pt_ok_def)
  with dis show "free_set (phys st) = pool - used st D own" by blast
qed

text \<open>A page that loses its last mapping is free afterwards.\<close>

lemma last_mapping:
  assumes "pt_ok st D own pool" "pt_ok st' D own pool" "maps st D q \<noteq> {}" "maps st' D q = {}" "own q = 0" "q \<notin> tables st' D"
  shows "q \<in> free_set (phys st')"
proof -
  have "q \<in> pool" using assms(1,3) by (auto simp: pt_ok_def used_def)
  moreover have "q \<notin> D" using assms(1,3) by (auto simp: pt_ok_def refs_ok_def user_page_def)
  ultimately show ?thesis using assms(4-6) used_not_free(2) [OF assms(2)] by (auto simp: used_def)
qed

text \<open>An operation that only removes mappings frees exactly the pages without a reference left.\<close>

lemma freed_exactly:
  assumes "pt_ok st D own pool" "pt_ok st' D own pool" "tables st' D = tables st D" "\<And>q. maps st' D q \<subseteq> maps st D q"
  shows "free_set (phys st') = free_set (phys st) \<union> {q. maps st D q \<noteq> {} \<and> maps st' D q = {} \<and> own q = 0}"
proof -
  have "q \<in> free_set (phys st')" if "maps st D q \<noteq> {}" "maps st' D q = {}" "own q = 0" for q
  proof (rule last_mapping [OF assms(1,2) that])
    show "q \<notin> tables st' D" using assms(1,3) that(1) by (auto simp: pt_ok_def refs_ok_def user_page_def)
  qed
  moreover have "free_set (phys st) \<subseteq> free_set (phys st')"
    using assms(3,4) unfolding used_not_free(2) [OF assms(1)] used_not_free(2) [OF assms(2)] used_def by blast
  moreover have "q \<in> free_set (phys st)" if "q \<in> free_set (phys st')" "\<not> (maps st D q \<noteq> {} \<and> maps st' D q = {} \<and> own q = 0)" for q
    using assms(3) that unfolding used_not_free(2) [OF assms(1)] used_not_free(2) [OF assms(2)] used_def by blast
  ultimately show ?thesis by blast
qed

lemma in_tables: "d \<in> D \<Longrightarrow> i < UDX \<Longrightarrow> present (frames st d i) \<Longrightarrow> PPN (frames st d i) \<in> tables st D"
  by (auto simp: tables_def)

lemma user_index: "PPN la < UVN \<Longrightarrow> PDX la < UDX"
  by (simp add: PDX_PPN)

lemma entry_la: "entry st d (PPN la) =
    (if present (frames st d (PDX la)) then frames st (PPN (frames st d (PDX la))) (PTX la) else 0)"
  by (simp add: entry_def PDX_PPN PTX_PPN Let_def)

lemma PPN_page2pa: "p < 2 ^ 20 \<Longrightarrow> f < 4096 \<Longrightarrow> PPN (page2pa p OR f) = p"
  by (simp add: page2pa_def PPN_low_bits frame_addr)

lemma present_page2pa: "f < 4096 \<Longrightarrow> present (page2pa p OR f) \<longleftrightarrow> present f"
  by (simp add: page2pa_def present_def flag_of_frame_addr)

lemma or_less: "x < 4096 \<Longrightarrow> y < 4096 \<Longrightarrow> x OR y < (4096 :: u32)"
  using OR_upper [of "uint x" 12 "uint y"] by (simp add: word_less_def unsigned_or_eq)

lemma frames_write [simp]:
  "frames (write_entry e v st) d i = (if (d, i) = e then v else frames st d i)"
  "phys (write_entry e v st) = phys st" "tlb (write_entry e v st) = tlb st" "cr3 (write_entry e v st) = cr3 st"
  by (cases e; auto simp: write_entry_def)+

lemma upd_ref_simps [simp]:
  "frames (upd_ref p f st) = frames st" "phys (upd_ref p f st) = upd_page p f (phys st)"
  "tlb (upd_ref p f st) = tlb st" "cr3 (upd_ref p f st) = cr3 st"
  by (simp_all add: upd_ref_def)

lemma clear_frame_simps [simp]:
  "frames (clear_frame p st) = (frames st)(p := (\<lambda>_. 0))" "phys (clear_frame p st) = phys st"
  "tlb (clear_frame p st) = tlb st" "cr3 (clear_frame p st) = cr3 st"
  by (simp_all add: clear_frame_def)

lemma tlb_invalidate_simps [simp]:
  "frames (tlb_invalidate d la st) = frames st" "phys (tlb_invalidate d la st) = phys st"
  "cr3 (tlb_invalidate d la st) = cr3 st"
  by (simp_all add: tlb_invalidate_def)

text \<open>The abstract view depends on the frames only, the invariant on what it says of the allocator.\<close>

lemma view_cong:
  assumes "frames st' = frames st"
  shows "entry st' = entry st" "tables st' = tables st" "maps st' = maps st"
proof -
  show e: "entry st' = entry st" by (intro ext) (simp add: entry_def Let_def assms)
  show "tables st' = tables st" by (intro ext) (simp add: tables_def assms)
  show "maps st' = maps st" by (intro ext) (simp add: maps_def e)
qed

lemma tables_cong: "\<forall>e\<in>D. frames st' e = frames st e \<Longrightarrow> tables st' D = tables st D"
  unfolding tables_def by (intro Collect_cong ex_cong1) auto

lemma tables_ok_inj:
  assumes "tables_ok st D" "d \<in> D" "d' \<in> D" "i < UDX" "j < UDX" "present (frames st d i)" "present (frames st d' j)"
  shows "PPN (frames st d i) = PPN (frames st d' j) \<longleftrightarrow> d = d' \<and> i = j"
  using assms unfolding tables_ok_def by blast

lemma entry_write_table:
  assumes ok: "tables_ok st D" and d: "d \<in> D" "PPN la < UVN" "present (frames st d (PDX la))"
    and d': "d' \<in> D" "v < UVN"
  shows "entry (write_entry (PPN (frames st d (PDX la)), PTX la) x st) d' v =
    (if d' = d \<and> v = PPN la then x else entry st d' v)"
proof -
  let ?t = "PPN (frames st d (PDX la))"
  have t: "?t \<in> tables st D" using d user_index by (intro in_tables) auto
  then have dir: "d' \<noteq> ?t" using ok d' by (auto simp: tables_ok_def)
  have vd: "v div 1024 < UDX" using d'(2) by simp
  have tab: "PPN (frames st d' (v div 1024)) = ?t \<longleftrightarrow> d' = d \<and> v div 1024 = PDX la"
    if "present (frames st d' (v div 1024))"
    using tables_ok_inj [OF ok d'(1) d(1) vd user_index [OF d(2)] that d(3)] .
  have idx: "v = PPN la \<longleftrightarrow> v div 1024 = PDX la \<and> v mod 1024 = PTX la"
    by (metis PDX_PPN PTX_PPN div_mult_mod_eq)
  show ?thesis
  proof (cases "present (frames st d' (v div 1024))")
    case True
    then have "entry (write_entry (?t, PTX la) x st) d' v =
      (if (PPN (frames st d' (v div 1024)), v mod 1024) = (?t, PTX la) then x else entry st d' v)"
      by (simp add: entry_def Let_def dir)
    with tab [OF True] idx show ?thesis by simp
  next
    case False
    with d(3) idx show ?thesis by (auto simp: entry_def Let_def dir)
  qed
qed

lemma tables_write_table:
  assumes "tables_ok st D" "t \<in> tables st D"
  shows "tables (write_entry (t, i) x st) D = tables st D"
proof -
  have "t \<notin> D" using assms by (auto simp: tables_ok_def)
  then have "frames (write_entry (t, i) x st) d j = frames st d j" if "d \<in> D" for d j using that by auto
  then show ?thesis unfolding tables_def by (metis (no_types, lifting))
qed

section \<open>Finding and creating page table entries\<close>

lemma alloc_pages_eq: "alloc_pages n st = map_option (\<lambda>(r, b). (r, st\<lparr>phys := b\<rparr>)) (buddy_alloc_pages n (phys st))"
  by (cases "buddy_alloc_pages n (phys st)") (auto simp: alloc_pages_def local_irq_save_def local_irq_restore_def)

lemma free_pages_eq: "free_pages p n st = map_option (\<lambda>b. st\<lparr>phys := b\<rparr>) (buddy_free_pages p n (phys st))"
  by (cases "buddy_free_pages p n (phys st)") (auto simp: free_pages_def local_irq_save_def local_irq_restore_def)

lemma KADDR_owned: "owned st p \<Longrightarrow> PPN pa = p \<Longrightarrow> KADDR pa st = Some p"
  by (auto simp: KADDR_def dest: owned_less)

lemma get_pte_present:
  assumes "tables_ok st D" "d \<in> D" "PPN la < UVN" "present (frames st d (PDX la))"
  shows "get_pte d la c st = Some (Some (PPN (frames st d (PDX la)), PTX la), st)"
proof -
  have "owned st (PPN (frames st d (PDX la)))"
    using assms in_tables [OF assms(2) user_index [OF assms(3)] assms(4)] by (auto simp: tables_ok_def)
  then have "KADDR (PDE_ADDR (frames st d (PDX la))) st = Some (PPN (frames st d (PDX la)))"
    by (rule KADDR_owned) (simp add: PDE_ADDR_def)
  with assms(4) show ?thesis by (simp add: get_pte_def present_def read_entry_def)
qed

lemma get_pte_absent: "\<not> present (frames st d (PDX la)) \<Longrightarrow> get_pte d la False st = Some (None, st)"
  by (simp add: get_pte_def present_def read_entry_def)

text \<open>What creating an entry may do: add an empty page table.\<close>

definition grown :: "machine \<Rightarrow> nat set \<Rightarrow> machine \<Rightarrow> bool" where
  "grown st D st' \<longleftrightarrow> (\<forall>d\<in>D. \<forall>v<UVN. entry st' d v = entry st d v) \<and>
     (\<forall>q. owned st q \<longrightarrow> owned st' q \<and> refcount st' q = refcount st q \<and> (q \<in> tables st' D \<longleftrightarrow> q \<in> tables st D)) \<and>
     (\<forall>d\<in>D. \<forall>i. present (frames st d i) \<longrightarrow> frames st' d i = frames st d i) \<and>
     tlb st' = tlb st \<and> cr3 st' = cr3 st"

lemma grown_refl: "grown st D st"
  by (simp add: grown_def)

lemma grown_maps: "grown st D st' \<Longrightarrow> maps st' D = maps st D"
  by (intro ext) (auto simp: grown_def maps_def)

lemma grown_user_page: "grown st D st' \<Longrightarrow> user_page st D q \<Longrightarrow> user_page st' D q"
  by (auto simp: grown_def user_page_def)

lemma grown_refs_ok: "grown st D st' \<Longrightarrow> refs_ok st D own \<Longrightarrow> refs_ok st' D own"
  unfolding refs_ok_def by (auto simp: grown_maps intro: grown_user_page) (auto simp: grown_def user_page_def)

lemma add_table:
  assumes ok: "pt_ok st D own pool" and d: "d \<in> D" "i < UDX" "\<not> present (frames st d i)"
    and b: "buddy_inv b" "region_ok b = region_ok (phys st)" "region_ok (phys st) p 1" "p \<in> free_set (phys st)"
      "free_set b = free_set (phys st) - {p}" "\<forall>q. ref (pages b q) = refcount st q"
    and pde: "present pde" "PPN pde = p"
  defines "st' \<equiv> write_entry (d, i) pde (clear_frame p (upd_ref p (set_page_ref 1) (st\<lparr>phys := b\<rparr>)))"
  shows "pt_ok st' D own pool" "grown st D st'" "frames st' d i = pde"
proof -
  have tok: "tables_ok st D" and pok: "phys_ok st" and rok: "refs_ok st D own" using ok by (simp_all add: pt_ok_def)
  have po: "\<not> owned st p" using b(4) by (simp add: owned_def)
  then have pD: "p \<notin> D" "p \<notin> tables st D" using tok by (auto simp: tables_ok_def)
  have own': "owned st' q \<longleftrightarrow> owned st q \<or> q = p" for q
    using b by (auto simp: owned_def st'_def)
  have rc: "refcount st' q = (if q = p then 1 else refcount st q)" for q
    using b(6) by (simp add: st'_def upd_page_def)
  have fr: "frames st' e j = (if e = d \<and> j = i then pde else frames st e j)" if "e \<noteq> p" for e j
    using that by (simp add: st'_def)
  have frp: "frames st' p j = 0" for j using pD(1) d(1) by (auto simp: st'_def)
  show "frames st' d i = pde" by (simp add: st'_def)
  have dir: "frames st' e j = (if e = d \<and> j = i then pde else frames st e j)" if "e \<in> D" for e j
    using that pD(1) by (intro fr) auto
  have tab: "tables st' D = insert p (tables st D)"
  proof -
    have "x \<in> insert p (tables st D)" if "x \<in> tables st' D" for x
    proof -
      obtain e j where ej: "x = PPN (frames st' e j)" "e \<in> D" "j < UDX" "present (frames st' e j)"
        using \<open>x \<in> tables st' D\<close> unfolding tables_def by blast
      then show ?thesis using pde(2) in_tables [of e D j st] by (cases "e = d \<and> j = i") (auto simp: dir)
    qed
    moreover have "x \<in> tables st' D" if "x \<in> tables st D" for x
    proof -
      obtain e j where ej: "x = PPN (frames st e j)" "e \<in> D" "j < UDX" "present (frames st e j)"
        using \<open>x \<in> tables st D\<close> unfolding tables_def by blast
      then have "frames st' e j = frames st e j" using d(3) by (auto simp: dir)
      then show ?thesis using ej in_tables [of e D j st'] by simp
    qed
    moreover have "p \<in> tables st' D"
      using in_tables [of d D i st'] d(1,2) pde dir [OF d(1)] by simp
    ultimately show ?thesis by blast
  qed
  have ent: "entry st' e v = entry st e v" if "e \<in> D" "v < UVN" for e v
  proof (cases "e = d \<and> v div 1024 = i")
    case True
    with that pde d frp show ?thesis by (simp add: entry_def dir Let_def)
  next
    case False
    have "v div 1024 < UDX" using that(2) by simp
    then have "present (frames st e (v div 1024)) \<Longrightarrow> PPN (frames st e (v div 1024)) \<in> tables st D"
      using that(1) by (intro in_tables) auto
    then have "present (frames st e (v div 1024)) \<Longrightarrow>
        PPN (frames st e (v div 1024)) \<noteq> p \<and> PPN (frames st e (v div 1024)) \<noteq> d"
      using pD tok d(1) by (auto simp: tables_ok_def)
    with False that show ?thesis by (auto simp: entry_def dir fr Let_def)
  qed
  show g: "grown st D st'"
    unfolding grown_def using ent own' rc tab po dir d(3) by (auto simp: st'_def)
  have inj: "e = e' \<and> j = j'"
    if "e \<in> D" "e' \<in> D" "j < UDX" "j' < UDX" "present (frames st' e j)" "present (frames st' e' j')"
      "PPN (frames st' e j) = PPN (frames st' e' j')" for e e' j j'
  proof -
    have old: "frames st' x y = frames st x y" if "x \<in> D" "\<not> (x = d \<and> y = i)" for x y
      using that by (auto simp: dir)
    have new: "PPN (frames st' x y) \<noteq> p" if "x \<in> D" "y < UDX" "present (frames st' x y)" "\<not> (x = d \<and> y = i)" for x y
      using that old [OF that(1,4)] in_tables [of x D y st] pD(2) by auto
    have di: "PPN (frames st' d i) = p" using dir [OF d(1)] pde(2) by simp
    consider "e = d \<and> j = i" "e' = d \<and> j' = i" | "e = d \<and> j = i" "\<not> (e' = d \<and> j' = i)"
      | "\<not> (e = d \<and> j = i)" "e' = d \<and> j' = i" | "\<not> (e = d \<and> j = i)" "\<not> (e' = d \<and> j' = i)" by blast
    then show ?thesis
    proof cases
      case 2 then show ?thesis using new [OF that(2,4,6)] di that(7) by metis
    next
      case 3 then show ?thesis using new [OF that(1,3,5)] di that(7) by metis
    next
      case 4
      then show ?thesis
        using that tables_ok_inj [OF tok that(1,2,3,4)] old [OF that(1) 4(1)] old [OF that(2) 4(2)] by simp
    qed simp
  qed
  have "tables_ok st' D"
    using tok own' pD tab inj unfolding tables_ok_def by auto
  moreover have "phys_ok st'"
    using pok b rc by (auto simp: phys_ok_def st'_def)
  moreover have "free_set (phys st') \<union> used st' D own = free_set (phys st) \<union> used st D own"
    using b(4,5) tab grown_maps [OF g] by (auto simp: used_def st'_def)
  ultimately show "pt_ok st' D own pool"
    using grown_refs_ok [OF g rok] ok by (simp add: pt_ok_def)
qed

lemma get_pte_create:
  assumes ok: "pt_ok st D own pool" and d: "d \<in> D" "PPN la < UVN"
  obtains (full) "get_pte d la True st = Some (None, st)" "\<not> present (frames st d (PDX la))" "free_set (phys st) = {}"
  | (found) st' where "get_pte d la True st = Some (Some (PPN (frames st' d (PDX la)), PTX la), st')"
    "pt_ok st' D own pool" "grown st D st'" "present (frames st' d (PDX la))" "\<exists>t. free_set (phys st) \<subseteq> insert t (free_set (phys st'))"
proof (cases "present (frames st d (PDX la))")
  case True
  have tok: "tables_ok st D" using ok by (simp add: pt_ok_def)
  show ?thesis using found [OF get_pte_present [OF tok d True] ok grown_refl True] by blast
next
  case False
  have inv: "buddy_inv (phys st)" using ok by (simp add: pt_ok_def phys_ok_def)
  have absent: "read_entry (d, PDX la) st AND PTE_P = 0" using False by (simp add: present_def read_entry_def)
  show ?thesis
  proof (rule bc.take_page [OF inv])
    assume f: "buddy_alloc_pages 1 (phys st) = Some (None, phys st)" "free_set (phys st) = {}"
    then have "alloc_pages 1 st = Some (None, st)" by (simp add: alloc_pages_eq)
    with absent have "get_pte d la True st = Some (None, st)" by (simp add: get_pte_def)
    with False f(2) show ?thesis using full by blast
  next
    fix p b
    assume b: "buddy_alloc_pages 1 (phys st) = Some (Some p, b)" "buddy_inv b" "region_ok b = region_ok (phys st)"
      "region_ok (phys st) p 1" "p \<in> free_set (phys st)" "free_set b = free_set (phys st) - {p}"
      "(\<lambda>q. ref (pages b q)) = (\<lambda>q. refcount st q)"
    let ?pde = "page2pa p OR PTE_USER"
    let ?st1 = "clear_frame p (upd_ref p (set_page_ref 1) (st\<lparr>phys := b\<rparr>))"
    have p20: "p < 2 ^ 20" using ok b(4) by (simp add: pt_ok_def phys_ok_def)
    have pde: "present ?pde" "PPN ?pde = p"
      using p20 by (simp_all add: present_page2pa PPN_page2pa) (simp add: present_def)
    note new = add_table [OF ok d(1) user_index [OF d(2)] False b(2-6) _ pde]
    have np: "p < npage b" using b(3,4) by (metis region_ok_def atLeastLessThan_iff le_refl less_add_one)
    have k1: "KADDR (page2pa p) s = Some p" if "npage (phys s) = npage b" for s
      using np p20 that by (simp add: KADDR_def page2pa_def frame_addr)
    have k2: "KADDR (PDE_ADDR ?pde) s = Some p" if "npage (phys s) = npage b" for s
      using np pde(2) that by (simp add: KADDR_def PDE_ADDR_def)
    have "get_pte d la True st = Some (Some (p, PTX la), write_entry (d, PDX la) ?pde ?st1)"
      using absent b(1) by (simp add: get_pte_def alloc_pages_eq k1 k2 read_entry_def Let_def upd_page_def)
    moreover have "free_set (phys st) \<subseteq> insert p (free_set (phys (write_entry (d, PDX la) ?pde ?st1)))" using b(6) by auto
    ultimately show ?thesis
      using found [of "write_entry (d, PDX la) ?pde ?st1"] new b(7) pde by (simp add: fun_eq_iff) blast
  qed
qed

section \<open>Changing one entry\<close>

lemma maps_write_table:
  assumes "tables_ok st D" "d \<in> D" "PPN la < UVN" "present (frames st d (PDX la))"
  shows "maps (write_entry (PPN (frames st d (PDX la)), PTX la) x st) D q =
    (if present x \<and> PPN x = q then insert (d, PPN la) (maps st D q) else maps st D q - {(d, PPN la)})"
  using assms by (auto simp: maps_def entry_write_table [OF assms] split: if_splits)

lemma tables_ok_write_table:
  assumes "tables_ok st D" "t \<in> tables st D"
  shows "tables_ok (write_entry (t, i) x st) D"
proof -
  have "t \<notin> D" using assms by (auto simp: tables_ok_def)
  then have "frames (write_entry (t, i) x st) d j = frames st d j" if "d \<in> D" for d j using that by auto
  moreover have "owned (write_entry (t, i) x st) = owned st" by (simp add: owned_def fun_eq_iff)
  ultimately show ?thesis
    using assms(1) tables_write_table [OF assms] unfolding tables_ok_def by simp
qed

lemma user_page_write_table:
  assumes "tables_ok st D" "t \<in> tables st D"
  shows "user_page (write_entry (t, i) x st) D q = user_page st D q"
  by (simp add: user_page_def owned_def tables_write_table [OF assms])

lemma upd_page_ref [simp]:
  "upd_page p (snd \<circ> page_ref_inc) b = upd_page p (set_page_ref (ref (pages b p) + 1)) b"
  "upd_page p (snd \<circ> page_ref_dec) b = upd_page p (set_page_ref (ref (pages b p) - 1)) b"
  by (simp_all add: upd_page_def page_ref_inc_def page_ref_dec_def set_page_ref_def)

text \<open>One more reference held outside the page tables.\<close>

lemma hold_page:
  assumes ok: "pt_ok st D own pool" and p: "user_page st D p" "unat (refcount st p) = card (maps st D p) + own p"
    "refcount st p \<noteq> - 1"
  shows "pt_ok (upd_ref p (snd \<circ> page_ref_inc) st) D (own(p := Suc (own p))) (insert p pool)"
proof -
  let ?st = "upd_ref p (snd \<circ> page_ref_inc) st"
  have own: "owned ?st = owned st" by (simp add: owned_def fun_eq_iff)
  note v = view_cong [of ?st st]
  have rc: "refcount ?st q = (if q = p then refcount st p + 1 else refcount st q)" for q
    by simp (simp add: upd_page_def)
  have "unat (refcount st p + 1) = Suc (unat (refcount st p))"
    using p(3) unatSuc [of "refcount st p"] eq_neg_iff_add_eq_0 [of "refcount st p" 1]
    by (simp add: add.commute)
  moreover have "free_set (phys ?st) \<union> used ?st D (own(p := Suc (own p))) = insert p (free_set (phys st) \<union> used st D own)"
    using v by (auto simp: used_def)
  ultimately show ?thesis
    using ok p(1,2) own rc v
    by (auto simp: pt_ok_def phys_ok_def tables_ok_def refs_ok_def user_page_def owned_def split: if_splits)
qed

lemma unhold_page:
  assumes ok: "pt_ok st D own pool" and p: "0 < own p" and m: "maps st D p \<noteq> {}"
  shows "pt_ok (upd_ref p (snd \<circ> page_ref_dec) st) D (own(p := own p - 1)) pool"
proof -
  let ?st = "upd_ref p (snd \<circ> page_ref_dec) st"
  have own: "owned ?st = owned st" by (simp add: owned_def fun_eq_iff)
  note v = view_cong [of ?st st]
  have rc: "refcount ?st q = (if q = p then refcount st p - 1 else refcount st q)" for q
    by simp (simp add: upd_page_def)
  have up: "user_page st D p" "unat (refcount st p) = card (maps st D p) + own p"
    using ok p by (auto simp: pt_ok_def refs_ok_def)
  then have "unat (refcount st p - 1) = unat (refcount st p) - 1"
    using p by (intro unat_minus_one) auto
  moreover have "p \<notin> free_set (phys st)" using up(1) by (simp add: user_page_def owned_def)
  moreover have "free_set (phys ?st) \<union> used ?st D (own(p := own p - 1)) = free_set (phys st) \<union> used st D own"
    using v m p by (auto simp: used_def)
  ultimately show ?thesis
    using ok up p own rc v
    by (auto simp: pt_ok_def phys_ok_def tables_ok_def refs_ok_def user_page_def owned_def split: if_splits)
qed

text \<open>Turning a reference held elsewhere into a mapping at an empty entry.\<close>

lemma map_page:
  assumes ok: "pt_ok st D own pool" and d: "d \<in> D" "PPN la < UVN" "present (frames st d (PDX la))"
    and free: "\<not> present (entry st d (PPN la))" and p: "0 < own (PPN x)" and x: "present x"
  shows "pt_ok (write_entry (PPN (frames st d (PDX la)), PTX la) x st) D (own(PPN x := own (PPN x) - 1)) pool"
proof -
  let ?t = "PPN (frames st d (PDX la))"
  let ?st = "write_entry (?t, PTX la) x st"
  have tok: "tables_ok st D" and fin: "finite D" using ok by (simp_all add: pt_ok_def tables_ok_def)
  have t: "?t \<in> tables st D" using d user_index by (intro in_tables) auto
  have new: "(d, PPN la) \<notin> maps st D q" for q using free by (simp add: maps_def)
  have m: "maps ?st D q = (if PPN x = q then insert (d, PPN la) (maps st D q) else maps st D q)" for q
    using maps_write_table [OF tok d] x new by auto
  have "card (maps ?st D (PPN x)) = Suc (card (maps st D (PPN x)))"
    using m new finite_maps [OF fin] by simp
  then have "refs_ok ?st D (own(PPN x := own (PPN x) - 1))"
    using ok p m user_page_write_table [OF tok t] by (auto simp: pt_ok_def refs_ok_def)
  moreover have "used ?st D (own(PPN x := own (PPN x) - 1)) = used st D own"
    using m p tables_write_table [OF tok t] by (auto simp: used_def)
  ultimately show ?thesis using ok tables_ok_write_table [OF tok t]
    by (simp add: pt_ok_def phys_ok_def)
qed

text \<open>Changing the permissions of a mapping.\<close>

lemma remap_page:
  assumes ok: "pt_ok st D own pool" and d: "d \<in> D" "PPN la < UVN" "present (frames st d (PDX la))"
    and old: "present (entry st d (PPN la))" and x: "present x" "PPN x = PPN (entry st d (PPN la))"
  shows "pt_ok (write_entry (PPN (frames st d (PDX la)), PTX la) x st) D own pool"
proof -
  let ?t = "PPN (frames st d (PDX la))"
  have tok: "tables_ok st D" using ok by (simp add: pt_ok_def)
  have t: "?t \<in> tables st D" using d user_index by (intro in_tables) auto
  have m: "maps (write_entry (?t, PTX la) x st) D = maps st D"
    using maps_write_table [OF tok d] x old d by (auto simp: maps_def fun_eq_iff)
  then have "refs_ok (write_entry (?t, PTX la) x st) D own"
    using ok user_page_write_table [OF tok t] by (simp add: pt_ok_def refs_ok_def)
  with ok m tables_ok_write_table [OF tok t] show ?thesis
    by (simp add: pt_ok_def phys_ok_def used_def tables_write_table [OF tok t])
qed

section \<open>Removing and inserting mappings\<close>

text \<open>The effect of an operation on entry \<open>v\<close> of directory \<open>d\<close>; the TLB forgets a changed entry.\<close>

definition remapped :: "machine \<Rightarrow> nat set \<Rightarrow> nat \<Rightarrow> nat \<Rightarrow> u32 \<Rightarrow> machine \<Rightarrow> bool" where
  "remapped st D d v x st' \<longleftrightarrow>
     (\<forall>d'\<in>D. \<forall>v'<UVN. entry st' d' v' = (if d' = d \<and> v' = v then x else entry st d' v')) \<and>
     (\<forall>e\<in>D. \<forall>i. present (frames st e i) \<longrightarrow> frames st' e i = frames st e i) \<and>
     cr3 st' = cr3 st \<and> tlb st' = (if cr3 st = page2pa d then (tlb st)(v := None) else tlb st)"

lemma pt_ok_cong:
  assumes "frames st' = frames st" "phys st' = phys st"
  shows "pt_ok st' D own pool = pt_ok st D own pool"
  unfolding pt_ok_def phys_ok_def tables_ok_def refs_ok_def user_page_def owned_def used_def view_cong [OF assms(1)] assms ..

lemma mapped_page:
  assumes "pt_ok st D own pool" "d \<in> D" "v < UVN" "present (entry st d v)"
  shows "user_page st D (PPN (entry st d v))"
    "unat (refcount st (PPN (entry st d v))) = card (maps st D (PPN (entry st d v))) + own (PPN (entry st d v))"
    "refcount st (PPN (entry st d v)) \<noteq> 0"
proof -
  let ?q = "PPN (entry st d v)"
  have in_maps: "(d, v) \<in> maps st D ?q" using assms by (simp add: maps_def)
  then have "maps st D ?q \<noteq> {}" by blast
  with assms(1) show u: "user_page st D ?q" "unat (refcount st ?q) = card (maps st D ?q) + own ?q"
    by (simp_all add: pt_ok_def refs_ok_def)
  have "finite (maps st D ?q)" using assms(1) by (intro finite_maps) (simp add: pt_ok_def tables_ok_def)
  with in_maps have "card (maps st D ?q) \<noteq> 0" by auto
  with u(2) show "refcount st ?q \<noteq> 0" by auto
qed

lemma unmap_page:
  assumes ok: "pt_ok st D own pool" and d: "d \<in> D" "PPN la < UVN" "present (frames st d (PDX la))"
    and old: "present (entry st d (PPN la))"
    and b: "buddy_inv b" "region_ok b = region_ok (phys st)"
      "\<forall>q. ref (pages b q) = (if q = PPN (entry st d (PPN la)) then refcount st q - 1 else refcount st q)"
      "free_set b = (if refcount st (PPN (entry st d (PPN la))) = 1 then insert (PPN (entry st d (PPN la))) (free_set (phys st))
        else free_set (phys st))"
  defines "st' \<equiv> write_entry (PPN (frames st d (PDX la)), PTX la) 0 (st\<lparr>phys := b\<rparr>)"
  shows "pt_ok st' D own pool"
proof -
  define q where "q = PPN (entry st d (PPN la))"
  let ?t = "PPN (frames st d (PDX la))"
  have tok: "tables_ok st D" and fin: "finite D" and pok: "phys_ok st" and rok: "refs_ok st D own"
    using ok by (simp_all add: pt_ok_def tables_ok_def)
  note q = mapped_page [OF ok d(1,2) old, folded q_def]
  have t: "?t \<in> tables st D" using d user_index by (intro in_tables) auto
  have fr: "frames st' = frames (write_entry (?t, PTX la) 0 st)" by (simp add: st'_def write_entry_def)
  note v = view_cong [OF fr]
  have tab: "tables st' D = tables st D" using v(2) tables_write_table [OF tok t] by simp
  have m: "maps st' D p = maps st D p - {(d, PPN la)}" for p
    using v(3) maps_write_table [OF tok d] by simp
  have mq: "maps st D p - {(d, PPN la)} = maps st D p" if "p \<noteq> q" for p
    using that by (auto simp: maps_def q_def)
  have card: "card (maps st' D q) = card (maps st D q) - 1" "0 < card (maps st D q)"
  proof -
    have "(d, PPN la) \<in> maps st D q" using d old by (simp add: maps_def q_def)
    then show "card (maps st' D q) = card (maps st D q) - 1" "0 < card (maps st D q)"
      using m finite_maps [OF fin] by (auto simp: card_gt_0_iff)
  qed
  have owned': "owned st' p \<longleftrightarrow> owned st p \<and> \<not> (p = q \<and> refcount st q = 1)" for p
    using b(2,4) by (auto simp: owned_def st'_def q_def)
  have rc: "refcount st' p = (if p = q then refcount st q - 1 else refcount st p)" for p
    using b(3) by (simp add: st'_def q_def)
  have u1: "unat (refcount st q - 1) = unat (refcount st q) - 1"
    using q(3) by (rule unat_minus_one)
  have one: "refcount st q = 1 \<longleftrightarrow> unat (refcount st q) = 1"
    by (simp add: word_unat_eq_iff)
  have "tables_ok st' D"
  proof -
    have "\<forall>e\<in>D. owned st' e" "\<forall>e\<in>tables st D. owned st' e"
      using tok owned' q(1) by (auto simp: tables_ok_def user_page_def)
    moreover have "frames st' e j = frames st e j" if "e \<in> D" for e j
      using that t tok unfolding fr by (auto simp: tables_ok_def)
    ultimately show ?thesis using tok tab unfolding tables_ok_def by simp
  qed
  moreover have "phys_ok st'"
    using pok b(1,2) rc b(4) q(1) unfolding phys_ok_def user_page_def owned_def by (auto simp: st'_def q_def [symmetric])
  moreover have "refs_ok st' D own"
    unfolding refs_ok_def
  proof (intro allI impI)
    fix p assume p: "maps st' D p \<noteq> {} \<or> 0 < own p"
    show "user_page st' D p \<and> unat (refcount st' p) = card (maps st' D p) + own p"
    proof (cases "p = q")
      case True
      have "0 < card (maps st' D q) + own q"
        using p True finite_maps [OF fin, of st' q] by (auto simp: card_gt_0_iff)
      then have "refcount st q \<noteq> 1" using card q(2) one by linarith
      with True q card u1 rc owned' tab show ?thesis by (auto simp: user_page_def)
    next
      case False
      then have "maps st' D p = maps st D p" using m mq by simp
      with p rok have "user_page st D p" "unat (refcount st p) = card (maps st D p) + own p"
        by (auto simp: refs_ok_def)
      with False \<open>maps st' D p = maps st D p\<close> rc owned' tab show ?thesis by (auto simp: user_page_def)
    qed
  qed
  moreover have "free_set (phys st') \<union> used st' D own = free_set (phys st) \<union> used st D own"
  proof -
    have f: "free_set (phys st') = (if refcount st q = 1 then insert q (free_set (phys st)) else free_set (phys st))"
      using b(4) by (simp add: st'_def q_def)
    have "maps st' D q \<noteq> {} \<or> 0 < own q \<longleftrightarrow> refcount st q \<noteq> 1"
      using card q(2) one finite_maps [OF fin, of st' q] by (auto simp: card_gt_0_iff [symmetric])
    moreover have "maps st' D p = maps st D p" if "p \<noteq> q" for p using m mq [OF that] by simp
    moreover have "maps st D q \<noteq> {}" using card(2) by auto
    ultimately have "p \<in> free_set (phys st') \<union> used st' D own \<longleftrightarrow> p \<in> free_set (phys st) \<union> used st D own" for p
      unfolding f used_def tab by (cases "p = q") auto
    then show ?thesis by blast
  qed
  ultimately show ?thesis using ok by (simp add: pt_ok_def)
qed

lemma page_remove_pte_ok:
  assumes ok: "pt_ok st D own pool" and d: "d \<in> D" "PPN la < UVN" "present (frames st d (PDX la))"
    and old: "present (entry st d (PPN la))"
  shows "\<exists>st'. page_remove_pte d la (PPN (frames st d (PDX la)), PTX la) st = Some st' \<and> pt_ok st' D own pool
    \<and> remapped st D d (PPN la) 0 st' \<and> (\<forall>e\<in>D. frames st' e = frames st e) \<and> tables st' D = tables st D
    \<and> (\<forall>q. user_page st D q \<longrightarrow> q \<noteq> PPN (entry st d (PPN la)) \<longrightarrow> user_page st' D q \<and> refcount st' q = refcount st q)
    \<and> free_set (phys st') = (if refcount st (PPN (entry st d (PPN la))) = 1
        then insert (PPN (entry st d (PPN la))) (free_set (phys st)) else free_set (phys st))"
proof -
  let ?t = "PPN (frames st d (PDX la))"
  define q where "q = PPN (entry st d (PPN la))"
  have tok: "tables_ok st D" and inv: "buddy_inv (phys st)" using ok by (simp_all add: pt_ok_def phys_ok_def)
  have t: "?t \<in> tables st D" using d user_index by (intro in_tables) auto
  note qq = mapped_page [OF ok d(1,2) old, folded q_def]
  have own: "region_ok (phys st) q 1" "q \<notin> free_set (phys st)" using qq(1) by (auto simp: user_page_def owned_def)
  have rd: "read_entry (?t, PTX la) st = entry st d (PPN la)" using d(3) by (simp add: read_entry_def entry_la)
  have "pte2page (entry st d (PPN la)) st = Some q"
    using old own(1) by (auto simp: pte2page_def pa2page_def present_def q_def region_ok_def)
  from bc.put_page [OF inv own qq(3)] obtain b where
    b: "(if refcount st q - 1 = 0 then buddy_free_pages q 1 (upd_page q (set_page_ref (refcount st q - 1)) (phys st))
         else Some (upd_page q (set_page_ref (refcount st q - 1)) (phys st))) = Some b"
    "buddy_inv b" "region_ok b = region_ok (phys st)"
    "(\<lambda>p. ref (pages b p)) = (\<lambda>p. refcount st p)(q := refcount st q - 1)"
    "free_set b = (if refcount st q = 1 then insert q (free_set (phys st)) else free_set (phys st))"
    by blast
  let ?st' = "tlb_invalidate d la (write_entry (?t, PTX la) 0 (st\<lparr>phys := b\<rparr>))"
  have eq: "page_remove_pte d la (?t, PTX la) st = Some ?st'"
    using old rd \<open>pte2page (entry st d (PPN la)) st = Some q\<close> b(1)
    by (auto simp: page_remove_pte_def present_def page_ref_dec_def free_pages_eq upd_ref_def split: if_splits)
  have refs: "\<forall>p. ref (pages b p) = (if p = q then refcount st p - 1 else refcount st p)"
    using b(4) by (simp add: fun_eq_iff)
  have "pt_ok (write_entry (?t, PTX la) 0 (st\<lparr>phys := b\<rparr>)) D own pool"
    using unmap_page [OF ok d old b(2,3)] refs b(5) by (simp add: q_def)
  then have ok': "pt_ok ?st' D own pool" by (subst pt_ok_cong) simp_all
  have fr: "frames ?st' = frames (write_entry (?t, PTX la) 0 st)" by (simp add: write_entry_def)
  have dirs: "\<forall>e\<in>D. frames ?st' e = frames st e"
    using t tok unfolding fr by (auto simp: tables_ok_def fun_eq_iff)
  have rem: "remapped st D d (PPN la) 0 ?st'"
    using entry_write_table [OF tok d] dirs
    by (simp add: remapped_def view_cong [OF fr] del: tlb_invalidate_simps(1) frames_write(1)) (simp add: tlb_invalidate_def)
  have tab: "tables ?st' D = tables st D" by (simp add: view_cong [OF fr] tables_write_table [OF tok t])
  have "user_page ?st' D p \<and> refcount ?st' p = refcount st p" if "user_page st D p" "p \<noteq> q" for p
    using that tab b(3,5) refs by (auto simp: user_page_def owned_def)
  with eq ok' rem dirs tab b(5) show ?thesis unfolding q_def by auto
qed

lemma hold_entry:
  "entry (upd_ref p f st) = entry st" "maps (upd_ref p f st) = maps st" "tables (upd_ref p f st) = tables st"
  by (rule view_cong, simp)+

lemma new_entry:
  assumes "phys_ok st" "owned st p" "perm < 4096"
  shows "present (page2pa p OR PTE_P OR perm)" "PPN (page2pa p OR PTE_P OR perm) = p"
proof -
  have px: "PTE_P OR perm < 4096" using assms(3) by (intro or_less) simp_all
  have p20: "p < 2 ^ 20" using assms(1,2) by (simp add: phys_ok_def owned_def)
  show "present (page2pa p OR PTE_P OR perm)" "PPN (page2pa p OR PTE_P OR perm) = p"
    using px p20 by (simp_all add: PPN_page2pa present_page2pa)
      (simp add: present_def bit.conj_disj_distrib2 word_bw_assocs)
qed

text \<open>
  The middle of \<^verbatim>\<open>page_insert\<close>, between finding the entry and writing it: the new page is held, and
  what the entry mapped before is given back.
\<close>

definition replace_page :: "nat \<Rightarrow> nat \<Rightarrow> u32 \<Rightarrow> nat \<times> nat \<Rightarrow> machine \<Rightarrow> machine option" where
  "replace_page d p la e st =
     (let st = upd_ref p (snd \<circ> page_ref_inc) st in
      if read_entry e st AND PTE_P \<noteq> 0 then do {
        q \<leftarrow> pte2page (read_entry e st) st;
        if q = p then Some (upd_ref p (snd \<circ> page_ref_dec) st) else page_remove_pte d la e st
      }
      else Some st)"

lemma page_insert_replace: "page_insert d p la perm st = do {
     (ptep, st) \<leftarrow> get_pte d la True st;
     case ptep of
       None \<Rightarrow> Some (- E_NO_MEM, st)
     | Some e \<Rightarrow> do {
         st \<leftarrow> replace_page d p la e st;
         Some (0, tlb_invalidate d la (write_entry e (page2pa p OR PTE_P OR perm) st)) } }"
  by (simp add: page_insert_def replace_page_def Let_def cong: option.case_cong)

lemma replace_page_ok:
  assumes ok: "pt_ok st D own pool" and d: "d \<in> D" "PPN la < UVN" and pr: "present (frames st d (PDX la))"
    and p: "user_page st D p" "unat (refcount st p) = card (maps st D p) + own p" "refcount st p \<noteq> - 1"
    and x: "present x" "PPN x = p"
  defines "e \<equiv> (PPN (frames st d (PDX la)), PTX la)"
  shows "\<exists>st'. replace_page d p la e st = Some st' \<and> pt_ok (write_entry e x st') D own (insert p pool) \<and> tables_ok st' D
    \<and> (\<forall>e\<in>D. frames st' e = frames st e) \<and> (\<forall>d'\<in>D. \<forall>v<UVN. (d', v) \<noteq> (d, PPN la) \<longrightarrow> entry st' d' v = entry st d' v)
    \<and> cr3 st' = cr3 st \<and> (tlb st' = tlb st \<or> cr3 st = page2pa d \<and> tlb st' = (tlb st)(PPN la := None))"
proof -
  let ?v = "PPN la" and ?st2 = "upd_ref p (snd \<circ> page_ref_inc) st" and ?own = "own(p := Suc (own p))"
  have ok2: "pt_ok ?st2 D ?own (insert p pool)" by (rule hold_page [OF ok p])
  have pr2: "present (frames ?st2 d (PDX la))" and e2: "e = (PPN (frames ?st2 d (PDX la)), PTX la)"
    using pr by (simp_all add: e_def)
  have rd: "read_entry e ?st2 = entry st d ?v" using pr by (simp add: read_entry_def entry_la e_def)
  have m2: "entry ?st2 = entry st" by (simp add: hold_entry)
  have t2: "tables_ok ?st2 D" using ok2 by (simp add: pt_ok_def)
  have own: "?own(PPN x := ?own (PPN x) - 1) = own" using x by auto
  show ?thesis
  proof (cases "present (entry st d ?v)")
    case False
    have "pt_ok (write_entry e x ?st2) D (?own(PPN x := ?own (PPN x) - 1)) (insert p pool)"
      unfolding e2 by (rule map_page [OF ok2 d pr2]) (use False m2 x in simp_all)
    with False t2 own show ?thesis by (simp add: replace_page_def rd present_def m2)
  next
    case True
    then have q: "replace_page d p la e st = (if PPN (entry st d ?v) = p then Some (upd_ref p (snd \<circ> page_ref_dec) ?st2)
        else page_remove_pte d la e ?st2)"
      using mapped_page(1) [OF ok d True]
      by (simp add: replace_page_def rd pte2page_def pa2page_def present_def user_page_def owned_def region_ok_def upd_page_def)
    show ?thesis
    proof (cases "PPN (entry st d ?v) = p")
      case same: True
      have ok3: "pt_ok (upd_ref p (snd \<circ> page_ref_dec) ?st2) D own (insert p pool)"
        using unhold_page [OF ok2, of p] True same d by (auto simp: fun_upd_idem hold_entry maps_def)
      have "pt_ok (write_entry e x (upd_ref p (snd \<circ> page_ref_dec) ?st2)) D own (insert p pool)"
        using remap_page [OF ok3 d, of x] True same x pr by (simp add: hold_entry e_def)
      with ok3 q same show ?thesis by (simp add: pt_ok_def hold_entry)
    next
      case other: False
      from page_remove_pte_ok [OF ok2 d pr2] True m2 obtain st3 where
        r: "page_remove_pte d la e ?st2 = Some st3" and ok3: "pt_ok st3 D ?own (insert p pool)" and
        rem: "remapped ?st2 D d ?v 0 st3" and dirs: "\<forall>e\<in>D. frames st3 e = frames st e" by (auto simp: e_def)
      have e3: "\<not> present (entry st3 d ?v)" using rem d by (simp add: remapped_def)
      have pr3: "present (frames st3 d (PDX la))" and "e = (PPN (frames st3 d (PDX la)), PTX la)"
        using dirs d(1) pr by (simp_all add: e_def)
      then have "pt_ok (write_entry e x st3) D (?own(PPN x := ?own (PPN x) - 1)) (insert p pool)"
        using map_page [OF ok3 d pr3 e3, of x] x by simp
      with own q other r ok3 rem dirs d m2 show ?thesis by (auto simp: pt_ok_def remapped_def)
    qed
  qed
qed

lemma page_insert_ok:
  assumes ok: "pt_ok st D own pool" and d: "d \<in> D" "PPN la < UVN" and perm: "perm < 4096"
    and p: "user_page st D p" "unat (refcount st p) = card (maps st D p) + own p" "refcount st p \<noteq> - 1"
  shows "\<exists>r st'. page_insert d p la perm st = Some (r, st') \<and>
    (r = - E_NO_MEM \<and> st' = st \<and> \<not> present (frames st d (PDX la)) \<and> free_set (phys st) = {}
     \<or> r = 0 \<and> pt_ok st' D own (insert p pool) \<and> remapped st D d (PPN la) (page2pa p OR PTE_P OR perm) st'
       \<and> (\<forall>q. owned st q \<longrightarrow> q \<in> tables st' D \<longrightarrow> q \<in> tables st D))"
proof (rule get_pte_create [OF ok d])
  assume "get_pte d la True st = Some (None, st)" "\<not> present (frames st d (PDX la))" "free_set (phys st) = {}"
  then show ?thesis by (simp add: page_insert_def)
next
  fix st1
  assume g: "get_pte d la True st = Some (Some (PPN (frames st1 d (PDX la)), PTX la), st1)"
    and ok1: "pt_ok st1 D own pool" and gr: "grown st D st1" and pr: "present (frames st1 d (PDX la))"
  let ?v = "PPN la" and ?x = "page2pa p OR PTE_P OR perm" and ?e = "(PPN (frames st1 d (PDX la)), PTX la)"
  have p1: "user_page st1 D p" "refcount st1 p = refcount st p" "maps st1 D p = maps st D p"
    using p(1) gr grown_user_page [OF gr p(1)] grown_maps [OF gr] by (auto simp: grown_def user_page_def)
  have x: "present ?x" "PPN ?x = p"
    using new_entry [of st p perm] ok p(1) perm by (simp_all add: pt_ok_def user_page_def)
  obtain st2 where r: "replace_page d p la ?e st1 = Some st2" and ok2: "pt_ok (write_entry ?e ?x st2) D own (insert p pool)"
    and t2: "tables_ok st2 D" and rest: "\<forall>e\<in>D. frames st2 e = frames st1 e"
      "\<forall>d'\<in>D. \<forall>v<UVN. (d', v) \<noteq> (d, ?v) \<longrightarrow> entry st2 d' v = entry st1 d' v" "cr3 st2 = cr3 st1"
      "tlb st2 = tlb st1 \<or> cr3 st1 = page2pa d \<and> tlb st2 = (tlb st1)(?v := None)"
    using replace_page_ok [OF ok1 d pr _ _ _ x] p p1 by auto
  let ?st3 = "tlb_invalidate d la (write_entry ?e ?x st2)"
  have same: "frames ?st3 = frames (write_entry ?e ?x st2)" "phys ?st3 = phys (write_entry ?e ?x st2)" by simp_all
  have "PPN (frames st1 d (PDX la)) \<notin> D"
    using t2 in_tables [of d D "PDX la" st2] user_index [OF d(2)] d(1) pr rest(1) by (auto simp: tables_ok_def)
  then have dirs: "\<forall>e\<in>D. frames ?st3 e = frames st1 e"
    using rest(1) by (auto simp: fun_eq_iff)
  have "entry ?st3 d' v = (if d' = d \<and> v = ?v then ?x else entry st2 d' v)" if "d' \<in> D" "v < UVN" for d' v
    using entry_write_table [OF t2 d _ that] pr rest(1) d(1) by (simp add: view_cong [OF same(1)])
  then have "remapped st1 D d ?v ?x ?st3"
    unfolding remapped_def using dirs rest(2-4) by (auto simp: tlb_invalidate_def)
  then have "remapped st D d ?v ?x ?st3" using gr by (auto simp: remapped_def grown_def)
  moreover have "pt_ok ?st3 D own (insert p pool)" using pt_ok_cong [OF same] ok2 by simp
  moreover have "tables ?st3 D = tables st1 D" by (rule tables_cong [OF dirs])
  then have "\<forall>q. owned st q \<longrightarrow> q \<in> tables ?st3 D \<longrightarrow> q \<in> tables st D" using gr by (simp add: grown_def)
  ultimately show ?thesis using g r by (simp add: page_insert_replace)
qed

section \<open>The TLB\<close>

text \<open>What the TLB has cached for the current directory is what the page tables say.\<close>

definition tlb_ok :: "machine \<Rightarrow> nat set \<Rightarrow> bool" where
  "tlb_ok st D \<longleftrightarrow> (\<forall>d\<in>D. cr3 st = page2pa d \<longrightarrow> (\<forall>v<UVN. \<forall>e. tlb st v = Some e \<longrightarrow> e = entry st d v))"

lemma page2pa_inj: "p < 2 ^ 20 \<Longrightarrow> q < 2 ^ 20 \<Longrightarrow> page2pa p = page2pa q \<longleftrightarrow> p = q"
proof -
  assume "p < 2 ^ 20" "q < 2 ^ 20"
  then have "PPN (page2pa p OR 0) = p" "PPN (page2pa q OR 0) = q" by (intro PPN_page2pa; simp)+
  then show "page2pa p = page2pa q \<longleftrightarrow> p = q" by (metis or.right_neutral)
qed

lemma remapped_tlb_ok:
  assumes "pt_ok st D own pool" "d \<in> D" "remapped st D d v x st'" "tlb_ok st D"
  shows "tlb_ok st' D"
proof -
  have "page2pa d' = page2pa d \<longleftrightarrow> d' = d" if "d' \<in> D" for d'
    using assms(1,2) that by (intro page2pa_inj) (auto simp: pt_ok_def phys_ok_def tables_ok_def owned_def)
  with assms(3,4) show ?thesis unfolding tlb_ok_def remapped_def by (auto split: if_splits)
qed

section \<open>Ranges\<close>

lemma page_remove_ok:
  assumes ok: "pt_ok st D own pool" and d: "d \<in> D" "PPN la < UVN"
  shows "\<exists>st'. page_remove d la st = Some st' \<and> pt_ok st' D own pool \<and>
    (if present (entry st d (PPN la)) then remapped st D d (PPN la) 0 st' else st' = st)"
proof (cases "present (frames st d (PDX la))")
  case True
  have tok: "tables_ok st D" using ok by (simp add: pt_ok_def)
  note g = get_pte_present [OF tok d True, of False]
  have rd: "read_entry (PPN (frames st d (PDX la)), PTX la) st = entry st d (PPN la)"
    using True by (simp add: read_entry_def entry_la)
  show ?thesis
  proof (cases "present (entry st d (PPN la))")
    case old: True
    with page_remove_pte_ok [OF ok d True old] g show ?thesis by (auto simp: page_remove_def)
  next
    case False
    with g rd ok show ?thesis by (simp add: page_remove_def page_remove_pte_def present_def)
  qed
next
  case False
  then have "\<not> present (entry st d (PPN la))" by (simp add: entry_la)
  with False ok show ?thesis by (simp add: page_remove_def get_pte_absent)
qed

text \<open>One round of the loops over a range: the next address, and which virtual pages it passes.\<close>

lemma next_page:
  assumes "unat start < 0xB0000000" "4096 dvd unat start"
  shows "unat (start + PGSIZE) = unat start + 4096" "PPN (start + PGSIZE) = Suc (PPN start)"
proof -
  show u: "unat (start + PGSIZE) = unat start + 4096"
    using assms(1) by (simp add: unat_word_ariths)
  show "PPN (start + PGSIZE) = Suc (PPN start)" unfolding PPN_eq u by simp
qed

lemma next_table:
  assumes "unat start < 0xB0000000"
  defines "s \<equiv> ROUNDDOWN (start + PTSIZE) PTSIZE"
  shows "unat s = 4194304 * Suc (PDX start)" "PPN s = 1024 * Suc (PDX start)" "unat start < unat s"
proof -
  have "unat (start + PTSIZE) = unat start + 4194304"
    using assms(1) by (simp add: unat_word_ariths)
  moreover have "(unat start + 4194304) div 4194304 = Suc (unat start div 4194304)" by simp
  ultimately show u: "unat s = 4194304 * Suc (PDX start)"
    by (simp add: s_def unat_ROUNDDOWN_div PDX_eq del: div_add_self2)
  show "PPN s = 1024 * Suc (PDX start)" unfolding PPN_eq u by simp
  show "unat start < unat s" unfolding u PDX_eq by (metis dividend_less_times_div mult_Suc_right add.commute zero_less_numeral)
qed

definition unmapped :: "machine \<Rightarrow> nat set \<Rightarrow> nat \<Rightarrow> nat \<Rightarrow> nat \<Rightarrow> machine \<Rightarrow> bool" where
  "unmapped st D d a b st' \<longleftrightarrow>
     (\<forall>d'\<in>D. \<forall>v<UVN. entry st' d' v = (if d' = d \<and> a \<le> v \<and> v < b \<and> present (entry st d v) then 0 else entry st d' v))
     \<and> (\<forall>e\<in>D. frames st' e = frames st e) \<and> cr3 st' = cr3 st \<and> (tlb_ok st D \<longrightarrow> tlb_ok st' D)"

lemma unmapped_trans: "unmapped st D d a b st1 \<Longrightarrow> unmapped st1 D d b c st2 \<Longrightarrow> d \<in> D \<Longrightarrow> a \<le> b \<Longrightarrow> b \<le> c \<Longrightarrow> unmapped st D d a c st2"
  unfolding unmapped_def by auto

lemma unmap_step:
  assumes ok: "pt_ok st D own pool" and d: "d \<in> D" and s: "unat start < 0xB0000000" "4096 dvd unat start"
  shows "\<exists>start' st'. unmap_loop d start end st = (if start' \<noteq> 0 \<and> start' < end then unmap_loop d start' end st' else Some st')
    \<and> pt_ok st' D own pool \<and> unmapped st D d (PPN start) (PPN start') st' \<and> unat start < unat start' \<and> 4096 dvd unat start'
    \<and> (unat start' = unat start + 4096 \<or> (\<forall>v. PPN start \<le> v \<and> v < PPN start' \<longrightarrow> \<not> present (entry st d v)))"
proof (cases "present (frames st d (PDX start))")
  case False
  let ?s = "ROUNDDOWN (start + PTSIZE) PTSIZE"
  note n = next_table [OF s(1)]
  have zero: "entry st d v = 0" if "PPN start \<le> v" "v < PPN ?s" for v
  proof -
    have "v div 1024 = PDX start" using that unfolding n(2) PDX_PPN by (simp add: div_nat_eqI algebra_simps)
    then show ?thesis using False by (simp add: entry_def Let_def)
  qed
  then have "unmapped st D d (PPN start) (PPN ?s) st" "\<forall>v. PPN start \<le> v \<and> v < PPN ?s \<longrightarrow> \<not> present (entry st d v)"
    by (auto simp: unmapped_def)
  moreover have "4096 dvd unat ?s" unfolding n(1) by (rule dvd_mult2) simp
  moreover have "unmap_loop d start end st = (if ?s \<noteq> 0 \<and> ?s < end then unmap_loop d ?s end st else Some st)"
    using False by (subst unmap_loop.simps) (simp add: get_pte_absent)
  ultimately show ?thesis using ok n(3) by blast
next
  case True
  have v: "PPN start < UVN" using s(1) by (simp add: PPN_eq)
  have tok: "tables_ok st D" using ok by (simp add: pt_ok_def)
  note g = get_pte_present [OF tok d v True, of False] and n = next_page [OF s]
  let ?e = "(PPN (frames st d (PDX start)), PTX start)"
  have rd: "read_entry ?e st = entry st d (PPN start)"
    using True by (simp add: read_entry_def entry_la)
  have "\<exists>st'. (if read_entry ?e st \<noteq> 0 then page_remove_pte d start ?e st else Some st) = Some st' \<and> pt_ok st' D own pool
    \<and> unmapped st D d (PPN start) (Suc (PPN start)) st'"
  proof (cases "present (entry st d (PPN start))")
    case old: True
    then have "entry st d (PPN start) \<noteq> 0" by (metis not_present_0)
    moreover obtain st' where st': "page_remove_pte d start ?e st = Some st'" "pt_ok st' D own pool"
      "remapped st D d (PPN start) 0 st'" "\<forall>e\<in>D. frames st' e = frames st e"
      using page_remove_pte_ok [OF ok d v True old] by blast
    moreover have "unmapped st D d (PPN start) (Suc (PPN start)) st'"
      using st'(3,4) old remapped_tlb_ok [OF ok d st'(3)] by (auto simp: unmapped_def remapped_def less_Suc_eq_le)
    ultimately show ?thesis using rd by simp
  next
    case False
    then have "page_remove_pte d start ?e st = Some st" using rd by (simp add: page_remove_pte_def present_def)
    moreover have "unmapped st D d (PPN start) (Suc (PPN start)) st"
      using False by (auto simp: unmapped_def less_Suc_eq)
    ultimately show ?thesis using ok by simp
  qed
  then obtain st' where st': "(if read_entry ?e st \<noteq> 0 then page_remove_pte d start ?e st else Some st) = Some st'"
    "pt_ok st' D own pool" "unmapped st D d (PPN start) (Suc (PPN start)) st'" by blast
  have "unmap_loop d start end st = (if start + PGSIZE \<noteq> 0 \<and> start + PGSIZE < end
      then unmap_loop d (start + PGSIZE) end st' else Some st')"
    using g st'(1) by (subst unmap_loop.simps) simp
  with st'(2,3) n s(2) show ?thesis by (metis dvd_add dvd_refl less_add_same_cancel1 zero_less_numeral)
qed

lemma unmapped_shrink:
  assumes "unmapped st D d a b st'" "\<forall>v. a \<le> v \<and> v < b \<longrightarrow> \<not> present (entry st d v)" "c \<le> b"
  shows "unmapped st D d a c st'"
  using assms unfolding unmapped_def by auto

lemma unmap_loop_ok:
  assumes "pt_ok st D own pool" "d \<in> D" "unat start < unat end" "unat end \<le> 0xB0000000"
    "4096 dvd unat start" "4096 dvd unat end"
  shows "\<exists>st'. unmap_loop d start end st = Some st' \<and> pt_ok st' D own pool \<and> unmapped st D d (PPN start) (PPN end) st'"
  using assms
proof (induction "unat end - unat start" arbitrary: start st rule: less_induct)
  case less
  have s: "unat start < 0xB0000000" using less.prems by simp
  obtain start' st1 where step: "unmap_loop d start end st =
      (if start' \<noteq> 0 \<and> start' < end then unmap_loop d start' end st1 else Some st1)"
    and st1: "pt_ok st1 D own pool" "unmapped st D d (PPN start) (PPN start') st1" and lt: "unat start < unat start'"
    and al: "4096 dvd unat start'" and how: "unat start' = unat start + 4096 \<or>
      (\<forall>v. PPN start \<le> v \<and> v < PPN start' \<longrightarrow> \<not> present (entry st d v))"
    using unmap_step [OF less.prems(1,2) s less.prems(5), of "end"] by blast
  have nz: "start' \<noteq> 0" using lt by auto
  show ?case
  proof (cases "unat start' < unat end")
    case True
    have "unat end - unat start' < unat end - unat start" using lt True by linarith
    then obtain st' where "unmap_loop d start' end st1 = Some st'" "pt_ok st' D own pool"
      "unmapped st1 D d (PPN start') (PPN end) st'"
      using less.hyps [of start' st1] st1(1) less.prems True al by auto
    moreover have "PPN start \<le> PPN start'" "PPN start' \<le> PPN end"
      using lt True by (auto simp: PPN_eq intro!: div_le_mono)
    ultimately show ?thesis
      using step nz True unmapped_trans [OF st1(2)] less.prems(2) by (auto simp: word_less_nat_alt)
  next
    case False
    then have eq: "unmap_loop d start end st = Some st1" using step by (simp add: word_less_nat_alt)
    have "unmapped st D d (PPN start) (PPN end) st1"
      using how
    proof
      assume "unat start' = unat start + 4096"
      moreover have "unat start + 4096 \<le> unat end" using less.prems(3,5,6) by (auto elim!: dvdE)
      ultimately show ?thesis using st1(2) False by (simp add: PPN_eq)
    next
      assume "\<forall>v. PPN start \<le> v \<and> v < PPN start' \<longrightarrow> \<not> present (entry st d v)"
      moreover have "PPN end \<le> PPN start'" using False by (simp add: PPN_eq div_le_mono)
      ultimately show ?thesis by (intro unmapped_shrink [OF st1(2)])
    qed
    with eq st1(1) show ?thesis by simp
  qed
qed

lemma maps_shrink: "\<forall>d\<in>D. \<forall>v<UVN. entry st' d v = entry st d v \<or> entry st' d v = 0 \<Longrightarrow> maps st' D q \<subseteq> maps st D q"
  by (fastforce simp: maps_def)

lemma unmapped_maps: "unmapped st D d a b st' \<Longrightarrow> maps st' D q \<subseteq> maps st D q"
  by (rule maps_shrink) (simp add: unmapped_def)

lemma unmap_range_ok:
  assumes "pt_ok st D own pool" "d \<in> D" "USER_ACCESS start end" "start mod PGSIZE = 0" "end mod PGSIZE = 0"
  shows "\<exists>st'. unmap_range d start end st = Some st' \<and> pt_ok st' D own pool \<and> unmapped st D d (PPN start) (PPN end) st'"
proof -
  have "4096 dvd unat start" "4096 dvd unat end"
    using assms(4,5) by (auto simp: word_eq_iff_unsigned [where ?'a = nat] unat_mod)
  moreover have "unat start < unat end" "unat end \<le> 0xB0000000"
    using assms(3) by (auto simp: USER_ACCESS_def word_less_nat_alt word_le_nat_alt)
  ultimately show ?thesis
    using assms unmap_loop_ok [OF assms(1,2)] by (simp add: unmap_range_def)
qed

section \<open>Copying an address space\<close>

text \<open>The entry that the copy gets, and what becomes of the source: writable pages lose \<^verbatim>\<open>PTE_W\<close> unless shared.\<close>

definition cow_perm :: "bool \<Rightarrow> u32 \<Rightarrow> u32" where
  "cow_perm share x = (if \<not> share \<and> x AND PTE_W \<noteq> 0 then (x AND PTE_USER) AND NOT PTE_W else x AND PTE_USER)"

definition copy_entry :: "bool \<Rightarrow> u32 \<Rightarrow> u32" where
  "copy_entry share x = page2pa (PPN x) OR PTE_P OR cow_perm share x"

definition source_entry :: "bool \<Rightarrow> u32 \<Rightarrow> u32" where
  "source_entry share x = (if \<not> share \<and> x AND PTE_W \<noteq> 0 then copy_entry share x else x)"

definition copied :: "machine \<Rightarrow> nat set \<Rightarrow> nat \<Rightarrow> nat \<Rightarrow> bool \<Rightarrow> nat \<Rightarrow> nat \<Rightarrow> machine \<Rightarrow> bool" where
  "copied st D to from share a b st' \<longleftrightarrow> (\<forall>d\<in>D. \<forall>v<UVN. entry st' d v =
     (if a \<le> v \<and> v < b \<and> present (entry st from v)
      then if d = to then copy_entry share (entry st from v)
        else if d = from then source_entry share (entry st from v) else entry st d v
      else entry st d v)) \<and> (tlb_ok st D \<longrightarrow> tlb_ok st' D)"

definition room :: "nat set \<Rightarrow> (nat \<Rightarrow> nat) \<Rightarrow> bool" where
  "room D own \<longleftrightarrow> (\<forall>p. card D * UVN + own p < 2 ^ 32 - 1)"

lemma cow_perm_less: "cow_perm share x < 4096"
proof -
  have "x AND 7 \<le> 7" by (rule word_and_le1)
  then have a: "x AND 7 < 4096" by (rule order_le_less_trans) simp
  have "(x AND 7) AND NOT 2 \<le> x AND 7" by (rule word_and_le2)
  then have "(x AND 7) AND NOT 2 < 4096" using a by (rule order_le_less_trans)
  with a show ?thesis by (simp add: cow_perm_def)
qed

lemma room_ref:
  assumes "room D own" "finite D" "unat (refcount st p) = card (maps st D p) + own p"
  shows "refcount st p \<noteq> - 1"
proof -
  have "maps st D p \<subseteq> D \<times> {..<UVN}" by (auto simp: maps_def)
  then have "card (maps st D p) \<le> card D * UVN"
    using card_mono [of "D \<times> {..<UVN}" "maps st D p"] assms(2) by (simp add: card_cartesian_product)
  then have "unat (refcount st p) < 2 ^ 32 - 1"
    using assms(1,3) unfolding room_def by (metis add_le_mono1 order_le_less_trans)
  then show ?thesis by (auto simp: unsigned_minus_1_eq_mask mask_eq_exp_minus_1)
qed

text \<open>Inserting a page that is mapped already, where the page table exists.\<close>

lemma mapped_in_pool:
  assumes "pt_ok st D own pool" "d \<in> D" "v < UVN" "present (entry st d v)"
  shows "insert (PPN (entry st d v)) pool = pool"
proof -
  have "maps st D (PPN (entry st d v)) \<noteq> {}" using assms(2-4) by (auto simp: maps_def)
  then show ?thesis using assms(1) by (auto simp: pt_ok_def used_def)
qed

lemma page_insert_mapped:
  assumes ok: "pt_ok st D own pool" "room D own" and d: "d \<in> D" "PPN la < UVN" "present (frames st d (PDX la))"
    and src: "from \<in> D" "v < UVN" "present (entry st from v)" and perm: "perm < 4096"
  shows "\<exists>st'. page_insert d (PPN (entry st from v)) la perm st = Some (0, st') \<and> pt_ok st' D own pool
    \<and> remapped st D d (PPN la) (page2pa (PPN (entry st from v)) OR PTE_P OR perm) st'"
proof -
  note m = mapped_page [OF ok(1) src]
  have "refcount st (PPN (entry st from v)) \<noteq> - 1"
    using room_ref [OF ok(2) _ m(2)] ok(1) by (simp add: pt_ok_def tables_ok_def)
  from page_insert_ok [OF ok(1) d(1,2) perm m(1,2) this] d(3) show ?thesis by (auto simp: mapped_in_pool [OF ok(1) src])
qed

text \<open>The two insertions: the source loses the write permission, and the copy is made.\<close>

lemma copy_insert:
  assumes ok: "pt_ok st D own pool" "room D own" and dirs: "to \<in> D" "from \<in> D" "to \<noteq> from" and v: "PPN start < UVN"
    and src: "present (frames st from (PDX start))" "present (entry st from (PPN start))"
    and dst: "present (frames st to (PDX start))"
  defines "x \<equiv> entry st from (PPN start)"
  shows "\<exists>st2 st3. (if \<not> share \<and> x AND PTE_W \<noteq> 0 then page_insert from (PPN x) start (cow_perm share x) st else Some (0, st)) = Some (0, st2)
    \<and> page_insert to (PPN x) start (cow_perm share x) st2 = Some (0, st3) \<and> pt_ok st3 D own pool
    \<and> copied st D to from share (PPN start) (Suc (PPN start)) st3"
proof -
  let ?v = "PPN start"
  have ce: "present (copy_entry share x)" "PPN (copy_entry share x) = PPN x"
    using new_entry [OF _ _ cow_perm_less, of st "PPN x" share x] ok(1) mapped_page(1) [OF ok(1) dirs(2) v src(2)]
    by (simp_all add: copy_entry_def pt_ok_def user_page_def x_def)
  have "\<exists>st2. (if \<not> share \<and> x AND PTE_W \<noteq> 0 then page_insert from (PPN x) start (cow_perm share x) st else Some (0, st)) = Some (0, st2)
    \<and> pt_ok st2 D own pool \<and> (\<forall>d\<in>D. \<forall>v<UVN. entry st2 d v = (if d = from \<and> v = ?v then source_entry share x else entry st d v))
    \<and> present (frames st2 to (PDX start)) \<and> (tlb_ok st D \<longrightarrow> tlb_ok st2 D)"
  proof (cases "\<not> share \<and> x AND PTE_W \<noteq> 0")
    case True
    obtain st2 where i: "page_insert from (PPN x) start (cow_perm share x) st = Some (0, st2)" "pt_ok st2 D own pool"
        "remapped st D from ?v (copy_entry share x) st2"
      using page_insert_mapped [OF ok dirs(2) v src(1) dirs(2) v src(2) cow_perm_less, of share x] by (auto simp: copy_entry_def x_def)
    moreover have "present (frames st2 to (PDX start))" using i(3) dst dirs(1) by (simp add: remapped_def)
    moreover have "\<forall>d\<in>D. \<forall>u<UVN. entry st2 d u = (if d = from \<and> u = ?v then source_entry share x else entry st d u)"
      using i(3) True by (simp add: remapped_def source_entry_def)
    ultimately show ?thesis using True remapped_tlb_ok [OF ok(1) dirs(2) i(3)] by (simp only: if_True simp_thms) blast
  next
    case False
    with ok(1) dst show ?thesis by (auto simp: source_entry_def x_def)
  qed
  then obtain st2 where st2: "(if \<not> share \<and> x AND PTE_W \<noteq> 0 then page_insert from (PPN x) start (cow_perm share x) st else Some (0, st)) = Some (0, st2)"
    "pt_ok st2 D own pool" "\<forall>d\<in>D. \<forall>v<UVN. entry st2 d v = (if d = from \<and> v = ?v then source_entry share x else entry st d v)"
    "present (frames st2 to (PDX start))" "tlb_ok st D \<longrightarrow> tlb_ok st2 D" by blast
  have e2: "present (entry st2 from ?v)" "PPN (entry st2 from ?v) = PPN x"
    using st2(3) dirs(2) v src(2) ce by (auto simp: source_entry_def x_def)
  from page_insert_mapped [OF st2(2) ok(2) dirs(1) v st2(4) dirs(2) v e2(1) cow_perm_less, of share x]
  obtain st3 where st3: "page_insert to (PPN x) start (cow_perm share x) st2 = Some (0, st3)" "pt_ok st3 D own pool"
    "remapped st2 D to ?v (copy_entry share x) st3"
    by (auto simp: e2(2) copy_entry_def)
  have "copied st D to from share ?v (Suc ?v) st3"
    unfolding copied_def
  proof (intro conjI ballI allI impI)
    show "tlb_ok st D \<Longrightarrow> tlb_ok st3 D" using st2(5) remapped_tlb_ok [OF st2(2) dirs(1) st3(3)] by blast
    fix d u assume du: "d \<in> D" "u < UVN"
    have "entry st2 d u = (if d = from \<and> u = ?v then source_entry share x else entry st d u)" using st2(3) du by blast
    moreover have "entry st3 d u = (if d = to \<and> u = ?v then copy_entry share x else entry st2 d u)"
      using st3(3) du by (simp add: remapped_def)
    ultimately have "entry st3 d u = (if d = to \<and> u = ?v then copy_entry share x else
      if d = from \<and> u = ?v then source_entry share x else entry st d u)"
      by (cases "u = ?v"; cases "d = from"; simp)
    then show "entry st3 d u = (if ?v \<le> u \<and> u < Suc ?v \<and> present (entry st from u)
      then if d = to then copy_entry share (entry st from u)
        else if d = from then source_entry share (entry st from u) else entry st d u
      else entry st d u)"
      using src(2) by (auto simp: x_def less_Suc_eq_le)
  qed
  with st2(1) st3 show ?thesis by blast
qed

text \<open>Virtual page \<open>v\<close> has no page table in directory \<open>d\<close>, and no page is free for one.\<close>

definition no_table :: "machine \<Rightarrow> nat \<Rightarrow> nat \<Rightarrow> bool" where
  "no_table st d v \<longleftrightarrow> free_set (phys st) = {} \<and> \<not> present (frames st d (v div 1024))"

lemma copy_page_ok:
  assumes ok: "pt_ok st D own pool" "room D own" and dirs: "to \<in> D" "from \<in> D" "to \<noteq> from" and v: "PPN start < UVN"
    and src: "present (frames st from (PDX start))" "entry st from (PPN start) \<noteq> 0" and dst: "entry st to (PPN start) = 0"
  shows "\<exists>r st'. copy_page to from start share (PPN (frames st from (PDX start)), PTX start) st = Some (r, st')
    \<and> pt_ok st' D own pool \<and> (r = - E_NO_MEM \<and> st' = st \<and> no_table st to (PPN start)
      \<or> r = 0 \<and> copied st D to from share (PPN start) (Suc (PPN start)) st')"
proof (rule get_pte_create [OF ok(1) dirs(1) v])
  assume "get_pte to start True st = Some (None, st)" "\<not> present (frames st to (PDX start))" "free_set (phys st) = {}"
  with ok(1) show ?thesis by (simp add: copy_page_def no_table_def PDX_PPN)
next
  fix st1
  assume g: "get_pte to start True st = Some (Some (PPN (frames st1 to (PDX start)), PTX start), st1)"
    and ok1: "pt_ok st1 D own pool" and gr: "grown st D st1" and pr: "present (frames st1 to (PDX start))"
  let ?v = "PPN start" and ?x = "entry st from (PPN start)"
  let ?e = "(PPN (frames st from (PDX start)), PTX start)" and ?ne = "(PPN (frames st1 to (PDX start)), PTX start)"
  have ent: "entry st1 from ?v = ?x" "entry st1 to ?v = 0" using gr dirs v dst by (simp_all add: grown_def)
  have same: "frames st1 from (PDX start) = frames st from (PDX start)" using gr src(1) dirs(2) by (simp add: grown_def)
  have rd: "read_entry ?e st1 = ?x" "read_entry ?ne st1 = 0"
    using ent same src(1) pr by (simp_all add: read_entry_def entry_la)
  have same_entries: "entry st1 d u = entry st d u" if "d \<in> D" "u < UVN" for d u
    using gr that by (simp add: grown_def)
  have same_tlb: "tlb_ok st1 D = tlb_ok st D" using gr by (simp add: tlb_ok_def grown_def)
  have g1: "copied st D to from share ?v (Suc ?v) st'" if "copied st1 D to from share ?v (Suc ?v) st'" for st'
    using that same_tlb by (simp add: copied_def same_entries dirs(2))
  show ?thesis
  proof (cases "present ?x")
    case False
    then have "copied st1 D to from share ?v (Suc ?v) st1" using ent by (auto simp: copied_def less_Suc_eq_le)
    with False g rd src(2) ok1 g1 show ?thesis by (simp add: copy_page_def present_def)
  next
    case True
    have src1: "present (frames st1 from (PDX start))" "present (entry st1 from ?v)"
      using True ent(1) same src(1) by simp_all
    from copy_insert [OF ok1 ok(2) dirs v src1 pr, of share, unfolded ent(1)] obtain st2 st3 where
      i: "(if \<not> share \<and> ?x AND PTE_W \<noteq> 0 then page_insert from (PPN ?x) start (cow_perm share ?x) st1 else Some (0, st1)) = Some (0, st2)"
      "page_insert to (PPN ?x) start (cow_perm share ?x) st2 = Some (0, st3)" "pt_ok st3 D own pool"
      "copied st1 D to from share ?v (Suc ?v) st3" by blast
    have pg: "pte2page ?x st1 = Some (PPN ?x)"
      using mapped_page(1) [OF ok1 dirs(2) v] True ent(1)
      by (simp add: pte2page_def pa2page_def present_def user_page_def owned_def region_ok_def)
    have "copy_page to from start share ?e st = Some (0, st3)"
      using g rd src(2) True pg i(1,2) by (auto simp: copy_page_def present_def cow_perm_def Let_def split: if_splits)
    with i(3,4) g1 show ?thesis by blast
  qed
qed

lemma within_table: "PPN start \<le> v \<Longrightarrow> v < 1024 * Suc (PDX start) \<Longrightarrow> v div 1024 = PDX start"
  unfolding PDX_PPN by (simp add: div_nat_eqI algebra_simps)

lemma copied_trans:
  assumes "copied st D to from share a b st1" "copied st1 D to from share b c st2" "to \<in> D" "from \<in> D" "a \<le> b" "b \<le> c"
  shows "copied st D to from share a c st2"
proof -
  have src: "entry st1 from v = entry st from v" if "b \<le> v" "v < UVN" for v
    using assms(1,4) that unfolding copied_def by auto
  show ?thesis
    unfolding copied_def
  proof (intro conjI ballI allI impI)
    show "tlb_ok st D \<Longrightarrow> tlb_ok st2 D" using assms(1,2) unfolding copied_def by blast
    fix d v assume dv: "d \<in> D" "v < UVN"
    show "entry st2 d v = (if a \<le> v \<and> v < c \<and> present (entry st from v)
      then if d = to then copy_entry share (entry st from v)
        else if d = from then source_entry share (entry st from v) else entry st d v else entry st d v)"
      using assms(1,2,5,6) dv src [of v] unfolding copied_def by (cases "b \<le> v") auto
  qed
qed

lemma copied_empty:
  assumes "\<forall>v. a \<le> v \<and> v < b \<longrightarrow> \<not> present (entry st from v)"
  shows "copied st D to from share a b st"
  using assms by (auto simp: copied_def)

text \<open>One round of the loop: it fails for lack of a page table, or goes on.\<close>

lemma copy_step:
  assumes ok: "pt_ok st D own pool" "room D own" and dirs: "to \<in> D" "from \<in> D" "to \<noteq> from"
    and s: "unat start < 0xB0000000" "4096 dvd unat start" and dst: "entry st to (PPN start) = 0"
  shows "copy_loop to from start end share st = Some (- E_NO_MEM, st) \<and> no_table st to (PPN start) \<or>
    (\<exists>start' st'. copy_loop to from start end share st =
        (if start' \<noteq> 0 \<and> start' < end then copy_loop to from start' end share st' else Some (0, st'))
      \<and> pt_ok st' D own pool \<and> copied st D to from share (PPN start) (PPN start') st' \<and> unat start < unat start' \<and> 4096 dvd unat start'
      \<and> (unat start' = unat start + 4096 \<or> st' = st \<and> (\<forall>v. PPN start \<le> v \<and> v < PPN start' \<longrightarrow> \<not> present (entry st from v))))"
proof (cases "present (frames st from (PDX start))")
  case False
  let ?s = "ROUNDDOWN (start + PTSIZE) PTSIZE"
  note n = next_table [OF s(1)]
  have zero: "\<forall>v. PPN start \<le> v \<and> v < PPN ?s \<longrightarrow> \<not> present (entry st from v)"
  proof (intro allI impI)
    fix v assume "PPN start \<le> v \<and> v < PPN ?s"
    then have "v div 1024 = PDX start" using within_table [of start v] unfolding n(2) by blast
    then show "\<not> present (entry st from v)" using False by (simp add: entry_def Let_def)
  qed
  moreover have "4096 dvd unat ?s" unfolding n(1) by (rule dvd_mult2) simp
  moreover have "copy_loop to from start end share st =
      (if ?s \<noteq> 0 \<and> ?s < end then copy_loop to from ?s end share st else Some (0, st))"
    using False by (subst copy_loop.simps) (simp add: get_pte_absent)
  ultimately show ?thesis using ok(1) n(3) copied_empty [OF zero] by blast
next
  case True
  have v: "PPN start < UVN" using s(1) by (simp add: PPN_eq)
  have tok: "tables_ok st D" using ok by (simp add: pt_ok_def)
  note g = get_pte_present [OF tok dirs(2) v True, of False] and n = next_page [OF s]
  let ?e = "(PPN (frames st from (PDX start)), PTX start)"
  have rd: "read_entry ?e st = entry st from (PPN start)" using True by (simp add: read_entry_def entry_la)
  have "\<exists>r st'. (if read_entry ?e st \<noteq> 0 then copy_page to from start share ?e st else Some (0, st)) = Some (r, st') \<and> pt_ok st' D own pool
    \<and> (r = - E_NO_MEM \<and> st' = st \<and> no_table st to (PPN start) \<or> r = 0 \<and> copied st D to from share (PPN start) (Suc (PPN start)) st')"
  proof (cases "entry st from (PPN start) = 0")
    case zero: True
    then have "\<forall>v. PPN start \<le> v \<and> v < Suc (PPN start) \<longrightarrow> \<not> present (entry st from v)" by (auto simp: less_Suc_eq_le dest: le_antisym)
    from copied_empty [OF this] zero rd ok(1) show ?thesis by simp
  next
    case False
    with copy_page_ok [OF ok dirs v True False dst] rd show ?thesis by simp
  qed
  then obtain r st' where st': "(if read_entry ?e st \<noteq> 0 then copy_page to from start share ?e st else Some (0, st)) = Some (r, st')"
    "pt_ok st' D own pool" "r = - E_NO_MEM \<and> st' = st \<and> no_table st to (PPN start) \<or> r = 0 \<and> copied st D to from share (PPN start) (Suc (PPN start)) st'" by blast
  have loop: "copy_loop to from start end share st = (if r \<noteq> 0 then Some (r, st') else if start + PGSIZE \<noteq> 0 \<and> start + PGSIZE < end
      then copy_loop to from (start + PGSIZE) end share st' else Some (0, st'))"
    using g st'(1) by (subst copy_loop.simps) (auto split: if_splits)
  have "4096 dvd unat (start + PGSIZE)" using n(1) s(2) by simp
  with st'(2,3) n loop show ?thesis
    by (elim disjE conjE) (simp, rule disjI2, rule exI [of _ "start + PGSIZE"], rule exI [of _ st'], simp)
qed

lemma copy_loop_ok:
  assumes "pt_ok st D own pool" "room D own" "to \<in> D" "from \<in> D" "to \<noteq> from"
    "unat start < unat end" "unat end \<le> 0xB0000000" "4096 dvd unat start" "4096 dvd unat end"
    "\<forall>v. PPN start \<le> v \<and> v < PPN end \<longrightarrow> entry st to v = 0"
  shows "\<exists>r c st'. copy_loop to from start end share st = Some (r, st') \<and> pt_ok st' D own pool
    \<and> PPN start \<le> c \<and> copied st D to from share (PPN start) c st' \<and> (r = 0 \<and> c = PPN end \<or> r = - E_NO_MEM \<and> c < PPN end \<and> no_table st' to c)"
  using assms
proof (induction "unat end - unat start" arbitrary: start st rule: less_induct)
  case less
  have s: "unat start < 0xB0000000" using less.prems by simp
  have "unat start + 4096 \<le> unat end" using less.prems(6,8,9) by (auto elim!: dvdE)
  then have first: "PPN start < PPN end" by (simp add: PPN_eq)
  then have dst: "entry st to (PPN start) = 0" using less.prems(10) by simp
  from copy_step [OF less.prems(1-5) s less.prems(8) dst, of "end" share] consider
    (full) "copy_loop to from start end share st = Some (- E_NO_MEM, st)" "no_table st to (PPN start)"
  | (go) start' st1 where "copy_loop to from start end share st =
        (if start' \<noteq> 0 \<and> start' < end then copy_loop to from start' end share st1 else Some (0, st1))"
      "pt_ok st1 D own pool" "copied st D to from share (PPN start) (PPN start') st1" "unat start < unat start'" "4096 dvd unat start'"
      "unat start' = unat start + 4096 \<or> st1 = st \<and> (\<forall>v. PPN start \<le> v \<and> v < PPN start' \<longrightarrow> \<not> present (entry st from v))"
    by blast
  then show ?case
  proof cases
    case full
    moreover have "copied st D to from share (PPN start) (PPN start) st" by (rule copied_empty) auto
    ultimately show ?thesis using less.prems(1) first by blast
  next
    case go
    have nz: "start' \<noteq> 0" and le: "PPN start \<le> PPN start'" using go(4) by (auto simp: PPN_eq intro: div_le_mono)
    show ?thesis
    proof (cases "unat start' < unat end")
      case True
      have dec: "unat end - unat start' < unat end - unat start" using go(4) True by linarith
      have ve: "PPN end < UVN \<or> PPN end = UVN" using less.prems(7) by (auto simp: PPN_eq)
      have dst1: "\<forall>v. PPN start' \<le> v \<and> v < PPN end \<longrightarrow> entry st1 to v = 0"
        using go(3) less.prems(3,10) le ve unfolding copied_def by auto
      obtain r c st' where rec: "copy_loop to from start' end share st1 = Some (r, st')" "pt_ok st' D own pool"
        "PPN start' \<le> c" "copied st1 D to from share (PPN start') c st'" "r = 0 \<and> c = PPN end \<or> r = - E_NO_MEM \<and> c < PPN end \<and> no_table st' to c"
        using less.hyps [OF dec go(2) less.prems(2-5) True less.prems(7) go(5) less.prems(9) dst1] by blast
      moreover have "copied st D to from share (PPN start) c st'"
        by (rule copied_trans [OF go(3) rec(4) less.prems(3,4) le rec(3)])
      moreover have "copy_loop to from start end share st = Some (r, st')"
        using go(1) nz True rec(1) by (simp add: word_less_nat_alt)
      moreover have "PPN start \<le> c" using le rec(3) by simp
      ultimately show ?thesis by blast
    next
      case False
      then have eq: "copy_loop to from start end share st = Some (0, st1)" using go(1) by (simp add: word_less_nat_alt)
      have "copied st D to from share (PPN start) (PPN end) st1"
        using go(6)
      proof
        assume "unat start' = unat start + 4096"
        with go(3) False \<open>unat start + 4096 \<le> unat end\<close> show ?thesis by (simp add: PPN_eq)
      next
        assume a: "st1 = st \<and> (\<forall>v. PPN start \<le> v \<and> v < PPN start' \<longrightarrow> \<not> present (entry st from v))"
        have "PPN end \<le> PPN start'" using False by (simp add: PPN_eq div_le_mono)
        with a show ?thesis using copied_empty [of "PPN start" "PPN end" st "from" D to share] by auto
      qed
      with eq go(2) first show ?thesis by auto
    qed
  qed
qed

text \<open>Changes of the allocator that leave the owned pages alone.\<close>

lemma pt_ok_phys:
  assumes "pt_ok st D own pool" "buddy_inv b" "region_ok b = region_ok (phys st)"
    "\<forall>q. owned st q \<longrightarrow> q \<notin> free_set b \<and> ref (pages b q) = refcount st q" "\<forall>q\<in>free_set b. ref (pages b q) = 0"
  shows "pt_ok (st\<lparr>phys := b\<rparr>) D own (free_set b \<union> used st D own)"
proof -
  note v = view_cong [of "st\<lparr>phys := b\<rparr>" st, simplified]
  have "owned st q \<Longrightarrow> owned (st\<lparr>phys := b\<rparr>) q" for q using assms(3,4) by (simp add: owned_def)
  with assms v show ?thesis
    by (auto simp: pt_ok_def phys_ok_def tables_ok_def refs_ok_def user_page_def used_def)
qed

lemma pgdir_alloc_page_ok:
  assumes ok: "pt_ok st D own pool" and d: "d \<in> D" "PPN la < UVN" and perm: "perm < 4096" and own: "\<forall>p\<in>free_set (phys st). own p = 0"
  shows "\<exists>r st'. pgdir_alloc_page d la perm st = Some (r, st') \<and> pt_ok st' D own pool \<and>
    (case r of None \<Rightarrow> (\<forall>e\<in>D. \<forall>v<UVN. entry st' e v = entry st e v) \<and> free_set (phys st') = free_set (phys st)
        \<and> (free_set (phys st) = {} \<or> \<not> present (frames st d (PDX la)) \<and> (\<exists>p. free_set (phys st) = {p}))
     | Some p \<Rightarrow> p \<in> free_set (phys st) \<and> remapped st D d (PPN la) (page2pa p OR PTE_P OR perm) st')"
proof -
  have tok: "tables_ok st D" and pok: "phys_ok st" and rok: "refs_ok st D own" and inv: "buddy_inv (phys st)"
    using ok by (simp_all add: pt_ok_def phys_ok_def)
  show ?thesis
  proof (rule bc.take_page [OF inv])
    assume "buddy_alloc_pages 1 (phys st) = Some (None, phys st)" "free_set (phys st) = {}"
    with ok show ?thesis by (simp add: pgdir_alloc_page_def alloc_pages_eq)
  next
    fix p b
    assume b: "buddy_alloc_pages 1 (phys st) = Some (Some p, b)" "buddy_inv b" "region_ok b = region_ok (phys st)"
      "region_ok (phys st) p 1" "p \<in> free_set (phys st)" "free_set b = free_set (phys st) - {p}"
      "(\<lambda>q. ref (pages b q)) = (\<lambda>q. refcount st q)"
    let ?st1 = "st\<lparr>phys := b\<rparr>"
    have rc: "refcount ?st1 q = refcount st q" for q using b(7) by (simp add: fun_eq_iff)
    have own1: "owned ?st1 q \<longleftrightarrow> owned st q \<or> q = p" for q using b(3-6) by (auto simp: owned_def)
    note v = view_cong [of ?st1 st, simplified]
    have new: "p \<notin> D" "p \<notin> tables st D" "maps st D p = {}" "refcount st p = 0"
      using tok pok rok b(5) by (auto simp: tables_ok_def phys_ok_def refs_ok_def owned_def user_page_def)
    have eq: "free_set b \<union> used st D own = pool - {p}" "p \<in> pool"
      using b(5,6) used_not_free [OF ok] ok by (auto simp: pt_ok_def)
    have ok1: "pt_ok ?st1 D own (pool - {p})"
      unfolding eq(1) [symmetric] using pok rc b(6) by (intro pt_ok_phys [OF ok b(2,3)]) (auto simp: owned_def phys_ok_def)
    have u: "user_page ?st1 D p" "unat (refcount ?st1 p) = card (maps ?st1 D p) + own p" "refcount ?st1 p \<noteq> - 1"
      using own1 new own b(5) rc v by (simp_all add: user_page_def)
    obtain r st2 where ins: "page_insert d p la perm ?st1 = Some (r, st2)"
      "r = - E_NO_MEM \<and> st2 = ?st1 \<and> \<not> present (frames st d (PDX la)) \<and> free_set b = {}
        \<or> r = 0 \<and> pt_ok st2 D own (insert p (pool - {p})) \<and> remapped ?st1 D d (PPN la) (page2pa p OR PTE_P OR perm) st2"
      using page_insert_ok [OF ok1 d perm u] by auto
    from ins(2) show ?thesis
    proof (elim disjE conjE)
      assume r: "r = - E_NO_MEM" "st2 = ?st1" and full: "\<not> present (frames st d (PDX la))" "free_set b = {}"
      have "{p..<p + 1} = {p}" by auto
      then obtain b' where b': "buddy_free_pages p 1 b = Some b'" "buddy_inv b'" "region_ok b' = region_ok (phys st)"
        "free_set b' = free_set (phys st)"
        using bm.free_law [OF b(2), of p 1] b(3-6) by (auto simp: insert_absorb)
      have "ref (pages b' q) = refcount st q" for q
        using bc.free_refs [OF b'(1)] b(7) new(4) by (simp add: fun_eq_iff)
      then have "pt_ok (st\<lparr>phys := b'\<rparr>) D own (free_set b' \<union> used st D own)"
        using pok b'(4) by (intro pt_ok_phys [OF ok b'(2,3)]) (auto simp: owned_def phys_ok_def)
      moreover have "free_set b' \<union> used st D own = pool" using ok b'(4) by (simp add: pt_ok_def)
      moreover have "free_set (phys st) = {p}" using full(2) b(5,6) by auto
      ultimately show ?thesis
        using b(1) ins(1) r b'(1,4) full(1) view_cong(1) [of "st\<lparr>phys := b'\<rparr>" st]
        by (simp add: pgdir_alloc_page_def alloc_pages_eq free_pages_eq)
    next
      assume r: "r = 0" "pt_ok st2 D own (insert p (pool - {p}))" and rem: "remapped ?st1 D d (PPN la) (page2pa p OR PTE_P OR perm) st2"
      have "remapped st D d (PPN la) (page2pa p OR PTE_P OR perm) st2"
        using rem v(1) by (simp add: remapped_def)
      moreover have "insert p (pool - {p}) = pool" using eq(2) by blast
      ultimately show ?thesis using b(1,5) ins(1) r by (simp add: pgdir_alloc_page_def alloc_pages_eq)
    qed
  qed
qed

lemma aligned_unat: "(a :: u32) mod PGSIZE = 0 \<Longrightarrow> 4096 dvd unat a"
  by (auto simp: word_eq_iff_unsigned [where ?'a = nat] unat_mod)

section \<open>A machine with two directories\<close>

definition demo_phys :: buddy where
  "demo_phys = snd (the (buddy_alloc_pages 1 (snd (the (buddy_alloc_pages 1 small_machine)))))"

definition demo_machine :: machine where
  "demo_machine = \<lparr>phys = demo_phys, frames = (\<lambda>_ _. 0), cr3 = page2pa 4, tlb = (\<lambda>_. None), eflags = 0x200\<rparr>"

lemma demo_allocs: "map_option fst (buddy_alloc_pages 1 small_machine) = Some (Some 4)"
  "map_option fst (buddy_alloc_pages 1 (snd (the (buddy_alloc_pages 1 small_machine)))) = Some (Some 5)"
  by code_simp+

lemma demo_refs: "\<forall>q\<in>set [0..<6]. ref (pages small_machine q) = 0"
  by code_simp

lemma demo_ok: "pt_ok demo_machine {4, 5} (\<lambda>_. 0) {0..<6}"
proof -
  obtain b1 where b1: "buddy_alloc_pages 1 small_machine = Some (Some 4, b1)" using demo_allocs(1) by auto
  then obtain b2 where b2: "buddy_alloc_pages 1 b1 = Some (Some 5, b2)" using demo_allocs(2) by auto
  then have b: "demo_phys = b2" using b1 by (simp add: demo_phys_def)
  note a1 = bm.alloc_Some [OF small_machine_spec(2) b1] and a2 = bm.alloc_Some [OF bm.alloc_Some(1) [OF small_machine_spec(2) b1] b2]
  have free: "free_set b2 = {0, 1, 2, 3}"
    using a1(5) a2(5) small_machine_spec(3) by auto
  have refs: "ref (pages b2 q) = ref (pages small_machine q)" for q
    using buddy_alloc_one_ref b1 b2 by simp
  have reg: "region_ok b2 = region_ok small_machine" using a1(2) a2(2) by simp
  have "npage small_machine = 6" by code_simp
  then have "region_ok b2 p 1 \<Longrightarrow> p < 2 ^ 20" for p unfolding reg by (simp add: region_ok_def)
  then have "phys_ok demo_machine"
    using a2(1) free refs demo_refs by (simp add: phys_ok_def demo_machine_def b)
  moreover have "owned demo_machine 4" "owned demo_machine 5"
    using region_ok_sub [OF small_machine_spec(4), of 4 1] region_ok_sub [OF small_machine_spec(4), of 5 1] reg free
    by (simp_all add: owned_def demo_machine_def b)
  then have "tables_ok demo_machine {4, 5}"
    by (auto simp: tables_ok_def tables_def demo_machine_def)
  moreover have "refs_ok demo_machine {4, 5} (\<lambda>_. 0)"
    by (auto simp: refs_ok_def maps_def entry_def demo_machine_def)
  moreover have "free_set (phys demo_machine) \<union> used demo_machine {4, 5} (\<lambda>_. 0) = {0..<6}"
    using free by (auto simp: used_def tables_def maps_def entry_def demo_machine_def b)
  ultimately show ?thesis by (simp add: pt_ok_def)
qed

lemma demo_insert: "map_option fst (pgdir_alloc_page 4 0x200000 7 demo_machine) = Some (Some 0)"
  by code_simp

lemma demo_simps [simp]: "entry demo_machine d v = 0" "free_set (phys demo_machine) \<inter> {4, 5} = {}"
proof -
  show "entry demo_machine d v = 0" by (simp add: entry_def demo_machine_def)
  show "free_set (phys demo_machine) \<inter> {4, 5} = {}"
    using demo_ok by (auto simp: pt_ok_def tables_ok_def owned_def)
qed

lemma demo_room: "room {4, 5} (\<lambda>_. 0)"
  by (simp add: room_def)

text \<open>The machine after one page was allocated and mapped at \<^verbatim>\<open>0x200000\<close> in directory 4.\<close>

lemma demo_mapped:
  obtains st where "pgdir_alloc_page 4 0x200000 7 demo_machine = Some (Some 0, st)" "pt_ok st {4, 5} (\<lambda>_. 0) {0..<6}"
    "entry st 4 512 = 7" "\<forall>v<UVN. entry st 5 v = 0" "\<forall>v<UVN. v \<noteq> 512 \<longrightarrow> entry st 4 v = 0"
proof -
  have v: "PPN 0x200000 = 512" by (simp add: PPN_def)
  obtain r st where "pgdir_alloc_page 4 0x200000 7 demo_machine = Some (r, st)" "pt_ok st {4, 5} (\<lambda>_. 0) {0..<6}"
    "r = Some 0 \<longrightarrow> remapped demo_machine {4, 5} 4 (PPN 0x200000) (page2pa 0 OR PTE_P OR 7) st"
    using pgdir_alloc_page_ok [OF demo_ok, of 4 "0x200000" 7] v by fastforce
  moreover from this(1) have "r = Some 0" using demo_insert by simp
  ultimately show ?thesis using that [of st] by (auto simp: remapped_def v page2pa_def)
qed

section \<open>Properties\<close>

text \<open>
  C3: \<^verbatim>\<open>page_insert\<close> maps a page. For every machine of the invariant, every directory and every user
  address, it never panics; it fails with \<^verbatim>\<open>-E_NO_MEM\<close>, changing nothing, only when a page table is
  missing and no page is free; otherwise the entry of the address is the page with the permissions,
  every other entry of every directory is unchanged, the counters again count the mappings, no page
  is lost, a page that lost its last mapping and that nobody holds is free, and the TLB caches no stale entry.
\<close>

theorem page_insert_correct:
  assumes "pt_ok st D own pool" "d \<in> D" "PPN la < UVN" "perm < 4096"
    and "user_page st D p" "unat (refcount st p) = card (maps st D p) + own p" "refcount st p \<noteq> - 1"
  shows "\<exists>r st'. page_insert d p la perm st = Some (r, st') \<and> (tlb_ok st D \<longrightarrow> tlb_ok st' D) \<and>
    (r = - E_NO_MEM \<and> st' = st \<and> \<not> present (frames st d (PDX la)) \<and> free_set (phys st) = {}
     \<or> r = 0 \<and> pt_ok st' D own (insert p pool)
       \<and> (\<forall>d'\<in>D. \<forall>v<UVN. entry st' d' v =
           (if d' = d \<and> v = PPN la then page2pa p OR PTE_P OR perm else entry st d' v))
       \<and> (\<forall>q. maps st D q \<noteq> {} \<and> maps st' D q = {} \<and> own q = 0 \<longrightarrow> q \<in> free_set (phys st')))"
proof -
  obtain r st' where i: "page_insert d p la perm st = Some (r, st')"
    "r = - E_NO_MEM \<and> st' = st \<and> \<not> present (frames st d (PDX la)) \<and> free_set (phys st) = {}
     \<or> r = 0 \<and> pt_ok st' D own (insert p pool) \<and> remapped st D d (PPN la) (page2pa p OR PTE_P OR perm) st'
       \<and> (\<forall>q. owned st q \<longrightarrow> q \<in> tables st' D \<longrightarrow> q \<in> tables st D)"
    using page_insert_ok [OF assms] by blast
  have "q \<in> free_set (phys st')" if "pt_ok st' D own (insert p pool)" "\<forall>q. owned st q \<longrightarrow> q \<in> tables st' D \<longrightarrow> q \<in> tables st D"
    "maps st D q \<noteq> {}" "maps st' D q = {}" "own q = 0" for q
  proof -
    have "user_page st D q" using assms(1) that(3) by (simp add: pt_ok_def refs_ok_def)
    then have "q \<notin> D" "q \<notin> tables st' D" using that(2) by (auto simp: user_page_def)
    moreover have "q \<in> pool" using assms(1) that(3) by (auto simp: pt_ok_def used_def)
    ultimately show ?thesis using that(4,5) used_not_free(2) [OF that(1)] by (simp add: used_def)
  qed
  moreover have "tlb_ok st D \<longrightarrow> tlb_ok st' D" using i(2) remapped_tlb_ok [OF assms(1,2)] by blast
  ultimately show ?thesis using i unfolding remapped_def by blast
qed

text \<open>Results on the example, by evaluation.\<close>

definition demo_run :: "(machine \<Rightarrow> 'a option) \<Rightarrow> 'a option" where
  "demo_run f = do { (_, st) \<leftarrow> pgdir_alloc_page 4 0x200000 7 demo_machine; f st }"

declare copy_loop.simps [code]

lemma demo_results:
  "demo_run (\<lambda>st. map_option fst (page_insert 5 0 0x300000 5 st)) = Some 0"
  "demo_run (\<lambda>st. map_option fst (copy_range 5 4 0x200000 0x201000 False st)) = Some 0"
  by code_simp+

theorem page_insert_correct_witness:
  "\<exists>st st'. pt_ok st {4, 5} (\<lambda>_. 0) {0..<6} \<and> entry st 4 512 = 7 \<and> page_insert 5 0 0x300000 5 st = Some (0, st')
    \<and> pt_ok st' {4, 5} (\<lambda>_. 0) {0..<6} \<and> entry st' 4 512 = 7 \<and> entry st' 5 768 = 5"
proof (rule demo_mapped)
  fix st
  assume st: "pgdir_alloc_page 4 0x200000 7 demo_machine = Some (Some 0, st)" "pt_ok st {4, 5} (\<lambda>_. 0) {0..<6}" "entry st 4 512 = 7"
  have pr: "present (7 :: u32)" "PPN 7 = 0" by (simp_all add: present_def PPN_def)
  note m = mapped_page [OF st(2), of 4 512, unfolded st(3) pr(2)]
  have "refcount st 0 \<noteq> - 1" using room_ref [OF demo_room _ m(2)] pr by simp
  moreover have v: "PPN 0x300000 = 768" "insert 0 {0..<6} = {0..<6 :: nat}" "page2pa 0 OR PTE_P OR 5 = 5" by (auto simp: PPN_def page2pa_def)
  ultimately obtain r st' where "page_insert 5 0 0x300000 5 st = Some (r, st')" "r = - E_NO_MEM \<or> r = 0 \<and> pt_ok st' {4, 5} (\<lambda>_. 0) {0..<6}
      \<and> (\<forall>d'\<in>{4, 5}. \<forall>v<UVN. entry st' d' v = (if d' = 5 \<and> v = 768 then 5 else entry st d' v))"
    using page_insert_correct [OF st(2), of 5 "0x300000" 5 0, unfolded v] m pr by auto
  moreover from this(1) have "r = 0" using demo_results(1) st(1) by (simp add: demo_run_def)
  ultimately show ?thesis using st(2,3) by (intro exI [of _ st] exI [of _ st']) simp
qed

text \<open>
  C17: \<^verbatim>\<open>unmap_range\<close> terminates and unmaps exactly its range: afterwards no page of
  \<open>[start, end)\<close> is mapped in the directory, every entry outside the range and of every other directory
  is unchanged, the counters still count the mappings, exactly the pages that lost their last mapping
  and that nobody holds have been freed, and the TLB holds no stale entry.
\<close>

theorem unmap_range_correct:
  assumes "pt_ok st D own pool" "d \<in> D" "USER_ACCESS start end" "start mod PGSIZE = 0" "end mod PGSIZE = 0"
  shows "\<exists>st'. unmap_range d start end st = Some st' \<and> pt_ok st' D own pool \<and> (tlb_ok st D \<longrightarrow> tlb_ok st' D)
    \<and> (\<forall>v. PPN start \<le> v \<and> v < PPN end \<longrightarrow> \<not> present (entry st' d v))
    \<and> (\<forall>d'\<in>D. \<forall>v<UVN. d' \<noteq> d \<or> v < PPN start \<or> PPN end \<le> v \<longrightarrow> entry st' d' v = entry st d' v)
    \<and> free_set (phys st') = free_set (phys st) \<union> {q. maps st D q \<noteq> {} \<and> maps st' D q = {} \<and> own q = 0}"
proof -
  obtain st' where st': "unmap_range d start end st = Some st'" "pt_ok st' D own pool" "unmapped st D d (PPN start) (PPN end) st'"
    using unmap_range_ok [OF assms] by blast
  have "PPN end \<le> UVN" using assms(3) by (auto simp: USER_ACCESS_def PPN_eq word_le_nat_alt)
  then have "\<forall>v. PPN start \<le> v \<and> v < PPN end \<longrightarrow> \<not> present (entry st' d v)"
    using st'(3) assms(2) by (auto simp: unmapped_def)
  moreover have "free_set (phys st') = free_set (phys st) \<union> {q. maps st D q \<noteq> {} \<and> maps st' D q = {} \<and> own q = 0}"
    using st'(3) by (intro freed_exactly [OF assms(1) st'(2)] unmapped_maps [OF st'(3)] tables_cong) (simp add: unmapped_def)
  ultimately show ?thesis using st' unfolding unmapped_def by (intro exI [of _ st']) auto
qed

theorem unmap_range_correct_witness:
  "\<exists>st st'. pt_ok st {4, 5} (\<lambda>_. 0) {0..<6} \<and> present (entry st 4 512) \<and> unmap_range 4 0x200000 0x400000 st = Some st'
    \<and> \<not> present (entry st' 4 512) \<and> 0 \<in> free_set (phys st')"
proof (rule demo_mapped)
  fix st
  assume st: "pt_ok st {4, 5} (\<lambda>_. 0) {0..<6}" "entry st 4 512 = 7" "\<forall>v<UVN. entry st 5 v = 0" "\<forall>v<UVN. v \<noteq> 512 \<longrightarrow> entry st 4 v = 0"
  have pr: "present (7 :: u32)" "PPN 7 = 0" by (simp_all add: present_def PPN_def)
  have v: "PPN 0x200000 = 512" "PPN 0x400000 = 1024" by (simp_all add: PPN_def)
  obtain st' where st': "unmap_range 4 0x200000 0x400000 st = Some st'" "\<not> present (entry st' 4 512)"
    "\<forall>d'\<in>{4, 5}. \<forall>v<UVN. d' \<noteq> 4 \<or> v < 512 \<or> 1024 \<le> v \<longrightarrow> entry st' d' v = entry st d' v" "\<forall>v. 512 \<le> v \<and> v < 1024 \<longrightarrow> \<not> present (entry st' 4 v)"
    "free_set (phys st') = free_set (phys st) \<union> {q. maps st {4, 5} q \<noteq> {} \<and> maps st' {4, 5} q = {}}"
    using unmap_range_correct [OF st(1), of 4 "0x200000" "0x400000", unfolded v] by (auto simp: USER_ACCESS_def)
  have "(4, 512) \<in> maps st {4, 5} 0" using st(2) pr by (simp add: maps_def)
  moreover have "\<not> present (entry st' d v)" if "d \<in> {4, 5}" "v < UVN" for d v
  proof (cases "d = 4 \<and> 512 \<le> v \<and> v < 1024")
    case False
    then have "entry st' d v = entry st d v" "d = 5 \<or> v \<noteq> 512" using st'(3) that by auto
    then show ?thesis using st(3,4) that by auto
  qed (use st'(4) in auto)
  then have "maps st' {4, 5} 0 = {}" by (auto simp: maps_def)
  ultimately show ?thesis using st'(1,2,5) st(1,2) pr by (intro exI [of _ st] exI [of _ st']) auto
qed

text \<open>
  C18: \<^verbatim>\<open>copy_range\<close> copies an address range on write. It terminates without a panic; its result is
  0 or \<^verbatim>\<open>-E_NO_MEM\<close>. On success every mapped page of the range is mapped at the same place in the
  new directory, with the same permissions when the range is shared and otherwise without the
  permission to write, which the old directory then loses as well; nothing else changes. It fails only
  at a page of the range for which the new directory has no page table while no page is free, and then the
  pages before that one have been copied. In both cases the counters count the mappings, no page is lost
  and no stale translation stays in the TLB.
\<close>

theorem copy_range_correct:
  assumes "pt_ok st D own pool" "room D own" "to \<in> D" "from \<in> D" "to \<noteq> from" "USER_ACCESS start end"
    "start mod PGSIZE = 0" "end mod PGSIZE = 0" "\<forall>v. PPN start \<le> v \<and> v < PPN end \<longrightarrow> entry st to v = 0"
  shows "\<exists>r c st'. copy_range to from start end share st = Some (r, st') \<and> pt_ok st' D own pool
    \<and> (r = 0 \<and> c = PPN end
       \<or> r = - E_NO_MEM \<and> PPN start \<le> c \<and> c < PPN end \<and> free_set (phys st') = {} \<and> \<not> present (frames st' to (c div 1024)))
    \<and> (tlb_ok st D \<longrightarrow> tlb_ok st' D)
    \<and> (\<forall>d\<in>D. \<forall>v<UVN. entry st' d v =
         (if PPN start \<le> v \<and> v < c \<and> present (entry st from v)
          then if d = to then copy_entry share (entry st from v)
            else if d = from then source_entry share (entry st from v) else entry st d v
          else entry st d v))"
proof -
  have "4096 dvd unat start" "4096 dvd unat end" using assms(7,8) by (simp_all add: aligned_unat)
  moreover have "unat start < unat end" "unat end \<le> 0xB0000000"
    using assms(6) by (auto simp: USER_ACCESS_def word_less_nat_alt word_le_nat_alt)
  ultimately obtain r c st' where "copy_loop to from start end share st = Some (r, st')" "pt_ok st' D own pool"
    "PPN start \<le> c" "copied st D to from share (PPN start) c st'" "r = 0 \<and> c = PPN end \<or> r = - E_NO_MEM \<and> c < PPN end \<and> no_table st' to c"
    using copy_loop_ok [OF assms(1-5) _ _ _ _ assms(9)] by blast
  then show ?thesis
    using assms(6-8) unfolding copied_def no_table_def by (intro exI [of _ r] exI [of _ c] exI [of _ st']) (auto simp: copy_range_def)
qed

theorem copy_range_correct_witness:
  "\<exists>st st'. entry st 4 512 = 7 \<and> copy_range 5 4 0x200000 0x201000 False st = Some (0, st') \<and> entry st' 5 512 = 5 \<and> entry st' 4 512 = 5"
proof (rule demo_mapped)
  fix st
  assume st: "pgdir_alloc_page 4 0x200000 7 demo_machine = Some (Some 0, st)" "pt_ok st {4, 5} (\<lambda>_. 0) {0..<6}" "entry st 4 512 = 7"
    "\<forall>v<UVN. entry st 5 v = 0"
  have v: "PPN 0x200000 = 512" "PPN 0x201000 = 513" by (simp_all add: PPN_def)
  have "present (7 :: u32)" "copy_entry False 7 = 5" "source_entry False 7 = 5"
    by (simp_all add: present_def copy_entry_def source_entry_def cow_perm_def page2pa_def PPN_def)
  note e = this
  have "\<forall>v. 512 \<le> v \<and> v < 513 \<longrightarrow> entry st 5 v = 0" using st(4) by auto
  from copy_range_correct [OF st(2) demo_room, of 5 4 "0x200000" "0x201000" False, unfolded v] this
  obtain r c st' where r: "copy_range 5 4 0x200000 0x201000 False st = Some (r, st')" "r = 0 \<and> c = 513 \<or> r = - 4"
    and ent: "\<forall>d\<in>{4, 5}. \<forall>v<UVN. entry st' d v =
         (if 512 \<le> v \<and> v < c \<and> present (entry st 4 v)
          then if d = 5 then copy_entry False (entry st 4 v)
            else if d = 4 then source_entry False (entry st 4 v) else entry st d v
          else entry st d v)"
    by (auto simp: USER_ACCESS_def)
  have "r = 0" using r(1) st(1) demo_results(2) by (simp add: demo_run_def)
  then show ?thesis using r ent st(3) e by (intro exI [of _ st] exI [of _ st']) simp
qed

end
