(* ===== verification/Shmem.thy ===== *)
theory Shmem
  imports PageMap
begin

text \<open>
  Shared memory objects, \<^verbatim>\<open>kern/mm/shmem.c\<close>, with the locks of \<^verbatim>\<open>include/lock.h\<close>.

  The state is the machine of theory Paging with the kernel objects the memory manager allocates.
  A pointer to an object is a number, the index of the object in its table; \<open>objs\<close> is the pool of
  unused object addresses, from which \<^verbatim>\<open>kmalloc\<close> takes one and to which \<^verbatim>\<open>kfree\<close> gives one back, so
  that an address can be reused and an allocation fails when the pool is empty. Operations that
  only touch this part of the state are polymorphic in the fields theory Vmm adds. The list of the
  nodes of an object is a list of addresses, as theory Lists justifies. \<open>None\<close> is a panic, a failed
  assertion or a lock that is never released.
\<close>

section \<open>Definitions\<close>

record shmn =
  sn_start :: u32
  sn_end :: u32
  sn_entry :: nat

record shmem_struct =
  shmn_list :: "nat list"
  shmn_cache :: "nat option"
  len :: u32
  shmem_refs :: u32
  shmem_lock :: u32

record kmem =
  mach :: machine
  objs :: "nat list"
  shmns :: "nat \<Rightarrow> shmn"
  shmems :: "nat \<Rightarrow> shmem_struct"

abbreviation (input) SHMN_NENTRY :: u32 where "SHMN_NENTRY \<equiv> 1024"

subsection \<open>Access to the machine and the object pool\<close>

definition on_mach :: "(machine \<Rightarrow> ('r \<times> machine) option) \<Rightarrow> 'a kmem_scheme \<Rightarrow> ('r \<times> 'a kmem_scheme) option" where
  "on_mach f st = map_option (\<lambda>(r, m). (r, st\<lparr>mach := m\<rparr>)) (f (mach st))"

definition do_mach :: "(machine \<Rightarrow> machine option) \<Rightarrow> 'a kmem_scheme \<Rightarrow> 'a kmem_scheme option" where
  "do_mach f st = map_option (\<lambda>m. st\<lparr>mach := m\<rparr>) (f (mach st))"

definition kmalloc :: "'a kmem_scheme \<Rightarrow> nat option \<times> 'a kmem_scheme" where
  "kmalloc st = (case objs st of [] \<Rightarrow> (None, st) | v # vs \<Rightarrow> (Some v, st\<lparr>objs := vs\<rparr>))"

definition kfree :: "nat \<Rightarrow> 'a kmem_scheme \<Rightarrow> 'a kmem_scheme" where
  "kfree v st = st\<lparr>objs := v # objs st\<rparr>"

subsection \<open>Locks\<close>

definition lock_init :: u32 where
  "lock_init = 0"

text \<open>\<^verbatim>\<open>try_lock\<close>: whether the lock was taken, and the lock word.\<close>

definition try_lock :: "u32 \<Rightarrow> bool \<times> u32" where
  "try_lock l = (\<not> test_bit_w 0 l, set_bit_w 0 l)"

text \<open>
  \<^verbatim>\<open>lock\<close> retries until another thread releases the lock; seen by one thread it does not return
  while the lock is held.
\<close>

definition lock :: "u32 \<Rightarrow> u32 option" where
  "lock l = (case try_lock l of (True, l') \<Rightarrow> Some l' | (False, _) \<Rightarrow> None)"

definition unlock :: "u32 \<Rightarrow> u32 option" where
  "unlock l = (if \<not> test_bit_w 0 l then None else Some (clear_bit_w 0 l))"

subsection \<open>Reference counters of shared memory objects\<close>

definition upd_shmem :: "nat \<Rightarrow> (shmem_struct \<Rightarrow> shmem_struct) \<Rightarrow> 'a kmem_scheme \<Rightarrow> 'a kmem_scheme" where
  "upd_shmem s f st = st\<lparr>shmems := (shmems st)(s := f (shmems st s))\<rparr>"

definition shmem_ref :: "nat \<Rightarrow> 'a kmem_scheme \<Rightarrow> u32" where
  "shmem_ref s st = shmem_refs (shmems st s)"

definition set_shmem_ref :: "nat \<Rightarrow> u32 \<Rightarrow> 'a kmem_scheme \<Rightarrow> 'a kmem_scheme" where
  "set_shmem_ref s val = upd_shmem s (shmem_refs_update (\<lambda>_. val))"

definition shmem_ref_inc :: "nat \<Rightarrow> 'a kmem_scheme \<Rightarrow> u32 \<times> 'a kmem_scheme" where
  "shmem_ref_inc s st = (shmem_ref s st + 1, set_shmem_ref s (shmem_ref s st + 1) st)"

definition shmem_ref_dec :: "nat \<Rightarrow> 'a kmem_scheme \<Rightarrow> u32 \<times> 'a kmem_scheme" where
  "shmem_ref_dec s st = (shmem_ref s st - 1, set_shmem_ref s (shmem_ref s st - 1) st)"

definition lock_shmem :: "nat \<Rightarrow> 'a kmem_scheme \<Rightarrow> 'a kmem_scheme option" where
  "lock_shmem s st = map_option (\<lambda>l. upd_shmem s (shmem_lock_update (\<lambda>_. l)) st) (lock (shmem_lock (shmems st s)))"

definition unlock_shmem :: "nat \<Rightarrow> 'a kmem_scheme \<Rightarrow> 'a kmem_scheme option" where
  "unlock_shmem s st = map_option (\<lambda>l. upd_shmem s (shmem_lock_update (\<lambda>_. l)) st) (unlock (shmem_lock (shmems st s)))"

subsection \<open>Objects and their nodes\<close>

definition shmem_create :: "u32 \<Rightarrow> 'a kmem_scheme \<Rightarrow> nat option \<times> 'a kmem_scheme" where
  "shmem_create l st =
     (case kmalloc st of
        (None, st) \<Rightarrow> (None, st)
      | (Some s, st) \<Rightarrow>
          (Some s, upd_shmem s (\<lambda>_. \<lparr>shmn_list = [], shmn_cache = None, len = l, shmem_refs = 0, shmem_lock = lock_init\<rparr>) st))"

definition shmn_create :: "u32 \<Rightarrow> 'a kmem_scheme \<Rightarrow> (nat option \<times> 'a kmem_scheme) option" where
  "shmn_create start st = do {
     kassert (start mod PGSIZE * SHMN_NENTRY = 0);
     case kmalloc st of
       (None, st) \<Rightarrow> Some (None, st)
     | (Some s, st) \<Rightarrow> do {
         (page, st) \<leftarrow> on_mach (alloc_pages 1) st;
         case page of
           Some p \<Rightarrow> do {
             kva \<leftarrow> page2kva p (mach st);
             let st = st\<lparr>shmns := (shmns st)(s := \<lparr>sn_start = start, sn_end = start + PGSIZE * SHMN_NENTRY, sn_entry = kva\<rparr>)\<rparr>;
             Some (Some s, st\<lparr>mach := clear_frame kva (mach st)\<rparr>)
           }
         | None \<Rightarrow> Some (None, kfree s st)
       }
   }"

definition shmem_remove_entry_pte :: "nat \<times> nat \<Rightarrow> machine \<Rightarrow> machine option" where
  "shmem_remove_entry_pte ptep m =
     (if read_entry ptep m AND PTE_P \<noteq> 0 then do {
        page \<leftarrow> pte2page (read_entry ptep m) m;
        let swapped = PageSwap (pages (phys m) page);
        let (r, _) = page_ref_dec (pages (phys m) page);
        let m = upd_ref page (snd \<circ> page_ref_dec) m;
        m \<leftarrow> (if \<not> swapped \<and> r = 0 then free_pages page 1 m else Some m);
        Some (write_entry ptep 0 m)
      }
      else if read_entry ptep m \<noteq> 0 then Some (write_entry ptep 0 m)
      else Some m)"

fun remove_entries :: "nat \<Rightarrow> nat list \<Rightarrow> machine \<Rightarrow> machine option" where
  "remove_entries fr [] m = Some m"
| "remove_entries fr (i # is) m = do {
     m \<leftarrow> shmem_remove_entry_pte (fr, i) m;
     remove_entries fr is m
   }"

definition shmn_destroy :: "nat \<Rightarrow> 'a kmem_scheme \<Rightarrow> 'a kmem_scheme option" where
  "shmn_destroy s st = do {
     st \<leftarrow> do_mach (remove_entries (sn_entry (shmns st s)) [0..<1024]) st;
     st \<leftarrow> do_mach (free_pages (sn_entry (shmns st s)) 1) st;
     Some (kfree s st)
   }"

definition in_shmn :: "'a kmem_scheme \<Rightarrow> u32 \<Rightarrow> nat \<Rightarrow> bool" where
  "in_shmn st addr s \<longleftrightarrow> sn_start (shmns st s) \<le> addr \<and> addr < sn_end (shmns st s)"

definition find_shmn :: "nat \<Rightarrow> u32 \<Rightarrow> 'a kmem_scheme \<Rightarrow> nat option \<times> 'a kmem_scheme" where
  "find_shmn sh addr st =
     (let shmn = (case shmn_cache (shmems st sh) of
            Some s \<Rightarrow> if in_shmn st addr s then Some s else find (in_shmn st addr) (shmn_list (shmems st sh))
          | None \<Rightarrow> find (in_shmn st addr) (shmn_list (shmems st sh)))
      in (shmn, if shmn \<noteq> None then upd_shmem sh (shmn_cache_update (\<lambda>_. shmn)) st else st))"

definition check_shmn_overlap :: "shmn \<Rightarrow> shmn \<Rightarrow> unit option" where
  "check_shmn_overlap prev next =
     kassert (sn_start prev < sn_end prev \<and> sn_end prev \<le> sn_start next \<and> sn_start next < sn_end next)"

text \<open>The list splits at the first node that starts above the new one.\<close>

definition insert_shmn :: "nat \<Rightarrow> nat \<Rightarrow> 'a kmem_scheme \<Rightarrow> 'a kmem_scheme option" where
  "insert_shmn sh s st = do {
     let stays = (\<lambda>v. \<not> sn_start (shmns st v) > sn_start (shmns st s));
     let before = takeWhile stays (shmn_list (shmems st sh));
     let after = dropWhile stays (shmn_list (shmems st sh));
     (case before of [] \<Rightarrow> Some () | _ \<Rightarrow> check_shmn_overlap (shmns st (last before)) (shmns st s));
     (case after of [] \<Rightarrow> Some () | n # _ \<Rightarrow> check_shmn_overlap (shmns st s) (shmns st n));
     Some (upd_shmem sh (shmn_list_update (\<lambda>_. before @ s # after)) st)
   }"

fun destroy_shmns :: "nat list \<Rightarrow> 'a kmem_scheme \<Rightarrow> 'a kmem_scheme option" where
  "destroy_shmns [] st = Some st"
| "destroy_shmns (s # ss) st = do { st \<leftarrow> shmn_destroy s st; destroy_shmns ss st }"

definition shmem_destroy :: "nat \<Rightarrow> 'a kmem_scheme \<Rightarrow> 'a kmem_scheme option" where
  "shmem_destroy sh st = do {
     let nodes = shmn_list (shmems st sh);
     let st = upd_shmem sh (shmn_list_update (\<lambda>_. [])) st;
     st \<leftarrow> destroy_shmns nodes st;
     Some (kfree sh st)
   }"

text \<open>The entry of a page of the object, a frame with an index; it may still be zero when no page could be allocated.\<close>

definition shmem_get_entry :: "nat \<Rightarrow> u32 \<Rightarrow> bool \<Rightarrow> 'a kmem_scheme \<Rightarrow> ((nat \<times> nat) option \<times> 'a kmem_scheme) option" where
  "shmem_get_entry sh addr create st = do {
     kassert (addr < len (shmems st sh));
     let addr = ROUNDDOWN addr PGSIZE;
     let (shmn, st) = find_shmn sh addr st;
     kassert (case shmn of None \<Rightarrow> True | Some s \<Rightarrow> in_shmn st addr s);
     (shmn, st) \<leftarrow> (case shmn of
         Some s \<Rightarrow> Some (Some s, st)
       | None \<Rightarrow>
           if \<not> create then Some (None, st)
           else do {
             (shmn, st) \<leftarrow> shmn_create (ROUNDDOWN addr (PGSIZE * SHMN_NENTRY)) st;
             case shmn of
               None \<Rightarrow> Some (None, st)
             | Some s \<Rightarrow> do { st \<leftarrow> insert_shmn sh s st; Some (Some s, st) }
           });
     case shmn of
       None \<Rightarrow> Some (None, st)
     | Some s \<Rightarrow> do {
         let e = (sn_entry (shmns st s), unat ((addr - sn_start (shmns st s)) div PGSIZE));
         if read_entry e (mach st) = 0 \<and> create then do {
           (page, st) \<leftarrow> on_mach (alloc_pages 1) st;
           case page of
             None \<Rightarrow> Some (Some e, st)
           | Some p \<Rightarrow>
               Some (Some e, st\<lparr>mach := upd_ref p (snd \<circ> page_ref_inc) (write_entry e (page2pa p OR PTE_P) (mach st))\<rparr>)
         }
         else Some (Some e, st)
       }
   }"

definition shmem_insert_entry :: "nat \<Rightarrow> u32 \<Rightarrow> u32 \<Rightarrow> 'a kmem_scheme \<Rightarrow> (int \<times> 'a kmem_scheme) option" where
  "shmem_insert_entry sh addr pte st = do {
     (ptep, st) \<leftarrow> shmem_get_entry sh addr True st;
     case ptep of
       None \<Rightarrow> Some (- E_NO_MEM, st)
     | Some e \<Rightarrow> do {
         st \<leftarrow> (if read_entry e (mach st) \<noteq> 0 then do_mach (shmem_remove_entry_pte e) st else Some st);
         st \<leftarrow> (if pte AND PTE_P \<noteq> 0 then do {
                  p \<leftarrow> pte2page pte (mach st);
                  Some (st\<lparr>mach := upd_ref p (snd \<circ> page_ref_inc) (mach st)\<rparr>)
                }
                else Some st);
         Some (0, st\<lparr>mach := write_entry e pte (mach st)\<rparr>)
       }
   }"

definition shmem_remove_entry :: "nat \<Rightarrow> u32 \<Rightarrow> 'a kmem_scheme \<Rightarrow> (int \<times> 'a kmem_scheme) option" where
  "shmem_remove_entry sh addr = shmem_insert_entry sh addr 0"

end
