(* ===== verification/RbTree.thy ===== *)
theory RbTree
  imports Prelude "HOL-Library.Tree"
begin

text \<open>
  The red-black trees of \<^verbatim>\<open>lib/rb_tree.c\<close>, with parent pointers and two sentinels: \<^verbatim>\<open>nil\<close>, which
  stands for every missing child, and \<^verbatim>\<open>root\<close>, whose left child is the root of the tree. Nodes
  live in a store indexed by their address, as the C structures that embed them do. The macros that
  are expanded once with \<^verbatim>\<open>(left, right)\<close> and once with \<^verbatim>\<open>(right, left)\<close> take the side as an
  argument; \<^verbatim>\<open>compare\<close> is an argument too. Loops that follow pointers are partial functions: \<open>None\<close>
  is a failed assertion or a loop that does not end.
\<close>

section \<open>Definitions\<close>

datatype side = L | R

fun other :: "side \<Rightarrow> side" where
  "other L = R"
| "other R = L"

record 'p rb_node =
  red :: bool
  parent :: 'p
  left :: 'p
  right :: 'p

type_synonym 'p rb_store = "'p \<Rightarrow> 'p rb_node"

record 'p rb_tree =
  nil :: 'p
  root :: 'p

definition child :: "side \<Rightarrow> 'p rb_store \<Rightarrow> 'p \<Rightarrow> 'p" where
  "child d h x = (case d of L \<Rightarrow> left (h x) | R \<Rightarrow> right (h x))"

definition set_child :: "side \<Rightarrow> 'p \<Rightarrow> 'p \<Rightarrow> 'p rb_store \<Rightarrow> 'p rb_store" where
  "set_child d x v h = h(x := (case d of L \<Rightarrow> (h x)\<lparr>left := v\<rparr> | R \<Rightarrow> (h x)\<lparr>right := v\<rparr>))"

definition set_parent :: "'p \<Rightarrow> 'p \<Rightarrow> 'p rb_store \<Rightarrow> 'p rb_store" where
  "set_parent x v h = h(x := (h x)\<lparr>parent := v\<rparr>)"

definition set_red :: "'p \<Rightarrow> bool \<Rightarrow> 'p rb_store \<Rightarrow> 'p rb_store" where
  "set_red x c h = h(x := (h x)\<lparr>red := c\<rparr>)"

definition rb_tree_empty :: "'p rb_tree \<Rightarrow> 'p rb_store \<Rightarrow> bool" where
  "rb_tree_empty tr h \<longleftrightarrow> left (h (root tr)) = nil tr"

text \<open>\<^verbatim>\<open>rb_tree_create\<close> after its three allocations succeeded with the nodes \<open>n\<close> and \<open>r\<close>.\<close>

definition rb_tree_init :: "'p \<Rightarrow> 'p \<Rightarrow> 'p rb_store \<Rightarrow> 'p rb_tree \<times> 'p rb_store" where
  "rb_tree_init n r h =
     (\<lparr>nil = n, root = r\<rparr>,
      h(n := \<lparr>red = False, parent = n, left = n, right = n\<rparr>, r := \<lparr>red = False, parent = n, left = n, right = n\<rparr>))"

text \<open>\<^verbatim>\<open>FUNC_ROTATE\<close>: side \<open>L\<close> is the left rotation.\<close>

definition rb_rotate :: "side \<Rightarrow> 'p rb_tree \<Rightarrow> 'p \<Rightarrow> 'p rb_store \<Rightarrow> 'p rb_store option" where
  "rb_rotate d tr x h = do {
     let y = child (other d) h x;
     kassert (x \<noteq> root tr \<and> x \<noteq> nil tr \<and> y \<noteq> nil tr);
     let h = set_child (other d) x (child d h y) h;
     let h = (if child d h y \<noteq> nil tr then set_parent (child d h y) x h else h);
     let h = set_parent y (parent (h x)) h;
     let h = (if x = child d h (parent (h x)) then set_child d (parent (h x)) y h
              else set_child (other d) (parent (h x)) y h);
     let h = set_child d y x h;
     let h = set_parent x y h;
     kassert (\<not> red (h (nil tr)));
     Some h
   }"

partial_function (option) descend ::
  "('p \<Rightarrow> 'p \<Rightarrow> int) \<Rightarrow> 'p rb_tree \<Rightarrow> 'p \<Rightarrow> 'p rb_store \<Rightarrow> 'p \<Rightarrow> 'p \<Rightarrow> 'p option" where
  "descend compare tr node h y x =
     (if x \<noteq> nil tr
      then descend compare tr node h x (if compare x node > 0 then left (h x) else right (h x))
      else Some y)"

definition rb_insert_binary :: "('p \<Rightarrow> 'p \<Rightarrow> int) \<Rightarrow> 'p rb_tree \<Rightarrow> 'p \<Rightarrow> 'p rb_store \<Rightarrow> 'p rb_store option" where
  "rb_insert_binary compare tr z h = do {
     let h = set_child L z (nil tr) (set_child R z (nil tr) h);
     y \<leftarrow> descend compare tr z h (root tr) (left (h (root tr)));
     let h = set_parent z y h;
     Some (if y = root tr \<or> compare y z > 0 then set_child L y z h else set_child R y z h)
   }"

text \<open>One round of the loop of \<^verbatim>\<open>rb_insert\<close>, \<^verbatim>\<open>RB_INSERT_SUB\<close>: the new \<^verbatim>\<open>x\<close> and the store.\<close>

definition rb_insert_sub :: "side \<Rightarrow> 'p rb_tree \<Rightarrow> 'p \<Rightarrow> 'p rb_store \<Rightarrow> ('p \<times> 'p rb_store) option" where
  "rb_insert_sub d tr x h =
     (let g = parent (h (parent (h x))); y = child (other d) h g in
      if red (h y) then
        let h = set_red (parent (h x)) False h;
            h = set_red y False h;
            h = set_red (parent (h (parent (h x)))) True h
        in Some (parent (h (parent (h x))), h)
      else do {
        (x, h) \<leftarrow> (if x = child (other d) h (parent (h x))
                  then map_option (\<lambda>h'. (parent (h x), h')) (rb_rotate d tr (parent (h x)) h)
                  else Some (x, h));
        let h = set_red (parent (h x)) False h;
        let h = set_red (parent (h (parent (h x)))) True h;
        h \<leftarrow> rb_rotate (other d) tr (parent (h (parent (h x)))) h;
        Some (x, h)
      })"

partial_function (option) rb_insert_loop :: "'p rb_tree \<Rightarrow> 'p \<Rightarrow> 'p rb_store \<Rightarrow> 'p rb_store option" where
  "rb_insert_loop tr x h =
     (if red (h (parent (h x))) then do {
        (x, h) \<leftarrow> rb_insert_sub (if parent (h x) = left (h (parent (h (parent (h x))))) then L else R) tr x h;
        rb_insert_loop tr x h
      }
      else Some h)"

definition rb_insert :: "('p \<Rightarrow> 'p \<Rightarrow> int) \<Rightarrow> 'p rb_tree \<Rightarrow> 'p \<Rightarrow> 'p rb_store \<Rightarrow> 'p rb_store option" where
  "rb_insert compare tr node h = do {
     h \<leftarrow> rb_insert_binary compare tr node h;
     let h = set_red node True h;
     h \<leftarrow> rb_insert_loop tr node h;
     let h = set_red (left (h (root tr))) False h;
     kassert (\<not> red (h (nil tr)) \<and> \<not> red (h (root tr)));
     Some h
   }"

partial_function (option) go_far :: "side \<Rightarrow> 'p rb_tree \<Rightarrow> 'p rb_store \<Rightarrow> 'p \<Rightarrow> 'p option" where
  "go_far d tr h y = (if child d h y \<noteq> nil tr then go_far d tr h (child d h y) else Some y)"

partial_function (option) climb_right :: "'p rb_store \<Rightarrow> 'p \<Rightarrow> 'p \<Rightarrow> 'p option" where
  "climb_right h x y = (if x = right (h y) then climb_right h y (parent (h y)) else Some y)"

definition rb_tree_successor :: "'p rb_tree \<Rightarrow> 'p \<Rightarrow> 'p rb_store \<Rightarrow> 'p option" where
  "rb_tree_successor tr node h =
     (if right (h node) \<noteq> nil tr then go_far L tr h (right (h node))
      else do {
        y \<leftarrow> climb_right h node (parent (h node));
        Some (if y = root tr then nil tr else y)
      })"

partial_function (option) climb_left :: "'p rb_tree \<Rightarrow> 'p rb_store \<Rightarrow> 'p \<Rightarrow> 'p \<Rightarrow> 'p option" where
  "climb_left tr h x y =
     (if x = left (h y) then if y = root tr then Some (nil tr) else climb_left tr h y (parent (h y)) else Some y)"

definition rb_tree_predecessor :: "'p rb_tree \<Rightarrow> 'p \<Rightarrow> 'p rb_store \<Rightarrow> 'p option" where
  "rb_tree_predecessor tr node h =
     (if left (h node) \<noteq> nil tr then go_far R tr h (left (h node))
      else climb_left tr h node (parent (h node)))"

partial_function (option) search_from :: "('p \<Rightarrow> int) \<Rightarrow> 'p rb_tree \<Rightarrow> 'p rb_store \<Rightarrow> 'p \<Rightarrow> 'p option option" where
  "search_from cmp tr h node =
     (if node \<noteq> nil tr \<and> cmp node \<noteq> 0
      then search_from cmp tr h (if cmp node > 0 then left (h node) else right (h node))
      else Some (if node \<noteq> nil tr then Some node else None))"

definition rb_search :: "('p \<Rightarrow> int) \<Rightarrow> 'p rb_tree \<Rightarrow> 'p rb_store \<Rightarrow> 'p option option" where
  "rb_search cmp tr h = search_from cmp tr h (left (h (root tr)))"

text \<open>One round of the loop of \<^verbatim>\<open>rb_delete_fixup\<close>; \<open>rt\<close> is its local variable \<^verbatim>\<open>root\<close>.\<close>

definition rb_delete_fixup_sub :: "side \<Rightarrow> 'p rb_tree \<Rightarrow> 'p \<Rightarrow> 'p \<Rightarrow> 'p rb_store \<Rightarrow> ('p \<times> 'p rb_store) option" where
  "rb_delete_fixup_sub d tr rt x h = do {
     let w = child (other d) h (parent (h x));
     (w, h) \<leftarrow> (if red (h w) then do {
         let h = set_red w False h;
         let h = set_red (parent (h x)) True h;
         h \<leftarrow> rb_rotate d tr (parent (h x)) h;
         Some (child (other d) h (parent (h x)), h)
       }
       else Some (w, h));
     if \<not> red (h (child d h w)) \<and> \<not> red (h (child (other d) h w))
     then Some (parent (h x), set_red w True h)
     else do {
       (w, h) \<leftarrow> (if \<not> red (h (child (other d) h w)) then do {
           let h = set_red (child d h w) False h;
           let h = set_red w True h;
           h \<leftarrow> rb_rotate (other d) tr w h;
           Some (child (other d) h (parent (h x)), h)
         }
         else Some (w, h));
       let h = set_red w (red (h (parent (h x)))) h;
       let h = set_red (parent (h x)) False h;
       let h = set_red (child (other d) h w) False h;
       h \<leftarrow> rb_rotate d tr (parent (h x)) h;
       Some (rt, h)
     }
   }"

partial_function (option) rb_delete_fixup_loop :: "'p rb_tree \<Rightarrow> 'p \<Rightarrow> 'p \<Rightarrow> 'p rb_store \<Rightarrow> 'p rb_store option" where
  "rb_delete_fixup_loop tr rt x h =
     (if x \<noteq> rt \<and> \<not> red (h x) then do {
        (x, h) \<leftarrow> rb_delete_fixup_sub (if x = left (h (parent (h x))) then L else R) tr rt x h;
        rb_delete_fixup_loop tr rt x h
      }
      else Some (set_red x False h))"

definition rb_delete_fixup :: "'p rb_tree \<Rightarrow> 'p \<Rightarrow> 'p rb_store \<Rightarrow> 'p rb_store option" where
  "rb_delete_fixup tr node h = rb_delete_fixup_loop tr (left (h (root tr))) node h"

definition rb_delete :: "'p rb_tree \<Rightarrow> 'p \<Rightarrow> 'p rb_store \<Rightarrow> 'p rb_store option" where
  "rb_delete tr z h = do {
     y \<leftarrow> (if left (h z) = nil tr \<or> right (h z) = nil tr then Some z else rb_tree_successor tr z h);
     let x = (if left (h y) \<noteq> nil tr then left (h y) else right (h y));
     kassert (y \<noteq> root tr \<and> y \<noteq> nil tr);
     let h = set_parent x (parent (h y)) h;
     let h = (if y = left (h (parent (h y))) then set_child L (parent (h y)) x h
              else set_child R (parent (h y)) x h);
     let need_fixup = \<not> red (h y);
     let h = (if y \<noteq> z then
         let h = (if z = left (h (parent (h z))) then set_child L (parent (h z)) y h
                  else set_child R (parent (h z)) y h);
             h = set_parent (right (h z)) y h;
             h = set_parent (left (h z)) y h
         in h(y := h z)
       else h);
     if need_fixup then rb_delete_fixup tr x h else Some h
   }"

definition null_nil :: "'p rb_tree \<Rightarrow> 'p \<Rightarrow> 'p option" where
  "null_nil tr x = (if x \<noteq> nil tr then Some x else None)"

definition rb_node_prev :: "'p rb_tree \<Rightarrow> 'p \<Rightarrow> 'p rb_store \<Rightarrow> 'p option option" where
  "rb_node_prev tr node h = map_option (null_nil tr) (rb_tree_predecessor tr node h)"

definition rb_node_next :: "'p rb_tree \<Rightarrow> 'p \<Rightarrow> 'p rb_store \<Rightarrow> 'p option option" where
  "rb_node_next tr node h = map_option (null_nil tr) (rb_tree_successor tr node h)"

definition rb_node_root :: "'p rb_tree \<Rightarrow> 'p rb_store \<Rightarrow> 'p option" where
  "rb_node_root tr h = null_nil tr (left (h (root tr)))"

definition rb_node_left :: "'p rb_tree \<Rightarrow> 'p \<Rightarrow> 'p rb_store \<Rightarrow> 'p option" where
  "rb_node_left tr node h = null_nil tr (left (h node))"

definition rb_node_right :: "'p rb_tree \<Rightarrow> 'p \<Rightarrow> 'p rb_store \<Rightarrow> 'p option" where
  "rb_node_right tr node h = null_nil tr (right (h node))"

text \<open>\<^verbatim>\<open>check_tree\<close>, the checker of the source: the black height, or a failed assertion.\<close>

partial_function (option) check_tree :: "('p \<Rightarrow> 'p \<Rightarrow> int) \<Rightarrow> 'p rb_tree \<Rightarrow> 'p rb_store \<Rightarrow> 'p \<Rightarrow> int option" where
  "check_tree compare tr h node =
     (if node = nil tr then do { kassert (\<not> red (h node)); Some 1 }
      else do {
        kassert (left (h node) \<noteq> nil tr \<longrightarrow> compare node (left (h node)) \<ge> 0 \<and> parent (h (left (h node))) = node);
        kassert (right (h node) \<noteq> nil tr \<longrightarrow> compare node (right (h node)) \<le> 0 \<and> parent (h (right (h node))) = node);
        kassert (red (h node) \<longrightarrow> \<not> red (h (left (h node))) \<and> \<not> red (h (right (h node))));
        hb_left \<leftarrow> check_tree compare tr h (left (h node));
        hb_right \<leftarrow> check_tree compare tr h (right (h node));
        kassert (hb_left = hb_right);
        Some (if \<not> red (h node) then hb_left + 1 else hb_left)
      })"

section \<open>The tree a store represents\<close>

fun is_tree :: "'p rb_tree \<Rightarrow> 'p rb_store \<Rightarrow> 'p \<Rightarrow> 'p \<Rightarrow> 'p tree \<Rightarrow> bool" where
  "is_tree tr h q p Leaf \<longleftrightarrow> p = nil tr"
| "is_tree tr h q p (Node l x r) \<longleftrightarrow> p = x \<and> x \<noteq> nil tr \<and> x \<noteq> root tr \<and> parent (h x) = q
     \<and> is_tree tr h x (left (h x)) l \<and> is_tree tr h x (right (h x)) r"

definition rb_ok :: "'p rb_tree \<Rightarrow> 'p rb_store \<Rightarrow> 'p tree \<Rightarrow> bool" where
  "rb_ok tr h t \<longleftrightarrow> nil tr \<noteq> root tr \<and> \<not> red (h (nil tr)) \<and> \<not> red (h (root tr)) \<and> distinct (inorder t)
     \<and> right (h (root tr)) = nil tr \<and> is_tree tr h (root tr) (left (h (root tr))) t"

lemma is_tree_ptr: "is_tree tr h q p t \<Longrightarrow> p = nil tr \<or> p \<in> set_tree t"
  by (cases t) auto

lemma is_tree_nil: "is_tree tr h q p t \<Longrightarrow> nil tr \<notin> set_tree t" and is_tree_root: "is_tree tr h q p t \<Longrightarrow> root tr \<notin> set_tree t"
  by (induction t arbitrary: q p) auto

lemma is_tree_cong: "(\<And>x. x \<in> set_tree t \<Longrightarrow> h' x = h x) \<Longrightarrow> is_tree tr h' q p t = is_tree tr h q p t"
  by (induction t arbitrary: q p) auto

lemma is_tree_cong_ptrs:
  "(\<And>x. x \<in> set_tree t \<Longrightarrow> parent (h' x) = parent (h x) \<and> left (h' x) = left (h x) \<and> right (h' x) = right (h x))
    \<Longrightarrow> is_tree tr h' q p t = is_tree tr h q p t"
  by (induction t arbitrary: q p) auto

text \<open>Changing the parent of the root of a subtree.\<close>

lemma is_tree_reparent:
  assumes "is_tree tr h q p t" "p \<noteq> nil tr" "distinct (inorder t)"
    "\<And>x. x \<in> set_tree t - {p} \<Longrightarrow> h' x = h x" "parent (h' p) = q'" "left (h' p) = left (h p)" "right (h' p) = right (h p)"
  shows "is_tree tr h' q' p t"
proof (cases t)
  case Leaf
  with assms(1,2) show ?thesis by simp
next
  case (Node l x r)
  then have "p = x" "p \<notin> set_tree l" "p \<notin> set_tree r" using assms(1,3) by (auto simp: set_inorder [symmetric] simp del: set_inorder)
  then have "is_tree tr h' x (left (h x)) l = is_tree tr h x (left (h x)) l" "is_tree tr h' x (right (h x)) r = is_tree tr h x (right (h x)) r"
    using assms(4) Node by (intro is_tree_cong; force)+
  with Node assms \<open>p = x\<close> show ?thesis by simp
qed

section \<open>Searching\<close>

lemma search_from_tree:
  assumes "is_tree tr h q p t" "sorted_wrt (\<lambda>a b. cmp a \<le> cmp b) (inorder t)"
  shows "\<exists>r. search_from cmp tr h p = Some r \<and> (case r of None \<Rightarrow> \<forall>x\<in>set_tree t. cmp x \<noteq> (0 :: int) | Some x \<Rightarrow> x \<in> set_tree t \<and> cmp x = 0)"
  using assms
proof (induction t arbitrary: q p)
  case Leaf
  then show ?case by (simp add: search_from.simps)
next
  case (Node l x r)
  have p: "p = x" "x \<noteq> nil tr" and sub: "is_tree tr h x (left (h x)) l" "is_tree tr h x (right (h x)) r"
    using Node.prems(1) by simp_all
  have so: "sorted_wrt (\<lambda>a b. cmp a \<le> cmp b) (inorder l)" "sorted_wrt (\<lambda>a b. cmp a \<le> cmp b) (inorder r)"
    "\<forall>a\<in>set_tree l. cmp a \<le> cmp x" "\<forall>a\<in>set_tree r. cmp x \<le> cmp a"
    using Node.prems(2) by (auto simp: sorted_wrt_append)
  consider "cmp x = 0" | "cmp x > 0" | "cmp x < 0" by linarith
  then show ?case
  proof cases
    case 1
    with p show ?thesis by (auto simp: search_from.simps [of cmp tr h x])
  next
    case 2
    then have "search_from cmp tr h p = search_from cmp tr h (left (h x))"
      using p by (subst search_from.simps) simp
    moreover obtain v where "search_from cmp tr h (left (h x)) = Some v"
      "case v of None \<Rightarrow> \<forall>x\<in>set_tree l. cmp x \<noteq> 0 | Some x \<Rightarrow> x \<in> set_tree l \<and> cmp x = 0"
      using Node.IH(1) [OF sub(1) so(1)] by blast
    ultimately show ?thesis using 2 so(4) by (cases v) force+
  next
    case 3
    then have "search_from cmp tr h p = search_from cmp tr h (right (h x))"
      using p by (subst search_from.simps) simp
    moreover obtain v where "search_from cmp tr h (right (h x)) = Some v"
      "case v of None \<Rightarrow> \<forall>x\<in>set_tree r. cmp x \<noteq> 0 | Some x \<Rightarrow> x \<in> set_tree r \<and> cmp x = 0"
      using Node.IH(2) [OF sub(2) so(2)] by blast
    ultimately show ?thesis using 3 so(3) by (cases v) force+
  qed
qed

section \<open>Rotations\<close>

fun rot :: "side \<Rightarrow> 'p \<Rightarrow> 'p tree \<Rightarrow> 'p tree" where
  "rot d x Leaf = Leaf"
| "rot L x (Node l a r) =
     (if a = x then (case r of Leaf \<Rightarrow> Node l a r | Node rl y rr \<Rightarrow> Node (Node l a rl) y rr)
      else Node (rot L x l) a (rot L x r))"
| "rot R x (Node l a r) =
     (if a = x then (case l of Leaf \<Rightarrow> Node l a r | Node ll y lr \<Rightarrow> Node ll y (Node lr a r))
      else Node (rot R x l) a (rot R x r))"

lemma inorder_rot: "inorder (rot d x t) = inorder t"
  by (induction d x t rule: rot.induct) (auto split: tree.splits)

lemma rot_notin: "x \<notin> set_tree t \<Longrightarrow> rot d x t = t"
  by (induction d x t rule: rot.induct) auto


text \<open>The pointers after a rotation at \<open>x\<close> with parent \<open>q\<close>, lower child \<open>y\<close> and inner grandchild \<open>b\<close>.\<close>

definition rotated :: "side \<Rightarrow> 'p rb_tree \<Rightarrow> 'p \<Rightarrow> 'p \<Rightarrow> 'p \<Rightarrow> 'p \<Rightarrow> 'p rb_store \<Rightarrow> 'p rb_store \<Rightarrow> bool" where
  "rotated d tr q x y b h h' \<longleftrightarrow>
     (\<forall>z. z \<notin> {q, x, y} \<and> (z = nil tr \<or> z \<noteq> b) \<longrightarrow> h' z = h z) \<and> (\<forall>z. red (h' z) = red (h z)) \<and>
     parent (h' x) = y \<and> child (other d) h' x = b \<and> child d h' x = child d h x \<and>
     parent (h' y) = q \<and> child d h' y = x \<and> child (other d) h' y = child (other d) h y \<and>
     (b \<noteq> nil tr \<longrightarrow> parent (h' b) = x \<and> left (h' b) = left (h b) \<and> right (h' b) = right (h b)) \<and>
     parent (h' q) = parent (h q) \<and>
     (if x = child d h q then child d h' q = y \<and> child (other d) h' q = child (other d) h q
      else child (other d) h' q = y \<and> child d h' q = child d h q)"

lemma side_simps: "left (h x) = child L h x" "right (h x) = child R h x"
  by (simp_all add: child_def)

lemma other_neq [simp]: "other d \<noteq> d" "d \<noteq> other d"
  by (cases d; simp)+

lemma links_set [simp]:
  "parent (set_parent a b h z) = (if z = a then b else parent (h z))" "parent (set_child e a b h z) = parent (h z)"
  "child f (set_parent a b h) z = child f h z"
  "child f (set_child e a b h) z = (if f = e \<and> z = a then b else child f h z)"
  by (cases e; cases f; simp add: set_parent_def set_child_def child_def)+

lemma set_other [simp]: "z \<noteq> a \<Longrightarrow> set_parent a b h z = h z" "z \<noteq> a \<Longrightarrow> set_child e a b h z = h z"
  by (simp_all add: set_parent_def set_child_def)

lemma red_set [simp]:
  "red (set_parent a b h z) = red (h z)" "red (set_child e a b h z) = red (h z)"
  by (cases e; simp add: set_parent_def set_child_def)+

lemma rb_rotate_rotated:
  assumes "parent (h x) = q" "child (other d) h x = y" "child d h y = b"
    "x \<noteq> root tr" "x \<noteq> nil tr" "y \<noteq> nil tr" "\<not> red (h (nil tr))"
    "distinct [q, x, y]" "b \<notin> {q, x, y}" "q \<noteq> nil tr"
  shows "\<exists>h'. rb_rotate d tr x h = Some h' \<and> rotated d tr q x y b h h'"
proof -
  have ne: "q \<noteq> x" "x \<noteq> q" "q \<noteq> y" "y \<noteq> q" "x \<noteq> y" "y \<noteq> x" "b \<noteq> q" "b \<noteq> x" "b \<noteq> y" "q \<noteq> b" "x \<noteq> b" "y \<noteq> b"
    using assms(8,9) by auto
  define h1 where "h1 = set_child (other d) x b h"
  define h2 where "h2 = (if b \<noteq> nil tr then set_parent b x h1 else h1)"
  define h3 where "h3 = set_parent y q h2"
  define h4 where "h4 = (if x = child d h q then set_child d q y h3 else set_child (other d) q y h3)"
  define h5 where "h5 = set_parent x y (set_child d y x h4)"
  have c1: "child d h1 y = b" "parent (h1 x) = q" using assms(1,3) by (simp_all add: h1_def)
  have c2: "parent (h2 x) = q" using c1 ne by (simp add: h2_def)
  have c3: "parent (h3 x) = q" "child d h3 q = child d h q"
    using c2 ne by (simp_all add: h3_def h2_def h1_def)
  have keep: "h5 z = h z" if "z \<notin> {q, x, y}" "z = nil tr \<or> z \<noteq> b" for z
    using that by (auto simp: h5_def h4_def h3_def h2_def h1_def)
  have red: "red (h5 z) = red (h z)" for z
    by (simp add: h5_def h4_def h3_def h2_def h1_def)
  have nl: "\<not> red (h5 (nil tr))" using red assms(7) by blast
  have s2: "(if child d h1 y \<noteq> nil tr then set_parent (child d h1 y) x h1 else h1) = h2"
    using c1(1) h2_def by simp
  have s4: "(if x = child d h3 (parent (h3 x)) then set_child d (parent (h3 x)) y h3
    else set_child (other d) (parent (h3 x)) y h3) = h4" unfolding c3 h4_def ..
  have eq: "rb_rotate d tr x h = Some h5"
    unfolding rb_rotate_def Let_def [of "child (other d) h x"]
    unfolding assms(2) assms(3) h1_def [symmetric] Let_def [of h1]
    unfolding s2 Let_def [of h2] unfolding c2 h3_def [symmetric] Let_def [of h3] unfolding s4 Let_def [of h4]
    unfolding Let_def [of "set_child d y x h4"] unfolding h5_def [symmetric] Let_def [of h5]
    using assms(4-6) nl by (simp add: kassert_def)
  have p4: "parent (h4 z) = parent (h3 z)" for z by (simp add: h4_def)
  have p2: "parent (h2 z) = (if z = b \<and> b \<noteq> nil tr then x else parent (h z))" for z
    by (simp add: h2_def h1_def)
  have p5: "parent (h5 z) = (if z = x then y else if z = y then q else parent (h2 z))" for z
    using ne by (simp add: h5_def p4 h3_def)
  have k2: "child f h2 z = (if f = other d \<and> z = x then b else child f h z)" for f z
    by (simp add: h2_def h1_def)
  have k4: "child f h4 z = (if f = (if x = child d h q then d else other d) \<and> z = q then y else child f h2 z)" for f z
    by (simp add: h4_def h3_def)
  have k5: "child f h5 z = (if f = d \<and> z = y then x else child f h4 z)" for f z by (simp add: h5_def)
  have "rotated d tr q x y b h h5"
    unfolding rotated_def side_simps
  proof (intro conjI)
    show "\<forall>z. z \<notin> {q, x, y} \<and> (z = nil tr \<or> z \<noteq> b) \<longrightarrow> h5 z = h z" using keep by blast
    show "\<forall>z. red (h5 z) = red (h z)" using red by blast
    show "b \<noteq> nil tr \<longrightarrow> parent (h5 b) = x \<and> child L h5 b = child L h b \<and> child R h5 b = child R h b"
      using ne by (simp add: p5 p2 k5 k4 k2)
    show "if x = child d h q then child d h5 q = y \<and> child (other d) h5 q = child (other d) h q
      else child (other d) h5 q = y \<and> child d h5 q = child d h q"
      using ne by (simp add: k5 k4 k2)
  qed (use ne in \<open>simp_all add: p5 p2 k5 k4 k2\<close>)
  with eq show ?thesis by blast
qed

text \<open>The neighbours of a node of the tree.\<close>

lemma is_tree_neighbours:
  assumes "is_tree tr h q p t" "distinct (inorder t)" "q \<notin> set_tree t" "q \<noteq> nil tr" "x \<in> set_tree t"
    "child (other d) h x = y" "y \<noteq> nil tr" "child d h y = b"
  shows "x \<noteq> nil tr \<and> x \<noteq> root tr \<and> parent (h x) \<in> insert q (set_tree t) \<and> parent (h x) \<noteq> nil tr
    \<and> y \<in> set_tree t \<and> b \<in> insert (nil tr) (set_tree t) \<and> distinct [parent (h x), x, y] \<and> b \<notin> {parent (h x), x, y}"
  using assms
proof (induction t arbitrary: q p)
  case (Node l a r)
  have a: "p = a" "a \<noteq> nil tr" "a \<noteq> root tr" "parent (h a) = q"
    and sub: "is_tree tr h a (left (h a)) l" "is_tree tr h a (right (h a)) r"
    using Node.prems(1) by simp_all
  have di: "distinct (inorder l)" "distinct (inorder r)" "a \<notin> set_tree l" "a \<notin> set_tree r" "set_tree l \<inter> set_tree r = {}"
    using Node.prems(2) by auto
  consider "x = a" | "x \<in> set_tree l" | "x \<in> set_tree r" using Node.prems(5) by auto
  then show ?case
  proof cases
    case 1
    have "\<exists>s. set_tree s \<subseteq> set_tree (Node l a r) - {a} \<and> is_tree tr h a y s \<and> distinct (inorder s)"
      using 1 sub di Node.prems(6) by (cases d) (auto simp: child_def)
    then obtain s where s: "set_tree s \<subseteq> set_tree (Node l a r) - {a}" "is_tree tr h a y s" "distinct (inorder s)" by blast
    then obtain sl sr where n: "s = Node sl y sr" using Node.prems(7) by (cases s) auto
    then have "b = nil tr \<or> b \<in> set_tree sl \<union> set_tree sr"
      using s(2) Node.prems(8) is_tree_ptr [of tr h y "left (h y)" sl] is_tree_ptr [of tr h y "right (h y)" sr]
      by (cases d) (auto simp: child_def)
    then show ?thesis using 1 a s n Node.prems(3,4,7) by auto
  next
    case 2
    then show ?thesis using Node.IH(1) [OF sub(1) di(1,3) a(2) 2 Node.prems(6-8)] a Node.prems(3) by auto
  next
    case 3
    then show ?thesis using Node.IH(2) [OF sub(2) di(2,4) a(2) 3 Node.prems(6-8)] a Node.prems(3) by auto
  qed
qed simp

lemma is_tree_parent_pos:
  assumes "is_tree tr h q p t" "x \<in> set_tree t" "distinct (inorder t)" "p \<noteq> x"
  shows "parent (h x) \<in> set_tree t \<and> parent (h x) \<noteq> x"
  using assms
proof (induction t arbitrary: q p)
  case (Node l a r)
  then show ?case by (cases l; cases r) (auto 4 3)
qed simp

text \<open>Subtrees a rotation does not touch, and the one that changes its parent.\<close>

lemma rotated_other:
  assumes "rotated d tr q x y b h h'" "is_tree tr h z c s" "set_tree s \<inter> {q, x, y} = {}" "b \<notin> set_tree s"
  shows "is_tree tr h' z c s"
proof -
  have "h' w = h w" if "w \<in> set_tree s" for w using that assms(1,3,4) unfolding rotated_def by blast
  then show ?thesis using assms(2) by (simp cong: is_tree_cong)
qed

lemma rotated_inner:
  assumes "rotated d tr q x y b h h'" "is_tree tr h y b s" "set_tree s \<inter> {q, x, y} = {}" "distinct (inorder s)"
  shows "is_tree tr h' x b s"
proof (cases "b = nil tr")
  case True
  then have "s = Leaf" using assms(2) by (cases s) auto
  with True show ?thesis by simp
next
  case False
  have "parent (h' b) = x" "left (h' b) = left (h b)" "right (h' b) = right (h b)"
    using assms(1) False unfolding rotated_def by blast+
  moreover have "h' w = h w" if "w \<in> set_tree s - {b}" for w using that assms(1,3) unfolding rotated_def by blast
  ultimately show ?thesis using is_tree_reparent [OF assms(2) False assms(4)] by blast
qed

lemma is_tree_rot_here:
  assumes "is_tree tr h q x (Node l x r)" "rotated d tr q x y b h h'" "distinct (inorder (Node l x r))"
    "q \<notin> set_tree (Node l x r)" "child (other d) h x = y" "y \<noteq> nil tr" "child d h y = b"
  shows "is_tree tr h' q y (rot d x (Node l x r))"
proof (cases d)
  case L
  have r: "is_tree tr h x y r" and l: "is_tree tr h x (left (h x)) l" using assms(1,5) L by (simp_all add: child_def)
  obtain rl rr where n: "r = Node rl y rr" using r assms(6) by (cases r) auto
  have sub: "is_tree tr h y b rl" "is_tree tr h y (right (h y)) rr" "y \<noteq> root tr"
    using r assms(7) L by (simp_all add: n child_def)
  have bin: "b = nil tr \<or> b \<in> set_tree rl" using sub(1) by (rule is_tree_ptr)
  have nn: "nil tr \<notin> set_tree l" "nil tr \<notin> set_tree rr" using l sub(2) by (auto dest: is_tree_nil)
  have "is_tree tr h' x (left (h x)) l"
    using rotated_other [OF assms(2) l] assms(3,4) bin nn n by auto
  moreover have "is_tree tr h' y (right (h y)) rr"
    using rotated_other [OF assms(2) sub(2)] assms(3,4) bin nn n by auto
  moreover have "is_tree tr h' x b rl"
    using rotated_inner [OF assms(2) sub(1)] assms(3,4) n by auto
  ultimately show ?thesis
    using assms(1,2,6) sub(3) L n unfolding rotated_def by (simp add: child_def)
next
  case R
  have l: "is_tree tr h x y l" and r: "is_tree tr h x (right (h x)) r" using assms(1,5) R by (simp_all add: child_def)
  obtain ll lr where n: "l = Node ll y lr" using l assms(6) by (cases l) auto
  have sub: "is_tree tr h y b lr" "is_tree tr h y (left (h y)) ll" "y \<noteq> root tr"
    using l assms(7) R by (simp_all add: n child_def)
  have bin: "b = nil tr \<or> b \<in> set_tree lr" using sub(1) by (rule is_tree_ptr)
  have nn: "nil tr \<notin> set_tree r" "nil tr \<notin> set_tree ll" using r sub(2) by (auto dest: is_tree_nil)
  have "is_tree tr h' x (right (h x)) r"
    using rotated_other [OF assms(2) r] assms(3,4) bin nn n by auto
  moreover have "is_tree tr h' y (left (h y)) ll"
    using rotated_other [OF assms(2) sub(2)] assms(3,4) bin nn n by auto
  moreover have "is_tree tr h' x b lr"
    using rotated_inner [OF assms(2) sub(1)] assms(3,4) n by auto
  ultimately show ?thesis
    using assms(1,2,6) sub(3) R n unfolding rotated_def by (simp add: child_def)
qed

text \<open>The link from the parent to the rotated subtree.\<close>

lemma rotated_above:
  assumes "rotated d tr a x y b h h'" "child e h a = x" "child (other e) h a \<noteq> x"
  shows "child e h' a = y" "child (other e) h' a = child (other e) h a" "parent (h' a) = parent (h a)"
  using assms unfolding rotated_def by (cases d; cases e; auto)+

text \<open>A rotation in the store is a rotation of the tree.\<close>

lemma is_tree_rotated:
  assumes "is_tree tr h q p t" "rotated d tr (parent (h x)) x y b h h'" "x \<in> set_tree t" "distinct (inorder t)"
    "q \<notin> set_tree t" "child (other d) h x = y" "y \<noteq> nil tr" "child d h y = b" "q \<noteq> nil tr"
  shows "is_tree tr h' q (if p = x then y else p) (rot d x t)"
  using assms
proof (induction t arbitrary: q p)
  case (Node l a r)
  have a: "p = a" "a \<noteq> nil tr" "a \<noteq> root tr" "parent (h a) = q"
    and sub: "is_tree tr h a (left (h a)) l" "is_tree tr h a (right (h a)) r"
    using Node.prems(1) by simp_all
  have di: "distinct (inorder l)" "distinct (inorder r)" "a \<notin> set_tree l" "a \<notin> set_tree r" "set_tree l \<inter> set_tree r = {}"
    using Node.prems(4) by auto
  have nn: "nil tr \<notin> set_tree l" "nil tr \<notin> set_tree r" using sub by (auto dest: is_tree_nil)
  note keep = Node.prems(2) [unfolded rotated_def, THEN conjunct1, rule_format, OF conjI]
  consider "x = a" | "x \<noteq> a" "x \<in> set_tree l" | "x \<noteq> a" "x \<in> set_tree r" using Node.prems(3) by auto
  then show ?case
  proof cases
    case 1
    then show ?thesis using is_tree_rot_here [of tr h q x l r d y b h'] Node.prems a by (cases d) auto
  next
    case 2
    have nb: "parent (h x) \<in> insert a (set_tree l)" "y \<in> set_tree l" "b \<in> insert (nil tr) (set_tree l)"
      using is_tree_neighbours [OF sub(1) di(1,3) a(2) 2(2) Node.prems(6-8)] by simp_all
    have xr: "x \<notin> set_tree r" using 2 di(5) by auto
    have IH: "is_tree tr h' a (if left (h a) = x then y else left (h a)) (rot d x l)"
      using Node.IH(1) [OF sub(1) Node.prems(2) 2(2) di(1,3) Node.prems(6-8) a(2)] .
    have r': "is_tree tr h' a (right (h a)) r"
      using rotated_other [OF Node.prems(2) sub(2)] nb xr di nn by auto
    have "left (h' a) = (if left (h a) = x then y else left (h a)) \<and> right (h' a) = right (h a) \<and> parent (h' a) = q"
    proof (cases "left (h a) = x")
      case True
      have "parent (h x) = a" using True sub(1) 2 nn by (cases l) auto
      moreover have "right (h a) \<noteq> x" using is_tree_ptr [OF sub(2)] xr 2 nn by auto
      ultimately show ?thesis
        using rotated_above [of d tr a x y b h h' L] Node.prems(2) True a by (simp add: child_def)
    next
      case False
      have "parent (h x) \<noteq> a" using is_tree_parent_pos [OF sub(1) 2(2) di(1) False] di by auto
      then have "h' a = h a" using keep [of a] nb 2(1) di a by auto
      then show ?thesis using False a by simp
    qed
    then show ?thesis using IH r' 2(1) a xr by (cases d) (auto simp: rot_notin)
  next
    case 3
    have nb: "parent (h x) \<in> insert a (set_tree r)" "y \<in> set_tree r" "b \<in> insert (nil tr) (set_tree r)"
      using is_tree_neighbours [OF sub(2) di(2,4) a(2) 3(2) Node.prems(6-8)] by simp_all
    have xl: "x \<notin> set_tree l" using 3 di(5) by auto
    have IH: "is_tree tr h' a (if right (h a) = x then y else right (h a)) (rot d x r)"
      using Node.IH(2) [OF sub(2) Node.prems(2) 3(2) di(2,4) Node.prems(6-8) a(2)] .
    have l': "is_tree tr h' a (left (h a)) l"
      using rotated_other [OF Node.prems(2) sub(1)] nb xl di nn by auto
    have "right (h' a) = (if right (h a) = x then y else right (h a)) \<and> left (h' a) = left (h a) \<and> parent (h' a) = q"
    proof (cases "right (h a) = x")
      case True
      have "parent (h x) = a" using True sub(2) 3 nn by (cases r) auto
      moreover have "left (h a) \<noteq> x" using is_tree_ptr [OF sub(1)] xl 3 nn by auto
      ultimately show ?thesis
        using rotated_above [of d tr a x y b h h' R] Node.prems(2) True a by (simp add: child_def)
    next
      case False
      have "parent (h x) \<noteq> a" using is_tree_parent_pos [OF sub(2) 3(2) di(2) False] di by auto
      then have "h' a = h a" using keep [of a] nb 3(1) di a by auto
      then show ?thesis using False a by simp
    qed
    then show ?thesis using IH l' 3(1) a xl by (cases d) (auto simp: rot_notin)
  qed
qed simp

lemma rb_rotate_ok:
  assumes "rb_ok tr h t" "x \<in> set_tree t" "child (other d) h x \<noteq> nil tr"
  shows "\<exists>h'. rb_rotate d tr x h = Some h' \<and> rb_ok tr h' (rot d x t) \<and> (\<forall>z. red (h' z) = red (h z))
    \<and> inorder (rot d x t) = inorder t \<and> (\<forall>z. z \<notin> insert (root tr) (set_tree t) \<longrightarrow> h' z = h z)"
proof -
  define q y b where "q = parent (h x)" and "y = child (other d) h x" and "b = child d h y"
  have ok: "nil tr \<noteq> root tr" "\<not> red (h (nil tr))" "\<not> red (h (root tr))" "distinct (inorder t)" "right (h (root tr)) = nil tr"
    "is_tree tr h (root tr) (left (h (root tr))) t" using assms(1) unfolding rb_ok_def by simp_all
  have out: "root tr \<notin> set_tree t" "nil tr \<notin> set_tree t" using is_tree_root [OF ok(6)] is_tree_nil [OF ok(6)] .
  have nb: "x \<noteq> nil tr" "x \<noteq> root tr" "q \<in> insert (root tr) (set_tree t)" "q \<noteq> nil tr" "y \<in> set_tree t"
    "b \<in> insert (nil tr) (set_tree t)" "distinct [q, x, y]" "b \<notin> {q, x, y}"
    using is_tree_neighbours [OF ok(6,4) out(1) ok(1) [symmetric] assms(2), of d y b] assms(3)
    by (simp_all add: q_def y_def b_def)
  obtain h' where h': "rb_rotate d tr x h = Some h'" "rotated d tr q x y b h h'"
    using rb_rotate_rotated [of h x q d y b tr] nb ok(2) assms(3) by (auto simp: q_def y_def b_def)
  have t: "is_tree tr h' (root tr) (if left (h (root tr)) = x then y else left (h (root tr))) (rot d x t)"
    using is_tree_rotated [OF ok(6) h'(2) [unfolded q_def] assms(2) ok(4) out(1)] assms(3) ok(1)
    by (simp add: y_def b_def)
  have reds: "red (h' z) = red (h z)" for z using h'(2) unfolding rotated_def by blast
  have "left (h' (root tr)) = (if left (h (root tr)) = x then y else left (h (root tr))) \<and> right (h' (root tr)) = nil tr"
  proof (cases "left (h (root tr)) = x")
    case True
    have "q = root tr" using True ok(6) nb(1) unfolding q_def by (cases t) auto
    then show ?thesis
      using rotated_above [of d tr "root tr" x y b h h' L] h'(2) True ok(5) nb(1) by (simp add: child_def)
  next
    case False
    have "q \<noteq> root tr" using is_tree_parent_pos [OF ok(6) assms(2) ok(4) False] out(1) unfolding q_def by auto
    then have "h' (root tr) = h (root tr)"
    proof -
      have "root tr \<notin> {q, x, y}" "root tr \<noteq> b" using \<open>q \<noteq> root tr\<close> nb out ok(1) by auto
      then show ?thesis using h'(2) [unfolded rotated_def, THEN conjunct1] by blast
    qed
    then show ?thesis using False ok(5) by simp
  qed
  then have "rb_ok tr h' (rot d x t)" using t ok reds unfolding rb_ok_def by (simp add: inorder_rot)
  moreover have "h' z = h z" if "z \<notin> insert (root tr) (set_tree t)" for z
  proof -
    have "z \<notin> {q, x, y}" "z = nil tr \<or> z \<noteq> b" using that nb(3,5,6) assms(2) by auto
    then show ?thesis using h'(2) [unfolded rotated_def, THEN conjunct1] by blast
  qed
  ultimately show ?thesis using h'(1) reds by (simp add: inorder_rot)
qed

section \<open>Properties\<close>

text \<open>
  A rotation never fails an assertion on a node whose lower child exists, turns the tree the
  store represents into its rotation at that node, and keeps the colours and the in-order sequence
  of the nodes, so no element is lost and the search order is kept; no other node changes.
\<close>

theorem rb_rotate_correct:
  assumes "rb_ok tr h t" "x \<in> set_tree t" "child (other d) h x \<noteq> nil tr"
  shows "\<exists>h'. rb_rotate d tr x h = Some h' \<and> rb_ok tr h' (rot d x t) \<and> (\<forall>z. red (h' z) = red (h z))
    \<and> inorder (rot d x t) = inorder t \<and> (\<forall>z. z \<notin> insert (root tr) (set_tree t) \<longrightarrow> h' z = h z)"
  using rb_rotate_ok [OF assms] .

text \<open>A store of four nodes: the sentinels \<open>0\<close> and \<open>1\<close>, a root \<open>2\<close> and its right child \<open>3\<close>.\<close>

definition demo_store :: "nat rb_store" where
  "demo_store = (\<lambda>_. \<lparr>red = False, parent = 0, left = 0, right = 0\<rparr>)
     (1 := \<lparr>red = False, parent = 0, left = 2, right = 0\<rparr>,
      2 := \<lparr>red = False, parent = 1, left = 0, right = 3\<rparr>,
      3 := \<lparr>red = True, parent = 2, left = 0, right = 0\<rparr>)"

abbreviation demo_rb_tree :: "nat rb_tree" where
  "demo_rb_tree \<equiv> \<lparr>nil = 0, root = 1\<rparr>"

theorem rb_rotate_correct_witness:
  "\<exists>h'. rb_rotate L demo_rb_tree 2 demo_store = Some h' \<and> rb_ok demo_rb_tree h' (Node (Node Leaf 2 Leaf) 3 Leaf)"
  using rb_rotate_correct [of demo_rb_tree demo_store "Node Leaf 2 (Node Leaf 3 Leaf)" 2 L]
  by (auto simp: rb_ok_def demo_store_def child_def)

text \<open>
  On a tree whose nodes are sorted for the key looked up, \<^verbatim>\<open>rb_search\<close> terminates; it returns a
  node of the tree that compares equal to the key, or \<^verbatim>\<open>NULL\<close> exactly when the tree has none.
\<close>

theorem rb_search_correct:
  assumes "rb_ok tr h t" "sorted_wrt (\<lambda>a b. cmp a \<le> cmp b) (inorder t)"
  shows "\<exists>r. rb_search cmp tr h = Some r \<and>
    (case r of None \<Rightarrow> \<forall>x\<in>set_tree t. cmp x \<noteq> 0 | Some x \<Rightarrow> x \<in> set_tree t \<and> cmp x = 0)"
proof -
  have "is_tree tr h (root tr) (left (h (root tr))) t" using assms(1) unfolding rb_ok_def by blast
  from search_from_tree [OF this, of cmp] show ?thesis using assms(2) unfolding rb_search_def by simp
qed

theorem rb_search_correct_witness:
  "\<exists>r. rb_search (\<lambda>x. int x - 3) demo_rb_tree demo_store = Some r \<and> r = Some 3"
  using rb_search_correct [of demo_rb_tree demo_store "Node Leaf 2 (Node Leaf 3 Leaf)" "\<lambda>x. int x - 3"]
  by (auto simp: rb_ok_def demo_store_def split: option.splits)

end
