(* ===== verification/RbInsert.thy ===== *)
theory RbInsert
  imports RbTree
begin

text \<open>
  Insertion into a red-black tree. Positions in a tree are contexts, from the hole upwards; a store
  represents a tree with a hole when the pointers around it fit. The loop of \<^verbatim>\<open>rb_insert\<close> keeps a
  tree in which only the edge above its variable \<open>x\<close> may join two red nodes, moves this edge up or
  removes it by rotations, and ends with a red-black tree: a black root, no red node below a red
  one, and the same number of black nodes on every path.
\<close>

section \<open>Contexts\<close>

text \<open>A position in a tree: from the hole upwards, the side it is on, the node above and the other subtree.\<close>

type_synonym 'p ctx = "(side \<times> 'p \<times> 'p tree) list"

fun join :: "side \<Rightarrow> 'p \<Rightarrow> 'p tree \<Rightarrow> 'p tree \<Rightarrow> 'p tree" where
  "join L x t s = Node t x s"
| "join R x t s = Node s x t"

fun plug :: "'p ctx \<Rightarrow> 'p tree \<Rightarrow> 'p tree" where
  "plug [] t = t"
| "plug ((d, x, s) # k) t = plug k (join d x t s)"

fun ctx_nodes :: "'p ctx \<Rightarrow> 'p set" where
  "ctx_nodes [] = {}"
| "ctx_nodes ((d, x, s) # k) = insert x (set_tree s \<union> ctx_nodes k)"

fun before_hole :: "'p ctx \<Rightarrow> 'p list" where
  "before_hole [] = []"
| "before_hole ((L, x, s) # k) = before_hole k"
| "before_hole ((R, x, s) # k) = before_hole k @ inorder s @ [x]"

fun after_hole :: "'p ctx \<Rightarrow> 'p list" where
  "after_hole [] = []"
| "after_hole ((L, x, s) # k) = x # inorder s @ after_hole k"
| "after_hole ((R, x, s) # k) = after_hole k"

lemma inorder_plug: "inorder (plug k t) = before_hole k @ inorder t @ after_hole k"
  by (induction k arbitrary: t rule: before_hole.induct) auto

lemma set_hole: "set (before_hole k) \<union> set (after_hole k) = ctx_nodes k"
  by (induction k rule: before_hole.induct) auto

lemma set_join [simp]: "set_tree (join d x t s) = insert x (set_tree t \<union> set_tree s)"
  by (cases d) auto

lemma set_plug: "set_tree (plug k t) = set_tree t \<union> ctx_nodes k"
  by (induction k t rule: plug.induct) auto

lemma distinct_plug:
  assumes "distinct (inorder (plug k t))"
  shows "distinct (inorder t)" "set_tree t \<inter> ctx_nodes k = {}"
  using assms set_hole [of k] unfolding inorder_plug by (auto simp: disjoint_iff)

lemma distinct_ctx:
  assumes "distinct (inorder (plug ((d, x, s) # k) t))"
  shows "x \<notin> set_tree t" "x \<notin> set_tree s" "set_tree s \<inter> set_tree t = {}" "distinct (inorder s)"
    "x \<notin> ctx_nodes k" "set_tree s \<inter> ctx_nodes k = {}"
  using distinct_plug [of k "join d x t s"] assms by (cases d; auto)+

lemma zipper: "x \<in> set_tree t \<Longrightarrow> \<exists>k a b. t = plug k (Node a x b)"
proof (induction t)
  case (Node l y r)
  have up: "plug (k @ [(d, y, s)]) u = join d y (plug k u) s" for k d s and u :: "'a tree"
    by (induction k u rule: plug.induct) simp_all
  consider "x = y" | "x \<in> set_tree l" | "x \<in> set_tree r" using Node.prems by auto
  then show ?case
  proof cases
    case 1
    then show ?thesis using plug.simps(1) by metis
  next
    case 2
    then obtain k a b where "l = plug k (Node a x b)" using Node.IH(1) by blast
    then have "Node l y r = plug (k @ [(L, y, r)]) (Node a x b)" by (simp add: up)
    then show ?thesis by blast
  next
    case 3
    then obtain k a b where "r = plug k (Node a x b)" using Node.IH(2) by blast
    then have "Node l y r = plug (k @ [(R, y, l)]) (Node a x b)" by (simp add: up)
    then show ?thesis by blast
  qed
qed simp

lemma rot_join_notin: "x \<noteq> y \<Longrightarrow> x \<notin> set_tree s \<Longrightarrow> rot e x (join d y t s) = join d y (rot e x t) s"
  by (cases d; cases e) (auto simp: rot_notin)

lemma rot_plug: "x \<notin> ctx_nodes k \<Longrightarrow> rot e x (plug k t) = plug k (rot e x t)"
  by (induction k t rule: plug.induct) (auto simp: rot_join_notin)

text \<open>The pointers of a context.\<close>

fun is_ctx :: "'p rb_tree \<Rightarrow> 'p rb_store \<Rightarrow> 'p \<Rightarrow> 'p \<Rightarrow> 'p ctx \<Rightarrow> 'p \<Rightarrow> 'p \<Rightarrow> bool" where
  "is_ctx tr h q p [] q' p' \<longleftrightarrow> q' = q \<and> p' = p"
| "is_ctx tr h q p ((d, x, s) # k) q' p' \<longleftrightarrow> q' = x \<and> child d h x = p' \<and> x \<noteq> nil tr \<and> x \<noteq> root tr
     \<and> is_tree tr h x (child (other d) h x) s \<and> is_ctx tr h q p k (parent (h x)) x"

lemma is_tree_join: "is_tree tr h q p (join d x t s) \<longleftrightarrow> p = x \<and> x \<noteq> nil tr \<and> x \<noteq> root tr \<and> parent (h x) = q
    \<and> is_tree tr h x (child d h x) t \<and> is_tree tr h x (child (other d) h x) s"
  by (cases d) (auto simp: child_def)

lemma is_tree_plug: "is_tree tr h q p (plug k t) \<longleftrightarrow> (\<exists>q' p'. is_ctx tr h q p k q' p' \<and> is_tree tr h q' p' t)"
  by (induction k t rule: plug.induct) (auto simp: is_tree_join)

section \<open>Colours\<close>

fun rt :: "'p tree \<Rightarrow> 'p set" where
  "rt Leaf = {}"
| "rt (Node l x r) = {x}"

fun edges :: "'p tree \<Rightarrow> ('p \<times> 'p) set" where
  "edges Leaf = {}"
| "edges (Node l x r) = {x} \<times> (rt l \<union> rt r) \<union> edges l \<union> edges r"

definition no_red_red :: "('p \<Rightarrow> bool) \<Rightarrow> 'p tree \<Rightarrow> bool" where
  "no_red_red c t \<longleftrightarrow> (\<forall>(a, b)\<in>edges t. \<not> (c a \<and> c b))"

fun bal :: "('p \<Rightarrow> bool) \<Rightarrow> 'p tree \<Rightarrow> nat \<Rightarrow> bool" where
  "bal c Leaf n \<longleftrightarrow> n = 0"
| "bal c (Node l x r) n \<longleftrightarrow> (if c x then bal c l n \<and> bal c r n else 0 < n \<and> bal c l (n - 1) \<and> bal c r (n - 1))"

fun above :: "'p ctx \<Rightarrow> 'p set" where
  "above [] = {}"
| "above ((d, x, s) # k) = {x}"

fun ctx_edges :: "'p ctx \<Rightarrow> ('p \<times> 'p) set" where
  "ctx_edges [] = {}"
| "ctx_edges ((d, x, s) # k) = {x} \<times> rt s \<union> edges s \<union> ctx_edges k \<union> above k \<times> {x}"

lemma rt_join [simp]: "rt (join d x t s) = {x}"
  by (cases d) auto

lemma edges_join [simp]: "edges (join d x t s) = {x} \<times> (rt t \<union> rt s) \<union> edges t \<union> edges s"
  by (cases d) auto

lemma edges_plug: "edges (plug k t) = edges t \<union> ctx_edges k \<union> above k \<times> rt t"
  by (induction k t rule: plug.induct) auto

lemma rt_set: "rt t \<subseteq> set_tree t"
  by (cases t) auto

lemma edges_set: "edges t \<subseteq> set_tree t \<times> set_tree t"
proof (induction t)
  case (Node l x r)
  then show ?case using rt_set [of l] rt_set [of r] by auto
qed simp

lemma ctx_edges_set: "ctx_edges k \<subseteq> ctx_nodes k \<times> ctx_nodes k"
proof (induction k rule: ctx_edges.induct)
  case (2 d x s k)
  have "above k \<subseteq> ctx_nodes k" by (cases k rule: above.cases) auto
  then show ?case using 2 rt_set [of s] edges_set [of s] by auto
qed simp

lemma edges_at:
  assumes "distinct (inorder (plug k (Node a x b)))"
  shows "(x, w) \<in> edges (plug k (Node a x b)) \<longleftrightarrow> w \<in> rt a \<union> rt b" "(v, x) \<in> edges (plug k (Node a x b)) \<longleftrightarrow> v \<in> above k"
proof -
  have "x \<notin> ctx_nodes k" "x \<notin> set_tree a" "x \<notin> set_tree b" using distinct_plug [OF assms] by auto
  moreover have "above k \<subseteq> ctx_nodes k" by (cases k rule: above.cases) auto
  ultimately show "(x, w) \<in> edges (plug k (Node a x b)) \<longleftrightarrow> w \<in> rt a \<union> rt b" "(v, x) \<in> edges (plug k (Node a x b)) \<longleftrightarrow> v \<in> above k"
    unfolding edges_plug using ctx_edges_set [of k] edges_set [of a] edges_set [of b] rt_set [of a] rt_set [of b] by auto
qed

lemma bal_cong: "(\<And>x. x \<in> set_tree t \<Longrightarrow> c' x = c x) \<Longrightarrow> bal c' t n = bal c t n"
  by (induction t arbitrary: n) auto

lemma bal_join: "bal c (join d x t s) n \<longleftrightarrow> (if c x then bal c t n \<and> bal c s n else 0 < n \<and> bal c t (n - 1) \<and> bal c s (n - 1))"
  by (cases d) auto

lemma bal_plug:
  assumes "\<And>x. x \<in> ctx_nodes k \<Longrightarrow> c' x = c x" "\<And>m. bal c t m \<Longrightarrow> bal c' t' m" "bal c (plug k t) n"
  shows "bal c' (plug k t') n"
  using assms
proof (induction k arbitrary: t t')
  case (Cons f k)
  obtain d x s where f: "f = (d, x, s)" using prod_cases3 by blast
  have "bal c' s m = bal c s m" for m using Cons.prems(1) f by (intro bal_cong) auto
  then have "bal c (join d x t s) m \<Longrightarrow> bal c' (join d x t' s) m" for m
    using Cons.prems(1) [of x] Cons.prems(2) f by (auto simp: bal_join split: if_splits)
  then show ?case using Cons.IH [of "join d x t s" "join d x t' s"] Cons.prems(1,3) f by simp
qed simp

abbreviation col :: "'p rb_store \<Rightarrow> 'p \<Rightarrow> bool" where
  "col h \<equiv> (\<lambda>z. red (h z))"

lemma no_red_red_mono: "no_red_red c t \<Longrightarrow> (\<And>z. c' z \<Longrightarrow> c z) \<Longrightarrow> no_red_red c' t"
  unfolding no_red_red_def by blast

lemma col_set_red [simp]: "red (set_red x v h z) = (if z = x then v else red (h z))"
  by (simp add: set_red_def)

lemma links_set_red [simp]:
  "parent (set_red x v h z) = parent (h z)" "left (set_red x v h z) = left (h z)" "right (set_red x v h z) = right (h z)"
  "child d (set_red x v h) z = child d h z"
  by (cases d; simp add: set_red_def child_def)+

lemma is_tree_set_red [simp]: "is_tree tr (set_red x v h) q p t = is_tree tr h q p t"
  by (rule is_tree_cong_ptrs) simp

lemma rb_ok_set_red: "rb_ok tr h t \<Longrightarrow> v \<longrightarrow> x \<noteq> nil tr \<and> x \<noteq> root tr \<Longrightarrow> rb_ok tr (set_red x v h) t"
  by (auto simp: rb_ok_def)

lemma rb_ok_distinct: "rb_ok tr h t \<Longrightarrow> distinct (inorder t)"
  by (simp add: rb_ok_def)

lemma rb_ok_nodes: "rb_ok tr h t \<Longrightarrow> x \<in> set_tree t \<Longrightarrow> x \<noteq> nil tr \<and> x \<noteq> root tr"
  using is_tree_nil is_tree_root unfolding rb_ok_def by metis

text \<open>The pointers around a position.\<close>

lemma rb_ok_hole:
  assumes "rb_ok tr h (plug k (Node a x b))"
  shows "is_ctx tr h (root tr) (left (h (root tr))) k (parent (h x)) x" "is_tree tr h (parent (h x)) x (Node a x b)"
  using assms unfolding rb_ok_def is_tree_plug by auto

definition ptr :: "'p rb_tree \<Rightarrow> 'p tree \<Rightarrow> 'p" where
  "ptr tr t = (case t of Leaf \<Rightarrow> nil tr | Node l x r \<Rightarrow> x)"

lemma is_tree_is_ptr: "is_tree tr h q p t \<Longrightarrow> p = ptr tr t"
  by (cases t) (auto simp: ptr_def)

lemma rb_ok_two_up:
  assumes "rb_ok tr h (plug ((d, p, s) # (e, g, u) # k) (Node a x b))"
  shows "parent (h x) = p" "parent (h p) = g" "child d h p = x" "child (other d) h p = ptr tr s" "child e h g = p"
    "child (other e) h g = ptr tr u"
  using rb_ok_hole [OF assms] by (auto dest: is_tree_is_ptr)

lemma red_ptr: "rb_ok tr h t \<Longrightarrow> red (h (ptr tr u)) \<Longrightarrow> u \<noteq> Leaf \<and> rt u = {ptr tr u}"
  by (cases u) (auto simp: ptr_def rb_ok_def)

definition same_outside :: "'p set \<Rightarrow> 'p rb_store \<Rightarrow> 'p rb_store \<Rightarrow> bool" where
  "same_outside S h h' \<longleftrightarrow> (\<forall>w. w \<notin> S \<longrightarrow> h' w = h w)"

lemma same_outside_trans: "same_outside S h h1 \<Longrightarrow> same_outside S h1 h2 \<Longrightarrow> same_outside S h h2"
  by (simp add: same_outside_def)

lemma same_outside_set_red: "x \<in> S \<Longrightarrow> same_outside S h (set_red x v h)"
  by (auto simp: same_outside_def set_red_def)

text \<open>The state of the loop of \<^verbatim>\<open>rb_insert\<close> at node \<open>x\<close>: only the edge above \<open>x\<close> may join two red nodes.\<close>

definition almost_ok :: "'p rb_tree \<Rightarrow> 'p rb_store \<Rightarrow> 'p ctx \<Rightarrow> 'p tree \<Rightarrow> 'p \<Rightarrow> 'p tree \<Rightarrow> bool" where
  "almost_ok tr h k a x b \<longleftrightarrow> (let t = plug k (Node a x b) in
     rb_ok tr h t \<and> red (h x) \<and> no_red_red ((col h)(x := False)) t \<and> (\<forall>y\<in>rt a \<union> rt b. \<not> red (h y))
     \<and> (\<forall>y\<in>rt t - {x}. \<not> red (h y)) \<and> (\<exists>n. bal (col h) t n))"

definition insert_done :: "'p rb_tree \<Rightarrow> 'p rb_store \<Rightarrow> 'p tree \<Rightarrow> bool" where
  "insert_done tr h t \<longleftrightarrow> rb_ok tr h t \<and> t \<noteq> Leaf \<and> (\<exists>n. bal (col h) t n) \<and> (\<forall>y\<in>rt t. no_red_red ((col h)(y := False)) t)"

lemma rot_outer: "g \<noteq> p \<Longrightarrow> rot (other d) g (join d g (join d p X s) u) = join d p X (join d g s u)"
  by (cases d) auto

lemma rot_inner_L: "rot L p (join R p (Node a x b) s) = join L x (Node s p a) b"
  by simp

lemma rot_inner_R: "rot R p (join L p (Node a x b) s) = join R x (Node b p s) a"
  by simp

lemma insert_done_stop:
  assumes "almost_ok tr h k a x b" "\<not> red (h (parent (h x)))"
  shows "insert_done tr h (plug k (Node a x b))"
proof -
  let ?t = "plug k (Node a x b)"
  note al = assms(1) [unfolded almost_ok_def Let_def]
  have ab: "above k \<subseteq> {parent (h x)}" using rb_ok_hole(1) [of tr h k a x b] al by (cases k rule: above.cases) auto
  have "no_red_red ((col h)(y := False)) ?t" if "y \<in> rt ?t" for y
  proof (cases "k = []")
    case True
    then show ?thesis using al that by simp
  next
    case False
    have "\<not> (red (h v) \<and> red (h w))" if e: "(v, w) \<in> edges ?t" for v w
    proof
      assume vw: "red (h v) \<and> red (h w)"
      then have "v = x \<or> w = x" using al e unfolding no_red_red_def by fastforce
      then show False
        using e vw al assms(2) ab edges_at [OF rb_ok_distinct, of tr h k a x b] by auto
    qed
    then show ?thesis unfolding no_red_red_def by auto
  qed
  moreover have "?t \<noteq> Leaf" using set_plug [of k "Node a x b"] by auto
  ultimately show ?thesis using al unfolding insert_done_def by blast
qed

text \<open>A red parent is not the root of the tree, so the grandparent exists; it is black.\<close>

lemma red_parent:
  assumes "almost_ok tr h k a x b" "red (h (parent (h x)))"
  obtains d p s e g u k' where "k = (d, p, s) # (e, g, u) # k'" "parent (h x) = p" "red (h p)" "\<not> red (h g)" "\<forall>y\<in>rt s. \<not> red (h y)"
proof -
  note al = assms(1) [unfolded almost_ok_def Let_def]
  note hole = rb_ok_hole(1) [of tr h k a x b]
  obtain d p s k1 where k: "k = (d, p, s) # k1" "parent (h x) = p"
    using hole al assms(2) by (cases k rule: above.cases) (auto simp: rb_ok_def)
  have nx: "p \<noteq> x" using distinct_plug [OF rb_ok_distinct, of tr h k "Node a x b"] al k by auto
  have "k1 \<noteq> []"
  proof
    assume "k1 = []"
    then have "rt (plug k (Node a x b)) = {p}" using k by simp
    then show False using al nx assms(2) k(2) by simp
  qed
  then obtain e g u k' where k1: "k1 = (e, g, u) # k'" by (metis list.exhaust prod_cases3)
  have di: "distinct (inorder (plug k (Node a x b)))" using al rb_ok_distinct by blast
  then have nn: "x \<notin> ctx_nodes k" using distinct_plug(2) [of k "Node a x b"] by auto
  have "(g, p) \<in> edges (plug k (Node a x b))" unfolding edges_plug using k k1 by auto
  then have g: "\<not> red (h g)" using al assms(2) k k1 nn unfolding no_red_red_def by fastforce
  have "\<not> red (h y)" if y: "y \<in> rt s" for y
  proof -
    have "(p, y) \<in> edges (plug k (Node a x b))" unfolding edges_plug using k y by auto
    moreover have "y \<noteq> x" using y rt_set [of s] nn k by auto
    ultimately show ?thesis using al assms(2) k(2) nx unfolding no_red_red_def by fastforce
  qed
  then show ?thesis using that [OF _ k(2) _ g] k k1 assms(2) by simp
qed

lemma rt_plug_ctx: "k \<noteq> [] \<Longrightarrow> rt (plug k t) \<subseteq> ctx_nodes k"
proof (induction k t rule: plug.induct)
  case (2 d x s k t)
  then show ?case by (cases "k = []") auto
qed simp

lemma rt_plug_cong: "rt w = rt w' \<Longrightarrow> rt (plug k w) = rt (plug k w')"
  by (induction k w arbitrary: w' rule: plug.induct) auto

lemma almost_root:
  assumes "almost_ok tr h (f # k) a x b" "y \<in> rt (plug (f # k) (Node a x b))"
  shows "\<not> red (h y)"
proof -
  note al = assms(1) [unfolded almost_ok_def Let_def]
  have "x \<notin> ctx_nodes (f # k)" using distinct_plug [OF rb_ok_distinct, of tr h "f # k" "Node a x b"] al by auto
  then have "y \<noteq> x" using rt_plug_ctx [of "f # k" "Node a x b"] assms(2) by auto
  then show ?thesis using al assms(2) by blast
qed

lemma almost_edges:
  assumes "almost_ok tr h k a x b" "(v, w) \<in> edges (plug k (Node a x b))" "red (h v)" "red (h w)"
  shows "w = x \<and> v \<in> above k"
proof -
  note al = assms(1) [unfolded almost_ok_def Let_def]
  have "v = x \<or> w = x" using al assms(2-4) unfolding no_red_red_def by fastforce
  then show ?thesis using edges_at [OF rb_ok_distinct, of tr h k a x b] al assms(2-4) by auto
qed

lemma recolour_up:
  assumes al: "almost_ok tr h ((d, p, s) # (e, g, u) # k) a x b" and c: "red (h p)" "\<not> red (h g)" "red (h y)" "u = Node ul y ur"
    and T: "Node l g r = join e g (join d p (Node a x b) s) u"
  shows "almost_ok tr (set_red g True (set_red y False (set_red p False h))) k l g r"
proof -
  let ?h = "set_red g True (set_red y False (set_red p False h))"
  let ?t = "plug k (Node l g r)" and ?X = "Node a x b"
  note al' = al [unfolded almost_ok_def Let_def]
  have te: "plug ((d, p, s) # (e, g, u) # k) ?X = ?t" using T by simp
  have ok: "rb_ok tr h ?t" using al' te by simp
  note u = c(4)
  have di: "distinct (inorder (join e g (join d p ?X s) u))" using distinct_plug(1) [OF rb_ok_distinct [OF ok]] T by simp
  have nin: "{g, p, y} \<inter> (set_tree ?X \<union> set_tree s \<union> set_tree ul \<union> set_tree ur) = {}" "g \<noteq> p" "g \<noteq> y" "p \<noteq> y"
    using di unfolding u by (cases e; cases d; auto)+
  have ctx: "{g, p, y} \<inter> ctx_nodes k = {}"
    using distinct_plug(2) [OF rb_ok_distinct [OF ok]] unfolding T by (auto simp: u)
  have nodes: "g \<noteq> nil tr" "g \<noteq> root tr" using rb_ok_nodes [OF ok, of g] by (auto simp: set_plug)
  have "rb_ok tr ?h ?t" using ok nodes by (intro rb_ok_set_red) auto
  moreover have "no_red_red ((col ?h)(g := False)) ?t"
  proof -
    have "\<not> (((col ?h)(g := False)) v \<and> ((col ?h)(g := False)) w)" if "(v, w) \<in> edges ?t" for v w
      using almost_edges [OF al, of v w] that te by (auto split: if_splits)
    then show ?thesis unfolding no_red_red_def by blast
  qed
  moreover have "rt l \<union> rt r = {p, y}" using T u by (cases e) auto
  then have "\<forall>y\<in>rt l \<union> rt r. \<not> red (?h y)" using nin by simp
  moreover have "\<forall>y\<in>rt ?t - {g}. \<not> red (?h y)" using almost_root [OF al] te by auto
  moreover have "\<exists>n. bal (col ?h) ?t n"
  proof -
    define c' where "c' = col ?h"
    have cs: "c' g" "\<not> c' p" "\<not> c' y" using nin by (simp_all add: c'_def)
    have eq: "bal c' w m = bal (col h) w m" if "set_tree w \<subseteq> set_tree ?X \<union> set_tree s \<union> set_tree ul \<union> set_tree ur" for w m
      using that nin by (intro bal_cong) (auto simp: c'_def)
    have eqs: "bal c' ?X m = bal (col h) ?X m" "bal c' s m = bal (col h) s m" "bal c' ul m = bal (col h) ul m" "bal c' ur m = bal (col h) ur m" for m
      by (rule eq; auto)+
    have uj: "u = join L y ul ur" using u by simp
    have "bal c' (Node l g r) m" if "bal (col h) (Node l g r) m" for m
      using that c(1-3) cs unfolding T uj by (simp add: bal_join eqs del: bal.simps(2) join.simps)
    moreover have "c' z = col h z" if "z \<in> ctx_nodes k" for z using that ctx by (auto simp: c'_def)
    moreover obtain n where "bal (col h) ?t n" using al' te by auto
    ultimately have "bal c' ?t n" by (intro bal_plug [of k c' "col h" "Node l g r" "Node l g r" n])
    then show ?thesis unfolding c'_def by (rule exI)
  qed
  ultimately show ?thesis unfolding almost_ok_def Let_def by simp
qed

text \<open>The last rotation: the hole is the outer grandchild.\<close>

lemma repair_outer:
  assumes al: "almost_ok tr h ((d, p, s) # (d, g, u) # k) a x b"
    and c: "red (h p)" "\<not> red (h g)" "\<forall>y\<in>rt s \<union> rt u. \<not> red (h y)"
  shows "\<exists>h'. rb_rotate (other d) tr g (set_red g True (set_red p False h)) = Some h' \<and> parent (h' x) = p \<and> \<not> red (h' p)
    \<and> insert_done tr h' (plug k (join d p (Node a x b) (join d g s u)))
    \<and> same_outside (insert (root tr) (set_tree (plug ((d, p, s) # (d, g, u) # k) (Node a x b)))) h h'"
proof -
  let ?X = "Node a x b" and ?h = "set_red g True (set_red p False h)"
  let ?t = "plug k (join d g (join d p ?X s) u)" and ?t' = "plug k (join d p ?X (join d g s u))"
  note al' = al [unfolded almost_ok_def Let_def]
  have ok: "rb_ok tr h ?t" using al' by simp
  have di: "distinct (inorder (join d g (join d p ?X s) u))" using distinct_plug(1) [OF rb_ok_distinct [OF ok]] by simp
  have nin: "{g, p} \<inter> (set_tree ?X \<union> set_tree s \<union> set_tree u) = {}" "g \<noteq> p"
    using di by (cases d; auto)+
  have ctx: "{g, p} \<inter> ctx_nodes k = {}" using distinct_plug(2) [OF rb_ok_distinct [OF ok]] by auto
  have nodes: "g \<noteq> nil tr" "g \<noteq> root tr" "p \<noteq> nil tr" using rb_ok_nodes [OF ok, of g] rb_ok_nodes [OF ok, of p] by (auto simp: set_plug)
  have ok': "rb_ok tr ?h ?t" using ok nodes by (intro rb_ok_set_red) auto
  have "child (other (other d)) ?h g = p"
    using rb_ok_two_up(5) [of tr h d p s d g u k a x b] al' by (cases d) simp_all
  then obtain h' where h': "rb_rotate (other d) tr g ?h = Some h'" "rb_ok tr h' (rot (other d) g ?t)" "\<And>z. red (h' z) = red (?h z)"
    "same_outside (insert (root tr) (set_tree ?t)) ?h h'"
    unfolding same_outside_def using rb_rotate_ok [OF ok', of g "other d"] nodes(3) by (auto simp: set_plug)
  have rt': "rot (other d) g ?t = ?t'" using rot_plug [of g k] ctx rot_outer [OF nin(2)] by simp
  have ok3: "rb_ok tr h' ?t'" using h'(2) rt' by simp
  have hx: "red (h' z) = (if z = g then True else if z = p then False else red (h z))" for z using h'(3) by simp
  have "parent (h' x) = p"
    using rb_ok_hole(1) [of tr h' "(d, p, join d g s u) # k" a x b] ok3 by simp
  moreover have "\<not> red (h' p)" using h'(3) [of p] nin by simp
  moreover have nr: "no_red_red (col h') ?t'"
  proof -
    have "\<not> (red (h' v) \<and> red (h' w))" if "(v, w) \<in> edges ?t'" for v w
    proof
      assume r: "red (h' v) \<and> red (h' w)"
      have e: "(v, w) \<in> {p} \<times> {x, g} \<union> edges ?X \<union> {g} \<times> (rt s \<union> rt u) \<union> edges s \<union> edges u \<union> ctx_edges k \<union> above k \<times> {p}"
        using that unfolding edges_plug by auto
      have "v \<noteq> p" "w \<noteq> p" using r h'(3) nin by auto
      moreover have "g \<notin> rt s \<union> rt u" using nin rt_set [of s] rt_set [of u] by auto
      moreover have "\<not> (v = g \<and> w \<in> rt s \<union> rt u)" using r c(3) \<open>g \<notin> rt s \<union> rt u\<close> unfolding hx by (metis)
      ultimately have "(v, w) \<in> edges ?X \<union> edges s \<union> edges u \<union> ctx_edges k" using e by blast
      moreover have "(edges ?X \<union> edges s \<union> edges u \<union> ctx_edges k) \<inter> {(i, j). i = g \<or> j = g} = {}"
        using edges_set [of ?X] edges_set [of s] edges_set [of u] ctx_edges_set [of k] nin(1) ctx by blast
      ultimately have "v \<noteq> g" "w \<noteq> g" "(v, w) \<in> edges ?t" unfolding edges_plug by auto
      then have "red (h v)" "red (h w)" "(v, w) \<in> edges ?t" using r \<open>v \<noteq> p\<close> \<open>w \<noteq> p\<close> unfolding hx by simp_all
      then have "w = x \<and> v = p" using almost_edges [OF al, of v w] by simp
      then show False using \<open>v \<noteq> p\<close> by simp
    qed
    then show ?thesis unfolding no_red_red_def by blast
  qed
  moreover have "\<exists>n. bal (col h') ?t' n"
  proof -
    define c' where "c' = col h'"
    have cs: "c' g" "\<not> c' p" using nin hx by (simp_all add: c'_def)
    have eq: "bal c' w m = bal (col h) w m" if "set_tree w \<subseteq> set_tree ?X \<union> set_tree s \<union> set_tree u" for w m
      using that nin by (intro bal_cong) (auto simp: c'_def hx)
    have eqs: "bal c' ?X m = bal (col h) ?X m" "bal c' s m = bal (col h) s m" "bal c' u m = bal (col h) u m" for m by (rule eq; auto)+
    have "bal c' (join d p ?X (join d g s u)) m" if "bal (col h) (join d g (join d p ?X s) u) m" for m
      using that c(1,2) cs by (simp add: bal_join eqs del: bal.simps(2))
    moreover have "c' z = col h z" if "z \<in> ctx_nodes k" for z using that ctx by (auto simp: c'_def hx)
    moreover obtain n where "bal (col h) ?t n" using al' by auto
    ultimately have "bal c' ?t' n" by (intro bal_plug [of k c' "col h" "join d g (join d p ?X s) u" _ n])
    then show ?thesis unfolding c'_def by (rule exI)
  qed
  moreover have "?t' \<noteq> Leaf" using set_plug [of k "join d p ?X (join d g s u)"] by auto
  moreover have "no_red_red ((col h')(y := False)) ?t'" for y by (rule no_red_red_mono [OF nr]) (auto split: if_splits)
  moreover have "same_outside (insert (root tr) (set_tree ?t)) h h'"
    by (rule same_outside_trans [OF same_outside_trans [OF same_outside_set_red same_outside_set_red] h'(4)]) (auto simp: set_plug)
  ultimately show ?thesis using h'(1) ok3 unfolding insert_done_def by simp
qed

text \<open>The first rotation turns an inner grandchild into an outer one.\<close>

lemma rot_inner:
  obtains a' b' s' where "rot d p (join (other d) p (Node a x b) s) = join d x (Node a' p b') s'"
    "rt a' \<union> rt b' \<subseteq> rt a \<union> rt b \<union> rt s" "rt s' \<subseteq> rt a \<union> rt b" "edges a' \<union> edges b' \<union> edges s' = edges a \<union> edges b \<union> edges s"
    "\<And>c m. c x \<Longrightarrow> c p \<Longrightarrow> bal c (join (other d) p (Node a x b) s) m \<Longrightarrow> bal c (join d x (Node a' p b') s') m"
proof (cases d)
  case L
  show ?thesis by (rule that [of s a b]) (use L in auto)
next
  case R
  show ?thesis by (rule that [of b s a]) (use R in auto)
qed

lemma repair_inner:
  assumes al: "almost_ok tr h ((other d, p, s) # (d, g, u) # k) a x b"
    and c: "red (h p)" "\<not> red (h g)" "\<forall>y\<in>rt s. \<not> red (h y)"
  shows "\<exists>h' a' b' s'. rb_rotate d tr p h = Some h' \<and> almost_ok tr h' ((d, x, s') # (d, g, u) # k) a' p b' \<and> col h' = col h
    \<and> (\<forall>y\<in>rt s'. \<not> red (h y)) \<and> inorder (plug ((d, x, s') # (d, g, u) # k) (Node a' p b')) = inorder (plug ((other d, p, s) # (d, g, u) # k) (Node a x b))
    \<and> same_outside (insert (root tr) (set_tree (plug ((other d, p, s) # (d, g, u) # k) (Node a x b)))) h h'"
proof -
  let ?k = "(d, g, u) # k" and ?P = "join (other d) p (Node a x b) s"
  note al' = al [unfolded almost_ok_def Let_def]
  have ok: "rb_ok tr h (plug ?k ?P)" using al' by simp
  have "p \<noteq> nil tr" "x \<noteq> nil tr" using rb_ok_nodes [OF ok, of p] rb_ok_nodes [OF ok, of x] by (auto simp: set_plug)
  moreover have "child (other d) h p = x" using rb_ok_two_up(3) [of tr h "other d" p s d g u k a x b] al' by simp
  ultimately obtain h' where h': "rb_rotate d tr p h = Some h'" "rb_ok tr h' (rot d p (plug ?k ?P))" "\<And>z. red (h' z) = red (h z)"
    "inorder (rot d p (plug ?k ?P)) = inorder (plug ?k ?P)" "same_outside (insert (root tr) (set_tree (plug ?k ?P))) h h'"
    unfolding same_outside_def using rb_rotate_ok [OF ok, of p d] by (auto simp: set_plug)
  obtain a' b' s' where r: "rot d p ?P = join d x (Node a' p b') s'" "rt a' \<union> rt b' \<subseteq> rt a \<union> rt b \<union> rt s" "rt s' \<subseteq> rt a \<union> rt b"
    "edges a' \<union> edges b' \<union> edges s' = edges a \<union> edges b \<union> edges s"
    "\<And>c m. c x \<Longrightarrow> c p \<Longrightarrow> bal c ?P m \<Longrightarrow> bal c (join d x (Node a' p b') s') m"
    using rot_inner [of d p a x b s] by blast
  have pk: "p \<notin> ctx_nodes ?k" using distinct_plug(2) [OF rb_ok_distinct [OF ok]] by auto
  then have rp: "rot d p (plug ?k ?P) = plug ?k (join d x (Node a' p b') s')" using rot_plug [of p ?k d ?P] r(1) by simp
  let ?t = "plug ((d, x, s') # ?k) (Node a' p b')"
  have ceq: "col h' = col h" using h'(3) by auto
  have ok': "rb_ok tr h' ?t" using h'(2) rp by simp
  have px: "p \<noteq> x" using distinct_plug(1) [OF rb_ok_distinct [OF ok]] by (cases d) auto
  have leaves: "\<forall>y\<in>rt a \<union> rt b. \<not> red (h y)" using al' by simp
  have "no_red_red ((col h)(p := False)) ?t"
  proof -
    have "\<not> (red (h v) \<and> red (h w))" if e: "(v, w) \<in> edges ?t" "v \<noteq> p" "w \<noteq> p" for v w
    proof
      assume vw: "red (h v) \<and> red (h w)"
      have "(v, w) \<in> {x} \<times> rt s' \<union> edges a \<union> edges b \<union> edges s \<union> ctx_edges ?k \<union> {g} \<times> {x}"
        using e r(4) unfolding plug.simps(2) [of d x] edges_plug by auto
      moreover have "\<not> (v = x \<and> w \<in> rt s')" using vw leaves r(3) by auto
      moreover have "v \<noteq> g" using vw c(2) by auto
      ultimately have "(v, w) \<in> edges (plug ?k ?P)" unfolding edges_plug by auto
      then show False using almost_edges [OF al, of v w] vw \<open>v \<noteq> p\<close> by simp
    qed
    then show ?thesis unfolding no_red_red_def by auto
  qed
  moreover have "\<forall>y\<in>rt a' \<union> rt b'. \<not> red (h y)" using r(2) leaves c(3) by blast
  moreover have "\<forall>y\<in>rt ?t. \<not> red (h y)"
  proof -
    have "rt ?t = rt (plug ?k ?P)" unfolding plug.simps by (rule rt_plug_cong) simp
    then show ?thesis using almost_root [OF al] by simp
  qed
  moreover have "\<exists>n. bal (col h) ?t n"
  proof -
    obtain n where "bal (col h) (plug ?k ?P) n" using al' by auto
    then have "bal (col h) (plug ?k (join d x (Node a' p b') s')) n"
      using bal_plug [of ?k "col h" "col h" ?P] r(5) [of "col h"] c(1) al' by blast
    then show ?thesis by auto
  qed
  ultimately have "almost_ok tr h' ((d, x, s') # ?k) a' p b'"
    using ok' c(1) unfolding almost_ok_def Let_def ceq by (auto simp: h'(3))
  moreover have "\<forall>y\<in>rt s'. \<not> red (h y)" using leaves r(3) by blast
  moreover have "inorder ?t = inorder (plug ((other d, p, s) # ?k) (Node a x b))" using h'(4) rp by simp
  moreover have "same_outside (insert (root tr) (set_tree (plug ((other d, p, s) # ?k) (Node a x b)))) h h'" using h'(5) by simp
  ultimately show ?thesis using h'(1) ceq by blast
qed

text \<open>The loop ends and repairs the tree.\<close>

lemma insert_loop_ok:
  assumes "almost_ok tr h k a x b"
  shows "\<exists>h' t. rb_insert_loop tr x h = Some h' \<and> insert_done tr h' t \<and> inorder t = inorder (plug k (Node a x b))
    \<and> same_outside (insert (root tr) (set_tree (plug k (Node a x b)))) h h'"
  using assms
proof (induction "length k" arbitrary: h k a x b rule: less_induct)
  case less
  show ?case
  proof (cases "red (h (parent (h x)))")
    case False
    then have "rb_insert_loop tr x h = Some h" by (subst rb_insert_loop.simps) simp
    then show ?thesis using insert_done_stop [OF less.prems False] same_outside_def by blast
  next
    case True
    obtain d p s e g u k' where k: "k = (d, p, s) # (e, g, u) # k'" and px: "parent (h x) = p"
      and c: "red (h p)" "\<not> red (h g)" "\<forall>y\<in>rt s. \<not> red (h y)" using red_parent [OF less.prems True] by blast
    note al = less.prems [unfolded k]
    have ok: "rb_ok tr h (plug ((d, p, s) # (e, g, u) # k') (Node a x b))" using al by (simp add: almost_ok_def Let_def)
    note up = rb_ok_two_up [OF ok]
    have di: "distinct (inorder (join e g (join d p (Node a x b) s) u))" using distinct_plug(1) [OF rb_ok_distinct [OF ok [simplified]]] .
    have "p \<noteq> ptr tr u" using di rb_ok_nodes [OF ok, of p] by (cases e; cases u) (auto simp: ptr_def set_plug)
    then have side: "(if parent (h x) = left (h (parent (h (parent (h x))))) then L else R) = e"
      using up px by (cases e) (auto simp: child_def)
    have step: "rb_insert_loop tr x h = do { (x, h) \<leftarrow> rb_insert_sub e tr x h; rb_insert_loop tr x h }"
      using True side by (subst rb_insert_loop.simps) simp
    show ?thesis
    proof (cases "red (h (ptr tr u))")
      case True
      have "u \<noteq> Leaf" using red_ptr [OF ok True] by simp
      then obtain ul ur where u: "u = Node ul (ptr tr u) ur" by (cases u) (auto simp: ptr_def)
      let ?h = "set_red g True (set_red (ptr tr u) False (set_red p False h))"
      have "rb_insert_sub e tr x h = Some (g, ?h)"
        using True up px by (simp add: rb_insert_sub_def Let_def)
      moreover obtain l r where T: "Node l g r = join e g (join d p (Node a x b) s) u" by (cases e) auto
      moreover have "almost_ok tr ?h k' l g r" using recolour_up [OF al c(1,2) True u T] .
      moreover have "plug k (Node a x b) = plug k' (Node l g r)" using k T by simp
      moreover have "same_outside (insert (root tr) (set_tree (plug k' (Node l g r)))) h ?h"
        by (rule same_outside_trans [OF same_outside_trans [OF same_outside_set_red same_outside_set_red] same_outside_set_red])
          (use u in \<open>auto simp: set_plug T, (metis UnCI tree.set_intros(2))+\<close>)
      ultimately show ?thesis
        using less.hyps [of k' ?h l g r] step k same_outside_trans [of _ h ?h] by fastforce
    next
      case False
      have cu: "\<forall>y\<in>rt u. \<not> red (h y)" using False by (cases u) (auto simp: ptr_def)
      have ed: "x = child (other e) h p \<longleftrightarrow> d = other e"
      proof -
        have "x \<noteq> ptr tr s" using di rb_ok_nodes [OF ok, of x] by (cases d; cases e; cases s) (auto simp: ptr_def set_plug)
        then show ?thesis using up(3,4) by (cases d; cases e) auto
      qed
      have stop: "rb_insert_loop tr x h' = Some h'" if "parent (h' x) = p" "\<not> red (h' p)" for x p and h' :: "'a rb_store"
        using that by (subst rb_insert_loop.simps) simp
      show ?thesis
      proof (cases "d = other e")
        case True
        obtain h1 a' b' s' where h1: "rb_rotate e tr p h = Some h1" "almost_ok tr h1 ((e, x, s') # (e, g, u) # k') a' p b'" "col h1 = col h"
          "\<forall>y\<in>rt s'. \<not> red (h y)" "inorder (plug ((e, x, s') # (e, g, u) # k') (Node a' p b')) = inorder (plug k (Node a x b))"
          "same_outside (insert (root tr) (set_tree (plug k (Node a x b)))) h h1"
          using repair_inner [OF al [unfolded True] c] True k by auto
        have ok1: "rb_ok tr h1 (plug ((e, x, s') # (e, g, u) # k') (Node a' p b'))" using h1(2) by (simp add: almost_ok_def Let_def)
        have c1: "red (h1 x)" "\<not> red (h1 g)" "\<forall>y\<in>rt s' \<union> rt u. \<not> red (h1 y)"
          using h1(3,4) c(2) cu al by (auto simp: almost_ok_def Let_def dest: fun_cong)
        obtain h2 where h2: "rb_rotate (other e) tr g (set_red g True (set_red x False h1)) = Some h2" "parent (h2 p) = x" "\<not> red (h2 x)"
          "insert_done tr h2 (plug k' (join e x (Node a' p b') (join e g s' u)))"
          "same_outside (insert (root tr) (set_tree (plug ((e, x, s') # (e, g, u) # k') (Node a' p b')))) h1 h2"
          using repair_outer [OF h1(2) c1] by blast
        have "rb_insert_sub e tr x h = Some (p, h2)"
          using False up px ed True h1(1) h2(1) rb_ok_two_up [OF ok1] by (simp add: rb_insert_sub_def Let_def)
        moreover have "inorder (plug k' (join e x (Node a' p b') (join e g s' u))) = inorder (plug k (Node a x b))"
          unfolding h1(5) [symmetric] by (cases e) (simp_all add: inorder_plug)
        moreover have "set_tree (plug ((e, x, s') # (e, g, u) # k') (Node a' p b')) = set_tree (plug k (Node a x b))"
          using h1(5) by (metis set_inorder)
        ultimately show ?thesis using step stop [OF h2(2,3)] h2(4) same_outside_trans [OF h1(6)] h2(5) by auto
      next
        case ne: False
        then have de: "d = e" by (cases d; cases e) auto
        obtain h2 where h2: "rb_rotate (other e) tr g (set_red g True (set_red p False h)) = Some h2" "parent (h2 x) = p" "\<not> red (h2 p)"
          "insert_done tr h2 (plug k' (join e p (Node a x b) (join e g s u)))"
          "same_outside (insert (root tr) (set_tree (plug k (Node a x b)))) h h2"
          using repair_outer [OF al [unfolded de] c(1,2)] c(3) cu k de by auto
        have "rb_insert_sub e tr x h = Some (x, h2)"
          using False up px ed ne h2(1) by (simp add: rb_insert_sub_def Let_def)
        moreover have "inorder (plug k' (join e p (Node a x b) (join e g s u))) = inorder (plug k (Node a x b))"
          unfolding k de by (cases e) (simp_all add: inorder_plug)
        ultimately show ?thesis using step stop [OF h2(2,3)] h2(4,5) by auto
      qed
    qed
  qed
qed

section \<open>Inserting a leaf\<close>

fun bins :: "('p \<Rightarrow> 'p \<Rightarrow> int) \<Rightarrow> 'p \<Rightarrow> 'p tree \<Rightarrow> 'p tree" where
  "bins cmp z Leaf = Node Leaf z Leaf"
| "bins cmp z (Node l x r) = (if cmp x z > 0 then Node (bins cmp z l) x r else Node l x (bins cmp z r))"

lemma while_stop:
  assumes "\<not> P x"
  shows "takeWhile P (xs @ x # ys) = takeWhile P xs" "dropWhile P (xs @ x # ys) = dropWhile P xs @ x # ys"
  using assms by (induction xs) auto

lemma while_pass:
  assumes "\<forall>x\<in>set xs. P x"
  shows "takeWhile P (xs @ ys) = xs @ takeWhile P ys" "dropWhile P (xs @ ys) = dropWhile P ys"
  using assms by (induction xs) auto

lemma inorder_bins:
  assumes "sorted_wrt (\<lambda>a b. cmp a z > 0 \<longrightarrow> cmp b z > 0) (inorder t)"
  shows "inorder (bins cmp z t) =
    takeWhile (\<lambda>a. \<not> cmp a z > (0 :: int)) (inorder t) @ z # dropWhile (\<lambda>a. \<not> cmp a z > 0) (inorder t)"
  using assms
proof (induction t)
  case (Node l x r)
  define P where "P = (\<lambda>a b. cmp a z > 0 \<longrightarrow> cmp b z > 0)"
  have "sorted_wrt P (inorder l @ [x] @ inorder r)" using Node.prems unfolding P_def by (simp only: inorder.simps)
  then have "sorted_wrt P (inorder l)" "sorted_wrt P (inorder r)" "\<forall>a\<in>set_tree l. P a x" "\<forall>a\<in>set_tree r. P x a"
    by (simp_all add: sorted_wrt_append)
  note so = this [unfolded P_def]
  show ?case
  proof (cases "cmp x z > 0")
    case True
    then show ?thesis using Node.IH(1) [OF so(1)] by (simp add: while_stop)
  next
    case False
    then have "\<forall>a\<in>set_tree l. \<not> cmp a z > 0" using so(3) by auto
    then show ?thesis using Node.IH(2) [OF so(2)] False by (simp add: while_pass)
  qed
qed simp

lemma plug_snoc: "plug (k @ [(d, y, s)]) u = join d y (plug k u) s"
  by (induction k u rule: plug.induct) simp_all

fun parent_of :: "'p ctx \<Rightarrow> 'p \<Rightarrow> 'p" where
  "parent_of [] q = q"
| "parent_of ((d, x, s) # k) q = x"

lemma parent_of_snoc: "parent_of (k @ [f]) q = parent_of k (fst (snd f))"
  by (cases k rule: above.cases; cases f) auto

lemma descend_ok:
  assumes "is_tree tr h q p t"
  shows "\<exists>k. t = plug k Leaf \<and> bins cmp z t = plug k (Node Leaf z Leaf) \<and> descend cmp tr z h q p = Some (parent_of k q)
    \<and> (\<forall>d x s k'. k = (d, x, s) # k' \<longrightarrow> d = (if cmp x z > 0 then L else R))"
  using assms
proof (induction t arbitrary: q p)
  case Leaf
  then show ?case by (intro exI [of _ "[]"]) (simp add: descend.simps)
next
  case (Node l x r)
  have p: "p = x" "x \<noteq> nil tr" and sub: "is_tree tr h x (left (h x)) l" "is_tree tr h x (right (h x)) r" using Node.prems by simp_all
  show ?case
  proof (cases "cmp x z > 0")
    case True
    obtain k where k: "l = plug k Leaf" "bins cmp z l = plug k (Node Leaf z Leaf)" "descend cmp tr z h x (left (h x)) = Some (parent_of k x)"
      "\<forall>d x s k'. k = (d, x, s) # k' \<longrightarrow> d = (if cmp x z > 0 then L else R)" using Node.IH(1) [OF sub(1)] by blast
    have "descend cmp tr z h q p = Some (parent_of k x)" using k(3) p True by (subst descend.simps) simp
    then show ?thesis using k True by (intro exI [of _ "k @ [(L, x, r)]"]) (auto simp: plug_snoc parent_of_snoc append_eq_Cons_conv)
  next
    case False
    obtain k where k: "r = plug k Leaf" "bins cmp z r = plug k (Node Leaf z Leaf)" "descend cmp tr z h x (right (h x)) = Some (parent_of k x)"
      "\<forall>d x s k'. k = (d, x, s) # k' \<longrightarrow> d = (if cmp x z > 0 then L else R)" using Node.IH(2) [OF sub(2)] by blast
    have "descend cmp tr z h q p = Some (parent_of k x)" using k(3) p False by (subst descend.simps) simp
    then show ?thesis using k False by (intro exI [of _ "k @ [(R, x, l)]"]) (auto simp: plug_snoc parent_of_snoc append_eq_Cons_conv)
  qed
qed

lemma is_ctx_cong:
  assumes "\<And>x. x \<in> ctx_nodes k \<Longrightarrow> parent (h' x) = parent (h x) \<and> left (h' x) = left (h x) \<and> right (h' x) = right (h x)"
  shows "is_ctx tr h' q p k q' p' = is_ctx tr h q p k q' p'"
  using assms
proof (induction k arbitrary: q' p')
  case (Cons f k)
  obtain d x s where f: "f = (d, x, s)" using prod_cases3 by blast
  have "is_tree tr h' w v s = is_tree tr h w v s" for w v using Cons.prems f by (intro is_tree_cong_ptrs) auto
  moreover have "child e h' x = child e h x" for e using Cons.prems [of x] f by (cases e) (simp_all add: child_def)
  ultimately show ?case using Cons.IH Cons.prems [of x] Cons.prems f by auto
qed simp

text \<open>Hanging a new node into an empty position.\<close>

lemma hang_leaf:
  assumes ok: "rb_ok tr h (plug k Leaf)" and z: "z \<notin> set_tree (plug k Leaf)" "z \<noteq> nil tr" "z \<noteq> root tr"
    and h': "left (h' z) = nil tr" "right (h' z) = nil tr" "parent (h' z) = parent_of k (root tr)"
    and y: "child (case k of [] \<Rightarrow> L | (d, _) # _ \<Rightarrow> d) h' (parent_of k (root tr)) = z"
      "child (case k of [] \<Rightarrow> R | (d, _) # _ \<Rightarrow> other d) h' (parent_of k (root tr)) = child (case k of [] \<Rightarrow> R | (d, _) # _ \<Rightarrow> other d) h (parent_of k (root tr))"
      "parent (h' (parent_of k (root tr))) = parent (h (parent_of k (root tr)))"
    and o: "\<And>w. w \<noteq> z \<Longrightarrow> w \<noteq> parent_of k (root tr) \<Longrightarrow> h' w = h w" "\<And>w. w \<noteq> z \<Longrightarrow> red (h' w) = red (h w)"
  shows "rb_ok tr h' (plug k (Node Leaf z Leaf))"
proof -
  have base: "nil tr \<noteq> root tr" "\<not> red (h (nil tr))" "\<not> red (h (root tr))" "right (h (root tr)) = nil tr" using ok by (simp_all add: rb_ok_def)
  have di: "distinct (inorder (plug k (Node Leaf z Leaf)))"
    using rb_ok_distinct [OF ok] z(1) set_hole [of k] by (auto simp: inorder_plug set_plug)
  obtain q' p' where c: "is_ctx tr h (root tr) (left (h (root tr))) k q' p'" using ok unfolding rb_ok_def is_tree_plug by blast
  have "is_ctx tr h' (root tr) (left (h' (root tr))) k (parent_of k (root tr)) z \<and> right (h' (root tr)) = nil tr"
  proof (cases k)
    case Nil
    then show ?thesis using y base(4) by (simp add: child_def)
  next
    case (Cons f k')
    obtain d x s where f: "f = (d, x, s)" using prod_cases3 by blast
    note dc = distinct_ctx [OF di [unfolded Cons f]]
    have nz: "z \<notin> ctx_nodes k" using z(1) by (simp add: set_plug)
    have keep: "h' w = h w" if "w \<in> set_tree s \<union> ctx_nodes k'" for w
      using that o(1) [of w] dc(2,5) nz Cons f by auto
    have r: "root tr \<noteq> x" "h' (root tr) = h (root tr)" using c o(1) [of "root tr"] z(3) Cons f by auto
    have "is_tree tr h' x v s = is_tree tr h x v s" for v using keep by (intro is_tree_cong) auto
    then have "is_tree tr h' x (child (other d) h' x) s" using c y(2) Cons f by simp
    moreover have "is_ctx tr h' (root tr) (left (h (root tr))) k' (parent (h' x)) x"
      using c keep y(3) Cons f by (simp add: is_ctx_cong [of k' h' h])
    ultimately show ?thesis using c y(1) r base(4) Cons f by simp
  qed
  then have "is_tree tr h' (root tr) (left (h' (root tr))) (plug k (Node Leaf z Leaf))"
    unfolding is_tree_plug using z(2,3) h' by auto
  moreover have "\<not> red (h' (nil tr))" "\<not> red (h' (root tr))" using o(2) base z by metis+
  moreover have "right (h' (root tr)) = nil tr" using \<open>is_ctx _ _ _ _ _ _ _ \<and> right (h' (root tr)) = nil tr\<close> by blast
  ultimately show ?thesis using base(1) di unfolding rb_ok_def by blast
qed

section \<open>Insertion\<close>

text \<open>A red-black tree: the pointers represent a tree with a black root, no red node below a red one and one black height.\<close>

definition rbt :: "'p rb_tree \<Rightarrow> 'p rb_store \<Rightarrow> 'p tree \<Rightarrow> bool" where
  "rbt tr h t \<longleftrightarrow> rb_ok tr h t \<and> no_red_red (col h) t \<and> (\<exists>n. bal (col h) t n) \<and> (\<forall>y\<in>rt t. \<not> red (h y))"

lemma insert_binary_ok:
  assumes "rbt tr h t" "z \<notin> set_tree t" "z \<noteq> nil tr" "z \<noteq> root tr"
  shows "\<exists>k h1. rb_insert_binary cmp tr z h = Some h1 \<and> bins cmp z t = plug k (Node Leaf z Leaf)
    \<and> almost_ok tr (set_red z True h1) k Leaf z Leaf \<and> same_outside (insert (root tr) (insert z (set_tree t))) h h1"
proof -
  let ?h0 = "set_child L z (nil tr) (set_child R z (nil tr) h)"
  have ok: "rb_ok tr h t" using assms(1) by (simp add: rbt_def)
  have o0: "?h0 w = h w" if "w \<noteq> z" for w using that by simp
  have t0: "is_tree tr ?h0 (root tr) (left (h (root tr))) t"
  proof -
    have "?h0 x = h x" if "x \<in> set_tree t" for x using o0 [of x] that assms(2) by blast
    then show ?thesis using ok unfolding rb_ok_def by (simp add: is_tree_cong [of t ?h0 h])
  qed
  have l0: "left (?h0 (root tr)) = left (h (root tr))" using o0 assms(4) by simp
  obtain k where k: "t = plug k Leaf" "bins cmp z t = plug k (Node Leaf z Leaf)"
    "descend cmp tr z ?h0 (root tr) (left (h (root tr))) = Some (parent_of k (root tr))"
    "\<forall>d x s k'. k = (d, x, s) # k' \<longrightarrow> d = (if cmp x z > 0 then L else R)"
    using descend_ok [OF t0, of cmp z] by blast
  let ?y = "parent_of k (root tr)"
  have nz: "z \<notin> ctx_nodes k" using assms(2) k(1) by (simp add: set_plug)
  have yz: "?y \<noteq> z" using nz assms(4) by (cases k rule: above.cases) auto
  have yt: "?y \<in> insert (root tr) (set_tree t)" using k(1) by (cases k rule: above.cases) (auto simp: set_plug)
  have yr: "k \<noteq> [] \<Longrightarrow> ?y \<noteq> root tr" using rb_ok_nodes [OF ok, of ?y] k(1) by (cases k rule: above.cases) (auto simp: set_plug)
  let ?d = "case k of [] \<Rightarrow> L | (d, _) # _ \<Rightarrow> d"
  have de: "(if ?y = root tr \<or> cmp ?y z > 0 then L else R) = ?d"
    using k(4) yr by (cases k rule: above.cases) auto
  define h1 where "h1 = set_child ?d ?y z (set_parent z ?y ?h0)"
  have "rb_insert_binary cmp tr z h = Some (if ?y = root tr \<or> cmp ?y z > 0 then set_child L ?y z (set_parent z ?y ?h0)
      else set_child R ?y z (set_parent z ?y ?h0))"
    using k(3) l0 by (simp add: rb_insert_binary_def Let_def)
  then have b: "rb_insert_binary cmp tr z h = Some h1" unfolding h1_def de [symmetric] by simp
  have o1: "h1 w = h w" if "w \<noteq> z" "w \<noteq> ?y" for w using that by (simp add: h1_def)
  have r1: "red (h1 w) = red (h w)" for w by (simp add: h1_def)
  have kids: "left (h1 z) = nil tr" "right (h1 z) = nil tr" "parent (h1 z) = ?y" using yz by (simp_all add: h1_def side_simps)
  have "rb_ok tr h1 (plug k (Node Leaf z Leaf))"
  proof (rule hang_leaf)
    show "rb_ok tr h (plug k Leaf)" "z \<notin> set_tree (plug k Leaf)" using ok assms(2) k(1) by simp_all
    show "child ?d h1 ?y = z" by (simp add: h1_def)
    show "child (case k of [] \<Rightarrow> R | (d, _) # _ \<Rightarrow> other d) h1 ?y = child (case k of [] \<Rightarrow> R | (d, _) # _ \<Rightarrow> other d) h ?y"
      using yz by (cases k rule: above.cases) (auto simp: h1_def)
    show "parent (h1 ?y) = parent (h ?y)" using yz by (simp add: h1_def)
  qed (use assms(3,4) kids o1 r1 in simp_all)
  moreover have nr: "no_red_red (col h) (plug k Leaf)" "\<exists>n. bal (col h) (plug k Leaf) n" "\<forall>y\<in>rt (plug k Leaf). \<not> red (h y)"
    using assms(1) k(1) by (simp_all add: rbt_def)
  ultimately have "almost_ok tr (set_red z True h1) k Leaf z Leaf"
  proof -
    assume okz: "rb_ok tr h1 (plug k (Node Leaf z Leaf))"
    let ?h = "set_red z True h1" and ?t = "plug k (Node Leaf z Leaf)"
    have "rb_ok tr ?h ?t" using okz assms(3,4) by (intro rb_ok_set_red) auto
    moreover have "no_red_red ((col ?h)(z := False)) ?t"
    proof -
      have "\<not> (red (h v) \<and> red (h w))" if "(v, w) \<in> edges ?t" "v \<noteq> z" "w \<noteq> z" for v w
      proof -
        have "(v, w) \<in> edges (plug k Leaf)" using that unfolding edges_plug by auto
        then show ?thesis using nr(1) unfolding no_red_red_def by fast
      qed
      then show ?thesis unfolding no_red_red_def by (auto simp: r1 split: if_splits)
    qed
    moreover have "\<not> red (?h y)" if "y \<in> rt ?t - {z}" for y
    proof -
      have "k \<noteq> []" using that by auto
      then have "rt ?t = rt (plug k Leaf)" by (cases k rule: above.cases) (auto intro!: rt_plug_cong)
      then show ?thesis using nr(3) that r1 by auto
    qed
    moreover have "\<exists>n. bal (col ?h) ?t n"
    proof -
      obtain n where "bal (col h) (plug k Leaf) n" using nr(2) by blast
      then have "bal (col ?h) ?t n" using nz by (intro bal_plug [of k "col ?h" "col h" Leaf]) (auto simp: r1)
      then show ?thesis by (rule exI)
    qed
    ultimately show ?thesis unfolding almost_ok_def Let_def by simp
  qed
  moreover have "same_outside (insert (root tr) (insert z (set_tree t))) h h1" using o1 yt by (auto simp: same_outside_def)
  ultimately show ?thesis using b k(2) by blast
qed

lemma rb_insert_ok:
  assumes "rbt tr h t" "z \<notin> set_tree t" "z \<noteq> nil tr" "z \<noteq> root tr" "sorted_wrt (\<lambda>a b. cmp a z > 0 \<longrightarrow> cmp b z > 0) (inorder t)"
  shows "\<exists>h' t'. rb_insert cmp tr z h = Some h' \<and> rbt tr h' t'
    \<and> inorder t' = takeWhile (\<lambda>a. \<not> cmp a z > 0) (inorder t) @ z # dropWhile (\<lambda>a. \<not> cmp a z > 0) (inorder t)
    \<and> same_outside (insert (root tr) (insert z (set_tree t))) h h'"
proof -
  let ?S = "insert (root tr) (insert z (set_tree t))"
  obtain k h1 where h1: "rb_insert_binary cmp tr z h = Some h1" "bins cmp z t = plug k (Node Leaf z Leaf)"
    "almost_ok tr (set_red z True h1) k Leaf z Leaf" "same_outside ?S h h1" using insert_binary_ok [OF assms(1-4)] by blast
  obtain h2 t' where h2: "rb_insert_loop tr z (set_red z True h1) = Some h2" "insert_done tr h2 t'" "inorder t' = inorder (bins cmp z t)"
    "same_outside (insert (root tr) (set_tree (bins cmp z t))) (set_red z True h1) h2"
    using insert_loop_ok [OF h1(3)] h1(2) by auto
  have io: "inorder (bins cmp z t) = takeWhile (\<lambda>a. \<not> cmp a z > 0) (inorder t) @ z # dropWhile (\<lambda>a. \<not> cmp a z > 0) (inorder t)"
    by (rule inorder_bins) (rule assms(5))
  have split: "set (takeWhile P xs) \<union> set (dropWhile P xs) = set xs" for P and xs :: "'a list"
    by (metis set_append takeWhile_dropWhile_id)
  have "set (inorder (bins cmp z t)) = insert z (set (inorder t))"
    unfolding io using split [of "\<lambda>a. \<not> cmp a z > 0" "inorder t"] by simp
  then have sb: "set_tree (bins cmp z t) = insert z (set_tree t)" by simp
  have dn: "rb_ok tr h2 t'" "t' \<noteq> Leaf" "\<exists>n. bal (col h2) t' n" "\<forall>y\<in>rt t'. no_red_red ((col h2)(y := False)) t'"
    using h2(2) by (simp_all add: insert_done_def)
  obtain l y r where t': "t' = Node l y r" using dn(2) by (cases t') auto
  have yl: "left (h2 (root tr)) = y" using dn(1) t' by (simp add: rb_ok_def)
  let ?h = "set_red y False h2"
  have "rb_ok tr ?h t'" using dn(1) by (intro rb_ok_set_red) auto
  moreover have "no_red_red (col ?h) t'"
    using dn(4) t' by (simp add: no_red_red_def)
  moreover have "\<exists>n. bal (col ?h) t' n"
  proof -
    obtain n where n: "bal (col h2) t' n" using dn(3) by blast
    have "y \<notin> set_tree l" "y \<notin> set_tree r" using rb_ok_distinct [OF dn(1)] t' by auto
    then have "bal (col ?h) l m = bal (col h2) l m" "bal (col ?h) r m = bal (col h2) r m" for m by (intro bal_cong; auto)+
    then have "bal (col ?h) t' (if red (h2 y) then Suc n else n)" using n unfolding t' by (auto split: if_splits)
    then show ?thesis by (rule exI)
  qed
  moreover have "rb_insert cmp tr z h = Some ?h"
  proof -
    have "\<not> red (?h (nil tr))" "\<not> red (?h (root tr))" using \<open>rb_ok tr ?h t'\<close> by (simp_all add: rb_ok_def)
    then show ?thesis using h1(1) h2(1) yl by (simp add: rb_insert_def Let_def)
  qed
  moreover have "same_outside ?S h ?h"
  proof -
    have "y \<in> ?S" using h2(3) sb t' by (metis insertCI set_inorder tree.set_intros(2))
    moreover have "same_outside ?S (set_red z True h1) h2" using h2(4) sb by simp
    ultimately show ?thesis
      by (intro same_outside_trans [OF same_outside_trans [OF same_outside_trans [OF h1(4) same_outside_set_red]] same_outside_set_red]) auto
  qed
  moreover have "\<forall>v\<in>rt t'. \<not> red (?h v)" using t' by simp
  ultimately show ?thesis using h2(3) unfolding io rbt_def by blast
qed

section \<open>Property\<close>

text \<open>
  C6: \<^verbatim>\<open>rb_insert\<close> terminates without a failed assertion on every red-black tree that is sorted for
  the new node, and leaves a red-black tree whose in-order sequence has the node behind every node
  that does not compare greater; nodes outside the tree are not touched.
\<close>

theorem rb_insert_correct:
  assumes "rbt tr h t" "z \<notin> set_tree t" "z \<noteq> nil tr" "z \<noteq> root tr" "sorted_wrt (\<lambda>a b. cmp a z > 0 \<longrightarrow> cmp b z > 0) (inorder t)"
  shows "\<exists>h' t'. rb_insert cmp tr z h = Some h' \<and> rbt tr h' t'
    \<and> inorder t' = takeWhile (\<lambda>a. \<not> cmp a z > 0) (inorder t) @ z # dropWhile (\<lambda>a. \<not> cmp a z > 0) (inorder t)
    \<and> same_outside (insert (root tr) (insert z (set_tree t))) h h'"
  using assms by (rule rb_insert_ok)

text \<open>Inserting node 4, with key 1, before nodes 2 and 3 with keys 20 and 30.\<close>

theorem rb_insert_correct_witness:
  "\<exists>h' t'. rb_insert (\<lambda>a b. (if a = 4 then 1 else 10 * int a) - (if b = 4 then 1 else 10 * int b)) demo_rb_tree 4 demo_store = Some h'
    \<and> rbt demo_rb_tree h' t' \<and> inorder t' = [4, 2, 3]"
proof -
  let ?cmp = "\<lambda>a b. (if a = 4 then 1 else 10 * int a) - (if b = 4 then 1 else 10 * int b)"
  have "rb_ok demo_rb_tree demo_store (Node Leaf 2 (Node Leaf 3 Leaf))"
    by (simp add: rb_ok_def demo_store_def)
  moreover have "bal (col demo_store) (Node Leaf 2 (Node Leaf 3 Leaf)) 1" by (simp add: demo_store_def)
  ultimately have "rbt demo_rb_tree demo_store (Node Leaf 2 (Node Leaf 3 Leaf))"
    unfolding rbt_def by (auto simp: no_red_red_def demo_store_def)
  then have "\<exists>h' t'. rb_insert ?cmp demo_rb_tree 4 demo_store = Some h' \<and> rbt demo_rb_tree h' t'
    \<and> inorder t' = takeWhile (\<lambda>a. \<not> ?cmp a 4 > 0) (inorder (Node Leaf 2 (Node Leaf 3 Leaf))) @ 4
        # dropWhile (\<lambda>a. \<not> ?cmp a 4 > 0) (inorder (Node Leaf 2 (Node Leaf 3 Leaf)))
    \<and> same_outside (insert (root demo_rb_tree) (insert 4 (set_tree (Node Leaf 2 (Node Leaf 3 Leaf))))) demo_store h'"
    by (rule rb_insert_correct) simp_all
  then show ?thesis by auto
qed

end
