(* ===== verification/RbIter.thy ===== *)
theory RbIter
  imports RbInsert
begin

text \<open>
  Walking a red-black tree: \<^verbatim>\<open>rb_node_prev\<close> and \<^verbatim>\<open>rb_node_next\<close> end and return the neighbours of a
  node in the in-order sequence.
\<close>

section \<open>Neighbours in the order\<close>

definition last_opt :: "'a list \<Rightarrow> 'a option" where
  "last_opt xs = (if xs = [] then None else Some (last xs))"

definition hd_opt :: "'a list \<Rightarrow> 'a option" where
  "hd_opt xs = (if xs = [] then None else Some (hd xs))"

definition end_of :: "side \<Rightarrow> 'a list \<Rightarrow> 'a" where
  "end_of d xs = (case d of L \<Rightarrow> hd xs | R \<Rightarrow> last xs)"

lemma go_far_ok:
  assumes "is_tree tr h q p t" "t \<noteq> Leaf"
  shows "go_far d tr h p = Some (end_of d (inorder t))"
  using assms
proof (induction t arbitrary: q p)
  case (Node l x r)
  define s where "s = (case d of L \<Rightarrow> l | R \<Rightarrow> r)"
  have p: "p = x" and s: "is_tree tr h x (child d h x) s" using Node.prems(1) by (cases d; simp add: s_def child_def)+
  show ?case
  proof (cases "s = Leaf")
    case True
    then have "child d h x = nil tr" using s by simp
    then show ?thesis using True p by (subst go_far.simps) (cases d; simp add: s_def end_of_def)
  next
    case False
    then have "child d h x \<noteq> nil tr" using s by (cases s) auto
    moreover have "go_far d tr h (child d h x) = Some (end_of d (inorder s))" using Node.IH s False by (cases d) (auto simp: s_def)
    moreover have "inorder s \<noteq> []" using False by (cases s) auto
    ultimately show ?thesis using p by (subst go_far.simps) (cases d; simp add: s_def end_of_def)
  qed
qed simp

lemma climb_left_ok:
  assumes "is_ctx tr h (root tr) (left (h (root tr))) k y x" "distinct (inorder (plug k t))" "x \<in> set_tree t" "nil tr \<notin> set_tree t"
  shows "climb_left tr h x y = Some (if before_hole k = [] then nil tr else last (before_hole k))"
  using assms
proof (induction k arbitrary: t x y rule: before_hole.induct)
  case 1
  then show ?case by (subst climb_left.simps) simp
next
  case (2 v s k)
  then have "climb_left tr h v (parent (h v)) = Some (if before_hole k = [] then nil tr else last (before_hole k))"
    by (intro "2.IH" [of _ _ "join L v t s"]) (auto dest: is_tree_nil)
  then show ?case using "2.prems"(1) by (subst climb_left.simps) (simp add: child_def)
next
  case (3 v s k)
  have "left (h v) \<noteq> x"
    using "3.prems" distinct_ctx(3) [OF "3.prems"(2)] is_tree_ptr [of tr h v "left (h v)" s] by (auto simp: child_def)
  then show ?case using "3.prems"(1) by (subst climb_left.simps) simp
qed

lemma climb_right_ok:
  assumes "is_ctx tr h (root tr) (left (h (root tr))) k y x" "distinct (inorder (plug k t))" "x \<in> set_tree t" "nil tr \<notin> set_tree t"
    "right (h (root tr)) = nil tr"
  shows "climb_right h x y = Some (if after_hole k = [] then root tr else hd (after_hole k))"
  using assms
proof (induction k arbitrary: t x y rule: after_hole.induct)
  case 1
  then show ?case by (subst climb_right.simps) auto
next
  case (2 v s k)
  have "right (h v) \<noteq> x"
    using "2.prems" distinct_ctx(3) [OF "2.prems"(2)] is_tree_ptr [of tr h v "right (h v)" s] by (auto simp: child_def)
  then show ?case using "2.prems"(1) by (subst climb_right.simps) simp
next
  case (3 v s k)
  then have "climb_right h v (parent (h v)) = Some (if after_hole k = [] then root tr else hd (after_hole k))"
    by (intro "3.IH" [of _ _ "join R v t s"]) (auto dest: is_tree_nil)
  then show ?case using "3.prems"(1) by (subst climb_right.simps) (simp add: child_def)
qed

lemma rb_ok_after_nil: "rb_ok tr h (plug k t) \<Longrightarrow> nil tr \<notin> set (after_hole k) \<and> root tr \<notin> set (after_hole k) \<and> nil tr \<notin> set (before_hole k)"
  using set_hole [of k] rb_ok_nodes [of tr h "plug k t"] by (auto simp: set_plug)

lemma successor_ok:
  assumes ok: "rb_ok tr h (plug k (Node a x b))"
  shows "rb_tree_successor tr x h = Some (case inorder b @ after_hole k of [] \<Rightarrow> nil tr | y # _ \<Rightarrow> y)"
proof (cases "b = Leaf")
  case True
  note c = rb_ok_hole [OF ok]
  have "climb_right h x (parent (h x)) = Some (if after_hole k = [] then root tr else hd (after_hole k))"
    using climb_right_ok [OF c(1) rb_ok_distinct [OF ok]] ok is_tree_nil [OF c(2)] by (auto simp: rb_ok_def)
  moreover have "right (h x) = nil tr" using c(2) True by simp
  ultimately show ?thesis
    using True rb_ok_after_nil [OF ok] by (auto simp: rb_tree_successor_def split: list.splits)
next
  case False
  have b: "is_tree tr h x (right (h x)) b" using rb_ok_hole(2) [OF ok] by simp
  have "right (h x) \<noteq> nil tr" using b False by (cases b) auto
  moreover obtain y ys where "inorder b = y # ys" using False by (cases "inorder b") (auto dest: arg_cong [of _ _ set])
  ultimately show ?thesis using go_far_ok [OF b False, of L] by (simp add: rb_tree_successor_def end_of_def)
qed

lemma predecessor_ok:
  assumes ok: "rb_ok tr h (plug k (Node a x b))"
  shows "rb_tree_predecessor tr x h = Some (if before_hole k @ inorder a = [] then nil tr else last (before_hole k @ inorder a))"
proof (cases "a = Leaf")
  case True
  note c = rb_ok_hole [OF ok]
  have "climb_left tr h x (parent (h x)) = Some (if before_hole k = [] then nil tr else last (before_hole k))"
    using climb_left_ok [OF c(1) rb_ok_distinct [OF ok]] is_tree_nil [OF c(2)] by auto
  moreover have "left (h x) = nil tr" using c(2) True by simp
  ultimately show ?thesis using True by (simp add: rb_tree_predecessor_def)
next
  case False
  have a: "is_tree tr h x (left (h x)) a" using rb_ok_hole(2) [OF ok] by simp
  have "left (h x) \<noteq> nil tr" using a False by (cases a) auto
  moreover have "inorder a \<noteq> []" using False by (cases a) auto
  ultimately show ?thesis using go_far_ok [OF a False, of R] by (simp add: rb_tree_predecessor_def end_of_def)
qed

text \<open>The node before and the node behind a node, read off the in-order sequence.\<close>

lemma rb_node_neighbours:
  assumes ok: "rb_ok tr h t" and x: "x \<in> set_tree t"
  shows "\<exists>us vs. inorder t = us @ x # vs
    \<and> rb_node_prev tr x h = Some (last_opt us) \<and> rb_node_next tr x h = Some (hd_opt vs)"
proof -
  obtain k a b where t: "t = plug k (Node a x b)" using zipper [OF x] by blast
  have nn: "nil tr \<notin> set (before_hole k @ inorder a)" "nil tr \<notin> set (inorder b @ after_hole k)"
    using rb_ok_nodes [OF ok, of "nil tr"] set_hole [of k] unfolding t set_plug by auto
  have "rb_node_prev tr x h = Some (last_opt (before_hole k @ inorder a))"
    using predecessor_ok [OF ok [unfolded t]] nn(1) last_in_set [of "before_hole k @ inorder a"]
    by (auto simp: rb_node_prev_def null_nil_def last_opt_def)
  moreover have "rb_node_next tr x h = Some (hd_opt (inorder b @ after_hole k))"
    using successor_ok [OF ok [unfolded t]] nn(2) unfolding rb_node_next_def null_nil_def hd_opt_def
    by (cases "inorder b @ after_hole k") (simp_all only: list.case option.map list.sel list.set, auto)
  moreover have "inorder t = (before_hole k @ inorder a) @ x # (inorder b @ after_hole k)" by (simp add: t inorder_plug)
  ultimately show ?thesis by blast
qed

end
