(* ===== verification/RbDelete.thy ===== *)
theory RbDelete
  imports RbIter
begin

text \<open>
  Deletion from a red-black tree. The node to delete, or its successor, is taken out of the tree;
  when it was black, the position it left lacks one black node, and the loop of
  \<^verbatim>\<open>rb_delete_fixup\<close> moves this position up or ends with rotations. The parent pointer of the
  sentinel \<^verbatim>\<open>nil\<close> is part of the state of the loop, since the position may be empty.
\<close>

section \<open>Black heights\<close>

text \<open>A tree of black height \<open>n\<close> without two red nodes in a row.\<close>

fun red_top :: "('p \<Rightarrow> bool) \<Rightarrow> 'p tree \<Rightarrow> bool" where
  "red_top c Leaf = False"
| "red_top c (Node l x r) = c x"

fun rbn :: "('p \<Rightarrow> bool) \<Rightarrow> 'p tree \<Rightarrow> nat \<Rightarrow> bool" where
  "rbn c Leaf n \<longleftrightarrow> n = 0"
| "rbn c (Node l x r) n \<longleftrightarrow> (if c x then rbn c l n \<and> rbn c r n \<and> \<not> red_top c l \<and> \<not> red_top c r
     else 0 < n \<and> rbn c l (n - 1) \<and> rbn c r (n - 1))"

text \<open>The root of the tree may be red with a red child.\<close>

fun weak_rbn :: "('p \<Rightarrow> bool) \<Rightarrow> 'p tree \<Rightarrow> nat \<Rightarrow> bool" where
  "weak_rbn c Leaf n \<longleftrightarrow> n = 0"
| "weak_rbn c (Node l x r) n \<longleftrightarrow> (if c x then rbn c l n \<and> rbn c r n else 0 < n \<and> rbn c l (n - 1) \<and> rbn c r (n - 1))"

text \<open>A context whose hole takes a tree with this colour at the top and black height \<open>n\<close>.\<close>

fun rbctx :: "('p \<Rightarrow> bool) \<Rightarrow> 'p ctx \<Rightarrow> bool \<Rightarrow> nat \<Rightarrow> bool" where
  "rbctx c [] v n \<longleftrightarrow> \<not> v"
| "rbctx c ((d, x, s) # k) v n \<longleftrightarrow> rbn c s n \<and> (if c x then \<not> v \<and> \<not> red_top c s \<and> rbctx c k True n else rbctx c k False (Suc n))"

lemma red_top_rt: "red_top c t \<longleftrightarrow> (\<exists>y\<in>rt t. c y)"
  by (cases t) auto

lemma red_top_join [simp]: "red_top c (join d x t s) = c x"
  by (cases d) auto

lemma rbn_join: "rbn c (join d x t s) n \<longleftrightarrow> (if c x then rbn c t n \<and> rbn c s n \<and> \<not> red_top c t \<and> \<not> red_top c s
     else 0 < n \<and> rbn c t (n - 1) \<and> rbn c s (n - 1))"
  by (cases d) auto

lemma weak_rbn_join: "weak_rbn c (join d x t s) n \<longleftrightarrow> (if c x then rbn c t n \<and> rbn c s n else 0 < n \<and> rbn c t (n - 1) \<and> rbn c s (n - 1))"
  by (cases d) auto

lemma rbn_weak: "rbn c t n \<Longrightarrow> weak_rbn c t n" and weak_rbn_black: "weak_rbn c t n \<Longrightarrow> \<not> red_top c t \<Longrightarrow> rbn c t n"
  by (cases t; auto split: if_splits)+

lemma no_red_red_node: "no_red_red c (Node l x r) \<longleftrightarrow> no_red_red c l \<and> no_red_red c r \<and> (c x \<longrightarrow> \<not> red_top c l \<and> \<not> red_top c r)"
  unfolding no_red_red_def red_top_rt edges.simps ball_Un by auto

lemma rbn_iff: "rbn c t n \<longleftrightarrow> no_red_red c t \<and> bal c t n"
proof (induction t arbitrary: n)
  case (Node l x r)
  then show ?case unfolding no_red_red_node by auto
qed (simp add: no_red_red_def)

lemma red_top_cong: "(\<And>x. x \<in> set_tree t \<Longrightarrow> c' x = c x) \<Longrightarrow> red_top c' t = red_top c t"
  by (cases t) auto

lemma rbn_cong: "(\<And>x. x \<in> set_tree t \<Longrightarrow> c' x = c x) \<Longrightarrow> rbn c' t n = rbn c t n"
proof (induction t arbitrary: n)
  case (Node l x r)
  then have "red_top c' l = red_top c l" "red_top c' r = red_top c r" by (intro red_top_cong; simp)+
  with Node show ?case by simp
qed simp

lemma rbctx_cong: "(\<And>x. x \<in> ctx_nodes k \<Longrightarrow> c' x = c x) \<Longrightarrow> rbctx c' k v n = rbctx c k v n"
proof (induction c k v n rule: rbctx.induct)
  case (2 c d x s k v n)
  then have "red_top c' s = red_top c s" "rbn c' s n = rbn c s n" by (intro red_top_cong rbn_cong; simp)+
  with 2 show ?case by auto
qed simp

lemma rbctx_black: "rbctx c k True n \<Longrightarrow> rbctx c k False n"
  by (cases k rule: above.cases) (auto split: if_splits)

lemma rbctx_rename:
  assumes "\<And>v. v \<in> ctx_nodes (k @ (d, z, s) # k') \<Longrightarrow> v \<noteq> z \<Longrightarrow> c' v = c v" "c' y = c z" "z \<notin> ctx_nodes k" "z \<notin> set_tree s" "z \<notin> ctx_nodes k'"
    "rbctx c (k @ (d, z, s) # k') v n"
  shows "rbctx c' (k @ (d, y, s) # k') v n"
  using assms
proof (induction k arbitrary: v n)
  case Nil
  have "red_top c' s = red_top c s" "rbn c' s n = rbn c s n" using Nil.prems by (intro red_top_cong rbn_cong; force)+
  moreover have "rbctx c' k' w m = rbctx c k' w m" for w m using Nil.prems by (intro rbctx_cong) auto
  ultimately show ?case using Nil.prems(2,6) by simp
next
  case (Cons f k)
  obtain e x u where f: "f = (e, x, u)" using prod_cases3 by blast
  have "red_top c' u = red_top c u" "rbn c' u n = rbn c u n" using Cons.prems f by (intro red_top_cong rbn_cong; force)+
  moreover have "c' x = c x" using Cons.prems(1) [of x] Cons.prems(3) f by auto
  moreover have "rbctx c (k @ (d, z, s) # k') w m \<Longrightarrow> rbctx c' (k @ (d, y, s) # k') w m" for w m
    using Cons.IH Cons.prems f by auto
  ultimately show ?case using Cons.prems(6) f by (auto split: if_splits)
qed

lemma rbn_plug: "(\<exists>m. rbn c (plug k t) m) \<and> \<not> red_top c (plug k t) \<longleftrightarrow> (\<exists>n. rbn c t n \<and> rbctx c k (red_top c t) n)"
proof (induction k t rule: plug.induct)
  case (2 d x s k t)
  have "(\<exists>n. rbn c (join d x t s) n \<and> rbctx c k (c x) n) \<longleftrightarrow> (\<exists>n. rbn c t n \<and> rbctx c ((d, x, s) # k) (red_top c t) n)"
  proof (cases "c x")
    case False
    then show ?thesis by (auto simp: rbn_join gr0_conv_Suc)
  qed (auto simp: rbn_join)
  then show ?case using 2 by simp
qed simp

lemma rbt_iff: "rbt tr h t \<longleftrightarrow> rb_ok tr h t \<and> (\<exists>n. rbn (col h) t n) \<and> \<not> red_top (col h) t"
  unfolding rbt_def rbn_iff red_top_rt by auto

lemma rbt_plug: "rbt tr h (plug k t) \<longleftrightarrow> rb_ok tr h (plug k t) \<and> (\<exists>n. rbn (col h) t n \<and> rbctx (col h) k (red_top (col h) t) n)"
  unfolding rbt_iff rbn_plug [symmetric] ..

section \<open>Changing the store at a position\<close>

lemma above_parent_of: "parent_of k q = q \<and> k = [] \<or> parent_of k q \<in> ctx_nodes k"
  by (cases k rule: above.cases) auto

definition hole_side :: "'p ctx \<Rightarrow> side" where
  "hole_side k = (case k of [] \<Rightarrow> L | (d, _) # _ \<Rightarrow> d)"

lemma is_ctx_parent_of: "is_ctx tr h q p k q' p' \<Longrightarrow> q' = parent_of k q"
  by (cases k rule: above.cases) auto

lemma is_ctx_child: "is_ctx tr h (root tr) (left (h (root tr))) k q p \<Longrightarrow> child (hole_side k) h q = p"
  by (cases k rule: above.cases) (auto simp: hole_side_def child_def)

text \<open>Replacing the subtree in a hole.\<close>

lemma replace_hole:
  assumes ok: "rb_ok tr h (plug k t)" and di: "distinct (inorder (plug k t'))"
    and new: "is_tree tr h' q p' t'" and q: "q = parent_of k (root tr)"
    and links: "child (hole_side k) h' q = p'" "child (other (hole_side k)) h' q = child (other (hole_side k)) h q" "parent (h' q) = parent (h q)"
    and keep: "\<And>w. w \<in> insert (root tr) (ctx_nodes k) - {q} \<Longrightarrow>
      parent (h' w) = parent (h w) \<and> left (h' w) = left (h w) \<and> right (h' w) = right (h w)"
    and cols: "\<not> red (h' (nil tr))" "\<not> red (h' (root tr))"
  shows "rb_ok tr h' (plug k t')"
proof -
  have base: "nil tr \<noteq> root tr" "right (h (root tr)) = nil tr" using ok by (simp_all add: rb_ok_def)
  obtain p where c: "is_ctx tr h (root tr) (left (h (root tr))) k q p"
    using ok is_ctx_parent_of unfolding rb_ok_def is_tree_plug q by metis
  have "is_ctx tr h' (root tr) (left (h' (root tr))) k q p' \<and> right (h' (root tr)) = nil tr"
  proof (cases k)
    case Nil
    then show ?thesis using links base q by (simp add: hole_side_def child_def)
  next
    case (Cons f k1)
    obtain d x s where f: "f = (d, x, s)" using prod_cases3 by blast
    have qx: "q = x" using q Cons f by simp
    note dc = distinct_ctx [OF di [unfolded Cons f]]
    have kp: "parent (h' w) = parent (h w) \<and> left (h' w) = left (h w) \<and> right (h' w) = right (h w)"
      if "w \<in> set_tree s \<union> ctx_nodes k1" for w
      using that keep [of w] dc(2,5) Cons f qx by auto
    have r: "root tr \<noteq> x" using c Cons f by auto
    have rr: "left (h' (root tr)) = left (h (root tr))" "right (h' (root tr)) = nil tr" using keep [of "root tr"] r qx base by auto
    have "is_tree tr h' x v s = is_tree tr h x v s" for v using kp by (intro is_tree_cong_ptrs) auto
    then have "is_tree tr h' x (child (other d) h' x) s" using c links(2) Cons f qx by (simp add: hole_side_def)
    moreover have "is_ctx tr h' (root tr) (left (h (root tr))) k1 (parent (h' x)) x"
      using c kp links(3) Cons f qx by (simp add: is_ctx_cong [of k1 h' h])
    ultimately show ?thesis using c links(1) r rr Cons f qx by (simp add: hole_side_def)
  qed
  then show ?thesis unfolding rb_ok_def is_tree_plug using new base(1) di cols by blast
qed

section \<open>Repairing the black heights\<close>

text \<open>The subtree \<open>s\<close> lacks one black node; if its root is red, making it black repairs the tree.\<close>

definition deficient :: "'p rb_tree \<Rightarrow> 'p rb_store \<Rightarrow> 'p ctx \<Rightarrow> 'p tree \<Rightarrow> bool" where
  "deficient tr h k s \<longleftrightarrow> rb_ok tr h (plug k s) \<and> parent (h (ptr tr s)) = parent_of k (root tr)
     \<and> (\<exists>n. weak_rbn (col h) s n \<and> rbctx (col h) k False (Suc n))"

lemma ptr_join [simp]: "ptr tr (join d x t s) = x"
  by (cases d) (simp_all add: ptr_def)

lemma join_other [simp]: "join (other d) x t s = join d x s t"
  by (cases d) simp_all

lemma other_other [simp]: "other (other d) = d"
  by (cases d) simp_all

lemma red_top_ptr: "\<not> red (h (nil tr)) \<Longrightarrow> red_top (col h) t = red (h (ptr tr t))"
  by (cases t) (simp_all add: ptr_def)

lemma rotate_up:
  assumes ok: "rb_ok tr h (plug k (join d p s (join d w u v)))"
  shows "\<exists>h'. rb_rotate d tr p h = Some h' \<and> rb_ok tr h' (plug k (join d w (join d p s u) v)) \<and> (\<forall>z. red (h' z) = red (h z))
    \<and> inorder (plug k (join d w (join d p s u) v)) = inorder (plug k (join d p s (join d w u v)))
    \<and> same_outside (insert (root tr) (set_tree (plug k (join d p s (join d w u v))))) h h'"
proof -
  let ?t = "plug k (join d p s (join d w u v))"
  have "child (other d) h p = w"
    using ok unfolding rb_ok_def is_tree_plug by (auto simp: is_tree_join dest: is_tree_is_ptr)
  moreover have "w \<noteq> nil tr" using rb_ok_nodes [OF ok, of w] by (simp add: set_plug)
  ultimately obtain h' where h': "rb_rotate d tr p h = Some h'" "rb_ok tr h' (rot d p ?t)" "\<forall>z. red (h' z) = red (h z)"
    "inorder (rot d p ?t) = inorder ?t" "same_outside (insert (root tr) (set_tree ?t)) h h'"
    unfolding same_outside_def using rb_rotate_ok [OF ok, of p d] by (auto simp: set_plug)
  have "p \<notin> ctx_nodes k" using distinct_plug(2) [OF rb_ok_distinct [OF ok]] by auto
  moreover have "rot d p (join d p s (join d w u v)) = join d w (join d p s u) v" by (cases d) auto
  ultimately have "rot d p ?t = plug k (join d w (join d p s u) v)" by (simp add: rot_plug)
  with h' show ?thesis by auto
qed

text \<open>The links of the parent and the sibling of a hole.\<close>

lemma hole_links:
  assumes "rb_ok tr h (plug ((d, p, join d w u v) # k) s)"
  shows "child d h p = ptr tr s" "child (other d) h p = w" "child d h w = ptr tr u" "child (other d) h w = ptr tr v"
    "parent (h p) = parent_of k (root tr)"
  using assms unfolding rb_ok_def plug.simps is_tree_plug
  by (auto simp: is_tree_join dest: is_tree_is_ptr is_ctx_parent_of)

lemma hole_distinct:
  assumes "rb_ok tr h (plug ((d, p, join d w u v) # k) s)"
  shows "distinct [p, w]" "{p, w} \<inter> (set_tree s \<union> set_tree u \<union> set_tree v \<union> ctx_nodes k) = {}"
    "set_tree u \<inter> set_tree v = {}" "set_tree s \<inter> (set_tree u \<union> set_tree v) = {}"
    "(set_tree s \<union> set_tree u \<union> set_tree v) \<inter> ctx_nodes k = {}" "p \<noteq> nil tr" "w \<noteq> nil tr" "p \<noteq> root tr" "w \<noteq> root tr"
proof -
  have d: "distinct (inorder (join d p s (join d w u v)))" "set_tree (join d p s (join d w u v)) \<inter> ctx_nodes k = {}"
    using distinct_plug [of k "join d p s (join d w u v)"] rb_ok_distinct [OF assms] by simp_all
  show "distinct [p, w]" "{p, w} \<inter> (set_tree s \<union> set_tree u \<union> set_tree v \<union> ctx_nodes k) = {}"
    "set_tree u \<inter> set_tree v = {}" "set_tree s \<inter> (set_tree u \<union> set_tree v) = {}"
    "(set_tree s \<union> set_tree u \<union> set_tree v) \<inter> ctx_nodes k = {}"
    using d by (cases d; auto)+
  show "p \<noteq> nil tr" "w \<noteq> nil tr" "p \<noteq> root tr" "w \<noteq> root tr"
    using rb_ok_nodes [OF assms, of p] rb_ok_nodes [OF assms, of w] by (auto simp: set_plug)
qed

text \<open>Case 4 of the repair: the outer child of the sibling is red; one rotation ends the loop.\<close>

lemma fix_outer:
  assumes ok: "rb_ok tr h (plug ((d, p, join d w u v) # k) s)" and c: "\<not> red (h w)" "red (h (ptr tr v))"
    and n: "rbn (col h) s n" "rbctx (col h) ((d, p, join d w u v) # k) False (Suc n)"
  shows "\<exists>h'. rb_rotate d tr p (set_red (ptr tr v) False (set_red p False (set_red w (red (h p)) h))) = Some h'
    \<and> rbt tr h' (plug k (join d w (join d p s u) v)) \<and> (\<forall>z. z \<noteq> p \<and> z \<in> ctx_nodes k \<longrightarrow> red (h' z) = red (h z)) \<and> \<not> red (h' p)
    \<and> same_outside (insert (root tr) (set_tree (plug ((d, p, join d w u v) # k) s))) h h'"
proof -
  define y where "y = ptr tr v"
  let ?t = "plug ((d, p, join d w u v) # k) s"
  let ?h = "set_red y False (set_red p False (set_red w (red (h p)) h))"
  note di = hole_distinct [OF ok] and nl = ok [unfolded rb_ok_def, THEN conjunct2, THEN conjunct1]
  obtain a b where v: "v = Node a y b" using red_ptr [OF ok c(2)] unfolding y_def by (cases v) (auto simp: ptr_def)
  have y: "y \<in> set_tree v" using v by simp
  have "rb_ok tr ?h ?t" using ok di(7,9) by (intro rb_ok_set_red) auto
  then obtain h' where h': "rb_rotate d tr p ?h = Some h'" "rb_ok tr h' (plug k (join d w (join d p s u) v))"
    "\<And>z. red (h' z) = red (?h z)" "same_outside (insert (root tr) (set_tree ?t)) ?h h'"
    using rotate_up [of tr ?h k d p s w u v] by auto
  define c' where "c' = col h'"
  have c': "c' z = (if z = y \<or> z = p then False else if z = w then red (h p) else red (h z))" for z
    unfolding c'_def h'(3) by simp
  have eq: "rbn c' x m = rbn (col h) x m" if "set_tree x \<inter> {y, p, w} = {}" for x m
    using that by (intro rbn_cong) (auto simp: c')
  have y2: "y \<notin> set_tree a" "y \<notin> set_tree b"
    using distinct_plug(1) [of "(d, p, join d w u v) # k" s] rb_ok_distinct [OF ok] distinct_plug(1) [of k "join d p s (join d w u v)"] v
    by (cases d; auto)+
  have eqs: "rbn c' s m = rbn (col h) s m" "rbn c' u m = rbn (col h) u m" "rbn c' a m = rbn (col h) a m" "rbn c' b m = rbn (col h) b m" for m
    by (rule eq; use di y y2 v in auto)+
  have ctx: "rbctx c' k r m = rbctx (col h) k r m" for r m using di y by (intro rbctx_cong) (auto simp: c')
  have w: "rbn (col h) (join d w u v) (Suc n)" and k: "if red (h p) then rbctx (col h) k True (Suc n) else rbctx (col h) k False (Suc (Suc n))"
    using n(2) by (auto split: if_splits)
  have uv: "rbn (col h) u n" "rbn (col h) v n" using w c(1) by (simp_all add: rbn_join)
  have "rbn (col h) a n" "rbn (col h) b n" using uv(2) c(2) v by (simp_all add: ptr_def)
  then have "rbn c' (Node a y b) (Suc n)" by (simp add: eqs c')
  then have v': "rbn c' v (Suc n)" using v by simp
  have tops: "\<not> red_top c' v" "\<not> c' p" by (simp_all add: v c')
  have p': "rbn c' (join d p s u) (Suc n)" using n(1) uv(1) tops(2) by (simp add: rbn_join eqs)
  have cw: "c' w = red (h p)" using di y by (auto simp: c')
  have "\<exists>m. rbn c' (join d w (join d p s u) v) m \<and> rbctx c' k (c' w) m"
    using k v' p' tops cw by (intro exI [of _ "if red (h p) then Suc n else Suc (Suc n)"]) (simp add: rbn_join ctx)
  then have "rbt tr h' (plug k (join d w (join d p s u) v))" using h'(2) by (simp add: rbt_plug c'_def)
  moreover have "same_outside (insert (root tr) (set_tree ?t)) h ?h"
    using di y by (auto simp: same_outside_def set_red_def set_plug)
  ultimately show ?thesis unfolding y_def [symmetric]
    using h'(1,4) same_outside_trans di y c' unfolding c'_def by (intro exI [of _ h']) auto
qed

text \<open>Case 3: the inner child of the sibling is red and the outer one black; a rotation makes it the outer one.\<close>

lemma fix_inner:
  assumes ok: "rb_ok tr h (plug ((d, p, join d w u v) # k) s)" and c: "\<not> red (h w)" "\<not> red (h (ptr tr v))" "red (h (ptr tr u))"
    and n: "rbctx (col h) ((d, p, join d w u v) # k) False (Suc n)"
  shows "\<exists>h' u1 u2. u = join d (ptr tr u) u1 u2 \<and> rb_rotate (other d) tr w (set_red w True (set_red (ptr tr u) False h)) = Some h'
    \<and> rb_ok tr h' (plug ((d, p, join d (ptr tr u) u1 (join d w u2 v)) # k) s)
    \<and> (\<forall>z. red (h' z) = (if z = w then True else if z = ptr tr u then False else red (h z)))
    \<and> rbctx (col h') ((d, p, join d (ptr tr u) u1 (join d w u2 v)) # k) False (Suc n)
    \<and> same_outside (insert (root tr) (set_tree (plug ((d, p, join d w u v) # k) s))) h h'"
proof -
  define y where "y = ptr tr u"
  let ?t = "plug ((d, p, join d w u v) # k) s" and ?h = "set_red w True (set_red y False h)"
  note di = hole_distinct [OF ok] and nl = ok [unfolded rb_ok_def, THEN conjunct2, THEN conjunct1]
  obtain l r where "u = Node l y r" using red_ptr [OF ok c(3)] unfolding y_def by (cases u) (auto simp: ptr_def)
  then obtain u1 u2 where u: "u = join d y u1 u2" by (cases d) auto
  have y: "y \<in> set_tree u" "y \<notin> set_tree u1" "y \<notin> set_tree u2"
    using distinct_plug(1) [of k "join d p s (join d w u v)"] rb_ok_distinct [OF ok] u by (cases d; auto)+
  have ok1: "rb_ok tr ?h ?t" using ok di(7,9) by (intro rb_ok_set_red) auto
  have tr: "?t = plug ((other d, p, s) # k) (join (other d) w v (join (other d) y u2 u1))" by (simp add: u)
  obtain h' where h': "rb_rotate (other d) tr w ?h = Some h'"
    "rb_ok tr h' (plug ((other d, p, s) # k) (join (other d) y (join (other d) w v u2) u1))"
    "\<And>z. red (h' z) = red (?h z)" "same_outside (insert (root tr) (set_tree ?t)) ?h h'"
    using rotate_up [OF ok1 [unfolded tr]] tr by (metis (no_types))
  define c' where "c' = col h'"
  have c': "c' z = (if z = w then True else if z = y then False else red (h z))" for z
    unfolding c'_def h'(3) by simp
  have eqs: "rbn c' x m = rbn (col h) x m" "red_top c' x = red_top (col h) x" if "set_tree x \<inter> {y, w} = {}" for x m
    using that by (intro rbn_cong red_top_cong; force simp: c')+
  have d1: "set_tree u1 \<inter> {y, w} = {}" "set_tree u2 \<inter> {y, w} = {}" "set_tree v \<inter> {y, w} = {}" using di y u by auto
  have ctx: "rbctx c' k q m = rbctx (col h) k q m" for q m using di y by (intro rbctx_cong) (auto simp: c')
  have cp: "c' p = red (h p)" using di y by (auto simp: c')
  have w: "rbn (col h) u n" "rbn (col h) v n" using n c(1) by (simp_all add: rbn_join split: if_splits)
  have cy: "red (h y)" using c(3) by (simp add: y_def)
  have us: "rbn (col h) u1 n" "rbn (col h) u2 n" "\<not> red_top (col h) u1" "\<not> red_top (col h) u2" using w(1) cy u by (simp_all add: rbn_join)
  have v: "\<not> red_top (col h) v" using red_top_ptr [of h tr v] nl c(2) by simp
  have cw: "c' w" "\<not> c' y" using di y by (auto simp: c')
  have "rbn c' (join d y u1 (join d w u2 v)) (Suc n)"
    using us v w(2) cw d1 by (simp add: rbn_join eqs)
  moreover have "if red (h p) then rbctx (col h) k True (Suc n) else rbctx (col h) k False (Suc (Suc n))"
    using n by (simp split: if_splits)
  ultimately have "rbctx c' ((d, p, join d y u1 (join d w u2 v)) # k) False (Suc n)" using cw cp by (simp add: ctx)
  moreover have "rb_ok tr h' (plug ((d, p, join d y u1 (join d w u2 v)) # k) s)" using h'(2) by simp
  moreover have "same_outside (insert (root tr) (set_tree ?t)) h ?h"
    using di y by (auto simp: same_outside_def set_red_def set_plug)
  moreover have "u = join d y u1 u2" by (rule u)
  ultimately show ?thesis unfolding y_def [symmetric] c'_def
    using h'(1,4) same_outside_trans c' [unfolded c'_def] by blast
qed

text \<open>Case 2: both children of the sibling are black; the sibling becomes red and the parent lacks a black node.\<close>

lemma fix_up:
  assumes ok: "rb_ok tr h (plug ((d, p, join d w u v) # k) s)" and c: "\<not> red (h w)" "\<not> red (h (ptr tr v))" "\<not> red (h (ptr tr u))"
    and n: "rbn (col h) s n" "\<not> red_top (col h) s" "rbctx (col h) ((d, p, join d w u v) # k) False (Suc n)"
  shows "deficient tr (set_red w True h) k (join d p s (join d w u v))"
    "same_outside (insert (root tr) (set_tree (plug ((d, p, join d w u v) # k) s))) h (set_red w True h)"
proof -
  note di = hole_distinct [OF ok] and nl = ok [unfolded rb_ok_def, THEN conjunct2, THEN conjunct1]
  let ?h = "set_red w True h"
  define c' where "c' = col ?h"
  have c': "c' z = (if z = w then True else red (h z))" for z unfolding c'_def by simp
  have eqs: "rbn c' x m = rbn (col h) x m" "red_top c' x = red_top (col h) x" if "w \<notin> set_tree x" for x m
    using that by (intro rbn_cong red_top_cong; force simp: c')+
  have ctx: "rbctx c' k q m = rbctx (col h) k q m" for q m using di by (intro rbctx_cong) (auto simp: c')
  have cs: "c' p = red (h p)" "c' w" using di by (auto simp: c')
  have uv: "rbn (col h) u n" "rbn (col h) v n" using n(3) c(1) by (simp_all add: rbn_join split: if_splits)
  have tops: "\<not> red_top (col h) u" "\<not> red_top (col h) v" using red_top_ptr [of h tr u] red_top_ptr [of h tr v] nl c by simp_all
  have w: "rbn c' (join d w u v) n" using uv tops cs di by (simp add: rbn_join eqs)
  have "\<exists>m. weak_rbn c' (join d p s (join d w u v)) m \<and> rbctx c' k False (Suc m)"
    using n(1,3) w cs di by (intro exI [of _ "if red (h p) then n else Suc n"]) (auto simp: weak_rbn_join eqs ctx dest: rbctx_black split: if_splits)
  moreover have "rb_ok tr ?h (plug k (join d p s (join d w u v)))" using rb_ok_set_red [OF ok] di(7,9) by simp
  ultimately show "deficient tr ?h k (join d p s (join d w u v))"
    using hole_links(5) [OF ok] by (simp add: deficient_def c'_def)
  show "same_outside (insert (root tr) (set_tree (plug ((d, p, join d w u v) # k) s))) h ?h"
    by (rule same_outside_set_red) (simp add: set_plug)
qed

text \<open>The repair at a black sibling \<open>w\<close>: cases 2, 3 and 4 of \<^verbatim>\<open>RB_DELETE_FIXUP_SUB\<close>.\<close>

definition black_sibling :: "side \<Rightarrow> 'p rb_tree \<Rightarrow> 'p \<Rightarrow> 'p \<Rightarrow> 'p \<Rightarrow> 'p rb_store \<Rightarrow> ('p \<times> 'p rb_store) option" where
  "black_sibling d tr r x w h =
     (if \<not> red (h (child d h w)) \<and> \<not> red (h (child (other d) h w))
      then Some (parent (h x), set_red w True h)
      else do {
        (w, h) \<leftarrow> (if \<not> red (h (child (other d) h w)) then do {
            let h = set_red (child d h w) False h;
            let h = set_red w True h;
            h \<leftarrow> rb_rotate (other d) tr w h;
            Some (child (other d) h (parent (h x)), h)
          }
          else Some (w, h));
        let h = set_red w (red (h (parent (h x)))) h;
        let h = set_red (parent (h x)) False h;
        let h = set_red (child (other d) h w) False h;
        h \<leftarrow> rb_rotate d tr (parent (h x)) h;
        Some (r, h)
      })"

lemma fixup_sub_black_sibling:
  "rb_delete_fixup_sub d tr r x h =
     (let p = parent (h x); w = child (other d) h p in
      if red (h w) then do {
        let h = set_red w False h;
        let h = set_red (parent (h x)) True h;
        h \<leftarrow> rb_rotate d tr (parent (h x)) h;
        black_sibling d tr r x (child (other d) h (parent (h x))) h
      }
      else black_sibling d tr r x w h)"
  unfolding rb_delete_fixup_sub_def black_sibling_def Let_def by (simp split: Option.bind_split)

lemma black_sibling_ok:
  assumes ok: "rb_ok tr h (plug ((d, p, join d w u v) # k) s)" and c: "\<not> red (h w)" and x: "x = ptr tr s" "parent (h x) = p"
    and n: "rbn (col h) s n" "\<not> red_top (col h) s" "rbctx (col h) ((d, p, join d w u v) # k) False (Suc n)"
    and r: "r = p \<or> r \<in> ctx_nodes k \<and> \<not> red (h r)"
  shows "\<exists>x' h'. black_sibling d tr r x w h = Some (x', h')
    \<and> (x' = p \<and> h' = set_red w True h \<and> deficient tr h' k (join d p s (join d w u v))
       \<or> x' = r \<and> \<not> red (h' r) \<and> (\<exists>t'. rbt tr h' t' \<and> inorder t' = inorder (plug ((d, p, join d w u v) # k) s)))
    \<and> same_outside (insert (root tr) (set_tree (plug ((d, p, join d w u v) # k) s))) h h'"
proof -
  let ?t = "plug ((d, p, join d w u v) # k) s"
  note li = hole_links [OF ok] and di = hole_distinct [OF ok]
  consider (up) "\<not> red (h (ptr tr u))" "\<not> red (h (ptr tr v))" | (inner) "red (h (ptr tr u))" "\<not> red (h (ptr tr v))" | (outer) "red (h (ptr tr v))" by blast
  then show ?thesis
  proof cases
    case up
    then have "black_sibling d tr r x w h = Some (p, set_red w True h)" using li x by (simp add: black_sibling_def)
    then show ?thesis using fix_up [OF ok c up(2,1) n] by blast
  next
    case inner
    obtain h1 u1 u2 where h1: "u = join d (ptr tr u) u1 u2" "rb_rotate (other d) tr w (set_red w True (set_red (ptr tr u) False h)) = Some h1"
      "rb_ok tr h1 (plug ((d, p, join d (ptr tr u) u1 (join d w u2 v)) # k) s)"
      "\<And>z. red (h1 z) = (if z = w then True else if z = ptr tr u then False else red (h z))"
      "rbctx (col h1) ((d, p, join d (ptr tr u) u1 (join d w u2 v)) # k) False (Suc n)"
      "same_outside (insert (root tr) (set_tree ?t)) h h1"
      using fix_inner [OF ok c inner(2,1) n(3)] by metis
    define y where "y = ptr tr u"
    have ju: "u = join d y u1 u2" using h1(1) unfolding y_def .
    then have y: "y \<in> set_tree u" "y \<noteq> w" using di by auto
    note h1y = h1 [folded y_def]
    have li1: "child (other d) h1 p = y" "child (other d) h1 y = w" using hole_links [OF h1y(3)] by simp_all
    have px: "parent (h1 x) = p"
    proof (cases s)
      case Leaf
      then have "x \<notin> insert (root tr) (set_tree ?t)" using x(1) rb_ok_nodes [OF ok, of x] ok by (auto simp: ptr_def rb_ok_def)
      then show ?thesis using h1y(6) x(2) by (simp add: same_outside_def)
    next
      case (Node a z b)
      then show ?thesis using rb_ok_hole(1) [of tr h1 "(d, p, join d y u1 (join d w u2 v)) # k" a z b] h1y(3) x(1) by (simp add: ptr_def)
    qed
    have cs: "rbn (col h1) s n"
      using n(1) by (subst rbn_cong [of s "col h1" "col h"]) (use di y in \<open>auto simp: h1y(4)\<close>)
    have cy: "\<not> red (h1 y)" "red (h1 (ptr tr (join d w u2 v)))" using y by (simp_all add: h1y(4))
    obtain h2 where h2: "rb_rotate d tr p (set_red w False (set_red p False (set_red y (red (h1 p)) h1))) = Some h2"
      "rbt tr h2 (plug k (join d y (join d p s u1) (join d w u2 v)))" "\<And>z. z \<noteq> p \<and> z \<in> ctx_nodes k \<Longrightarrow> red (h2 z) = red (h1 z)" "\<not> red (h2 p)"
      "same_outside (insert (root tr) (set_tree (plug ((d, p, join d y u1 (join d w u2 v)) # k) s))) h1 h2"
      using fix_outer [OF h1y(3) cy cs h1y(5)] by auto
    have "black_sibling d tr r x w h = Some (r, h2)"
      using inner li li1 x px h1y(2) h2(1) y_def by (simp add: black_sibling_def)
    moreover have "\<not> red (h2 r)" using r h2(3) [of r] h2(4) h1y(4) [of r] di y by (auto split: if_splits)
    moreover have "inorder (plug k (join d y (join d p s u1) (join d w u2 v))) = inorder ?t"
      unfolding ju by (cases d) (simp_all add: inorder_plug)
    moreover have "set_tree (plug ((d, p, join d y u1 (join d w u2 v)) # k) s) = set_tree ?t"
      unfolding ju by (auto simp: set_plug)
    ultimately show ?thesis using h2(2,5) same_outside_trans [OF h1y(6)] by auto
  next
    case outer
    obtain h2 where h2: "rb_rotate d tr p (set_red (ptr tr v) False (set_red p False (set_red w (red (h p)) h))) = Some h2"
      "rbt tr h2 (plug k (join d w (join d p s u) v))" "\<And>z. z \<noteq> p \<and> z \<in> ctx_nodes k \<Longrightarrow> red (h2 z) = red (h z)" "\<not> red (h2 p)"
      "same_outside (insert (root tr) (set_tree ?t)) h h2"
      using fix_outer [OF ok c outer n(1,3)] by auto
    have "black_sibling d tr r x w h = Some (r, h2)"
      using outer li x h2(1) by (simp add: black_sibling_def)
    moreover have "\<not> red (h2 r)" using r h2(3) [of r] h2(4) by auto
    moreover have "inorder (plug k (join d w (join d p s u) v)) = inorder ?t"
      by (cases d) (simp_all add: inorder_plug)
    ultimately show ?thesis using h2(2,5) by blast
  qed
qed

lemma deficient_parent:
  assumes "rb_ok tr h' (plug k' s)" "parent (h (ptr tr s)) = p" "parent_of k' (root tr) = p" "same_outside (insert (root tr) S) h h'" "nil tr \<notin> S"
  shows "parent (h' (ptr tr s)) = p"
proof (cases s)
  case Leaf
  have "nil tr \<noteq> root tr" using assms(1) by (simp add: rb_ok_def)
  then show ?thesis using assms Leaf by (simp add: ptr_def same_outside_def)
next
  case (Node a z b)
  then show ?thesis using rb_ok_hole(1) [of tr h' k' a z b] assms(1,3) is_ctx_parent_of by (fastforce simp: ptr_def)
qed

text \<open>Case 1: a red sibling is rotated above the parent; the new sibling is black.\<close>

lemma fix_red_sibling:
  assumes ok: "rb_ok tr h (plug ((d, p, join d w u v) # k) s)" and c: "red (h w)" and x: "parent (h (ptr tr s)) = p"
    and n: "rbctx (col h) ((d, p, join d w u v) # k) False (Suc n)"
  shows "\<exists>h'. rb_rotate d tr p (set_red p True (set_red w False h)) = Some h' \<and> u \<noteq> Leaf \<and> \<not> red (h' (ptr tr u)) \<and> \<not> red (h p)
    \<and> rb_ok tr h' (plug ((d, p, u) # (d, w, v) # k) s) \<and> parent (h' (ptr tr s)) = p
    \<and> (\<forall>z. red (h' z) = (if z = p then True else if z = w then False else red (h z)))
    \<and> rbctx (col h') ((d, p, u) # (d, w, v) # k) False (Suc n)
    \<and> same_outside (insert (root tr) (set_tree (plug ((d, p, join d w u v) # k) s))) h h'"
proof -
  let ?t = "plug ((d, p, join d w u v) # k) s" and ?h = "set_red p True (set_red w False h)"
  note di = hole_distinct [OF ok] and nl = ok [unfolded rb_ok_def, THEN conjunct2, THEN conjunct1]
  have "rb_ok tr ?h ?t" using ok di(6,8) by (intro rb_ok_set_red) auto
  then obtain h' where h': "rb_rotate d tr p ?h = Some h'" "rb_ok tr h' (plug k (join d w (join d p s u) v))"
    "\<And>z. red (h' z) = red (?h z)" "same_outside (insert (root tr) (set_tree ?t)) ?h h'"
    using rotate_up [of tr ?h k d p s w u v] by auto
  define c' where "c' = col h'"
  have c': "c' z = (if z = p then True else if z = w then False else red (h z))" for z
    unfolding c'_def h'(3) by simp
  have eqs: "rbn c' x m = rbn (col h) x m" "red_top c' x = red_top (col h) x" if "set_tree x \<inter> {p, w} = {}" for x m
    using that by (intro rbn_cong red_top_cong; force simp: c')+
  have d1: "set_tree u \<inter> {p, w} = {}" "set_tree v \<inter> {p, w} = {}" using di by auto
  have ctx: "rbctx c' k q m = rbctx (col h) k q m" for q m using di by (intro rbctx_cong) (auto simp: c')
  have p: "\<not> red (h p)" "rbctx (col h) k False (Suc (Suc n))" and w: "rbn (col h) (join d w u v) (Suc n)"
    using n c by (auto split: if_splits)
  have uv: "rbn (col h) u (Suc n)" "rbn (col h) v (Suc n)" "\<not> red_top (col h) u" "\<not> red_top (col h) v"
    using w c by (simp_all add: rbn_join)
  have cs: "c' p" "\<not> c' w" using di by (auto simp: c')
  have nz: "u \<noteq> Leaf" using uv(1) by auto
  have "rbctx c' ((d, p, u) # (d, w, v) # k) False (Suc n)" using uv p cs d1 by (simp add: eqs ctx)
  moreover have pu: "\<not> c' (ptr tr u)" using nz uv(3) d1 by (cases u) (auto simp: ptr_def c')
  moreover have so: "same_outside (insert (root tr) (set_tree ?t)) h ?h"
    using di by (auto simp: same_outside_def set_red_def set_plug)
  moreover have "same_outside (insert (root tr) (set_tree ?t)) h h'" using so h'(4) by (rule same_outside_trans)
  moreover have ok': "rb_ok tr h' (plug ((d, p, u) # (d, w, v) # k) s)" using h'(2) by simp
  moreover have "parent (h' (ptr tr s)) = p"
    using deficient_parent [OF ok' x _ \<open>same_outside _ h h'\<close>] rb_ok_nodes [OF ok, of "nil tr"] by auto
  ultimately show ?thesis using h'(1) nz p(1) c' unfolding c'_def by auto
qed

text \<open>One round of the loop: it ends the repair or moves up.\<close>

lemma nonleaf_join:
  assumes "t \<noteq> Leaf"
  shows "\<exists>x u v. t = join d x u v"
proof -
  obtain l x r where "t = Node l x r" using assms by (cases t) auto
  then have "t = join d x (case d of L \<Rightarrow> l | R \<Rightarrow> r) (case d of L \<Rightarrow> r | R \<Rightarrow> l)" by (cases d) simp_all
  then show ?thesis by blast
qed

lemma deficient_sibling:
  assumes "deficient tr h ((d, p, u0) # k) s"
  obtains w u v where "u0 = join d w u v"
proof -
  have "u0 \<noteq> Leaf" using assms unfolding deficient_def by auto
  then show ?thesis using that nonleaf_join by blast
qed

lemma fixup_round:
  assumes def: "deficient tr h ((d, p, u0) # k) s" and bl: "\<not> red_top (col h) s" and r: "r = ptr tr (plug ((d, p, u0) # k) s)" "\<not> red (h r)"
    and S: "S = insert (root tr) (set_tree (plug ((d, p, u0) # k) s))"
  shows "\<exists>x' h' k' s'. rb_delete_fixup_sub d tr r (ptr tr s) h = Some (x', h') \<and> same_outside S h h'
    \<and> (x' = p \<and> r \<noteq> p \<and> deficient tr h' k s' \<and> p = ptr tr s' \<and> r = ptr tr (plug k s') \<and> \<not> red (h' r) \<and> inorder (plug k s') = inorder (plug ((d, p, u0) # k) s)
       \<or> x' = p \<and> (red (h' p) \<or> r = p) \<and> deficient tr h' k' s' \<and> p = ptr tr s' \<and> (red (h' p) \<or> k' = []) \<and> inorder (plug k' s') = inorder (plug ((d, p, u0) # k) s)
       \<or> x' = r \<and> \<not> red (h' r) \<and> (\<exists>t'. rbt tr h' t' \<and> inorder t' = inorder (plug ((d, p, u0) # k) s)))"
proof -
  let ?x = "ptr tr s" and ?t = "plug ((d, p, u0) # k) s"
  obtain w u v where u0: "u0 = join d w u v" using deficient_sibling [OF def] .
  obtain n where ok: "rb_ok tr h (plug ((d, p, join d w u v) # k) s)" and px: "parent (h ?x) = p"
    and n: "rbn (col h) s n" "rbctx (col h) ((d, p, join d w u v) # k) False (Suc n)"
    using def bl unfolding deficient_def u0 by (auto dest: weak_rbn_black)
  note li = hole_links [OF ok] and di = hole_distinct [OF ok]
  have rp: "r = p \<and> k = [] \<or> r \<in> ctx_nodes k \<and> r \<noteq> p"
  proof (cases "k = []")
    case False
    have "plug k (join d p s u0) \<noteq> Leaf" using set_plug [of k "join d p s u0"] by auto
    then have "r \<in> rt (plug k (join d p s u0))" using r by (cases "plug k (join d p s u0)") (auto simp: ptr_def)
    then show ?thesis using rt_plug_ctx [OF False] di by auto
  qed (use r in simp)
  show ?thesis
  proof (cases "red (h w)")
    case False
    have sub: "rb_delete_fixup_sub d tr r ?x h = black_sibling d tr r ?x w h"
      using False px li unfolding fixup_sub_black_sibling by simp
    obtain x' h' where b: "black_sibling d tr r ?x w h = Some (x', h')" "same_outside S h h'"
      "x' = p \<and> h' = set_red w True h \<and> deficient tr h' k (join d p s (join d w u v))
       \<or> x' = r \<and> \<not> red (h' r) \<and> (\<exists>t'. rbt tr h' t' \<and> inorder t' = inorder ?t)"
      using black_sibling_ok [OF ok False refl px n(1) bl n(2), of r] rp r(2) unfolding u0 S by blast
    have rw: "r \<noteq> w" using rp di by auto
    show ?thesis using b(3)
    proof
      assume c: "x' = p \<and> h' = set_red w True h \<and> deficient tr h' k (join d p s (join d w u v))"
      then have "\<not> red (h' r)" using r(2) rw by simp
      then show ?thesis using sub b(1,2) c rp r(1) u0 by (intro exI [of _ x'] exI [of _ h'] exI [of _ k] exI [of _ "join d p s (join d w u v)"]) auto
    qed (use sub b in auto)
  next
    case True
    obtain h1 where h1: "rb_rotate d tr p (set_red p True (set_red w False h)) = Some h1" "u \<noteq> Leaf" "\<not> red (h1 (ptr tr u))" "\<not> red (h p)"
      "rb_ok tr h1 (plug ((d, p, u) # (d, w, v) # k) s)" "parent (h1 ?x) = p"
      "\<And>z. red (h1 z) = (if z = p then True else if z = w then False else red (h z))"
      "rbctx (col h1) ((d, p, u) # (d, w, v) # k) False (Suc n)" "same_outside S h h1"
      using fix_red_sibling [OF ok True px n(2)] unfolding S u0 by blast
    obtain w1 u1 v1 where "u = join d w1 u1 v1" using nonleaf_join [OF h1(2)] by blast
    note u = this and h1u = h1 [unfolded this]
    have "red (h1 z) = red (h z)" if "z \<in> set_tree s" for z using that di unfolding h1(7) by auto
    then have sn: "rbn (col h1) s n" "\<not> red_top (col h1) s"
      using n(1) bl rbn_cong [of s "col h1" "col h" n] red_top_cong [of s "col h1" "col h"] by simp_all
    note li1 = hole_links [OF h1u(5)] and di1 = hole_distinct [OF h1u(5)]
    have sub: "rb_delete_fixup_sub d tr r ?x h = black_sibling d tr r ?x w1 h1"
      using True px li li1 h1u(1,6) unfolding fixup_sub_black_sibling by (simp add: Let_def)
    have r1: "r = p \<or> r \<in> ctx_nodes ((d, w, v) # k) \<and> \<not> red (h1 r)"
      using rp r(2) di by (auto simp: h1(7))
    have cw1: "\<not> red (h1 w1)" using h1u(3) by simp
    have ord: "inorder (plug ((d, p, join d w1 u1 v1) # (d, w, v) # k) s) = inorder ?t"
      unfolding u0 u by (cases d) (simp_all add: inorder_plug)
    then have set: "set_tree (plug ((d, p, join d w1 u1 v1) # (d, w, v) # k) s) = set_tree ?t" by (metis set_inorder)
    obtain x' h' where b: "black_sibling d tr r ?x w1 h1 = Some (x', h')" "same_outside S h1 h'"
      "x' = p \<and> h' = set_red w1 True h1 \<and> deficient tr h' ((d, w, v) # k) (join d p s (join d w1 u1 v1))
       \<or> x' = r \<and> \<not> red (h' r) \<and> (\<exists>t'. rbt tr h' t' \<and> inorder t' = inorder ?t)"
      using black_sibling_ok [OF h1u(5) cw1 refl h1u(6) sn h1u(8) r1] unfolding S ord set by blast
    note so = same_outside_trans [OF h1(9) b(2)]
    show ?thesis using b(3)
    proof
      assume c: "x' = p \<and> h' = set_red w1 True h1 \<and> deficient tr h' ((d, w, v) # k) (join d p s (join d w1 u1 v1))"
      then have "red (h' p)" using h1(7) [of p] by simp
      moreover have "p = ptr tr (join d p s (join d w1 u1 v1))" by simp
      moreover have "inorder (plug ((d, w, v) # k) (join d p s (join d w1 u1 v1))) = inorder ?t" using ord by simp
      ultimately show ?thesis using sub b(1) so c by metis
    qed (use sub b(1) so in auto)
  qed
qed

lemma set_red_same: "\<not> red (h x) \<Longrightarrow> set_red x False h = h"
  by (rule ext) (simp add: set_red_def)

lemma deficient_black:
  assumes "deficient tr h k s" "red_top (col h) s \<or> k = []"
  shows "rbt tr (set_red (ptr tr s) False h) (plug k s)"
proof -
  obtain n where ok: "rb_ok tr h (plug k s)" and n: "weak_rbn (col h) s n" "rbctx (col h) k False (Suc n)"
    using assms(1) unfolding deficient_def by blast
  define c' where "c' = col (set_red (ptr tr s) False h)"
  have c': "c' z = (if z = ptr tr s then False else red (h z))" for z unfolding c'_def by simp
  have "\<exists>m. rbn c' s m \<and> rbctx c' k (red_top c' s) m"
  proof (cases s)
    case Leaf
    then show ?thesis using n assms(2) by auto
  next
    case (Node a x b)
    have di: "x \<notin> set_tree a" "x \<notin> set_tree b" "x \<notin> ctx_nodes k"
      using distinct_plug [OF rb_ok_distinct [OF ok]] Node by auto
    have x: "\<not> c' x" using Node by (simp add: c' ptr_def)
    have eqs: "rbn c' a m = rbn (col h) a m" "rbn c' b m = rbn (col h) b m" for m
      using di Node by (intro rbn_cong; auto simp: c' ptr_def)+
    have ctx: "rbctx c' k v m = rbctx (col h) k v m" for v m using di Node by (intro rbctx_cong) (auto simp: c' ptr_def)
    show ?thesis
    proof (cases "red (h x)")
      case True
      then show ?thesis using n Node x by (intro exI [of _ "Suc n"]) (simp add: eqs ctx)
    next
      case False
      then show ?thesis using n assms(2) Node x by (intro exI [of _ n]) (simp add: eqs)
    qed
  qed
  then show ?thesis using rb_ok_set_red [OF ok] by (simp add: rbt_plug c'_def)
qed

lemma ptr_hole_side:
  assumes ok: "rb_ok tr h (plug ((d, p, join d w u v) # k) s)" and "parent (h (ptr tr s)) = p"
  shows "(if ptr tr s = left (h (parent (h (ptr tr s)))) then L else R) = d"
proof -
  have "ptr tr s \<noteq> w" using hole_distinct [OF ok] by (cases s) (auto simp: ptr_def)
  then show ?thesis using hole_links(1,2) [OF ok] assms(2) by (cases d) (auto simp: child_def)
qed

lemma ptr_not_top: "rb_ok tr h (plug (f # k) s) \<Longrightarrow> ptr tr s \<noteq> ptr tr (plug (f # k) s)"
proof -
  assume ok: "rb_ok tr h (plug (f # k) s)"
  have t: "plug (f # k) s \<noteq> Leaf" using set_plug [of "f # k" s] by (cases f) auto
  then have "ptr tr (plug (f # k) s) \<in> rt (plug (f # k) s)" by (cases "plug (f # k) s") (auto simp: ptr_def)
  then have "ptr tr (plug (f # k) s) \<in> ctx_nodes (f # k)" using rt_plug_ctx [of "f # k" s] by auto
  moreover have "nil tr \<notin> ctx_nodes (f # k)" using rb_ok_nodes [OF ok, of "nil tr"] by (auto simp: set_plug)
  ultimately show ?thesis using distinct_plug(2) [OF rb_ok_distinct [OF ok]] by (cases s) (auto simp: ptr_def)
qed

lemma fixup_loop_ok:
  assumes "deficient tr h k s" "r = ptr tr (plug k s)" "k \<noteq> [] \<Longrightarrow> \<not> red (h r)"
  shows "\<exists>h' t'. rb_delete_fixup_loop tr r (ptr tr s) h = Some h' \<and> rbt tr h' t' \<and> inorder t' = inorder (plug k s)
    \<and> same_outside (insert (nil tr) (insert (root tr) (set_tree (plug k s)))) h h'"
  using assms
proof (induction k arbitrary: s h)
  case Nil
  have "rb_delete_fixup_loop tr r (ptr tr s) h = Some (set_red (ptr tr s) False h)"
    using Nil.prems(2) by (subst rb_delete_fixup_loop.simps) simp
  moreover have "rbt tr (set_red (ptr tr s) False h) s" using deficient_black [OF Nil.prems(1)] by simp
  moreover have "ptr tr s \<in> insert (nil tr) (set_tree s)" by (cases s) (auto simp: ptr_def)
  ultimately show ?case using same_outside_set_red [of "ptr tr s"] by (auto intro!: same_outside_set_red)
next
  case (Cons f k)
  obtain d p u0 where f: "f = (d, p, u0)" using prod_cases3 by blast
  note def = Cons.prems(1) [unfolded f]
  let ?t = "plug ((d, p, u0) # k) s" and ?S = "insert (nil tr) (insert (root tr) (set_tree (plug ((d, p, u0) # k) s)))"
  obtain w u v where u0: "u0 = join d w u v" using deficient_sibling [OF def] .
  have ok: "rb_ok tr h ?t" and px: "parent (h (ptr tr s)) = p" using def by (simp_all add: deficient_def)
  have nl: "\<not> red (h (nil tr))" using ok by (simp add: rb_ok_def)
  have sS: "ptr tr s \<in> ?S" by (cases s) (auto simp: ptr_def set_plug)
  show ?case
  proof (cases "red_top (col h) s")
    case True
    then have "rb_delete_fixup_loop tr r (ptr tr s) h = Some (set_red (ptr tr s) False h)"
      using red_top_ptr [of h tr s] nl by (subst rb_delete_fixup_loop.simps) simp
    then show ?thesis using deficient_black [OF def] True same_outside_set_red [OF sS] f by auto
  next
    case False
    have "r \<noteq> ptr tr s" using ptr_not_top [OF ok] Cons.prems(2) f by auto
    then have step: "rb_delete_fixup_loop tr r (ptr tr s) h
        = do { (x, h) \<leftarrow> rb_delete_fixup_sub d tr r (ptr tr s) h; rb_delete_fixup_loop tr r x h }"
      using False red_top_ptr [of h tr s] nl ptr_hole_side [OF ok [unfolded u0] px]
      by (subst rb_delete_fixup_loop.simps) auto
    obtain x' h' k' s' where b: "rb_delete_fixup_sub d tr r (ptr tr s) h = Some (x', h')" "same_outside (insert (root tr) (set_tree ?t)) h h'"
      "x' = p \<and> r \<noteq> p \<and> deficient tr h' k s' \<and> p = ptr tr s' \<and> r = ptr tr (plug k s') \<and> \<not> red (h' r) \<and> inorder (plug k s') = inorder ?t
       \<or> x' = p \<and> (red (h' p) \<or> r = p) \<and> deficient tr h' k' s' \<and> p = ptr tr s' \<and> (red (h' p) \<or> k' = []) \<and> inorder (plug k' s') = inorder ?t
       \<or> x' = r \<and> \<not> red (h' r) \<and> (\<exists>t'. rbt tr h' t' \<and> inorder t' = inorder ?t)"
      using fixup_round [OF def False _ _ refl, of r] Cons.prems(2,3) f by blast
    have so: "same_outside ?S h h'" using b(2) by (auto simp: same_outside_def)
    have set_eq: "inorder t1 = inorder ?t \<Longrightarrow> set_tree t1 = set_tree ?t" for t1 by (metis set_inorder)
    from b(3) consider
        (up) "x' = p" "deficient tr h' k s'" "p = ptr tr s'" "r = ptr tr (plug k s')" "\<not> red (h' r)" "inorder (plug k s') = inorder ?t"
      | (stop) "x' = p" "red (h' p) \<or> r = p" "deficient tr h' k' s'" "p = ptr tr s'" "red (h' p) \<or> k' = []" "inorder (plug k' s') = inorder ?t"
      | (over) t' where "x' = r" "\<not> red (h' r)" "rbt tr h' t'" "inorder t' = inorder ?t" by blast
    then show ?thesis
    proof cases
      case up
      obtain h2 t2 where "rb_delete_fixup_loop tr r (ptr tr s') h' = Some h2" "rbt tr h2 t2" "inorder t2 = inorder ?t" "same_outside ?S h' h2"
        using Cons.IH [OF up(2,4) up(5)] up(6) set_eq [OF up(6)] by auto
      then show ?thesis using step b(1) up(1,3) same_outside_trans [OF so] f by auto
    next
      case stop
      have "rb_delete_fixup_loop tr r p h' = Some (set_red p False h')"
        using stop(2) by (subst rb_delete_fixup_loop.simps) auto
      moreover have "\<not> red (h' (nil tr))" using stop(3) by (simp add: deficient_def rb_ok_def)
      then have "red_top (col h') s' \<or> k' = []" using stop(4,5) red_top_ptr [of h' tr s'] by auto
      then have "rbt tr (set_red p False h') (plug k' s')" using deficient_black [OF stop(3)] stop(4) by simp
      moreover have "p \<in> ?S" by (simp add: set_plug)
      then have "same_outside ?S h (set_red p False h')" using same_outside_trans [OF so same_outside_set_red] by blast
      ultimately show ?thesis using step b(1) stop(1,6) f by auto
    next
      case over
      then have "rb_delete_fixup_loop tr r r h' = Some h'" by (subst rb_delete_fixup_loop.simps) (simp add: set_red_same)
      then show ?thesis using step b(1) over so f by auto
    qed
  qed
qed

section \<open>Deletion\<close>

lemma rbctx_top: "rbctx c k v n \<Longrightarrow> k \<noteq> [] \<Longrightarrow> \<not> red_top c (plug k t)"
proof (induction c k v n arbitrary: t rule: rbctx.induct)
  case (2 c d x s k v n)
  then show ?case by (cases k) (auto split: if_splits)
qed simp

lemma plug_append: "plug (k @ k') t = plug k' (plug k t)"
  by (induction k t rule: plug.induct) simp_all

lemma before_hole_left: "before_hole (k @ [(L, x, r)]) = before_hole k"
  by (induction k rule: before_hole.induct) auto

lemma min_zipper:
  assumes "b \<noteq> Leaf"
  shows "\<exists>k y r. b = plug k (Node Leaf y r) \<and> before_hole k = []"
  using assms
proof (induction b)
  case (Node l x r)
  show ?case
  proof (cases "l = Leaf")
    case True
    then show ?thesis by (intro exI [of _ "[]"] exI [of _ x] exI [of _ r]) simp
  next
    case False
    then obtain k y s where "l = plug k (Node Leaf y s)" "before_hole k = []" using Node.IH(1) by blast
    then have "Node l x r = plug (k @ [(L, x, r)]) (Node Leaf y s)" "before_hole (k @ [(L, x, r)]) = []"
      by (simp_all add: plug_append before_hole_left)
    then show ?thesis by blast
  qed
qed simp

lemma left_of_hole:
  assumes ok: "rb_ok tr h (plug k (Node a y b))"
  shows "y = left (h (parent (h y))) \<longleftrightarrow> hole_side k = L"
proof -
  note c = rb_ok_hole(1) [OF ok]
  show ?thesis
  proof (cases k)
    case Nil
    then have "parent (h y) = root tr" "left (h (root tr)) = y" using c by auto
    then show ?thesis using Nil by (simp add: hole_side_def)
  next
    case (Cons f k')
    obtain d q s where f: "f = (d, q, s)" using prod_cases3 by blast
    have "ptr tr s \<noteq> y"
      using distinct_ctx(3) [OF rb_ok_distinct [OF ok, unfolded Cons f]] rb_ok_nodes [OF ok, of y] by (cases s) (auto simp: ptr_def set_plug)
    then show ?thesis using c Cons f by (cases d) (auto simp: hole_side_def child_def dest: is_tree_is_ptr)
  qed
qed

lemma hole_outside:
  assumes ok: "rb_ok tr h (plug k (Node a y b))"
  shows "parent (h y) = parent_of k (root tr)" "parent (h y) \<notin> set_tree (Node a y b)" "parent (h y) \<noteq> nil tr"
    "parent (h y) \<in> insert (root tr) (ctx_nodes k)"
proof -
  show q: "parent (h y) = parent_of k (root tr)" using rb_ok_hole(1) [OF ok] by (rule is_ctx_parent_of)
  have r: "root tr \<notin> set_tree (plug k (Node a y b))" "nil tr \<notin> set_tree (plug k (Node a y b))" "nil tr \<noteq> root tr"
    using rb_ok_nodes [OF ok] ok by (auto simp: rb_ok_def)
  then show "parent (h y) \<notin> set_tree (Node a y b)" "parent (h y) \<noteq> nil tr" "parent (h y) \<in> insert (root tr) (ctx_nodes k)"
    using q above_parent_of [of k "root tr"] distinct_plug(2) [OF rb_ok_distinct [OF ok]] unfolding set_plug by auto
qed

text \<open>Taking out a node with at most one child.\<close>

definition splice :: "'p \<Rightarrow> 'p \<Rightarrow> 'p rb_store \<Rightarrow> 'p rb_store" where
  "splice y x h = (let h = set_parent x (parent (h y)) h in
     if y = left (h (parent (h y))) then set_child L (parent (h y)) x h else set_child R (parent (h y)) x h)"

lemma splice_ok:
  assumes ok: "rb_ok tr h (plug k (Node a y b))" and s: "a = Leaf \<and> s = b \<or> b = Leaf \<and> s = a" and x: "x = ptr tr s"
  shows "rb_ok tr (splice y x h) (plug k s)" "parent (splice y x h x) = parent_of k (root tr)" "red (splice y x h z) = red (h z)"
    "splice y x h y = h y" "z \<noteq> x \<Longrightarrow> z \<noteq> parent (h y) \<Longrightarrow> splice y x h z = h z"
proof -
  define q where "q = parent (h y)"
  note out = hole_outside [OF ok, folded q_def]
  have t: "is_tree tr h q y (Node a y b)" using rb_ok_hole(2) [OF ok] by (simp add: q_def)
  have di: "distinct (inorder (Node a y b))" "set_tree (Node a y b) \<inter> ctx_nodes k = {}" using distinct_plug [OF rb_ok_distinct [OF ok]] by auto
  have sy: "is_tree tr h y x s" "set_tree s \<subseteq> set_tree (Node a y b) - {y}" "distinct (inorder s)"
    using t s di(1) x is_tree_is_ptr [of tr h y "left (h y)" a] is_tree_is_ptr [of tr h y "right (h y)" b] by auto
  have xs: "x = nil tr \<or> x \<in> set_tree s" using x by (cases s) (auto simp: ptr_def)
  have yn: "y \<noteq> nil tr" "y \<noteq> root tr" using t by auto
  have ne: "x \<noteq> y" "x \<noteq> q" "q \<noteq> y" using xs sy(2) yn out by auto
  have sp: "splice y x h = set_child (hole_side k) q x (set_parent x q h)"
  proof -
    have e: "parent (set_parent x q h y) = q" "left (set_parent x q h q) = left (h q)" using ne unfolding side_simps by (simp_all add: q_def)
    have "y = left (h q) \<longleftrightarrow> hole_side k = L" using left_of_hole [OF ok] by (simp add: q_def)
    then show ?thesis unfolding splice_def Let_def q_def [symmetric] e by (cases "hole_side k") simp_all
  qed
  show "splice y x h y = h y" "red (splice y x h z) = red (h z)" using ne by (simp_all add: sp)
  show px: "parent (splice y x h x) = parent_of k (root tr)" using ne out(1) by (simp add: sp)
  show fr: "splice y x h z = h z" if "z \<noteq> x" "z \<noteq> parent (h y)" for z using that by (simp add: sp q_def)
  have T: "is_tree tr (splice y x h) q x s"
  proof (cases "s = Leaf")
    case False
    then have "x \<noteq> nil tr" using sy(1) by (cases s) auto
    moreover have "left (splice y x h x) = left (h x)" "right (splice y x h x) = right (h x)" using ne unfolding side_simps by (simp_all add: sp)
    moreover have "splice y x h w = h w" if "w \<in> set_tree s - {x}" for w using that sy(2) out(2) fr [of w] unfolding q_def by blast
    ultimately show ?thesis using is_tree_reparent [OF sy(1) _ sy(3)] px out(1) by blast
  qed (use sy in simp)
  have D: "distinct (inorder (plug k s))" using rb_ok_distinct [OF ok] s by (auto simp: inorder_plug)
  have K: "parent (splice y x h w) = parent (h w) \<and> left (splice y x h w) = left (h w) \<and> right (splice y x h w) = right (h w)"
    if "w \<in> insert (root tr) (ctx_nodes k) - {q}" for w
    using that xs di(2) sy(2) rb_ok_nodes [OF ok] ok unfolding side_simps by (auto simp: sp rb_ok_def set_plug)
  have N: "\<not> red (splice y x h (nil tr))" "\<not> red (splice y x h (root tr))" using ok by (simp_all add: sp rb_ok_def)
  have "child (hole_side k) (splice y x h) q = x" "child (other (hole_side k)) (splice y x h) q = child (other (hole_side k)) h q"
    "parent (splice y x h q) = parent (h q)" using ne by (simp_all add: sp)
  then show "rb_ok tr (splice y x h) (plug k s)" using replace_hole [OF ok D T out(1) _ _ _ K N] by blast
qed

text \<open>Putting node \<open>y\<close>, taken out before, at the place of node \<open>z\<close>.\<close>

definition take_place :: "'p \<Rightarrow> 'p \<Rightarrow> 'p rb_store \<Rightarrow> 'p rb_store" where
  "take_place y z h = (let h = (if z = left (h (parent (h z))) then set_child L (parent (h z)) y h else set_child R (parent (h z)) y h);
             h = set_parent (right (h z)) y h;
             h = set_parent (left (h z)) y h
         in h(y := h z))"

lemma take_place_ok:
  assumes ok: "rb_ok tr h (plug k (Node a z b))" and y: "y \<notin> set_tree (plug k (Node a z b))" "y \<noteq> nil tr" "y \<noteq> root tr" and a: "a \<noteq> Leaf"
  shows "rb_ok tr (take_place y z h) (plug k (Node a y b))" "red (take_place y z h v) = (if v = y then red (h z) else red (h v))"
    "parent (take_place y z h (nil tr)) = (if b = Leaf then y else parent (h (nil tr)))"
    "v \<notin> insert y (insert (nil tr) (insert (root tr) (set_tree (plug k (Node a z b))))) \<Longrightarrow> take_place y z h v = h v"
proof -
  define q l r where "q = parent (h z)" and "l = left (h z)" and "r = right (h z)"
  note out = hole_outside [OF ok, folded q_def]
  have t: "is_tree tr h q z (Node a z b)" using rb_ok_hole(2) [OF ok] by (simp add: q_def)
  have di: "distinct (inorder (Node a z b))" "set_tree (Node a z b) \<inter> ctx_nodes k = {}" using distinct_plug [OF rb_ok_distinct [OF ok]] by auto
  have sub: "is_tree tr h z l a" "is_tree tr h z r b" using t by (simp_all add: l_def r_def)
  have nr: "nil tr \<notin> set_tree (plug k (Node a z b))" "root tr \<notin> set_tree (plug k (Node a z b))" "nil tr \<noteq> root tr"
    using rb_ok_nodes [OF ok] ok by (auto simp: rb_ok_def)
  have la: "l \<in> set_tree a" "l \<noteq> nil tr" using sub(1) a by (cases a; auto)+
  have rb: "r = nil tr \<and> b = Leaf \<or> r \<in> set_tree b \<and> r \<noteq> nil tr \<and> b \<noteq> Leaf" using sub(2) by (cases b) auto
  have ne: "q \<noteq> z" "q \<noteq> l" "q \<noteq> r" "q \<noteq> y" "z \<noteq> l" "z \<noteq> r" "l \<noteq> r" "y \<noteq> z" "y \<noteq> l" "y \<noteq> r"
    using out la rb di y nr by (auto simp: set_plug)
  have tp: "take_place y z h = (set_parent l y (set_parent r y (set_child (hole_side k) q y h)))(y := h z)"
  proof -
    have "(if z = left (h (parent (h z))) then set_child L (parent (h z)) y h else set_child R (parent (h z)) y h) = set_child (hole_side k) q y h"
      using left_of_hole [OF ok] by (cases "hole_side k") (auto simp: q_def)
    moreover have "right (set_child (hole_side k) q y h z) = r" "left (set_parent r y (set_child (hole_side k) q y h) z) = l"
      using ne unfolding side_simps by (simp_all add: l_def r_def side_simps)
    ultimately show ?thesis using ne unfolding take_place_def Let_def by simp
  qed
  show "red (take_place y z h v) = (if v = y then red (h z) else red (h v))" by (simp add: tp)
  show "parent (take_place y z h (nil tr)) = (if b = Leaf then y else parent (h (nil tr)))"
    using y(2) la(2) rb by (auto simp: tp)
  show "take_place y z h v = h v" if "v \<notin> insert y (insert (nil tr) (insert (root tr) (set_tree (plug k (Node a z b)))))"
  proof -
    have "v \<noteq> l" "v \<noteq> r" "v \<noteq> q" "v \<noteq> y" using that la rb out(4) by (auto simp: set_plug)
    then show ?thesis by (simp add: tp)
  qed
  have sides: "is_tree tr (take_place y z h) y c u"
    if u: "is_tree tr h z c u" "set_tree u \<subseteq> set_tree (Node a z b) - {z}" "c \<in> {l, r}" "distinct (inorder u)" "{l, r} \<inter> set_tree u \<subseteq> {c}" for c u
  proof (cases "u = Leaf")
    case False
    then have cu: "c \<noteq> nil tr" "c \<in> set_tree u" using u(1) by (cases u; auto)+
    have "c \<noteq> y" "c \<noteq> q" using u(3) ne by auto
    then have "parent (take_place y z h c) = y" "left (take_place y z h c) = left (h c)" "right (take_place y z h c) = right (h c)"
      using u(3) unfolding side_simps by (auto simp: tp child_def set_parent_def set_child_def split: side.splits)
    moreover have "take_place y z h w = h w" if "w \<in> set_tree u - {c}" for w
    proof -
      have "w \<noteq> l" "w \<noteq> r" "w \<noteq> q" "w \<noteq> y" using that u(2,3,5) out(2) y(1) by (auto simp: set_plug)
      then show ?thesis by (simp add: tp)
    qed
    ultimately show ?thesis using is_tree_reparent [OF u(1) cu(1) u(4)] by blast
  qed (use u in simp)
  have "is_tree tr (take_place y z h) y l a" using sub(1) di(1) la rb nr by (intro sides) (auto simp: set_plug)
  moreover have "is_tree tr (take_place y z h) y r b" using sub(2) di(1) la rb nr by (intro sides) (auto simp: set_plug)
  ultimately have "is_tree tr (take_place y z h) q y (Node a y b)"
    using y by (simp add: tp q_def l_def r_def)
  moreover have "distinct (inorder (plug k (Node a y b)))" using rb_ok_distinct [OF ok] y(1) set_hole [of k] by (auto simp: inorder_plug set_plug)
  moreover have "parent (take_place y z h w) = parent (h w) \<and> left (take_place y z h w) = left (h w) \<and> right (take_place y z h w) = right (h w)"
    if "w \<in> insert (root tr) (ctx_nodes k) - {q}" for w
  proof -
    have "w \<noteq> l" "w \<noteq> r" "w \<noteq> q" "w \<noteq> y" using that la rb di(2) y nr by (auto simp: set_plug)
    then show ?thesis by (simp add: tp)
  qed
  moreover have "\<not> red (take_place y z h (nil tr))" "\<not> red (take_place y z h (root tr))" using ok y by (simp_all add: tp rb_ok_def)
  moreover have "child (hole_side k) (take_place y z h) q = y" "child (other (hole_side k)) (take_place y z h) q = child (other (hole_side k)) h q"
    "parent (take_place y z h q) = parent (h q)"
    using ne by (simp_all add: tp child_def set_parent_def set_child_def split: side.splits)
  ultimately show "rb_ok tr (take_place y z h) (plug k (Node a y b))"
    using out(1) by (intro replace_hole [OF ok]) simp_all
qed

lemma rb_delete_alt:
  "rb_delete tr z h = do {
     y \<leftarrow> (if left (h z) = nil tr \<or> right (h z) = nil tr then Some z else rb_tree_successor tr z h);
     let x = (if left (h y) \<noteq> nil tr then left (h y) else right (h y));
     kassert (y \<noteq> root tr \<and> y \<noteq> nil tr);
     let h1 = splice y x h;
     let h2 = (if y \<noteq> z then take_place y z h1 else h1);
     if \<not> red (h1 y) then rb_delete_fixup tr x h2 else Some h2
   }"
  unfolding rb_delete_def splice_def take_place_def Let_def ..

text \<open>What is left to do after the node is taken out: nothing when it was red, else the repair.\<close>

lemma finish_ok:
  assumes ok: "rb_ok tr h (plug k s)" and p: "parent (h (ptr tr s)) = parent_of k (root tr)"
    and n: "weak_rbn (col h) s n" "rbctx (col h) k False (if fix then Suc n else n)" "\<not> fix \<Longrightarrow> \<not> red_top (col h) s"
  shows "\<exists>h' t'. (if fix then rb_delete_fixup tr (ptr tr s) h else Some h) = Some h' \<and> rbt tr h' t' \<and> inorder t' = inorder (plug k s)
    \<and> same_outside (insert (nil tr) (insert (root tr) (set_tree (plug k s)))) h h'"
proof (cases "fix")
  case True
  have def: "deficient tr h k s" using ok p n True by (auto simp: deficient_def)
  have r: "left (h (root tr)) = ptr tr (plug k s)" using ok by (auto simp: rb_ok_def dest: is_tree_is_ptr)
  have "\<not> red (h (ptr tr (plug k s)))" if "k \<noteq> []"
    using rbctx_top [OF n(2) that, of s] red_top_ptr [of h tr "plug k s"] ok by (auto simp: rb_ok_def)
  then show ?thesis using fixup_loop_ok [OF def refl] r True by (simp add: rb_delete_fixup_def)
next
  case False
  then have "rbt tr h (plug k s)" using ok n weak_rbn_black by (auto simp: rbt_plug)
  then show ?thesis using False by (auto simp: same_outside_def)
qed

text \<open>The counts around the node that is taken out.\<close>

lemma taken_out:
  assumes "rbn c (Node a y b) n" "rbctx c k (c y) n" "a = Leaf \<and> s = b \<or> b = Leaf \<and> s = a"
  shows "\<exists>m. weak_rbn c s m \<and> rbctx c k False (if \<not> c y then Suc m else m) \<and> (c y \<longrightarrow> \<not> red_top c s)"
proof (cases "c y")
  case True
  then show ?thesis using assms by (intro exI [of _ n]) (auto intro: rbn_weak rbctx_black)
next
  case False
  then show ?thesis using assms by (intro exI [of _ "n - 1"]) (auto intro: rbn_weak)
qed

lemma weak_rbn_cong: "(\<And>x. x \<in> set_tree t \<Longrightarrow> c' x = c x) \<Longrightarrow> weak_rbn c' t n = weak_rbn c t n"
  by (cases t) (simp_all add: rbn_cong [of _ c' c])

lemma same_outside_mono: "same_outside S h h' \<Longrightarrow> S \<subseteq> S' \<Longrightarrow> same_outside S' h h'"
  by (auto simp: same_outside_def)

lemma splice_frame:
  assumes ok: "rb_ok tr h (plug k (Node a y b))" and s: "a = Leaf \<and> s = b \<or> b = Leaf \<and> s = a" and x: "x = ptr tr s"
  shows "same_outside (insert (nil tr) (insert (root tr) (set_tree (plug k (Node a y b))))) h (splice y x h)"
proof -
  have "splice y x h w = h w" if "w \<notin> insert (nil tr) (insert (root tr) (set_tree (plug k (Node a y b))))" for w
  proof -
    have "x = nil tr \<or> x \<in> set_tree s" using x by (cases s) (auto simp: ptr_def)
    then have "w \<noteq> x" "w \<noteq> parent (h y)" using that s hole_outside(4) [OF ok] by (auto simp: set_plug)
    then show ?thesis using splice_ok(5) [OF ok s x] by simp
  qed
  then show ?thesis by (simp add: same_outside_def)
qed

lemma ptr_nil: "is_tree tr h q p t \<Longrightarrow> ptr tr t = nil tr \<longleftrightarrow> t = Leaf"
  by (cases t) (auto simp: ptr_def)

lemma delete_one_child:
  assumes rb: "rbt tr h (plug k (Node a z b))" and s: "a = Leaf \<and> s = b \<or> b = Leaf \<and> s = a"
  shows "\<exists>h' t'. rb_delete tr z h = Some h' \<and> rbt tr h' t' \<and> inorder t' = inorder (plug k s)
    \<and> same_outside (insert (nil tr) (insert (root tr) (set_tree (plug k (Node a z b))))) h h'"
proof -
  let ?x = "ptr tr s" and ?h = "splice z (ptr tr s) h"
  let ?S = "insert (nil tr) (insert (root tr) (set_tree (plug k (Node a z b))))"
  have ok: "rb_ok tr h (plug k (Node a z b))" using rb by (simp add: rbt_iff)
  have t: "is_tree tr h (parent (h z)) z (Node a z b)" using rb_ok_hole(2) [OF ok] .
  have lr: "left (h z) = ptr tr a" "right (h z) = ptr tr b" using t by (auto dest: is_tree_is_ptr)
  have pn: "ptr tr a = nil tr \<longleftrightarrow> a = Leaf" "ptr tr b = nil tr \<longleftrightarrow> b = Leaf" using t by (auto dest: ptr_nil)
  have x: "(if left (h z) \<noteq> nil tr then left (h z) else right (h z)) = ?x" using s lr pn by (auto simp: ptr_def)
  note sp = splice_ok [OF ok s refl]
  have "rb_delete tr z h = (if \<not> red (h z) then rb_delete_fixup tr ?x ?h else Some ?h)"
    unfolding rb_delete_alt using s lr pn x t by (auto simp: kassert_def sp(3) Let_def)
  moreover obtain n where "rbn (col h) (Node a z b) n" "rbctx (col h) k (red (h z)) n" using rb by (auto simp: rbt_plug)
  then obtain m where "weak_rbn (col h) s m" "rbctx (col h) k False (if \<not> red (h z) then Suc m else m)" "red (h z) \<Longrightarrow> \<not> red_top (col h) s"
    using taken_out [OF _ _ s] by blast
  moreover have "col ?h = col h" using sp(3) by auto
  ultimately obtain h' t' where d: "rb_delete tr z h = Some h'" "rbt tr h' t'" "inorder t' = inorder (plug k s)"
    "same_outside (insert (nil tr) (insert (root tr) (set_tree (plug k s)))) ?h h'"
    using finish_ok [OF sp(1,2), of m "\<not> red (h z)"] by auto
  moreover have "same_outside ?S ?h h'" by (rule same_outside_mono [OF d(4)]) (use s in \<open>auto simp: set_plug\<close>)
  then have "same_outside ?S h h'" by (rule same_outside_trans [OF splice_frame [OF ok s refl]])
  ultimately show ?thesis by blast
qed


lemma delete_two_children:
  assumes rb: "rbt tr h (plug k (Node a z (plug ky (Node Leaf y r))))" and a: "a \<noteq> Leaf" and ky: "before_hole ky = []"
  shows "\<exists>h' t'. rb_delete tr z h = Some h' \<and> rbt tr h' t' \<and> inorder t' = inorder (plug k (Node a y (plug ky r)))
    \<and> same_outside (insert (nil tr) (insert (root tr) (set_tree (plug k (Node a z (plug ky (Node Leaf y r))))))) h h'"
proof -
  let ?t = "plug k (Node a z (plug ky (Node Leaf y r)))" and ?k = "ky @ (R, z, a) # k" and ?k' = "ky @ (R, y, a) # k"
  let ?S = "insert (nil tr) (insert (root tr) (set_tree ?t))"
  define x h1 h2 where "x = ptr tr r" and "h1 = splice y x h" and "h2 = take_place y z h1"
  have tk: "plug ?k u = plug k (Node a z (plug ky u))" "plug ?k' u = plug k (Node a y (plug ky u))" for u by (simp_all add: plug_append)
  have ok: "rb_ok tr h (plug ?k (Node Leaf y r))" and okz: "rb_ok tr h ?t" using rb by (simp_all add: rbt_iff tk)
  have di: "distinct (inorder ?t)" using rb_ok_distinct [OF okz] .
  have nodes: "y \<noteq> z" "y \<notin> set_tree (plug k (Node a z (plug ky r)))" "z \<notin> set_tree a" "z \<notin> ctx_nodes ky" "z \<notin> ctx_nodes k" "z \<notin> set_tree r"
    using di set_hole [of k] set_hole [of ky] by (auto simp: inorder_plug set_plug)
  have yn: "y \<noteq> nil tr" "y \<noteq> root tr" using rb_ok_nodes [OF ok, of y] by (simp_all add: set_plug)
  note sp = splice_ok [OF ok, of r x, folded h1_def]
  have sp1: "rb_ok tr h1 (plug k (Node a z (plug ky r)))" using sp(1) x_def by (simp add: tk)
  note tp = take_place_ok [OF sp1 nodes(2) yn a, folded h2_def]
  have lr: "left (h z) \<noteq> nil tr" "right (h z) \<noteq> nil tr" "left (h y) = nil tr" "right (h y) = x"
  proof -
    have "is_tree tr h z (left (h z)) a" "is_tree tr h z (right (h z)) (plug ky (Node Leaf y r))" using rb_ok_hole(2) [OF okz] by auto
    moreover have "plug ky (Node Leaf y r) \<noteq> Leaf" using set_plug [of ky "Node Leaf y r"] by auto
    ultimately show "left (h z) \<noteq> nil tr" "right (h z) \<noteq> nil tr" using a by (metis is_tree_is_ptr ptr_nil)+
    show "left (h y) = nil tr" "right (h y) = x" using rb_ok_hole(2) [OF ok] by (auto simp: x_def dest: is_tree_is_ptr)
  qed
  have "rb_tree_successor tr z h = Some y" using successor_ok [OF okz] ky by (simp add: inorder_plug)
  then have del: "rb_delete tr z h = (if \<not> red (h y) then rb_delete_fixup tr (ptr tr r) h2 else Some h2)"
    unfolding rb_delete_alt using lr nodes(1) yn sp(3) x_def by (simp add: kassert_def Let_def h1_def h2_def)
  have c2: "red (h2 v) = (if v = y then red (h z) else red (h v))" for v using tp(2) sp(3) x_def by simp
  have "\<exists>n. rbn (col h) (Node Leaf y r) n \<and> rbctx (col h) ?k (red (h y)) n"
    using rb unfolding tk(1) [symmetric] rbt_plug by simp
  then obtain m where m: "weak_rbn (col h) r m" "rbctx (col h) ?k False (if \<not> red (h y) then Suc m else m)" "red (h y) \<longrightarrow> \<not> red_top (col h) r"
    using taken_out [of "col h" Leaf y r _ ?k r] by blast
  have yr: "y \<notin> set_tree r" "y \<notin> ctx_nodes ?k" using distinct_plug [OF rb_ok_distinct [OF ok]] by auto
  have c2k: "col h2 v = col h v" if "v \<noteq> y" for v using that by (simp add: c2)
  have "rbctx (col h2) ?k' False (if \<not> red (h y) then Suc m else m)"
    by (rule rbctx_rename [OF _ _ nodes(4,3,5) m(2)]) (use yr(2) in \<open>auto intro!: c2k simp: c2 [of y]\<close>)
  moreover have "weak_rbn (col h2) r m" "red (h y) \<longrightarrow> \<not> red_top (col h2) r"
    using m(1,3) weak_rbn_cong [of r "col h2" "col h" m] red_top_cong [of r "col h2" "col h"] c2k yr(1) by metis+
  moreover have "parent (h2 (ptr tr r)) = parent_of ?k' (root tr)"
  proof (cases r)
    case Leaf
    have "plug ky Leaf = Leaf \<longleftrightarrow> ky = []" using set_plug [of ky Leaf] by (cases ky rule: above.cases) auto
    then show ?thesis using tp(3) sp(2) Leaf x_def by (cases ky rule: above.cases) (auto simp: ptr_def)
  next
    case (Node r1 v r2)
    then show ?thesis using rb_ok_hole(1) [of tr h2 ?k' r1 v r2] tp(1) is_ctx_parent_of by (fastforce simp: tk ptr_def)
  qed
  ultimately obtain h' t' where d: "rb_delete tr z h = Some h'" "rbt tr h' t'" "inorder t' = inorder (plug ?k' r)"
    "same_outside (insert (nil tr) (insert (root tr) (set_tree (plug ?k' r)))) h2 h'"
    using finish_ok [of tr h2 ?k' r m "\<not> red (h y)"] tp(1) del tk by auto
  moreover have "same_outside ?S h h1" using splice_frame [OF ok, of r x] x_def by (simp add: tk h1_def)
  moreover have "same_outside ?S h1 h2" using tp(4) unfolding same_outside_def by (auto simp: set_plug)
  moreover have "same_outside ?S h2 h'" by (rule same_outside_mono [OF d(4)]) (auto simp: tk set_plug)
  ultimately have "same_outside ?S h h'" using same_outside_trans by metis
  then show ?thesis using d(1-3) unfolding tk by blast
qed

lemma remove1_mid: "z \<notin> set us \<Longrightarrow> remove1 z (us @ z # vs) = us @ vs"
  by (simp add: remove1_append)

lemma rb_delete_ok:
  assumes rb: "rbt tr h t" and z: "z \<in> set_tree t"
  shows "\<exists>h' t'. rb_delete tr z h = Some h' \<and> rbt tr h' t' \<and> inorder t' = remove1 z (inorder t)
    \<and> same_outside (insert (nil tr) (insert (root tr) (set_tree t))) h h'"
proof -
  obtain k a b where t: "t = plug k (Node a z b)" using zipper [OF z] by blast
  have "distinct (inorder t)" using rb rb_ok_distinct by (auto simp: rbt_iff)
  then have re: "remove1 z (inorder t) = before_hole k @ inorder a @ inorder b @ after_hole k"
    using remove1_mid [of z "before_hole k @ inorder a" "inorder b @ after_hole k"] by (simp add: t inorder_plug)
  show ?thesis
  proof (cases "a = Leaf \<or> b = Leaf")
    case True
    then obtain s where "a = Leaf \<and> s = b \<or> b = Leaf \<and> s = a" by blast
    then show ?thesis using delete_one_child [OF rb [unfolded t]] unfolding re by (auto simp: t inorder_plug)
  next
    case False
    then obtain ky y r where "b = plug ky (Node Leaf y r)" "before_hole ky = []" using min_zipper by blast
    then show ?thesis using delete_two_children [of tr h k a z ky y r] rb False unfolding re by (auto simp: t inorder_plug)
  qed
qed

text \<open>
  C5: \<^verbatim>\<open>rb_delete\<close> terminates without a failed assertion for every node of a red-black tree, and
  leaves a red-black tree with the same in-order sequence without the node; only the nodes of the
  tree and its two sentinels are touched.
\<close>

theorem rb_delete_correct:
  assumes "rbt tr h t" "z \<in> set_tree t"
  shows "\<exists>h' t'. rb_delete tr z h = Some h' \<and> rbt tr h' t' \<and> inorder t' = remove1 z (inorder t)
    \<and> same_outside (insert (nil tr) (insert (root tr) (set_tree t))) h h'"
  using assms by (rule rb_delete_ok)

lemma demo_rbt: "rbt demo_rb_tree demo_store (Node Leaf 2 (Node Leaf 3 Leaf))"
proof -
  have "rb_ok demo_rb_tree demo_store (Node Leaf 2 (Node Leaf 3 Leaf))" by (simp add: rb_ok_def demo_store_def)
  moreover have "rbn (col demo_store) (Node Leaf 2 (Node Leaf 3 Leaf)) 1" by (simp add: demo_store_def)
  ultimately show ?thesis unfolding rbt_iff by (auto simp: demo_store_def)
qed

text \<open>Deleting the root of the tree of the nodes 2 and 3.\<close>

theorem rb_delete_correct_witness:
  "\<exists>h' t'. rb_delete demo_rb_tree 2 demo_store = Some h' \<and> rbt demo_rb_tree h' t' \<and> inorder t' = [3] \<and> h' 7 = demo_store 7"
  using rb_delete_correct [OF demo_rbt, of 2] by (auto simp: same_outside_def)

text \<open>
  In a red-black tree \<^verbatim>\<open>rb_node_prev\<close> and \<^verbatim>\<open>rb_node_next\<close> of a node end and return its neighbours
  in the in-order sequence, or null at its ends.
\<close>

theorem rb_neighbours_correct:
  assumes "rbt tr h t" "x \<in> set_tree t"
  shows "\<exists>us vs. inorder t = us @ x # vs \<and> rb_node_prev tr x h = Some (last_opt us) \<and> rb_node_next tr x h = Some (hd_opt vs)"
  using assms by (intro rb_node_neighbours) (simp_all add: rbt_iff)

theorem rb_neighbours_correct_witness:
  "rb_node_prev demo_rb_tree 2 demo_store = Some None \<and> rb_node_next demo_rb_tree 2 demo_store = Some (Some 3)"
proof -
  have "2 \<in> set_tree (Node Leaf (2 :: nat) (Node Leaf 3 Leaf))" by simp
  from rb_neighbours_correct [OF demo_rbt this] obtain us vs where e: "inorder (Node Leaf 2 (Node Leaf (3 :: nat) Leaf)) = us @ 2 # vs"
    and n: "rb_node_prev demo_rb_tree 2 demo_store = Some (last_opt us)" "rb_node_next demo_rb_tree 2 demo_store = Some (hd_opt vs)" by blast
  from e have "us = [] \<and> vs = [3]" by (cases us) (auto simp: Cons_eq_append_conv)
  then show ?thesis using n by (simp add: last_opt_def hd_opt_def)
qed

end
