(* ===== verification/RbSeq.thy ===== *)
theory RbSeq
  imports RbDelete
begin

text \<open>
  The contract of the red-black tree towards its clients, and the proof that \<^verbatim>\<open>lib/rb_tree.c\<close> keeps it.
\<close>

section \<open>Sequences of nodes\<close>

text \<open>
  What the areas need of their tree: a store represents a sequence of nodes, insertion puts a node
  behind the nodes that do not compare greater, deletion takes one out, and other nodes stay.
\<close>

locale node_sequence =
  fixes repr :: "'s \<Rightarrow> 'p list \<Rightarrow> bool" and usable :: "'p \<Rightarrow> bool" and touch :: "'p list \<Rightarrow> 'p set"
    and same :: "'p set \<Rightarrow> 's \<Rightarrow> 's \<Rightarrow> bool"
    and ins :: "('p \<Rightarrow> 'p \<Rightarrow> int) \<Rightarrow> 'p \<Rightarrow> 's \<Rightarrow> 's option" and del :: "'p \<Rightarrow> 's \<Rightarrow> 's option" and prev :: "'p \<Rightarrow> 's \<Rightarrow> 'p option option"
  assumes repr_distinct: "repr h xs \<Longrightarrow> distinct xs"
    and same_refl: "same S h h" and same_trans: "same S h h1 \<Longrightarrow> same S h1 h2 \<Longrightarrow> same S h h2"
    and same_mono: "same S h h1 \<Longrightarrow> S \<subseteq> S' \<Longrightarrow> same S' h h1"
    and touch_mono: "set xs \<subseteq> set ys \<Longrightarrow> touch xs \<subseteq> touch ys"
    and ins_law: "repr h xs \<Longrightarrow> z \<notin> set xs \<Longrightarrow> usable z \<Longrightarrow> sorted_wrt (\<lambda>a b. cmp a z > 0 \<longrightarrow> cmp b z > 0) xs \<Longrightarrow>
      \<exists>h'. ins cmp z h = Some h' \<and> repr h' (takeWhile (\<lambda>a. \<not> cmp a z > 0) xs @ z # dropWhile (\<lambda>a. \<not> cmp a z > 0) xs)
        \<and> same (touch (z # xs)) h h'"
    and del_law: "repr h xs \<Longrightarrow> z \<in> set xs \<Longrightarrow> \<exists>h'. del z h = Some h' \<and> repr h' (remove1 z xs) \<and> same (touch xs) h h'"
    and prev_law: "repr h (us @ x # vs) \<Longrightarrow> prev x h = Some (last_opt us)"
begin

fun ins_all :: "('p \<Rightarrow> 'p \<Rightarrow> int) \<Rightarrow> 'p list \<Rightarrow> 's \<Rightarrow> 's option" where
  "ins_all cmp [] h = Some h"
| "ins_all cmp (z # zs) h = Option.bind (ins cmp z h) (ins_all cmp zs)"

text \<open>Inserting a sequence in its order.\<close>

lemma ins_all_ok:
  assumes "repr h xs" "distinct (xs @ zs)" "\<forall>z\<in>set zs. usable z" "sorted_wrt (\<lambda>a b. \<not> cmp a b > 0) (xs @ zs)"
  shows "\<exists>h'. ins_all cmp zs h = Some h' \<and> repr h' (xs @ zs) \<and> same (touch (xs @ zs)) h h'"
  using assms
proof (induction zs arbitrary: xs h)
  case (Cons z zs)
  have le: "\<forall>a\<in>set xs. \<not> cmp a z > 0" using Cons.prems(4) by (simp add: sorted_wrt_append)
  have "sorted_wrt (\<lambda>a b. cmp a z > 0 \<longrightarrow> cmp b z > 0) xs"
    using le by (intro sorted_wrt_mono_rel [OF _ sorted_wrt_true [of xs]]) blast
  then obtain h1 where h1: "ins cmp z h = Some h1" "repr h1 (takeWhile (\<lambda>a. \<not> cmp a z > 0) xs @ z # dropWhile (\<lambda>a. \<not> cmp a z > 0) xs)"
    "same (touch (z # xs)) h h1"
    using ins_law [OF Cons.prems(1), of z cmp] Cons.prems(2,3) by auto
  have tw: "takeWhile (\<lambda>a. \<not> cmp a z > 0) xs = xs" "dropWhile (\<lambda>a. \<not> cmp a z > 0) xs = []" using le by simp_all
  have "repr h1 (xs @ [z])" using h1(2) unfolding tw by simp
  then obtain h2 where "ins_all cmp zs h1 = Some h2" "repr h2 (xs @ z # zs)" "same (touch (xs @ z # zs)) h1 h2"
    using Cons.IH [of h1 "xs @ [z]"] Cons.prems by auto
  moreover have "same (touch (xs @ z # zs)) h h1" by (rule same_mono [OF h1(3) touch_mono]) auto
  ultimately show ?case using h1(1) same_trans by auto
qed (auto intro: same_refl)

end

definition rb_repr :: "'p rb_tree \<Rightarrow> 'p rb_store \<Rightarrow> 'p list \<Rightarrow> bool" where
  "rb_repr tr h xs \<longleftrightarrow> (\<exists>t. rbt tr h t \<and> inorder t = xs)"

interpretation rbs: node_sequence "rb_repr tr" "\<lambda>z. z \<noteq> nil tr \<and> z \<noteq> root tr" "\<lambda>xs. insert (nil tr) (insert (root tr) (set xs))"
  same_outside "\<lambda>cmp. rb_insert cmp tr" "rb_delete tr" "rb_node_prev tr"
  for tr :: "'p rb_tree"
proof unfold_locales
  fix h :: "'p rb_store" and xs :: "'p list"
  show "rb_repr tr h xs \<Longrightarrow> distinct xs" using rb_ok_distinct by (auto simp: rb_repr_def rbt_iff)
next
  fix S h h1 h2
  show "same_outside S h h" "same_outside S h h1 \<Longrightarrow> same_outside S h1 h2 \<Longrightarrow> same_outside S h h2" for h :: "'p rb_store"
    by (auto simp: same_outside_def)
next
  fix S S' :: "'p set" and h h1
  show "same_outside S h h1 \<Longrightarrow> S \<subseteq> S' \<Longrightarrow> same_outside S' h h1" by (rule same_outside_mono)
next
  fix xs ys :: "'p list"
  show "set xs \<subseteq> set ys \<Longrightarrow> insert (nil tr) (insert (root tr) (set xs)) \<subseteq> insert (nil tr) (insert (root tr) (set ys))" by blast
next
  fix h xs z and cmp :: "'p \<Rightarrow> 'p \<Rightarrow> int"
  assume a: "rb_repr tr h xs" "z \<notin> set xs" "z \<noteq> nil tr \<and> z \<noteq> root tr" "sorted_wrt (\<lambda>a b. cmp a z > 0 \<longrightarrow> cmp b z > 0) xs"
  then obtain t where t: "rbt tr h t" "inorder t = xs" by (auto simp: rb_repr_def)
  obtain h' t' where "rb_insert cmp tr z h = Some h'" "rbt tr h' t'"
    "inorder t' = takeWhile (\<lambda>a. \<not> cmp a z > 0) (inorder t) @ z # dropWhile (\<lambda>a. \<not> cmp a z > 0) (inorder t)"
    and so: "same_outside (insert (root tr) (insert z (set_tree t))) h h'"
    using rb_insert_ok [OF t(1), of z cmp] a t(2) by (auto simp: set_inorder [symmetric] simp del: set_inorder)
  moreover have "same_outside (insert (nil tr) (insert (root tr) (set (z # xs)))) h h'"
    by (rule same_outside_mono [OF so]) (use t(2) set_inorder [of t] in auto)
  ultimately show "\<exists>h'. rb_insert cmp tr z h = Some h' \<and> rb_repr tr h' (takeWhile (\<lambda>a. \<not> cmp a z > 0) xs @ z # dropWhile (\<lambda>a. \<not> cmp a z > 0) xs)
    \<and> same_outside (insert (nil tr) (insert (root tr) (set (z # xs)))) h h'"
    using t(2) unfolding rb_repr_def by blast
next
  fix h xs z
  assume "rb_repr tr h xs" "z \<in> set xs"
  then obtain t where t: "rbt tr h t" "inorder t = xs" "z \<in> set_tree t" by (auto simp: rb_repr_def)
  then show "\<exists>h'. rb_delete tr z h = Some h' \<and> rb_repr tr h' (remove1 z xs) \<and> same_outside (insert (nil tr) (insert (root tr) (set xs))) h h'"
    using rb_delete_ok [OF t(1,3)] set_inorder [of t] by (auto simp: rb_repr_def)
next
  fix h us vs and x :: 'p
  assume "rb_repr tr h (us @ x # vs)"
  then obtain t where t: "rbt tr h t" "inorder t = us @ x # vs" by (auto simp: rb_repr_def)
  then have ok: "rb_ok tr h t" "x \<in> set_tree t" using set_inorder [of t] by (auto simp: rbt_iff)
  obtain us' vs' where e: "inorder t = us' @ x # vs'" "rb_node_prev tr x h = Some (last_opt us')" using rb_node_neighbours [OF ok] by blast
  have "distinct (inorder t)" using rb_ok_distinct [OF ok(1)] .
  then have "us = us'" using e(1) t(2) by (metis append_Cons_eq_iff distinct_append disjoint_iff distinct.simps(2) list.set_intros(1))
  then show "rb_node_prev tr x h = Some (last_opt us)" using e(2) by simp
qed

end
