(* ===== verification/Vmm.thy ===== *)
theory Vmm
  imports Shmem RbSeq
begin

text \<open>
  Virtual memory areas and address spaces, \<^verbatim>\<open>kern/mm/vmm.c\<close>, without its self-tests.

  An area and an address space are kernel objects named by their address. The list of areas of an
  address space is a list of addresses; its red-black tree, built when there are 32 areas, lives in
  the store \<open>rbs\<close>, where the node embedded in an area has the area's address. Functions return
  \<open>None\<close> when an assertion fails, a null pointer is followed or a loop does not end.
\<close>

section \<open>Definitions\<close>

record vma_struct =
  vm_mm :: nat
  vm_start :: u32
  vm_end :: u32
  vm_flags :: u32
  vm_shmem :: "nat option"
  shmem_off :: u32

text \<open>\<open>mmap_tree\<close> holds the address of the tree object with its contents.\<close>

record mm_struct =
  mmap_list :: "nat list"
  mmap_tree :: "(nat \<times> nat rb_tree) option"
  mmap_cache :: "nat option"
  pgdir :: "nat option"
  map_count :: int

record vmm = kmem +
  vmas :: "nat \<Rightarrow> vma_struct"
  mms :: "nat \<Rightarrow> mm_struct"
  rbs :: "nat rb_store"

abbreviation (input) VM_READ :: u32 where "VM_READ \<equiv> 1"
abbreviation (input) VM_WRITE :: u32 where "VM_WRITE \<equiv> 2"
abbreviation (input) VM_EXEC :: u32 where "VM_EXEC \<equiv> 4"
abbreviation (input) VM_STACK :: u32 where "VM_STACK \<equiv> 8"
abbreviation (input) VM_SHARE :: u32 where "VM_SHARE \<equiv> 16"
abbreviation (input) RB_MIN_MAP_COUNT :: int where "RB_MIN_MAP_COUNT \<equiv> 32"
abbreviation (input) E_INVAL :: int where "E_INVAL \<equiv> 3"

definition upd_mm :: "nat \<Rightarrow> (mm_struct \<Rightarrow> mm_struct) \<Rightarrow> vmm \<Rightarrow> vmm" where
  "upd_mm mm f st = st\<lparr>mms := (mms st)(mm := f (mms st mm))\<rparr>"

definition upd_vma :: "nat \<Rightarrow> (vma_struct \<Rightarrow> vma_struct) \<Rightarrow> vmm \<Rightarrow> vmm" where
  "upd_vma v f st = st\<lparr>vmas := (vmas st)(v := f (vmas st v))\<rparr>"

subsection \<open>Creating and destroying\<close>

definition mm_create :: "vmm \<Rightarrow> nat option \<times> vmm" where
  "mm_create st =
     (case kmalloc st of
        (None, st) \<Rightarrow> (None, st)
      | (Some mm, st) \<Rightarrow>
          (Some mm, upd_mm mm (\<lambda>_. \<lparr>mmap_list = [], mmap_tree = None, mmap_cache = None, pgdir = None, map_count = 0\<rparr>) st))"

definition vma_create :: "u32 \<Rightarrow> u32 \<Rightarrow> u32 \<Rightarrow> vmm \<Rightarrow> nat option \<times> vmm" where
  "vma_create start end fl st =
     (case kmalloc st of
        (None, st) \<Rightarrow> (None, st)
      | (Some v, st) \<Rightarrow>
          (Some v, upd_vma v (\<lambda>a. a\<lparr>vm_start := start, vm_end := end, vm_flags := fl, vm_shmem := None, shmem_off := 0\<rparr>) st))"

definition vma_destroy :: "nat \<Rightarrow> vmm \<Rightarrow> vmm option" where
  "vma_destroy v st = do {
     st \<leftarrow> (if vm_flags (vmas st v) AND VM_SHARE \<noteq> 0 then
              case vm_shmem (vmas st v) of
                None \<Rightarrow> None
              | Some s \<Rightarrow> (case shmem_ref_dec s st of (r, st) \<Rightarrow> if r = 0 then shmem_destroy s st else Some st)
            else Some st);
     Some (kfree v st)
   }"

definition rb_tree_create :: "vmm \<Rightarrow> (nat \<times> nat rb_tree) option \<times> vmm" where
  "rb_tree_create st =
     (case kmalloc st of
        (None, st) \<Rightarrow> (None, st)
      | (Some t, st) \<Rightarrow>
         (case kmalloc st of
            (None, st) \<Rightarrow> (None, kfree t st)
          | (Some n, st) \<Rightarrow>
             (case kmalloc st of
                (None, st) \<Rightarrow> (None, kfree t (kfree n st))
              | (Some r, st) \<Rightarrow>
                  (case rb_tree_init n r (rbs st) of (tr, h) \<Rightarrow> (Some (t, tr), st\<lparr>rbs := h\<rparr>)))))"

definition rb_tree_destroy :: "nat \<times> nat rb_tree \<Rightarrow> vmm \<Rightarrow> vmm" where
  "rb_tree_destroy t st = kfree (fst t) (kfree (nil (snd t)) (kfree (root (snd t)) st))"

subsection \<open>Looking up an area\<close>

partial_function (option) find_vma_rb_loop :: "nat rb_tree \<Rightarrow> u32 \<Rightarrow> vmm \<Rightarrow> nat option \<Rightarrow> nat option \<Rightarrow> nat option option" where
  "find_vma_rb_loop tr addr st node vma =
     (case node of
        None \<Rightarrow> Some vma
      | Some tmp \<Rightarrow>
          if vm_end (vmas st tmp) > addr then
            if vm_start (vmas st tmp) \<le> addr then Some (Some tmp)
            else find_vma_rb_loop tr addr st (rb_node_left tr tmp (rbs st)) (Some tmp)
          else find_vma_rb_loop tr addr st (rb_node_right tr tmp (rbs st)) vma)"

definition find_vma_rb :: "nat rb_tree \<Rightarrow> u32 \<Rightarrow> vmm \<Rightarrow> nat option option" where
  "find_vma_rb tr addr st = find_vma_rb_loop tr addr st (rb_node_root tr (rbs st)) None"

definition find_vma :: "nat option \<Rightarrow> u32 \<Rightarrow> vmm \<Rightarrow> (nat option \<times> vmm) option" where
  "find_vma mmp addr st =
     (case mmp of
        None \<Rightarrow> Some (None, st)
      | Some mm \<Rightarrow> do {
          let hit = (case mmap_cache (mms st mm) of
                       None \<Rightarrow> False
                     | Some c \<Rightarrow> vm_start (vmas st c) \<le> addr \<and> vm_end (vmas st c) > addr);
          vma \<leftarrow> (if hit then Some (mmap_cache (mms st mm))
                  else case mmap_tree (mms st mm) of
                         Some (_, tr) \<Rightarrow> find_vma_rb tr addr st
                       | None \<Rightarrow> Some (find (\<lambda>v. addr < vm_end (vmas st v)) (mmap_list (mms st mm))));
          Some (vma, if vma \<noteq> None then upd_mm mm (mmap_cache_update (\<lambda>_. vma)) st else st)
        })"

subsection \<open>Inserting and removing areas\<close>

definition vma_compare :: "vmm \<Rightarrow> nat \<Rightarrow> nat \<Rightarrow> int" where
  "vma_compare st v1 v2 =
     (let start1 = vm_start (vmas st v1); start2 = vm_start (vmas st v2)
      in if start1 < start2 then -1 else if start1 > start2 then 1 else 0)"

definition check_vma_overlap :: "vma_struct \<Rightarrow> vma_struct \<Rightarrow> unit option" where
  "check_vma_overlap prev next =
     kassert (vm_start prev < vm_end prev \<and> vm_end prev \<le> vm_start next \<and> vm_start next < vm_end next)"

text \<open>\<^verbatim>\<open>insert_vma_rb\<close>; it returns the predecessor, which the caller may ignore.\<close>

definition insert_vma_rb :: "nat rb_tree \<Rightarrow> nat \<Rightarrow> bool \<Rightarrow> vmm \<Rightarrow> (nat option \<times> vmm) option" where
  "insert_vma_rb tr v want_prev st = do {
     h \<leftarrow> rb_insert (vma_compare st) tr v (rbs st);
     let st = st\<lparr>rbs := h\<rparr>;
     prev \<leftarrow> (if want_prev then rb_node_prev tr v h else Some None);
     Some (prev, st)
   }"

fun insert_vmas_rb :: "nat rb_tree \<Rightarrow> nat list \<Rightarrow> vmm \<Rightarrow> vmm option" where
  "insert_vmas_rb tr [] st = Some st"
| "insert_vmas_rb tr (v # vs) st = do { (_, st) \<leftarrow> insert_vma_rb tr v False st; insert_vmas_rb tr vs st }"

text \<open>List positions: the link after which to insert, \<open>None\<close> for the list head, and the link that follows it.\<close>

definition before_link :: "nat option \<Rightarrow> nat list \<Rightarrow> nat list" where
  "before_link p vs = (case p of None \<Rightarrow> [] | Some w \<Rightarrow> takeWhile (\<lambda>x. x \<noteq> w) vs @ [w])"

definition after_link :: "nat option \<Rightarrow> nat list \<Rightarrow> nat list" where
  "after_link p vs = (case p of None \<Rightarrow> vs | Some w \<Rightarrow> tl (dropWhile (\<lambda>x. x \<noteq> w) vs))"

definition last_link :: "nat list \<Rightarrow> nat option" where
  "last_link vs = (if vs = [] then None else Some (last vs))"

definition insert_vma_struct :: "nat \<Rightarrow> nat \<Rightarrow> vmm \<Rightarrow> vmm option" where
  "insert_vma_struct mm v st = do {
     kassert (vm_start (vmas st v) < vm_end (vmas st v));
     (le_prev, st) \<leftarrow> (case mmap_tree (mms st mm) of
         Some (_, tr) \<Rightarrow> insert_vma_rb tr v True st
       | None \<Rightarrow>
           Some (last_link (takeWhile (\<lambda>w. \<not> vm_start (vmas st w) > vm_start (vmas st v)) (mmap_list (mms st mm))), st));
     let vs = mmap_list (mms st mm);
     (case le_prev of None \<Rightarrow> Some () | Some p \<Rightarrow> check_vma_overlap (vmas st p) (vmas st v));
     (case after_link le_prev vs of [] \<Rightarrow> Some () | n # _ \<Rightarrow> check_vma_overlap (vmas st v) (vmas st n));
     let st = upd_vma v (vm_mm_update (\<lambda>_. mm)) st;
     let st = upd_mm mm (\<lambda>m. m\<lparr>mmap_list := before_link le_prev vs @ v # after_link le_prev vs,
        map_count := map_count m + 1\<rparr>) st;
     if mmap_tree (mms st mm) = None \<and> map_count (mms st mm) \<ge> RB_MIN_MAP_COUNT then
       (case rb_tree_create st of
          (t, st) \<Rightarrow>
            let st = upd_mm mm (mmap_tree_update (\<lambda>_. t)) st in
            (case t of None \<Rightarrow> Some st | Some (_, tr) \<Rightarrow> insert_vmas_rb tr (mmap_list (mms st mm)) st))
     else Some st
   }"

definition remove_vma_struct :: "nat \<Rightarrow> nat \<Rightarrow> vmm \<Rightarrow> vmm option" where
  "remove_vma_struct mm v st = do {
     kassert (vm_mm (vmas st v) = mm);
     st \<leftarrow> (case mmap_tree (mms st mm) of
         None \<Rightarrow> Some st
       | Some (_, tr) \<Rightarrow> map_option (\<lambda>h. st\<lparr>rbs := h\<rparr>) (rb_delete tr v (rbs st)));
     Some (upd_mm mm (\<lambda>m. m\<lparr>mmap_list := remove1 v (mmap_list m),
       mmap_cache := (if mmap_cache m = Some v then None else mmap_cache m), map_count := map_count m - 1\<rparr>) st)
   }"

fun destroy_vmas :: "nat list \<Rightarrow> vmm \<Rightarrow> vmm option" where
  "destroy_vmas [] st = Some st"
| "destroy_vmas (v # vs) st = do { st \<leftarrow> vma_destroy v st; destroy_vmas vs st }"

definition mm_destroy :: "nat \<Rightarrow> vmm \<Rightarrow> vmm option" where
  "mm_destroy mm st = do {
     let st = (case mmap_tree (mms st mm) of None \<Rightarrow> st | Some t \<Rightarrow> rb_tree_destroy t st);
     let vs = mmap_list (mms st mm);
     let st = upd_mm mm (mmap_list_update (\<lambda>_. [])) st;
     st \<leftarrow> destroy_vmas vs st;
     Some (kfree mm st)
   }"

subsection \<open>Mapping and unmapping\<close>

text \<open>The return value, the new area and the state.\<close>

definition mm_map :: "nat \<Rightarrow> u32 \<Rightarrow> u32 \<Rightarrow> u32 \<Rightarrow> vmm \<Rightarrow> (int \<times> nat option \<times> vmm) option" where
  "mm_map mm addr l fl st = do {
     let start = ROUNDDOWN addr PGSIZE;
     let end = ROUNDUP (addr + l) PGSIZE;
     if \<not> USER_ACCESS start end then Some (- E_INVAL, None, st)
     else do {
       (vma, st) \<leftarrow> find_vma (Some mm) start st;
       if (case vma of None \<Rightarrow> False | Some v \<Rightarrow> end > vm_start (vmas st v)) then Some (- E_INVAL, None, st)
       else case vma_create start end (fl AND NOT VM_SHARE) st of
         (None, st) \<Rightarrow> Some (- E_NO_MEM, None, st)
       | (Some v, st) \<Rightarrow> do { st \<leftarrow> insert_vma_struct mm v st; Some (0, Some v, st) }
     }
   }"

definition mm_map_shmem :: "nat \<Rightarrow> u32 \<Rightarrow> u32 \<Rightarrow> nat option \<Rightarrow> vmm \<Rightarrow> (int \<times> nat option \<times> vmm) option" where
  "mm_map_shmem mm addr fl shm st =
     (case shm of
        None \<Rightarrow> Some (- E_INVAL, None, st)
      | Some s \<Rightarrow>
          if addr mod PGSIZE \<noteq> 0 then Some (- E_INVAL, None, st)
          else do {
            let st = snd (shmem_ref_inc s st);
            (ret, vma, st) \<leftarrow> mm_map mm addr (len (shmems st s)) fl st;
            case vma of
              Some v \<Rightarrow> if ret \<noteq> 0 then Some (ret, None, snd (shmem_ref_dec s st))
                else Some (0, Some v,
                  upd_vma v (\<lambda>a. a\<lparr>vm_shmem := Some s, shmem_off := 0, vm_flags := vm_flags a OR VM_SHARE\<rparr>) st)
            | None \<Rightarrow> Some (ret, None, snd (shmem_ref_dec s st))
          })"

definition vma_resize :: "nat \<Rightarrow> u32 \<Rightarrow> u32 \<Rightarrow> vmm \<Rightarrow> vmm option" where
  "vma_resize v start end st = do {
     let a = vmas st v;
     kassert (start mod PGSIZE = 0 \<and> end mod PGSIZE = 0);
     kassert (vm_start a \<le> start \<and> start < end \<and> end \<le> vm_end a);
     Some (upd_vma v (\<lambda>a. a\<lparr>
       shmem_off := (if vm_flags a AND VM_SHARE \<noteq> 0 then shmem_off a + (start - vm_start a) else shmem_off a),
       vm_start := start, vm_end := end\<rparr>) st)
   }"

definition on_pgdir :: "nat \<Rightarrow> (nat \<Rightarrow> machine \<Rightarrow> machine option) \<Rightarrow> vmm \<Rightarrow> vmm option" where
  "on_pgdir mm f st = (case pgdir (mms st mm) of None \<Rightarrow> None | Some d \<Rightarrow> do_mach (f d) st)"

text \<open>
  The first loop of \<^verbatim>\<open>mm_unmap\<close> moves every area that starts below \<open>end\<close> to the head of a free
  list; \<open>vs\<close> is what follows in the list of areas. The second loop gives back what lies outside
  the range.
\<close>

fun unmap_collect :: "nat \<Rightarrow> u32 \<Rightarrow> nat list \<Rightarrow> nat list \<Rightarrow> vmm \<Rightarrow> (nat list \<times> vmm) option" where
  "unmap_collect mm end [] free st = Some (free, st)"
| "unmap_collect mm end (v # vs) free st =
     (if vm_start (vmas st v) < end then do {
        st \<leftarrow> remove_vma_struct mm v st;
        unmap_collect mm end vs (v # free) st
      }
      else Some (free, st))"

definition unmap_one :: "nat \<Rightarrow> u32 \<Rightarrow> u32 \<Rightarrow> nat \<Rightarrow> vmm \<Rightarrow> vmm option" where
  "unmap_one mm start end v st = do {
     let a = vmas st v;
     (un_start, un_end, st) \<leftarrow> (if vm_start a < start then do {
         st \<leftarrow> vma_resize v (vm_start a) start st;
         st \<leftarrow> insert_vma_struct mm v st;
         Some (start, vm_end a, st)
       }
       else if end < vm_end a then do {
         st \<leftarrow> vma_resize v end (vm_end a) st;
         st \<leftarrow> insert_vma_struct mm v st;
         Some (vm_start a, end, st)
       }
       else do {
         st \<leftarrow> vma_destroy v st;
         Some (vm_start a, vm_end a, st)
       });
     on_pgdir mm (\<lambda>d. unmap_range d un_start un_end) st
   }"

fun unmap_free :: "nat \<Rightarrow> u32 \<Rightarrow> u32 \<Rightarrow> nat list \<Rightarrow> vmm \<Rightarrow> vmm option" where
  "unmap_free mm start end [] st = Some st"
| "unmap_free mm start end (v # vs) st = do { st \<leftarrow> unmap_one mm start end v st; unmap_free mm start end vs st }"

definition mm_unmap :: "nat \<Rightarrow> u32 \<Rightarrow> u32 \<Rightarrow> vmm \<Rightarrow> (int \<times> vmm) option" where
  "mm_unmap mm addr l st = do {
     let start = ROUNDDOWN addr PGSIZE;
     let end = ROUNDUP (addr + l) PGSIZE;
     if \<not> USER_ACCESS start end then Some (- E_INVAL, st)
     else do {
       (vma, st) \<leftarrow> find_vma (Some mm) start st;
       case vma of
         None \<Rightarrow> Some (0, st)
       | Some v \<Rightarrow>
           let a = vmas st v in
           if end \<le> vm_start a then Some (0, st)
           else if vm_start a < start \<and> end < vm_end a then
             (case vma_create (vm_start a) start (vm_flags a) st of
                (None, st) \<Rightarrow> Some (- E_NO_MEM, st)
              | (Some nv, st) \<Rightarrow> do {
                  st \<leftarrow> vma_resize v end (vm_end a) st;
                  st \<leftarrow> insert_vma_struct mm nv st;
                  st \<leftarrow> on_pgdir mm (\<lambda>d. unmap_range d start end) st;
                  Some (0, st)
                })
           else do {
             (free, st) \<leftarrow> unmap_collect mm end (dropWhile (\<lambda>x. x \<noteq> v) (mmap_list (mms st mm))) [] st;
             st \<leftarrow> unmap_free mm start end free st;
             Some (0, st)
           }
     }
   }"

subsection \<open>Whole address spaces\<close>

text \<open>One area of \<^verbatim>\<open>dup_mmap\<close>, which visits the areas from the last to the first.\<close>

definition dup_vma :: "nat \<Rightarrow> nat \<Rightarrow> nat \<Rightarrow> vmm \<Rightarrow> (int \<times> vmm) option" where
  "dup_vma to src v st = do {
     let a = vmas st v;
     case vma_create (vm_start a) (vm_end a) (vm_flags a) st of
       (None, st) \<Rightarrow> Some (- E_NO_MEM, st)
     | (Some nv, st) \<Rightarrow> do {
         st \<leftarrow> (if vm_flags a AND VM_SHARE \<noteq> 0 then
                  case vm_shmem a of
                    None \<Rightarrow> None
                  | Some s \<Rightarrow> Some (snd (shmem_ref_inc s
                      (upd_vma nv (\<lambda>n. n\<lparr>vm_shmem := Some s, shmem_off := shmem_off a\<rparr>) st)))
                else Some st);
         st \<leftarrow> insert_vma_struct to nv st;
         case (pgdir (mms st to), pgdir (mms st src)) of
           (Some d, Some d') \<Rightarrow> do {
             (r, st) \<leftarrow> on_mach (copy_range d d' (vm_start a) (vm_end a) (vm_flags a AND VM_SHARE \<noteq> 0)) st;
             Some (if r \<noteq> 0 then - E_NO_MEM else 0, st)
           }
         | _ \<Rightarrow> None
       }
   }"

fun dup_vmas :: "nat \<Rightarrow> nat \<Rightarrow> nat list \<Rightarrow> vmm \<Rightarrow> (int \<times> vmm) option" where
  "dup_vmas to src [] st = Some (0, st)"
| "dup_vmas to src (v # vs) st = do {
     (r, st) \<leftarrow> dup_vma to src v st;
     if r \<noteq> 0 then Some (r, st) else dup_vmas to src vs st
   }"

definition dup_mmap :: "nat \<Rightarrow> nat \<Rightarrow> vmm \<Rightarrow> (int \<times> vmm) option" where
  "dup_mmap to src st = dup_vmas to src (rev (mmap_list (mms st src))) st"

fun exit_vmas :: "(nat \<Rightarrow> u32 \<Rightarrow> u32 \<Rightarrow> machine \<Rightarrow> machine option) \<Rightarrow> nat \<Rightarrow> nat list \<Rightarrow> vmm \<Rightarrow> vmm option" where
  "exit_vmas f mm [] st = Some st"
| "exit_vmas f mm (v # vs) st = do {
     st \<leftarrow> on_pgdir mm (\<lambda>d. f d (vm_start (vmas st v)) (vm_end (vmas st v))) st;
     exit_vmas f mm vs st
   }"

definition exit_mmap :: "nat \<Rightarrow> vmm \<Rightarrow> vmm option" where
  "exit_mmap mm st = do {
     st \<leftarrow> exit_vmas unmap_range mm (mmap_list (mms st mm)) st;
     exit_vmas exit_range mm (mmap_list (mms st mm)) st
   }"

subsection \<open>Searching free space and checking user memory\<close>

fun unmapped_area_loop :: "u32 \<Rightarrow> (u32 \<times> u32) list \<Rightarrow> u32 \<Rightarrow> u32" where
  "unmapped_area_loop l [] start = (if start \<ge> USERBASE then start else 0)"
| "unmapped_area_loop l ((lo, hi) # vs) start =
     (if start \<ge> hi then start
      else if start + l > lo then (if l \<ge> lo then 0 else unmapped_area_loop l vs (lo - l))
      else unmapped_area_loop l vs start)"

definition get_unmapped_area :: "nat \<Rightarrow> u32 \<Rightarrow> vmm \<Rightarrow> u32" where
  "get_unmapped_area mm l st =
     (if l = 0 \<or> l > USERTOP then 0
      else unmapped_area_loop l (map (\<lambda>v. (vm_start (vmas st v), vm_end (vmas st v))) (rev (mmap_list (mms st mm)))) (USERTOP - l))"

partial_function (option) mem_check_loop :: "nat \<Rightarrow> u32 \<Rightarrow> u32 \<Rightarrow> bool \<Rightarrow> vmm \<Rightarrow> (bool \<times> vmm) option" where
  "mem_check_loop mm start end write st =
     (if start < end then do {
        (vma, st) \<leftarrow> find_vma (Some mm) start st;
        case vma of
          None \<Rightarrow> Some (False, st)
        | Some v \<Rightarrow>
            let a = vmas st v in
            if start < vm_start a then Some (False, st)
            else if vm_flags a AND (if write then VM_WRITE else VM_READ) = 0 then Some (False, st)
            else if write \<and> vm_flags a AND VM_STACK \<noteq> 0 \<and> start < vm_start a + PGSIZE then Some (False, st)
            else mem_check_loop mm (vm_end a) end write st
      }
      else Some (True, st))"

definition user_mem_check :: "nat option \<Rightarrow> u32 \<Rightarrow> u32 \<Rightarrow> bool \<Rightarrow> vmm \<Rightarrow> (bool \<times> vmm) option" where
  "user_mem_check mmp addr l write st =
     (case mmp of
        Some mm \<Rightarrow>
          if \<not> USER_ACCESS addr (addr + l) then Some (False, st)
          else mem_check_loop mm addr (addr + l) write st
      | None \<Rightarrow> Some (KERN_ACCESS addr (addr + l), st))"

subsection \<open>Page faults\<close>

definition fault_denied :: "u32 \<Rightarrow> u32 \<Rightarrow> bool" where
  "fault_denied error_code fl \<longleftrightarrow>
     (let e = error_code AND 3 in
      if e = 1 then True
      else if e = 0 then fl AND (VM_READ OR VM_EXEC) = 0
      else fl AND VM_WRITE = 0)"

text \<open>The page is not mapped yet: a private page is allocated, a shared one taken from its object.\<close>

definition fault_absent :: "nat \<Rightarrow> nat \<Rightarrow> u32 \<Rightarrow> u32 \<Rightarrow> nat \<times> nat \<Rightarrow> vmm \<Rightarrow> (int \<times> vmm) option" where
  "fault_absent d v addr perm ptep st =
     (let a = vmas st v in
      if vm_flags a AND VM_SHARE = 0 then do {
        (page, st) \<leftarrow> on_mach (pgdir_alloc_page d addr perm) st;
        Some (if page = None then - E_NO_MEM else 0, st)
      }
      else case vm_shmem a of
        None \<Rightarrow> None
      | Some s \<Rightarrow> do {
          st \<leftarrow> lock_shmem s st;
          (sh, st) \<leftarrow> shmem_get_entry s (addr - vm_start a + shmem_off a) True st;
          st \<leftarrow> unlock_shmem s st;
          case sh of
            None \<Rightarrow> Some (- E_NO_MEM, st)
          | Some e \<Rightarrow>
              if read_entry e (mach st) = 0 then Some (- E_NO_MEM, st)
              else if read_entry e (mach st) AND PTE_P \<noteq> 0 then do {
                p \<leftarrow> pa2page (read_entry e (mach st)) (mach st);
                (_, st) \<leftarrow> on_mach (page_insert d p addr perm) st;
                Some (0, st)
              }
              else Some (0, st\<lparr>mach := write_entry ptep (read_entry e (mach st)) (mach st)\<rparr>)
        })"

text \<open>The entry is not zero: a write to a private page that is shared since a fork gets its own copy.\<close>

definition fault_present :: "nat \<Rightarrow> nat \<Rightarrow> u32 \<Rightarrow> u32 \<Rightarrow> u32 \<Rightarrow> nat \<times> nat \<Rightarrow> vmm \<Rightarrow> (int \<times> vmm) option" where
  "fault_present d v error_code addr perm ptep st = do {
     let cow = (vm_flags (vmas st v) AND (VM_SHARE OR VM_WRITE) = VM_WRITE);
     let pte = read_entry ptep (mach st);
     kassert (pte AND PTE_P = 0 \<or> error_code AND 2 \<noteq> 0 \<and> pte AND PTE_W = 0 \<and> cow);
     (newpage, st) \<leftarrow> (if cow then on_mach (alloc_pages 1) st else Some (None, st));
     kassert (pte AND PTE_P \<noteq> 0);
     page \<leftarrow> pte2page pte (mach st);
     if cow \<and> 1 < sint (page_ref (pages (phys (mach st)) page)) then
       (case newpage of
          None \<Rightarrow> Some (- E_NO_MEM, st)
        | Some n \<Rightarrow> do {
            let st = st\<lparr>mach := (mach st)\<lparr>frames := (frames (mach st))(n := frames (mach st) page)\<rparr>\<rparr>;
            (_, st) \<leftarrow> on_mach (page_insert d n addr perm) st;
            Some (0, st)
          })
     else do {
       (_, st) \<leftarrow> on_mach (page_insert d page addr perm) st;
       st \<leftarrow> (case newpage of None \<Rightarrow> Some st | Some n \<Rightarrow> do_mach (free_pages n 1) st);
       Some (0, st)
     }
   }"

definition do_pgfault :: "nat option \<Rightarrow> u32 \<Rightarrow> u32 \<Rightarrow> vmm \<Rightarrow> (int \<times> vmm) option" where
  "do_pgfault mmp error_code addr st = do {
     (vma, st) \<leftarrow> find_vma mmp addr st;
     case (mmp, vma) of
       (Some mm, Some v) \<Rightarrow>
         let a = vmas st v in
         if vm_start a > addr then Some (- E_INVAL, st)
         else if fault_denied error_code (vm_flags a) then Some (- E_INVAL, st)
         else do {
           let perm = (if vm_flags a AND VM_WRITE \<noteq> 0 then PTE_U OR PTE_W else PTE_U);
           let addr = ROUNDDOWN addr PGSIZE;
           d \<leftarrow> pgdir (mms st mm);
           (ptep, st) \<leftarrow> on_mach (get_pte d addr True) st;
           case ptep of
             None \<Rightarrow> Some (- E_NO_MEM, st)
           | Some e \<Rightarrow>
               if read_entry e (mach st) = 0 then fault_absent d v addr perm e st
               else fault_present d v error_code addr perm e st
         }
     | _ \<Rightarrow> Some (- E_INVAL, st)
   }"

end
