(* ===== verification/VmmSpace.thy ===== *)
theory VmmSpace
  imports Vmm
begin

text \<open>
  The invariant of an address space, and what its operations do to it: the areas are disjoint,
  sorted and not empty, the red-black tree holds the same sequence of areas as the list, the cache
  is one of them, and the objects in use are not in the pool of free objects.
\<close>

section \<open>The invariant\<close>

definition areas_ok :: "(nat \<Rightarrow> vma_struct) \<Rightarrow> nat list \<Rightarrow> bool" where
  "areas_ok f vs \<longleftrightarrow> sorted_wrt (\<lambda>v w. vm_end (f v) \<le> vm_start (f w)) vs \<and> (\<forall>v\<in>set vs. vm_start (f v) < vm_end (f v))"

definition tree_objs :: "mm_struct \<Rightarrow> nat set" where
  "tree_objs m = (case mmap_tree m of None \<Rightarrow> {} | Some (t, tr) \<Rightarrow> {t, nil tr, root tr})"

definition mm_objs :: "vmm \<Rightarrow> nat \<Rightarrow> nat set" where
  "mm_objs st mm = insert mm (set (mmap_list (mms st mm)) \<union> tree_objs (mms st mm))"

definition tree_ok :: "nat rb_store \<Rightarrow> mm_struct \<Rightarrow> bool" where
  "tree_ok h m \<longleftrightarrow> (case mmap_tree m of None \<Rightarrow> True
     | Some (t, tr) \<Rightarrow> rb_repr tr h (mmap_list m) \<and> t \<notin> set (mmap_list m) \<and> t \<noteq> nil tr \<and> t \<noteq> root tr)"

definition mm_ok :: "vmm \<Rightarrow> nat \<Rightarrow> bool" where
  "mm_ok st mm \<longleftrightarrow> areas_ok (vmas st) (mmap_list (mms st mm)) \<and> tree_ok (rbs st) (mms st mm)
     \<and> (\<forall>v\<in>set (mmap_list (mms st mm)). vm_mm (vmas st v) = mm)
     \<and> (\<forall>c. mmap_cache (mms st mm) = Some c \<longrightarrow> c \<in> set (mmap_list (mms st mm)))
     \<and> map_count (mms st mm) = int (length (mmap_list (mms st mm)))
     \<and> mm \<notin> set (mmap_list (mms st mm)) \<union> tree_objs (mms st mm)
     \<and> distinct (objs st) \<and> mm_objs st mm \<inter> set (objs st) = {}"

text \<open>Everything but one address space and the objects \<open>S\<close> stays.\<close>

definition only_mm :: "nat \<Rightarrow> nat set \<Rightarrow> vmm \<Rightarrow> vmm \<Rightarrow> bool" where
  "only_mm mm S st st' \<longleftrightarrow> (\<forall>m. m \<noteq> mm \<longrightarrow> mms st' m = mms st m) \<and> (\<forall>v. v \<notin> S \<longrightarrow> vmas st' v = vmas st v)
     \<and> same_outside S (rbs st) (rbs st') \<and> pgdir (mms st' mm) = pgdir (mms st mm)"

lemma only_mm_refl: "only_mm mm S st st"
  by (simp add: only_mm_def same_outside_def)

lemma only_mm_trans: "only_mm mm S st st1 \<Longrightarrow> only_mm mm S st1 st2 \<Longrightarrow> only_mm mm S st st2"
  by (simp add: only_mm_def same_outside_def)

lemma only_mm_mono: "only_mm mm S st st' \<Longrightarrow> S \<subseteq> S' \<Longrightarrow> only_mm mm S' st st'"
  unfolding only_mm_def same_outside_def by blast

section \<open>Lists of areas\<close>

lemma areas_ok_distinct: "areas_ok f vs \<Longrightarrow> distinct vs"
  unfolding areas_ok_def by (induction vs) (auto simp: leD)

lemma areas_ok_append: "areas_ok f (us @ vs) \<longleftrightarrow> areas_ok f us \<and> areas_ok f vs \<and> (\<forall>u\<in>set us. \<forall>v\<in>set vs. vm_end (f u) \<le> vm_start (f v))"
  unfolding areas_ok_def by (auto simp: sorted_wrt_append)

lemma areas_ok_Cons: "areas_ok f (u # vs) \<longleftrightarrow> vm_start (f u) < vm_end (f u) \<and> areas_ok f vs \<and> (\<forall>v\<in>set vs. vm_end (f u) \<le> vm_start (f v))"
  unfolding areas_ok_def by auto

lemma areas_ok_Nil [simp]: "areas_ok f []"
  by (simp add: areas_ok_def)

lemma areas_ok_cong: "(\<And>v. v \<in> set vs \<Longrightarrow> vm_start (g v) = vm_start (f v) \<and> vm_end (g v) = vm_end (f v)) \<Longrightarrow> areas_ok g vs = areas_ok f vs"
  by (induction vs) (auto simp: areas_ok_Cons)

text \<open>The first area that ends above an address.\<close>

definition first_above :: "(nat \<Rightarrow> vma_struct) \<Rightarrow> u32 \<Rightarrow> nat list \<Rightarrow> nat option" where
  "first_above f a vs = find (\<lambda>v. a < vm_end (f v)) vs"

lemma first_above_append: "first_above f a (us @ vs) = (case first_above f a us of None \<Rightarrow> first_above f a vs | r \<Rightarrow> r)"
  unfolding first_above_def by (induction us) auto

lemma first_above_none: "first_above f a vs = None \<longleftrightarrow> (\<forall>v\<in>set vs. vm_end (f v) \<le> a)"
  unfolding first_above_def find_None_iff by auto

lemma first_above_hit:
  assumes "areas_ok f vs" "c \<in> set vs" "vm_start (f c) \<le> a" "a < vm_end (f c)"
  shows "first_above f a vs = Some c"
proof -
  obtain us ws where vs: "vs = us @ c # ws" using assms(2) by (meson split_list)
  then have "\<forall>u\<in>set us. vm_end (f u) \<le> a" using assms(1,3) by (auto simp: areas_ok_append areas_ok_Cons intro: order_trans)
  then have "first_above f a us = None" by (simp add: first_above_none)
  then show ?thesis using assms(4) vs by (simp add: first_above_append) (simp add: first_above_def)
qed

lemma first_above_SomeD:
  assumes "first_above f a vs = Some v"
  shows "\<exists>us ws. vs = us @ v # ws \<and> a < vm_end (f v) \<and> (\<forall>u\<in>set us. vm_end (f u) \<le> a)"
  using assms
proof (induction vs)
  case (Cons w vs)
  show ?case
  proof (cases "a < vm_end (f w)")
    case True
    then show ?thesis using Cons.prems by (intro exI [of _ "[]"] exI [of _ vs]) (simp add: first_above_def)
  next
    case False
    then obtain us ws where "vs = us @ v # ws" "a < vm_end (f v)" "\<forall>u\<in>set us. vm_end (f u) \<le> a"
      using Cons by (auto simp: first_above_def)
    then show ?thesis using False by (intro exI [of _ "w # us"] exI [of _ ws]) auto
  qed
qed (simp add: first_above_def)

section \<open>Other address spaces\<close>

text \<open>Other address spaces keep their invariant.\<close>

lemma rb_repr_cong:
  assumes "rb_repr tr h xs" "\<And>w. w \<in> insert (nil tr) (insert (root tr) (set xs)) \<Longrightarrow> h' w = h w"
  shows "rb_repr tr h' xs"
proof -
  obtain t where t: "rbt tr h t" "inorder t = xs" using assms(1) by (auto simp: rb_repr_def)
  have eq: "h' w = h w" if "w \<in> set_tree t" for w using assms(2) that t(2) set_inorder [of t] by auto
  then have "is_tree tr h' q p t = is_tree tr h q p t" for q p by (rule is_tree_cong)
  moreover have "rbn (col h') t n = rbn (col h) t n" "red_top (col h') t = red_top (col h) t" for n
    using eq by (intro rbn_cong red_top_cong; simp)+
  moreover have "h' (nil tr) = h (nil tr)" "h' (root tr) = h (root tr)" using assms(2) by simp_all
  ultimately have "rbt tr h' t" using t(1) unfolding rbt_iff rb_ok_def by auto
  then show ?thesis using t(2) by (auto simp: rb_repr_def)
qed

lemma mm_ok_other:
  assumes "mm_ok st m" "only_mm mm S st st'" "m \<noteq> mm" "S \<inter> mm_objs st m = {}" "distinct (objs st')" "mm_objs st m \<inter> set (objs st') = {}"
  shows "mm_ok st' m"
proof -
  let ?m = "mms st m"
  have v: "vmas st' v = vmas st v" if "v \<in> set (mmap_list ?m)" for v
    using assms(2,3,4) that unfolding only_mm_def mm_objs_def by auto
  have m: "mms st' m = ?m" using assms(2,3) by (simp add: only_mm_def)
  have h: "rbs st' w = rbs st w" if "w \<in> mm_objs st m" for w using assms(2,4) that unfolding only_mm_def same_outside_def by auto
  have "areas_ok (vmas st') (mmap_list ?m)"
    using assms(1) v areas_ok_cong [of "mmap_list ?m" "vmas st'" "vmas st"] by (simp add: mm_ok_def)
  moreover have "tree_ok (rbs st') ?m"
  proof (cases "mmap_tree ?m")
    case (Some x)
    obtain t tr where x: "x = (t, tr)" by fastforce
    then have "rb_repr tr (rbs st) (mmap_list ?m)" using assms(1) Some by (simp add: mm_ok_def tree_ok_def)
    then have "rb_repr tr (rbs st') (mmap_list ?m)" by (rule rb_repr_cong) (use h Some x in \<open>auto simp: mm_objs_def tree_objs_def\<close>)
    then show ?thesis using assms(1) Some x by (simp add: mm_ok_def tree_ok_def)
  qed (simp add: tree_ok_def)
  moreover have "mm_objs st' m = mm_objs st m" using m by (simp add: mm_objs_def)
  ultimately show ?thesis using assms(1,5,6) v m unfolding mm_ok_def by auto
qed

section \<open>Looking up an area\<close>

lemma find_vma_rb_loop_ok:
  assumes "is_tree tr (rbs st) q p t" "areas_ok (vmas st) (inorder t)"
  shows "find_vma_rb_loop tr a st (null_nil tr p) r = Some (case first_above (vmas st) a (inorder t) of None \<Rightarrow> r | Some v \<Rightarrow> Some v)"
  using assms
proof (induction t arbitrary: q p r)
  case Leaf
  then show ?case by (subst find_vma_rb_loop.simps) (simp add: null_nil_def first_above_def)
next
  case (Node l x u)
  let ?f = "vmas st" and ?h = "rbs st"
  have p: "null_nil tr p = Some x" and sub: "is_tree tr ?h x (left (?h x)) l" "is_tree tr ?h x (right (?h x)) u"
    using Node.prems(1) by (auto simp: null_nil_def)
  have so: "areas_ok ?f (inorder l)" "areas_ok ?f (inorder u)" "\<forall>v\<in>set_tree l. vm_end (?f v) \<le> vm_start (?f x)" "vm_start (?f x) < vm_end (?f x)"
    using Node.prems(2) by (auto simp: areas_ok_append areas_ok_Cons)
  have low: "first_above ?f a (inorder l) = None" if "vm_start (?f x) \<le> a"
    using so(3) that by (auto simp: first_above_none intro: order_trans)
  consider (here) "a < vm_end (?f x)" "vm_start (?f x) \<le> a" | (left) "a < vm_end (?f x)" "\<not> vm_start (?f x) \<le> a" | (right) "\<not> a < vm_end (?f x)" by blast
  then show ?case
  proof cases
    case here
    then show ?thesis using p low by (subst find_vma_rb_loop.simps) (simp add: first_above_append, simp add: first_above_def)
  next
    case left
    then have "find_vma_rb_loop tr a st (null_nil tr p) r = find_vma_rb_loop tr a st (null_nil tr (left (?h x))) (Some x)"
      using p by (subst find_vma_rb_loop.simps) (simp add: rb_node_left_def)
    moreover have "first_above ?f a (x # inorder u) = Some x" using left by (simp add: first_above_def)
    ultimately show ?thesis using Node.IH(1) [OF sub(1) so(1)] by (simp add: first_above_append split: option.splits)
  next
    case right
    then have "vm_start (?f x) \<le> a" using so(4) by auto
    moreover have "first_above ?f a (x # inorder u) = first_above ?f a (inorder u)" using right by (simp add: first_above_def)
    moreover have "find_vma_rb_loop tr a st (null_nil tr p) r = find_vma_rb_loop tr a st (null_nil tr (right (?h x))) r"
      using right p by (subst find_vma_rb_loop.simps) (simp add: rb_node_right_def)
    ultimately show ?thesis using Node.IH(2) [OF sub(2) so(2)] low by (simp add: first_above_append)
  qed
qed

lemma find_vma_rb_ok:
  assumes "rb_repr tr (rbs st) vs" "areas_ok (vmas st) vs"
  shows "find_vma_rb tr a st = Some (first_above (vmas st) a vs)"
proof -
  obtain t where "rbt tr (rbs st) t" "inorder t = vs" using assms(1) by (auto simp: rb_repr_def)
  then have "is_tree tr (rbs st) (root tr) (left (rbs st (root tr))) t" "inorder t = vs" by (simp_all add: rbt_def rb_ok_def)
  then show ?thesis
    using find_vma_rb_loop_ok [of tr st "root tr" "left (rbs st (root tr))" t a None] assms(2)
    by (simp add: find_vma_rb_def rb_node_root_def split: option.splits)
qed

definition cached :: "nat \<Rightarrow> nat option \<Rightarrow> vmm \<Rightarrow> vmm" where
  "cached mm r st = (if r = None then st else upd_mm mm (mmap_cache_update (\<lambda>_. r)) st)"

lemma find_vma_ok:
  assumes "mm_ok st mm"
  shows "find_vma (Some mm) a st = Some (first_above (vmas st) a (mmap_list (mms st mm)), cached mm (first_above (vmas st) a (mmap_list (mms st mm))) st)"
proof -
  let ?vs = "mmap_list (mms st mm)" and ?f = "vmas st"
  have ok: "areas_ok ?f ?vs" "tree_ok (rbs st) (mms st mm)" "\<And>c. mmap_cache (mms st mm) = Some c \<Longrightarrow> c \<in> set ?vs"
    using assms by (auto simp: mm_ok_def)
  define hit where "hit = (case mmap_cache (mms st mm) of None \<Rightarrow> False | Some c \<Rightarrow> vm_start (?f c) \<le> a \<and> vm_end (?f c) > a)"
  have "(if hit then Some (mmap_cache (mms st mm))
         else case mmap_tree (mms st mm) of Some (_, tr) \<Rightarrow> find_vma_rb tr a st | None \<Rightarrow> Some (find (\<lambda>v. a < vm_end (?f v)) ?vs))
    = Some (first_above ?f a ?vs)"
  proof (cases hit)
    case True
    then obtain c where "mmap_cache (mms st mm) = Some c" "vm_start (?f c) \<le> a" "a < vm_end (?f c)" by (auto simp: hit_def split: option.splits)
    then show ?thesis using first_above_hit [OF ok(1) ok(3)] True by simp
  next
    case False
    then show ?thesis using ok(2) find_vma_rb_ok [OF _ ok(1)]
      by (auto simp: tree_ok_def first_above_def split: option.splits)
  qed
  note eq = this
  show ?thesis unfolding find_vma_def option.case(2) Let_def hit_def [symmetric] eq by (simp add: cached_def)
qed

lemma cached_simps [simp]:
  "vmas (cached mm r st) = vmas st" "rbs (cached mm r st) = rbs st" "mach (cached mm r st) = mach st" "objs (cached mm r st) = objs st"
  "shmns (cached mm r st) = shmns st" "shmems (cached mm r st) = shmems st"
  "mmap_list (mms (cached mm r st) m) = mmap_list (mms st m)" "mmap_tree (mms (cached mm r st) m) = mmap_tree (mms st m)"
  "pgdir (mms (cached mm r st) m) = pgdir (mms st m)" "map_count (mms (cached mm r st) m) = map_count (mms st m)"
  by (simp_all add: cached_def upd_mm_def)

lemma cached_ok:
  assumes "mm_ok st mm" "\<And>c. r = Some c \<Longrightarrow> c \<in> set (mmap_list (mms st mm))"
  shows "mm_ok (cached mm r st) mm" "only_mm mm S st (cached mm r st)"
proof -
  have "mmap_cache (mms (cached mm r st) mm) = (if r = None then mmap_cache (mms st mm) else r)" by (simp add: cached_def upd_mm_def)
  moreover have t: "tree_ok (rbs st) (mms (cached mm r st) mm) = tree_ok (rbs st) (mms st mm)" "tree_objs (mms (cached mm r st) mm) = tree_objs (mms st mm)"
    by (cases "mmap_tree (mms st mm)"; auto simp: tree_ok_def tree_objs_def)+
  moreover have "mm_objs (cached mm r st) mm = mm_objs st mm" by (simp add: mm_objs_def t)
  ultimately show "mm_ok (cached mm r st) mm" using assms by (auto simp: mm_ok_def)
  show "only_mm mm S st (cached mm r st)" by (simp add: only_mm_def same_outside_def) (simp add: cached_def upd_mm_def)
qed

section \<open>Inserting an area\<close>

lemma link_split:
  assumes "distinct (us @ ws)"
  shows "before_link (last_link us) (us @ ws) = us" "after_link (last_link us) (us @ ws) = ws"
proof -
  have "before_link (last_link us) (us @ ws) = us \<and> after_link (last_link us) (us @ ws) = ws"
  proof (cases us rule: rev_cases)
    case (snoc us' w)
    then have "\<forall>x\<in>set us'. x \<noteq> w" using assms by auto
    then show ?thesis using snoc by (simp add: last_link_def before_link_def after_link_def)
  qed (simp add: last_link_def before_link_def after_link_def)
  then show "before_link (last_link us) (us @ ws) = us" "after_link (last_link us) (us @ ws) = ws" by simp_all
qed

text \<open>An area that overlaps no other one, the areas that start before it, and those that start behind it.\<close>

definition fits :: "(nat \<Rightarrow> vma_struct) \<Rightarrow> nat \<Rightarrow> nat list \<Rightarrow> bool" where
  "fits f v vs \<longleftrightarrow> vm_start (f v) < vm_end (f v) \<and> (\<forall>w\<in>set vs. vm_end (f w) \<le> vm_start (f v) \<or> vm_end (f v) \<le> vm_start (f w))"

definition lower :: "(nat \<Rightarrow> vma_struct) \<Rightarrow> nat \<Rightarrow> nat list \<Rightarrow> nat list" where
  "lower f v vs = takeWhile (\<lambda>w. \<not> vm_start (f w) > vm_start (f v)) vs"

definition upper :: "(nat \<Rightarrow> vma_struct) \<Rightarrow> nat \<Rightarrow> nat list \<Rightarrow> nat list" where
  "upper f v vs = dropWhile (\<lambda>w. \<not> vm_start (f w) > vm_start (f v)) vs"

lemma lower_upper [simp]: "lower f v vs @ upper f v vs = vs"
  by (simp add: lower_def upper_def)

lemma set_lower_upper: "set (lower f v vs) \<union> set (upper f v vs) = set vs"
  using lower_upper [of f v vs] by (metis set_append)

lemma lower_start: "w \<in> set (lower f v vs) \<Longrightarrow> vm_start (f w) \<le> vm_start (f v)"
  unfolding lower_def by (auto dest: set_takeWhileD)

lemma upper_start:
  assumes "areas_ok f vs" "w \<in> set (upper f v vs)"
  shows "vm_start (f v) < vm_start (f w)"
proof -
  obtain n ns where u: "upper f v vs = n # ns" using assms(2) by (cases "upper f v vs") auto
  then have n: "vm_start (f v) < vm_start (f n)" unfolding upper_def by (auto simp: dropWhile_eq_Cons_conv)
  have "areas_ok f (n # ns)" using assms(1) areas_ok_append [of f "lower f v vs" "n # ns"] lower_upper [of f v vs] u by simp
  then have "w = n \<or> vm_end (f n) \<le> vm_start (f w)" "vm_start (f n) < vm_end (f n)" using assms(2) u by (auto simp: areas_ok_Cons)
  then show ?thesis using n by auto
qed

lemma placed_sides:
  assumes "areas_ok f vs" "fits f v vs"
  shows "w \<in> set (lower f v vs) \<Longrightarrow> vm_end (f w) \<le> vm_start (f v)" "w \<in> set (upper f v vs) \<Longrightarrow> vm_end (f v) \<le> vm_start (f w)"
proof -
  have ne: "vm_start (f w) < vm_end (f w)" if "w \<in> set vs" for w using assms(1) that by (simp add: areas_ok_def)
  note f = assms(2) [unfolded fits_def]
  show "vm_end (f w) \<le> vm_start (f v)" if "w \<in> set (lower f v vs)"
    using lower_start [OF that] f that set_lower_upper [of f v vs] by fastforce
  show "vm_end (f v) \<le> vm_start (f w)" if w: "w \<in> set (upper f v vs)"
  proof -
    have "w \<in> set vs" using w set_lower_upper [of f v vs] by blast
    then show ?thesis using upper_start [OF assms(1) w] f ne [of w] by fastforce
  qed
qed

lemma placed_ok:
  assumes "areas_ok f vs" "fits f v vs"
  shows "areas_ok f (lower f v vs @ v # upper f v vs)"
  using assms(1) areas_ok_append [of f "lower f v vs" "upper f v vs"] placed_sides [OF assms] assms(2)
  by (auto simp: areas_ok_append areas_ok_Cons fits_def)

lemma vma_compare_pos: "vma_compare st a b > 0 \<longleftrightarrow> vm_start (vmas st a) > vm_start (vmas st b)"
  by (auto simp: vma_compare_def Let_def)

lemma areas_compare:
  assumes "areas_ok (vmas st) vs"
  shows "sorted_wrt (\<lambda>a b. vma_compare st a v > 0 \<longrightarrow> vma_compare st b v > 0) vs" "sorted_wrt (\<lambda>a b. \<not> vma_compare st a b > 0) vs"
proof -
  have le: "sorted_wrt (\<lambda>a b. vm_start (vmas st a) \<le> vm_start (vmas st b)) vs"
    using assms unfolding areas_ok_def by (auto intro!: sorted_wrt_mono_rel [of vs "\<lambda>v w. vm_end (vmas st v) \<le> vm_start (vmas st w)"] dest: less_imp_le order_trans)
  show "sorted_wrt (\<lambda>a b. vma_compare st a v > 0 \<longrightarrow> vma_compare st b v > 0) vs" "sorted_wrt (\<lambda>a b. \<not> vma_compare st a b > 0) vs"
    unfolding vma_compare_pos by (rule sorted_wrt_mono_rel [OF _ le]; force)+
qed

lemma last_link_opt: "last_link us = last_opt us"
  by (simp add: last_link_def last_opt_def)

text \<open>The place of a new area, with the node in the tree.\<close>

lemma find_place:
  assumes ok: "mm_ok st mm" and v: "v \<notin> mm_objs st mm"
  defines "vs \<equiv> mmap_list (mms st mm)"
  shows "\<exists>h. (case mmap_tree (mms st mm) of
         Some (_, tr) \<Rightarrow> insert_vma_rb tr v True st
       | None \<Rightarrow> Some (last_link (takeWhile (\<lambda>w. \<not> vm_start (vmas st w) > vm_start (vmas st v)) vs), st))
      = Some (last_link (lower (vmas st) v vs), st\<lparr>rbs := h\<rparr>)
    \<and> (case mmap_tree (mms st mm) of None \<Rightarrow> True | Some (_, tr) \<Rightarrow> rb_repr tr h (lower (vmas st) v vs @ v # upper (vmas st) v vs))
    \<and> same_outside (insert v (mm_objs st mm)) (rbs st) h"
proof (cases "mmap_tree (mms st mm)")
  case None
  then show ?thesis by (intro exI [of _ "rbs st"]) (simp add: lower_def same_outside_def)
next
  case (Some x)
  obtain t tr where x: "x = (t, tr)" by fastforce
  have rep: "rb_repr tr (rbs st) vs" and ar: "areas_ok (vmas st) vs" using ok Some x by (simp_all add: mm_ok_def tree_ok_def vs_def)
  have nv: "v \<notin> set vs" "v \<noteq> nil tr \<and> v \<noteq> root tr" using v Some x by (auto simp: mm_objs_def tree_objs_def vs_def)
  obtain h where h: "rb_insert (vma_compare st) tr v (rbs st) = Some h" "rb_repr tr h (lower (vmas st) v vs @ v # upper (vmas st) v vs)"
    and so: "same_outside (insert (nil tr) (insert (root tr) (set (v # vs)))) (rbs st) h"
    using rbs.ins_law [where cmp = "vma_compare st", OF rep nv areas_compare(1) [OF ar, of v]] unfolding vma_compare_pos lower_def upper_def by blast
  have "rb_node_prev tr v h = Some (last_link (lower (vmas st) v vs))" using rbs.prev_law [OF h(2)] by (simp add: last_link_opt)
  then have "insert_vma_rb tr v True st = Some (last_link (lower (vmas st) v vs), st\<lparr>rbs := h\<rparr>)" using h(1) by (simp add: insert_vma_rb_def)
  moreover have "same_outside (insert v (mm_objs st mm)) (rbs st) h"
    by (rule same_outside_mono [OF so]) (use Some x in \<open>auto simp: mm_objs_def tree_objs_def vs_def\<close>)
  ultimately show ?thesis using h(2) Some x by auto
qed

lemma insert_vmas_rb_eq: "insert_vmas_rb tr vs st = map_option (\<lambda>h. st\<lparr>rbs := h\<rparr>) (rbs.ins_all tr (vma_compare st) vs (rbs st))"
proof (induction vs arbitrary: st)
  case (Cons v vs)
  have "vma_compare (st\<lparr>rbs := h\<rparr>) = vma_compare st" for h by (intro ext) (simp add: vma_compare_def)
  then show ?case using Cons by (cases "rb_insert (vma_compare st) tr v (rbs st)") (simp_all add: insert_vma_rb_def)
qed simp

text \<open>Building the tree of a list of areas.\<close>

lemma rb_tree_create_cases:
  assumes "distinct (objs st)"
  obtains (fail) "rb_tree_create st = (None, st)"
  | (new) t n r os where "objs st = t # n # r # os"
      "rb_tree_create st = (Some (t, \<lparr>nil = n, root = r\<rparr>), st\<lparr>objs := os, rbs := snd (rb_tree_init n r (rbs st))\<rparr>)"
proof (cases "3 \<le> length (objs st)")
  case True
  then obtain t n r os where "objs st = t # n # r # os" by (metis Suc_le_length_iff numeral_3_eq_3)
  then show ?thesis by (intro new) (simp_all add: rb_tree_create_def kmalloc_def rb_tree_init_def)
next
  case False
  then consider "objs st = []" | a where "objs st = [a]" | a b where "objs st = [a, b]"
    by (cases "objs st"; cases "tl (objs st)"; cases "tl (tl (objs st))") auto
  then show ?thesis by cases (rule fail, simp add: rb_tree_create_def kmalloc_def kfree_def)+
qed

lemma rb_init_repr: "n \<noteq> r \<Longrightarrow> rb_repr \<lparr>nil = n, root = r\<rparr> (snd (rb_tree_init n r h)) []"
  unfolding rb_repr_def rbt_iff rb_ok_def by (intro exI [of _ Leaf]) (auto simp: rb_tree_init_def)

text \<open>An area goes into an address space that has room for it.\<close>

definition linked :: "nat \<Rightarrow> nat \<Rightarrow> vmm \<Rightarrow> vmm" where
  "linked mm v st = upd_mm mm (\<lambda>m. m\<lparr>mmap_list := lower (vmas st) v (mmap_list (mms st mm)) @ v # upper (vmas st) v (mmap_list (mms st mm)),
     map_count := map_count m + 1\<rparr>) (upd_vma v (vm_mm_update (\<lambda>_. mm)) st)"

lemma fits_checks:
  assumes "areas_ok f vs" "fits f v vs"
  shows "(case last_link (lower f v vs) of None \<Rightarrow> Some () | Some p \<Rightarrow> check_vma_overlap (f p) (f v)) = Some ()"
    "(case upper f v vs of [] \<Rightarrow> Some () | n # _ \<Rightarrow> check_vma_overlap (f v) (f n)) = Some ()"
proof -
  note sides = placed_sides [OF assms] and ne = assms(1) [unfolded areas_ok_def, THEN conjunct2]
  have "last (lower f v vs) \<in> set (lower f v vs)" if "lower f v vs \<noteq> []" using that by simp
  then show "(case last_link (lower f v vs) of None \<Rightarrow> Some () | Some p \<Rightarrow> check_vma_overlap (f p) (f v)) = Some ()"
    using sides(1) ne assms(2) set_lower_upper [of f v vs] by (auto simp: last_link_def check_vma_overlap_def kassert_def fits_def)
  have "n \<in> set vs" if "upper f v vs = n # ns" for n ns using that set_lower_upper [of f v vs] by auto
  then show "(case upper f v vs of [] \<Rightarrow> Some () | n # _ \<Rightarrow> check_vma_overlap (f v) (f n)) = Some ()"
    using sides(2) ne assms(2) by (auto simp: check_vma_overlap_def kassert_def fits_def split: list.split)
qed

lemma insert_linked:
  assumes ok: "mm_ok st mm" and v: "v \<notin> mm_objs st mm" and fit: "fits (vmas st) v (mmap_list (mms st mm))"
  shows "\<exists>h. insert_vma_struct mm v st =
      (let st = linked mm v (st\<lparr>rbs := h\<rparr>) in
       if mmap_tree (mms st mm) = None \<and> map_count (mms st mm) \<ge> RB_MIN_MAP_COUNT then
         (case rb_tree_create st of
            (t, st) \<Rightarrow>
              let st = upd_mm mm (mmap_tree_update (\<lambda>_. t)) st in
              (case t of None \<Rightarrow> Some st | Some (_, tr) \<Rightarrow> insert_vmas_rb tr (mmap_list (mms st mm)) st))
       else Some st)
    \<and> (case mmap_tree (mms st mm) of None \<Rightarrow> True
       | Some (_, tr) \<Rightarrow> rb_repr tr h (lower (vmas st) v (mmap_list (mms st mm)) @ v # upper (vmas st) v (mmap_list (mms st mm))))
    \<and> same_outside (insert v (mm_objs st mm)) (rbs st) h"
proof -
  let ?vs = "mmap_list (mms st mm)" and ?f = "vmas st"
  have ar: "areas_ok ?f ?vs" using ok by (simp add: mm_ok_def)
  have di: "distinct (lower ?f v ?vs @ upper ?f v ?vs)" using areas_ok_distinct [OF ar] by simp
  have ls: "before_link (last_link (lower ?f v ?vs)) ?vs = lower ?f v ?vs" "after_link (last_link (lower ?f v ?vs)) ?vs = upper ?f v ?vs"
    using link_split [OF di] by simp_all
  note ch = fits_checks [OF ar fit]
  have k: "kassert (vm_start (?f v) < vm_end (?f v)) = Some ()" using fit by (simp add: fits_def kassert_def)
  obtain h where h: "(case mmap_tree (mms st mm) of
         Some (_, tr) \<Rightarrow> insert_vma_rb tr v True st
       | None \<Rightarrow> Some (last_link (takeWhile (\<lambda>w. \<not> vm_start (?f w) > vm_start (?f v)) ?vs), st))
      = Some (last_link (lower ?f v ?vs), st\<lparr>rbs := h\<rparr>)"
    "case mmap_tree (mms st mm) of None \<Rightarrow> True | Some (_, tr) \<Rightarrow> rb_repr tr h (lower ?f v ?vs @ v # upper ?f v ?vs)"
    "same_outside (insert v (mm_objs st mm)) (rbs st) h"
    using find_place [OF ok v] by blast
  have s: "mms (st\<lparr>rbs := h\<rparr>) = mms st" "vmas (st\<lparr>rbs := h\<rparr>) = vmas st" by simp_all
  have "insert_vma_struct mm v st =
      (let st = linked mm v (st\<lparr>rbs := h\<rparr>) in
       if mmap_tree (mms st mm) = None \<and> map_count (mms st mm) \<ge> RB_MIN_MAP_COUNT then
         (case rb_tree_create st of
            (t, st) \<Rightarrow>
              let st = upd_mm mm (mmap_tree_update (\<lambda>_. t)) st in
              (case t of None \<Rightarrow> Some st | Some (_, tr) \<Rightarrow> insert_vmas_rb tr (mmap_list (mms st mm)) st))
       else Some st)"
    unfolding insert_vma_struct_def k h(1) Option.bind.simps option.case prod.case Let_def s ls ch
    by (simp add: linked_def)
  with h(2,3) show ?thesis by blast
qed

lemma linked_simps [simp]:
  "vmas (linked mm v st) = (vmas st)(v := (vmas st v)\<lparr>vm_mm := mm\<rparr>)" "rbs (linked mm v st) = rbs st" "mach (linked mm v st) = mach st"
  "objs (linked mm v st) = objs st" "shmns (linked mm v st) = shmns st" "shmems (linked mm v st) = shmems st"
  "m \<noteq> mm \<Longrightarrow> mms (linked mm v st) m = mms st m"
  "mmap_list (mms (linked mm v st) mm) = lower (vmas st) v (mmap_list (mms st mm)) @ v # upper (vmas st) v (mmap_list (mms st mm))"
  "mmap_tree (mms (linked mm v st) mm) = mmap_tree (mms st mm)" "mmap_cache (mms (linked mm v st) mm) = mmap_cache (mms st mm)"
  "map_count (mms (linked mm v st) mm) = map_count (mms st mm) + 1" "pgdir (mms (linked mm v st) mm) = pgdir (mms st mm)"
  by (simp_all add: linked_def upd_mm_def upd_vma_def)

lemma set_placed: "set (lower f v vs @ v # upper f v vs) = insert v (set vs)"
  using set_lower_upper [of f v vs] by auto

lemma linked_ok:
  assumes ok: "mm_ok st mm" and v: "v \<notin> mm_objs st mm \<union> set (objs st)" and fit: "fits (vmas st) v (mmap_list (mms st mm))"
    and h: "case mmap_tree (mms st mm) of None \<Rightarrow> True
       | Some (_, tr) \<Rightarrow> rb_repr tr h (lower (vmas st) v (mmap_list (mms st mm)) @ v # upper (vmas st) v (mmap_list (mms st mm)))"
  shows "mm_ok (linked mm v (st\<lparr>rbs := h\<rparr>)) mm"
proof -
  let ?vs = "mmap_list (mms st mm)" and ?f = "vmas st" and ?st = "linked mm v (st\<lparr>rbs := h\<rparr>)"
  let ?vs' = "lower ?f v ?vs @ v # upper ?f v ?vs"
  have ar: "areas_ok ?f ?vs" using ok by (simp add: mm_ok_def)
  have l: "mmap_list (mms ?st mm) = ?vs'" "mmap_tree (mms ?st mm) = mmap_tree (mms st mm)" by simp_all
  have nv: "v \<notin> set ?vs" "v \<noteq> mm" using v by (auto simp: mm_objs_def)
  have "areas_ok (vmas ?st) ?vs'" using placed_ok [OF ar fit] areas_ok_cong [of ?vs' "vmas ?st" ?f] by simp
  moreover have "tree_ok (rbs ?st) (mms ?st mm)"
  proof (cases "mmap_tree (mms st mm)")
    case (Some x)
    obtain t tr where x: "x = (t, tr)" by fastforce
    have "t \<notin> set ?vs" "t \<noteq> v" "t \<noteq> nil tr" "t \<noteq> root tr" using ok v Some x by (auto simp: mm_ok_def tree_ok_def mm_objs_def tree_objs_def)
    then show ?thesis using h Some x set_placed [of ?f v ?vs] by (simp add: tree_ok_def l)
  qed (simp add: tree_ok_def l)
  moreover have "\<forall>w\<in>set ?vs'. vm_mm (vmas ?st w) = mm" using ok unfolding set_placed by (auto simp: mm_ok_def)
  moreover have "int (length ?vs') = int (length ?vs) + 1" using lower_upper [of ?f v ?vs] by (metis length_append length_Cons add_Suc_right of_nat_Suc add.commute)
  moreover have "mm_objs ?st mm = insert v (mm_objs st mm)" unfolding mm_objs_def tree_objs_def l set_placed by auto
  moreover have "tree_objs (mms ?st mm) = tree_objs (mms st mm)" by (simp add: tree_objs_def l)
  ultimately show ?thesis using ok nv v set_placed [of ?f v ?vs] unfolding mm_ok_def l by auto
qed

definition same_env :: "vmm \<Rightarrow> vmm \<Rightarrow> bool" where
  "same_env st st' \<longleftrightarrow> mach st' = mach st \<and> shmns st' = shmns st \<and> shmems st' = shmems st"

text \<open>\<^verbatim>\<open>insert_vma_struct\<close> builds the tree when the 32nd area arrives and memory allows it.\<close>

lemma build_tree:
  assumes ok: "mm_ok st mm" and none: "mmap_tree (mms st mm) = None" and obj: "objs st = t # n # r # os"
    and tr: "tr = \<lparr>nil = n, root = r\<rparr>"
    and st1: "st1 = upd_mm mm (mmap_tree_update (\<lambda>_. Some (t, tr))) (st\<lparr>objs := os, rbs := snd (rb_tree_init n r (rbs st))\<rparr>)"
  shows "\<exists>h. insert_vmas_rb tr (mmap_list (mms st1 mm)) st1 = Some (st1\<lparr>rbs := h\<rparr>) \<and> mm_ok (st1\<lparr>rbs := h\<rparr>) mm
    \<and> same_outside (mm_objs st mm \<union> set (objs st)) (rbs st) h"
proof -
  let ?vs = "mmap_list (mms st mm)"
  have ar: "areas_ok (vmas st) ?vs" using ok by (simp add: mm_ok_def)
  have di: "distinct (objs st)" "mm_objs st mm \<inter> set (objs st) = {}" using ok by (simp_all add: mm_ok_def)
  have d3: "t \<noteq> n" "t \<noteq> r" "n \<noteq> r" "t \<notin> set ?vs" "n \<notin> set ?vs" "r \<notin> set ?vs" "mm \<notin> {t, n, r}" "{t, n, r} \<inter> set os = {}"
    using di obj by (auto simp: mm_objs_def)
  have s1: "mmap_list (mms st1 mm) = ?vs" "vmas st1 = vmas st" "rbs st1 = snd (rb_tree_init n r (rbs st))" "objs st1 = os"
    "mmap_tree (mms st1 mm) = Some (t, tr)" "mmap_cache (mms st1 mm) = mmap_cache (mms st mm)" "map_count (mms st1 mm) = map_count (mms st mm)"
    by (simp_all add: st1 upd_mm_def)
  have "vma_compare st1 = vma_compare st" by (intro ext) (simp add: vma_compare_def s1)
  moreover have "\<forall>z\<in>set ?vs. z \<noteq> nil tr \<and> z \<noteq> root tr" using d3 by (auto simp: tr)
  ultimately obtain h where h: "rbs.ins_all tr (vma_compare st1) ?vs (rbs st1) = Some h" "rb_repr tr h ?vs"
    and so: "same_outside (insert (nil tr) (insert (root tr) (set ?vs))) (rbs st1) h"
    using rbs.ins_all_ok [of tr "rbs st1" "[]" ?vs "vma_compare st1"] rb_init_repr [OF d3(3)] areas_ok_distinct [OF ar] areas_compare(2) [OF ar]
    by (auto simp: s1 tr)
  have "insert_vmas_rb tr (mmap_list (mms st1 mm)) st1 = Some (st1\<lparr>rbs := h\<rparr>)" using h(1) by (simp add: insert_vmas_rb_eq s1(1))
  moreover have "tree_objs (mms st1 mm) = {t, n, r}" by (simp add: tree_objs_def s1 tr)
  then have "mm_ok (st1\<lparr>rbs := h\<rparr>) mm"
    using ok h(2) d3 obj by (auto simp: mm_ok_def tree_ok_def s1 mm_objs_def tr)
  moreover have "same_outside (mm_objs st mm \<union> set (objs st)) (rbs st) (rbs st1)" using obj by (auto simp: s1 same_outside_def rb_tree_init_def)
  moreover have "same_outside (mm_objs st mm \<union> set (objs st)) (rbs st1) h"
    by (rule same_outside_mono [OF so]) (use obj in \<open>auto simp: tr mm_objs_def\<close>)
  ultimately show ?thesis using same_outside_trans by blast
qed

lemma insert_vma_struct_ok:
  assumes ok: "mm_ok st mm" and v: "v \<notin> mm_objs st mm \<union> set (objs st)" and fit: "fits (vmas st) v (mmap_list (mms st mm))"
  shows "\<exists>st'. insert_vma_struct mm v st = Some st' \<and> mm_ok st' mm
    \<and> mmap_list (mms st' mm) = lower (vmas st) v (mmap_list (mms st mm)) @ v # upper (vmas st) v (mmap_list (mms st mm))
    \<and> vmas st' = (vmas st)(v := (vmas st v)\<lparr>vm_mm := mm\<rparr>) \<and> mmap_cache (mms st' mm) = mmap_cache (mms st mm) \<and> same_env st st'
    \<and> set (objs st') \<subseteq> set (objs st) \<and> mm_objs st' mm \<subseteq> insert v (mm_objs st mm \<union> set (objs st))
    \<and> only_mm mm (insert v (mm_objs st mm \<union> set (objs st))) st st'"
proof -
  let ?vs = "mmap_list (mms st mm)" and ?f = "vmas st" and ?S = "insert v (mm_objs st mm \<union> set (objs st))"
  obtain h where h: "insert_vma_struct mm v st =
      (let st = linked mm v (st\<lparr>rbs := h\<rparr>) in
       if mmap_tree (mms st mm) = None \<and> map_count (mms st mm) \<ge> RB_MIN_MAP_COUNT then
         (case rb_tree_create st of
            (t, st) \<Rightarrow>
              let st = upd_mm mm (mmap_tree_update (\<lambda>_. t)) st in
              (case t of None \<Rightarrow> Some st | Some (_, tr) \<Rightarrow> insert_vmas_rb tr (mmap_list (mms st mm)) st))
       else Some st)"
    "case mmap_tree (mms st mm) of None \<Rightarrow> True | Some (_, tr) \<Rightarrow> rb_repr tr h (lower ?f v ?vs @ v # upper ?f v ?vs)"
    "same_outside (insert v (mm_objs st mm)) (rbs st) h"
    using insert_linked [OF ok _ fit] v by blast
  define st0 where "st0 = linked mm v (st\<lparr>rbs := h\<rparr>)"
  have ok0: "mm_ok st0 mm" unfolding st0_def by (rule linked_ok [OF ok v fit h(2)])
  have o0: "mm_objs st0 mm = insert v (mm_objs st mm)" unfolding mm_objs_def tree_objs_def st0_def by (auto simp: set_placed [simplified])
  have only0: "only_mm mm ?S st st0" using same_outside_mono [OF h(3), of ?S] by (auto simp: only_mm_def st0_def)
  have simps0: "mmap_list (mms st0 mm) = lower ?f v ?vs @ v # upper ?f v ?vs" "vmas st0 = ?f(v := (?f v)\<lparr>vm_mm := mm\<rparr>)"
    "mmap_cache (mms st0 mm) = mmap_cache (mms st mm)" "same_env st st0" "objs st0 = objs st"
    by (simp_all add: st0_def same_env_def)
  have keep: ?thesis if "insert_vma_struct mm v st = Some st0" using that ok0 o0 only0 simps0 by auto
  show ?thesis
  proof (cases "mmap_tree (mms st0 mm) = None \<and> map_count (mms st0 mm) \<ge> RB_MIN_MAP_COUNT")
    case False
    then have "insert_vma_struct mm v st = Some st0" unfolding h(1) st0_def [symmetric] Let_def by (rule if_not_P)
    then show ?thesis by (rule keep)
  next
    case True
    have di: "distinct (objs st0)" using ok0 by (simp add: mm_ok_def)
    consider (fail) "rb_tree_create st0 = (None, st0)"
      | (new) t n r os where "objs st0 = t # n # r # os"
        "rb_tree_create st0 = (Some (t, \<lparr>nil = n, root = r\<rparr>), st0\<lparr>objs := os, rbs := snd (rb_tree_init n r (rbs st0))\<rparr>)"
      using rb_tree_create_cases [OF di] by blast
    then show ?thesis
    proof cases
      case fail
      have "(mms st0 mm)\<lparr>mmap_tree := None\<rparr> = mms st0 mm" using True by (cases "mms st0 mm") simp
      then have "upd_mm mm (mmap_tree_update (\<lambda>_. None)) st0 = st0" by (simp add: upd_mm_def)
      then have "insert_vma_struct mm v st = Some st0" unfolding h(1) st0_def [symmetric] Let_def using True fail by simp
      then show ?thesis by (rule keep)
    next
      case (new t n r os)
      define tr where "tr = \<lparr>nil = n, root = r\<rparr>"
      define st1 where "st1 = upd_mm mm (mmap_tree_update (\<lambda>_. Some (t, tr))) (st0\<lparr>objs := os, rbs := snd (rb_tree_init n r (rbs st0))\<rparr>)"
      obtain h' where b: "insert_vmas_rb tr (mmap_list (mms st1 mm)) st1 = Some (st1\<lparr>rbs := h'\<rparr>)" "mm_ok (st1\<lparr>rbs := h'\<rparr>) mm"
        "same_outside (mm_objs st0 mm \<union> set (objs st0)) (rbs st0) h'"
        using build_tree [OF ok0 conjunct1 [OF True] new(1) tr_def st1_def] by (elim exE conjE)
      have "insert_vma_struct mm v st = Some (st1\<lparr>rbs := h'\<rparr>)"
        unfolding h(1) st0_def [symmetric] Let_def using True new(2) b(1) by (simp add: tr_def [symmetric] st1_def)
      moreover have "mm_objs (st1\<lparr>rbs := h'\<rparr>) mm \<subseteq> ?S"
        using o0 new(1) unfolding mm_objs_def tree_objs_def by (auto simp: st1_def upd_mm_def tr_def simps0(5))
      moreover have "only_mm mm ?S st0 (st1\<lparr>rbs := h'\<rparr>)"
        using same_outside_mono [OF b(3), of ?S] o0 simps0(5) by (auto simp: only_mm_def st1_def upd_mm_def)
      then have "only_mm mm ?S st (st1\<lparr>rbs := h'\<rparr>)" by (rule only_mm_trans [OF only0])
      moreover have "set os \<subseteq> set (objs st)" using new(1) simps0(5) by auto
      ultimately show ?thesis using b(2) simps0 by (intro exI [of _ "st1\<lparr>rbs := h'\<rparr>"]) (simp add: st1_def upd_mm_def same_env_def)
    qed
  qed
qed

section \<open>The abstract address space\<close>

text \<open>The flags of the area that holds an address.\<close>

definition flags_at :: "vmm \<Rightarrow> nat \<Rightarrow> u32 \<Rightarrow> u32 option" where
  "flags_at st mm a = map_option (\<lambda>v. vm_flags (vmas st v))
     (find (\<lambda>v. vm_start (vmas st v) \<le> a \<and> a < vm_end (vmas st v)) (mmap_list (mms st mm)))"

text \<open>The areas of a user address space are page-aligned parts of the user range.\<close>

definition space_ok :: "vmm \<Rightarrow> nat \<Rightarrow> bool" where
  "space_ok st mm \<longleftrightarrow> mm_ok st mm \<and> (\<forall>v\<in>set (mmap_list (mms st mm)). USER_ACCESS (vm_start (vmas st v)) (vm_end (vmas st v))
     \<and> vm_start (vmas st v) mod PGSIZE = 0 \<and> vm_end (vmas st v) mod PGSIZE = 0)"

lemma flags_at_iff:
  assumes "areas_ok (vmas st) (mmap_list (mms st mm))"
  shows "flags_at st mm a = Some fl \<longleftrightarrow>
    (\<exists>v\<in>set (mmap_list (mms st mm)). vm_start (vmas st v) \<le> a \<and> a < vm_end (vmas st v) \<and> vm_flags (vmas st v) = fl)"
proof -
  let ?f = "vmas st" and ?vs = "mmap_list (mms st mm)"
  let ?P = "\<lambda>v. vm_start (?f v) \<le> a \<and> a < vm_end (?f v)"
  have uniq: "v = w" if "v \<in> set ?vs" "w \<in> set ?vs" "?P v" "?P w" for v w
    using first_above_hit [OF assms that(1), of a] first_above_hit [OF assms that(2), of a] that(3,4) by simp
  show ?thesis
  proof (cases "find ?P ?vs")
    case None
    then have "flags_at st mm a = None" by (simp add: flags_at_def)
    moreover have "\<not> (\<exists>v. v \<in> set ?vs \<and> ?P v)" using None unfolding find_None_iff .
    ultimately show ?thesis by auto
  next
    case (Some v)
    then have "v \<in> set ?vs" "?P v" by (auto simp: find_Some_iff)
    then show ?thesis using Some uniq by (auto simp: flags_at_def)
  qed
qed

lemma flags_at_none: "flags_at st mm a = None \<longleftrightarrow> (\<forall>v\<in>set (mmap_list (mms st mm)). \<not> (vm_start (vmas st v) \<le> a \<and> a < vm_end (vmas st v)))"
  by (auto simp: flags_at_def find_None_iff)

lemma flags_at_eqI:
  assumes "areas_ok (vmas st') (mmap_list (mms st' mm))" "\<And>fl. g = Some fl \<longleftrightarrow>
    (\<exists>v\<in>set (mmap_list (mms st' mm)). vm_start (vmas st' v) \<le> a \<and> a < vm_end (vmas st' v) \<and> vm_flags (vmas st' v) = fl)"
  shows "flags_at st' mm a = g"
  using flags_at_iff [OF assms(1), of a] assms(2) by (metis option.exhaust)

lemma flags_at_cached [simp]: "flags_at (cached mm r st) m = flags_at st m"
  by (rule ext) (simp add: flags_at_def)

lemma first_above_in: "first_above f a vs = Some v \<Longrightarrow> v \<in> set vs"
  by (auto simp: first_above_def find_Some_iff)

text \<open>A range is free when the first area above its start begins behind it.\<close>

lemma range_free:
  assumes ar: "areas_ok (vmas st) (mmap_list (mms st mm))" and "lo < hi"
  shows "(case first_above (vmas st) lo (mmap_list (mms st mm)) of None \<Rightarrow> True | Some v \<Rightarrow> hi \<le> vm_start (vmas st v))
    \<longleftrightarrow> (\<forall>a. lo \<le> a \<and> a < hi \<longrightarrow> flags_at st mm a = None)" (is "?L \<longleftrightarrow> ?R")
    and "(case first_above (vmas st) lo (mmap_list (mms st mm)) of None \<Rightarrow> True | Some v \<Rightarrow> hi \<le> vm_start (vmas st v))
    \<longleftrightarrow> (\<forall>w\<in>set (mmap_list (mms st mm)). vm_end (vmas st w) \<le> lo \<or> hi \<le> vm_start (vmas st w))" (is "_ \<longleftrightarrow> ?M")
proof -
  let ?f = "vmas st" and ?vs = "mmap_list (mms st mm)"
  have ne: "vm_start (?f v) < vm_end (?f v)" if "v \<in> set ?vs" for v using ar that by (simp add: areas_ok_def)
  have LM: "?L \<Longrightarrow> ?M"
  proof (cases "first_above ?f lo ?vs")
    case None
    then show ?thesis by (simp add: first_above_none)
  next
    case (Some v)
    assume L: ?L
    obtain us ws where vs: "?vs = us @ v # ws" "\<forall>u\<in>set us. vm_end (?f u) \<le> lo" using first_above_SomeD [OF Some] by blast
    have "areas_ok ?f (v # ws)" using ar vs(1) by (simp add: areas_ok_append)
    then have "\<forall>w\<in>set ws. vm_end (?f v) \<le> vm_start (?f w)" "vm_start (?f v) < vm_end (?f v)" by (auto simp: areas_ok_Cons)
    then show ?M using L Some vs by auto
  qed
  have MR: "?M \<Longrightarrow> ?R" unfolding flags_at_none by force
  have RL: "?R \<Longrightarrow> ?L"
  proof (cases "first_above ?f lo ?vs")
    case (Some v)
    assume R: ?R
    have v: "v \<in> set ?vs" "lo < vm_end (?f v)" using first_above_SomeD [OF Some] by auto
    have "hi \<le> vm_start (?f v)"
    proof (rule ccontr)
      assume "\<not> hi \<le> vm_start (?f v)"
      then have "lo \<le> max lo (vm_start (?f v))" "max lo (vm_start (?f v)) < hi" "max lo (vm_start (?f v)) < vm_end (?f v)"
        using assms(2) v(2) ne [OF v(1)] by (auto simp: max_def)
      then show False using R v(1) unfolding flags_at_none by (metis max.cobounded2)
    qed
    then show ?L using Some by simp
  qed simp
  show "?L \<longleftrightarrow> ?R" "?L \<longleftrightarrow> ?M" using LM MR RL by blast+
qed

lemma cached_found:
  assumes "mm_ok st mm"
  shows "mm_ok (cached mm (first_above (vmas st) a (mmap_list (mms st mm))) st) mm"
    "only_mm mm S st (cached mm (first_above (vmas st) a (mmap_list (mms st mm))) st)"
  by (rule cached_ok [OF assms]; simp add: first_above_in)+

section \<open>Mapping\<close>

lemma vma_create_cases:
  assumes "mm_ok st mm"
  obtains "objs st = []" "vma_create lo hi fl st = (None, st)"
  | v os st' where "objs st = v # os" "vma_create lo hi fl st = (Some v, st')"
      "st' = upd_vma v (\<lambda>a. a\<lparr>vm_start := lo, vm_end := hi, vm_flags := fl, vm_shmem := None, shmem_off := 0\<rparr>) (st\<lparr>objs := os\<rparr>)"
      "mm_ok st' mm" "v \<notin> mm_objs st mm \<union> set os" "mms st' = mms st" "mm_objs st' mm = mm_objs st mm" "same_env st st'"
      "\<And>w. w \<in> set (mmap_list (mms st mm)) \<Longrightarrow> vmas st' w = vmas st w" "only_mm mm (set (objs st)) st st'"
proof (cases "objs st")
  case Nil
  then show ?thesis using that(1) by (simp add: vma_create_def kmalloc_def)
next
  case (Cons v os)
  let ?st = "upd_vma v (\<lambda>a. a\<lparr>vm_start := lo, vm_end := hi, vm_flags := fl, vm_shmem := None, shmem_off := 0\<rparr>) (st\<lparr>objs := os\<rparr>)"
  have d: "v \<notin> mm_objs st mm" "v \<notin> set os" "distinct os" "mm_objs st mm \<inter> set os = {}" using assms Cons by (auto simp: mm_ok_def)
  have v: "vmas ?st w = vmas st w" if "w \<in> set (mmap_list (mms st mm))" for w using that d(1) by (auto simp: upd_vma_def mm_objs_def)
  have "areas_ok (vmas ?st) (mmap_list (mms st mm))" using assms areas_ok_cong [of "mmap_list (mms st mm)" "vmas ?st" "vmas st"] v by (simp add: mm_ok_def)
  moreover have m: "mms ?st = mms st" "rbs ?st = rbs st" "objs ?st = os" by (simp_all add: upd_vma_def)
  moreover have o: "mm_objs ?st mm = mm_objs st mm" by (simp add: mm_objs_def m)
  ultimately have "mm_ok ?st mm" using assms d v unfolding mm_ok_def by (auto simp: m)
  moreover have "only_mm mm (set (objs st)) st ?st" using Cons by (auto simp: only_mm_def same_outside_def upd_vma_def)
  ultimately show ?thesis using that(2) [OF Cons _ refl] d v m o by (simp add: vma_create_def kmalloc_def Cons same_env_def upd_vma_def)
qed

text \<open>Adding an area adds its range to the abstract address space.\<close>

lemma flags_at_insert:
  assumes "areas_ok (vmas st') (mmap_list (mms st' mm))" "set (mmap_list (mms st' mm)) = insert v (set (mmap_list (mms st mm)))"
    and "areas_ok (vmas st) (mmap_list (mms st mm))"
    and "\<And>w. w \<in> set (mmap_list (mms st mm)) \<Longrightarrow> w \<noteq> v \<and> vm_start (vmas st' w) = vm_start (vmas st w) \<and> vm_end (vmas st' w) = vm_end (vmas st w) \<and> vm_flags (vmas st' w) = vm_flags (vmas st w)"
  shows "flags_at st' mm a = (if vm_start (vmas st' v) \<le> a \<and> a < vm_end (vmas st' v) then Some (vm_flags (vmas st' v)) else flags_at st mm a)"
proof (rule flags_at_eqI [OF assms(1)])
  fix fl
  have one: "w = v" if "w \<in> set (mmap_list (mms st' mm))" "vm_start (vmas st' w) \<le> a" "a < vm_end (vmas st' w)" "vm_start (vmas st' v) \<le> a" "a < vm_end (vmas st' v)" for w
    using first_above_hit [OF assms(1) that(1-3)] first_above_hit [OF assms(1) _ that(4,5)] assms(2) by simp
  show "(if vm_start (vmas st' v) \<le> a \<and> a < vm_end (vmas st' v) then Some (vm_flags (vmas st' v)) else flags_at st mm a) = Some fl
    \<longleftrightarrow> (\<exists>v\<in>set (mmap_list (mms st' mm)). vm_start (vmas st' v) \<le> a \<and> a < vm_end (vmas st' v) \<and> vm_flags (vmas st' v) = fl)"
  proof (cases "vm_start (vmas st' v) \<le> a \<and> a < vm_end (vmas st' v)")
    case True
    then show ?thesis using one assms(2) by auto
  next
    case False
    then show ?thesis unfolding assms(2) using flags_at_iff [OF assms(3), of a fl] assms(4) by auto
  qed
qed

lemma ROUND_user:
  assumes "start = ROUNDDOWN addr PGSIZE" "end = ROUNDUP (addr + l) PGSIZE"
  shows "start mod PGSIZE = 0" "end mod PGSIZE = 0"
proof -
  have "ROUNDDOWN a PGSIZE mod PGSIZE = 0" for a
    using ROUNDDOWN_dvd [of PGSIZE a] by (simp add: word_arith_nat_mod)
  then show "start mod PGSIZE = 0" "end mod PGSIZE = 0" using assms by (simp_all add: ROUNDUP_def)
qed

lemma add_area_ok:
  assumes ok: "space_ok st mm" and r: "USER_ACCESS lo hi" "lo mod PGSIZE = 0" "hi mod PGSIZE = 0"
    and no: "\<forall>a. lo \<le> a \<and> a < hi \<longrightarrow> flags_at st mm a = None" and obj: "objs st = v # os"
  shows "\<exists>st1 st2. vma_create lo hi fl st = (Some v, st1) \<and> insert_vma_struct mm v st1 = Some st2 \<and> space_ok st2 mm \<and> same_env st st2
    \<and> only_mm mm (mm_objs st mm \<union> set (objs st)) st st2 \<and> set (objs st2) \<subseteq> set (objs st) \<and> mm_objs st2 mm \<subseteq> mm_objs st mm \<union> set (objs st)
    \<and> v \<in> set (mmap_list (mms st2 mm)) \<and> vmas st2 v = \<lparr>vm_mm = mm, vm_start = lo, vm_end = hi, vm_flags = fl, vm_shmem = None, shmem_off = 0\<rparr>
    \<and> flags_at st2 mm = (\<lambda>a. if lo \<le> a \<and> a < hi then Some fl else flags_at st mm a)"
proof -
  let ?vs = "mmap_list (mms st mm)" and ?f = "vmas st" and ?S = "mm_objs st mm \<union> set (objs st)"
  have mok: "mm_ok st mm" and ar: "areas_ok ?f ?vs" using ok by (simp_all add: space_ok_def mm_ok_def)
  have lh: "lo < hi" using r(1) by (simp add: USER_ACCESS_def)
  have free: "\<forall>w\<in>set ?vs. vm_end (?f w) \<le> lo \<or> hi \<le> vm_start (?f w)" using range_free [OF ar lh] no by blast
  obtain st1 where v: "vma_create lo hi fl st = (Some v, st1)"
    "st1 = upd_vma v (\<lambda>a. a\<lparr>vm_start := lo, vm_end := hi, vm_flags := fl, vm_shmem := None, shmem_off := 0\<rparr>) (st\<lparr>objs := os\<rparr>)"
    "mm_ok st1 mm" "v \<notin> mm_objs st mm \<union> set os" "mms st1 = mms st" "mm_objs st1 mm = mm_objs st mm" "same_env st st1"
    "\<And>w. w \<in> set ?vs \<Longrightarrow> vmas st1 w = vmas st w" "only_mm mm (set (objs st)) st st1"
  proof (rule vma_create_cases [OF mok, where lo = lo and hi = hi and fl = fl])
    fix v' os' st'
    assume a: "objs st = v' # os'" "vma_create lo hi fl st = (Some v', st')"
      "st' = upd_vma v' (\<lambda>a. a\<lparr>vm_start := lo, vm_end := hi, vm_flags := fl, vm_shmem := None, shmem_off := 0\<rparr>) (st\<lparr>objs := os'\<rparr>)"
      "mm_ok st' mm" "v' \<notin> mm_objs st mm \<union> set os'" "mms st' = mms st" "mm_objs st' mm = mm_objs st mm" "same_env st st'"
      "\<And>w. w \<in> set ?vs \<Longrightarrow> vmas st' w = vmas st w" "only_mm mm (set (objs st)) st st'"
    then have "v' = v" "os' = os" using obj by simp_all
    then show ?thesis using that [of st'] a(2-10) by blast
  qed (use obj in simp)
  have v1: "vmas st1 v = (vmas st v)\<lparr>vm_start := lo, vm_end := hi, vm_flags := fl, vm_shmem := None, shmem_off := 0\<rparr>" "objs st1 = os"
    by (simp_all add: v(2) upd_vma_def)
  have l1: "mmap_list (mms st1 mm) = ?vs" using v(5) by simp
  have nv: "v \<notin> set ?vs" using v(4) by (auto simp: mm_objs_def)
  have "fits (vmas st1) v (mmap_list (mms st1 mm))" using free lh unfolding fits_def l1 by (auto simp: v1(1) v(8))
  moreover have "v \<notin> mm_objs st1 mm \<union> set (objs st1)" using v(4, 6) v1(2) by simp
  ultimately obtain st2 where s2: "insert_vma_struct mm v st1 = Some st2" "mm_ok st2 mm"
    "mmap_list (mms st2 mm) = lower (vmas st1) v ?vs @ v # upper (vmas st1) v ?vs" "vmas st2 = (vmas st1)(v := (vmas st1 v)\<lparr>vm_mm := mm\<rparr>)"
    "same_env st1 st2" "set (objs st2) \<subseteq> set (objs st1)" "mm_objs st2 mm \<subseteq> insert v (mm_objs st1 mm \<union> set (objs st1))"
    "only_mm mm (insert v (mm_objs st1 mm \<union> set (objs st1))) st1 st2"
    using insert_vma_struct_ok [OF v(3), of v] l1 by metis
  have set2: "set (mmap_list (mms st2 mm)) = insert v (set ?vs)" unfolding s2(3) by (rule set_placed)
  have w2: "vmas st2 w = vmas st w" if "w \<in> set ?vs" for w using that nv v(8) by (auto simp: s2(4))
  have v2: "vmas st2 v = \<lparr>vm_mm = mm, vm_start = lo, vm_end = hi, vm_flags = fl, vm_shmem = None, shmem_off = 0\<rparr>" by (simp add: s2(4) v1(1))
  have "space_ok st2 mm" using s2(2) ok r unfolding space_ok_def set2 by (auto simp: w2 v2)
  moreover have "flags_at st2 mm a = (if lo \<le> a \<and> a < hi then Some fl else flags_at st mm a)" for a
  proof -
    have ar2: "areas_ok (vmas st2) (mmap_list (mms st2 mm))" using s2(2) by (simp add: mm_ok_def)
    have keep: "w \<noteq> v \<and> vm_start (vmas st2 w) = vm_start (vmas st w) \<and> vm_end (vmas st2 w) = vm_end (vmas st w) \<and> vm_flags (vmas st2 w) = vm_flags (vmas st w)"
      if "w \<in> set ?vs" for w using that nv w2 by auto
    show ?thesis using flags_at_insert [OF ar2 set2 ar keep, of a] unfolding v2 by simp
  qed
  moreover have "only_mm mm ?S st st1" "only_mm mm ?S st1 st2" using only_mm_mono [OF v(9), of ?S] only_mm_mono [OF s2(8), of ?S] v(6) v1(2) obj by auto
  then have "only_mm mm ?S st st2" by (rule only_mm_trans)
  moreover have "same_env st st2" using v(7) s2(5) by (simp add: same_env_def)
  ultimately show ?thesis using v(1, 6) s2(1, 6, 7) v1(2) v2 set2 obj by (intro exI [of _ st1] exI [of _ st2]) auto
qed

lemma mm_map_ok:
  assumes ok: "space_ok st mm" and lo: "lo = ROUNDDOWN addr PGSIZE" and hi: "hi = ROUNDUP (addr + l) PGSIZE"
  shows "\<exists>ret nv st'. mm_map mm addr l fl st = Some (ret, nv, st') \<and> space_ok st' mm \<and> same_env st st'
    \<and> only_mm mm (mm_objs st mm \<union> set (objs st)) st st' \<and> set (objs st') \<subseteq> set (objs st)
    \<and> mm_objs st' mm \<subseteq> mm_objs st mm \<union> set (objs st)
    \<and> (if \<not> USER_ACCESS lo hi \<or> (\<exists>a. lo \<le> a \<and> a < hi \<and> flags_at st mm a \<noteq> None) then ret = - E_INVAL \<and> nv = None \<and> flags_at st' mm = flags_at st mm
       else if objs st = [] then ret = - E_NO_MEM \<and> nv = None \<and> flags_at st' mm = flags_at st mm
       else ret = 0 \<and> nv = Some (hd (objs st)) \<and> hd (objs st) \<in> set (mmap_list (mms st' mm))
         \<and> vmas st' (hd (objs st)) = \<lparr>vm_mm = mm, vm_start = lo, vm_end = hi, vm_flags = fl AND NOT VM_SHARE, vm_shmem = None, shmem_off = 0\<rparr>
         \<and> flags_at st' mm = (\<lambda>a. if lo \<le> a \<and> a < hi then Some (fl AND NOT VM_SHARE) else flags_at st mm a))"
proof (cases "USER_ACCESS lo hi")
  case False
  then show ?thesis using ok lo hi by (intro exI [of _ "- E_INVAL"] exI [of _ None] exI [of _ st]) (auto simp: mm_map_def same_env_def only_mm_refl)
next
  case True
  let ?vs = "mmap_list (mms st mm)" and ?f = "vmas st"
  let ?r = "first_above ?f lo ?vs" let ?c = "cached mm ?r st"
  have mok: "mm_ok st mm" and ar: "areas_ok ?f ?vs" using ok by (simp_all add: space_ok_def mm_ok_def)
  have lh: "lo < hi" using True by (simp add: USER_ACCESS_def)
  note fv = find_vma_ok [OF mok, of lo] and ck = cached_found [OF mok, where a = lo]
  have cok: "space_ok ?c mm" using ck(1) ok by (simp add: space_ok_def)
  have test: "(case ?r of None \<Rightarrow> False | Some v \<Rightarrow> hi > vm_start (?f v)) \<longleftrightarrow> (\<exists>a. lo \<le> a \<and> a < hi \<and> flags_at st mm a \<noteq> None)"
    using range_free(1) [OF ar lh] by (auto split: option.splits)
  have step: "mm_map mm addr l fl st = (if \<exists>a. lo \<le> a \<and> a < hi \<and> flags_at st mm a \<noteq> None then Some (- E_INVAL, None, ?c)
      else case vma_create lo hi (fl AND NOT VM_SHARE) ?c of
         (None, st) \<Rightarrow> Some (- E_NO_MEM, None, st)
       | (Some v, st) \<Rightarrow> do { st \<leftarrow> insert_vma_struct mm v st; Some (0, Some v, st) })"
    unfolding mm_map_def Let_def lo [symmetric] hi [symmetric] fv Option.bind.simps prod.case cached_simps(1) test
    using True by (simp only: not_True_eq_False if_False)
  have oc: "mm_objs ?c mm = mm_objs st mm" by (simp add: mm_objs_def tree_objs_def)
  show ?thesis
  proof (cases "\<exists>a. lo \<le> a \<and> a < hi \<and> flags_at st mm a \<noteq> None")
    case ov: True
    then show ?thesis using step True cok ck(2) oc
      by (intro exI [of _ "- E_INVAL"] exI [of _ None] exI [of _ ?c]) (auto simp: same_env_def)
  next
    case no: False
    have r: "lo mod PGSIZE = 0" "hi mod PGSIZE = 0" using ROUND_user [OF lo hi] by simp_all
    show ?thesis
    proof (cases "objs st")
      case Nil
      then have "vma_create lo hi (fl AND NOT VM_SHARE) ?c = (None, ?c)" by (simp add: vma_create_def kmalloc_def)
      then show ?thesis using step True no cok ck(2) oc Nil
        by (intro exI [of _ "- E_NO_MEM"] exI [of _ None] exI [of _ ?c]) (auto simp: same_env_def)
    next
      case (Cons v os)
      then obtain st1 st2 where s: "vma_create lo hi (fl AND NOT VM_SHARE) ?c = (Some v, st1)" "insert_vma_struct mm v st1 = Some st2"
        "space_ok st2 mm" "same_env ?c st2" "only_mm mm (mm_objs ?c mm \<union> set (objs ?c)) ?c st2" "set (objs st2) \<subseteq> set (objs ?c)"
        "mm_objs st2 mm \<subseteq> mm_objs ?c mm \<union> set (objs ?c)" "v \<in> set (mmap_list (mms st2 mm))"
        "vmas st2 v = \<lparr>vm_mm = mm, vm_start = lo, vm_end = hi, vm_flags = fl AND NOT VM_SHARE, vm_shmem = None, shmem_off = 0\<rparr>"
        "flags_at st2 mm = (\<lambda>a. if lo \<le> a \<and> a < hi then Some (fl AND NOT VM_SHARE) else flags_at ?c mm a)"
        using add_area_ok [OF cok True r, of v os "fl AND NOT VM_SHARE"] no by auto
      have "only_mm mm (mm_objs st mm \<union> set (objs st)) st st2"
        using ck(2) [where S = "mm_objs st mm \<union> set (objs st)"] s(5) oc only_mm_trans by simp
      then show ?thesis
        using step True no s(1-4, 6-10) Cons oc by (intro exI [of _ 0] exI [of _ "Some v"] exI [of _ st2]) (auto simp: same_env_def)
    qed
  qed
qed

section \<open>Free ranges\<close>

definition clear_of :: "u32 \<Rightarrow> u32 \<Rightarrow> (u32 \<times> u32) list \<Rightarrow> bool" where
  "clear_of l c xs \<longleftrightarrow> (\<forall>(lo, hi)\<in>set xs. unat c + unat l \<le> unat lo \<or> hi \<le> c)"

lemma clear_of_simps [simp]:
  "clear_of l c []" "clear_of l c ((lo, hi) # xs) \<longleftrightarrow> (unat c + unat l \<le> unat lo \<or> hi \<le> c) \<and> clear_of l c xs"
  by (auto simp: clear_of_def)

lemma unmapped_area_loop_ok:
  assumes "sorted_wrt (\<lambda>p q. snd q \<le> fst p) xs" "\<forall>(lo, hi)\<in>set xs. USER_ACCESS lo hi" "unat s + unat l \<le> unat (USERTOP :: u32)" "l \<noteq> 0"
  shows "(unmapped_area_loop l xs s = 0 \<longrightarrow> (\<forall>c. USERBASE \<le> c \<and> c \<le> s \<longrightarrow> \<not> clear_of l c xs))
    \<and> (unmapped_area_loop l xs s \<noteq> 0 \<longrightarrow> USERBASE \<le> unmapped_area_loop l xs s \<and> unmapped_area_loop l xs s \<le> s
       \<and> clear_of l (unmapped_area_loop l xs s) xs
       \<and> (\<forall>c. USERBASE \<le> c \<and> unmapped_area_loop l xs s < c \<and> c \<le> s \<longrightarrow> \<not> clear_of l c xs))"
  using assms
proof (induction l xs s rule: unmapped_area_loop.induct)
  case (1 l s)
  then show ?case by (auto split: if_splits)
next
  case (2 l lo hi xs s)
  have so: "sorted_wrt (\<lambda>p q. snd q \<le> fst p) xs" "\<forall>(a, b)\<in>set xs. b \<le> lo" "\<forall>(lo, hi)\<in>set xs. USER_ACCESS lo hi"
    and u: "USERBASE \<le> lo" "lo < hi" "hi \<le> USERTOP" using "2.prems"(1,2) by (auto simp: USER_ACCESS_def)
  have sl: "unat (s + l) = unat s + unat l" using "2.prems"(3) by (intro unat_add_lem [THEN iffD1]) simp
  show ?case
  proof (cases "hi \<le> s")
    case True
    have "clear_of l s xs" using so(2) u True by (auto simp: clear_of_def)
    then show ?thesis using True u by auto
  next
    case ns: False
    show ?thesis
    proof (cases "s + l > lo")
      case True
      then have gt: "unat lo < unat s + unat l" using sl by (simp add: word_less_nat_alt)
      show ?thesis
      proof (cases "l \<ge> lo")
        case ll: True
        have "\<not> clear_of l c ((lo, hi) # xs)" if "USERBASE \<le> c" "c \<le> s" for c
          using that ll ns by (auto simp: word_le_nat_alt word_less_nat_alt)
        then show ?thesis using ns True ll by simp
      next
        case nl: False
        have sub: "unat (lo - l) = unat lo - unat l" using nl by (intro unat_sub) simp
        have le: "unat (lo - l) + unat l \<le> unat (USERTOP :: u32)" using sub nl u by (simp add: word_le_nat_alt word_less_nat_alt)
        have ls: "unat (lo - l) \<le> unat s" using sub gt by simp
        note IH = "2.IH"(1) [OF ns True nl so(1,3) le "2.prems"(4)]
        have eq: "unmapped_area_loop l ((lo, hi) # xs) s = unmapped_area_loop l xs (lo - l)" using ns True nl by simp
        have near: "c \<le> lo - l" if "clear_of l c ((lo, hi) # xs)" "c \<le> s" for c
          using that ns sub nl by (auto simp: word_le_nat_alt word_less_nat_alt)
        have low: "unat c + unat l \<le> unat lo" if "c \<le> lo - l" for c using that sub nl by (simp add: word_le_nat_alt)
        show ?thesis unfolding eq
        proof (intro conjI impI allI)
          fix c
          assume z: "unmapped_area_loop l xs (lo - l) = 0" "USERBASE \<le> c \<and> c \<le> s"
          show "\<not> clear_of l c ((lo, hi) # xs)"
            using near [of c] z IH by auto
        next
          assume z: "unmapped_area_loop l xs (lo - l) \<noteq> 0"
          show "USERBASE \<le> unmapped_area_loop l xs (lo - l)" "unmapped_area_loop l xs (lo - l) \<le> s" "clear_of l (unmapped_area_loop l xs (lo - l)) ((lo, hi) # xs)"
            using z IH low [of "unmapped_area_loop l xs (lo - l)"] ls by (auto simp: word_le_nat_alt)
        next
          fix c
          assume z: "unmapped_area_loop l xs (lo - l) \<noteq> 0" "USERBASE \<le> c \<and> unmapped_area_loop l xs (lo - l) < c \<and> c \<le> s"
          show "\<not> clear_of l c ((lo, hi) # xs)" using near [of c] z IH by auto
        qed
      qed
    next
      case False
      then have le: "unat c + unat l \<le> unat lo" if "c \<le> s" for c using sl that by (simp add: word_le_nat_alt word_less_nat_alt)
      note IH = "2.IH"(2) [OF ns False so(1,3) "2.prems"(3,4)]
      have eq: "unmapped_area_loop l ((lo, hi) # xs) s = unmapped_area_loop l xs s" using ns False by simp
      show ?thesis unfolding eq using IH le by auto
    qed
  qed
qed

lemma clear_of_flags:
  assumes "areas_ok (vmas st) (mmap_list (mms st mm))" "unat c + unat l < 2 ^ 32" "l \<noteq> 0"
  shows "clear_of l c (map (\<lambda>v. (vm_start (vmas st v), vm_end (vmas st v))) (rev (mmap_list (mms st mm))))
    \<longleftrightarrow> (\<forall>a. c \<le> a \<and> a < c + l \<longrightarrow> flags_at st mm a = None)"
proof -
  have cl: "unat (c + l) = unat c + unat l" using assms(2) by (intro unat_add_lem [THEN iffD1]) simp
  have "c < c + l" using assms(3) cl by (simp add: word_less_nat_alt unat_gt_0)
  note free = range_free [OF assms(1) this]
  have "clear_of l c (map (\<lambda>v. (vm_start (vmas st v), vm_end (vmas st v))) (rev (mmap_list (mms st mm))))
    \<longleftrightarrow> (\<forall>w\<in>set (mmap_list (mms st mm)). vm_end (vmas st w) \<le> c \<or> c + l \<le> vm_start (vmas st w))"
    using cl by (auto simp: clear_of_def word_le_nat_alt)
  then show ?thesis using free by simp
qed

lemma get_unmapped_area_ok:
  assumes ok: "space_ok st mm" and l: "l \<noteq> 0" "l \<le> USERTOP"
  shows "(get_unmapped_area mm l st = 0 \<longrightarrow> (\<forall>c. USERBASE \<le> c \<and> unat c + unat l \<le> unat (USERTOP :: u32) \<longrightarrow> (\<exists>a. c \<le> a \<and> a < c + l \<and> flags_at st mm a \<noteq> None)))
    \<and> (get_unmapped_area mm l st \<noteq> 0 \<longrightarrow> USERBASE \<le> get_unmapped_area mm l st \<and> unat (get_unmapped_area mm l st) + unat l \<le> unat (USERTOP :: u32)
       \<and> (\<forall>a. get_unmapped_area mm l st \<le> a \<and> a < get_unmapped_area mm l st + l \<longrightarrow> flags_at st mm a = None)
       \<and> (\<forall>c. get_unmapped_area mm l st < c \<and> unat c + unat l \<le> unat (USERTOP :: u32) \<longrightarrow> (\<exists>a. c \<le> a \<and> a < c + l \<and> flags_at st mm a \<noteq> None)))"
proof -
  let ?vs = "mmap_list (mms st mm)"
  let ?xs = "map (\<lambda>v. (vm_start (vmas st v), vm_end (vmas st v))) (rev ?vs)"
  define r where "r = get_unmapped_area mm l st"
  have r: "r = unmapped_area_loop l ?xs (USERTOP - l)" using l by (auto simp: r_def get_unmapped_area_def)
  have ar: "areas_ok (vmas st) ?vs" using ok by (simp add: space_ok_def mm_ok_def)
  have so: "sorted_wrt (\<lambda>p q. snd q \<le> fst p) ?xs" using ar by (simp add: areas_ok_def sorted_wrt_map sorted_wrt_rev)
  have us: "\<forall>(lo, hi)\<in>set ?xs. USER_ACCESS lo hi" using ok by (auto simp: space_ok_def)
  have top: "unat (USERTOP - l) = unat (USERTOP :: u32) - unat l" using l(2) by (rule unat_sub)
  have sl: "unat (USERTOP - l) + unat l \<le> unat (USERTOP :: u32)" using top l(2) by (simp add: word_le_nat_alt)
  note L = unmapped_area_loop_ok [OF so us sl l(1), folded r]
  have below: "c \<le> USERTOP - l \<longleftrightarrow> unat c + unat l \<le> unat (USERTOP :: u32)" for c using top l(2) by (auto simp: word_le_nat_alt)
  have cf: "clear_of l c ?xs \<longleftrightarrow> (\<forall>a. c \<le> a \<and> a < c + l \<longrightarrow> flags_at st mm a = None)" if "unat c + unat l \<le> unat (USERTOP :: u32)" for c
    using that by (intro clear_of_flags [OF ar _ l(1)]) simp
  show ?thesis unfolding r_def [symmetric]
  proof (intro conjI impI allI)
    fix c
    assume z: "r = 0" "USERBASE \<le> c \<and> unat c + unat l \<le> unat (USERTOP :: u32)"
    then show "\<exists>a. c \<le> a \<and> a < c + l \<and> flags_at st mm a \<noteq> None" using L below [of c] cf [of c] by blast
  next
    assume z: "r \<noteq> 0"
    then have rr: "USERBASE \<le> r" "r \<le> USERTOP - l" "clear_of l r ?xs" using L by auto
    then show "USERBASE \<le> r" "unat r + unat l \<le> unat (USERTOP :: u32)" using below by auto
    then show "\<And>a. r \<le> a \<and> a < r + l \<Longrightarrow> flags_at st mm a = None" using cf [of r] rr(3) by blast
    fix c
    assume "r < c \<and> unat c + unat l \<le> unat (USERTOP :: u32)"
    then show "\<exists>a. c \<le> a \<and> a < c + l \<and> flags_at st mm a \<noteq> None" using L z below [of c] cf [of c] rr(1) by (meson less_imp_le order_trans)
  qed
qed

section \<open>Checking user memory\<close>

text \<open>The kernel may read or write an address of user space: an area allows it, and it is not in the lowest page of a stack to write.\<close>

definition may_access :: "vmm \<Rightarrow> nat \<Rightarrow> bool \<Rightarrow> u32 \<Rightarrow> bool" where
  "may_access st mm write a \<longleftrightarrow> (\<exists>v\<in>set (mmap_list (mms st mm)). vm_start (vmas st v) \<le> a \<and> a < vm_end (vmas st v)
     \<and> vm_flags (vmas st v) AND (if write then VM_WRITE else VM_READ) \<noteq> 0
     \<and> (write \<and> vm_flags (vmas st v) AND VM_STACK \<noteq> 0 \<longrightarrow> vm_start (vmas st v) + PGSIZE \<le> a))"

lemma may_access_cached [simp]: "may_access (cached mm r st) m w a = may_access st m w a"
  by (simp add: may_access_def)

lemma mem_check_loop_ok:
  assumes "space_ok st mm"
  shows "\<exists>st'. mem_check_loop mm lo hi write st = Some (\<forall>a. lo \<le> a \<and> a < hi \<longrightarrow> may_access st mm write a, st')
    \<and> space_ok st' mm \<and> (\<exists>r. st' = st \<or> st' = cached mm r st)"
  using assms
proof (induction "unat hi - unat lo" arbitrary: lo st rule: less_induct)
  case less
  let ?vs = "mmap_list (mms st mm)" and ?f = "vmas st"
  let ?r = "first_above ?f lo ?vs" let ?c = "cached mm ?r st"
  have mok: "mm_ok st mm" and ar: "areas_ok ?f ?vs" using less.prems by (simp_all add: space_ok_def mm_ok_def)
  note fv = find_vma_ok [OF mok, of lo]
  have cok: "space_ok ?c mm" using cached_found(1) [OF mok] less.prems by (simp add: space_ok_def)
  show ?case
  proof (cases "lo < hi")
    case False
    then have "mem_check_loop mm lo hi write st = Some (True, st)" by (subst mem_check_loop.simps) simp
    moreover have "\<forall>a. lo \<le> a \<and> a < hi \<longrightarrow> may_access st mm write a" using False by auto
    ultimately show ?thesis using less.prems by auto
  next
    case True
    have stop: ?thesis if "mem_check_loop mm lo hi write st = Some (False, ?c)" "\<not> may_access st mm write lo"
      using that True cok by auto
    show ?thesis
    proof (cases ?r)
      case None
      then have "mem_check_loop mm lo hi write st = Some (False, ?c)" using True fv by (subst mem_check_loop.simps) simp
      moreover have "\<not> may_access st mm write lo" using None unfolding first_above_none may_access_def by force
      ultimately show ?thesis by (rule stop)
    next
      case (Some v)
      obtain us ws where vs: "?vs = us @ v # ws" "lo < vm_end (?f v)" "\<forall>u\<in>set us. vm_end (?f u) \<le> lo" using first_above_SomeD [OF Some] by blast
      have v: "v \<in> set ?vs" using vs(1) by simp
      have only: "w = v" if "w \<in> set ?vs" "vm_start (?f w) \<le> lo" "lo < vm_end (?f w)" for w using first_above_hit [OF ar that] Some by simp
      have ma: "may_access st mm write lo \<longleftrightarrow> vm_start (?f v) \<le> lo \<and> vm_flags (?f v) AND (if write then VM_WRITE else VM_READ) \<noteq> 0
          \<and> (write \<and> vm_flags (?f v) AND VM_STACK \<noteq> 0 \<longrightarrow> vm_start (?f v) + PGSIZE \<le> lo)"
        using only v vs(2) unfolding may_access_def by blast
      have step: "mem_check_loop mm lo hi write st = (if may_access st mm write lo then mem_check_loop mm (vm_end (?f v)) hi write ?c else Some (False, ?c))"
        unfolding ma using True fv Some by (subst mem_check_loop.simps) (auto simp: Let_def not_le)
      show ?thesis
      proof (cases "may_access st mm write lo")
        case False
        then show ?thesis using step stop by simp
      next
        case ok: True
        have "unat hi - unat (vm_end (?f v)) < unat hi - unat lo" using True vs(2) by (simp add: word_less_nat_alt)
        then obtain st' where st': "mem_check_loop mm (vm_end (?f v)) hi write ?c = Some (\<forall>a. vm_end (?f v) \<le> a \<and> a < hi \<longrightarrow> may_access ?c mm write a, st')"
          "space_ok st' mm" "\<exists>r. st' = ?c \<or> st' = cached mm r ?c" using less.hyps [OF _ cok] by blast
        have here: "may_access st mm write a" if "lo \<le> a" "a < vm_end (?f v)" for a
        proof -
          have c: "vm_start (?f v) \<le> lo" "vm_flags (?f v) AND (if write then VM_WRITE else VM_READ) \<noteq> 0"
            "write \<and> vm_flags (?f v) AND VM_STACK \<noteq> 0 \<longrightarrow> vm_start (?f v) + PGSIZE \<le> lo" using ok ma by blast+
          show ?thesis unfolding may_access_def
            by (intro bexI [OF _ v] conjI impI order_trans [OF c(1) that(1)] that(2) c(2) order_trans [OF mp [OF c(3)] that(1)]) simp_all
        qed
        have "(\<forall>a. vm_end (?f v) \<le> a \<and> a < hi \<longrightarrow> may_access ?c mm write a) \<longleftrightarrow> (\<forall>a. lo \<le> a \<and> a < hi \<longrightarrow> may_access st mm write a)"
        proof (intro iffI allI impI; unfold may_access_cached)
          fix a
          assume "\<forall>a. vm_end (?f v) \<le> a \<and> a < hi \<longrightarrow> may_access st mm write a" "lo \<le> a \<and> a < hi"
          then show "may_access st mm write a" using here [of a] by (cases "a < vm_end (?f v)") auto
        next
          fix a
          assume "\<forall>a. lo \<le> a \<and> a < hi \<longrightarrow> may_access st mm write a" "vm_end (?f v) \<le> a \<and> a < hi"
          then show "may_access st mm write a" using vs(2) by auto
        qed
        moreover have "cached mm r ?c = cached mm (if r = None then ?r else r) st" for r
          by (cases ?r; cases r) (simp_all add: cached_def upd_mm_def)
        ultimately show ?thesis using step ok st' by (intro exI [of _ st']) auto
      qed
    qed
  qed
qed

lemma user_mem_check_ok:
  assumes "space_ok st mm"
  shows "\<exists>st'. user_mem_check (Some mm) addr l write st =
      Some (USER_ACCESS addr (addr + l) \<and> (\<forall>a. addr \<le> a \<and> a < addr + l \<longrightarrow> may_access st mm write a), st')
    \<and> space_ok st' mm \<and> (\<exists>r. st' = st \<or> st' = cached mm r st)"
proof (cases "USER_ACCESS addr (addr + l)")
  case True
  then show ?thesis using mem_check_loop_ok [OF assms] by (simp add: user_mem_check_def)
next
  case False
  then show ?thesis using assms by (auto simp: user_mem_check_def)
qed

section \<open>Properties\<close>

text \<open>An address space \<open>0\<close> with two areas, three free objects, and the area of a stack.\<close>

definition demo_vma :: "nat \<Rightarrow> vma_struct" where
  "demo_vma = (\<lambda>v. \<lparr>vm_mm = 0, vm_start = (if v = 1 then 0x300000 else 0x400000), vm_end = (if v = 1 then 0x302000 else 0x404000),
     vm_flags = (if v = 1 then VM_READ else VM_READ OR VM_WRITE OR VM_STACK), vm_shmem = None, shmem_off = 0\<rparr>)"

definition demo_vmm :: vmm where
  "demo_vmm = \<lparr>mach = demo_machine, objs = [5, 6, 7], shmns = (\<lambda>_. \<lparr>sn_start = 0, sn_end = 0, sn_entry = 0\<rparr>),
     shmems = (\<lambda>_. \<lparr>shmn_list = [], shmn_cache = None, len = 0, shmem_refs = 0, shmem_lock = 0\<rparr>), vmas = demo_vma,
     mms = (\<lambda>_. \<lparr>mmap_list = [1, 2], mmap_tree = None, mmap_cache = Some 2, pgdir = Some 1, map_count = 2\<rparr>),
     rbs = (\<lambda>_. \<lparr>red = False, parent = 0, left = 0, right = 0\<rparr>)\<rparr>"

lemma demo_space: "space_ok demo_vmm 0"
  unfolding space_ok_def mm_ok_def by (simp add: demo_vmm_def demo_vma_def areas_ok_def tree_ok_def tree_objs_def mm_objs_def USER_ACCESS_def)

lemma other_space:
  assumes "mm_ok st m" "only_mm mm S st st'" "m \<noteq> mm" "S \<inter> mm_objs st m = {}" "distinct (objs st')" "mm_objs st m \<inter> set (objs st') = {}"
  shows "mm_ok st' m \<and> flags_at st' m = flags_at st m"
proof
  show "mm_ok st' m" by (rule mm_ok_other [OF assms])
  have v: "vmas st' v = vmas st v" if "v \<in> set (mmap_list (mms st m))" for v using assms(2,4) that unfolding only_mm_def mm_objs_def by auto
  have m: "mms st' m = mms st m" using assms(2,3) by (simp add: only_mm_def)
  have ar: "areas_ok (vmas st) (mmap_list (mms st m))" using assms(1) by (simp add: mm_ok_def)
  then have ar': "areas_ok (vmas st') (mmap_list (mms st' m))" using areas_ok_cong [of "mmap_list (mms st m)" "vmas st'" "vmas st"] v m by simp
  show "flags_at st' m = flags_at st m"
  proof (rule ext, rule flags_at_eqI [OF ar'])
    fix a fl
    show "(flags_at st m a = Some fl) \<longleftrightarrow> (\<exists>v\<in>set (mmap_list (mms st' m)). vm_start (vmas st' v) \<le> a \<and> a < vm_end (vmas st' v) \<and> vm_flags (vmas st' v) = fl)"
      using v unfolding m flags_at_iff [OF ar] by (metis (no_types))
  qed
qed

text \<open>
  C19: \<^verbatim>\<open>find_vma\<close> ends and returns, whether it hits the cache, descends the red-black tree or walks
  the list, the same area: the first one in the list that ends above the address. It changes nothing but
  the cache and keeps the invariant.
\<close>

theorem find_vma_correct:
  assumes "mm_ok st mm"
  shows "\<exists>st'. find_vma (Some mm) a st = Some (find (\<lambda>v. a < vm_end (vmas st v)) (mmap_list (mms st mm)), st')
    \<and> mm_ok st' mm \<and> vmas st' = vmas st \<and> mach st' = mach st \<and> objs st' = objs st \<and> rbs st' = rbs st
    \<and> (\<forall>m. mmap_list (mms st' m) = mmap_list (mms st m))"
  using find_vma_ok [OF assms, of a] cached_found(1) [OF assms, of a] by (simp add: first_above_def)

theorem find_vma_correct_witness:
  "\<exists>st'. find_vma (Some 0) 0x302000 demo_vmm = Some (Some 2, st') \<and> mm_ok st' 0"
proof -
  have "mm_ok demo_vmm 0" using demo_space by (simp add: space_ok_def)
  from find_vma_correct [OF this, of "0x302000"] show ?thesis by (auto simp: demo_vmm_def demo_vma_def)
qed

text \<open>
  C4: \<^verbatim>\<open>mm_map\<close> refines adding a range of addresses to an abstract address space. On an address space of
  the invariant it never fails an assertion; it answers \<^verbatim>\<open>-E_INVAL\<close> exactly when the page-aligned range
  is empty, not in user space or overlaps an area, \<^verbatim>\<open>-E_NO_MEM\<close> when there is no memory for the new
  area, and changes nothing then; otherwise the addresses of the range, and no others, get the flags
  without \<^verbatim>\<open>VM_SHARE\<close>. The invariant, the machine and every other address space are kept.
\<close>

theorem mm_map_correct:
  assumes "space_ok st mm" "lo = ROUNDDOWN addr PGSIZE" "hi = ROUNDUP (addr + l) PGSIZE"
  shows "\<exists>ret nv st'. mm_map mm addr l fl st = Some (ret, nv, st') \<and> space_ok st' mm \<and> mach st' = mach st
    \<and> (if \<not> USER_ACCESS lo hi \<or> (\<exists>a. lo \<le> a \<and> a < hi \<and> flags_at st mm a \<noteq> None) then ret = - E_INVAL \<and> nv = None \<and> flags_at st' mm = flags_at st mm
       else if objs st = [] then ret = - E_NO_MEM \<and> nv = None \<and> flags_at st' mm = flags_at st mm
       else ret = 0 \<and> nv = Some (hd (objs st)) \<and> hd (objs st) \<in> set (mmap_list (mms st' mm))
         \<and> vm_start (vmas st' (hd (objs st))) = lo \<and> vm_end (vmas st' (hd (objs st))) = hi
         \<and> flags_at st' mm = (\<lambda>a. if lo \<le> a \<and> a < hi then Some (fl AND NOT VM_SHARE) else flags_at st mm a))
    \<and> (\<forall>m. m \<noteq> mm \<and> mm_ok st m \<and> mm_objs st m \<inter> mm_objs st mm = {} \<longrightarrow> mm_ok st' m \<and> flags_at st' m = flags_at st m)"
proof -
  let ?S = "mm_objs st mm \<union> set (objs st)"
  obtain ret nv st' where r: "mm_map mm addr l fl st = Some (ret, nv, st')" "space_ok st' mm" "same_env st st'"
    "only_mm mm ?S st st'" "set (objs st') \<subseteq> set (objs st)"
    and e: "if \<not> USER_ACCESS lo hi \<or> (\<exists>a. lo \<le> a \<and> a < hi \<and> flags_at st mm a \<noteq> None) then ret = - E_INVAL \<and> nv = None \<and> flags_at st' mm = flags_at st mm
       else if objs st = [] then ret = - E_NO_MEM \<and> nv = None \<and> flags_at st' mm = flags_at st mm
       else ret = 0 \<and> nv = Some (hd (objs st)) \<and> hd (objs st) \<in> set (mmap_list (mms st' mm))
         \<and> vmas st' (hd (objs st)) = \<lparr>vm_mm = mm, vm_start = lo, vm_end = hi, vm_flags = fl AND NOT VM_SHARE, vm_shmem = None, shmem_off = 0\<rparr>
         \<and> flags_at st' mm = (\<lambda>a. if lo \<le> a \<and> a < hi then Some (fl AND NOT VM_SHARE) else flags_at st mm a)"
    using mm_map_ok [OF assms] by blast
  have "mm_ok st' m \<and> flags_at st' m = flags_at st m" if m: "m \<noteq> mm" "mm_ok st m" "mm_objs st m \<inter> mm_objs st mm = {}" for m
    by (rule other_space [OF m(2) r(4) m(1)]) (use m r(2,5) in \<open>auto simp: mm_ok_def space_ok_def\<close>)
  moreover have "if \<not> USER_ACCESS lo hi \<or> (\<exists>a. lo \<le> a \<and> a < hi \<and> flags_at st mm a \<noteq> None) then ret = - E_INVAL \<and> nv = None \<and> flags_at st' mm = flags_at st mm
       else if objs st = [] then ret = - E_NO_MEM \<and> nv = None \<and> flags_at st' mm = flags_at st mm
       else ret = 0 \<and> nv = Some (hd (objs st)) \<and> hd (objs st) \<in> set (mmap_list (mms st' mm))
         \<and> vm_start (vmas st' (hd (objs st))) = lo \<and> vm_end (vmas st' (hd (objs st))) = hi
         \<and> flags_at st' mm = (\<lambda>a. if lo \<le> a \<and> a < hi then Some (fl AND NOT VM_SHARE) else flags_at st mm a)"
    using e by (simp split: if_splits)
  moreover have "mach st' = mach st" using r(3) by (simp add: same_env_def)
  ultimately show ?thesis using r(1,2) by blast
qed

text \<open>Mapping one page at \<open>0x350000\<close>, between the two areas.\<close>

theorem mm_map_correct_witness:
  "\<exists>st'. mm_map 0 0x350000 100 3 demo_vmm = Some (0, Some 5, st') \<and> flags_at st' 0 0x350fff = Some 3 \<and> flags_at st' 0 0x351000 = None"
proof -
  have lo: "0x350000 = ROUNDDOWN 0x350000 PGSIZE" and hi: "0x351000 = ROUNDUP (0x350000 + 100) PGSIZE" by (simp_all add: ROUNDDOWN_def ROUNDUP_def)
  have free: "flags_at demo_vmm 0 a = None" if "0x302000 \<le> a \<and> a < 0x400000" for a
    using that by (auto simp: flags_at_none demo_vmm_def demo_vma_def)
  have "USER_ACCESS 0x350000 0x351000" by (simp add: USER_ACCESS_def)
  moreover have "\<not> (\<exists>a. 0x350000 \<le> a \<and> a < 0x351000 \<and> flags_at demo_vmm 0 a \<noteq> None)"
    using free by (auto simp: word_le_nat_alt word_less_nat_alt)
  moreover have "objs demo_vmm = [5, 6, 7]" by (simp add: demo_vmm_def)
  ultimately show ?thesis using mm_map_correct [OF demo_space lo hi, of 3] free [of "0x351000"] by auto
qed

text \<open>
  C20: \<^verbatim>\<open>get_unmapped_area\<close> finds the highest free range: a result other than 0 is the start of a range of
  user space with no address in any area, and no range that starts higher is free; the result is 0 only
  when no range of this length is free.
\<close>

theorem get_unmapped_area_correct:
  assumes "space_ok st mm" "l \<noteq> 0" "l \<le> USERTOP" "r = get_unmapped_area mm l st"
  shows "(r = 0 \<longrightarrow> (\<forall>c. USERBASE \<le> c \<and> unat c + unat l \<le> unat (USERTOP :: u32) \<longrightarrow> (\<exists>a. c \<le> a \<and> a < c + l \<and> flags_at st mm a \<noteq> None)))
    \<and> (r \<noteq> 0 \<longrightarrow> USERBASE \<le> r \<and> unat r + unat l \<le> unat (USERTOP :: u32) \<and> (\<forall>a. r \<le> a \<and> a < r + l \<longrightarrow> flags_at st mm a = None)
       \<and> (\<forall>c. r < c \<and> unat c + unat l \<le> unat (USERTOP :: u32) \<longrightarrow> (\<exists>a. c \<le> a \<and> a < c + l \<and> flags_at st mm a \<noteq> None)))"
  unfolding assms(4) using assms(1-3) by (rule get_unmapped_area_ok)

theorem get_unmapped_area_correct_witness:
  "get_unmapped_area 0 0x1000 demo_vmm = 0xAFFFF000 \<and> flags_at demo_vmm 0 0xAFFFF800 = None"
proof -
  have "get_unmapped_area 0 0x1000 demo_vmm = 0xAFFFF000" by (simp add: get_unmapped_area_def demo_vmm_def demo_vma_def)
  then show ?thesis using get_unmapped_area_correct [OF demo_space, of "0x1000" "0xAFFFF000"] by simp
qed

text \<open>
  C21: \<^verbatim>\<open>user_mem_check\<close> ends and says yes exactly when the range lies in user space and every address of it
  is in an area that allows the access, and a write does not touch the lowest page of a stack; ranges that
  wrap around are refused. Without an address space it checks the kernel range.
\<close>

theorem user_mem_check_correct:
  assumes "space_ok st mm"
  shows "(\<exists>st'. user_mem_check (Some mm) addr l write st =
      Some (USERBASE \<le> addr \<and> addr < addr + l \<and> addr + l \<le> USERTOP \<and> (\<forall>a. addr \<le> a \<and> a < addr + l \<longrightarrow> may_access st mm write a), st')
    \<and> space_ok st' mm)
    \<and> user_mem_check None addr l write st = Some (KERN_ACCESS addr (addr + l), st)"
  using user_mem_check_ok [OF assms, of addr l "write"] by (auto simp: USER_ACCESS_def user_mem_check_def)

text \<open>The lowest page of the stack of the example may be read but not written.\<close>

theorem user_mem_check_correct_witness:
  "\<exists>st' st''. user_mem_check (Some 0) 0x400000 16 True demo_vmm = Some (False, st')
    \<and> user_mem_check (Some 0) 0x401000 16 True demo_vmm = Some (True, st'')"
proof -
  have "\<not> may_access demo_vmm 0 True 0x400000" by (simp add: may_access_def demo_vmm_def demo_vma_def)
  then have "\<not> (\<forall>a. 0x400000 \<le> a \<and> a < 0x400010 \<longrightarrow> may_access demo_vmm 0 True a)" by (auto intro!: exI [of _ "0x400000"])
  moreover have "may_access demo_vmm 0 True a" if "0x401000 \<le> a" "a < 0x401010" for a
    using that by (auto simp: may_access_def demo_vmm_def demo_vma_def word_le_nat_alt word_less_nat_alt)
  ultimately show ?thesis
    using user_mem_check_correct [OF demo_space, of "0x400000" 16 True] user_mem_check_correct [OF demo_space, of "0x401000" 16 True] by auto
qed

end
