(* ===== verification/VmmUnmap.thy ===== *)
theory VmmUnmap
  imports VmmSpace
begin

text \<open>
  Removing address ranges (\<^verbatim>\<open>src/kern/mm/vmm.c\<close>): shrinking and removing areas, the two loops of
  \<^verbatim>\<open>mm_unmap\<close>, and the refinement of \<^verbatim>\<open>mm_unmap\<close> to the removal of a range from an abstract address
  space and from its page tables.
\<close>

section \<open>Shrinking and removing areas\<close>

definition resized :: "nat \<Rightarrow> u32 \<Rightarrow> u32 \<Rightarrow> vmm \<Rightarrow> vmm" where
  "resized v lo hi st = upd_vma v (\<lambda>a. a\<lparr>vm_start := lo, vm_end := hi\<rparr>) st"

lemma resized_simps [simp]:
  "vmas (resized v lo hi st) = (vmas st)(v := (vmas st v)\<lparr>vm_start := lo, vm_end := hi\<rparr>)" "mms (resized v lo hi st) = mms st"
  "rbs (resized v lo hi st) = rbs st" "objs (resized v lo hi st) = objs st" "mach (resized v lo hi st) = mach st"
  "shmns (resized v lo hi st) = shmns st" "shmems (resized v lo hi st) = shmems st"
  by (simp_all add: resized_def upd_vma_def)

lemma vma_resize_eq:
  assumes "lo mod PGSIZE = 0" "hi mod PGSIZE = 0" "vm_start (vmas st v) \<le> lo" "lo < hi" "hi \<le> vm_end (vmas st v)" "vm_flags (vmas st v) AND VM_SHARE = 0"
  shows "vma_resize v lo hi st = Some (resized v lo hi st)"
  using assms by (simp add: vma_resize_def kassert_def resized_def upd_vma_def)

lemma areas_ok_shrink:
  assumes "areas_ok f vs" "vm_start (f v) \<le> vm_start (g v)" "vm_start (g v) < vm_end (g v)" "vm_end (g v) \<le> vm_end (f v)" "\<And>w. w \<noteq> v \<Longrightarrow> g w = f w"
  shows "areas_ok g vs"
  using assms(1)
proof (induction vs)
  case (Cons u vs)
  have "vm_start (f w) \<le> vm_start (g w)" "vm_end (g w) \<le> vm_end (f w)" for w using assms(2-5) by (cases "w = v"; simp)+
  moreover have "vm_start (g u) < vm_end (g u)" using Cons.prems assms(3,5) by (cases "u = v") (auto simp: areas_ok_Cons)
  ultimately show ?case using Cons by (auto simp: areas_ok_Cons) (meson order_trans)
qed simp

lemma mm_ok_resized:
  assumes "mm_ok st mm" "vm_start (vmas st v) \<le> lo" "lo < hi" "hi \<le> vm_end (vmas st v)"
  shows "mm_ok (resized v lo hi st) mm"
proof -
  have "areas_ok (vmas (resized v lo hi st)) (mmap_list (mms st mm))"
    by (rule areas_ok_shrink [of "vmas st" _ v]) (use assms in \<open>auto simp: mm_ok_def\<close>)
  then show ?thesis using assms(1) by (auto simp: mm_ok_def mm_objs_def)
qed

lemma areas_ok_remove1: "areas_ok f vs \<Longrightarrow> areas_ok f (remove1 v vs)"
  by (induction vs) (auto simp: areas_ok_Cons dest: notin_set_remove1 set_remove1_subset [THEN subsetD])

lemma remove_ok:
  assumes ok: "mm_ok st mm" and v: "v \<in> set (mmap_list (mms st mm))"
  shows "\<exists>st'. remove_vma_struct mm v st = Some st' \<and> mm_ok st' mm \<and> mmap_list (mms st' mm) = remove1 v (mmap_list (mms st mm))
    \<and> vmas st' = vmas st \<and> objs st' = objs st \<and> same_env st st' \<and> mm_objs st' mm = mm_objs st mm - {v}
    \<and> only_mm mm (mm_objs st mm) st st'"
proof -
  let ?vs = "mmap_list (mms st mm)"
  have ar: "areas_ok (vmas st) ?vs" and mm: "vm_mm (vmas st v) = mm" using ok v by (auto simp: mm_ok_def)
  have di: "distinct ?vs" using areas_ok_distinct [OF ar] .
  have "\<exists>h. (case mmap_tree (mms st mm) of None \<Rightarrow> Some st | Some (_, tr) \<Rightarrow> map_option (\<lambda>h. st\<lparr>rbs := h\<rparr>) (rb_delete tr v (rbs st))) = Some (st\<lparr>rbs := h\<rparr>)
    \<and> (case mmap_tree (mms st mm) of None \<Rightarrow> True | Some (t, tr) \<Rightarrow> rb_repr tr h (remove1 v ?vs)) \<and> same_outside (mm_objs st mm) (rbs st) h"
  proof (cases "mmap_tree (mms st mm)")
    case None
    then show ?thesis by (intro exI [of _ "rbs st"]) (simp add: same_outside_def)
  next
    case (Some x)
    obtain t tr where x: "x = (t, tr)" by fastforce
    have "rb_repr tr (rbs st) ?vs" using ok Some x by (simp add: mm_ok_def tree_ok_def)
    then obtain h where h: "rb_delete tr v (rbs st) = Some h" "rb_repr tr h (remove1 v ?vs)" "same_outside (insert (nil tr) (insert (root tr) (set ?vs))) (rbs st) h"
      using rbs.del_law [OF _ v] by blast
    moreover have "same_outside (mm_objs st mm) (rbs st) h" by (rule same_outside_mono [OF h(3)]) (use Some x in \<open>auto simp: mm_objs_def tree_objs_def\<close>)
    ultimately show ?thesis using Some x by auto
  qed
  then obtain h where h: "(case mmap_tree (mms st mm) of None \<Rightarrow> Some st | Some (_, tr) \<Rightarrow> map_option (\<lambda>h. st\<lparr>rbs := h\<rparr>) (rb_delete tr v (rbs st))) = Some (st\<lparr>rbs := h\<rparr>)"
    "case mmap_tree (mms st mm) of None \<Rightarrow> True | Some (t, tr) \<Rightarrow> rb_repr tr h (remove1 v ?vs)" "same_outside (mm_objs st mm) (rbs st) h" by blast
  define st' where "st' = upd_mm mm (\<lambda>m. m\<lparr>mmap_list := remove1 v (mmap_list m),
       mmap_cache := (if mmap_cache m = Some v then None else mmap_cache m), map_count := map_count m - 1\<rparr>) (st\<lparr>rbs := h\<rparr>)"
  have rm: "remove_vma_struct mm v st = Some st'"
    unfolding remove_vma_struct_def mm h(1) by (simp add: kassert_def st'_def)
  have s: "mmap_list (mms st' mm) = remove1 v ?vs" "mmap_tree (mms st' mm) = mmap_tree (mms st mm)" "vmas st' = vmas st" "objs st' = objs st" "rbs st' = h"
    "map_count (mms st' mm) = map_count (mms st mm) - 1" "mmap_cache (mms st' mm) = (if mmap_cache (mms st mm) = Some v then None else mmap_cache (mms st mm))"
    by (simp_all add: st'_def upd_mm_def)
  have se: "set (remove1 v ?vs) = set ?vs - {v}" using di by (simp add: set_remove1_eq)
  have vt: "v \<notin> tree_objs (mms st mm)" "v \<noteq> mm"
  proof -
    show "v \<noteq> mm" using ok v by (auto simp: mm_ok_def)
    show "v \<notin> tree_objs (mms st mm)"
    proof (cases "mmap_tree (mms st mm)")
      case (Some x)
      obtain t tr where x: "x = (t, tr)" by fastforce
      then obtain T where T: "rbt tr (rbs st) T" "inorder T = ?vs" using ok Some by (auto simp: mm_ok_def tree_ok_def rb_repr_def)
      then have "v \<noteq> nil tr" "v \<noteq> root tr" using rb_ok_nodes [of tr "rbs st" T v] v set_inorder [of T] by (auto simp: rbt_iff)
      then show ?thesis using ok Some x v by (auto simp: tree_objs_def mm_ok_def tree_ok_def)
    qed (simp add: tree_objs_def)
  qed
  have to: "tree_objs (mms st' mm) = tree_objs (mms st mm)" by (simp add: tree_objs_def s(2))
  have mo: "mm_objs st' mm = mm_objs st mm - {v}" unfolding mm_objs_def s(1) se to using vt by auto
  have "tree_ok (rbs st') (mms st' mm)"
  proof (cases "mmap_tree (mms st mm)")
    case (Some x)
    then show ?thesis using h(2) ok by (cases x) (auto simp: tree_ok_def s mm_ok_def dest: notin_set_remove1)
  qed (simp add: tree_ok_def s(2))
  moreover have "length ?vs = Suc (length (remove1 v ?vs))" using v by (simp add: length_remove1) (metis Suc_pred length_pos_if_in_set)
  ultimately have "mm_ok st' mm"
    using ok areas_ok_remove1 [OF ar, of v] unfolding mm_ok_def mo to s se by auto
  moreover have "only_mm mm (mm_objs st mm) st st'" using h(3) by (auto simp: only_mm_def st'_def upd_mm_def)
  ultimately show ?thesis using rm s mo by (intro exI [of _ st']) (simp add: same_env_def st'_def upd_mm_def)
qed

lemma collect_ok:
  assumes "mm_ok st mm" "mmap_list (mms st mm) = us @ ws"
  shows "\<exists>st'. unmap_collect mm hi ws F st = Some (rev (takeWhile (\<lambda>v. vm_start (vmas st v) < hi) ws) @ F, st') \<and> mm_ok st' mm
    \<and> mmap_list (mms st' mm) = us @ dropWhile (\<lambda>v. vm_start (vmas st v) < hi) ws \<and> vmas st' = vmas st \<and> objs st' = objs st \<and> same_env st st'
    \<and> mm_objs st' mm = mm_objs st mm - set (takeWhile (\<lambda>v. vm_start (vmas st v) < hi) ws) \<and> only_mm mm (mm_objs st mm) st st'"
  using assms
proof (induction ws arbitrary: st F)
  case Nil
  then show ?case by (simp add: same_env_def only_mm_refl)
next
  case (Cons v ws)
  show ?case
  proof (cases "vm_start (vmas st v) < hi")
    case False
    then show ?thesis using Cons.prems by (simp add: same_env_def only_mm_refl)
  next
    case True
    obtain st1 where s1: "remove_vma_struct mm v st = Some st1" "mm_ok st1 mm" "mmap_list (mms st1 mm) = remove1 v (us @ v # ws)"
      "vmas st1 = vmas st" "objs st1 = objs st" "same_env st st1" "mm_objs st1 mm = mm_objs st mm - {v}" "only_mm mm (mm_objs st mm) st st1"
      using remove_ok [OF Cons.prems(1), of v] Cons.prems(2) by auto
    have "areas_ok (vmas st) (us @ v # ws)" using Cons.prems by (simp add: mm_ok_def)
    then have "v \<notin> set us" using areas_ok_distinct by fastforce
    then have l1: "mmap_list (mms st1 mm) = us @ ws" using s1(3) by (simp add: remove1_append)
    obtain st2 where s2: "unmap_collect mm hi ws (v # F) st1 = Some (rev (takeWhile (\<lambda>v. vm_start (vmas st1 v) < hi) ws) @ v # F, st2)" "mm_ok st2 mm"
      "mmap_list (mms st2 mm) = us @ dropWhile (\<lambda>v. vm_start (vmas st1 v) < hi) ws" "vmas st2 = vmas st1" "objs st2 = objs st1" "same_env st1 st2"
      "mm_objs st2 mm = mm_objs st1 mm - set (takeWhile (\<lambda>v. vm_start (vmas st1 v) < hi) ws)" "only_mm mm (mm_objs st1 mm) st1 st2"
      using Cons.IH [OF s1(2) l1, of "v # F"] by blast
    have "only_mm mm (mm_objs st mm) st st2" using only_mm_trans [OF s1(8)] only_mm_mono [OF s2(8), of "mm_objs st mm"] s1(7) by blast
    then show ?thesis using True s1 s2 by (auto simp: same_env_def)
  qed
qed

section \<open>Unmapping one area\<close>

text \<open>The present entries of the pages \<open>P\<close> of one directory are cleared.\<close>

definition gone :: "machine \<Rightarrow> nat set \<Rightarrow> nat \<Rightarrow> (nat \<Rightarrow> bool) \<Rightarrow> machine \<Rightarrow> bool" where
  "gone m D d P m' \<longleftrightarrow> (\<forall>d'\<in>D. \<forall>v<UVN. entry m' d' v = (if d' = d \<and> P v \<and> present (entry m d v) then 0 else entry m d' v))
     \<and> (\<forall>e\<in>D. frames m' e = frames m e) \<and> cr3 m' = cr3 m \<and> (tlb_ok m D \<longrightarrow> tlb_ok m' D)"

lemma unmapped_gone: "unmapped m D d a b m' \<Longrightarrow> gone m D d (\<lambda>v. a \<le> v \<and> v < b) m'"
  unfolding unmapped_def gone_def by auto

lemma gone_none: "(\<And>v. v < UVN \<Longrightarrow> \<not> P v) \<Longrightarrow> gone m D d P m"
  unfolding gone_def by auto

lemma gone_trans: "gone m D d P m1 \<Longrightarrow> gone m1 D d Q m2 \<Longrightarrow> d \<in> D \<Longrightarrow> gone m D d (\<lambda>v. P v \<or> Q v) m2"
  unfolding gone_def by auto

lemma gone_freed:
  assumes "gone m D d P m'" "pt_ok m D own pool" "pt_ok m' D own pool"
  shows "free_set (phys m') = free_set (phys m) \<union> {q. maps m D q \<noteq> {} \<and> maps m' D q = {} \<and> own q = 0}"
  using assms(1) by (intro freed_exactly [OF assms(2,3)] maps_shrink tables_cong) (auto simp: gone_def)

lemma gone_cong: "gone m D d P m' \<Longrightarrow> (\<And>v. v < UVN \<Longrightarrow> P v \<longleftrightarrow> Q v) \<Longrightarrow> gone m D d Q m'"
  unfolding gone_def by simp

definition page_addr :: "nat \<Rightarrow> u32" where
  "page_addr v = of_nat (v * 4096)"

lemma unat_page_addr: "v < UVN \<Longrightarrow> unat (page_addr v) = v * 4096"
  using unsigned_of_nat [where ?'a = nat and ?'b = 32, of "v * 4096"] unfolding page_addr_def by (simp add: take_bit_nat_eq_self del: of_nat_mult)

lemma aligned_PPN:
  assumes "x mod PGSIZE = 0" "v < UVN"
  shows "PPN x \<le> v \<longleftrightarrow> x \<le> page_addr v" "v < PPN x \<longleftrightarrow> page_addr v < x"
proof -
  obtain k where k: "unat x = 4096 * k" using aligned_unat [OF assms(1)] by blast
  then have "PPN x = k" by (simp add: PPN_eq)
  then show "PPN x \<le> v \<longleftrightarrow> x \<le> page_addr v" "v < PPN x \<longleftrightarrow> page_addr v < x"
    using k unat_page_addr [OF assms(2)] by (auto simp: word_le_nat_alt word_less_nat_alt)
qed

lemma mm_ok_mach [simp]: "mm_ok (st\<lparr>mach := m\<rparr>) mm = mm_ok st mm" "space_ok (st\<lparr>mach := m\<rparr>) mm = space_ok st mm"
  "flags_at (st\<lparr>mach := m\<rparr>) mm = flags_at st mm" "mm_objs (st\<lparr>mach := m\<rparr>) mm = mm_objs st mm"
  by (auto simp: mm_ok_def mm_objs_def space_ok_def flags_at_def)

text \<open>An area on the list of areas to unmap: not in the address space any more, private, and overlapping the range without containing it.\<close>

definition pending :: "vmm \<Rightarrow> nat \<Rightarrow> u32 \<Rightarrow> u32 \<Rightarrow> nat \<Rightarrow> bool" where
  "pending st mm lo hi w \<longleftrightarrow> (let a = vmas st w in w \<notin> mm_objs st mm \<union> set (objs st) \<and> fits (vmas st) w (mmap_list (mms st mm))
     \<and> USER_ACCESS (vm_start a) (vm_end a) \<and> vm_start a mod PGSIZE = 0 \<and> vm_end a mod PGSIZE = 0 \<and> vm_flags a AND VM_SHARE = 0
     \<and> vm_start a < hi \<and> lo < vm_end a \<and> \<not> (vm_start a < lo \<and> hi < vm_end a))"

definition unmap_pages :: "u32 \<Rightarrow> u32 \<Rightarrow> vma_struct \<Rightarrow> nat \<Rightarrow> bool" where
  "unmap_pages lo hi a v \<longleftrightarrow> lo \<le> page_addr v \<and> page_addr v < hi \<and> vm_start a \<le> page_addr v \<and> page_addr v < vm_end a"

lemma unmap_part:
  assumes "pt_ok m D own pool" "d \<in> D" "USER_ACCESS x y" "x mod PGSIZE = 0" "y mod PGSIZE = 0"
    "\<And>p. x \<le> p \<and> p < y \<longleftrightarrow> lo \<le> p \<and> p < hi \<and> vm_start a \<le> p \<and> p < vm_end a"
  shows "\<exists>m'. unmap_range d x y m = Some m' \<and> pt_ok m' D own pool \<and> gone m D d (unmap_pages lo hi a) m'"
proof -
  obtain m' where m': "unmap_range d x y m = Some m'" "pt_ok m' D own pool" "unmapped m D d (PPN x) (PPN y) m'"
    using unmap_range_ok [OF assms(1-5)] by blast
  have "gone m D d (unmap_pages lo hi a) m'"
    by (rule gone_cong [OF unmapped_gone [OF m'(3)]]) (simp add: unmap_pages_def aligned_PPN assms)
  with m'(1,2) show ?thesis by blast
qed

text \<open>Putting a shrunk area back.\<close>

lemma reinsert_ok:
  assumes ok: "space_ok st mm" and p: "pending st mm lo hi w" and r: "vm_start (vmas st w) \<le> x" "x < y" "y \<le> vm_end (vmas st w)"
    "x mod PGSIZE = 0" "y mod PGSIZE = 0"
  shows "\<exists>st'. vma_resize w x y st = Some (resized w x y st) \<and> insert_vma_struct mm w (resized w x y st) = Some st' \<and> space_ok st' mm
    \<and> set (mmap_list (mms st' mm)) = insert w (set (mmap_list (mms st mm))) \<and> same_env st st'
    \<and> vmas st' = (vmas st)(w := (vmas st w)\<lparr>vm_start := x, vm_end := y, vm_mm := mm\<rparr>)
    \<and> set (objs st') \<subseteq> set (objs st) \<and> mm_objs st' mm \<subseteq> insert w (mm_objs st mm \<union> set (objs st))
    \<and> only_mm mm (insert w (mm_objs st mm \<union> set (objs st))) st st'"
proof -
  let ?r = "resized w x y st" and ?vs = "mmap_list (mms st mm)"
  note pw = p [unfolded pending_def Let_def]
  have nw: "w \<notin> set ?vs" using pw by (auto simp: mm_objs_def)
  have rs: "vma_resize w x y st = Some ?r" using r pw by (intro vma_resize_eq) auto
  have rok: "mm_ok ?r mm" using ok r by (intro mm_ok_resized) (auto simp: space_ok_def)
  have oe: "mm_objs ?r mm = mm_objs st mm" by (simp add: mm_objs_def)
  have "fits (vmas ?r) w (mmap_list (mms ?r mm))" using pw r nw unfolding fits_def by (auto intro: order_trans)
  moreover have "w \<notin> mm_objs ?r mm \<union> set (objs ?r)" using pw oe by simp
  ultimately obtain st' where s: "insert_vma_struct mm w ?r = Some st'" "mm_ok st' mm"
    "mmap_list (mms st' mm) = lower (vmas ?r) w ?vs @ w # upper (vmas ?r) w ?vs" "vmas st' = (vmas ?r)(w := (vmas ?r w)\<lparr>vm_mm := mm\<rparr>)"
    "same_env ?r st'" "set (objs st') \<subseteq> set (objs st)" "mm_objs st' mm \<subseteq> insert w (mm_objs ?r mm \<union> set (objs st))"
    "only_mm mm (insert w (mm_objs ?r mm \<union> set (objs st))) ?r st'"
    using insert_vma_struct_ok [OF rok, of w] by auto
  have set: "set (mmap_list (mms st' mm)) = insert w (set ?vs)" unfolding s(3) by (rule set_placed)
  have "USER_ACCESS x y" using pw r unfolding USER_ACCESS_def by (auto intro: order_trans)
  then have "space_ok st' mm" using ok s(2) r nw unfolding space_ok_def set s(4) by auto
  moreover have "only_mm mm (insert w (mm_objs st mm \<union> set (objs st))) st ?r" by (auto simp: only_mm_def same_outside_def)
  then have "only_mm mm (insert w (mm_objs st mm \<union> set (objs st))) st st'" using s(8) oe only_mm_trans by metis
  moreover have "same_env st st'" using s(5) by (simp add: same_env_def)
  moreover have "vmas st' = (vmas st)(w := (vmas st w)\<lparr>vm_start := x, vm_end := y, vm_mm := mm\<rparr>)" using s(4) by simp
  ultimately show ?thesis using rs s(1,6,7) set oe by (intro exI [of _ st'] conjI) simp_all
qed

text \<open>The abstract address space after a shrunk area was put back, or none.\<close>

lemma flags_at_with:
  assumes "areas_ok (vmas st') (mmap_list (mms st' mm))" "areas_ok (vmas st) (mmap_list (mms st mm))"
    "set (mmap_list (mms st' mm)) = insert w (set (mmap_list (mms st mm)))" "w \<notin> set (mmap_list (mms st mm))"
    "\<And>v. v \<noteq> w \<Longrightarrow> vmas st' v = vmas st v"
  shows "flags_at st' mm a = Some fl \<longleftrightarrow> flags_at st mm a = Some fl
    \<or> vm_start (vmas st' w) \<le> a \<and> a < vm_end (vmas st' w) \<and> vm_flags (vmas st' w) = fl"
proof -
  have "vmas st' v = vmas st v" if "v \<in> set (mmap_list (mms st mm))" for v using that assms(4,5) by metis
  then show ?thesis unfolding flags_at_iff [OF assms(1)] flags_at_iff [OF assms(2)] assms(3) by auto
qed

definition cut :: "u32 \<Rightarrow> u32 \<Rightarrow> u32 \<Rightarrow> bool" where
  "cut lo hi a \<longleftrightarrow> lo \<le> a \<and> a < hi"

definition covers :: "vma_struct \<Rightarrow> u32 \<Rightarrow> u32 \<Rightarrow> bool" where
  "covers v a fl \<longleftrightarrow> vm_start v \<le> a \<and> a < vm_end v \<and> vm_flags v = fl"

lemma unmap_one_ok:
  assumes ok: "space_ok st mm" and p: "pending st mm lo hi w" and r: "USER_ACCESS lo hi" "lo mod PGSIZE = 0" "hi mod PGSIZE = 0"
    and m: "pgdir (mms st mm) = Some d" "pt_ok (mach st) D own pool" "d \<in> D"
  shows "\<exists>st'. unmap_one mm lo hi w st = Some st' \<and> space_ok st' mm \<and> pt_ok (mach st') D own pool
    \<and> gone (mach st) D d (unmap_pages lo hi (vmas st w)) (mach st')
    \<and> (\<forall>a fl. flags_at st' mm a = Some fl \<longleftrightarrow> flags_at st mm a = Some fl \<or> covers (vmas st w) a fl \<and> \<not> cut lo hi a)
    \<and> (\<forall>v. v \<noteq> w \<longrightarrow> vmas st' v = vmas st v) \<and> vm_flags (vmas st' w) = vm_flags (vmas st w)
    \<and> vm_start (vmas st w) \<le> vm_start (vmas st' w) \<and> vm_end (vmas st' w) \<le> vm_end (vmas st w)
    \<and> (set (mmap_list (mms st' mm)) = set (mmap_list (mms st mm)) \<or> set (mmap_list (mms st' mm)) = insert w (set (mmap_list (mms st mm))))
    \<and> mm_objs st' mm \<union> set (objs st') \<subseteq> insert w (mm_objs st mm \<union> set (objs st))
    \<and> only_mm mm (insert w (mm_objs st mm \<union> set (objs st))) st st'"
proof -
  let ?a = "vmas st w" and ?S = "insert w (mm_objs st mm \<union> set (objs st))"
  note pw = p [unfolded pending_def Let_def]
  have ar: "areas_ok (vmas st) (mmap_list (mms st mm))" using ok by (simp add: space_ok_def mm_ok_def)
  have nw: "w \<notin> set (mmap_list (mms st mm))" using pw by (auto simp: mm_objs_def)
  have ua: "USER_ACCESS (vm_start ?a) (vm_end ?a)" using pw by blast
  have putback: "?thesis" if xy: "vm_start ?a \<le> x" "x < y" "y \<le> vm_end ?a" "x mod PGSIZE = 0" "y mod PGSIZE = 0"
      and uv: "USER_ACCESS u v" "u mod PGSIZE = 0" "v mod PGSIZE = 0" "\<And>p. u \<le> p \<and> p < v \<longleftrightarrow> lo \<le> p \<and> p < hi \<and> vm_start ?a \<le> p \<and> p < vm_end ?a"
      and keep: "\<And>p. x \<le> p \<and> p < y \<longleftrightarrow> vm_start ?a \<le> p \<and> p < vm_end ?a \<and> \<not> cut lo hi p"
      and eq: "unmap_one mm lo hi w st = do {
        st \<leftarrow> vma_resize w x y st; st \<leftarrow> insert_vma_struct mm w st; on_pgdir mm (\<lambda>d. unmap_range d u v) st }" for x y u v
  proof -
    obtain st1 where s: "vma_resize w x y st = Some (resized w x y st)" "insert_vma_struct mm w (resized w x y st) = Some st1" "space_ok st1 mm"
      "set (mmap_list (mms st1 mm)) = insert w (set (mmap_list (mms st mm)))" "same_env st st1"
      "vmas st1 = (vmas st)(w := ?a\<lparr>vm_start := x, vm_end := y, vm_mm := mm\<rparr>)"
      "set (objs st1) \<subseteq> set (objs st)" "mm_objs st1 mm \<subseteq> ?S" "only_mm mm ?S st st1"
      using reinsert_ok [OF ok p xy] by blast
    obtain m' where m': "unmap_range d u v (mach st) = Some m'" "pt_ok m' D own pool" "gone (mach st) D d (unmap_pages lo hi ?a) m'"
      using unmap_part [OF m(2,3) uv(1-3), of lo hi ?a] uv(4) by blast
    have "mach st1 = mach st" "pgdir (mms st1 mm) = Some d" using s(5,9) m(1) by (simp_all add: same_env_def only_mm_def)
    then have "unmap_one mm lo hi w st = Some (st1\<lparr>mach := m'\<rparr>)" unfolding eq using s(1,2) m'(1) by (simp add: on_pgdir_def do_mach_def)
    moreover have "flags_at st1 mm a = Some fl \<longleftrightarrow> flags_at st mm a = Some fl \<or> covers ?a a fl \<and> \<not> cut lo hi a" for a fl
      using flags_at_with [of st1 mm st w a fl] s(3,4,6) ar nw keep [of a] unfolding covers_def by (auto simp: space_ok_def mm_ok_def)
    moreover have "only_mm mm ?S st (st1\<lparr>mach := m'\<rparr>)" using s(9) by (simp add: only_mm_def)
    ultimately show ?thesis using s m' xy by (intro exI [of _ "st1\<lparr>mach := m'\<rparr>"]) auto
  qed
  consider (low) "vm_start ?a < lo" | (high) "\<not> vm_start ?a < lo" "hi < vm_end ?a" | (all) "\<not> vm_start ?a < lo" "\<not> hi < vm_end ?a" by blast
  then show ?thesis
  proof cases
    case low
    show ?thesis
    proof (rule putback [of "vm_start ?a" lo lo "vm_end ?a"])
      show "USER_ACCESS lo (vm_end ?a)" using r(1) ua pw by (auto simp: USER_ACCESS_def)
      show "unmap_one mm lo hi w st = do { st \<leftarrow> vma_resize w (vm_start ?a) lo st; st \<leftarrow> insert_vma_struct mm w st; on_pgdir mm (\<lambda>d. unmap_range d lo (vm_end ?a)) st }"
        using low by (simp add: unmap_one_def Let_def)
    qed (use low pw r in \<open>auto simp: cut_def\<close>)
  next
    case high
    show ?thesis
    proof (rule putback [of hi "vm_end ?a" "vm_start ?a" hi])
      show "USER_ACCESS (vm_start ?a) hi" using r(1) ua pw by (auto simp: USER_ACCESS_def)
      show "unmap_one mm lo hi w st = do { st \<leftarrow> vma_resize w hi (vm_end ?a) st; st \<leftarrow> insert_vma_struct mm w st; on_pgdir mm (\<lambda>d. unmap_range d (vm_start ?a) hi) st }"
        using high by (simp add: unmap_one_def Let_def)
    qed (use high pw r in \<open>auto simp: cut_def\<close>)
  next
    case all
    then have inside: "vm_start ?a \<le> p \<and> p < vm_end ?a \<longleftrightarrow> lo \<le> p \<and> p < hi \<and> vm_start ?a \<le> p \<and> p < vm_end ?a" for p by auto
    obtain m' where m': "unmap_range d (vm_start ?a) (vm_end ?a) (mach st) = Some m'" "pt_ok m' D own pool" "gone (mach st) D d (unmap_pages lo hi ?a) m'"
      using unmap_part [OF m(2,3) ua _ _ inside] pw by blast
    have "vma_destroy w st = Some (kfree w st)" using pw by (simp add: vma_destroy_def)
    then have "unmap_one mm lo hi w st = Some ((kfree w st)\<lparr>mach := m'\<rparr>)"
      using all m'(1) m(1) by (simp add: unmap_one_def Let_def on_pgdir_def do_mach_def kfree_def)
    moreover have "mm_ok (kfree w st) mm" using ok pw by (auto simp: space_ok_def mm_ok_def kfree_def mm_objs_def)
    then have "space_ok (kfree w st) mm" using ok by (simp add: space_ok_def kfree_def)
    moreover have "flags_at (kfree w st) mm a = flags_at st mm a" "mm_objs (kfree w st) mm = mm_objs st mm" for a by (simp_all add: flags_at_def kfree_def mm_objs_def)
    moreover have "\<not> (covers ?a a fl \<and> \<not> cut lo hi a)" for a fl using all by (auto simp: covers_def cut_def)
    moreover have "only_mm mm ?S st ((kfree w st)\<lparr>mach := m'\<rparr>)" by (simp add: only_mm_def kfree_def same_outside_def)
    ultimately show ?thesis using m' by (intro exI [of _ "(kfree w st)\<lparr>mach := m'\<rparr>"]) (auto simp: kfree_def)
  qed
qed

section \<open>Unmapping a range\<close>

definition apart :: "(nat \<Rightarrow> vma_struct) \<Rightarrow> nat \<Rightarrow> nat \<Rightarrow> bool" where
  "apart f u w \<longleftrightarrow> vm_end (f u) \<le> vm_start (f w) \<or> vm_end (f w) \<le> vm_start (f u)"

lemma unmap_free_ok:
  assumes "space_ok st mm" "\<forall>w\<in>set F. pending st mm lo hi w" "distinct F" "\<forall>u\<in>set F. \<forall>w\<in>set F. u \<noteq> w \<longrightarrow> apart (vmas st) u w"
    and r: "USER_ACCESS lo hi" "lo mod PGSIZE = 0" "hi mod PGSIZE = 0"
    and m: "pgdir (mms st mm) = Some d" "pt_ok (mach st) D own pool" "d \<in> D"
  shows "\<exists>st'. unmap_free mm lo hi F st = Some st' \<and> space_ok st' mm \<and> pt_ok (mach st') D own pool
    \<and> gone (mach st) D d (\<lambda>v. \<exists>w\<in>set F. unmap_pages lo hi (vmas st w) v) (mach st')
    \<and> (\<forall>a fl. flags_at st' mm a = Some fl \<longleftrightarrow> flags_at st mm a = Some fl \<or> (\<exists>w\<in>set F. covers (vmas st w) a fl) \<and> \<not> cut lo hi a)
    \<and> mm_objs st' mm \<union> set (objs st') \<subseteq> set F \<union> (mm_objs st mm \<union> set (objs st))
    \<and> only_mm mm (set F \<union> (mm_objs st mm \<union> set (objs st))) st st'"
  using assms(1-4) m(1,2)
proof (induction F arbitrary: st)
  case Nil
  then show ?case using gone_none [of "\<lambda>_. False"] by (auto simp: only_mm_refl)
next
  case (Cons w F)
  let ?S = "set (w # F) \<union> (mm_objs st mm \<union> set (objs st))"
  obtain st1 where s: "unmap_one mm lo hi w st = Some st1" "space_ok st1 mm" "pt_ok (mach st1) D own pool"
    "gone (mach st) D d (unmap_pages lo hi (vmas st w)) (mach st1)"
    "\<And>a fl. flags_at st1 mm a = Some fl \<longleftrightarrow> flags_at st mm a = Some fl \<or> covers (vmas st w) a fl \<and> \<not> cut lo hi a"
    "\<And>v. v \<noteq> w \<Longrightarrow> vmas st1 v = vmas st v" "vm_start (vmas st w) \<le> vm_start (vmas st1 w)" "vm_end (vmas st1 w) \<le> vm_end (vmas st w)"
    "set (mmap_list (mms st1 mm)) = set (mmap_list (mms st mm)) \<or> set (mmap_list (mms st1 mm)) = insert w (set (mmap_list (mms st mm)))"
    "mm_objs st1 mm \<union> set (objs st1) \<subseteq> insert w (mm_objs st mm \<union> set (objs st))" "only_mm mm (insert w (mm_objs st mm \<union> set (objs st))) st st1"
    using unmap_one_ok [OF Cons.prems(1) _ r Cons.prems(5,6) m(3), of w] Cons.prems(2) by auto
  have same: "vmas st1 u = vmas st u" if "u \<in> set F" for u using s(6) [of u] Cons.prems(3) that by auto
  have "pending st1 mm lo hi u" if u: "u \<in> set F" for u
  proof -
    have un: "u \<noteq> w" using Cons.prems(3) u by auto
    have pu: "pending st mm lo hi u" "pending st mm lo hi w" using Cons.prems(2) u by auto
    have ap: "apart (vmas st) u w" using Cons.prems(4) u un by auto
    have "u \<notin> mm_objs st1 mm \<union> set (objs st1)" using pu(1) s(10) un by (auto simp: pending_def Let_def)
    moreover have "fits (vmas st1) u (mmap_list (mms st1 mm))"
    proof -
      have w: "w \<notin> set (mmap_list (mms st mm))" using pu(2) by (auto simp: pending_def Let_def mm_objs_def)
      have "vm_end (vmas st1 v) \<le> vm_start (vmas st u) \<or> vm_end (vmas st u) \<le> vm_start (vmas st1 v)" if "v \<in> set (mmap_list (mms st1 mm))" for v
      proof (cases "v = w")
        case True
        then show ?thesis using ap s(7,8) by (auto simp: apart_def intro: order_trans)
      next
        case False
        then have "v \<in> set (mmap_list (mms st mm))" using that s(9) by auto
        then show ?thesis using pu(1) s(6) [OF False] by (auto simp: pending_def Let_def fits_def)
      qed
      then show ?thesis using pu(1) same [OF u] by (auto simp: pending_def Let_def fits_def)
    qed
    ultimately show ?thesis using pu(1) same [OF u] by (simp add: pending_def Let_def)
  qed
  moreover have "\<forall>u\<in>set F. \<forall>w\<in>set F. u \<noteq> w \<longrightarrow> apart (vmas st1) u w" using Cons.prems(4) same by (auto simp: apart_def)
  moreover have "pgdir (mms st1 mm) = Some d" using s(11) Cons.prems(5) by (simp add: only_mm_def)
  ultimately obtain st2 where t: "unmap_free mm lo hi F st1 = Some st2" "space_ok st2 mm" "pt_ok (mach st2) D own pool"
    "gone (mach st1) D d (\<lambda>v. \<exists>w\<in>set F. unmap_pages lo hi (vmas st1 w) v) (mach st2)"
    "\<And>a fl. flags_at st2 mm a = Some fl \<longleftrightarrow> flags_at st1 mm a = Some fl \<or> (\<exists>w\<in>set F. covers (vmas st1 w) a fl) \<and> \<not> cut lo hi a"
    "mm_objs st2 mm \<union> set (objs st2) \<subseteq> set F \<union> (mm_objs st1 mm \<union> set (objs st1))" "only_mm mm (set F \<union> (mm_objs st1 mm \<union> set (objs st1))) st1 st2"
    using Cons.IH [OF s(2)] Cons.prems(3) s(3) by auto
  have "gone (mach st) D d (\<lambda>v. \<exists>u\<in>set (w # F). unmap_pages lo hi (vmas st u) v) (mach st2)"
    by (rule gone_cong [OF gone_trans [OF s(4) t(4) m(3)]]) (use same in auto)
  moreover have "flags_at st2 mm a = Some fl \<longleftrightarrow> flags_at st mm a = Some fl \<or> (\<exists>u\<in>set (w # F). covers (vmas st u) a fl) \<and> \<not> cut lo hi a" for a fl
    unfolding t(5) s(5) using same by auto
  moreover have "only_mm mm ?S st st1" by (rule only_mm_mono [OF s(11)]) auto
  then have "only_mm mm ?S st st2" by (rule only_mm_trans [OF _ only_mm_mono [OF t(7)]]) (use s(10) in auto)
  ultimately show ?case using s(1) t s(10) by (intro exI [of _ st2]) auto
qed

text \<open>An address space without shared areas.\<close>

definition private_space :: "vmm \<Rightarrow> nat \<Rightarrow> bool" where
  "private_space st mm \<longleftrightarrow> (\<forall>v\<in>set (mmap_list (mms st mm)). vm_flags (vmas st v) AND VM_SHARE = 0)"

lemma private_flags:
  assumes "areas_ok (vmas st) (mmap_list (mms st mm))"
  shows "private_space st mm \<longleftrightarrow> (\<forall>a fl. flags_at st mm a = Some fl \<longrightarrow> fl AND VM_SHARE = 0)"
proof
  assume "private_space st mm"
  then show "\<forall>a fl. flags_at st mm a = Some fl \<longrightarrow> fl AND VM_SHARE = 0" by (auto simp: flags_at_iff [OF assms] private_space_def)
next
  assume f: "\<forall>a fl. flags_at st mm a = Some fl \<longrightarrow> fl AND VM_SHARE = 0"
  have "vm_flags (vmas st v) AND VM_SHARE = 0" if v: "v \<in> set (mmap_list (mms st mm))" for v
  proof -
    have "flags_at st mm (vm_start (vmas st v)) = Some (vm_flags (vmas st v))" using v assms by (auto simp: flags_at_iff [OF assms] areas_ok_def)
    then show ?thesis using f by blast
  qed
  then show "private_space st mm" by (simp add: private_space_def)
qed

text \<open>No shared area meets the range.\<close>

definition private_range :: "vmm \<Rightarrow> nat \<Rightarrow> u32 \<Rightarrow> u32 \<Rightarrow> bool" where
  "private_range st mm lo hi \<longleftrightarrow> (\<forall>v\<in>set (mmap_list (mms st mm)). vm_start (vmas st v) < hi \<and> lo < vm_end (vmas st v) \<longrightarrow> vm_flags (vmas st v) AND VM_SHARE = 0)"

lemma private_rangeI:
  assumes "areas_ok (vmas st) (mmap_list (mms st mm))" "lo < hi"
    "\<forall>a fl. lo \<le> a \<and> a < hi \<and> flags_at st mm a = Some fl \<longrightarrow> fl AND VM_SHARE = 0"
  shows "private_range st mm lo hi"
  unfolding private_range_def
proof (intro ballI impI)
  fix v assume v: "v \<in> set (mmap_list (mms st mm))" "vm_start (vmas st v) < hi \<and> lo < vm_end (vmas st v)"
  let ?a = "max lo (vm_start (vmas st v))"
  have "vm_start (vmas st v) \<le> ?a" "?a < vm_end (vmas st v)" "lo \<le> ?a" "?a < hi" using v assms(1,2) by (auto simp: areas_ok_def)
  moreover from this v(1) have "flags_at st mm ?a = Some (vm_flags (vmas st v))" using flags_at_iff [OF assms(1)] by blast
  ultimately show "vm_flags (vmas st v) AND VM_SHARE = 0" using assms(3) by blast
qed

text \<open>The result of unmapping a range.\<close>

definition unmapped_space :: "nat \<Rightarrow> nat set \<Rightarrow> (nat \<Rightarrow> nat) \<Rightarrow> nat set \<Rightarrow> nat \<Rightarrow> u32 \<Rightarrow> u32 \<Rightarrow> vmm \<Rightarrow> vmm \<Rightarrow> bool" where
  "unmapped_space mm D own pool d lo hi st st' \<longleftrightarrow> space_ok st' mm \<and> pt_ok (mach st') D own pool
     \<and> flags_at st' mm = (\<lambda>a. if lo \<le> a \<and> a < hi then None else flags_at st mm a)
     \<and> gone (mach st) D d (\<lambda>v. lo \<le> page_addr v \<and> page_addr v < hi \<and> flags_at st mm (page_addr v) \<noteq> None) (mach st')
     \<and> mm_objs st' mm \<union> set (objs st') \<subseteq> mm_objs st mm \<union> set (objs st)
     \<and> only_mm mm (mm_objs st mm \<union> set (objs st)) st st'"

lemma middle_ok:
  assumes ok: "space_ok st mm" and v: "v \<in> set (mmap_list (mms st mm))" "vm_start (vmas st v) < lo" "hi < vm_end (vmas st v)" "vm_flags (vmas st v) AND VM_SHARE = 0"
    and r: "USER_ACCESS lo hi" "lo mod PGSIZE = 0" "hi mod PGSIZE = 0"
    and m: "pgdir (mms st mm) = Some d" "pt_ok (mach st) D own pool" "d \<in> D"
    and c: "vma_create (vm_start (vmas st v)) lo (vm_flags (vmas st v)) st = (Some nv, st1)"
  shows "\<exists>st2 st3 st4. vma_resize v hi (vm_end (vmas st v)) st1 = Some st2 \<and> insert_vma_struct mm nv st2 = Some st3
    \<and> on_pgdir mm (\<lambda>d. unmap_range d lo hi) st3 = Some st4 \<and> unmapped_space mm D own pool d lo hi st st4"
proof -
  let ?a = "vmas st v" and ?vs = "mmap_list (mms st mm)" and ?S = "mm_objs st mm \<union> set (objs st)"
  have mok: "mm_ok st mm" and ar: "areas_ok (vmas st) ?vs" using ok by (simp_all add: space_ok_def mm_ok_def)
  have lh: "lo < hi" using r(1) by (simp add: USER_ACCESS_def)
  have va: "USER_ACCESS (vm_start ?a) (vm_end ?a)" "vm_start ?a mod PGSIZE = 0" "vm_end ?a mod PGSIZE = 0" using ok v(1) by (auto simp: space_ok_def)
  show ?thesis
  proof (rule vma_create_cases [OF mok, where lo = "vm_start ?a" and hi = lo and fl = "vm_flags ?a"])
    assume "vma_create (vm_start ?a) lo (vm_flags ?a) st = (None, st)"
    then show ?thesis using c by simp
  next
    fix n os st'
    assume n: "objs st = n # os" "vma_create (vm_start ?a) lo (vm_flags ?a) st = (Some n, st')"
      "st' = upd_vma n (\<lambda>a. a\<lparr>vm_start := vm_start ?a, vm_end := lo, vm_flags := vm_flags ?a, vm_shmem := None, shmem_off := 0\<rparr>) (st\<lparr>objs := os\<rparr>)"
      "mm_ok st' mm" "n \<notin> mm_objs st mm \<union> set os" "mms st' = mms st" "mm_objs st' mm = mm_objs st mm" "same_env st st'"
      "\<And>w. w \<in> set ?vs \<Longrightarrow> vmas st' w = vmas st w" "only_mm mm (set (objs st)) st st'"
    have eq: "nv = n" "st1 = st'" using c n(2) by auto
    have nn: "n \<notin> set ?vs" "n \<noteq> v" using n(5) v(1) by (auto simp: mm_objs_def)
    have n1: "vm_start (vmas st1 n) = vm_start ?a" "vm_end (vmas st1 n) = lo" "vm_flags (vmas st1 n) = vm_flags ?a" "objs st1 = os"
      by (simp_all add: n(3) eq(2) upd_vma_def)
    have v1: "vmas st1 v = ?a" using n(9) [OF v(1)] eq(2) by simp
    define st2 where "st2 = resized v hi (vm_end ?a) st1"
    have rs: "vma_resize v hi (vm_end ?a) st1 = Some st2" unfolding st2_def
      using v r va lh v1 by (intro vma_resize_eq) auto
    have ok2: "mm_ok st2 mm" unfolding st2_def using n(4) v1 v lh eq(2) by (intro mm_ok_resized) auto
    have l2: "mmap_list (mms st2 mm) = ?vs" "mms st2 = mms st" "objs st2 = os" "mm_objs st2 mm = mm_objs st mm" using n(6) eq(2) n1(4) by (simp_all add: st2_def mm_objs_def)
    have w2: "vmas st2 w = vmas st w" if "w \<in> set ?vs" "w \<noteq> v" for w using n(9) that eq(2) by (simp add: st2_def)
    have x2: "vm_start (vmas st2 v) = hi" "vm_end (vmas st2 v) = vm_end ?a" "vm_flags (vmas st2 v) = vm_flags ?a"
      "vm_start (vmas st2 n) = vm_start ?a" "vm_end (vmas st2 n) = lo" "vm_flags (vmas st2 n) = vm_flags ?a"
      using n1 v1 nn by (simp_all add: st2_def)
    have dj: "vm_end (vmas st w) \<le> vm_start ?a \<or> vm_end ?a \<le> vm_start (vmas st w)" if "w \<in> set ?vs" "w \<noteq> v" for w
    proof -
      obtain us ws where vs: "?vs = us @ v # ws" using v(1) by (meson split_list)
      then show ?thesis using ar that by (auto simp: areas_ok_append areas_ok_Cons)
    qed
    have fit: "fits (vmas st2) n (mmap_list (mms st2 mm))"
    proof -
      have "vm_end (vmas st2 w) \<le> vm_start ?a \<or> lo \<le> vm_start (vmas st2 w)" if "w \<in> set ?vs" for w
        using dj [OF that] w2 [OF that] x2 lh v by (cases "w = v") (auto intro: order_trans less_imp_le)
      then show ?thesis using v(2) unfolding fits_def l2 x2 by auto
    qed
    obtain st3 where s3: "insert_vma_struct mm n st2 = Some st3" "mm_ok st3 mm"
      "mmap_list (mms st3 mm) = lower (vmas st2) n ?vs @ n # upper (vmas st2) n ?vs" "vmas st3 = (vmas st2)(n := (vmas st2 n)\<lparr>vm_mm := mm\<rparr>)"
      "same_env st2 st3" "set (objs st3) \<subseteq> set os" "mm_objs st3 mm \<subseteq> insert n (mm_objs st mm \<union> set os)" "only_mm mm (insert n (mm_objs st mm \<union> set os)) st2 st3"
      using insert_vma_struct_ok [OF ok2, of n] n(5) fit l2 by metis
    have set3: "set (mmap_list (mms st3 mm)) = insert n (set ?vs)" unfolding s3(3) by (rule set_placed)
    have v3: "vm_start (vmas st3 w) = vm_start (vmas st2 w) \<and> vm_end (vmas st3 w) = vm_end (vmas st2 w) \<and> vm_flags (vmas st3 w) = vm_flags (vmas st2 w)" for w
      by (simp add: s3(4))
    have "mach st3 = mach st" "pgdir (mms st3 mm) = Some d"
      using s3(5,8) n(8) eq(2) m(1) l2(2) by (simp_all add: same_env_def only_mm_def st2_def)
    moreover obtain m' where m': "unmap_range d lo hi (mach st) = Some m'" "pt_ok m' D own pool" "unmapped (mach st) D d (PPN lo) (PPN hi) m'"
      using unmap_range_ok [OF m(2,3) r] by blast
    ultimately have up: "on_pgdir mm (\<lambda>d. unmap_range d lo hi) st3 = Some (st3\<lparr>mach := m'\<rparr>)" by (simp add: on_pgdir_def do_mach_def)
    have ac: "USER_ACCESS (vm_start ?a) lo" "USER_ACCESS hi (vm_end ?a)" using va(1) r(1) v lh by (auto simp: USER_ACCESS_def)
    have sok: "space_ok st3 mm"
    proof -
      have "USER_ACCESS (vm_start (vmas st3 w)) (vm_end (vmas st3 w)) \<and> vm_start (vmas st3 w) mod PGSIZE = 0 \<and> vm_end (vmas st3 w) mod PGSIZE = 0"
        if "w \<in> insert n (set ?vs)" for w
        using that ok ac va r w2 [of w] x2 v3 [of w] by (cases "w = n"; cases "w = v") (auto simp: space_ok_def)
      then show ?thesis using s3(2) set3 by (auto simp: space_ok_def)
    qed
    have ar3: "areas_ok (vmas st3) (mmap_list (mms st3 mm))" using s3(2) by (simp add: mm_ok_def)
    have only: "w = v" if "w \<in> set ?vs" "vm_start (vmas st w) \<le> a" "a < vm_end (vmas st w)" "lo \<le> a" "a < hi" for w a
    proof -
      have "vm_start ?a \<le> a" "a < vm_end ?a" using v that(4,5) by auto
      then show ?thesis using first_above_hit [OF ar that(1-3)] first_above_hit [OF ar v(1)] by simp
    qed
    have fl3: "flags_at st3 mm a = Some fl \<longleftrightarrow> \<not> (lo \<le> a \<and> a < hi) \<and> flags_at st mm a = Some fl" for a fl
    proof -
      have "(\<exists>w\<in>insert n (set ?vs). covers (vmas st2 w) a fl) \<longleftrightarrow> \<not> (lo \<le> a \<and> a < hi) \<and> (\<exists>w\<in>set ?vs. covers (vmas st w) a fl)"
      proof
        assume "\<exists>w\<in>insert n (set ?vs). covers (vmas st2 w) a fl"
        then obtain w where w: "w \<in> insert n (set ?vs)" "covers (vmas st2 w) a fl" by blast
        show "\<not> (lo \<le> a \<and> a < hi) \<and> (\<exists>w\<in>set ?vs. covers (vmas st w) a fl)"
        proof (cases "w = n \<or> w = v")
          case True
          then have "covers ?a a fl" "\<not> (lo \<le> a \<and> a < hi)" using w(2) x2 v lh by (auto simp: covers_def)
          then show ?thesis using v(1) by blast
        next
          case False
          then have "w \<in> set ?vs" "covers (vmas st w) a fl" using w w2 [of w] by auto
          then show ?thesis using only [of w a] False by (auto simp: covers_def)
        qed
      next
        assume R: "\<not> (lo \<le> a \<and> a < hi) \<and> (\<exists>w\<in>set ?vs. covers (vmas st w) a fl)"
        then obtain w where w: "w \<in> set ?vs" "covers (vmas st w) a fl" by blast
        show "\<exists>w\<in>insert n (set ?vs). covers (vmas st2 w) a fl"
        proof (cases "w = v")
          case True
          then have "covers (vmas st2 n) a fl \<or> covers (vmas st2 v) a fl" using w R x2 by (auto simp: covers_def)
          then show ?thesis using v(1) by blast
        next
          case False
          then show ?thesis using w w2 [of w] by (intro bexI [of _ w]) simp_all
        qed
      qed
      then show ?thesis unfolding flags_at_iff [OF ar3] flags_at_iff [OF ar] set3 covers_def v3 [THEN conjunct1] v3 [THEN conjunct2, THEN conjunct1] v3 [THEN conjunct2, THEN conjunct2] .
    qed
    have "gone (mach st) D d (\<lambda>p. lo \<le> page_addr p \<and> page_addr p < hi \<and> flags_at st mm (page_addr p) \<noteq> None) m'"
    proof (rule gone_cong [OF unmapped_gone [OF m'(3)]])
      fix p
      assume p: "p < UVN"
      have "flags_at st mm (page_addr p) = Some (vm_flags ?a)" if "lo \<le> page_addr p" "page_addr p < hi"
        using that v lh by (auto simp: flags_at_iff [OF ar] intro!: bexI [OF _ v(1)])
      then show "PPN lo \<le> p \<and> p < PPN hi \<longleftrightarrow> lo \<le> page_addr p \<and> page_addr p < hi \<and> flags_at st mm (page_addr p) \<noteq> None"
        using aligned_PPN [OF r(2) p] aligned_PPN [OF r(3) p] by auto
    qed
    moreover have "flags_at st3 mm = (\<lambda>a. if lo \<le> a \<and> a < hi then None else flags_at st mm a)"
      by (rule ext) (metis fl3 not_None_eq)
    moreover have "only_mm mm ?S st (st3\<lparr>mach := m'\<rparr>)"
    proof -
      have "only_mm mm ?S st st1" using only_mm_mono [OF n(10)] eq(2) by auto
      moreover have "only_mm mm ?S st1 st2" using v(1) by (auto simp: only_mm_def st2_def same_outside_def mm_objs_def)
      moreover have "only_mm mm ?S st2 st3" using only_mm_mono [OF s3(8), of ?S] n(1) by auto
      ultimately have "only_mm mm ?S st st3" using only_mm_trans by blast
      then show ?thesis by (simp add: only_mm_def)
    qed
    ultimately have "unmapped_space mm D own pool d lo hi st (st3\<lparr>mach := m'\<rparr>)"
      using sok m'(2) s3(6,7) n(1) unfolding unmapped_space_def by auto
    then show ?thesis using rs s3(1) up eq by blast
  qed
qed

lemma unmapped_nothing:
  assumes "space_ok st mm" "space_ok st' mm" "pt_ok (mach st) D own pool" "mach st' = mach st" "flags_at st' mm = flags_at st mm"
    "\<forall>a. lo \<le> a \<and> a < hi \<longrightarrow> flags_at st mm a = None" "mm_objs st' mm \<union> set (objs st') \<subseteq> mm_objs st mm \<union> set (objs st)"
    "only_mm mm (mm_objs st mm \<union> set (objs st)) st st'"
  shows "unmapped_space mm D own pool d lo hi st st'"
proof -
  have "flags_at st mm = (\<lambda>a. if lo \<le> a \<and> a < hi then None else flags_at st mm a)" using assms(6) by auto
  moreover have "gone (mach st) D d (\<lambda>v. lo \<le> page_addr v \<and> page_addr v < hi \<and> flags_at st mm (page_addr v) \<noteq> None) (mach st)"
  proof (rule gone_none)
    fix v
    show "\<not> (lo \<le> page_addr v \<and> page_addr v < hi \<and> flags_at st mm (page_addr v) \<noteq> None)" using assms(6) [THEN spec, of "page_addr v"] by simp
  qed
  ultimately show ?thesis unfolding unmapped_space_def assms(4,5) using assms(2,3,7,8) by blast
qed

text \<open>The areas that the range overlaps, when no area contains it.\<close>

lemma collected:
  assumes ar: "areas_ok f (us @ v # ws)" and lh: "lo < hi" and us: "\<forall>u\<in>set us. vm_end (f u) \<le> lo" and v: "lo < vm_end (f v)" "vm_start (f v) < hi"
    "\<not> (vm_start (f v) < lo \<and> hi < vm_end (f v))"
  defines "F \<equiv> takeWhile (\<lambda>w. vm_start (f w) < hi) (v # ws)" and "G \<equiv> us @ dropWhile (\<lambda>w. vm_start (f w) < hi) (v # ws)"
  shows "w \<in> set F \<Longrightarrow> vm_start (f w) < hi \<and> lo < vm_end (f w) \<and> \<not> (vm_start (f w) < lo \<and> hi < vm_end (f w)) \<and> fits f w G"
    "u \<in> set F \<Longrightarrow> w \<in> set F \<Longrightarrow> u \<noteq> w \<Longrightarrow> apart f u w" "w \<in> set G \<Longrightarrow> vm_end (f w) \<le> lo \<or> hi \<le> vm_start (f w)"
    "set F \<union> set G = set (us @ v # ws)" "distinct F" "set F \<inter> set G = {}"
proof -
  define R where "R = dropWhile (\<lambda>w. vm_start (f w) < hi) (v # ws)"
  have GR: "G = us @ R" by (simp only: G_def R_def)
  have vw: "areas_ok f (v # ws)" and uo: "\<forall>u\<in>set us. \<forall>w\<in>set (v # ws). vm_end (f u) \<le> vm_start (f w)" using ar by (auto simp: areas_ok_append)
  have sp: "F @ R = v # ws" unfolding F_def R_def by (rule takeWhile_dropWhile_id)
  have fr: "areas_ok f F" "areas_ok f R" "\<forall>a\<in>set F. \<forall>b\<in>set R. vm_end (f a) \<le> vm_start (f b)" using vw sp areas_ok_append [of f F R] by auto
  have ne: "vm_start (f w) < vm_end (f w)" if "w \<in> set (us @ v # ws)" for w using ar that unfolding areas_ok_def by blast
  have FR: "set F \<union> set R = set (v # ws)" unfolding set_append [symmetric] by (simp only: sp)
  show "set F \<union> set G = set (us @ v # ws)" using FR by (auto simp: GR)
  show "distinct F" using fr(1) by (rule areas_ok_distinct)
  have di: "distinct (us @ F @ R)" using areas_ok_distinct [OF ar] sp by simp
  then show "set F \<inter> set G = {}" by (auto simp: GR)
  have start: "vm_start (f w) < hi" if "w \<in> set F" for w using that unfolding F_def by (rule set_takeWhileD [THEN conjunct2])
  have rest: "hi \<le> vm_start (f w)" if wR: "w \<in> set R" for w
  proof -
    obtain b bs where b: "R = b # bs" using wR by (cases R) auto
    then have "hi \<le> vm_start (f b)" unfolding R_def by (metis (mono_tags, lifting) dropWhile_eq_Cons_conv not_less)
    moreover have "w = b \<or> vm_end (f b) \<le> vm_start (f w)" "vm_start (f b) < vm_end (f b)" using fr(2) that b by (auto simp: areas_ok_Cons)
    ultimately show ?thesis by (auto intro: order_trans less_imp_le)
  qed
  show G: "vm_end (f w) \<le> lo \<or> hi \<le> vm_start (f w)" if "w \<in> set G" for w using that us rest by (auto simp: GR)
  show "apart f u w" if "u \<in> set F" "w \<in> set F" "u \<noteq> w"
  proof -
    obtain xs ys where "F = xs @ u # ys" using \<open>u \<in> set F\<close> by (meson split_list)
    then show ?thesis using fr(1) that by (auto simp: areas_ok_append areas_ok_Cons apart_def)
  qed
  show "vm_start (f w) < hi \<and> lo < vm_end (f w) \<and> \<not> (vm_start (f w) < lo \<and> hi < vm_end (f w)) \<and> fits f w G" if w: "w \<in> set F"
  proof -
    have wv: "w \<in> set (v # ws)" using w FR by auto
    have "w = v \<or> vm_end (f v) \<le> vm_start (f w)" using vw wv by (auto simp: areas_ok_Cons)
    then have "lo < vm_end (f w) \<and> \<not> (vm_start (f w) < lo \<and> hi < vm_end (f w))" using v ne [of w] wv by auto
    moreover have "fits f w G" unfolding fits_def
    proof (intro conjI ballI)
      show "vm_start (f w) < vm_end (f w)" by (rule ne) (use wv in auto)
      fix g
      assume "g \<in> set G"
      then show "vm_end (f g) \<le> vm_start (f w) \<or> vm_end (f w) \<le> vm_start (f g)" using uo wv fr(3) w by (auto simp: GR)
    qed
    ultimately show ?thesis using start [OF w] by blast
  qed
qed

lemma unmap_overlapped:
  assumes ok: "space_ok st mm" and pr: "private_range st mm lo hi" and r: "USER_ACCESS lo hi" "lo mod PGSIZE = 0" "hi mod PGSIZE = 0"
    and m: "pgdir (mms st mm) = Some d" "pt_ok (mach st) D own pool" "d \<in> D"
    and v: "mmap_list (mms st mm) = us @ v # ws" "\<forall>u\<in>set us. vm_end (vmas st u) \<le> lo" "lo < vm_end (vmas st v)" "vm_start (vmas st v) < hi"
      "\<not> (vm_start (vmas st v) < lo \<and> hi < vm_end (vmas st v))"
  shows "\<exists>F st1 st2. unmap_collect mm hi (v # ws) [] st = Some (F, st1) \<and> unmap_free mm lo hi F st1 = Some st2 \<and> unmapped_space mm D own pool d lo hi st st2"
proof -
  let ?f = "vmas st" and ?S = "mm_objs st mm \<union> set (objs st)"
  define F where "F = takeWhile (\<lambda>w. vm_start (?f w) < hi) (v # ws)"
  define G where "G = us @ dropWhile (\<lambda>w. vm_start (?f w) < hi) (v # ws)"
  have mok: "mm_ok st mm" using ok unfolding space_ok_def by blast
  then have ar: "areas_ok ?f (us @ v # ws)" unfolding mm_ok_def v(1) by blast
  have lh: "lo < hi" using r(1) by (simp add: USER_ACCESS_def)
  note col = collected [OF ar lh v(2-5), folded F_def G_def]
  obtain st1 where s: "unmap_collect mm hi (v # ws) [] st = Some (rev F @ [], st1)" "mm_ok st1 mm" "mmap_list (mms st1 mm) = G"
    "vmas st1 = ?f" "objs st1 = objs st" "same_env st st1" "mm_objs st1 mm = mm_objs st mm - set F" "only_mm mm (mm_objs st mm) st st1"
    using collect_ok [OF mok v(1), of hi "[]", folded F_def G_def] by blast
  have sub: "set F \<subseteq> set (mmap_list (mms st mm))" "set G \<subseteq> set (mmap_list (mms st mm))" using col(4) v(1) by auto
  have sok: "space_ok st1 mm" using s(2,3,4) ok sub(2) by (auto simp: space_ok_def)
  have pend: "\<forall>w\<in>set (rev F). pending st1 mm lo hi w"
  proof
    fix w
    assume "w \<in> set (rev F)"
    then have w: "w \<in> set F" "w \<in> set (mmap_list (mms st mm))" using sub by auto
    then have "w \<notin> set (objs st)" using mok by (auto simp: mm_ok_def mm_objs_def)
    then show "pending st1 mm lo hi w" using col(1) [OF w(1)] w ok pr s(3-5,7) by (auto simp: pending_def Let_def space_ok_def private_range_def)
  qed
  have pg: "pgdir (mms st1 mm) = Some d" "mach st1 = mach st" using s(6,8) m(1) by (simp_all add: only_mm_def same_env_def)
  have di: "distinct (rev F)" using col(5) by simp
  have ap: "\<forall>u\<in>set (rev F). \<forall>w\<in>set (rev F). u \<noteq> w \<longrightarrow> apart (vmas st1) u w" using col(2) s(4) by simp
  have pt: "pt_ok (mach st1) D own pool" using m(2) pg(2) by simp
  obtain st2 where t: "unmap_free mm lo hi (rev F) st1 = Some st2" "space_ok st2 mm" "pt_ok (mach st2) D own pool"
    "gone (mach st1) D d (\<lambda>p. \<exists>w\<in>set (rev F). unmap_pages lo hi (vmas st1 w) p) (mach st2)"
    "\<And>a fl. flags_at st2 mm a = Some fl \<longleftrightarrow> flags_at st1 mm a = Some fl \<or> (\<exists>w\<in>set (rev F). covers (vmas st1 w) a fl) \<and> \<not> cut lo hi a"
    "mm_objs st2 mm \<union> set (objs st2) \<subseteq> set (rev F) \<union> (mm_objs st1 mm \<union> set (objs st1))"
    "only_mm mm (set (rev F) \<union> (mm_objs st1 mm \<union> set (objs st1))) st1 st2"
    using unmap_free_ok [OF sok pend di ap r pg(1) pt m(3)] by blast
  have G: "\<not> cut lo hi a" if "w \<in> set G" "covers (?f w) a fl" for w a fl using col(3) [OF that(1)] that(2) by (auto simp: covers_def cut_def)
  have fs: "flags_at st mm a = Some fl \<longleftrightarrow> (\<exists>w\<in>set F. covers (?f w) a fl) \<or> (\<exists>w\<in>set G. covers (?f w) a fl)" for a fl
    using flags_at_iff [of st mm a fl] ar v(1) col(4) unfolding covers_def by auto
  have f1: "flags_at st1 mm a = Some fl \<longleftrightarrow> (\<exists>w\<in>set G. covers (?f w) a fl)" for a fl
    using flags_at_iff [of st1 mm a fl] s(2,3,4) unfolding covers_def by (simp add: mm_ok_def)
  have f2: "flags_at st2 mm a = Some fl \<longleftrightarrow> \<not> cut lo hi a \<and> flags_at st mm a = Some fl" for a fl
    unfolding t(5) f1 fs s(4) using G by auto
  have "flags_at st2 mm = (\<lambda>a. if lo \<le> a \<and> a < hi then None else flags_at st mm a)"
    by (rule ext) (metis f2 cut_def not_None_eq)
  moreover have "gone (mach st) D d (\<lambda>p. lo \<le> page_addr p \<and> page_addr p < hi \<and> flags_at st mm (page_addr p) \<noteq> None) (mach st2)"
  proof (rule gone_cong [OF t(4) [unfolded pg(2)]])
    fix p
    show "(\<exists>w\<in>set (rev F). unmap_pages lo hi (vmas st1 w) p) \<longleftrightarrow> lo \<le> page_addr p \<and> page_addr p < hi \<and> flags_at st mm (page_addr p) \<noteq> None"
      using fs [of "page_addr p"] G [of _ "page_addr p"] unfolding s(4) unmap_pages_def by (auto simp: covers_def cut_def)
  qed
  moreover have "set (rev F) \<union> (mm_objs st1 mm \<union> set (objs st1)) \<subseteq> ?S" using sub s(5,7) by (auto simp: mm_objs_def)
  note inS = this
  moreover have "only_mm mm ?S st st2" using only_mm_trans [OF only_mm_mono [OF s(8)] only_mm_mono [OF t(7) inS]] by blast
  ultimately have "unmapped_space mm D own pool d lo hi st st2" using t(2,3,6) unfolding unmapped_space_def by blast
  then show ?thesis using s(1) t(1) by auto
qed

lemma unmapped_cached:
  assumes "mm_ok st mm" and r: "r = first_above (vmas st) a (mmap_list (mms st mm))" and u: "unmapped_space mm D own pool d lo hi (cached mm r st) st'"
  shows "unmapped_space mm D own pool d lo hi st st'"
proof -
  have oc: "mm_objs (cached mm r st) mm = mm_objs st mm" by (simp add: mm_objs_def tree_objs_def)
  have "only_mm mm (mm_objs st mm \<union> set (objs st)) st (cached mm r st)" using cached_found(2) [OF assms(1), where a = a] r by simp
  moreover have "only_mm mm (mm_objs st mm \<union> set (objs st)) (cached mm r st) st'" using u oc unfolding unmapped_space_def by simp
  ultimately have om: "only_mm mm (mm_objs st mm \<union> set (objs st)) st st'" by (rule only_mm_trans)
  have "flags_at (cached mm r st) mm = flags_at st mm" by (rule ext) simp
  from u [unfolded unmapped_space_def this oc cached_simps] om show ?thesis unfolding unmapped_space_def by blast
qed

lemma mm_unmap_ok:
  assumes ok: "space_ok st mm" and pr: "USER_ACCESS lo hi \<Longrightarrow> private_range st mm lo hi" and lo: "lo = ROUNDDOWN addr PGSIZE" and hi: "hi = ROUNDUP (addr + l) PGSIZE"
    and m: "pgdir (mms st mm) = Some d" "pt_ok (mach st) D own pool" "d \<in> D"
  shows "\<exists>ret st'. mm_unmap mm addr l st = Some (ret, st')
    \<and> (if \<not> USER_ACCESS lo hi then ret = - E_INVAL \<and> st' = st
       else if objs st = [] \<and> (\<exists>v\<in>set (mmap_list (mms st mm)). vm_start (vmas st v) < lo \<and> hi < vm_end (vmas st v))
         then ret = - E_NO_MEM \<and> st' = cached mm (first_above (vmas st) lo (mmap_list (mms st mm))) st
       else ret = 0 \<and> unmapped_space mm D own pool d lo hi st st')"
proof (cases "USER_ACCESS lo hi")
  case False
  then show ?thesis by (simp add: mm_unmap_def lo hi)
next
  case True
  let ?vs = "mmap_list (mms st mm)" and ?f = "vmas st"
  define r where "r = first_above ?f lo ?vs"
  define c where "c = cached mm r st"
  have mok: "mm_ok st mm" and ar: "areas_ok ?f ?vs" using ok unfolding space_ok_def mm_ok_def by blast+
  have lh: "lo < hi" using True by (simp add: USER_ACCESS_def)
  have fv: "find_vma (Some mm) lo st = Some (r, c)" using find_vma_ok [OF mok, of lo] by (simp add: r_def c_def)
  have cs: "vmas c = ?f" "mmap_list (mms c mm) = ?vs" "mach c = mach st" "objs c = objs st" "flags_at c mm = flags_at st mm" "pgdir (mms c mm) = Some d"
    using m(1) by (simp_all add: c_def)
  have oc: "mm_objs c mm = mm_objs st mm" by (simp add: c_def mm_objs_def tree_objs_def)
  have cok: "space_ok c mm" using cached_found(1) [OF mok, of lo] ok cs(1,2) by (simp add: space_ok_def c_def r_def)
  have cpr: "private_range c mm lo hi" using pr [OF True] by (simp add: private_range_def cs)
  have cpt: "pt_ok (mach c) D own pool" using m(2) by (simp add: cs)
  have uc: "unmapped_space mm D own pool d lo hi st st'" if "unmapped_space mm D own pool d lo hi c st'" for st'
    by (rule unmapped_cached [OF mok r_def that [unfolded c_def]])
  note al = ROUND_user [OF lo hi]
  note step = mm_unmap_def [of mm addr l st, folded lo hi, unfolded Let_def fv Option.bind.simps prod.case]
  have inside: "first_above ?f lo ?vs = Some v" if "v \<in> set ?vs" "vm_start (?f v) < lo" "hi < vm_end (?f v)" for v
    using first_above_hit [OF ar that(1), of lo] that lh by simp
  show ?thesis
  proof (cases "case r of None \<Rightarrow> True | Some v \<Rightarrow> hi \<le> vm_start (?f v)")
    case free: True
    then have no: "\<forall>a. lo \<le> a \<and> a < hi \<longrightarrow> flags_at c mm a = None" using range_free(1) [OF ar lh] cs(5) by (simp add: r_def)
    have "unmapped_space mm D own pool d lo hi c c"
      by (rule unmapped_nothing [OF cok cok cpt refl refl no subset_refl only_mm_refl])
    moreover have "mm_unmap mm addr l st = Some (0, c)" using free True by (cases r) (simp_all add: step cs(1))
    moreover have "\<not> (\<exists>v\<in>set ?vs. vm_start (?f v) < lo \<and> hi < vm_end (?f v))"
      using free inside lh by (auto simp: r_def)
    ultimately show ?thesis using True uc by auto
  next
    case False
    then obtain v where v: "r = Some v" "\<not> hi \<le> vm_start (?f v)" by (cases r) auto
    obtain us ws where us: "?vs = us @ v # ws" "lo < vm_end (?f v)" "\<forall>u\<in>set us. vm_end (?f u) \<le> lo" using first_above_SomeD v(1) unfolding r_def by blast
    have vin: "v \<in> set (mmap_list (mms c mm))" unfolding cs us by simp
    show ?thesis
    proof (cases "vm_start (?f v) < lo \<and> hi < vm_end (?f v)")
      case mid: True
      have "vm_start (vmas c v) < hi \<and> lo < vm_end (vmas c v)" using mid lh unfolding cs by (meson less_trans)
      then have "vm_flags (vmas c v) AND VM_SHARE = 0" using cpr vin by (simp add: private_range_def)
      note mi = middle_ok [OF cok vin _ _ this True al cs(6) cpt m(3), unfolded cs(1)]
      have ex: "\<exists>v\<in>set ?vs. vm_start (?f v) < lo \<and> hi < vm_end (?f v)" using mid us(1) by auto
      show ?thesis
      proof (cases "vma_create (vm_start (?f v)) lo (vm_flags (?f v)) c")
        case (Pair nv st1)
        show ?thesis
        proof (cases nv)
          case None
          then have "objs st = []" "st1 = c" using Pair cs(4) by (auto simp: vma_create_def kmalloc_def split: list.splits)
          then show ?thesis using True ex Pair None mid v step by (simp add: cs(1) c_def r_def)
        next
          case (Some n)
          then have "objs st \<noteq> []" using Pair cs(4) by (auto simp: vma_create_def kmalloc_def)
          moreover obtain st2 st3 st4 where s: "vma_resize v hi (vm_end (?f v)) st1 = Some st2" "insert_vma_struct mm n st2 = Some st3"
            "on_pgdir mm (\<lambda>d. unmap_range d lo hi) st3 = Some st4" "unmapped_space mm D own pool d lo hi c st4"
            using mi Pair Some mid by blast
          moreover have "mm_unmap mm addr l st = Some (0, st4)" using True v mid Pair Some s(1-3) by (simp add: step cs(1))
          ultimately show ?thesis using True uc by auto
        qed
      qed
    next
      case out: False
      have dw: "dropWhile (\<lambda>x. x \<noteq> v) ?vs = v # ws"
      proof -
        have "v \<notin> set us" using us(2,3) by auto
        then show ?thesis unfolding us(1) by (subst dropWhile_append2) auto
      qed
      have "\<exists>F st1 st2. unmap_collect mm hi (v # ws) [] c = Some (F, st1) \<and> unmap_free mm lo hi F st1 = Some st2 \<and> unmapped_space mm D own pool d lo hi c st2"
        by (rule unmap_overlapped [OF cok cpr True al cs(6) cpt m(3), of us v ws]) (use us v(2) out cs(1,2) in auto)
      then obtain F st1 st2 where s: "unmap_collect mm hi (v # ws) [] c = Some (F, st1)" "unmap_free mm lo hi F st1 = Some st2" "unmapped_space mm D own pool d lo hi c st2" by blast
      have "mm_unmap mm addr l st = Some (0, st2)" using True v out dw s(1,2) by (auto simp: step cs(1,2))
      moreover have "\<not> (\<exists>v\<in>set ?vs. vm_start (?f v) < lo \<and> hi < vm_end (?f v))" using inside out v(1) by (auto simp: r_def)
      ultimately show ?thesis using True uc [OF s(3)] by auto
    qed
  qed
qed

text \<open>The example of a space whose directory is page 4, with one page mapped.\<close>

definition demo_paged :: "machine \<Rightarrow> vmm" where
  "demo_paged m = demo_vmm\<lparr>mach := m, mms := \<lambda>_. \<lparr>mmap_list = [1, 2], mmap_tree = None, mmap_cache = Some 2, pgdir = Some 4, map_count = 2\<rparr>\<rparr>"

lemma demo_paged_space: "space_ok (demo_paged m) 0" "private_space (demo_paged m) 0"
  unfolding space_ok_def mm_ok_def
  by (simp_all add: demo_paged_def demo_vmm_def demo_vma_def areas_ok_def tree_ok_def tree_objs_def mm_objs_def USER_ACCESS_def private_space_def)

text \<open>
  C13: \<^verbatim>\<open>mm_unmap\<close> refines removing a range of addresses from an abstract address space. On an address
  space of the invariant, for a range in which no address is in a shared area, it ends and never fails an assertion; it answers
  \<^verbatim>\<open>-E_INVAL\<close> when the page-aligned range is empty or not in user space, and \<^verbatim>\<open>-E_NO_MEM\<close> when the range
  lies inside one area and there is no memory to split it, and then no address changes; otherwise exactly
  the addresses of the range leave the address space, the page table entries of its mapped pages are
  cleared in this directory and no other entry changes, exactly the pages that lost their last mapping and that
  nobody holds are freed, page reference counts and the TLB stay consistent, and every other address space is kept.
\<close>

theorem mm_unmap_correct:
  assumes "space_ok st mm" "pgdir (mms st mm) = Some d" "pt_ok (mach st) D own pool" "d \<in> D"
    "lo = ROUNDDOWN addr PGSIZE" "hi = ROUNDUP (addr + l) PGSIZE"
    "\<forall>a fl. lo \<le> a \<and> a < hi \<and> flags_at st mm a = Some fl \<longrightarrow> fl AND VM_SHARE = 0"
  shows "\<exists>ret st'. mm_unmap mm addr l st = Some (ret, st') \<and> space_ok st' mm \<and> pt_ok (mach st') D own pool \<and> (tlb_ok (mach st) D \<longrightarrow> tlb_ok (mach st') D)
    \<and> (if \<not> USER_ACCESS lo hi then ret = - E_INVAL \<and> st' = st
       else if objs st = [] \<and> (\<exists>v\<in>set (mmap_list (mms st mm)). vm_start (vmas st v) < lo \<and> hi < vm_end (vmas st v))
         then ret = - E_NO_MEM \<and> flags_at st' mm = flags_at st mm \<and> mach st' = mach st
       else ret = 0 \<and> flags_at st' mm = (\<lambda>a. if lo \<le> a \<and> a < hi then None else flags_at st mm a)
         \<and> (\<forall>d'\<in>D. \<forall>v<UVN. entry (mach st') d' v =
              (if d' = d \<and> lo \<le> page_addr v \<and> page_addr v < hi \<and> flags_at st mm (page_addr v) \<noteq> None \<and> present (entry (mach st) d v)
               then 0 else entry (mach st) d' v))
         \<and> free_set (phys (mach st')) = free_set (phys (mach st)) \<union> {q. maps (mach st) D q \<noteq> {} \<and> maps (mach st') D q = {} \<and> own q = 0})
    \<and> (\<forall>m. m \<noteq> mm \<and> mm_ok st m \<and> mm_objs st m \<inter> mm_objs st mm = {} \<longrightarrow> mm_ok st' m \<and> flags_at st' m = flags_at st m)"
proof -
  let ?S = "mm_objs st mm \<union> set (objs st)" and ?c = "cached mm (first_above (vmas st) lo (mmap_list (mms st mm))) st"
  let ?in = "\<exists>v\<in>set (mmap_list (mms st mm)). vm_start (vmas st v) < lo \<and> hi < vm_end (vmas st v)"
  have mok: "mm_ok st mm" using assms(1) by (simp add: space_ok_def)
  obtain ret st' where r: "mm_unmap mm addr l st = Some (ret, st')"
    and e: "if \<not> USER_ACCESS lo hi then ret = - E_INVAL \<and> st' = st else if objs st = [] \<and> ?in then ret = - E_NO_MEM \<and> st' = ?c
      else ret = 0 \<and> unmapped_space mm D own pool d lo hi st st'"
  proof -
    have "private_range st mm lo hi" if "USER_ACCESS lo hi"
      using private_rangeI [OF _ _ assms(7)] that mok by (auto simp: mm_ok_def USER_ACCESS_def)
    then show ?thesis using mm_unmap_ok [OF assms(1) _ assms(5,6,2,3,4)] that by blast
  qed
  have cok: "space_ok ?c mm" using cached_found(1) [OF mok, of lo] assms(1) by (simp add: space_ok_def)
  have k: "space_ok st' mm \<and> pt_ok (mach st') D own pool \<and> (tlb_ok (mach st) D \<longrightarrow> tlb_ok (mach st') D) \<and> only_mm mm ?S st st'
      \<and> mm_objs st' mm \<union> set (objs st') \<subseteq> ?S"
  proof (cases "USER_ACCESS lo hi \<and> \<not> (objs st = [] \<and> ?in)")
    case True
    then have "unmapped_space mm D own pool d lo hi st st'" using e by metis
    then show ?thesis unfolding unmapped_space_def gone_def by blast
  next
    case False
    have oc: "mm_objs ?c mm = mm_objs st mm" by (simp add: mm_objs_def tree_objs_def)
    consider "st' = st" | "st' = ?c" using e False by (cases "USER_ACCESS lo hi") simp_all
    then show ?thesis
    proof cases
      case 1
      then show ?thesis using assms(1,3) only_mm_refl by blast
    next
      case 2
      then show ?thesis using cok assms(3) cached_found(2) [OF mok, where a = lo and S = ?S] oc by (simp only: cached_simps) simp
    qed
  qed
  have others: "mm_ok st' m \<and> flags_at st' m = flags_at st m" if m: "m \<noteq> mm" "mm_ok st m" "mm_objs st m \<inter> mm_objs st mm = {}" for m
  proof (rule other_space [OF m(2) _ m(1)])
    show "only_mm mm ?S st st'" using k by blast
    have "mm_objs st m \<inter> set (objs st) = {}" using m(2) by (simp add: mm_ok_def)
    then show "?S \<inter> mm_objs st m = {}" "mm_objs st m \<inter> set (objs st') = {}" using m(3) k by blast+
    show "distinct (objs st')" using k by (simp add: space_ok_def mm_ok_def)
  qed
  have "if \<not> USER_ACCESS lo hi then ret = - E_INVAL \<and> st' = st
       else if objs st = [] \<and> ?in then ret = - E_NO_MEM \<and> flags_at st' mm = flags_at st mm \<and> mach st' = mach st
       else ret = 0 \<and> flags_at st' mm = (\<lambda>a. if lo \<le> a \<and> a < hi then None else flags_at st mm a)
         \<and> (\<forall>d'\<in>D. \<forall>v<UVN. entry (mach st') d' v =
              (if d' = d \<and> lo \<le> page_addr v \<and> page_addr v < hi \<and> flags_at st mm (page_addr v) \<noteq> None \<and> present (entry (mach st) d v)
               then 0 else entry (mach st) d' v))
         \<and> free_set (phys (mach st')) = free_set (phys (mach st)) \<union> {q. maps (mach st) D q \<noteq> {} \<and> maps (mach st') D q = {} \<and> own q = 0}"
  proof (cases "USER_ACCESS lo hi \<and> \<not> (objs st = [] \<and> ?in)")
    case True
    then have "ret = 0" "unmapped_space mm D own pool d lo hi st st'" using e by metis+
    moreover from this(2) have "free_set (phys (mach st')) = free_set (phys (mach st)) \<union> {q. maps (mach st) D q \<noteq> {} \<and> maps (mach st') D q = {} \<and> own q = 0}"
      using gone_freed [OF _ assms(3)] unfolding unmapped_space_def by blast
    ultimately show ?thesis using True unfolding unmapped_space_def gone_def conj_assoc by (simp only: not_True_eq_False if_False simp_thms) blast
  next
    case False
    moreover have "flags_at ?c mm = flags_at st mm" by (rule ext) simp
    ultimately show ?thesis using e by (auto split: if_splits)
  qed
  then show ?thesis using r k others by blast
qed

text \<open>Unmapping \<open>[0x301000, 0x401000)\<close> takes the end of one area and the start of the other.\<close>

theorem mm_unmap_correct_witness:
  "\<exists>st'. mm_unmap 0 0x301000 0x100000 (demo_paged demo_machine) = Some (0, st') \<and> flags_at st' 0 0x301fff = None
    \<and> flags_at st' 0 0x300fff = Some VM_READ \<and> flags_at st' 0 0x401000 = Some (VM_READ OR VM_WRITE OR VM_STACK)"
proof -
  let ?st = "demo_paged demo_machine"
  have lo: "0x301000 = ROUNDDOWN 0x301000 PGSIZE" and hi: "0x401000 = ROUNDUP (0x301000 + 0x100000) PGSIZE" by (simp_all add: ROUNDDOWN_def ROUNDUP_def)
  have s: "pgdir (mms ?st 0) = Some 4" "pt_ok (mach ?st) {4, 5} (\<lambda>_. 0) {0..<6}" "objs ?st = [5, 6, 7]" using demo_ok by (simp_all add: demo_paged_def demo_vmm_def)
  have "USER_ACCESS 0x301000 0x401000" by (simp add: USER_ACCESS_def)
  moreover have "flags_at ?st 0 0x300fff = Some VM_READ" "flags_at ?st 0 0x401000 = Some (VM_READ OR VM_WRITE OR VM_STACK)"
    by (simp_all add: flags_at_def demo_paged_def demo_vmm_def demo_vma_def)
  moreover have "areas_ok (vmas ?st) (mmap_list (mms ?st 0))" using demo_paged_space(1) [of demo_machine] by (simp add: space_ok_def mm_ok_def)
  then have "\<forall>a fl. 0x301000 \<le> a \<and> a < 0x401000 \<and> flags_at ?st 0 a = Some fl \<longrightarrow> fl AND VM_SHARE = 0"
    using private_flags demo_paged_space(2) by blast
  ultimately show ?thesis using mm_unmap_correct [OF demo_paged_space(1) s(1,2) _ lo hi] s(3) by auto
qed

end
