(* ===== verification/VmmFault.thy ===== *)
theory VmmFault
  imports VmmUnmap
begin

text \<open>
  The page fault handler, \<^verbatim>\<open>do_pgfault\<close> of \<^verbatim>\<open>kern/mm/vmm.c\<close>: demand paging and copy-on-write outside of
  shared areas.
\<close>

section \<open>Single pages\<close>

lemma own_free: "pt_ok st D own pool \<Longrightarrow> p \<in> free_set (phys st) \<Longrightarrow> own p = 0"
  by (auto simp: pt_ok_def refs_ok_def user_page_def owned_def)

text \<open>Taking a page from the allocator, and giving it back.\<close>

definition taken :: "machine \<Rightarrow> nat set \<Rightarrow> (nat \<Rightarrow> nat) \<Rightarrow> nat set \<Rightarrow> nat \<Rightarrow> buddy \<Rightarrow> bool" where
  "taken st D own pool p b \<longleftrightarrow> pt_ok (st\<lparr>phys := b\<rparr>) D own (pool - {p}) \<and> p \<in> pool \<and> user_page (st\<lparr>phys := b\<rparr>) D p \<and> maps (st\<lparr>phys := b\<rparr>) D p = {}
     \<and> own p = 0 \<and> ref (pages b p) = 0 \<and> p \<in> free_set (phys st) \<and> buddy_inv b \<and> region_ok b = region_ok (phys st)
     \<and> free_set b = free_set (phys st) - {p} \<and> (\<forall>q. ref (pages b q) = refcount st q)"

lemma alloc_one:
  assumes ok: "pt_ok st D own pool"
  obtains (none) "alloc_pages 1 st = Some (None, st)" "free_set (phys st) = {}"
  | (some) p b where "alloc_pages 1 st = Some (Some p, st\<lparr>phys := b\<rparr>)" "taken st D own pool p b"
proof -
  have tok: "tables_ok st D" and pok: "phys_ok st" and rok: "refs_ok st D own" and inv: "buddy_inv (phys st)"
    using ok by (simp_all add: pt_ok_def phys_ok_def)
  show ?thesis
  proof (rule bc.take_page [OF inv])
    assume "buddy_alloc_pages 1 (phys st) = Some (None, phys st)" "free_set (phys st) = {}"
    then show ?thesis by (intro none) (simp add: alloc_pages_eq)
  next
    fix p b
    assume b: "buddy_alloc_pages 1 (phys st) = Some (Some p, b)" "buddy_inv b" "region_ok b = region_ok (phys st)"
      "region_ok (phys st) p 1" "p \<in> free_set (phys st)" "free_set b = free_set (phys st) - {p}"
      "(\<lambda>q. ref (pages b q)) = (\<lambda>q. refcount st q)"
    let ?st1 = "st\<lparr>phys := b\<rparr>"
    have rc: "ref (pages b q) = refcount st q" for q using b(7) by (simp add: fun_eq_iff)
    have own1: "owned ?st1 q \<longleftrightarrow> owned st q \<or> q = p" for q using b(3-6) by (auto simp: owned_def)
    note v = view_cong [of ?st1 st, simplified]
    have new: "p \<notin> D" "p \<notin> tables st D" "maps st D p = {}" "refcount st p = 0"
      using tok pok rok b(5) by (auto simp: tables_ok_def phys_ok_def refs_ok_def owned_def user_page_def)
    have eq: "free_set b \<union> used st D own = pool - {p}" "p \<in> pool"
      using b(5,6) used_not_free [OF ok] ok by (auto simp: pt_ok_def)
    have "pt_ok ?st1 D own (pool - {p})"
      unfolding eq(1) [symmetric] using pok rc b(6) by (intro pt_ok_phys [OF ok b(2,3)]) (auto simp: owned_def phys_ok_def)
    then show ?thesis
      using b own1 new rc v own_free [OF ok b(5)] eq(2)
      by (intro some [of p b]) (simp_all add: alloc_pages_eq taken_def user_page_def)
  qed
qed

lemma free_taken:
  assumes "taken st D own pool p b"
  obtains b' where "buddy_free_pages p 1 b = Some b'" "buddy_inv b'" "region_ok b' = region_ok (phys st)"
    "free_set b' = free_set (phys st)" "\<forall>q. ref (pages b' q) = refcount st q"
proof -
  have b: "buddy_inv b" "region_ok b = region_ok (phys st)" "region_ok (phys st) p 1" "p \<in> free_set (phys st)"
      "free_set b = free_set (phys st) - {p}" "\<forall>q. ref (pages b q) = refcount st q" "ref (pages b p) = 0"
    using assms by (auto simp: taken_def user_page_def owned_def)
  have "{p..<p + 1} = {p}" by auto
  then obtain b' where b': "buddy_free_pages p 1 b = Some b'" "buddy_inv b'" "region_ok b' = region_ok (phys st)"
      "free_set b' = free_set (phys st)"
    using bm.free_law [OF b(1), of p 1] b(2-5) by (auto simp: insert_absorb)
  have "ref (pages b' q) = refcount st q" for q
    using bc.free_refs [OF b'(1)] b(6, 7) by (auto simp: fun_eq_iff)
  then show ?thesis using that b' by blast
qed

text \<open>Writing into a page that is neither a directory nor a page table.\<close>

lemma data_write:
  fixes f :: "nat \<Rightarrow> u32"
  assumes "n \<notin> D" "n \<notin> tables st D"
  defines "st' \<equiv> st\<lparr>frames := (frames st)(n := f)\<rparr>"
  shows "\<forall>d\<in>D. \<forall>v<UVN. entry st' d v = entry st d v" "tables st' D = tables st D" "maps st' D = maps st D"
    "pt_ok st' D own pool = pt_ok st D own pool" "user_page st' D = user_page st D"
proof -
  have dir: "frames st' d = frames st d" if "d \<in> D" for d using that assms(1) by (auto simp: st'_def)
  show e: "\<forall>d\<in>D. \<forall>v<UVN. entry st' d v = entry st d v"
  proof (intro ballI allI impI)
    fix d v assume dv: "d \<in> D" "v < UVN"
    then have "v div 1024 < UDX" by (simp add: less_mult_imp_div_less)
    then have "PPN (frames st d (v div 1024)) \<noteq> n" if "present (frames st d (v div 1024))"
      using in_tables [OF dv(1) _ that] assms(2) by auto
    then show "entry st' d v = entry st d v" using dir [OF dv(1)] by (auto simp: entry_def Let_def st'_def)
  qed
  show t: "tables st' D = tables st D" using dir by (intro tables_cong) simp
  show m: "maps st' D = maps st D" using e by (auto simp: maps_def fun_eq_iff)
  have o: "owned st' = owned st" by (simp add: owned_def st'_def fun_eq_iff)
  show u: "user_page st' D = user_page st D" by (simp add: user_page_def t o fun_eq_iff)
  have tk: "tables_ok st' D = tables_ok st D" unfolding tables_ok_def t o using dir by auto
  show "pt_ok st' D own pool = pt_ok st D own pool" unfolding pt_ok_def tk refs_ok_def m u used_def t by (simp add: phys_ok_def st'_def)
qed

lemma page_remove_pte_frames: "page_remove_pte d la e st = Some st' \<Longrightarrow> q \<noteq> fst e \<Longrightarrow> frames st' q = frames st q"
  by (cases e) (auto simp: page_remove_pte_def page_ref_dec_def Let_def bind_Some_iff free_pages_eq fun_eq_iff split: if_splits)

lemma page_insert_frames:
  assumes "tables_ok st D" "d \<in> D" "PPN la < UVN" "present (frames st d (PDX la))" "page_insert d p la perm st = Some (r, st')"
    "q \<noteq> PPN (frames st d (PDX la))"
  shows "frames st' q = frames st q"
proof -
  let ?e = "(PPN (frames st d (PDX la)), PTX la)"
  obtain s where s: "replace_page d p la ?e st = Some s" "st' = tlb_invalidate d la (write_entry ?e (page2pa p OR PTE_P OR perm) s)"
    using assms(5) get_pte_present [OF assms(1-4), of True] by (auto simp: page_insert_replace bind_Some_iff)
  have "frames s q = frames st q"
    using s(1) page_remove_pte_frames [of d la ?e "upd_ref p (snd \<circ> page_ref_inc) st" s q] assms(6)
    by (auto simp: replace_page_def Let_def bind_Some_iff split: if_splits)
  then show ?thesis using s(2) assms(6) by (simp add: fun_eq_iff)
qed

lemma inc_dec: "upd_ref p (snd \<circ> page_ref_dec) (upd_ref p (snd \<circ> page_ref_inc) st) = st"
  by (cases st) (simp add: upd_ref_def upd_page_def page_ref_inc_def page_ref_dec_def)

lemma page_insert_same:
  assumes "tables_ok st D" "d \<in> D" "PPN la < UVN" "present (frames st d (PDX la))" "present (entry st d (PPN la))"
    "PPN (entry st d (PPN la)) = p" "p < npage (phys st)"
  shows "page_insert d p la perm st =
    Some (0, tlb_invalidate d la (write_entry (PPN (frames st d (PDX la)), PTX la) (page2pa p OR PTE_P OR perm) st))"
proof -
  let ?e = "(PPN (frames st d (PDX la)), PTX la)" and ?st = "upd_ref p (snd \<circ> page_ref_inc) st"
  have rd: "read_entry ?e ?st = entry st d (PPN la)" using assms(4) by (simp add: read_entry_def entry_la)
  have "pte2page (entry st d (PPN la)) ?st = Some p"
    using assms(5-7) by (simp add: pte2page_def pa2page_def present_def upd_page_def)
  then have "replace_page d p la ?e st = Some st"
    using assms(5) by (simp add: replace_page_def rd present_def inc_dec)
  then show ?thesis by (simp add: page_insert_replace get_pte_present [OF assms(1-4)])
qed

text \<open>The handler for a write to a page mapped without write permission.\<close>

lemma copy_page_fault:
  assumes ok: "pt_ok st D own pool" and d: "d \<in> D" "PPN la < UVN" "present (frames st d (PDX la))"
    and x: "present (entry st d (PPN la))" and perm: "perm < 4096" and n: "taken st D own pool n b"
  defines "q \<equiv> PPN (entry st d (PPN la))"
  shows "\<exists>st'. page_insert d n la perm (st\<lparr>phys := b, frames := (frames st)(n := frames st q)\<rparr>) = Some (0, st') \<and> pt_ok st' D own pool
    \<and> remapped st D d (PPN la) (page2pa n OR PTE_P OR perm) st' \<and> frames st' n = frames st q"
proof -
  let ?st1 = "st\<lparr>phys := b\<rparr>"
  define st2 where "st2 = ?st1\<lparr>frames := (frames ?st1)(n := frames st q)\<rparr>"
  note v = view_cong [of ?st1 st, simplified]
  have n1: "pt_ok ?st1 D own (pool - {n})" "user_page ?st1 D n" "maps ?st1 D n = {}" "own n = 0" "ref (pages b n) = 0"
    using n unfolding taken_def by blast+
  have nd: "n \<notin> D" "n \<notin> tables ?st1 D" using n1(2) by (simp_all add: user_page_def)
  note w = data_write [OF nd, of "frames st q", folded st2_def]
  have ok2: "pt_ok st2 D own (pool - {n})" using w(4) n1(1) by simp
  have pn: "insert n (pool - {n}) = pool" using n by (auto simp: taken_def)
  have u: "user_page st2 D n" "unat (refcount st2 n) = card (maps st2 D n) + own n" "refcount st2 n \<noteq> - 1"
    using w(3, 5) n1 by (simp_all add: st2_def)
  have dir: "frames st2 e = frames st e" if "e \<in> D" for e using that nd by (auto simp: st2_def)
  have pr2: "present (frames st2 d (PDX la))" using d dir by simp
  obtain st' where st': "page_insert d n la perm st2 = Some (0, st')" "pt_ok st' D own pool" "remapped st2 D d (PPN la) (page2pa n OR PTE_P OR perm) st'"
    using page_insert_ok [OF ok2 d(1, 2) perm u, unfolded pn] pr2 by blast
  have "n \<noteq> PPN (frames st2 d (PDX la))"
    using in_tables [of d D "PDX la" ?st1] d user_index [OF d(2)] nd(2) dir [OF d(1)] by auto
  then have "frames st' n = frames st2 n"
    using page_insert_frames [OF _ d(1, 2) pr2 st'(1)] ok2 by (simp add: pt_ok_def)
  then have "frames st' n = frames st q" by (simp add: st2_def)
  moreover have "remapped st D d (PPN la) (page2pa n OR PTE_P OR perm) st'"
  proof -
    have "entry st2 d' v' = entry st d' v'" if "d' \<in> D" "v' < UVN" for d' v' using w(1) v(1) that by simp
    then show ?thesis using st'(3) dir unfolding remapped_def by (auto simp: st2_def)
  qed
  ultimately show ?thesis using st'(1, 2) by (auto simp: st2_def)
qed

lemma reuse_page_fault:
  assumes ok: "pt_ok st D own pool" and d: "d \<in> D" "PPN la < UVN" "present (frames st d (PDX la))"
    and x: "present (entry st d (PPN la))" and perm: "perm < 4096" and n: "taken st D own pool n b"
  defines "q \<equiv> PPN (entry st d (PPN la))"
  assumes ref: "refcount st q \<noteq> - 1"
  shows "\<exists>st1 st'. page_insert d q la perm (st\<lparr>phys := b\<rparr>) = Some (0, st1) \<and> free_pages n 1 st1 = Some st' \<and> pt_ok st' D own pool
    \<and> remapped st D d (PPN la) (page2pa q OR PTE_P OR perm) st'"
proof -
  let ?st1 = "st\<lparr>phys := b\<rparr>" and ?e = "(PPN (frames st d (PDX la)), PTX la)" and ?x = "page2pa q OR PTE_P OR perm"
  note v = view_cong [of ?st1 st, simplified]
  obtain b' where b': "buddy_free_pages n 1 b = Some b'" "buddy_inv b'" "region_ok b' = region_ok (phys st)"
    "free_set b' = free_set (phys st)" "\<forall>q. ref (pages b' q) = refcount st q" using free_taken [OF n] .
  have tok: "tables_ok st D" "tables_ok ?st1 D" using ok n by (simp_all add: taken_def pt_ok_def)
  note m = mapped_page [OF ok d(1, 2) x, folded q_def]
  have q: "q < npage (phys st)" "q < npage (phys ?st1)"
  proof -
    have r: "region_ok (phys st) q 1" using m(1) by (simp add: user_page_def owned_def)
    moreover have "region_ok b = region_ok (phys st)" using n by (simp add: taken_def)
    ultimately have "region_ok b q 1" by simp
    with r show "q < npage (phys st)" "q < npage (phys ?st1)" by (simp_all add: region_ok_def)
  qed
  define s0 where "s0 = tlb_invalidate d la (write_entry ?e ?x st)"
  have i0: "page_insert d q la perm st = Some (0, s0)"
    using page_insert_same [OF tok(1) d x _ q(1)] by (simp add: q_def s0_def)
  have i1: "page_insert d q la perm ?st1 = Some (0, tlb_invalidate d la (write_entry ?e ?x ?st1))"
    using page_insert_same [OF tok(2), of d la q perm] d x q(2) v by (simp add: q_def)
  have eq: "(tlb_invalidate d la (write_entry ?e ?x ?st1))\<lparr>phys := c\<rparr> = s0\<lparr>phys := c\<rparr>" "phys (tlb_invalidate d la (write_entry ?e ?x ?st1)) = b" for c
    by (simp_all add: s0_def tlb_invalidate_def write_entry_def)
  have s0: "pt_ok s0 D own pool" "remapped st D d (PPN la) ?x s0"
    using page_insert_ok [OF ok d(1, 2) perm m(1, 2) ref] i0 d(3) mapped_in_pool [OF ok d(1, 2) x] by (auto simp: q_def)
  have p0: "phys s0 = phys st" by (simp add: s0_def tlb_invalidate_def write_entry_def)
  have "free_set b' \<union> used s0 D own = pool" using s0(1) b'(4) p0 by (simp add: pt_ok_def)
  moreover have "pt_ok (s0\<lparr>phys := b'\<rparr>) D own (free_set b' \<union> used s0 D own)"
    using b' ok by (intro pt_ok_phys [OF s0(1)]) (auto simp: owned_def p0 pt_ok_def phys_ok_def)
  ultimately have "pt_ok (s0\<lparr>phys := b'\<rparr>) D own pool" by simp
  moreover have "remapped st D d (PPN la) ?x (s0\<lparr>phys := b'\<rparr>)"
    using s0(2) view_cong(1) [of "s0\<lparr>phys := b'\<rparr>" s0] by (simp add: remapped_def)
  moreover have "free_pages n 1 (tlb_invalidate d la (write_entry ?e ?x ?st1)) = Some (s0\<lparr>phys := b'\<rparr>)"
    using b'(1) eq by (simp add: free_pages_eq)
  ultimately show ?thesis using i1 by blast
qed

section \<open>The handler\<close>

text \<open>Entries and permissions. Fewer than \<open>2 ^ 31\<close> mappings keep the counters positive as signed numbers.\<close>

definition fault_perm :: "u32 \<Rightarrow> u32" where
  "fault_perm fl = (if fl AND VM_WRITE \<noteq> 0 then PTE_U OR PTE_W else PTE_U)"

definition few_maps :: "nat set \<Rightarrow> (nat \<Rightarrow> nat) \<Rightarrow> bool" where
  "few_maps D own \<longleftrightarrow> (\<forall>p. card D * UVN + own p < 2 ^ 31)"

lemma few_maps_ref:
  assumes "few_maps D own" "finite D" "unat (refcount st p) = card (maps st D p) + own p"
  shows "refcount st p \<noteq> - 1" "sint (refcount st p) = int (unat (refcount st p))"
proof -
  have "card D * UVN + own p < 2 ^ 32 - 1" for p
    using assms(1) [unfolded few_maps_def, rule_format, of p] by (rule less_trans) simp
  then have "room D own" by (simp add: room_def)
  then show "refcount st p \<noteq> - 1" using room_ref assms(2, 3) by blast
  have "maps st D p \<subseteq> D \<times> {..<UVN}" by (auto simp: maps_def)
  then have "card (maps st D p) \<le> card D * UVN"
    using card_mono [of "D \<times> {..<UVN}" "maps st D p"] assms(2) by (simp add: card_cartesian_product)
  then have "unat (refcount st p) < 2 ^ 31"
    using assms(1, 3) unfolding few_maps_def by (metis add_le_mono1 order_le_less_trans)
  then have u: "uint (refcount st p) < 2 ^ 31" unfolding unat_eq_nat_uint by (simp only: nat_less_iff uint_nonnegative) simp
  have "sint (refcount st p) = signed_take_bit 31 (uint (refcount st p))" by (simp add: sint_uint)
  also have "\<dots> = uint (refcount st p)"
    using u uint_nonnegative [of "refcount st p"] by (intro signed_take_bit_int_eq_self) linarith+
  finally show "sint (refcount st p) = int (unat (refcount st p))" by simp
qed

text \<open>What a fault on an entry leads to: \<open>x\<close> is the entry before.\<close>

definition fault_done :: "machine \<Rightarrow> nat set \<Rightarrow> nat \<Rightarrow> nat \<Rightarrow> u32 \<Rightarrow> int \<Rightarrow> machine \<Rightarrow> bool" where
  "fault_done st D d v perm r st' \<longleftrightarrow>
     r = - E_NO_MEM \<and> (\<forall>d'\<in>D. \<forall>u<UVN. entry st' d' u = entry st d' u) \<and> tlb st' = tlb st \<and> cr3 st' = cr3 st
       \<and> free_set (phys st') = {} \<and> (\<exists>t. free_set (phys st) \<subseteq> {t})
     \<or> r = 0 \<and> (\<exists>p. remapped st D d v (page2pa p OR PTE_P OR perm) st' \<and>
         (let x = entry st d v in
          if x = 0 \<or> 1 < unat (refcount st (PPN x)) then p \<in> free_set (phys st) \<and> (x \<noteq> 0 \<longrightarrow> frames st' p = frames st (PPN x)) else p = PPN x))"

lemma remapped_grown: "grown st D st1 \<Longrightarrow> remapped st1 D d v x st' \<Longrightarrow> remapped st D d v x st'"
  by (auto simp: remapped_def grown_def)

lemma get_pte_tlb: "get_pte d la c st = Some (r, st') \<Longrightarrow> tlb st' = tlb st \<and> cr3 st' = cr3 st"
  by (auto simp: get_pte_def alloc_pages_eq Let_def bind_Some_iff split: if_splits option.splits)

lemma pgdir_alloc_page_tlb: "pgdir_alloc_page d la perm st = Some (None, st') \<Longrightarrow> tlb st' = tlb st \<and> cr3 st' = cr3 st"
  by (auto simp: pgdir_alloc_page_def page_insert_replace alloc_pages_eq free_pages_eq bind_Some_iff dest!: get_pte_tlb split: if_splits option.splits)

lemma fault_absent_ok:
  assumes ok: "pt_ok (mach st) D own pool" and d: "d \<in> D" "PPN la < UVN" and perm: "perm < 4096"
    and fl: "vm_flags (vmas st a) AND VM_SHARE = 0" and e0: "entry (mach st) d (PPN la) = 0" and pd: "present (frames (mach st) d (PDX la))"
  shows "\<exists>r m. fault_absent d a la perm e st = Some (r, st\<lparr>mach := m\<rparr>) \<and> pt_ok m D own pool \<and> fault_done (mach st) D d (PPN la) perm r m
    \<and> (r = - E_NO_MEM \<longrightarrow> free_set (phys (mach st)) = {})"
proof -
  obtain r m where m: "pgdir_alloc_page d la perm (mach st) = Some (r, m)" "pt_ok m D own pool"
    "case r of None \<Rightarrow> (\<forall>e\<in>D. \<forall>v<UVN. entry m e v = entry (mach st) e v) \<and> free_set (phys m) = {} \<and> free_set (phys (mach st)) = {}
     | Some p \<Rightarrow> p \<in> free_set (phys (mach st)) \<and> remapped (mach st) D d (PPN la) (page2pa p OR PTE_P OR perm) m"
    using pgdir_alloc_page_ok [OF ok d perm] own_free [OF ok] pd by (fastforce split: option.splits)
  have f: "fault_absent d a la perm e st = Some (if r = None then - E_NO_MEM else 0, st\<lparr>mach := m\<rparr>)"
    using fl m(1) by (simp add: fault_absent_def on_mach_def Let_def)
  moreover have "fault_done (mach st) D d (PPN la) perm (if r = None then - E_NO_MEM else 0) m"
  proof (cases r)
    case None
    then show ?thesis using m(1, 3) pgdir_alloc_page_tlb by (auto simp: fault_done_def)
  next
    case (Some p)
    then show ?thesis using m(3) e0 by (auto simp: fault_done_def)
  qed
  moreover have "r = None \<longrightarrow> free_set (phys (mach st)) = {}" using m(3) by auto
  ultimately show ?thesis using m(2) by (intro exI conjI) (assumption+, simp)
qed

lemma cow_flags: "fl AND VM_SHARE = 0 \<Longrightarrow> fl AND VM_WRITE \<noteq> 0 \<Longrightarrow> fl AND (VM_SHARE OR VM_WRITE) = VM_WRITE" for fl :: u32
proof -
  assume a: "fl AND VM_SHARE = 0" "fl AND VM_WRITE \<noteq> 0"
  have "bit fl 1" using a(2) and_exp_eq_0_iff_not_bit [of fl 1] by simp
  then have "fl AND VM_WRITE = VM_WRITE" by (intro bit_word_eqI) (auto simp: bit_simps)
  then show ?thesis using a(1) by (simp only: bit.conj_disj_distrib or.left_neutral)
qed

lemma fault_present_ok:
  assumes ok: "pt_ok (mach st) D own pool" "few_maps D own" and d: "d \<in> D" "PPN la < UVN" "present (frames (mach st) d (PDX la))" and perm: "perm < 4096"
    and fl: "vm_flags (vmas st a) AND VM_SHARE = 0" "vm_flags (vmas st a) AND VM_WRITE \<noteq> 0"
    and x: "present (entry (mach st) d (PPN la))" "entry (mach st) d (PPN la) AND PTE_W = 0" and ec: "ec AND 2 \<noteq> 0"
  shows "\<exists>r m. fault_present d a ec la perm (PPN (frames (mach st) d (PDX la)), PTX la) st = Some (r, st\<lparr>mach := m\<rparr>) \<and> pt_ok m D own pool
    \<and> fault_done (mach st) D d (PPN la) perm r m"
proof -
  let ?m = "mach st" and ?e = "(PPN (frames (mach st) d (PDX la)), PTX la)"
  let ?x = "entry ?m d (PPN la)"
  define q where "q = PPN ?x"
  have rd: "read_entry ?e ?m = ?x" using d(3) by (simp add: read_entry_def entry_la)
  have fin: "finite D" using ok(1) by (simp add: pt_ok_def tables_ok_def)
  note mp = mapped_page [OF ok(1) d(1, 2) x(1), folded q_def]
  note ref = few_maps_ref [OF ok(2) fin mp(2)]
  note cow = cow_flags [OF fl]
  have x0: "?x \<noteq> 0" using x(1) by auto
  have q: "region_ok (phys ?m) q 1" using mp(1) by (simp add: user_page_def owned_def)
  have shared: "1 < sint (refcount ?m q) \<longleftrightarrow> 1 < unat (refcount ?m q)" unfolding ref(2) by linarith
  have pg: "pte2page ?x m' = Some q" if "region_ok (phys m') = region_ok (phys ?m)" for m'
  proof -
    have "region_ok (phys m') q 1" using that q by simp
    then show ?thesis using x(1) by (simp add: pte2page_def pa2page_def q_def present_def region_ok_def)
  qed
  show ?thesis
  proof (rule alloc_one [OF ok(1)])
    assume al: "alloc_pages 1 ?m = Some (None, ?m)" and full: "free_set (phys ?m) = {}"
    show ?thesis
    proof (cases "1 < unat (refcount ?m q)")
      case True
      then have "fault_present d a ec la perm ?e st = Some (- E_NO_MEM, st\<lparr>mach := ?m\<rparr>)"
        using x ec cow al pg [OF refl] shared by (simp add: fault_present_def on_mach_def rd present_def page_ref_def)
      then show ?thesis using ok(1) full by (intro exI [of _ "- E_NO_MEM"] exI [of _ ?m]) (simp add: fault_done_def)
    next
      case False
      obtain m where m: "page_insert d q la perm ?m = Some (0, m)" "pt_ok m D own pool" "remapped ?m D d (PPN la) (page2pa q OR PTE_P OR perm) m"
        using page_insert_ok [OF ok(1) d(1, 2) perm mp(1, 2) ref(1)] d(3) mapped_in_pool [OF ok(1) d(1, 2) x(1)] by (auto simp: q_def)
      have "fault_present d a ec la perm ?e st = Some (0, st\<lparr>mach := m\<rparr>)"
        using x ec cow al pg [OF refl] shared False m(1) by (simp add: fault_present_def on_mach_def rd present_def page_ref_def)
      then show ?thesis using m False x0 by (auto simp: fault_done_def q_def Let_def)
    qed
  next
    fix n b
    assume al: "alloc_pages 1 ?m = Some (Some n, ?m\<lparr>phys := b\<rparr>)" and n: "taken ?m D own pool n b"
    have rb: "region_ok (phys (?m\<lparr>phys := b\<rparr>)) = region_ok (phys ?m)" and rc: "ref (pages b q) = refcount ?m q"
      using n by (simp_all add: taken_def)
    have no: "n \<in> free_set (phys ?m)" using n by (simp add: taken_def)
    show ?thesis
    proof (cases "1 < unat (refcount ?m q)")
      case True
      obtain m where m: "page_insert d n la perm (?m\<lparr>phys := b, frames := (frames ?m)(n := frames ?m q)\<rparr>) = Some (0, m)" "pt_ok m D own pool"
          "remapped ?m D d (PPN la) (page2pa n OR PTE_P OR perm) m" "frames m n = frames ?m q"
        using copy_page_fault [OF ok(1) d x(1) perm n] by (auto simp: q_def)
      have "fault_present d a ec la perm ?e st = Some (0, st\<lparr>mach := m\<rparr>)"
        using x ec cow al pg [OF rb] shared rc True m(1) by (simp add: fault_present_def on_mach_def rd present_def page_ref_def)
      then show ?thesis using m True x0 no by (auto simp: fault_done_def q_def Let_def)
    next
      case False
      obtain m1 m where m: "page_insert d q la perm (?m\<lparr>phys := b\<rparr>) = Some (0, m1)" "free_pages n 1 m1 = Some m" "pt_ok m D own pool"
          "remapped ?m D d (PPN la) (page2pa q OR PTE_P OR perm) m"
        using reuse_page_fault [OF ok(1) d x(1) perm n] ref(1) by (auto simp: q_def)
      have "fault_present d a ec la perm ?e st = Some (0, st\<lparr>mach := m\<rparr>)"
        using x ec cow al pg [OF rb] shared rc False m(1, 2) by (simp add: fault_present_def on_mach_def do_mach_def rd present_def page_ref_def)
      then show ?thesis using m False x0 by (auto simp: fault_done_def q_def Let_def)
    qed
  qed
qed

lemma fault_done_grown:
  assumes ok: "pt_ok st D own pool" "pt_ok st1 D own pool" and g: "grown st D st1" "\<exists>t. free_set (phys st) \<subseteq> insert t (free_set (phys st1))"
    and e: "entry st d v = 0" "d \<in> D" "v < UVN" "entry st1 d v = 0" "r = - E_NO_MEM \<longrightarrow> free_set (phys st1) = {}" and f: "fault_done st1 D d v perm r st'"
  shows "fault_done st D d v perm r st'"
proof -
  have g1: "\<forall>d\<in>D. \<forall>v<UVN. entry st1 d v = entry st d v" "tlb st1 = tlb st" "cr3 st1 = cr3 st" "owned st p \<longrightarrow> owned st1 p" for p
    using g(1) unfolding grown_def by blast+
  have free: "p \<in> free_set (phys st)" if p: "p \<in> free_set (phys st1)" for p
  proof -
    have "\<not> owned st p" using p g1(4) by (auto simp: owned_def)
    then have "p \<notin> used st D own" using ok(1) by (auto simp: used_def pt_ok_def tables_ok_def refs_ok_def user_page_def)
    moreover have "p \<in> pool" using p ok(2) by (auto simp: pt_ok_def)
    ultimately show ?thesis using used_not_free(2) [OF ok(1)] by blast
  qed
  consider "r = - E_NO_MEM" "\<forall>d'\<in>D. \<forall>u<UVN. entry st' d' u = entry st1 d' u" "tlb st' = tlb st1" "cr3 st' = cr3 st1" "free_set (phys st') = {}"
    | p where "r = 0" "remapped st1 D d v (page2pa p OR PTE_P OR perm) st'" "p \<in> free_set (phys st1)"
    using f e(4) by (auto simp: fault_done_def)
  then show ?thesis
  proof cases
    case 1
    then show ?thesis using g1 g(2) e(5) by (auto simp: fault_done_def)
  next
    case (2 p)
    then have "remapped st D d v (page2pa p OR PTE_P OR perm) st'" "p \<in> free_set (phys st)" using free remapped_grown [OF g(1)] by blast+
    then show ?thesis using 2(1) e(1) unfolding fault_done_def by (intro disjI2 conjI exI [of _ p]) simp_all
  qed
qed

text \<open>The processor reports a fault with bit 0 of the error code telling whether the page was present, and bit 1 set for a write.\<close>

definition fault_fits :: "u32 \<Rightarrow> u32 \<Rightarrow> bool" where
  "fault_fits ec x \<longleftrightarrow> (if ec AND 1 = 0 then x = 0 else present x \<and> (ec AND 2 \<noteq> 0 \<longrightarrow> x AND PTE_W = 0))"

lemma error_bits: "(ec AND 3 = 1) = (ec AND 1 \<noteq> 0 \<and> ec AND 2 = 0)" "(ec AND 3 = 0) = (ec AND 1 = 0 \<and> ec AND 2 = 0)" for ec :: u32
proof -
  have t: "ec AND 3 = (if bit ec 0 then 1 else 0) + (if bit ec 1 then 2 else 0)"
    using take_bit_eq_mask [of 2 ec]
    by (cases "odd ec"; cases "odd (ec div 2)") (simp_all add: mask_eq_exp_minus_1 take_bit_Suc bit_0 bit_Suc numeral_2_eq_2 mod_2_eq_odd)
  have b: "ec AND 1 \<noteq> 0 \<longleftrightarrow> bit ec 0" "ec AND 2 \<noteq> 0 \<longleftrightarrow> bit ec 1"
    using and_exp_eq_0_iff_not_bit [of ec 0] and_exp_eq_0_iff_not_bit [of ec 1] by simp_all
  show "(ec AND 3 = 1) = (ec AND 1 \<noteq> 0 \<and> ec AND 2 = 0)" "(ec AND 3 = 0) = (ec AND 1 = 0 \<and> ec AND 2 = 0)"
    unfolding t using b by (cases "bit ec 0"; cases "bit ec 1"; simp)+
qed

lemma fault_perm_bound: "fault_perm fl < 4096"
  by (simp add: fault_perm_def)

lemma handle_fault:
  assumes ok: "pt_ok (mach st) D own pool" "few_maps D own" and d: "d \<in> D" "PPN la < UVN"
    and fl: "vm_flags (vmas st a) AND VM_SHARE = 0" "\<not> fault_denied ec (vm_flags (vmas st a))"
    and fits: "fault_fits ec (entry (mach st) d (PPN la))"
  defines "perm \<equiv> fault_perm (vm_flags (vmas st a))"
  shows "\<exists>r m. (do {
       (ptep, st) \<leftarrow> on_mach (get_pte d la True) st;
       case ptep of None \<Rightarrow> Some (- E_NO_MEM, st)
       | Some e \<Rightarrow> if read_entry e (mach st) = 0 then fault_absent d a la perm e st else fault_present d a ec la perm e st
     }) = Some (r, st\<lparr>mach := m\<rparr>) \<and> pt_ok m D own pool \<and> fault_done (mach st) D d (PPN la) perm r m"
proof -
  let ?m = "mach st" and ?x = "entry (mach st) d (PPN la)"
  have perm: "perm < 4096" by (simp add: perm_def fault_perm_bound)
  have tok: "tables_ok ?m D" using ok(1) by (simp add: pt_ok_def)
  show ?thesis
  proof (cases "ec AND 1 = 0")
    case True
    then have x0: "?x = 0" using fits by (simp add: fault_fits_def)
    show ?thesis
    proof (rule get_pte_create [OF ok(1) d])
      assume "get_pte d la True ?m = Some (None, ?m)" "free_set (phys ?m) = {}"
      then show ?thesis using ok(1)
        by (intro exI [of _ "- E_NO_MEM"] exI [of _ ?m]) (simp add: on_mach_def fault_done_def)
    next
      fix m1
      let ?e = "(PPN (frames m1 d (PDX la)), PTX la)" and ?st1 = "st\<lparr>mach := m1\<rparr>"
      assume g: "get_pte d la True ?m = Some (Some ?e, m1)" "pt_ok m1 D own pool" "grown ?m D m1" "present (frames m1 d (PDX la))"
        "\<exists>t. free_set (phys ?m) \<subseteq> insert t (free_set (phys m1))"
      have e1: "entry m1 d (PPN la) = 0" using g(3) d x0 by (simp add: grown_def)
      then have rd: "read_entry ?e m1 = 0" using g(4) by (simp add: read_entry_def entry_la)
      obtain r m where m: "fault_absent d a la perm ?e ?st1 = Some (r, ?st1\<lparr>mach := m\<rparr>)" "pt_ok m D own pool" "fault_done m1 D d (PPN la) perm r m"
        "r = - E_NO_MEM \<longrightarrow> free_set (phys m1) = {}"
        using fault_absent_ok [of ?st1 D own pool d la perm a ?e] g(2,4) d perm fl(1) e1 by auto
      then show ?thesis using g(1) rd fault_done_grown [OF ok(1) g(2,3,5) x0 d e1 m(4,3)] by (auto simp: on_mach_def)
    qed
  next
    case False
    have w: "ec AND 2 \<noteq> 0" "vm_flags (vmas st a) AND VM_WRITE \<noteq> 0"
      using fl(2) False by (auto simp: fault_denied_def error_bits Let_def split: if_splits)
    then have x: "present ?x" "?x AND PTE_W = 0" using fits False by (auto simp: fault_fits_def)
    then have pd: "present (frames ?m d (PDX la))" by (auto simp: entry_la split: if_splits)
    let ?e = "(PPN (frames ?m d (PDX la)), PTX la)"
    have rd: "read_entry ?e ?m = ?x" using pd by (simp add: read_entry_def entry_la)
    have "?x \<noteq> 0" using x(1) by auto
    then show ?thesis
      using fault_present_ok [OF ok d pd perm fl(1) w(2) x w(1)] rd get_pte_present [OF tok d pd, of True] by (simp add: on_mach_def)
  qed
qed

lemma fault_page:
  assumes "space_ok st mm" "flags_at st mm addr = Some fl"
  shows "PPN (ROUNDDOWN addr PGSIZE) = PPN addr" "PPN addr < UVN"
proof -
  have ar: "areas_ok (vmas st) (mmap_list (mms st mm))" using assms(1) by (simp add: space_ok_def mm_ok_def)
  obtain v where "v \<in> set (mmap_list (mms st mm))" "addr < vm_end (vmas st v)"
    using assms(2) flags_at_iff [OF ar] by auto
  then have "addr < vm_end (vmas st v)" "vm_end (vmas st v) \<le> USERTOP" using assms(1) by (auto simp: space_ok_def USER_ACCESS_def)
  then have "addr < USERTOP" by (rule less_le_trans)
  then have a: "unat addr < 0xB0000000" by (simp add: word_less_nat_alt)
  show "PPN addr < UVN" using a by (simp add: PPN_eq less_mult_imp_div_less)
  show "PPN (ROUNDDOWN addr PGSIZE) = PPN addr" by (simp add: PPN_eq unat_ROUNDDOWN_div)
qed

lemma found_area:
  assumes "space_ok st mm"
  shows "flags_at st mm addr = (case first_above (vmas st) addr (mmap_list (mms st mm)) of None \<Rightarrow> None
     | Some v \<Rightarrow> if vm_start (vmas st v) > addr then None else Some (vm_flags (vmas st v)))"
proof (rule flags_at_eqI)
  show ar: "areas_ok (vmas st) (mmap_list (mms st mm))" using assms by (simp add: space_ok_def mm_ok_def)
  let ?r = "first_above (vmas st) addr (mmap_list (mms st mm))"
  show "(case ?r of None \<Rightarrow> None | Some v \<Rightarrow> if vm_start (vmas st v) > addr then None else Some (vm_flags (vmas st v))) = Some fl
    \<longleftrightarrow> (\<exists>v\<in>set (mmap_list (mms st mm)). vm_start (vmas st v) \<le> addr \<and> addr < vm_end (vmas st v) \<and> vm_flags (vmas st v) = fl)" for fl
  proof (cases ?r)
    case None
    then have "\<forall>v\<in>set (mmap_list (mms st mm)). \<not> addr < vm_end (vmas st v)" by (simp add: first_above_none not_less)
    then show ?thesis using None by auto
  next
    case (Some v)
    then have v: "v \<in> set (mmap_list (mms st mm))" "addr < vm_end (vmas st v)" using first_above_SomeD [OF Some] by auto
    have "w = v" if "w \<in> set (mmap_list (mms st mm))" "vm_start (vmas st w) \<le> addr" "addr < vm_end (vmas st w)" for w
      using first_above_hit [OF ar that] Some by simp
    with v have "(\<exists>w\<in>set (mmap_list (mms st mm)). vm_start (vmas st w) \<le> addr \<and> addr < vm_end (vmas st w) \<and> vm_flags (vmas st w) = fl)
      \<longleftrightarrow> \<not> addr < vm_start (vmas st v) \<and> vm_flags (vmas st v) = fl" unfolding not_less by blast
    then show ?thesis using Some by simp
  qed
qed

lemma do_pgfault_ok:
  assumes ok: "space_ok st mm" "\<forall>fl. flags_at st mm addr = Some fl \<longrightarrow> fl AND VM_SHARE = 0" "pgdir (mms st mm) = Some d" "pt_ok (mach st) D own pool" "d \<in> D" "few_maps D own"
    and fits: "fault_fits ec (entry (mach st) d (PPN addr))"
  defines "c \<equiv> cached mm (first_above (vmas st) addr (mmap_list (mms st mm))) st"
  shows "\<exists>r m. do_pgfault (Some mm) ec addr st = Some (r, c\<lparr>mach := m\<rparr>) \<and> pt_ok m D own pool
    \<and> (case flags_at st mm addr of
         None \<Rightarrow> r = - E_INVAL \<and> m = mach st
       | Some fl \<Rightarrow> if fault_denied ec fl then r = - E_INVAL \<and> m = mach st else fault_done (mach st) D d (PPN addr) (fault_perm fl) r m)"
proof -
  let ?r = "first_above (vmas st) addr (mmap_list (mms st mm))"
  have mok: "mm_ok st mm" using ok(1) by (simp add: space_ok_def)
  note fv = find_vma_ok [OF mok, of addr, folded c_def] and fl = found_area [OF ok(1), of addr]
  have c: "mach c = mach st" "vmas c = vmas st" "pgdir (mms c mm) = Some d" using ok(3) by (simp_all add: c_def)
  have cm: "c\<lparr>mach := mach st\<rparr> = c" using c(1) by simp
  show ?thesis
  proof (cases "flags_at st mm addr")
    case None
    then have "do_pgfault (Some mm) ec addr st = Some (- E_INVAL, c)"
      using fl by (simp add: do_pgfault_def fv c(2) split: option.splits if_splits)
    then show ?thesis using None ok(4) cm by (intro exI [of _ "- E_INVAL"] exI [of _ "mach st"]) simp
  next
    case (Some f)
    then obtain v where v: "?r = Some v" "\<not> vm_start (vmas st v) > addr" "vm_flags (vmas st v) = f" using fl by (auto split: option.splits if_splits)
    have sh: "f AND VM_SHARE = 0" using ok(2) Some by blast
    show ?thesis
    proof (cases "fault_denied ec f")
      case True
      then have "do_pgfault (Some mm) ec addr st = Some (- E_INVAL, c)" using v by (simp add: do_pgfault_def fv c(2))
      then show ?thesis using Some True ok(4) cm by (intro exI [of _ "- E_INVAL"] exI [of _ "mach st"]) simp
    next
      case False
      note pg = fault_page [OF ok(1) Some]
      obtain r m where h: "do {
          (ptep, s) \<leftarrow> on_mach (get_pte d (ROUNDDOWN addr PGSIZE) True) c;
          case ptep of None \<Rightarrow> Some (- E_NO_MEM, s)
          | Some e \<Rightarrow> if read_entry e (mach s) = 0 then fault_absent d v (ROUNDDOWN addr PGSIZE) (fault_perm f) e s
                      else fault_present d v ec (ROUNDDOWN addr PGSIZE) (fault_perm f) e s
          } = Some (r, c\<lparr>mach := m\<rparr>)" and m: "pt_ok m D own pool" "fault_done (mach st) D d (PPN addr) (fault_perm f) r m"
        using handle_fault [of c D own pool d "ROUNDDOWN addr PGSIZE" v ec, unfolded c(1, 2) v(3) pg(1), OF ok(4, 6, 5) pg(2) sh False fits] by blast
      have "do_pgfault (Some mm) ec addr st = Some (r, c\<lparr>mach := m\<rparr>)"
        unfolding h [symmetric] fault_perm_def do_pgfault_def fv Let_def Option.bind.simps prod.case v(1) option.case
          c(2, 3) v(3) using False v(2) by (simp only: if_False not_False_eq_True)
      then show ?thesis using Some False m by (intro exI [of _ r] exI [of _ m]) simp
    qed
  qed
qed

lemma fault_done_tlb_ok:
  assumes "pt_ok st D own pool" "d \<in> D" "fault_done st D d v perm r st'" "tlb_ok st D"
  shows "tlb_ok st' D"
  using assms(3) unfolding fault_done_def
proof (elim disjE conjE exE)
  assume "\<forall>d'\<in>D. \<forall>u<UVN. entry st' d' u = entry st d' u" "tlb st' = tlb st" "cr3 st' = cr3 st"
  then show ?thesis using assms(4) by (simp add: tlb_ok_def)
qed (use remapped_tlb_ok [OF assms(1, 2) _ assms(4)] in blast)

lemma outcome_mono:
  "(case F of None \<Rightarrow> A | Some fl \<Rightarrow> if N fl then B else P fl) \<Longrightarrow> (\<And>fl. P fl \<Longrightarrow> Q fl)
     \<Longrightarrow> (case F of None \<Rightarrow> A | Some fl \<Rightarrow> if N fl then B else Q fl)"
  by (auto split: option.splits if_splits)

lemma card_one: "(\<exists>t. A \<subseteq> {t}) \<Longrightarrow> card A \<le> 1"
  using card_mono [of "{_}" A] by fastforce

lemma fault_done_outcome:
  assumes "fault_done st D d v (fault_perm fl) r st'"
  shows "r = - E_NO_MEM \<and> card (free_set (phys st)) \<le> 1 \<and> free_set (phys st') = {} \<and> (\<forall>e\<in>D. \<forall>u<UVN. entry st' e u = entry st e u)
    \<or> r = 0 \<and> (\<exists>p. (\<forall>e\<in>D. \<forall>u<UVN. entry st' e u =
        (if e = d \<and> u = v then page2pa p OR PTE_P OR (if fl AND VM_WRITE \<noteq> 0 then PTE_U OR PTE_W else PTE_U) else entry st e u))
      \<and> (let x = entry st d v in
         if x = 0 then p \<in> free_set (phys st)
         else if 1 < unat (refcount st (PPN x)) then p \<in> free_set (phys st) \<and> frames st' p = frames st (PPN x)
         else p = PPN x))"
  using assms unfolding fault_done_def fault_perm_def remapped_def
proof (elim disjE conjE exE)
  fix t
  assume a: "r = - E_NO_MEM" "free_set (phys st) \<subseteq> {t}" "free_set (phys st') = {}" "\<forall>d'\<in>D. \<forall>u<UVN. entry st' d' u = entry st d' u"
  have "card (free_set (phys st)) \<le> 1" by (rule card_one, rule exI, rule a(2))
  then show ?thesis using a(1,3,4) by (intro disjI1 conjI) assumption+
next
  fix p
  assume "r = 0" "let x = entry st d v in if x = 0 \<or> 1 < unat (refcount st (PPN x)) then p \<in> free_set (phys st) \<and> (x \<noteq> 0 \<longrightarrow> frames st' p = frames st (PPN x)) else p = PPN x"
    "\<forall>d'\<in>D. \<forall>v'<UVN. entry st' d' v' =
       (if d' = d \<and> v' = v then page2pa p OR PTE_P OR (if fl AND VM_WRITE \<noteq> 0 then PTE_U OR PTE_W else PTE_U) else entry st d' v')"
  then show ?thesis by (intro disjI2 conjI exI [of _ p]) (simp_all only: Let_def split: if_splits, simp_all, blast+)
qed



end
