(* ===== verification/VmmDup.thy ===== *)
theory VmmDup
  imports VmmUnmap
begin

text \<open>
  Duplicating an address space for a new process, \<^verbatim>\<open>dup_mmap\<close> of \<^verbatim>\<open>kern/mm/vmm.c\<close>, where no area is shared memory: the areas
  are the same, and the pages are shared until one of the two processes writes to them.
\<close>

section \<open>One area\<close>

lemma copy_range_ok:
  assumes "pt_ok st D own pool" "room D own" "to \<in> D" "from \<in> D" "to \<noteq> from" "USER_ACCESS start end"
    "start mod PGSIZE = 0" "end mod PGSIZE = 0" "\<forall>v. PPN start \<le> v \<and> v < PPN end \<longrightarrow> entry st to v = 0"
  shows "\<exists>r c st'. copy_range to from start end share st = Some (r, st') \<and> pt_ok st' D own pool
    \<and> copied st D to from share (PPN start) c st' \<and> (r = 0 \<and> c = PPN end \<or> r = - E_NO_MEM \<and> c \<le> PPN end \<and> free_set (phys st') = {})"
proof -
  have "4096 dvd unat start" "4096 dvd unat end" using assms(7,8) by (simp_all add: aligned_unat)
  moreover have "unat start < unat end" "unat end \<le> 0xB0000000"
    using assms(6) by (auto simp: USER_ACCESS_def word_less_nat_alt word_le_nat_alt)
  ultimately obtain r c st' where "copy_loop to from start end share st = Some (r, st')" "pt_ok st' D own pool"
    "copied st D to from share (PPN start) c st'" "r = 0 \<and> c = PPN end \<or> r = - E_NO_MEM \<and> c < PPN end \<and> no_table st' to c"
    using copy_loop_ok [OF assms(1-5) _ _ _ _ assms(9)] by blast
  then show ?thesis using assms(6-8) by (auto simp: copy_range_def no_table_def)
qed

text \<open>There is no object for an area, or no page for a page table.\<close>

definition out_of_memory :: "vmm \<Rightarrow> bool" where
  "out_of_memory st \<longleftrightarrow> objs st = [] \<or> free_set (phys (mach st)) = {}"

text \<open>Two address spaces with their directories \<open>d\<close> and \<open>e\<close>, where the second has no shared areas.\<close>

definition dup_ok :: "nat \<Rightarrow> nat \<Rightarrow> nat \<Rightarrow> nat \<Rightarrow> nat set \<Rightarrow> (nat \<Rightarrow> nat) \<Rightarrow> nat set \<Rightarrow> vmm \<Rightarrow> bool" where
  "dup_ok to src d e D own pool st \<longleftrightarrow> space_ok st to \<and> space_ok st src \<and> private_space st src \<and> to \<noteq> src \<and> mm_objs st to \<inter> mm_objs st src = {}
     \<and> pgdir (mms st to) = Some d \<and> pgdir (mms st src) = Some e \<and> d \<in> D \<and> e \<in> D \<and> d \<noteq> e \<and> pt_ok (mach st) D own pool \<and> room D own"

definition same_areas :: "nat \<Rightarrow> vmm \<Rightarrow> vmm \<Rightarrow> bool" where
  "same_areas mm st st' \<longleftrightarrow> mms st' mm = mms st mm \<and> (\<forall>v\<in>set (mmap_list (mms st mm)). vmas st' v = vmas st v)"

lemma same_areas_trans: "same_areas mm st st1 \<Longrightarrow> same_areas mm st1 st2 \<Longrightarrow> same_areas mm st st2"
  by (simp add: same_areas_def)

lemma same_areas_flags:
  assumes "same_areas mm st st'"
  shows "flags_at st' mm = flags_at st mm"
proof (rule ext)
  fix a
  have "find (\<lambda>v. vm_start (vmas st' v) \<le> a \<and> a < vm_end (vmas st' v)) (mmap_list (mms st mm))
    = find (\<lambda>v. vm_start (vmas st v) \<le> a \<and> a < vm_end (vmas st v)) (mmap_list (mms st mm))"
    using assms by (intro find_cong) (auto simp: same_areas_def)
  then show "flags_at st' mm a = flags_at st mm a"
    using assms by (auto simp: flags_at_def same_areas_def find_Some_iff split: option.splits intro!: option.map_cong)
qed

lemma dup_ok_added:
  assumes ok: "dup_ok to src d e D own pool st" and s: "space_ok st2 to" "same_env st st2" "only_mm to (mm_objs st to \<union> set (objs st)) st st2"
    "set (objs st2) \<subseteq> set (objs st)" "mm_objs st2 to \<subseteq> mm_objs st to \<union> set (objs st)"
  shows "dup_ok to src d e D own pool st2" "same_areas src st st2"
proof -
  let ?S = "mm_objs st to \<union> set (objs st)"
  have dis: "?S \<inter> mm_objs st src = {}" using ok by (auto simp: dup_ok_def space_ok_def mm_ok_def)
  have m: "mms st2 src = mms st src" using s(3) ok by (auto simp: only_mm_def dup_ok_def)
  have v: "vmas st2 v = vmas st v" if "v \<in> set (mmap_list (mms st src))" for v
    using s(3) dis that unfolding only_mm_def mm_objs_def by blast
  show "same_areas src st st2" using m v by (simp add: same_areas_def)
  have o: "mm_objs st2 src = mm_objs st src" by (simp add: mm_objs_def m)
  have "mm_ok st2 src"
  proof (rule mm_ok_other [OF _ s(3)])
    show "mm_ok st src" "src \<noteq> to" using ok by (auto simp: dup_ok_def space_ok_def)
    show "distinct (objs st2)" using s(1) by (simp add: space_ok_def mm_ok_def)
    show "mm_objs st src \<inter> set (objs st2) = {}" using dis s(4) by blast
  qed (use dis in blast)
  then have "space_ok st2 src" using ok v by (simp add: dup_ok_def space_ok_def m)
  moreover have "private_space st2 src" using ok v by (simp add: dup_ok_def private_space_def m)
  moreover have "mm_objs st2 to \<inter> mm_objs st2 src = {}" using dis s(5) o by blast
  moreover have "pgdir (mms st2 to) = pgdir (mms st to)" using s(3) by (simp add: only_mm_def)
  ultimately show "dup_ok to src d e D own pool st2" using ok s(1, 2) m by (simp add: dup_ok_def same_env_def)
qed

lemma dup_ok_mach: "dup_ok to src d e D own pool st \<Longrightarrow> pt_ok m D own pool \<Longrightarrow> dup_ok to src d e D own pool (st\<lparr>mach := m\<rparr>)"
  by (simp add: dup_ok_def private_space_def mm_objs_def)

lemma dup_vma_ok:
  assumes ok: "dup_ok to src d e D own pool st" and v: "v \<in> set (mmap_list (mms st src))"
  defines "lo \<equiv> vm_start (vmas st v)" and "hi \<equiv> vm_end (vmas st v)"
  assumes no: "\<forall>a. lo \<le> a \<and> a < hi \<longrightarrow> flags_at st to a = None" and z: "\<forall>p. PPN lo \<le> p \<and> p < PPN hi \<longrightarrow> entry (mach st) d p = 0"
  shows "\<exists>r c st'. dup_vma to src v st = Some (r, st') \<and> dup_ok to src d e D own pool st' \<and> same_areas src st st'
    \<and> copied (mach st) D d e False (PPN lo) c (mach st') \<and> c \<le> PPN hi
    \<and> (r = 0 \<and> c = PPN hi \<and> flags_at st' to = (\<lambda>a. if lo \<le> a \<and> a < hi then Some (vm_flags (vmas st v)) else flags_at st to a)
       \<or> r = - E_NO_MEM \<and> out_of_memory st' \<and> (flags_at st' to = flags_at st to \<or> flags_at st' to = (\<lambda>a. if lo \<le> a \<and> a < hi then Some (vm_flags (vmas st v)) else flags_at st to a)))"
proof -
  let ?fl = "vm_flags (vmas st v)"
  have sp: "space_ok st to" "USER_ACCESS lo hi" "lo mod PGSIZE = 0" "hi mod PGSIZE = 0" and sh: "?fl AND VM_SHARE = 0"
    using ok v by (simp_all add: dup_ok_def space_ok_def private_space_def lo_def hi_def)
  have le: "PPN lo \<le> PPN hi" using sp(2) by (simp add: USER_ACCESS_def PPN_eq div_le_mono word_le_nat_alt word_less_nat_alt)
  show ?thesis
  proof (cases "objs st")
    case Nil
    then have "dup_vma to src v st = Some (- E_NO_MEM, st)" by (simp add: dup_vma_def vma_create_def kmalloc_def)
    moreover have "copied (mach st) D d e False (PPN lo) (PPN lo) (mach st)" by (rule copied_empty) auto
    ultimately show ?thesis using ok le Nil by (auto simp: same_areas_def out_of_memory_def)
  next
    case (Cons nv os)
    obtain st1 st2 where s: "vma_create lo hi ?fl st = (Some nv, st1)" "insert_vma_struct to nv st1 = Some st2" "space_ok st2 to" "same_env st st2"
      "only_mm to (mm_objs st to \<union> set (objs st)) st st2" "set (objs st2) \<subseteq> set (objs st)" "mm_objs st2 to \<subseteq> mm_objs st to \<union> set (objs st)"
      "flags_at st2 to = (\<lambda>a. if lo \<le> a \<and> a < hi then Some ?fl else flags_at st to a)"
      using add_area_ok [OF sp no Cons, of ?fl] by blast
    note ok2 = dup_ok_added [OF ok s(3-7)]
    have m2: "mach st2 = mach st" using s(4) by (simp add: same_env_def)
    have p2: "pgdir (mms st2 to) = Some d" "pgdir (mms st2 src) = Some e" "pt_ok (mach st) D own pool" "room D own" "d \<in> D" "e \<in> D" "d \<noteq> e"
      using ok2(1) m2 by (simp_all add: dup_ok_def)
    obtain r c m where c: "copy_range d e lo hi False (mach st) = Some (r, m)" "pt_ok m D own pool" "copied (mach st) D d e False (PPN lo) c m"
      "r = 0 \<and> c = PPN hi \<or> r = - E_NO_MEM \<and> c \<le> PPN hi \<and> free_set (phys m) = {}"
      using copy_range_ok [OF p2(3-7) sp(2-4) z, of False] by blast
    have "dup_vma to src v st = Some (if r \<noteq> 0 then - E_NO_MEM else 0, st2\<lparr>mach := m\<rparr>)"
      unfolding dup_vma_def Let_def lo_def [symmetric] hi_def [symmetric] using s(1, 2) sh p2(1, 2) c(1) m2 by (simp add: on_mach_def)
    moreover have "flags_at (st2\<lparr>mach := m\<rparr>) to = flags_at st2 to" by (simp add: flags_at_def fun_eq_iff)
    moreover have "same_areas src st (st2\<lparr>mach := m\<rparr>)" using ok2(2) by (simp add: same_areas_def)
    ultimately show ?thesis using dup_ok_mach [OF ok2(1) c(2)] c(3, 4) s(8) by (fastforce simp: out_of_memory_def)
  qed
qed

section \<open>All areas\<close>

text \<open>The pages \<open>P\<close> are copied; for an interval this is \<open>copied\<close>.\<close>

definition copied_on :: "machine \<Rightarrow> nat set \<Rightarrow> nat \<Rightarrow> nat \<Rightarrow> nat set \<Rightarrow> machine \<Rightarrow> bool" where
  "copied_on st D d e P st' \<longleftrightarrow> (\<forall>g\<in>D. \<forall>v<UVN. entry st' g v =
     (if v \<in> P \<and> present (entry st e v)
      then if g = d then copy_entry False (entry st e v) else if g = e then source_entry False (entry st e v) else entry st g v
      else entry st g v)) \<and> (tlb_ok st D \<longrightarrow> tlb_ok st' D)"

lemma copied_on_interval: "copied st D d e False a b st' \<longleftrightarrow> copied_on st D d e {a..<b} st'"
  by (simp add: copied_def copied_on_def)

lemma copied_on_empty: "copied_on st D d e {} st"
  by (simp add: copied_on_def)

lemma copied_on_other: "copied_on st D d e P st' \<Longrightarrow> g \<in> D \<Longrightarrow> v < UVN \<Longrightarrow> v \<notin> P \<Longrightarrow> entry st' g v = entry st g v"
  by (simp add: copied_on_def)

lemma copied_on_trans:
  assumes "copied_on st D d e P st1" "copied_on st1 D d e Q st2" "P \<inter> Q = {}" "e \<in> D"
  shows "copied_on st D d e (P \<union> Q) st2"
  unfolding copied_on_def
proof (intro conjI ballI allI impI)
  show "tlb_ok st D \<Longrightarrow> tlb_ok st2 D" using assms(1, 2) unfolding copied_on_def by blast
  fix g v assume gv: "g \<in> D" "v < UVN"
  have e2: "entry st2 g v = (if v \<in> Q \<and> present (entry st1 e v)
      then if g = d then copy_entry False (entry st1 e v) else if g = e then source_entry False (entry st1 e v) else entry st1 g v
      else entry st1 g v)" using assms(2) gv by (simp add: copied_on_def)
  show "entry st2 g v = (if v \<in> P \<union> Q \<and> present (entry st e v)
      then if g = d then copy_entry False (entry st e v) else if g = e then source_entry False (entry st e v) else entry st g v
      else entry st g v)"
  proof (cases "v \<in> P")
    case True
    then have "v \<notin> Q" using assms(3) by blast
    then show ?thesis using e2 True assms(1) gv by (simp add: copied_on_def)
  next
    case False
    then show ?thesis using e2 copied_on_other [OF assms(1) _ gv(2) False] gv(1) assms(4) by simp
  qed
qed

definition area_pages :: "vmm \<Rightarrow> nat list \<Rightarrow> nat set" where
  "area_pages st vs = {p. \<exists>v\<in>set vs. PPN (vm_start (vmas st v)) \<le> p \<and> p < PPN (vm_end (vmas st v))}"

definition in_areas :: "vmm \<Rightarrow> nat list \<Rightarrow> u32 \<Rightarrow> bool" where
  "in_areas st vs a \<longleftrightarrow> (\<exists>v\<in>set vs. vm_start (vmas st v) \<le> a \<and> a < vm_end (vmas st v))"

lemma PPN_mono: "a \<le> b \<Longrightarrow> PPN a \<le> PPN b"
  by (simp add: PPN_eq word_le_nat_alt div_le_mono)

lemma areas_apart:
  assumes "areas_ok f us" "v \<in> set us" "w \<in> set us" "v \<noteq> w"
  shows "vm_end (f v) \<le> vm_start (f w) \<or> vm_end (f w) \<le> vm_start (f v)"
proof -
  obtain i j where "i < length us" "j < length us" "us ! i = v" "us ! j = w" using assms(2, 3) by (metis in_set_conv_nth)
  then show ?thesis using assms(1, 4) unfolding areas_ok_def by (metis linorder_neqE_nat sorted_wrt_iff_nth_less)
qed

lemma area_pages_user:
  assumes "space_ok st mm" "set vs \<subseteq> set (mmap_list (mms st mm))" "p \<in> area_pages st vs"
  shows "p < UVN"
proof -
  obtain w where w: "w \<in> set vs" "p < PPN (vm_end (vmas st w))" using assms(3) by (auto simp: area_pages_def)
  then have "vm_end (vmas st w) \<le> USERTOP" using assms(1, 2) by (auto simp: space_ok_def USER_ACCESS_def)
  then have "unat (vm_end (vmas st w)) \<le> 0xB0000000" by (simp add: word_le_nat_alt)
  then show ?thesis using w(2) by (simp add: PPN_eq)
qed

lemma area_pages_flags:
  assumes "space_ok st mm" "v < UVN"
  shows "v \<in> area_pages st (mmap_list (mms st mm)) \<longleftrightarrow> flags_at st mm (page_addr v) \<noteq> None"
proof -
  have "PPN (vm_start (vmas st w)) \<le> v \<and> v < PPN (vm_end (vmas st w)) \<longleftrightarrow> vm_start (vmas st w) \<le> page_addr v \<and> page_addr v < vm_end (vmas st w)"
    if "w \<in> set (mmap_list (mms st mm))" for w
    using aligned_PPN [OF _ assms(2)] assms(1) that by (auto simp: space_ok_def)
  then show ?thesis unfolding flags_at_none area_pages_def by blast
qed

lemma dup_vmas_ok:
  assumes "dup_ok to src d e D own pool st" "distinct vs" "set vs \<subseteq> set (mmap_list (mms st src))"
    "\<forall>a. in_areas st vs a \<longrightarrow> flags_at st to a = None" "\<forall>p\<in>area_pages st vs. entry (mach st) d p = 0"
  shows "\<exists>r P st'. dup_vmas to src vs st = Some (r, st') \<and> dup_ok to src d e D own pool st' \<and> same_areas src st st'
    \<and> copied_on (mach st) D d e P (mach st') \<and> P \<subseteq> area_pages st vs \<and> (r = 0 \<or> r = - E_NO_MEM \<and> out_of_memory st')
    \<and> (\<forall>a. flags_at st' to a = flags_at st to a \<or> in_areas st vs a \<and> flags_at st' to a = flags_at st src a)
    \<and> (r = 0 \<longrightarrow> P = area_pages st vs \<and> (\<forall>a. in_areas st vs a \<longrightarrow> flags_at st' to a = flags_at st src a))"
  using assms
proof (induction vs arbitrary: st)
  case Nil
  then show ?case using copied_on_empty by (fastforce simp: same_areas_def area_pages_def in_areas_def)
next
  case (Cons v vs)
  let ?lo = "vm_start (vmas st v)" and ?hi = "vm_end (vmas st v)" and ?us = "mmap_list (mms st src)"
  have v: "v \<in> set ?us" "v \<notin> set vs" using Cons.prems(2, 3) by auto
  have ar: "areas_ok (vmas st) ?us" using Cons.prems(1) by (simp add: dup_ok_def space_ok_def mm_ok_def)
  have ap: "vm_end (vmas st w) \<le> ?lo \<or> ?hi \<le> vm_start (vmas st w)" if "w \<in> set vs" for w
    using areas_apart [OF ar, of w v] that v Cons.prems(3) by auto
  have no: "\<forall>a. ?lo \<le> a \<and> a < ?hi \<longrightarrow> flags_at st to a = None" using Cons.prems(4) by (auto simp: in_areas_def)
  have z: "\<forall>p. PPN ?lo \<le> p \<and> p < PPN ?hi \<longrightarrow> entry (mach st) d p = 0" using Cons.prems(5) by (auto simp: area_pages_def)
  obtain r c st1 where s1: "dup_vma to src v st = Some (r, st1)" "dup_ok to src d e D own pool st1" "same_areas src st st1"
    "copied (mach st) D d e False (PPN ?lo) c (mach st1)" "c \<le> PPN ?hi"
    "r = 0 \<and> c = PPN ?hi \<and> flags_at st1 to = (\<lambda>a. if ?lo \<le> a \<and> a < ?hi then Some (vm_flags (vmas st v)) else flags_at st to a)
       \<or> r = - E_NO_MEM \<and> out_of_memory st1 \<and> (flags_at st1 to = flags_at st to \<or> flags_at st1 to = (\<lambda>a. if ?lo \<le> a \<and> a < ?hi then Some (vm_flags (vmas st v)) else flags_at st to a))"
    using dup_vma_ok [OF Cons.prems(1) v(1) no z] by blast
  have own_flags: "flags_at st src a = Some (vm_flags (vmas st v))" if "?lo \<le> a" "a < ?hi" for a
    using flags_at_iff [OF ar, of a] v(1) that by blast
  note c1 = s1(4) [unfolded copied_on_interval]
  show ?case
  proof (cases "r = 0")
    case False
    then have r: "r = - E_NO_MEM" "out_of_memory st1" "\<forall>a. flags_at st1 to a = flags_at st to a \<or> in_areas st (v # vs) a \<and> flags_at st1 to a = flags_at st src a"
      using s1(6) own_flags by (auto simp: in_areas_def)
    have "{PPN ?lo..<c} \<subseteq> area_pages st (v # vs)" using s1(5) by (auto simp: area_pages_def)
    moreover have "dup_vmas to src (v # vs) st = Some (r, st1)" using s1(1) False by simp
    ultimately show ?thesis using s1(2, 3) c1 r by auto
  next
    case True
    then have c: "c = PPN ?hi" and f1: "flags_at st1 to = (\<lambda>a. if ?lo \<le> a \<and> a < ?hi then Some (vm_flags (vmas st v)) else flags_at st to a)"
      using s1(6) by auto
    have same: "vmas st1 w = vmas st w" if "w \<in> set vs" for w using s1(3) that Cons.prems(3) by (auto simp: same_areas_def)
    have ia: "in_areas st1 vs = in_areas st vs" "area_pages st1 vs = area_pages st vs" using same by (auto simp: in_areas_def area_pages_def fun_eq_iff)
    have dis: "{PPN ?lo..<PPN ?hi} \<inter> area_pages st vs = {}"
      using ap PPN_mono by (fastforce simp: area_pages_def)
    have out: "\<not> (?lo \<le> a \<and> a < ?hi)" if i: "in_areas st vs a" for a
    proof -
      obtain w where "w \<in> set vs" "vm_start (vmas st w) \<le> a" "a < vm_end (vmas st w)" using i by (auto simp: in_areas_def)
      then show ?thesis using ap [of w] by (meson leD order_trans less_le_trans le_less_trans)
    qed
    have uvn: "p < UVN" if "p \<in> area_pages st vs" for p
      using area_pages_user [of st src vs p] that Cons.prems(1, 3) by (auto simp: dup_ok_def)
    have dD: "d \<in> D" "e \<in> D" using Cons.prems(1) by (simp_all add: dup_ok_def)
    obtain r' P st' where s': "dup_vmas to src vs st1 = Some (r', st')" "dup_ok to src d e D own pool st'" "same_areas src st1 st'"
      "copied_on (mach st1) D d e P (mach st')" "P \<subseteq> area_pages st vs" "r' = 0 \<or> r' = - E_NO_MEM \<and> out_of_memory st'"
      "\<forall>a. flags_at st' to a = flags_at st1 to a \<or> in_areas st vs a \<and> flags_at st' to a = flags_at st1 src a"
      "r' = 0 \<longrightarrow> P = area_pages st vs \<and> (\<forall>a. in_areas st vs a \<longrightarrow> flags_at st' to a = flags_at st1 src a)"
    proof -
      have "\<forall>a. in_areas st1 vs a \<longrightarrow> flags_at st1 to a = None"
        using Cons.prems(4) out unfolding ia f1 by (auto simp: in_areas_def)
      moreover have "\<forall>p\<in>area_pages st1 vs. entry (mach st1) d p = 0"
      proof
        fix p assume p: "p \<in> area_pages st1 vs"
        then have "p \<notin> {PPN ?lo..<PPN ?hi}" "p < UVN" using dis uvn unfolding ia by blast+
        then have "entry (mach st1) d p = entry (mach st) d p" using copied_on_other [OF c1 dD(1)] unfolding c by blast
        moreover have "p \<in> area_pages st (v # vs)" using p unfolding ia by (auto simp: area_pages_def)
        ultimately show "entry (mach st1) d p = 0" using Cons.prems(5) by simp
      qed
      moreover have "distinct vs" "set vs \<subseteq> set (mmap_list (mms st1 src))" using Cons.prems(2, 3) s1(3) by (auto simp: same_areas_def)
      ultimately show ?thesis using Cons.IH [OF s1(2)] that unfolding ia by blast
    qed
    have fs: "flags_at st1 src = flags_at st src" by (rule same_areas_flags [OF s1(3)])
    have "copied_on (mach st) D d e ({PPN ?lo..<PPN ?hi} \<union> P) (mach st')"
      using copied_on_trans [OF c1 s'(4)] dis s'(5) dD(2) unfolding c by blast
    moreover have pg: "area_pages st (v # vs) = {PPN ?lo..<PPN ?hi} \<union> area_pages st vs" by (auto simp: area_pages_def)
    moreover have ina: "in_areas st (v # vs) a \<longleftrightarrow> ?lo \<le> a \<and> a < ?hi \<or> in_areas st vs a" for a by (auto simp: in_areas_def)
    moreover have "dup_vmas to src (v # vs) st = Some (r', st')" using s1(1) True s'(1) by simp
    moreover have "flags_at st' to a = flags_at st to a \<or> in_areas st (v # vs) a \<and> flags_at st' to a = flags_at st src a" for a
      using s'(7) own_flags [of a] unfolding fs f1 ina by (metis (no_types, lifting))
    moreover have "flags_at st' to a = flags_at st src a" if "r' = 0" "in_areas st (v # vs) a" for a
      using s'(7, 8) that own_flags [of a] unfolding fs f1 ina by (metis (no_types, lifting))
    ultimately show ?thesis using s'(2, 5, 6, 8) same_areas_trans [OF s1(3) s'(3)] by blast
  qed
qed

section \<open>Properties\<close>

text \<open>
  C15: \<^verbatim>\<open>dup_mmap\<close> copies an address space without shared areas to an empty one. It returns, 0 or \<open>- E_NO_MEM\<close>, keeps both address
  spaces and the page tables well-formed, the reference counters exact, the pages and the TLB coherent, and the areas of the source as
  they were. On success the copy has exactly the areas of the source, and every page that the source maps in them is mapped at the same
  place in the copy, the same page without the permission to write, which the source loses as well; no other mapping of any directory
  changes. It fails only when it has run out of objects for areas or of pages for page tables; then this holds for some of the pages and
  the copy has some of the areas.
\<close>

theorem dup_mmap_correct:
  assumes "space_ok st to" "mmap_list (mms st to) = []" "space_ok st src" "private_space st src" "to \<noteq> src" "mm_objs st to \<inter> mm_objs st src = {}"
    "pgdir (mms st to) = Some d" "pgdir (mms st src) = Some e" "d \<in> D" "e \<in> D" "d \<noteq> e" "pt_ok (mach st) D own pool" "room D own"
    "\<forall>v<UVN. entry (mach st) d v = 0"
  shows "\<exists>r P st'. dup_mmap to src st = Some (r, st') \<and> space_ok st' to \<and> space_ok st' src \<and> pt_ok (mach st') D own pool
    \<and> (tlb_ok (mach st) D \<longrightarrow> tlb_ok (mach st') D) \<and> (r = 0 \<or> r = - E_NO_MEM \<and> (objs st' = [] \<or> free_set (phys (mach st')) = {}))
    \<and> flags_at st' src = flags_at st src
    \<and> (\<forall>a. flags_at st' to a = None \<or> flags_at st' to a = flags_at st src a)
    \<and> (\<forall>g\<in>D. \<forall>v<UVN. entry (mach st') g v =
        (let x = entry (mach st) e v in
         if v \<in> P \<and> present x then if g = d then copy_entry False x else if g = e then source_entry False x else entry (mach st) g v
         else entry (mach st) g v))
    \<and> (\<forall>v\<in>P. flags_at st src (page_addr v) \<noteq> None)
    \<and> (r = 0 \<longrightarrow> flags_at st' to = flags_at st src \<and> (\<forall>v<UVN. flags_at st src (page_addr v) \<noteq> None \<longrightarrow> v \<in> P))"
proof -
  let ?us = "mmap_list (mms st src)"
  have ok: "dup_ok to src d e D own pool st" using assms by (simp add: dup_ok_def)
  have ar: "areas_ok (vmas st) ?us" using assms(3) by (simp add: space_ok_def mm_ok_def)
  have none: "flags_at st to a = None" for a by (simp add: flags_at_def assms(2))
  have ina: "in_areas st (rev ?us) a \<longleftrightarrow> flags_at st src a \<noteq> None" for a using flags_at_none [of st src a] by (auto simp: in_areas_def)
  have rv: "area_pages st (rev ?us) = area_pages st ?us" by (simp add: area_pages_def)
  note pages = area_pages_flags [OF assms(3)] and user = area_pages_user [OF assms(3) order_refl]
  obtain r P st' where s': "dup_mmap to src st = Some (r, st')" "dup_ok to src d e D own pool st'" "same_areas src st st'"
    "copied_on (mach st) D d e P (mach st')" "P \<subseteq> area_pages st ?us" "r = 0 \<or> r = - E_NO_MEM \<and> out_of_memory st'"
    "\<forall>a. flags_at st' to a = None \<or> flags_at st' to a = flags_at st src a"
    "r = 0 \<longrightarrow> P = area_pages st ?us \<and> (\<forall>a. flags_at st src a \<noteq> None \<longrightarrow> flags_at st' to a = flags_at st src a)"
  proof -
    have d: "distinct (rev ?us)" "set (rev ?us) \<subseteq> set ?us" using areas_ok_distinct [OF ar] by simp_all
    have n: "\<forall>a. in_areas st (rev ?us) a \<longrightarrow> flags_at st to a = None" "\<forall>p\<in>area_pages st (rev ?us). entry (mach st) d p = 0"
      using none assms(14) user unfolding rv by blast+
    show ?thesis using dup_vmas_ok [OF ok d n, unfolded rv ina none] that unfolding dup_mmap_def by blast
  qed
  have "flags_at st' to = flags_at st src" if "r = 0"
  proof (rule ext)
    fix a show "flags_at st' to a = flags_at st src a" using s'(7, 8) that by (cases "flags_at st src a") (force, auto)
  qed
  moreover have "v \<in> P" if "r = 0" "v < UVN" "flags_at st src (page_addr v) \<noteq> None" for v using s'(8) pages that by simp
  moreover have "flags_at st src (page_addr v) \<noteq> None" if "v \<in> P" for v using s'(5) pages user that by blast
  moreover have "space_ok st' to" "space_ok st' src" "pt_ok (mach st') D own pool" using s'(2) by (simp_all add: dup_ok_def)
  ultimately show ?thesis
    using s'(1, 4, 6, 7) same_areas_flags [OF s'(3)] unfolding copied_on_def out_of_memory_def Let_def by (intro exI [of _ r] exI [of _ P] exI [of _ st']) blast
qed

text \<open>Address space \<open>0\<close> has one area and directory \<open>4\<close>, which maps its page \<open>512\<close>; address space \<open>3\<close> is empty with directory \<open>5\<close>.\<close>

definition demo_pair :: "machine \<Rightarrow> vmm" where
  "demo_pair m = demo_vmm\<lparr>mach := m, mms := \<lambda>i. \<lparr>mmap_list = (if i = 0 then [1] else []), mmap_tree = None, mmap_cache = None,
     pgdir = Some (if i = 0 then 4 else 5), map_count = (if i = 0 then 1 else 0)\<rparr>,
     vmas := \<lambda>_. \<lparr>vm_mm = 0, vm_start = 0x200000, vm_end = 0x202000, vm_flags = VM_READ OR VM_WRITE, vm_shmem = None, shmem_off = 0\<rparr>\<rparr>"

lemma demo_dup: "demo_run (\<lambda>st. map_option fst (dup_mmap 3 0 (demo_pair st))) = Some 0"
  by code_simp

theorem dup_mmap_correct_witness:
  "\<exists>st st'. entry st 4 512 = 7 \<and> dup_mmap 3 0 (demo_pair st) = Some (0, st')
    \<and> flags_at st' 3 0x200123 = Some (VM_READ OR VM_WRITE) \<and> entry (mach st') 4 512 = 5 \<and> entry (mach st') 5 512 = 5"
proof (rule demo_mapped)
  fix st
  assume st: "pt_ok st {4, 5} (\<lambda>_. 0) {0..<6}" "entry st 4 512 = 7" "\<forall>v<UVN. entry st 5 v = 0"
    and run: "pgdir_alloc_page 4 0x200000 7 demo_machine = Some (Some 0, st)"
  let ?st = "demo_pair st"
  have s: "space_ok ?st 3" "mmap_list (mms ?st 3) = []" "space_ok ?st 0" "private_space ?st 0" "(3 :: nat) \<noteq> 0" "mm_objs ?st 3 \<inter> mm_objs ?st 0 = {}"
    "pgdir (mms ?st 3) = Some 5" "pgdir (mms ?st 0) = Some 4"
    unfolding space_ok_def mm_ok_def
    by (simp_all add: demo_pair_def demo_vmm_def areas_ok_def tree_ok_def tree_objs_def mm_objs_def USER_ACCESS_def private_space_def)
  have m: "mach ?st = st" by (simp add: demo_pair_def)
  have d: "(5 :: nat) \<in> {4, 5}" "(4 :: nat) \<in> {4, 5}" "(5 :: nat) \<noteq> 4" by simp_all
  have f: "flags_at ?st 0 0x200123 = Some (VM_READ OR VM_WRITE)" "flags_at ?st 0 (page_addr 512) \<noteq> None"
    by (simp_all add: flags_at_def demo_pair_def page_addr_def)
  have e: "present (7 :: u32)" "copy_entry False 7 = 5" "source_entry False 7 = 5"
    by (simp_all add: present_def copy_entry_def source_entry_def cow_perm_def page2pa_def PPN_def)
  obtain r P st' where r: "dup_mmap 3 0 ?st = Some (r, st')"
    and ent: "\<forall>g\<in>{4, 5}. \<forall>v<UVN. entry (mach st') g v =
        (let x = entry st 4 v in
         if v \<in> P \<and> present x then if g = 5 then copy_entry False x else if g = 4 then source_entry False x else entry st g v
         else entry st g v)"
    and ok: "r = 0 \<longrightarrow> flags_at st' 3 = flags_at ?st 0 \<and> (\<forall>v<UVN. flags_at ?st 0 (page_addr v) \<noteq> None \<longrightarrow> v \<in> P)"
    using dup_mmap_correct [OF s d, unfolded m, OF st(1) demo_room st(3)] by (elim exE conjE) (rule that)
  have r0: "r = 0" using r run demo_dup by (simp add: demo_run_def)
  then have "512 \<in> P" using ok f(2) by simp
  then have "entry (mach st') 4 512 = 5" "entry (mach st') 5 512 = 5" using ent st(2) e by simp_all
  then show ?thesis using r r0 ok f(1) st(2) by (intro exI [of _ st] exI [of _ st']) simp
qed

end
