(* ===== verification/VmmExit.thy ===== *)
theory VmmExit
  imports VmmDup
begin

text \<open>
  Emptying the address space of a process that ends, \<^verbatim>\<open>exit_mmap\<close> of \<^verbatim>\<open>kern/mm/vmm.c\<close>: all pages of the areas are unmapped, and
  their page tables are given back with \<^verbatim>\<open>exit_range\<close> of \<^verbatim>\<open>arch/x86/pmm.c\<close>.
\<close>

section \<open>Giving back page tables\<close>

text \<open>The tables with indices in \<open>I\<close> of directory \<open>d\<close>, which are empty, are freed.\<close>

definition dropped :: "machine \<Rightarrow> nat set \<Rightarrow> nat \<Rightarrow> nat set \<Rightarrow> machine \<Rightarrow> bool" where
  "dropped st D d I st' \<longleftrightarrow> (\<forall>e\<in>D. \<forall>v<UVN. entry st' e v = entry st e v)
     \<and> (\<forall>e\<in>D. \<forall>i. frames st' e i = (if e = d \<and> i \<in> I \<and> present (frames st e i) then 0 else frames st e i))
     \<and> cr3 st' = cr3 st \<and> tlb st' = tlb st
     \<and> free_set (phys st') = free_set (phys st) \<union> {PPN (frames st d i) | i. i \<in> I \<and> present (frames st d i)}"

lemma dropped_refl: "(\<And>i. i \<in> I \<Longrightarrow> \<not> present (frames st d i)) \<Longrightarrow> dropped st D d I st"
  by (auto simp: dropped_def)

lemma dropped_trans:
  assumes "dropped st D d I st1" "dropped st1 D d J st2" "d \<in> D"
  shows "dropped st D d (I \<union> J) st2"
proof -
  have f1: "frames st1 d i = (if i \<in> I \<and> present (frames st d i) then 0 else frames st d i)" for i
    using assms(1, 3) by (simp add: dropped_def)
  have "{PPN (frames st1 d i) | i. i \<in> J \<and> present (frames st1 d i)} = {PPN (frames st d i) | i. i \<in> J \<and> i \<notin> I \<and> present (frames st d i)}"
    unfolding f1 by (auto split: if_splits)
  then have "free_set (phys st2) = free_set (phys st) \<union> {PPN (frames st d i) | i. i \<in> I \<union> J \<and> present (frames st d i)}"
    using assms(1, 2) unfolding dropped_def by auto
  moreover have "frames st2 e i = (if e = d \<and> i \<in> I \<union> J \<and> present (frames st e i) then 0 else frames st e i)" if "e \<in> D" for e i
    using assms(1, 2) that unfolding dropped_def by auto
  ultimately show ?thesis using assms(1, 2) unfolding dropped_def by simp
qed

lemma dropped_tlb_ok: "dropped st D d I st' \<Longrightarrow> tlb_ok st D \<Longrightarrow> tlb_ok st' D"
  by (simp add: dropped_def tlb_ok_def)

lemma drop_table:
  assumes ok: "pt_ok st D own pool" and d: "d \<in> D" "i < UDX" "present (frames st d i)" and z: "\<forall>v<UVN. entry st d v = 0"
  defines "p \<equiv> PPN (frames st d i)"
  shows "\<exists>b. buddy_free_pages p 1 (phys st) = Some b \<and> pt_ok (write_entry (d, i) 0 (st\<lparr>phys := b\<rparr>)) D own pool
    \<and> dropped st D d {i} (write_entry (d, i) 0 (st\<lparr>phys := b\<rparr>))"
proof -
  have tok: "tables_ok st D" and pok: "phys_ok st" and rok: "refs_ok st D own" using ok by (simp_all add: pt_ok_def)
  have p: "p \<in> tables st D" unfolding p_def by (rule in_tables [OF d])
  then have po: "owned st p" "p \<notin> D" using tok by (auto simp: tables_ok_def)
  have "{p..<p + 1} = {p}" by auto
  then obtain b where b: "buddy_free_pages p 1 (phys st) = Some b" "buddy_inv b" "region_ok b = region_ok (phys st)"
      "free_set b = insert p (free_set (phys st))"
    using bm.free_law [of "phys st" p 1] pok po(1) by (auto simp: phys_ok_def owned_def)
  have rc: "ref (pages b q) = (if q = p then 0 else refcount st q)" for q using bc.free_refs [OF b(1)] by (auto simp: fun_eq_iff)
  define st' where "st' = write_entry (d, i) 0 (st\<lparr>phys := b\<rparr>)"
  have fr: "frames st' e j = (if e = d \<and> j = i then 0 else frames st e j)" for e j by (simp add: st'_def)
  have own': "owned st' q \<longleftrightarrow> owned st q \<and> q \<noteq> p" for q using b(3, 4) by (auto simp: owned_def st'_def)
  have tabs: "t \<in> tables st' D \<longleftrightarrow> t \<in> tables st D \<and> t \<noteq> p" for t
  proof
    assume "t \<in> tables st' D"
    then obtain e j where ej: "t = PPN (frames st' e j)" "e \<in> D" "j < UDX" "present (frames st' e j)" unfolding tables_def by blast
    then have o: "\<not> (e = d \<and> j = i)" "present (frames st e j)" "t = PPN (frames st e j)" by (auto simp: fr split: if_splits)
    then show "t \<in> tables st D \<and> t \<noteq> p"
      using in_tables [OF ej(2,3) o(2)] tables_ok_inj [OF tok ej(2) d(1) ej(3) d(2) o(2) d(3)] by (auto simp: p_def)
  next
    assume "t \<in> tables st D \<and> t \<noteq> p"
    then obtain e j where ej: "t = PPN (frames st e j)" "e \<in> D" "j < UDX" "present (frames st e j)" "t \<noteq> p" unfolding tables_def by blast
    then have "frames st' e j = frames st e j" by (auto simp: fr p_def)
    then show "t \<in> tables st' D" using ej in_tables [of e D j st'] by simp
  qed
  have ent: "entry st' e v = entry st e v" if "e \<in> D" "v < UVN" for e v
  proof (cases "e = d \<and> v div 1024 = i")
    case True
    then have "entry st' e v = 0" by (simp add: entry_def fr)
    then show ?thesis using z that True by simp
  next
    case False
    have "PPN (frames st e (v div 1024)) \<noteq> d" if "present (frames st e (v div 1024))"
      using in_tables [OF \<open>e \<in> D\<close> _ that] \<open>v < UVN\<close> tok d(1) by (auto simp: tables_ok_def less_mult_imp_div_less)
    then show ?thesis using False by (auto simp: entry_def Let_def fr)
  qed
  have maps: "maps st' D = maps st D" using ent by (auto simp: maps_def fun_eq_iff)
  have "user_page st' D q" "refcount st' q = refcount st q" if "user_page st D q" for q
    using that p own' tabs by (auto simp: user_page_def st'_def rc)
  then have "refs_ok st' D own" using rok unfolding refs_ok_def maps by simp
  moreover have "phys_ok st'" using pok b(2-4) rc by (auto simp: phys_ok_def st'_def)
  moreover have "tables_ok st' D"
  proof -
    have "e = e' \<and> j = j'" if "e \<in> D" "e' \<in> D" "j < UDX" "j' < UDX" "present (frames st' e j)" "present (frames st' e' j')"
      "PPN (frames st' e j) = PPN (frames st' e' j')" for e e' j j'
      using that tables_ok_inj [OF tok that(1-4)] by (auto simp: fr split: if_splits)
    then show ?thesis using tok po tabs own' unfolding tables_ok_def by blast
  qed
  moreover have "free_set (phys st') \<union> used st' D own = free_set (phys st) \<union> used st D own"
    using b(4) p tabs maps by (auto simp: used_def st'_def)
  ultimately have "pt_ok st' D own pool" using ok by (simp add: pt_ok_def)
  moreover have "dropped st D d {i} st'" using ent fr d(3) b(4) by (auto simp: dropped_def st'_def p_def)
  ultimately show ?thesis using b(1) by (auto simp: st'_def)
qed

lemma exit_loop_ok:
  assumes "pt_ok st D own pool" "d \<in> D" "4194304 dvd unat start" "unat start < unat end" "unat end \<le> 0xB0000000" "\<forall>v<UVN. entry st d v = 0"
  shows "\<exists>st'. exit_loop d start end st = Some st' \<and> pt_ok st' D own pool
    \<and> dropped st D d {i. unat start \<le> 4194304 * i \<and> 4194304 * i < unat end} st'"
  using assms
proof (induction "unat end - unat start" arbitrary: start st rule: less_induct)
  case less
  let ?I = "\<lambda>s. {i. unat s \<le> 4194304 * i \<and> 4194304 * i < unat end}"
  obtain k where k: "unat start = 4194304 * k" using less.prems(3) by blast
  have pd: "PDX start = k" "k < UDX" using k less.prems(4, 5) by (simp_all add: PDX_eq)
  have s': "unat (start + PTSIZE) = unat start + 4194304" using less.prems(4, 5) by (simp add: unat_word_ariths)
  have nz: "start + PTSIZE \<noteq> 0" using s' by auto
  have one: "?I start = {k} \<union> ?I (start + PTSIZE)" using k s' less.prems(4) by auto
  obtain st1 where st1: "(if present (frames st d k) then pde2page (frames st d k) st \<bind> (\<lambda>pt. free_pages pt 1 st \<bind> (\<lambda>st. Some (write_entry (d, k) 0 st))) else Some st)
      = Some st1" "pt_ok st1 D own pool" "dropped st D d {k} st1"
  proof (cases "present (frames st d k)")
    case True
    have "owned st (PPN (frames st d k))" using in_tables [OF less.prems(2) pd(2) True] less.prems(1) by (auto simp: pt_ok_def tables_ok_def)
    then have "pde2page (frames st d k) st = Some (PPN (frames st d k))"
      using owned_less [of st "PPN (frames st d k)"] by (simp add: not_le pde2page_def pa2page_def PDE_ADDR_def)
    then show ?thesis using that drop_table [OF less.prems(1,2) pd(2) True less.prems(6)] True by (auto simp: free_pages_eq)
  next
    case False
    then show ?thesis using that [of st] less.prems(1) dropped_refl [of "{k}" st d D] by simp
  qed
  have "exit_loop d start end st =
      (if present (frames st d k) then pde2page (frames st d k) st \<bind> (\<lambda>pt. free_pages pt 1 st \<bind> (\<lambda>st. Some (write_entry (d, k) 0 st))) else Some st)
        \<bind> (\<lambda>st. if start + PTSIZE \<noteq> 0 \<and> start + PTSIZE < end then exit_loop d (start + PTSIZE) end st else Some st)"
    by (subst exit_loop.simps) (unfold pd(1) Let_def read_entry_def present_def fst_conv snd_conv prod.case, rule refl)
  then have loop: "exit_loop d start end st = (if start + PTSIZE < end then exit_loop d (start + PTSIZE) end st1 else Some st1)"
    unfolding st1(1) using nz by simp
  have z1: "\<forall>v<UVN. entry st1 d v = 0" using st1(3) less.prems(2, 6) by (simp add: dropped_def)
  show ?case
  proof (cases "start + PTSIZE < end")
    case True
    have d': "unat end - unat (start + PTSIZE) < unat end - unat start" "4194304 dvd unat (start + PTSIZE)" "unat (start + PTSIZE) < unat end"
      using True s' less.prems(3, 4) by (auto simp: word_less_nat_alt)
    obtain st' where "exit_loop d (start + PTSIZE) end st1 = Some st'" "pt_ok st' D own pool" "dropped st1 D d (?I (start + PTSIZE)) st'"
      using less.hyps [OF d'(1) st1(2) less.prems(2) d'(2,3) less.prems(5) z1] by blast
    then show ?thesis using loop True dropped_trans [OF st1(3) _ less.prems(2)] unfolding one by auto
  next
    case False
    then have "?I (start + PTSIZE) = {}" using s' by (auto simp: word_less_nat_alt)
    then have "?I start = {k}" using one by blast
    then show ?thesis using loop False st1(2, 3) by simp
  qed
qed

lemma exit_range_ok:
  assumes "pt_ok st D own pool" "d \<in> D" "USER_ACCESS lo hi" "lo mod PGSIZE = 0" "hi mod PGSIZE = 0" "\<forall>v<UVN. entry st d v = 0"
  shows "\<exists>st'. exit_range d lo hi st = Some st' \<and> pt_ok st' D own pool
    \<and> dropped st D d {i. \<exists>a. lo \<le> a \<and> a < hi \<and> PDX a = i} st'"
proof -
  let ?s = "ROUNDDOWN lo PTSIZE"
  have s: "unat ?s = 4194304 * PDX lo" by (simp add: unat_ROUNDDOWN_div PDX_eq)
  have b: "unat lo < unat hi" "unat hi \<le> 0xB0000000" using assms(3) by (auto simp: USER_ACCESS_def word_less_nat_alt word_le_nat_alt)
  have "unat ?s \<le> unat lo" by (simp add: unat_ROUNDDOWN)
  then have lt: "unat ?s < unat hi" using b by simp
  have "{i. unat ?s \<le> 4194304 * i \<and> 4194304 * i < unat hi} = {i. \<exists>a. lo \<le> a \<and> a < hi \<and> PDX a = i}"
  proof (intro Collect_cong iffI)
    fix i assume i: "unat ?s \<le> 4194304 * i \<and> 4194304 * i < unat hi"
    show "\<exists>a. lo \<le> a \<and> a < hi \<and> PDX a = i"
    proof (cases "i = PDX lo")
      case True
      then show ?thesis using assms(3) by (auto simp: USER_ACCESS_def)
    next
      case False
      then have "PDX lo < i" using i s by simp
      define a where "a = (of_nat (4194304 * i) :: u32)"
      have "4194304 * i < 2 ^ 32" using i b(2) by simp
      then have u: "unat a = 4194304 * i" unfolding a_def by (simp add: unat_of_nat del: of_nat_mult)
      have "unat lo < 4194304 * Suc (PDX lo)" unfolding PDX_eq using dividend_less_times_div [of 4194304 "unat lo"] by simp
      then have "unat lo \<le> unat a" using \<open>PDX lo < i\<close> u by simp
      then show ?thesis using u i by (intro exI [of _ a]) (simp add: word_le_nat_alt word_less_nat_alt PDX_eq)
    qed
  next
    fix i assume "\<exists>a. lo \<le> a \<and> a < hi \<and> PDX a = i"
    then obtain a where "lo \<le> a" "a < hi" "PDX a = i" by blast
    then have a: "unat lo \<le> unat a" "unat a < unat hi" "i = unat a div 4194304" by (auto simp: word_le_nat_alt word_less_nat_alt PDX_eq)
    then have "unat lo div 4194304 \<le> i" "4194304 * i \<le> unat a" by (auto intro: div_le_mono)
    then show "unat ?s \<le> 4194304 * i \<and> 4194304 * i < unat hi" using s a(2) by (simp add: PDX_eq)
  qed
  then show ?thesis using exit_loop_ok [OF assms(1,2) _ lt b(2) assms(6)] assms(3-5) s by (simp add: exit_range_def)
qed

section \<open>All areas\<close>

lemma unmap_all_ok:
  assumes "space_ok st mm" "pgdir (mms st mm) = Some d" "pt_ok (mach st) D own pool" "d \<in> D" "set vs \<subseteq> set (mmap_list (mms st mm))"
  shows "\<exists>m. exit_vmas unmap_range mm vs st = Some (st\<lparr>mach := m\<rparr>) \<and> pt_ok m D own pool
    \<and> gone (mach st) D d (\<lambda>p. p \<in> area_pages st vs) m"
  using assms
proof (induction vs arbitrary: st)
  case Nil
  then show ?case using gone_none [of "\<lambda>p. p \<in> area_pages st []" "mach st" D d] by (intro exI [of _ "mach st"]) (auto simp: area_pages_def)
next
  case (Cons v vs)
  let ?lo = "vm_start (vmas st v)" and ?hi = "vm_end (vmas st v)"
  have r: "USER_ACCESS ?lo ?hi" "?lo mod PGSIZE = 0" "?hi mod PGSIZE = 0" using Cons.prems(1, 5) by (auto simp: space_ok_def)
  obtain m1 where m1: "unmap_range d ?lo ?hi (mach st) = Some m1" "pt_ok m1 D own pool" "unmapped (mach st) D d (PPN ?lo) (PPN ?hi) m1"
    using unmap_range_ok [OF Cons.prems(3,4) r] by blast
  let ?st1 = "st\<lparr>mach := m1\<rparr>"
  obtain m where m: "exit_vmas unmap_range mm vs ?st1 = Some (?st1\<lparr>mach := m\<rparr>)" "pt_ok m D own pool"
    "gone m1 D d (\<lambda>p. p \<in> area_pages st vs) m"
    using Cons.IH [of ?st1] Cons.prems m1(2) by (auto simp: area_pages_def)
  have "exit_vmas unmap_range mm (v # vs) st = Some (st\<lparr>mach := m\<rparr>)"
    using m1(1) m(1) Cons.prems(2) by (simp add: on_pgdir_def do_mach_def)
  moreover have "gone (mach st) D d (\<lambda>p. p \<in> area_pages st (v # vs)) m"
    by (rule gone_cong [OF gone_trans [OF unmapped_gone [OF m1(3)] m(3) Cons.prems(4)]]) (auto simp: area_pages_def)
  ultimately show ?case using m(2) by blast
qed

lemma exit_all_ok:
  assumes "space_ok st mm" "pgdir (mms st mm) = Some d" "pt_ok (mach st) D own pool" "d \<in> D" "set vs \<subseteq> set (mmap_list (mms st mm))"
    "\<forall>v<UVN. entry (mach st) d v = 0"
  shows "\<exists>m. exit_vmas exit_range mm vs st = Some (st\<lparr>mach := m\<rparr>) \<and> pt_ok m D own pool
    \<and> dropped (mach st) D d {i. \<exists>v\<in>set vs. \<exists>a. vm_start (vmas st v) \<le> a \<and> a < vm_end (vmas st v) \<and> PDX a = i} m"
  using assms
proof (induction vs arbitrary: st)
  case Nil
  then show ?case using dropped_refl [of "{}"] by (intro exI [of _ "mach st"]) auto
next
  case (Cons v vs)
  let ?lo = "vm_start (vmas st v)" and ?hi = "vm_end (vmas st v)"
  let ?I = "\<lambda>vs. {i. \<exists>v\<in>set vs. \<exists>a. vm_start (vmas st v) \<le> a \<and> a < vm_end (vmas st v) \<and> PDX a = i}"
  have r: "USER_ACCESS ?lo ?hi" "?lo mod PGSIZE = 0" "?hi mod PGSIZE = 0" using Cons.prems(1, 5) by (auto simp: space_ok_def)
  obtain m1 where m1: "exit_range d ?lo ?hi (mach st) = Some m1" "pt_ok m1 D own pool" "dropped (mach st) D d {i. \<exists>a. ?lo \<le> a \<and> a < ?hi \<and> PDX a = i} m1"
    using exit_range_ok [OF Cons.prems(3,4) r Cons.prems(6)] by blast
  let ?st1 = "st\<lparr>mach := m1\<rparr>"
  have z: "\<forall>v<UVN. entry m1 d v = 0" using m1(3) Cons.prems(4, 6) by (simp add: dropped_def)
  obtain m where m: "exit_vmas exit_range mm vs ?st1 = Some (?st1\<lparr>mach := m\<rparr>)" "pt_ok m D own pool" "dropped m1 D d (?I vs) m"
    using Cons.IH [of ?st1] Cons.prems m1(2) z by auto
  have "exit_vmas exit_range mm (v # vs) st = Some (st\<lparr>mach := m\<rparr>)"
    using m1(1) m(1) Cons.prems(2) by (simp add: on_pgdir_def do_mach_def)
  moreover have "?I (v # vs) = {i. \<exists>a. ?lo \<le> a \<and> a < ?hi \<and> PDX a = i} \<union> ?I vs" by auto
  then have "dropped (mach st) D d (?I (v # vs)) m" using dropped_trans [OF m1(3) m(3) Cons.prems(4)] by simp
  ultimately show ?case using m(2) by blast
qed

section \<open>Properties\<close>

text \<open>
  C16: \<^verbatim>\<open>exit_mmap\<close> empties an address space whose mappings lie in its areas. It returns, keeps the areas, the invariant of the page
  tables, the reference counters, the pages and the coherence of the TLB; afterwards the directory maps no page, it has no page table for
  any address of the areas, and no mapping of another directory has changed. Exactly these page tables and the pages that lost
  their last mapping and that nobody holds have been given back to the allocator. A table left from an area that was unmapped earlier,
  and that covers no address of the areas, stays.
\<close>

theorem exit_mmap_correct:
  assumes "space_ok st mm" "pgdir (mms st mm) = Some d" "pt_ok (mach st) D own pool" "d \<in> D"
    "\<forall>v<UVN. entry (mach st) d v = 0 \<or> present (entry (mach st) d v) \<and> flags_at st mm (page_addr v) \<noteq> None"
  shows "\<exists>st'. exit_mmap mm st = Some st' \<and> space_ok st' mm \<and> flags_at st' mm = flags_at st mm \<and> pt_ok (mach st') D own pool
    \<and> (tlb_ok (mach st) D \<longrightarrow> tlb_ok (mach st') D)
    \<and> (\<forall>e\<in>D. \<forall>v<UVN. entry (mach st') e v = (if e = d then 0 else entry (mach st) e v))
    \<and> (\<forall>a. flags_at st mm a \<noteq> None \<longrightarrow> \<not> present (frames (mach st') d (PDX a)))
    \<and> free_set (phys (mach st')) = free_set (phys (mach st))
        \<union> {q. maps (mach st) D q \<noteq> {} \<and> maps (mach st') D q = {} \<and> own q = 0}
        \<union> {PPN (frames (mach st) d (PDX a)) | a. flags_at st mm a \<noteq> None \<and> present (frames (mach st) d (PDX a))}"
proof -
  let ?vs = "mmap_list (mms st mm)"
  obtain m where m: "exit_vmas unmap_range mm ?vs st = Some (st\<lparr>mach := m\<rparr>)" "pt_ok m D own pool"
    "gone (mach st) D d (\<lambda>p. p \<in> area_pages st ?vs) m"
    using unmap_all_ok [OF assms(1-4) order_refl] by blast
  have dir: "frames m d = frames (mach st) d" using m(3) assms(4) by (simp add: gone_def)
  have e: "entry m g v = (if g = d then 0 else entry (mach st) g v)" if "g \<in> D" "v < UVN" for g v
    using m(3) assms(5) area_pages_flags [OF assms(1) that(2)] that by (auto simp: gone_def)
  let ?st1 = "st\<lparr>mach := m\<rparr>"
  obtain m' where m': "exit_vmas exit_range mm ?vs ?st1 = Some (?st1\<lparr>mach := m'\<rparr>)" "pt_ok m' D own pool"
    "dropped m D d {i. \<exists>v\<in>set ?vs. \<exists>a. vm_start (vmas st v) \<le> a \<and> a < vm_end (vmas st v) \<and> PDX a = i} m'"
    using exit_all_ok [of ?st1 mm d D own pool ?vs] assms(1, 2, 4) m(2) e by auto
  have "exit_mmap mm st = Some (st\<lparr>mach := m'\<rparr>)" using m(1) m'(1) by (simp add: exit_mmap_def)
  moreover have "tlb_ok (mach st) D \<longrightarrow> tlb_ok m' D" using m(3) dropped_tlb_ok [OF m'(3)] by (simp add: gone_def)
  moreover have "entry m' g v = (if g = d then 0 else entry (mach st) g v)" if "g \<in> D" "v < UVN" for g v
    using m'(3) e that by (simp add: dropped_def)
  moreover have "\<not> present (frames m' d (PDX a))" if f: "flags_at st mm a \<noteq> None" for a
  proof -
    obtain v where "v \<in> set ?vs" "vm_start (vmas st v) \<le> a" "a < vm_end (vmas st v)" using f unfolding flags_at_none by blast
    then show ?thesis using m'(3) assms(4) by (auto simp: dropped_def)
  qed
  moreover have "free_set (phys m') = free_set (phys (mach st)) \<union> {q. maps (mach st) D q \<noteq> {} \<and> maps m' D q = {} \<and> own q = 0}
      \<union> {PPN (frames (mach st) d (PDX a)) | a. flags_at st mm a \<noteq> None \<and> present (frames (mach st) d (PDX a))}"
  proof -
    have "maps m' D = maps m D" using m'(3) by (auto simp: dropped_def maps_def fun_eq_iff)
    moreover have "free_set (phys m') = free_set (phys m)
        \<union> {PPN (frames (mach st) d (PDX a)) | a. flags_at st mm a \<noteq> None \<and> present (frames (mach st) d (PDX a))}"
      using m'(3) unfolding dropped_def dir flags_at_none by blast
    ultimately show ?thesis using gone_freed [OF m(3) assms(3) m(2)] by simp
  qed
  ultimately show ?thesis using assms(1) m'(2) by (intro exI [of _ "st\<lparr>mach := m'\<rparr>"]) simp
qed

theorem exit_mmap_correct_witness:
  "\<exists>st st'. entry (mach st) 4 512 = 7 \<and> exit_mmap 0 st = Some st' \<and> entry (mach st') 4 512 = 0 \<and> \<not> present (frames (mach st') 4 (PDX 0x200000))"
proof (rule demo_mapped)
  fix m
  assume m: "pt_ok m {4, 5} (\<lambda>_. 0) {0..<6}" "entry m 4 512 = 7" "\<forall>v<UVN. v \<noteq> 512 \<longrightarrow> entry m 4 v = 0"
  let ?st = "demo_pair m"
  have s: "space_ok ?st 0" "pgdir (mms ?st 0) = Some 4" "pt_ok (mach ?st) {4, 5} (\<lambda>_. 0) {0..<6}" "(4 :: nat) \<in> {4, 5}"
    unfolding space_ok_def mm_ok_def using m(1)
    by (simp_all add: demo_pair_def demo_vmm_def areas_ok_def tree_ok_def tree_objs_def mm_objs_def USER_ACCESS_def)
  have f: "flags_at ?st 0 (page_addr 512) = Some (VM_READ OR VM_WRITE)" "flags_at ?st 0 0x200000 \<noteq> None" "mach ?st = m"
    by (simp_all add: flags_at_def demo_pair_def page_addr_def)
  have "\<forall>v<UVN. entry (mach ?st) 4 v = 0 \<or> present (entry (mach ?st) 4 v) \<and> flags_at ?st 0 (page_addr v) \<noteq> None"
  proof (intro allI impI)
    fix v :: nat assume "v < UVN"
    then show "entry (mach ?st) 4 v = 0 \<or> present (entry (mach ?st) 4 v) \<and> flags_at ?st 0 (page_addr v) \<noteq> None"
      using m(2, 3) f by (cases "v = 512") (simp_all add: present_def)
  qed
  from exit_mmap_correct [OF s this] obtain st' where "exit_mmap 0 ?st = Some st'" "entry (mach st') 4 512 = 0" "\<not> present (frames (mach st') 4 (PDX 0x200000))"
    using f(2) by auto
  then show ?thesis using m(2) f(3) by (intro exI [of _ ?st] exI [of _ st']) simp
qed

end
