(* ===== verification/Slab.thy ===== *)
theory Slab
  imports PageMap
begin

text \<open>
  The slab allocator of \<^verbatim>\<open>kern/mm/slab.c\<close> behind \<^verbatim>\<open>kmalloc\<close> and \<^verbatim>\<open>kfree\<close>.

  The control block of a slab, \<^verbatim>\<open>slab_t\<close> followed by the array of free links, lives in the memory it
  manages or in an object of another cache. The model keeps it there: \<open>mem\<close> is the memory of the kernel
  as words at their addresses, and the fields of \<^verbatim>\<open>slab_t\<close> are read and written at their offsets. The two
  words of \<^verbatim>\<open>slab_link\<close> are represented by the two lists of a cache. A cache pointer is the index in
  \<^verbatim>\<open>slab_cache\<close>, and the two pointers that the code stores in the link field of a page descriptor are
  \<open>page_cache\<close> and \<open>page_slab\<close>. \<open>None\<close> is a panic or a loop without end.
\<close>

section \<open>Definitions\<close>

record kmem_cache_s =
  slabs_full :: "u32 list"
  slabs_notfull :: "u32 list"
  objsize :: u32
  num :: u32
  offset :: u32
  off_slab :: bool
  page_order :: nat
  slab_cachep :: "nat option"

record slab_state =
  smach :: machine
  slab_cache :: "nat \<Rightarrow> kmem_cache_s"
  mem :: "u32 \<Rightarrow> u32"
  page_cache :: "nat \<Rightarrow> nat"
  page_slab :: "nat \<Rightarrow> u32"

abbreviation (input) BUFCTL_END :: u32 where "BUFCTL_END \<equiv> 0xFFFFFFFF"
abbreviation (input) SLAB_LIMIT :: u32 where "SLAB_LIMIT \<equiv> 0xFFFFFFFE"
abbreviation (input) MIN_SIZE_ORDER :: nat where "MIN_SIZE_ORDER \<equiv> 5"
abbreviation (input) MAX_SIZE_ORDER :: nat where "MAX_SIZE_ORDER \<equiv> 17"
abbreviation (input) SLAB_CACHE_NUM :: nat where "SLAB_CACHE_NUM \<equiv> 13"
abbreviation (input) KMALLOC_MAX_ORDER :: nat where "KMALLOC_MAX_ORDER \<equiv> 10"
abbreviation (input) sizeof_slab_t :: u32 where "sizeof_slab_t \<equiv> 24"
abbreviation (input) sizeof_bufctl :: u32 where "sizeof_bufctl \<equiv> 4"

subsection \<open>The fields of a slab in memory\<close>

definition s_mem :: "slab_state \<Rightarrow> u32 \<Rightarrow> u32" where
  "s_mem st slabp = mem st (slabp + 8)"

definition inuse :: "slab_state \<Rightarrow> u32 \<Rightarrow> u32" where
  "inuse st slabp = mem st (slabp + 12)"

definition s_offset :: "slab_state \<Rightarrow> u32 \<Rightarrow> u32" where
  "s_offset st slabp = mem st (slabp + 16)"

definition s_free :: "slab_state \<Rightarrow> u32 \<Rightarrow> u32" where
  "s_free st slabp = mem st (slabp + 20)"

definition slab_bufctl :: "u32 \<Rightarrow> u32 \<Rightarrow> u32" where
  "slab_bufctl slabp i = slabp + sizeof_slab_t + sizeof_bufctl * i"

definition store :: "u32 \<Rightarrow> u32 \<Rightarrow> slab_state \<Rightarrow> slab_state" where
  "store a v st = st\<lparr>mem := (mem st)(a := v)\<rparr>"

definition upd_cache :: "nat \<Rightarrow> (kmem_cache_s \<Rightarrow> kmem_cache_s) \<Rightarrow> slab_state \<Rightarrow> slab_state" where
  "upd_cache c f st = st\<lparr>slab_cache := (slab_cache st)(c := f (slab_cache st c))\<rparr>"

text \<open>
  \<^verbatim>\<open>list_del(&(slabp->slab_link))\<close> takes a slab off the list it is on, \<^verbatim>\<open>list_add\<close> puts it in front.
\<close>

definition slab_del :: "nat \<Rightarrow> u32 \<Rightarrow> slab_state \<Rightarrow> slab_state" where
  "slab_del c slabp = upd_cache c (\<lambda>k. k\<lparr>slabs_full := remove1 slabp (slabs_full k), slabs_notfull := remove1 slabp (slabs_notfull k)\<rparr>)"

definition add_full :: "nat \<Rightarrow> u32 \<Rightarrow> slab_state \<Rightarrow> slab_state" where
  "add_full c slabp = upd_cache c (\<lambda>k. k\<lparr>slabs_full := slabp # slabs_full k\<rparr>)"

definition add_notfull :: "nat \<Rightarrow> u32 \<Rightarrow> slab_state \<Rightarrow> slab_state" where
  "add_notfull c slabp = upd_cache c (\<lambda>k. k\<lparr>slabs_notfull := slabp # slabs_notfull k\<rparr>)"

definition irq_save :: "slab_state \<Rightarrow> u32 \<times> slab_state" where
  "irq_save st = (let (fl, m) = local_irq_save (smach st) in (fl, st\<lparr>smach := m\<rparr>))"

definition irq_restore :: "u32 \<Rightarrow> slab_state \<Rightarrow> slab_state" where
  "irq_restore fl st = st\<lparr>smach := local_irq_restore fl (smach st)\<rparr>"

text \<open>The kernel address of a page.\<close>

definition page_kva :: "nat \<Rightarrow> slab_state \<Rightarrow> u32 option" where
  "page_kva page st = map_option (\<lambda>f. KERNBASE + page2pa f) (page2kva page (smach st))"

subsection \<open>The layout of a slab\<close>

definition slab_mgmt_size :: "u32 \<Rightarrow> u32 \<Rightarrow> u32" where
  "slab_mgmt_size n align = ROUNDUP (sizeof_slab_t + n * sizeof_bufctl) align"

partial_function (option) shrink_objs :: "u32 \<Rightarrow> u32 \<Rightarrow> u32 \<Rightarrow> u32 \<Rightarrow> u32 option" where
  "shrink_objs nr_objs objsz align slab_size =
     (if slab_mgmt_size nr_objs align + nr_objs * objsz > slab_size
      then shrink_objs (nr_objs - 1) objsz align slab_size
      else Some nr_objs)"

declare shrink_objs.simps [code]

definition cache_estimate :: "nat \<Rightarrow> u32 \<Rightarrow> u32 \<Rightarrow> bool \<Rightarrow> (u32 \<times> u32) option" where
  "cache_estimate order objsz align off = do {
     let slab_size = push_bit order PGSIZE;
     (nr_objs, mgmt_size) \<leftarrow>
       (if off then do {
          let nr_objs = slab_size div objsz;
          Some (if nr_objs > SLAB_LIMIT then SLAB_LIMIT else nr_objs, 0)
        }
        else do {
          nr_objs \<leftarrow> shrink_objs ((slab_size - sizeof_slab_t) div (objsz + sizeof_bufctl)) objsz align slab_size;
          let nr_objs = (if nr_objs > SLAB_LIMIT then SLAB_LIMIT else nr_objs);
          Some (nr_objs, slab_mgmt_size nr_objs align)
        });
     Some (slab_size - nr_objs * objsz - mgmt_size, nr_objs)
   }"

fun slab_order_from :: "nat list \<Rightarrow> u32 \<Rightarrow> u32 \<Rightarrow> bool \<Rightarrow> (u32 \<times> nat \<times> u32) option" where
  "slab_order_from [] objsz align off = None"
| "slab_order_from (order # orders) objsz align off = do {
     (remainder, n) \<leftarrow> cache_estimate order objsz align off;
     if n \<noteq> 0 then
       if off \<and> n > (objsz - sizeof_slab_t) div sizeof_bufctl then None
       else if remainder * 8 \<le> push_bit order PGSIZE then Some (n, order, remainder)
       else slab_order_from orders objsz align off
     else slab_order_from orders objsz align off
   }"

definition calculate_slab_order :: "nat \<Rightarrow> u32 \<Rightarrow> u32 \<Rightarrow> bool \<Rightarrow> slab_state \<Rightarrow> (u32 \<times> slab_state) option" where
  "calculate_slab_order c objsz align off st = do {
     (n, order, left_over) \<leftarrow> slab_order_from [0..<Suc KMALLOC_MAX_ORDER] objsz align off;
     Some (left_over, upd_cache c (\<lambda>k. k\<lparr>num := n, page_order := order\<rparr>) st)
   }"

definition slab_getorder :: "u32 \<Rightarrow> nat option" where
  "slab_getorder n = find (\<lambda>order. n \<le> push_bit order 1) [MIN_SIZE_ORDER..<Suc MAX_SIZE_ORDER]"

definition init_kmem_cache :: "nat \<Rightarrow> u32 \<Rightarrow> u32 \<Rightarrow> slab_state \<Rightarrow> slab_state option" where
  "init_kmem_cache c objsz align st = do {
     let st = upd_cache c (\<lambda>k. k\<lparr>slabs_full := [], slabs_notfull := []\<rparr>) st;
     let objsz = ROUNDUP objsz align;
     let st = upd_cache c (\<lambda>k. k\<lparr>objsize := objsz, off_slab := objsz \<ge> drop_bit 3 PGSIZE\<rparr>) st;
     (left_over, st) \<leftarrow> calculate_slab_order c objsz align (off_slab (slab_cache st c)) st;
     kassert (num (slab_cache st c) > 0);
     let mgmt_size = slab_mgmt_size (num (slab_cache st c)) align;
     let st = (if off_slab (slab_cache st c) \<and> left_over \<ge> mgmt_size then upd_cache c (\<lambda>k. k\<lparr>off_slab := False\<rparr>) st else st);
     if off_slab (slab_cache st c) then do {
       order \<leftarrow> slab_getorder mgmt_size;
       Some (upd_cache c (\<lambda>k. k\<lparr>offset := 0, slab_cachep := Some (order - MIN_SIZE_ORDER)\<rparr>) st)
     }
     else Some (upd_cache c (\<lambda>k. k\<lparr>offset := mgmt_size\<rparr>) st)
   }"

fun init_caches :: "nat list \<Rightarrow> slab_state \<Rightarrow> slab_state option" where
  "init_caches [] st = Some st"
| "init_caches (i # is) st = do {
     st \<leftarrow> init_kmem_cache i (push_bit (i + MIN_SIZE_ORDER) 1) 16 st;
     init_caches is st
   }"

definition slab_init :: "slab_state \<Rightarrow> slab_state option" where
  "slab_init = init_caches [0..<SLAB_CACHE_NUM]"

definition slab_allocated :: "slab_state \<Rightarrow> u32" where
  "slab_allocated st = (\<Sum>i\<leftarrow>[0..<SLAB_CACHE_NUM]. let k = slab_cache st i in
     (\<Sum>slabp\<leftarrow>slabs_full k. num k * objsize k) + (\<Sum>slabp\<leftarrow>slabs_notfull k. inuse st slabp * objsize k))"

subsection \<open>Allocation\<close>

text \<open>
  \<^verbatim>\<open>kmem_cache_alloc\<close> and \<^verbatim>\<open>kmem_cache_grow\<close> call each other; the callers of the recursion take the
  called function as the argument \<open>alloc\<close>.
\<close>

definition kmem_cache_slabmgmt ::
  "(nat \<Rightarrow> slab_state \<Rightarrow> (u32 option \<times> slab_state) option) \<Rightarrow> nat \<Rightarrow> nat \<Rightarrow> slab_state \<Rightarrow> (u32 option \<times> slab_state) option" where
  "kmem_cache_slabmgmt alloc c page st = do {
     objp \<leftarrow> page_kva page st;
     (slabp, st) \<leftarrow> (if off_slab (slab_cache st c)
        then (case slab_cachep (slab_cache st c) of None \<Rightarrow> None | Some c' \<Rightarrow> alloc c' st)
        else do { kva \<leftarrow> page_kva page st; Some (Some kva, st) });
     case slabp of
       None \<Rightarrow> Some (None, st)
     | Some s \<Rightarrow> do {
         let st = store (s + 12) 0 st;
         let st = store (s + 16) (offset (slab_cache st c)) st;
         let st = store (s + 8) (objp + offset (slab_cache st c)) st;
         Some (Some s, st)
       }
   }"

definition claim_page :: "nat \<Rightarrow> u32 \<Rightarrow> nat \<Rightarrow> slab_state \<Rightarrow> slab_state" where
  "claim_page c slabp page st = st\<lparr>page_cache := (page_cache st)(page := c), page_slab := (page_slab st)(page := slabp),
     smach := (smach st)\<lparr>phys := upd_page page SetPageSlab (phys (smach st))\<rparr>\<rparr>"

definition link_objs :: "nat \<Rightarrow> u32 \<Rightarrow> slab_state \<Rightarrow> slab_state" where
  "link_objs c slabp st = (let n = num (slab_cache st c);
     st = fold (\<lambda>i. store (slab_bufctl slabp (of_nat i)) (of_nat i + 1)) [0..<unat n] st
     in store (slab_bufctl slabp (n - 1)) BUFCTL_END st)"

definition kmem_cache_grow ::
  "(nat \<Rightarrow> slab_state \<Rightarrow> (u32 option \<times> slab_state) option) \<Rightarrow> nat \<Rightarrow> slab_state \<Rightarrow> (bool \<times> slab_state) option" where
  "kmem_cache_grow alloc c st = do {
     (page, m) \<leftarrow> alloc_pages (2 ^ page_order (slab_cache st c)) (smach st);
     let st = st\<lparr>smach := m\<rparr>;
     case page of
       None \<Rightarrow> Some (False, st)
     | Some p \<Rightarrow> do {
         (slabp, st) \<leftarrow> kmem_cache_slabmgmt alloc c p st;
         case slabp of
           None \<Rightarrow> do {
             m \<leftarrow> free_pages p (2 ^ page_order (slab_cache st c)) (smach st);
             Some (False, st\<lparr>smach := m\<rparr>)
           }
         | Some s \<Rightarrow> do {
             let st = fold (claim_page c s) [p..<p + 2 ^ page_order (slab_cache st c)] st;
             let st = link_objs c s st;
             let st = store (s + 20) 0 st;
             let (intr_flag, st) = irq_save st;
             let st = add_notfull c s st;
             Some (True, irq_restore intr_flag st)
           }
       }
   }"

definition kmem_cache_alloc_one :: "nat \<Rightarrow> u32 \<Rightarrow> slab_state \<Rightarrow> u32 \<times> slab_state" where
  "kmem_cache_alloc_one c slabp st =
     (let st = store (slabp + 12) (inuse st slabp + 1) st;
          objp = s_mem st slabp + s_free st slabp * objsize (slab_cache st c);
          st = store (slabp + 20) (mem st (slab_bufctl slabp (s_free st slabp))) st;
          st = (if s_free st slabp = BUFCTL_END then add_full c slabp (slab_del c slabp st) else st)
      in (objp, st))"

lemma mono_case_option:
  "monotone r s a \<Longrightarrow> (\<And>y. monotone r s (b y)) \<Longrightarrow> monotone r s (\<lambda>f. case x of None \<Rightarrow> a f | Some y \<Rightarrow> b y f)"
  by (cases x) auto

lemma mono_case_prod: "(\<And>x y. monotone r s (b x y)) \<Longrightarrow> monotone r s (\<lambda>f. case p of (x, y) \<Rightarrow> b x y f)"
  by (cases p) auto

lemma kmem_cache_grow_mono [partial_function_mono]:
  "monotone option.le_fun option_ord (\<lambda>f. kmem_cache_grow (\<lambda>x y. f (x, y)) c st)"
  unfolding kmem_cache_grow_def kmem_cache_slabmgmt_def Let_def
  by (intro partial_function_mono mono_case_option mono_case_prod)

partial_function (option) kmem_cache_alloc :: "nat \<Rightarrow> slab_state \<Rightarrow> (u32 option \<times> slab_state) option" where
  "kmem_cache_alloc c st = do {
     let (intr_flag, st) = irq_save st;
     case slabs_notfull (slab_cache st c) of
       slabp # _ \<Rightarrow> do {
         let (objp, st) = kmem_cache_alloc_one c slabp st;
         Some (Some objp, irq_restore intr_flag st)
       }
     | [] \<Rightarrow> do {
         (grown, st) \<leftarrow> kmem_cache_grow kmem_cache_alloc c (irq_restore intr_flag st);
         if grown then kmem_cache_alloc c st else Some (None, st)
       }
   }"

declare kmem_cache_alloc.simps [code]


definition kmalloc :: "u32 \<Rightarrow> slab_state \<Rightarrow> (u32 option \<times> slab_state) option" where
  "kmalloc n st = do {
     kassert (n > 0);
     order \<leftarrow> slab_getorder n;
     if order > MAX_SIZE_ORDER then Some (None, st)
     else kmem_cache_alloc (order - MIN_SIZE_ORDER) st
   }"

subsection \<open>Release\<close>

text \<open>The loop of \<^verbatim>\<open>kmem_slab_destroy\<close> over the pages of a slab.\<close>

fun unclaim_pages :: "nat list \<Rightarrow> slab_state \<Rightarrow> slab_state option" where
  "unclaim_pages [] st = Some st"
| "unclaim_pages (p # ps) st = do {
     kassert (PageSlab (pages (phys (smach st)) p));
     unclaim_pages ps (st\<lparr>smach := (smach st)\<lparr>phys := upd_page p ClearPageSlab (phys (smach st))\<rparr>\<rparr>)
   }"

definition kmem_slab_destroy ::
  "(nat \<Rightarrow> u32 \<Rightarrow> slab_state \<Rightarrow> slab_state option) \<Rightarrow> nat \<Rightarrow> u32 \<Rightarrow> slab_state \<Rightarrow> slab_state option" where
  "kmem_slab_destroy free c slabp st = do {
     page \<leftarrow> kva2page (s_mem st slabp - s_offset st slabp) (smach st);
     st \<leftarrow> unclaim_pages [page..<page + 2 ^ page_order (slab_cache st c)] st;
     m \<leftarrow> free_pages page (2 ^ page_order (slab_cache st c)) (smach st);
     let st = st\<lparr>smach := m\<rparr>;
     if off_slab (slab_cache st c)
     then (case slab_cachep (slab_cache st c) of None \<Rightarrow> None | Some c' \<Rightarrow> free c' slabp st)
     else Some st
   }"

definition kmem_cache_free_one ::
  "(nat \<Rightarrow> u32 \<Rightarrow> slab_state \<Rightarrow> slab_state option) \<Rightarrow> nat \<Rightarrow> u32 \<Rightarrow> u32 \<Rightarrow> slab_state \<Rightarrow> slab_state option" where
  "kmem_cache_free_one free c slabp objp st = do {
     let objnr = (objp - s_mem st slabp) div objsize (slab_cache st c);
     let st = store (slab_bufctl slabp objnr) (s_free st slabp) st;
     let st = store (slabp + 20) objnr st;
     let st = store (slabp + 12) (inuse st slabp - 1) st;
     if inuse st slabp = 0 then kmem_slab_destroy free c slabp (slab_del c slabp st)
     else if inuse st slabp = num (slab_cache st c) - 1 then Some (add_notfull c slabp (slab_del c slabp st))
     else Some st
   }"

lemma kmem_cache_free_one_mono [partial_function_mono]:
  "monotone option.le_fun option_ord (\<lambda>f. kmem_cache_free_one (\<lambda>x y z. f ((x, y), z)) c slabp objp st)"
  unfolding kmem_cache_free_one_def kmem_slab_destroy_def Let_def
  by (intro partial_function_mono mono_case_option mono_case_prod)

partial_function (option) kmem_cache_free :: "nat \<Rightarrow> u32 \<Rightarrow> slab_state \<Rightarrow> slab_state option" where
  "kmem_cache_free c objp st = do {
     page \<leftarrow> kva2page objp (smach st);
     if \<not> PageSlab (pages (phys (smach st)) page) then None
     else do {
       let (intr_flag, st) = irq_save st;
       st \<leftarrow> kmem_cache_free_one kmem_cache_free c (page_slab st page) objp st;
       Some (irq_restore intr_flag st)
     }
   }"

declare kmem_cache_free.simps [code]

definition kfree :: "u32 \<Rightarrow> slab_state \<Rightarrow> slab_state option" where
  "kfree objp st = do {
     page \<leftarrow> kva2page objp (smach st);
     kmem_cache_free (page_cache st page) objp st
   }"

end
