(* ===== verification/SlabLayout.thy ===== *)
theory SlabLayout
  imports Slab
begin

text \<open>
  The invariant of the slab allocator and the layout of its memory: the pages of a slab are divided into
  cells, control blocks and objects start cells, and so no two of them overlap. A slab depends on its
  control block and the descriptors of its pages only.
\<close>

section \<open>The state of a slab\<close>

definition cap :: "kmem_cache_s \<Rightarrow> nat" where
  "cap k = unat (num k)"

definition osize :: "kmem_cache_s \<Rightarrow> nat" where
  "osize k = unat (objsize k)"

definition slabs_of :: "slab_state \<Rightarrow> nat \<Rightarrow> u32 set" where
  "slabs_of st c = set (slabs_full (slab_cache st c)) \<union> set (slabs_notfull (slab_cache st c))"

text \<open>The first page of a slab, its pages, and the address of an object.\<close>

definition slab_page :: "slab_state \<Rightarrow> u32 \<Rightarrow> nat" where
  "slab_page st s = unat (s_mem st s - s_offset st s - KERNBASE) div 4096"

definition run :: "slab_state \<Rightarrow> nat \<Rightarrow> u32 \<Rightarrow> nat set" where
  "run st c s = {slab_page st s..<slab_page st s + 2 ^ page_order (slab_cache st c)}"

definition obj :: "slab_state \<Rightarrow> nat \<Rightarrow> u32 \<Rightarrow> nat \<Rightarrow> u32" where
  "obj st c s i = s_mem st s + of_nat i * objsize (slab_cache st c)"

text \<open>The chain of free objects through the links behind the control block.\<close>

fun links :: "(u32 \<Rightarrow> u32) \<Rightarrow> u32 \<Rightarrow> nat \<Rightarrow> u32 \<Rightarrow> nat list" where
  "links m s 0 x = []"
| "links m s (Suc n) x = (if x = BUFCTL_END then [] else unat x # links m s n (m (slab_bufctl s x)))"

primrec chain :: "(u32 \<Rightarrow> u32) \<Rightarrow> u32 \<Rightarrow> u32 \<Rightarrow> nat list \<Rightarrow> bool" where
  "chain m s x [] \<longleftrightarrow> x = BUFCTL_END"
| "chain m s x (i # is) \<longleftrightarrow> x = of_nat i \<and> chain m s (m (slab_bufctl s x)) is"

definition free_objs :: "slab_state \<Rightarrow> nat \<Rightarrow> u32 \<Rightarrow> nat list" where
  "free_objs st c s = links (mem st) s (cap (slab_cache st c)) (s_free st s)"

text \<open>The objects in use, with their caches; the control blocks among them.\<close>

definition objects :: "slab_state \<Rightarrow> (nat \<times> u32) set" where
  "objects st = {(c, a). c < SLAB_CACHE_NUM \<and>
     (\<exists>s\<in>slabs_of st c. \<exists>i<cap (slab_cache st c). i \<notin> set (free_objs st c s) \<and> a = obj st c s i)}"

definition controls :: "slab_state \<Rightarrow> u32 set" where
  "controls st = {s. \<exists>c<SLAB_CACHE_NUM. off_slab (slab_cache st c) \<and> s \<in> slabs_of st c}"

section \<open>The invariant\<close>

text \<open>What \<^verbatim>\<open>slab_init\<close> establishes for a cache.\<close>

definition cache_ok :: "(nat \<Rightarrow> kmem_cache_s) \<Rightarrow> nat \<Rightarrow> bool" where
  "cache_ok K c \<longleftrightarrow> 0 < cap (K c) \<and> osize (K c) = 2 ^ (c + MIN_SIZE_ORDER) \<and> page_order (K c) \<le> 5
     \<and> unat (offset (K c)) + cap (K c) * osize (K c) \<le> 4096 * 2 ^ page_order (K c)
     \<and> 16 dvd unat (offset (K c))
     \<and> (if off_slab (K c)
        then offset (K c) = 0 \<and> (\<exists>c'<SLAB_CACHE_NUM. slab_cachep (K c) = Some c' \<and> \<not> off_slab (K c') \<and> 24 + 4 * cap (K c) \<le> osize (K c'))
        else 24 + 4 * cap (K c) \<le> unat (offset (K c)))"

definition slab_core :: "slab_state \<Rightarrow> nat \<Rightarrow> u32 \<Rightarrow> bool" where
  "slab_core st c s \<longleftrightarrow> s_offset st s = offset (slab_cache st c)
     \<and> s_mem st s = KERNBASE + of_nat (4096 * slab_page st s) + offset (slab_cache st c)
     \<and> region_ok (phys (smach st)) (slab_page st s) (2 ^ page_order (slab_cache st c)) \<and> run st c s \<inter> free_set (phys (smach st)) = {}
     \<and> (\<forall>q\<in>run st c s. PageSlab (pages (phys (smach st)) q) \<and> page_cache st q = c \<and> page_slab st q = s)
     \<and> chain (mem st) s (s_free st s) (free_objs st c s) \<and> distinct (free_objs st c s)
     \<and> set (free_objs st c s) \<subseteq> {..<cap (slab_cache st c)} \<and> unat (inuse st s) + length (free_objs st c s) = cap (slab_cache st c)"

definition slab_wf :: "slab_state \<Rightarrow> nat \<Rightarrow> u32 \<Rightarrow> bool" where
  "slab_wf st c s \<longleftrightarrow> slab_core st c s \<and> (s \<in> set (slabs_notfull (slab_cache st c)) \<longleftrightarrow> free_objs st c s \<noteq> [])
     \<and> (if off_slab (slab_cache st c) then (the (slab_cachep (slab_cache st c)), s) \<in> objects st
        else s = KERNBASE + of_nat (4096 * slab_page st s))"

definition slab_ok :: "slab_state \<Rightarrow> bool" where
  "slab_ok st \<longleftrightarrow> buddy_inv (phys (smach st)) \<and> npage (phys (smach st)) \<le> 0x38000
     \<and> (\<forall>c<SLAB_CACHE_NUM. cache_ok (slab_cache st) c \<and> distinct (slabs_full (slab_cache st c) @ slabs_notfull (slab_cache st c))
          \<and> (\<forall>s\<in>slabs_of st c. slab_wf st c s))"

section \<open>Addresses\<close>

definition kva :: "nat \<Rightarrow> nat" where
  "kva p = 0xC0000000 + 4096 * p"

lemma slab_okD:
  assumes "slab_ok st" "c < SLAB_CACHE_NUM"
  shows "cache_ok (slab_cache st) c" "s \<in> slabs_of st c \<Longrightarrow> slab_wf st c s" "s \<in> slabs_of st c \<Longrightarrow> slab_core st c s"
    "distinct (slabs_full (slab_cache st c) @ slabs_notfull (slab_cache st c))"
  using assms unfolding slab_ok_def slab_wf_def by auto

lemma run_bound:
  assumes "slab_ok st" "slab_core st c s"
  shows "slab_page st s + 2 ^ page_order (slab_cache st c) \<le> 0x38000"
  using assms bs.run_limit [of "phys (smach st)" "slab_page st s" "2 ^ page_order (slab_cache st c)"] by (simp add: slab_ok_def slab_core_def)

lemma obj_of_nat:
  assumes "slab_core st c s"
  shows "obj st c s i = of_nat (kva (slab_page st s) + unat (offset (slab_cache st c)) + i * osize (slab_cache st c))"
    "s_mem st s = of_nat (kva (slab_page st s) + unat (offset (slab_cache st c)))"
  using assms by (simp_all add: obj_def slab_core_def kva_def osize_def)

lemma slab_fits:
  assumes "slab_ok st" "c < SLAB_CACHE_NUM" "slab_core st c s"
  shows "kva (slab_page st s) + (unat (offset (slab_cache st c)) + cap (slab_cache st c) * osize (slab_cache st c)) \<le> kva (slab_page st s) + 4096 * 2 ^ page_order (slab_cache st c)"
    "kva (slab_page st s) + 4096 * 2 ^ page_order (slab_cache st c) \<le> 0xF8000000"
  using slab_okD(1) [OF assms(1,2)] run_bound [OF assms(1,3)] by (auto simp: cache_ok_def kva_def)

lemma unat_word_of_nat: "n < 2 ^ 32 \<Longrightarrow> unat (of_nat n :: u32) = n"
  by (simp add: unat_of_nat take_bit_nat_eq_self)

lemma osize_pos: "slab_ok st \<Longrightarrow> c < SLAB_CACHE_NUM \<Longrightarrow> 0 < osize (slab_cache st c)"
  using slab_okD(1) [of st c] by (auto simp: cache_ok_def)

lemma unat_obj:
  assumes "slab_ok st" "c < SLAB_CACHE_NUM" "slab_core st c s" "i < cap (slab_cache st c)"
  shows "unat (obj st c s i) = kva (slab_page st s) + unat (offset (slab_cache st c)) + i * osize (slab_cache st c)"
    "unat (obj st c s i) + osize (slab_cache st c) \<le> kva (slab_page st s) + 4096 * 2 ^ page_order (slab_cache st c)"
proof -
  have "Suc i * osize (slab_cache st c) \<le> cap (slab_cache st c) * osize (slab_cache st c)" using assms(4) by (intro mult_right_mono) auto
  then have le: "kva (slab_page st s) + unat (offset (slab_cache st c)) + i * osize (slab_cache st c) + osize (slab_cache st c) \<le> kva (slab_page st s) + 4096 * 2 ^ page_order (slab_cache st c)"
    using slab_fits(1) [OF assms(1-3)] by simp
  then show *: "unat (obj st c s i) = kva (slab_page st s) + unat (offset (slab_cache st c)) + i * osize (slab_cache st c)"
    unfolding obj_of_nat(1) [OF assms(3)] using slab_fits(2) [OF assms(1-3)] by (intro unat_word_of_nat) simp
  show "unat (obj st c s i) + osize (slab_cache st c) \<le> kva (slab_page st s) + 4096 * 2 ^ page_order (slab_cache st c)" using le * by simp
qed

lemma ivl_disj_iff: "a < b \<Longrightarrow> c < d \<Longrightarrow> {a..<b} \<inter> {c..<d} = {} \<longleftrightarrow> b \<le> c \<or> d \<le> (a :: nat)"
proof
  assume "{a..<b} \<inter> {c..<d} = {}" "a < b" "c < d"
  then have "max a c \<notin> {a..<b} \<inter> {c..<d}" by simp
  then show "b \<le> c \<or> d \<le> a" using \<open>a < b\<close> \<open>c < d\<close> by (auto simp: max_def split: if_splits)
qed auto

text \<open>The pages of a slab are divided into cells: the part before the first object, and the objects.\<close>

definition cell :: "slab_state \<Rightarrow> nat \<Rightarrow> u32 \<Rightarrow> nat option \<Rightarrow> nat set" where
  "cell st c s x = (let b = kva (slab_page st s); o' = unat (offset (slab_cache st c)); z = osize (slab_cache st c) in
     case x of None \<Rightarrow> {b..<b + o'} | Some i \<Rightarrow> {b + o' + i * z..<b + o' + i * z + z})"

definition has_cell :: "slab_state \<Rightarrow> nat \<Rightarrow> u32 \<Rightarrow> nat option \<Rightarrow> bool" where
  "has_cell st c s x \<longleftrightarrow> c < SLAB_CACHE_NUM \<and> s \<in> slabs_of st c \<and> (case x of None \<Rightarrow> True | Some i \<Rightarrow> i < cap (slab_cache st c))"

lemma slab_owner:
  assumes "slab_ok st" "c < SLAB_CACHE_NUM" "s \<in> slabs_of st c" "c' < SLAB_CACHE_NUM" "s' \<in> slabs_of st c'" "run st c s \<inter> run st c' s' \<noteq> {}"
  shows "c = c' \<and> s = s'"
proof -
  obtain q where q: "q \<in> run st c s" "q \<in> run st c' s'" using assms(6) by blast
  have "page_cache st q = c \<and> page_slab st q = s" "page_cache st q = c' \<and> page_slab st q = s'"
    using slab_okD(3) [OF assms(1,2,3)] slab_okD(3) [OF assms(1,4,5)] q unfolding slab_core_def by blast+
  then show ?thesis by simp
qed

lemma run_nonempty: "slab_page st s \<in> run st c s"
  by (simp add: run_def)

lemma slab_cache_unique: "slab_ok st \<Longrightarrow> c < SLAB_CACHE_NUM \<Longrightarrow> s \<in> slabs_of st c \<Longrightarrow> c' < SLAB_CACHE_NUM \<Longrightarrow> s \<in> slabs_of st c' \<Longrightarrow> c = c'"
  using slab_owner [of st c s c' s] run_nonempty [of st s] by blast

lemma cell_in_run:
  assumes "slab_ok st" "has_cell st c s x"
  shows "cell st c s x \<subseteq> {kva (slab_page st s)..<kva (slab_page st s) + 4096 * 2 ^ page_order (slab_cache st c)}"
proof -
  have c: "c < SLAB_CACHE_NUM" "slab_core st c s" using assms slab_okD(3) by (auto simp: has_cell_def)
  show ?thesis
  proof (cases x)
    case None
    then show ?thesis using slab_fits [OF assms(1) c] by (auto simp: cell_def Let_def)
  next
    case (Some i)
    then show ?thesis using unat_obj [OF assms(1) c, of i] assms(2) by (auto simp: cell_def Let_def has_cell_def)
  qed
qed

lemma cells_disjoint:
  assumes "slab_ok st" "has_cell st c s x" "has_cell st c' s' x'" "(s, x) \<noteq> (s', x')"
  shows "cell st c s x \<inter> cell st c' s' x' = {}"
proof (cases "c = c' \<and> s = s'")
  case True
  then have "x \<noteq> x'" using assms(4) by auto
  have lt: "i * z + z \<le> j * z" if "i < j" for i j z :: nat using mult_le_mono1 [of "Suc i" j z] that by simp
  have "i * z + z \<le> j * z \<or> j * z + z \<le> i * z" if "i \<noteq> j" for i j z :: nat using that lt [of i j z] lt [of j i z] by (cases "i < j") auto
  note far = this
  show ?thesis
  proof (cases x; cases x')
    fix i j
    assume "x = Some i" "x' = Some j"
    then show ?thesis using True \<open>x \<noteq> x'\<close> far [of i j "osize (slab_cache st c)"] by (auto simp: cell_def Let_def)
  qed (use True \<open>x \<noteq> x'\<close> in \<open>auto simp: cell_def Let_def\<close>)
next
  case False
  then have "run st c s \<inter> run st c' s' = {}" using slab_owner [OF assms(1), of c s c' s'] assms(2,3) unfolding has_cell_def by blast
  then have "slab_page st s + 2 ^ page_order (slab_cache st c) \<le> slab_page st s' \<or> slab_page st s' + 2 ^ page_order (slab_cache st c') \<le> slab_page st s"
    unfolding run_def by (simp add: ivl_disj_iff linorder_not_less [symmetric])
  then show ?thesis using cell_in_run [OF assms(1,2)] cell_in_run [OF assms(1,3)] by (fastforce simp: kva_def)
qed


text \<open>
  A place is a range of addresses at the start of a cell: a control block or an object. Two places at
  different addresses do not overlap.
\<close>

definition place :: "slab_state \<Rightarrow> u32 \<Rightarrow> nat \<Rightarrow> bool" where
  "place st a n \<longleftrightarrow> (\<exists>c s x. has_cell st c s x \<and> {unat a..<unat a + n} \<subseteq> cell st c s x \<and> (\<forall>y\<in>cell st c s x. unat a \<le> y))"

lemma place_disjoint:
  assumes "slab_ok st" "place st a n" "place st b m" "a \<noteq> b"
  shows "{unat a..<unat a + n} \<inter> {unat b..<unat b + m} = {}"
proof -
  obtain c s x where a: "has_cell st c s x" "{unat a..<unat a + n} \<subseteq> cell st c s x" "\<forall>y\<in>cell st c s x. unat a \<le> y" using assms(2) by (auto simp: place_def)
  obtain c' s' x' where b: "has_cell st c' s' x'" "{unat b..<unat b + m} \<subseteq> cell st c' s' x'" "\<forall>y\<in>cell st c' s' x'. unat b \<le> y" using assms(3) by (auto simp: place_def)
  show ?thesis
  proof (cases "(s, x) = (s', x')")
    case False
    then show ?thesis using cells_disjoint [OF assms(1) a(1) b(1)] a(2) b(2) by blast
  next
    case True
    then have "c = c'" using slab_cache_unique [OF assms(1)] a(1) b(1) by (auto simp: has_cell_def)
    have "n = 0 \<or> m = 0"
    proof (rule ccontr)
      assume "\<not> (n = 0 \<or> m = 0)"
      then have "unat a \<in> cell st c s x" "unat b \<in> cell st c s x" using a(2) b(2) True \<open>c = c'\<close> by auto
      then have "unat a = unat b" using a(3) b(3) True \<open>c = c'\<close> by (auto intro: order_antisym)
      then show False using assms(4) by (simp add: word_unat_eq_iff)
    qed
    then show ?thesis by auto
  qed
qed

lemma objects_cell:
  assumes "slab_ok st" "(c, a) \<in> objects st"
  obtains s i where "c < SLAB_CACHE_NUM" "s \<in> slabs_of st c" "i < cap (slab_cache st c)" "i \<notin> set (free_objs st c s)" "a = obj st c s i"
    "has_cell st c s (Some i)" "cell st c s (Some i) = {unat a..<unat a + osize (slab_cache st c)}"
proof -
  obtain s i where i: "c < SLAB_CACHE_NUM" "s \<in> slabs_of st c" "i < cap (slab_cache st c)" "i \<notin> set (free_objs st c s)" "a = obj st c s i"
    using assms(2) by (auto simp: objects_def)
  then show ?thesis using that [of s i] unat_obj(1) [OF assms(1) i(1) slab_okD(3) [OF assms(1) i(1,2)] i(3)] by (simp add: has_cell_def cell_def Let_def)
qed

lemma object_place:
  assumes "slab_ok st" "(c, a) \<in> objects st"
  shows "place st a (osize (slab_cache st c))"
proof (rule objects_cell [OF assms])
  fix s i
  assume "has_cell st c s (Some i)" "cell st c s (Some i) = {unat a..<unat a + osize (slab_cache st c)}"
  then show ?thesis unfolding place_def by (intro exI [of _ c] exI [of _ s] exI [of _ "Some i"]) auto
qed

lemma place_mono: "place st a n \<Longrightarrow> m \<le> n \<Longrightarrow> place st a m"
proof -
  assume "place st a n" "m \<le> n"
  then have "{unat a..<unat a + m} \<subseteq> {unat a..<unat a + n}" by auto
  then show ?thesis using \<open>place st a n\<close> unfolding place_def by blast
qed

text \<open>The control block of a slab with its links.\<close>

definition ctrl :: "slab_state \<Rightarrow> nat \<Rightarrow> u32 \<Rightarrow> nat set" where
  "ctrl st c s = {unat s..<unat s + (24 + 4 * cap (slab_cache st c))}"

lemma control_place:
  assumes "slab_ok st" "c < SLAB_CACHE_NUM" "s \<in> slabs_of st c"
  shows "place st s (24 + 4 * cap (slab_cache st c))"
proof (cases "off_slab (slab_cache st c)")
  case True
  then obtain c' where c': "slab_cachep (slab_cache st c) = Some c'" "24 + 4 * cap (slab_cache st c) \<le> osize (slab_cache st c')"
    using slab_okD(1) [OF assms(1,2)] by (auto simp: cache_ok_def)
  then have "(c', s) \<in> objects st" using slab_okD(2) [OF assms] True by (simp add: slab_wf_def)
  then show ?thesis using object_place [OF assms(1)] c'(2) place_mono by blast
next
  case False
  have w: "slab_core st c s" "s = of_nat (kva (slab_page st s))" using slab_okD(2) [OF assms] False by (auto simp: slab_wf_def kva_def)
  have "unat (of_nat (kva (slab_page st s)) :: u32) = kva (slab_page st s)"
    using slab_fits [OF assms(1,2) w(1)] by (intro unat_word_of_nat) simp
  then have u: "unat s = kva (slab_page st s)" using w(2) by simp
  have "24 + 4 * cap (slab_cache st c) \<le> unat (offset (slab_cache st c))" using slab_okD(1) [OF assms(1,2)] False by (simp add: cache_ok_def)
  then have "{unat s..<unat s + (24 + 4 * cap (slab_cache st c))} \<subseteq> cell st c s None" "\<forall>y\<in>cell st c s None. unat s \<le> y" unfolding u by (auto simp: cell_def Let_def)
  then show ?thesis using assms(2,3) unfolding place_def has_cell_def by (metis option.simps(4))
qed

lemma place_bound: "slab_ok st \<Longrightarrow> place st a n \<Longrightarrow> 0 < n \<Longrightarrow> unat a + n \<le> 0xF8000000 \<and> 0xC0000000 \<le> unat a"
proof -
  assume ok: "slab_ok st" and "place st a n" and n: "0 < n"
  then obtain c s x where a: "has_cell st c s x" "{unat a..<unat a + n} \<subseteq> cell st c s x" by (auto simp: place_def)
  have c: "c < SLAB_CACHE_NUM" "slab_core st c s" using a slab_okD(3) [OF ok] by (auto simp: has_cell_def)
  have "unat a \<in> cell st c s x" "unat a + n - 1 \<in> cell st c s x" using a(2) n by auto
  then have "kva (slab_page st s) \<le> unat a" "unat a + n - 1 < 0xF8000000" using cell_in_run [OF ok a(1)] slab_fits(2) [OF ok c] by force+
  then show ?thesis by (simp add: kva_def)
qed

lemma ctrl_bound: "slab_ok st \<Longrightarrow> c < SLAB_CACHE_NUM \<Longrightarrow> s \<in> slabs_of st c \<Longrightarrow> unat s + (24 + 4 * cap (slab_cache st c)) \<le> 0xF8000000"
  using place_bound [OF _ control_place] by simp

lemma ctrl_disjoint:
  "slab_ok st \<Longrightarrow> c < SLAB_CACHE_NUM \<Longrightarrow> s \<in> slabs_of st c \<Longrightarrow> c' < SLAB_CACHE_NUM \<Longrightarrow> s' \<in> slabs_of st c' \<Longrightarrow> s \<noteq> s' \<Longrightarrow> ctrl st c s \<inter> ctrl st c' s' = {}"
  unfolding ctrl_def by (rule place_disjoint [OF _ control_place control_place])

section \<open>Free chains\<close>

lemma chain_links: "chain m s x fs \<Longrightarrow> length fs \<le> n \<Longrightarrow> \<forall>i\<in>set fs. i < 0xFFFFFFFF \<Longrightarrow> links m s n x = fs"
proof (induction fs arbitrary: x n)
  case Nil
  then show ?case by (cases n) auto
next
  case (Cons i fs)
  then obtain n' where n: "n = Suc n'" by (cases n) auto
  have u: "unat (of_nat i :: u32) = i" using Cons.prems(3) by (intro unat_word_of_nat) auto
  then have "of_nat i \<noteq> BUFCTL_END" using Cons.prems(3) by (auto simp: word_unat_eq_iff)
  then show ?case using Cons u n by auto
qed

lemma bufctl_addr:
  assumes "unat s + (24 + 4 * n) \<le> 0xF8000000" "i < n"
  shows "unat (slab_bufctl s (of_nat i)) = unat s + 24 + 4 * i"
proof -
  have "slab_bufctl s (of_nat i) = of_nat (unat s + 24 + 4 * i)" by (simp add: slab_bufctl_def)
  moreover have "unat (of_nat (unat s + 24 + 4 * i) :: u32) = unat s + 24 + 4 * i" by (rule unat_word_of_nat) (use assms in simp)
  ultimately show ?thesis by (simp only:)
qed

lemma header_addr:
  fixes s :: u32
  assumes "unat s + (24 + 4 * n) \<le> 0xF8000000" "k < 24"
  shows "unat (s + of_nat k) = unat s + k"
proof -
  have "s + of_nat k = of_nat (unat s + k)" by simp
  moreover have "unat (of_nat (unat s + k) :: u32) = unat s + k" by (rule unat_word_of_nat) (use assms in simp)
  ultimately show ?thesis by (simp only:)
qed

lemma header_addrs:
  fixes s :: u32
  assumes "unat s + (24 + 4 * n) \<le> 0xF8000000"
  shows "unat (s + 8) = unat s + 8" "unat (s + 12) = unat s + 12" "unat (s + 16) = unat s + 16" "unat (s + 20) = unat s + 20"
  using header_addr [OF assms, of 8] header_addr [OF assms, of 12] header_addr [OF assms, of 16] header_addr [OF assms, of 20] by simp_all

lemma chain_cong:
  assumes "chain m s x fs" "unat s + (24 + 4 * n) \<le> 0xF8000000" "\<forall>i\<in>set fs. i < n"
    "\<And>a. unat a \<in> {unat s..<unat s + (24 + 4 * n)} \<Longrightarrow> a \<notin> W \<Longrightarrow> m' a = m a" "\<And>i. i \<in> set fs \<Longrightarrow> slab_bufctl s (of_nat i) \<notin> W"
  shows "chain m' s x fs"
  using assms(1,3,5)
proof (induction fs arbitrary: x)
  case (Cons i fs)
  have "unat (slab_bufctl s (of_nat i)) = unat s + 24 + 4 * i" using Cons.prems(2) by (intro bufctl_addr [OF assms(2)]) auto
  then have "m' (slab_bufctl s (of_nat i)) = m (slab_bufctl s (of_nat i))" using Cons.prems by (intro assms(4)) auto
  then show ?case using Cons by auto
qed simp

text \<open>The fields of a slab depend on its control block only.\<close>

lemma slab_fields_cong:
  assumes "unat s + (24 + 4 * n) \<le> 0xF8000000" "\<forall>a. unat a \<in> {unat s..<unat s + (24 + 4 * n)} \<longrightarrow> mem st' a = mem st a"
  shows "s_mem st' s = s_mem st s" "s_offset st' s = s_offset st s" "inuse st' s = inuse st s" "s_free st' s = s_free st s"
  unfolding s_mem_def s_offset_def inuse_def s_free_def using header_addrs [OF assms(1)] by (intro assms(2) [rule_format]; simp)+

definition conf :: "kmem_cache_s \<Rightarrow> kmem_cache_s" where
  "conf k = k\<lparr>slabs_full := [], slabs_notfull := []\<rparr>"

lemma conf_eq_iff: "conf k = conf k' \<longleftrightarrow> objsize k = objsize k' \<and> num k = num k' \<and> offset k = offset k' \<and> off_slab k = off_slab k'
    \<and> page_order k = page_order k' \<and> slab_cachep k = slab_cachep k'"
  by (cases k; cases k') (auto simp: conf_def)

lemma conf_fields:
  assumes "conf k' = conf k"
  shows "objsize k' = objsize k" "num k' = num k" "offset k' = offset k" "off_slab k' = off_slab k" "page_order k' = page_order k"
    "slab_cachep k' = slab_cachep k" "cap k' = cap k" "osize k' = osize k"
  using assms by (simp_all add: conf_eq_iff cap_def osize_def)

lemma cache_ok_cong: "(\<And>c. conf (K' c) = conf (K c)) \<Longrightarrow> cache_ok K' c = cache_ok K c"
proof -
  assume e: "\<And>c. conf (K' c) = conf (K c)"
  show ?thesis unfolding cache_ok_def conf_fields [OF e] by (rule refl)
qed

text \<open>What keeps a slab: its control block, the descriptors of its pages, and its cache stay.\<close>

definition keeps_slab :: "slab_state \<Rightarrow> slab_state \<Rightarrow> nat \<Rightarrow> u32 \<Rightarrow> bool" where
  "keeps_slab st st' c s \<longleftrightarrow> (\<forall>a. unat a \<in> ctrl st c s \<longrightarrow> mem st' a = mem st a) \<and> run st c s \<inter> free_set (phys (smach st')) = {}
     \<and> (\<forall>q\<in>run st c s. PageSlab (pages (phys (smach st')) q) = PageSlab (pages (phys (smach st)) q) \<and> page_cache st' q = page_cache st q \<and> page_slab st' q = page_slab st q)"

definition same_setup :: "slab_state \<Rightarrow> slab_state \<Rightarrow> bool" where
  "same_setup st st' \<longleftrightarrow> (\<forall>c. conf (slab_cache st' c) = conf (slab_cache st c)) \<and> region_ok (phys (smach st')) = region_ok (phys (smach st))
     \<and> npage (phys (smach st')) = npage (phys (smach st))"

lemma same_setup_refl [simp]: "same_setup st st"
  by (simp add: same_setup_def)

lemma same_setup_trans: "same_setup st st1 \<Longrightarrow> same_setup st1 st2 \<Longrightarrow> same_setup st st2"
  by (simp add: same_setup_def)

lemma setup_fields:
  assumes "same_setup st st'"
  shows "objsize (slab_cache st' c) = objsize (slab_cache st c)" "num (slab_cache st' c) = num (slab_cache st c)" "offset (slab_cache st' c) = offset (slab_cache st c)"
    "off_slab (slab_cache st' c) = off_slab (slab_cache st c)" "page_order (slab_cache st' c) = page_order (slab_cache st c)"
    "slab_cachep (slab_cache st' c) = slab_cachep (slab_cache st c)" "cap (slab_cache st' c) = cap (slab_cache st c)" "osize (slab_cache st' c) = osize (slab_cache st c)"
  using assms conf_fields [of "slab_cache st' c" "slab_cache st c"] by (simp_all add: same_setup_def)

lemma slab_keep:
  assumes "same_setup st st'" "keeps_slab st st' c s" "slab_core st c s" "unat s + (24 + 4 * cap (slab_cache st c)) \<le> 0xF8000000"
  shows "slab_core st' c s" "free_objs st' c s = free_objs st c s" "slab_page st' s = slab_page st s" "inuse st' s = inuse st s" "obj st' c s i = obj st c s i"
    "run st' c s = run st c s"
proof -
  let ?n = "cap (slab_cache st c)" and ?fs = "free_objs st c s"
  note f = setup_fields [OF assms(1), of c]
  have mem: "\<forall>a. unat a \<in> {unat s..<unat s + (24 + 4 * ?n)} \<longrightarrow> mem st' a = mem st a" using assms(2) by (simp add: keeps_slab_def ctrl_def)
  note h = slab_fields_cong [OF assms(4) mem]
  have core: "chain (mem st) s (s_free st s) ?fs" "set ?fs \<subseteq> {..<?n}" "unat (inuse st s) + length ?fs = ?n" using assms(3) by (auto simp: slab_core_def)
  have ch: "chain (mem st') s (s_free st s) ?fs"
    by (rule chain_cong [OF core(1) assms(4), where W = "{}"]) (use core(2) mem in auto)
  have "?n < 0xFFFFFFFF" using assms(4) by simp
  then have "links (mem st') s ?n (s_free st s) = ?fs" using core(2,3) by (intro chain_links [OF ch]) auto
  then show fs: "free_objs st' c s = ?fs" unfolding free_objs_def h(4) f(7) .
  show pg: "slab_page st' s = slab_page st s" unfolding slab_page_def h by (rule refl)
  show "inuse st' s = inuse st s" by (rule h(3))
  show "obj st' c s i = obj st c s i" unfolding obj_def h f by (rule refl)
  show r: "run st' c s = run st c s" unfolding run_def pg f by (rule refl)
  have "region_ok (phys (smach st')) = region_ok (phys (smach st))" using assms(1) by (simp add: same_setup_def)
  then show "slab_core st' c s" using assms(2,3) ch unfolding slab_core_def fs pg h f r keeps_slab_def by auto
qed

section \<open>Changing one slab\<close>

definition objs_of :: "slab_state \<Rightarrow> nat \<Rightarrow> u32 \<Rightarrow> u32 set" where
  "objs_of st c s = {obj st c s i | i. i < cap (slab_cache st c) \<and> i \<notin> set (free_objs st c s)}"

lemma objects_iff: "(c, a) \<in> objects st \<longleftrightarrow> c < SLAB_CACHE_NUM \<and> (\<exists>s\<in>slabs_of st c. a \<in> objs_of st c s)"
  by (auto simp: objects_def objs_of_def)

lemma obj_inj:
  assumes "slab_ok st" "c < SLAB_CACHE_NUM" "slab_core st c s" "i < cap (slab_cache st c)" "j < cap (slab_cache st c)" "obj st c s i = obj st c s j"
  shows "i = j"
proof -
  have "kva (slab_page st s) + unat (offset (slab_cache st c)) + i * osize (slab_cache st c) = kva (slab_page st s) + unat (offset (slab_cache st c)) + j * osize (slab_cache st c)"
    unfolding unat_obj(1) [OF assms(1-4), symmetric] unat_obj(1) [OF assms(1-3,5), symmetric] assms(6) by (rule refl)
  then show ?thesis using osize_pos [OF assms(1,2)] by simp
qed

text \<open>Every object lies in the pages of its slab, from which the slab and the cache are found.\<close>

lemma obj_page:
  assumes "slab_ok st" "c < SLAB_CACHE_NUM" "slab_core st c s" "i < cap (slab_cache st c)"
  shows "(unat (obj st c s i) - 0xC0000000) div 4096 \<in> run st c s"
proof -
  let ?a = "unat (obj st c s i)" and ?p = "slab_page st s"
  have "kva ?p \<le> ?a" "?a < kva ?p + 4096 * 2 ^ page_order (slab_cache st c)"
    using unat_obj [OF assms] osize_pos [OF assms(1,2)] by auto
  then have "4096 * ?p \<le> ?a - 0xC0000000" "?a - 0xC0000000 < 4096 * (?p + 2 ^ page_order (slab_cache st c))" by (auto simp: kva_def algebra_simps)
  then show ?thesis unfolding run_def by (simp add: div_le_mono div_less_iff_less_mult less_eq_div_iff_mult_less_eq algebra_simps)
qed

lemma objs_of_owner:
  assumes "slab_ok st" "c < SLAB_CACHE_NUM" "s \<in> slabs_of st c" "a \<in> objs_of st c s" "c' < SLAB_CACHE_NUM" "s' \<in> slabs_of st c'" "a \<in> objs_of st c' s'"
  shows "c = c' \<and> s = s'"
proof (rule slab_owner [OF assms(1-3,5,6)])
  have "(unat a - 0xC0000000) div 4096 \<in> run st c s" "(unat a - 0xC0000000) div 4096 \<in> run st c' s'"
    using assms obj_page [OF assms(1,2) slab_okD(3) [OF assms(1-3)]] obj_page [OF assms(1,5) slab_okD(3) [OF assms(1,5,6)]] by (auto simp: objs_of_def)
  then show "run st c s \<inter> run st c' s' \<noteq> {}" by blast
qed

text \<open>All slabs but one are kept, and that one is still well-formed.\<close>

lemma touch_slab:
  assumes ok: "slab_ok st" and s: "c < SLAB_CACHE_NUM" "s \<in> slabs_of st c" and su: "same_setup st st'" and b: "buddy_inv (phys (smach st'))"
    and l: "\<And>d. d < SLAB_CACHE_NUM \<Longrightarrow> slabs_of st' d = slabs_of st d \<and> distinct (slabs_full (slab_cache st' d) @ slabs_notfull (slab_cache st' d))"
    and o: "\<And>d u. d < SLAB_CACHE_NUM \<Longrightarrow> u \<in> slabs_of st d \<Longrightarrow> (d, u) \<noteq> (c, s) \<Longrightarrow>
      keeps_slab st st' d u \<and> (u \<in> set (slabs_notfull (slab_cache st' d)) \<longleftrightarrow> u \<in> set (slabs_notfull (slab_cache st d)))"
    and t: "slab_core st' c s" "slab_page st' s = slab_page st s" "s \<in> set (slabs_notfull (slab_cache st' c)) \<longleftrightarrow> free_objs st' c s \<noteq> []"
    and k: "\<And>a. a \<in> controls st \<Longrightarrow> a \<in> objs_of st c s \<Longrightarrow> a \<in> objs_of st' c s"
  shows "slab_ok st'" "objects st' = objects st - {c} \<times> objs_of st c s \<union> {c} \<times> objs_of st' c s" "controls st' = controls st"
proof -
  note f = setup_fields [OF su]
  have keep: "slab_core st' d u" "free_objs st' d u = free_objs st d u" "slab_page st' u = slab_page st u" "objs_of st' d u = objs_of st d u"
    if d: "d < SLAB_CACHE_NUM" "u \<in> slabs_of st d" "(d, u) \<noteq> (c, s)" for d u
  proof -
    have "keeps_slab st st' d u" using o [OF d] by simp
    note k = slab_keep [OF su this slab_okD(3) [OF ok d(1,2)] ctrl_bound [OF ok d(1,2)]]
    show "slab_core st' d u" "free_objs st' d u = free_objs st d u" "slab_page st' u = slab_page st u" by (rule k(1), rule k(2), rule k(3))
    show "objs_of st' d u = objs_of st d u" unfolding objs_of_def k(2,5) f by (rule refl)
  qed
  show obs: "objects st' = objects st - {c} \<times> objs_of st c s \<union> {c} \<times> objs_of st' c s"
  proof (rule set_eqI, clarify)
    fix d a
    have "(d, a) \<in> objects st' \<longleftrightarrow> d < SLAB_CACHE_NUM \<and> (\<exists>u\<in>slabs_of st d. a \<in> objs_of st' d u)" using l by (auto simp: objects_iff)
    also have "\<dots> \<longleftrightarrow> d < SLAB_CACHE_NUM \<and> ((\<exists>u\<in>slabs_of st d. (d, u) \<noteq> (c, s) \<and> a \<in> objs_of st d u) \<or> d = c \<and> a \<in> objs_of st' c s)"
    proof -
      have "a \<in> objs_of st' d u \<longleftrightarrow> (if (d, u) = (c, s) then a \<in> objs_of st' c s else a \<in> objs_of st d u)" if "d < SLAB_CACHE_NUM" "u \<in> slabs_of st d" for u
        using keep(4) [OF that] by auto
      note e = this
      show ?thesis (is "?L \<longleftrightarrow> ?R")
      proof
        assume ?L
        then obtain u where u: "d < SLAB_CACHE_NUM" "u \<in> slabs_of st d" "a \<in> objs_of st' d u" by blast
        show ?R using e [OF u(1,2)] u by (cases "(d, u) = (c, s)") auto
      next
        assume R: ?R
        then consider u where "u \<in> slabs_of st d" "(d, u) \<noteq> (c, s)" "a \<in> objs_of st d u" | "d = c" "a \<in> objs_of st' c s" by blast
        then show ?L
        proof cases
          case 1
          then show ?thesis using e [of u] R by auto
        qed (use s in blast)
      qed
    qed
    also have "\<dots> \<longleftrightarrow> (d, a) \<in> objects st - {c} \<times> objs_of st c s \<union> {c} \<times> objs_of st' c s"
    proof -
      have "d < SLAB_CACHE_NUM \<and> (\<exists>u\<in>slabs_of st d. (d, u) \<noteq> (c, s) \<and> a \<in> objs_of st d u) \<longleftrightarrow> (d, a) \<in> objects st \<and> \<not> (d = c \<and> a \<in> objs_of st c s)" (is "?L \<longleftrightarrow> ?R")
      proof
        assume ?L
        then obtain u where u: "d < SLAB_CACHE_NUM" "u \<in> slabs_of st d" "(d, u) \<noteq> (c, s)" "a \<in> objs_of st d u" by blast
        have "\<not> (d = c \<and> a \<in> objs_of st c s)" using objs_of_owner [OF ok s _ u(1,2,4)] u(3) by auto
        then show ?R using u by (auto simp: objects_iff)
      next
        assume R: ?R
        then obtain u where u: "d < SLAB_CACHE_NUM" "u \<in> slabs_of st d" "a \<in> objs_of st d u" by (auto simp: objects_iff)
        then show ?L using R by auto
      qed
      then show ?thesis using s by auto
    qed
    finally show "(d, a) \<in> objects st' \<longleftrightarrow> (d, a) \<in> objects st - {c} \<times> objs_of st c s \<union> {c} \<times> objs_of st' c s" .
  qed
  show "controls st' = controls st" using l by (auto simp: controls_def f)
  have kc: "(d, a) \<in> objects st'" if "(d, a) \<in> objects st" "a \<in> controls st" for d a using that k obs by blast
  have wf: "slab_wf st' d u" if d: "d < SLAB_CACHE_NUM" "u \<in> slabs_of st d" for d u
  proof -
    have w: "slab_wf st d u" by (rule slab_okD(2) [OF ok d])
    have "off_slab (slab_cache st d) \<Longrightarrow> u \<in> controls st" using d by (auto simp: controls_def)
    then have p: "if off_slab (slab_cache st d) then (the (slab_cachep (slab_cache st d)), u) \<in> objects st' else u = KERNBASE + of_nat (4096 * slab_page st u)"
      using w kc unfolding slab_wf_def by (auto split: if_splits)
    show ?thesis
    proof (cases "(d, u) = (c, s)")
      case True
      then show ?thesis using t p unfolding slab_wf_def f by auto
    next
      case False
      then show ?thesis using o [OF d False] keep [OF d False] w p unfolding slab_wf_def f by auto
    qed
  qed
  have "cache_ok (slab_cache st') d = cache_ok (slab_cache st) d" for d using su by (intro cache_ok_cong) (simp add: same_setup_def)
  then show "slab_ok st'" using ok b l wf su unfolding slab_ok_def same_setup_def by simp
qed

end
