(* ===== verification/SlabAlloc.thy ===== *)
theory SlabAlloc
  imports SlabLayout
begin

text \<open>
  Allocation: taking an object from a slab, setting up a new slab with its control block on or off the
  slab, and \<^verbatim>\<open>kmem_cache_alloc\<close> with its mutual recursion.
\<close>

section \<open>Allocating an object of a slab\<close>

lemma store_simps [simp]:
  "mem (store a v st) = (mem st)(a := v)" "slab_cache (store a v st) = slab_cache st" "smach (store a v st) = smach st"
  "page_cache (store a v st) = page_cache st" "page_slab (store a v st) = page_slab st"
  by (simp_all add: store_def)

lemma upd_cache_simps [simp]:
  "mem (upd_cache c f st) = mem st" "slab_cache (upd_cache c f st) = (slab_cache st)(c := f (slab_cache st c))" "smach (upd_cache c f st) = smach st"
  "page_cache (upd_cache c f st) = page_cache st" "page_slab (upd_cache c f st) = page_slab st"
  by (simp_all add: upd_cache_def)

lemma same_fields_mem:
  assumes "mem st' = mem st"
  shows "s_mem st' s = s_mem st s" "s_offset st' s = s_offset st s" "s_free st' s = s_free st s" "inuse st' s = inuse st s" "slab_page st' s = slab_page st s"
  using assms by (simp_all add: s_mem_def s_offset_def s_free_def inuse_def slab_page_def)

text \<open>A core with new links and use count, and nothing else of the slab changed.\<close>

lemma core_relink:
  assumes core: "slab_core st c s" and su: "same_setup st st'" and bd: "unat s + (24 + 4 * cap (slab_cache st c)) \<le> 0xF8000000"
    and hd: "s_mem st' s = s_mem st s" "s_offset st' s = s_offset st s"
    and ph: "free_set (phys (smach st')) = free_set (phys (smach st))" "\<And>q. PageSlab (pages (phys (smach st')) q) = PageSlab (pages (phys (smach st)) q)"
      "page_cache st' = page_cache st" "page_slab st' = page_slab st"
    and ch: "chain (mem st') s (s_free st' s) fs" "distinct fs" "set fs \<subseteq> {..<cap (slab_cache st c)}" "unat (inuse st' s) + length fs = cap (slab_cache st c)"
  shows "slab_core st' c s" "free_objs st' c s = fs" "slab_page st' s = slab_page st s" "obj st' c s i = obj st c s i"
proof -
  note f = setup_fields [OF su, of c]
  have "cap (slab_cache st c) < 0xFFFFFFFF" using bd by simp
  then have "links (mem st') s (cap (slab_cache st c)) (s_free st' s) = fs" using ch by (intro chain_links) auto
  then show fs: "free_objs st' c s = fs" by (simp add: free_objs_def f)
  show pg: "slab_page st' s = slab_page st s" by (simp add: slab_page_def hd)
  show "obj st' c s i = obj st c s i" by (simp add: obj_def hd f)
  have "run st' c s = run st c s" by (simp add: run_def pg f)
  moreover have "region_ok (phys (smach st')) = region_ok (phys (smach st))" using su by (simp add: same_setup_def)
  ultimately show "slab_core st' c s" using core ch unfolding slab_core_def fs pg hd f ph by simp
qed

lemma alloc_one_ok:
  assumes ok: "slab_ok st" and c: "c < SLAB_CACHE_NUM" and s: "s \<in> set (slabs_notfull (slab_cache st c))"
  shows "\<exists>a st'. kmem_cache_alloc_one c s st = (a, st') \<and> slab_ok st' \<and> same_setup st st' \<and> smach st' = smach st \<and> (c, a) \<notin> objects st
    \<and> objects st' = insert (c, a) (objects st) \<and> controls st' = controls st \<and> (\<forall>d. slabs_of st' d = slabs_of st d)
    \<and> (\<forall>x. unat x \<notin> ctrl st c s \<longrightarrow> mem st' x = mem st x) \<and> inuse st' s \<noteq> 0"
proof -
  let ?k = "slab_cache st c"
  have sl: "s \<in> slabs_of st c" using s by (simp add: slabs_of_def)
  note core = slab_okD(3) [OF ok c sl] and bd = ctrl_bound [OF ok c sl] and h = header_addrs [OF ctrl_bound [OF ok c sl]]
  have "free_objs st c s \<noteq> []" using slab_okD(2) [OF ok c sl] s by (simp add: slab_wf_def)
  then obtain i fs where fs: "free_objs st c s = i # fs" by (cases "free_objs st c s") auto
  have ch: "s_free st s = of_nat i" "chain (mem st) s (mem st (slab_bufctl s (of_nat i))) fs" "distinct (i # fs)" "set (i # fs) \<subseteq> {..<cap ?k}"
    "unat (inuse st s) + length (i # fs) = cap ?k" using core fs by (auto simp: slab_core_def)
  have i: "i < cap ?k" using ch(4) by simp
  have b: "unat (slab_bufctl s (of_nat j)) = unat s + 24 + 4 * j" if "j < cap ?k" for j by (rule bufctl_addr [OF bd that])
  define nx where "nx = mem st (slab_bufctl s (of_nat i))"
  define m' where "m' = (mem st)(s + 12 := inuse st s + 1, s + 20 := nx)"
  define k' where "k' = (if nx = BUFCTL_END then ?k\<lparr>slabs_notfull := remove1 s (slabs_notfull ?k), slabs_full := s # remove1 s (slabs_full ?k)\<rparr> else ?k)"
  define st' where "st' = st\<lparr>mem := m', slab_cache := (slab_cache st)(c := k')\<rparr>"
  have ne: "s + 8 \<noteq> s + 12" "s + 8 \<noteq> s + 20" "s + 16 \<noteq> s + 12" "s + 16 \<noteq> s + 20" "s + 20 \<noteq> s + 12" by simp_all
  have bn: "slab_bufctl s (of_nat j) \<notin> {s + 12, s + 20}" if "j < cap ?k" for j using b [OF that] h by (auto dest: arg_cong [where f = unat])
  have eq: "kmem_cache_alloc_one c s st = (obj st c s i, st')"
  proof (rule prod_eqI)
    show "fst (kmem_cache_alloc_one c s st) = fst (obj st c s i, st')"
      using ch(1) by (simp add: kmem_cache_alloc_one_def Let_def s_mem_def s_free_def obj_def)
    show "snd (kmem_cache_alloc_one c s st) = snd (obj st c s i, st')"
      using bn [OF i] ch(1) unfolding kmem_cache_alloc_one_def Let_def snd_conv
      by (intro slab_state.equality) (simp_all add: s_free_def inuse_def add_full_def slab_del_def st'_def m'_def k'_def nx_def)
  qed
  have su: "same_setup st st'" by (auto simp: same_setup_def st'_def k'_def conf_def)
  have hd: "s_mem st' s = s_mem st s" "s_offset st' s = s_offset st s" "s_free st' s = nx" "inuse st' s = inuse st s + 1"
    using ne by (simp_all add: s_mem_def s_offset_def s_free_def inuse_def st'_def m'_def)
  have iu: "unat (inuse st s) + 1 < 2 ^ 32" using ch(5) bd by simp
  then have iu': "unat (inuse st s + 1) = unat (inuse st s) + 1" using unat_word_of_nat [OF iu] by (simp add: add.commute)
  have chs: "chain (mem st') s (s_free st' s) fs"
    unfolding hd nx_def by (rule chain_cong [OF ch(2) bd, where W = "{s + 12, s + 20}"]) (use ch(4) bn in \<open>auto simp: st'_def m'_def\<close>)
  have ph: "smach st' = smach st" "page_cache st' = page_cache st" "page_slab st' = page_slab st" by (simp_all add: st'_def)
  have l: "unat (inuse st' s) + length fs = cap ?k" using ch(5) iu' by (simp add: hd)
  have r: "slab_core st' c s" "free_objs st' c s = fs" "slab_page st' s = slab_page st s" "obj st' c s j = obj st c s j" for j
    using core_relink [OF core su bd hd(1,2) _ _ ph(2,3) chs _ _ l] ch(3,4) ph(1) by auto
  have nxe: "nx = BUFCTL_END \<longleftrightarrow> fs = []"
  proof (cases fs)
    case (Cons j fs')
    then have "nx = of_nat j" "j < 0xFFFFFFFF" using ch(2,4) bd by (auto simp: nx_def)
    then have "unat nx = j" by (simp add: unat_word_of_nat)
    then show ?thesis using Cons \<open>j < 0xFFFFFFFF\<close> by auto
  qed (use ch(2) in \<open>simp add: nx_def\<close>)
  have dl: "distinct (slabs_full ?k @ slabs_notfull ?k)" by (rule slab_okD(4) [OF ok c])
  then have nf: "s \<notin> set (slabs_full ?k)" using s by auto
  have ls: "slabs_of st' d = slabs_of st d \<and> distinct (slabs_full (slab_cache st' d) @ slabs_notfull (slab_cache st' d))" if "d < SLAB_CACHE_NUM" for d
    using dl nf s slab_okD(4) [OF ok that] by (cases "d = c") (auto simp: slabs_of_def st'_def k'_def remove1_idem set_remove1_eq)
  have oth: "keeps_slab st st' d u \<and> (u \<in> set (slabs_notfull (slab_cache st' d)) \<longleftrightarrow> u \<in> set (slabs_notfull (slab_cache st d)))"
    if d: "d < SLAB_CACHE_NUM" "u \<in> slabs_of st d" "(d, u) \<noteq> (c, s)" for d u
  proof -
    have "u \<noteq> s" using slab_cache_unique [OF ok c sl d(1)] d by auto
    then have dj: "ctrl st d u \<inter> ctrl st c s = {}" using ctrl_disjoint [OF ok d(1,2) c sl] by blast
    have "unat (s + 12) \<in> ctrl st c s" "unat (s + 20) \<in> ctrl st c s" by (simp_all add: ctrl_def h)
    then have "mem st' a = mem st a" if "unat a \<in> ctrl st d u" for a using dj that by (auto simp: st'_def m'_def)
    moreover have "run st d u \<inter> free_set (phys (smach st)) = {}" using slab_okD(3) [OF ok d(1,2)] by (simp add: slab_core_def)
    ultimately have "keeps_slab st st' d u" unfolding keeps_slab_def ph by simp
    moreover have "u \<in> set (slabs_notfull (slab_cache st' d)) \<longleftrightarrow> u \<in> set (slabs_notfull (slab_cache st d))"
      using \<open>u \<noteq> s\<close> by (auto simp: st'_def k'_def in_set_remove1)
    ultimately show ?thesis by blast
  qed
  have nm: "s \<in> set (slabs_notfull (slab_cache st' c)) \<longleftrightarrow> free_objs st' c s \<noteq> []"
    using s dl nxe r(2) by (simp add: st'_def k'_def set_remove1_eq)
  have ob: "objs_of st' c s = insert (obj st c s i) (objs_of st c s)"
    unfolding objs_of_def r(2) r(4) setup_fields [OF su] fs using ch(3) i by auto
  have fresh: "obj st c s i \<notin> objs_of st c s"
  proof
    assume "obj st c s i \<in> objs_of st c s"
    then obtain j where "obj st c s i = obj st c s j" "j < cap ?k" "j \<notin> set (i # fs)" by (auto simp: objs_of_def fs)
    then show False using obj_inj [OF ok c core i] by auto
  qed
  have binv: "buddy_inv (phys (smach st'))" using ok ph(1) by (simp add: slab_ok_def)
  note T = touch_slab [OF ok c sl su binv ls oth r(1,3) nm]
  have T1: "slab_ok st'" by (rule T(1)) (use ob in auto)
  have T2: "objects st' = objects st - {c} \<times> objs_of st c s \<union> {c} \<times> objs_of st' c s" by (rule T(2)) (use ob in auto)
  have T3: "controls st' = controls st" by (rule T(3)) (use ob in auto)
  have inob: "{c} \<times> objs_of st c s \<subseteq> objects st" using c sl by (auto simp: objects_iff)
  have "(c, obj st c s i) \<notin> objects st"
  proof
    assume "(c, obj st c s i) \<in> objects st"
    then obtain u j where u: "u \<in> slabs_of st c" "j < cap ?k" "obj st c s i = obj st c u j" "obj st c s i \<in> objs_of st c u" by (auto simp: objects_iff objs_of_def)
    have "(unat (obj st c s i) - 0xC0000000) div 4096 \<in> run st c s \<inter> run st c u"
      using obj_page [OF ok c core i] obj_page [OF ok c slab_okD(3) [OF ok c u(1)] u(2)] u(3) by simp
    then have "u = s" using slab_owner [OF ok c sl c u(1)] by blast
    then show False using fresh u(4) by simp
  qed
  moreover have "objects st' = insert (c, obj st c s i) (objects st)" unfolding T2 ob using inob by auto
  moreover have "\<forall>x. unat x \<notin> ctrl st c s \<longrightarrow> mem st' x = mem st x" by (auto simp: st'_def m'_def ctrl_def h)
  moreover have "inuse st' s \<noteq> 0" using iu' hd(4) by (auto simp: word_unat_eq_iff)
  moreover have "\<forall>d. slabs_of st' d = slabs_of st d"
    using dl nf s by (auto simp: slabs_of_def st'_def k'_def remove1_idem set_remove1_eq)
  ultimately show ?thesis using eq T1 T3 su ph(1) by blast
qed

section \<open>Pages of slabs\<close>

definition slab_pages :: "slab_state \<Rightarrow> nat set" where
  "slab_pages st = (\<Union>c\<in>{..<SLAB_CACHE_NUM}. \<Union>s\<in>slabs_of st c. run st c s)"

text \<open>The pages the allocator may use: those of its slabs and the free ones.\<close>

definition pool :: "slab_state \<Rightarrow> nat set" where
  "pool st = slab_pages st \<union> free_set (phys (smach st))"

lemma in_slab_pages: "c < SLAB_CACHE_NUM \<Longrightarrow> s \<in> slabs_of st c \<Longrightarrow> q \<in> run st c s \<Longrightarrow> q \<in> slab_pages st"
  by (auto simp: slab_pages_def)

lemma addr_page:
  assumes "kva p \<le> y" "y < kva p + 4096 * n"
  shows "(y - 0xC0000000) div 4096 \<in> {p..<p + n}"
proof -
  have "p \<le> (y - 0xC0000000) div 4096" using div_le_mono [of "4096 * p" "y - 0xC0000000" 4096] assms(1) by (simp add: kva_def)
  moreover have "(y - 0xC0000000) div 4096 < p + n" using assms by (simp add: div_less_iff_less_mult kva_def algebra_simps)
  ultimately show ?thesis by simp
qed

lemma place_pages:
  assumes "slab_ok st" "place st a n" "y \<in> {unat a..<unat a + n}"
  shows "(y - 0xC0000000) div 4096 \<in> slab_pages st"
proof -
  obtain c s x where a: "has_cell st c s x" "{unat a..<unat a + n} \<subseteq> cell st c s x" using assms(2) by (auto simp: place_def)
  then have "y \<in> {kva (slab_page st s)..<kva (slab_page st s) + 4096 * 2 ^ page_order (slab_cache st c)}" using cell_in_run [OF assms(1) a(1)] assms(3) by blast
  then have "(y - 0xC0000000) div 4096 \<in> run st c s" unfolding run_def by (intro addr_page) auto
  then show ?thesis using a(1) by (intro in_slab_pages) (auto simp: has_cell_def)
qed

section \<open>A new slab\<close>

lemma chain_new:
  assumes "\<And>i. i < n \<Longrightarrow> m (slab_bufctl s (of_nat i)) = (if Suc i = n then BUFCTL_END else of_nat (Suc i))" "j < n"
  shows "chain m s (of_nat j) [j..<n]"
  using assms(2)
proof (induction "n - j" arbitrary: j)
  case (Suc k)
  have u: "[j..<n] = j # [Suc j..<n]" using Suc.prems by (simp add: upt_conv_Cons)
  show ?case
  proof (cases "Suc j = n")
    case True
    then show ?thesis using assms(1) [OF Suc.prems] by (simp add: u)
  next
    case False
    then have "chain m s (of_nat (Suc j)) [Suc j..<n]" using Suc by (intro Suc.hyps(1)) auto
    then show ?thesis using assms(1) [OF Suc.prems] False by (simp add: u)
  qed
qed simp

lemma new_slab:
  assumes ok: "slab_ok st" and c: "c < SLAB_CACHE_NUM" and sn: "\<And>d. d < SLAB_CACHE_NUM \<Longrightarrow> s \<notin> slabs_of st d"
    and R: "region_ok (phys (smach st)) p (2 ^ page_order (slab_cache st c))" "{p..<p + 2 ^ page_order (slab_cache st c)} \<inter> pool st = {}"
    and pl: "if off_slab (slab_cache st c) then (the (slab_cachep (slab_cache st c)), s) \<in> objects st else s = of_nat (kva p)"
    and su: "same_setup st st'"
    and ca: "slab_cache st' = (slab_cache st)(c := (slab_cache st c)\<lparr>slabs_notfull := s # slabs_notfull (slab_cache st c)\<rparr>)"
    and ph: "buddy_inv (phys (smach st'))" "free_set (phys (smach st')) = free_set (phys (smach st))"
      "\<And>q. PageSlab (pages (phys (smach st')) q) \<longleftrightarrow> q \<in> {p..<p + 2 ^ page_order (slab_cache st c)} \<or> PageSlab (pages (phys (smach st)) q)"
      "\<And>q. page_cache st' q = (if q \<in> {p..<p + 2 ^ page_order (slab_cache st c)} then c else page_cache st q)"
      "\<And>q. page_slab st' q = (if q \<in> {p..<p + 2 ^ page_order (slab_cache st c)} then s else page_slab st q)"
    and me: "\<And>x. unat x \<notin> {unat s..<unat s + (24 + 4 * cap (slab_cache st c))} \<Longrightarrow> mem st' x = mem st x"
    and hd: "s_mem st' s = of_nat (kva p) + offset (slab_cache st c)" "s_offset st' s = offset (slab_cache st c)" "inuse st' s = 0" "s_free st' s = 0"
    and ch: "chain (mem st') s 0 [0..<cap (slab_cache st c)]"
  shows "slab_ok st'" "objects st' = objects st" "controls st' = (if off_slab (slab_cache st c) then insert s (controls st) else controls st)"
    "slab_pages st' = slab_pages st \<union> {p..<p + 2 ^ page_order (slab_cache st c)}"
    "\<And>d. slabs_of st' d = (if d = c then insert s (slabs_of st c) else slabs_of st d)"
    "\<And>d u. d < SLAB_CACHE_NUM \<Longrightarrow> u \<in> slabs_of st d \<Longrightarrow> inuse st' u = inuse st u"
proof -
  let ?k = "slab_cache st c" and ?R = "{p..<p + 2 ^ page_order (slab_cache st c)}" and ?C = "{unat s..<unat s + (24 + 4 * cap (slab_cache st c))}"
  note f = setup_fields [OF su]
  have cok: "cache_ok (slab_cache st) c" by (rule slab_okD(1) [OF ok c])
  have lim: "p + 2 ^ page_order ?k \<le> 0x38000" using bs.run_limit [OF R(1)] ok by (simp add: slab_ok_def)
  have kp: "unat (of_nat (kva p) :: u32) = kva p" using lim by (intro unat_word_of_nat) (simp add: kva_def)
  have pg: "slab_page st' s = p"
  proof -
    have "s_mem st' s - s_offset st' s - KERNBASE = of_nat (4096 * p)" by (simp add: hd kva_def)
    moreover have "unat (of_nat (4096 * p) :: u32) = 4096 * p" using lim by (intro unat_word_of_nat) simp
    ultimately show ?thesis by (simp add: slab_page_def)
  qed
  have run: "run st' c s = ?R" by (simp add: run_def pg f)
  show so: "slabs_of st' d = (if d = c then insert s (slabs_of st c) else slabs_of st d)" for d by (auto simp: slabs_of_def ca)
  have bd: "unat s + (24 + 4 * cap ?k) \<le> 0xF8000000"
  proof (cases "off_slab ?k")
    case True
    then obtain c' where c': "slab_cachep ?k = Some c'" "24 + 4 * cap ?k \<le> osize (slab_cache st c')" using cok by (auto simp: cache_ok_def)
    then have "place st s (24 + 4 * cap ?k)" using object_place [OF ok] pl True place_mono by fastforce
    then show ?thesis using place_bound [OF ok] by simp
  next
    case False
    then have "24 + 4 * cap ?k \<le> unat (offset ?k)" "unat (offset ?k) + cap ?k * osize ?k \<le> 4096 * 2 ^ page_order ?k" using cok by (auto simp: cache_ok_def)
    then show ?thesis using False pl kp lim by (simp add: kva_def)
  qed
  have oth: "keeps_slab st st' d u" if d: "d < SLAB_CACHE_NUM" "u \<in> slabs_of st d" for d u
  proof -
    have dj: "ctrl st d u \<inter> ?C = {}"
    proof (cases "off_slab ?k")
      case True
      then obtain c' where c': "slab_cachep ?k = Some c'" "24 + 4 * cap ?k \<le> osize (slab_cache st c')" using cok by (auto simp: cache_ok_def)
      then have "place st s (24 + 4 * cap ?k)" using object_place [OF ok] pl True place_mono by fastforce
      moreover have "u \<noteq> s" using sn d by blast
      ultimately show ?thesis unfolding ctrl_def by (intro place_disjoint [OF ok control_place [OF ok d]])
    next
      case False
      have "(y - 0xC0000000) div 4096 \<in> ?R" if "y \<in> ?C" for y
      proof (rule addr_page)
        have "24 + 4 * cap ?k \<le> unat (offset ?k)" "unat (offset ?k) + cap ?k * osize ?k \<le> 4096 * 2 ^ page_order ?k" using cok False by (auto simp: cache_ok_def)
        then show "kva p \<le> y" "y < kva p + 4096 * 2 ^ page_order ?k" using that pl kp False by auto
      qed
      moreover have "(y - 0xC0000000) div 4096 \<in> slab_pages st" if "y \<in> ctrl st d u" for y
        using place_pages [OF ok control_place [OF ok d]] that by (simp add: ctrl_def)
      ultimately show ?thesis using R(2) unfolding pool_def by blast
    qed
    have "run st d u \<subseteq> slab_pages st" using in_slab_pages [OF d] by blast
    then have "run st d u \<inter> ?R = {}" using R(2) unfolding pool_def by blast
    then have nr: "q \<notin> ?R" if "q \<in> run st d u" for q using that by blast
    have "PageSlab (pages (phys (smach st')) q) = PageSlab (pages (phys (smach st)) q) \<and> page_cache st' q = page_cache st q \<and> page_slab st' q = page_slab st q"
      if "q \<in> run st d u" for q using nr [OF that] by (simp only: ph(3-5) if_False simp_thms)
    moreover have "run st d u \<inter> free_set (phys (smach st)) = {}" using slab_okD(3) [OF ok d] by (simp add: slab_core_def)
    moreover have "mem st' a = mem st a" if "unat a \<in> ctrl st d u" for a using dj that by (intro me) blast
    ultimately show ?thesis unfolding keeps_slab_def ph(2) by blast
  qed
  have keep: "slab_core st' d u" "free_objs st' d u = free_objs st d u" "slab_page st' u = slab_page st u" "objs_of st' d u = objs_of st d u"
    "run st' d u = run st d u" "inuse st' u = inuse st u"
    if d: "d < SLAB_CACHE_NUM" "u \<in> slabs_of st d" for d u
  proof -
    note k = slab_keep [OF su oth [OF d] slab_okD(3) [OF ok d] ctrl_bound [OF ok d]]
    show "slab_core st' d u" "free_objs st' d u = free_objs st d u" "slab_page st' u = slab_page st u" "run st' d u = run st d u" "inuse st' u = inuse st u"
      by (rule k(1), rule k(2), rule k(3), rule k(6), rule k(4))
    show "objs_of st' d u = objs_of st d u" unfolding objs_of_def k(2,5) f by (rule refl)
  qed
  show "inuse st' u = inuse st u" if "d < SLAB_CACHE_NUM" "u \<in> slabs_of st d" for d u by (rule keep(6) [OF that])
  have "links (mem st') s (cap ?k) 0 = [0..<cap ?k]" using ch bd by (intro chain_links) auto
  then have fo: "free_objs st' c s = [0..<cap ?k]" by (simp add: free_objs_def hd f)
  then have oe: "objs_of st' c s = {}" by (auto simp: objs_of_def f)
  have core: "slab_core st' c s"
  proof -
    have "KERNBASE + of_nat (4096 * p) = (of_nat (kva p) :: u32)" by (simp add: kva_def)
    moreover have "region_ok (phys (smach st')) = region_ok (phys (smach st))" using su by (simp add: same_setup_def)
    moreover have "?R \<inter> free_set (phys (smach st)) = {}" using R(2) by (auto simp: pool_def)
    ultimately show ?thesis unfolding slab_core_def run pg fo hd f using R(1) ch ph(2-5) by (simp add: hd lessThan_atLeast0)
  qed
  show obs: "objects st' = objects st"
    unfolding set_eq_iff split_paired_All objects_iff so using keep(4) oe c by auto
  show "controls st' = (if off_slab ?k then insert s (controls st) else controls st)" using c by (auto simp: controls_def f so)
  show "slab_pages st' = slab_pages st \<union> ?R"
  proof (intro equalityI subsetI)
    fix q
    assume "q \<in> slab_pages st'"
    then obtain d u where d: "d < SLAB_CACHE_NUM" "u \<in> slabs_of st' d" "q \<in> run st' d u" by (auto simp: slab_pages_def)
    show "q \<in> slab_pages st \<union> ?R"
    proof (cases "u \<in> slabs_of st d")
      case True
      then show ?thesis using keep(5) [OF d(1) True] d in_slab_pages by blast
    next
      case False
      then have "u = s" "d = c" using d(2) by (auto simp: so split: if_splits)
      then show ?thesis using d(3) run by simp
    qed
  next
    fix q
    assume "q \<in> slab_pages st \<union> ?R"
    then consider d u where "d < SLAB_CACHE_NUM" "u \<in> slabs_of st d" "q \<in> run st d u" | "q \<in> ?R" by (auto simp: slab_pages_def)
    then show "q \<in> slab_pages st'"
    proof cases
      case (1 d u)
      then show ?thesis using keep(5) [OF 1(1,2)] so [of d] by (intro in_slab_pages [of d u]) auto
    next
      case 2
      then show ?thesis using run so [of c] c by (intro in_slab_pages [of c s]) auto
    qed
  qed
  have wf: "slab_wf st' d u" if d: "d < SLAB_CACHE_NUM" "u \<in> slabs_of st' d" for d u
  proof (cases "u \<in> slabs_of st d")
    case True
    then have nf: "(u \<in> set (slabs_notfull (slab_cache st' d))) = (u \<in> set (slabs_notfull (slab_cache st d)))" using sn [OF d(1)] by (auto simp: ca)
    show ?thesis using slab_okD(2) [OF ok d(1) True] keep(1) [OF d(1) True] unfolding slab_wf_def obs f nf keep(2) [OF d(1) True] keep(3) [OF d(1) True] by blast
  next
    case False
    then have u: "u = s" "d = c" using d(2) by (auto simp: so split: if_splits)
    have "(of_nat (kva p) :: u32) = KERNBASE + of_nat (4096 * p)" by (simp add: kva_def)
    then show ?thesis using core pl cok unfolding u slab_wf_def obs f fo pg by (simp add: ca cache_ok_def)
  qed
  have "cache_ok (slab_cache st') d = cache_ok (slab_cache st) d" for d using su by (intro cache_ok_cong) (simp add: same_setup_def)
  moreover have "distinct (slabs_full (slab_cache st' d) @ slabs_notfull (slab_cache st' d))" if "d < SLAB_CACHE_NUM" for d
    using slab_okD(4) [OF ok that] sn [OF that] by (auto simp: ca slabs_of_def)
  ultimately show "slab_ok st'" using ok ph(1) wf su unfolding slab_ok_def same_setup_def by simp
qed

section \<open>Setting up a slab\<close>

lemma fold_store:
  "slab_cache (fold (\<lambda>i. store (f i) (g i)) is st) = slab_cache st" "smach (fold (\<lambda>i. store (f i) (g i)) is st) = smach st"
  "page_cache (fold (\<lambda>i. store (f i) (g i)) is st) = page_cache st" "page_slab (fold (\<lambda>i. store (f i) (g i)) is st) = page_slab st"
  "x \<notin> f ` set is \<Longrightarrow> mem (fold (\<lambda>i. store (f i) (g i)) is st) x = mem st x"
  "i \<in> set is \<Longrightarrow> inj_on f (set is) \<Longrightarrow> distinct is \<Longrightarrow> mem (fold (\<lambda>i. store (f i) (g i)) is st) (f i) = g i"
proof -
  show "slab_cache (fold (\<lambda>i. store (f i) (g i)) is st) = slab_cache st" "smach (fold (\<lambda>i. store (f i) (g i)) is st) = smach st"
    "page_cache (fold (\<lambda>i. store (f i) (g i)) is st) = page_cache st" "page_slab (fold (\<lambda>i. store (f i) (g i)) is st) = page_slab st"
    by (induction "is" arbitrary: st; simp)+
  have m: "mem (fold (\<lambda>i. store (f i) (g i)) is st) x = mem st x" if "x \<notin> f ` set is" for x st "is"
    using that by (induction "is" arbitrary: st) auto
  then show "mem (fold (\<lambda>i. store (f i) (g i)) is st) x = mem st x" if "x \<notin> f ` set is" using that by blast
  show "mem (fold (\<lambda>i. store (f i) (g i)) is st) (f i) = g i" if "i \<in> set is" "inj_on f (set is)" "distinct is"
    using that
  proof (induction "is" arbitrary: st)
    case (Cons j js)
    show ?case
    proof (cases "i = j")
      case True
      then have "f i \<notin> f ` set js" using Cons.prems by (auto simp: inj_on_def)
      then show ?thesis using m True by simp
    next
      case False
      then show ?thesis using Cons by (simp add: inj_on_def)
    qed
  qed simp
qed

lemma link_objs_mem:
  assumes "unat s + (24 + 4 * cap (slab_cache st c)) \<le> 0xF8000000" "0 < cap (slab_cache st c)"
  shows "i < cap (slab_cache st c) \<Longrightarrow> mem (link_objs c s st) (slab_bufctl s (of_nat i)) = (if Suc i = cap (slab_cache st c) then BUFCTL_END else of_nat (Suc i))"
    "unat x \<notin> {unat s + 24..<unat s + (24 + 4 * cap (slab_cache st c))} \<Longrightarrow> mem (link_objs c s st) x = mem st x"
    "slab_cache (link_objs c s st) = slab_cache st" "smach (link_objs c s st) = smach st" "page_cache (link_objs c s st) = page_cache st" "page_slab (link_objs c s st) = page_slab st"
proof -
  let ?n = "cap (slab_cache st c)" and ?f = "\<lambda>i. slab_bufctl s (of_nat i)"
  have ad: "unat (?f i) = unat s + 24 + 4 * i" if "i < ?n" for i by (rule bufctl_addr [OF assms(1) that])
  have inj: "inj_on ?f (set [0..<?n])"
  proof (rule inj_onI)
    fix i j
    assume i: "i \<in> set [0..<?n]" and j: "j \<in> set [0..<?n]" and e: "?f i = ?f j"
    have "unat (?f i) = unat s + 24 + 4 * i" "unat (?f j) = unat s + 24 + 4 * j" by (rule ad, use i in simp) (rule ad, use j in simp)
    then have "unat s + 24 + 4 * i = unat s + 24 + 4 * j" unfolding e by (rule trans [OF sym])
    then show "i = j" by simp
  qed
  have nm: "num (slab_cache st c) - 1 = of_nat (?n - 1)" using assms(2) by (simp add: cap_def of_nat_diff)
  have eq: "link_objs c s st = store (?f (?n - 1)) BUFCTL_END (fold (\<lambda>i. store (?f i) (of_nat i + 1)) [0..<?n] st)"
    unfolding link_objs_def Let_def nm cap_def [symmetric] by (rule refl)
  show "slab_cache (link_objs c s st) = slab_cache st" "smach (link_objs c s st) = smach st" "page_cache (link_objs c s st) = page_cache st" "page_slab (link_objs c s st) = page_slab st"
    unfolding eq by (simp_all add: fold_store(1-4))
  show "mem (link_objs c s st) (?f i) = (if Suc i = ?n then BUFCTL_END else of_nat (Suc i))" if i: "i < ?n"
  proof (cases "Suc i = ?n")
    case True
    then have "?n - 1 = i" by simp
    then show ?thesis using True by (simp add: eq)
  next
    case False
    have "?f i \<noteq> ?f (?n - 1)"
    proof
      assume "?f i = ?f (?n - 1)"
      then have "i = ?n - 1" by (rule inj_onD [OF inj]) (use i in auto)
      then show False using False i by simp
    qed
    moreover have "mem (fold (\<lambda>i. store (?f i) (of_nat i + 1)) [0..<?n] st) (?f i) = of_nat i + 1"
      by (rule fold_store(6)) (use inj i in auto)
    ultimately show ?thesis using False by (simp add: eq add.commute)
  qed
  show "mem (link_objs c s st) x = mem st x" if x: "unat x \<notin> {unat s + 24..<unat s + (24 + 4 * ?n)}"
  proof -
    have ne: "x \<noteq> ?f i" if "i < ?n" for i using ad [OF that] x that by auto
    have "?n - 1 < ?n" using assms(2) by simp
    then have "x \<notin> ?f ` set [0..<?n]" "x \<noteq> ?f (?n - 1)" using ne by (fastforce, intro ne)
    then show ?thesis by (simp add: eq fold_store(5))
  qed
qed

lemma fold_claim:
  "smach (fold (claim_page c s) ps st) = (smach st)\<lparr>phys := fold (\<lambda>p. mark_slab p True) ps (phys (smach st))\<rparr>"
  "page_cache (fold (claim_page c s) ps st) q = (if q \<in> set ps then c else page_cache st q)"
  "page_slab (fold (claim_page c s) ps st) q = (if q \<in> set ps then s else page_slab st q)"
  "mem (fold (claim_page c s) ps st) = mem st" "slab_cache (fold (claim_page c s) ps st) = slab_cache st"
  by (induction ps arbitrary: st; simp add: claim_page_def mark_slab_def)+

text \<open>What \<^verbatim>\<open>kmem_cache_grow\<close> does with the pages \<open>p\<close> and the control block \<open>s\<close>.\<close>

definition set_up :: "nat \<Rightarrow> nat \<Rightarrow> u32 \<Rightarrow> u32 \<Rightarrow> slab_state \<Rightarrow> slab_state" where
  "set_up c p s objp st = add_notfull c s (store (s + 20) 0 (link_objs c s (fold (claim_page c s) [p..<p + 2 ^ page_order (slab_cache st c)]
     (store (s + 8) (objp + offset (slab_cache st c)) (store (s + 16) (offset (slab_cache st c)) (store (s + 12) 0 st))))))"

lemma set_up_ok:
  assumes ok: "slab_ok st" and c: "c < SLAB_CACHE_NUM" and sn: "\<And>d. d < SLAB_CACHE_NUM \<Longrightarrow> s \<notin> slabs_of st d"
    and R: "region_ok (phys (smach st)) p (2 ^ page_order (slab_cache st c))" "{p..<p + 2 ^ page_order (slab_cache st c)} \<inter> pool st = {}"
    and pl: "if off_slab (slab_cache st c) then (the (slab_cachep (slab_cache st c)), s) \<in> objects st else s = of_nat (kva p)"
    and bd: "unat s + (24 + 4 * cap (slab_cache st c)) \<le> 0xF8000000"
    and st': "st' = set_up c p s (of_nat (kva p)) st"
  shows "slab_ok st'" "objects st' = objects st" "controls st' = (if off_slab (slab_cache st c) then insert s (controls st) else controls st)"
    "slab_pages st' = slab_pages st \<union> {p..<p + 2 ^ page_order (slab_cache st c)}" "free_set (phys (smach st')) = free_set (phys (smach st))"
    "\<And>d. slabs_of st' d = (if d = c then insert s (slabs_of st c) else slabs_of st d)"
    "\<And>d u. d < SLAB_CACHE_NUM \<Longrightarrow> u \<in> slabs_of st d \<Longrightarrow> inuse st' u = inuse st u" "same_setup st st'"
    "slabs_notfull (slab_cache st' c) = s # slabs_notfull (slab_cache st c)"
    "\<And>x. unat x \<notin> {unat s..<unat s + (24 + 4 * cap (slab_cache st c))} \<Longrightarrow> mem st' x = mem st x"
proof -
  let ?k = "slab_cache st c" and ?R = "{p..<p + 2 ^ page_order (slab_cache st c)}"
  define st1 where "st1 = store (s + 8) (of_nat (kva p) + offset ?k) (store (s + 16) (offset ?k) (store (s + 12) 0 st))"
  define st2 where "st2 = fold (claim_page c s) [p..<p + 2 ^ page_order ?k] st1"
  have eq: "st' = add_notfull c s (store (s + 20) 0 (link_objs c s st2))" unfolding st' set_up_def st1_def st2_def by (rule refl)
  have s1: "slab_cache st1 = slab_cache st" "smach st1 = smach st" "page_cache st1 = page_cache st" "page_slab st1 = page_slab st" by (simp_all add: st1_def)
  have s2: "slab_cache st2 = slab_cache st" "mem st2 = mem st1" "smach st2 = (smach st)\<lparr>phys := fold (\<lambda>p. mark_slab p True) [p..<p + 2 ^ page_order ?k] (phys (smach st))\<rparr>"
    "page_cache st2 q = (if q \<in> ?R then c else page_cache st q)" "page_slab st2 q = (if q \<in> ?R then s else page_slab st q)" for q
    by (simp_all add: st2_def fold_claim s1)
  have n0: "0 < cap ?k" using slab_okD(1) [OF ok c] by (simp add: cache_ok_def)
  note lk = link_objs_mem [of s st2 c, unfolded s2(1), OF bd n0]
  have h: "unat (s + 8) = unat s + 8" "unat (s + 12) = unat s + 12" "unat (s + 16) = unat s + 16" "unat (s + 20) = unat s + 20" by (rule header_addrs [OF bd])+
  have ca: "slab_cache st' = (slab_cache st)(c := ?k\<lparr>slabs_notfull := s # slabs_notfull ?k\<rparr>)" by (simp add: eq add_notfull_def lk(3))
  have sm: "smach st' = smach st2" "page_cache st' = page_cache st2" "page_slab st' = page_slab st2" by (simp_all add: eq add_notfull_def lk)
  have me: "mem st' = (mem (link_objs c s st2))(s + 20 := 0)" by (simp add: eq add_notfull_def)
  note mk = bs.mark_run [where v = True and ps = "[p..<p + 2 ^ page_order ?k]" and s = "phys (smach st)"]
  have ph: "buddy_inv (phys (smach st'))" "free_set (phys (smach st')) = free_set (phys (smach st))" "npage (phys (smach st')) = npage (phys (smach st))"
    "region_ok (phys (smach st')) = region_ok (phys (smach st))" using ok by (simp_all add: sm s2 mk slab_ok_def)
  have mq: "PageSlab (pages (phys (smach st')) q) \<longleftrightarrow> q \<in> ?R \<or> PageSlab (pages (phys (smach st)) q)" for q by (auto simp: sm s2 mk)
  show su: "same_setup st st'" using ph by (auto simp: same_setup_def ca conf_def)
  have out: "mem (link_objs c s st2) (s + k) = mem st1 (s + k)" if "unat (s + k) < unat s + 24" for k using lk(2) [of "s + k"] that s2(2) by simp
  have hd: "s_mem st' s = of_nat (kva p) + offset ?k" "s_offset st' s = offset ?k" "inuse st' s = 0" "s_free st' s = 0"
    by (simp_all add: s_mem_def s_offset_def inuse_def s_free_def me out h) (simp_all add: st1_def)
  have "mem st' (slab_bufctl s (of_nat i)) = (if Suc i = cap ?k then BUFCTL_END else of_nat (Suc i))" if "i < cap ?k" for i
    using lk(1) [OF that] bufctl_addr [OF bd that] h(4) by (auto simp: me dest: arg_cong [where f = unat])
  then have ch: "chain (mem st') s 0 [0..<cap ?k]" using chain_new [of "cap ?k" "mem st'" s 0] n0 by simp
  show mo: "mem st' x = mem st x" if "unat x \<notin> {unat s..<unat s + (24 + 4 * cap ?k)}" for x
  proof -
    have "x \<noteq> s + 20" "x \<noteq> s + 8" "x \<noteq> s + 12" "x \<noteq> s + 16" "unat x \<notin> {unat s + 24..<unat s + (24 + 4 * cap ?k)}" using that h by auto
    then show ?thesis using lk(2) [of x] s2(2) by (simp add: me st1_def)
  qed
  note pc = s2(4) [folded sm(2)] s2(5) [folded sm(3)]
  note N = new_slab [OF ok c sn R pl su ca ph(1,2) mq pc mo hd ch]
  show "slab_ok st'" "objects st' = objects st" "controls st' = (if off_slab ?k then insert s (controls st) else controls st)"
    "slab_pages st' = slab_pages st \<union> ?R" by ((rule N(1) N(2) N(3) N(4); assumption))+
  show "slabs_of st' d = (if d = c then insert s (slabs_of st c) else slabs_of st d)" for d by (rule N(5); assumption)
  show "inuse st' u = inuse st u" if "d < SLAB_CACHE_NUM" "u \<in> slabs_of st d" for d u by (rule N(6) [OF _ _ that]; assumption)
  show "free_set (phys (smach st')) = free_set (phys (smach st))" by (rule ph(2))
  show "slabs_notfull (slab_cache st' c) = s # slabs_notfull ?k" by (simp add: ca)
qed

section \<open>Clients\<close>

text \<open>The objects that are not control blocks belong to the callers of \<^verbatim>\<open>kmalloc\<close>.\<close>

definition clients :: "slab_state \<Rightarrow> (nat \<times> u32) set" where
  "clients st = {(c, a) \<in> objects st. a \<notin> controls st}"

text \<open>No slab is without an object in use.\<close>

definition busy :: "slab_state \<Rightarrow> u32 set \<Rightarrow> bool" where
  "busy st E \<longleftrightarrow> (\<forall>c<SLAB_CACHE_NUM. \<forall>s\<in>slabs_of st c. s \<notin> E \<longrightarrow> inuse st s \<noteq> 0)"

definition mem_kept :: "(nat \<times> u32) set \<Rightarrow> slab_state \<Rightarrow> slab_state \<Rightarrow> bool" where
  "mem_kept A st st' \<longleftrightarrow> (\<forall>c a x. (c, a) \<in> A \<longrightarrow> unat x \<in> {unat a..<unat a + osize (slab_cache st c)} \<longrightarrow> mem st' x = mem st x)"

lemma mem_kept_refl [simp]: "mem_kept A st st"
  by (auto simp: mem_kept_def)

lemma mem_kept_trans: "mem_kept A st st1 \<Longrightarrow> mem_kept B st1 st2 \<Longrightarrow> A \<subseteq> B \<Longrightarrow> same_setup st st1 \<Longrightarrow> mem_kept A st st2"
  unfolding mem_kept_def by (simp add: setup_fields subset_iff) metis

lemma on_slab_addr:
  assumes "slab_ok st" "c < SLAB_CACHE_NUM" "s \<in> slabs_of st c" "\<not> off_slab (slab_cache st c)"
  shows "unat s = kva (slab_page st s)" "unat s \<in> cell st c s None"
proof -
  have w: "slab_core st c s" "s = of_nat (kva (slab_page st s))" using slab_okD(2) [OF assms(1-3)] assms(4) by (auto simp: slab_wf_def kva_def)
  have "unat (of_nat (kva (slab_page st s)) :: u32) = kva (slab_page st s)"
    using slab_fits [OF assms(1,2) w(1)] by (intro unat_word_of_nat) simp
  then show u: "unat s = kva (slab_page st s)" using w(2) by simp
  have "0 < unat (offset (slab_cache st c))" using slab_okD(1) [OF assms(1,2)] assms(4) by (auto simp: cache_ok_def)
  then show "unat s \<in> cell st c s None" unfolding u by (simp add: cell_def Let_def)
qed

lemma client_not_slab:
  assumes "slab_ok st" "(d, b) \<in> objects st" "b \<notin> controls st" "c < SLAB_CACHE_NUM" "s \<in> slabs_of st c"
  shows "b \<noteq> s"
proof (cases "off_slab (slab_cache st c)")
  case True
  then show ?thesis using assms(3-5) by (auto simp: controls_def)
next
  case False
  show ?thesis
  proof
    assume "b = s"
    obtain s' i where i: "d < SLAB_CACHE_NUM" "has_cell st d s' (Some i)" "cell st d s' (Some i) = {unat b..<unat b + osize (slab_cache st d)}"
      using objects_cell [OF assms(1,2)] by metis
    have "unat b \<in> cell st d s' (Some i)" using i osize_pos [OF assms(1)] by simp
    moreover have "unat b \<in> cell st c s None" using on_slab_addr(2) [OF assms(1,4,5) False] \<open>b = s\<close> by simp
    moreover have "has_cell st c s None" using assms(4,5) by (simp add: has_cell_def)
    ultimately show False using cells_disjoint [OF assms(1) i(2), of c s None] by auto
  qed
qed

lemma client_ctrl_disjoint:
  assumes "slab_ok st" "(d, b) \<in> clients st" "c < SLAB_CACHE_NUM" "s \<in> slabs_of st c"
  shows "{unat b..<unat b + osize (slab_cache st d)} \<inter> ctrl st c s = {}"
  unfolding ctrl_def
  by (rule place_disjoint [OF assms(1) object_place [OF assms(1)] control_place [OF assms(1,3,4)]])
    (use assms client_not_slab [OF assms(1)] in \<open>auto simp: clients_def\<close>)

lemma object_cache_unique:
  assumes "slab_ok st" "(c, a) \<in> objects st" "(d, a) \<in> objects st"
  shows "c = d"
  using assms objs_of_owner [OF assms(1)] unfolding objects_iff by blast

lemma smach_simps [simp]:
  "s_mem (st\<lparr>smach := m\<rparr>) s = s_mem st s" "s_offset (st\<lparr>smach := m\<rparr>) s = s_offset st s" "inuse (st\<lparr>smach := m\<rparr>) s = inuse st s"
  "s_free (st\<lparr>smach := m\<rparr>) s = s_free st s" "slabs_of (st\<lparr>smach := m\<rparr>) c = slabs_of st c" "slab_page (st\<lparr>smach := m\<rparr>) s = slab_page st s"
  "run (st\<lparr>smach := m\<rparr>) c s = run st c s" "free_objs (st\<lparr>smach := m\<rparr>) c s = free_objs st c s" "obj (st\<lparr>smach := m\<rparr>) c s i = obj st c s i"
  "objects (st\<lparr>smach := m\<rparr>) = objects st" "controls (st\<lparr>smach := m\<rparr>) = controls st" "slab_pages (st\<lparr>smach := m\<rparr>) = slab_pages st"
  "clients (st\<lparr>smach := m\<rparr>) = clients st" "busy (st\<lparr>smach := m\<rparr>) E = busy st E" "ctrl (st\<lparr>smach := m\<rparr>) c s = ctrl st c s"
  "mem_kept A (st\<lparr>smach := m\<rparr>) st' = mem_kept A st st'" "mem_kept A st' (st\<lparr>smach := m\<rparr>) = mem_kept A st' st"
proof -
  show [simp]: "s_mem (st\<lparr>smach := m\<rparr>) s = s_mem st s" "s_offset (st\<lparr>smach := m\<rparr>) s = s_offset st s" "inuse (st\<lparr>smach := m\<rparr>) s = inuse st s"
    "s_free (st\<lparr>smach := m\<rparr>) s = s_free st s" "slabs_of (st\<lparr>smach := m\<rparr>) c = slabs_of st c" for s c
    by (simp_all add: s_mem_def s_offset_def inuse_def s_free_def slabs_of_def)
  show [simp]: "slab_page (st\<lparr>smach := m\<rparr>) s = slab_page st s" for s by (simp add: slab_page_def)
  show [simp]: "run (st\<lparr>smach := m\<rparr>) c s = run st c s" "free_objs (st\<lparr>smach := m\<rparr>) c s = free_objs st c s" "obj (st\<lparr>smach := m\<rparr>) c s i = obj st c s i" for c s i
    by (simp_all add: run_def free_objs_def obj_def)
  show [simp]: "objects (st\<lparr>smach := m\<rparr>) = objects st" "controls (st\<lparr>smach := m\<rparr>) = controls st" "slab_pages (st\<lparr>smach := m\<rparr>) = slab_pages st"
    by (simp_all add: objects_def controls_def slab_pages_def)
  show "clients (st\<lparr>smach := m\<rparr>) = clients st" "busy (st\<lparr>smach := m\<rparr>) E = busy st E" "ctrl (st\<lparr>smach := m\<rparr>) c s = ctrl st c s"
    "mem_kept A (st\<lparr>smach := m\<rparr>) st' = mem_kept A st st'" "mem_kept A st' (st\<lparr>smach := m\<rparr>) = mem_kept A st' st"
    by (simp_all add: clients_def busy_def ctrl_def mem_kept_def)
qed

text \<open>Handing out and taking back pages that belong to no slab.\<close>

lemma phys_step:
  assumes ok: "slab_ok st" and b: "buddy_inv (phys m)" "npage (phys m) = npage (phys (smach st))" "region_ok (phys m) = region_ok (phys (smach st))"
    and d: "free_set (phys m) \<inter> slab_pages st = {}" and k: "\<And>q. q \<in> slab_pages st \<Longrightarrow> PageSlab (pages (phys m) q) = PageSlab (pages (phys (smach st)) q)"
  shows "slab_ok (st\<lparr>smach := m\<rparr>)" "same_setup st (st\<lparr>smach := m\<rparr>)"
proof -
  let ?st = "st\<lparr>smach := m\<rparr>"
  show su: "same_setup st ?st" using b by (simp add: same_setup_def)
  have "slab_wf ?st c s" if c: "c < SLAB_CACHE_NUM" "s \<in> slabs_of st c" for c s
  proof -
    have in': "q \<in> slab_pages st" if "q \<in> run st c s" for q using in_slab_pages [OF c that] .
    then have "run st c s \<inter> free_set (phys m) = {}" using d by blast
    then show ?thesis using slab_okD(2) [OF ok c] k [OF in'] b unfolding slab_wf_def slab_core_def by (simp split: if_splits)
  qed
  then show "slab_ok ?st" using ok b unfolding slab_ok_def by simp
qed

lemma slab_pages_used: "slab_ok st \<Longrightarrow> slab_pages st \<inter> free_set (phys (smach st)) = {}"
  using slab_okD(3) by (fastforce simp: slab_pages_def slab_core_def)

section \<open>Growing a cache\<close>

lemma page_kva_eq:
  assumes "slab_ok st" "p < npage (phys (smach st))"
  shows "page_kva p st = Some (of_nat (kva p))"
proof -
  have p: "p < 2 ^ 20" "npage (phys (smach st)) \<le> 0x38000" using assms by (auto simp: slab_ok_def)
  have "PPN (page2pa p) = p" using PPN_page2pa [OF p(1), of 0] by simp
  moreover have "KERNBASE + page2pa p = of_nat (kva p)" by (simp add: page2pa_def push_bit_eq_mult kva_def mult.commute)
  ultimately show ?thesis using assms(2) by (simp add: page_kva_def page2kva_def KADDR_def)
qed

text \<open>The contract of an allocation from cache \<open>c\<close>, and of growing it.\<close>

definition alloc_ok :: "nat \<Rightarrow> slab_state \<Rightarrow> u32 option \<Rightarrow> slab_state \<Rightarrow> bool" where
  "alloc_ok c st r st' \<longleftrightarrow> slab_ok st' \<and> same_setup st st' \<and> pool st' = pool st \<and> mem_kept (clients st) st st' \<and> busy st' {}
     \<and> eflags (smach st') = eflags (smach st)
     \<and> (case r of None \<Rightarrow> clients st' = clients st | Some a \<Rightarrow> (c, a) \<notin> objects st \<and> clients st' = insert (c, a) (clients st))"

definition grow_ok :: "nat \<Rightarrow> slab_state \<Rightarrow> bool \<Rightarrow> slab_state \<Rightarrow> bool" where
  "grow_ok c st g st' \<longleftrightarrow> slab_ok st' \<and> same_setup st st' \<and> pool st' = pool st \<and> mem_kept (clients st) st st' \<and> clients st' = clients st
     \<and> objects st \<subseteq> objects st' \<and> eflags (smach st') = eflags (smach st)
     \<and> (if g then \<exists>s ss. slabs_notfull (slab_cache st' c) = s # ss \<and> busy st' {s} else busy st' {})"

lemma irq_notfull: "irq_save st = (fl, st1) \<Longrightarrow> irq_restore fl (add_notfull c s st1) = add_notfull c s st"
  by (auto simp: irq_save_def irq_restore_def local_irq_save_def local_irq_restore_def add_notfull_def upd_cache_def Let_def)

text \<open>The last steps, with the pages and the control block at hand.\<close>

lemma set_up_grow:
  assumes ok: "slab_ok st" and c: "c < SLAB_CACHE_NUM" and b: "busy st {}" and sn: "\<And>d. d < SLAB_CACHE_NUM \<Longrightarrow> s \<notin> slabs_of st d"
    and R: "region_ok (phys (smach st)) p (2 ^ page_order (slab_cache st c))" "{p..<p + 2 ^ page_order (slab_cache st c)} \<inter> pool st = {}"
    and pl: "if off_slab (slab_cache st c) then (the (slab_cachep (slab_cache st c)), s) \<in> objects st else s = of_nat (kva p)"
    and bd: "unat s + (24 + 4 * cap (slab_cache st c)) \<le> 0xF8000000"
    and st': "st' = set_up c p s (of_nat (kva p)) st"
  shows "slab_ok st'" "same_setup st st'" "pool st' = pool st \<union> {p..<p + 2 ^ page_order (slab_cache st c)}" "objects st' = objects st"
    "clients st' = {(d, a) \<in> clients st. off_slab (slab_cache st c) \<longrightarrow> a \<noteq> s}" "mem_kept (clients st') st st'"
    "\<exists>ss. slabs_notfull (slab_cache st' c) = s # ss" "busy st' {s}" "eflags (smach st') = eflags (smach st)"
proof -
  note S = set_up_ok [OF ok c _ R pl bd st']
  have sn': "\<And>d. d < SLAB_CACHE_NUM \<Longrightarrow> s \<notin> slabs_of st d" by (rule sn)
  show so: "slab_ok st'" and su: "same_setup st st'" and ob: "objects st' = objects st" by (rule S(1) S(8) S(2); rule sn; assumption)+
  have co: "controls st' = (if off_slab (slab_cache st c) then insert s (controls st) else controls st)" by (rule S(3); rule sn; assumption)
  have sl: "slabs_of st' d = (if d = c then insert s (slabs_of st c) else slabs_of st d)" for d by (rule S(6); rule sn; assumption)
  have sp: "slab_pages st' = slab_pages st \<union> {p..<p + 2 ^ page_order (slab_cache st c)}" by (rule S(4); rule sn; assumption)
  have fr: "free_set (phys (smach st')) = free_set (phys (smach st))" by (rule S(5); rule sn; assumption)
  have iu: "inuse st' u = inuse st u" if "d < SLAB_CACHE_NUM" "u \<in> slabs_of st d" for d u by (rule S(7) [OF _ that]; rule sn; assumption)
  have nf: "slabs_notfull (slab_cache st' c) = s # slabs_notfull (slab_cache st c)" by (rule S(9); rule sn; assumption)
  have me: "mem st' x = mem st x" if "unat x \<notin> {unat s..<unat s + (24 + 4 * cap (slab_cache st c))}" for x by (rule S(10) [OF _ that]; rule sn; assumption)
  show "pool st' = pool st \<union> {p..<p + 2 ^ page_order (slab_cache st c)}" unfolding pool_def sp fr by blast
  show "clients st' = {(d, a) \<in> clients st. off_slab (slab_cache st c) \<longrightarrow> a \<noteq> s}" unfolding clients_def ob co by auto
  show "\<exists>ss. slabs_notfull (slab_cache st' c) = s # ss" using nf by blast
  show "busy st' {s}" using b iu unfolding busy_def sl by auto
  have "s \<in> slabs_of st' c" by (simp add: sl)
  then have dj: "{unat a..<unat a + osize (slab_cache st d)} \<inter> {unat s..<unat s + (24 + 4 * cap (slab_cache st c))} = {}" if "(d, a) \<in> clients st'" for d a
    using client_ctrl_disjoint [OF so that c] by (simp add: ctrl_def setup_fields [OF su])
  show "mem_kept (clients st') st st'" unfolding mem_kept_def
  proof (intro allI impI)
    fix d a and x :: u32
    assume "(d, a) \<in> clients st'" "unat x \<in> {unat a..<unat a + osize (slab_cache st d)}"
    then have "unat x \<notin> {unat s..<unat s + (24 + 4 * cap (slab_cache st c))}" using dj [of d a] by blast
    then show "mem st' x = mem st x" by (rule me)
  qed
  show "eflags (smach st') = eflags (smach st)"
  proof -
    have "0 < cap (slab_cache st c)" using slab_okD(1) [OF ok c] by (simp add: cache_ok_def)
    then show ?thesis unfolding st' set_up_def add_notfull_def using link_objs_mem(4) [of s _ c] bd by (simp add: fold_claim)
  qed
qed

lemma grow_on:
  assumes ok: "slab_ok st" and c: "c < SLAB_CACHE_NUM" "\<not> off_slab (slab_cache st c)" and b: "busy st {}"
  shows "\<exists>g st'. kmem_cache_grow alloc c st = Some (g, st') \<and> grow_ok c st g st'
    \<and> (g \<longleftrightarrow> \<not> (\<exists>b. buddy_alloc_pages (2 ^ page_order (slab_cache st c)) (phys (smach st)) = Some (None, b)))"
proof -
  let ?k = "slab_cache st c" and ?n = "2 ^ page_order (slab_cache st c)" and ?b = "phys (smach st)"
  have cok: "cache_ok (slab_cache st) c" by (rule slab_okD(1) [OF ok c(1)])
  have n: "(2::nat) ^ page_order ?k \<le> 2 ^ MAX_ORDER" using cok by (intro power_increasing) (auto simp: cache_ok_def)
  have bi: "buddy_inv ?b" using ok by (simp add: slab_ok_def)
  show ?thesis
  proof (rule bs.take_run [OF bi _ n])
    assume no: "buddy_alloc_pages ?n ?b = Some (None, ?b)"
    then have "kmem_cache_grow alloc c st = Some (False, st)" by (simp add: kmem_cache_grow_def alloc_pages_eq)
    then show ?thesis using ok b no by (auto simp: grow_ok_def)
  next
    fix p b'
    assume a: "buddy_alloc_pages ?n ?b = Some (Some p, b')" "buddy_inv b'" "region_ok b' = region_ok ?b" "region_ok ?b p ?n"
      "{p..<p + ?n} \<subseteq> free_set ?b" "free_set b' = free_set ?b - {p..<p + ?n}" "npage b' = npage ?b" "p + ?n \<le> npage ?b"
      "\<And>q. q \<notin> free_set ?b \<Longrightarrow> PageSlab (pages b' q) = PageSlab (pages ?b q)"
    let ?m = "(smach st)\<lparr>phys := b'\<rparr>" let ?st = "st\<lparr>smach := ?m\<rparr>"
    have u: "slab_pages st \<inter> free_set ?b = {}" by (rule slab_pages_used [OF ok])
    have fr: "free_set (phys ?m) \<inter> slab_pages st = {}" using u a(6) by auto
    have pk: "PageSlab (pages (phys ?m) q) = PageSlab (pages ?b q)" if "q \<in> slab_pages st" for q using u that a(9) by auto
    have ok1: "slab_ok ?st" and su1: "same_setup st ?st" using phys_step [OF ok, of ?m] a(2,3,7) fr pk by simp_all
    have R: "{p..<p + ?n} \<inter> pool ?st = {}" using u a(5,6) by (auto simp: pool_def)
    have "p < npage (phys (smach ?st))" using a(7,8) less_le_trans [of p "p + ?n"] by simp
    note kv = page_kva_eq [OF ok1 this]
    let ?s = "of_nat (kva p) :: u32"
    have np: "npage ?b \<le> 0x38000" using ok by (simp add: slab_ok_def)
    have us: "unat ?s = kva p" using a(8) np by (intro unat_word_of_nat) (simp add: kva_def)
    have sz: "24 + 4 * cap ?k \<le> unat (offset ?k)" "unat (offset ?k) + cap ?k * osize ?k \<le> 4096 * ?n" using cok c(2) by (auto simp: cache_ok_def)
    have bd: "unat ?s + (24 + 4 * cap (slab_cache ?st c)) \<le> 0xF8000000" using sz a(8) np us by (simp add: kva_def)
    have sn: "?s \<notin> slabs_of ?st d" if "d < SLAB_CACHE_NUM" for d
    proof
      assume "?s \<in> slabs_of ?st d"
      then have "(unat ?s - 0xC0000000) div 4096 \<in> slab_pages ?st" by (intro place_pages [OF ok1 control_place [OF ok1 that]]) auto
      then have "p \<in> pool ?st" unfolding us by (simp add: kva_def pool_def)
      moreover have "p \<in> {p..<p + ?n}" by simp
      ultimately show False using R by blast
    qed
    have "kmem_cache_slabmgmt alloc c p ?st = Some (Some ?s, store (?s + 8) (?s + offset ?k) (store (?s + 16) (offset ?k) (store (?s + 12) 0 ?st)))"
      unfolding kmem_cache_slabmgmt_def kv using c(2) by (simp add: Let_def kv)
    then have eq: "kmem_cache_grow alloc c st = Some (True, set_up c p ?s ?s ?st)"
      using a(1) by (simp add: kmem_cache_grow_def alloc_pages_eq set_up_def Let_def irq_notfull split: prod.split)
    note S = set_up_grow [OF ok1 c(1) _ _ _ _ _ bd refl]
    have pre: "busy ?st {}" "region_ok (phys (smach ?st)) p (2 ^ page_order (slab_cache ?st c))" "{p..<p + 2 ^ page_order (slab_cache ?st c)} \<inter> pool ?st = {}"
      "if off_slab (slab_cache ?st c) then (the (slab_cachep (slab_cache ?st c)), ?s) \<in> objects ?st else ?s = of_nat (kva p)"
      using b a(3,4) R c(2) by simp_all
    have t: "slab_ok (set_up c p ?s ?s ?st)" "same_setup ?st (set_up c p ?s ?s ?st)" "pool (set_up c p ?s ?s ?st) = pool ?st \<union> {p..<p + ?n}" "objects (set_up c p ?s ?s ?st) = objects st"
      "clients (set_up c p ?s ?s ?st) = clients st" "mem_kept (clients (set_up c p ?s ?s ?st)) st (set_up c p ?s ?s ?st)"
      "\<exists>ss. slabs_notfull (slab_cache (set_up c p ?s ?s ?st) c) = ?s # ss" "busy (set_up c p ?s ?s ?st) {?s}" "eflags (smach (set_up c p ?s ?s ?st)) = eflags (smach st)"
      using S(1) [OF pre(1) sn pre(2-4)] S(2) [OF pre(1) sn pre(2-4)] S(3) [OF pre(1) sn pre(2-4)] S(4) [OF pre(1) sn pre(2-4)] S(5) [OF pre(1) sn pre(2-4)]
        S(6) [OF pre(1) sn pre(2-4)] S(7) [OF pre(1) sn pre(2-4)] S(8) [OF pre(1) sn pre(2-4)] S(9) [OF pre(1) sn pre(2-4)] c(2) by simp_all
    have "pool (set_up c p ?s ?s ?st) = pool st" using t(3) a(5,6) by (auto simp: pool_def)
    then have "grow_ok c st True (set_up c p ?s ?s ?st)" using t same_setup_trans [OF su1 t(2)] unfolding grow_ok_def by auto
    then show ?thesis using eq a(1) by auto
  qed simp
qed

lemma clients_in_objects: "clients st \<subseteq> objects st"
  by (auto simp: clients_def)

lemma clients_objects_mono: "objects st \<subseteq> objects st' \<Longrightarrow> A \<subseteq> clients st \<Longrightarrow> A \<subseteq> objects st'"
  using clients_in_objects by blast

lemma grow_off:
  assumes ok: "slab_ok st" and c: "c < SLAB_CACHE_NUM" "off_slab (slab_cache st c)" "slab_cachep (slab_cache st c) = Some c1" and b: "busy st {}"
    and al: "\<And>st1. slab_ok st1 \<Longrightarrow> same_setup st st1 \<Longrightarrow> busy st1 {} \<Longrightarrow> \<exists>r st2. alloc c1 st1 = Some (r, st2) \<and> alloc_ok c1 st1 r st2 \<and> objects st1 \<subseteq> objects st2"
  shows "\<exists>g st'. kmem_cache_grow alloc c st = Some (g, st') \<and> grow_ok c st g st'
    \<and> (g \<longleftrightarrow> (\<exists>p b s st2. buddy_alloc_pages (2 ^ page_order (slab_cache st c)) (phys (smach st)) = Some (Some p, b)
          \<and> alloc c1 (st\<lparr>smach := (smach st)\<lparr>phys := b\<rparr>\<rparr>) = Some (Some s, st2)))"
proof -
  let ?k = "slab_cache st c" and ?n = "2 ^ page_order (slab_cache st c)" and ?b = "phys (smach st)"
  have cok: "cache_ok (slab_cache st) c" by (rule slab_okD(1) [OF ok c(1)])
  have n: "(2::nat) ^ page_order ?k \<le> 2 ^ MAX_ORDER" using cok by (intro power_increasing) (auto simp: cache_ok_def)
  have sz: "24 + 4 * cap ?k \<le> osize (slab_cache st c1)" using cok c(2,3) by (auto simp: cache_ok_def)
  have bi: "buddy_inv ?b" using ok by (simp add: slab_ok_def)
  show ?thesis
  proof (rule bs.take_run [OF bi _ n])
    assume no: "buddy_alloc_pages ?n ?b = Some (None, ?b)"
    then have "kmem_cache_grow alloc c st = Some (False, st)" by (simp add: kmem_cache_grow_def alloc_pages_eq)
    then show ?thesis using ok b no by (auto simp: grow_ok_def)
  next
    fix p b'
    assume a: "buddy_alloc_pages ?n ?b = Some (Some p, b')" "buddy_inv b'" "region_ok b' = region_ok ?b" "region_ok ?b p ?n"
      "{p..<p + ?n} \<subseteq> free_set ?b" "free_set b' = free_set ?b - {p..<p + ?n}" "npage b' = npage ?b" "p + ?n \<le> npage ?b"
      "\<And>q. q \<notin> free_set ?b \<Longrightarrow> PageSlab (pages b' q) = PageSlab (pages ?b q)"
    let ?m = "(smach st)\<lparr>phys := b'\<rparr>" let ?st = "st\<lparr>smach := ?m\<rparr>" and ?R = "{p..<p + ?n}"
    have u: "slab_pages st \<inter> free_set ?b = {}" by (rule slab_pages_used [OF ok])
    have fr: "free_set (phys ?m) \<inter> slab_pages st = {}" using u a(6) by auto
    have pk: "PageSlab (pages (phys ?m) q) = PageSlab (pages ?b q)" if "q \<in> slab_pages st" for q using u that a(9) by auto
    have ok1: "slab_ok ?st" and su1: "same_setup st ?st" using phys_step [OF ok, of ?m] a(2,3,7) fr pk by simp_all
    have R: "?R \<inter> pool ?st = {}" using u a(5,6) by (auto simp: pool_def)
    have pl: "pool st = pool ?st \<union> ?R" using a(5,6) by (auto simp: pool_def)
    have "p < npage (phys (smach ?st))" using a(7,8) less_le_trans [of p "p + ?n"] by simp
    note kv = page_kva_eq [OF ok1 this]
    obtain r st2 where r: "alloc c1 ?st = Some (r, st2)" "alloc_ok c1 ?st r st2" "objects ?st \<subseteq> objects st2" using al [OF ok1 su1] b by auto
    have ok2: "slab_ok st2" and su2: "same_setup ?st st2" and p2: "pool st2 = pool ?st" and b2: "busy st2 {}" and m2: "mem_kept (clients st) st st2"
      and e2: "eflags (smach st2) = eflags (smach st)" using r(2) by (simp_all add: alloc_ok_def)
    have su: "same_setup st st2" by (rule same_setup_trans [OF su1 su2])
    note f = setup_fields [OF su]
    have R2: "?R \<inter> pool st2 = {}" using R p2 by simp
    have rg: "region_ok (phys (smach st2)) p ?n" using su a(4) by (simp add: same_setup_def)
    show ?thesis
    proof (cases r)
      case None
      have "?R \<inter> free_set (phys (smach st2)) = {}" using R2 by (auto simp: pool_def)
      moreover have "buddy_inv (phys (smach st2))" using ok2 by (simp add: slab_ok_def)
      ultimately obtain b3 where b3: "buddy_free_pages p ?n (phys (smach st2)) = Some b3" "buddy_inv b3" "region_ok b3 = region_ok (phys (smach st2))"
        "free_set b3 = free_set (phys (smach st2)) \<union> ?R" "npage b3 = npage (phys (smach st2))"
        "\<And>q. q \<notin> ?R \<Longrightarrow> PageSlab (pages b3 q) = PageSlab (pages (phys (smach st2)) q)"
        using bs.give_run [OF _ rg _ _ n] by (metis zero_less_numeral zero_less_power)
      let ?m3 = "(smach st2)\<lparr>phys := b3\<rparr>"
      have sp: "slab_pages st2 \<inter> ?R = {}" using R2 by (auto simp: pool_def)
      have "slab_ok (st2\<lparr>smach := ?m3\<rparr>)" "same_setup st2 (st2\<lparr>smach := ?m3\<rparr>)"
        by (rule phys_step [OF ok2]; use b3 sp slab_pages_used [OF ok2] in auto)+
      moreover have "kmem_cache_grow alloc c st = Some (False, st2\<lparr>smach := ?m3\<rparr>)"
        using a(1) r(1) None c(2,3) b3(1) by (simp add: kmem_cache_grow_def alloc_pages_eq free_pages_eq kmem_cache_slabmgmt_def kv f)
      moreover have "pool (st2\<lparr>smach := ?m3\<rparr>) = pool st" using pl p2 b3(4) by (auto simp: pool_def)
      ultimately show ?thesis using a(1) r None b2 m2 e2 same_setup_trans [OF su] by (auto simp: grow_ok_def alloc_ok_def)
    next
      case (Some s)
      have cl: "(c1, s) \<notin> objects st" "clients st2 = insert (c1, s) (clients st)" using r(2) Some by (simp_all add: alloc_ok_def)
      then have so: "(c1, s) \<in> objects st2" "s \<notin> controls st2" by (auto simp: clients_def)
      have sn: "s \<notin> slabs_of st2 d" if "d < SLAB_CACHE_NUM" for d using client_not_slab [OF ok2 so that] by blast
      have "place st2 s (24 + 4 * cap (slab_cache st2 c))" using object_place [OF ok2 so(1)] place_mono sz f by metis
      then have bd: "unat s + (24 + 4 * cap (slab_cache st2 c)) \<le> 0xF8000000" using place_bound [OF ok2] by simp
      define st3 where "st3 = set_up c p s (of_nat (kva p)) st2"
      have "kmem_cache_slabmgmt alloc c p ?st = Some (Some s, store (s + 8) (of_nat (kva p) + offset (slab_cache st2 c)) (store (s + 16) (offset (slab_cache st2 c)) (store (s + 12) 0 st2)))"
        using c(2,3) r(1) Some by (simp add: kmem_cache_slabmgmt_def kv Let_def)
      then have eq: "kmem_cache_grow alloc c st = Some (True, st3)"
        using a(1) by (simp add: kmem_cache_grow_def alloc_pages_eq st3_def set_up_def Let_def irq_notfull split: prod.split)
      have pre: "region_ok (phys (smach st2)) p (2 ^ page_order (slab_cache st2 c))" "{p..<p + 2 ^ page_order (slab_cache st2 c)} \<inter> pool st2 = {}"
        "if off_slab (slab_cache st2 c) then (the (slab_cachep (slab_cache st2 c)), s) \<in> objects st2 else s = of_nat (kva p)"
        using rg R2 c(2,3) so(1) by (simp_all add: f)
      note S = set_up_grow [OF ok2 c(1) b2 sn pre bd st3_def]
      have t: "slab_ok st3" "same_setup st2 st3" "pool st3 = pool st2 \<union> ?R" "objects st3 = objects st2" "clients st3 = {(d, a) \<in> clients st2. a \<noteq> s}"
        "mem_kept (clients st3) st2 st3" "\<exists>ss. slabs_notfull (slab_cache st3 c) = s # ss" "busy st3 {s}" "eflags (smach st3) = eflags (smach st2)"
        using S(1) S(2) S(3) S(4) S(5) S(6) S(7) S(8) S(9) c(2) by (simp_all add: f)
      have cl3: "clients st3 = clients st"
      proof -
        have "a \<noteq> s" if "(d, a) \<in> clients st" for d a
        proof
          assume "a = s"
          then have "(d, s) \<in> objects st2" "(d, s) \<in> objects st" using that cl(2) clients_in_objects by blast+
          then show False using object_cache_unique [OF ok2 so(1)] cl(1) by blast
        qed
        then show ?thesis unfolding t(5) cl(2) by auto
      qed
      have "mem_kept (clients st) st st3" using mem_kept_trans [OF m2, of "clients st3" st3] t(6) cl3 su by simp
      moreover have "pool st3 = pool st" using t(3) p2 pl by simp
      ultimately have "grow_ok c st True st3" using t cl3 e2 r(3) same_setup_trans [OF su t(2)] by (auto simp: grow_ok_def)
      then show ?thesis using eq a(1) r(1) Some by blast
    qed
  qed simp
qed

section \<open>Allocation from a cache\<close>

lemma alloc_one_smach:
  "kmem_cache_alloc_one c s (st\<lparr>smach := m\<rparr>) = (fst (kmem_cache_alloc_one c s st), (snd (kmem_cache_alloc_one c s st))\<lparr>smach := m\<rparr>)"
  by (simp add: kmem_cache_alloc_one_def Let_def store_def s_mem_def s_free_def inuse_def add_full_def slab_del_def upd_cache_def)

lemma kmem_cache_alloc_eq:
  "kmem_cache_alloc c st = (case slabs_notfull (slab_cache st c) of
     s # _ \<Rightarrow> Some (Some (fst (kmem_cache_alloc_one c s st)), (snd (kmem_cache_alloc_one c s st))\<lparr>smach := smach st\<rparr>)
   | [] \<Rightarrow> do { (grown, st) \<leftarrow> kmem_cache_grow kmem_cache_alloc c st; if grown then kmem_cache_alloc c st else Some (None, st) })"
proof -
  have "irq_restore (eflags (smach st)) (st\<lparr>smach := (smach st)\<lparr>eflags := x\<rparr>\<rparr>) = st" for x by (simp add: irq_restore_def local_irq_restore_def)
  then show ?thesis
    by (subst kmem_cache_alloc.simps)
      (auto simp: irq_save_def irq_restore_def local_irq_save_def local_irq_restore_def Let_def alloc_one_smach split: list.split)
qed

text \<open>A slab with a free object: whatever other slabs are empty, this one is then in use.\<close>

lemma alloc_nonempty:
  assumes ok: "slab_ok st" and c: "c < SLAB_CACHE_NUM" and s: "slabs_notfull (slab_cache st c) = s # ss" and b: "busy st {s}"
  shows "\<exists>a st'. kmem_cache_alloc c st = Some (Some a, st') \<and> alloc_ok c st (Some a) st' \<and> objects st \<subseteq> objects st'"
proof -
  have sn: "s \<in> set (slabs_notfull (slab_cache st c))" using s by simp
  then have sl: "s \<in> slabs_of st c" by (simp add: slabs_of_def)
  obtain a st' where a: "kmem_cache_alloc_one c s st = (a, st')" "slab_ok st'" "same_setup st st'" "smach st' = smach st" "(c, a) \<notin> objects st"
    "objects st' = insert (c, a) (objects st)" "controls st' = controls st" "\<And>d. slabs_of st' d = slabs_of st d"
    "\<And>x. unat x \<notin> ctrl st c s \<Longrightarrow> mem st' x = mem st x" "inuse st' s \<noteq> 0"
    using alloc_one_ok [OF ok c sn] by blast
  have eq: "kmem_cache_alloc c st = Some (Some a, st')" using s a(1,4) by (simp add: kmem_cache_alloc_eq)
  have keep: "mem st' x = mem st x" if "c' < SLAB_CACHE_NUM" "u \<in> slabs_of st c'" "u \<noteq> s" "unat x \<in> ctrl st c' u" for c' u x
    using ctrl_disjoint [OF ok that(1,2) c sl that(3)] that(4) by (intro a(9)) blast
  have run: "inuse st' u = inuse st u \<and> run st' d u = run st d u" if d: "d < SLAB_CACHE_NUM" "u \<in> slabs_of st d" "u \<noteq> s" for d u
  proof -
    have m: "\<forall>x. unat x \<in> {unat u..<unat u + (24 + 4 * cap (slab_cache st d))} \<longrightarrow> mem st' x = mem st x" using keep [OF d] by (simp add: ctrl_def)
    show ?thesis using slab_fields_cong [OF ctrl_bound [OF ok d(1,2)] m] by (simp add: run_def slab_page_def setup_fields [OF a(3)])
  qed
  have bu: "busy st' {}" unfolding busy_def a(8)
  proof (intro allI impI ballI)
    fix d u
    assume "d < SLAB_CACHE_NUM" "u \<in> slabs_of st d" "u \<notin> {}"
    then show "inuse st' u \<noteq> 0" using a(10) b run by (cases "u = s") (auto simp: busy_def)
  qed
  have "(c, a) \<in> objects st'" using a(6) by simp
  have an: "a \<notin> controls st"
  proof
    assume "a \<in> controls st"
    then obtain d where d: "d < SLAB_CACHE_NUM" "off_slab (slab_cache st d)" "a \<in> slabs_of st d" by (auto simp: controls_def)
    then have "(the (slab_cachep (slab_cache st d)), a) \<in> objects st" using slab_okD(2) [OF ok d(1,3)] by (simp add: slab_wf_def)
    then show False using object_cache_unique [OF a(2) \<open>(c, a) \<in> objects st'\<close>] a(5,6) by blast
  qed
  have cl: "clients st' = insert (c, a) (clients st)" using an unfolding clients_def a(6,7) by auto
  have mk: "mem_kept (clients st) st st'" unfolding mem_kept_def
  proof (intro allI impI)
    fix d b and x :: u32
    assume "(d, b) \<in> clients st" "unat x \<in> {unat b..<unat b + osize (slab_cache st d)}"
    then have "unat x \<notin> ctrl st c s" using client_ctrl_disjoint [OF ok _ c sl] by blast
    then show "mem st' x = mem st x" by (rule a(9))
  qed
  have "run st' c s = run st c s"
  proof -
    have "slab_core st' c s" by (rule slab_okD(3) [OF a(2) c]) (simp add: a(8) sl)
    have "unat (s + 8) \<in> {unat s + 8}" "unat (s + 16) = unat s + 16" using header_addrs [OF ctrl_bound [OF ok c sl]] by simp_all
    have "s_mem st' s = s_mem st s" "s_offset st' s = s_offset st s"
      using a(1) by (auto simp: kmem_cache_alloc_one_def Let_def s_mem_def s_offset_def s_free_def inuse_def add_full_def slab_del_def split: if_splits)
    then show ?thesis by (simp add: run_def slab_page_def setup_fields [OF a(3)])
  qed
  then have "run st' d u = run st d u" if "d < SLAB_CACHE_NUM" "u \<in> slabs_of st d" for d u
    using run [OF that] slab_cache_unique [OF ok that c] sl by (cases "u = s") auto
  then have "slab_pages st' = slab_pages st" by (simp add: slab_pages_def a(8))
  then have "pool st' = pool st" by (simp add: pool_def a(4))
  then show ?thesis using eq a(2-6) cl mk bu by (auto simp: alloc_ok_def)
qed

lemma alloc_via_grow:
  assumes ok: "slab_ok st" and c: "c < SLAB_CACHE_NUM" and b: "busy st {}"
    and g: "slabs_notfull (slab_cache st c) = [] \<Longrightarrow> \<exists>g st'. kmem_cache_grow kmem_cache_alloc c st = Some (g, st') \<and> grow_ok c st g st' \<and> (g \<longleftrightarrow> G)"
  shows "\<exists>r st'. kmem_cache_alloc c st = Some (r, st') \<and> alloc_ok c st r st' \<and> objects st \<subseteq> objects st' \<and> (r = None \<longleftrightarrow> slabs_notfull (slab_cache st c) = [] \<and> \<not> G)"
proof (cases "slabs_notfull (slab_cache st c)")
  case (Cons s ss)
  have "busy st {s}" using b by (auto simp: busy_def)
  then show ?thesis using alloc_nonempty [OF ok c Cons] Cons by fastforce
next
  case Nil
  obtain g st1 where g: "kmem_cache_grow kmem_cache_alloc c st = Some (g, st1)" "grow_ok c st g st1" "g \<longleftrightarrow> G" using g [OF Nil] by blast
  have s1: "slab_ok st1" "same_setup st st1" "pool st1 = pool st" "mem_kept (clients st) st st1" "clients st1 = clients st" "objects st \<subseteq> objects st1"
    "eflags (smach st1) = eflags (smach st)" using g(2) by (simp_all add: grow_ok_def)
  show ?thesis
  proof (cases g)
    case True
    then obtain s ss where s: "slabs_notfull (slab_cache st1 c) = s # ss" "busy st1 {s}" using g(2) by (auto simp: grow_ok_def)
    obtain a st2 where a: "kmem_cache_alloc c st1 = Some (Some a, st2)" "alloc_ok c st1 (Some a) st2" "objects st1 \<subseteq> objects st2"
      using alloc_nonempty [OF s1(1) c s] by blast
    have "kmem_cache_alloc c st = Some (Some a, st2)" using Nil g(1) True a(1) by (subst kmem_cache_alloc_eq) simp
    moreover have "alloc_ok c st (Some a) st2"
      using a(2) s1 same_setup_trans [OF s1(2)] mem_kept_trans [OF s1(4), of "clients st1" st2] by (auto simp: alloc_ok_def)
    ultimately show ?thesis using a(3) s1(6) g(3) True by blast
  next
    case False
    then have "kmem_cache_alloc c st = Some (None, st1)" using Nil g(1) by (subst kmem_cache_alloc_eq) simp
    moreover have "alloc_ok c st None st1" using g(2) False s1 by (simp add: alloc_ok_def grow_ok_def)
    ultimately show ?thesis using s1(6) g(3) False Nil by blast
  qed
qed

text \<open>When a cache cannot give an object: it has none free, and no pages for a new slab or its control block.\<close>

definition no_pages :: "nat \<Rightarrow> buddy \<Rightarrow> slab_state \<Rightarrow> bool" where
  "no_pages c b st \<longleftrightarrow> (\<exists>b'. buddy_alloc_pages (2 ^ page_order (slab_cache st c)) b = Some (None, b'))"

definition exhausted :: "nat \<Rightarrow> slab_state \<Rightarrow> bool" where
  "exhausted c st \<longleftrightarrow> slabs_notfull (slab_cache st c) = [] \<and> (no_pages c (phys (smach st)) st
     \<or> off_slab (slab_cache st c) \<and> (\<exists>p b c1. buddy_alloc_pages (2 ^ page_order (slab_cache st c)) (phys (smach st)) = Some (Some p, b)
         \<and> slab_cachep (slab_cache st c) = Some c1 \<and> slabs_notfull (slab_cache st c1) = [] \<and> no_pages c1 b st))"

lemma alloc_on:
  assumes "slab_ok st" "c < SLAB_CACHE_NUM" "\<not> off_slab (slab_cache st c)" "busy st {}"
  shows "\<exists>r st'. kmem_cache_alloc c st = Some (r, st') \<and> alloc_ok c st r st' \<and> objects st \<subseteq> objects st'
    \<and> (r = None \<longleftrightarrow> slabs_notfull (slab_cache st c) = [] \<and> no_pages c (phys (smach st)) st)"
  using alloc_via_grow [OF assms(1,2,4) grow_on [OF assms]] by (simp add: no_pages_def)

lemma kmem_cache_alloc_ok:
  assumes ok: "slab_ok st" and c: "c < SLAB_CACHE_NUM" and b: "busy st {}"
  shows "\<exists>r st'. kmem_cache_alloc c st = Some (r, st') \<and> alloc_ok c st r st' \<and> (r = None \<longleftrightarrow> exhausted c st)"
proof (cases "off_slab (slab_cache st c)")
  case False
  then show ?thesis using alloc_on [OF ok c False b] by (auto simp: exhausted_def)
next
  case True
  then obtain c1 where c1: "c1 < SLAB_CACHE_NUM" "slab_cachep (slab_cache st c) = Some c1" "\<not> off_slab (slab_cache st c1)"
    using slab_okD(1) [OF ok c] by (auto simp: cache_ok_def)
  let ?G = "\<exists>p b s st2. buddy_alloc_pages (2 ^ page_order (slab_cache st c)) (phys (smach st)) = Some (Some p, b)
    \<and> kmem_cache_alloc c1 (st\<lparr>smach := (smach st)\<lparr>phys := b\<rparr>\<rparr>) = Some (Some s, st2)"
  have on: "\<exists>r st2. kmem_cache_alloc c1 st1 = Some (r, st2) \<and> alloc_ok c1 st1 r st2 \<and> objects st1 \<subseteq> objects st2"
    if "slab_ok st1" "same_setup st st1" "busy st1 {}" for st1
    using alloc_on [OF that(1) c1(1) _ that(3)] c1(3) setup_fields [OF that(2)] by auto
  have "\<exists>r st'. kmem_cache_alloc c st = Some (r, st') \<and> alloc_ok c st r st' \<and> objects st \<subseteq> objects st' \<and> (r = None \<longleftrightarrow> slabs_notfull (slab_cache st c) = [] \<and> \<not> ?G)"
    by (rule alloc_via_grow [OF ok c b]) (rule grow_off [where alloc = kmem_cache_alloc, OF ok c True c1(2) b on])
  moreover have "slabs_notfull (slab_cache st c) = [] \<and> \<not> ?G \<longleftrightarrow> exhausted c st"
  proof -
    have n: "(2::nat) ^ page_order (slab_cache st c) \<le> 2 ^ MAX_ORDER" using slab_okD(1) [OF ok c] by (intro power_increasing) (auto simp: cache_ok_def)
    have "buddy_inv (phys (smach st))" using ok by (simp add: slab_ok_def)
    then show ?thesis
    proof (rule bs.take_run [OF _ _ n])
      assume "buddy_alloc_pages (2 ^ page_order (slab_cache st c)) (phys (smach st)) = Some (None, phys (smach st))"
      then show ?thesis by (auto simp: exhausted_def no_pages_def)
    next
      fix p b'
      assume a: "buddy_alloc_pages (2 ^ page_order (slab_cache st c)) (phys (smach st)) = Some (Some p, b')" "buddy_inv b'" "region_ok b' = region_ok (phys (smach st))"
        "npage b' = npage (phys (smach st))" "free_set b' = free_set (phys (smach st)) - {p..<p + 2 ^ page_order (slab_cache st c)}"
        "\<And>q. q \<notin> free_set (phys (smach st)) \<Longrightarrow> PageSlab (pages b' q) = PageSlab (pages (phys (smach st)) q)"
      let ?st = "st\<lparr>smach := (smach st)\<lparr>phys := b'\<rparr>\<rparr>"
      have u: "slab_pages st \<inter> free_set (phys (smach st)) = {}" by (rule slab_pages_used [OF ok])
      have "slab_ok ?st" by (rule phys_step(1) [OF ok]) (use a u in auto)
      then obtain r st2 where "kmem_cache_alloc c1 ?st = Some (r, st2)" "r = None \<longleftrightarrow> slabs_notfull (slab_cache st c1) = [] \<and> no_pages c1 b' ?st"
        using alloc_on [of ?st c1] c1 b by auto
      then show ?thesis using a(1) True c1(2) by (cases r) (auto simp: exhausted_def no_pages_def)
    qed simp
  qed
  ultimately show ?thesis by blast
qed

end
