(* ===== verification/SlabFree.thy ===== *)
theory SlabFree
  imports SlabAlloc
begin

text \<open>
  Release: putting an object back, destroying a slab without objects, and \<^verbatim>\<open>kmem_cache_free\<close> with its mutual
  recursion.
\<close>

section \<open>Releasing an object\<close>

text \<open>The control block after an object \<open>i\<close> is put in front of the free chain.\<close>

definition pushed :: "u32 \<Rightarrow> nat \<Rightarrow> slab_state \<Rightarrow> slab_state" where
  "pushed s i st = store (s + 12) (inuse st s - 1) (store (s + 20) (of_nat i) (store (slab_bufctl s (of_nat i)) (s_free st s) st))"

lemma pushed_simps [simp]:
  "slab_cache (pushed s i st) = slab_cache st" "smach (pushed s i st) = smach st" "page_cache (pushed s i st) = page_cache st" "page_slab (pushed s i st) = page_slab st"
  by (simp_all add: pushed_def)

lemma bufctl_distinct:
  assumes bd: "unat s + (24 + 4 * n) \<le> 0xF8000000" and j: "j < n"
  shows "slab_bufctl s (of_nat j) \<noteq> s + 8" "slab_bufctl s (of_nat j) \<noteq> s + 12" "slab_bufctl s (of_nat j) \<noteq> s + 16" "slab_bufctl s (of_nat j) \<noteq> s + 20"
    "i < n \<Longrightarrow> i \<noteq> j \<Longrightarrow> slab_bufctl s (of_nat j) \<noteq> slab_bufctl s (of_nat i)"
proof -
  have "unat (slab_bufctl s (of_nat j)) \<noteq> unat (s + 8)" "unat (slab_bufctl s (of_nat j)) \<noteq> unat (s + 12)" "unat (slab_bufctl s (of_nat j)) \<noteq> unat (s + 16)"
    "unat (slab_bufctl s (of_nat j)) \<noteq> unat (s + 20)" unfolding bufctl_addr [OF bd j] header_addrs [OF bd] by simp_all
  then show "slab_bufctl s (of_nat j) \<noteq> s + 8" "slab_bufctl s (of_nat j) \<noteq> s + 12" "slab_bufctl s (of_nat j) \<noteq> s + 16" "slab_bufctl s (of_nat j) \<noteq> s + 20" by metis+
  show "slab_bufctl s (of_nat j) \<noteq> slab_bufctl s (of_nat i)" if "i < n" "i \<noteq> j"
  proof -
    have "unat (slab_bufctl s (of_nat j)) \<noteq> unat (slab_bufctl s (of_nat i))" unfolding bufctl_addr [OF bd j] bufctl_addr [OF bd that(1)] using that(2) by simp
    then show ?thesis by metis
  qed
qed

lemma pushed_fields:
  assumes bd: "unat s + (24 + 4 * n) \<le> 0xF8000000" and i: "i < n"
  shows "s_mem (pushed s i st) s = s_mem st s" "s_offset (pushed s i st) s = s_offset st s" "inuse (pushed s i st) s = inuse st s - 1" "s_free (pushed s i st) s = of_nat i"
    "mem (pushed s i st) (slab_bufctl s (of_nat i)) = s_free st s"
    "unat x \<notin> {unat s..<unat s + (24 + 4 * n)} \<Longrightarrow> mem (pushed s i st) x = mem st x"
    "j < n \<Longrightarrow> j \<noteq> i \<Longrightarrow> mem (pushed s i st) (slab_bufctl s (of_nat j)) = mem st (slab_bufctl s (of_nat j))"
proof -
  note h = header_addrs [OF bd] and b = bufctl_addr [OF bd i]
  note ne = bufctl_distinct [OF bd]
  show "s_mem (pushed s i st) s = s_mem st s" "s_offset (pushed s i st) s = s_offset st s" "inuse (pushed s i st) s = inuse st s - 1" "s_free (pushed s i st) s = of_nat i"
    "mem (pushed s i st) (slab_bufctl s (of_nat i)) = s_free st s"
    using ne [OF i] by (simp_all add: pushed_def s_mem_def s_offset_def inuse_def s_free_def)
  show "mem (pushed s i st) x = mem st x" if "unat x \<notin> {unat s..<unat s + (24 + 4 * n)}"
  proof -
    have "x \<noteq> s + 12" "x \<noteq> s + 20" "x \<noteq> slab_bufctl s (of_nat i)" using that h b i by auto
    then show ?thesis by (simp add: pushed_def)
  qed
  show "mem (pushed s i st) (slab_bufctl s (of_nat j)) = mem st (slab_bufctl s (of_nat j))" if "j < n" "j \<noteq> i"
  proof -
    show ?thesis using ne(1-4) [OF that(1)] ne(5) [OF that(1) i] that(2) by (simp add: pushed_def)
  qed
qed

text \<open>An object in use and its slab.\<close>

definition in_slab :: "slab_state \<Rightarrow> nat \<Rightarrow> u32 \<Rightarrow> nat \<Rightarrow> u32 \<Rightarrow> bool" where
  "in_slab st c s i a \<longleftrightarrow> slab_ok st \<and> c < SLAB_CACHE_NUM \<and> s \<in> slabs_of st c \<and> i < cap (slab_cache st c) \<and> i \<notin> set (free_objs st c s) \<and> a = obj st c s i"

lemma in_slabD:
  assumes "in_slab st c s i a"
  shows "slab_ok st" "c < SLAB_CACHE_NUM" "s \<in> slabs_of st c" "i < cap (slab_cache st c)" "i \<notin> set (free_objs st c s)" "a = obj st c s i" "slab_core st c s"
    "unat s + (24 + 4 * cap (slab_cache st c)) \<le> 0xF8000000"
  using assms slab_okD(3) ctrl_bound by (auto simp: in_slab_def)

lemma push_core:
  assumes "in_slab st c s i a" "same_setup st st'" "mem st' = mem (pushed s i st)" "smach st' = smach st" "page_cache st' = page_cache st" "page_slab st' = page_slab st"
  shows "slab_core st' c s" "free_objs st' c s = i # free_objs st c s" "slab_page st' s = slab_page st s" "obj st' c s j = obj st c s j"
    "unat (inuse st' s) = unat (inuse st s) - 1" "0 < unat (inuse st s)" "objs_of st' c s = objs_of st c s - {a}"
proof -
  let ?n = "cap (slab_cache st c)" and ?fs = "free_objs st c s"
  note d = in_slabD [OF assms(1)] and pf = pushed_fields [OF in_slabD(8) [OF assms(1)] in_slabD(4) [OF assms(1)], where st = st]
  note sm = same_fields_mem [OF assms(3)]
  have hd: "s_mem st' s = s_mem st s" "s_offset st' s = s_offset st s" "inuse st' s = inuse st s - 1" "s_free st' s = of_nat i" using sm pf(1-4) by simp_all
  have core: "chain (mem st) s (s_free st s) ?fs" "distinct ?fs" "set ?fs \<subseteq> {..<?n}" "unat (inuse st s) + length ?fs = ?n" using d(7) by (auto simp: slab_core_def)
  have "length ?fs < ?n"
  proof -
    have "set (i # ?fs) \<subseteq> {..<?n}" "distinct (i # ?fs)" using core d(4,5) by auto
    then have "length (i # ?fs) \<le> card {..<?n}" by (metis card_mono distinct_card finite_lessThan)
    then show ?thesis by simp
  qed
  then show pos: "0 < unat (inuse st s)" using core(4) by simp
  then have "1 \<le> inuse st s" by (simp add: word_le_nat_alt)
  then have um: "unat (inuse st s - 1) = unat (inuse st s) - 1" by (simp add: unat_sub)
  then show "unat (inuse st' s) = unat (inuse st s) - 1" by (simp add: hd)
  have "chain (mem st') s (s_free st s) ?fs" unfolding assms(3)
  proof (rule chain_cong [OF core(1) d(8), where W = "{s + 12, s + 20, slab_bufctl s (of_nat i)}"])
    show "\<forall>j\<in>set ?fs. j < ?n" using core(3) by auto
    show "mem (pushed s i st) x = mem st x" if "x \<notin> {s + 12, s + 20, slab_bufctl s (of_nat i)}" for x using that by (simp add: pushed_def)
    fix j
    assume j: "j \<in> set ?fs"
    then have "j < ?n" "i \<noteq> j" using core(3) d(5) by auto
    then show "slab_bufctl s (of_nat j) \<notin> {s + 12, s + 20, slab_bufctl s (of_nat i)}"
      using bufctl_distinct(2,4) [OF d(8), of j] bufctl_distinct(5) [OF d(8), of j, OF _ d(4)] by blast
  qed
  then have ch: "chain (mem st') s (s_free st' s) (i # ?fs)" using pf(5) by (simp add: hd assms(3))
  have l: "distinct (i # ?fs)" "set (i # ?fs) \<subseteq> {..<?n}" "unat (inuse st' s) + length (i # ?fs) = ?n" using core d(4,5) um pos by (simp_all add: hd)
  note R = core_relink [OF d(7) assms(2) d(8) hd(1,2) _ _ assms(5,6) ch l]
  show "slab_core st' c s" "free_objs st' c s = i # ?fs" "slab_page st' s = slab_page st s" using R(1-3) assms(4) by simp_all
  have ob: "obj st' c s j = obj st c s j" for j using R(4) assms(4) by simp
  then show "obj st' c s j = obj st c s j" .
  show "objs_of st' c s = objs_of st c s - {a}"
  proof -
    have "obj st c s j \<noteq> a" if "j < ?n" "j \<noteq> i" for j using obj_inj [OF d(1,2,7) that(1) d(4)] that(2) d(6) by blast
    then show ?thesis unfolding objs_of_def ob \<open>free_objs st' c s = i # ?fs\<close> setup_fields [OF assms(2)] d(6) by auto
  qed
qed

lemma push_others:
  assumes "in_slab st c s i a" "mem st' = mem (pushed s i st)" "d < SLAB_CACHE_NUM" "u \<in> slabs_of st d" "u \<noteq> s" "unat x \<in> ctrl st d u"
  shows "mem st' x = mem st x"
proof -
  note z = in_slabD [OF assms(1)]
  have "unat x \<notin> ctrl st c s" using ctrl_disjoint [OF z(1) assms(3,4) z(2,3) assms(5)] assms(6) by blast
  then show ?thesis unfolding assms(2) by (intro pushed_fields(6) [OF z(8) z(4)]) (simp add: ctrl_def)
qed

lemma push_clients:
  assumes "in_slab st c s i a" "mem st' = mem (pushed s i st)"
  shows "mem_kept (clients st) st st'"
  unfolding mem_kept_def
proof (intro allI impI)
  note z = in_slabD [OF assms(1)]
  fix d b and x :: u32
  assume "(d, b) \<in> clients st" "unat x \<in> {unat b..<unat b + osize (slab_cache st d)}"
  then have "unat x \<notin> ctrl st c s" using client_ctrl_disjoint [OF z(1) _ z(2,3)] by blast
  then show "mem st' x = mem st x" unfolding assms(2) by (intro pushed_fields(6) [OF z(8) z(4)]) (simp add: ctrl_def)
qed

text \<open>Other objects of the slab stay in use.\<close>

lemma free_push:
  assumes a: "in_slab st c s i a" "a \<notin> controls st" "busy st {}" and u: "unat (inuse st s) \<noteq> 1"
    and st': "st' = (if free_objs st c s = [] then add_notfull c s (slab_del c s (pushed s i st)) else pushed s i st)"
  shows "slab_ok st'" "same_setup st st'" "pool st' = pool st" "busy st' {}" "objects st' = objects st - {(c, a)}" "controls st' = controls st"
    "mem_kept (clients st) st st'" "smach st' = smach st"
proof -
  note z = in_slabD [OF a(1)]
  let ?k = "slab_cache st c"
  have me: "mem st' = mem (pushed s i st)" "smach st' = smach st" "page_cache st' = page_cache st" "page_slab st' = page_slab st"
    by (simp_all add: st' add_notfull_def slab_del_def)
  have ca: "slab_cache st' = (if free_objs st c s = [] then (slab_cache st)(c := ?k\<lparr>slabs_full := remove1 s (slabs_full ?k), slabs_notfull := s # remove1 s (slabs_notfull ?k)\<rparr>) else slab_cache st)"
    by (simp add: st' add_notfull_def slab_del_def)
  show su: "same_setup st st'" by (auto simp: same_setup_def ca me conf_def)
  note P = push_core [OF a(1) su me]
  have w: "slab_wf st c s" by (rule slab_okD(2) [OF z(1-3)])
  have dl: "distinct (slabs_full ?k @ slabs_notfull ?k)" by (rule slab_okD(4) [OF z(1,2)])
  have full: "s \<in> set (slabs_full ?k)" "s \<notin> set (slabs_notfull ?k)" if "free_objs st c s = []" using w z(3) that by (auto simp: slab_wf_def slabs_of_def)
  have so: "slabs_of st' d = slabs_of st d" for d using full dl by (auto simp: slabs_of_def ca set_remove1_eq remove1_idem)
  have ls: "slabs_of st' d = slabs_of st d \<and> distinct (slabs_full (slab_cache st' d) @ slabs_notfull (slab_cache st' d))" if "d < SLAB_CACHE_NUM" for d
    using so [of d] dl full slab_okD(4) [OF z(1) that] by (auto simp: ca remove1_idem set_remove1_eq)
  have oth: "keeps_slab st st' d v \<and> (v \<in> set (slabs_notfull (slab_cache st' d)) \<longleftrightarrow> v \<in> set (slabs_notfull (slab_cache st d)))"
    if d: "d < SLAB_CACHE_NUM" "v \<in> slabs_of st d" "(d, v) \<noteq> (c, s)" for d v
  proof -
    have vs: "v \<noteq> s" using slab_cache_unique [OF z(1-3) d(1)] d by auto
    have "run st d v \<inter> free_set (phys (smach st)) = {}" using slab_okD(3) [OF z(1) d(1,2)] by (simp add: slab_core_def)
    then have "keeps_slab st st' d v" using push_others [OF a(1) me(1) d(1,2) vs] by (simp add: keeps_slab_def me)
    then show ?thesis using vs by (auto simp: ca)
  qed
  have nm: "s \<in> set (slabs_notfull (slab_cache st' c)) \<longleftrightarrow> free_objs st' c s \<noteq> []" using w P(2) by (auto simp: ca slab_wf_def)
  have bi: "buddy_inv (phys (smach st'))" using z(1) by (simp add: me slab_ok_def)
  have kc: "x \<in> objs_of st' c s" if "x \<in> controls st" "x \<in> objs_of st c s" for x using that a(2) P(7) by auto
  note T = touch_slab [OF z(1-3) su bi ls oth P(1,3) nm kc]
  show ok': "slab_ok st'" by (rule T(1); assumption)
  have "objects st' = objects st - {c} \<times> objs_of st c s \<union> {c} \<times> objs_of st' c s" by (rule T(2); assumption)
  moreover have "{c} \<times> objs_of st c s \<subseteq> objects st" using z(2,3) by (auto simp: objects_iff)
  moreover have "a \<in> objs_of st c s" using z(4-6) by (auto simp: objs_of_def)
  ultimately show "objects st' = objects st - {(c, a)}" unfolding P(7) by auto
  show "controls st' = controls st" by (rule T(3); assumption)
  show "mem_kept (clients st) st st'" by (rule push_clients [OF a(1) me(1)])
  show "smach st' = smach st" by (rule me(2))
  have keep: "inuse st' v = inuse st v" "run st' d v = run st d v" if d: "d < SLAB_CACHE_NUM" "v \<in> slabs_of st d" "v \<noteq> s" for d v
    using slab_keep [OF su _ slab_okD(3) [OF z(1) d(1,2)] ctrl_bound [OF z(1) d(1,2)]] oth [OF d(1,2)] d(3) by auto
  show "busy st' {}" unfolding busy_def so
  proof (intro allI impI ballI)
    fix d v
    assume d: "d < SLAB_CACHE_NUM" "v \<in> slabs_of st d"
    show "inuse st' v \<noteq> 0"
    proof (cases "v = s")
      case True
      then show ?thesis using P(5,6) u by auto
    next
      case False
      then show ?thesis using keep(1) [OF d False] a(3) d by (auto simp: busy_def)
    qed
  qed
  have "run st' c s = run st c s" by (simp add: run_def P(3) setup_fields [OF su])
  then have "run st' d v = run st d v" if "d < SLAB_CACHE_NUM" "v \<in> slabs_of st d" for d v
    using keep(2) [OF that] slab_cache_unique [OF z(1) that z(2)] z(3) by (cases "v = s") auto
  then show "pool st' = pool st" by (simp add: pool_def slab_pages_def so me)
qed

section \<open>Destroying a slab\<close>

lemma last_object:
  assumes "in_slab st c s i a" "unat (inuse st s) = 1"
  shows "objs_of st c s = {a}"
proof -
  note z = in_slabD [OF assms(1)]
  let ?fs = "free_objs st c s" and ?n = "cap (slab_cache st c)"
  have core: "distinct ?fs" "set ?fs \<subseteq> {..<?n}" "unat (inuse st s) + length ?fs = ?n" using z(7) by (auto simp: slab_core_def)
  have all: "set (i # ?fs) = {..<?n}"
  proof (rule card_subset_eq)
    show "set (i # ?fs) \<subseteq> {..<?n}" using core z(4) by auto
    show "card (set (i # ?fs)) = card {..<?n}" using core z(5) assms(2) distinct_card [of "i # ?fs"] by simp
  qed simp
  have only: "j = i" if "j < ?n" "j \<notin> set ?fs" for j
  proof -
    have "j \<in> set (i # ?fs)" unfolding all using that(1) by simp
    then show ?thesis using that(2) by simp
  qed
  show ?thesis
  proof (intro equalityI subsetI)
    fix b
    assume "b \<in> objs_of st c s"
    then obtain j where "b = obj st c s j" "j < ?n" "j \<notin> set ?fs" unfolding objs_of_def by blast
    then show "b \<in> {a}" using only z(6) by simp
  next
    fix b
    assume "b \<in> {a}"
    then show "b \<in> objs_of st c s" unfolding objs_of_def using z(4-6) by blast
  qed
qed

lemma remove_slab:
  assumes a: "in_slab st c s i a" "a \<notin> controls st" "busy st {}" and u: "unat (inuse st s) = 1"
    and me: "mem st' = mem (pushed s i st)" "page_cache st' = page_cache st" "page_slab st' = page_slab st"
    and ca: "slab_cache st' = (slab_cache st)(c := (slab_cache st c)\<lparr>slabs_full := remove1 s (slabs_full (slab_cache st c)), slabs_notfull := remove1 s (slabs_notfull (slab_cache st c))\<rparr>)"
    and ph: "buddy_inv (phys (smach st'))" "region_ok (phys (smach st')) = region_ok (phys (smach st))" "npage (phys (smach st')) = npage (phys (smach st))"
      "free_set (phys (smach st')) = free_set (phys (smach st)) \<union> run st c s"
      "\<And>q. q \<notin> run st c s \<Longrightarrow> PageSlab (pages (phys (smach st')) q) = PageSlab (pages (phys (smach st)) q)"
  shows "slab_ok st'" "same_setup st st'" "pool st' = pool st" "busy st' {}" "objects st' = objects st - {(c, a)}"
    "controls st' = (if off_slab (slab_cache st c) then controls st - {s} else controls st)" "mem_kept (clients st) st st'"
proof -
  note z = in_slabD [OF a(1)]
  let ?k = "slab_cache st c"
  show su: "same_setup st st'" using ph by (auto simp: same_setup_def ca conf_def)
  note f = setup_fields [OF su]
  have dl: "distinct (slabs_full ?k @ slabs_notfull ?k)" by (rule slab_okD(4) [OF z(1,2)])
  have so: "slabs_of st' d = (if d = c then slabs_of st c - {s} else slabs_of st d)" for d using dl by (auto simp: slabs_of_def ca set_remove1_eq)
  have sne: "v \<noteq> s" if "d < SLAB_CACHE_NUM" "v \<in> slabs_of st' d" for d v
    using that slab_cache_unique [OF z(1-3) that(1)] by (auto simp: so split: if_splits)
  have sub: "v \<in> slabs_of st d" if "v \<in> slabs_of st' d" for d v using that by (auto simp: so split: if_splits)
  have keeps: "keeps_slab st st' d v" if d: "d < SLAB_CACHE_NUM" "v \<in> slabs_of st' d" for d v
  proof -
    have rs: "run st d v \<inter> run st c s = {}" using slab_owner [OF z(1) d(1) sub [OF d(2)] z(2,3)] sne [OF d] by blast
    have "run st d v \<inter> free_set (phys (smach st)) = {}" using slab_okD(3) [OF z(1) d(1) sub [OF d(2)]] by (simp add: slab_core_def)
    then have "run st d v \<inter> free_set (phys (smach st')) = {}" unfolding ph(4) using rs by blast
    moreover have "PageSlab (pages (phys (smach st')) q) = PageSlab (pages (phys (smach st)) q)" if "q \<in> run st d v" for q using rs that by (intro ph(5)) blast
    ultimately show ?thesis unfolding keeps_slab_def me(2,3) using push_others [OF a(1) me(1) d(1) sub [OF d(2)] sne [OF d]] by blast
  qed
  have keep: "slab_core st' d v" "free_objs st' d v = free_objs st d v" "slab_page st' v = slab_page st v" "inuse st' v = inuse st v" "objs_of st' d v = objs_of st d v" "run st' d v = run st d v"
    if d: "d < SLAB_CACHE_NUM" "v \<in> slabs_of st' d" for d v
  proof -
    note k = slab_keep [OF su keeps [OF d] slab_okD(3) [OF z(1) d(1) sub [OF d(2)]] ctrl_bound [OF z(1) d(1) sub [OF d(2)]]]
    show "slab_core st' d v" "free_objs st' d v = free_objs st d v" "slab_page st' v = slab_page st v" "inuse st' v = inuse st v" "run st' d v = run st d v"
      by (rule k(1), rule k(2), rule k(3), rule k(4), rule k(6))
    show "objs_of st' d v = objs_of st d v" unfolding objs_of_def k(2,5) f by (rule refl)
  qed
  show "busy st' {}" using a(3) keep(4) sub unfolding busy_def by simp
  show obs: "objects st' = objects st - {(c, a)}"
  proof (rule set_eqI, clarify)
    fix d b
    show "(d, b) \<in> objects st' \<longleftrightarrow> (d, b) \<in> objects st - {(c, a)}"
    proof
      assume "(d, b) \<in> objects st'"
      then obtain v where v: "d < SLAB_CACHE_NUM" "v \<in> slabs_of st' d" "b \<in> objs_of st d v" using keep(5) by (auto simp: objects_iff)
      then have "(d, b) \<in> objects st" using sub by (auto simp: objects_iff)
      moreover have "(d, b) \<noteq> (c, a)"
      proof
        assume "(d, b) = (c, a)"
        then have "b \<in> objs_of st c s" using last_object [OF a(1) u] by simp
        then show False using objs_of_owner [OF z(1-3) _ v(1) sub [OF v(2)] v(3)] sne [OF v(1,2)] by blast
      qed
      ultimately show "(d, b) \<in> objects st - {(c, a)}" by blast
    next
      assume b: "(d, b) \<in> objects st - {(c, a)}"
      then obtain v where v: "d < SLAB_CACHE_NUM" "v \<in> slabs_of st d" "b \<in> objs_of st d v" by (auto simp: objects_iff)
      have "\<not> (d = c \<and> v = s)" using v(3) b last_object [OF a(1) u] by auto
      then have "v \<in> slabs_of st' d" using v(2) by (auto simp: so)
      then show "(d, b) \<in> objects st'" using v keep(5) by (auto simp: objects_iff)
    qed
  qed
  show "controls st' = (if off_slab ?k then controls st - {s} else controls st)"
  proof -
    have "v \<in> controls st' \<longleftrightarrow> v \<in> controls st \<and> \<not> (off_slab ?k \<and> v = s)" for v
    proof
      assume "v \<in> controls st'"
      then obtain d where d: "d < SLAB_CACHE_NUM" "off_slab (slab_cache st d)" "v \<in> slabs_of st' d" unfolding controls_def f by blast
      then show "v \<in> controls st \<and> \<not> (off_slab ?k \<and> v = s)" using sne [OF d(1,3)] sub [OF d(3)] unfolding controls_def by blast
    next
      assume v: "v \<in> controls st \<and> \<not> (off_slab ?k \<and> v = s)"
      then obtain d where d: "d < SLAB_CACHE_NUM" "off_slab (slab_cache st d)" "v \<in> slabs_of st d" unfolding controls_def by blast
      have "v \<in> slabs_of st' d" using d(2,3) v by (cases "d = c") (simp_all add: so)
      then show "v \<in> controls st'" using d(1,2) unfolding controls_def f by blast
    qed
    then show ?thesis by auto
  qed
  show "mem_kept (clients st) st st'" by (rule push_clients [OF a(1) me(1)])
  have wf: "slab_wf st' d v" if d: "d < SLAB_CACHE_NUM" "v \<in> slabs_of st' d" for d v
  proof -
    have w: "slab_wf st d v" by (rule slab_okD(2) [OF z(1) d(1) sub [OF d(2)]])
    have nf: "v \<in> set (slabs_notfull (slab_cache st' d)) \<longleftrightarrow> v \<in> set (slabs_notfull (slab_cache st d))" using sne [OF d] by (auto simp: ca)
    have "off_slab (slab_cache st d) \<Longrightarrow> v \<noteq> a" using a(2) d(1) sub [OF d(2)] by (auto simp: controls_def)
    then show ?thesis using w keep(1) [OF d] unfolding slab_wf_def obs nf f keep(2) [OF d] keep(3) [OF d] by auto
  qed
  have "cache_ok (slab_cache st') d = cache_ok (slab_cache st) d" for d using su by (intro cache_ok_cong) (simp add: same_setup_def)
  moreover have "distinct (slabs_full (slab_cache st' d) @ slabs_notfull (slab_cache st' d))" if "d < SLAB_CACHE_NUM" for d
    using slab_okD(4) [OF z(1) that] by (auto simp: ca set_remove1_eq)
  ultimately show "slab_ok st'" using z(1) ph(1,3) wf unfolding slab_ok_def by simp
  show "pool st' = pool st"
  proof -
    have "slab_pages st = slab_pages st' \<union> run st c s"
    proof (intro equalityI subsetI)
      fix q
      assume "q \<in> slab_pages st"
      then obtain d v where v: "d < SLAB_CACHE_NUM" "v \<in> slabs_of st d" "q \<in> run st d v" by (auto simp: slab_pages_def)
      show "q \<in> slab_pages st' \<union> run st c s"
      proof (cases "d = c \<and> v = s")
        case False
        then have "v \<in> slabs_of st' d" using v(2) by (auto simp: so)
        then show ?thesis using keep(6) [OF v(1)] v in_slab_pages by blast
      qed (use v(3) in simp)
    next
      fix q
      assume "q \<in> slab_pages st' \<union> run st c s"
      then consider d v where "d < SLAB_CACHE_NUM" "v \<in> slabs_of st' d" "q \<in> run st' d v" | "q \<in> run st c s" by (auto simp: slab_pages_def)
      then show "q \<in> slab_pages st"
      proof cases
        case (1 d v)
        then show ?thesis using keep(6) [OF 1(1,2)] sub [OF 1(2)] in_slab_pages by blast
      next
        case 2
        then show ?thesis using in_slab_pages [OF z(2,3)] by blast
      qed
    qed
    then show ?thesis by (auto simp: pool_def ph(4))
  qed
qed

lemma unclaim_pages_eq:
  "distinct ps \<Longrightarrow> \<forall>p\<in>set ps. PageSlab (pages (phys (smach st)) p) \<Longrightarrow>
    unclaim_pages ps st = Some (st\<lparr>smach := (smach st)\<lparr>phys := fold (\<lambda>p. mark_slab p False) ps (phys (smach st))\<rparr>\<rparr>)"
proof (induction ps arbitrary: st)
  case (Cons p ps)
  let ?st = "st\<lparr>smach := (smach st)\<lparr>phys := upd_page p ClearPageSlab (phys (smach st))\<rparr>\<rparr>"
  have "\<forall>q\<in>set ps. PageSlab (pages (phys (smach ?st)) q)" using Cons.prems by (auto simp: upd_page_def)
  then have "unclaim_pages ps ?st = Some (?st\<lparr>smach := (smach ?st)\<lparr>phys := fold (\<lambda>p. mark_slab p False) ps (phys (smach ?st))\<rparr>\<rparr>)"
    using Cons.prems(1) by (intro Cons.IH) auto
  then show ?case using Cons.prems(2) by (simp add: mark_slab_def)
qed simp

lemma kva2page_eq:
  assumes "slab_ok st" "0xC0000000 \<le> unat a" "(unat a - 0xC0000000) div 4096 < npage (phys (smach st))"
  shows "kva2page a (smach st) = Some ((unat a - 0xC0000000) div 4096)"
proof -
  have "KERNBASE \<le> a" using assms(2) by (simp add: word_le_nat_alt)
  moreover from this have "unat (a - KERNBASE) = unat a - 0xC0000000" by (simp add: unat_sub)
  ultimately show ?thesis using assms(3) by (simp add: kva2page_def PADDR_def pa2page_def PPN_eq not_le [symmetric])
qed

text \<open>The steps of \<^verbatim>\<open>kmem_slab_destroy\<close> up to the release of the control block.\<close>

lemma destroy_ok:
  assumes a: "in_slab st c s i a" "a \<notin> controls st" "busy st {}" and u: "unat (inuse st s) = 1"
  shows "\<exists>st'. kmem_slab_destroy fr c s (slab_del c s (pushed s i st)) =
      (if off_slab (slab_cache st c) then (case slab_cachep (slab_cache st c) of None \<Rightarrow> None | Some c' \<Rightarrow> fr c' s st') else Some st')
    \<and> slab_ok st' \<and> same_setup st st' \<and> pool st' = pool st \<and> busy st' {} \<and> objects st' = objects st - {(c, a)}
    \<and> controls st' = (if off_slab (slab_cache st c) then controls st - {s} else controls st) \<and> mem_kept (clients st) st st'"
proof -
  note z = in_slabD [OF a(1)]
  let ?k = "slab_cache st c" and ?p = "slab_page st s" and ?b = "phys (smach st)"
  let ?n = "2 ^ page_order (slab_cache st c) :: nat" let ?ps = "[?p..<?p + ?n]"
  define st1 where "st1 = slab_del c s (pushed s i st)"
  have s1: "mem st1 = mem (pushed s i st)" "smach st1 = smach st" "page_cache st1 = page_cache st" "page_slab st1 = page_slab st"
    "slab_cache st1 = (slab_cache st)(c := ?k\<lparr>slabs_full := remove1 s (slabs_full ?k), slabs_notfull := remove1 s (slabs_notfull ?k)\<rparr>)"
    by (simp_all add: st1_def slab_del_def)
  have core: "s_offset st s = offset ?k" "s_mem st s = KERNBASE + of_nat (4096 * ?p) + offset ?k" "region_ok ?b ?p ?n" "run st c s \<inter> free_set ?b = {}"
    "\<forall>q\<in>run st c s. PageSlab (pages ?b q)" using z(7) by (auto simp: slab_core_def)
  have rn: "run st c s = set ?ps" by (simp add: run_def)
  have lim: "?p + ?n \<le> 0x38000" by (rule run_bound [OF z(1,7)])
  have np: "?p + ?n \<le> npage ?b" by (rule bs.run_limit [OF core(3)]) simp
  have sm: "s_mem st1 s - s_offset st1 s = of_nat (kva ?p)"
    using pushed_fields(1,2) [OF z(8) z(4), of st] core(1,2) same_fields_mem(1,2) [OF s1(1)] by (simp add: kva_def)
  have uk: "unat (of_nat (kva ?p) :: u32) = kva ?p" using lim by (intro unat_word_of_nat) (simp add: kva_def)
  have "?p < npage ?b" using np less_le_trans [of ?p "?p + ?n"] by simp
  then have pg: "kva2page (s_mem st1 s - s_offset st1 s) (smach st1) = Some ?p"
    unfolding sm s1(2) using kva2page_eq [OF z(1), of "of_nat (kva ?p)"] uk by (simp add: kva_def)
  define b2 where "b2 = fold (\<lambda>p. mark_slab p False) ?ps ?b"
  note mk = bs.mark_run [where v = False and ps = ?ps and s = ?b, folded b2_def]
  have un: "unclaim_pages ?ps st1 = Some (st1\<lparr>smach := (smach st)\<lparr>phys := b2\<rparr>\<rparr>)"
    unfolding b2_def using unclaim_pages_eq [of ?ps st1] core(5) rn s1(2) by auto
  have n: "(2::nat) ^ page_order ?k \<le> 2 ^ MAX_ORDER" using slab_okD(1) [OF z(1,2)] by (intro power_increasing) (auto simp: cache_ok_def)
  have pre: "buddy_inv b2" "region_ok b2 ?p ?n" "{?p..<?p + ?n} \<inter> free_set b2 = {}" "0 < ?n" using z(1) core(3,4) by (simp_all add: mk slab_ok_def run_def)
  obtain b3 where b3: "buddy_free_pages ?p ?n b2 = Some b3" "buddy_inv b3" "region_ok b3 = region_ok b2" "free_set b3 = free_set b2 \<union> {?p..<?p + ?n}" "npage b3 = npage b2"
    "\<And>q. q \<notin> {?p..<?p + ?n} \<Longrightarrow> PageSlab (pages b3 q) = PageSlab (pages b2 q)" using bs.give_run [OF pre n] by blast
  define st' where "st' = st1\<lparr>smach := (smach st)\<lparr>phys := b3\<rparr>\<rparr>"
  have eq: "kmem_slab_destroy fr c s st1 = (if off_slab ?k then (case slab_cachep ?k of None \<Rightarrow> None | Some c' \<Rightarrow> fr c' s st') else Some st')"
    using pg un b3(1) unfolding kmem_slab_destroy_def st'_def by (simp add: free_pages_eq s1(5))
  have q: "PageSlab (pages b3 q) = PageSlab (pages ?b q)" if "q \<notin> run st c s" for q using that b3(6) [of q] by (auto simp: mk run_def)
  have fs: "free_set b3 = free_set ?b \<union> run st c s" using b3(4) by (simp add: mk run_def)
  note X = remove_slab [OF a u, of st']
  have t: "mem st' = mem (pushed s i st)" "page_cache st' = page_cache st" "page_slab st' = page_slab st"
    "slab_cache st' = (slab_cache st)(c := ?k\<lparr>slabs_full := remove1 s (slabs_full ?k), slabs_notfull := remove1 s (slabs_notfull ?k)\<rparr>)"
    "buddy_inv (phys (smach st'))" "region_ok (phys (smach st')) = region_ok ?b" "npage (phys (smach st')) = npage ?b" "free_set (phys (smach st')) = free_set ?b \<union> run st c s"
    using b3(2,3,5) fs by (simp_all add: st'_def s1 mk)
  have t9: "PageSlab (pages (phys (smach st')) q) = PageSlab (pages ?b q)" if "q \<notin> run st c s" for q using q [OF that] by (simp add: st'_def)
  show ?thesis using eq X(1) [OF t t9] X(2) [OF t t9] X(3) [OF t t9] X(4) [OF t t9] X(5) [OF t t9] X(6) [OF t t9] X(7) [OF t t9]
    unfolding st1_def by blast
qed

section \<open>Release to a cache\<close>

lemma client_in_slab:
  assumes "slab_ok st" "(c, a) \<in> clients st"
  obtains s i where "in_slab st c s i a" "a \<notin> controls st"
  using assms by (auto simp: clients_def objects_def in_slab_def)

lemma free_one_eq:
  assumes a: "in_slab st c s i a"
  shows "kmem_cache_free_one fr c s a st = (if unat (inuse st s) = 1 then kmem_slab_destroy fr c s (slab_del c s (pushed s i st))
    else Some (if free_objs st c s = [] then add_notfull c s (slab_del c s (pushed s i st)) else pushed s i st))"
proof -
  note z = in_slabD [OF a]
  let ?k = "slab_cache st c"
  have u: "unat (obj st c s i) = unat (s_mem st s) + i * osize ?k" "unat (obj st c s i) < 2 ^ 32"
  proof -
    have "unat (s_mem st s) = kva (slab_page st s) + unat (offset ?k)"
      unfolding obj_of_nat(2) [OF z(7)] using slab_fits [OF z(1,2,7)] by (intro unat_word_of_nat) simp
    then show "unat (obj st c s i) = unat (s_mem st s) + i * osize ?k" using unat_obj(1) [OF z(1,2,7,4)] by simp
  qed simp
  have "i * osize ?k < 2 ^ 32" using u by simp
  then have "unat (of_nat i * objsize ?k) = i * osize ?k" using unat_word_of_nat [of "i * osize ?k"] by (simp add: osize_def)
  then have "unat ((a - s_mem st s) div objsize ?k) = i" using osize_pos [OF z(1,2)] by (simp add: z(6) obj_def unat_div osize_def)
  then have nr: "(a - s_mem st s) div objsize ?k = of_nat i" by (simp add: word_unat_eq_iff flip: \<open>unat _ = i\<close>)
  have st1: "store (s + 12) (inuse (store (s + 20) (of_nat i) (store (slab_bufctl s (of_nat i)) (s_free st s) st)) s - 1)
      (store (s + 20) (of_nat i) (store (slab_bufctl s (of_nat i)) (s_free st s) st)) = pushed s i st"
    using bufctl_distinct(2) [OF z(8) z(4)] by (simp add: pushed_def inuse_def)
  have su: "same_setup st (pushed s i st)" by (simp add: same_setup_def)
  note P = push_core [OF a su refl] and pf = pushed_fields(3) [OF z(8) z(4), of st]
  have i0: "inuse (pushed s i st) s = 0 \<longleftrightarrow> unat (inuse st s) = 1"
    using P(5,6) unfolding word_unat_eq_iff by auto
  have in1: "inuse (pushed s i st) s = num ?k - 1 \<longleftrightarrow> free_objs st c s = []"
  proof -
    have l: "unat (inuse st s) + length (free_objs st c s) = cap ?k" using z(7) by (simp add: slab_core_def)
    have "inuse (pushed s i st) s = num ?k - 1 \<longleftrightarrow> inuse st s = num ?k" unfolding pf by simp
    also have "\<dots> \<longleftrightarrow> unat (inuse st s) = cap ?k" by (simp add: word_unat_eq_iff cap_def)
    also have "\<dots> \<longleftrightarrow> free_objs st c s = []" using l by auto
    finally show ?thesis .
  qed
  show ?thesis unfolding kmem_cache_free_one_def Let_def nr st1 i0 pushed_simps(1) in1 by auto
qed

definition free_ok :: "nat \<Rightarrow> u32 \<Rightarrow> slab_state \<Rightarrow> slab_state \<Rightarrow> bool" where
  "free_ok c a st st' \<longleftrightarrow> slab_ok st' \<and> same_setup st st' \<and> pool st' = pool st \<and> busy st' {} \<and> clients st' = clients st - {(c, a)}
     \<and> mem_kept (clients st - {(c, a)}) st st'"

lemma mem_kept_mono: "mem_kept A st st' \<Longrightarrow> B \<subseteq> A \<Longrightarrow> mem_kept B st st'"
  unfolding mem_kept_def by blast

lemma phys_same:
  assumes "slab_ok st" "phys m = phys (smach st)"
  shows "slab_ok (st\<lparr>smach := m\<rparr>)" "same_setup st (st\<lparr>smach := m\<rparr>)" "pool (st\<lparr>smach := m\<rparr>) = pool st"
  using phys_step [OF assms(1), of m] assms slab_pages_used [OF assms(1)] by (auto simp: slab_ok_def pool_def)

lemma free_ok_irq:
  assumes "slab_ok st" "phys m = phys (smach st)" "free_ok c a (st\<lparr>smach := m\<rparr>) st'"
  shows "free_ok c a st (irq_restore fl st')"
proof -
  have r: "irq_restore fl st' = st'\<lparr>smach := (smach st')\<lparr>eflags := fl\<rparr>\<rparr>" by (simp add: irq_restore_def local_irq_restore_def)
  have ok: "slab_ok st'" using assms(3) by (simp add: free_ok_def)
  show ?thesis unfolding r
    using assms(3) phys_same [OF ok, of "(smach st')\<lparr>eflags := fl\<rparr>"] phys_same [OF assms(1,2)] same_setup_trans by (auto simp: free_ok_def)
qed

text \<open>Finding the slab, and the two ways to go on.\<close>

lemma object_page:
  assumes "in_slab st c s i a"
  shows "kva2page a (smach st) = Some ((unat a - 0xC0000000) div 4096)" "(unat a - 0xC0000000) div 4096 \<in> run st c s"
    "page_cache st ((unat a - 0xC0000000) div 4096) = c" "page_slab st ((unat a - 0xC0000000) div 4096) = s"
    "PageSlab (pages (phys (smach st)) ((unat a - 0xC0000000) div 4096))"
proof -
  note z = in_slabD [OF assms]
  let ?q = "(unat a - 0xC0000000) div 4096"
  show q: "?q \<in> run st c s" using obj_page [OF z(1,2,7,4)] z(6) by simp
  then show "page_cache st ?q = c" "page_slab st ?q = s" "PageSlab (pages (phys (smach st)) ?q)" using z(7) by (auto simp: slab_core_def)
  have "slab_page st s + 2 ^ page_order (slab_cache st c) \<le> npage (phys (smach st))" using z(7) by (intro bs.run_limit) (auto simp: slab_core_def)
  then have "?q < npage (phys (smach st))" using q by (simp add: run_def)
  moreover have "0xC0000000 \<le> unat a" using unat_obj(1) [OF z(1,2,7,4)] z(6) by (simp add: kva_def)
  ultimately show "kva2page a (smach st) = Some ?q" by (intro kva2page_eq [OF z(1)])
qed

lemma free_step:
  assumes ok: "slab_ok st" and a: "(c, a) \<in> clients st" and b: "busy st {}"
    and rec: "\<And>c1 s st1. off_slab (slab_cache st c) \<Longrightarrow> slab_cachep (slab_cache st c) = Some c1 \<Longrightarrow> slab_ok st1 \<Longrightarrow> same_setup st st1 \<Longrightarrow> busy st1 {} \<Longrightarrow>
      (c1, s) \<in> clients st1 \<Longrightarrow> \<exists>st2. kmem_cache_free c1 s st1 = Some st2 \<and> free_ok c1 s st1 st2"
  shows "\<exists>st'. kmem_cache_free c a st = Some st' \<and> free_ok c a st st' \<and> eflags (smach st') = eflags (smach st)"
proof -
  obtain fl st1 where sv: "irq_save st = (fl, st1)" by fastforce
  then have s1: "fl = eflags (smach st)" "st1 = st\<lparr>smach := (smach st)\<lparr>eflags := eflags (smach st) AND NOT FL_IF\<rparr>\<rparr>"
    by (auto simp: irq_save_def local_irq_save_def Let_def)
  define m where "m = (smach st)\<lparr>eflags := eflags (smach st) AND NOT FL_IF\<rparr>"
  have st1: "st1 = st\<lparr>smach := m\<rparr>" and pm: "phys m = phys (smach st)" by (simp_all add: s1 m_def)
  note ok1 = phys_same [OF ok pm]
  obtain s i where i: "in_slab st1 c s i a" "a \<notin> controls st1" using client_in_slab [OF ok1(1), of c a] a st1 by auto
  have i0: "in_slab st c s i a" using i(1) ok by (simp add: in_slab_def st1)
  note op = object_page [OF i0]
  have eq: "kmem_cache_free c a st = map_option (irq_restore fl) (kmem_cache_free_one kmem_cache_free c s a st1)"
    by (subst kmem_cache_free.simps) (cases "kmem_cache_free_one kmem_cache_free c s a st1"; simp add: op sv st1)
  have b1: "busy st1 {}" using b by (simp add: st1)
  have "\<exists>st2. kmem_cache_free_one kmem_cache_free c s a st1 = Some st2 \<and> free_ok c a st1 st2"
  proof (cases "unat (inuse st1 s) = 1")
    case False
    note p = free_push [OF i b1 False refl]
    have "clients st' = clients st1 - {(c, a)}" if "objects st' = objects st1 - {(c, a)}" "controls st' = controls st1" for st' using that by (auto simp: clients_def)
    then show ?thesis using free_one_eq [OF i(1), of kmem_cache_free] False p(1-7) mem_kept_mono [OF p(7)] by (auto simp: free_ok_def)
  next
    case True
    obtain st2 where d: "kmem_slab_destroy kmem_cache_free c s (slab_del c s (pushed s i st1)) =
        (if off_slab (slab_cache st1 c) then (case slab_cachep (slab_cache st1 c) of None \<Rightarrow> None | Some c' \<Rightarrow> kmem_cache_free c' s st2) else Some st2)"
      "slab_ok st2" "same_setup st1 st2" "pool st2 = pool st1" "busy st2 {}" "objects st2 = objects st1 - {(c, a)}"
      "controls st2 = (if off_slab (slab_cache st1 c) then controls st1 - {s} else controls st1)" "mem_kept (clients st1) st1 st2"
      using destroy_ok [OF i b1 True, of kmem_cache_free] by blast
    have eq1: "kmem_cache_free_one kmem_cache_free c s a st1 = kmem_slab_destroy kmem_cache_free c s (slab_del c s (pushed s i st1))"
      using free_one_eq [OF i(1), of kmem_cache_free] True by simp
    have su: "same_setup st st2" using same_setup_trans [OF ok1(2)] d(3) st1 by simp
    show ?thesis
    proof (cases "off_slab (slab_cache st c)")
      case False
      then have "clients st2 = clients st1 - {(c, a)}" using d(6,7) by (auto simp: clients_def st1)
      then show ?thesis using eq1 d False mem_kept_mono [OF d(8)] by (auto simp: free_ok_def st1)
    next
      case off: True
      obtain c1 where c1: "slab_cachep (slab_cache st c) = Some c1" using slab_okD(1) [OF ok in_slabD(2) [OF i0]] off by (auto simp: cache_ok_def)
      have w: "(c1, s) \<in> objects st1" "s \<in> controls st1"
        using slab_okD(2) [OF ok in_slabD(2,3) [OF i0]] off c1 in_slabD(2,3) [OF i0] by (auto simp: slab_wf_def controls_def st1)
      have cl: "clients st2 = insert (c1, s) (clients st1 - {(c, a)})"
      proof -
        have "s \<noteq> a" using w(2) i(2) by auto
        have "(d, s) \<in> objects st1 \<longleftrightarrow> d = c1" for d using w(1) object_cache_unique [OF ok1(1) [folded st1]] by blast
        then show ?thesis using w \<open>s \<noteq> a\<close> off d(6,7) unfolding clients_def by (auto simp: st1)
      qed
      obtain st3 where r: "kmem_cache_free c1 s st2 = Some st3" "free_ok c1 s st2 st3" using rec [OF off c1 d(2) su d(5), of s] cl by blast
      have "clients st3 = clients st1 - {(c, a)}" using r(2) cl w(2) by (auto simp: free_ok_def clients_def)
      moreover have "mem_kept (clients st1 - {(c, a)}) st1 st3"
      proof (rule mem_kept_trans [OF mem_kept_mono [OF d(8)]])
        show "mem_kept (clients st2 - {(c1, s)}) st2 st3" using r(2) by (simp add: free_ok_def)
        show "clients st1 - {(c, a)} \<subseteq> clients st2 - {(c1, s)}" using cl w(2) by (auto simp: clients_def)
      qed (use d(3) in auto)
      ultimately have "free_ok c a st1 st3" using r(2) d(3,4) same_setup_trans [OF d(3)] by (auto simp: free_ok_def)
      then show ?thesis using eq1 d(1) off c1 r(1) by (simp add: st1)
    qed
  qed
  then obtain st2 where "kmem_cache_free_one kmem_cache_free c s a st1 = Some st2" "free_ok c a st1 st2" by blast
  then show ?thesis using eq free_ok_irq [OF ok pm, of c a st2 fl] st1 by (simp add: irq_restore_def local_irq_restore_def s1(1))
qed

lemma kmem_cache_free_ok:
  assumes ok: "slab_ok st" and a: "(c, a) \<in> clients st" and b: "busy st {}"
  shows "\<exists>st'. kmem_cache_free c a st = Some st' \<and> free_ok c a st st' \<and> eflags (smach st') = eflags (smach st)"
proof (rule free_step [OF assms])
  fix c1 s st1
  assume c: "off_slab (slab_cache st c)" "slab_cachep (slab_cache st c) = Some c1" and s: "slab_ok st1" "same_setup st st1" "busy st1 {}" "(c1, s) \<in> clients st1"
  have "c < SLAB_CACHE_NUM" using a by (auto simp: clients_def objects_def)
  then have on: "\<not> off_slab (slab_cache st c1)" using slab_okD(1) [OF ok, of c] c by (auto simp: cache_ok_def)
  have "\<exists>st'. kmem_cache_free c1 s st1 = Some st' \<and> free_ok c1 s st1 st' \<and> eflags (smach st') = eflags (smach st1)"
    by (rule free_step [OF s(1,4,3)]) (use on setup_fields [OF s(2)] in auto)
  then show "\<exists>st2. kmem_cache_free c1 s st1 = Some st2 \<and> free_ok c1 s st1 st2" by blast
qed

lemma kfree_ok:
  assumes "slab_ok st" "(c, a) \<in> clients st" "busy st {}"
  shows "\<exists>st'. kfree a st = Some st' \<and> free_ok c a st st' \<and> eflags (smach st') = eflags (smach st)"
proof -
  obtain s i where i: "in_slab st c s i a" using client_in_slab [OF assms(1,2)] by blast
  show ?thesis using kmem_cache_free_ok [OF assms] by (simp add: kfree_def object_page [OF i])
qed

end
