(* ===== verification/SlabSpec.thy ===== *)
theory SlabSpec
  imports SlabFree
begin

text \<open>
  The slab allocator as its users see it: the caches that \<^verbatim>\<open>slab_init\<close> makes, the contract of \<^verbatim>\<open>kmalloc\<close>
  and \<^verbatim>\<open>kfree\<close> as a locale with its interpretation, and the properties of the allocator.
\<close>

section \<open>Initialisation\<close>

lemma slab_orders:
  "slab_order_from [0..<11] 32 16 False = Some (113, 0, 0)"
  "slab_order_from [0..<11] 64 16 False = Some (59, 0, 48)"
  "slab_order_from [0..<11] 128 16 False = Some (30, 0, 112)"
  "slab_order_from [0..<11] 256 16 False = Some (15, 0, 160)"
  "slab_order_from [0..<11] 512 16 True = Some (8, 0, 0)"
  "slab_order_from [0..<11] 1024 16 True = Some (4, 0, 0)"
  "slab_order_from [0..<11] 2048 16 True = Some (2, 0, 0)"
  "slab_order_from [0..<11] 4096 16 True = Some (1, 0, 0)"
  "slab_order_from [0..<11] 8192 16 True = Some (1, 1, 0)"
  "slab_order_from [0..<11] 16384 16 True = Some (1, 2, 0)"
  "slab_order_from [0..<11] 32768 16 True = Some (1, 3, 0)"
  "slab_order_from [0..<11] 65536 16 True = Some (1, 4, 0)"
  "slab_order_from [0..<11] 131072 16 True = Some (1, 5, 0)"
  by code_simp+

lemma init_kmem_cache_eq:
  assumes "ROUNDUP z 16 = z" "slab_order_from [0..<11] z 16 (512 \<le> z) = Some (n, order, left_over)" "0 < n"
  shows "init_kmem_cache c z 16 st = (let m = slab_mgmt_size n 16; off = (512 \<le> z \<and> \<not> m \<le> left_over) in
    if off then map_option (\<lambda>k. upd_cache c (\<lambda>_. \<lparr>slabs_full = [], slabs_notfull = [], objsize = z, num = n, offset = 0, off_slab = True,
      page_order = order, slab_cachep = Some (k - 5)\<rparr>) st) (slab_getorder m)
    else Some (upd_cache c (\<lambda>k. \<lparr>slabs_full = [], slabs_notfull = [], objsize = z, num = n, offset = m, off_slab = False,
      page_order = order, slab_cachep = slab_cachep k\<rparr>) st))"
  using assms by (cases "slab_cache st c") (simp add: init_kmem_cache_def calculate_slab_order_def upd_cache_def Let_def map_option_case split: option.split)


text \<open>
  The caches after \<^verbatim>\<open>slab_init\<close>: objects per slab, order of the pages, offset of the first object, and the
  cache of the control block when it is off the slab.
\<close>

definition boot_table :: "(u32 \<times> nat \<times> u32 \<times> nat option) list" where
  "boot_table = [(113, 0, 480, None), (59, 0, 272, None), (30, 0, 144, None), (15, 0, 96, None), (8, 0, 0, Some 1), (4, 0, 0, Some 1), (2, 0, 0, Some 0), (1, 0, 0, Some 0), (1, 1, 0, Some 0), (1, 2, 0, Some 0), (1, 3, 0, Some 0), (1, 4, 0, Some 0), (1, 5, 0, Some 0)]"

definition booted :: "nat \<Rightarrow> kmem_cache_s \<Rightarrow> kmem_cache_s" where
  "booted c k = (case boot_table ! c of (n, order, x, ctl) \<Rightarrow>
     \<lparr>slabs_full = [], slabs_notfull = [], objsize = 2 ^ (c + MIN_SIZE_ORDER), num = n, offset = x, off_slab = (ctl \<noteq> None), page_order = order,
      slab_cachep = (case ctl of None \<Rightarrow> slab_cachep k | Some c' \<Rightarrow> Some c')\<rparr>)"

lemma mgmt_sizes:
  "slab_mgmt_size 113 16 = 480"
  "slab_mgmt_size 59 16 = 272"
  "slab_mgmt_size 30 16 = 144"
  "slab_mgmt_size 15 16 = 96"
  "slab_mgmt_size 8 16 = 64"
  "slab_mgmt_size 4 16 = 48"
  "slab_mgmt_size 2 16 = 32"
  "slab_mgmt_size 1 16 = 32"
  by (simp_all add: slab_mgmt_size_def ROUNDUP_def ROUNDDOWN_def)

lemma slab_getorders: "slab_getorder 64 = Some 6" "slab_getorder 48 = Some 6" "slab_getorder 32 = Some 5"
  by (simp_all add: slab_getorder_def)

lemma roundups:
  "ROUNDUP 32 16 = 32"
  "ROUNDUP 64 16 = 64"
  "ROUNDUP 128 16 = 128"
  "ROUNDUP 256 16 = 256"
  "ROUNDUP 512 16 = 512"
  "ROUNDUP 1024 16 = 1024"
  "ROUNDUP 2048 16 = 2048"
  "ROUNDUP 4096 16 = 4096"
  "ROUNDUP 8192 16 = 8192"
  "ROUNDUP 16384 16 = 16384"
  "ROUNDUP 32768 16 = 32768"
  "ROUNDUP 65536 16 = 65536"
  "ROUNDUP 131072 16 = 131072"
  by (simp_all add: ROUNDUP_def ROUNDDOWN_def)

lemma init_booted: "c < SLAB_CACHE_NUM \<Longrightarrow> init_kmem_cache c (push_bit (c + MIN_SIZE_ORDER) 1) 16 st = Some (upd_cache c (booted c) st)"
proof -
  assume "c < SLAB_CACHE_NUM"
  then consider "c = 0" | "c = 1" | "c = 2" | "c = 3" | "c = 4" | "c = 5" | "c = 6" | "c = 7" | "c = 8" | "c = 9" | "c = 10" | "c = 11" | "c = 12" by (auto simp: eval_nat_numeral less_Suc_eq)
  then show ?thesis
    by cases (simp_all add: init_kmem_cache_eq slab_orders roundups mgmt_sizes slab_getorders booted_def boot_table_def upd_cache_def push_bit_eq_mult)
qed

lemma init_caches_eq:
  "\<forall>c\<in>set cs. c < SLAB_CACHE_NUM \<Longrightarrow> init_caches cs st = Some (fold (\<lambda>c. upd_cache c (booted c)) cs st)"
  by (induction cs arbitrary: st) (simp_all add: init_booted [unfolded push_bit_eq_mult mult_1])

lemma fold_boot:
  "distinct cs \<Longrightarrow> slab_cache (fold (\<lambda>c. upd_cache c (booted c)) cs st) c = (if c \<in> set cs then booted c (slab_cache st c) else slab_cache st c)"
  "smach (fold (\<lambda>c. upd_cache c (booted c)) cs st) = smach st" "mem (fold (\<lambda>c. upd_cache c (booted c)) cs st) = mem st"
  by (induction cs arbitrary: st) auto

lemma cache_ok_booted:
  assumes "\<And>c. c < SLAB_CACHE_NUM \<Longrightarrow> K c = booted c (k c)" "c < SLAB_CACHE_NUM"
  shows "cache_ok K c"
proof -
  have K: "K 0 = booted 0 (k 0)" "K 1 = booted 1 (k 1)" using assms(1) by simp_all
  consider "c = 0" | "c = 1" | "c = 2" | "c = 3" | "c = 4" | "c = 5" | "c = 6" | "c = 7" | "c = 8" | "c = 9" | "c = 10" | "c = 11" | "c = 12" using assms(2) by (auto simp: eval_nat_numeral less_Suc_eq)
  then show ?thesis
    by cases (simp_all add: cache_ok_def assms(1) K booted_def boot_table_def cap_def osize_def)
qed

lemma slab_init_ok:
  assumes "buddy_inv (phys (smach st))" "npage (phys (smach st)) \<le> 0x38000"
  shows "\<exists>st'. slab_init st = Some st' \<and> slab_ok st' \<and> busy st' {} \<and> objects st' = {} \<and> pool st' = free_set (phys (smach st)) \<and> smach st' = smach st
    \<and> (\<forall>c<SLAB_CACHE_NUM. slab_cache st' c = booted c (slab_cache st c))"
proof -
  let ?st = "fold (\<lambda>c. upd_cache c (booted c)) [0..<SLAB_CACHE_NUM] st"
  have k: "slab_cache ?st c = booted c (slab_cache st c)" if "c < SLAB_CACHE_NUM" for c using that by (simp add: fold_boot(1) del: upt_Suc)
  have e: "slabs_full (slab_cache ?st c) = []" "slabs_notfull (slab_cache ?st c) = []" if "c < SLAB_CACHE_NUM" for c unfolding k [OF that] by (simp_all add: booted_def split: prod.split)
  have n: "slabs_of ?st c = {}" if "c < SLAB_CACHE_NUM" for c using e [OF that] by (simp only: slabs_of_def) simp
  have c: "cache_ok (slab_cache ?st) c" if "c < SLAB_CACHE_NUM" for c by (rule cache_ok_booted [OF _ that]) (rule k)
  have m: "smach ?st = smach st" by (rule fold_boot(2))
  have "slab_ok ?st" unfolding slab_ok_def m using assms n c e by (simp del: upt_Suc fold_simps)
  moreover have "busy ?st {}" "objects ?st = {}" "slab_pages ?st = {}" using n by (auto simp: busy_def objects_iff slab_pages_def simp del: upt_Suc fold_simps)
  moreover have "slab_init st = Some ?st" unfolding slab_init_def by (rule init_caches_eq) simp
  ultimately show ?thesis using m k by (intro exI [of _ ?st]) (simp add: pool_def del: upt_Suc fold_simps)
qed

section \<open>The interface\<close>

definition block_of :: "slab_state \<Rightarrow> nat \<times> u32 \<Rightarrow> nat set" where
  "block_of st o' = {unat (snd o')..<unat (snd o') + osize (slab_cache st (fst o'))}"

lemma slab_getorder_cases:
  assumes "0 < n"
  shows "slab_getorder n = None \<longleftrightarrow> 0x20000 < n"
    "slab_getorder n = Some k \<Longrightarrow> 5 \<le> k \<and> k \<le> 17 \<and> unat n \<le> 2 ^ k \<and> (k = 5 \<or> 2 ^ (k - 1) < unat n)"
proof -
  have p: "n \<le> push_bit j 1 \<longleftrightarrow> unat n \<le> 2 ^ j" if "j \<le> 17" for j
  proof -
    have "(2::nat) ^ j \<le> 2 ^ 17" using that by (intro power_increasing) auto
    then have "unat (2 ^ j :: u32) = 2 ^ j" using unat_word_of_nat [of "2 ^ j"] by simp
    then show ?thesis by (simp add: push_bit_eq_mult word_le_nat_alt)
  qed
  define L :: "nat list" where "L = [5..<Suc 17]"
  have L: "j \<in> set L \<longleftrightarrow> 5 \<le> j \<and> j \<le> 17" "length L = 13" "i < 13 \<Longrightarrow> L ! i = 5 + i" for i j
  proof -
    show "j \<in> set L \<longleftrightarrow> 5 \<le> j \<and> j \<le> 17" unfolding L_def set_upt by auto
    show "length L = 13" unfolding L_def by simp
    show "L ! i = 5 + i" if "i < 13" unfolding L_def using that by (intro nth_upt) simp
  qed
  have go: "slab_getorder n = find (\<lambda>order. n \<le> push_bit order 1) L" unfolding slab_getorder_def L_def by (rule refl)
  have "slab_getorder n = None \<longleftrightarrow> (\<forall>j. 5 \<le> j \<and> j \<le> 17 \<longrightarrow> \<not> unat n \<le> 2 ^ j)" unfolding go find_None_iff L using p by blast
  also have "\<dots> \<longleftrightarrow> \<not> unat n \<le> 2 ^ 17"
  proof
    assume n: "\<not> unat n \<le> 2 ^ 17"
    show "\<forall>j. 5 \<le> j \<and> j \<le> 17 \<longrightarrow> \<not> unat n \<le> 2 ^ j"
    proof (intro allI impI)
      fix j :: nat
      assume "5 \<le> j \<and> j \<le> 17"
      then have "(2::nat) ^ j \<le> 2 ^ 17" by (intro power_increasing) auto
      then show "\<not> unat n \<le> 2 ^ j" using n by simp
    qed
  qed (drule spec [of _ 17], simp)
  finally show "slab_getorder n = None \<longleftrightarrow> 0x20000 < n" by (simp add: word_less_nat_alt not_le)
  assume "slab_getorder n = Some k"
  then obtain i where i0: "i < 13" "n \<le> push_bit (L ! i) 1" "k = L ! i" "\<forall>j<i. \<not> n \<le> push_bit (L ! j) 1"
    unfolding go find_Some_iff L(2) by blast
  have "\<not> n \<le> push_bit (5 + j) 1" if "j < i" for j using i0(1,4) L(3) [of j] that by fastforce
  then have i: "i < 13" "n \<le> push_bit (5 + i) 1" "k = 5 + i" "\<forall>j<i. \<not> n \<le> push_bit (5 + j) 1" using i0 L(3) [of i] by simp_all
  have "k = 5 \<or> 2 ^ (k - 1) < unat n"
  proof (cases i)
    case (Suc j)
    then show ?thesis using i(1,3) i(4) [rule_format, of j] p [of "5 + j"] by auto
  qed (use i in simp)
  then show "5 \<le> k \<and> k \<le> 17 \<and> unat n \<le> 2 ^ k \<and> (k = 5 \<or> 2 ^ (k - 1) < unat n)" using i p [of k] by auto
qed

lemma object_aligned:
  assumes "slab_ok st" "(c, a) \<in> objects st"
  shows "16 dvd unat a"
proof -
  obtain s i where s: "c < SLAB_CACHE_NUM" "s \<in> slabs_of st c" "i < cap (slab_cache st c)" "a = obj st c s i" using assms(2) by (auto simp: objects_def)
  note cok = slab_okD(1) [OF assms(1) s(1)]
  have u: "unat a = kva (slab_page st s) + unat (offset (slab_cache st c)) + i * osize (slab_cache st c)"
    using unat_obj(1) [OF assms(1) s(1) slab_okD(3) [OF assms(1) s(1,2)] s(3)] s(4) by simp
  have "16 dvd kva (slab_page st s)" by (simp add: kva_def dvd_add)
  moreover have "16 dvd unat (offset (slab_cache st c))" using cok by (simp add: cache_ok_def)
  moreover have "osize (slab_cache st c) = 16 * 2 ^ (c + 1)" using cok by (simp add: cache_ok_def power_add)
  ultimately show ?thesis unfolding u by (simp add: dvd_add)
qed

lemma clients_disjoint:
  assumes "slab_ok st" "x \<in> clients st" "y \<in> clients st" "x \<noteq> y"
  shows "block_of st x \<inter> block_of st y = {}"
proof -
  obtain c a d b where x: "x = (c, a)" "y = (d, b)" by (cases x; cases y) auto
  then have o: "(c, a) \<in> objects st" "(d, b) \<in> objects st" using assms(2,3) by (auto simp: clients_def)
  then have "a \<noteq> b" using assms(4) x object_cache_unique [OF assms(1)] by auto
  then show ?thesis unfolding block_of_def x using place_disjoint [OF assms(1) object_place [OF assms(1) o(1)] object_place [OF assms(1) o(2)]] by simp
qed

lemma client_pages:
  assumes "slab_ok st" "(c, a) \<in> clients st" "y \<in> block_of st (c, a)"
  shows "(y - 0xC0000000) div 4096 \<in> slab_pages st"
  using place_pages [OF assms(1) object_place [OF assms(1)]] assms(2,3) by (auto simp: clients_def block_of_def)

lemma busy_object:
  assumes "slab_ok st" "busy st {}" "c < SLAB_CACHE_NUM" "s \<in> slabs_of st c"
  shows "\<exists>a. (c, a) \<in> objects st"
proof -
  have core: "slab_core st c s" by (rule slab_okD(3) [OF assms(1,3,4)])
  have "unat (inuse st s) \<noteq> 0" using assms(2-4) by (auto simp: busy_def word_unat_eq_iff)
  then have "length (free_objs st c s) < cap (slab_cache st c)" using core by (auto simp: slab_core_def)
  then have "card (set (free_objs st c s)) < card {..<cap (slab_cache st c)}" using card_length [of "free_objs st c s"] by (simp add: le_less_trans)
  then obtain i where "i < cap (slab_cache st c)" "i \<notin> set (free_objs st c s)" by (metis card_mono finite_set leD lessThan_iff subsetI)
  then show ?thesis using assms(3,4) by (auto simp: objects_iff objs_of_def)
qed

text \<open>Without clients no slab is left, and every page of the pool is free.\<close>

lemma no_clients:
  assumes "slab_ok st" "busy st {}" "clients st = {}"
  shows "slab_pages st = {}" "free_set (phys (smach st)) = pool st"
proof -
  have off: "slabs_of st c = {}" if c: "c < SLAB_CACHE_NUM" "off_slab (slab_cache st c)" for c
  proof (rule ccontr)
    assume "slabs_of st c \<noteq> {}"
    then obtain a where a: "(c, a) \<in> objects st" using busy_object [OF assms(1,2) c(1)] by blast
    then have "a \<in> controls st" using assms(3) by (auto simp: clients_def)
    then obtain d where d: "d < SLAB_CACHE_NUM" "off_slab (slab_cache st d)" "a \<in> slabs_of st d" by (auto simp: controls_def)
    then obtain c1 where c1: "slab_cachep (slab_cache st d) = Some c1" "\<not> off_slab (slab_cache st c1)" using slab_okD(1) [OF assms(1) d(1)] by (auto simp: cache_ok_def)
    then have "(c1, a) \<in> objects st" using slab_okD(2) [OF assms(1) d(1,3)] d(2) by (simp add: slab_wf_def)
    then show False using object_cache_unique [OF assms(1) a] c(2) c1(2) by blast
  qed
  then have ctl: "controls st = {}" by (auto simp: controls_def)
  have "slabs_of st c = {}" if c: "c < SLAB_CACHE_NUM" for c
  proof (rule ccontr)
    assume "slabs_of st c \<noteq> {}"
    then obtain a where a: "(c, a) \<in> objects st" using busy_object [OF assms(1,2) c] by blast
    then show False using assms(3) ctl by (auto simp: clients_def)
  qed
  then show "slab_pages st = {}" by (simp add: slab_pages_def)
  then show "free_set (phys (smach st)) = pool st" by (simp add: pool_def)
qed

text \<open>Clients may write what they want into their objects.\<close>

lemma client_store:
  assumes ok: "slab_ok st" and a: "(c, a) \<in> clients st" "unat x \<in> block_of st (c, a)"
  shows "slab_ok (store x v st)" "same_setup st (store x v st)" "objects (store x v st) = objects st" "controls (store x v st) = controls st"
    "slab_pages (store x v st) = slab_pages st" "busy (store x v st) {} = busy st {}"
proof -
  let ?st = "store x v st"
  show su: "same_setup st ?st" by (simp add: same_setup_def)
  have so: "slabs_of ?st d = slabs_of st d" for d by (simp add: slabs_of_def)
  have k: "keeps_slab st ?st d u" if d: "d < SLAB_CACHE_NUM" "u \<in> slabs_of st d" for d u
  proof -
    have "block_of st (c, a) \<inter> ctrl st d u = {}" using client_ctrl_disjoint [OF ok a(1) d] by (simp add: block_of_def)
    then have "mem ?st y = mem st y" if "unat y \<in> ctrl st d u" for y using that a(2) by auto
    moreover have "run st d u \<inter> free_set (phys (smach st)) = {}" using slab_okD(3) [OF ok d] by (simp add: slab_core_def)
    ultimately show ?thesis by (simp add: keeps_slab_def)
  qed
  have keep: "slab_core ?st d u" "free_objs ?st d u = free_objs st d u" "slab_page ?st u = slab_page st u" "inuse ?st u = inuse st u" "objs_of ?st d u = objs_of st d u" "run ?st d u = run st d u"
    if d: "d < SLAB_CACHE_NUM" "u \<in> slabs_of st d" for d u
  proof -
    note e = slab_keep [OF su k [OF d] slab_okD(3) [OF ok d] ctrl_bound [OF ok d]]
    show "slab_core ?st d u" "free_objs ?st d u = free_objs st d u" "slab_page ?st u = slab_page st u" "inuse ?st u = inuse st u" "run ?st d u = run st d u"
      by (rule e(1), rule e(2), rule e(3), rule e(4), rule e(6))
    show "objs_of ?st d u = objs_of st d u" unfolding objs_of_def e(2,5) store_simps by (rule refl)
  qed
  show ob: "objects ?st = objects st" unfolding set_eq_iff split_paired_All objects_iff so using keep(5) by auto
  show "controls ?st = controls st" by (simp add: controls_def so)
  show "slab_pages ?st = slab_pages st" unfolding slab_pages_def so using keep(6) by simp
  show "busy ?st {} = busy st {}" unfolding busy_def so using keep(4) by simp
  have "slab_wf ?st d u" if d: "d < SLAB_CACHE_NUM" "u \<in> slabs_of st d" for d u
    using slab_okD(2) [OF ok d] keep(1) [OF d] unfolding slab_wf_def ob keep(2) [OF d] keep(3) [OF d] store_simps by blast
  then show "slab_ok ?st" using ok unfolding slab_ok_def store_simps so by blast
qed

lemma kmalloc_ok:
  assumes ok: "slab_ok st" and b: "busy st {}" and n: "0 < n" "n \<le> 0x20000"
  shows "\<exists>c r st'. c < SLAB_CACHE_NUM \<and> unat n \<le> osize (slab_cache st c) \<and> (c = 0 \<or> osize (slab_cache st c) < 2 * unat n)
    \<and> kmalloc n st = Some (r, st') \<and> alloc_ok c st r st' \<and> (r = None \<longleftrightarrow> exhausted c st)"
proof -
  obtain k where k: "slab_getorder n = Some k" using slab_getorder_cases(1) [OF n(1)] n(2) by (cases "slab_getorder n") auto
  note kk = slab_getorder_cases(2) [OF n(1) k]
  let ?c = "k - 5"
  have c: "?c < SLAB_CACHE_NUM" using kk by auto
  have os: "osize (slab_cache st ?c) = 2 ^ k" using slab_okD(1) [OF ok c] kk by (simp add: cache_ok_def)
  have "?c = 0 \<or> osize (slab_cache st ?c) < 2 * unat n"
  proof (cases "k = 5")
    case False
    then have "2 ^ (k - 1) < unat n" "(2::nat) ^ k = 2 * 2 ^ (k - 1)" using kk by (auto simp: power_eq_if)
    then show ?thesis using os by simp
  qed simp
  moreover obtain r st' where "kmem_cache_alloc ?c st = Some (r, st')" "alloc_ok ?c st r st'" "r = None \<longleftrightarrow> exhausted ?c st" using kmem_cache_alloc_ok [OF ok c b] by blast
  moreover have "kmalloc n st = kmem_cache_alloc ?c st" using n(1) k kk by (simp add: kmalloc_def)
  ultimately show ?thesis using c os kk by (intro exI [of _ ?c] exI [of _ r] exI [of _ st']) auto
qed

section \<open>The contract of the kernel allocator\<close>

text \<open>
  What the rest of the kernel relies on: objects that are in use do not overlap, allocation and release
  change the set of live objects by one object, and neither they nor writes to other objects change the
  contents of an object. \<open>live\<close> gives the objects in use by address and size.
\<close>

locale allocator =
  fixes inv :: "'s \<Rightarrow> bool"
    and malloc :: "u32 \<Rightarrow> 's \<Rightarrow> (u32 option \<times> 's) option"
    and free :: "u32 \<Rightarrow> 's \<Rightarrow> 's option"
    and live :: "'s \<Rightarrow> (u32 \<times> nat) set"
    and load :: "'s \<Rightarrow> u32 \<Rightarrow> u32"
    and put :: "u32 \<Rightarrow> u32 \<Rightarrow> 's \<Rightarrow> 's"
    and size_ok :: "u32 \<Rightarrow> bool"
  assumes malloc_law: "inv s \<Longrightarrow> size_ok n \<Longrightarrow> \<exists>r s'. malloc n s = Some (r, s') \<and> inv s' \<and>
      (case r of None \<Rightarrow> live s' = live s | Some a \<Rightarrow> \<exists>m. unat n \<le> m \<and> (a, m) \<notin> live s \<and> live s' = insert (a, m) (live s))"
    and malloc_size: "malloc n s = Some p \<Longrightarrow> inv s \<Longrightarrow> size_ok n"
    and malloc_load: "inv s \<Longrightarrow> malloc n s = Some (r, s') \<Longrightarrow> (a, m) \<in> live s \<Longrightarrow> unat x \<in> {unat a..<unat a + m} \<Longrightarrow> load s' x = load s x"
    and free_law: "inv s \<Longrightarrow> (a, m) \<in> live s \<Longrightarrow> \<exists>s'. free a s = Some s' \<and> inv s' \<and> live s' = live s - {(a, m)}"
    and free_load: "inv s \<Longrightarrow> (a, m) \<in> live s \<Longrightarrow> free a s = Some s' \<Longrightarrow> (b, k) \<in> live s \<Longrightarrow> b \<noteq> a \<Longrightarrow> unat x \<in> {unat b..<unat b + k} \<Longrightarrow> load s' x = load s x"
    and live_disjoint: "inv s \<Longrightarrow> (a, m) \<in> live s \<Longrightarrow> (b, k) \<in> live s \<Longrightarrow> (a, m) \<noteq> (b, k) \<Longrightarrow> {unat a..<unat a + m} \<inter> {unat b..<unat b + k} = {}"
    and live_pos: "inv s \<Longrightarrow> (a, m) \<in> live s \<Longrightarrow> 0 < m"
    and put_law: "inv s \<Longrightarrow> (a, m) \<in> live s \<Longrightarrow> unat x \<in> {unat a..<unat a + m} \<Longrightarrow> inv (put x v s) \<and> live (put x v s) = live s"
    and put_load: "load (put x v s) y = (if y = x then v else load s y)"
begin

lemma live_unique: "inv s \<Longrightarrow> (a, m) \<in> live s \<Longrightarrow> (a, k) \<in> live s \<Longrightarrow> m = k"
  using live_disjoint [of s a m a k] live_pos [of s a m] live_pos [of s a k] by fastforce

text \<open>Allocating and releasing an object leaves the live objects as they were.\<close>

lemma malloc_free:
  assumes "inv s" "malloc n s = Some (Some a, s')"
  obtains s'' where "free a s' = Some s''" "inv s''" "live s'' = live s"
proof -
  obtain m where m: "inv s'" "(a, m) \<notin> live s" "live s' = insert (a, m) (live s)" using malloc_law [OF assms(1) malloc_size [OF assms(2,1)]] assms(2) by auto
  then show ?thesis using free_law [OF m(1), of a m] that by auto
qed

text \<open>A new object is as long as asked for and overlaps no other; its contents survive later calls.\<close>

lemma malloc_fresh:
  assumes "inv s" "malloc n s = Some (Some a, s')" "(b, k) \<in> live s"
  shows "{unat a..<unat a + unat n} \<inter> {unat b..<unat b + k} = {}"
proof -
  obtain m where m: "inv s'" "unat n \<le> m" "(a, m) \<notin> live s" "live s' = insert (a, m) (live s)" using malloc_law [OF assms(1) malloc_size [OF assms(2,1)]] assms(2) by auto
  have "{unat a..<unat a + m} \<inter> {unat b..<unat b + k} = {}" using live_disjoint [OF m(1), of a m b k] m assms(3) by auto
  then show ?thesis using m(2) by fastforce
qed

lemma put_malloc_load:
  assumes "inv s" "(a, m) \<in> live s" "unat x \<in> {unat a..<unat a + m}" "malloc n (put x v s) = Some (r, s')"
  shows "load s' x = v"
  using malloc_load [OF _ assms(4), of a m x] put_law [OF assms(1-3), of v] assms(2,3) by (simp add: put_load)

end

definition live_objects :: "slab_state \<Rightarrow> (u32 \<times> nat) set" where
  "live_objects st = (\<lambda>(c, a). (a, osize (slab_cache st c))) ` clients st"

lemma live_iff: "(a, m) \<in> live_objects st \<longleftrightarrow> (\<exists>c. (c, a) \<in> clients st \<and> m = osize (slab_cache st c))"
  by (auto simp: live_objects_def)

definition heap_inv :: "slab_state \<Rightarrow> bool" where
  "heap_inv st \<longleftrightarrow> slab_ok st \<and> busy st {}"

lemma live_setup: "same_setup st st' \<Longrightarrow> live_objects st' = (\<lambda>(c, a). (a, osize (slab_cache st c))) ` clients st'"
  by (simp add: live_objects_def setup_fields)

lemma live_remove:
  assumes "slab_ok st" "(c, a) \<in> clients st"
  shows "(\<lambda>(c, a). (a, osize (slab_cache st c))) ` (clients st - {(c, a)}) = live_objects st - {(a, osize (slab_cache st c))}"
proof -
  have "d = c" if "(d, a) \<in> clients st" for d using object_cache_unique [OF assms(1)] assms(2) that by (auto simp: clients_def)
  then show ?thesis by (auto simp: live_objects_def)
qed

lemma malloc_live:
  assumes "heap_inv st" "0 < n" "n \<le> 0x20000"
  shows "\<exists>r st'. kmalloc n st = Some (r, st') \<and> heap_inv st' \<and> mem_kept (clients st) st st' \<and>
    (case r of None \<Rightarrow> live_objects st' = live_objects st | Some a \<Rightarrow> \<exists>m. unat n \<le> m \<and> (a, m) \<notin> live_objects st \<and> live_objects st' = insert (a, m) (live_objects st))"
proof -
  obtain c r st' where k: "unat n \<le> osize (slab_cache st c)" "kmalloc n st = Some (r, st')" "alloc_ok c st r st'"
    using kmalloc_ok [OF _ _ assms(2,3), of st] assms(1) unfolding heap_inv_def by blast
  have a: "slab_ok st'" "same_setup st st'" "busy st' {}" "mem_kept (clients st) st st'" using k(3) by (auto simp: alloc_ok_def)
  show ?thesis
  proof (cases r)
    case None
    then have "live_objects st' = live_objects st" using live_setup [OF a(2)] k(3) by (simp add: alloc_ok_def live_objects_def)
    then show ?thesis using k(2) a None by (auto simp: heap_inv_def)
  next
    case (Some b)
    then have b: "(c, b) \<notin> objects st" "clients st' = insert (c, b) (clients st)" using k(3) by (auto simp: alloc_ok_def)
    have l: "live_objects st' = insert (b, osize (slab_cache st c)) (live_objects st)" using live_setup [OF a(2)] b(2) by (simp add: live_objects_def)
    have "(b, osize (slab_cache st c)) \<notin> live_objects st"
    proof
      assume "(b, osize (slab_cache st c)) \<in> live_objects st"
      then obtain d where d: "(d, b) \<in> clients st" by (auto simp: live_iff)
      then have "(d, b) \<in> objects st'" "(c, b) \<in> objects st'" using b(2) clients_in_objects by blast+
      then have "d = c" using object_cache_unique [OF a(1)] by blast
      then show False using d b(1) clients_in_objects by blast
    qed
    then show ?thesis using k(1,2) a l Some by (intro exI [of _ r] exI [of _ st']) (auto simp: heap_inv_def)
  qed
qed

lemma kmalloc_size: "kmalloc n st = Some r \<Longrightarrow> 0 < n \<and> n \<le> 0x20000"
  using slab_getorder_cases(1) [of n] by (auto simp: kmalloc_def not_less [symmetric] split: if_splits bind_splits)

lemma kfree_live:
  assumes "heap_inv st" "(a, m) \<in> live_objects st"
  shows "\<exists>st'. kfree a st = Some st' \<and> heap_inv st' \<and> live_objects st' = live_objects st - {(a, m)} \<and> mem_kept {(c, b) \<in> clients st. b \<noteq> a} st st'"
proof -
  obtain c where c: "(c, a) \<in> clients st" "m = osize (slab_cache st c)" using assms(2) by (auto simp: live_iff)
  obtain st' where f: "kfree a st = Some st'" "free_ok c a st st'" using kfree_ok [OF _ c(1)] assms(1) by (auto simp: heap_inv_def)
  have a: "slab_ok st'" "same_setup st st'" "busy st' {}" "clients st' = clients st - {(c, a)}" "mem_kept (clients st - {(c, a)}) st st'" using f(2) by (auto simp: free_ok_def)
  have "live_objects st' = live_objects st - {(a, m)}" using live_setup [OF a(2)] a(4) live_remove [OF _ c(1)] assms(1) c(2) by (simp add: heap_inv_def)
  moreover have "mem_kept {(c, b) \<in> clients st. b \<noteq> a} st st'" by (rule mem_kept_mono [OF a(5)]) auto
  ultimately show ?thesis using f(1) a by (auto simp: heap_inv_def)
qed

interpretation kma: allocator heap_inv kmalloc kfree live_objects mem store "\<lambda>n. 0 < n \<and> n \<le> 0x20000"
proof (unfold_locales, goal_cases)
  case (1 s n)
  then show ?case using malloc_live [OF 1(1), of n] by blast
next
  case (2 n s r)
  then show ?case using kmalloc_size by blast
next
  case (3 s n r s' a m x)
  then have "mem_kept (clients s) s s'" using malloc_live [OF 3(1), of n] kmalloc_size [OF 3(2)] by auto
  then show ?case using 3(3,4) unfolding mem_kept_def live_iff by blast
next
  case (4 s a m)
  then show ?case using kfree_live by blast
next
  case (5 s a m s' b k x)
  then have "mem_kept {(c, b) \<in> clients s. b \<noteq> a} s s'" using kfree_live [OF 5(1,2)] by auto
  then show ?case using 5(4-6) unfolding mem_kept_def live_iff by blast
next
  case (6 s a m b k)
  then obtain c d where x: "(c, a) \<in> clients s" "m = osize (slab_cache s c)" "(d, b) \<in> clients s" "k = osize (slab_cache s d)" by (auto simp: live_iff)
  then have "(c, a) \<noteq> (d, b)" using 6(4) by auto
  then show ?case using clients_disjoint [of s "(c, a)" "(d, b)"] 6(1) x by (simp add: block_of_def heap_inv_def)
next
  case (7 s a m)
  then obtain c where "(c, a) \<in> clients s" "m = osize (slab_cache s c)" by (auto simp: live_iff)
  then show ?case using osize_pos [of s c] 7(1) by (auto simp: heap_inv_def clients_def objects_def)
next
  case (8 s a m x v)
  then obtain c where c: "(c, a) \<in> clients s" "m = osize (slab_cache s c)" by (auto simp: live_iff)
  have "slab_ok s" using 8(1) by (simp add: heap_inv_def)
  note w = client_store [OF this c(1), of x v]
  show ?case using w 8(1,3) c(2) by (simp add: block_of_def heap_inv_def live_objects_def clients_def)
next
  case (9 x v s y) then show ?case by simp
qed

text \<open>The users of the allocator as a state machine: they allocate, release what they own, and write to it.\<close>

inductive heap_step :: "slab_state \<Rightarrow> slab_state \<Rightarrow> bool" where
  step_kmalloc: "kmalloc n st = Some (r, st') \<Longrightarrow> heap_step st st'"
| step_kfree: "(c, a) \<in> clients st \<Longrightarrow> kfree a st = Some st' \<Longrightarrow> heap_step st st'"
| step_write: "(c, a) \<in> clients st \<Longrightarrow> unat x \<in> block_of st (c, a) \<Longrightarrow> heap_step st (store x v st)"

inductive heap_reachable :: "slab_state \<Rightarrow> slab_state \<Rightarrow> bool" for st0 where
  reach_init: "slab_init st0 = Some st \<Longrightarrow> heap_reachable st0 st"
| reach_heap_step: "heap_reachable st0 st \<Longrightarrow> heap_step st st' \<Longrightarrow> heap_reachable st0 st'"

lemma heap_step_inv:
  assumes "heap_step st st'" "heap_inv st"
  shows "heap_inv st' \<and> pool st' = pool st"
  using assms(1)
proof cases
  case 1: (step_kmalloc n r)
  have i: "slab_ok st" "busy st {}" using assms(2) by (auto simp: heap_inv_def)
  have n: "0 < n" "n \<le> 0x20000" using kmalloc_size [OF 1] by auto
  obtain c where "alloc_ok c st r st'" using kmalloc_ok [OF i n] 1 by auto
  then show ?thesis by (auto simp: alloc_ok_def heap_inv_def)
next
  case 2: (step_kfree c a)
  have i: "slab_ok st" "busy st {}" using assms(2) by (auto simp: heap_inv_def)
  show ?thesis using kfree_ok [OF i(1) 2(1) i(2)] 2(2) by (auto simp: free_ok_def heap_inv_def)
next
  case 3: (step_write c a x v)
  have i: "slab_ok st" "busy st {}" using assms(2) by (auto simp: heap_inv_def)
  show ?thesis using client_store [OF i(1) 3(2,3), of v] i 3(1) by (simp add: heap_inv_def pool_def)
qed

section \<open>A small heap\<close>

definition raw_heap :: slab_state where
  "raw_heap = \<lparr>smach = \<lparr>phys = small_machine, frames = (\<lambda>_ _. 0), cr3 = 0, tlb = (\<lambda>_. None), eflags = 0x200\<rparr>,
     slab_cache = (\<lambda>_. \<lparr>slabs_full = [], slabs_notfull = [], objsize = 0, num = 0, offset = 0, off_slab = False, page_order = 0, slab_cachep = None\<rparr>),
     mem = (\<lambda>_. 0), page_cache = (\<lambda>_. 0), page_slab = (\<lambda>_. 0)\<rparr>"

definition demo_heap :: slab_state where
  "demo_heap = the (slab_init raw_heap)"

lemma demo_heap_ok:
  "slab_init raw_heap = Some demo_heap" "heap_inv demo_heap" "clients demo_heap = {}" "smach demo_heap = smach raw_heap"
  "c < SLAB_CACHE_NUM \<Longrightarrow> slab_cache demo_heap c = booted c (slab_cache raw_heap c)"
proof -
  have "npage small_machine = 6" by code_simp
  then have "buddy_inv (phys (smach raw_heap))" "npage (phys (smach raw_heap)) \<le> 0x38000" using small_machine_spec(2) by (simp_all add: raw_heap_def)
  then obtain st where s: "slab_init raw_heap = Some st" "slab_ok st" "busy st {}" "objects st = {}" "smach st = smach raw_heap" "\<forall>c<SLAB_CACHE_NUM. slab_cache st c = booted c (slab_cache raw_heap c)"
    using slab_init_ok by blast
  then have "demo_heap = st" by (simp add: demo_heap_def)
  then show "slab_init raw_heap = Some demo_heap" "heap_inv demo_heap" "clients demo_heap = {}" "smach demo_heap = smach raw_heap"
    "c < SLAB_CACHE_NUM \<Longrightarrow> slab_cache demo_heap c = booted c (slab_cache raw_heap c)" using s by (auto simp: heap_inv_def clients_def)
qed

lemma demo_not_exhausted: "\<not> exhausted 2 demo_heap"
proof -
  have "slab_cache demo_heap 2 = booted 2 (slab_cache raw_heap 2)" by (rule demo_heap_ok(5)) simp
  then have "page_order (slab_cache demo_heap 2) = 0" "\<not> off_slab (slab_cache demo_heap 2)" by (simp_all add: booted_def boot_table_def)
  moreover have "phys (smach demo_heap) = small_machine" using demo_heap_ok(4) by (simp add: raw_heap_def)
  ultimately show ?thesis using demo_allocs(1) by (auto simp: exhausted_def no_pages_def)
qed

text \<open>A hundred bytes are taken from the cache of 128-byte objects.\<close>

lemma demo_kmalloc:
  obtains a st where "kmalloc 100 demo_heap = Some (Some a, st)" "alloc_ok 2 demo_heap (Some a) st"
proof -
  have i: "slab_ok demo_heap" "busy demo_heap {}" using demo_heap_ok(2) by (auto simp: heap_inv_def)
  obtain c r st where c: "c < SLAB_CACHE_NUM" "100 \<le> osize (slab_cache demo_heap c)" "c = 0 \<or> osize (slab_cache demo_heap c) < 200"
    "kmalloc 100 demo_heap = Some (r, st)" "alloc_ok c demo_heap r st" "r = None \<longleftrightarrow> exhausted c demo_heap"
    using kmalloc_ok [OF i, of 100] by auto
  have "osize (slab_cache demo_heap c) = 2 ^ (c + 5)" using slab_okD(1) [OF i(1) c(1)] by (simp add: cache_ok_def)
  then have "c = 2"
  proof -
    consider "c \<le> 1" | "c = 2" | "3 \<le> c" by linarith
    then show ?thesis
    proof cases
      case 1
      then have "c = 0 \<or> c = 1" by auto
      then show ?thesis using \<open>osize _ = _\<close> c(2) by auto
    next
      case 3
      then have "(2::nat) ^ (3 + 5) \<le> 2 ^ (c + 5)" by (intro power_increasing) auto
      then show ?thesis using \<open>osize _ = _\<close> c(3) 3 by simp
    qed simp
  qed
  then obtain a where "r = Some a" using c(6) demo_not_exhausted by (cases r) auto
  then show ?thesis using that c(4,5) \<open>c = 2\<close> by simp
qed

section \<open>Properties\<close>

text \<open>
  C29: \<^verbatim>\<open>slab_init\<close> never panics. Every cache has objects of its power of two from 32 bytes to 128 KB, slabs
  that hold a control block with a link for each object and all objects, wasting at most an eighth of the
  pages, or a control block that fits in an object of a smaller cache. There are no objects yet, and the
  invariant holds.
\<close>

theorem slab_init_correct:
  assumes "buddy_inv (phys (smach st))" "npage (phys (smach st)) \<le> 0x38000"
  shows "\<exists>st'. slab_init st = Some st' \<and> heap_inv st' \<and> clients st' = {} \<and> pool st' = free_set (phys (smach st)) \<and> smach st' = smach st
    \<and> (\<forall>c<SLAB_CACHE_NUM. let k = slab_cache st' c in unat (objsize k) = 2 ^ (c + 5) \<and> 0 < num k
        \<and> unat (offset k) + unat (num k) * unat (objsize k) \<le> 4096 * 2 ^ page_order k
        \<and> 7 * 4096 * 2 ^ page_order k \<le> 8 * (unat (offset k) + unat (num k) * unat (objsize k))
        \<and> (if off_slab k then \<exists>c'<c. slab_cachep k = Some c' \<and> \<not> off_slab (slab_cache st' c') \<and> 24 + 4 * unat (num k) \<le> unat (objsize (slab_cache st' c'))
           else 24 + 4 * unat (num k) \<le> unat (offset k)))"
proof -
  obtain st' where s: "slab_init st = Some st'" "slab_ok st'" "busy st' {}" "objects st' = {}" "pool st' = free_set (phys (smach st))" "smach st' = smach st"
    "\<forall>c<SLAB_CACHE_NUM. slab_cache st' c = booted c (slab_cache st c)" using slab_init_ok [OF assms] by blast
  have k: "slab_cache st' 0 = booted 0 (slab_cache st 0)" "slab_cache st' 1 = booted 1 (slab_cache st 1)" using s(7) by simp_all
  have "let k = slab_cache st' c in unat (objsize k) = 2 ^ (c + 5) \<and> 0 < num k
        \<and> unat (offset k) + unat (num k) * unat (objsize k) \<le> 4096 * 2 ^ page_order k
        \<and> 7 * 4096 * 2 ^ page_order k \<le> 8 * (unat (offset k) + unat (num k) * unat (objsize k))
        \<and> (if off_slab k then \<exists>c'<c. slab_cachep k = Some c' \<and> \<not> off_slab (slab_cache st' c') \<and> 24 + 4 * unat (num k) \<le> unat (objsize (slab_cache st' c'))
           else 24 + 4 * unat (num k) \<le> unat (offset k))" if c: "c < SLAB_CACHE_NUM" for c
  proof -
    consider "c = 0" | "c = 1" | "c = 2" | "c = 3" | "c = 4" | "c = 5" | "c = 6" | "c = 7" | "c = 8" | "c = 9" | "c = 10" | "c = 11" | "c = 12"
      using c by (auto simp: eval_nat_numeral less_Suc_eq)
    then show ?thesis by cases (simp_all add: s(7) k booted_def boot_table_def)
  qed
  then show ?thesis using s by (auto simp: heap_inv_def clients_def)
qed

theorem slab_init_correct_witness:
  "\<exists>st'. slab_init raw_heap = Some st' \<and> heap_inv st' \<and> pool st' = {0..<6} \<and> unat (objsize (slab_cache st' 12)) = 0x20000"
proof -
  have "npage small_machine = 6" by code_simp
  then have "buddy_inv (phys (smach raw_heap))" "npage (phys (smach raw_heap)) \<le> 0x38000" "free_set (phys (smach raw_heap)) = {0..<6}"
    using small_machine_spec(2,3) by (simp_all add: raw_heap_def)
  then show ?thesis using slab_init_correct [of raw_heap] by (auto simp: Let_def dest!: spec [of _ 12])
qed

text \<open>
  C10: \<^verbatim>\<open>kmalloc\<close> gives out fresh memory. For a size from 1 byte to 128 KB it ends without a panic, takes an
  object of the smallest cache that is large enough, and returns null exactly when that cache has no free
  object and there are no pages for a new slab or its control block. The object is aligned to 16 bytes, lies
  in pages of the allocator, and overlaps neither an object in use nor a control block. The invariant, the
  contents of all objects in use and the interrupt flag are kept.
\<close>

theorem kmalloc_correct:
  assumes "heap_inv st" "0 < n" "n \<le> 0x20000"
  shows "\<exists>c r st'. c < SLAB_CACHE_NUM \<and> unat n \<le> osize (slab_cache st c) \<and> (c = 0 \<or> osize (slab_cache st c) < 2 * unat n)
    \<and> kmalloc n st = Some (r, st') \<and> heap_inv st' \<and> pool st' = pool st \<and> mem_kept (clients st) st st' \<and> eflags (smach st') = eflags (smach st)
    \<and> (r = None \<longleftrightarrow> exhausted c st)
    \<and> (case r of None \<Rightarrow> clients st' = clients st
       | Some a \<Rightarrow> clients st' = insert (c, a) (clients st) \<and> 16 dvd unat a
           \<and> (\<forall>y\<in>block_of st (c, a). (y - 0xC0000000) div 4096 \<in> pool st)
           \<and> (\<forall>o'\<in>clients st. block_of st (c, a) \<inter> block_of st o' = {})
           \<and> (\<forall>d<SLAB_CACHE_NUM. \<forall>s\<in>slabs_of st' d. block_of st (c, a) \<inter> ctrl st' d s = {}))"
proof -
  have i: "slab_ok st" "busy st {}" using assms(1) by (auto simp: heap_inv_def)
  obtain c r st' where c: "c < SLAB_CACHE_NUM" "unat n \<le> osize (slab_cache st c)" "c = 0 \<or> osize (slab_cache st c) < 2 * unat n"
    "kmalloc n st = Some (r, st')" "alloc_ok c st r st'" "r = None \<longleftrightarrow> exhausted c st" using kmalloc_ok [OF i assms(2,3)] by auto
  have a: "slab_ok st'" "same_setup st st'" "busy st' {}" "pool st' = pool st" "mem_kept (clients st) st st'" "eflags (smach st') = eflags (smach st)" using c(5) by (auto simp: alloc_ok_def)
  have bo: "block_of st' x = block_of st x" for x by (simp add: block_of_def setup_fields [OF a(2)])
  have "case r of None \<Rightarrow> clients st' = clients st
       | Some a \<Rightarrow> clients st' = insert (c, a) (clients st) \<and> 16 dvd unat a
           \<and> (\<forall>y\<in>block_of st (c, a). (y - 0xC0000000) div 4096 \<in> pool st)
           \<and> (\<forall>o'\<in>clients st. block_of st (c, a) \<inter> block_of st o' = {})
           \<and> (\<forall>d<SLAB_CACHE_NUM. \<forall>s\<in>slabs_of st' d. block_of st (c, a) \<inter> ctrl st' d s = {})"
  proof (cases r)
    case None
    then show ?thesis using c(5) by (simp add: alloc_ok_def)
  next
    case (Some b)
    then have b: "(c, b) \<notin> objects st" "clients st' = insert (c, b) (clients st)" "(c, b) \<in> clients st'" using c(5) by (auto simp: alloc_ok_def)
    have "block_of st (c, b) \<inter> block_of st o' = {}" if "o' \<in> clients st" for o'
      using clients_disjoint [OF a(1) b(3), of o'] that b(1,2) clients_in_objects unfolding bo by blast
    moreover have "block_of st (c, b) \<inter> ctrl st' d s = {}" if "d < SLAB_CACHE_NUM" "s \<in> slabs_of st' d" for d s
      using client_ctrl_disjoint [OF a(1) b(3) that] bo [of "(c, b)"] by (simp add: block_of_def)
    moreover have "(y - 0xC0000000) div 4096 \<in> pool st" if "y \<in> block_of st (c, b)" for y
      using client_pages [OF a(1) b(3)] that a(4) unfolding bo by (auto simp: pool_def)
    moreover have "16 dvd unat b" using object_aligned [OF a(1)] b(3) clients_in_objects by blast
    ultimately show ?thesis using Some b(2) by simp
  qed
  then show ?thesis using c a by (intro exI [of _ c] exI [of _ r] exI [of _ st']) (auto simp: heap_inv_def)
qed

theorem kmalloc_correct_witness:
  "\<exists>a st'. kmalloc 100 demo_heap = Some (Some a, st') \<and> 16 dvd unat a \<and> heap_inv st' \<and> eflags (smach st') = 0x200"
proof (rule demo_kmalloc)
  fix a st
  assume "kmalloc 100 demo_heap = Some (Some a, st)"
  moreover have "eflags (smach demo_heap) = 0x200" using demo_heap_ok(4) by (simp add: raw_heap_def)
  ultimately show ?thesis using kmalloc_correct [OF demo_heap_ok(2), of 100] by auto
qed

text \<open>
  C11: \<^verbatim>\<open>kfree\<close> takes back exactly the given object: for an object that \<^verbatim>\<open>kmalloc\<close> gave out it ends without a
  panic, through the release of an empty slab and of its control block. All other objects stay in use with
  their contents, the invariant and the interrupt flag are kept, and when the last object goes every page is
  back in the page allocator.
\<close>

theorem kfree_correct:
  assumes "heap_inv st" "(c, a) \<in> clients st"
  shows "\<exists>st'. kfree a st = Some st' \<and> heap_inv st' \<and> clients st' = clients st - {(c, a)} \<and> pool st' = pool st
    \<and> mem_kept (clients st - {(c, a)}) st st' \<and> eflags (smach st') = eflags (smach st)
    \<and> (clients st' = {} \<longrightarrow> free_set (phys (smach st')) = pool st)"
proof -
  have i: "slab_ok st" "busy st {}" using assms(1) by (auto simp: heap_inv_def)
  obtain st' where "kfree a st = Some st'" "free_ok c a st st'" "eflags (smach st') = eflags (smach st)" using kfree_ok [OF i(1) assms(2) i(2)] by blast
  then show ?thesis using no_clients [of st'] by (intro exI [of _ st']) (auto simp: free_ok_def heap_inv_def)
qed

theorem kfree_correct_witness:
  "\<exists>a st st'. kmalloc 100 demo_heap = Some (Some a, st) \<and> kfree a st = Some st' \<and> clients st' = {} \<and> free_set (phys (smach st')) = {0..<6}"
proof (rule demo_kmalloc)
  fix a st
  assume k: "kmalloc 100 demo_heap = Some (Some a, st)" "alloc_ok 2 demo_heap (Some a) st"
  have "slab_pages demo_heap = {}" using no_clients demo_heap_ok(2,3) by (simp add: heap_inv_def)
  then have "pool demo_heap = {0..<6}" using small_machine_spec(3) demo_heap_ok(4) by (simp add: pool_def raw_heap_def)
  moreover have "heap_inv st" "clients st = {(2, a)}" "pool st = pool demo_heap" using k(2) demo_heap_ok(3) by (auto simp: alloc_ok_def heap_inv_def)
  ultimately show ?thesis using k(1) kfree_correct [of st 2 a] by auto
qed

text \<open>
  C12: Memory from \<^verbatim>\<open>kmalloc\<close> is private, and none is lost. In every state that users reach from \<^verbatim>\<open>slab_init\<close> by
  allocating, by releasing what they own and by writing anything to it, the objects in use overlap neither
  each other nor a control block, no further call of \<^verbatim>\<open>kmalloc\<close> with a proper size or \<^verbatim>\<open>kfree\<close> of an object
  panics, and when nothing is in use all pages are free again.
\<close>

theorem heap_isolated:
  assumes "buddy_inv (phys (smach st0))" "npage (phys (smach st0)) \<le> 0x38000" "heap_reachable st0 st"
  shows "(\<forall>x\<in>clients st. \<forall>y\<in>clients st. x \<noteq> y \<longrightarrow> block_of st x \<inter> block_of st y = {})
    \<and> (\<forall>x\<in>clients st. \<forall>d<SLAB_CACHE_NUM. \<forall>s\<in>slabs_of st d. block_of st x \<inter> ctrl st d s = {})
    \<and> (\<forall>n. 0 < n \<and> n \<le> 0x20000 \<longrightarrow> kmalloc n st \<noteq> None) \<and> (\<forall>(c, a)\<in>clients st. kfree a st \<noteq> None)
    \<and> (clients st = {} \<longrightarrow> free_set (phys (smach st)) = free_set (phys (smach st0)))"
proof -
  have r: "heap_inv st \<and> pool st = free_set (phys (smach st0))"
    using assms(3)
  proof induction
    case (reach_init st)
    then show ?case using slab_init_ok [OF assms(1,2)] by (auto simp: heap_inv_def)
  next
    case (reach_heap_step st st')
    then show ?case using heap_step_inv by blast
  qed
  then have i: "slab_ok st" "busy st {}" by (auto simp: heap_inv_def)
  have "block_of st x \<inter> ctrl st d s = {}" if "x \<in> clients st" "d < SLAB_CACHE_NUM" "s \<in> slabs_of st d" for x d s
    using client_ctrl_disjoint [OF i(1) _ that(2,3)] that(1) by (cases x) (simp add: block_of_def)
  moreover have "kmalloc n st \<noteq> None" if "0 < n \<and> n \<le> 0x20000" for n using kmalloc_ok [OF i, of n] that by auto
  moreover have "kfree a st \<noteq> None" if "(c, a) \<in> clients st" for c a using kfree_ok [OF i(1) that i(2)] by auto
  ultimately show ?thesis using clients_disjoint [OF i(1)] no_clients [OF i] r by auto
qed

theorem heap_isolated_witness:
  "\<exists>st. heap_reachable raw_heap st \<and> clients st \<noteq> {} \<and> (\<forall>(c, a)\<in>clients st. kfree a st \<noteq> None)"
proof (rule demo_kmalloc)
  fix a st
  assume k: "kmalloc 100 demo_heap = Some (Some a, st)" "alloc_ok 2 demo_heap (Some a) st"
  have r: "heap_reachable raw_heap st"
    by (rule reach_heap_step [OF reach_init [OF demo_heap_ok(1)] step_kmalloc [OF k(1)]])
  have "npage small_machine = 6" by code_simp
  then have p: "buddy_inv (phys (smach raw_heap))" "npage (phys (smach raw_heap)) \<le> 0x38000" using small_machine_spec(2) by (simp_all add: raw_heap_def)
  have "\<forall>(c, a)\<in>clients st. kfree a st \<noteq> None" using heap_isolated [OF p r] by (elim conjE)
  moreover have "clients st \<noteq> {}" using k(2) by (simp add: alloc_ok_def)
  ultimately show ?thesis using r by (intro exI [of _ st] conjI)
qed

text \<open>
  C30: What a user of \<^verbatim>\<open>kmalloc\<close> sees: releasing the object just allocated restores the set of objects in use,
  and a value written to an object is still there after any later allocation.
\<close>

theorem kmalloc_roundtrip:
  assumes "heap_inv st" "kmalloc n st = Some (Some a, st')"
  shows "(\<exists>st''. kfree a st' = Some st'' \<and> heap_inv st'' \<and> live_objects st'' = live_objects st)
    \<and> (\<forall>x v m r st''. unat x \<in> {unat a..<unat a + unat n} \<and> kmalloc m (store x v st') = Some (r, st'') \<longrightarrow> mem st'' x = v)"
proof (intro conjI allI impI)
  show "\<exists>st''. kfree a st' = Some st'' \<and> heap_inv st'' \<and> live_objects st'' = live_objects st" using kma.malloc_free [OF assms] by blast
  obtain m where m: "heap_inv st'" "unat n \<le> m" "(a, m) \<in> live_objects st'"
    using kma.malloc_law [OF assms(1) kmalloc_size [OF assms(2)]] assms(2) by auto
  fix x v k r st''
  assume x: "unat x \<in> {unat a..<unat a + unat n} \<and> kmalloc k (store x v st') = Some (r, st'')"
  show "mem st'' x = v" by (rule kma.put_malloc_load [OF m(1,3)]) (use x m(2) in auto)
qed

theorem kmalloc_roundtrip_witness:
  "\<exists>a st st'. kmalloc 100 demo_heap = Some (Some a, st) \<and> kfree a st = Some st' \<and> live_objects st' = live_objects demo_heap"
proof (rule demo_kmalloc)
  fix a st
  assume k: "kmalloc 100 demo_heap = Some (Some a, st)"
  from kmalloc_roundtrip [OF demo_heap_ok(2) this] k show ?thesis by blast
qed

text \<open>
  C40: A request of no bytes or of more than 128 KB panics, in \<^verbatim>\<open>kmalloc\<close> or in \<^verbatim>\<open>getorder\<close>; the test
  \<^verbatim>\<open>order > MAX_SIZE_ORDER\<close> behind \<^verbatim>\<open>getorder\<close>, which would return null, is never true. No other request panics.
\<close>

theorem kmalloc_panics:
  assumes "heap_inv st"
  shows "(kmalloc n st = None \<longleftrightarrow> n = 0 \<or> 0x20000 < n) \<and> (\<forall>order. 0 < n \<and> slab_getorder n = Some order \<longrightarrow> \<not> 17 < order)"
proof -
  have i: "slab_ok st" "busy st {}" using assms by (auto simp: heap_inv_def)
  have "kmalloc n st \<noteq> None" if "0 < n" "n \<le> 0x20000" using kmalloc_ok [OF i that] by auto
  moreover have "kmalloc n st = None" if "n = 0 \<or> 0x20000 < n" using that kmalloc_size [of n st] by (cases "kmalloc n st") auto
  ultimately have "kmalloc n st = None \<longleftrightarrow> n = 0 \<or> 0x20000 < n" by (cases "n = 0"; cases "0x20000 < n") (auto simp: word_gt_0)
  moreover have "\<not> 17 < order" if "0 < n" "slab_getorder n = Some order" for order using slab_getorder_cases(2) [OF that] by simp
  ultimately show ?thesis by blast
qed

theorem kmalloc_panics_witness: "kmalloc 0x20001 demo_heap = None"
  using kmalloc_panics [OF demo_heap_ok(2), of "0x20001"] by simp

end
