(* ===== verification/Libs.thy ===== *)
theory Libs
  imports Prelude
begin

text \<open>
  The small routines of \<^verbatim>\<open>lib/\<close> that other components call: the 64-by-32 bit division
  \<^verbatim>\<open>do_div\<close> of \<^verbatim>\<open>arch/x86/generic/include/div64.h\<close> (two 32-bit divisions, one of them the
  \<^verbatim>\<open>divl\<close> instruction, which faults when the quotient does not fit), the multiplicative hash of
  \<^verbatim>\<open>lib/hash.c\<close> and the linear congruential generator of \<^verbatim>\<open>lib/rand.c\<close>.
\<close>

section \<open>Definitions\<close>

text \<open>
  The \<^verbatim>\<open>divl\<close> instruction divides the 64-bit \<^verbatim>\<open>edx:eax\<close> by a 32-bit operand: quotient to
  \<^verbatim>\<open>eax\<close>, remainder to \<^verbatim>\<open>edx\<close>; \<open>None\<close> is the divide-error exception.
\<close>

definition divl :: "u32 \<Rightarrow> u32 \<Rightarrow> u32 \<Rightarrow> (u32 \<times> u32) option" where
  "divl eax edx base =
     (let n = unat edx * 2 ^ 32 + unat eax in
      if base = 0 \<or> n div unat base \<ge> 2 ^ 32 then None
      else Some (of_nat (n div unat base), of_nat (n mod unat base)))"

definition do_div :: "u64 \<Rightarrow> u32 \<Rightarrow> (u64 \<times> u32) option" where
  "do_div n base =
     (let low = ucast n :: u32; high = ucast (drop_bit 32 n) :: u32;
          (upper, high') = (if high \<noteq> 0 then (high mod base, high div base) else (high, high))
      in case divl low upper base of
           None \<Rightarrow> None
         | Some (low', m) \<Rightarrow> Some (push_bit 32 (ucast high') OR ucast low', m))"

definition hash32 :: "u32 \<Rightarrow> nat \<Rightarrow> u32" where
  "hash32 val bits = drop_bit (32 - bits) (val * 0x9e370001)"

text \<open>The generator keeps a 64-bit \<^verbatim>\<open>next\<close>; \<open>rand\<close> returns its value and the new state.\<close>

definition rand :: "u64 \<Rightarrow> (u32 \<times> u64) option" where
  "rand next =
     (let next' = (next * 0x5DEECE66D + 0xB) AND (push_bit 48 1 - 1);
          result = drop_bit 12 next'
      in map_option (\<lambda>(q, r). (r, next')) (do_div result (2147483647 + 1)))"

definition srand :: "u32 \<Rightarrow> u64" where
  "srand seed = ucast seed"

section \<open>Lemmas\<close>

lemma two_step_division:
  fixes h l b :: nat
  assumes "0 < b" "l < B" "0 < B"
  shows "(h mod b * B + l) div b < B"
    "(h * B + l) div b = (h div b) * B + (h mod b * B + l) div b"
    "(h * B + l) mod b = (h mod b * B + l) mod b"
proof -
  have "h mod b * B + l < b * B"
  proof -
    have "h mod b + 1 \<le> b" using assms(1) by (simp add: Suc_leI)
    then have "(h mod b + 1) * B \<le> b * B" by (rule mult_le_mono1)
    with assms(2) show ?thesis by simp
  qed
  then show "(h mod b * B + l) div b < B"
    by (simp add: less_mult_imp_div_less mult.commute)
  have "h * B = b * (h div b * B) + h mod b * B"
    by (metis add_mult_distrib mult.assoc mult_div_mod_eq)
  then have eq: "h * B + l = b * (h div b * B) + (h mod b * B + l)" by simp
  show "(h * B + l) div b = (h div b) * B + (h mod b * B + l) div b"
    unfolding eq using assms(1) by simp
  show "(h * B + l) mod b = (h mod b * B + l) mod b"
    unfolding eq using assms(1) by simp
qed

lemma split_u64:
  fixes n :: u64
  shows "unat n = unat (ucast (drop_bit 32 n) :: u32) * 2 ^ 32 + unat (ucast n :: u32)"
proof -
  have "unat n < 2 ^ 64" using unsigned_less [of n, where ?'a = nat] by simp
  then have "unat (drop_bit 32 n) < 2 ^ 32"
    by (simp add: drop_bit_eq_div unat_div less_mult_imp_div_less)
  then have "unat (ucast (drop_bit 32 n) :: u32) = unat n div 2 ^ 32" "unat (ucast n :: u32) = unat n mod 2 ^ 32"
    by (simp_all add: unsigned_ucast_eq take_bit_eq_mod drop_bit_eq_div unat_div)
  then show ?thesis by simp
qed

lemma join_arith:
  fixes h l :: nat
  assumes "h < 4294967296" "l < 4294967296"
  shows "(h mod 18446744073709551616 * 4294967296 mod 18446744073709551616 + l mod 18446744073709551616)
    mod 18446744073709551616 = h * 4294967296 + l"
  using assms by simp

lemma join_u64:
  fixes h l :: u32
  shows "unat (push_bit 32 (ucast h) OR ucast l :: u64) = unat h * 2 ^ 32 + unat l"
proof -
  have "(push_bit 32 (ucast h) :: u64) AND ucast l = 0"
    by (rule bit_word_eqI) (auto simp: bit_simps dest: bit_imp_le_length)
  then have "(push_bit 32 (ucast h) OR ucast l :: u64) = push_bit 32 (ucast h) + ucast l"
    by (simp add: disjunctive_add_eq_or)
  also have "unat \<dots> = unat h * 2 ^ 32 + unat l"
    by (simp add: unat_word_ariths unsigned_push_bit_eq push_bit_eq_mult unsigned_ucast_eq take_bit_eq_mod join_arith)
  finally show ?thesis .
qed

lemma divl_ok:
  assumes "0 < unat b" "(unat d * 2 ^ 32 + unat a) div unat b < 2 ^ 32"
  shows "\<exists>q r. divl a d b = Some (q, r) \<and> unat q = (unat d * 2 ^ 32 + unat a) div unat b
    \<and> unat r = (unat d * 2 ^ 32 + unat a) mod unat b"
proof -
  have "(unat d * 2 ^ 32 + unat a) mod unat b < 2 ^ 32"
    by (rule less_trans [OF mod_less_divisor [OF assms(1)]]) simp
  with assms show ?thesis by (auto simp: divl_def Let_def unat_of_nat)
qed

lemma do_div_ok:
  assumes "base \<noteq> 0"
  shows "\<exists>q r. do_div n base = Some (q, r) \<and> unat q = unat n div unat base \<and> unat r = unat n mod unat base"
proof -
  define low where "low = (ucast n :: u32)"
  define high where "high = (ucast (drop_bit 32 n) :: u32)"
  have n: "unat n = unat high * 2 ^ 32 + unat low"
    unfolding low_def high_def by (rule split_u64)
  have b: "0 < unat base" using assms by (simp add: unat_gt_0)
  note div = two_step_division [OF b, of "unat low" "2 ^ 32" "unat high"]
  obtain q r where qr: "divl low (high mod base) base = Some (q, r)"
    "unat q = (unat high mod unat base * 2 ^ 32 + unat low) div unat base"
    "unat r = (unat high mod unat base * 2 ^ 32 + unat low) mod unat base"
    using divl_ok [OF b, of "high mod base" low] div(1) by (auto simp: unat_mod)
  have "(if high \<noteq> 0 then (high mod base, high div base) else (high, high)) = (high mod base, high div base)"
    by simp
  then have "do_div n base = Some (push_bit 32 (ucast (high div base)) OR ucast q, r)"
    using qr(1) unfolding do_div_def Let_def low_def [symmetric] high_def [symmetric] by simp
  moreover have "unat (push_bit 32 (ucast (high div base)) OR ucast q :: u64) = unat n div unat base"
    using div(2) qr(2) by (simp add: join_u64 n unat_div)
  moreover have "unat r = unat n mod unat base"
    using div(3) qr(3) by (simp add: n)
  ultimately show ?thesis by blast
qed

lemma hash32_less: "bits \<le> 31 \<Longrightarrow> hash32 val bits < 2 ^ bits"
proof -
  assume bits: "bits \<le> 31"
  have "2 ^ 32 = 2 ^ (32 - bits) * (2 :: nat) ^ bits"
    using bits by (simp add: power_add [symmetric])
  then have "unat (val * 0x9e370001) < 2 ^ (32 - bits) * 2 ^ bits"
    using unat_u32_less [of "val * 0x9e370001"] by (simp del: unat_u32_less)
  then have "drop_bit (32 - bits) (unat (val * 0x9e370001)) < 2 ^ bits"
    by (simp add: drop_bit_eq_div less_mult_imp_div_less mult.commute)
  moreover have "unat (2 ^ bits :: u32) = 2 ^ bits"
    using bits by (simp add: unat_power_2)
  ultimately show ?thesis
    by (simp only: hash32_def word_less_nat_alt unsigned_drop_bit_eq) (simp add: take_bit_eq_mod)
qed

lemma rand_range: "\<exists>r next'. rand next = Some (r, next') \<and> r \<le> 2147483647 \<and> next' < 2 ^ 48"
proof -
  let ?n = "(next * 0x5DEECE66D + 0xB) AND (push_bit 48 1 - 1) :: u64"
  obtain q r where qr: "do_div (drop_bit 12 ?n) 2147483648 = Some (q, r)"
    "unat r = unat (drop_bit 12 ?n) mod 2147483648"
    using do_div_ok [of 2147483648 "drop_bit 12 ?n"] by auto
  have "r \<le> 2147483647"
    using qr(2) by (simp add: word_le_nat_alt)
  moreover have "?n \<le> push_bit 48 1 - 1" by (rule word_and_le1)
  then have "?n < 2 ^ 48" by (simp add: word_le_nat_alt word_less_nat_alt)
  ultimately show ?thesis using qr(1) by (simp add: rand_def Let_def)
qed

section \<open>Properties\<close>

text \<open>
  C38: \<^verbatim>\<open>do_div\<close> computes the exact 64-by-32 bit quotient and remainder for every dividend and every
  non-zero divisor, by two 32-bit divisions of which the second never raises the divide error; a
  zero divisor always does.
\<close>

theorem do_div_correct:
  "do_div n base =
     (if base = 0 then None
      else Some (n div ucast base, ucast (n mod ucast base)))"
proof (cases "base = 0")
  case True
  then show ?thesis by (simp add: do_div_def divl_def Let_def)
next
  case False
  have b: "unat (ucast base :: u64) = unat base"
    using unat_u32_less [of base] by (simp add: unsigned_ucast_eq take_bit_eq_mod del: unat_u32_less)
  obtain q r where "do_div n base = Some (q, r)" "unat q = unat n div unat base" "unat r = unat n mod unat base"
    using do_div_ok [OF False, of n] by blast
  moreover from this have "q = n div ucast base"
    by (simp add: word_eq_iff_unsigned [where ?'a = nat] unat_div b)
  moreover have "unat n mod unat base < 2 ^ 32"
    by (rule less_trans [OF mod_less_divisor]) (use False in \<open>simp_all add: unat_gt_0\<close>)
  ultimately have "unat r = unat (ucast (n mod ucast base) :: u32)"
    by (subst unsigned_ucast_eq) (simp add: take_bit_eq_mod unat_mod b)
  then have "r = ucast (n mod ucast base)"
    by (simp only: word_eq_iff_unsigned [where ?'a = nat])
  with \<open>do_div n base = Some (q, r)\<close> \<open>q = n div ucast base\<close> False show ?thesis by simp
qed

text \<open>
  The hash stays in its table, and the generator in its range. For \<open>bits \<le> 31\<close> the value of
  \<^verbatim>\<open>hash32\<close> is below \<open>2 ^ bits\<close>, so that it indexes \<^verbatim>\<open>hash_list\<close>; \<^verbatim>\<open>rand\<close> always returns, with
  a value in \<^verbatim>\<open>[0, RAND_MAX]\<close>, and keeps its state below \<open>2 ^ 48\<close>.
\<close>

lemma hash_rand_bounds:
  assumes "bits \<le> 31"
  shows "hash32 val bits < 2 ^ bits
    \<and> (\<exists>r next'. rand next = Some (r, next') \<and> r \<le> 2147483647 \<and> next' < 2 ^ 48)"
  using hash32_less [OF assms, of val] rand_range [of "next"] by blast

end
