(* ===== verification/Proc.thy ===== *)
theory Proc
  imports Shmem Libs
begin

text \<open>
  Kernel threads and the scheduler: \<^verbatim>\<open>kern/process/proc.c\<close> and \<^verbatim>\<open>kern/schedule/sched.c\<close>.

  The state extends the one of theory Shmem with the process descriptors, which are named by their
  address, the process list, the hash table by process number, the registers of the processor and
  the frames saved on the kernel stacks. The flags that nested critical sections have saved on the
  kernel stack of a thread are a list of words per thread; a thread that has not run yet holds the
  flags its trap frame will restore. \<open>None\<close> is a panic, a null pointer that is followed or a loop
  that does not end.
\<close>

section \<open>Definitions\<close>

datatype proc_state = PROC_UNINIT | PROC_SLEEPING | PROC_RUNNABLE | PROC_ZOMBIE

record cpu_context =
  c_eip :: u32
  c_esp :: u32
  c_ebx :: u32
  c_ecx :: u32
  c_edx :: u32
  c_esi :: u32
  c_edi :: u32
  c_ebp :: u32

record pushregs =
  reg_edi :: u32
  reg_esi :: u32
  reg_ebp :: u32
  reg_oesp :: u32
  reg_ebx :: u32
  reg_edx :: u32
  reg_ecx :: u32
  reg_eax :: u32

record trapframe =
  tf_regs :: pushregs
  tf_es :: u16
  tf_ds :: u16
  tf_trapno :: u32
  tf_err :: u32
  tf_eip :: u32
  tf_cs :: u16
  tf_eflags :: u32
  tf_esp :: u32
  tf_ss :: u16

record proc_struct =
  pstate :: proc_state
  pid :: int
  runs :: u32
  kstack :: u32
  need_resched :: bool
  pparent :: "nat option"
  pmm :: "nat option"
  pcontext :: cpu_context
  ptf :: u32
  pgdir_addr :: u32
  pflags :: u32
  pname :: "u8 list"

record ksys = kmem +
  procs :: "nat \<Rightarrow> proc_struct"
  proc_list :: "nat list"
  hash_list :: "nat \<Rightarrow> nat list"
  idleproc :: "nat option"
  initproc :: "nat option"
  current :: "nat option"
  nr_process :: int
  last_pid :: int
  next_safe :: int
  tss :: taskstate
  cpu :: cpu_context
  tfs :: "u32 \<Rightarrow> trapframe"
  kflags :: "nat \<Rightarrow> u32 list"
  boot_pgdir_p :: u32

text \<open>Addresses the linker fixes.\<close>

record symbols =
  kernel_thread_entry :: u32
  forkret :: u32
  init_main :: u32
  bootstack :: u32

abbreviation (input) PROC_NAME_LEN :: nat where "PROC_NAME_LEN \<equiv> 15"
abbreviation (input) MAX_PROCESS :: int where "MAX_PROCESS \<equiv> 4096"
abbreviation (input) MAX_PID :: int where "MAX_PID \<equiv> 8192"
abbreviation (input) HASH_SHIFT :: nat where "HASH_SHIFT \<equiv> 10"
abbreviation (input) KSTACKPAGE :: nat where "KSTACKPAGE \<equiv> 2"
abbreviation (input) KSTACKSIZE :: u32 where "KSTACKSIZE \<equiv> 0x2000"
abbreviation (input) CLONE_VM :: u32 where "CLONE_VM \<equiv> 0x100"
abbreviation (input) KERNEL_CS :: u16 where "KERNEL_CS \<equiv> 8"
abbreviation (input) E_NO_FREE_PROC :: int where "E_NO_FREE_PROC \<equiv> 5"

definition zero_context :: cpu_context where
  "zero_context = \<lparr>c_eip = 0, c_esp = 0, c_ebx = 0, c_ecx = 0, c_edx = 0, c_esi = 0, c_edi = 0, c_ebp = 0\<rparr>"

definition zero_regs :: pushregs where
  "zero_regs = \<lparr>reg_edi = 0, reg_esi = 0, reg_ebp = 0, reg_oesp = 0, reg_ebx = 0, reg_edx = 0, reg_ecx = 0, reg_eax = 0\<rparr>"

definition upd_proc :: "nat \<Rightarrow> (proc_struct \<Rightarrow> proc_struct) \<Rightarrow> ksys \<Rightarrow> ksys" where
  "upd_proc p f st = st\<lparr>procs := (procs st)(p := f (procs st p))\<rparr>"

subsection \<open>Descriptors and process numbers\<close>

definition alloc_proc :: "ksys \<Rightarrow> nat option \<times> ksys" where
  "alloc_proc st =
     (case kmalloc st of
        (None, st) \<Rightarrow> (None, st)
      | (Some p, st) \<Rightarrow>
          (Some p, upd_proc p (\<lambda>q. \<lparr>pstate = PROC_UNINIT, pid = -1, runs = 0, kstack = 0, need_resched = False,
             pparent = None, pmm = None, pcontext = zero_context, ptf = 0, pgdir_addr = boot_pgdir_p st, pflags = 0,
             pname = replicate PROC_NAME_LEN 0 @ drop PROC_NAME_LEN (pname q)\<rparr>) st))"

text \<open>The new name is read through a pointer, always 15 bytes.\<close>

definition set_proc_name :: "nat \<Rightarrow> (nat \<Rightarrow> u8) \<Rightarrow> ksys \<Rightarrow> ksys" where
  "set_proc_name p name = upd_proc p (pname_update (\<lambda>_. map name [0..<PROC_NAME_LEN] @ [0]))"

definition get_proc_name :: "nat \<Rightarrow> ksys \<Rightarrow> u8 list" where
  "get_proc_name p st = take PROC_NAME_LEN (pname (procs st p)) @ [0]"

text \<open>
  The scan of \<^verbatim>\<open>get_pid\<close>: \<open>pids\<close> are the numbers in the process list, \<open>rest\<close> what follows the
  current link.
\<close>

partial_function (option) pid_scan :: "int list \<Rightarrow> int list \<Rightarrow> int \<Rightarrow> int \<Rightarrow> (int \<times> int) option" where
  "pid_scan pids rest n safe =
     (case rest of
        [] \<Rightarrow> Some (n, safe)
      | p # ps \<Rightarrow>
          if p = n then
            if n + 1 \<ge> safe then pid_scan pids pids (if n + 1 \<ge> MAX_PID then 1 else n + 1) MAX_PID
            else pid_scan pids ps (n + 1) safe
          else if p > n \<and> safe > p then pid_scan pids ps n p
          else pid_scan pids ps n safe)"

definition get_pid :: "ksys \<Rightarrow> (int \<times> ksys) option" where
  "get_pid st = do {
     let pids = map (\<lambda>p. pid (procs st p)) (proc_list st);
     (n, safe) \<leftarrow>
       (if last_pid st + 1 \<ge> MAX_PID then pid_scan pids pids 1 MAX_PID
        else if last_pid st + 1 \<ge> next_safe st then pid_scan pids pids (last_pid st + 1) MAX_PID
        else Some (last_pid st + 1, next_safe st));
     Some (n, st\<lparr>last_pid := n, next_safe := safe\<rparr>)
   }"

definition pid_hashfn :: "int \<Rightarrow> nat" where
  "pid_hashfn x = unat (hash32 (of_int x) HASH_SHIFT)"

definition hash_proc :: "nat \<Rightarrow> ksys \<Rightarrow> ksys" where
  "hash_proc p st =
     (let b = pid_hashfn (pid (procs st p))
      in st\<lparr>hash_list := (hash_list st)(b := p # hash_list st b)\<rparr>)"

definition find_proc :: "int \<Rightarrow> ksys \<Rightarrow> nat option" where
  "find_proc n st =
     (if 0 < n \<and> n < MAX_PID then find (\<lambda>p. pid (procs st p) = n) (hash_list st (pid_hashfn n)) else None)"

subsection \<open>Interrupt flags and context switches\<close>

definition irq_save :: "nat \<Rightarrow> ksys \<Rightarrow> ksys" where
  "irq_save c st =
     (case local_irq_save (mach st) of (fl, m) \<Rightarrow> st\<lparr>mach := m, kflags := (kflags st)(c := fl # kflags st c)\<rparr>)"

definition irq_restore :: "nat \<Rightarrow> ksys \<Rightarrow> ksys" where
  "irq_restore c st =
     st\<lparr>mach := local_irq_restore (hd (kflags st c)) (mach st), kflags := (kflags st)(c := tl (kflags st c))\<rparr>"

text \<open>\<^verbatim>\<open>switch_to\<close> of \<^verbatim>\<open>switch.S\<close>: the registers go to one context and come from the other.\<close>

definition switch_to :: "nat \<Rightarrow> nat \<Rightarrow> ksys \<Rightarrow> ksys" where
  "switch_to prev next st =
     (let st = upd_proc prev (pcontext_update (\<lambda>_. cpu st)) st in st\<lparr>cpu := pcontext (procs st next)\<rparr>)"

text \<open>\<^verbatim>\<open>proc_run\<close> up to the point where the next thread continues, which restores its own flags.\<close>

definition proc_run :: "nat \<Rightarrow> ksys \<Rightarrow> ksys option" where
  "proc_run p st =
     (if Some p = current st then Some st
      else do {
        prev \<leftarrow> current st;
        let st = irq_save prev st;
        let st = st\<lparr>current := Some p\<rparr>;
        let st = st\<lparr>tss := load_esp0 (kstack (procs st p) + KSTACKSIZE) (tss st)\<rparr>;
        let st = st\<lparr>mach := lcr3 (pgdir_addr (procs st p)) (mach st)\<rparr>;
        let st = switch_to prev p st;
        Some (irq_restore p st)
      })"

subsection \<open>Scheduling\<close>

definition wakeup_proc :: "nat \<Rightarrow> ksys \<Rightarrow> ksys option" where
  "wakeup_proc p st = do {
     kassert (pstate (procs st p) \<noteq> PROC_ZOMBIE \<and> pstate (procs st p) \<noteq> PROC_RUNNABLE);
     Some (upd_proc p (pstate_update (\<lambda>_. PROC_RUNNABLE)) st)
   }"

text \<open>
  The links the search of \<^verbatim>\<open>schedule\<close> visits, without the list head: the whole list for the idle
  thread, otherwise from the link after the current thread round to the current thread.
\<close>

definition sched_order :: "ksys \<Rightarrow> nat list" where
  "sched_order st =
     (case current st of
        None \<Rightarrow> proc_list st
      | Some c \<Rightarrow>
          if current st = idleproc st then proc_list st
          else tl (dropWhile (\<lambda>p. p \<noteq> c) (proc_list st)) @ takeWhile (\<lambda>p. p \<noteq> c) (proc_list st) @ [c])"

fun sched_search :: "ksys \<Rightarrow> nat list \<Rightarrow> nat option \<Rightarrow> nat option" where
  "sched_search st [] next = next"
| "sched_search st (p # ps) next =
     (if pstate (procs st p) = PROC_RUNNABLE then Some p else sched_search st ps (Some p))"

definition schedule :: "ksys \<Rightarrow> ksys option" where
  "schedule st = do {
     c \<leftarrow> current st;
     let st = irq_save c st;
     let st = upd_proc c (need_resched_update (\<lambda>_. False)) st;
     let next = sched_search st (sched_order st) None;
     next \<leftarrow> (case next of
         None \<Rightarrow> idleproc st
       | Some p \<Rightarrow> if pstate (procs st p) \<noteq> PROC_RUNNABLE then idleproc st else Some p);
     let st = upd_proc next (\<lambda>q. q\<lparr>runs := runs q + 1\<rparr>) st;
     st \<leftarrow> (if Some next \<noteq> current st then proc_run next st else Some st);
     Some (irq_restore next st)
   }"

text \<open>One round of the loop of the idle thread.\<close>

definition cpu_idle_step :: "ksys \<Rightarrow> ksys option" where
  "cpu_idle_step st = do {
     c \<leftarrow> current st;
     if need_resched (procs st c) then schedule st else Some st
   }"

subsection \<open>Creating threads\<close>

definition setup_kstack :: "nat \<Rightarrow> ksys \<Rightarrow> (int \<times> ksys) option" where
  "setup_kstack p st = do {
     (page, st) \<leftarrow> on_mach (alloc_pages KSTACKPAGE) st;
     case page of
       None \<Rightarrow> Some (- E_NO_MEM, st)
     | Some pg \<Rightarrow> do {
         frame \<leftarrow> page2kva pg (mach st);
         Some (0, upd_proc p (kstack_update (\<lambda>_. KERNBASE + page2pa frame)) st)
       }
   }"

definition put_kstack :: "nat \<Rightarrow> ksys \<Rightarrow> ksys option" where
  "put_kstack p st = do {
     page \<leftarrow> kva2page (kstack (procs st p)) (mach st);
     do_mach (free_pages page KSTACKPAGE) st
   }"

definition copy_mm :: "u32 \<Rightarrow> nat \<Rightarrow> ksys \<Rightarrow> int option" where
  "copy_mm clone_flags p st = do {
     c \<leftarrow> current st;
     kassert (pmm (procs st c) = None);
     Some 0
   }"

text \<open>The trap frame lies at the top of the kernel stack and takes 68 bytes.\<close>

definition copy_thread :: "symbols \<Rightarrow> nat \<Rightarrow> u32 \<Rightarrow> trapframe \<Rightarrow> ksys \<Rightarrow> ksys" where
  "copy_thread sy p esp tf st =
     (let a = kstack (procs st p) + KSTACKSIZE - 68;
          tf' = tf\<lparr>tf_regs := (tf_regs tf)\<lparr>reg_eax := 0\<rparr>, tf_esp := esp, tf_eflags := tf_eflags tf OR FL_IF\<rparr>;
          st = st\<lparr>tfs := (tfs st)(a := tf'), kflags := (kflags st)(p := [tf_eflags tf', tf_eflags tf'])\<rparr>
      in upd_proc p (\<lambda>q. q\<lparr>ptf := a, pcontext := (pcontext q)\<lparr>c_eip := forkret sy, c_esp := a\<rparr>\<rparr>) st)"

definition add_proc :: "nat \<Rightarrow> ksys \<Rightarrow> ksys option" where
  "add_proc p st = do {
     c \<leftarrow> current st;
     let st = irq_save c st;
     (n, st) \<leftarrow> get_pid st;
     let st = hash_proc p (upd_proc p (pid_update (\<lambda>_. n)) st);
     let st = st\<lparr>proc_list := p # proc_list st, nr_process := nr_process st + 1\<rparr>;
     Some (irq_restore c st)
   }"

definition do_fork :: "symbols \<Rightarrow> u32 \<Rightarrow> u32 \<Rightarrow> trapframe \<Rightarrow> ksys \<Rightarrow> (int \<times> ksys) option" where
  "do_fork sy clone_flags stack tf st =
     (if nr_process st \<ge> MAX_PROCESS then Some (- E_NO_FREE_PROC, st)
      else case alloc_proc st of
        (None, st) \<Rightarrow> Some (- E_NO_MEM, st)
      | (Some p, st) \<Rightarrow> do {
          let st = upd_proc p (pparent_update (\<lambda>_. current st)) st;
          (r, st) \<leftarrow> setup_kstack p st;
          if r \<noteq> 0 then Some (- E_NO_MEM, kfree p st)
          else do {
            r \<leftarrow> copy_mm clone_flags p st;
            if r \<noteq> 0 then do { st \<leftarrow> put_kstack p st; Some (- E_NO_MEM, kfree p st) }
            else do {
              let st = copy_thread sy p stack tf st;
              st \<leftarrow> add_proc p st;
              st \<leftarrow> wakeup_proc p st;
              Some (pid (procs st p), st)
            }
          }
        })"

definition kernel_thread :: "symbols \<Rightarrow> u32 \<Rightarrow> u32 \<Rightarrow> u32 \<Rightarrow> ksys \<Rightarrow> (int \<times> ksys) option" where
  "kernel_thread sy fn arg clone_flags =
     do_fork sy (clone_flags OR CLONE_VM) 0
       \<lparr>tf_regs = zero_regs\<lparr>reg_ebx := fn, reg_edx := arg\<rparr>, tf_es = KERNEL_DS, tf_ds = KERNEL_DS, tf_trapno = 0,
        tf_err = 0, tf_eip = kernel_thread_entry sy, tf_cs = KERNEL_CS, tf_eflags = 0, tf_esp = 0, tf_ss = KERNEL_DS\<rparr>"

definition do_exit :: "int \<Rightarrow> ksys \<Rightarrow> (int \<times> ksys) option" where
  "do_exit error_code st = None"

text \<open>\<open>idle_name\<close> and \<open>init_name\<close> are the bytes at the two name literals, \<open>arg\<close> the address of the greeting.\<close>

definition proc_init :: "symbols \<Rightarrow> (nat \<Rightarrow> u8) \<Rightarrow> (nat \<Rightarrow> u8) \<Rightarrow> u32 \<Rightarrow> ksys \<Rightarrow> ksys option" where
  "proc_init sy idle_name init_name arg st =
     (let st = st\<lparr>proc_list := [], hash_list := (\<lambda>_. [])\<rparr> in
      case alloc_proc st of
        (None, st) \<Rightarrow> None
      | (Some idle, st) \<Rightarrow> do {
          let st = st\<lparr>idleproc := Some idle\<rparr>;
          let st = upd_proc idle (\<lambda>q. q\<lparr>pid := 0, pstate := PROC_RUNNABLE, kstack := bootstack sy, need_resched := True\<rparr>) st;
          let st = set_proc_name idle idle_name st;
          let st = st\<lparr>nr_process := nr_process st + 1, current := Some idle\<rparr>;
          (n, st) \<leftarrow> kernel_thread sy (init_main sy) arg 0 st;
          kassert (\<not> n \<le> 0);
          let st = st\<lparr>initproc := find_proc n st\<rparr>;
          i \<leftarrow> initproc st;
          let st = set_proc_name i init_name st;
          kassert (idleproc st \<noteq> None \<and> pid (procs st idle) = 0);
          kassert (pid (procs st i) = 1);
          Some st
        })"

end
