(* ===== verification/ProcTable.thy ===== *)
theory ProcTable
  imports Proc
begin

text \<open>
  Correctness of the process table and the scheduler. The invariant \<open>procs_ok\<close> says that process
  numbers are valid and unique and index the hash table, that the range \<^verbatim>\<open>get_pid\<close> hands out without
  a search is unused, that free objects, the idle thread and the listed threads are distinct, that
  kernel stacks are allocated and disjoint, and that every thread that is not running has two saved
  flag words on its stack, from \<^verbatim>\<open>schedule\<close> and \<^verbatim>\<open>proc_run\<close>.
\<close>

section \<open>Process numbers\<close>

text \<open>How far the search is from a free number, going up and starting again at 1.\<close>

definition pid_dist :: "int \<Rightarrow> int \<Rightarrow> nat" where
  "pid_dist f n = nat (if n \<le> f then f - n else f - n + (MAX_PID - 1))"

definition pid_valid :: "int \<Rightarrow> bool" where
  "pid_valid n \<longleftrightarrow> 1 \<le> n \<and> n < MAX_PID"

definition safe_range :: "int set \<Rightarrow> int \<Rightarrow> int \<Rightarrow> bool" where
  "safe_range P n safe \<longleftrightarrow> safe \<le> MAX_PID \<and> (\<forall>p\<in>P. \<not> (n < p \<and> p < safe))"

lemma pid_dist_step:
  assumes "pid_valid f" "pid_valid n" "f \<noteq> n"
  shows "pid_dist f (if n + 1 \<ge> MAX_PID then 1 else n + 1) < pid_dist f n" "n + 1 < MAX_PID \<Longrightarrow> pid_dist f (n + 1) < pid_dist f n"
  using assms by (auto simp: pid_dist_def pid_valid_def split: if_splits)

lemma pid_scan_ok:
  assumes "pids = pre @ rest" "pid_valid n" "n < safe" "safe_range (set pre) n safe" "n \<notin> set pre" "pid_valid f" "f \<notin> set pids"
  shows "\<exists>m s. pid_scan pids rest n safe = Some (m, s) \<and> pid_valid m \<and> m < s \<and> m \<notin> set pids \<and> safe_range (set pids) m s"
  using assms
proof (induction "(pid_dist f n, length rest)" arbitrary: pre rest n safe rule: wf_induct_rule [OF wf_lex_prod [OF wf_less_than wf_less_than]])
  case (1 rest n pre safe)
  show ?case
  proof (cases rest)
    case Nil
    then show ?thesis using 1(2-) by (subst pid_scan.simps) simp
  next
    case (Cons p ps)
    note IH = 1(1) [OF _ _ _ _ _ _ 1(7,8)]
    have pid: "p \<in> set pids" using 1(2) Cons by simp
    show ?thesis
    proof (cases "p = n")
      case True
      then have nf: "f \<noteq> n" using pid 1(8) by auto
      note d = pid_dist_step [OF 1(7) 1(3) nf]
      show ?thesis
      proof (cases "n + 1 \<ge> safe")
        case True
        let ?n = "if n + 1 \<ge> MAX_PID then 1 else n + 1"
        have "\<exists>m s. pid_scan pids pids ?n MAX_PID = Some (m, s) \<and> pid_valid m \<and> m < s \<and> m \<notin> set pids \<and> safe_range (set pids) m s"
          using d(1) 1(3) by (intro IH [of _ _ "[]"]) (auto simp: pid_valid_def safe_range_def)
        moreover have "pid_scan pids rest n safe = pid_scan pids pids ?n MAX_PID"
          using True \<open>p = n\<close> Cons by (subst pid_scan.simps) simp
        ultimately show ?thesis by simp
      next
        case False
        have "n + 1 < MAX_PID" using False 1(5) by (simp add: safe_range_def)
        then have "\<exists>m s. pid_scan pids ps (n + 1) safe = Some (m, s) \<and> pid_valid m \<and> m < s \<and> m \<notin> set pids \<and> safe_range (set pids) m s"
          using d(2) 1(2,3,5,6) False Cons \<open>p = n\<close> by (intro IH [of _ _ "pre @ [p]"]) (auto simp: pid_valid_def safe_range_def)
        moreover have "pid_scan pids rest n safe = pid_scan pids ps (n + 1) safe"
          using False \<open>p = n\<close> Cons by (subst pid_scan.simps) simp
        ultimately show ?thesis by simp
      qed
    next
      case False
      let ?s = "if p > n \<and> safe > p then p else safe"
      have "\<exists>m s. pid_scan pids ps n ?s = Some (m, s) \<and> pid_valid m \<and> m < s \<and> m \<notin> set pids \<and> safe_range (set pids) m s"
        using 1(2-6) False Cons by (intro IH [of _ _ "pre @ [p]"]) (auto simp: pid_valid_def safe_range_def)
      moreover have "pid_scan pids rest n safe = pid_scan pids ps n ?s"
        using False Cons by (subst pid_scan.simps) simp
      ultimately show ?thesis by simp
    qed
  qed
qed

lemma free_pid:
  assumes "length pids < 8191"
  obtains f where "pid_valid f" "f \<notin> set pids"
proof -
  have "card (set pids) < card {1..<MAX_PID}" using card_length [of pids] assms by simp
  then have "\<not> {1..<MAX_PID} \<subseteq> set pids" using card_mono [of "set pids" "{1..<MAX_PID}"] by auto
  then obtain f where "f \<in> {1..<MAX_PID}" "f \<notin> set pids" by blast
  then show ?thesis using that [of f] by (simp add: pid_valid_def)
qed

abbreviation pids_of :: "ksys \<Rightarrow> int list" where
  "pids_of st \<equiv> map (\<lambda>p. pid (procs st p)) (proc_list st)"

definition next_pid :: "int list \<Rightarrow> int \<Rightarrow> int \<Rightarrow> (int \<times> int) option" where
  "next_pid pids n safe = (if n + 1 \<ge> MAX_PID then pid_scan pids pids 1 MAX_PID
     else if n + 1 \<ge> safe then pid_scan pids pids (n + 1) MAX_PID else Some (n + 1, safe))"

lemma get_pid_next: "get_pid st = map_option (\<lambda>(n, s). (n, st\<lparr>last_pid := n, next_safe := s\<rparr>)) (next_pid (pids_of st) (last_pid st) (next_safe st))"
  by (cases "next_pid (pids_of st) (last_pid st) (next_safe st)") (auto simp: get_pid_def next_pid_def Let_def)

lemma next_pid_ok:
  assumes "0 \<le> n" "safe_range (set pids) n safe" "length pids < 8191"
  shows "\<exists>m s. next_pid pids n safe = Some (m, s) \<and> pid_valid m \<and> m \<notin> set pids \<and> m < s \<and> safe_range (set pids) m s"
proof -
  obtain f where f: "pid_valid f" "f \<notin> set pids" using free_pid [of pids] assms(3) by auto
  have scan: "\<exists>m s. pid_scan pids pids n MAX_PID = Some (m, s) \<and> pid_valid m \<and> m < s \<and> m \<notin> set pids
      \<and> safe_range (set pids) m s" if "pid_valid n" for n
    using that f by (intro pid_scan_ok [where pre = "[]"]) (auto simp: pid_valid_def safe_range_def)
  consider "n + 1 \<ge> MAX_PID" | "n + 1 < MAX_PID" "n + 1 \<ge> safe" | "n + 1 < safe" "n + 1 < MAX_PID" by linarith
  then show ?thesis
  proof cases
    case 1
    then show ?thesis using scan [of 1] by (auto simp: next_pid_def pid_valid_def)
  next
    case 2
    then show ?thesis using scan [of "n + 1"] assms(1) by (auto simp: next_pid_def pid_valid_def)
  next
    case 3
    then show ?thesis using assms(1,2) by (auto simp: next_pid_def pid_valid_def safe_range_def)
  qed
qed

section \<open>The process table\<close>

definition stack_page :: "ksys \<Rightarrow> nat \<Rightarrow> nat" where
  "stack_page st p = PPN (kstack (procs st p) - KERNBASE)"

abbreviation stack_pages :: "ksys \<Rightarrow> nat \<Rightarrow> nat set" where
  "stack_pages st p \<equiv> {stack_page st p..<stack_page st p + KSTACKPAGE}"

definition frames_ok :: "machine \<Rightarrow> bool" where
  "frames_ok m \<longleftrightarrow> buddy_inv (phys m) \<and> (\<forall>p. region_ok (phys m) p 1 \<longrightarrow> p < 2 ^ 20)"

definition table_ok :: "ksys \<Rightarrow> bool" where
  "table_ok st \<longleftrightarrow> distinct (proc_list st) \<and> distinct (pids_of st) \<and> (\<forall>p\<in>set (proc_list st). pid_valid (pid (procs st p)))
     \<and> (\<forall>b. set (hash_list st b) = {p \<in> set (proc_list st). pid_hashfn (pid (procs st p)) = b})
     \<and> nr_process st = int (length (proc_list st)) + 1
     \<and> 0 \<le> last_pid st \<and> safe_range (set (pids_of st)) (last_pid st) (next_safe st)"

definition threads_ok :: "ksys \<Rightarrow> bool" where
  "threads_ok st \<longleftrightarrow> (\<exists>i c. idleproc st = Some i \<and> current st = Some c \<and> i \<notin> set (proc_list st) \<and> c \<in> insert i (set (proc_list st))
     \<and> pid (procs st i) = 0 \<and> distinct (objs st) \<and> set (objs st) \<inter> insert i (set (proc_list st)) = {}
     \<and> (\<forall>p\<in>insert i (set (proc_list st)). pmm (procs st p) = None)
     \<and> kflags st c = [] \<and> (\<forall>p\<in>insert i (set (proc_list st)) - {c}. length (kflags st p) = 2))"

definition stacks_ok :: "ksys \<Rightarrow> bool" where
  "stacks_ok st \<longleftrightarrow> frames_ok (mach st)
     \<and> (\<forall>p\<in>set (proc_list st). region_ok (phys (mach st)) (stack_page st p) KSTACKPAGE
          \<and> stack_pages st p \<inter> free_set (phys (mach st)) = {})
     \<and> (\<forall>p\<in>set (proc_list st). \<forall>q\<in>set (proc_list st). p \<noteq> q \<longrightarrow> stack_pages st p \<inter> stack_pages st q = {})"

definition procs_ok :: "ksys \<Rightarrow> bool" where
  "procs_ok st \<longleftrightarrow> table_ok st \<and> threads_ok st \<and> stacks_ok st"

lemma find_proc_ok:
  assumes "table_ok st" "p \<in> set (proc_list st)"
  shows "find_proc (pid (procs st p)) st = Some p"
proof -
  let ?h = "hash_list st (pid_hashfn (pid (procs st p)))"
  have v: "pid_valid (pid (procs st p))" and inj: "inj_on (\<lambda>p. pid (procs st p)) (set (proc_list st))"
    and h: "set ?h = {q \<in> set (proc_list st). pid_hashfn (pid (procs st q)) = pid_hashfn (pid (procs st p))}"
    using assms by (auto simp: table_ok_def distinct_map)
  obtain q where q: "find (\<lambda>q. pid (procs st q) = pid (procs st p)) ?h = Some q"
    using h assms(2) by (cases "find (\<lambda>q. pid (procs st q) = pid (procs st p)) ?h") (auto simp: find_None_iff)
  then have "q \<in> set ?h" "pid (procs st q) = pid (procs st p)"
    by (auto simp: find_Some_iff)
  then have "q = p" using h inj assms(2) by (auto dest: inj_onD)
  then show ?thesis using q v by (simp add: find_proc_def pid_valid_def)
qed

lemma find_proc_None:
  assumes "table_ok st" "n \<notin> set (pids_of st)"
  shows "find_proc n st = None"
proof (cases "find_proc n st")
  case (Some q)
  then have "q \<in> set (hash_list st (pid_hashfn n))" "pid (procs st q) = n"
    by (auto simp: find_proc_def find_Some_iff split: if_splits)
  with assms show ?thesis by (auto simp: table_ok_def)
qed simp

lemma upd_proc_simps [simp]:
  "procs (upd_proc p f st) = (procs st)(p := f (procs st p))" "proc_list (upd_proc p f st) = proc_list st"
  "hash_list (upd_proc p f st) = hash_list st" "idleproc (upd_proc p f st) = idleproc st" "current (upd_proc p f st) = current st"
  "nr_process (upd_proc p f st) = nr_process st" "last_pid (upd_proc p f st) = last_pid st" "next_safe (upd_proc p f st) = next_safe st"
  "mach (upd_proc p f st) = mach st" "objs (upd_proc p f st) = objs st" "kflags (upd_proc p f st) = kflags st" "tfs (upd_proc p f st) = tfs st"
  "boot_pgdir_p (upd_proc p f st) = boot_pgdir_p st" "tss (upd_proc p f st) = tss st" "cpu (upd_proc p f st) = cpu st" "initproc (upd_proc p f st) = initproc st"
  by (simp_all add: upd_proc_def)

lemma table_next_pid:
  assumes "table_ok st" "nr_process st < MAX_PROCESS"
  shows "\<exists>n s. next_pid (pids_of st) (last_pid st) (next_safe st) = Some (n, s) \<and> pid_valid n \<and> n \<notin> set (pids_of st)
    \<and> n < s \<and> safe_range (set (pids_of st)) n s"
  using assms unfolding table_ok_def by (intro next_pid_ok) auto

text \<open>The new thread as \<^verbatim>\<open>do_fork\<close> leaves it, on the kernel stack at page \<open>pg\<close>.\<close>

definition new_frame :: "u32 \<Rightarrow> trapframe \<Rightarrow> trapframe" where
  "new_frame stack tf = tf\<lparr>tf_regs := (tf_regs tf)\<lparr>reg_eax := 0\<rparr>, tf_esp := stack, tf_eflags := tf_eflags tf OR FL_IF\<rparr>"

definition new_thread :: "symbols \<Rightarrow> nat option \<Rightarrow> nat \<Rightarrow> u32 \<Rightarrow> int \<Rightarrow> u8 list \<Rightarrow> proc_struct" where
  "new_thread sy c pg cr n name =
     (let k = KERNBASE + page2pa pg; a = k + KSTACKSIZE - 68 in
      \<lparr>pstate = PROC_RUNNABLE, pid = n, runs = 0, kstack = k, need_resched = False, pparent = c, pmm = None,
       pcontext = zero_context\<lparr>c_eip := forkret sy, c_esp := a\<rparr>, ptf = a, pgdir_addr = cr, pflags = 0,
       pname = replicate PROC_NAME_LEN 0 @ drop PROC_NAME_LEN name\<rparr>)"

text \<open>What \<^verbatim>\<open>do_fork\<close> does when it succeeds: \<open>p\<close> is the new thread and \<open>b\<close> the allocator afterwards.\<close>

definition forked :: "symbols \<Rightarrow> u32 \<Rightarrow> trapframe \<Rightarrow> nat \<Rightarrow> nat \<Rightarrow> buddy \<Rightarrow> int \<Rightarrow> int \<Rightarrow> ksys \<Rightarrow> ksys" where
  "forked sy stack tf p pg b n s st =
     (let k = KERNBASE + page2pa pg; a = k + KSTACKSIZE - 68; fr = new_frame stack tf in
      st\<lparr>mach := (mach st)\<lparr>phys := b\<rparr>, objs := tl (objs st),
         procs := (procs st)(p := new_thread sy (current st) pg (boot_pgdir_p st) n (pname (procs st p))),
         proc_list := p # proc_list st,
         hash_list := (hash_list st)(pid_hashfn n := p # hash_list st (pid_hashfn n)),
         nr_process := nr_process st + 1, last_pid := n, next_safe := s,
         tfs := (tfs st)(a := fr), kflags := (kflags st)(p := [tf_eflags fr, tf_eflags fr])\<rparr>)"

lemma region_ok_less:
  assumes "frames_ok m" "region_ok (phys m) p n" "0 < n"
  shows "p < 2 ^ 20" "p < npage (phys m)"
proof -
  have r: "region_ok (phys m) p 1" using region_ok_sub [OF assms(2), of p 1] assms(3) by simp
  then show "p < 2 ^ 20" using assms(1) unfolding frames_ok_def by blast
  show "p < npage (phys m)" using r by (simp add: region_ok_def)
qed

lemma page2kva_ok: "p < 2 ^ 20 \<Longrightarrow> p < npage (phys m) \<Longrightarrow> page2kva p m = Some p"
  using PPN_page2pa [of p 0] by (simp add: page2kva_def KADDR_def)

lemma add_proc_eq:
  assumes "current st = Some c" "c \<noteq> p" "p \<notin> set (proc_list st)" "next_pid (pids_of st) (last_pid st) (next_safe st) = Some (n, s)"
  shows "add_proc p st = Some (st\<lparr>procs := (procs st)(p := (procs st p)\<lparr>pid := n\<rparr>), proc_list := p # proc_list st,
    hash_list := (hash_list st)(pid_hashfn n := p # hash_list st (pid_hashfn n)),
    nr_process := nr_process st + 1, last_pid := n, next_safe := s\<rparr>)"
  using assms by (simp add: add_proc_def get_pid_next irq_save_def irq_restore_def local_irq_save_def local_irq_restore_def
      hash_proc_def Let_def upd_proc_def)

lemma setup_kstack_eq:
  assumes "buddy_alloc_pages KSTACKPAGE (phys (mach st)) = Some (Some pg, b)" "pg < 2 ^ 20" "pg < npage b"
  shows "setup_kstack p st = Some (0, upd_proc p (kstack_update (\<lambda>_. KERNBASE + page2pa pg)) (st\<lparr>mach := (mach st)\<lparr>phys := b\<rparr>\<rparr>))"
  using assms page2kva_ok [of pg "mach st\<lparr>phys := b\<rparr>"] by (simp add: setup_kstack_def on_mach_def alloc_pages_eq)

lemma do_fork_forked:
  assumes "objs st = p # os" "buddy_alloc_pages KSTACKPAGE (phys (mach st)) = Some (Some pg, b)" "pg < 2 ^ 20" "pg < npage b"
    "current st = Some c" "c \<noteq> p" "pmm (procs st c) = None" "p \<notin> set (proc_list st)" "nr_process st < MAX_PROCESS"
    "next_pid (pids_of st) (last_pid st) (next_safe st) = Some (n, s)"
  shows "do_fork sy cf stack tf st = Some (n, forked sy stack tf p pg b n s st)"
proof -
  have k: "kmalloc st = (Some p, st\<lparr>objs := os\<rparr>)" using assms(1) by (simp add: kmalloc_def)
  define st1 where "st1 = upd_proc p (\<lambda>_. (new_thread sy (current st) pg (boot_pgdir_p st) (-1) (pname (procs st p)))\<lparr>pstate := PROC_UNINIT\<rparr>)
    (st\<lparr>objs := os, mach := (mach st)\<lparr>phys := b\<rparr>,
       tfs := (tfs st)(KERNBASE + page2pa pg + KSTACKSIZE - 68 := new_frame stack tf),
       kflags := (kflags st)(p := [tf_eflags (new_frame stack tf), tf_eflags (new_frame stack tf)])\<rparr>)"
  have sel: "current st1 = Some c" "proc_list st1 = proc_list st" "last_pid st1 = last_pid st" "next_safe st1 = next_safe st"
    using assms(5) by (simp_all add: st1_def)
  have pe: "pids_of st1 = pids_of st" using assms(8) by (auto simp: st1_def)
  have np: "next_pid (pids_of st1) (last_pid st1) (next_safe st1) = Some (n, s)"
    unfolding pe sel(3,4) by (rule assms(10))
  have "do_fork sy cf stack tf st = do {
      st \<leftarrow> add_proc p st1; st \<leftarrow> wakeup_proc p st; Some (pid (procs st p), st) }"
    using assms(2-7,9) by (simp add: do_fork_def alloc_proc_def k setup_kstack_eq copy_mm_def copy_thread_def
      st1_def new_thread_def new_frame_def Let_def upd_proc_def)
  also have "\<dots> = Some (n, forked sy stack tf p pg b n s st)"
    unfolding add_proc_eq [OF sel(1) assms(6) assms(8) [folded sel(2)] np]
    using assms(1,5) by (simp add: wakeup_proc_def forked_def new_thread_def st1_def Let_def upd_proc_def)
  finally show ?thesis .
qed

lemma forked_simps [simp]:
  "proc_list (forked sy stack tf p pg b n s st) = p # proc_list st" "current (forked sy stack tf p pg b n s st) = current st"
  "idleproc (forked sy stack tf p pg b n s st) = idleproc st" "objs (forked sy stack tf p pg b n s st) = tl (objs st)"
  "procs (forked sy stack tf p pg b n s st) = (procs st)(p := new_thread sy (current st) pg (boot_pgdir_p st) n (pname (procs st p)))"
  "hash_list (forked sy stack tf p pg b n s st) = (hash_list st)(pid_hashfn n := p # hash_list st (pid_hashfn n))"
  "nr_process (forked sy stack tf p pg b n s st) = nr_process st + 1" "last_pid (forked sy stack tf p pg b n s st) = n"
  "next_safe (forked sy stack tf p pg b n s st) = s" "mach (forked sy stack tf p pg b n s st) = (mach st)\<lparr>phys := b\<rparr>"
  by (simp_all add: forked_def Let_def)

lemma kflags_forked: "\<exists>f. kflags (forked sy stack tf p pg b n s st) = (kflags st)(p := [f, f])"
  by (intro exI [of _ "tf_eflags (new_frame stack tf)"]) (simp add: forked_def Let_def)

lemma new_thread_simps [simp]:
  "pid (new_thread sy c pg cr n name) = n" "pmm (new_thread sy c pg cr n name) = None" "pstate (new_thread sy c pg cr n name) = PROC_RUNNABLE"
  "pparent (new_thread sy c pg cr n name) = c" "kstack (new_thread sy c pg cr n name) = KERNBASE + page2pa pg"
  by (simp_all add: new_thread_def Let_def)

lemma forked_table_ok:
  assumes "table_ok st" "p \<notin> set (proc_list st)" "pid_valid n" "n \<notin> set (pids_of st)" "safe_range (set (pids_of st)) n s"
  shows "table_ok (forked sy stack tf p pg b n s st)"
proof -
  let ?st = "forked sy stack tf p pg b n s st"
  have pe: "pids_of ?st = n # pids_of st" using assms(2) by auto
  have "set (hash_list ?st b') = {q \<in> set (proc_list ?st). pid_hashfn (pid (procs ?st q)) = b'}" for b'
    using assms(1,2) by (auto simp: table_ok_def)
  then show ?thesis
    using assms unfolding table_ok_def pe by (auto simp: pid_valid_def safe_range_def)
qed

lemma forked_threads_ok:
  assumes "threads_ok st" "objs st = p # os"
  shows "threads_ok (forked sy stack tf p pg b n s st)"
proof -
  obtain i c where ic: "idleproc st = Some i" "current st = Some c" "i \<notin> set (proc_list st)" "c \<in> insert i (set (proc_list st))"
     "pid (procs st i) = 0" "distinct (objs st)" "set (objs st) \<inter> insert i (set (proc_list st)) = {}"
     "\<forall>p\<in>insert i (set (proc_list st)). pmm (procs st p) = None" "kflags st c = []"
     "\<forall>p\<in>insert i (set (proc_list st)) - {c}. length (kflags st p) = 2" using assms(1) unfolding threads_ok_def by blast
  then have "p \<noteq> i" "p \<noteq> c" using assms(2) by auto
  moreover obtain f where "kflags (forked sy stack tf p pg b n s st) = (kflags st)(p := [f, f])"
    using kflags_forked by blast
  ultimately show ?thesis using ic assms(2) unfolding threads_ok_def by (auto simp: disjoint_iff)
qed

lemma stack_page_new: "pg < 2 ^ 20 \<Longrightarrow> PPN (page2pa pg) = pg"
  using PPN_page2pa [of pg 0] by simp

lemma forked_stacks_ok:
  assumes "stacks_ok st" "p \<notin> set (proc_list st)" "buddy_alloc_pages KSTACKPAGE (phys (mach st)) = Some (Some pg, b)"
  shows "stacks_ok (forked sy stack tf p pg b n s st)"
proof -
  let ?st = "forked sy stack tf p pg b n s st" and ?b = "phys (mach st)"
  have fok: "frames_ok (mach st)" and reg: "\<And>q. q \<in> set (proc_list st) \<Longrightarrow> region_ok ?b (stack_page st q) KSTACKPAGE"
    and used: "\<And>q. q \<in> set (proc_list st) \<Longrightarrow> stack_pages st q \<inter> free_set ?b = {}"
    and dis: "\<And>q r. q \<in> set (proc_list st) \<Longrightarrow> r \<in> set (proc_list st) \<Longrightarrow> q \<noteq> r \<Longrightarrow> stack_pages st q \<inter> stack_pages st r = {}"
    using assms(1) unfolding stacks_ok_def by blast+
  note a = bm.alloc_Some [OF _ assms(3)]
  have inv: "buddy_inv ?b" using fok by (simp add: frames_ok_def)
  have "pg < 2 ^ 20" using region_ok_less [OF fok a(3)] inv by simp
  then have new: "stack_page ?st p = pg" by (simp add: stack_page_def stack_page_new)
  have old: "stack_page ?st q = stack_page st q" if "q \<in> set (proc_list st)" for q
    using that assms(2) by (auto simp: stack_page_def)
  have "frames_ok (mach ?st)" using fok a(1,2) inv by (simp add: frames_ok_def)
  moreover have "region_ok (phys (mach ?st)) (stack_page ?st q) KSTACKPAGE \<and> stack_pages ?st q \<inter> free_set (phys (mach ?st)) = {}"
    if "q \<in> set (proc_list ?st)" for q
  proof (cases "q = p")
    case True
    then show ?thesis using a(2,3,5) inv by (auto simp: new)
  next
    case False
    then have q: "q \<in> set (proc_list st)" using that by simp
    then show ?thesis using old [OF q] reg [OF q] used [OF q] a(2,5) inv by auto
  qed
  moreover have fresh: "stack_pages ?st p \<inter> stack_pages ?st q = {}" if "q \<in> set (proc_list st)" for q
    using used [OF that] a(4) inv unfolding new old [OF that] by blast
  moreover have "stack_pages ?st q \<inter> stack_pages ?st r = {}"
    if "q \<in> set (proc_list ?st)" "r \<in> set (proc_list ?st)" "q \<noteq> r" for q r
    using that fresh [of q] fresh [of r] dis [of q r] old [of q] old [of r] by (cases "q = p"; cases "r = p") (auto simp: Int_commute)
  ultimately show ?thesis unfolding stacks_ok_def by blast
qed

text \<open>The three outcomes of \<^verbatim>\<open>do_fork\<close>.\<close>

lemma do_fork_no_stack:
  assumes "objs st = p # os" "buddy_alloc_pages KSTACKPAGE (phys (mach st)) = Some (None, phys (mach st))" "nr_process st < MAX_PROCESS"
  shows "\<exists>q. do_fork sy cf stack tf st = Some (- E_NO_MEM, st\<lparr>procs := (procs st)(p := q)\<rparr>)"
proof -
  have "kmalloc st = (Some p, st\<lparr>objs := os\<rparr>)" using assms(1) by (simp add: kmalloc_def)
  moreover have "st\<lparr>procs := X, objs := p # os\<rparr> = st\<lparr>procs := X\<rparr>" for X using assms(1) by simp
  ultimately show ?thesis
    using assms(2,3) by (auto simp: do_fork_def alloc_proc_def setup_kstack_def on_mach_def alloc_pages_eq kfree_def upd_proc_def Let_def)
qed

lemma procs_ok_free_object:
  assumes "procs_ok st" "p \<in> set (objs st)"
  shows "procs_ok (st\<lparr>procs := (procs st)(p := q)\<rparr>)"
proof -
  let ?st = "st\<lparr>procs := (procs st)(p := q)\<rparr>"
  obtain i where i: "idleproc st = Some i" "set (objs st) \<inter> insert i (set (proc_list st)) = {}"
    using assms(1) unfolding procs_ok_def threads_ok_def by blast
  then have keep: "\<And>r. r \<in> insert i (set (proc_list st)) \<Longrightarrow> procs ?st r = procs st r" using assms(2) by auto
  have pe: "pids_of ?st = pids_of st" using keep by auto
  have sp: "\<And>r. r \<in> set (proc_list st) \<Longrightarrow> stack_page ?st r = stack_page st r" using keep by (simp add: stack_page_def)
  have "table_ok ?st = table_ok st" unfolding table_ok_def pe using keep by (auto simp del: fun_upd_apply)
  moreover have "threads_ok ?st = threads_ok st" unfolding threads_ok_def using keep i(1) by (auto simp del: fun_upd_apply)
  moreover have "stacks_ok ?st = stacks_ok st" unfolding stacks_ok_def using sp by auto
  ultimately show ?thesis using assms(1) by (simp add: procs_ok_def)
qed

lemma do_fork_cases:
  assumes "procs_ok st"
  obtains (full) "nr_process st \<ge> MAX_PROCESS" "do_fork sy cf stack tf st = Some (- E_NO_FREE_PROC, st)"
  | (no_mem) st' where "nr_process st < MAX_PROCESS" "do_fork sy cf stack tf st = Some (- E_NO_MEM, st')" "procs_ok st'"
      "st' = st \<or> (\<exists>p\<in>set (objs st). \<exists>q. st' = st\<lparr>procs := (procs st)(p := q)\<rparr>)"
      "objs st = [] \<or> no_block_from 1 (phys (mach st))"
  | (ok) p pg b n s where "nr_process st < MAX_PROCESS" "do_fork sy cf stack tf st = Some (n, forked sy stack tf p pg b n s st)"
      "objs st = p # tl (objs st)" "p \<notin> set (proc_list st)" "pid_valid n" "n \<notin> set (pids_of st)"
      "next_pid (pids_of st) (last_pid st) (next_safe st) = Some (n, s)"
      "buddy_alloc_pages KSTACKPAGE (phys (mach st)) = Some (Some pg, b)"
      "procs_ok (forked sy stack tf p pg b n s st)"
proof (cases "nr_process st \<ge> MAX_PROCESS")
  case True
  then show ?thesis using full by (simp add: do_fork_def)
next
  case False
  have t: "table_ok st" and th: "threads_ok st" and sk: "stacks_ok st" using assms by (simp_all add: procs_ok_def)
  have fok: "frames_ok (mach st)" using sk by (simp add: stacks_ok_def)
  then have inv: "buddy_inv (phys (mach st))" by (simp add: frames_ok_def)
  show ?thesis
  proof (cases "objs st")
    case Nil
    then have "do_fork sy cf stack tf st = Some (- E_NO_MEM, st)" using False by (simp add: do_fork_def alloc_proc_def kmalloc_def)
    then show ?thesis using no_mem False assms Nil by simp
  next
    case (Cons p os)
    have gk: "getorder 2 = Some 1" by code_simp
    obtain i c where ic: "current st = Some c" "c \<in> insert i (set (proc_list st))" "set (objs st) \<inter> insert i (set (proc_list st)) = {}"
      "\<forall>p\<in>insert i (set (proc_list st)). pmm (procs st p) = None"
      using th unfolding threads_ok_def by blast
    have p: "p \<notin> set (proc_list st)" "c \<noteq> p" "pmm (procs st c) = None" using ic Cons by auto
    consider "buddy_alloc_pages KSTACKPAGE (phys (mach st)) = Some (None, phys (mach st))" "no_block_from 1 (phys (mach st))"
      | pg b where "buddy_alloc_pages KSTACKPAGE (phys (mach st)) = Some (Some pg, b)"
      using buddy_alloc_pages_spec [OF inv, of KSTACKPAGE] gk by auto
    then show ?thesis
    proof cases
      case 1
      then obtain q where q: "do_fork sy cf stack tf st = Some (- E_NO_MEM, st\<lparr>procs := (procs st)(p := q)\<rparr>)"
        using do_fork_no_stack [OF Cons] False by force
      have "procs_ok (st\<lparr>procs := (procs st)(p := q)\<rparr>)" using procs_ok_free_object [OF assms] Cons by simp
      with q show ?thesis using no_mem [OF _ q] 1 False Cons by auto
    next
      case 2
      obtain n s where n: "next_pid (pids_of st) (last_pid st) (next_safe st) = Some (n, s)" "pid_valid n" "n \<notin> set (pids_of st)"
        "safe_range (set (pids_of st)) n s" using table_next_pid [OF t] False by auto
      note a = bm.alloc_Some [OF inv 2]
      have "region_ok b pg KSTACKPAGE" "frames_ok ((mach st)\<lparr>phys := b\<rparr>)" using a(1-3) fok by (simp_all add: frames_ok_def)
      then have lt: "pg < 2 ^ 20" "pg < npage b" using region_ok_less [of "mach st\<lparr>phys := b\<rparr>" pg KSTACKPAGE] by simp_all
      have "do_fork sy cf stack tf st = Some (n, forked sy stack tf p pg b n s st)"
        using do_fork_forked [OF Cons 2 lt ic(1) p(2,3,1) _ n(1)] False by simp
      moreover have "procs_ok (forked sy stack tf p pg b n s st)"
        using forked_table_ok [OF t p(1) n(2-4)] forked_threads_ok [OF th Cons] forked_stacks_ok [OF sk p(1) 2]
        by (simp add: procs_ok_def)
      ultimately show ?thesis using ok [OF _ _ _ p(1) n(2,3,1) 2] False Cons by simp
    qed
  qed
qed

section \<open>Scheduling\<close>

definition runnable :: "ksys \<Rightarrow> nat \<Rightarrow> bool" where
  "runnable st p \<longleftrightarrow> pstate (procs st p) = PROC_RUNNABLE"

lemma sched_search_find:
  assumes "case next of None \<Rightarrow> True | Some p \<Rightarrow> \<not> runnable st p"
  shows "(case sched_search st ps next of None \<Rightarrow> i | Some p \<Rightarrow> if pstate (procs st p) \<noteq> PROC_RUNNABLE then i else Some p) =
    (case find (runnable st) ps of Some p \<Rightarrow> Some p | None \<Rightarrow> i)"
  using assms by (induction ps arbitrary: "next") (auto simp: runnable_def split: option.splits)

text \<open>The thread \<^verbatim>\<open>schedule\<close> chooses: the next runnable one in the list, or the idle thread.\<close>

definition sched_next :: "ksys \<Rightarrow> nat option" where
  "sched_next st = (case find (runnable st) (sched_order st) of Some p \<Rightarrow> Some p | None \<Rightarrow> idleproc st)"

text \<open>
  The contract: \<open>n\<close> is the first runnable thread of the circular process list after the current thread \<open>c\<close>, which is itself the last
  candidate; the idle thread, which is not in the list, stands at its head, and runs when no thread of the list is runnable.
\<close>

definition next_in_turn :: "ksys \<Rightarrow> nat \<Rightarrow> nat \<Rightarrow> bool" where
  "next_in_turn st c n \<longleftrightarrow> (\<exists>before after. proc_list st = before @ after
     \<and> (if idleproc st = Some c then before = [] else before \<noteq> [] \<and> last before = c)
     \<and> (case find (runnable st) (after @ before) of Some p \<Rightarrow> n = p | None \<Rightarrow> idleproc st = Some n))"

text \<open>What one call does to the threads and the machine, when thread \<open>c\<close> calls it and \<open>n\<close> is chosen.\<close>

definition resched :: "nat \<Rightarrow> nat \<Rightarrow> ksys \<Rightarrow> ksys \<Rightarrow> bool" where
  "resched c n st st' \<longleftrightarrow> current st' = Some n
     \<and> proc_list st' = proc_list st \<and> hash_list st' = hash_list st \<and> idleproc st' = idleproc st \<and> nr_process st' = nr_process st
     \<and> last_pid st' = last_pid st \<and> next_safe st' = next_safe st \<and> objs st' = objs st \<and> phys (mach st') = phys (mach st)
     \<and> (\<forall>q. pstate (procs st' q) = pstate (procs st q) \<and> pid (procs st' q) = pid (procs st q) \<and> kstack (procs st' q) = kstack (procs st q)
          \<and> pmm (procs st' q) = pmm (procs st q) \<and> runs (procs st' q) = (if q = n then runs (procs st q) + 1 else runs (procs st q)))
     \<and> \<not> need_resched (procs st' c)
     \<and> (if n = c then mach st' = mach st \<and> cpu st' = cpu st \<and> kflags st' = kflags st
        else cpu st' = pcontext (procs st n) \<and> pcontext (procs st' c) = cpu st \<and> cr3 (mach st') = pgdir_addr (procs st n)
          \<and> tlb (mach st') = (\<lambda>_. None) \<and> ts_esp0 (tss st') = kstack (procs st n) + KSTACKSIZE
          \<and> eflags (mach st') = last (kflags st n) \<and> last (kflags st' c) = eflags (mach st)
          \<and> kflags st' n = [] \<and> length (kflags st' c) = length (kflags st c) + 2 \<and> (\<forall>q. q \<noteq> n \<and> q \<noteq> c \<longrightarrow> kflags st' q = kflags st q))"

lemma schedule_resched:
  assumes "current st = Some c" "sched_next st = Some n" "kflags st c = []" "n \<noteq> c \<Longrightarrow> length (kflags st n) = 2"
  shows "\<exists>st'. schedule st = Some st' \<and> resched c n st st'"
proof -
  define st1 where "st1 = upd_proc c (need_resched_update (\<lambda>_. False)) (irq_save c st)"
  have s1: "current st1 = Some c" "idleproc st1 = idleproc st" "proc_list st1 = proc_list st"
    using assms(1) by (simp_all add: st1_def irq_save_def local_irq_save_def)
  have r1: "runnable st1 = runnable st" by (rule ext) (simp add: st1_def irq_save_def local_irq_save_def runnable_def)
  have "sched_order st1 = sched_order st" using s1 assms(1) by (simp add: sched_order_def)
  then have sn: "(case sched_search st1 (sched_order st1) None of None \<Rightarrow> idleproc st1
      | Some p \<Rightarrow> if pstate (procs st1 p) \<noteq> PROC_RUNNABLE then idleproc st1 else Some p) = Some n"
    using sched_search_find [of st1 None "idleproc st1" "sched_order st1"] assms(2) unfolding sched_next_def s1(2) r1 by simp
  define st2 where "st2 = upd_proc n (\<lambda>q. q\<lparr>runs := runs q + 1\<rparr>) st1"
  have "schedule st = (do { st \<leftarrow> (if Some n \<noteq> current st2 then proc_run n st2 else Some st2); Some (irq_restore n st) })"
    unfolding schedule_def assms(1) Option.bind_lunit Let_def st1_def [symmetric] sn st2_def ..
  moreover have "current st2 = Some c" by (simp add: st2_def s1)
  moreover have ?thesis if "n = c" "schedule st = Some (irq_restore n st2)"
    using that assms(1,3) by (auto simp: resched_def st2_def st1_def irq_save_def irq_restore_def local_irq_save_def local_irq_restore_def)
  moreover have ?thesis if nc: "n \<noteq> c" and e: "schedule st = do { st \<leftarrow> proc_run n st2; Some (irq_restore n st) }"
  proof -
    obtain f g where fg: "kflags st n = [f, g]" using assms(4) nc by (auto simp: length_Suc_conv numeral_2_eq_2)
    show ?thesis
      unfolding e proc_run_def using nc fg assms(1,3)
      by (auto simp: resched_def st2_def st1_def irq_save_def irq_restore_def local_irq_save_def local_irq_restore_def
          switch_to_def Let_def lcr3_def load_esp0_def)
  qed
  ultimately show ?thesis by (cases "n = c") simp_all
qed

lemma resched_procs_ok:
  assumes "procs_ok st" "resched c n st st'" "current st = Some c" "n \<in> set (proc_list st) \<or> idleproc st = Some n"
  shows "procs_ok st'"
proof -
  note r = assms(2) [unfolded resched_def]
  have eqs: "proc_list st' = proc_list st" "hash_list st' = hash_list st" "idleproc st' = idleproc st" "nr_process st' = nr_process st"
    "last_pid st' = last_pid st" "next_safe st' = next_safe st" "objs st' = objs st" "phys (mach st') = phys (mach st)"
    "current st' = Some n" and pe: "\<And>q. pid (procs st' q) = pid (procs st q)" "\<And>q. pmm (procs st' q) = pmm (procs st q)"
      "\<And>q. kstack (procs st' q) = kstack (procs st q)"
    using r by simp_all
  have "table_ok st'" using assms(1) by (simp add: procs_ok_def table_ok_def eqs pe)
  moreover have "stacks_ok st'" using assms(1) by (simp add: procs_ok_def stacks_ok_def frames_ok_def eqs stack_page_def pe)
  moreover have "threads_ok st'"
  proof -
    obtain i where i: "idleproc st = Some i" "i \<notin> set (proc_list st)" "c \<in> insert i (set (proc_list st))" "pid (procs st i) = 0"
      "distinct (objs st)" "set (objs st) \<inter> insert i (set (proc_list st)) = {}"
      "\<forall>p\<in>insert i (set (proc_list st)). pmm (procs st p) = None" "kflags st c = []"
      "\<forall>p\<in>insert i (set (proc_list st)) - {c}. length (kflags st p) = 2"
      using assms(1,3) unfolding procs_ok_def threads_ok_def by auto
    have n: "n \<in> insert i (set (proc_list st))" using assms(4) i(1) by auto
    have kn: "kflags st' n = []" using r i(8) by (cases "n = c") simp_all
    have "length (kflags st' p) = 2" if "p \<in> insert i (set (proc_list st)) - {n}" for p
      using r i(8,9) that by (cases "n = c"; cases "p = c") auto
    then show ?thesis unfolding threads_ok_def eqs pe using i n kn by blast
  qed
  ultimately show ?thesis by (simp add: procs_ok_def)
qed

lemma around [simp]:
  assumes "c \<notin> set xs"
  shows "takeWhile (\<lambda>p. p \<noteq> c) (xs @ c # ys) = xs" "dropWhile (\<lambda>p. p \<noteq> c) (xs @ c # ys) = c # ys"
  using assms by (induction xs) auto

lemma sched_order_set:
  assumes "threads_ok st"
  shows "set (sched_order st) = set (proc_list st)"
proof -
  obtain i c where ic: "idleproc st = Some i" "current st = Some c" "c \<in> insert i (set (proc_list st))"
    using assms unfolding threads_ok_def by blast
  show ?thesis
  proof (cases "c = i")
    case True
    then show ?thesis using ic by (simp add: sched_order_def)
  next
    case False
    then have "c \<in> set (proc_list st)" using ic(3) by simp
    then obtain xs ys where "proc_list st = xs @ c # ys" "c \<notin> set xs" using split_list_first by metis
    then show ?thesis using ic False by (auto simp: sched_order_def)
  qed
qed

lemma sched_next_in: "threads_ok st \<Longrightarrow> sched_next st = Some n \<Longrightarrow> n \<in> set (proc_list st) \<or> idleproc st = Some n"
  using sched_order_set [of st] by (auto simp: sched_next_def find_Some_iff split: option.splits)

lemma sched_next_exists: "threads_ok st \<Longrightarrow> \<exists>n. sched_next st = Some n"
  by (auto simp: sched_next_def threads_ok_def split: option.splits)

lemma schedule_step:
  assumes "procs_ok st" "current st = Some c"
  shows "\<exists>n st'. sched_next st = Some n \<and> schedule st = Some st' \<and> resched c n st st' \<and> procs_ok st'"
proof -
  have th: "threads_ok st" using assms(1) by (simp add: procs_ok_def)
  then obtain n where n: "sched_next st = Some n" using sched_next_exists by blast
  have "kflags st c = []" "n \<noteq> c \<Longrightarrow> length (kflags st n) = 2"
    using th assms(2) sched_next_in [OF th n] unfolding threads_ok_def by auto
  then obtain st' where "schedule st = Some st'" "resched c n st st'" using schedule_resched [OF assms(2) n] by blast
  then show ?thesis using n resched_procs_ok [OF assms(1) _ assms(2) sched_next_in [OF th n]] by blast
qed

subsection \<open>Fairness\<close>

text \<open>The order after the chosen thread is the old order, rotated.\<close>

lemma rotate_order:
  assumes "distinct (X @ Y)" "Y @ X = A @ n # B"
  shows "tl (dropWhile (\<lambda>p. p \<noteq> n) (X @ Y)) @ takeWhile (\<lambda>p. p \<noteq> n) (X @ Y) @ [n] = B @ A @ [n]"
proof -
  have d: "distinct (A @ n # B)" using assms(1) unfolding assms(2) [symmetric] by auto
  obtain us where "Y = A @ us \<and> us @ X = n # B \<or> Y @ us = A \<and> X = us @ n # B"
    using assms(2) unfolding append_eq_append_conv2 by blast
  then consider Z where "Y = A @ n # Z" "B = Z @ X" | Z where "X = Z @ n # B" "A = Y @ Z"
    by (cases us) auto
  then show ?thesis
  proof cases
    case 1
    then have "X @ Y = (X @ A) @ n # Z" "n \<notin> set (X @ A)" using d by auto
    then show ?thesis using around [of n "X @ A" Z] 1(2) by simp
  next
    case 2
    then have "X @ Y = Z @ n # B @ Y" "n \<notin> set Z" using d by auto
    then show ?thesis using around [of n Z "B @ Y"] 2(2) by simp
  qed
qed

definition rank :: "ksys \<Rightarrow> nat \<Rightarrow> nat" where
  "rank st p = length (takeWhile (\<lambda>q. q \<noteq> p) (sched_order st))"

lemma sched_order_rotation:
  assumes "threads_ok st"
  obtains X Y where "proc_list st = X @ Y" "sched_order st = Y @ X"
    "if idleproc st = current st then X = [] else X \<noteq> [] \<and> Some (last X) = current st"
proof -
  obtain i c where ic: "idleproc st = Some i" "current st = Some c" "c \<in> insert i (set (proc_list st))"
    using assms unfolding threads_ok_def by blast
  show ?thesis
  proof (cases "c = i")
    case True
    then show ?thesis using that [of "[]" "proc_list st"] ic by (simp add: sched_order_def)
  next
    case False
    then have "c \<in> set (proc_list st)" using ic(3) by simp
    then obtain xs ys where xy: "proc_list st = xs @ c # ys" "c \<notin> set xs" using split_list_first by metis
    then show ?thesis using that [of "xs @ [c]" ys] ic False by (simp add: sched_order_def)
  qed
qed

lemma sched_next_turn:
  assumes "threads_ok st" "current st = Some c" "sched_next st = Some n"
  shows "next_in_turn st c n"
proof (rule sched_order_rotation [OF assms(1)])
  fix X Y assume "proc_list st = X @ Y" "sched_order st = Y @ X" "if idleproc st = current st then X = [] else X \<noteq> [] \<and> Some (last X) = current st"
  with assms(2,3) show ?thesis unfolding next_in_turn_def sched_next_def
    by (intro exI [of _ X] exI [of _ Y]) (auto split: option.splits if_splits)
qed

text \<open>Every call either runs a given runnable thread or brings it closer.\<close>

lemma schedule_closer:
  assumes "procs_ok st" "p \<in> set (proc_list st)" "runnable st p" "sched_next st = Some n" "n \<noteq> p"
    "proc_list st' = proc_list st" "idleproc st' = idleproc st" "current st' = Some n"
  shows "rank st' p < rank st p"
proof -
  have th: "threads_ok st" and di: "distinct (proc_list st)" using assms(1) by (simp_all add: procs_ok_def table_ok_def)
  have "p \<in> set (sched_order st)" using sched_order_set [OF th] assms(2) by simp
  then have f: "find (runnable st) (sched_order st) = Some n"
    using assms(3,4) by (auto simp: sched_next_def find_None_iff split: option.splits)
  then have "n \<in> set (sched_order st)" by (auto simp: find_Some_iff)
  then obtain A B where AB: "sched_order st = A @ n # B" "n \<notin> set A" using split_list_first by metis
  have "p \<notin> set A"
  proof
    assume "p \<in> set A"
    then have "\<exists>q\<in>set A. find (runnable st) (A @ n # B) = Some q" using assms(3) by (induction A) auto
    with f AB show False by auto
  qed
  obtain X Y where XY: "proc_list st = X @ Y" "sched_order st = Y @ X" using sched_order_rotation [OF th] .
  have "n \<in> set (proc_list st)" using \<open>n \<in> set (sched_order st)\<close> sched_order_set [OF th] by simp
  then have "Some n \<noteq> idleproc st" using th unfolding threads_ok_def by auto
  then have "sched_order st' = B @ A @ [n]"
    using assms(6-8) rotate_order [of X Y A n B] di XY AB(1) by (simp add: sched_order_def)
  moreover have "p \<in> set B" using \<open>p \<in> set (sched_order st)\<close> AB(1) \<open>p \<notin> set A\<close> assms(5) by simp
  ultimately show ?thesis
    using \<open>p \<notin> set A\<close> assms(5) AB(1) by (auto simp: rank_def takeWhile_append)
qed

text \<open>
  A run of the system seen by thread \<open>p\<close>: between two calls of \<^verbatim>\<open>schedule\<close> the other threads may do
  anything that keeps the invariant, the process list, the running thread and that \<open>p\<close> is runnable.
\<close>

definition fair_run :: "nat \<Rightarrow> (nat \<Rightarrow> ksys) \<Rightarrow> bool" where
  "fair_run p \<sigma> \<longleftrightarrow> (\<forall>k. procs_ok (\<sigma> k) \<and> runnable (\<sigma> k) p \<and>
     (\<exists>t. schedule (\<sigma> k) = Some t \<and> proc_list (\<sigma> (Suc k)) = proc_list t \<and> idleproc (\<sigma> (Suc k)) = idleproc t
        \<and> current (\<sigma> (Suc k)) = current t))"

lemma fair_step:
  assumes "fair_run p \<sigma>"
  shows "\<exists>n. sched_next (\<sigma> k) = Some n \<and> current (\<sigma> (Suc k)) = Some n \<and> proc_list (\<sigma> (Suc k)) = proc_list (\<sigma> k)
    \<and> idleproc (\<sigma> (Suc k)) = idleproc (\<sigma> k)"
proof -
  obtain t where t: "procs_ok (\<sigma> k)" "schedule (\<sigma> k) = Some t" "proc_list (\<sigma> (Suc k)) = proc_list t" "idleproc (\<sigma> (Suc k)) = idleproc t"
    "current (\<sigma> (Suc k)) = current t" using assms unfolding fair_run_def by blast
  obtain c where c: "current (\<sigma> k) = Some c" using t(1) unfolding procs_ok_def threads_ok_def by blast
  obtain n where "sched_next (\<sigma> k) = Some n" "resched c n (\<sigma> k) t" using schedule_step [OF t(1) c] t(2) by auto
  then show ?thesis using t(3-5) by (auto simp: resched_def)
qed

lemma fair_reaches:
  assumes "fair_run p \<sigma>" "p \<in> set (proc_list (\<sigma> 0))"
  shows "\<exists>j. k < j \<and> j \<le> Suc (k + rank (\<sigma> k) p) \<and> current (\<sigma> j) = Some p"
proof (induction "rank (\<sigma> k) p" arbitrary: k rule: less_induct)
  case less
  have "p \<in> set (proc_list (\<sigma> k))" for k
    using fair_step [OF assms(1)] assms(2) by (induction k) metis+
  obtain n where n: "sched_next (\<sigma> k) = Some n" "current (\<sigma> (Suc k)) = Some n" "proc_list (\<sigma> (Suc k)) = proc_list (\<sigma> k)"
    "idleproc (\<sigma> (Suc k)) = idleproc (\<sigma> k)" using fair_step [OF assms(1)] by blast
  show ?case
  proof (cases "n = p")
    case True
    then show ?thesis using n(2) by (intro exI [of _ "Suc k"]) simp
  next
    case False
    have "procs_ok (\<sigma> k)" "runnable (\<sigma> k) p" using assms(1) unfolding fair_run_def by blast+
    then have r: "rank (\<sigma> (Suc k)) p < rank (\<sigma> k) p"
      using schedule_closer [of "\<sigma> k" p n "\<sigma> (Suc k)"] \<open>\<And>k. p \<in> set (proc_list (\<sigma> k))\<close> n False by blast
    obtain j where "Suc k < j" "j \<le> Suc (Suc k + rank (\<sigma> (Suc k)) p)" "current (\<sigma> j) = Some p"
      using less [OF r] by blast
    then show ?thesis using r by (intro exI [of _ j]) simp
  qed
qed

lemma rank_less:
  assumes "threads_ok st" "p \<in> set (proc_list st)"
  shows "rank st p < length (proc_list st)"
proof -
  obtain X Y where "proc_list st = X @ Y" "sched_order st = Y @ X" using sched_order_rotation [OF assms(1)] .
  then have l: "length (sched_order st) = length (proc_list st)" by simp
  have "p \<in> set (sched_order st)" using sched_order_set [OF assms(1)] assms(2) by simp
  then have "takeWhile (\<lambda>q. q \<noteq> p) (sched_order st) \<noteq> sched_order st" by (auto simp: takeWhile_eq_all_conv)
  then have "length (takeWhile (\<lambda>q. q \<noteq> p) (sched_order st)) < length (sched_order st)"
    using length_takeWhile_le [of "\<lambda>q. q \<noteq> p" "sched_order st"] by (metis le_neq_implies_less takeWhile_eq_take take_all_iff order_refl)
  then show ?thesis using l by (simp add: rank_def)
qed

section \<open>Starting the process system\<close>

lemma procs_ok_upd:
  assumes "\<And>q. pid (f q) = pid q \<and> pmm (f q) = pmm q \<and> kstack (f q) = kstack q"
  shows "procs_ok (upd_proc p f st) = procs_ok st"
proof -
  have sp: "stack_page (upd_proc p f st) q = stack_page st q" for q using assms by (simp add: stack_page_def)
  have pq: "pid (procs (upd_proc p f st) q) = pid (procs st q)" "pmm (procs (upd_proc p f st) q) = pmm (procs st q)" for q
    using assms by simp_all
  show ?thesis
    by (simp add: procs_ok_def table_ok_def threads_ok_def stacks_ok_def sp pq del: upd_proc_simps(1))
qed

text \<open>The state before \<^verbatim>\<open>proc_init\<close>: memory is set up, no process exists and no flags are saved.\<close>

definition boot_state :: "ksys \<Rightarrow> bool" where
  "boot_state st \<longleftrightarrow> frames_ok (mach st) \<and> distinct (objs st) \<and> nr_process st = 0 \<and> last_pid st = MAX_PID \<and> next_safe st = MAX_PID
     \<and> kflags st = (\<lambda>_. [])"

definition idle_thread :: "symbols \<Rightarrow> (nat \<Rightarrow> u8) \<Rightarrow> u32 \<Rightarrow> proc_struct" where
  "idle_thread sy name cr = \<lparr>pstate = PROC_RUNNABLE, pid = 0, runs = 0, kstack = bootstack sy, need_resched = True, pparent = None,
     pmm = None, pcontext = zero_context, ptf = 0, pgdir_addr = cr, pflags = 0, pname = map name [0..<PROC_NAME_LEN] @ [0]\<rparr>"

definition idle_state :: "symbols \<Rightarrow> (nat \<Rightarrow> u8) \<Rightarrow> ksys \<Rightarrow> ksys" where
  "idle_state sy name st = st\<lparr>proc_list := [], hash_list := (\<lambda>_. []), objs := tl (objs st), idleproc := Some (hd (objs st)),
     procs := (procs st)(hd (objs st) := idle_thread sy name (boot_pgdir_p st)), nr_process := 1, current := Some (hd (objs st))\<rparr>"

lemma idle_state_ok:
  assumes "boot_state st" "objs st \<noteq> []"
  shows "procs_ok (idle_state sy name st)"
proof -
  have "table_ok (idle_state sy name st)"
    using assms by (simp add: table_ok_def idle_state_def boot_state_def safe_range_def)
  moreover have "threads_ok (idle_state sy name st)"
    using assms by (cases "objs st") (auto simp: threads_ok_def idle_state_def boot_state_def idle_thread_def)
  moreover have "stacks_ok (idle_state sy name st)"
    using assms by (simp add: stacks_ok_def idle_state_def boot_state_def)
  ultimately show ?thesis by (simp add: procs_ok_def)
qed

lemma proc_init_idle:
  assumes "boot_state st" "objs st \<noteq> []"
  shows "proc_init sy idle_name init_name arg st = do {
     (n, st') \<leftarrow> kernel_thread sy (init_main sy) arg 0 (idle_state sy idle_name st);
     kassert (\<not> n \<le> 0);
     let st' = st'\<lparr>initproc := find_proc n st'\<rparr>;
     i \<leftarrow> initproc st';
     let st' = set_proc_name i init_name st';
     kassert (idleproc st' \<noteq> None \<and> pid (procs st' (hd (objs st))) = 0);
     kassert (pid (procs st' i) = 1);
     Some st'
   }"
proof -
  obtain p os where po: "objs st = p # os" using assms(2) by (cases "objs st") auto
  define idle where "idle = idle_state sy idle_name st"
  have k: "kmalloc (st\<lparr>proc_list := [], hash_list := (\<lambda>_. [])\<rparr>) = (Some p, st\<lparr>proc_list := [], hash_list := (\<lambda>_. []), objs := os\<rparr>)"
    using po by (simp add: kmalloc_def)
  have "idle = st\<lparr>proc_list := [], hash_list := (\<lambda>_. []), objs := os, idleproc := Some p,
     procs := (procs st)(p := idle_thread sy idle_name (boot_pgdir_p st)), nr_process := nr_process st + 1, current := Some p\<rparr>"
    using assms(1) po by (simp add: idle_def idle_state_def boot_state_def)
  then show ?thesis
    unfolding idle_def [symmetric] by (simp add: proc_init_def alloc_proc_def k po set_proc_name_def [of p idle_name] upd_proc_def [of p] idle_thread_def)
qed

section \<open>A system before its first process\<close>

definition demo_boot :: ksys where
  "demo_boot = \<lparr>mach = \<lparr>phys = small_machine, frames = (\<lambda>_ _. 0), cr3 = 0, tlb = (\<lambda>_. None), eflags = 0x200\<rparr>, objs = [10, 11, 12],
     shmns = (\<lambda>_. \<lparr>sn_start = 0, sn_end = 0, sn_entry = 0\<rparr>),
     shmems = (\<lambda>_. \<lparr>shmn_list = [], shmn_cache = None, len = 0, shmem_refs = 0, shmem_lock = 0\<rparr>),
     procs = (\<lambda>_. idle_thread \<lparr>kernel_thread_entry = 0, forkret = 0, init_main = 0, bootstack = 0\<rparr> (\<lambda>_. 0) 0), proc_list = [],
     hash_list = (\<lambda>_. []), idleproc = None, initproc = None, current = None, nr_process = 0, last_pid = MAX_PID, next_safe = MAX_PID,
     tss = \<lparr>ts_esp0 = 0, ts_ss0 = 0\<rparr>, cpu = zero_context,
     tfs = (\<lambda>_. \<lparr>tf_regs = zero_regs, tf_es = 0, tf_ds = 0, tf_trapno = 0, tf_err = 0, tf_eip = 0, tf_cs = 0, tf_eflags = 0, tf_esp = 0, tf_ss = 0\<rparr>),
     kflags = (\<lambda>_. []), boot_pgdir_p = 0x5000\<rparr>"

abbreviation demo_syms :: symbols where
  "demo_syms \<equiv> \<lparr>kernel_thread_entry = 0xC0100000, forkret = 0xC0100100, init_main = 0xC0100200, bootstack = 0xC0110000\<rparr>"

abbreviation demo_idle :: ksys where
  "demo_idle \<equiv> idle_state demo_syms (\<lambda>_. 0) demo_boot"

lemma demo_boot_ok: "boot_state demo_boot"
proof -
  have "npage small_machine = 6" by code_simp
  then have "frames_ok (mach demo_boot)"
    using small_machine_spec(2) by (simp add: frames_ok_def demo_boot_def region_ok_def)
  then show ?thesis by (simp add: boot_state_def demo_boot_def)
qed

lemma demo_idle_ok: "procs_ok demo_idle"
  by (rule idle_state_ok [OF demo_boot_ok]) (simp add: demo_boot_def)

lemma demo_block: "\<not> no_block_from 1 (phys (mach demo_boot))"
proof -
  have "free_list small_machine 1 \<noteq> []" by code_simp
  then show ?thesis by (auto simp: no_block_from_def demo_boot_def)
qed

section \<open>Properties\<close>

text \<open>
  C32: \<^verbatim>\<open>get_pid\<close> always returns as long as there are fewer processes than \<^verbatim>\<open>MAX_PROCESS\<close>, although
  its search restarts and wraps around; the number is in \<open>[1, MAX_PID)\<close>, no process has it, and
  the numbers above it below the new \<^verbatim>\<open>next_safe\<close> are unused, so that later calls may hand them out
  without a search.
\<close>

theorem get_pid_fresh:
  assumes "table_ok st" "nr_process st < MAX_PROCESS"
  shows "\<exists>n s. get_pid st = Some (n, st\<lparr>last_pid := n, next_safe := s\<rparr>) \<and> 1 \<le> n \<and> n < MAX_PID
    \<and> (\<forall>p\<in>set (proc_list st). pid (procs st p) \<noteq> n \<and> \<not> (n < pid (procs st p) \<and> pid (procs st p) < s)) \<and> n < s"
  using table_next_pid [OF assms] by (auto simp: get_pid_next pid_valid_def safe_range_def)

theorem get_pid_fresh_witness:
  "\<exists>n s. get_pid demo_idle = Some (n, demo_idle\<lparr>last_pid := n, next_safe := s\<rparr>) \<and> 1 \<le> n \<and> n < MAX_PID"
proof -
  have "table_ok demo_idle" using demo_idle_ok by (simp add: procs_ok_def)
  moreover have "nr_process demo_idle < MAX_PROCESS" by (simp add: idle_state_def)
  ultimately show ?thesis using get_pid_fresh [of demo_idle] by blast
qed

text \<open>
  C8: \<^verbatim>\<open>do_fork\<close> never panics on a consistent system and keeps it consistent. It refuses with
  \<^verbatim>\<open>-E_NO_FREE_PROC\<close> exactly when the table is full, leaving the system as it was; it returns
  \<^verbatim>\<open>-E_NO_MEM\<close> only when there is no object or no block for a kernel stack, and then gives everything
  back. Otherwise the new thread is the first in the process list, runnable, with a process number
  nobody else has, found by \<^verbatim>\<open>find_proc\<close>, with the caller as its parent and a kernel stack disjoint
  from every other (the invariant \<open>procs_ok\<close>); no other thread is touched.
\<close>

theorem do_fork_correct:
  assumes "procs_ok st"
  shows "\<exists>r st'. do_fork sy cf stack tf st = Some (r, st') \<and> procs_ok st' \<and>
    (r = - E_NO_FREE_PROC \<and> nr_process st \<ge> MAX_PROCESS \<and> st' = st
     \<or> r = - E_NO_MEM \<and> (objs st = [] \<or> no_block_from 1 (phys (mach st))) \<and> mach st' = mach st \<and> objs st' = objs st
         \<and> proc_list st' = proc_list st \<and> hash_list st' = hash_list st \<and> nr_process st' = nr_process st
         \<and> (\<forall>q\<in>set (proc_list st). procs st' q = procs st q)
     \<or> 0 < r \<and> nr_process st < MAX_PROCESS \<and> r \<notin> set (pids_of st) \<and>
       (\<exists>p. objs st = p # objs st' \<and> proc_list st' = p # proc_list st \<and> runnable st' p \<and> find_proc r st' = Some p
          \<and> pid (procs st' p) = r \<and> pparent (procs st' p) = current st \<and> (\<forall>q. q \<noteq> p \<longrightarrow> procs st' q = procs st q)
          \<and> current st' = current st \<and> eflags (mach st') = eflags (mach st)))"
  using assms
proof (cases rule: do_fork_cases [where sy = sy and cf = cf and stack = stack and tf = tf])
  case full
  then show ?thesis using assms by auto
next
  case (no_mem st')
  have "mach st' = mach st \<and> objs st' = objs st \<and> proc_list st' = proc_list st \<and> hash_list st' = hash_list st
      \<and> nr_process st' = nr_process st \<and> (\<forall>q\<in>set (proc_list st). procs st' q = procs st q)"
    using no_mem(4) assms by (auto simp: procs_ok_def threads_ok_def)
  then show ?thesis using no_mem(2,3,5) by auto
next
  case (ok p pg b n s)
  let ?st = "forked sy stack tf p pg b n s st"
  have "find_proc (pid (procs ?st p)) ?st = Some p" using ok(9) by (intro find_proc_ok) (simp_all add: procs_ok_def)
  then have "find_proc n ?st = Some p" by simp
  then show ?thesis using ok by (intro exI [of _ n] exI [of _ ?st]) (auto simp: runnable_def pid_valid_def)
qed

theorem do_fork_correct_witness:
  "\<exists>r st' p. do_fork demo_syms 0 0 (tfs demo_boot 0) demo_idle = Some (r, st') \<and> 0 < r \<and> procs_ok st' \<and> find_proc r st' = Some p"
proof -
  have "nr_process demo_idle = 1" "objs demo_idle = [11, 12]" "phys (mach demo_idle) = phys (mach demo_boot)"
    by (simp_all add: idle_state_def demo_boot_def)
  then show ?thesis
    using do_fork_correct [OF demo_idle_ok, of demo_syms 0 0 "tfs demo_boot 0"] demo_block by auto
qed

text \<open>
  C39: starting the process system. From a state with memory set up, \<^verbatim>\<open>proc_init\<close> makes the idle
  thread, process 0, the current one and creates process 1, both runnable, in a consistent process
  table; it panics only when there are not two objects or no block of two pages for a kernel stack.
\<close>

theorem proc_init_correct:
  assumes "boot_state st"
  shows "case proc_init sy idle_name init_name arg st of
      None \<Rightarrow> length (objs st) < 2 \<or> no_block_from 1 (phys (mach st))
    | Some st' \<Rightarrow> procs_ok st' \<and> (\<exists>i p. idleproc st' = Some i \<and> current st' = Some i \<and> initproc st' = Some p \<and> proc_list st' = [p]
        \<and> pid (procs st' i) = 0 \<and> pid (procs st' p) = 1 \<and> runnable st' i \<and> runnable st' p \<and> need_resched (procs st' i)
        \<and> find_proc 1 st' = Some p)"
proof (cases "objs st = []")
  case True
  then show ?thesis by (simp add: proc_init_def alloc_proc_def kmalloc_def)
next
  case False
  let ?idle = "idle_state sy idle_name st"
  note ok = idle_state_ok [OF assms False, of sy idle_name]
  note un = proc_init_idle [OF assms False, of sy idle_name init_name arg, unfolded kernel_thread_def]
  define tf where "tf = \<lparr>tf_regs = zero_regs\<lparr>reg_ebx := init_main sy, reg_edx := arg\<rparr>, tf_es = KERNEL_DS, tf_ds = KERNEL_DS,
      tf_trapno = 0, tf_err = 0, tf_eip = kernel_thread_entry sy, tf_cs = KERNEL_CS, tf_eflags = 0, tf_esp = 0, tf_ss = KERNEL_DS\<rparr>"
  note un = un [folded tf_def]
  from ok show ?thesis
  proof (cases rule: do_fork_cases [where sy = sy and cf = "0 OR CLONE_VM" and stack = 0 and tf = tf])
    case full
    then show ?thesis by (simp add: idle_state_def)
  next
    case (no_mem st')
    then have "proc_init sy idle_name init_name arg st = None" unfolding un by simp
    moreover have "length (objs st) < 2 \<or> no_block_from 1 (phys (mach st))"
      using no_mem(5) False by (cases "objs st") (auto simp: idle_state_def)
    ultimately show ?thesis by simp
  next
    case (ok p pg b n s)
    have n: "n = 1" using ok(7) assms by (simp add: idle_state_def boot_state_def next_pid_def pid_scan.simps)
    let ?st = "forked sy 0 tf p pg b n s ?idle"
    have "find_proc (pid (procs ?st p)) ?st = Some p" using ok(9) by (intro find_proc_ok) (simp_all add: procs_ok_def)
    then have fp: "find_proc 1 ?st = Some p" by (simp add: n)
    have "p \<in> set (objs ?idle)" by (subst ok(3)) simp
    then have pi: "p \<noteq> hd (objs st)"
      using assms False by (cases "objs st") (auto simp: idle_state_def boot_state_def)
    let ?f = "set_proc_name p init_name (?st\<lparr>initproc := Some p\<rparr>)"
    have "proc_init sy idle_name init_name arg st = Some ?f"
      unfolding un ok(2) using fp pi n by (simp add: set_proc_name_def idle_state_def idle_thread_def)
    moreover have pf: "procs_ok ?f"
      using ok(9) unfolding set_proc_name_def by (subst procs_ok_upd) (simp_all add: procs_ok_def table_ok_def threads_ok_def stacks_ok_def stack_page_def)
    moreover have "find_proc 1 ?f = Some p"
    proof -
      have "pid (procs ?f p) = 1" using n by (simp add: set_proc_name_def)
      moreover have "find_proc (pid (procs ?f p)) ?f = Some p"
        using pf by (intro find_proc_ok) (simp_all add: procs_ok_def set_proc_name_def)
      ultimately show ?thesis by simp
    qed
    ultimately show ?thesis
      using pi n by (auto simp: set_proc_name_def idle_state_def idle_thread_def runnable_def)
  qed
qed

theorem proc_init_correct_witness:
  "\<exists>st'. proc_init demo_syms (\<lambda>_. 0) (\<lambda>_. 0) 0 demo_boot = Some st' \<and> procs_ok st' \<and> length (proc_list st') = 1"
proof -
  have "length (objs demo_boot) = 3" by (simp add: demo_boot_def)
  then show ?thesis
    using proc_init_correct [OF demo_boot_ok, of demo_syms "\<lambda>_. 0" "\<lambda>_. 0" 0] demo_block
    by (auto split: option.splits)
qed

text \<open>
  C31: \<^verbatim>\<open>schedule\<close> always returns and keeps the system consistent. The next thread is the first
  runnable one after the current thread in the circular process list, with the current thread last (the list from its
  head when the idle thread is current), or the idle thread when none is runnable. On a switch the registers, the page directory, the emptied TLB and the stack for traps
  are those of the next thread, the registers of the old one are saved, and both continue with the
  interrupt flag they had when they called.
\<close>

theorem schedule_round_robin:
  assumes "procs_ok st" "current st = Some c"
  shows "\<exists>n st'. schedule st = Some st' \<and> procs_ok st' \<and> resched c n st st' \<and>
    (\<exists>before after. proc_list st = before @ after
       \<and> (if idleproc st = Some c then before = [] else before \<noteq> [] \<and> last before = c)
       \<and> (case find (runnable st) (after @ before) of Some p \<Rightarrow> n = p | None \<Rightarrow> idleproc st = Some n))"
proof -
  have "threads_ok st" using assms(1) by (simp add: procs_ok_def)
  then show ?thesis using schedule_step [OF assms] sched_next_turn [OF _ assms(2)] unfolding next_in_turn_def by blast
qed

text \<open>The system after the idle thread, 10, created thread 11.\<close>

lemma demo_forked:
  obtains st where "procs_ok st" "proc_list st = [11]" "runnable st 11" "current st = Some 10"
  using demo_idle_ok
proof (cases rule: do_fork_cases [where sy = demo_syms and cf = 0 and stack = 0 and tf = "tfs demo_boot 0"])
  case (ok p pg b n s)
  have "p = 11" using ok(3) by (simp add: idle_state_def demo_boot_def)
  then show ?thesis
    using that [OF ok(9)] by (simp add: idle_state_def demo_boot_def runnable_def)
qed (use demo_block in \<open>simp_all add: idle_state_def demo_boot_def\<close>)

theorem schedule_round_robin_witness:
  "\<exists>st st' n. schedule st = Some st' \<and> current st = Some 10 \<and> current st' = Some n \<and> n \<noteq> 10 \<and> procs_ok st'"
proof -
  obtain st where st: "procs_ok st" "proc_list st = [11]" "runnable st 11" "current st = Some 10" using demo_forked .
  obtain n st' where n: "schedule st = Some st'" "procs_ok st'" "resched 10 n st st'"
    "\<exists>before after. proc_list st = before @ after \<and> (case find (runnable st) (after @ before) of Some p \<Rightarrow> n = p | None \<Rightarrow> idleproc st = Some n)"
    using schedule_round_robin [OF st(1,4)] by blast
  then have "n = 11" using st(2,3) by (auto simp: append_eq_Cons_conv Cons_eq_append_conv)
  moreover have "current st' = Some n" using n(3) by (simp add: resched_def)
  ultimately show ?thesis using n(1,2) st(4) by (intro exI [of _ st] exI [of _ st'] exI [of _ n]) simp
qed

text \<open>
  C9: the scheduler is fair. In every run in which a process stays runnable, however the other
  threads change their states in between, each window of as many calls of \<^verbatim>\<open>schedule\<close> as there are
  processes has one that gives the processor to this process.
\<close>

theorem schedule_fair:
  assumes "fair_run p \<sigma>" "p \<in> set (proc_list (\<sigma> 0))"
  shows "\<exists>j. k < j \<and> j \<le> k + length (proc_list (\<sigma> 0)) \<and> current (\<sigma> j) = Some p"
proof -
  have same: "proc_list (\<sigma> k) = proc_list (\<sigma> 0)" using fair_step [OF assms(1)] by (induction k) metis+
  have "threads_ok (\<sigma> k)" using assms(1) unfolding fair_run_def procs_ok_def by blast
  then have "rank (\<sigma> k) p < length (proc_list (\<sigma> 0))" using rank_less [of "\<sigma> k" p] assms(2) same by simp
  then show ?thesis using fair_reaches [OF assms, of k] by auto
qed

text \<open>The run in which nothing happens but scheduling.\<close>

primrec sched_run :: "ksys \<Rightarrow> nat \<Rightarrow> ksys" where
  "sched_run st 0 = st"
| "sched_run st (Suc k) = the (schedule (sched_run st k))"

lemma sched_run_fair:
  assumes "procs_ok st" "runnable st p"
  shows "fair_run p (sched_run st)"
proof -
  have step: "\<exists>c n t. schedule s = Some t \<and> resched c n s t \<and> procs_ok t" if "procs_ok s" for s
  proof -
    obtain c where "current s = Some c" using \<open>procs_ok s\<close> unfolding procs_ok_def threads_ok_def by blast
    then show ?thesis using schedule_step [OF \<open>procs_ok s\<close>] by blast
  qed
  have inv: "procs_ok (sched_run st k) \<and> runnable (sched_run st k) p" for k
  proof (induction k)
    case (Suc k)
    obtain c n t where "schedule (sched_run st k) = Some t" "resched c n (sched_run st k) t" "procs_ok t"
      using step Suc by blast
    then show ?case using Suc by (simp add: resched_def runnable_def)
  qed (use assms in simp)
  have "\<exists>t. schedule (sched_run st k) = Some t \<and> sched_run st (Suc k) = t" for k
    using step [of "sched_run st k"] inv [of k] by auto
  then show ?thesis using inv unfolding fair_run_def by blast
qed

theorem schedule_fair_witness:
  "\<exists>st. current st = Some 10 \<and> current (sched_run st 1) = Some 11"
proof -
  obtain st where st: "procs_ok st" "proc_list st = [11]" "runnable st 11" "current st = Some 10" using demo_forked .
  have "\<exists>j. 0 < j \<and> j \<le> 0 + length (proc_list (sched_run st 0)) \<and> current (sched_run st j) = Some 11"
    using st by (intro schedule_fair [OF sched_run_fair]) simp_all
  then obtain j where "0 < j" "j \<le> 1" "current (sched_run st j) = Some 11" using st(2) by auto
  moreover from this have "j = 1" by simp
  ultimately show ?thesis using st(4) by blast
qed
end
