(* ===== verification/Printfmt.thy ===== *)
theory Printfmt
  imports Strings Libs
begin

text \<open>
  The formatted printer of \<^verbatim>\<open>lib/printfmt.c\<close>. The output function \<^verbatim>\<open>putch(ch, putdat)\<close> is an
  argument, a function on the state \<^verbatim>\<open>putdat\<close> points to, as in the source. A \<^verbatim>\<open>va_list\<close> is the
  sequence of 32-bit words on the i386 stack, so that \<^verbatim>\<open>long long\<close> takes two of them, the low one
  first; taking an argument that is not there has no value (\<open>None\<close>). Format and string arguments
  are read from the memory of the call, which \<^verbatim>\<open>putch\<close> is taken not to change (the buffer of
  \<^verbatim>\<open>snprintf\<close> does not overlap them). String literals stand in memories of their own. Loops
  over strings are partial functions: \<open>None\<close> also means that they do not return. Signed
  overflow of a field width is undefined in C and not modelled: widths are integers.
\<close>

section \<open>Definitions\<close>

type_synonym va_list = "u32 list"

definition lit_mem :: "string \<Rightarrow> mem" where
  "lit_mem cs = (\<lambda>a. if unat a < length cs then of_char (cs ! unat a) else 0)"

text \<open>The format \<^verbatim>\<open>"%s"\<close> at address 0, with its argument, another literal, at address 16.\<close>

definition lit_mem_s :: "string \<Rightarrow> mem" where
  "lit_mem_s p = (\<lambda>a. if a < 16 then lit_mem ''%s'' a else lit_mem p (a - 16))"

definition error_string :: "int \<Rightarrow> string option" where
  "error_string err =
     (if err = 1 then Some ''unspecified error'' else if err = 2 then Some ''bad process''
      else if err = 3 then Some ''invalid parameter'' else if err = 4 then Some ''out of memory''
      else if err = 5 then Some ''out of processes'' else if err = 6 then Some ''segmentation fault''
      else None)"

definition pad :: "(int \<Rightarrow> 's \<Rightarrow> 's) \<Rightarrow> int \<Rightarrow> int \<Rightarrow> 's \<Rightarrow> 's" where
  "pad putch c k s = (putch c ^^ nat k) s"

partial_function (option) printnum ::
  "(int \<Rightarrow> 's \<Rightarrow> 's) \<Rightarrow> u64 \<Rightarrow> u32 \<Rightarrow> int \<Rightarrow> int \<Rightarrow> 's \<Rightarrow> 's option" where
  "printnum putch num base width padc s = do {
     (result, md) \<leftarrow> do_div num base;
     s' \<leftarrow> (if num \<ge> ucast base then printnum putch result base (width - 1) padc s
           else Some (pad putch padc (width - 1) s));
     if unat md < 16 then Some (putch (of_char (''0123456789abcdef'' ! unat md)) s') else None
   }"

definition va_arg :: "va_list \<Rightarrow> (u32 \<times> va_list) option" where
  "va_arg ap = (case ap of [] \<Rightarrow> None | w # ap' \<Rightarrow> Some (w, ap'))"

definition va_arg_ll :: "va_list \<Rightarrow> (u64 \<times> va_list) option" where
  "va_arg_ll ap = (case ap of lo # hi # ap' \<Rightarrow> Some (push_bit 32 (ucast hi) OR ucast lo, ap') | _ \<Rightarrow> None)"

definition getuint :: "va_list \<Rightarrow> int \<Rightarrow> (u64 \<times> va_list) option" where
  "getuint ap lflag =
     (if lflag \<ge> 2 then va_arg_ll ap else map_option (\<lambda>(w, ap'). (ucast w, ap')) (va_arg ap))"

definition getint :: "va_list \<Rightarrow> int \<Rightarrow> (u64 \<times> va_list) option" where
  "getint ap lflag =
     (if lflag \<ge> 2 then va_arg_ll ap else map_option (\<lambda>(w, ap'). (scast w, ap')) (va_arg ap))"

record fmtspec =
  padc :: int
  width :: int
  precision :: int
  lflag :: int
  altflag :: bool

definition init_spec :: fmtspec where
  "init_spec = \<lparr>padc = 32, width = -1, precision = -1, lflag = 0, altflag = False\<rparr>"

definition process_precision :: "fmtspec \<Rightarrow> fmtspec" where
  "process_precision f =
     (if width f < 0 then f\<lparr>width := precision f, precision := -1\<rparr> else f)"

text \<open>The loop of case \<^verbatim>\<open>'1' ... '9'\<close>: the digits of a field width, \<open>ch\<close> the one just read.\<close>

partial_function (option) width_field :: "mem \<Rightarrow> u32 \<Rightarrow> int \<Rightarrow> int \<Rightarrow> (int \<times> u32) option" where
  "width_field m fmt ch prec =
     (let prec' = prec * 10 + ch - 48; ch' = m fmt in
      if ch' < 48 \<or> ch' > 57 then Some (prec', fmt) else width_field m (fmt + 1) (uint ch') prec')"

text \<open>The flags after \<^verbatim>\<open>%\<close>, up to the first character that \<^verbatim>\<open>goto reswitch\<close> does not follow.\<close>

partial_function (option) reswitch ::
  "mem \<Rightarrow> u32 \<Rightarrow> va_list \<Rightarrow> fmtspec \<Rightarrow> (u8 \<times> u32 \<times> va_list \<times> fmtspec) option" where
  "reswitch m fmt ap f =
     (let ch = m fmt; fmt' = fmt + 1 in
      if ch = 45 then reswitch m fmt' ap (f\<lparr>padc := 45\<rparr>)
      else if ch = 48 then reswitch m fmt' ap (f\<lparr>padc := 48\<rparr>)
      else if 49 \<le> ch \<and> ch \<le> 57 then do {
        (prec, fmt'') \<leftarrow> width_field m fmt' (uint ch) 0;
        reswitch m fmt'' ap (process_precision (f\<lparr>precision := prec\<rparr>))
      }
      else if ch = 42 then do {
        (w, ap') \<leftarrow> va_arg ap;
        reswitch m fmt' ap' (process_precision (f\<lparr>precision := sint w\<rparr>))
      }
      else if ch = 46 then reswitch m fmt' ap (if width f < 0 then f\<lparr>width := 0\<rparr> else f)
      else if ch = 35 then reswitch m fmt' ap (f\<lparr>altflag := True\<rparr>)
      else if ch = 108 then reswitch m fmt' ap (f\<lparr>lflag := lflag f + 1\<rparr>)
      else Some (ch, fmt', ap, f))"

text \<open>The character loop of \<^verbatim>\<open>%s\<close>; plain \<^verbatim>\<open>char\<close> is signed.\<close>

partial_function (option) put_str ::
  "(int \<Rightarrow> 's \<Rightarrow> 's) \<Rightarrow> mem \<Rightarrow> u32 \<Rightarrow> int \<Rightarrow> int \<Rightarrow> bool \<Rightarrow> 's \<Rightarrow> (int \<times> 's) option" where
  "put_str putch m p prec w alt s =
     (let ch = sint (m p) in
      if ch \<noteq> 0 \<and> (prec < 0 \<or> prec - 1 \<ge> 0)
      then put_str putch m (p + 1) (if prec < 0 then prec else prec - 1) (w - 1) alt
             (putch (if alt \<and> (ch < 32 \<or> ch > 126) then 63 else ch) s)
      else Some (w, s))"

definition print_string :: "(int \<Rightarrow> 's \<Rightarrow> 's) \<Rightarrow> mem \<Rightarrow> u32 \<Rightarrow> fmtspec \<Rightarrow> 's \<Rightarrow> 's option" where
  "print_string putch m p f s =
     (let (w, s1) =
        (if width f > 0 \<and> padc f \<noteq> 45 then
           let w = sint (word_of_int (width f) - strnlen m p (word_of_int (precision f)))
           in (if w > 0 then 0 else w, pad putch (padc f) w s)
         else (width f, s))
      in do {
        (w', s2) \<leftarrow> put_str putch m p (precision f) w (altflag f) s1;
        Some (pad putch 32 w' s2)
      })"

text \<open>
  The conversions other than \<^verbatim>\<open>%e\<close>: the argument list and the state after them. The last case is
  the escaped \<^verbatim>\<open>%\<close>.
\<close>

definition convert ::
  "(int \<Rightarrow> 's \<Rightarrow> 's) \<Rightarrow> mem \<Rightarrow> u8 \<Rightarrow> va_list \<Rightarrow> fmtspec \<Rightarrow> 's \<Rightarrow> (va_list \<times> 's) option" where
  "convert putch m ch ap f s =
     (let number = (\<lambda>num base ap s. map_option (\<lambda>s'. (ap, s')) (printnum putch num base (width f) (padc f) s)) in
      if ch = 99 then do { (w, ap') \<leftarrow> va_arg ap; Some (ap', putch (sint w) s) }
      else if ch = 115 then do {
        (p, ap') \<leftarrow> va_arg ap;
        s' \<leftarrow> (if p = 0 then print_string putch (lit_mem ''(null)'') 0 f s else print_string putch m p f s);
        Some (ap', s')
      }
      else if ch = 100 then do {
        (num, ap') \<leftarrow> getint ap (lflag f);
        if sint num < 0 then number (- num) 10 ap' (putch 45 s) else number num 10 ap' s
      }
      else if ch = 117 then do { (num, ap') \<leftarrow> getuint ap (lflag f); number num 10 ap' s }
      else if ch = 111 then do { (num, ap') \<leftarrow> getuint ap (lflag f); number num 8 ap' s }
      else if ch = 112 then do { (p, ap') \<leftarrow> va_arg ap; number (ucast p) 16 ap' (putch 120 (putch 48 s)) }
      else if ch = 120 then do { (num, ap') \<leftarrow> getuint ap (lflag f); number num 16 ap' s }
      else Some (ap, putch (uint ch) s))"

definition is_conversion :: "u8 \<Rightarrow> bool" where
  "is_conversion ch \<longleftrightarrow> ch \<in> {99, 115, 100, 117, 111, 112, 120, 37}"

text \<open>The \<^verbatim>\<open>default\<close> case walks back to just after the \<^verbatim>\<open>%\<close>.\<close>

partial_function (option) back_to_percent :: "mem \<Rightarrow> u32 \<Rightarrow> u32 option" where
  "back_to_percent m fmt = (if m (fmt - 1) \<noteq> 37 then back_to_percent m (fmt - 1) else Some fmt)"

partial_function (option) vprintfmt ::
  "(int \<Rightarrow> 's \<Rightarrow> 's) \<Rightarrow> mem \<Rightarrow> u32 \<Rightarrow> va_list \<Rightarrow> 's \<Rightarrow> 's option" where
  "vprintfmt putch m fmt ap s =
     (if m fmt \<noteq> 37 then
        if m fmt = 0 then Some s else vprintfmt putch m (fmt + 1) ap (putch (uint (m fmt)) s)
      else do {
        (ch, fmt', ap', f) \<leftarrow> reswitch m (fmt + 1) ap init_spec;
        if ch = 101 then do {
          (w, ap'') \<leftarrow> va_arg ap';
          let err = \<bar>sint w\<bar>;
          s' \<leftarrow> (case error_string err of
                  None \<Rightarrow> vprintfmt putch (lit_mem ''error %d'') 0 [word_of_int err] s
                | Some p \<Rightarrow> vprintfmt putch (lit_mem_s p) 0 [16] s);
          vprintfmt putch m fmt' ap'' s'
        }
        else if is_conversion ch then do {
          (ap'', s') \<leftarrow> convert putch m ch ap' f s;
          vprintfmt putch m fmt' ap'' s'
        }
        else do {
          fmt'' \<leftarrow> back_to_percent m (fmt' - 1);
          vprintfmt putch m fmt'' ap' (putch 37 s)
        }
      })"

record sprintbuf =
  buf :: u32
  ebuf :: u32
  cnt :: u32

definition sprintputch :: "int \<Rightarrow> sprintbuf \<times> mem \<Rightarrow> sprintbuf \<times> mem" where
  "sprintputch ch = (\<lambda>(b, m).
     let b = b\<lparr>cnt := cnt b + 1\<rparr> in
     if buf b < ebuf b then (b\<lparr>buf := buf b + 1\<rparr>, m(buf b := word_of_int ch)) else (b, m))"

definition vsnprintf :: "u32 \<Rightarrow> u32 \<Rightarrow> u32 \<Rightarrow> va_list \<Rightarrow> mem \<Rightarrow> (int \<times> mem) option" where
  "vsnprintf str sz fmt ap m =
     (let b = \<lparr>buf = str, ebuf = str + sz - 1, cnt = 0\<rparr> in
      if str = 0 \<or> buf b > ebuf b then Some (-3, m)
      else do {
        (b', m') \<leftarrow> vprintfmt sprintputch m fmt ap (b, m);
        Some (sint (cnt b'), m'(buf b' := 0))
      })"

section \<open>Independence of the printed function\<close>

text \<open>
  Two printed functions that agree along a relation on their states give related results: the
  printer passes characters on and never looks at the state.
\<close>

definition putch_sim :: "('a \<Rightarrow> 'b \<Rightarrow> bool) \<Rightarrow> (int \<Rightarrow> 'a \<Rightarrow> 'a) \<Rightarrow> (int \<Rightarrow> 'b \<Rightarrow> 'b) \<Rightarrow> bool" where
  "putch_sim R p q \<longleftrightarrow> (\<forall>c s t. R s t \<longrightarrow> R (p c s) (q c t))"

lemma putch_simD: "putch_sim R p q \<Longrightarrow> R s t \<Longrightarrow> R (p c s) (q c t)"
  by (simp add: putch_sim_def)

lemma pad_sim: "putch_sim R p q \<Longrightarrow> R s t \<Longrightarrow> R (pad p c k s) (pad q c k t)"
proof -
  assume a: "putch_sim R p q" "R s t"
  have "R ((p c ^^ n) s) ((q c ^^ n) t)" for n
    by (induction n) (use a in \<open>auto intro: putch_simD\<close>)
  then show ?thesis by (simp add: pad_def)
qed

lemma printnum_sim:
  "printnum p num base w pc s = Some r \<Longrightarrow> putch_sim R p q \<Longrightarrow> R s t
    \<Longrightarrow> \<exists>r'. printnum q num base w pc t = Some r' \<and> R r r'"
proof (induction arbitrary: t rule: printnum.raw_induct [rotated, consumes 1, case_names step])
  case (step pn p num base w pc s r)
  obtain res md where d: "do_div num base = Some (res, md)" and md: "unat md < 16"
    using step.hyps by (auto simp: bind_Some_iff split: prod.splits if_splits)
  show ?case
  proof (cases "num \<ge> ucast base")
    case True
    with step.hyps d md obtain s' where s': "pn p res base (w - 1) pc s = Some s'"
      "r = p (of_char (''0123456789abcdef'' ! unat md)) s'"
      by (auto simp: bind_Some_iff)
    obtain t' where "printnum q res base (w - 1) pc t = Some t'" "R s' t'"
      using step.IH [OF s'(1) step.prems] by blast
    with True d md s' putch_simD [OF step.prems(1) this(2)] show ?thesis
      by (simp add: printnum.simps [of q num])
  next
    case False
    with step.hyps d md putch_simD [OF step.prems(1) pad_sim [OF step.prems]] show ?thesis
      by (auto simp: printnum.simps [of q num])
  qed
qed

lemma put_str_sim:
  "put_str p m a prec w alt s = Some r \<Longrightarrow> putch_sim R p q \<Longrightarrow> R s t
    \<Longrightarrow> \<exists>t'. put_str q m a prec w alt t = Some (fst r, t') \<and> R (snd r) t'"
proof (induction arbitrary: t rule: put_str.raw_induct [rotated, consumes 1, case_names step])
  case (step ps p m a prec w alt s r)
  let ?ch = "sint (m a)" and ?go = "sint (m a) \<noteq> 0 \<and> (prec < 0 \<or> prec - 1 \<ge> 0)"
  show ?case
  proof (cases ?go)
    case True
    let ?c = "if alt \<and> (?ch < 32 \<or> ?ch > 126) then 63 else ?ch"
    from True step.hyps have "ps p m (a + 1) (if prec < 0 then prec else prec - 1) (w - 1) alt (p ?c s) = Some r"
      by (simp only: Let_def if_True simp_thms)
    from step.IH [OF this step.prems(1) putch_simD [OF step.prems]] True show ?thesis
      by (subst put_str.simps) (simp only: Let_def if_True simp_thms)
  next
    case False
    then have "r = (w, s)" using step.hyps by (simp only: Let_def if_False simp_thms) simp
    with False step.prems(2) show ?thesis
      by (subst put_str.simps) (simp only: Let_def if_False simp_thms, simp)
  qed
qed

lemma print_string_unfold:
  "print_string putch m a f s =
     (let w = sint (word_of_int (width f) - strnlen m a (word_of_int (precision f)));
          go = width f > 0 \<and> padc f \<noteq> 45
      in do { (w', s2) \<leftarrow> put_str putch m a (precision f) (if go then min w 0 else width f) (altflag f)
                (if go then pad putch (padc f) w s else s); Some (pad putch 32 w' s2) })"
  by (simp add: print_string_def Let_def min_def)

lemma print_string_sim:
  assumes "print_string p m a f s = Some r" "putch_sim R p q" "R s t"
  shows "\<exists>r'. print_string q m a f t = Some r' \<and> R r r'"
proof -
  define w where "w = sint (word_of_int (width f) - strnlen m a (word_of_int (precision f)))"
  define go where "go \<longleftrightarrow> width f > 0 \<and> padc f \<noteq> 45"
  note unf = print_string_unfold [where m = m and a = a and f = f, folded w_def go_def, unfolded Let_def, folded w_def go_def]
  obtain w' s2 where ps: "put_str p m a (precision f) (if go then min w 0 else width f) (altflag f)
      (if go then pad p (padc f) w s else s) = Some (w', s2)" and r: "r = pad p 32 w' s2"
    using assms(1) by (auto simp: unf bind_Some_iff)
  have "R (if go then pad p (padc f) w s else s) (if go then pad q (padc f) w t else t)"
    using pad_sim [OF assms(2,3)] assms(3) by simp
  from put_str_sim [OF ps assms(2) this] obtain t2 where
    "put_str q m a (precision f) (if go then min w 0 else width f) (altflag f)
      (if go then pad q (padc f) w t else t) = Some (w', t2)" "R s2 t2" by auto
  with r pad_sim [OF assms(2) this(2)] show ?thesis by (simp add: unf)
qed

lemma convert_sim:
  assumes "convert p m ch ap f s = Some r" "putch_sim R p q" "R s t"
  shows "\<exists>t'. convert q m ch ap f t = Some (fst r, t') \<and> R (snd r) t'"
proof -
  note sim = putch_simD [OF assms(2)]
  have num: "\<exists>t'. printnum q num base w pc t1 = Some t' \<and> R s' t'"
    if "printnum p num base w pc s1 = Some s'" "R s1 t1" for num base w pc s1 s' t1
    using printnum_sim [OF that(1) assms(2) that(2)] .
  have str: "\<exists>t'. print_string q m' a f t = Some t' \<and> R s' t'" if "print_string p m' a f s = Some s'" for m' a s'
    using print_string_sim [OF that assms(2,3)] .
  show ?thesis
  proof (cases "ch = 100")
    case True
    obtain num ap' where g: "getint ap (lflag f) = Some (num, ap')"
      using assms(1) True by (auto simp: convert_def bind_Some_iff)
    with assms True num [OF _ sim [OF assms(3)]] num [OF _ assms(3)] show ?thesis
      by (cases "sint num < 0") (fastforce simp: convert_def)+
  next
    case False
    with assms(1,3) show ?thesis
      unfolding convert_def Let_def
      by (auto simp: bind_Some_iff sim split: if_splits dest!: str num [OF _ sim [OF sim]] num [OF _ assms(3)]) blast
  qed
qed

lemma vprintfmt_sim:
  "vprintfmt p m fmt ap s = Some r \<Longrightarrow> putch_sim R p q \<Longrightarrow> R s t
    \<Longrightarrow> \<exists>r'. vprintfmt q m fmt ap t = Some r' \<and> R r r'"
proof (induction arbitrary: t rule: vprintfmt.raw_induct [rotated, consumes 1, case_names step])
  case (step vp p m fmt ap s r)
  note sim = putch_simD [OF step.prems(1)] and IH = step.IH [OF _ step.prems(1)]
  show ?case
  proof (cases "m fmt = 37")
    case False
    with step.hyps step.prems(2) IH [OF _ sim [OF step.prems(2)]] show ?thesis
      by (auto simp: vprintfmt.simps [of q m fmt] split: if_splits)
  next
    case True
    then obtain ch fmt' ap' f where rs: "reswitch m (fmt + 1) ap init_spec = Some (ch, fmt', ap', f)"
      using step.hyps by (auto simp: bind_Some_iff)
    consider (e) "ch = 101" | (conv) "ch \<noteq> 101" "is_conversion ch" | (default) "ch \<noteq> 101" "\<not> is_conversion ch"
      by blast
    then show ?thesis
    proof cases
      case e
      define lit where "lit = (\<lambda>w :: u32. case error_string \<bar>sint w\<bar> of
          None \<Rightarrow> (lit_mem ''error %d'', [word_of_int \<bar>sint w\<bar>] :: va_list) | Some p \<Rightarrow> (lit_mem_s p, [16]))"
      obtain w ap'' where va: "va_arg ap' = Some (w, ap'')"
        using step.hyps True rs e by (auto simp: bind_Some_iff)
      then obtain s' where w: "vp p (fst (lit w)) 0 (snd (lit w)) s = Some s'" "vp p m fmt' ap'' s' = Some r"
        using step.hyps True rs e by (cases "error_string \<bar>sint w\<bar>") (auto simp: bind_Some_iff lit_def Let_def)
      obtain t' where t': "vprintfmt q (fst (lit w)) 0 (snd (lit w)) t = Some t'" "R s' t'"
        using IH [OF w(1) step.prems(2)] by blast
      from IH [OF w(2) t'(2)] t'(1) True rs e va show ?thesis
        by (cases "error_string \<bar>sint w\<bar>") (auto simp: vprintfmt.simps [of q m fmt] lit_def Let_def)
    next
      case conv
      then obtain ap'' s' where c: "convert p m ch ap' f s = Some (ap'', s')" "vp p m fmt' ap'' s' = Some r"
        using step.hyps True rs by (auto simp: bind_Some_iff)
      obtain t' where t': "convert q m ch ap' f t = Some (ap'', t')" "R s' t'"
        using convert_sim [OF c(1) step.prems] by auto
      from IH [OF c(2) t'(2)] t'(1) True rs conv show ?thesis
        by (auto simp: vprintfmt.simps [of q m fmt])
    next
      case default
      then obtain fmt'' where b: "back_to_percent m (fmt' - 1) = Some fmt''" "vp p m fmt'' ap' (p 37 s) = Some r"
        using step.hyps True rs by (auto simp: bind_Some_iff)
      from IH [OF b(2) sim [OF step.prems(2)]] b(1) True rs default show ?thesis
        by (auto simp: vprintfmt.simps [of q m fmt])
    qed
  qed
qed

text \<open>The characters a call prints, and that printing is passing them to \<^verbatim>\<open>putch\<close> in order.\<close>

definition printed :: "mem \<Rightarrow> u32 \<Rightarrow> va_list \<Rightarrow> int list option" where
  "printed m fmt ap = vprintfmt (\<lambda>c out. out @ [c]) m fmt ap []"

lemma vprintfmt_printed: "vprintfmt putch m fmt ap s = map_option (\<lambda>out. fold putch out s) (printed m fmt ap)"
proof -
  let ?R = "\<lambda>s' out. s' = fold putch out s"
  have sim: "putch_sim ?R putch (\<lambda>c out. out @ [c])" "putch_sim (\<lambda>out s'. ?R s' out) (\<lambda>c out. out @ [c]) putch"
    by (simp_all add: putch_sim_def)
  show ?thesis
  proof (cases "printed m fmt ap")
    case None
    have "vprintfmt putch m fmt ap s = None"
    proof (rule ccontr)
      assume "vprintfmt putch m fmt ap s \<noteq> None"
      then obtain r where "vprintfmt putch m fmt ap s = Some r" by blast
      from vprintfmt_sim [OF this sim(1), of "[]"] None show False by (simp add: printed_def)
    qed
    with None show ?thesis by simp
  next
    case (Some out)
    from vprintfmt_sim [OF Some [unfolded printed_def] sim(2), of s] Some show ?thesis by simp
  qed
qed

section \<open>Printing numbers and reading them back\<close>

fun digits_of :: "nat \<Rightarrow> nat \<Rightarrow> nat list" where
  "digits_of b n = (if b < 2 \<or> n < b then [n] else digits_of b (n div b) @ [n mod b])"

declare digits_of.simps [simp del]

definition digit_char :: "nat \<Rightarrow> int" where
  "digit_char d = of_char (''0123456789abcdef'' ! d)"

lemma digit_char_eq: "d < 10 \<Longrightarrow> digit_char d = 48 + int d" "10 \<le> d \<Longrightarrow> d < 16 \<Longrightarrow> digit_char d = 87 + int d"
proof -
  show "digit_char d = 48 + int d" if "d < 10"
    using that by (auto simp: digit_char_def less_Suc_eq numeral_eq_Suc)
  show "digit_char d = 87 + int d" if "10 \<le> d" "d < 16"
  proof -
    from that have "d \<in> {10, 11, 12, 13, 14, 15}" by auto
    then show ?thesis by (auto simp: digit_char_def)
  qed
qed

lemma length_digits_of: "0 < k \<Longrightarrow> n < b ^ k \<Longrightarrow> 2 \<le> b \<Longrightarrow> length (digits_of b n) \<le> k"
proof (induction b n arbitrary: k rule: digits_of.induct)
  case (1 b n)
  show ?case
  proof (cases "n < b")
    case False
    with "1.prems" obtain j where j: "k = Suc j" "0 < j" by (cases k; cases "k - 1") auto
    then have "n div b < b ^ j" using "1.prems"(2) by (simp add: less_mult_imp_div_less mult.commute)
    with 1 False j show ?thesis by (simp add: digits_of.simps [of b n])
  qed (use 1 in \<open>simp add: digits_of.simps [of b n]\<close>)
qed

lemma digits_of_less: "2 \<le> b \<Longrightarrow> d \<in> set (digits_of b n) \<Longrightarrow> d < b"
proof (induction b n rule: digits_of.induct)
  case (1 b n)
  then show ?case by (cases "n < b") (auto simp: digits_of.simps [of b n])
qed

lemma digits_of_nonempty: "digits_of b n \<noteq> []"
  by (simp add: digits_of.simps)

lemma digits_of_value:
  "2 \<le> b \<Longrightarrow> foldl (\<lambda>v d. v * of_nat b + of_nat d) 0 (digits_of b n) = (of_nat n :: 'a :: comm_semiring_1)"
proof (induction b n rule: digits_of.induct)
  case (1 b n)
  show ?case
  proof (cases "n < b")
    case False
    then have "(of_nat (n div b) * of_nat b + of_nat (n mod b) :: 'a) = of_nat n"
      by (metis of_nat_add of_nat_mult div_mult_mod_eq)
    with 1 False show ?thesis by (simp add: digits_of.simps [of b n])
  qed (use 1 in \<open>simp add: digits_of.simps [of b n]\<close>)
qed

lemma replicate_fold: "fold p (replicate k c) s = (p c ^^ k) s"
  by (induction k arbitrary: s) (simp_all add: funpow_swap1)

lemma printnum_digits:
  assumes "2 \<le> base" "base \<le> 16"
  shows "printnum p num base w pc s =
     (let ds = digits_of (unat base) (unat num)
      in Some (fold p (replicate (nat (w - int (length ds))) pc @ map digit_char ds) s))"
  using assms
proof (induction "unat num" arbitrary: num w rule: less_induct)
  case less
  have b: "2 \<le> unat base" "unat base \<le> 16" using less.prems by (simp_all add: word_le_nat_alt)
  have ub: "unat (ucast base :: u64) = unat base"
    using b by (simp add: unsigned_ucast_eq take_bit_eq_mod)
  obtain q r where qr: "do_div num base = Some (q, r)" "unat q = unat num div unat base" "unat r = unat num mod unat base"
    using do_div_ok [of base num] b by fastforce
  have r: "unat r < 16" using qr(3) b mod_less_divisor [of "unat base" "unat num"] by linarith
  have ge: "num \<ge> ucast base \<longleftrightarrow> unat base \<le> unat num" by (simp add: word_le_nat_alt ub)
  show ?case
  proof (cases "unat base \<le> unat num")
    case True
    then have "unat q < unat num" using qr(2) b by simp
    then have IH: "printnum p q base (w - 1) pc s =
     (let ds = digits_of (unat base) (unat q)
      in Some (fold p (replicate (nat (w - 1 - int (length ds))) pc @ map digit_char ds) s))"
      using less.hyps less.prems by blast
    have "digits_of (unat base) (unat num) = digits_of (unat base) (unat q) @ [unat r]"
      using True b by (simp add: digits_of.simps [of "unat base" "unat num"] qr)
    with True qr r ge IH show ?thesis
      by (subst printnum.simps) (simp add: Let_def digit_char_def algebra_simps)
  next
    case False
    then have "digits_of (unat base) (unat num) = [unat r]"
      by (simp add: digits_of.simps [of "unat base" "unat num"] qr)
    with False qr r ge show ?thesis
      by (subst printnum.simps) (simp add: Let_def digit_char_def pad_def replicate_fold)
  qed
qed

lemma digit_value_char:
  assumes "d < 16"
  shows "digit_value (word_of_int (digit_char d)) = Some (int d)"
proof -
  from assms have "d \<in> set [0..<16]" by simp
  then show ?thesis
    by (simp add: upt_rec) (auto simp: digit_value_def digit_char_def)
qed

lemma strtol_digits_read:
  assumes "cstr m s (map (\<lambda>d. word_of_int (digit_char d)) ds)" "\<forall>d\<in>set ds. d < b" "b \<le> 16"
  shows "strtol_digits m s (int b) val = Some (s + of_nat (length ds), foldl (\<lambda>v d. v * of_nat b + of_nat d) val ds)"
  using assms
proof (induction ds arbitrary: s val)
  case Nil
  then show ?case by (simp add: strtol_digits.simps digit_value_def)
next
  case (Cons d ds)
  then show ?case
    by (subst strtol_digits.simps) (simp add: digit_value_char add.assoc)
qed

section \<open>Printing into a buffer\<close>

fun written :: "u32 \<Rightarrow> u8 list \<Rightarrow> mem \<Rightarrow> mem" where
  "written a [] m = m"
| "written a (x # xs) m = written (a + 1) xs (m(a := x))"

lemma written_outside: "b \<notin> span a (length xs) \<Longrightarrow> written a xs m b = m b"
  by (induction xs arbitrary: a m) (auto simp: span_Suc)

lemma written_bytes: "length xs < 2 ^ 32 \<Longrightarrow> bytes_at (written a xs m) a (length xs) = xs"
proof (induction xs arbitrary: a m)
  case (Cons x xs)
  then have "written (a + 1) xs (m(a := x)) a = x"
    by (subst written_outside) (auto simp: notin_span_Suc)
  with Cons show ?case by (simp add: bytes_at_Suc)
qed simp

lemma fold_sprintputch:
  assumes "buf b \<le> ebuf b"
  shows "fold sprintputch out (b, m) =
    (let k = min (length out) (unat (ebuf b - buf b)) in
     (b\<lparr>buf := buf b + of_nat k, cnt := cnt b + of_nat (length out)\<rparr>,
      written (buf b) (map word_of_int (take k out)) m))"
  using assms
proof (induction out arbitrary: b m)
  case Nil
  then show ?case by simp
next
  case (Cons c out)
  show ?case
  proof (cases "buf b < ebuf b")
    case True
    then have le: "buf b + 1 \<le> ebuf b" by (rule inc_le)
    have "unat (ebuf b - buf b) = Suc (unat (ebuf b - (buf b + 1)))"
      using True by (intro unat_diff_Suc) simp
    with True Cons.IH [of "b\<lparr>cnt := cnt b + 1, buf := buf b + 1\<rparr>"] le show ?thesis
      by (simp add: sprintputch_def Let_def add.assoc)
  next
    case False
    then have "ebuf b = buf b" using Cons.prems by simp
    with False Cons.IH [of "b\<lparr>cnt := cnt b + 1\<rparr>"] show ?thesis
      by (simp add: sprintputch_def Let_def add.assoc)
  qed
qed

lemma bytes_at_append: "bytes_at m a (i + j) = bytes_at m a i @ bytes_at m (a + of_nat i) j"
  by (rule nth_equalityI) (auto simp: bytes_at_def nth_append)

lemma bytes_at_cstr: "bytes_at m a (Suc (length xs)) = xs @ [0] \<Longrightarrow> 0 \<notin> set xs \<Longrightarrow> cstr m a xs"
  by (induction xs arbitrary: a) (auto simp: bytes_at_Suc)

lemma vsnprintf_printed:
  assumes "printed m fmt ap = Some out" "str \<noteq> 0" "sz \<noteq> 0" "unat str + unat sz \<le> 2 ^ 32"
  defines "k \<equiv> min (length out) (unat sz - 1)"
  shows "\<exists>m'. vsnprintf str sz fmt ap m = Some (sint (of_nat (length out) :: u32), m')
    \<and> bytes_at m' str (Suc k) = map word_of_int (take k out) @ [0] \<and> (\<forall>a. a \<notin> span str (unat sz) \<longrightarrow> m' a = m a)"
proof -
  have sz: "unat (sz - 1) = unat sz - 1" "0 < unat sz"
    using assms(3) by (simp_all add: unat_minus_one unat_gt_0)
  have le: "str \<le> str + sz - 1"
    using assms(4) sz by (simp add: word_le_nat_alt add_diff_eq [symmetric] unat_word_ariths)
  let ?m' = "(written str (map word_of_int (take k out)) m)(str + of_nat k := 0)"
  have vs: "vsnprintf str sz fmt ap m = Some (sint (of_nat (length out) :: u32), ?m')"
    using assms(1,2) le
    by (simp add: vsnprintf_def Let_def vprintfmt_printed fold_sprintputch sz(1) k_def leD)
  have k: "k < unat sz" "length (take k out) = k" using sz(2) by (auto simp: k_def)
  then have "k < 2 ^ 32" using unat_u32_less [of sz] by (simp del: unat_u32_less)
  have at_k: "str + of_nat k \<notin> span str k"
  proof
    assume "str + of_nat k \<in> span str k"
    then obtain i where "i < k" "(of_nat k :: u32) = of_nat i" by (auto simp: span_def)
    with \<open>k < 2 ^ 32\<close> show False by (simp add: word_of_nat_eq_iff take_bit_eq_mod)
  qed
  have "bytes_at ?m' str k = bytes_at (written str (map word_of_int (take k out)) m) str k"
    using at_k by (intro bytes_at_cong) auto
  also have "\<dots> = map word_of_int (take k out)"
    using written_bytes [of "map word_of_int (take k out)" str m] k \<open>k < 2 ^ 32\<close> by simp
  finally have bytes: "bytes_at ?m' str (Suc k) = map word_of_int (take k out) @ [0]"
    using bytes_at_append [of ?m' str k 1] by (simp add: bytes_at_Suc)
  have "?m' a = m a" if "a \<notin> span str (unat sz)" for a
  proof -
    have "span str k \<subseteq> span str (unat sz)" "str + of_nat k \<in> span str (unat sz)"
      using k by (auto simp: span_def)
    with that have "a \<notin> span str k" "a \<noteq> str + of_nat k" by blast+
    then show ?thesis using k by (simp add: written_outside)
  qed
  with vs bytes show ?thesis by blast
qed

text \<open>The format \<^verbatim>\<open>"%d"\<close>: a sign and the decimal digits.\<close>

definition decimal :: "int \<Rightarrow> int list" where
  "decimal i = (if i < 0 then [45] else []) @ map digit_char (digits_of 10 (nat \<bar>i\<bar>))"

lemma printed_d:
  assumes "cstr m fmt [37, 100]"
  shows "printed m fmt [w] = Some (decimal (sint w))"
proof -
  have rs: "reswitch m (fmt + 1) [w] init_spec = Some (100, fmt + 2, [w], init_spec)"
    using assms by (subst reswitch.simps) (simp add: Let_def add.assoc)
  have last: "vprintfmt p m (fmt + 2) ap s = Some s" for p ap and s :: "int list"
    using assms by (subst vprintfmt.simps) (simp add: add.assoc)
  have range: "- (2 ^ 31) \<le> sint w" "sint w < 2 ^ 31"
    using sint_greater_eq [of w] sint_less [of w] by simp_all
  have sw: "sint (scast w :: u64) = sint w"
    using range by (simp add: signed_scast_eq signed_take_bit_int_eq_self)
  have neg: "unat (- (scast w :: u64)) = nat \<bar>sint w\<bar>" if "sint w < 0"
  proof -
    have "- (scast w :: u64) = of_nat (nat (- sint w))"
      using that by (subst of_nat_nat) simp_all
    then have "unat (- (scast w :: u64)) = nat (- sint w) mod 2 ^ 64"
      by (simp only: unat_of_nat) (simp add: take_bit_eq_mod)
    with that range show ?thesis by simp
  qed
  have pos: "unat (scast w :: u64) = nat \<bar>sint w\<bar>" if "\<not> sint w < 0"
  proof -
    have "(scast w :: u64) = of_nat (nat (sint w))"
      using that by (subst of_nat_nat) simp_all
    then have "unat (scast w :: u64) = nat (sint w) mod 2 ^ 64"
      by (simp only: unat_of_nat) (simp add: take_bit_eq_mod)
    with that range show ?thesis by simp
  qed
  have snoc: "fold (\<lambda>c out. out @ [c]) cs acc = acc @ cs" for cs and acc :: "int list"
    by (induction cs arbitrary: acc) simp_all
  have spec: "width init_spec = -1" "padc init_spec = 32" "lflag init_spec = 0" by (simp_all add: init_spec_def)
  have pn: "printnum (\<lambda>c out. out @ [c]) num 10 (-1) 32 acc = Some (acc @ map digit_char (digits_of 10 (unat num)))"
    for num acc by (simp add: printnum_digits Let_def snoc)
  show ?thesis
    unfolding printed_def using assms
    by (subst vprintfmt.simps)
      (simp add: rs last is_conversion_def convert_def getint_def va_arg_def spec pn decimal_def neg pos sw Let_def)
qed

lemma decimal_bytes:
  assumes "- (2 ^ 31) \<le> i" "i < 2 ^ 31"
  shows "length (decimal i) \<le> 11" "0 \<notin> set (map word_of_int (decimal i) :: u8 list)"
proof -
  have "length (digits_of 10 (nat \<bar>i\<bar>)) \<le> 10"
    using assms by (intro length_digits_of) (auto simp: abs_if nat_less_iff)
  then show "length (decimal i) \<le> 11" by (cases "i < 0") (simp_all add: decimal_def)
  have "(word_of_int (digit_char d) :: u8) \<noteq> 0" if "d \<in> set (digits_of 10 (nat \<bar>i\<bar>))" for d
  proof
    assume "(word_of_int (digit_char d) :: u8) = 0"
    moreover have "d < 10" using digits_of_less [OF _ that] by simp
    ultimately show False using digit_value_char [of d] by (simp add: digit_value_def)
  qed
  then show "0 \<notin> set (map word_of_int (decimal i) :: u8 list)" by (auto simp: decimal_def)
qed

lemma strtol_decimal:
  fixes w :: u32
  assumes "cstr m s (map word_of_int (decimal (sint w)))"
  shows "strtol m s 10 = Some (s + of_nat (length (decimal (sint w))), w)"
proof -
  define ds where "ds = digits_of 10 (nat \<bar>sint w\<bar>)"
  define neg where "neg \<longleftrightarrow> sint w < 0"
  have less: "\<forall>d\<in>set ds. d < 10" using digits_of_less [of 10] by (simp add: ds_def)
  have val: "foldl (\<lambda>v d. v * of_nat 10 + of_nat d) (0 :: u32) ds = of_nat (nat \<bar>sint w\<bar>)"
    unfolding ds_def by (rule digits_of_value) simp
  have num: "(of_nat (nat \<bar>sint w\<bar>) :: u32) = (if neg then - w else w)"
    by (cases neg) (simp_all add: neg_def)
  have dec: "decimal (sint w) = (if neg then [45] else []) @ map digit_char ds"
    by (simp add: decimal_def ds_def neg_def)
  define s' where "s' = (if neg then s + 1 else s)"
  have read: "cstr m s' (map (\<lambda>d. word_of_int (digit_char d)) ds)"
    using assms by (cases neg) (simp_all add: dec s'_def comp_def)
  obtain d ds' where d: "ds = d # ds'" "d < 10"
    using digits_of_nonempty [of 10 "nat \<bar>sint w\<bar>"] less by (cases ds) (auto simp: ds_def)
  have "m s' = word_of_int (digit_char d)" using read d by simp
  then have first: "m s' = of_nat (48 + d)" using d(2) by (simp add: digit_char_eq)
  have "d \<in> set [0..<10]" using d(2) by simp
  then have sign: "m s' \<noteq> 32" "m s' \<noteq> 9" "m s' \<noteq> 43" "m s' \<noteq> 45"
    unfolding first by (auto simp: upt_rec)
  have minus: "neg \<Longrightarrow> m s = 45" using assms by (simp add: dec)
  have "skip_blanks m s = Some s"
    using sign minus by (subst skip_blanks.simps) (cases neg, auto simp: s'_def)
  moreover have "strtol_digits m s' 10 0 = Some (s' + of_nat (length ds), if neg then - w else w)"
    using strtol_digits_read [OF read less, of 0] val num by simp
  ultimately show ?thesis
    using sign minus by (cases neg) (simp_all add: strtol_def s'_def dec add.assoc)
qed

section \<open>Properties\<close>

text \<open>
  C36: \<^verbatim>\<open>snprintf\<close> stays in its buffer for every format and every argument list. If \<open>out\<close> are the
  characters the format prints, the buffer gets the first \<^verbatim>\<open>size - 1\<close> of them and a terminating
  zero, the return value counts all of them, and no byte outside the \<^verbatim>\<open>size\<close> bytes at \<^verbatim>\<open>str\<close>
  changes.
\<close>

theorem vsnprintf_truncates:
  assumes "printed m fmt ap = Some out" "str \<noteq> 0" "sz \<noteq> 0" "unat str + unat sz \<le> 2 ^ 32"
  shows "\<exists>m'. vsnprintf str sz fmt ap m = Some (sint (of_nat (length out) :: u32), m')
    \<and> bytes_at m' str (Suc (min (length out) (unat sz - 1))) = map word_of_int (take (unat sz - 1) out) @ [0]
    \<and> (\<forall>a. a \<notin> span str (unat sz) \<longrightarrow> m' a = m a)"
proof -
  have "take (min (length out) (unat sz - 1)) out = take (unat sz - 1) out" by (simp add: min_def)
  with vsnprintf_printed [OF assms] show ?thesis by (simp only:)
qed

theorem vsnprintf_truncates_witness:
  "let m = lit_mem ''hi'' in \<exists>m'. vsnprintf 100 2 0 [] m = Some (2, m') \<and> bytes_at m' 100 2 = [104, 0] \<and> m' 102 = m 102"
proof -
  let ?m = "lit_mem ''hi''"
  have m: "?m 0 = 104" "?m 1 = 105" "?m 2 = 0" by (simp_all add: lit_mem_def)
  have "printed ?m 0 [] = Some [104, 105]"
    by (simp add: printed_def vprintfmt.simps [of _ ?m 0] vprintfmt.simps [of _ ?m 1] vprintfmt.simps [of _ ?m 2] m)
  from vsnprintf_truncates [OF this, of 100 2]
  obtain m' where "vsnprintf 100 2 0 [] ?m = Some (2, m')" "bytes_at m' 100 2 = [104, 0]"
    "\<forall>a. a \<notin> span 100 2 \<longrightarrow> m' a = ?m a"
    by (auto simp: numeral_2_eq_2 [symmetric])
  moreover have "102 \<notin> span 100 2" by (auto simp: span_def less_2_cases_iff)
  ultimately show ?thesis by (auto simp: Let_def)
qed

text \<open>
  C35: printing and reading back. For every 32-bit integer \<open>w\<close>, \<^verbatim>\<open>snprintf(str, size, "%d", w)\<close> with
  a buffer of at least 12 bytes returns the number of characters printed, and \<^verbatim>\<open>strtol\<close> in base 10
  reads \<open>w\<close> back from the buffer, with the end pointer at the terminating zero; \<^verbatim>\<open>INT_MIN\<close>
  included.
\<close>

theorem snprintf_strtol_roundtrip:
  assumes "cstr m fmt [37, 100]" "str \<noteq> 0" "12 \<le> sz" "unat str + unat sz \<le> 2 ^ 32"
  shows "\<exists>n m'. vsnprintf str sz fmt [w] m = Some (n, m') \<and> 0 < n \<and> n \<le> 11
    \<and> strtol m' str 10 = Some (str + of_int n, w)"
proof -
  let ?out = "decimal (sint w)"
  have dec: "length ?out \<le> 11" "0 \<notin> set (map word_of_int ?out :: u8 list)"
    using decimal_bytes sint_greater_eq [of w] sint_less [of w] by simp_all
  have sz: "12 \<le> unat sz" using assms(3) by (simp add: word_le_nat_alt)
  then have "sz \<noteq> 0" by auto
  from vsnprintf_printed [OF printed_d [OF assms(1)] assms(2) this assms(4), of w]
  obtain m' where m': "vsnprintf str sz fmt [w] m = Some (sint (of_nat (length ?out) :: u32), m')"
    "bytes_at m' str (Suc (length ?out)) = map word_of_int ?out @ [0]"
    using dec(1) sz by (auto simp: min_absorb1)
  have "cstr m' str (map word_of_int ?out)"
    using m'(2) dec(2) by (intro bytes_at_cstr) simp_all
  moreover have "sint (of_nat (length ?out) :: u32) = int (length ?out)"
    using dec(1) by (simp add: signed_of_nat signed_take_bit_int_eq_self)
  moreover have "?out \<noteq> []" using digits_of_nonempty by (simp add: decimal_def)
  ultimately show ?thesis using m'(1) dec(1) strtol_decimal by fastforce
qed

theorem snprintf_strtol_roundtrip_witness:
  "\<exists>n m'. vsnprintf 100 12 0 [- 7] (lit_mem ''%d'') = Some (n, m') \<and> strtol m' 100 10 = Some (100 + of_int n, - 7)"
  using snprintf_strtol_roundtrip [of "lit_mem ''%d''" 0 100 12 "- 7"] by (auto simp: lit_mem_def)

end
