(* ===== verification/Console.thy ===== *)
theory Console
  imports Printfmt Paging
begin

text \<open>
  The console devices of \<^verbatim>\<open>arch/x86/generic/console.c\<close>: the text screen, the serial and the parallel
  port, the keyboard and the input buffer, with the port instructions of \<^verbatim>\<open>arch/x86/include/x86.h\<close>, the
  interrupt masks of \<^verbatim>\<open>arch/x86/generic/intr.c\<close> that the drivers use, and the printing functions of
  \<^verbatim>\<open>lib/stdio.c\<close>.

  The devices are outside of the kernel: \<open>answers n\<close> is the byte that the device gives at the \<open>n\<close>-th
  \<^verbatim>\<open>inb\<close>, so that every behaviour of the hardware is some \<open>answers\<close>. All port accesses are recorded in
  \<open>accesses\<close>, the newest first. Video memory is byte-addressed; \<open>backed\<close> says where the machine has some,
  a store elsewhere has no effect. The processor flags are in the machine state of \<open>Paging\<close>, so that
  functions that turn interrupts off work on a pair.
\<close>

section \<open>Definitions\<close>

datatype access = In u16 u8 | Out u16 u8

record console =
  answers :: "nat \<Rightarrow> u8"
  nreads :: nat
  accesses :: "access list"
  vmem :: mem
  backed :: "u32 \<Rightarrow> bool"
  crt_buf :: u32
  crt_pos :: u16
  addr_6845 :: u16
  serial_exists :: bool
  cons_buf :: "u8 list"
  cons_rpos :: u32
  cons_wpos :: u32
  kbd_shift :: u32
  irq_mask :: u16
  did_init :: bool

subsection \<open>Ports\<close>

definition inb :: "u16 \<Rightarrow> console \<Rightarrow> u8 \<times> console" where
  "inb p s =
     (let v = answers s (nreads s) in (v, s\<lparr>nreads := nreads s + 1, accesses := In p v # accesses s\<rparr>))"

definition outb :: "u16 \<Rightarrow> u8 \<Rightarrow> console \<Rightarrow> console" where
  "outb p v s = s\<lparr>accesses := Out p v # accesses s\<rparr>"

definition delay :: "console \<Rightarrow> console" where
  "delay s = snd (inb 0x84 (snd (inb 0x84 (snd (inb 0x84 (snd (inb 0x84 s)))))))"

subsection \<open>Interrupt masks\<close>

definition pic_setmask :: "u16 \<Rightarrow> console \<Rightarrow> console" where
  "pic_setmask msk s =
     (let s = s\<lparr>irq_mask := msk\<rparr> in
      if did_init s then outb 0xA1 (ucast (drop_bit 8 msk)) (outb 0x21 (ucast msk) s) else s)"

text \<open>\<^verbatim>\<open>1 << irq\<close> on an \<^verbatim>\<open>int\<close>: the processor shifts modulo 32. The mask keeps the low 16 bits.\<close>

definition irq_bit :: "u32 \<Rightarrow> u32" where
  "irq_bit irq = push_bit (unat irq mod 32) 1"

definition pic_umask :: "u32 \<Rightarrow> console \<Rightarrow> console" where
  "pic_umask irq s = pic_setmask (irq_mask s AND NOT (ucast (irq_bit irq))) s"

definition pic_mask :: "u32 \<Rightarrow> console \<Rightarrow> console" where
  "pic_mask irq s = pic_setmask (irq_mask s OR ucast (irq_bit irq)) s"

subsection \<open>Serial and parallel port\<close>

abbreviation (input) COM1 :: u16 where "COM1 \<equiv> 0x3F8"
abbreviation (input) LPTPORT :: u16 where "LPTPORT \<equiv> 0x378"

definition serial_init :: "console \<Rightarrow> console" where
  "serial_init s =
     (let s = outb (COM1 + 2) 0 s;
          s = outb (COM1 + 3) 0x80 s;
          s = outb (COM1 + 0) 12 s;
          s = outb (COM1 + 1) 0 s;
          s = outb (COM1 + 3) (0x03 AND NOT 0x80) s;
          s = outb (COM1 + 4) 0 s;
          s = outb (COM1 + 1) 0x01 s;
          (lsr, s) = inb (COM1 + 5) s;
          s = s\<lparr>serial_exists := lsr \<noteq> 0xFF\<rparr>;
          (_, s) = inb (COM1 + 2) s;
          (_, s) = inb (COM1 + 0) s
      in if serial_exists s then pic_umask 4 s else s)"

text \<open>
  The loop \<^verbatim>\<open>for (i = 0; !(inb(port) & bit) && i < 12800; i ++) delay();\<close> of \<^verbatim>\<open>lpt_putc_sub\<close> and
  \<^verbatim>\<open>serial_putc_sub\<close>.
\<close>

function wait_ready :: "u16 \<Rightarrow> u8 \<Rightarrow> nat \<Rightarrow> console \<Rightarrow> console" where
  "wait_ready p b i s =
     (let (v, s) = inb p s in if v AND b = 0 \<and> i < 12800 then wait_ready p b (i + 1) (delay s) else s)"
  by pat_completeness auto
termination
  by (relation "measure (\<lambda>(p, b, i, s). 12800 - i)") auto

declare wait_ready.simps [simp del]

definition lpt_putc_sub :: "u32 \<Rightarrow> console \<Rightarrow> console" where
  "lpt_putc_sub c s =
     (let s = wait_ready (LPTPORT + 1) 0x80 0 s;
          s = outb (LPTPORT + 0) (ucast c) s;
          s = outb (LPTPORT + 2) (0x08 OR 0x04 OR 0x01) s
      in outb (LPTPORT + 2) 0x08 s)"

definition lpt_putc :: "u32 \<Rightarrow> console \<Rightarrow> console" where
  "lpt_putc c s =
     (if c \<noteq> 8 then lpt_putc_sub c s else lpt_putc_sub 8 (lpt_putc_sub 32 (lpt_putc_sub 8 s)))"

definition serial_putc_sub :: "u32 \<Rightarrow> console \<Rightarrow> console" where
  "serial_putc_sub c s = outb (COM1 + 0) (ucast c) (wait_ready (COM1 + 5) 0x20 0 s)"

definition serial_putc :: "u32 \<Rightarrow> console \<Rightarrow> console" where
  "serial_putc c s =
     (if c \<noteq> 8 then serial_putc_sub c s else serial_putc_sub 8 (serial_putc_sub 32 (serial_putc_sub 8 s)))"

subsection \<open>Text screen\<close>

abbreviation (input) CRT_COLS :: nat where "CRT_COLS \<equiv> 80"
abbreviation (input) CRT_SIZE :: nat where "CRT_SIZE \<equiv> 2000"

text \<open>Stores go to the memory that exists; a cell is two bytes, the character first.\<close>

definition vstore :: "mem \<Rightarrow> console \<Rightarrow> console" where
  "vstore m s = s\<lparr>vmem := (\<lambda>a. if backed s a then m a else vmem s a)\<rparr>"

definition vread16 :: "u32 \<Rightarrow> console \<Rightarrow> u16" where
  "vread16 a s = push_bit 8 (ucast (vmem s (a + 1))) OR ucast (vmem s a)"

definition vwrite16 :: "u32 \<Rightarrow> u16 \<Rightarrow> console \<Rightarrow> console" where
  "vwrite16 a v s = vstore ((vmem s)(a := ucast v, a + 1 := ucast (drop_bit 8 v))) s"

definition crt_write :: "nat \<Rightarrow> u16 \<Rightarrow> console \<Rightarrow> console" where
  "crt_write i v s = vwrite16 (crt_buf s + 2 * of_nat i) v s"

definition cga_init :: "console \<Rightarrow> console" where
  "cga_init s =
     (let cp = 0xB8000 + 0xC0000000;
          was = vread16 cp s;
          s = vwrite16 cp 0xA55A s;
          (cp, s) = (if vread16 cp s \<noteq> 0xA55A then (0xB0000 + 0xC0000000, s\<lparr>addr_6845 := 0x3B4\<rparr>)
                     else (cp, (vwrite16 cp was s)\<lparr>addr_6845 := 0x3D4\<rparr>));
          s = outb (addr_6845 s) 14 s;
          (hi, s) = inb (addr_6845 s + 1) s;
          pos = push_bit 8 (ucast hi) :: u32;
          s = outb (addr_6845 s) 15 s;
          (lo, s) = inb (addr_6845 s + 1) s;
          pos = pos OR ucast lo
      in s\<lparr>crt_buf := cp, crt_pos := ucast pos\<rparr>)"

fun blank_cells :: "nat list \<Rightarrow> console \<Rightarrow> console" where
  "blank_cells [] s = s"
| "blank_cells (i # is) s = blank_cells is (crt_write i (0x0700 OR 32) s)"

definition crt_scroll :: "console \<Rightarrow> console" where
  "crt_scroll s =
     (let s = vstore (memmove (crt_buf s) (crt_buf s + 2 * of_nat CRT_COLS) (of_nat ((CRT_SIZE - CRT_COLS) * 2)) (vmem s)) s;
          s = blank_cells [CRT_SIZE - CRT_COLS..<CRT_SIZE] s
      in s\<lparr>crt_pos := crt_pos s - of_nat CRT_COLS\<rparr>)"

definition crt_put :: "u32 \<Rightarrow> console \<Rightarrow> console" where
  "crt_put c s =
     (if c AND 0xFF = 8 then
        if crt_pos s > 0 then
          let s = s\<lparr>crt_pos := crt_pos s - 1\<rparr> in crt_write (unat (crt_pos s)) (ucast ((c AND NOT 0xFF) OR 32)) s
        else s
      else if c AND 0xFF = 10 then
        let s = s\<lparr>crt_pos := crt_pos s + of_nat CRT_COLS\<rparr> in s\<lparr>crt_pos := crt_pos s - crt_pos s mod of_nat CRT_COLS\<rparr>
      else if c AND 0xFF = 13 then s\<lparr>crt_pos := crt_pos s - crt_pos s mod of_nat CRT_COLS\<rparr>
      else (crt_write (unat (crt_pos s)) (ucast c) s)\<lparr>crt_pos := crt_pos s + 1\<rparr>)"

definition cga_putc :: "u32 \<Rightarrow> console \<Rightarrow> console" where
  "cga_putc c s =
     (let c = (if c AND NOT 0xFF = 0 then c OR 0x0700 else c);
          s = crt_put c s;
          s = (if of_nat CRT_SIZE \<le> crt_pos s then crt_scroll s else s);
          s = outb (addr_6845 s) 14 s;
          s = outb (addr_6845 s + 1) (ucast (drop_bit 8 (crt_pos s))) s;
          s = outb (addr_6845 s) 15 s
      in outb (addr_6845 s + 1) (ucast (crt_pos s)) s)"

subsection \<open>Printing\<close>

definition cons_putc :: "u32 \<Rightarrow> machine \<times> console \<Rightarrow> machine \<times> console" where
  "cons_putc c = (\<lambda>(m, s).
     let (intr_flag, m) = local_irq_save m;
         s = lpt_putc c s;
         s = cga_putc c s;
         s = serial_putc c s
     in (local_irq_restore intr_flag m, s))"

text \<open>The counter \<^verbatim>\<open>int *cnt\<close> is a 32-bit word; the functions return its signed value.\<close>

definition cputch :: "int \<Rightarrow> u32 \<times> machine \<times> console \<Rightarrow> u32 \<times> machine \<times> console" where
  "cputch c = (\<lambda>(cnt, h). (cnt + 1, cons_putc (word_of_int c) h))"

definition vcprintf :: "mem \<Rightarrow> u32 \<Rightarrow> va_list \<Rightarrow> machine \<times> console \<Rightarrow> (int \<times> machine \<times> console) option" where
  "vcprintf m fmt ap h = map_option (\<lambda>(cnt, h). (sint cnt, h)) (vprintfmt cputch m fmt ap (0, h))"

text \<open>\<^verbatim>\<open>cprintf\<close> with a literal format.\<close>

definition cprintf :: "string \<Rightarrow> va_list \<Rightarrow> machine \<times> console \<Rightarrow> (int \<times> machine \<times> console) option" where
  "cprintf fmt ap h = vcprintf (lit_mem fmt) 0 ap h"

definition cputchar :: "int \<Rightarrow> machine \<times> console \<Rightarrow> machine \<times> console" where
  "cputchar c h = cons_putc (word_of_int c) h"

partial_function (option) cputs_loop ::
  "mem \<Rightarrow> u32 \<Rightarrow> u32 \<times> machine \<times> console \<Rightarrow> (u32 \<times> machine \<times> console) option" where
  "cputs_loop m str st = (if m str \<noteq> 0 then cputs_loop m (str + 1) (cputch (sint (m str)) st) else Some st)"

definition cputs :: "mem \<Rightarrow> u32 \<Rightarrow> machine \<times> console \<Rightarrow> (int \<times> machine \<times> console) option" where
  "cputs m str h = do {
     st \<leftarrow> cputs_loop m str (0, h);
     let (cnt, h) = cputch 10 st;
     Some (sint cnt, h)
   }"

subsection \<open>Input\<close>

abbreviation (input) CONSBUFSIZE :: nat where "CONSBUFSIZE \<equiv> 512"

text \<open>One round of the loop of \<^verbatim>\<open>cons_intr\<close>; an index outside of the buffer has no defined effect.\<close>

definition cons_store :: "int \<Rightarrow> console \<Rightarrow> console option" where
  "cons_store c s =
     (if c \<noteq> 0 then do {
        kassert (unat (cons_wpos s) < length (cons_buf s));
        let s = s\<lparr>cons_buf := (cons_buf s)[unat (cons_wpos s) := word_of_int c], cons_wpos := cons_wpos s + 1\<rparr>;
        Some (if cons_wpos s = of_nat CONSBUFSIZE then s\<lparr>cons_wpos := 0\<rparr> else s)
      }
      else Some s)"

partial_function (option) cons_intr ::
  "(machine \<times> console \<Rightarrow> (int \<times> machine \<times> console) option) \<Rightarrow> machine \<times> console \<Rightarrow> (machine \<times> console) option" where
  "cons_intr proc h = do {
     (c, m, s) \<leftarrow> proc h;
     if c \<noteq> -1 then do {
       s \<leftarrow> cons_store c s;
       cons_intr proc (m, s)
     }
     else Some (m, s)
   }"

definition serial_proc_data :: "machine \<times> console \<Rightarrow> (int \<times> machine \<times> console) option" where
  "serial_proc_data = (\<lambda>(m, s).
     let (st, s) = inb (COM1 + 5) s in
     if st AND 0x01 = 0 then Some (-1, m, s)
     else
       let (v, s) = inb (COM1 + 0) s; c = uint v in
       Some (if c = 127 then 8 else c, m, s))"

definition serial_intr :: "machine \<times> console \<Rightarrow> (machine \<times> console) option" where
  "serial_intr h = (if serial_exists (snd h) then cons_intr serial_proc_data h else Some h)"

text \<open>Key tables: a key that a table does not mention gives 0.\<close>

abbreviation (input) SHIFT :: u32 where "SHIFT \<equiv> 0x01"
abbreviation (input) CTL :: u32 where "CTL \<equiv> 0x02"
abbreviation (input) ALT :: u32 where "ALT \<equiv> 0x04"
abbreviation (input) CAPSLOCK :: u32 where "CAPSLOCK \<equiv> 0x08"
abbreviation (input) NUMLOCK :: u32 where "NUMLOCK \<equiv> 0x10"
abbreviation (input) SCROLLLOCK :: u32 where "SCROLLLOCK \<equiv> 0x20"
abbreviation (input) E0ESC :: u32 where "E0ESC \<equiv> 0x40"

definition shiftcode :: "u8 \<Rightarrow> u32" where
  "shiftcode d =
     (if d = 0x1D then CTL else if d = 0x2A then SHIFT else if d = 0x36 then SHIFT
      else if d = 0x38 then ALT else if d = 0x9D then CTL else if d = 0xB8 then ALT else 0)"

definition togglecode :: "u8 \<Rightarrow> u32" where
  "togglecode d =
     (if d = 0x3A then CAPSLOCK else if d = 0x45 then NUMLOCK else if d = 0x46 then SCROLLLOCK else 0)"

definition key_table :: "u8 list \<Rightarrow> (u8 \<times> u8) list \<Rightarrow> u8 \<Rightarrow> u8" where
  "key_table low high d =
     (if unat d < length low then low ! unat d
      else case map_of high d of None \<Rightarrow> 0 | Some v \<Rightarrow> v)"

definition text_bytes :: "string \<Rightarrow> u8 list" where
  "text_bytes cs = map of_char cs"

definition cursor_keys :: "(u8 \<times> u8) list" where
  "cursor_keys = [(0xC8, 0xE2), (0xC9, 0xE6), (0xCB, 0xE4), (0xCD, 0xE5), (0xCF, 0xE1),
     (0xD0, 0xE3), (0xD1, 0xE7), (0xD2, 0xE8), (0xD3, 0xE9)]"

definition normalmap :: "u8 \<Rightarrow> u8" where
  "normalmap = key_table
     ([0, 0x1B] @ text_bytes ''1234567890-='' @ [8, 9] @ text_bytes ''qwertyuiop[]'' @ [10, 0] @
      text_bytes ''asdfghjkl;'' @ [39] @ text_bytes ''`'' @ [0, 92] @ text_bytes ''zxcvbnm,./'' @ [0] @ text_bytes ''*'' @
      [0, 32] @ replicate 13 0 @ text_bytes ''789-456+1230.'' @ replicate 4 0)
     ([(0xC7, 0xE0), (0x9C, 10), (0xB5, 47)] @ cursor_keys)"

definition shiftmap :: "u8 \<Rightarrow> u8" where
  "shiftmap = key_table
     ([0, 27] @ text_bytes ''!@#$%^&*()_+'' @ [8, 9] @ text_bytes ''QWERTYUIOP{}'' @ [10, 0] @
      text_bytes ''ASDFGHJKL:'' @ [34] @ text_bytes ''~'' @ [0, 124] @ text_bytes ''ZXCVBNM<>?'' @ [0] @ text_bytes ''*'' @
      [0, 32] @ replicate 13 0 @ text_bytes ''789-456+1230.'' @ replicate 4 0)
     ([(0xC7, 0xE0), (0x9C, 10), (0xB5, 47)] @ cursor_keys)"

text \<open>\<^verbatim>\<open>C(x)\<close>, the control character of a letter.\<close>

definition ctl_bytes :: "string \<Rightarrow> u8 list" where
  "ctl_bytes cs = map (\<lambda>c. of_char c - 64) cs"

definition ctlmap :: "u8 \<Rightarrow> u8" where
  "ctlmap = key_table
     (replicate 16 0 @ ctl_bytes ''QWERTYUIOP'' @ [0, 0, 13, 0] @ ctl_bytes ''ASDFGHJKL'' @ replicate 4 0 @
      [92 - 64] @ ctl_bytes ''ZXCVBNM'' @ [0, 0] @ ctl_bytes ''/'' @ [0, 0])
     ([(0x97, 0xE0), (0xB5, 47 - 64)] @ cursor_keys)"

definition charcode :: "u32 \<Rightarrow> u8 \<Rightarrow> u8" where
  "charcode i = (if i = 0 then normalmap else if i = 1 then shiftmap else ctlmap)"

text \<open>
  The part of \<^verbatim>\<open>kbd_proc_data\<close> after the byte has been read: the character, or 0 when the byte does not
  finish one, the new modifiers, and whether a key was pressed.
\<close>

definition caps_swap :: "int \<Rightarrow> int" where
  "caps_swap c = (if 97 \<le> c \<and> c \<le> 122 then c - 32 else if 65 \<le> c \<and> c \<le> 90 then c + 32 else c)"

definition kbd_press :: "u8 \<Rightarrow> u32 \<Rightarrow> int \<times> u32" where
  "kbd_press d sh =
     (let sh = sh OR shiftcode d;
          sh = sh XOR togglecode d;
          c = uint (charcode (sh AND (CTL OR SHIFT)) d)
      in (if sh AND CAPSLOCK \<noteq> 0 then caps_swap c else c, sh))"

definition kbd_decode :: "u8 \<Rightarrow> u32 \<Rightarrow> int \<times> u32" where
  "kbd_decode d sh =
     (if d = 0xE0 then (0, sh OR E0ESC)
      else if d AND 0x80 \<noteq> 0 then
        let d = (if sh AND E0ESC \<noteq> 0 then d else d AND 0x7F) in (0, sh AND NOT (shiftcode d OR E0ESC))
      else if sh AND E0ESC \<noteq> 0 then kbd_press (d OR 0x80) (sh AND NOT E0ESC)
      else kbd_press d sh)"

definition reboot_keys :: "int \<Rightarrow> u32 \<Rightarrow> bool" where
  "reboot_keys c sh \<longleftrightarrow> NOT sh AND (CTL OR ALT) = 0 \<and> c = 0xE9"

definition kbd_proc_data :: "machine \<times> console \<Rightarrow> (int \<times> machine \<times> console) option" where
  "kbd_proc_data = (\<lambda>(m, s).
     let (st, s) = inb 0x64 s in
     if st AND 0x01 = 0 then Some (-1, m, s)
     else do {
       let (d, s) = inb 0x60 s;
       let (c, sh) = kbd_decode d (kbd_shift s);
       let s = s\<lparr>kbd_shift := sh\<rparr>;
       if reboot_keys c sh then do {
         (_, m, s) \<leftarrow> cprintf (''Rebooting!'' @ [CHR 0x0A]) [] (m, s);
         Some (c, m, outb 0x92 0x3 s)
       }
       else Some (c, m, s)
     })"

definition kbd_intr :: "machine \<times> console \<Rightarrow> (machine \<times> console) option" where
  "kbd_intr h = cons_intr kbd_proc_data h"

definition kbd_init :: "machine \<times> console \<Rightarrow> (machine \<times> console) option" where
  "kbd_init h = do {
     (m, s) \<leftarrow> kbd_intr h;
     Some (m, pic_umask 1 s)
   }"

definition cons_init :: "machine \<times> console \<Rightarrow> (machine \<times> console) option" where
  "cons_init = (\<lambda>(m, s). do {
     let s = cga_init s;
     let s = serial_init s;
     (m, s) \<leftarrow> kbd_init (m, s);
     if \<not> serial_exists s then do {
       (_, h) \<leftarrow> cprintf (''serial port does not exist!!'' @ [CHR 0x0A]) [] (m, s);
       Some h
     }
     else Some (m, s)
   })"

definition cons_take :: "console \<Rightarrow> (int \<times> console) option" where
  "cons_take s =
     (if cons_rpos s \<noteq> cons_wpos s then do {
        kassert (unat (cons_rpos s) < length (cons_buf s));
        let c = uint (cons_buf s ! unat (cons_rpos s));
        let s = s\<lparr>cons_rpos := cons_rpos s + 1\<rparr>;
        Some (c, if cons_rpos s = of_nat CONSBUFSIZE then s\<lparr>cons_rpos := 0\<rparr> else s)
      }
      else Some (0, s))"

definition cons_getc :: "machine \<times> console \<Rightarrow> (int \<times> machine \<times> console) option" where
  "cons_getc = (\<lambda>(m, s). do {
     let (intr_flag, m) = local_irq_save m;
     (m, s) \<leftarrow> serial_intr (m, s);
     (m, s) \<leftarrow> kbd_intr (m, s);
     (c, s) \<leftarrow> cons_take s;
     Some (c, local_irq_restore intr_flag m, s)
   })"

partial_function (option) getchar :: "machine \<times> console \<Rightarrow> (int \<times> machine \<times> console) option" where
  "getchar h = do {
     (c, h) \<leftarrow> cons_getc h;
     if c = 0 then getchar h else Some (c, h)
   }"

end
