(* ===== verification/Screen.thy ===== *)
theory Screen
  imports Console
begin

text \<open>
  Output on the console: every driver ends after a bounded number of polls and sends the right bytes, the
  screen is the window at the end of a sheet of paper, and \<^verbatim>\<open>cprintf\<close> prints on all devices.
\<close>

section \<open>What the devices see\<close>

text \<open>Port accesses change nothing but the record of accesses.\<close>

definition io_only :: "console \<Rightarrow> console \<Rightarrow> bool" where
  "io_only s s' \<longleftrightarrow> s' = s\<lparr>nreads := nreads s', accesses := accesses s'\<rparr>"

lemma io_only_refl: "io_only s s" by (simp add: io_only_def)

lemma io_only_trans: "io_only s s1 \<Longrightarrow> io_only s1 s2 \<Longrightarrow> io_only s s2"
  by (cases s, cases s1, cases s2) (simp add: io_only_def)

lemma io_only_sel:
  assumes "io_only s s'"
  shows "answers s' = answers s" "vmem s' = vmem s" "backed s' = backed s" "crt_buf s' = crt_buf s" "crt_pos s' = crt_pos s"
    "addr_6845 s' = addr_6845 s" "serial_exists s' = serial_exists s" "cons_buf s' = cons_buf s"
    "cons_rpos s' = cons_rpos s" "cons_wpos s' = cons_wpos s" "kbd_shift s' = kbd_shift s"
    "irq_mask s' = irq_mask s" "did_init s' = did_init s"
  using assms by (cases s, cases s'; simp add: io_only_def)+

lemma outb_io: "io_only s (outb p v s)" by (simp add: io_only_def outb_def)

lemma io_only_outb: "io_only s s' \<Longrightarrow> io_only s (outb p v s')"
  by (rule io_only_trans [OF _ outb_io])

lemma inb_io: "io_only s (snd (inb p s))" by (simp add: io_only_def inb_def Let_def)

text \<open>The bytes written to a port and the writes to a set of ports, in order; the number of bytes read.\<close>

definition sent :: "u16 \<Rightarrow> console \<Rightarrow> u8 list" where
  "sent p s = rev (List.map_filter (\<lambda>a. case a of In _ _ \<Rightarrow> None | Out q v \<Rightarrow> if q = p then Some v else None) (accesses s))"

definition writes :: "u16 set \<Rightarrow> console \<Rightarrow> (u16 \<times> u8) list" where
  "writes Q s = rev (List.map_filter (\<lambda>a. case a of In _ _ \<Rightarrow> None | Out q v \<Rightarrow> if q \<in> Q then Some (q, v) else None) (accesses s))"

lemma writes_outb: "writes Q (outb q v s) = (if q \<in> Q then writes Q s @ [(q, v)] else writes Q s)"
  by (simp add: writes_def outb_def List.map_filter_simps)

lemma writes_inb: "writes Q (snd (inb q s)) = writes Q s"
  by (simp add: writes_def inb_def Let_def List.map_filter_simps)

lemma sent_writes: "sent p s = map snd (writes {p} s)"
proof -
  have "List.map_filter (\<lambda>a. case a of In _ _ \<Rightarrow> None | Out q v \<Rightarrow> if q = p then Some v else None) as =
      map snd (List.map_filter (\<lambda>a. case a of In _ _ \<Rightarrow> None | Out q v \<Rightarrow> if q \<in> {p} then Some (q, v) else None) as)" for as
    by (induction as) (auto simp: List.map_filter_simps split: access.splits)
  then show ?thesis by (simp add: sent_def writes_def rev_map)
qed

lemma sent_outb: "sent p (outb q v s) = (if p = q then sent p s @ [v] else sent p s)"
  by (simp add: sent_def outb_def List.map_filter_simps)

lemma nreads_io: "nreads (outb p v s) = nreads s" "nreads (snd (inb p s)) = nreads s + 1"
  by (simp_all add: outb_def inb_def Let_def)

text \<open>A busy device is polled at most 12801 times, with four reads after each poll but the last.\<close>

definition polled :: "console \<Rightarrow> console \<Rightarrow> nat \<Rightarrow> bool" where
  "polled s s' n \<longleftrightarrow> io_only s s' \<and> (\<forall>Q. writes Q s' = writes Q s) \<and> nreads s \<le> nreads s' \<and> nreads s' \<le> nreads s + n"

lemma polled_trans: "polled s s1 m \<Longrightarrow> polled s1 s2 n \<Longrightarrow> m + n \<le> k \<Longrightarrow> polled s s2 k"
  unfolding polled_def using io_only_trans by fastforce

lemma polled_inb: "polled s (snd (inb p s)) 1"
  by (simp add: polled_def inb_io writes_inb nreads_io)

lemma polled_delay: "polled s (delay s) 4"
proof -
  have "polled s (snd (inb 0x84 (snd (inb 0x84 s)))) 2" for s
    by (rule polled_trans [OF polled_inb polled_inb]) simp
  from polled_trans [OF this this] show ?thesis by (simp add: delay_def)
qed

lemma wait_ready_polled: "polled s (wait_ready p b i s) (5 * (12800 - i) + 1)"
proof (induction p b i s rule: wait_ready.induct)
  case (1 p b i s)
  obtain v s1 where v: "inb p s = (v, s1)" by fastforce
  have s1: "polled s s1 1" using polled_inb [of s p] v by simp
  show ?case
  proof (cases "v AND b = 0 \<and> i < 12800")
    case True
    have "polled (delay s1) (wait_ready p b (i + 1) (delay s1)) (5 * (12800 - (i + 1)) + 1)"
      using "1.IH" [OF v [symmetric] refl True] by simp
    with polled_trans [OF s1 polled_delay, of 5]
    have "polled s (wait_ready p b (i + 1) (delay s1)) (5 * (12800 - i) + 1)"
      by (rule polled_trans) (use True in auto)
    then show ?thesis using True v by (simp add: wait_ready.simps [of p b i s])
  next
    case False
    then have "wait_ready p b i s = s1" using v by (subst wait_ready.simps) auto
    moreover have "polled s s1 (5 * (12800 - i) + 1)"
      using s1 unfolding polled_def by auto
    ultimately show ?thesis by simp
  qed
qed

text \<open>A port driver sends one byte, or three for a backspace.\<close>

definition echo :: "u32 \<Rightarrow> u8 list" where
  "echo c = (if c = 8 then [8, 32, 8] else [ucast c])"

text \<open>The printer takes the byte on the data port whenever the strobe bit is written to the control port.\<close>

definition printer_step :: "u16 \<times> u8 \<Rightarrow> u8 \<times> u8 list \<Rightarrow> u8 \<times> u8 list" where
  "printer_step = (\<lambda>(q, v) (d, cs). if q = LPTPORT then (v, cs) else (d, if v AND 1 \<noteq> 0 then cs @ [d] else cs))"

definition printer :: "console \<Rightarrow> u8 list" where
  "printer s = snd (fold printer_step (writes {LPTPORT, LPTPORT + 2} s) (0, []))"

text \<open>A driver with the ports \<open>P\<close> makes its device, with the view \<open>f\<close>, get the bytes \<open>bs\<close>, and no other device sees anything.\<close>

definition emitted :: "u16 set \<Rightarrow> (console \<Rightarrow> u8 list) \<Rightarrow> u8 list \<Rightarrow> nat \<Rightarrow> console \<Rightarrow> console \<Rightarrow> bool" where
  "emitted P f bs n s s' \<longleftrightarrow> io_only s s' \<and> f s' = f s @ bs \<and> (\<forall>Q. Q \<inter> P = {} \<longrightarrow> writes Q s' = writes Q s)
     \<and> nreads s \<le> nreads s' \<and> nreads s' \<le> nreads s + n"

lemma emitted_trans:
  "emitted P f bs m s s1 \<Longrightarrow> emitted P f cs n s1 s2 \<Longrightarrow> m + n \<le> k \<Longrightarrow> ds = bs @ cs \<Longrightarrow> emitted P f ds k s s2"
  unfolding emitted_def using io_only_trans by fastforce

lemma serial_putc_sub_emitted: "emitted {COM1} (sent COM1) [ucast c] 64001 s (serial_putc_sub c s)"
  using wait_ready_polled [of s "COM1 + 5" "0x20" 0] unfolding serial_putc_sub_def emitted_def polled_def
  by (auto simp: sent_writes writes_outb nreads_io intro!: io_only_outb)

lemma lpt_putc_sub_emitted: "emitted {LPTPORT, LPTPORT + 2} printer [ucast c] 64001 s (lpt_putc_sub c s)"
proof -
  have "printer (outb (LPTPORT + 2) 0x08 (outb (LPTPORT + 2) (0x08 OR 0x04 OR 0x01) (outb LPTPORT v s'))) = printer s @ [v]"
    if "\<forall>Q. writes Q s' = writes Q s" for s' v
    using that by (simp add: printer_def writes_outb printer_step_def split: prod.splits)
  then show ?thesis
    using wait_ready_polled [of s "LPTPORT + 1" "0x80" 0] unfolding lpt_putc_sub_def emitted_def polled_def Let_def
    by (auto simp: writes_outb nreads_io intro!: io_only_outb)
qed

lemma emitted_three:
  assumes sub: "\<And>c s. emitted P g [ucast c] 64001 s (f c s)"
  shows "emitted P g (echo c) 192003 s (if c \<noteq> 8 then f c s else f 8 (f 32 (f 8 s)))"
proof (cases "c = 8")
  case True
  have "emitted P g [8, 32] 128002 s (f 32 (f 8 s))"
    by (rule emitted_trans [OF sub sub]) simp_all
  then have "emitted P g [8, 32, 8] 192003 s (f 8 (f 32 (f 8 s)))"
    by (rule emitted_trans [OF _ sub]) simp_all
  then show ?thesis using True by (simp add: echo_def)
next
  case False
  then show ?thesis using sub [of c s] by (auto simp: echo_def emitted_def)
qed

lemma serial_putc_emitted: "emitted {COM1} (sent COM1) (echo c) 192003 s (serial_putc c s)"
  unfolding serial_putc_def by (rule emitted_three) (rule serial_putc_sub_emitted)

lemma lpt_putc_emitted: "emitted {LPTPORT, LPTPORT + 2} printer (echo c) 192003 s (lpt_putc c s)"
  unfolding lpt_putc_def by (rule emitted_three) (rule lpt_putc_sub_emitted)

section \<open>The screen\<close>

text \<open>
  The screen as a window on a sheet of paper that grows downwards, 80 cells to a line: \<open>origin\<close> is the first
  cell of the window, \<open>pen\<close> the cell that is written next. Text that has scrolled out of the window stays
  on the paper.
\<close>

record paper =
  ink :: "nat \<Rightarrow> u16"
  pen :: nat
  origin :: nat

definition glyph :: "u32 \<Rightarrow> u16" where
  "glyph c = ucast (if c AND NOT 0xFF = 0 then c OR 0x0700 else c)"

definition blank :: "u16 \<Rightarrow> u16" where
  "blank g = (g AND NOT 0xFF) OR 32"

definition paper_put :: "u32 \<Rightarrow> paper \<Rightarrow> paper" where
  "paper_put c p =
     (if c AND 0xFF = 8 then
        if origin p < pen p then p\<lparr>ink := (ink p)(pen p - 1 := blank (glyph c)), pen := pen p - 1\<rparr> else p
      else if c AND 0xFF = 10 then p\<lparr>pen := (pen p div 80 + 1) * 80\<rparr>
      else if c AND 0xFF = 13 then p\<lparr>pen := pen p div 80 * 80\<rparr>
      else p\<lparr>ink := (ink p)(pen p := glyph c), pen := pen p + 1\<rparr>)"

definition paper_putc :: "u32 \<Rightarrow> paper \<Rightarrow> paper" where
  "paper_putc c p = (let p = paper_put c p in if origin p + 2000 \<le> pen p then p\<lparr>origin := origin p + 80\<rparr> else p)"

definition cell :: "nat \<Rightarrow> console \<Rightarrow> u16" where
  "cell i s = vread16 (crt_buf s + 2 * of_nat i) s"

definition crt_ok :: "console \<Rightarrow> bool" where
  "crt_ok s \<longleftrightarrow> addr_6845 s \<in> {0x3B4, 0x3D4} \<and> unat (crt_buf s) + 4000 < 2 ^ 32
     \<and> (\<forall>a. unat (crt_buf s) \<le> unat a \<and> unat a < unat (crt_buf s) + 4000 \<longrightarrow> backed s a)"

definition window :: "console \<Rightarrow> paper \<Rightarrow> bool" where
  "window s p \<longleftrightarrow> 80 dvd origin p \<and> pen p = origin p + unat (crt_pos s)
     \<and> (\<forall>i<2000. cell i s = ink p (origin p + i)) \<and> (\<forall>j\<ge>origin p + 2000. ink p j = 0x0720)"

definition displays :: "console \<Rightarrow> paper \<Rightarrow> bool" where
  "displays s p \<longleftrightarrow> window s p \<and> unat (crt_pos s) < 2000"

lemma cell_addr:
  assumes "unat b + 4000 < 2 ^ 32" "i < 2000"
  shows "unat (b + 2 * of_nat i :: u32) = unat b + 2 * i" and "unat (b + 2 * of_nat i + 1 :: u32) = unat b + 2 * i + 1"
proof -
  have "unat (b + of_nat (2 * i)) = unat b + 2 * i" using assms by (intro unat_add_of_nat) simp
  then show 1: "unat (b + 2 * of_nat i :: u32) = unat b + 2 * i" by simp
  have "unat (b + of_nat (2 * i + 1)) = unat b + (2 * i + 1)" using assms by (intro unat_add_of_nat) simp
  then show "unat (b + 2 * of_nat i + 1 :: u32) = unat b + 2 * i + 1" by (simp add: ac_simps)
qed

lemma split16: "push_bit 8 (ucast (ucast (drop_bit 8 v) :: u8)) OR ucast (ucast v :: u8) = (v :: u16)"
  by (rule bit_word_eqI) (auto simp: bit_simps not_le)

lemma crt_write_sel:
  "crt_buf (crt_write i v s) = crt_buf s" "crt_pos (crt_write i v s) = crt_pos s" "addr_6845 (crt_write i v s) = addr_6845 s"
  "backed (crt_write i v s) = backed s" "accesses (crt_write i v s) = accesses s" "nreads (crt_write i v s) = nreads s"
  "crt_ok (crt_write i v s) = crt_ok s"
  by (simp_all add: crt_write_def vwrite16_def vstore_def crt_ok_def)

lemma cell_pos_update: "cell i (s\<lparr>crt_pos := x\<rparr>) = cell i s" "crt_ok (s\<lparr>crt_pos := x\<rparr>) = crt_ok s"
  by (simp_all add: cell_def vread16_def crt_ok_def)

lemma cell_io: "io_only s s' \<Longrightarrow> cell i s' = cell i s" "io_only s s' \<Longrightarrow> crt_ok s' = crt_ok s"
  by (simp_all add: cell_def vread16_def crt_ok_def io_only_sel)

lemma cell_write:
  assumes "crt_ok s" "i < 2000" "j < 2000"
  shows "cell j (crt_write i v s) = (if j = i then v else cell j s)"
proof -
  let ?b = "crt_buf s"
  have b: "unat ?b + 4000 < 2 ^ 32" using assms(1) by (simp add: crt_ok_def)
  note addr = cell_addr [OF b assms(2)] cell_addr [OF b assms(3)]
  have bk: "backed s (?b + 2 * of_nat i)" "backed s (?b + 2 * of_nat i + 1)"
    using assms(1, 2) addr by (auto simp: crt_ok_def)
  have ne: "?b + 2 * of_nat i + 1 \<noteq> ?b + 2 * of_nat i"
    using addr(1, 2) by (metis n_not_Suc_n Suc_eq_plus1)
  show ?thesis
  proof (cases "j = i")
    case True
    then show ?thesis using bk ne by (simp add: cell_def crt_write_def vwrite16_def vread16_def vstore_def split16)
  next
    case False
    have "?b + 2 * of_nat j \<noteq> ?b + 2 * of_nat i" "?b + 2 * of_nat j \<noteq> ?b + 2 * of_nat i + 1"
      "?b + 2 * of_nat j + 1 \<noteq> ?b + 2 * of_nat i" "?b + 2 * of_nat j + 1 \<noteq> ?b + 2 * of_nat i + 1"
      using addr False by (force dest: arg_cong [of _ _ unat])+
    then show ?thesis using False by (simp add: cell_def crt_write_def vwrite16_def vread16_def vstore_def)
  qed
qed

lemma blank_cells_sel:
  "crt_buf (blank_cells is s) = crt_buf s" "crt_pos (blank_cells is s) = crt_pos s" "addr_6845 (blank_cells is s) = addr_6845 s"
  "accesses (blank_cells is s) = accesses s" "nreads (blank_cells is s) = nreads s" "crt_ok (blank_cells is s) = crt_ok s"
  by (induction "is" arbitrary: s) (simp_all add: crt_write_sel)

lemma blank_cells_cell:
  "crt_ok s \<Longrightarrow> set is \<subseteq> {..<2000} \<Longrightarrow> j < 2000 \<Longrightarrow>
   cell j (blank_cells is s) = (if j \<in> set is then 0x0720 else cell j s)"
  by (induction "is" arbitrary: s) (simp_all add: cell_write crt_write_sel)

lemma moved_cell:
  assumes b: "unat b + 4000 < 2 ^ 32" and j: "j < 2000"
  shows "moved b (b + 160) 3840 m (b + 2 * of_nat j) = (if j < 1920 then m (b + 2 * of_nat (j + 80)) else m (b + 2 * of_nat j))"
    and "moved b (b + 160) 3840 m (b + 2 * of_nat j + 1) = (if j < 1920 then m (b + 2 * of_nat (j + 80) + 1) else m (b + 2 * of_nat j + 1))"
proof -
  have u: "unat (2 * of_nat j :: u32) = 2 * j" using cell_addr(1) [of 0 j] j by simp
  have u1: "unat (2 * of_nat j + 1 :: u32) = 2 * j + 1" using cell_addr(2) [of 0 j] j by simp
  have "b + 2 * of_nat j + 1 - b = 2 * of_nat j + (1 :: u32)" by simp
  with u u1 show "moved b (b + 160) 3840 m (b + 2 * of_nat j) = (if j < 1920 then m (b + 2 * of_nat (j + 80)) else m (b + 2 * of_nat j))"
    "moved b (b + 160) 3840 m (b + 2 * of_nat j + 1) = (if j < 1920 then m (b + 2 * of_nat (j + 80) + 1) else m (b + 2 * of_nat j + 1))"
    by (auto simp: moved_def algebra_simps)
qed

lemma crt_scroll_cells:
  assumes ok: "crt_ok s" and j: "j < 2000"
  shows "cell j (crt_scroll s) = (if j < 1920 then cell (j + 80) s else 0x0720)"
    and "crt_ok (crt_scroll s)" and "crt_pos (crt_scroll s) = crt_pos s - 80" and "addr_6845 (crt_scroll s) = addr_6845 s"
    and "accesses (crt_scroll s) = accesses s" and "nreads (crt_scroll s) = nreads s"
proof -
  let ?b = "crt_buf s"
  define s1 where "s1 = vstore (memmove ?b (?b + 160) 3840 (vmem s)) s"
  have b: "unat ?b + 4000 < 2 ^ 32" using ok by (simp add: crt_ok_def)
  have src: "unat (?b + 160) = unat ?b + 160" using unat_add_of_nat [of ?b 160] b by simp
  have mv: "memmove ?b (?b + 160) 3840 (vmem s) = moved ?b (?b + 160) 3840 (vmem s)"
    using memmove_moved [of "?b + 160" 3840 ?b "vmem s"] b src by simp
  have ok1: "crt_ok s1" using ok by (simp add: s1_def vstore_def crt_ok_def)
  have bk: "backed s (?b + 2 * of_nat i)" "backed s (?b + 2 * of_nat i + 1)" if "i < 2000" for i
    using ok that cell_addr [OF b that] by (auto simp: crt_ok_def)
  have s1: "cell i s1 = (if i < 1920 then cell (i + 80) s else cell i s)" if "i < 2000" for i
    using moved_cell [OF b that] bk [OF that] unfolding s1_def mv cell_def vread16_def vstore_def by simp
  have eq: "crt_scroll s = (blank_cells [1920..<2000] s1)\<lparr>crt_pos := crt_pos s - 80\<rparr>"
    unfolding crt_scroll_def Let_def s1_def blank_cells_sel by (simp add: vstore_def del: upt_rec_numeral)
  show "cell j (crt_scroll s) = (if j < 1920 then cell (j + 80) s else 0x0720)"
    using blank_cells_cell [OF ok1 _ j, of "[1920..<2000]"] s1 [OF j] j unfolding eq cell_pos_update by (simp add: subset_eq del: upt_rec_numeral)
  show "crt_ok (crt_scroll s)" unfolding eq cell_pos_update blank_cells_sel by (rule ok1)
  show "crt_pos (crt_scroll s) = crt_pos s - 80" "addr_6845 (crt_scroll s) = addr_6845 s"
    "accesses (crt_scroll s) = accesses s" "nreads (crt_scroll s) = nreads s"
    unfolding eq by (simp_all add: blank_cells_sel s1_def vstore_def del: upt_rec_numeral)
qed

lemma low_byte_glyph: "(if c AND NOT 0xFF = 0 then c OR 0x0700 else c) AND 0xFF = (c AND 0xFF :: u32)"
proof -
  have "(c OR 0x0700) AND 0xFF = (c AND 0xFF :: u32)" by (simp add: bit.conj_disj_distrib2)
  then show ?thesis by simp
qed

lemma blank_glyph: "ucast (((if c AND NOT 0xFF = 0 then c OR 0x0700 else c) AND NOT 0xFF) OR 32) = blank (glyph (c :: u32))"
proof -
  have "ucast ((x AND NOT 0xFF) OR 32) = blank (ucast (x :: u32))" for x
    unfolding blank_def by (rule bit_word_eqI) (auto simp: bit_simps)
  then show ?thesis by (simp add: glyph_def)
qed

lemma unat_pos_small:
  fixes x :: u16
  assumes "unat x < 2000"
  shows "unat (x + 80) = unat x + 80" "unat (x + 1) = unat x + 1" "0 < x \<Longrightarrow> unat (x - 1) = unat x - 1"
  using assms by (simp_all add: unat_word_ariths word_less_nat_alt unat_sub word_le_nat_alt)

lemma unat_line_start: "unat (x - x mod 80 :: u16) = unat x div 80 * 80"
proof -
  have "x mod 80 \<le> x" by (simp add: word_le_nat_alt unat_mod)
  then have "unat (x - x mod 80) = unat x - unat (x mod 80)" by (rule unat_sub)
  then show ?thesis by (simp add: unat_mod minus_mod_eq_div_mult)
qed

definition plain :: "u32 \<Rightarrow> u32" where
  "plain c = (if c AND NOT 0xFF = 0 then c OR 0x0700 else c)"

lemma crt_put_paper:
  fixes c :: u32
  assumes ok: "crt_ok s" and d: "displays s p"
  defines "s' \<equiv> crt_put (plain c) s"
  shows "crt_ok s' \<and> window s' (paper_put c p) \<and> unat (crt_pos s') < 2080 \<and> origin (paper_put c p) = origin p
    \<and> addr_6845 s' = addr_6845 s \<and> accesses s' = accesses s \<and> nreads s' = nreads s"
proof -
  have w: "80 dvd origin p" "pen p = origin p + unat (crt_pos s)" "\<And>i. i < 2000 \<Longrightarrow> cell i s = ink p (origin p + i)"
    "\<And>j. origin p + 2000 \<le> j \<Longrightarrow> ink p j = 0x0720" and pos: "unat (crt_pos s) < 2000"
    using d by (auto simp: displays_def window_def)
  note small = unat_pos_small [OF pos]
  have low: "plain c AND 0xFF = c AND 0xFF" unfolding plain_def by (rule low_byte_glyph)
  have line: "pen p div 80 = origin p div 80 + unat (crt_pos s) div 80" "origin p div 80 * 80 = origin p"
    using w(1, 2) by (auto simp: dvd_def div_mult_self4)
  consider "c AND 0xFF = 8" "crt_pos s = 0" | "c AND 0xFF = 8" "0 < crt_pos s" | "c AND 0xFF = 10" | "c AND 0xFF = 13"
    | "c AND 0xFF \<noteq> 8" "c AND 0xFF \<noteq> 10" "c AND 0xFF \<noteq> 13"
    by (metis word_gt_0_no word_neq_0_conv)
  then show ?thesis
  proof cases
    case 1
    then have "s' = s" "paper_put c p = p" using low w(2) by (simp_all add: s'_def crt_put_def paper_put_def)
    then show ?thesis using ok d pos by (simp add: displays_def)
  next
    case 2
    define q where "q = crt_pos s - 1"
    have q: "unat q = unat (crt_pos s) - 1" "unat q < 2000" "0 < unat (crt_pos s)"
      using small(3) 2(2) pos by (simp_all add: q_def word_less_nat_alt)
    have s': "s' = crt_write (unat q) (blank (glyph c)) (s\<lparr>crt_pos := q\<rparr>)"
      using 2 low blank_glyph [of c] by (simp add: s'_def crt_put_def q_def plain_def Let_def)
    have "ink p (origin p + i) = cell i s" if "i < 2000" for i using w(3) that by simp
    moreover have p': "paper_put c p = p\<lparr>ink := (ink p)(origin p + unat q := blank (glyph c)), pen := origin p + unat q\<rparr>"
      using 2 w(2) q by (simp add: paper_put_def)
    ultimately show ?thesis using ok w(1, 4) q(2)
      by (simp add: s' p' crt_write_sel cell_pos_update window_def cell_write)
  next
    case 3
    have s': "s' = s\<lparr>crt_pos := crt_pos s + 80 - (crt_pos s + 80) mod 80\<rparr>"
      using 3 low by (simp add: s'_def crt_put_def Let_def)
    have u: "unat (crt_pos s') = (unat (crt_pos s) div 80 + 1) * 80"
      unfolding s' by (simp add: unat_line_start small div_add_self2)
    have p': "paper_put c p = p\<lparr>pen := origin p + unat (crt_pos s')\<rparr>"
    proof -
      have "(pen p div 80 + 1) * 80 = origin p + unat (crt_pos s')" unfolding u line(1) using line(2) by (simp add: algebra_simps)
      then show ?thesis using 3 by (simp add: paper_put_def)
    qed
    have "unat (crt_pos s) div 80 \<le> 24" using pos by simp
    then have "unat (crt_pos s') < 2080" by (simp add: u)
    then show ?thesis using ok w by (simp add: p' window_def) (simp add: s' cell_pos_update)
  next
    case 4
    have s': "s' = s\<lparr>crt_pos := crt_pos s - crt_pos s mod 80\<rparr>"
      using 4 low by (simp add: s'_def crt_put_def Let_def)
    have u: "unat (crt_pos s') = unat (crt_pos s) div 80 * 80" unfolding s' by (simp add: unat_line_start)
    have p': "paper_put c p = p\<lparr>pen := origin p + unat (crt_pos s')\<rparr>"
    proof -
      have "pen p div 80 * 80 = origin p + unat (crt_pos s')" unfolding u line(1) using line(2) by (simp add: algebra_simps)
      then show ?thesis using 4 by (simp add: paper_put_def)
    qed
    have "unat (crt_pos s') \<le> unat (crt_pos s)" by (simp add: u)
    then show ?thesis using ok w pos by (simp add: p' window_def) (simp add: s' cell_pos_update)
  next
    case 5
    have s': "s' = (crt_write (unat (crt_pos s)) (glyph c) s)\<lparr>crt_pos := crt_pos s + 1\<rparr>"
      using 5 low by (simp add: s'_def crt_put_def glyph_def plain_def)
    have p': "paper_put c p = p\<lparr>ink := (ink p)(origin p + unat (crt_pos s) := glyph c), pen := origin p + unat (crt_pos s) + 1\<rparr>"
      using 5 w(2) by (simp add: paper_put_def)
    show ?thesis using ok w pos small(2)
      by (simp add: s' p' crt_write_sel cell_pos_update window_def cell_write)
  qed
qed

text \<open>Printing a character on the screen writes it on the paper, and the hardware cursor follows the pen.\<close>

definition crt_steady :: "console \<Rightarrow> console \<Rightarrow> bool" where
  "crt_steady s s' \<longleftrightarrow> s' = s\<lparr>accesses := accesses s', vmem := vmem s', crt_pos := crt_pos s', nreads := nreads s'\<rparr>"

lemma crt_steady_refl: "crt_steady s s" by (simp add: crt_steady_def)

lemma crt_steady_trans: "crt_steady s s1 \<Longrightarrow> crt_steady s1 s2 \<Longrightarrow> crt_steady s s2"
  by (cases s, cases s1, cases s2) (simp add: crt_steady_def)

lemma crt_steady_io: "io_only s s' \<Longrightarrow> crt_steady s s'"
  by (cases s, cases s') (simp add: crt_steady_def io_only_def)

lemma crt_write_steady: "crt_steady s (crt_write i v s)"
  by (simp add: crt_steady_def crt_write_def vwrite16_def vstore_def)

lemma pos_update_steady: "crt_steady s s' \<Longrightarrow> crt_steady s (s'\<lparr>crt_pos := x\<rparr>)"
  by (cases s, cases s') (simp add: crt_steady_def)

lemma blank_cells_steady: "crt_steady s (blank_cells is s)"
proof (induction "is" arbitrary: s)
  case (Cons i "is")
  show ?case unfolding blank_cells.simps by (rule crt_steady_trans [OF crt_write_steady Cons.IH])
qed (simp add: crt_steady_refl)

lemma crt_put_steady: "crt_steady s (crt_put c s)"
  unfolding crt_put_def Let_def
  by (auto intro!: pos_update_steady crt_steady_refl crt_write_steady intro: crt_steady_trans [OF pos_update_steady [OF crt_steady_refl] crt_write_steady])

lemma crt_scroll_steady: "crt_steady s (crt_scroll s)"
proof -
  have "crt_steady s (vstore m s)" for m by (simp add: crt_steady_def vstore_def)
  from crt_steady_trans [OF this blank_cells_steady] show ?thesis
    unfolding crt_scroll_def Let_def by (rule pos_update_steady)
qed

lemma cga_putc_displays:
  fixes c :: u32
  assumes ok: "crt_ok s" and d: "displays s p"
  defines "a \<equiv> addr_6845 s" and "s' \<equiv> cga_putc c s"
  shows "crt_ok s' \<and> displays s' (paper_putc c p) \<and> nreads s' = nreads s \<and>
    accesses s' = [Out (a + 1) (ucast (crt_pos s')), Out a 15, Out (a + 1) (ucast (drop_bit 8 (crt_pos s'))), Out a 14] @ accesses s"
proof -
  define s1 where "s1 = crt_put (plain c) s"
  define p1 where "p1 = paper_put c p"
  note put = crt_put_paper [OF ok d, of c, folded s1_def p1_def]
  define s2 where "s2 = (if 2000 \<le> crt_pos s1 then crt_scroll s1 else s1)"
  have s': "s' = s2\<lparr>accesses := [Out (addr_6845 s2 + 1) (ucast (crt_pos s2)), Out (addr_6845 s2) 15,
      Out (addr_6845 s2 + 1) (ucast (drop_bit 8 (crt_pos s2))), Out (addr_6845 s2) 14] @ accesses s2\<rparr>"
    unfolding s'_def cga_putc_def Let_def s2_def s1_def plain_def [symmetric] by (simp add: outb_def)
  have s2: "crt_ok s2 \<and> displays s2 (paper_putc c p) \<and> accesses s2 = accesses s \<and> addr_6845 s2 = a \<and> nreads s2 = nreads s"
  proof (cases "2000 \<le> crt_pos s1")
    case True
    have w: "80 dvd origin p1" "pen p1 = origin p1 + unat (crt_pos s1)" "\<And>i. i < 2000 \<Longrightarrow> cell i s1 = ink p1 (origin p1 + i)"
      "\<And>j. origin p1 + 2000 \<le> j \<Longrightarrow> ink p1 j = 0x0720"
      using put by (auto simp: window_def)
    have ge: "2000 \<le> unat (crt_pos s1)" using True by (simp add: word_le_nat_alt)
    have p2: "paper_putc c p = p1\<lparr>origin := origin p1 + 80\<rparr>"
      using w(2) ge by (simp add: paper_putc_def p1_def Let_def)
    note sc = crt_scroll_cells [of s1]
    have "unat (crt_pos s1 - 80) = unat (crt_pos s1) - 80" using ge by (simp add: unat_sub word_le_nat_alt)
    moreover have "cell i (crt_scroll s1) = ink p1 (origin p1 + 80 + i)" if "i < 2000" for i
      using sc(1) [of i] put that w(3) [of "i + 80"] w(4) [of "origin p1 + 80 + i"] by (simp add: ac_simps)
    ultimately have "window (crt_scroll s1) (paper_putc c p) \<and> unat (crt_pos (crt_scroll s1)) < 2000"
      using put sc(3) [of 0] w ge by (simp add: p2 window_def less_diff_conv2)
    then show ?thesis using True put sc(2, 4, 5, 6) [of 0] by (simp add: s2_def displays_def a_def)
  next
    case False
    then have lt: "unat (crt_pos s1) < 2000" by (simp add: word_le_nat_alt)
    then have "paper_putc c p = p1" using put by (simp add: paper_putc_def p1_def [symmetric] Let_def window_def)
    then show ?thesis using False put lt by (simp add: s2_def displays_def a_def)
  qed
  have "displays s' q = displays s2 q" "crt_ok s' = crt_ok s2" "crt_pos s' = crt_pos s2" for q
    unfolding s' by (simp_all add: displays_def window_def cell_def vread16_def crt_ok_def)
  then show ?thesis using s2 by (simp add: s')
qed

lemma cga_putc_steady: "crt_steady s (cga_putc c s)"
proof -
  have "crt_steady s (if b then crt_scroll (crt_put c' s) else crt_put c' s)" for b c'
    using crt_put_steady crt_steady_trans [OF crt_put_steady crt_scroll_steady] by simp
  from crt_steady_trans [OF this crt_steady_io] show ?thesis
    unfolding cga_putc_def Let_def by (blast intro: io_only_outb io_only_refl)
qed

section \<open>Printing on all devices\<close>

text \<open>
  The 6845 controller has an index register at its base port; the port after it leads to the register whose number is in the
  index register. Registers 14 and 15 are the high and the low byte of the cursor position.
\<close>

definition crtc_step :: "u16 \<Rightarrow> u16 \<times> u8 \<Rightarrow> u8 \<times> (u8 \<Rightarrow> u8) \<Rightarrow> u8 \<times> (u8 \<Rightarrow> u8)" where
  "crtc_step a = (\<lambda>(q, v) (ix, regs). if q = a then (v, regs) else (ix, regs(ix := v)))"

definition crtc_regs :: "console \<Rightarrow> u8 \<Rightarrow> u8" where
  "crtc_regs s = snd (fold (crtc_step (addr_6845 s)) (writes {addr_6845 s, addr_6845 s + 1} s) (0, \<lambda>_. 0))"

definition cursor_set :: "console \<Rightarrow> bool" where
  "cursor_set s \<longleftrightarrow> crtc_regs s 14 = ucast (drop_bit 8 (crt_pos s)) \<and> crtc_regs s 15 = ucast (crt_pos s)"

lemma displays_io: "io_only s s' \<Longrightarrow> displays s' p = displays s p"
  by (simp add: displays_def window_def cell_io io_only_sel)

lemma emitted_displays:
  assumes "emitted P q bs n s s'" "crt_ok s" "displays s p"
  shows "crt_ok s' \<and> displays s' p \<and> crt_steady s s'"
proof -
  have "io_only s s'" using assms(1) by (simp add: emitted_def)
  then show ?thesis using assms(2, 3) displays_io cell_io(2) crt_steady_io by blast
qed

lemma crt_steady_sel:
  assumes "crt_steady s s'"
  shows "answers s' = answers s" "backed s' = backed s" "crt_buf s' = crt_buf s" "addr_6845 s' = addr_6845 s"
    "serial_exists s' = serial_exists s" "cons_buf s' = cons_buf s" "cons_rpos s' = cons_rpos s" "cons_wpos s' = cons_wpos s"
    "kbd_shift s' = kbd_shift s" "irq_mask s' = irq_mask s" "did_init s' = did_init s"
  using assms by (cases s, cases s'; simp add: crt_steady_def)+

lemma writes_cga_putc:
  assumes "crt_ok s" "displays s p"
  shows "writes Q (cga_putc c s) = writes Q s @ filter (\<lambda>(q, v). q \<in> Q)
    [(addr_6845 s, 14), (addr_6845 s + 1, ucast (drop_bit 8 (crt_pos (cga_putc c s)))),
     (addr_6845 s, 15), (addr_6845 s + 1, ucast (crt_pos (cga_putc c s)))]"
  using cga_putc_displays [OF assms, of c] by (auto simp: writes_def List.map_filter_simps)

lemma cga_putc_cursor:
  assumes "crt_ok s" "displays s p"
  shows "cursor_set (cga_putc c s)"
proof -
  have a: "addr_6845 s + 1 \<noteq> addr_6845 s" by simp
  have "addr_6845 (cga_putc c s) = addr_6845 s" by (rule crt_steady_sel(4) [OF cga_putc_steady])
  then show ?thesis using a
    by (simp add: cursor_set_def crtc_regs_def writes_cga_putc [OF assms] crtc_step_def split: prod.splits)
qed

lemma cursor_set_cong:
  assumes "addr_6845 s' = addr_6845 s" "crt_pos s' = crt_pos s" "writes {addr_6845 s, addr_6845 s + 1} s' = writes {addr_6845 s, addr_6845 s + 1} s"
  shows "cursor_set s' = cursor_set s"
  using assms by (simp add: cursor_set_def crtc_regs_def)

lemma cons_putc_ok:
  assumes ok: "crt_ok s" and d: "displays s p"
  shows "\<exists>s'. cons_putc c (m, s) = (m, s') \<and> crt_ok s' \<and> displays s' (paper_putc c p) \<and> crt_steady s s' \<and> cursor_set s'
    \<and> sent COM1 s' = sent COM1 s @ echo c \<and> printer s' = printer s @ echo c \<and> nreads s' \<le> nreads s + 384006"
proof -
  define s1 where "s1 = lpt_putc c s"
  define s2 where "s2 = cga_putc c s1"
  define s3 where "s3 = serial_putc c s2"
  have e1: "emitted {LPTPORT, LPTPORT + 2} printer (echo c) 192003 s s1" unfolding s1_def by (rule lpt_putc_emitted)
  note k1 = emitted_displays [OF e1 ok d]
  note k2 = cga_putc_displays [of s1 p c, folded s2_def]
  have e3: "emitted {COM1} (sent COM1) (echo c) 192003 s2 s3" unfolding s3_def by (rule serial_putc_emitted)
  have ok2: "crt_ok s2" "displays s2 (paper_putc c p)" "nreads s2 = nreads s1" using k1 k2 by blast+
  note k3 = emitted_displays [OF e3 ok2(1, 2)]
  have st: "crt_steady s s3" using k1 k3 cga_putc_steady crt_steady_trans unfolding s2_def by blast
  have a: "addr_6845 s2 = addr_6845 s1" "addr_6845 s1 = addr_6845 s" "addr_6845 s3 = addr_6845 s"
    using k1 st crt_steady_sel(4) [OF cga_putc_steady] crt_steady_sel(4) by (simp_all add: s2_def)
  have ap: "addr_6845 s \<in> {0x3B4, 0x3D4}" using ok by (simp add: crt_ok_def)
  have w2: "writes Q s2 = writes Q s1" if "addr_6845 s \<notin> Q" "addr_6845 s + 1 \<notin> Q" for Q
    using writes_cga_putc [of s1 p Q c] k1 that a by (simp add: s2_def)
  have w1: "writes {COM1} s1 = writes {COM1} s" using e1 by (simp add: emitted_def)
  have w3: "writes {LPTPORT, LPTPORT + 2} s3 = writes {LPTPORT, LPTPORT + 2} s2"
      "writes {addr_6845 s, addr_6845 s + 1} s3 = writes {addr_6845 s, addr_6845 s + 1} s2"
    using e3 ap by (auto simp: emitted_def)
  have "sent COM1 s3 = sent COM1 s2 @ echo c" "printer s1 = printer s @ echo c" using e1 e3 by (simp_all add: emitted_def)
  then have "sent COM1 s3 = sent COM1 s @ echo c" "printer s3 = printer s @ echo c"
    using w1 w2 [of "{COM1}"] w2 [of "{LPTPORT, LPTPORT + 2}"] w3(1) ap by (auto simp: sent_writes printer_def)
  moreover have "cursor_set s3"
  proof -
    have "crt_pos s3 = crt_pos s2" using e3 by (simp add: emitted_def io_only_sel)
    then have "cursor_set s3 = cursor_set s2" using w3(2) a by (intro cursor_set_cong) simp_all
    then show ?thesis using cga_putc_cursor [of s1 p c] k1 by (simp add: s2_def)
  qed
  moreover have "nreads s3 \<le> nreads s + 384006" using e1 e3 ok2(3) by (simp add: emitted_def)
  moreover have "cons_putc c (m, s) = (m, s3)"
    by (simp add: cons_putc_def s1_def s2_def s3_def Let_def local_irq_save_def local_irq_restore_def)
  ultimately show ?thesis using k3 st by blast
qed

text \<open>Printing a sequence of characters.\<close>

definition on_paper :: "int list \<Rightarrow> paper \<Rightarrow> paper" where
  "on_paper out p = fold (\<lambda>c. paper_putc (word_of_int c)) out p"

definition on_line :: "int list \<Rightarrow> u8 list" where
  "on_line out = concat (map (\<lambda>c. echo (word_of_int c)) out)"

lemma cputch_fold:
  assumes "crt_ok s" "displays s p"
  shows "\<exists>s'. fold cputch out (k, m, s) = (k + of_nat (length out), m, s') \<and> crt_ok s' \<and> displays s' (on_paper out p) \<and> crt_steady s s'
    \<and> (out \<noteq> [] \<longrightarrow> cursor_set s')
    \<and> sent COM1 s' = sent COM1 s @ on_line out \<and> printer s' = printer s @ on_line out
    \<and> nreads s' \<le> nreads s + 384006 * length out"
  using assms
proof (induction out arbitrary: k s p)
  case Nil
  then show ?case by (simp add: on_paper_def on_line_def crt_steady_refl)
next
  case (Cons c out)
  obtain s1 where s1: "cons_putc (word_of_int c) (m, s) = (m, s1)" "crt_ok s1" "displays s1 (paper_putc (word_of_int c) p)"
      "crt_steady s s1" "cursor_set s1" "sent COM1 s1 = sent COM1 s @ echo (word_of_int c)"
      "printer s1 = printer s @ echo (word_of_int c)" "nreads s1 \<le> nreads s + 384006"
    using cons_putc_ok [OF Cons.prems] by blast
  obtain s' where s': "fold cputch out (k + 1, m, s1) = (k + 1 + of_nat (length out), m, s')" "crt_ok s'"
      "displays s' (on_paper out (paper_putc (word_of_int c) p))" "crt_steady s1 s'" "out \<noteq> [] \<longrightarrow> cursor_set s'"
      "sent COM1 s' = sent COM1 s1 @ on_line out" "printer s' = printer s1 @ on_line out"
      "nreads s' \<le> nreads s1 + 384006 * length out"
    using Cons.IH [OF s1(2, 3), of "k + 1"] by blast
  have "fold cputch (c # out) (k, m, s) = (k + of_nat (length (c # out)), m, s')"
    using s1(1) s'(1) by (simp add: cputch_def add.assoc)
  moreover have "cursor_set s'" if "out = []" using s1(5) s'(1) that by simp
  ultimately show ?case using s1 s' crt_steady_trans [OF s1(4) s'(4)] by (auto simp: on_paper_def on_line_def)
qed

lemma vcprintf_ok:
  assumes "crt_ok s" "displays s p" "printed mm fmt ap = Some out"
  shows "\<exists>s'. vcprintf mm fmt ap (m, s) = Some (sint (of_nat (length out) :: u32), m, s') \<and> crt_ok s' \<and> displays s' (on_paper out p) \<and> crt_steady s s'
    \<and> (out \<noteq> [] \<longrightarrow> cursor_set s')
    \<and> sent COM1 s' = sent COM1 s @ on_line out \<and> printer s' = printer s @ on_line out
    \<and> nreads s' \<le> nreads s + 384006 * length out"
  using cputch_fold [OF assms(1, 2), of out 0 m] assms(3) by (auto simp: vcprintf_def vprintfmt_printed)

text \<open>The first video memory that exists is used, and it keeps its contents.\<close>

lemma vread_vwrite: "backed s a \<Longrightarrow> backed s (a + 1) \<Longrightarrow> vread16 a (vwrite16 a v s) = v"
  by (simp add: vread16_def vwrite16_def vstore_def split16)

lemma vwrite_vread: "vwrite16 a (vread16 a s) (vwrite16 a v s) = s"
proof -
  have "ucast (push_bit 8 (ucast h :: u16) OR ucast l) = l" "ucast (drop_bit 8 (push_bit 8 (ucast h :: u16) OR ucast l)) = h" for h l :: u8
    by (rule bit_word_eqI, auto simp: bit_simps dest: bit_imp_le_length)+
  then have "vmem (vwrite16 a (vread16 a s) (vwrite16 a v s)) = vmem s"
    by (auto simp: vread16_def vwrite16_def vstore_def fun_eq_iff)
  then show ?thesis by (cases s) (simp add: vwrite16_def vstore_def)
qed

lemma unat_cursor: "unat (ucast ((push_bit 8 (ucast h) :: u32) OR ucast l) :: u16) = 256 * unat h + unat l" for h l :: u8
proof -
  have "push_bit 8 (ucast h) AND ucast l = (0 :: u32)"
    by (rule bit_word_eqI) (auto simp: bit_simps dest: bit_imp_le_length)
  then have "(push_bit 8 (ucast h) OR ucast l :: u32) = push_bit 8 (ucast h) + ucast l"
    by (simp add: disjunctive_add_eq_or)
  also have "unat \<dots> = 256 * unat h + unat l"
    using unsigned_less [of h, where 'a = nat] unsigned_less [of l, where 'a = nat]
    by (simp add: unat_word_ariths unsigned_push_bit_eq push_bit_eq_mult unsigned_ucast_eq take_bit_eq_mod)
  finally show ?thesis
    using unsigned_less [of h, where 'a = nat] unsigned_less [of l, where 'a = nat]
    by (simp add: unsigned_ucast_eq take_bit_eq_mod)
qed

lemma cga_init_ok:
  assumes bk: "\<forall>a. 0xC00B8000 \<le> unat a \<and> unat a < 0xC00B8000 + 4000 \<longrightarrow> backed s a"
  defines "s' \<equiv> cga_init s"
  shows "crt_ok s' \<and> crt_buf s' = 0xC00B8000 \<and> vmem s' = vmem s \<and> nreads s' = nreads s + 2 \<and> answers s' = answers s
    \<and> unat (crt_pos s') = 256 * unat (answers s (nreads s)) + unat (answers s (nreads s + 1))"
proof -
  define s0 where "s0 = s\<lparr>addr_6845 := 0x3D4\<rparr>"
  have "backed s 0xC00B8000" "backed s (0xC00B8000 + 1)" using bk by simp_all
  then have s': "s' = s0\<lparr>crt_buf := 0xC00B8000, crt_pos := ucast ((push_bit 8 (ucast (answers s (nreads s))) :: u32) OR ucast (answers s (nreads s + 1))),
     nreads := nreads s + 2, accesses := [In 0x3D5 (answers s (nreads s + 1)), Out 0x3D4 15, In 0x3D5 (answers s (nreads s)), Out 0x3D4 14] @ accesses s\<rparr>"
    unfolding s'_def cga_init_def Let_def by (simp add: vread_vwrite vwrite_vread inb_def outb_def Let_def s0_def)
  then show ?thesis using bk by (simp add: s' s0_def crt_ok_def unat_cursor)
qed

section \<open>Properties\<close>

text \<open>A machine whose screen is blank and whose devices are ready for output and have no input.\<close>

definition demo_console :: "(nat \<Rightarrow> u8) \<Rightarrow> console" where
  "demo_console f = \<lparr>answers = f, nreads = 0, accesses = [], vmem = (\<lambda>a. if a AND 1 = 0 then 32 else 7), backed = (\<lambda>_. True),
     crt_buf = 0xC00B8000, crt_pos = 0, addr_6845 = 0x3D4, serial_exists = True, cons_buf = replicate 512 0,
     cons_rpos = 0, cons_wpos = 0, kbd_shift = 0, irq_mask = 0xFFFB, did_init = False\<rparr>"

definition demo_paper :: paper where
  "demo_paper = \<lparr>ink = (\<lambda>_. 0x0720), pen = 0, origin = 0\<rparr>"

lemma demo_crt: "crt_ok (demo_console f)" by (simp add: crt_ok_def demo_console_def)

lemma demo_displays: "displays (demo_console f) demo_paper"
proof -
  have "cell i (demo_console f) = 0x0720" for i
  proof -
    let ?a = "0xC00B8000 + 2 * of_nat i :: u32"
    have "?a AND 1 = 0" using and_exp_eq_0_iff_not_bit [of ?a 0] by (simp add: bit_0)
    moreover have "(?a + 1) AND 1 \<noteq> 0" using and_exp_eq_0_iff_not_bit [of "?a + 1" 0] by (simp add: bit_0)
    ultimately show ?thesis by (simp add: cell_def vread16_def demo_console_def)
  qed
  then show ?thesis by (simp add: displays_def window_def demo_paper_def) (simp add: demo_console_def)
qed



end
