(* ===== verification/ConsoleInput.thy ===== *)
theory ConsoleInput
  imports Screen
begin

text \<open>
  Input from the console: the ring buffer keeps the contract of a queue, the serial line and the keyboard
  that of an input device, and \<^verbatim>\<open>cons_getc\<close> returns the characters of each in the order of their arrival.
\<close>

section \<open>The input buffer\<close>

text \<open>
  The contract of a queue of characters between the interrupt routines and the readers: up to \<open>cap\<close>
  characters come out in the order in which they were put in; 0 means that there is none.
\<close>

locale char_queue =
  fixes inv :: "'s \<Rightarrow> bool" and content :: "'s \<Rightarrow> u8 list" and cap :: nat
    and put :: "int \<Rightarrow> 's \<Rightarrow> 's option" and get :: "'s \<Rightarrow> (int \<times> 's) option"
  assumes put_law: "inv s \<Longrightarrow> c \<noteq> 0 \<Longrightarrow> length (content s) < cap \<Longrightarrow>
      \<exists>s'. put (uint c) s = Some s' \<and> inv s' \<and> content s' = content s @ [c]"
    and put_zero: "put 0 s = Some s"
    and get_law: "inv s \<Longrightarrow>
      \<exists>s'. get s = Some (case content s of [] \<Rightarrow> 0 | c # cs \<Rightarrow> uint c, s') \<and> inv s' \<and> content s' = tl (content s)"
begin

fun put_all :: "u8 list \<Rightarrow> 's \<Rightarrow> 's option" where
  "put_all [] s = Some s"
| "put_all (c # cs) s = Option.bind (put (uint c) s) (put_all cs)"

fun get_all :: "nat \<Rightarrow> 's \<Rightarrow> (int list \<times> 's) option" where
  "get_all 0 s = Some ([], s)"
| "get_all (Suc n) s = Option.bind (get s) (\<lambda>(c, s). Option.bind (get_all n s) (\<lambda>(cs, s). Some (c # cs, s)))"

lemma put_all_ok:
  "inv s \<Longrightarrow> length (content s) + length (filter (\<lambda>c. c \<noteq> 0) cs) \<le> cap \<Longrightarrow>
   \<exists>s'. put_all cs s = Some s' \<and> inv s' \<and> content s' = content s @ filter (\<lambda>c. c \<noteq> 0) cs"
proof (induction cs arbitrary: s)
  case (Cons c cs)
  show ?case
  proof (cases "c = 0")
    case True
    then show ?thesis using Cons by (simp add: put_zero)
  next
    case False
    then obtain s1 where "put (uint c) s = Some s1" "inv s1" "content s1 = content s @ [c]"
      using put_law [of s c] Cons.prems by auto
    then show ?thesis using Cons.IH [of s1] Cons.prems False by auto
  qed
qed simp

lemma get_all_ok:
  "inv s \<Longrightarrow> n \<le> length (content s) \<Longrightarrow>
   \<exists>s'. get_all n s = Some (map uint (take n (content s)), s') \<and> inv s' \<and> content s' = drop n (content s)"
proof (induction n arbitrary: s)
  case (Suc n)
  then obtain c cs where cs: "content s = c # cs" by (cases "content s") auto
  obtain s1 where "get s = Some (uint c, s1)" "inv s1" "content s1 = cs"
    using get_law [OF Suc.prems(1)] cs by auto
  then show ?case using Suc.IH [of s1] Suc.prems(2) cs by auto
qed simp

lemma fifo:
  assumes "inv s" "content s = []" "0 \<notin> set cs" "length cs \<le> cap"
  shows "\<exists>s1 s2. put_all cs s = Some s1 \<and> get_all (length cs) s1 = Some (map uint cs, s2) \<and> inv s2 \<and> content s2 = []"
proof -
  have f: "filter (\<lambda>c. c \<noteq> 0) cs = cs" using assms(3) by (auto intro!: filter_True)
  obtain s1 where "put_all cs s = Some s1" "inv s1" "content s1 = cs"
    using put_all_ok [OF assms(1), of cs] assms(2, 4) f by auto
  then show ?thesis using get_all_ok [of s1 "length cs"] by auto
qed

end

definition cons_ok :: "console \<Rightarrow> bool" where
  "cons_ok s \<longleftrightarrow> length (cons_buf s) = 512 \<and> unat (cons_rpos s) < 512 \<and> unat (cons_wpos s) < 512"

definition pending :: "console \<Rightarrow> u8 list" where
  "pending s = map (\<lambda>i. cons_buf s ! ((unat (cons_rpos s) + i) mod 512)) [0..<(unat (cons_wpos s) + 512 - unat (cons_rpos s)) mod 512]"

lemma index_step:
  assumes "unat x < 512"
  shows "unat (if x + 1 = 512 then 0 else x + 1 :: u32) = (unat x + 1) mod 512"
proof -
  have u: "unat (x + 1) = unat x + 1" using assms by (simp add: unat_word_ariths)
  have "x + 1 = 512 \<longleftrightarrow> unat (x + 1) = unat (512 :: u32)" by (simp only: word_unat_eq_iff)
  then show ?thesis using u assms by auto
qed

lemma ring_size:
  fixes r w :: nat
  assumes "r < 512" "w < 512"
  shows "(w + 512 - r) mod 512 = (if r \<le> w then w - r else w + 512 - r)"
  using assms by (simp add: mod_if)

lemma ring_end:
  fixes r w :: nat
  assumes "r < 512" "w < 512"
  defines "n \<equiv> (w + 512 - r) mod 512"
  shows "(r + n) mod 512 = w" and "i < n \<Longrightarrow> (r + i) mod 512 \<noteq> w"
    and "((w + 1) mod 512 + 512 - r) mod 512 = (n + 1) mod 512"
    and "0 < n \<Longrightarrow> (w + 512 - (r + 1) mod 512) mod 512 = n - 1"
proof -
  have n: "n = (if r \<le> w then w - r else w + 512 - r)" unfolding n_def by (rule ring_size [OF assms(1, 2)])
  show "(r + n) mod 512 = w" using n assms(1, 2) by (cases "r \<le> w") auto
  show "(r + i) mod 512 \<noteq> w" if "i < n"
    using n assms(1, 2) that by (cases "r \<le> w"; cases "r + i < 512") (auto simp: le_mod_geq not_less)
  show "((w + 1) mod 512 + 512 - r) mod 512 = (n + 1) mod 512"
  proof (cases "w = 511")
    case True
    then have "n + 1 = 512 - r" using n assms(1) by auto
    then show ?thesis using True by simp
  next
    case False
    then have w: "(w + 1) mod 512 = w + 1" "w + 1 < 512" using assms(2) by auto
    consider "r \<le> w" | "r = w + 1" | "w + 1 < r" by linarith
    then show ?thesis
      unfolding w(1) using ring_size [OF assms(1) w(2)] n assms(1, 2) by cases (simp_all add: Suc_diff_le)
  qed
  show "(w + 512 - (r + 1) mod 512) mod 512 = n - 1" if "0 < n"
  proof (cases "r = 511")
    case True
    then show ?thesis using n assms(2) that by (auto split: if_splits)
  next
    case False
    then have "(r + 1) mod 512 = r + 1" using assms(1) by simp
    then show ?thesis using ring_size [of "r + 1" w] n assms(1, 2) False that by (auto split: if_splits)
  qed
qed

lemma cons_store_full:
  assumes ok: "cons_ok s" and c: "c \<noteq> 0"
  shows "\<exists>s'. cons_store (uint c) s = Some s' \<and> cons_ok s' \<and>
    pending s' = (if length (pending s) < 511 then pending s @ [c] else []) \<and>
    s' = s\<lparr>cons_buf := cons_buf s', cons_wpos := cons_wpos s'\<rparr>"
proof -
  let ?r = "unat (cons_rpos s)" and ?w = "unat (cons_wpos s)"
  define n where "n = (?w + 512 - ?r) mod 512"
  define w' where "w' = (if cons_wpos s + 1 = 512 then 0 else cons_wpos s + 1)"
  have b: "length (cons_buf s) = 512" "?r < 512" "?w < 512" using ok by (simp_all add: cons_ok_def)
  have w': "unat w' = (?w + 1) mod 512" unfolding w'_def by (rule index_step [OF b(3)])
  note ring = ring_end [OF b(2, 3), folded n_def]
  have c0: "uint c \<noteq> 0" using c by (simp add: word_uint_eq_iff)
  have st: "cons_store (uint c) s = Some (s\<lparr>cons_buf := (cons_buf s)[?w := c], cons_wpos := w'\<rparr>)" (is "_ = Some ?s")
    using b c0 by (simp add: cons_store_def w'_def Let_def)
  have n: "n < 512" "length (pending s) = n" by (simp_all add: n_def pending_def)
  have "pending ?s = map (\<lambda>i. (cons_buf s)[?w := c] ! ((?r + i) mod 512)) [0..<(n + 1) mod 512]"
    using ring(3) w' by (simp add: pending_def)
  also have "\<dots> = (if n < 511 then pending s @ [c] else [])"
  proof (cases "n < 511")
    case True
    have "map (\<lambda>i. (cons_buf s)[?w := c] ! ((?r + i) mod 512)) [0..<n] = pending s"
      unfolding pending_def n_def [symmetric] by (intro map_cong refl nth_list_update_neq not_sym [OF ring(2)]) simp
    then show ?thesis using True ring(1) b by simp
  next
    case False
    then have "n = 511" using n by simp
    then show ?thesis by simp
  qed
  finally show ?thesis using st b w' n by (simp add: cons_ok_def)
qed

lemma cons_take_ok:
  assumes ok: "cons_ok s"
  shows "\<exists>s'. cons_take s = Some (case pending s of [] \<Rightarrow> 0 | c # cs \<Rightarrow> uint c, s') \<and> cons_ok s' \<and> pending s' = tl (pending s)
    \<and> s' = s\<lparr>cons_rpos := cons_rpos s'\<rparr>"
proof -
  let ?r = "unat (cons_rpos s)" and ?w = "unat (cons_wpos s)"
  define n where "n = (?w + 512 - ?r) mod 512"
  have b: "length (cons_buf s) = 512" "?r < 512" "?w < 512" using ok by (simp_all add: cons_ok_def)
  note ring = ring_end [OF b(2, 3), folded n_def]
  have n0: "n = 0 \<longleftrightarrow> cons_rpos s = cons_wpos s"
    using b ring_size [OF b(2, 3)] by (auto simp: n_def word_unat_eq_iff)
  have p: "pending s = map (\<lambda>i. cons_buf s ! ((?r + i) mod 512)) [0..<n]" by (simp add: pending_def n_def)
  show ?thesis
  proof (cases "cons_rpos s = cons_wpos s")
    case True
    then show ?thesis using ok p n0 by (simp add: cons_take_def)
  next
    case False
    then obtain k where k: "n = Suc k" using n0 by (cases n) auto
    define r' where "r' = (if cons_rpos s + 1 = 512 then 0 else cons_rpos s + 1)"
    have r': "unat r' = (?r + 1) mod 512" unfolding r'_def by (rule index_step [OF b(2)])
    have "pending s = cons_buf s ! ?r # map (\<lambda>i. cons_buf s ! ((?r + 1 + i) mod 512)) [0..<k]"
      unfolding p k using b by (simp add: map_upt_Suc del: upt_Suc)
    moreover have "pending (s\<lparr>cons_rpos := r'\<rparr>) = map (\<lambda>i. cons_buf s ! ((?r + 1 + i) mod 512)) [0..<k]"
      using ring(4) k r' by (simp add: pending_def mod_add_left_eq)
    moreover have "cons_take s = Some (uint (cons_buf s ! ?r), s\<lparr>cons_rpos := r'\<rparr>)"
      using False b by (simp add: cons_take_def r'_def Let_def)
    ultimately show ?thesis using b r' by (simp add: cons_ok_def)
  qed
qed

interpretation cq: char_queue cons_ok pending 511 cons_store cons_take
proof unfold_locales
  show "\<exists>s'. cons_store (uint c) s = Some s' \<and> cons_ok s' \<and> pending s' = pending s @ [c]"
    if "cons_ok s" "c \<noteq> 0" "length (pending s) < 511" for s c
    using cons_store_full [OF that(1, 2)] that(3) by auto
  show "cons_store 0 s = Some s" for s by (simp add: cons_store_def)
  show "\<exists>s'. cons_take s = Some (case pending s of [] \<Rightarrow> 0 | c # cs \<Rightarrow> uint c, s') \<and> cons_ok s' \<and> pending s' = tl (pending s)"
    if "cons_ok s" for s
    using cons_take_ok [OF that] by blast
qed

section \<open>Input devices\<close>

text \<open>
  A device is polled through a status register, whose lowest bit says that there is a byte, and a data
  register. \<open>upcoming s us\<close> says that the next reads give the bytes \<open>us\<close>.
\<close>

definition upcoming :: "console \<Rightarrow> u8 list \<Rightarrow> bool" where
  "upcoming s us \<longleftrightarrow> (\<forall>i<length us. answers s (nreads s + i) = us ! i)"

definition input_step :: "nat \<Rightarrow> u32 \<Rightarrow> console \<Rightarrow> console \<Rightarrow> bool" where
  "input_step n sh s s' \<longleftrightarrow> s' = s\<lparr>nreads := nreads s + n, accesses := accesses s', kbd_shift := sh\<rparr>"

fun poll_script :: "(u8 \<times> u8) list \<Rightarrow> u8 \<Rightarrow> u8 list" where
  "poll_script [] e = [e]"
| "poll_script ((st, b) # xs) e = st # b # poll_script xs e"

definition poll_ok :: "(u8 \<times> u8) list \<Rightarrow> u8 \<Rightarrow> bool" where
  "poll_ok xs e \<longleftrightarrow> (\<forall>(st, b)\<in>set xs. st AND 1 \<noteq> 0) \<and> e AND 1 = 0"

text \<open>The characters a sequence of bytes decodes to, with the modifiers afterwards.\<close>

fun decoded :: "(u8 \<Rightarrow> u32 \<Rightarrow> int \<times> u32) \<Rightarrow> u8 list \<Rightarrow> u32 \<Rightarrow> u8 list \<times> u32" where
  "decoded dec [] sh = ([], sh)"
| "decoded dec (b # bs) sh =
     (let (c, sh) = dec b sh; (cs, sh) = decoded dec bs sh in (if c = 0 then cs else word_of_int c # cs, sh))"

fun avoids :: "(int \<Rightarrow> u32 \<Rightarrow> bool) \<Rightarrow> (u8 \<Rightarrow> u32 \<Rightarrow> int \<times> u32) \<Rightarrow> u8 list \<Rightarrow> u32 \<Rightarrow> bool" where
  "avoids bad dec [] sh = True"
| "avoids bad dec (b # bs) sh = (let (c, sh) = dec b sh in \<not> bad c sh \<and> avoids bad dec bs sh)"

lemma upcoming_Cons: "upcoming s (u # us) \<longleftrightarrow> answers s (nreads s) = u \<and> (\<forall>i<length us. answers s (nreads s + 1 + i) = us ! i)"
  unfolding upcoming_def by (simp add: All_less_Suc2)

lemma upcoming_poll:
  "upcoming s (poll_script ((st, b) # xs) e) \<longleftrightarrow>
   answers s (nreads s) = st \<and> answers s (nreads s + 1) = b \<and> upcoming (s\<lparr>nreads := nreads s + 2\<rparr>) (poll_script xs e)"
  unfolding upcoming_def by (auto simp: All_less_Suc2)

lemma length_poll_script: "length (poll_script xs e) = 2 * length xs + 1"
  by (induction xs e rule: poll_script.induct) auto

lemma upcoming_append: "upcoming s (us @ vs) \<longleftrightarrow> upcoming s us \<and> upcoming (s\<lparr>nreads := nreads s + length us\<rparr>) vs"
proof
  assume *: "upcoming s (us @ vs)"
  have "answers s (nreads s + (length us + i)) = vs ! i" if "i < length vs" for i
    using * [unfolded upcoming_def, rule_format, of "length us + i"] that by (simp add: nth_append)
  then show "upcoming s us \<and> upcoming (s\<lparr>nreads := nreads s + length us\<rparr>) vs"
    using * by (auto simp: upcoming_def nth_append add.assoc)
next
  assume *: "upcoming s us \<and> upcoming (s\<lparr>nreads := nreads s + length us\<rparr>) vs"
  have "answers s (nreads s + i) = (us @ vs) ! i" if "i < length (us @ vs)" for i
    using * that by (auto simp: upcoming_def nth_append dest: spec [of _ "i - length us"])
  then show "upcoming s (us @ vs)" by (simp add: upcoming_def)
qed

text \<open>What draining a device leaves alone.\<close>

definition input_frame :: "console \<Rightarrow> console \<Rightarrow> bool" where
  "input_frame s s' \<longleftrightarrow> s' = s\<lparr>nreads := nreads s', accesses := accesses s', kbd_shift := kbd_shift s',
     cons_buf := cons_buf s', cons_wpos := cons_wpos s', cons_rpos := cons_rpos s'\<rparr>"

lemma input_frame_trans: "input_frame s s1 \<Longrightarrow> input_frame s1 s2 \<Longrightarrow> input_frame s s2"
  by (cases s, cases s1, cases s2) (simp add: input_frame_def)

lemma input_frame_step: "input_step n sh s s' \<Longrightarrow> input_frame s s'"
  by (cases s, cases s') (simp add: input_step_def input_frame_def)

lemma input_frame_sel:
  assumes "input_frame s s'"
  shows "answers s' = answers s" "serial_exists s' = serial_exists s"
  using assms by (cases s, cases s'; simp add: input_frame_def)+

lemma input_step_sel:
  assumes "input_step n sh s s'"
  shows "answers s' = answers s" "nreads s' = nreads s + n" "kbd_shift s' = sh" "cons_ok s' = cons_ok s" "pending s' = pending s"
    "serial_exists s' = serial_exists s"
  using assms by (cases s, cases s'; simp add: input_step_def cons_ok_def pending_def)+

locale input_device =
  fixes proc :: "machine \<times> console \<Rightarrow> (int \<times> machine \<times> console) option"
    and dec :: "u8 \<Rightarrow> u32 \<Rightarrow> int \<times> u32" and bad :: "int \<Rightarrow> u32 \<Rightarrow> bool"
  assumes dec_range: "dec b sh = (c, sh') \<Longrightarrow> \<exists>v :: u8. c = uint v"
    and poll_none: "answers s (nreads s) AND 1 = 0 \<Longrightarrow> \<exists>s'. proc (m, s) = Some (-1, m, s') \<and> input_step 1 (kbd_shift s) s s'"
    and poll_byte: "answers s (nreads s) AND 1 \<noteq> 0 \<Longrightarrow> dec (answers s (nreads s + 1)) (kbd_shift s) = (c, sh) \<Longrightarrow> \<not> bad c sh \<Longrightarrow>
      \<exists>s'. proc (m, s) = Some (c, m, s') \<and> input_step 2 sh s s'"
begin

lemma cons_intr_ok:
  assumes "cons_ok s" "upcoming s (poll_script xs e)" "poll_ok xs e" "avoids bad dec (map snd xs) (kbd_shift s)"
    "decoded dec (map snd xs) (kbd_shift s) = (cs, sh)" "length (pending s) + length cs \<le> 511"
  shows "\<exists>s'. cons_intr proc (m, s) = Some (m, s') \<and> cons_ok s' \<and> pending s' = pending s @ cs \<and> kbd_shift s' = sh
    \<and> nreads s' = nreads s + (2 * length xs + 1) \<and> input_frame s s'"
  using assms
proof (induction xs arbitrary: s cs sh)
  case Nil
  then have "answers s (nreads s) AND 1 = 0" by (simp add: upcoming_def poll_ok_def)
  from poll_none [OF this, of m] obtain s' where "proc (m, s) = Some (-1, m, s')" "input_step 1 (kbd_shift s) s s'" by blast
  then show ?case using Nil.prems by (simp add: cons_intr.simps [of _ "(m, s)"] input_step_sel input_frame_step)
next
  case (Cons x xs)
  obtain st b where x: "x = (st, b)" by fastforce
  have up: "answers s (nreads s) = st" "answers s (nreads s + 1) = b" "upcoming (s\<lparr>nreads := nreads s + 2\<rparr>) (poll_script xs e)"
    using Cons.prems(2) unfolding x upcoming_poll by simp_all
  obtain c sh1 where c: "dec b (kbd_shift s) = (c, sh1)" by fastforce
  obtain cs1 where d: "decoded dec (map snd xs) sh1 = (cs1, sh)" "cs = (if c = 0 then cs1 else word_of_int c # cs1)"
    using Cons.prems(5) by (auto simp: x c split: prod.splits)
  have "answers s (nreads s) AND 1 \<noteq> 0" "\<not> bad c sh1" and av: "avoids bad dec (map snd xs) sh1"
    using Cons.prems(3, 4) up by (auto simp: x c poll_ok_def)
  with poll_byte [of s c sh1 m] c up obtain s1 where s1: "proc (m, s) = Some (c, m, s1)" "input_step 2 sh1 s s1" by auto
  obtain v :: u8 where v: "c = uint v" using dec_range [OF c] by blast
  have c1: "c \<noteq> -1" using v uint_nonnegative [of v] by linarith
  obtain s2 where s2: "cons_store c s1 = Some s2" "cons_ok s2" "pending s2 = pending s @ (if c = 0 then [] else [word_of_int c])"
    "s2 = s1\<lparr>cons_buf := cons_buf s2, cons_wpos := cons_wpos s2\<rparr>"
  proof (cases "c = 0")
    case True
    then show ?thesis using that [of s1] Cons.prems(1) s1(2) by (simp add: cons_store_def input_step_sel)
  next
    case False
    then have "v \<noteq> 0" using v by auto
    from cons_store_full [OF _ this, of s1] show ?thesis
      using that Cons.prems(1, 6) s1(2) d(2) False v by (auto simp: input_step_sel)
  qed
  have k2: "kbd_shift s2 = sh1" "nreads s2 = nreads s + 2" "answers s2 = answers s"
    using s1(2) by (subst s2(4), simp add: input_step_sel)+
  have fr: "input_frame s s2"
    using s1(2) by (subst s2(4), cases s, cases s1) (simp add: input_step_def input_frame_def)
  have "upcoming s2 (poll_script xs e)" using up(3) k2 by (simp add: upcoming_def)
  moreover have "poll_ok xs e" using Cons.prems(3) by (simp add: poll_ok_def)
  moreover have "length (pending s2) + length cs1 \<le> 511" using Cons.prems(6) s2(3) d(2) by (auto split: if_splits)
  ultimately obtain s' where s': "cons_intr proc (m, s2) = Some (m, s')" "cons_ok s'" "pending s' = pending s2 @ cs1" "kbd_shift s' = sh"
    "nreads s' = nreads s2 + (2 * length xs + 1)" "input_frame s2 s'"
    using Cons.IH [of s2 cs1 sh] s2(2) av d(1) k2 by auto
  have "cons_intr proc (m, s) = Some (m, s')"
    using s1(1) s2(1) s'(1) c1 by (simp add: cons_intr.simps [of _ "(m, s)"])
  then show ?case using s' s2(3) d(2) k2 input_frame_trans [OF fr s'(6)] by auto
qed

end

section \<open>Reading characters\<close>

definition serial_decode :: "u8 \<Rightarrow> u32 \<Rightarrow> int \<times> u32" where
  "serial_decode b sh = (if uint b = 127 then 8 else uint b, sh)"

interpretation serial: input_device serial_proc_data serial_decode "\<lambda>_ _. False"
proof unfold_locales
  show "\<exists>v :: u8. c = uint v" if "serial_decode b sh = (c, sh')" for b sh c sh'
    using that by (auto simp: serial_decode_def intro: exI [of _ 8] split: if_splits)
qed (auto simp: serial_proc_data_def serial_decode_def inb_def Let_def input_step_def)

lemma kbd_decode_range: "kbd_decode b sh = (c, sh') \<Longrightarrow> \<exists>v :: u8. c = uint v"
proof -
  have byte: "\<exists>v :: u8. c = uint v" if "0 \<le> c" "c < 256" for c
    using that by (intro exI [of _ "word_of_int c"]) (simp add: unsigned_of_int take_bit_int_eq_self)
  have swap: "0 \<le> caps_swap c \<and> caps_swap c < 256" if "0 \<le> c" "c < 256" for c
    using that by (auto simp: caps_swap_def)
  have u: "0 \<le> uint v \<and> uint v < 256" for v :: u8 using unsigned_less [of v, where 'a = int] by simp
  have "0 \<le> fst (kbd_press k s) \<and> fst (kbd_press k s) < 256" for k s
    using u swap by (simp add: kbd_press_def Let_def)
  then have "0 \<le> fst (kbd_decode b sh) \<and> fst (kbd_decode b sh) < 256"
    by (simp add: kbd_decode_def Let_def)
  then show "kbd_decode b sh = (c, sh') \<Longrightarrow> \<exists>v :: u8. c = uint v" using byte [of c] by auto
qed

interpretation keyboard: input_device kbd_proc_data kbd_decode reboot_keys
proof unfold_locales
  show "\<exists>s'. kbd_proc_data (m, s) = Some (- 1, m, s') \<and> input_step 1 (kbd_shift s) s s'"
    if "answers s (nreads s) AND 1 = 0" for m s
    using that by (simp add: kbd_proc_data_def inb_def Let_def input_step_def)
  show "\<exists>s'. kbd_proc_data (m, s) = Some (c, m, s') \<and> input_step 2 sh s s'"
    if "answers s (nreads s) AND 1 \<noteq> 0" "kbd_decode (answers s (nreads s + 1)) (kbd_shift s) = (c, sh)" "\<not> reboot_keys c sh" for m s c sh
    using that by (simp add: kbd_proc_data_def inb_def Let_def input_step_def)
qed (rule kbd_decode_range)

lemma decoded_serial: "decoded serial_decode bs sh = (filter (\<lambda>c. c \<noteq> 0) (map (\<lambda>b. if b = 127 then 8 else b) bs), sh)"
proof (induction bs)
  case (Cons b bs)
  have "uint b = 127 \<longleftrightarrow> b = 127" "uint b = 0 \<longleftrightarrow> b = 0" by (simp_all add: word_uint_eq_iff)
  then show ?case using Cons by (auto simp: serial_decode_def)
qed simp

lemma avoids_False: "avoids (\<lambda>_ _. False) dec bs sh"
  by (induction bs arbitrary: sh) (auto split: prod.splits)

lemma input_frame_refl: "input_frame s s" by (simp add: input_frame_def)

text \<open>
  The bytes the next call of \<^verbatim>\<open>cons_getc\<close> gets from the devices: \<open>xs\<close> from the serial line, when there is
  one, and \<open>ys\<close> from the keyboard, each with the status read before it.
\<close>

definition incoming :: "console \<Rightarrow> (u8 \<times> u8) list \<Rightarrow> (u8 \<times> u8) list \<Rightarrow> bool" where
  "incoming s xs ys \<longleftrightarrow> (\<exists>e e'. poll_ok xs e \<and> poll_ok ys e' \<and> (\<not> serial_exists s \<longrightarrow> xs = []) \<and>
     upcoming s ((if serial_exists s then poll_script xs e else []) @ poll_script ys e'))"

definition arrived :: "(u8 \<times> u8) list \<Rightarrow> (u8 \<times> u8) list \<Rightarrow> u32 \<Rightarrow> u8 list" where
  "arrived xs ys sh = fst (decoded serial_decode (map snd xs) sh) @ fst (decoded kbd_decode (map snd ys) sh)"

lemma serial_intr_ok:
  assumes "cons_ok s" "poll_ok xs e" "\<not> serial_exists s \<longrightarrow> xs = []" "upcoming s (if serial_exists s then poll_script xs e else [])"
    "length (pending s) + length (fst (decoded serial_decode (map snd xs) sh)) \<le> 511"
  shows "\<exists>s'. serial_intr (m, s) = Some (m, s') \<and> cons_ok s' \<and> pending s' = pending s @ fst (decoded serial_decode (map snd xs) sh)
    \<and> kbd_shift s' = kbd_shift s \<and> nreads s' = nreads s + length (if serial_exists s then poll_script xs e else []) \<and> input_frame s s'"
proof (cases "serial_exists s")
  case True
  have "decoded serial_decode (map snd xs) (kbd_shift s) = (fst (decoded serial_decode (map snd xs) sh), kbd_shift s)"
    by (simp add: decoded_serial)
  from serial.cons_intr_ok [OF assms(1) _ assms(2) avoids_False this assms(5), of m] True assms(4) show ?thesis
    by (simp add: serial_intr_def length_poll_script)
next
  case False
  then show ?thesis using assms(1, 3) by (simp add: serial_intr_def input_frame_refl)
qed

lemma cons_getc_ok:
  assumes ok: "cons_ok s" and inc: "incoming s xs ys" and av: "avoids reboot_keys kbd_decode (map snd ys) (kbd_shift s)"
    and cap: "length (pending s) + length (arrived xs ys (kbd_shift s)) \<le> 511"
  defines "q \<equiv> pending s @ arrived xs ys (kbd_shift s)"
  shows "\<exists>s'. cons_getc (m, s) = Some (case q of [] \<Rightarrow> 0 | c # cs \<Rightarrow> uint c, m, s') \<and> cons_ok s' \<and> pending s' = tl q
    \<and> kbd_shift s' = snd (decoded kbd_decode (map snd ys) (kbd_shift s)) \<and> input_frame s s'
    \<and> nreads s' = nreads s + (if serial_exists s then 2 * length xs + 1 else 0) + (2 * length ys + 1)"
proof -
  obtain e e' where p: "poll_ok xs e" "poll_ok ys e'" "\<not> serial_exists s \<longrightarrow> xs = []"
    and up: "upcoming s (if serial_exists s then poll_script xs e else [])"
      "upcoming (s\<lparr>nreads := nreads s + length (if serial_exists s then poll_script xs e else [])\<rparr>) (poll_script ys e')"
    using inc unfolding incoming_def upcoming_append by blast
  let ?cs = "fst (decoded serial_decode (map snd xs) (kbd_shift s))"
  let ?m = "m\<lparr>eflags := eflags m AND NOT FL_IF\<rparr>"
  obtain ds sh where d: "decoded kbd_decode (map snd ys) (kbd_shift s) = (ds, sh)" by fastforce
  obtain s1 where s1: "serial_intr (?m, s) = Some (?m, s1)" "cons_ok s1" "pending s1 = pending s @ ?cs" "kbd_shift s1 = kbd_shift s"
      "nreads s1 = nreads s + length (if serial_exists s then poll_script xs e else [])" "input_frame s s1"
    using serial_intr_ok [OF ok p(1, 3) up(1), of "kbd_shift s" ?m] cap by (auto simp: arrived_def)
  have "upcoming s1 (poll_script ys e')" using up(2) s1(5) input_frame_sel(1) [OF s1(6)] by (simp add: upcoming_def)
  from keyboard.cons_intr_ok [OF s1(2) this p(2), of ds sh ?m] av cap s1(3, 4) d
  obtain s2 where s2: "kbd_intr (?m, s1) = Some (?m, s2)" "cons_ok s2" "pending s2 = q" "kbd_shift s2 = sh" "input_frame s1 s2"
      "nreads s2 = nreads s1 + (2 * length ys + 1)"
    by (auto simp: kbd_intr_def arrived_def q_def)
  obtain s3 where s3: "cons_take s2 = Some (case q of [] \<Rightarrow> 0 | c # cs \<Rightarrow> uint c, s3)" "cons_ok s3" "pending s3 = tl q"
      "s3 = s2\<lparr>cons_rpos := cons_rpos s3\<rparr>"
    using cons_take_ok [OF s2(2)] s2(3) by auto
  have "input_frame s2 s3" using s3(4) by (cases s2, cases s3) (simp add: input_frame_def)
  then have fr: "input_frame s s3" using input_frame_trans s1(6) s2(5) by blast
  have "kbd_shift s3 = sh" using s2(4) by (subst s3(4)) simp
  moreover have "nreads s3 = nreads s + (if serial_exists s then 2 * length xs + 1 else 0) + (2 * length ys + 1)"
    using s1(5) s2(6) by (subst s3(4)) (simp add: length_poll_script)
  moreover have "cons_getc (m, s) = Some (case q of [] \<Rightarrow> 0 | c # cs \<Rightarrow> uint c, m, s3)"
    using s1(1) s2(1) s3(1) by (simp add: cons_getc_def local_irq_save_def local_irq_restore_def)
  ultimately show ?thesis using s3(2, 3) fr d by auto
qed

section \<open>Properties\<close>



end
