(* ===== verification/Keyboard.thy ===== *)
theory Keyboard
  imports ConsoleInput
begin

text \<open>
  The keyboard decoder: the scan codes of what a user does at a US keyboard give the characters on the keys.
\<close>

section \<open>The keyboard\<close>

subsection \<open>A US keyboard\<close>

text \<open>
  The keys with printable characters: the code, with \<open>0x80\<close> added for a key of the second group, the character, and the one with shift.
  The second block is the keypad.
\<close>

definition us_keys :: "(u8 \<times> char \<times> char) list" where
  "us_keys =
     [(0x29, CHR ''`'', CHR ''~''), (0x02, CHR ''1'', CHR ''!''), (0x03, CHR ''2'', CHR ''@''), (0x04, CHR ''3'', CHR ''#''),
      (0x05, CHR ''4'', CHR ''$''), (0x06, CHR ''5'', CHR ''%''), (0x07, CHR ''6'', CHR ''^''), (0x08, CHR ''7'', CHR ''&''),
      (0x09, CHR ''8'', CHR ''*''), (0x0A, CHR ''9'', CHR ''(''), (0x0B, CHR ''0'', CHR '')''), (0x0C, CHR ''-'', CHR ''_''),
      (0x0D, CHR ''='', CHR ''+''),
      (0x10, CHR ''q'', CHR ''Q''), (0x11, CHR ''w'', CHR ''W''), (0x12, CHR ''e'', CHR ''E''), (0x13, CHR ''r'', CHR ''R''),
      (0x14, CHR ''t'', CHR ''T''), (0x15, CHR ''y'', CHR ''Y''), (0x16, CHR ''u'', CHR ''U''), (0x17, CHR ''i'', CHR ''I''),
      (0x18, CHR ''o'', CHR ''O''), (0x19, CHR ''p'', CHR ''P''), (0x1A, CHR ''['', CHR ''{''), (0x1B, CHR '']'', CHR ''}''),
      (0x1E, CHR ''a'', CHR ''A''), (0x1F, CHR ''s'', CHR ''S''), (0x20, CHR ''d'', CHR ''D''), (0x21, CHR ''f'', CHR ''F''),
      (0x22, CHR ''g'', CHR ''G''), (0x23, CHR ''h'', CHR ''H''), (0x24, CHR ''j'', CHR ''J''), (0x25, CHR ''k'', CHR ''K''),
      (0x26, CHR ''l'', CHR ''L''), (0x27, CHR '';'', CHR '':''), (0x28, CHR 0x27, CHR 0x22), (0x2B, CHR 0x5C, CHR ''|''),
      (0x2C, CHR ''z'', CHR ''Z''), (0x2D, CHR ''x'', CHR ''X''), (0x2E, CHR ''c'', CHR ''C''), (0x2F, CHR ''v'', CHR ''V''),
      (0x30, CHR ''b'', CHR ''B''), (0x31, CHR ''n'', CHR ''N''), (0x32, CHR ''m'', CHR ''M''), (0x33, CHR '','', CHR ''<''),
      (0x34, CHR ''.'', CHR ''>''), (0x35, CHR ''/'', CHR ''?''), (0x39, CHR '' '', CHR '' ''),
      (0x47, CHR ''7'', CHR ''7''), (0x48, CHR ''8'', CHR ''8''), (0x49, CHR ''9'', CHR ''9''), (0x4A, CHR ''-'', CHR ''-''),
      (0x4B, CHR ''4'', CHR ''4''), (0x4C, CHR ''5'', CHR ''5''), (0x4D, CHR ''6'', CHR ''6''), (0x4E, CHR ''+'', CHR ''+''),
      (0x4F, CHR ''1'', CHR ''1''), (0x50, CHR ''2'', CHR ''2''), (0x51, CHR ''3'', CHR ''3''), (0x52, CHR ''0'', CHR ''0''),
      (0x53, CHR ''.'', CHR ''.''), (0x37, CHR ''*'', CHR ''*''), (0xB5, CHR ''/'', CHR ''/'')]"

text \<open>
  The other keys: the code, what the key gives, with or without shift, and what it gives with control. In order: Escape, Backspace,
  Tab, Enter, keypad Enter; Home, End, the arrows up, down, left and right, page up and down, Insert, Delete; F1 to F12; the locks. 0 is nothing.
\<close>

definition other_keys :: "(u8 \<times> u8 \<times> u8) list" where
  "other_keys =
     [(0x01, 27, 0), (0x0E, 8, 0), (0x0F, 9, 0), (0x1C, 10, 13), (0x9C, 10, 0),
      (0xC7, 0xE0, 0xE0), (0xCF, 0xE1, 0xE1), (0xC8, 0xE2, 0xE2), (0xD0, 0xE3, 0xE3), (0xCB, 0xE4, 0xE4), (0xCD, 0xE5, 0xE5),
      (0xC9, 0xE6, 0xE6), (0xD1, 0xE7, 0xE7), (0xD2, 0xE8, 0xE8), (0xD3, 0xE9, 0xE9),
      (0x3B, 0, 0), (0x3C, 0, 0), (0x3D, 0, 0), (0x3E, 0, 0), (0x3F, 0, 0), (0x40, 0, 0), (0x41, 0, 0), (0x42, 0, 0), (0x43, 0, 0),
      (0x44, 0, 0), (0x57, 0, 0), (0x58, 0, 0), (0x3A, 0, 0), (0x45, 0, 0), (0x46, 0, 0)]"

definition us_modifier :: "u8 \<Rightarrow> u32" where
  "us_modifier k = (if k \<in> {0x2A, 0x36} then SHIFT else if k \<in> {0x1D, 0x9D} then CTL else if k \<in> {0x38, 0xB8} then ALT else 0)"

definition us_lock :: "u8 \<Rightarrow> u32" where
  "us_lock k = (if k = 0x3A then CAPSLOCK else if k = 0x45 then NUMLOCK else if k = 0x46 then SCROLLLOCK else 0)"

definition is_letter :: "char \<Rightarrow> bool" where
  "is_letter a \<longleftrightarrow> a \<in> set ''abcdefghijklmnopqrstuvwxyz''"

text \<open>Control with a letter is its place in the alphabet; backslash and slash have a control character too, the others none.\<close>

definition us_ctl :: "char \<Rightarrow> u8" where
  "us_ctl a = (if is_letter a then of_char a - 96 else if a = CHR 0x5C then 28 else if a = CHR ''/'' then 0xEF else 0)"

text \<open>The character of a key under the modifiers held and the locks: shift and caps lock together cancel out on letters.\<close>

definition us_char :: "u8 \<Rightarrow> u32 \<Rightarrow> u32 \<Rightarrow> u8" where
  "us_char k held locks =
     (let shift = (held AND SHIFT \<noteq> 0); ctl = (held AND CTL \<noteq> 0); caps = (locks AND CAPSLOCK \<noteq> 0) in
      case map_of us_keys k of
        Some (a, b) \<Rightarrow> if ctl then us_ctl a else of_char (if (if is_letter a then shift \<noteq> caps else shift) then b else a)
      | None \<Rightarrow> (case map_of other_keys k of Some (a, b) \<Rightarrow> if ctl then b else a | None \<Rightarrow> 0))"

definition us_key :: "u8 \<Rightarrow> bool" where
  "us_key k \<longleftrightarrow> k \<in> set (map fst us_keys) \<union> set (map fst other_keys)"

subsection \<open>Gestures\<close>

text \<open>
  What a user does at the keyboard: striking a key, or performing gestures while a modifier key is held.
  Keys of the second group send the prefix \<open>0xE0\<close>. \<open>scan\<close> gives the bytes the keyboard sends, \<open>typed\<close> the
  characters meant and the state of the locks afterwards.
\<close>

datatype gesture = Key bool u8 | Hold bool u8 "gesture list"

definition prefix_bytes :: "bool \<Rightarrow> u8 list" where
  "prefix_bytes e = (if e then [0xE0] else [])"

definition key_code :: "bool \<Rightarrow> u8 \<Rightarrow> u8" where
  "key_code e d = (if e then d OR 0x80 else d)"

fun scan :: "gesture \<Rightarrow> u8 list" and scans :: "gesture list \<Rightarrow> u8 list" where
  "scan (Key e d) = prefix_bytes e @ d # prefix_bytes e @ [d OR 0x80]"
| "scan (Hold e d gs) = prefix_bytes e @ d # scans gs @ prefix_bytes e @ [d OR 0x80]"
| "scans [] = []"
| "scans (g # gs) = scan g @ scans gs"

definition typed_char :: "int \<Rightarrow> u8 list" where
  "typed_char c = (if c = 0 then [] else [word_of_int c])"

fun typed :: "gesture \<Rightarrow> u32 \<Rightarrow> u32 \<Rightarrow> u8 list \<times> u32" and typeds :: "gesture list \<Rightarrow> u32 \<Rightarrow> u32 \<Rightarrow> u8 list \<times> u32" where
  "typed (Key e d) held locks =
     (let locks = locks XOR us_lock (key_code e d) in (typed_char (uint (us_char (key_code e d) held locks)), locks))"
| "typed (Hold e d gs) held locks = typeds gs (held OR us_modifier (key_code e d)) locks"
| "typeds [] held locks = ([], locks)"
| "typeds (g # gs) held locks = (let (cs, locks) = typed g held locks; (cs', locks) = typeds gs held locks in (cs @ cs', locks))"

definition key_ok :: "u8 \<Rightarrow> bool" where
  "key_ok d \<longleftrightarrow> d AND 0x80 = 0 \<and> d \<noteq> 0x60"

text \<open>
  Keys of the keyboard are struck, but not Home while control is held (see \<open>ctl_home\<close>). Only modifier keys are held,
  and none while the same modifier is already held.
\<close>

fun gesture_ok :: "gesture \<Rightarrow> u32 \<Rightarrow> bool" and gestures_ok :: "gesture list \<Rightarrow> u32 \<Rightarrow> bool" where
  "gesture_ok (Key e d) held \<longleftrightarrow> key_ok d \<and> us_key (key_code e d) \<and> \<not> (key_code e d = 0xC7 \<and> held AND CTL \<noteq> 0)"
| "gesture_ok (Hold e d gs) held \<longleftrightarrow> key_ok d \<and> us_modifier (key_code e d) \<noteq> 0 \<and> us_modifier (key_code e d) AND held = 0
     \<and> gestures_ok gs (held OR us_modifier (key_code e d))"
| "gestures_ok [] held \<longleftrightarrow> True"
| "gestures_ok (g # gs) held \<longleftrightarrow> gesture_ok g held \<and> gestures_ok gs held"

subsection \<open>The tables of the driver\<close>

lemma shiftcode_us: "shiftcode k = us_modifier k" by (simp add: shiftcode_def us_modifier_def)

lemma togglecode_us: "togglecode k = us_lock k" by (simp add: togglecode_def us_lock_def)

text \<open>The character the driver gives for a key under the modifiers held and the locks.\<close>

definition key_char :: "u8 \<Rightarrow> u32 \<Rightarrow> u32 \<Rightarrow> int" where
  "key_char k held locks =
     (let c = uint (charcode (held AND (CTL OR SHIFT)) k) in if locks AND CAPSLOCK \<noteq> 0 then caps_swap c else c)"

lemma us_keys_plain: "list_all (\<lambda>(k, a, b). normalmap k = of_char a) us_keys"
  by code_simp

lemma us_keys_shift: "list_all (\<lambda>(k, a, b). shiftmap k = of_char b) us_keys"
  by code_simp

lemma us_keys_ctl: "list_all (\<lambda>(k, a, b). ctlmap k = us_ctl a) us_keys"
  by code_simp

lemma us_keys_caps:
  "list_all (\<lambda>(k, a, b). caps_swap (uint (of_char a :: u8)) = uint (of_char (if is_letter a then b else a) :: u8)
     \<and> caps_swap (uint (of_char b :: u8)) = uint (of_char (if is_letter a then a else b) :: u8)
     \<and> caps_swap (uint (us_ctl a)) = uint (us_ctl a)) us_keys"
  by code_simp

lemma other_keys_maps:
  "list_all (\<lambda>(k, a, b). normalmap k = a \<and> shiftmap k = a \<and> (k = 0xC7 \<or> ctlmap k = b)
     \<and> caps_swap (uint a) = uint a \<and> caps_swap (uint b) = uint b) other_keys"
  by code_simp

lemma us_distinct: "distinct (map fst us_keys @ map fst other_keys)"
  by code_simp

lemma us_no_modifier: "list_all (\<lambda>k. us_modifier k = 0) (map fst us_keys @ map fst other_keys)"
  by code_simp

lemma held_cases: "held AND (CTL OR SHIFT) = (if held AND CTL \<noteq> 0 then CTL else 0) OR (if held AND SHIFT \<noteq> 0 then SHIFT else 0)" for held :: u32
proof (rule bit_word_eqI)
  fix n assume "n < LENGTH(32)"
  have "held AND CTL = 0 \<longleftrightarrow> \<not> bit held 1" "held AND SHIFT = 0 \<longleftrightarrow> \<not> bit held 0"
    using and_exp_eq_0_iff_not_bit [of held 1] and_exp_eq_0_iff_not_bit [of held 0] by simp_all
  moreover have "bit (3 :: u32) n \<longleftrightarrow> n < 2" "bit (2 :: u32) n \<longleftrightarrow> n = 1" "bit (1 :: u32) n \<longleftrightarrow> n = 0"
    using bit_mask_iff [of 2 n, where 'a = u32] bit_exp_iff [of 1 n, where 'a = u32] bit_exp_iff [of 0 n, where 'a = u32] \<open>n < LENGTH(32)\<close>
    by (simp_all add: mask_eq_exp_minus_1)
  ultimately show "bit (held AND (CTL OR SHIFT)) n = bit ((if held AND CTL \<noteq> 0 then CTL else 0) OR (if held AND SHIFT \<noteq> 0 then SHIFT else 0)) n"
    by (auto simp: bit_and_iff bit_or_iff less_2_cases_iff)
qed

lemma key_char_us:
  assumes "us_key k" "\<not> (k = 0xC7 \<and> held AND CTL \<noteq> 0)"
  shows "key_char k held locks = uint (us_char k held locks)"
proof (cases "k \<in> set (map fst us_keys)")
  case True
  then obtain a b where r: "(k, a, b) \<in> set us_keys" by auto
  have m: "map_of us_keys k = Some (a, b)" using r us_distinct by (simp add: map_of_is_SomeI)
  have "normalmap k = of_char a" "shiftmap k = of_char b" "ctlmap k = us_ctl a"
    "caps_swap (uint (of_char a :: u8)) = uint (of_char (if is_letter a then b else a) :: u8)"
    "caps_swap (uint (of_char b :: u8)) = uint (of_char (if is_letter a then a else b) :: u8)"
    "caps_swap (uint (us_ctl a)) = uint (us_ctl a)"
    using us_keys_plain us_keys_shift us_keys_ctl us_keys_caps r by (auto simp: list_all_iff)
  then show ?thesis unfolding key_char_def held_cases us_char_def m by (simp add: charcode_def Let_def)
next
  case False
  then obtain a b where r: "(k, a, b) \<in> set other_keys" using assms(1) by (auto simp: us_key_def)
  have m: "map_of us_keys k = None" "map_of other_keys k = Some (a, b)"
    using False r us_distinct by (simp_all add: map_of_is_SomeI map_of_eq_None_iff)
  have "normalmap k = a" "shiftmap k = a" "k = 0xC7 \<or> ctlmap k = b" "caps_swap (uint a) = uint a" "caps_swap (uint b) = uint b"
    using other_keys_maps r by (auto simp: list_all_iff)
  then show ?thesis using assms(2) unfolding key_char_def held_cases us_char_def m by (auto simp: charcode_def Let_def)
qed

subsection \<open>Decoding\<close>

lemma decoded_append:
  "decoded dec (bs @ cs) sh = (let (x, sh) = decoded dec bs sh; (y, sh) = decoded dec cs sh in (x @ y, sh))"
  by (induction bs arbitrary: sh) (auto simp: Let_def split: prod.splits)

lemma E0_bit: "sh AND E0ESC = 0 \<longleftrightarrow> \<not> bit sh 6" for sh :: u32
  using and_exp_eq_0_iff_not_bit [of sh 6] by simp

lemma bit_consts: "bit (64 :: int) n \<longleftrightarrow> n = 6" "bit (128 :: int) n \<longleftrightarrow> n = 7" "bit (127 :: int) n \<longleftrightarrow> n < 7"
proof -
  show "bit (64 :: int) n \<longleftrightarrow> n = 6" using bit_exp_iff [of 6 n, where 'a = int] by auto
  show "bit (128 :: int) n \<longleftrightarrow> n = 7" using bit_exp_iff [of 7 n, where 'a = int] by auto
  have "(127 :: int) = mask 7" by (simp add: mask_eq_exp_minus_1)
  then show "bit (127 :: int) n \<longleftrightarrow> n < 7" by (simp only: bit_mask_iff) auto
qed

lemma decoded_press:
  assumes "key_ok d" "\<not> bit sh 6"
  shows "decoded kbd_decode (prefix_bytes e @ [d]) sh = (let (c, sh) = kbd_press (key_code e d) sh in (typed_char c, sh))"
proof -
  have d: "d \<noteq> 0xE0" "d AND 0x80 = 0" using assms(1) by (auto simp: key_ok_def)
  have "bit (sh OR 64) 6" by (simp add: bit_simps bit_consts)
  moreover have "(sh OR 64) AND NOT 64 = sh"
    using assms(2) by (intro bit_word_eqI) (auto simp: bit_simps bit_consts)
  ultimately show ?thesis
    using d assms(2) by (auto simp: prefix_bytes_def key_code_def kbd_decode_def typed_char_def E0_bit split: prod.splits)
qed

lemma shiftcode_bit: "\<not> bit (shiftcode k) 6" "\<not> bit (togglecode k) 6"
  by (auto simp: shiftcode_def togglecode_def)

lemma decoded_release:
  assumes "key_ok d" "\<not> bit sh 6"
  shows "decoded kbd_decode (prefix_bytes e @ [d OR 0x80]) sh = ([], sh AND NOT (shiftcode (key_code e d)))"
proof -
  let ?r = "d OR 0x80"
  have d7: "\<not> bit d 7" using assms(1) and_exp_eq_0_iff_not_bit [of d 7] by (simp add: key_ok_def)
  have r7: "?r AND 0x80 \<noteq> 0" using and_exp_eq_0_iff_not_bit [of ?r 7] by (simp add: bit_simps)
  have rd: "?r AND 0x7F = d"
  proof (rule bit_word_eqI)
    fix n assume "n < LENGTH(8)"
    then show "bit (?r AND 0x7F) n = bit d n" using d7 by (cases "n = 7") (auto simp: bit_and_iff bit_or_iff bit_consts)
  qed
  have rE: "?r \<noteq> 0xE0"
  proof
    assume "?r = 0xE0"
    then have "?r AND 0x7F = 0x60" by simp
    with rd show False using assms(1) by (simp add: key_ok_def)
  qed
  have "(sh OR 64) AND NOT (shiftcode k OR 64) = sh AND NOT (shiftcode k)" "sh AND NOT (shiftcode k OR 64) = sh AND NOT (shiftcode k)" for k
    using assms(2) by (intro bit_word_eqI; auto simp: bit_simps bit_consts)+
  moreover have "bit (sh OR 64) 6" by (simp add: bit_simps bit_consts)
  ultimately show ?thesis
    using r7 rE rd assms(2) by (simp add: prefix_bytes_def key_code_def kbd_decode_def E0_bit)
qed


text \<open>Modifiers are the three lowest bits, locks the three next ones; a key is one, the other, or none.\<close>

definition mods :: "u32 \<Rightarrow> bool" where
  "mods held \<longleftrightarrow> held AND NOT 0x07 = 0"

definition lock_bits :: "u32 \<Rightarrow> bool" where
  "lock_bits locks \<longleftrightarrow> locks AND NOT 0x38 = 0"

lemma bit_groups: "bit (7 :: int) n \<longleftrightarrow> n < 3" "bit (56 :: int) n \<longleftrightarrow> 3 \<le> n \<and> n < 6" "bit (3 :: int) n \<longleftrightarrow> n < 2" "bit (8 :: int) n \<longleftrightarrow> n = 3"
proof -
  have "(7 :: int) = mask 3" "(56 :: int) = push_bit 3 (mask 3)" "(3 :: int) = mask 2" "(8 :: int) = 2 ^ 3"
    by (simp_all add: mask_eq_exp_minus_1 push_bit_eq_mult)
  then show "bit (7 :: int) n \<longleftrightarrow> n < 3" "bit (56 :: int) n \<longleftrightarrow> 3 \<le> n \<and> n < 6" "bit (3 :: int) n \<longleftrightarrow> n < 2" "bit (8 :: int) n \<longleftrightarrow> n = 3"
    by (simp_all only: bit_mask_iff bit_push_bit_iff bit_exp_iff) auto
qed

lemma subset_bit: "a AND NOT b = 0 \<Longrightarrow> bit a n \<Longrightarrow> bit b n" for a b :: u32
proof -
  assume "a AND NOT b = 0" and a: "bit a n"
  then have "\<not> bit (a AND NOT b) n" by simp
  with a show "bit b n" using bit_imp_le_length [OF a] by (simp add: bit_and_iff bit_not_iff)
qed

lemma mods_bit: "mods held \<Longrightarrow> bit held n \<Longrightarrow> n < 3"
  unfolding mods_def by (drule (1) subset_bit) (simp add: bit_groups)

lemma lock_bits_bit: "lock_bits locks \<Longrightarrow> bit locks n \<Longrightarrow> 3 \<le> n \<and> n < 6"
  unfolding lock_bits_def by (drule (1) subset_bit) (simp add: bit_groups)

lemma mods_shiftcode: "mods (shiftcode k)" by (simp add: mods_def shiftcode_def)

lemma mods_or: "mods a \<Longrightarrow> mods b \<Longrightarrow> mods (a OR b)"
  by (simp add: mods_def bit.conj_disj_distrib2)

lemma lock_bits_toggle: "lock_bits locks \<Longrightarrow> lock_bits (locks XOR togglecode k)"
  by (simp add: lock_bits_def togglecode_def bit.conj_xor_distrib2)

lemma shift_no_toggle: "shiftcode k \<noteq> 0 \<Longrightarrow> togglecode k = 0 \<and> charcode i k = 0"
  by (simp add: shiftcode_def togglecode_def charcode_def normalmap_def shiftmap_def ctlmap_def key_table_def cursor_keys_def
      text_bytes_def ctl_bytes_def replicate_numeral split: if_splits)

lemma state_bit6: "mods held \<Longrightarrow> lock_bits locks \<Longrightarrow> \<not> bit (held OR locks) 6"
  by (auto simp: bit_or_iff dest: mods_bit lock_bits_bit)

lemma kbd_press_state:
  assumes "mods held" "lock_bits locks"
  shows "kbd_press k (held OR locks) =
    (key_char k (held OR shiftcode k) (locks XOR togglecode k), (held OR shiftcode k) OR (locks XOR togglecode k))"
proof -
  define h where "h = held OR shiftcode k"
  define l where "l = locks XOR togglecode k"
  have h: "mods h" unfolding h_def by (rule mods_or [OF assms(1) mods_shiftcode])
  have l: "lock_bits l" unfolding l_def by (rule lock_bits_toggle [OF assms(2)])
  have t: "lock_bits (togglecode k)" by (simp add: lock_bits_def togglecode_def)
  have "((held OR locks) OR shiftcode k) XOR togglecode k = h OR l"
  proof (rule bit_word_eqI)
    fix n
    have "\<not> (bit h n \<and> bit (togglecode k) n)" using mods_bit [OF h, of n] lock_bits_bit [OF t, of n] by linarith
    then show "bit (((held OR locks) OR shiftcode k) XOR togglecode k) n = bit (h OR l) n"
      by (auto simp: bit_or_iff bit_xor_iff h_def l_def)
  qed
  moreover have "(h OR l) AND 3 = h AND 3" "(h OR l) AND 8 = l AND 8"
    using mods_bit [OF h] lock_bits_bit [OF l] by (intro bit_word_eqI; fastforce simp: bit_or_iff bit_and_iff bit_groups)+
  ultimately show ?thesis unfolding kbd_press_def key_char_def Let_def h_def [symmetric] l_def [symmetric] by simp
qed

text \<open>The bytes of a gesture decode to what was typed; the modifiers afterwards are those held before.\<close>

lemma gesture_decoded:
  "gesture_ok g held \<Longrightarrow> mods held \<Longrightarrow> lock_bits locks \<Longrightarrow>
     lock_bits (snd (typed g held locks)) \<and>
     decoded kbd_decode (scan g) (held OR locks) = (fst (typed g held locks), held OR snd (typed g held locks))"
  "gestures_ok gs held \<Longrightarrow> mods held \<Longrightarrow> lock_bits locks \<Longrightarrow>
     lock_bits (snd (typeds gs held locks)) \<and>
     decoded kbd_decode (scans gs) (held OR locks) = (fst (typeds gs held locks), held OR snd (typeds gs held locks))"
proof (induction g and gs arbitrary: locks held and locks held rule: scan_scans.induct)
  case (1 e d)
  let ?k = "key_code e d"
  define l where "l = locks XOR togglecode ?k"
  have ok: "key_ok d" "shiftcode ?k = 0" "us_key ?k" "\<not> (?k = 0xC7 \<and> held AND CTL \<noteq> 0)"
    using "1.prems"(1) us_no_modifier by (auto simp: us_key_def shiftcode_us list_all_iff)
  have l: "lock_bits l" unfolding l_def by (rule lock_bits_toggle [OF "1.prems"(3)])
  have b: "\<not> bit (held OR locks) 6" "\<not> bit (held OR l) 6" using state_bit6 "1.prems" l by blast+
  have k: "kbd_press ?k (held OR locks) = (key_char ?k held l, held OR l)"
    using kbd_press_state [OF "1.prems"(2, 3), of ?k] ok(2) by (simp add: l_def)
  have "scan (Key e d) = (prefix_bytes e @ [d]) @ prefix_bytes e @ [d OR 0x80]" by simp
  then have "decoded kbd_decode (scan (Key e d)) (held OR locks) = (typed_char (key_char ?k held l), held OR l)"
    using ok decoded_press [OF ok(1) b(1), of e] decoded_release [OF ok(1) b(2), of e]
    by (simp only: decoded_append) (simp add: k)
  then show ?case using l key_char_us [OF ok(3, 4), of l] by (simp add: l_def Let_def togglecode_us)
next
  case (2 e d gs)
  let ?k = "key_code e d"
  define h where "h = held OR shiftcode ?k"
  obtain cs l where t: "typeds gs h locks = (cs, l)" by fastforce
  have ok: "key_ok d" "shiftcode ?k \<noteq> 0" "shiftcode ?k AND held = 0" "gestures_ok gs h"
    using "2.prems"(1) by (auto simp: h_def shiftcode_us)
  have h: "mods h" unfolding h_def by (rule mods_or [OF "2.prems"(2) mods_shiftcode])
  have gs: "lock_bits l" "decoded kbd_decode (scans gs) (h OR locks) = (cs, h OR l)"
    using "2.IH" [OF ok(4) h "2.prems"(3)] t by simp_all
  have k: "kbd_press ?k (held OR locks) = (0, h OR locks)"
    using kbd_press_state [OF "2.prems"(2, 3), of ?k] shift_no_toggle [OF ok(2)]
    by (simp add: key_char_def caps_swap_def h_def)
  have b: "\<not> bit (held OR locks) 6" "\<not> bit (h OR l) 6" using state_bit6 "2.prems"(2, 3) h gs(1) by blast+
  have rel: "(h OR l) AND NOT (shiftcode ?k) = held OR l"
  proof (rule bit_word_eqI)
    fix n assume "n < LENGTH(32)"
    have "\<not> (bit (shiftcode ?k) n \<and> bit held n)" using ok(3) by (metis bit_and_iff bit_0_eq bot_apply bot_bool_def)
    moreover have "\<not> (bit (shiftcode ?k) n \<and> bit l n)" using mods_bit [OF mods_shiftcode] lock_bits_bit [OF gs(1)] by fastforce
    ultimately show "bit ((h OR l) AND NOT (shiftcode ?k)) n = bit (held OR l) n"
      using \<open>n < LENGTH(32)\<close> by (auto simp: h_def bit_and_iff bit_or_iff bit_not_iff)
  qed
  have "scan (Hold e d gs) = (prefix_bytes e @ [d]) @ scans gs @ (prefix_bytes e @ [d OR 0x80])" by simp
  then have "decoded kbd_decode (scan (Hold e d gs)) (held OR locks) = (cs, held OR l)"
    using ok(1) gs decoded_press [OF ok(1) b(1), of e] decoded_release [OF ok(1) b(2), of e] k rel
    by (simp only: decoded_append) (simp add: typed_char_def)
  then show ?case using gs(1) t by (simp add: h_def shiftcode_us)
next
  case (4 g gs)
  obtain cs l where t: "typed g held locks = (cs, l)" by fastforce
  show ?case using "4.IH"(1) [of held locks] "4.IH"(2) [of held l] "4.prems" t
    by (auto simp: decoded_append split: prod.splits)
qed simp_all

text \<open>The Home key sends code \<open>0xC7\<close>, at which the control map has no entry.\<close>

lemma ctl_home: "normalmap 0xC7 = 0xE0" "shiftmap 0xC7 = 0xE0" "ctlmap 0xC7 = 0" "ctlmap 0x97 = 0xE0"
  by (simp_all add: normalmap_def shiftmap_def ctlmap_def key_table_def text_bytes_def ctl_bytes_def cursor_keys_def)

section \<open>Properties\<close>

text \<open>
  C28: the keyboard. The bytes a US keyboard sends for any sequence of gestures, keys struck and keys struck while modifier keys are held,
  nested as one likes, with and without prefix, decode to the characters on the keys: the shifted ones while shift is held, for letters
  while one of shift and caps lock is on; control characters while control is held; the codes of the cursor keys. Modifiers, locks, function
  keys and releasing a key type nothing; afterwards the modifiers are those held before, and only lock keys have a lasting effect.
  A modifier is not pressed while the same modifier is held, and Home is not struck while control is held, for which the driver has no entry.
\<close>

theorem kbd_gestures_correct:
  assumes "gestures_ok gs held" "mods held" "lock_bits locks"
  shows "decoded kbd_decode (scans gs) (held OR locks) = (fst (typeds gs held locks), held OR snd (typeds gs held locks))
    \<and> lock_bits (snd (typeds gs held locks))"
  using gesture_decoded(2) [OF assms] by blast

text \<open>Shift is held during 'a' and '1', then caps lock is struck, then 'b'.\<close>

theorem kbd_gestures_correct_witness:
  "decoded kbd_decode (scans [Hold False 0x2A [Key False 0x1E, Key False 0x02], Key False 0x3A, Key False 0x30]) 0 = ([65, 33, 66], 8)"
proof -
  let ?gs = "[Hold False 0x2A [Key False 0x1E, Key False 0x02], Key False 0x3A, Key False 0x30]"
  have "gestures_ok ?gs 0" by (simp add: key_ok_def key_code_def us_modifier_def us_key_def us_keys_def other_keys_def)
  moreover have "mods 0" "lock_bits 0" by (simp_all add: mods_def lock_bits_def)
  moreover have "typeds ?gs 0 0 = ([65, 33, 66], 8)"
    by (simp add: us_char_def typed_char_def key_code_def us_modifier_def us_lock_def us_keys_def other_keys_def is_letter_def)
  ultimately show ?thesis using kbd_gestures_correct [of ?gs 0 0] by (simp del: scans.simps typeds.simps)
qed

end
