(* ===== verification/Readline.thy ===== *)
theory Readline
  imports ConsoleInput
begin

text \<open>
  Line input (\<^verbatim>\<open>lib/readline.c\<close>) and panic messages (\<^verbatim>\<open>kern/debug/panic.c\<close>).

  \<^verbatim>\<open>readline\<close> returns whether the result is the buffer (or \<^verbatim>\<open>NULL\<close>), and the buffer. \<^verbatim>\<open>__panic\<close> does not return: its
  model gives the state in which it loops forever. Callers of \<^verbatim>\<open>panic\<close> elsewhere in the model just have no result.
\<close>

section \<open>Definitions\<close>

abbreviation (input) BUFSIZE :: nat where "BUFSIZE \<equiv> 1024"

text \<open>A store outside of the buffer has no defined effect.\<close>

partial_function (option) readline_loop ::
  "u8 list \<Rightarrow> nat \<Rightarrow> machine \<times> console \<Rightarrow> (bool \<times> u8 list \<times> machine \<times> console) option" where
  "readline_loop lbuf i h = do {
     (c, h) \<leftarrow> getchar h;
     if c < 0 then Some (False, lbuf, h)
     else if c \<ge> 32 \<and> i < BUFSIZE - 1 then do {
       kassert (i < length lbuf);
       readline_loop (lbuf[i := word_of_int c]) (i + 1) (cputchar c h)
     }
     else if c = 8 \<and> i > 0 then readline_loop lbuf (i - 1) (cputchar c h)
     else if c = 10 \<or> c = 13 then do {
       kassert (i < length lbuf);
       Some (True, lbuf[i := 0], cputchar c h)
     }
     else readline_loop lbuf i h
   }"

definition issue_prompt :: "string option \<Rightarrow> machine \<times> console \<Rightarrow> (machine \<times> console) option" where
  "issue_prompt prompt h = (case prompt of None \<Rightarrow> Some h | Some p \<Rightarrow> map_option snd (vcprintf (lit_mem_s p) 0 [16] h))"

definition readline :: "string option \<Rightarrow> u8 list \<Rightarrow> machine \<times> console \<Rightarrow> (bool \<times> u8 list \<times> machine \<times> console) option" where
  "readline prompt lbuf h = do {
     h \<leftarrow> issue_prompt prompt h;
     readline_loop lbuf 0 h
   }"

text \<open>A format at address 0 with a literal argument at address 64.\<close>

definition lit_mem2 :: "string \<Rightarrow> string \<Rightarrow> mem" where
  "lit_mem2 fmt arg = (\<lambda>a. if a < 64 then lit_mem fmt a else lit_mem arg (a - 64))"

definition panic_text :: "string \<Rightarrow> string \<Rightarrow> u32 \<Rightarrow> mem \<Rightarrow> u32 \<Rightarrow> va_list \<Rightarrow> machine \<times> console \<Rightarrow> (machine \<times> console) option" where
  "panic_text head file line mm fmt ap h = do {
     (_, h) \<leftarrow> vcprintf (lit_mem2 head file) 0 [64, line] h;
     (_, h) \<leftarrow> vcprintf mm fmt ap h;
     (_, h) \<leftarrow> cprintf [CHR 0x0A] [] h;
     Some h
   }"

definition kpanic ::
  "string \<Rightarrow> u32 \<Rightarrow> mem \<Rightarrow> u32 \<Rightarrow> va_list \<Rightarrow> bool \<times> machine \<times> console \<Rightarrow> (bool \<times> machine \<times> console) option" where
  "kpanic file line mm fmt ap = (\<lambda>(is_panic, h).
     if is_panic then Some (is_panic, h)
     else do {
       h \<leftarrow> panic_text (''kernel panic at %s:%d:'' @ [CHR 0x0A] @ ''    '') file line mm fmt ap h;
       Some (True, h)
     })"

definition kwarn ::
  "string \<Rightarrow> u32 \<Rightarrow> mem \<Rightarrow> u32 \<Rightarrow> va_list \<Rightarrow> bool \<times> machine \<times> console \<Rightarrow> (bool \<times> machine \<times> console) option" where
  "kwarn file line mm fmt ap = (\<lambda>(is_panic, h). do {
     h \<leftarrow> panic_text (''kernel warning at %s:%d:'' @ [CHR 0x0A] @ ''    '') file line mm fmt ap h;
     Some (is_panic, h)
   })"

definition is_kernel_panic :: "bool \<times> machine \<times> console \<Rightarrow> bool" where
  "is_kernel_panic st = fst st"

section \<open>Editing a line\<close>

text \<open>The line that a sequence of characters describes, and the characters echoed meanwhile.\<close>

definition edit_step :: "u8 list \<Rightarrow> u8 \<Rightarrow> u8 list" where
  "edit_step l c =
     (if c \<ge> 32 \<and> length l < 1023 then l @ [c] else if c = 8 \<and> l \<noteq> [] then butlast l else l)"

fun edited :: "u8 list \<Rightarrow> u8 list \<Rightarrow> u8 list" where
  "edited l [] = l"
| "edited l (c # cs) = edited (edit_step l c) cs"

definition echoes :: "u8 list \<Rightarrow> u8 \<Rightarrow> bool" where
  "echoes l c \<longleftrightarrow> (c \<ge> 32 \<and> length l < 1023) \<or> (c = 8 \<and> l \<noteq> []) \<or> c = 10 \<or> c = 13"

fun echoed :: "u8 list \<Rightarrow> u8 list \<Rightarrow> int list" where
  "echoed l [] = []"
| "echoed l (c # cs) = (if echoes l c then [uint c] else []) @ echoed (edit_step l c) cs"

lemma edited_length: "length l \<le> 1023 \<Longrightarrow> length (edited l cs) \<le> 1023"
  by (induction cs arbitrary: l) (simp_all add: edit_step_def)

text \<open>The console after the echo of a character.\<close>

definition after_echo :: "u8 list \<Rightarrow> u8 \<Rightarrow> machine \<times> console \<Rightarrow> machine \<times> console" where
  "after_echo l c h = (if echoes l c then cputchar (uint c) h else h)"

text \<open>
  What \<^verbatim>\<open>readline\<close> needs of the console: while \<open>src h l cs out\<close> holds and the line is \<open>l\<close>, the characters \<open>cs\<close> are going to
  be read, and \<open>out\<close> has been printed.
\<close>

locale char_source =
  fixes src :: "machine \<times> console \<Rightarrow> u8 list \<Rightarrow> u8 list \<Rightarrow> int list \<Rightarrow> bool"
  assumes source_get: "src h l (c # cs) out \<Longrightarrow>
    \<exists>h'. getchar h = Some (uint c, h') \<and> src (after_echo l c h') (edit_step l c) cs (out @ echoed l [c])"
begin

lemma readline_loop_ok:
  assumes "src h (take i lbuf) (cs @ [e]) out" "e \<in> {10, 13}" "set cs \<inter> {10, 13} = {}" "length lbuf = 1024" "i \<le> 1023"
  shows "\<exists>lbuf' h'. readline_loop lbuf i h = Some (True, lbuf', h') \<and> length lbuf' = 1024
    \<and> take (length (edited (take i lbuf) cs)) lbuf' = edited (take i lbuf) cs
    \<and> lbuf' ! length (edited (take i lbuf) cs) = 0
    \<and> src h' (edited (take i lbuf) cs) [] (out @ echoed (take i lbuf) cs @ [uint e])"
  using assms
proof (induction cs arbitrary: h out lbuf i)
  case Nil
  obtain h1 where h1: "getchar h = Some (uint e, h1)" "src (after_echo (take i lbuf) e h1) (edit_step (take i lbuf) e) [] (out @ echoed (take i lbuf) [e])"
    using source_get [of h "take i lbuf" e "[]" out] Nil.prems(1) unfolding append_Nil by blast
  have e: "uint e = 10 \<or> uint e = 13" "edit_step l e = l" "echoes l e" for l
    using Nil.prems(2) by (auto simp: edit_step_def echoes_def)
  then have "readline_loop lbuf i h = Some (True, lbuf[i := 0], cputchar (uint e) h1)"
    using h1(1) Nil.prems(4, 5) by (auto simp: readline_loop.simps [of _ _ h])
  then show ?case using Nil.prems h1(2) e(2, 3) by (auto simp: min_def after_echo_def)
next
  case (Cons c cs)
  let ?l = "take i lbuf"
  obtain h1 where h1: "getchar h = Some (uint c, h1)" "src (after_echo ?l c h1) (edit_step ?l c) (cs @ [e]) (out @ echoed ?l [c])"
    using source_get [of h ?l c "cs @ [e]" out] Cons.prems(1) unfolding append_Cons by blast
  have c: "uint c \<noteq> 10" "uint c \<noteq> 13" "c \<noteq> 10" "c \<noteq> 13" "\<not> uint c < 0" "uint c \<ge> 32 \<longleftrightarrow> c \<ge> 32" "uint c = 8 \<longleftrightarrow> c = 8"
    using Cons.prems(3) by (auto simp: word_uint_eq_iff word_le_def)
  have len: "length ?l = i" "?l = [] \<longleftrightarrow> i = 0" using Cons.prems(4, 5) by auto
  consider (add) "c \<ge> 32" "i < 1023" | (del) "\<not> (c \<ge> 32 \<and> i < 1023)" "c = 8" "i > 0" | (none) "\<not> (c \<ge> 32 \<and> i < 1023)" "\<not> (c = 8 \<and> i > 0)"
    by blast
  then obtain lbuf' i' where n: "readline_loop lbuf i h = readline_loop lbuf' i' (after_echo ?l c h1)" "length lbuf' = 1024" "i' \<le> 1023"
    "take i' lbuf' = edit_step ?l c"
  proof cases
    case add
    have "readline_loop lbuf i h = readline_loop (lbuf[i := c]) (i + 1) (after_echo ?l c h1)"
      using h1(1) c add len Cons.prems(4) by (simp add: readline_loop.simps [of _ _ h] after_echo_def echoes_def)
    moreover have "take (i + 1) (lbuf[i := c]) = ?l @ [c]" using add Cons.prems(4) by (simp add: take_Suc_conv_app_nth)
    ultimately show ?thesis using that [of "lbuf[i := c]" "i + 1"] add len Cons.prems(4) by (simp add: edit_step_def)
  next
    case del
    have "readline_loop lbuf i h = readline_loop lbuf (i - 1) (after_echo ?l c h1)"
      using h1(1) c del len by (simp add: readline_loop.simps [of _ _ h] after_echo_def echoes_def)
    moreover have "take (i - 1) lbuf = butlast ?l" using del Cons.prems(4, 5) by (simp add: butlast_take)
    ultimately show ?thesis using that [of lbuf "i - 1"] del len Cons.prems(4, 5) by (simp add: edit_step_def)
  next
    case none
    then have "\<not> echoes ?l c" using c len by (auto simp: echoes_def)
    then have "readline_loop lbuf i h = readline_loop lbuf i (after_echo ?l c h1)"
      using h1(1) c none by (auto simp: readline_loop.simps [of _ _ h] after_echo_def)
    then show ?thesis using that [of lbuf i] none len Cons.prems(4, 5) by (auto simp: edit_step_def)
  qed
  then show ?case using Cons.IH [of "after_echo ?l c h1" i' lbuf' "out @ echoed ?l [c]"] h1(2) Cons.prems(2, 3) n by auto
qed

end

text \<open>
  A user types while the line is read: \<open>typing l h cs rest\<close> says that the calls of \<^verbatim>\<open>cons_getc\<close> from state \<open>h\<close> on, with the echo of what
  they return in between, get the characters \<open>cs\<close>, from the buffer or from the devices at the time of the call, and that \<open>rest\<close> is then
  in the buffer. A call may find nothing. At every call the devices run dry, the reboot keys are not struck, and at most
  511 characters wait; the number of characters over time is not bounded.
\<close>

inductive typing :: "u8 list \<Rightarrow> machine \<times> console \<Rightarrow> u8 list \<Rightarrow> u8 list \<Rightarrow> bool" where
  typing_stop: "typing l (m, s) [] (pending s)"
| typing_idle: "incoming s xs ys \<Longrightarrow> avoids reboot_keys kbd_decode (map snd ys) (kbd_shift s) \<Longrightarrow>
    pending s @ arrived xs ys (kbd_shift s) = [] \<Longrightarrow> cons_getc (m, s) = Some (0, h) \<Longrightarrow> typing l h cs rest \<Longrightarrow>
    typing l (m, s) cs rest"
| typing_key: "incoming s xs ys \<Longrightarrow> avoids reboot_keys kbd_decode (map snd ys) (kbd_shift s) \<Longrightarrow>
    pending s @ arrived xs ys (kbd_shift s) = c # q \<Longrightarrow> length (c # q) \<le> 511 \<Longrightarrow> c \<noteq> 0 \<Longrightarrow>
    cons_getc (m, s) = Some (uint c, h) \<Longrightarrow> typing (edit_step l c) (after_echo l c h) cs rest \<Longrightarrow>
    typing l (m, s) (c # cs) rest"

lemma pending_cong:
  "cons_buf s' = cons_buf s \<Longrightarrow> cons_rpos s' = cons_rpos s \<Longrightarrow> cons_wpos s' = cons_wpos s \<Longrightarrow> pending s' = pending s \<and> cons_ok s' = cons_ok s"
  by (simp add: pending_def cons_ok_def)

lemma input_frame_crt:
  assumes "input_frame s s'"
  shows "crt_ok s' = crt_ok s" "displays s' p = displays s p"
  using assms
  by (cases s, cases s'; simp add: input_frame_def crt_ok_def displays_def window_def cell_def vread16_def)+

text \<open>A console that shows what has been printed and has the characters \<open>cs\<close> to come.\<close>

definition shown :: "machine \<Rightarrow> paper \<Rightarrow> machine \<times> console \<Rightarrow> int list \<Rightarrow> bool" where
  "shown m p = (\<lambda>(m', s) out. m' = m \<and> cons_ok s \<and> crt_ok s \<and> displays s (on_paper out p))"

definition line_input :: "machine \<Rightarrow> paper \<Rightarrow> u8 list \<Rightarrow> machine \<times> console \<Rightarrow> u8 list \<Rightarrow> u8 list \<Rightarrow> int list \<Rightarrow> bool" where
  "line_input m p rest h l cs out \<longleftrightarrow> shown m p h out \<and> typing l h cs rest"

lemma shown_getc:
  assumes "shown m p (m, s) out" "incoming s xs ys" "avoids reboot_keys kbd_decode (map snd ys) (kbd_shift s)"
    "length (pending s @ arrived xs ys (kbd_shift s)) \<le> 511" "cons_getc (m, s) = Some (c, h)"
  shows "shown m p h out"
proof -
  have s: "cons_ok s" "crt_ok s" "displays s (on_paper out p)" using assms(1) by (simp_all add: shown_def)
  obtain r s' where s': "cons_getc (m, s) = Some (r, m, s')" "cons_ok s'" "input_frame s s'"
    using cons_getc_ok [OF s(1) assms(2, 3), of m] assms(4) by auto
  then show ?thesis using s assms(5) input_frame_crt [OF s'(3)] by (simp add: shown_def)
qed

lemma shown_put:
  assumes "shown m p h out"
  shows "shown m p (cputchar k h) (out @ [k])"
proof -
  obtain s where h: "h = (m, s)" and s: "cons_ok s" "crt_ok s" "displays s (on_paper out p)" using assms by (cases h) (auto simp: shown_def)
  obtain s' where s': "cons_putc (word_of_int k) (m, s) = (m, s')" "crt_ok s'" "displays s' (paper_putc (word_of_int k) (on_paper out p))"
      "crt_steady s s'"
    using cons_putc_ok [OF s(2, 3), of "word_of_int k" m] by blast
  have "on_paper (out @ [k]) p = paper_putc (word_of_int k) (on_paper out p)" by (simp add: on_paper_def)
  then show ?thesis using s s' pending_cong [of s' s] crt_steady_sel [OF s'(4)]
    by (simp add: h shown_def cputchar_def)
qed

lemma shown_echo: "shown m p h out \<Longrightarrow> shown m p (after_echo l c h) (out @ echoed l [c])"
  by (simp add: after_echo_def shown_put)

lemma typing_get:
  assumes "typing l h (c # cs) rest" "shown m p h out"
  shows "\<exists>h'. getchar h = Some (uint c, h') \<and> shown m p h' out \<and> typing (edit_step l c) (after_echo l c h') cs rest"
  using assms
proof (induction l h "c # cs" rest rule: typing.induct)
  case (typing_idle s xs ys m' h l rest)
  then have [simp]: "m' = m" by (simp add: shown_def)
  have "shown m p h out" using shown_getc [of m p s out xs ys 0 h] typing_idle by simp
  moreover have "getchar (m, s) = getchar h" using typing_idle.hyps(4) by (simp add: getchar.simps [of "(m, s)"])
  ultimately show ?case using typing_idle.hyps(6) by simp
next
  case (typing_key s xs ys q m' h l rest)
  then have [simp]: "m' = m" by (simp add: shown_def)
  have "shown m p h out" using shown_getc [of m p s out xs ys "uint c" h] typing_key by simp
  moreover have "uint c \<noteq> 0" using typing_key.hyps(5) by (simp add: word_uint_eq_iff)
  then have "getchar (m, s) = Some (uint c, h)" using typing_key.hyps(6) by (simp add: getchar.simps [of "(m, s)"])
  ultimately show ?case using typing_key.hyps(7) by simp
qed

lemma typing_rest: "typing l h [] rest \<Longrightarrow> shown m p h out \<Longrightarrow> pending (snd h) = rest"
proof (induction l h "[] :: u8 list" rest rule: typing.induct)
  case (typing_idle s xs ys m' h l rest)
  then have [simp]: "m' = m" by (simp add: shown_def)
  obtain s' where "cons_getc (m, s) = Some (0, m, s')" "pending s' = []"
    using cons_getc_ok [of s xs ys m] typing_idle.hyps(1-3) typing_idle.prems by (auto simp: shown_def)
  moreover have "shown m p h out" using shown_getc [of m p s out xs ys 0 h] typing_idle by simp
  ultimately show ?case using typing_idle.hyps(3, 4, 6) by auto
qed simp

interpretation typist: char_source "line_input m p rest" for m p rest
proof unfold_locales
  fix h l c cs out
  assume "line_input m p rest h l (c # cs) out"
  then obtain h' where "getchar h = Some (uint c, h')" "shown m p h' out" "typing (edit_step l c) (after_echo l c h') cs rest"
    using typing_get unfolding line_input_def by blast
  then show "\<exists>h'. getchar h = Some (uint c, h') \<and> line_input m p rest (after_echo l c h') (edit_step l c) cs (out @ echoed l [c])"
    unfolding line_input_def using shown_echo by blast
qed

section \<open>Properties\<close>

text \<open>
  C25: \<^verbatim>\<open>readline\<close> returns the line that the user types, however long, up to the first line end, from the buffer and the devices:
  printable characters are added while the line has fewer than 1023, so that it and a final zero fit in the buffer of 1024 bytes,
  and dropped afterwards; a backspace takes one away; other control characters do nothing. The buffer holds the line and a zero after it, and
  no store is outside of it. The prompt, the characters accepted and the line end appear on the console, and what has arrived
  after the line end is still in the input buffer. It is assumed that at each poll the devices run dry with at most 511 characters
  waiting, and that the reboot keys are not struck.
\<close>

theorem readline_correct:
  assumes "cons_ok s" "crt_ok s" "displays s p" "length lbuf = 1024"
    and "case prompt of None \<Rightarrow> out = [] | Some q \<Rightarrow> printed (lit_mem_s q) 0 [16] = Some out"
    and "issue_prompt prompt (m, s) = Some h" "typing [] h (cs @ [e]) rest" "e \<in> {10, 13}" "set cs \<inter> {10, 13} = {}"
  shows "\<exists>lbuf' s'. readline prompt lbuf (m, s) = Some (True, lbuf', m, s') \<and> length lbuf' = 1024
    \<and> length (edited [] cs) < 1024 \<and> take (length (edited [] cs)) lbuf' = edited [] cs \<and> lbuf' ! length (edited [] cs) = 0
    \<and> pending s' = rest \<and> displays s' (on_paper (out @ echoed [] cs @ [uint e]) p)"
proof -
  have "shown m p h out"
  proof (cases prompt)
    case None
    then show ?thesis using assms by (auto simp: issue_prompt_def shown_def on_paper_def)
  next
    case (Some q)
    then obtain n s1 where s1: "vcprintf (lit_mem_s q) 0 [16] (m, s) = Some (n, m, s1)" "crt_ok s1"
        "displays s1 (on_paper out p)" "crt_steady s s1"
      using vcprintf_ok [OF assms(2, 3), of "lit_mem_s q" 0 "[16]" out m] assms(5) by auto
    then show ?thesis using Some assms(1, 6) pending_cong [of s1 s] crt_steady_sel [OF s1(4)]
      by (auto simp: issue_prompt_def shown_def)
  qed
  then have "line_input m p rest h [] (cs @ [e]) out" using assms(7) by (simp add: line_input_def)
  then obtain lbuf' h' where r: "readline_loop lbuf 0 h = Some (True, lbuf', h')" "length lbuf' = 1024"
      "take (length (edited [] cs)) lbuf' = edited [] cs" "lbuf' ! length (edited [] cs) = 0"
      "line_input m p rest h' (edited [] cs) [] (out @ echoed [] cs @ [uint e])"
    using typist.readline_loop_ok [of m p rest h 0 lbuf cs e out] assms(4, 8, 9) by auto
  obtain s' where "h' = (m, s')" "pending s' = rest" "displays s' (on_paper (out @ echoed [] cs @ [uint e]) p)"
    using r(5) typing_rest [of _ h' rest m p] by (cases h') (auto simp: line_input_def shown_def)
  then show ?thesis using assms(6) r edited_length [of "[]" cs] by (auto simp: readline_def)
qed

text \<open>
  A user who types one character on the serial line for each poll, with output devices that are always ready: \<open>line_script\<close> is what the
  devices answer.
\<close>

fun line_script :: "u8 list \<Rightarrow> u8 list \<Rightarrow> u8 list" where
  "line_script l [] = []"
| "line_script l (c # cs) = [1, c, 0, 0] @ (if echoes l c then [0x80, 0x20] else []) @ line_script (edit_step l c) cs"

lemma putc_ready:
  assumes "crt_ok s" "displays s p" "c \<noteq> 8" "upcoming s [0x80, 0x20]" "cons_putc c (m, s) = (m, s')"
  shows "nreads s' = nreads s + 2"
proof -
  have a: "answers s (nreads s) = 0x80" "answers s (nreads s + 1) = 0x20" using assms(4) by (auto simp: upcoming_def All_less_Suc2)
  define s1 where "s1 = lpt_putc c s"
  define s2 where "s2 = cga_putc c s1"
  have e1: "emitted {LPTPORT, LPTPORT + 2} printer (echo c) 192003 s s1" unfolding s1_def by (rule lpt_putc_emitted)
  have n1: "nreads s1 = nreads s + 1"
    using assms(3) a(1) by (simp add: s1_def lpt_putc_def lpt_putc_sub_def wait_ready.simps [of _ _ _ s] inb_def outb_def Let_def)
  have n2: "nreads s2 = nreads s1" "answers s2 = answers s1"
    using emitted_displays [OF e1 assms(1, 2)] cga_putc_displays [of s1 p c] crt_steady_sel(1) [OF cga_putc_steady [of s1 c]]
    by (simp_all add: s2_def)
  have "answers s1 = answers s" using e1 by (simp add: emitted_def io_only_sel)
  then have "nreads (serial_putc c s2) = nreads s2 + 1"
    using assms(3) a(2) n1 n2 by (simp add: serial_putc_def serial_putc_sub_def wait_ready.simps [of _ _ _ s2] inb_def outb_def Let_def)
  moreover have "s' = serial_putc c s2"
    using assms(5) by (simp add: cons_putc_def s1_def s2_def Let_def local_irq_save_def local_irq_restore_def)
  ultimately show ?thesis using n1 n2 by simp
qed

lemma typing_script:
  assumes "shown m p (m, s) out" "serial_exists s" "pending s = []" "upcoming s (line_script l cs)" "\<forall>c\<in>set cs. c \<notin> {0, 8, 127}"
  shows "typing l (m, s) cs []"
  using assms
proof (induction cs arbitrary: l s out)
  case Nil
  then show ?case using typing_stop [of l m s] by simp
next
  case (Cons c cs)
  have c: "c \<noteq> 0" "c \<noteq> 127" "c \<noteq> 8" using Cons.prems(5) by auto
  have s: "cons_ok s" using Cons.prems(1) by (simp add: shown_def)
  let ?e = "if echoes l c then [0x80, 0x20 :: u8] else []"
  have four: "length [1, c, 0, 0] = 4" by simp
  have up: "upcoming s [1, c, 0, 0]" "upcoming (s\<lparr>nreads := nreads s + 4\<rparr>) ?e"
      "upcoming (s\<lparr>nreads := nreads s + 4 + length ?e\<rparr>) (line_script (edit_step l c) cs)"
    using Cons.prems(4) unfolding line_script.simps upcoming_append four by simp_all
  have inc: "incoming s [(1, c)] []"
    unfolding incoming_def using up(1) Cons.prems(2) by (intro exI [of _ 0]) (simp add: poll_ok_def)
  have arr: "arrived [(1, c)] [] sh = [c]" for sh using c unfolding arrived_def decoded_serial by simp
  obtain s1 where s1: "cons_getc (m, s) = Some (uint c, m, s1)" "pending s1 = []" "input_frame s s1" "nreads s1 = nreads s + 4"
  proof -
    have av: "avoids reboot_keys kbd_decode (map snd []) (kbd_shift s)" by simp
    have len: "length ([] :: u8 list) + length [c] \<le> 511" "2 * length [(1 :: u8, c)] + 1 + (2 * length ([] :: (u8 \<times> u8) list) + 1) = 4" by simp_all
    from cons_getc_ok [OF s inc av, of m, unfolded arr Cons.prems(3), OF len(1)] Cons.prems(2) len(2) show ?thesis
      using that by (auto simp only: append_Nil list.case list.sel if_True add.assoc)
  qed
  have sh1: "shown m p (m, s1) out" using shown_getc [OF Cons.prems(1) inc _ _ s1(1)] Cons.prems(3) by (simp add: arr)
  have ans: "answers s1 = answers s" "serial_exists s1 = serial_exists s" using input_frame_sel [OF s1(3)] by simp_all
  obtain s2 where s2: "after_echo l c (m, s1) = (m, s2)" "answers s2 = answers s" "serial_exists s2 = serial_exists s" "pending s2 = []"
      "nreads s2 = nreads s1 + length ?e"
  proof (cases "echoes l c")
    case True
    have crt: "crt_ok s1" "displays s1 (on_paper out p)" using sh1 by (simp_all add: shown_def)
    obtain s2 where s2: "cons_putc c' (m, s1) = (m, s2)" "crt_steady s1 s2" if "c' = word_of_int (uint c)" for c'
      using cons_putc_ok [OF crt, of "word_of_int (uint c)" m] by blast
    have w: "word_of_int (uint c) \<noteq> (8 :: u32)"
    proof
      assume "word_of_int (uint c) = (8 :: u32)"
      then have "uint (word_of_int (uint c) :: u32) = uint (8 :: u32)" by simp
      moreover have "uint c < 2 ^ 8" using unsigned_less [of c, where 'a = int] by simp
      ultimately have "uint c = 8" by (simp add: unsigned_ucast_eq take_bit_int_eq_self)
      then show False using c(3) by (simp add: word_uint_eq_iff)
    qed
    have "upcoming s1 [0x80, 0x20]" using up(2) True s1(4) ans(1) by (simp add: upcoming_def)
    then have "nreads s2 = nreads s1 + 2" using putc_ready [OF crt w _ s2(1) [OF refl]] by simp
    then show ?thesis using that [of s2] s2 [OF refl] ans True s1(2) pending_cong [of s2 s1] crt_steady_sel [OF s2(2) [OF refl]]
      by (simp add: after_echo_def cputchar_def)
  next
    case False
    then show ?thesis using that [of s1] ans s1(2) by (simp add: after_echo_def)
  qed
  have "upcoming (s\<lparr>nreads := nreads s2\<rparr>) (line_script (edit_step l c) cs)"
    using up(3) s1(4) s2(5) by simp
  then have "upcoming s2 (line_script (edit_step l c) cs)" using s2(2) by (simp add: upcoming_def)
  moreover have "shown m p (m, s2) (out @ echoed l [c])" using shown_echo [OF sh1, of l c] s2(1) by simp
  ultimately have "typing (edit_step l c) (m, s2) cs []" using Cons.IH [of s2 _ "edit_step l c"] s2(3, 4) Cons.prems(2, 5) by auto
  then show ?case using typing_key [OF inc _ _ _ c(1) s1(1), of "[]" l cs "[]"] s2(1) Cons.prems(3) by (simp add: arr)
qed

lemma edited_letters: "k \<le> 1023 \<Longrightarrow> edited (replicate k 97) (replicate n 97) = replicate (min 1023 (k + n)) 97"
proof (induction n arbitrary: k)
  case (Suc n)
  show ?case
  proof (cases "k < 1023")
    case True
    then have "edit_step (replicate k 97) 97 = replicate (Suc k) 97" by (simp add: edit_step_def replicate_append_same)
    then show ?thesis using Suc.IH [of "Suc k"] True by simp
  next
    case False
    then show ?thesis using Suc by (simp add: edit_step_def)
  qed
qed (simp add: min_def)

text \<open>The user types 1100 times the letter 'a' and the line end: the line has 1023 of them.\<close>

theorem readline_correct_witness:
  "\<forall>m. \<exists>lbuf s'. readline None (replicate 1024 0) (m, demo_console (\<lambda>n. line_script [] (replicate 1100 97 @ [13]) ! n)) = Some (True, lbuf, m, s')
     \<and> lbuf = replicate 1023 97 @ [0]"
proof
  fix m :: machine
  let ?cs = "replicate 1100 97 :: u8 list"
  define f where "f = (\<lambda>n. line_script [] (?cs @ [13]) ! n)"
  define s where "s = demo_console f"
  have s: "cons_ok s" "pending s = []" "serial_exists s" "upcoming s (line_script [] (?cs @ [13]))"
    by (simp_all add: s_def cons_ok_def pending_def upcoming_def f_def demo_console_def)
  have crt: "crt_ok s" "displays s demo_paper" unfolding s_def by (rule demo_crt, rule demo_displays)
  have "shown m demo_paper (m, s) []" using s(1) crt by (simp add: shown_def on_paper_def)
  from typing_script [OF this s(3, 2, 4)] have ty: "typing [] (m, s) (?cs @ [13]) []" by auto
  have e: "edited [] ?cs = replicate 1023 97" using edited_letters [of 0 1100] by simp
  from readline_correct [OF s(1) crt, where prompt = None and lbuf = "replicate 1024 0" and out = "[]" and m = m and h = "(m, s)", OF _ _ _ ty]
  obtain lbuf s' where r: "readline None (replicate 1024 0) (m, s) = Some (True, lbuf, m, s')"
      "length lbuf = 1024" "take (length (edited [] ?cs)) lbuf = edited [] ?cs" "lbuf ! length (edited [] ?cs) = 0"
    by (auto simp: issue_prompt_def)
  have n: "length (edited [] ?cs) = 1023" by (simp add: e)
  have "lbuf = take 1023 lbuf @ [lbuf ! 1023]" using take_Suc_conv_app_nth [of 1023 lbuf] r(2) by simp
  then have "lbuf = replicate 1023 97 @ [0]" using r(3, 4) unfolding n unfolding e by simp
  then show "\<exists>lbuf s'. readline None (replicate 1024 0) (m, demo_console (\<lambda>n. line_script [] (?cs @ [13]) ! n)) = Some (True, lbuf, m, s')
      \<and> lbuf = replicate 1023 97 @ [0]"
    using r(1) unfolding s_def f_def by blast
qed

text \<open>A second panic prints nothing.\<close>

lemma kpanic_again: "kpanic file line mm fmt ap (True, h) = Some (True, h)"
  by (simp add: kpanic_def)

lemma kpanic_sets: "kpanic file line mm fmt ap st = Some st' \<Longrightarrow> is_kernel_panic st'"
  by (cases st) (auto simp: kpanic_def is_kernel_panic_def bind_Some_iff split: if_splits)

end
