(* ===== verification/Trap.thy ===== *)
theory Trap
  imports Proc Vmm Screen Readline
begin

text \<open>
  Interrupts and the timer: \<^verbatim>\<open>arch/x86/generic/intr.c\<close> and \<^verbatim>\<open>arch/x86/generic/clock.c\<close>. The state of the whole
  kernel joins processes, address spaces and the console; processes and address spaces share the machine and the
  object pool. The entry points \<^verbatim>\<open>__vectors\<close> of \<^verbatim>\<open>vectors.S\<close>, which save the registers in a trap frame and
  call \<^verbatim>\<open>trap\<close>, are assembly and a parameter of \<^verbatim>\<open>idt_init\<close>. Messages before a panic are not modelled, since a
  panic has no result.
\<close>

section \<open>Definitions\<close>

record kernel =
  ksy :: ksys
  kvm :: vmm
  kdev :: console
  ticks :: u32
  check_mm_struct :: "nat option"
  cr2 :: u32
  idt :: "gatedesc list"

abbreviation (input) IRQ_OFFSET :: nat where "IRQ_OFFSET \<equiv> 32"
abbreviation (input) IRQ_TIMER :: nat where "IRQ_TIMER \<equiv> 0"
abbreviation (input) IRQ_KBD :: nat where "IRQ_KBD \<equiv> 1"
abbreviation (input) IRQ_COM1 :: nat where "IRQ_COM1 \<equiv> 4"
abbreviation (input) T_PGFLT :: nat where "T_PGFLT \<equiv> 14"
abbreviation (input) TICK_NUM :: u32 where "TICK_NUM \<equiv> 30"

subsection \<open>Interrupt controllers\<close>

definition pic_init :: "console \<Rightarrow> console" where
  "pic_init s =
     (let s = s\<lparr>did_init := True\<rparr>;
          s = outb 0x21 0xFF s;
          s = outb 0xA1 0xFF s;
          s = outb 0x20 0x11 s;
          s = outb 0x21 (of_nat IRQ_OFFSET) s;
          s = outb 0x21 (push_bit 2 1) s;
          s = outb 0x21 0x3 s;
          s = outb 0xA0 0x11 s;
          s = outb 0xA1 (of_nat (IRQ_OFFSET + 8)) s;
          s = outb 0xA1 2 s;
          s = outb 0xA1 0x3 s;
          s = outb 0x20 0x68 s;
          s = outb 0x20 0x0a s;
          s = outb 0xA0 0x68 s;
          s = outb 0xA0 0x0a s
      in if irq_mask s \<noteq> 0xFFFF then pic_setmask (irq_mask s) s else s)"

definition idt_init :: "(nat \<Rightarrow> u32) \<Rightarrow> kernel \<Rightarrow> kernel" where
  "idt_init vectors k = k\<lparr>idt := map (\<lambda>i. SETGATE False 8 (vectors i) 0) [0..<256]\<rparr>"

definition intr_init :: "(nat \<Rightarrow> u32) \<Rightarrow> kernel \<Rightarrow> kernel" where
  "intr_init vectors k = idt_init vectors (k\<lparr>kdev := pic_init (kdev k)\<rparr>)"

definition intr_enable :: "machine \<Rightarrow> machine" where
  "intr_enable m = m\<lparr>eflags := eflags m OR FL_IF\<rparr>"

definition intr_disable :: "machine \<Rightarrow> machine" where
  "intr_disable m = m\<lparr>eflags := eflags m AND NOT FL_IF\<rparr>"

definition intr_mask :: "u32 \<Rightarrow> console \<Rightarrow> console" where
  "intr_mask irq s = pic_mask irq s"

definition intr_umask :: "u32 \<Rightarrow> console \<Rightarrow> console" where
  "intr_umask irq s = pic_umask irq s"

subsection \<open>Messages\<close>

definition on_console :: "(machine \<times> console \<Rightarrow> ('a \<times> machine \<times> console) option) \<Rightarrow> kernel \<Rightarrow> ('a \<times> kernel) option" where
  "on_console f k = do {
     (r, m, s) \<leftarrow> f (mach (ksy k), kdev k);
     Some (r, k\<lparr>ksy := (ksy k)\<lparr>mach := m\<rparr>, kdev := s\<rparr>)
   }"

definition say :: "string \<Rightarrow> va_list \<Rightarrow> kernel \<Rightarrow> kernel option" where
  "say fmt ap k = map_option snd (on_console (cprintf (fmt @ [CHR 0x0A]) ap) k)"

text \<open>\<^verbatim>\<open>cprintf\<close> with a literal string argument, which is at address 64.\<close>

definition say_with :: "string \<Rightarrow> string \<Rightarrow> va_list \<Rightarrow> kernel \<Rightarrow> kernel option" where
  "say_with fmt arg ap k = map_option snd (on_console (vcprintf (lit_mem2 fmt arg) 0 ap) k)"

definition excnames :: "string list" where
  "excnames = [''Divide error'', ''Debug'', ''Non-Maskable Interrupt'', ''Breakpoint'', ''Overflow'', ''BOUND Range Exceeded'',
     ''Invalid Opcode'', ''Device Not Available'', ''Double Fault'', ''Coprocessor Segment Overrun'', ''Invalid TSS'',
     ''Segment Not Present'', ''Stack Fault'', ''General Protection'', ''Page Fault'', ''(unknown trap)'',
     ''x87 FPU Floating-Point Error'', ''Alignment Check'', ''Machine-Check'', ''SIMD Floating-Point Exception'']"

text \<open>The comparison with the number of names is unsigned, as \<^verbatim>\<open>sizeof\<close> is.\<close>

definition trapname :: "u32 \<Rightarrow> string" where
  "trapname trapno =
     (if unat trapno < length excnames then excnames ! unat trapno
      else if 32 \<le> sint trapno \<and> sint trapno < 32 + 16 then ''Hardware Interrupt''
      else ''(unknown trap)'')"

definition trap_in_kernel :: "trapframe \<Rightarrow> bool" where
  "trap_in_kernel tf \<longleftrightarrow> tf_cs tf = KERNEL_CS"

definition IA32flags :: "string option list" where
  "IA32flags = [Some ''CF'', None, Some ''PF'', None, Some ''AF'', None, Some ''ZF'', Some ''SF'',
     Some ''TF'', Some ''IF'', Some ''DF'', Some ''OF'', None, None, Some ''NT'', None,
     Some ''RF'', Some ''VM'', Some ''AC'', Some ''VIF'', Some ''VIP'', Some ''ID'', None, None]"

definition print_regs :: "pushregs \<Rightarrow> kernel \<Rightarrow> kernel option" where
  "print_regs r k = do {
     k \<leftarrow> say ''  edi  0x%08x'' [reg_edi r] k;
     k \<leftarrow> say ''  esi  0x%08x'' [reg_esi r] k;
     k \<leftarrow> say ''  ebp  0x%08x'' [reg_ebp r] k;
     k \<leftarrow> say ''  oesp 0x%08x'' [reg_oesp r] k;
     k \<leftarrow> say ''  ebx  0x%08x'' [reg_ebx r] k;
     k \<leftarrow> say ''  edx  0x%08x'' [reg_edx r] k;
     k \<leftarrow> say ''  ecx  0x%08x'' [reg_ecx r] k;
     say ''  eax  0x%08x'' [reg_eax r] k
   }"

fun print_flags :: "string option list \<Rightarrow> nat \<Rightarrow> u32 \<Rightarrow> kernel \<Rightarrow> kernel option" where
  "print_flags [] i fl k = Some k"
| "print_flags (f # fs) i fl k = do {
     k \<leftarrow> (case f of
         Some name \<Rightarrow> if fl AND push_bit i 1 \<noteq> 0 then say_with ''%s,'' name [64] k else Some k
       | None \<Rightarrow> Some k);
     print_flags fs (i + 1) fl k
   }"

definition print_trapframe :: "u32 \<Rightarrow> kernel \<Rightarrow> kernel option" where
  "print_trapframe tfp k = do {
     let tf = tfs (ksy k) tfp;
     k \<leftarrow> say ''trapframe at %p'' [tfp] k;
     k \<leftarrow> print_regs (tf_regs tf) k;
     k \<leftarrow> say ''  es   0x----%04x'' [ucast (tf_es tf)] k;
     k \<leftarrow> say ''  ds   0x----%04x'' [ucast (tf_ds tf)] k;
     k \<leftarrow> say_with (''  trap 0x%08x %s'' @ [CHR 0x0A]) (trapname (tf_trapno tf)) [tf_trapno tf, 64] k;
     k \<leftarrow> say ''  err  0x%08x'' [tf_err tf] k;
     k \<leftarrow> say ''  eip  0x%08x'' [tf_eip tf] k;
     k \<leftarrow> say ''  cs   0x----%04x'' [ucast (tf_cs tf)] k;
     k \<leftarrow> say_with ''  flag 0x%08x '' '''' [tf_eflags tf] k;
     k \<leftarrow> print_flags IA32flags 0 (tf_eflags tf) k;
     k \<leftarrow> say ''IOPL=%d'' [drop_bit 12 (tf_eflags tf AND 0x3000)] k;
     if trap_in_kernel tf then Some k
     else do {
       k \<leftarrow> say ''  esp  0x%08x'' [tf_esp tf] k;
       say ''  ss   0x----%04x'' [ucast (tf_ss tf)] k
     }
   }"

definition print_pgfault :: "trapframe \<Rightarrow> kernel \<Rightarrow> kernel option" where
  "print_pgfault tf k =
     say_with (''page fault at 0x%08x: %c/%c [%s].'' @ [CHR 0x0A])
       (if tf_err tf AND 1 \<noteq> 0 then ''protection fault'' else ''no page found'')
       [cr2 k, if tf_err tf AND 4 \<noteq> 0 then 85 else 75, if tf_err tf AND 2 \<noteq> 0 then 87 else 82, 64] k"

subsection \<open>Dispatch\<close>

text \<open>Address spaces with the memory of the machine, and back.\<close>

definition vm_of :: "kernel \<Rightarrow> vmm" where
  "vm_of k = (kvm k)\<lparr>mach := mach (ksy k), objs := objs (ksy k), shmns := shmns (ksy k), shmems := shmems (ksy k)\<rparr>"

definition put_vm :: "vmm \<Rightarrow> kernel \<Rightarrow> kernel" where
  "put_vm v k = k\<lparr>kvm := v, ksy := (ksy k)\<lparr>mach := mach v, objs := objs v, shmns := shmns v, shmems := shmems v\<rparr>\<rparr>"

definition pgfault_handler :: "trapframe \<Rightarrow> kernel \<Rightarrow> (int \<times> kernel) option" where
  "pgfault_handler tf k = do {
     k \<leftarrow> print_pgfault tf k;
     if check_mm_struct k \<noteq> None then do {
       (ret, v) \<leftarrow> do_pgfault (check_mm_struct k) (tf_err tf) (cr2 k) (vm_of k);
       Some (ret, put_vm v k)
     }
     else None
   }"

definition intr_dispatch :: "u32 \<Rightarrow> kernel \<Rightarrow> kernel option" where
  "intr_dispatch tfp k =
     (let tf = tfs (ksy k) tfp; no = unat (tf_trapno tf) in
      if no = T_PGFLT then do {
        (ret, k) \<leftarrow> pgfault_handler tf k;
        if ret \<noteq> 0 then None else Some k
      }
      else if no = IRQ_OFFSET + IRQ_TIMER then do {
        let k = k\<lparr>ticks := ticks k + 1\<rparr>;
        if ticks k mod TICK_NUM = 0 then do {
          k \<leftarrow> say ''tick!'' [] k;
          c \<leftarrow> current (ksy k);
          Some (k\<lparr>ksy := upd_proc c (need_resched_update (\<lambda>_. True)) (ksy k)\<rparr>)
        }
        else Some k
      }
      else if no = IRQ_OFFSET + IRQ_COM1 then do {
        (c, k) \<leftarrow> on_console cons_getc k;
        let c = scast (word_of_int c :: u8);
        say ''serial [%03d] %c'' [c, c] k
      }
      else if no = IRQ_OFFSET + IRQ_KBD then do {
        (c, k) \<leftarrow> on_console cons_getc k;
        let c = scast (word_of_int c :: u8);
        say ''kbd [%03d] %c'' [c, c] k
      }
      else if tf_cs tf AND 3 = 0 then None
      else Some k)"

definition trap :: "u32 \<Rightarrow> kernel \<Rightarrow> kernel option" where
  "trap tfp k =
     (case current (ksy k) of
        None \<Rightarrow> intr_dispatch tfp k
      | Some c \<Rightarrow> do {
          let otf = ptf (procs (ksy k) c);
          let k = k\<lparr>ksy := upd_proc c (ptf_update (\<lambda>_. tfp)) (ksy k)\<rparr>;
          let in_kernel = trap_in_kernel (tfs (ksy k) tfp);
          k \<leftarrow> intr_dispatch tfp k;
          c \<leftarrow> current (ksy k);
          let k = k\<lparr>ksy := upd_proc c (ptf_update (\<lambda>_. otf)) (ksy k)\<rparr>;
          if \<not> in_kernel \<and> need_resched (procs (ksy k) c) then do {
            sy \<leftarrow> schedule (ksy k);
            Some (k\<lparr>ksy := sy\<rparr>)
          }
          else Some k
        })"

subsection \<open>Timer\<close>

definition TIMER_DIV :: "nat \<Rightarrow> nat" where
  "TIMER_DIV x = (1193182 + x div 2) div x"

definition clock_init :: "kernel \<Rightarrow> kernel option" where
  "clock_init k = do {
     let s = outb (0x40 + 3) (0x00 OR 0x04 OR 0x30) (kdev k);
     let s = outb 0x40 (of_nat (TIMER_DIV 100 mod 256)) s;
     let s = outb 0x40 (of_nat (TIMER_DIV 100 div 256)) s;
     k \<leftarrow> say ''++ setup timer interrupts'' [] (k\<lparr>kdev := s, ticks := 0\<rparr>);
     Some (k\<lparr>kdev := intr_umask (of_nat IRQ_TIMER) (kdev k)\<rparr>)
   }"

end
