(* ===== verification/TrapSafe.thy ===== *)
theory TrapSafe
  imports Trap ProcTable
begin

text \<open>
  Interrupts: the two interrupt controllers, their masks, the table of gates, and preemption by the timer through the dispatcher, the console and
  the scheduler.
\<close>

section \<open>Interrupt controllers\<close>

text \<open>
  An 8259A controller, as its data sheet describes it. A byte with bit 4 at its command port starts the initialisation: it clears the mask
  register and makes the data port expect the vector offset, the cascade lines unless there is only one controller, and a mode
  byte if bit 0 was set. Other bytes at the command port with bit 3 select the special mask mode and the register that is read. When
  no initialisation is going on, a byte at the data port is the new mask.
\<close>

datatype pic_wait = Ready | Icw2 | Icw3 | Icw4

record pic =
  imr :: u8
  vector_base :: u8
  cascade :: u8
  mode_word :: u8
  expects :: pic_wait
  single :: bool
  level :: bool
  wants_mode :: bool
  special_mask :: bool
  reads_isr :: bool

definition pic_step :: "u16 \<Rightarrow> u16 \<times> u8 \<Rightarrow> pic \<Rightarrow> pic" where
  "pic_step base = (\<lambda>(q, v) p.
     if q = base then
       if bit v 4 then p\<lparr>imr := 0, mode_word := 0, expects := Icw2, single := bit v 1, level := bit v 3, wants_mode := bit v 0,
         special_mask := False, reads_isr := False\<rparr>
       else if bit v 3 then p\<lparr>special_mask := (if bit v 6 then bit v 5 else special_mask p), reads_isr := (if bit v 1 then bit v 0 else reads_isr p)\<rparr>
       else p
     else
       let next_word = (if wants_mode p then Icw4 else Ready) in
       case expects p of
         Ready \<Rightarrow> p\<lparr>imr := v\<rparr>
       | Icw2 \<Rightarrow> p\<lparr>vector_base := v AND 0xF8, expects := (if single p then next_word else Icw3)\<rparr>
       | Icw3 \<Rightarrow> p\<lparr>cascade := v, expects := next_word\<rparr>
       | Icw4 \<Rightarrow> p\<lparr>mode_word := v, expects := Ready\<rparr>)"

text \<open>The controller at a port after all that has been written to it, when it was in state \<open>p\<close> before.\<close>

definition pic_at :: "u16 \<Rightarrow> console \<Rightarrow> pic \<Rightarrow> pic" where
  "pic_at base s p = fold (pic_step base) (writes {base, base + 1} s) p"

text \<open>A controller in operation: edge triggered, cascaded, automatic end of interrupt (mode 3).\<close>

definition pic_running :: "u8 \<Rightarrow> u8 \<Rightarrow> u8 \<Rightarrow> pic" where
  "pic_running m v c = \<lparr>imr = m, vector_base = v, cascade = c, mode_word = 3, expects = Ready, single = False, level = False,
     wants_mode = True, special_mask = True, reads_isr = False\<rparr>"

text \<open>The master delivers interrupts from vector 32 and has the slave at line 2, the slave from vector 40; both have the masks recorded.\<close>

definition controllers_ok :: "console \<Rightarrow> bool" where
  "controllers_ok s \<longleftrightarrow> did_init s \<and> (\<forall>p. pic_at 0x20 s p = pic_running (ucast (irq_mask s)) 32 4)
     \<and> (\<forall>p. pic_at 0xA0 s p = pic_running (ucast (drop_bit 8 (irq_mask s))) 40 2)"

datatype irq_op = Mask_irq u32 | Umask_irq u32

definition run_irq :: "irq_op \<Rightarrow> console \<Rightarrow> console" where
  "run_irq x s = (case x of Mask_irq i \<Rightarrow> intr_mask i s | Umask_irq i \<Rightarrow> intr_umask i s)"

definition irq_line :: "irq_op \<Rightarrow> nat" where
  "irq_line x = (case x of Mask_irq i \<Rightarrow> unat i | Umask_irq i \<Rightarrow> unat i)"

definition masked :: "console \<Rightarrow> nat set" where
  "masked s = {i. i < 16 \<and> bit (irq_mask s) i}"

definition set_irq :: "irq_op \<Rightarrow> nat set \<Rightarrow> nat set" where
  "set_irq x A = (case x of Mask_irq i \<Rightarrow> insert (unat i) A | Umask_irq i \<Rightarrow> A - {unat i})"

lemma pic_running_mask: "pic_step b (b + 1, v) (pic_running m x c) = pic_running v x c"
  by (simp add: pic_step_def pic_running_def)

lemma pic_setmask_ok:
  assumes "controllers_ok s"
  shows "controllers_ok (pic_setmask w s) \<and> irq_mask (pic_setmask w s) = w"
proof -
  have d: "did_init s" using assms by (simp add: controllers_ok_def)
  have w: "writes Q (s\<lparr>irq_mask := w\<rparr>) = writes Q s" for Q by (simp add: writes_def)
  have "did_init (outb q v s) = did_init s" "irq_mask (outb q v s) = irq_mask s" for q v s by (simp_all add: outb_def)
  then show ?thesis
    using assms d pic_running_mask [of 32] pic_running_mask [of 160]
    by (simp add: pic_setmask_def controllers_ok_def pic_at_def writes_outb w Let_def)
qed

lemma bit_irq: "unat i < 16 \<Longrightarrow> bit (ucast (irq_bit i) :: u16) j \<longleftrightarrow> j = unat i"
  by (auto simp: irq_bit_def bit_simps)

lemma run_irq_ok:
  assumes "controllers_ok s" "irq_line x < 16"
  shows "controllers_ok (run_irq x s) \<and> masked (run_irq x s) = set_irq x (masked s)"
  using pic_setmask_ok [OF assms(1)] assms(2)
  by (cases x) (auto simp: run_irq_def intr_mask_def intr_umask_def pic_mask_def pic_umask_def masked_def set_irq_def irq_line_def bit_irq
      bit_and_iff bit_or_iff bit_not_iff)

text \<open>The writes of \<^verbatim>\<open>pic_init\<close> bring each controller into operation from whatever state it is in.\<close>

lemma pic_init_writes:
  assumes "irq_mask s \<noteq> 0xFFFF"
  shows "writes {0x20, 0x21} (pic_init s) = writes {0x20, 0x21} s @
      [(0x21, 0xFF), (0x20, 0x11), (0x21, 32), (0x21, 4), (0x21, 3), (0x20, 0x68), (0x20, 0x0A), (0x21, ucast (irq_mask s))]"
    and "writes {0xA0, 0xA1} (pic_init s) = writes {0xA0, 0xA1} s @
      [(0xA1, 0xFF), (0xA0, 0x11), (0xA1, 40), (0xA1, 2), (0xA1, 3), (0xA0, 0x68), (0xA0, 0x0A), (0xA1, ucast (drop_bit 8 (irq_mask s)))]"
    and "did_init (pic_init s)" and "irq_mask (pic_init s) = irq_mask s"
proof -
  have o: "irq_mask (outb p v s) = irq_mask s" "did_init (outb p v s) = did_init s" for p v s by (simp_all add: outb_def)
  have w: "writes Q (s\<lparr>irq_mask := x\<rparr>) = writes Q s" "writes Q (s\<lparr>did_init := b\<rparr>) = writes Q s" for Q x b and s :: console
    by (simp_all add: writes_def)
  show "writes {0x20, 0x21} (pic_init s) = writes {0x20, 0x21} s @
      [(0x21, 0xFF), (0x20, 0x11), (0x21, 32), (0x21, 4), (0x21, 3), (0x20, 0x68), (0x20, 0x0A), (0x21, ucast (irq_mask s))]"
    "writes {0xA0, 0xA1} (pic_init s) = writes {0xA0, 0xA1} s @
      [(0xA1, 0xFF), (0xA0, 0x11), (0xA1, 40), (0xA1, 2), (0xA1, 3), (0xA0, 0x68), (0xA0, 0x0A), (0xA1, ucast (drop_bit 8 (irq_mask s)))]"
    "did_init (pic_init s)" "irq_mask (pic_init s) = irq_mask s"
    using assms by (simp_all add: pic_init_def pic_setmask_def writes_outb o w Let_def)
qed

lemma pic_started:
  "fold (pic_step b) [(b + 1, 0xFF), (b, 0x11), (b + 1, v), (b + 1, c), (b + 1, 3), (b, 0x68), (b, 0x0A), (b + 1, m)] p = pic_running m (v AND 0xF8) c"
  by (cases p) (simp add: pic_step_def pic_running_def split: pic_wait.splits)

lemma pic_init_ok:
  assumes "irq_mask s \<noteq> 0xFFFF"
  shows "controllers_ok (pic_init s)"
  using pic_started [of 32 32 4] pic_started [of 160 40 2] pic_init_writes [OF assms]
  by (simp add: controllers_ok_def pic_at_def del: fold_simps)

lemma run_irqs_ok:
  "controllers_ok s \<Longrightarrow> \<forall>x\<in>set xs. irq_line x < 16 \<Longrightarrow>
   controllers_ok (fold run_irq xs s) \<and> masked (fold run_irq xs s) = fold set_irq xs (masked s)"
  by (induction xs arbitrary: s) (simp_all add: run_irq_ok)

section \<open>The timer interrupt\<close>

text \<open>Fields of a descriptor that the invariant does not look at.\<close>

lemma upd_proc_sel:
  "pid (procs (upd_proc c (need_resched_update f) st) q) = pid (procs st q)" "pid (procs (upd_proc c (ptf_update g) st) q) = pid (procs st q)"
  "kstack (procs (upd_proc c (need_resched_update f) st) q) = kstack (procs st q)" "kstack (procs (upd_proc c (ptf_update g) st) q) = kstack (procs st q)"
  "pmm (procs (upd_proc c (need_resched_update f) st) q) = pmm (procs st q)" "pmm (procs (upd_proc c (ptf_update g) st) q) = pmm (procs st q)"
  by (simp_all add: upd_proc_def)

lemma upd_proc_rest:
  "proc_list (upd_proc c f st) = proc_list st" "hash_list (upd_proc c f st) = hash_list st" "nr_process (upd_proc c f st) = nr_process st"
  "last_pid (upd_proc c f st) = last_pid st" "next_safe (upd_proc c f st) = next_safe st" "idleproc (upd_proc c f st) = idleproc st"
  "current (upd_proc c f st) = current st" "objs (upd_proc c f st) = objs st" "kflags (upd_proc c f st) = kflags st"
  "mach (upd_proc c f st) = mach st" "tfs (upd_proc c f st) = tfs st"
  by (simp_all add: upd_proc_def)

lemma procs_ok_resched: "procs_ok (upd_proc c (need_resched_update f) st) = procs_ok st"
  unfolding procs_ok_def table_ok_def threads_ok_def stacks_ok_def stack_page_def upd_proc_sel upd_proc_rest ..

text \<open>The state of the processes after a tick, and the message every 30th one prints.\<close>

definition tick_procs :: "u32 \<Rightarrow> nat \<Rightarrow> ksys \<Rightarrow> ksys" where
  "tick_procs t c st = (if t mod TICK_NUM = 0 then upd_proc c (need_resched_update (\<lambda>_. True)) st else st)"

definition tick_text :: "u32 \<Rightarrow> int list" where
  "tick_text t = (if t mod TICK_NUM = 0 then [116, 105, 99, 107, 33, 10] else [])"

lemma tick_printed: "printed (lit_mem (''tick!'' @ [CHR 0x0A])) 0 [] = Some [116, 105, 99, 107, 33, 10]"
proof -
  define m where "m = lit_mem (''tick!'' @ [CHR 0x0A])"
  have "m 0 = 116" "m 1 = 105" "m 2 = 99" "m 3 = 107" "m 4 = 33" "m 5 = 10" "m 6 = 0" by (simp_all add: m_def lit_mem_def)
  then have "printed m 0 [] = Some [116, 105, 99, 107, 33, 10]"
    by (simp add: printed_def vprintfmt.simps [of _ m 0] vprintfmt.simps [of _ m 1] vprintfmt.simps [of _ m 2]
        vprintfmt.simps [of _ m 3] vprintfmt.simps [of _ m 4] vprintfmt.simps [of _ m 5] vprintfmt.simps [of _ m 6])
  then show ?thesis by (simp only: m_def)
qed

lemma tick_dispatch:
  assumes "current (ksy k) = Some c" "tf_trapno (tfs (ksy k) tfp) = 32" "crt_ok (kdev k)" "displays (kdev k) p"
  shows "\<exists>s'. intr_dispatch tfp k = Some (k\<lparr>ticks := ticks k + 1, ksy := tick_procs (ticks k + 1) c (ksy k), kdev := s'\<rparr>)
    \<and> crt_ok s' \<and> displays s' (on_paper (tick_text (ticks k + 1)) p)"
proof (cases "(ticks k + 1) mod TICK_NUM = 0")
  case True
  obtain s' where s': "vcprintf (lit_mem (''tick!'' @ [CHR 0x0A])) 0 [] (mach (ksy k), kdev k) = Some (6, mach (ksy k), s')"
      "crt_ok s'" "displays s' (on_paper [116, 105, 99, 107, 33, 10] p)"
    using vcprintf_ok [OF assms(3, 4) tick_printed, of "mach (ksy k)"] by auto
  have "say ''tick!'' [] (k\<lparr>ticks := ticks k + 1\<rparr>) = Some (k\<lparr>ticks := ticks k + 1, kdev := s'\<rparr>)"
    using s'(1) by (simp add: say_def on_console_def cprintf_def)
  then have "intr_dispatch tfp k = Some (k\<lparr>ticks := ticks k + 1, kdev := s', ksy := tick_procs (ticks k + 1) c (ksy k)\<rparr>)"
    using assms(1, 2) True by (simp add: intr_dispatch_def tick_procs_def Let_def)
  then show ?thesis using True s'(2, 3) by (intro exI [of _ s']) (cases k, simp add: tick_text_def)
next
  case False
  then show ?thesis using assms
    by (intro exI [of _ "kdev k"]) (cases k, simp add: intr_dispatch_def tick_procs_def tick_text_def on_paper_def Let_def)
qed

lemma ptf_restored: "upd_proc c (ptf_update (\<lambda>_. ptf (procs st c))) (tick_procs t c (upd_proc c (ptf_update (\<lambda>_. x)) st)) = tick_procs t c st"
  by (simp add: tick_procs_def upd_proc_def)

lemma trap_tick:
  assumes "current (ksy k) = Some c" "tf_trapno (tfs (ksy k) tfp) = 32" "crt_ok (kdev k)" "displays (kdev k) p"
  defines "sy \<equiv> tick_procs (ticks k + 1) c (ksy k)"
  shows "\<exists>s'. trap tfp k = (if \<not> trap_in_kernel (tfs (ksy k) tfp) \<and> need_resched (procs sy c)
      then map_option (\<lambda>sy'. k\<lparr>ticks := ticks k + 1, ksy := sy', kdev := s'\<rparr>) (schedule sy)
      else Some (k\<lparr>ticks := ticks k + 1, ksy := sy, kdev := s'\<rparr>))
    \<and> crt_ok s' \<and> displays s' (on_paper (tick_text (ticks k + 1)) p)"
proof -
  define k1 where "k1 = k\<lparr>ksy := upd_proc c (ptf_update (\<lambda>_. tfp)) (ksy k)\<rparr>"
  have k1: "current (ksy k1) = Some c" "tf_trapno (tfs (ksy k1) tfp) = 32" "crt_ok (kdev k1)" "displays (kdev k1) p"
    using assms by (simp_all add: k1_def upd_proc_rest)
  have cur: "current (tick_procs t c st) = current st" for t st by (simp add: tick_procs_def upd_proc_rest)
  obtain s' where s': "intr_dispatch tfp k1 = Some (k1\<lparr>ticks := ticks k1 + 1, ksy := tick_procs (ticks k1 + 1) c (ksy k1), kdev := s'\<rparr>)"
      "crt_ok s'" "displays s' (on_paper (tick_text (ticks k1 + 1)) p)"
    using tick_dispatch [OF k1] by blast
  define k2 where "k2 = k1\<lparr>ticks := ticks k1 + 1, ksy := tick_procs (ticks k1 + 1) c (ksy k1), kdev := s'\<rparr>"
  have sy: "upd_proc c (ptf_update (\<lambda>_. ptf (procs (ksy k) c))) (ksy k2) = sy"
    by (simp add: k1_def k2_def sy_def ptf_restored)
  have k2: "current (ksy k2) = Some c" "tfs (ksy k1) = tfs (ksy k)"
    using k1(1) by (simp_all add: k2_def cur) (simp add: k1_def upd_proc_rest)
  have eq: "k2\<lparr>ksy := x\<rparr> = k\<lparr>ticks := ticks k + 1, ksy := x, kdev := s'\<rparr>" for x by (cases k) (simp add: k2_def k1_def)
  have "trap tfp k = (if \<not> trap_in_kernel (tfs (ksy k) tfp) \<and> need_resched (procs sy c)
      then do { sy' \<leftarrow> schedule sy; Some (k2\<lparr>ksy := sy'\<rparr>) } else Some (k2\<lparr>ksy := sy\<rparr>))"
    unfolding trap_def assms(1) option.case Let_def k1_def [symmetric] s'(1) k2_def [symmetric] Option.bind_lunit k2 sy
    by (simp add: sy)
  then show ?thesis using s'(2, 3) by (auto simp: k1_def eq map_conv_bind_option comp_def intro!: exI [of _ s'])
qed


section \<open>Properties\<close>

text \<open>
  C24: preemption. A timer interrupt always returns, counts the tick and keeps the process table consistent. Every 30th one prints
  its message and asks for rescheduling. In the kernel nothing else changes; the interrupted thread continues with its
  trap frame as before. In user mode a thread that is due to be rescheduled gives up the processor to the first
  runnable thread after it in the circular list, or to the idle thread.
\<close>

theorem trap_timer_correct:
  assumes "procs_ok (ksy k)" "current (ksy k) = Some c" "tf_trapno (tfs (ksy k) tfp) = 32" "crt_ok (kdev k)" "displays (kdev k) p"
  shows "\<exists>k'. trap tfp k = Some k' \<and> ticks k' = ticks k + 1 \<and> procs_ok (ksy k') \<and> kvm k' = kvm k \<and> crt_ok (kdev k')
    \<and> displays (kdev k') (on_paper (if (ticks k + 1) mod 30 = 0 then [116, 105, 99, 107, 33, 10] else []) p)
    \<and> (let sy = (if (ticks k + 1) mod 30 = 0 then upd_proc c (need_resched_update (\<lambda>_. True)) (ksy k) else ksy k) in
       if trap_in_kernel (tfs (ksy k) tfp) \<or> \<not> need_resched (procs sy c) then ksy k' = sy
       else \<exists>n. resched c n sy (ksy k') \<and> next_in_turn sy c n)"
proof -
  define sy where "sy = tick_procs (ticks k + 1) c (ksy k)"
  have ok: "procs_ok sy" "current sy = Some c"
    using assms(1, 2) by (simp_all add: sy_def tick_procs_def procs_ok_resched upd_proc_rest)
  obtain s' where s': "trap tfp k = (if \<not> trap_in_kernel (tfs (ksy k) tfp) \<and> need_resched (procs sy c)
      then map_option (\<lambda>sy'. k\<lparr>ticks := ticks k + 1, ksy := sy', kdev := s'\<rparr>) (schedule sy)
      else Some (k\<lparr>ticks := ticks k + 1, ksy := sy, kdev := s'\<rparr>))"
      "crt_ok s'" "displays s' (on_paper (tick_text (ticks k + 1)) p)"
    using trap_tick [OF assms(2-5)] unfolding sy_def by blast
  obtain n st' where n: "sched_next sy = Some n" "schedule sy = Some st'" "resched c n sy st'" "procs_ok st'"
    using schedule_step [OF ok] by blast
  have "next_in_turn sy c n" using sched_next_turn [OF _ ok(2) n(1)] ok(1) by (simp add: procs_ok_def)
  then show ?thesis
    using s' n(2-4) ok unfolding tick_procs_def [symmetric] tick_text_def [symmetric] sy_def [symmetric] Let_def
    by (cases "\<not> trap_in_kernel (tfs (ksy k) tfp) \<and> need_resched (procs sy c)") auto
qed

lemma procs_ok_tfs: "procs_ok (st\<lparr>tfs := f\<rparr>) = procs_ok st"
  by (simp add: procs_ok_def table_ok_def threads_ok_def stacks_ok_def stack_page_def)

text \<open>The 30th tick arrives while thread 10 runs in user mode: thread 11 continues.\<close>

theorem trap_timer_correct_witness:
  "\<exists>k k'. current (ksy k) = Some 10 \<and> ticks k = 29 \<and> trap 0 k = Some k' \<and> ticks k' = 30 \<and> current (ksy k') = Some 11"
proof -
  obtain st where st: "procs_ok st" "proc_list st = [11]" "runnable st 11" "current st = Some 10" using demo_forked .
  define st1 where "st1 = st\<lparr>tfs := (tfs st)(0 := (tfs st 0)\<lparr>tf_trapno := 32, tf_cs := 0x1B\<rparr>)\<rparr>"
  define k :: kernel where "k = \<lparr>ksy = st1, kvm = undefined, kdev = demo_console (\<lambda>_. 0xA0), ticks = 29, check_mm_struct = None, cr2 = 0, idt = []\<rparr>"
  define sy where "sy = upd_proc 10 (need_resched_update (\<lambda>_. True)) st1"
  have k: "procs_ok (ksy k)" "current (ksy k) = Some 10" "tf_trapno (tfs (ksy k) 0) = 32" "crt_ok (kdev k)" "displays (kdev k) demo_paper"
    using st demo_crt demo_displays by (simp_all add: k_def st1_def procs_ok_tfs)
  have t: "ticks k = 29" "(29 + 1 :: u32) mod 30 = 0" "\<not> trap_in_kernel (tfs (ksy k) 0)" "need_resched (procs sy 10)"
    by (simp_all add: k_def st1_def trap_in_kernel_def sy_def upd_proc_def)
  have eq: "(if (ticks k + 1) mod 30 = 0 then upd_proc 10 (need_resched_update (\<lambda>_. True)) (ksy k) else ksy k) = sy"
    using t(1, 2) by (simp add: sy_def) (simp add: k_def)
  obtain k' n where k': "trap 0 k = Some k'" "ticks k' = 30" "resched 10 n sy (ksy k')"
      "next_in_turn sy 10 n"
    using trap_timer_correct [OF k] t unfolding Let_def eq by auto
  have "proc_list sy = [11]" using st(2) by (simp add: sy_def upd_proc_rest st1_def)
  moreover have "runnable sy 11" using st(3) by (simp add: runnable_def sy_def upd_proc_def st1_def)
  ultimately have "n = 11" using k'(4) by (auto simp: next_in_turn_def append_eq_Cons_conv Cons_eq_append_conv)
  then show ?thesis using k' k(2) t(1) by (intro exI [of _ k] exI [of _ k']) (simp add: resched_def)
qed

text \<open>
  C27: interrupts set up. After \<^verbatim>\<open>intr_init\<close> each of the 256 vectors has a present interrupt gate of the kernel that leads to its
  entry point and no user program can call. The two 8259A controllers, whatever state they were in, are initialised completely:
  cascaded at line 2, with the vectors from 32 and from 40, automatic end of interrupt and the special mask mode. Now and after any
  sequence of \<^verbatim>\<open>intr_mask\<close> and \<^verbatim>\<open>intr_umask\<close> of the 16 lines, their mask registers hold the masks that the kernel has
  recorded, and each call has changed its line only. The mask before must not be \<^verbatim>\<open>0xFFFF\<close>, which would not be loaded.
\<close>

theorem interrupts_set_up:
  assumes "irq_mask (kdev k) \<noteq> 0xFFFF" "\<forall>x\<in>set xs. irq_line x < 16"
  shows "length (idt (intr_init vectors k)) = 256
    \<and> (\<forall>i<256. let g = idt (intr_init vectors k) ! i in
         gate_offset g = vectors i \<and> gd_ss g = 8 \<and> gd_p g = 1 \<and> gd_dpl g = 0 \<and> gd_s g = 0 \<and> gd_type g = 0xE)
    \<and> controllers_ok (fold run_irq xs (kdev (intr_init vectors k)))
    \<and> masked (fold run_irq xs (kdev (intr_init vectors k))) = fold set_irq xs (masked (kdev k))"
proof -
  have off: "gate_offset (SETGATE False 8 v 0) = v" for v
    by (rule bit_word_eqI) (auto simp: gate_offset_def SETGATE_def mask_bits bit_simps)
  have dev: "kdev (intr_init vectors k) = pic_init (kdev k)" by (simp add: intr_init_def idt_init_def)
  have "masked (pic_init (kdev k)) = masked (kdev k)" using pic_init_writes(4) [OF assms(1)] by (simp add: masked_def)
  with run_irqs_ok [OF pic_init_ok [OF assms(1)] assms(2)] have
    "controllers_ok (fold run_irq xs (kdev (intr_init vectors k))) \<and> masked (fold run_irq xs (kdev (intr_init vectors k))) = fold set_irq xs (masked (kdev k))"
    unfolding dev by simp
  moreover have "idt (intr_init vectors k) = map (\<lambda>i. SETGATE False 8 (vectors i) 0) [0..<256]"
    by (simp add: intr_init_def idt_init_def del: upt_rec_numeral)
  moreover have "gd_ss (SETGATE False 8 v 0) = 8" "gd_p (SETGATE False 8 v 0) = 1" "gd_dpl (SETGATE False 8 v 0) = 0"
    "gd_s (SETGATE False 8 v 0) = 0" "gd_type (SETGATE False 8 v 0) = 0xE" for v by (simp_all add: SETGATE_def)
  ultimately show ?thesis by (simp add: off Let_def del: upt_rec_numeral)
qed

text \<open>The masks after boot: only the line of the second controller is open; then the keyboard is opened.\<close>

theorem interrupts_set_up_witness:
  "\<exists>k. irq_mask (kdev k) = 0xFFFB \<and> masked (kdev k) = {..<16} - {2}
    \<and> masked (run_irq (Umask_irq 1) (kdev (intr_init (\<lambda>i. of_nat i) k))) = {..<16} - {1, 2}
    \<and> imr (pic_at 0x20 (run_irq (Umask_irq 1) (kdev (intr_init (\<lambda>i. of_nat i) k))) (pic_running 0 0 0)) = 0xF9"
proof -
  define k :: kernel where "k = \<lparr>ksy = undefined, kvm = undefined, kdev = demo_console (\<lambda>_. 0), ticks = 0, check_mm_struct = None, cr2 = 0, idt = []\<rparr>"
  define s where "s = run_irq (Umask_irq 1) (kdev (intr_init (\<lambda>i. of_nat i) k))"
  have k: "irq_mask (kdev k) = 0xFFFB" by (simp add: k_def demo_console_def)
  have "list_all (\<lambda>i. bit (0xFFFB :: u16) i \<longleftrightarrow> i \<noteq> 2) [0..<16]" by code_simp
  then have m: "masked (kdev k) = {..<16} - {2}" unfolding masked_def k by (auto simp: list_all_iff)
  have "irq_mask (kdev k) \<noteq> 0xFFFF" "\<forall>x\<in>set [Umask_irq 1]. irq_line x < 16" unfolding k by (simp_all add: irq_line_def)
  from interrupts_set_up [OF this, of "\<lambda>i. of_nat i"] have s: "controllers_ok s" "masked s = {..<16} - {1, 2}"
    by (auto simp: s_def m set_irq_def)
  have "irq_mask s = 0xFFF9"
    using k by (simp add: s_def run_irq_def intr_umask_def pic_umask_def irq_bit_def intr_init_def idt_init_def pic_setmask_def pic_init_def outb_def)
  then have "imr (pic_at 0x20 s (pic_running 0 0 0)) = 0xF9" using s(1) by (simp add: controllers_ok_def pic_running_def)
  then show ?thesis using k m s(2) unfolding s_def by blast
qed

end
