(* ===== verification/Spec2Isabelle.thy ===== *)
theory Spec2Isabelle
  imports Boot VmmFault VmmExit SlabSpec ProcTable Strings Libs Printfmt Keyboard TrapSafe
begin

text \<open>
  Verification of ucore-multi, a teaching kernel in C for i386 and ARM. The development models the
  machine-independent kernel (\<^verbatim>\<open>kern/\<close>), its library (\<^verbatim>\<open>lib/\<close>, \<^verbatim>\<open>include/\<close>) and the i386 port
  (\<^verbatim>\<open>arch/x86/\<close>).

  \<^bold>\<open>The program.\<close> At boot \<^verbatim>\<open>kern_init\<close> brings up, in this order, the console, the physical memory
  manager, the slab allocator, the interrupt controllers, virtual memory, the process table and the
  timer, and then becomes the idle thread. The buddy system owns the physical pages; page tables,
  kernel stacks and the slab allocator take pages from it; address spaces and processes take their
  descriptors from the slab allocator; address spaces keep their areas in a list and, when there are
  many, in a red-black tree; interrupts lead to the page fault handler, the console and the scheduler.

  \<^bold>\<open>Conventions.\<close> Machine integers are words of their width (\<open>u8\<close>, \<open>u16\<close>, \<open>u32\<close>, \<open>u64\<close>), so that they wrap
  as in the code; \<^verbatim>\<open>int\<close> values whose overflow the code cannot reach are integers. State is passed
  explicitly, in records with the fields of the C structs. A function that may panic, fail an
  assertion or run forever returns an \<open>option\<close>, and \<open>None\<close> means that it does not return. A pointer
  that may be \<^verbatim>\<open>NULL\<close> is an option inside that result. Loops without an obvious bound are
  \<open>partial_function (option)\<close>, and that they end is part of the theorems: a theorem states
  \<open>f x = Some y\<close>, never only a property of the result if there is one. No operation of the model has
  fuel; only \<open>list_walk\<close>, which reads a list off the pointer store for the abstraction in \<open>Lists\<close>, is bounded by a number of links.

  \<^bold>\<open>Theories and sources.\<close>

  \<^item> \<open>Prelude\<close>: types, rounding (\<^verbatim>\<open>include/types.h\<close>), assertions, bit operations
    (\<^verbatim>\<open>include/bitops.h\<close>, \<^verbatim>\<open>include/bitops/non-atomic.h\<close>); shared lemmas.
  \<^item> \<open>Lists\<close>: \<^verbatim>\<open>include/list.h\<close> on an explicit pointer store, with the abstraction to lists that the
    other theories use for embedded list links.
  \<^item> \<open>Strings\<close>, \<open>Libs\<close>, \<open>Printfmt\<close>: \<^verbatim>\<open>lib/string.c\<close> on byte-addressed memory, \<^verbatim>\<open>lib/hash.c\<close>,
    \<^verbatim>\<open>lib/rand.c\<close> and the \<^verbatim>\<open>do_div\<close> macro, \<^verbatim>\<open>lib/printfmt.c\<close> with its output function as an argument.
  \<^item> \<open>RbTree\<close>, \<open>RbInsert\<close>, \<open>RbDelete\<close>, \<open>RbIter\<close>, \<open>RbSeq\<close>: \<^verbatim>\<open>lib/rb_tree.c\<close> on a pointer store; the tree
    as a sorted sequence is the contract \<open>RbSeq\<close> gives to its clients.
  \<^item> \<open>Memlayout\<close>, \<open>Pmm\<close>, \<open>Buddy\<close>: page descriptors (\<^verbatim>\<open>kern/include/memlayout.h\<close>), the contract of
    \<^verbatim>\<open>struct pmm_manager\<close> as a locale, and the buddy system (\<^verbatim>\<open>kern/mm/buddy_pmm.c\<close>) that keeps it.
  \<^item> \<open>Mmu\<close>, \<open>Paging\<close>, \<open>PageMap\<close>: address fields and descriptors (\<^verbatim>\<open>arch/x86/include/mmu.h\<close>), physical
    memory set-up and two-level page tables (\<^verbatim>\<open>arch/x86/pmm.c\<close>, \<^verbatim>\<open>arch/x86/include/pmm.h\<close>), and their
    correctness as a map from pages to frames with reference counters and no stale translation.
  \<^item> \<open>Slab\<close>, \<open>SlabLayout\<close>, \<open>SlabAlloc\<close>, \<open>SlabFree\<close>, \<open>SlabSpec\<close>: \<^verbatim>\<open>kern/mm/slab.c\<close>, its invariant, and
    \<^verbatim>\<open>kmalloc\<close> and \<^verbatim>\<open>kfree\<close> as an allocator of disjoint objects.
  \<^item> \<open>Shmem\<close>, \<open>Vmm\<close>, \<open>VmmSpace\<close>, \<open>VmmUnmap\<close>: shared memory and locks (\<^verbatim>\<open>kern/mm/shmem.c\<close>,
    \<^verbatim>\<open>include/lock.h\<close>), address spaces (\<^verbatim>\<open>kern/mm/vmm.c\<close>), their invariant and the operations as
    operations on sets of addresses.
  \<^item> \<open>VmmFault\<close>, \<open>VmmDup\<close>, \<open>VmmExit\<close>: areas and page tables together. The page fault handler
    \<^verbatim>\<open>do_pgfault\<close> with demand paging and copy-on-write, \<^verbatim>\<open>dup_mmap\<close> for a new process and \<^verbatim>\<open>exit_mmap\<close> for one that ends.
  \<^item> \<open>Proc\<close>, \<open>ProcTable\<close>: \<^verbatim>\<open>kern/process/proc.c\<close>, \<^verbatim>\<open>kern/schedule/sched.c\<close> and the context switch of
    \<^verbatim>\<open>arch/x86/switch.S\<close>; the invariant of the process table, forking, fair scheduling.
  \<^item> \<open>Console\<close>, \<open>Screen\<close>, \<open>ConsoleInput\<close>, \<open>Keyboard\<close>: \<^verbatim>\<open>arch/x86/generic/console.c\<close> and \<^verbatim>\<open>lib/stdio.c\<close>. The
    devices are an oracle for the answers of the ports and a record of all accesses, from which the theorems compute what the
    display controller and the printer make of them; the screen is a window on a growing sheet of text, the input is a queue, scan
    codes stand for gestures on the keys of a US keyboard, which is written out key by key.
  \<^item> \<open>Readline\<close>: \<^verbatim>\<open>lib/readline.c\<close>, with a user who types while the line is read, and \<^verbatim>\<open>kern/debug/panic.c\<close>.
  \<^item> \<open>Trap\<close>, \<open>TrapSafe\<close>: \<^verbatim>\<open>arch/x86/generic/intr.c\<close> and \<^verbatim>\<open>arch/x86/generic/clock.c\<close>: interrupt controllers and
    descriptor table, the dispatch of traps to page faults, timer, console and scheduler. The two 8259A controllers are state machines
    driven by the writes recorded.
  \<^item> \<open>Boot\<close>: the boot loaders \<^verbatim>\<open>arch/x86/generic/boot/bootmain.c\<close>, with the disk as a state machine of arbitrary
    delays that delivers only what its registers ask for, and \<^verbatim>\<open>arch/arm/s3c2410/boot/bootmain.c\<close>, \<^verbatim>\<open>include/elf.h\<close>, and \<^verbatim>\<open>arch/x86/tool/sign.c\<close>.

  \<^bold>\<open>Interfaces.\<close> The locales are the contracts between components, each interpreted on the model:
  \<open>pmm_manager\<close>, \<open>counted_pages\<close> and \<open>marked_pages\<close> (what page tables and slabs need of the buddy system),
  the sorted sequence of \<open>RbSeq\<close> (what address spaces need of the tree), the allocator of
  \<open>SlabSpec\<close> (what every client needs of \<^verbatim>\<open>kmalloc\<close>), \<open>char_queue\<close> and \<open>input_device\<close> (the input buffer
  and the two devices that fill it), \<open>char_source\<close> (what the line editor needs of the console) and
  \<open>segment_reader\<close> (what the loop over the segments of a kernel needs of the disk or the memory).

  \<^bold>\<open>Bounds.\<close> The 32-bit limits of the code appear as they are: at most \<open>2 ^ 20\<close> pages, addresses below \<open>2 ^ 32\<close>,
  process numbers below \<^verbatim>\<open>MAX_PID\<close>. Signed overflow of counters that cannot reach their limit (reference
  counters, numbers of areas and processes) is excluded by the invariants or not modelled, as the
  theories say where it matters.

  \<^bold>\<open>How the components are joined.\<close> The state of page tables (\<open>machine\<close>) contains that of the buddy system; the
  state of address spaces contains that of page tables; the state of traps contains console and processes. Address
  spaces and processes see \<^verbatim>\<open>kmalloc\<close> as a pool of free objects, which is what \<open>SlabSpec\<close> shows of it. The
  copy-on-write path through three components is covered by \<open>VmmDup\<close> (a fork shares pages and takes the permission to
  write), \<open>VmmFault\<close> (a write gets its own copy) and \<open>VmmExit\<close> (exactly the pages without another
  mapping or holder and the page tables of the areas go back to the allocator). The invariant \<open>pt_ok\<close> of the page tables says which pages
  there are, free or used (\<open>pool\<close>), and how often a page is held by others (\<open>own\<close>), so that a page that is neither free nor used
  would break it; each failure for lack of memory is tied to an empty set of free pages or objects.

  \<^bold>\<open>Not modelled.\<close>
  \<^item> Assembly: \<^verbatim>\<open>bootasm.S\<close>, the entry code, \<^verbatim>\<open>vectors.S\<close> and \<^verbatim>\<open>intr_vector.S\<close>; the atomic operations of
    \<^verbatim>\<open>asm/atomic.h\<close> and \<^verbatim>\<open>asm/bitops.h\<close> are inline assembly, used by the kernel as the sequential operations modelled
    here, since it runs on one processor and turns interrupts off where it shares data with handlers.
  \<^item> The self-tests \<^verbatim>\<open>check_*\<close>, which run at boot and print.
  \<^item> \<^verbatim>\<open>kern_init\<close>, which calls the modelled initialisations in sequence: the components abstract memory at different
    levels (a slab is a word-addressed memory, an address space takes objects from a pool), so that their composition
    would be a statement about the abstractions and not about the code.
  \<^item> The memory management and the devices of the ARM port (\<^verbatim>\<open>arch/arm/pmm.c\<close>, \<^verbatim>\<open>arch/arm/s3c2410\<close>), which offer the
    interface of the i386 port over page tables of another format.
\<close>

end
